(* ===== verification/Hy_Prelude.thy ===== *)
theory Hy_Prelude
  imports Main "HOL-Library.Word"
begin

text \<open>
  Shared vocabulary of the development.

  Go's machine types: a byte is an \<open>8 word\<close>, \<open>[]byte\<close> a list of them, a Go \<open>string\<close> the
  library's \<open>string\<close> (both count bytes); \<open>uint16\<close>, \<open>uint32\<close>, \<open>uint64\<close> are words where the code
  works on bits.  The signed 64-bit quantities of the congestion controllers (\<open>ByteCount\<close>,
  \<open>PacketNumber\<close>, \<open>time.Duration\<close>, \<open>monotime.Time\<close>) are \<open>int\<close> with the wrap-around written out by
  \<open>i64\<close>, the unsigned ones \<open>int\<close> with \<open>u64\<close>; Go's truncated division is \<open>quot\<close> and \<open>rmd\<close>.

  A Go call that returns \<open>(value, error)\<close> gives \<open>'e + 'a\<close>, \<open>Inl\<close> the error.  A run-time panic
  (index out of range, division by zero, explicit \<open>panic\<close>) is the value \<open>None\<close> of an option.
\<close>

named_theorems wire_simps "unfolding of wire-level helpers"
named_theorems panic_simps "when buffer operations do not panic"

section \<open>Types\<close>

type_synonym byte = "8 word"
type_synonym bytes = "8 word list"
type_synonym u16 = "16 word"
type_synonym u32 = "32 word"
type_synonym u64w = "64 word"

abbreviation byte_of :: "'a::len word \<Rightarrow> byte" where
  "byte_of w \<equiv> ucast w"

section \<open>Strings and bytes\<close>

definition bytes_of_string :: "string \<Rightarrow> bytes" where
  "bytes_of_string s = map (\<lambda>c. word_of_nat (of_char c)) s"

definition string_of_bytes :: "bytes \<Rightarrow> string" where
  "string_of_bytes b = map (\<lambda>w. char_of (unat w)) b"

lemma length_bytes_of_string [simp]: "length (bytes_of_string s) = length s"
  by (simp add: bytes_of_string_def)

lemma length_string_of_bytes [simp]: "length (string_of_bytes b) = length b"
  by (simp add: string_of_bytes_def)

lemma bytes_of_string_Nil [simp]: "bytes_of_string s = [] \<longleftrightarrow> s = []"
  by (simp add: bytes_of_string_def)

lemma bytes_string_Nil [simp]: "bytes_of_string [] = []" "string_of_bytes [] = []"
  by (simp_all add: bytes_of_string_def string_of_bytes_def)

lemma of_char_lt_256: "(of_char c :: nat) < 256"
  by (metis nat_of_char_less_256)

lemma string_of_bytes_of_string [simp]: "string_of_bytes (bytes_of_string s) = s"
proof -
  have "char_of (unat (word_of_nat (of_char c) :: byte)) = c" for c
    by (simp add: unat_of_nat of_char_lt_256)
  then show ?thesis
    by (simp add: string_of_bytes_def bytes_of_string_def comp_def)
qed

lemma bytes_of_string_of_bytes [simp]: "bytes_of_string (string_of_bytes b) = b"
proof -
  have "unat w < 2 ^ LENGTH(8)" for w :: byte
    by (rule unsigned_less)
  then have "(of_char (char_of (unat w) :: char) :: nat) = unat w" for w :: byte
    by (simp add: of_char_of)
  then show ?thesis
    by (simp add: string_of_bytes_def bytes_of_string_def comp_def)
qed

section \<open>Buffers\<close>

text \<open>
  \<open>put_at buf off bs\<close> stores \<open>bs\<close> into \<open>buf[off:]\<close> by index and panics (\<open>None\<close>) where an index is
  out of range; \<open>copy_at buf off src\<close> is Go's \<open>copy(buf[off:], src)\<close>, which copies as much as fits
  and returns the count, and panics where the slice bound \<open>off\<close> is beyond the buffer.
\<close>

definition put_at :: "'a list \<Rightarrow> nat \<Rightarrow> 'a list \<Rightarrow> 'a list option" where
  "put_at buf off bs =
     (if off + length bs \<le> length buf
      then Some (take off buf @ bs @ drop (off + length bs) buf) else None)"

definition copy_at :: "'a list \<Rightarrow> nat \<Rightarrow> 'a list \<Rightarrow> ('a list \<times> nat) option" where
  "copy_at buf off src =
     (if off \<le> length buf then
        (let n = min (length buf - off) (length src)
         in Some (take off buf @ take n src @ drop (off + n) buf, n))
      else None)"

lemma put_at_append [panic_simps]:
  "length pre = off \<Longrightarrow> length bs \<le> length rest \<Longrightarrow>
   put_at (pre @ rest) off bs = Some (pre @ bs @ drop (length bs) rest)"
  by (simp add: put_at_def)

lemma copy_at_append [panic_simps]:
  "length pre = off \<Longrightarrow> length src \<le> length rest \<Longrightarrow>
   copy_at (pre @ rest) off src = Some (pre @ src @ drop (length src) rest, length src)"
  by (simp add: copy_at_def Let_def)

lemma put_at_Some_iff [simp]:
  "(\<exists>b. put_at buf off bs = Some b) \<longleftrightarrow> off + length bs \<le> length buf"
  by (simp add: put_at_def)

lemma length_put_at: "put_at buf off bs = Some b \<Longrightarrow> length b = length buf"
  by (auto simp: put_at_def split: if_splits)

lemma length_copy_at: "copy_at buf off src = Some (b, n) \<Longrightarrow> length b = length buf"
  by (auto simp: copy_at_def Let_def split: if_splits)

section \<open>Big-endian integers\<close>

definition be16 :: "u16 \<Rightarrow> bytes" where
  "be16 w = [byte_of (drop_bit 8 w), byte_of w]"

definition be32 :: "u32 \<Rightarrow> bytes" where
  "be32 w = [byte_of (drop_bit 24 w), byte_of (drop_bit 16 w), byte_of (drop_bit 8 w), byte_of w]"

unbundle bit_operations_syntax

definition un_be16 :: "byte \<Rightarrow> byte \<Rightarrow> u16" where
  "un_be16 a b = push_bit 8 (ucast a) OR ucast b"

definition un_be32 :: "byte \<Rightarrow> byte \<Rightarrow> byte \<Rightarrow> byte \<Rightarrow> u32" where
  "un_be32 a b c d =
     push_bit 24 (ucast a) OR push_bit 16 (ucast b) OR push_bit 8 (ucast c) OR ucast d"

lemma length_be [simp]: "length (be16 w) = 2" "length (be32 v) = 4"
  by (simp_all add: be16_def be32_def)

lemma un_be16_be16 [simp]: "un_be16 (byte_of (drop_bit 8 w)) (byte_of w) = w"
  by (rule bit_word_eqI) (auto simp: un_be16_def bit_simps)

lemma un_be32_be32 [simp]:
  "un_be32 (byte_of (drop_bit 24 w)) (byte_of (drop_bit 16 w)) (byte_of (drop_bit 8 w)) (byte_of w) = w"
proof (rule bit_word_eqI)
  fix n assume "n < LENGTH(32)"
  consider "n < 8" | "8 \<le> n" "n < 16" | "16 \<le> n" "n < 24" | "24 \<le> n" by linarith
  then show "bit (un_be32 (byte_of (drop_bit 24 w)) (byte_of (drop_bit 16 w))
      (byte_of (drop_bit 8 w)) (byte_of w)) n = bit w n"
    using \<open>n < LENGTH(32)\<close> by cases (auto simp: un_be32_def bit_simps)
qed

section \<open>Readers\<close>

text \<open>
  An \<open>io.Reader\<close> is the list of bytes still to come, after which it reports end of file.
  \<open>io.ReadFull\<close> reports \<open>EOF\<close> when it could read nothing and \<open>UnexpectedEOF\<close> when it could read
  only a part; reading nothing always succeeds.
\<close>

datatype io_error = IO_EOF | IO_UnexpectedEOF | ProtocolError string

definition ReadFull :: "nat \<Rightarrow> bytes \<Rightarrow> io_error + (bytes \<times> bytes)" where
  "ReadFull n r =
     (if n \<le> length r then Inr (take n r, drop n r)
      else if r = [] then Inl IO_EOF else Inl IO_UnexpectedEOF)"

text \<open>\<open>io.CopyN(io.Discard, r, n)\<close>: fewer than \<open>n\<close> bytes is \<open>EOF\<close>.\<close>

definition DiscardN :: "nat \<Rightarrow> bytes \<Rightarrow> io_error + bytes" where
  "DiscardN n r = (if n \<le> length r then Inr (drop n r) else Inl IO_EOF)"

lemma ReadFull_append [wire_simps]: "length b = n \<Longrightarrow> ReadFull n (b @ r) = Inr (b, r)"
  by (simp add: ReadFull_def)

lemma DiscardN_append [wire_simps]: "length b = n \<Longrightarrow> DiscardN n (b @ r) = Inr r"
  by (simp add: DiscardN_def)

section \<open>Random draws\<close>

text \<open>\<open>rand.Intn(n)\<close> on a raw draw: every value of \<open>{0..<n}\<close> is the result for some draw.\<close>

definition intn :: "nat \<Rightarrow> nat \<Rightarrow> nat" where
  "intn raw n = raw mod n"

lemma intn_less [simp]: "0 < n \<Longrightarrow> intn raw n < n"
  by (simp add: intn_def)

lemma intn_surj: "k < n \<Longrightarrow> \<exists>raw. intn raw n = k"
  by (rule exI [of _ k]) (simp add: intn_def)

section \<open>64-bit arithmetic on integers\<close>

definition i64 :: "int \<Rightarrow> int" where
  "i64 x = (x + 2 ^ 63) mod 2 ^ 64 - 2 ^ 63"

definition u64 :: "int \<Rightarrow> int" where
  "u64 x = x mod 2 ^ 64"

definition in_i64 :: "int \<Rightarrow> bool" where
  "in_i64 x \<longleftrightarrow> - (2 ^ 63) \<le> x \<and> x < 2 ^ 63"

lemma i64_id [simp]: "in_i64 x \<Longrightarrow> i64 x = x"
  by (simp add: i64_def in_i64_def)

lemma i64_id': "- (2 ^ 63) \<le> x \<Longrightarrow> x < 2 ^ 63 \<Longrightarrow> i64 x = x"
  by (simp add: i64_def)

lemma in_i64_i64 [simp]: "in_i64 (i64 x)"
proof -
  have "(x + 2 ^ 63) mod 2 ^ 64 < (2 ^ 64 :: int)" "0 \<le> (x + 2 ^ 63) mod (2 ^ 64 :: int)"
    by (rule pos_mod_bound, simp) (rule pos_mod_sign, simp)
  then show ?thesis by (simp add: i64_def in_i64_def)
qed

lemma u64_id: "0 \<le> x \<Longrightarrow> x < 2 ^ 64 \<Longrightarrow> u64 x = x"
  by (simp add: u64_def)

lemma u64_bounds: "0 \<le> u64 x" "u64 x < 2 ^ 64"
  by (simp_all add: u64_def)

text \<open>Go's integer division and remainder truncate towards zero; a zero divisor panics, so the
  callers test it first.\<close>

definition quot :: "int \<Rightarrow> int \<Rightarrow> int" where
  "quot a b = sgn a * sgn b * (\<bar>a\<bar> div \<bar>b\<bar>)"

definition rmd :: "int \<Rightarrow> int \<Rightarrow> int" where
  "rmd a b = a - b * quot a b"

lemma quot_nonneg [simp]: "0 \<le> a \<Longrightarrow> 0 < b \<Longrightarrow> quot a b = a div b"
  by (cases "a = 0") (simp_all add: quot_def)

lemma rmd_nonneg [simp]: "0 \<le> a \<Longrightarrow> 0 < b \<Longrightarrow> rmd a b = a mod b"
  by (simp add: rmd_def minus_mult_div_eq_mod)

end
