(* ===== verification/Go_Strings.thy ===== *)
theory Go_Strings
  imports Hy_Prelude "HOL-Library.Char_ord" "HOL-Library.Sublist"
begin

text \<open>
  The parts of Go's \<open>strings\<close>, \<open>strconv\<close> and \<open>unicode/utf8\<close> that the modelled code uses.  A Go
  string is a list of bytes; \<open>cb\<close> is the value of one.
\<close>

abbreviation cb :: "char \<Rightarrow> nat" where "cb c \<equiv> of_char c"

definition is_upper :: "char \<Rightarrow> bool" where
  "is_upper c \<longleftrightarrow> 65 \<le> (of_char c :: nat) \<and> (of_char c :: nat) \<le> 90"

definition lower_char :: "char \<Rightarrow> char" where
  "lower_char c = (if is_upper c then char_of (of_char c + 32 :: nat) else c)"

text \<open>
  \<open>strings.ToLower\<close>: ASCII letters, and the two other runes whose lower case is an ASCII letter
  (U+0130 and U+212A, in UTF-8).  The remaining runes keep their bytes: their lower case is never
  ASCII, and the code compares results with ASCII constants only, or with other lowered strings.
\<close>

fun ToLower :: "string \<Rightarrow> string" where
  "ToLower (c1 # c2 # c3 # cs) =
     (if of_char c1 = (196 :: nat) \<and> of_char c2 = (176 :: nat) then CHR ''i'' # ToLower (c3 # cs)
      else if of_char c1 = (226 :: nat) \<and> of_char c2 = (132 :: nat) \<and> of_char c3 = (170 :: nat)
      then CHR ''k'' # ToLower cs
      else lower_char c1 # ToLower (c2 # c3 # cs))"
| "ToLower [c1, c2] =
     (if of_char c1 = (196 :: nat) \<and> of_char c2 = (176 :: nat) then [CHR ''i'']
      else [lower_char c1, lower_char c2])"
| "ToLower [c] = [lower_char c]"
| "ToLower [] = []"

section \<open>White space\<close>

text \<open>The length of the white-space rune a string starts with, 0 when there is none.\<close>

definition space_width :: "string \<Rightarrow> nat" where
  "space_width s = (case s of
     [] \<Rightarrow> 0
   | c # cs \<Rightarrow>
       if cb c = 32 \<or> 9 \<le> cb c \<and> cb c \<le> 13 then 1
       else (case cs of
          [] \<Rightarrow> 0
        | d # ds \<Rightarrow>
            if cb c = 194 \<and> (cb d = 133 \<or> cb d = 160) then 2
            else (case ds of
               [] \<Rightarrow> 0
             | e # _ \<Rightarrow>
                 if cb c = 225 \<and> cb d = 154 \<and> cb e = 128 \<or>
                    cb c = 226 \<and> cb d = 128 \<and>
                      (128 \<le> cb e \<and> cb e \<le> 138 \<or> cb e = 168 \<or> cb e = 169 \<or> cb e = 175) \<or>
                    cb c = 226 \<and> cb d = 129 \<and> cb e = 159 \<or> cb c = 227 \<and> cb d = 128 \<and> cb e = 128
                 then 3 else 0)))"

function trim_left :: "string \<Rightarrow> string" where
  "trim_left s = (if s = [] \<or> space_width s = 0 then s else trim_left (drop (space_width s) s))"
  by auto
termination by (relation "measure length") auto

declare trim_left.simps [simp del]

text \<open>The same at the end of a string: its last 1, 2 or 3 bytes are a white-space rune.\<close>

definition ends_in_space :: "nat \<Rightarrow> string \<Rightarrow> bool" where
  "ends_in_space n s \<longleftrightarrow> n \<le> length s \<and> 0 < n \<and> space_width (drop (length s - n) s) = n"

function trim_right :: "string \<Rightarrow> string" where
  "trim_right s =
     (if ends_in_space 1 s then trim_right (take (length s - 1) s)
      else if ends_in_space 2 s then trim_right (take (length s - 2) s)
      else if ends_in_space 3 s then trim_right (take (length s - 3) s)
      else s)"
  by auto
termination by (relation "measure length") (auto simp: ends_in_space_def)

declare trim_right.simps [simp del]

definition TrimSpace :: "string \<Rightarrow> string" where
  "TrimSpace s = trim_right (trim_left s)"

section \<open>Searching and splitting\<close>

fun split_at :: "char \<Rightarrow> string \<Rightarrow> string list" where
  "split_at sep [] = [[]]"
| "split_at sep (c # cs) =
     (if c = sep then [] # split_at sep cs
      else (case split_at sep cs of p # ps \<Rightarrow> (c # p) # ps | [] \<Rightarrow> [[c]]))"

text \<open>\<open>strings.SplitN(s, sep, 2)\<close>: the part before the first separator, and the rest if there is one.\<close>

fun split2 :: "char \<Rightarrow> string \<Rightarrow> string \<times> string option" where
  "split2 sep [] = ([], None)"
| "split2 sep (c # cs) =
     (if c = sep then ([], Some cs) else (case split2 sep cs of (a, r) \<Rightarrow> (c # a, r)))"

fun join :: "string \<Rightarrow> string list \<Rightarrow> string" where
  "join sep [] = []"
| "join sep [p] = p"
| "join sep (p # q # ps) = p @ sep @ join sep (q # ps)"

definition HasPrefix :: "string \<Rightarrow> string \<Rightarrow> bool" where "HasPrefix s p \<longleftrightarrow> take (length p) s = p"

definition HasSuffix :: "string \<Rightarrow> string \<Rightarrow> bool" where
  "HasSuffix s p \<longleftrightarrow> length p \<le> length s \<and> drop (length s - length p) s = p"

fun Contains_str :: "string \<Rightarrow> string \<Rightarrow> bool" where
  "Contains_str [] p \<longleftrightarrow> p = []"
| "Contains_str (c # cs) p \<longleftrightarrow> HasPrefix (c # cs) p \<or> Contains_str cs p"

definition TrimRight :: "string \<Rightarrow> char \<Rightarrow> string" where
  "TrimRight s c = rev (dropWhile (\<lambda>d. d = c) (rev s))"

section \<open>Numbers\<close>

definition is_digit :: "char \<Rightarrow> bool" where "is_digit c \<longleftrightarrow> 48 \<le> cb c \<and> cb c \<le> 57"

definition digits_value :: "string \<Rightarrow> int" where
  "digits_value s = fold (\<lambda>c n. 10 * n + (int (cb c) - 48)) s 0"

text \<open>\<open>strconv.ParseUint(s, 10, bits)\<close>: \<open>None\<close> stands for a syntax or range error.\<close>

definition ParseUint :: "nat \<Rightarrow> string \<Rightarrow> int option" where
  "ParseUint bits s =
     (if s = [] \<or> \<not> list_all is_digit s then None
      else if digits_value s < 2 ^ bits then Some (digits_value s) else None)"

function dec_digits :: "nat \<Rightarrow> string" where
  "dec_digits n = (if n < 10 then [char_of (48 + n)] else dec_digits (n div 10) @ [char_of (48 + n mod 10)])"
  by auto
termination by (relation "measure id") auto

declare dec_digits.simps [simp del]

section \<open>Runes\<close>

text \<open>\<open>[]rune(s)\<close>: UTF-8 decoding, an invalid byte giving U+FFFD.\<close>

definition cont_byte :: "char \<Rightarrow> bool" where "cont_byte c \<longleftrightarrow> 128 \<le> cb c \<and> cb c \<le> 191"

definition decode_rune :: "char \<Rightarrow> string \<Rightarrow> nat \<times> nat" where
  "decode_rune c cs =
     (let b = cb c; bad = (65533, 1);
          c1 = (if cs = [] then CHR 0x00 else cs ! 0);
          c2 = (if length cs < 2 then CHR 0x00 else cs ! 1);
          c3 = (if length cs < 3 then CHR 0x00 else cs ! 2);
          lo = (if b = 224 then 160 else if b = 240 then 144 else 128);
          hi = (if b = 237 then 159 else if b = 244 then 143 else 191)
      in if b < 128 then (b, 1)
         else if b < 194 \<or> 244 < b \<or> cb c1 < lo \<or> hi < cb c1 then bad
         else if b < 224 then ((b - 192) * 64 + (cb c1 - 128), 2)
         else if \<not> cont_byte c2 then bad
         else if b < 240 then ((b - 224) * 4096 + (cb c1 - 128) * 64 + (cb c2 - 128), 3)
         else if \<not> cont_byte c3 then bad
         else ((b - 240) * 262144 + (cb c1 - 128) * 4096 + (cb c2 - 128) * 64 + (cb c3 - 128), 4))"

function runes :: "string \<Rightarrow> nat list" where
  "runes [] = []"
| "runes (c # cs) = (case decode_rune c cs of (r, w) \<Rightarrow> r # runes (drop (w - 1) cs))"
  by pat_completeness auto
termination by (relation "measure length") auto

section \<open>Lemmas\<close>

lemma split_at_nonempty [simp]: "split_at sep s \<noteq> []"
  by (induction s) (auto split: list.splits)

lemma split_at_no_sep: "sep \<notin> set p \<Longrightarrow> split_at sep p = [p]"
  by (induction p) auto

lemma split_at_append: "sep \<notin> set p \<Longrightarrow> split_at sep (p @ sep # s) = p # split_at sep s"
  by (induction p) auto

text \<open>Splitting undoes joining.\<close>

lemma split_join:
  "ps \<noteq> [] \<Longrightarrow> \<forall>p \<in> set ps. sep \<notin> set p \<Longrightarrow> split_at sep (join [sep] ps) = ps"
  by (induction "[sep]" ps rule: join.induct) (simp_all add: split_at_no_sep split_at_append)

lemma join_inj:
  "join [sep] ps = join [sep] qs \<Longrightarrow> ps \<noteq> [] \<Longrightarrow> qs \<noteq> [] \<Longrightarrow> \<forall>p \<in> set ps. sep \<notin> set p \<Longrightarrow>
   \<forall>q \<in> set qs. sep \<notin> set q \<Longrightarrow> ps = qs"
  by (metis split_join)

lemma HasPrefix_iff: "HasPrefix s p \<longleftrightarrow> prefix p s"
  by (metis HasPrefix_def append_eq_conv_conj append_take_drop_id prefix_def)

lemma HasSuffix_iff: "HasSuffix s p \<longleftrightarrow> suffix p s"
proof
  assume "HasSuffix s p"
  then show "suffix p s" unfolding HasSuffix_def by (metis suffix_drop)
next
  assume "suffix p s"
  then show "HasSuffix s p" by (auto simp: suffix_def HasSuffix_def)
qed

lemma Contains_iff: "Contains_str s p \<longleftrightarrow> sublist p s"
  by (induction s) (auto simp: HasPrefix_iff sublist_Cons_right)

lemma dec_digits_digit: "\<forall>c \<in> set (dec_digits n). is_digit c"
proof (induction n rule: dec_digits.induct)
  case (1 n)
  have d: "is_digit (char_of (48 + m))" if "m < 10" for m :: nat
    using that by (simp add: is_digit_def of_char_of)
  show ?case
  proof (cases "n < 10")
    case True
    then show ?thesis using d by (subst dec_digits.simps) simp
  next
    case False
    then show ?thesis using 1 d [of "n mod 10"] by (subst dec_digits.simps) auto
  qed
qed

lemma dec_digits_nonempty [simp]: "dec_digits n \<noteq> []"
  by (subst dec_digits.simps) simp

lemma dec_digits_value: "digits_value (dec_digits n) = int n"
proof (induction n rule: dec_digits.induct)
  case (1 n)
  show ?case
  proof (cases "n < 10")
    case True
    then show ?thesis by (subst dec_digits.simps) (simp add: digits_value_def of_char_of)
  next
    case False
    have "digits_value (dec_digits n) = 10 * digits_value (dec_digits (n div 10)) + int (n mod 10)"
      using False by (subst dec_digits.simps) (simp add: digits_value_def of_char_of)
    also have "\<dots> = int n" using 1 False by (simp add: zdiv_int zmod_int)
    finally show ?thesis .
  qed
qed

lemma dec_digits_inj [simp]: "dec_digits m = dec_digits n \<longleftrightarrow> m = n"
  by (metis dec_digits_value of_nat_eq_iff)

lemma ParseUint_dec_digits:
  "int n < 2 ^ bits \<Longrightarrow> ParseUint bits (dec_digits n) = Some (int n)"
  using dec_digits_digit [of n] by (simp add: ParseUint_def dec_digits_value list_all_iff)

lemma ParseUint_Some:
  "ParseUint bits s = Some n \<Longrightarrow> 0 \<le> n \<and> n < 2 ^ bits \<and> s \<noteq> []"
proof -
  have "0 \<le> fold (\<lambda>c n. 10 * n + (int (cb c) - 48)) s a" if "list_all is_digit s" "0 \<le> a" for a
    using that by (induction s arbitrary: a) (auto simp: is_digit_def)
  then show "ParseUint bits s = Some n \<Longrightarrow> 0 \<le> n \<and> n < 2 ^ bits \<and> s \<noteq> []"
    by (auto simp: ParseUint_def digits_value_def split: if_splits)
qed

end
