(* ===== verification/Go_Net.thy ===== *)
theory Go_Net
  imports Go_Strings
begin

unbundle bit_operations_syntax

text \<open>
  The parts of Go's \<open>net\<close> and \<open>net/netip\<close> that the outbounds use.  A \<open>net.IP\<close> is its bytes, \<open>[]\<close>
  standing for \<open>nil\<close>; \<open>ip_canon\<close> is the form in which two equal addresses are equal lists.
\<close>

definition v4InV6Prefix :: bytes where
  "v4InV6Prefix = [0, 0, 0, 0, 0, 0, 0, 0, 0, 0, 255, 255]"

definition To4 :: "bytes \<Rightarrow> bytes option" where
  "To4 ip = (if length ip = 4 then Some ip
     else if length ip = 16 \<and> take 12 ip = v4InV6Prefix then Some (drop 12 ip) else None)"

definition ip_Equal :: "bytes \<Rightarrow> bytes \<Rightarrow> bool" where
  "ip_Equal ip x \<longleftrightarrow>
     (if length ip = length x then ip = x
      else if length ip = 4 \<and> length x = 16 then take 12 x = v4InV6Prefix \<and> ip = drop 12 x
      else if length ip = 16 \<and> length x = 4 then take 12 ip = v4InV6Prefix \<and> drop 12 ip = x
      else False)"

section \<open>Networks\<close>

type_synonym ipnet = "bytes \<times> bytes"

definition mask_byte :: "nat \<Rightarrow> byte" where
  "mask_byte n = (if 8 \<le> n then 255 else NOT (mask (8 - n)))"

definition CIDRMask :: "int \<Rightarrow> int \<Rightarrow> bytes" where
  "CIDRMask ones bits =
     (if bits \<noteq> 32 \<and> bits \<noteq> 128 \<or> ones < 0 \<or> bits < ones then []
      else map (\<lambda>i. mask_byte (nat ones - 8 * i)) [0..<nat bits div 8])"

definition networkNumberAndMask :: "ipnet \<Rightarrow> bytes \<times> bytes" where
  "networkNumberAndMask n =
     (let ip = (case To4 (fst n) of Some x \<Rightarrow> x | None \<Rightarrow> fst n); m = snd n
      in if To4 (fst n) = None \<and> length (fst n) \<noteq> 16 then ([], [])
         else if length m = 4 then (if length ip \<noteq> 4 then ([], []) else (ip, m))
         else if length m = 16 then (ip, if length ip = 4 then drop 12 m else m)
         else ([], []))"

definition net_Contains :: "ipnet \<Rightarrow> bytes \<Rightarrow> bool" where
  "net_Contains n ip =
     (let (nn, m) = networkNumberAndMask n;
          ip = (case To4 ip of Some x \<Rightarrow> x | None \<Rightarrow> ip)
      in length ip = length nn \<and>
         list_all (\<lambda>i. nn ! i AND m ! i = ip ! i AND m ! i) [0..<length ip])"

text \<open>\<open>bytes.Compare(a, b) < 0\<close>.\<close>

fun bytes_less :: "bytes \<Rightarrow> bytes \<Rightarrow> bool" where
  "bytes_less [] ys \<longleftrightarrow> ys \<noteq> []"
| "bytes_less (x # xs) [] \<longleftrightarrow> False"
| "bytes_less (x # xs) (y # ys) \<longleftrightarrow> x < y \<or> x = y \<and> bytes_less xs ys"

section \<open>Parsing\<close>

definition parse_octet :: "string \<Rightarrow> byte option" where
  "parse_octet p =
     (if p = [] \<or> \<not> list_all is_digit p \<or> (1 < length p \<and> hd p = CHR ''0'') \<or> 255 < digits_value p
      then None else Some (word_of_int (digits_value p)))"

definition parseIPv4 :: "string \<Rightarrow> bytes option" where
  "parseIPv4 s =
     (let ps = split_at (CHR ''.'') s
      in if length ps \<noteq> 4 then None else those (map parse_octet ps))"

definition hex_digit :: "char \<Rightarrow> nat option" where
  "hex_digit c =
     (if is_digit c then Some (cb c - 48)
      else if 97 \<le> cb c \<and> cb c \<le> 102 then Some (cb c - 87)
      else if 65 \<le> cb c \<and> cb c \<le> 70 then Some (cb c - 55) else None)"

text \<open>The hexadecimal digits a string starts with, and the rest.\<close>

definition hex_run :: "string \<Rightarrow> string \<times> string" where
  "hex_run s = (takeWhile (\<lambda>c. hex_digit c \<noteq> None) s, dropWhile (\<lambda>c. hex_digit c \<noteq> None) s)"

definition hex_value :: "string \<Rightarrow> nat" where
  "hex_value s = fold (\<lambda>c n. 16 * n + the (hex_digit c)) s 0"

text \<open>The groups of \<open>parseIPv6\<close>: the bytes so far, the position of the ellipsis, what is left.\<close>

function parse_groups :: "string \<Rightarrow> bytes \<Rightarrow> nat option \<Rightarrow> (bytes \<times> nat option) option" where
  "parse_groups s ip ell =
     (if 16 \<le> length ip then (if s = [] then Some (ip, ell) else None)
      else
        (let (h, r) = hex_run s
         in if h = [] \<or> 4 < length h then None
            else if r \<noteq> [] \<and> hd r = CHR ''.'' then
              (if ell = None \<and> length ip \<noteq> 12 \<or> 12 < length ip then None
               else map_option (\<lambda>b. (ip @ b, ell)) (parseIPv4 s))
            else
              (let v = hex_value h; ip = ip @ [word_of_nat (v div 256), word_of_nat v]
               in if r = [] then Some (ip, ell)
                  else if hd r \<noteq> CHR '':'' \<or> length r = 1 then None
                  else if r ! 1 = CHR '':'' then
                    (if ell \<noteq> None then None
                     else if length r = 2 then Some (ip, Some (length ip))
                     else parse_groups (drop 2 r) ip (Some (length ip)))
                  else parse_groups (tl r) ip ell)))"
  by auto
termination
  by (relation "measure (\<lambda>(s, ip, ell). 16 - length ip)") (auto simp: Let_def split: prod.splits)

declare parse_groups.simps [simp del]

definition parseIPv6 :: "string \<Rightarrow> bytes option" where
  "parseIPv6 s =
     (let (s, ell) = (if HasPrefix s ''::'' then (drop 2 s, Some 0) else (s, None))
      in if s = [] \<and> ell \<noteq> None then Some (replicate 16 0)
         else (case parse_groups s [] ell of
                 None \<Rightarrow> None
               | Some (ip, ell) \<Rightarrow>
                   (case ell of
                      None \<Rightarrow> if length ip < 16 then None else Some ip
                    | Some e \<Rightarrow>
                        if length ip < 16 then Some (take e ip @ replicate (16 - length ip) 0 @ drop e ip)
                        else None)))"

text \<open>\<open>netip.ParseAddr\<close> for addresses without a zone: 4 or 16 bytes.\<close>

definition ParseAddr :: "string \<Rightarrow> bytes option" where
  "ParseAddr s =
     (case dropWhile (\<lambda>c. c \<notin> {CHR ''.'', CHR '':'', CHR ''%''}) s of
        [] \<Rightarrow> None
      | c # _ \<Rightarrow> if c = CHR ''.'' then parseIPv4 s
                else if c = CHR ''%'' \<or> CHR ''%'' \<in> set s then None
                else parseIPv6 s)"

definition As16 :: "bytes \<Rightarrow> bytes" where
  "As16 a = (if length a = 4 then v4InV6Prefix @ a else a)"

definition ParseIP :: "string \<Rightarrow> bytes option" where
  "ParseIP s = map_option As16 (ParseAddr s)"

definition ip_Mask :: "bytes \<Rightarrow> bytes \<Rightarrow> bytes" where
  "ip_Mask ip m =
     (let m = (if length m = 16 \<and> length ip = 4 \<and> take 12 m = replicate 12 255 then drop 12 m else m);
          ip = (if length m = 4 \<and> length ip = 16 \<and> take 12 ip = v4InV6Prefix then drop 12 ip else ip)
      in if length ip \<noteq> length m then [] else map2 (AND) ip m)"

definition ParseCIDR :: "string \<Rightarrow> ipnet option" where
  "ParseCIDR s =
     (case split2 (CHR ''/'') s of
        (addr, None) \<Rightarrow> None
      | (addr, Some bits) \<Rightarrow>
          (case ParseAddr addr of
             None \<Rightarrow> None
           | Some a \<Rightarrow>
               (let n = digits_value bits; len = 8 * int (length a)
                in if bits = [] \<or> \<not> list_all is_digit bits \<or> len < n then None
                   else (let m = CIDRMask n len in Some (ip_Mask (As16 a) m, m)))))"

section \<open>Printing\<close>

definition hex_char :: "nat \<Rightarrow> char" where
  "hex_char d = char_of (if d < 10 then 48 + d else 87 + d)"

function hex_digits :: "nat \<Rightarrow> string" where
  "hex_digits n = (if n < 16 then [hex_char n] else hex_digits (n div 16) @ [hex_char (n mod 16)])"
  by auto
termination by (relation "measure id") auto

declare hex_digits.simps [simp del]

fun words16 :: "bytes \<Rightarrow> nat list" where
  "words16 (a # b # bs) = (256 * unat a + unat b) # words16 bs"
| "words16 _ = []"

text \<open>The zero run that is abbreviated: the first of the longest, of at least two groups.\<close>

definition zero_run :: "nat list \<Rightarrow> nat \<Rightarrow> nat" where
  "zero_run gs i = length (takeWhile (\<lambda>g. g = 0) (drop i gs))"

definition best_step :: "nat list \<Rightarrow> nat \<Rightarrow> (nat \<times> nat) option \<Rightarrow> (nat \<times> nat) option" where
  "best_step gs i best =
     (let l = zero_run gs i
      in if 2 \<le> l \<and> (case best of None \<Rightarrow> True | Some (_, m) \<Rightarrow> m < l) then Some (i, l) else best)"

definition best_run :: "nat list \<Rightarrow> (nat \<times> nat) option" where
  "best_run gs = fold (best_step gs) [0..<8] None"

definition v6_String :: "bytes \<Rightarrow> string" where
  "v6_String ip =
     (let gs = words16 ip; h = map hex_digits gs
      in case best_run gs of
           None \<Rightarrow> join '':'' h
         | Some (i, l) \<Rightarrow> join '':'' (take i h) @ ''::'' @ join '':'' (drop (i + l) h))"

definition v4_String :: "bytes \<Rightarrow> string" where
  "v4_String ip = join ''.'' (map (\<lambda>b. dec_digits (unat b)) ip)"

definition ip_String :: "bytes \<Rightarrow> string" where
  "ip_String ip =
     (if ip = [] then ''<nil>''
      else if length ip \<noteq> 4 \<and> length ip \<noteq> 16
      then CHR ''?'' # concat (map (\<lambda>b. [hex_char (unat b div 16), hex_char (unat b mod 16)]) ip)
      else (case To4 ip of Some p \<Rightarrow> v4_String p | None \<Rightarrow> v6_String ip))"

section \<open>Printed addresses identify the address\<close>

lemma hex_digit_hex_char: "d < 16 \<Longrightarrow> hex_digit (hex_char d) = Some d"
proof -
  assume d: "d < 16"
  have c: "cb (hex_char d) = (if d < 10 then 48 + d else 87 + d)"
    using d unfolding hex_char_def by (simp only: of_char_of) simp
  show ?thesis
    using d unfolding hex_digit_def is_digit_def c by (cases "d < 10") simp_all
qed

lemma hex_digits_nonempty [simp]: "hex_digits n \<noteq> []"
  by (subst hex_digits.simps) simp

lemma hex_digits_nonempty' [simp]: "[] \<noteq> hex_digits n"
  using hex_digits_nonempty [of n] by metis

lemma hex_digits_chars: "\<forall>c \<in> set (hex_digits n). hex_digit c \<noteq> None"
proof (induction n rule: hex_digits.induct)
  case (1 n)
  show ?case
  proof (cases "n < 16")
    case True
    then have "hex_digits n = [hex_char n]" by (subst hex_digits.simps) simp
    with True show ?thesis by (simp add: hex_digit_hex_char)
  next
    case False
    then have "hex_digits n = hex_digits (n div 16) @ [hex_char (n mod 16)]" by (subst hex_digits.simps) simp
    with 1 [OF False] show ?thesis by (simp add: hex_digit_hex_char)
  qed
qed

lemma hex_value_hex_digits: "hex_value (hex_digits n) = n"
proof (induction n rule: hex_digits.induct)
  case (1 n)
  show ?case
  proof (cases "n < 16")
    case True
    then have "hex_digits n = [hex_char n]" by (subst hex_digits.simps) simp
    with True show ?thesis by (simp add: hex_value_def hex_digit_hex_char)
  next
    case False
    then have "hex_digits n = hex_digits (n div 16) @ [hex_char (n mod 16)]" by (subst hex_digits.simps) simp
    then have "hex_value (hex_digits n) = 16 * hex_value (hex_digits (n div 16)) + n mod 16"
      by (simp add: hex_value_def hex_digit_hex_char)
    with 1 [OF False] show ?thesis by simp
  qed
qed

lemma not_hex: "hex_digit (CHR '':'') = None" "hex_digit (CHR ''.'') = None" "hex_digit (CHR ''|'') = None"
  by (simp_all add: hex_digit_def is_digit_def)

lemma hex_digits_no_sep:
  "CHR '':'' \<notin> set (hex_digits n)" "CHR ''.'' \<notin> set (hex_digits n)" "CHR ''|'' \<notin> set (hex_digits n)"
  using hex_digits_chars [of n] not_hex by auto

lemma length_words16: "length bs = 16 \<Longrightarrow> length (words16 bs) = 8"
proof -
  have "length (words16 bs) = length bs div 2" by (induction bs rule: words16.induct) auto
  then show "length bs = 16 \<Longrightarrow> ?thesis" by simp
qed

lemma pair_256: "256 * a + b = 256 * c + d \<Longrightarrow> b < 256 \<Longrightarrow> d < 256 \<Longrightarrow> a = c \<and> b = (d :: nat)"
proof -
  assume e: "256 * a + b = 256 * c + d" and b: "b < 256" "d < 256"
  have "(256 * a + b) mod 256 = (256 * c + d) mod 256" using e by simp
  then have "b = d" using b by simp
  with e show ?thesis by simp
qed

lemma words16_inj: "words16 xs = words16 ys \<Longrightarrow> length xs = length ys \<Longrightarrow> even (length xs) \<Longrightarrow> xs = ys"
proof (induction xs arbitrary: ys rule: words16.induct)
  case (1 a b bs)
  then obtain c d ds where ys: "ys = c # d # ds" by (cases ys rule: words16.cases) auto
  have "unat a < 256" "unat b < 256" "unat c < 256" "unat d < 256"
    using unsigned_less [of a] unsigned_less [of b] unsigned_less [of c] unsigned_less [of d] by simp_all
  moreover have "256 * unat a + unat b = 256 * unat c + unat d" using 1(2) ys by simp
  ultimately have "unat a = unat c" "unat b = unat d" using pair_256 by blast+
  then have "a = c" "b = d" by (simp_all add: unsigned_word_eqI)
  with 1 ys show ?case by simp
qed auto

lemma zero_run_split:
  assumes "zero_run gs i = l" "i \<le> length gs"
  shows "take i gs @ replicate l 0 @ drop (i + l) gs = gs"
proof -
  have "takeWhile (\<lambda>g. g = 0) (drop i gs) = replicate l 0"
  proof -
    have "replicate (length (takeWhile (\<lambda>g. g = 0) (drop i gs))) 0 = takeWhile (\<lambda>g. g = 0) (drop i gs)"
      by (rule replicate_length_same) (auto dest: set_takeWhileD)
    then show ?thesis using assms(1) by (simp add: zero_run_def)
  qed
  moreover have "dropWhile (\<lambda>g. g = 0) (drop i gs) = drop (i + l) gs"
    using assms(1) unfolding zero_run_def by (simp add: dropWhile_eq_drop add.commute)
  ultimately show ?thesis by (metis append_take_drop_id takeWhile_dropWhile_id)
qed

lemma best_run_split:
  assumes "best_run gs = Some (i, l)" "length gs = 8"
  shows "take i gs @ replicate l 0 @ drop (i + l) gs = gs"
proof -
  define ok where "ok = (\<lambda>b. \<forall>i l. b = Some (i, l) \<longrightarrow> l = zero_run gs i \<and> i < (8 :: nat))"
  have step: "ok (best_step gs i b)" if "i < 8" "ok b" for i b
    using that by (simp add: ok_def best_step_def Let_def)
  have "ok (fold (best_step gs) is b)" if "\<forall>i \<in> set is. i < 8" "ok b" for "is" b
    using that step by (induction "is" arbitrary: b) simp_all
  from this [of "[0..<8]" None] have "ok (best_run gs)" by (simp add: ok_def best_run_def)
  then have "l = zero_run gs i" "i < 8" using assms(1) by (simp_all add: ok_def)
  with assms(2) show ?thesis by (intro zero_run_split) simp_all
qed

text \<open>The text of an IPv6 address as tokens between colons; an empty token marks the ellipsis.\<close>

definition ell_part :: "string list \<Rightarrow> string list" where
  "ell_part ts = (if ts = [] then [[]] else ts)"

definition v6_tokens :: "bytes \<Rightarrow> string list" where
  "v6_tokens ip =
     (let h = map hex_digits (words16 ip)
      in case best_run (words16 ip) of
           None \<Rightarrow> h
         | Some (i, l) \<Rightarrow> ell_part (take i h) @ [] # ell_part (drop (i + l) h))"

definition groups_of :: "string list \<Rightarrow> nat list" where
  "groups_of ts =
     (let l = map hex_value (takeWhile (\<lambda>t. t \<noteq> []) ts);
          r = map hex_value (rev (takeWhile (\<lambda>t. t \<noteq> []) (rev ts)))
      in if [] \<in> set ts then l @ replicate (8 - length l - length r) 0 @ r else l)"

lemma join_append:
  "xs \<noteq> [] \<Longrightarrow> ys \<noteq> [] \<Longrightarrow> join sep (xs @ ys) = join sep xs @ sep @ join sep ys"
proof (induction sep xs rule: join.induct)
  case (2 sep p)
  then show ?case by (cases ys) auto
qed auto

lemma v6_String_tokens: "v6_String ip = join '':'' (v6_tokens ip)"
proof (cases "best_run (words16 ip)")
  case None
  then show ?thesis by (simp add: v6_String_def v6_tokens_def)
next
  case (Some il)
  obtain i l where il: "il = (i, l)" by fastforce
  have j: "join '':'' ts = join '':'' (ell_part ts)" for ts by (simp add: ell_part_def)
  have n: "ell_part ts \<noteq> []" for ts by (simp add: ell_part_def)
  have "join '':'' (ell_part a @ [] # ell_part b) = join '':'' a @ ''::'' @ join '':'' b" for a b
    using join_append [of "ell_part a" "[] # ell_part b"] join_append [of "[[]]" "ell_part b"] n j by simp
  then show ?thesis using Some il by (simp add: v6_String_def v6_tokens_def Let_def)
qed

lemma groups_of_tokens:
  assumes "length ip = 16"
  shows "groups_of (v6_tokens ip) = words16 ip"
proof -
  let ?gs = "words16 ip" and ?h = "map hex_digits (words16 ip)"
  have len: "length ?gs = 8" using assms by (rule length_words16)
  have hv: "map hex_value (map hex_digits gs) = gs" for gs :: "nat list"
    by (simp add: comp_def hex_value_hex_digits)
  have ne: "takeWhile (\<lambda>t. t \<noteq> []) (map hex_digits gs) = map hex_digits gs" for gs :: "nat list"
    by (rule takeWhile_eq_all_conv [THEN iffD2]) auto
  have tw: "takeWhile (\<lambda>t. t \<noteq> []) (ell_part (map hex_digits gs) @ [] # ts) = map hex_digits gs"
    for gs :: "nat list" and ts
  proof -
    have "takeWhile (\<lambda>t. t \<noteq> []) (map hex_digits gs @ [] # ts) = map hex_digits gs"
      by (subst takeWhile_append2) auto
    then show ?thesis by (auto simp: ell_part_def)
  qed
  have rv: "rev (ell_part (map hex_digits gs)) = ell_part (map hex_digits (rev gs))" for gs :: "nat list"
    by (simp add: ell_part_def rev_map)
  show ?thesis
  proof (cases "best_run ?gs")
    case None
    then have "v6_tokens ip = ?h" by (simp add: v6_tokens_def Let_def)
    moreover have "[] \<notin> set ?h" by auto
    ultimately show ?thesis by (simp only: groups_of_def Let_def if_False ne hv)
  next
    case (Some il)
    obtain i l where il: "il = (i, l)" by fastforce
    have toks: "v6_tokens ip = ell_part (map hex_digits (take i ?gs)) @
        [] # ell_part (map hex_digits (drop (i + l) ?gs))"
      using Some il by (simp add: v6_tokens_def Let_def take_map drop_map)
    have rt: "rev (v6_tokens ip) = ell_part (map hex_digits (rev (drop (i + l) ?gs))) @
        [] # ell_part (map hex_digits (rev (take i ?gs)))"
      by (simp add: toks rv)
    have s: "take i ?gs @ replicate l 0 @ drop (i + l) ?gs = ?gs"
      using Some il by (intro best_run_split [OF _ len]) simp
    then have "length (take i ?gs) + (l + length (drop (i + l) ?gs)) = 8"
      using len by (metis length_append length_replicate)
    then have z: "8 - length (take i ?gs) - length (drop (i + l) ?gs) = l" by linarith
    have "groups_of (v6_tokens ip) =
        take i ?gs @ replicate (8 - length (take i ?gs) - length (drop (i + l) ?gs)) 0 @ drop (i + l) ?gs"
      unfolding groups_of_def Let_def rt by (simp add: toks tw hv rev_map del: map_map)
    then show ?thesis unfolding z s .
  qed
qed

lemma v6_String_inj:
  assumes "length ip = 16" "length jp = 16" "v6_String ip = v6_String jp"
  shows "ip = jp"
proof -
  have no: "CHR '':'' \<notin> set t" if "t \<in> set (v6_tokens p)" for t p
    using that hex_digits_no_sep(1)
    by (auto simp: v6_tokens_def ell_part_def Let_def split: option.splits if_splits
        dest!: in_set_takeD in_set_dropD)
  have nonempty: "length p = 16 \<Longrightarrow> v6_tokens p \<noteq> []" for p
    using length_words16 [of p] by (auto simp: v6_tokens_def Let_def split: option.splits)
  have "v6_tokens ip = v6_tokens jp"
    using assms no nonempty by (intro join_inj [of "CHR '':''"]) (auto simp: v6_String_tokens)
  then have "words16 ip = words16 jp" using groups_of_tokens assms(1,2) by metis
  then show ?thesis using words16_inj assms(1,2) by simp
qed

lemma v4_String_inj:
  assumes "length ip = 4" "length jp = 4" "v4_String ip = v4_String jp"
  shows "ip = jp"
proof -
  have no: "CHR ''.'' \<notin> set (dec_digits n)" for n
    using dec_digits_digit [of n] by (auto simp: is_digit_def)
  have "map (\<lambda>b. dec_digits (unat b)) ip = map (\<lambda>b. dec_digits (unat b)) jp"
    using assms no by (intro join_inj [of "CHR ''.''"]) (auto simp: v4_String_def)
  then have "map digits_value (map (\<lambda>b. dec_digits (unat b)) ip) =
      map digits_value (map (\<lambda>b. dec_digits (unat b)) jp)" by (simp only:)
  then have "map (\<lambda>b. int (unat b)) ip = map (\<lambda>b. int (unat b)) jp"
    by (simp add: dec_digits_value comp_def)
  then show ?thesis by (rule map_injective) (simp add: inj_def word_uint_eq_iff)
qed

text \<open>The form of an address that does not depend on how IPv4 is stored.\<close>

definition ip_canon :: "bytes \<Rightarrow> bytes" where
  "ip_canon ip = (case To4 ip of Some p \<Rightarrow> p | None \<Rightarrow> ip)"

definition ip_ok :: "bytes \<Rightarrow> bool" where
  "ip_ok ip \<longleftrightarrow> ip = [] \<or> length ip = 4 \<or> length ip = 16"

lemma To4_length: "To4 ip = Some p \<Longrightarrow> length p = 4"
  by (auto simp: To4_def split: if_splits)

lemma set_join: "set (join sep ps) \<subseteq> set sep \<union> \<Union> (set ` set ps)"
  by (induction sep ps rule: join.induct) auto

lemma in_join_sep: "1 < length ps \<Longrightarrow> c \<in> set (join [c] ps)"
  by (induction "[c]" ps rule: join.induct) auto

lemma v4_String_chars:
  assumes "length ip = 4"
  shows "CHR ''.'' \<in> set (v4_String ip)" "CHR '':'' \<notin> set (v4_String ip)" "CHR ''|'' \<notin> set (v4_String ip)"
    "CHR ''<'' \<notin> set (v4_String ip)"
proof -
  show "CHR ''.'' \<in> set (v4_String ip)"
    unfolding v4_String_def by (rule in_join_sep) (simp add: assms)
  have "c = CHR ''.'' \<or> is_digit c" if "c \<in> set (v4_String ip)" for c
  proof -
    have "c \<in> set ''.'' \<union> \<Union> (set ` set (map (\<lambda>b. dec_digits (unat b)) ip))"
      using that set_join unfolding v4_String_def by blast
    then show ?thesis using dec_digits_digit by auto
  qed
  from this [of "CHR '':''"] this [of "CHR ''|''"] this [of "CHR ''<''"]
  show "CHR '':'' \<notin> set (v4_String ip)" "CHR ''|'' \<notin> set (v4_String ip)" "CHR ''<'' \<notin> set (v4_String ip)"
    by (auto simp: is_digit_def)
qed

lemma v6_String_chars:
  assumes "length ip = 16"
  shows "CHR '':'' \<in> set (v6_String ip)" "CHR ''|'' \<notin> set (v6_String ip)" "CHR ''<'' \<notin> set (v6_String ip)"
proof -
  have "1 < length (v6_tokens ip)"
    using length_words16 [OF assms] by (auto simp: v6_tokens_def Let_def ell_part_def split: option.splits)
  then show "CHR '':'' \<in> set (v6_String ip)"
    unfolding v6_String_tokens by (rule in_join_sep)
  have t: "hex_digit c \<noteq> None" if "c \<in> set t" "t \<in> set (v6_tokens ip)" for c t
    using that hex_digits_chars
    by (auto simp: v6_tokens_def ell_part_def Let_def split: option.splits if_splits
        dest!: in_set_takeD in_set_dropD)
  have "c = CHR '':'' \<or> hex_digit c \<noteq> None" if "c \<in> set (v6_String ip)" for c
  proof -
    have "c \<in> set '':'' \<union> \<Union> (set ` set (v6_tokens ip))"
      using that set_join unfolding v6_String_tokens by blast
    then show ?thesis using t by auto
  qed
  from this [of "CHR ''|''"] this [of "CHR ''<''"]
  show "CHR ''|'' \<notin> set (v6_String ip)" "CHR ''<'' \<notin> set (v6_String ip)"
    by (auto simp: hex_digit_def is_digit_def)
qed

text \<open>The three shapes of a printed address.\<close>

lemma ip_String_cases:
  assumes "ip_ok ip"
  obtains "ip = []" "ip_String ip = ''<nil>'' "
  | "length (ip_canon ip) = 4" "ip_String ip = v4_String (ip_canon ip)"
  | "length (ip_canon ip) = 16" "ip_String ip = v6_String (ip_canon ip)"
proof (cases "ip = []")
  case True
  then show ?thesis using that(1) by (simp add: ip_String_def)
next
  case False
  then have l: "length ip = 4 \<or> length ip = 16" using assms by (simp add: ip_ok_def)
  show ?thesis
  proof (cases "To4 ip")
    case None
    with l have "length ip = 16" by (auto simp: To4_def)
    with None False show ?thesis using that(3) by (simp add: ip_String_def ip_canon_def)
  next
    case (Some p)
    with l False show ?thesis
      using that(2) To4_length [OF Some] by (auto simp: ip_String_def ip_canon_def)
  qed
qed

lemma ip_String_no_bar: "ip_ok ip \<Longrightarrow> CHR ''|'' \<notin> set (ip_String ip)"
  by (erule ip_String_cases) (simp_all add: v4_String_chars v6_String_chars)

lemma ip_String_inj:
  assumes "ip_ok ip" "ip_ok jp" "ip_String ip = ip_String jp"
  shows "ip_canon ip = ip_canon jp"
proof -
  have lt: "CHR ''<'' \<in> set ''<nil>''" by simp
  have nil: "ip_canon [] = []" by (simp add: ip_canon_def To4_def)
  show ?thesis
  proof (rule ip_String_cases [OF assms(1)])
    assume i: "ip = []" "ip_String ip = ''<nil>''"
    show ?thesis
    proof (rule ip_String_cases [OF assms(2)])
      assume "length (ip_canon jp) = 4" "ip_String jp = v4_String (ip_canon jp)"
      then show ?thesis using assms(3) i lt v4_String_chars(4) [of "ip_canon jp"] by metis
    next
      assume "length (ip_canon jp) = 16" "ip_String jp = v6_String (ip_canon jp)"
      then show ?thesis using assms(3) i lt v6_String_chars(3) [of "ip_canon jp"] by metis
    qed (use i in simp)
  next
    assume i: "length (ip_canon ip) = 4" "ip_String ip = v4_String (ip_canon ip)"
    show ?thesis
    proof (rule ip_String_cases [OF assms(2)])
      assume "ip_String jp = ''<nil>''"
      then show ?thesis using assms(3) i lt v4_String_chars(4) [OF i(1)] by metis
    next
      assume "length (ip_canon jp) = 4" "ip_String jp = v4_String (ip_canon jp)"
      then show ?thesis using assms(3) i v4_String_inj by metis
    next
      assume "length (ip_canon jp) = 16" "ip_String jp = v6_String (ip_canon jp)"
      then show ?thesis using assms(3) i v6_String_chars(1) v4_String_chars(2) by metis
    qed
  next
    assume i: "length (ip_canon ip) = 16" "ip_String ip = v6_String (ip_canon ip)"
    show ?thesis
    proof (rule ip_String_cases [OF assms(2)])
      assume "ip_String jp = ''<nil>''"
      then show ?thesis using assms(3) i lt v6_String_chars(3) [OF i(1)] by metis
    next
      assume "length (ip_canon jp) = 4" "ip_String jp = v4_String (ip_canon jp)"
      then show ?thesis using assms(3) i v6_String_chars(1) v4_String_chars(2) by metis
    next
      assume "length (ip_canon jp) = 16" "ip_String jp = v6_String (ip_canon jp)"
      then show ?thesis using assms(3) i v6_String_inj by metis
    qed
  qed
qed

text \<open>Matching does not see how IPv4 is stored.\<close>

lemma To4_canon: "To4 (ip_canon ip) = To4 ip"
  by (auto simp: ip_canon_def To4_def)

lemma ip_canon_idem [simp]: "ip_canon (ip_canon ip) = ip_canon ip"
  unfolding ip_canon_def [of "ip_canon ip"] To4_canon by (simp add: ip_canon_def split: option.splits)

lemma net_Contains_canon: "net_Contains n (ip_canon ip) = net_Contains n ip"
proof -
  have "(case To4 i of None \<Rightarrow> i | Some x \<Rightarrow> x) = ip_canon i" for i
    by (simp add: ip_canon_def split: option.splits)
  then show ?thesis unfolding net_Contains_def by simp
qed

lemma ip_canon_16:
  "length ip = 16 \<Longrightarrow> ip_canon ip = (if take 12 ip = v4InV6Prefix then drop 12 ip else ip)"
  by (simp add: ip_canon_def To4_def)

lemma ip_canon_4: "length ip = 4 \<Longrightarrow> ip_canon ip = ip"
  by (simp add: ip_canon_def To4_def)

lemma ip_canon_inj_16:
  assumes "length a = 16" "length b = 16" "ip_canon a = ip_canon b"
  shows "a = b"
proof -
  have l: "length (drop 12 a) = 4" "length (drop 12 b) = 4" using assms by simp_all
  consider "take 12 a = v4InV6Prefix" "take 12 b = v4InV6Prefix" | "take 12 a \<noteq> v4InV6Prefix" "take 12 b \<noteq> v4InV6Prefix"
    using assms l by (auto simp: ip_canon_16 split: if_splits)
  then show ?thesis
  proof cases
    case 1
    with assms have "take 12 a = take 12 b" "drop 12 a = drop 12 b" by (simp_all add: ip_canon_16)
    then show ?thesis by (metis append_take_drop_id)
  next
    case 2
    with assms show ?thesis by (simp add: ip_canon_16)
  qed
qed

lemma ip_Equal_canon:
  assumes "length a = 16" "ip_ok ip"
  shows "ip_Equal a ip \<longleftrightarrow> ip_canon a = ip_canon ip"
proof -
  consider "ip = []" | "length ip = 4" | "length ip = 16" using assms(2) by (auto simp: ip_ok_def)
  then show ?thesis
  proof cases
    case 1
    have "ip_canon [] = []" by (simp add: ip_canon_def To4_def)
    moreover have "ip_canon a \<noteq> []" using assms(1) by (auto simp: ip_canon_16)
    ultimately show ?thesis using 1 assms(1) by (simp add: ip_Equal_def)
  next
    case 2
    then show ?thesis using assms(1) by (auto simp: ip_Equal_def ip_canon_4 ip_canon_16)
  next
    case 3
    then show ?thesis using assms(1) ip_canon_inj_16 by (auto simp: ip_Equal_def)
  qed
qed

lemma ip_canon_Nil: "ip_ok ip \<Longrightarrow> ip_canon ip = [] \<longleftrightarrow> ip = []"
  by (auto simp: ip_canon_def To4_def ip_ok_def split: if_splits)

section \<open>Host and port\<close>

definition JoinHostPort :: "string \<Rightarrow> string \<Rightarrow> string" where
  "JoinHostPort host port =
     (if CHR '':'' \<in> set host then ''['' @ host @ '']:'' @ port else host @ '':'' @ port)"

text \<open>\<open>net.SplitHostPort\<close>; \<open>None\<close> is its error.\<close>

definition SplitHostPort :: "string \<Rightarrow> (string \<times> string) option" where
  "SplitHostPort s =
     (case split2 (CHR '':'') (rev s) of
        (_, None) \<Rightarrow> None
      | (rport, Some rhost) \<Rightarrow>
          (let port = rev rport; before = rev rhost
           in if s \<noteq> [] \<and> hd s = CHR ''['' then
                (case split2 (CHR '']'') s of
                   (_, None) \<Rightarrow> None
                 | (a, Some rest) \<Rightarrow>
                     if rest = CHR '':'' # port \<and> CHR ''['' \<notin> set (tl s) \<and> CHR '']'' \<notin> set rest
                     then Some (tl a, port) else None)
              else if CHR '':'' \<in> set before then None
              else if CHR ''['' \<in> set s \<or> CHR '']'' \<in> set s then None
              else Some (before, port)))"

lemma split2_first: "sep \<notin> set a \<Longrightarrow> split2 sep (a @ sep # b) = (a, Some b)"
  by (induction a) auto

lemma split2_none: "sep \<notin> set a \<Longrightarrow> split2 sep a = (a, None)"
  by (induction a) auto

lemma SplitHostPort_Join:
  assumes "CHR ''['' \<notin> set h" "CHR '']'' \<notin> set h"
    and "CHR '':'' \<notin> set p" "CHR ''['' \<notin> set p" "CHR '']'' \<notin> set p"
  shows "SplitHostPort (JoinHostPort h p) = Some (h, p)"
proof (cases "CHR '':'' \<in> set h")
  case True
  have r: "rev (''['' @ h @ '']:'' @ p) = rev p @ CHR '':'' # CHR '']'' # rev h @ ''[''" by simp
  have 1: "split2 (CHR '':'') (rev (''['' @ h @ '']:'' @ p)) = (rev p, Some (CHR '']'' # rev h @ ''[''))"
    unfolding r using assms(3) by (intro split2_first) simp
  have 2: "split2 (CHR '']'') (''['' @ h @ '']:'' @ p) = (CHR ''['' # h, Some (CHR '':'' # p))"
    using split2_first [of "CHR '']''" "CHR ''['' # h" "CHR '':'' # p"] assms(2) by simp
  show ?thesis
    using True assms unfolding SplitHostPort_def JoinHostPort_def if_P [OF True] 1 2 by simp
next
  case False
  have 1: "split2 (CHR '':'') (rev (h @ '':'' @ p)) = (rev p, Some (rev h))"
    using split2_first [of "CHR '':''" "rev p" "rev h"] assms(3) by simp
  have "hd (h @ '':'' @ p) \<noteq> CHR ''[''" using assms(1) by (cases h) auto
  then show ?thesis
    using False assms unfolding SplitHostPort_def JoinHostPort_def if_not_P [OF False] 1 by simp
qed

section \<open>Parsed addresses\<close>

lemma parseIPv4_length: "parseIPv4 s = Some a \<Longrightarrow> length a = 4"
proof -
  have "those xs = Some a \<Longrightarrow> length a = length xs" for xs :: "byte option list"
    by (induction xs arbitrary: a) (auto split: option.splits)
  then show "parseIPv4 s = Some a \<Longrightarrow> length a = 4"
    by (fastforce simp: parseIPv4_def Let_def split: if_splits)
qed

lemma parse_groups_length:
  "parse_groups s ip ell = Some (ip', ell') \<Longrightarrow> even (length ip) \<Longrightarrow> length ip \<le> 16 \<Longrightarrow>
   (\<forall>e. ell = Some e \<longrightarrow> e \<le> length ip) \<Longrightarrow>
   length ip' \<le> 16 \<and> (\<forall>e. ell' = Some e \<longrightarrow> e \<le> length ip')"
proof (induction s ip ell rule: parse_groups.induct)
  case (1 s ip ell)
  note p = 1(3)
  show ?case
  proof (cases "16 \<le> length ip")
    case True
    then show ?thesis using p 1(4-6) by (subst (asm) parse_groups.simps) (auto split: if_splits)
  next
    case False
    obtain h r where hr: "hex_run s = (h, r)" by fastforce
    define ip1 where "ip1 = ip @ [word_of_nat (hex_value h div 256), word_of_nat (hex_value h)]"
    have len: "length ip1 = length ip + 2" "even (length ip1)" "length ip1 \<le> 16"
    proof -
      have "length ip \<noteq> 15" using 1(4) by presburger
      then show "length ip1 = length ip + 2" "even (length ip1)" "length ip1 \<le> 16"
        using 1(4) False by (simp_all add: ip1_def)
    qed
    have ell1: "\<forall>e. ell = Some e \<longrightarrow> e \<le> length ip1" using 1(6) len(1) by fastforce
    note p' = p [unfolded parse_groups.simps [of s ip ell] hr prod.case Let_def if_not_P [OF False] ip1_def [symmetric]]
    have nb: "\<not> (h = [] \<or> 4 < length h)" using p' by (auto split: if_splits)
    show ?thesis
    proof (cases "r \<noteq> [] \<and> hd r = CHR ''.''")
      case True
      have *: "\<not> (ell = None \<and> length ip \<noteq> 12 \<or> 12 < length ip)" using p' nb True by (auto split: if_splits)
      then obtain b where "parseIPv4 s = Some b" "ip' = ip @ b" "ell' = ell"
        using p' nb True by auto
      then show ?thesis using * parseIPv4_length [of s b] 1(6) by fastforce
    next
      case dot: False
      consider "r = []" "ip' = ip1" "ell' = ell"
        | "ip' = ip1" "ell' = Some (length ip1)"
        | "r \<noteq> []" "\<not> (hd r \<noteq> CHR '':'' \<or> length r = 1)" "r ! 1 = CHR '':''" "ell = None" "length r \<noteq> 2"
          "parse_groups (drop 2 r) ip1 (Some (length ip1)) = Some (ip', ell')"
        | "r \<noteq> []" "\<not> (hd r \<noteq> CHR '':'' \<or> length r = 1)" "r ! 1 \<noteq> CHR '':''"
          "parse_groups (tl r) ip1 ell = Some (ip', ell')"
        using p' nb dot by (auto split: if_splits)
      then show ?thesis
      proof cases
        case 1
        then show ?thesis using len ell1 by simp
      next
        case 2
        then show ?thesis using len by simp
      next
        case 3
        then show ?thesis
          using "1.IH"(1) [OF False hr [symmetric] refl nb dot refl ip1_def] len by simp
      next
        case 4
        then show ?thesis
          using "1.IH"(2) [OF False hr [symmetric] refl nb dot refl ip1_def] len ell1 by simp
      qed
    qed
  qed
qed

lemma ParseIP_length: "ParseIP s = Some a \<Longrightarrow> length a = 16"
proof -
  have v6: "length a = 16" if p: "parseIPv6 t = Some a" for t a
  proof -
    obtain u ell where ue: "(if HasPrefix t ''::'' then (drop 2 t, Some (0 :: nat)) else (t, None)) = (u, ell)" by fastforce
    have e0: "\<forall>e. ell = Some e \<longrightarrow> e \<le> length []" using ue by (auto split: if_splits)
    show ?thesis
    proof (cases "u = [] \<and> ell \<noteq> None")
      case True
      then show ?thesis using p ue by (auto simp: parseIPv6_def)
    next
      case False
      note p' = p [unfolded parseIPv6_def ue Let_def prod.case if_not_P [OF False]]
      then obtain ip ell' where g: "parse_groups u [] ell = Some (ip, ell')" by (auto split: option.splits)
      have "length ip \<le> 16 \<and> (\<forall>e. ell' = Some e \<longrightarrow> e \<le> length ip)"
        using parse_groups_length [OF g _ _ e0] by simp
      then show ?thesis using p' g by (auto split: option.splits if_splits)
    qed
  qed
  show "ParseIP s = Some a \<Longrightarrow> length a = 16"
    using parseIPv4_length v6
    by (fastforce simp: ParseIP_def ParseAddr_def As16_def v4InV6Prefix_def split: list.splits if_splits)
qed

end
