(* ===== verification/Acl_Match.thy ===== *)
theory Acl_Match
  imports Go_Net
begin

text \<open>
  \<open>extras/outbounds/acl/matchers.go\<close> and \<open>matchers_v2geo.go\<close>: the host matchers of ACL rules.
  Parameters: \<open>toUnicode\<close> is the IDNA library (\<open>None\<close> its error), \<open>compileRegex\<close> Go's \<open>regexp\<close>
  package.  Lists of networks and of domains come from the geo databases, whose generated message
  types are the records \<open>geo_cidr\<close>, \<open>GeoIP\<close>, \<open>geo_domain\<close> and \<open>GeoSite\<close>.
\<close>

record hostInfo =
  hi_Name :: string
  hi_IPv4 :: bytes
  hi_IPv6 :: bytes

section \<open>Domain patterns\<close>

datatype domainMode = domainMatchExact | domainMatchWildcard | domainMatchSuffix

fun deepMatchRune :: "nat list \<Rightarrow> nat list \<Rightarrow> bool" where
  "deepMatchRune str [] \<longleftrightarrow> str = []"
| "deepMatchRune [] (p # ps) \<longleftrightarrow> p = 42 \<and> deepMatchRune [] ps"
| "deepMatchRune (c # cs) (p # ps) \<longleftrightarrow>
     (if p = 42 then deepMatchRune (c # cs) ps \<or> deepMatchRune cs (p # ps)
      else c = p \<and> deepMatchRune cs ps)"

definition domain_Match :: "(string \<Rightarrow> string option) \<Rightarrow> string \<Rightarrow> domainMode \<Rightarrow> hostInfo \<Rightarrow> bool" where
  "domain_Match toUnicode pattern dmode host =
     (let name = (case toUnicode (hi_Name host) of Some n \<Rightarrow> n | None \<Rightarrow> hi_Name host)
      in case dmode of
           domainMatchExact \<Rightarrow> name = pattern
         | domainMatchWildcard \<Rightarrow> deepMatchRune (runes name) (runes pattern)
         | domainMatchSuffix \<Rightarrow> name = pattern \<or> HasSuffix name (CHR ''.'' # pattern))"

section \<open>GeoIP\<close>

record geo_cidr =
  cidr_Ip :: bytes
  cidr_Prefix :: int

record GeoIP =
  gi_Cidr :: "geo_cidr list"
  gi_InverseMatch :: bool

record geoipMatcher =
  gm_N4 :: "ipnet list"
  gm_N6 :: "ipnet list"
  gm_Inverse :: bool

text \<open>The binary search of \<open>matchIP\<close>, on the indices \<open>left\<close> to \<open>right\<close>.\<close>

function net_search :: "ipnet list \<Rightarrow> bytes \<Rightarrow> int \<Rightarrow> int \<Rightarrow> bool" where
  "net_search n ip left right =
     (if \<not> left \<le> right then False
      else
        (let mid = (left + right) div 2; e = n ! nat mid
         in if net_Contains e ip then True
            else if bytes_less (fst e) ip then net_search n ip (mid + 1) right
            else net_search n ip left (mid - 1)))"
  by auto
termination by (relation "measure (\<lambda>(n, ip, l, r). nat (r - l + 1))") (auto simp: Let_def)

declare net_search.simps [simp del]

definition matchIP :: "geoipMatcher \<Rightarrow> bytes \<Rightarrow> bool" where
  "matchIP m ip =
     (let (ip, n) = (case To4 ip of Some ip4 \<Rightarrow> (ip4, gm_N4 m) | None \<Rightarrow> (ip, gm_N6 m))
      in net_search n ip 0 (int (length n) - 1))"

definition geoip_Match :: "geoipMatcher \<Rightarrow> hostInfo \<Rightarrow> bool" where
  "geoip_Match m host =
     (if hi_IPv4 host \<noteq> [] \<and> matchIP m (hi_IPv4 host) then \<not> gm_Inverse m
      else if hi_IPv6 host \<noteq> [] \<and> matchIP m (hi_IPv6 host) then \<not> gm_Inverse m
      else gm_Inverse m)"

fun collect_nets :: "geo_cidr list \<Rightarrow> ipnet list \<Rightarrow> ipnet list \<Rightarrow> (ipnet list \<times> ipnet list) option" where
  "collect_nets [] n4 n6 = Some (n4, n6)"
| "collect_nets (c # cs) n4 n6 =
     (if length (cidr_Ip c) = 4
      then collect_nets cs (n4 @ [(cidr_Ip c, CIDRMask (cidr_Prefix c) 32)]) n6
      else if length (cidr_Ip c) = 16
      then collect_nets cs n4 (n6 @ [(cidr_Ip c, CIDRMask (cidr_Prefix c) 128)])
      else None)"

text \<open>\<open>sort.Slice\<close> by the network's address.\<close>

fun insert_net :: "ipnet \<Rightarrow> ipnet list \<Rightarrow> ipnet list" where
  "insert_net e [] = [e]"
| "insert_net e (x # xs) = (if bytes_less (fst x) (fst e) then x # insert_net e xs else e # x # xs)"

definition sort_nets :: "ipnet list \<Rightarrow> ipnet list" where
  "sort_nets n = foldr insert_net n []"

definition newGeoIPMatcher :: "GeoIP \<Rightarrow> geoipMatcher option" where
  "newGeoIPMatcher list =
     (case collect_nets (gi_Cidr list) [] [] of
        None \<Rightarrow> None
      | Some (n4, n6) \<Rightarrow>
          Some \<lparr>gm_N4 = sort_nets n4, gm_N6 = sort_nets n6, gm_Inverse = gi_InverseMatch list\<rparr>)"

section \<open>GeoSite\<close>

datatype geositeDomainType =
  geositeDomainPlain | geositeDomainRegex | geositeDomainRoot | geositeDomainFull | geositeDomainOther

record geo_domain =
  dom_Type :: geositeDomainType
  dom_Value :: string
  dom_Attribute :: "string list"

record geositeDomain =
  gd_Type :: geositeDomainType
  gd_Value :: string
  gd_Regex :: "(string \<Rightarrow> bool) option"
  gd_Attrs :: "string list"

record geositeMatcher =
  gs_Domains :: "geositeDomain list"
  gs_Attrs :: "string list"
  gs_indexed :: bool
  gs_full :: "string list"
  gs_root :: "string list"
  gs_residual :: "geositeDomain list"

definition attrsAllow :: "string list \<Rightarrow> geositeDomain \<Rightarrow> bool" where
  "attrsAllow attrs domain =
     (if attrs = [] then True
      else if gd_Attrs domain = [] then False
      else list_all (\<lambda>a. a \<in> set (gd_Attrs domain)) attrs)"

fun index_step :: "string list \<Rightarrow> geositeDomain \<Rightarrow> string list \<times> string list \<times> geositeDomain list
    \<Rightarrow> string list \<times> string list \<times> geositeDomain list" where
  "index_step attrs domain (full, root, residual) =
     (if \<not> attrsAllow attrs domain then (full, root, residual)
      else (case gd_Type domain of
              geositeDomainFull \<Rightarrow> (List.insert (gd_Value domain) full, root, residual)
            | geositeDomainRoot \<Rightarrow> (full, List.insert (gd_Value domain) root, residual)
            | geositeDomainPlain \<Rightarrow> (full, root, residual @ [domain])
            | geositeDomainRegex \<Rightarrow> (full, root, residual @ [domain])
            | geositeDomainOther \<Rightarrow> (full, root, residual)))"

definition buildIndex :: "geositeMatcher \<Rightarrow> geositeMatcher" where
  "buildIndex m =
     (case fold (index_step (gs_Attrs m)) (gs_Domains m) ([], [], []) of
        (full, root, residual) \<Rightarrow>
          m\<lparr>gs_indexed := True, gs_full := full, gs_root := root, gs_residual := residual, gs_Domains := []\<rparr>)"

definition matchDomain :: "string list \<Rightarrow> geositeDomain \<Rightarrow> hostInfo \<Rightarrow> bool" where
  "matchDomain attrs domain host =
     (if attrs \<noteq> [] \<and> (gd_Attrs domain = [] \<or> \<not> list_all (\<lambda>a. a \<in> set (gd_Attrs domain)) attrs) then False
      else (case gd_Type domain of
              geositeDomainPlain \<Rightarrow> Contains_str (hi_Name host) (gd_Value domain)
            | geositeDomainRegex \<Rightarrow> (case gd_Regex domain of Some r \<Rightarrow> r (hi_Name host) | None \<Rightarrow> False)
            | geositeDomainFull \<Rightarrow> hi_Name host = gd_Value domain
            | geositeDomainRoot \<Rightarrow>
                (if hi_Name host = gd_Value domain then True
                 else
                   (let n = length (hi_Name host); v = length (gd_Value domain)
                    in n > v \<and> hi_Name host ! (n - v - 1) = CHR ''.'' \<and>
                       drop (n - v) (hi_Name host) = gd_Value domain))
            | geositeDomainOther \<Rightarrow> False))"

text \<open>The loop of \<open>Match\<close> that probes what follows each dot.\<close>

fun probe_labels :: "string list \<Rightarrow> string \<Rightarrow> bool" where
  "probe_labels root [] = False"
| "probe_labels root (c # cs) = (if c = CHR ''.'' \<and> cs \<in> set root then True else probe_labels root cs)"

definition geosite_Match :: "geositeMatcher \<Rightarrow> hostInfo \<Rightarrow> bool \<times> geositeMatcher" where
  "geosite_Match m host =
     (let m = (if gs_indexed m then m else buildIndex m); name = hi_Name host
      in (if gs_full m \<noteq> [] \<and> name \<in> set (gs_full m) then True
          else if gs_root m \<noteq> [] \<and> (name \<in> set (gs_root m) \<or> probe_labels (gs_root m) name) then True
          else list_ex (\<lambda>d. matchDomain (gs_Attrs m) d host) (gs_residual m), m))"

definition domainAttributeToMap :: "string list \<Rightarrow> string list" where
  "domainAttributeToMap attrs = remdups attrs"

fun geosite_domain :: "(string \<Rightarrow> (string \<Rightarrow> bool) option) \<Rightarrow> geo_domain \<Rightarrow> geositeDomain option" where
  "geosite_domain compileRegex d =
     (case dom_Type d of
        geositeDomainRegex \<Rightarrow>
          (case compileRegex (dom_Value d) of
             None \<Rightarrow> None
           | Some r \<Rightarrow> Some \<lparr>gd_Type = geositeDomainRegex, gd_Value = '''', gd_Regex = Some r,
                            gd_Attrs = domainAttributeToMap (dom_Attribute d)\<rparr>)
      | geositeDomainOther \<Rightarrow> None
      | t \<Rightarrow> Some \<lparr>gd_Type = t, gd_Value = dom_Value d, gd_Regex = None,
                 gd_Attrs = domainAttributeToMap (dom_Attribute d)\<rparr>)"

definition newGeositeMatcher ::
  "(string \<Rightarrow> (string \<Rightarrow> bool) option) \<Rightarrow> geo_domain list \<Rightarrow> string list \<Rightarrow> geositeMatcher option" where
  "newGeositeMatcher compileRegex domains attrs =
     (case those (map (geosite_domain compileRegex) domains) of
        None \<Rightarrow> None
      | Some ds \<Rightarrow> Some \<lparr>gs_Domains = ds, gs_Attrs = attrs, gs_indexed = False, gs_full = [],
                        gs_root = [], gs_residual = []\<rparr>)"

section \<open>Matchers\<close>

datatype hostMatcher =
    ipMatcher bytes
  | cidrMatcher ipnet
  | domainMatcher string domainMode
  | allMatcher
  | GeoipM geoipMatcher
  | GeositeM geositeMatcher

text \<open>Matching may build the index of a geosite matcher, so it returns the matcher.\<close>

fun host_Match :: "(string \<Rightarrow> string option) \<Rightarrow> hostMatcher \<Rightarrow> hostInfo \<Rightarrow> bool \<times> hostMatcher" where
  "host_Match toUnicode (ipMatcher ip) host =
     (ip_Equal ip (hi_IPv4 host) \<or> ip_Equal ip (hi_IPv6 host), ipMatcher ip)"
| "host_Match toUnicode (cidrMatcher n) host =
     (net_Contains n (hi_IPv4 host) \<or> net_Contains n (hi_IPv6 host), cidrMatcher n)"
| "host_Match toUnicode (domainMatcher p md) host = (domain_Match toUnicode p md host, domainMatcher p md)"
| "host_Match toUnicode allMatcher host = (True, allMatcher)"
| "host_Match toUnicode (GeoipM m) host = (geoip_Match m host, GeoipM m)"
| "host_Match toUnicode (GeositeM m) host = (case geosite_Match m host of (r, m) \<Rightarrow> (r, GeositeM m))"

section \<open>What a domain pattern means\<close>

inductive glob :: "nat list \<Rightarrow> nat list \<Rightarrow> bool" where
  glob_nil: "glob [] []"
| glob_char: "p \<noteq> 42 \<Longrightarrow> glob ps cs \<Longrightarrow> glob (p # ps) (p # cs)"
| glob_star: "glob ps cs \<Longrightarrow> glob (42 # ps) (ds @ cs)"

lemma glob_star_skip: "glob ps cs \<Longrightarrow> glob (42 # ps) cs"
  using glob_star [of ps cs "[]"] by simp

lemma glob_star_extend: "glob (42 # ps) cs \<Longrightarrow> glob (42 # ps) (c # cs)"
proof (induction "42 # ps" cs rule: glob.induct)
  case (glob_star cs ds)
  then show ?case using glob.glob_star [of ps cs "c # ds"] by simp
qed simp

lemma deepMatchRune_glob: "deepMatchRune str pat \<longleftrightarrow> glob pat str"
proof
  show "deepMatchRune str pat \<Longrightarrow> glob pat str"
    by (induction str pat rule: deepMatchRune.induct)
      (auto intro: glob.intros glob_star_skip glob_star_extend split: if_splits)
next
  have star: "deepMatchRune cs ps \<Longrightarrow> deepMatchRune (ds @ cs) (42 # ps)" for ds cs ps
  proof (induction ds)
    case Nil
    then show ?case by (cases cs) simp_all
  qed simp
  show "glob pat str \<Longrightarrow> deepMatchRune str pat"
    by (induction rule: glob.induct) (simp_all add: star)
qed

text \<open>
  What the domain matchers accept, by name after IDNA decoding: an exact pattern that name only,
  a suffix pattern the name and its subdomains, never a name that merely ends in the same letters,
  and a wildcard pattern the names obtained by replacing each star by any text.
\<close>

theorem domain_match_meaning:
  assumes "name = (case toUnicode (hi_Name host) of Some n \<Rightarrow> n | None \<Rightarrow> hi_Name host)"
  shows "(domain_Match toUnicode p domainMatchExact host \<longleftrightarrow> name = p) \<and>
    (domain_Match toUnicode p domainMatchSuffix host \<longleftrightarrow> name = p \<or> (\<exists>l. name = l @ ''.'' @ p)) \<and>
    (domain_Match toUnicode p domainMatchWildcard host \<longleftrightarrow> glob (runes p) (runes name))"
  unfolding assms
  by (simp add: domain_Match_def Let_def deepMatchRune_glob HasSuffix_iff suffix_def)

lemma domain_match_meaning_witness:
  "domain_Match Some ''ads.com'' domainMatchSuffix \<lparr>hi_Name = ''x.ads.com'', hi_IPv4 = [], hi_IPv6 = []\<rparr> \<and>
   domain_Match Some ''ads.com'' domainMatchSuffix \<lparr>hi_Name = ''badads.com'', hi_IPv4 = [], hi_IPv6 = []\<rparr> = False"
proof -
  have 1: "\<exists>l. ''x.ads.com'' = l @ ''.'' @ ''ads.com''" by (rule exI [of _ "''x''"]) simp
  have 2: "\<nexists>l. ''badads.com'' = l @ ''.'' @ ''ads.com''"
    by (simp add: suffix_def [symmetric] flip: HasSuffix_iff)
  show ?thesis
    using 1 2 domain_match_meaning [OF refl, where toUnicode = Some and p = "''ads.com''" and
        host = "\<lparr>hi_Name = ''x.ads.com'', hi_IPv4 = [], hi_IPv6 = []\<rparr>"]
      domain_match_meaning [OF refl, where toUnicode = Some and p = "''ads.com''" and
        host = "\<lparr>hi_Name = ''badads.com'', hi_IPv4 = [], hi_IPv6 = []\<rparr>"]
    by simp
qed

section \<open>The index of a geosite matcher\<close>

lemma attrsAllow_matchDomain: "\<not> attrsAllow attrs d \<Longrightarrow> \<not> matchDomain attrs d host"
  by (auto simp: attrsAllow_def matchDomain_def split: if_splits)

lemma attrsAllow_gate:
  "attrsAllow attrs d \<Longrightarrow> \<not> (attrs \<noteq> [] \<and> (gd_Attrs d = [] \<or> \<not> list_all (\<lambda>a. a \<in> set (gd_Attrs d)) attrs))"
  by (auto simp: attrsAllow_def split: if_splits)

lemma probe_labels_iff: "probe_labels root s \<longleftrightarrow> (\<exists>l v. s = l @ ''.'' @ v \<and> v \<in> set root)"
proof (induction s)
  case (Cons c cs)
  have "(\<exists>l v. c # cs = l @ ''.'' @ v \<and> v \<in> set root) \<longleftrightarrow>
      c = CHR ''.'' \<and> cs \<in> set root \<or> (\<exists>l v. cs = l @ ''.'' @ v \<and> v \<in> set root)"
    by (auto simp: Cons_eq_append_conv)
  then show ?case using Cons by auto
qed simp

lemma root_match:
  "(let n = length s; v = length p in n > v \<and> s ! (n - v - 1) = CHR ''.'' \<and> drop (n - v) s = p) \<longleftrightarrow>
     (\<exists>l. s = l @ ''.'' @ p)"
proof
  assume a: "let n = length s; v = length p in n > v \<and> s ! (n - v - 1) = CHR ''.'' \<and> drop (n - v) s = p"
  let ?k = "length s - length p - 1"
  have k: "?k < length s" "Suc ?k = length s - length p" using a by (auto simp: Let_def)
  have "s = take ?k s @ s ! ?k # drop (Suc ?k) s" using k(1) by (rule id_take_nth_drop)
  then have "s = take ?k s @ ''.'' @ p" using a k(2) by (simp add: Let_def)
  then show "\<exists>l. s = l @ ''.'' @ p" by blast
qed (auto simp: nth_append)

text \<open>The entries that pass the attribute gate, by class.\<close>

definition of_type :: "string list \<Rightarrow> geositeDomain list \<Rightarrow> geositeDomainType \<Rightarrow> geositeDomain list" where
  "of_type attrs ds t = filter (\<lambda>d. attrsAllow attrs d \<and> gd_Type d = t) ds"

lemma index_fold:
  "fold (index_step attrs) ds (f, r, res) = (f', r', res') \<Longrightarrow>
     set f' = set f \<union> gd_Value ` set (of_type attrs ds geositeDomainFull) \<and>
     set r' = set r \<union> gd_Value ` set (of_type attrs ds geositeDomainRoot) \<and>
     set res' = set res \<union> set (of_type attrs ds geositeDomainPlain) \<union> set (of_type attrs ds geositeDomainRegex)"
proof (induction ds arbitrary: f r res)
  case (Cons d ds)
  obtain f1 r1 res1 where 1: "index_step attrs d (f, r, res) = (f1, r1, res1)" by (metis prod_cases3)
  have "set f1 = set f \<union> gd_Value ` set (of_type attrs [d] geositeDomainFull)"
    "set r1 = set r \<union> gd_Value ` set (of_type attrs [d] geositeDomainRoot)"
    "set res1 = set res \<union> set (of_type attrs [d] geositeDomainPlain) \<union> set (of_type attrs [d] geositeDomainRegex)"
    using 1 by (auto simp: of_type_def split: if_splits geositeDomainType.splits)
  moreover have "set (of_type attrs (d # ds) t) = set (of_type attrs [d] t) \<union> set (of_type attrs ds t)" for t
    by (auto simp: of_type_def)
  moreover have "fold (index_step attrs) ds (f1, r1, res1) = (f', r', res')" using Cons.prems 1 by simp
  note Cons.IH [OF this]
  ultimately show ?case by (auto simp: image_Un)
qed (simp add: of_type_def)

lemma scan_by_type:
  "list_ex (\<lambda>d. matchDomain attrs d host) ds \<longleftrightarrow>
     hi_Name host \<in> gd_Value ` set (of_type attrs ds geositeDomainFull) \<or>
     (\<exists>v \<in> gd_Value ` set (of_type attrs ds geositeDomainRoot).
        hi_Name host = v \<or> (\<exists>l. hi_Name host = l @ ''.'' @ v)) \<or>
     (\<exists>d \<in> set (of_type attrs ds geositeDomainPlain) \<union> set (of_type attrs ds geositeDomainRegex).
        matchDomain attrs d host)"
proof -
  have full: "matchDomain attrs d host \<longleftrightarrow> hi_Name host = gd_Value d"
    if "attrsAllow attrs d" "gd_Type d = geositeDomainFull" for d
    unfolding matchDomain_def if_not_P [OF attrsAllow_gate [OF that(1)]] that(2) by simp
  have root: "matchDomain attrs d host \<longleftrightarrow>
      hi_Name host = gd_Value d \<or> (\<exists>l. hi_Name host = l @ ''.'' @ gd_Value d)"
    if "attrsAllow attrs d" "gd_Type d = geositeDomainRoot" for d
    unfolding matchDomain_def if_not_P [OF attrsAllow_gate [OF that(1)]] that(2) geositeDomainType.case
      root_match by simp
  have other: "\<not> matchDomain attrs d host" if "gd_Type d = geositeDomainOther" for d
    using that by (simp add: matchDomain_def)
  show ?thesis
  proof
    assume "list_ex (\<lambda>d. matchDomain attrs d host) ds"
    then obtain d where d: "d \<in> set ds" "matchDomain attrs d host" by (auto simp: list_ex_iff)
    then have al: "attrsAllow attrs d" using attrsAllow_matchDomain by blast
    then have m: "d \<in> set (of_type attrs ds (gd_Type d))" using d by (simp add: of_type_def)
    then show "hi_Name host \<in> gd_Value ` set (of_type attrs ds geositeDomainFull) \<or>
      (\<exists>v \<in> gd_Value ` set (of_type attrs ds geositeDomainRoot).
        hi_Name host = v \<or> (\<exists>l. hi_Name host = l @ ''.'' @ v)) \<or>
      (\<exists>d \<in> set (of_type attrs ds geositeDomainPlain) \<union> set (of_type attrs ds geositeDomainRegex).
        matchDomain attrs d host)"
      using full [OF al] root [OF al] other [of d] d(2) by (cases "gd_Type d") auto
  next
    assume "hi_Name host \<in> gd_Value ` set (of_type attrs ds geositeDomainFull) \<or>
      (\<exists>v \<in> gd_Value ` set (of_type attrs ds geositeDomainRoot).
        hi_Name host = v \<or> (\<exists>l. hi_Name host = l @ ''.'' @ v)) \<or>
      (\<exists>d \<in> set (of_type attrs ds geositeDomainPlain) \<union> set (of_type attrs ds geositeDomainRegex).
        matchDomain attrs d host)"
    then show "list_ex (\<lambda>d. matchDomain attrs d host) ds"
      using full root by (fastforce simp: list_ex_iff of_type_def)
  qed
qed

text \<open>Matchers that answer like the linear scan of the given domains, indexed or not.\<close>

definition gs_represents :: "string list \<Rightarrow> geositeDomain list \<Rightarrow> geositeMatcher \<Rightarrow> bool" where
  "gs_represents attrs ds m \<longleftrightarrow> gs_Attrs m = attrs \<and>
     (if gs_indexed m then
        set (gs_full m) = gd_Value ` set (of_type attrs ds geositeDomainFull) \<and>
        set (gs_root m) = gd_Value ` set (of_type attrs ds geositeDomainRoot) \<and>
        set (gs_residual m) = set (of_type attrs ds geositeDomainPlain) \<union> set (of_type attrs ds geositeDomainRegex)
      else gs_Domains m = ds)"

lemma buildIndex_represents:
  "gs_represents attrs ds m \<Longrightarrow> \<not> gs_indexed m \<Longrightarrow>
   gs_represents attrs ds (buildIndex m) \<and> gs_indexed (buildIndex m)"
  using index_fold [of attrs ds "[]" "[]" "[]"]
  by (auto simp: gs_represents_def buildIndex_def split: prod.splits)

lemma geosite_Match_scan:
  assumes "gs_represents attrs ds m"
  shows "fst (geosite_Match m host) \<longleftrightarrow> list_ex (\<lambda>d. matchDomain attrs d host) ds"
    "gs_represents attrs ds (snd (geosite_Match m host))"
proof -
  define m1 where "m1 = (if gs_indexed m then m else buildIndex m)"
  have r: "gs_represents attrs ds m1" "gs_indexed m1"
    using assms buildIndex_represents [OF assms] by (auto simp: m1_def)
  then show "gs_represents attrs ds (snd (geosite_Match m host))"
    by (simp add: geosite_Match_def m1_def [symmetric] Let_def)
  have s: "set (gs_full m1) = gd_Value ` set (of_type attrs ds geositeDomainFull)"
    "set (gs_root m1) = gd_Value ` set (of_type attrs ds geositeDomainRoot)"
    "set (gs_residual m1) = set (of_type attrs ds geositeDomainPlain) \<union> set (of_type attrs ds geositeDomainRegex)"
    "gs_Attrs m1 = attrs" using r by (simp_all add: gs_represents_def)
  have "fst (geosite_Match m host) \<longleftrightarrow> hi_Name host \<in> set (gs_full m1) \<or>
      (hi_Name host \<in> set (gs_root m1) \<or> probe_labels (gs_root m1) (hi_Name host)) \<or>
      (\<exists>d \<in> set (gs_residual m1). matchDomain attrs d host)"
    by (auto simp: geosite_Match_def m1_def [symmetric] Let_def s(4) list_ex_iff probe_labels_iff)
  then show "fst (geosite_Match m host) \<longleftrightarrow> list_ex (\<lambda>d. matchDomain attrs d host) ds"
    unfolding scan_by_type s(1,3) [symmetric] s(2) [symmetric] probe_labels_iff by blast
qed

text \<open>A matcher used for one host after another.\<close>

fun geosite_answers :: "geositeMatcher \<Rightarrow> hostInfo list \<Rightarrow> bool list" where
  "geosite_answers m [] = []"
| "geosite_answers m (h # hs) = (case geosite_Match m h of (r, m) \<Rightarrow> r # geosite_answers m hs)"

text \<open>
  C14: The index gives the answers of the linear scan: whatever hosts a geosite matcher is asked
  for, in whatever order, with exact, suffix, substring and regular-expression entries and with
  attribute filters, its answers are those of trying every entry of the category.
\<close>

theorem geosite_index_equivalent:
  assumes "newGeositeMatcher rx domains attrs = Some m"
    and "those (map (geosite_domain rx) domains) = Some ds"
  shows "geosite_answers m hosts = map (\<lambda>h. list_ex (\<lambda>d. matchDomain attrs d h) ds) hosts"
proof -
  have "gs_represents attrs ds m"
    using assms by (auto simp: newGeositeMatcher_def gs_represents_def)
  then show ?thesis
  proof (induction hosts arbitrary: m)
    case (Cons h hs)
    then show ?case using geosite_Match_scan [OF Cons.prems, of h] by (simp add: prod.case_eq_if)
  qed simp
qed

lemma geosite_index_equivalent_witness:
  "geosite_answers \<lparr>gs_Domains = [\<lparr>gd_Type = geositeDomainRoot, gd_Value = ''ad.net'', gd_Regex = None, gd_Attrs = [''ads'']\<rparr>],
      gs_Attrs = [''ads''], gs_indexed = False, gs_full = [], gs_root = [], gs_residual = []\<rparr>
     [\<lparr>hi_Name = ''x.ad.net'', hi_IPv4 = [], hi_IPv6 = []\<rparr>, \<lparr>hi_Name = ''bad.net'', hi_IPv4 = [], hi_IPv6 = []\<rparr>] =
   [True, False]"
proof -
  let ?ds = "[\<lparr>dom_Type = geositeDomainRoot, dom_Value = ''ad.net'', dom_Attribute = [''ads'']\<rparr>]"
  let ?d = "\<lparr>gd_Type = geositeDomainRoot, gd_Value = ''ad.net'', gd_Regex = None, gd_Attrs = [''ads'']\<rparr>"
  have 1: "newGeositeMatcher (\<lambda>_. None) ?ds [''ads''] = Some \<lparr>gs_Domains = [?d],
      gs_Attrs = [''ads''], gs_indexed = False, gs_full = [], gs_root = [], gs_residual = []\<rparr>"
    by (simp add: newGeositeMatcher_def domainAttributeToMap_def)
  have 2: "those (map (geosite_domain (\<lambda>_. None)) ?ds) = Some [?d]"
    by (simp add: domainAttributeToMap_def)
  show ?thesis
    unfolding geosite_index_equivalent [OF 1 2] by (simp add: matchDomain_def)
qed

section \<open>The binary search of the GeoIP matcher\<close>

text \<open>The first \<open>n\<close> bytes of a mask of \<open>p\<close> one bits.\<close>

fun pmask :: "nat \<Rightarrow> nat \<Rightarrow> bytes" where
  "pmask p 0 = []"
| "pmask p (Suc n) = mask_byte p # pmask (p - 8) n"

lemma length_pmask [simp]: "length (pmask p n) = n"
  by (induction n arbitrary: p) simp_all

lemma pmask_map: "map (\<lambda>i. mask_byte (p - 8 * i)) [0..<n] = pmask p n"
proof (induction n arbitrary: p)
  case (Suc n)
  have "map (\<lambda>i. mask_byte (p - 8 * i)) [0..<Suc n] =
      mask_byte p # map (\<lambda>i. mask_byte (p - 8 * Suc i)) [0..<n]"
  proof -
    have "[0..<Suc n] = 0 # map Suc [0..<n]" by (simp add: upt_conv_Cons map_Suc_upt del: upt_Suc)
    then show ?thesis by (simp add: comp_def del: upt_Suc)
  qed
  also have "\<dots> = mask_byte p # map (\<lambda>i. mask_byte (p - 8 - 8 * i)) [0..<n]" by simp
  also have "\<dots> = pmask p (Suc n)" using Suc [of "p - 8"] by simp
  finally show ?case .
qed simp

lemma CIDRMask_cases:
  "CIDRMask ones 32 = [] \<or> (\<exists>p. CIDRMask ones 32 = pmask p 4)"
  "CIDRMask ones 128 = [] \<or> (\<exists>p. CIDRMask ones 128 = pmask p 16)"
  unfolding CIDRMask_def using pmask_map [of "nat ones" 4] pmask_map [of "nat ones" 16] by auto

lemma masked_eq_iff:
  "a AND NOT (mask k) = b AND NOT (mask k) \<longleftrightarrow> drop_bit k a = drop_bit k (b :: byte)"
proof
  assume e: "a AND NOT (mask k) = b AND NOT (mask k)"
  show "drop_bit k a = drop_bit k b"
  proof (rule bit_eqI)
    fix n
    have "bit (a AND NOT (mask k)) (k + n) = bit (b AND NOT (mask k)) (k + n)" using e by simp
    then show "bit (drop_bit k a) n = bit (drop_bit k b) n"
      by (auto simp: bit_simps dest: bit_imp_le_length)
  qed
next
  assume e: "drop_bit k a = drop_bit k b"
  show "a AND NOT (mask k) = b AND NOT (mask k)"
  proof (rule bit_eqI)
    fix n
    have "bit (drop_bit k a) (n - k) = bit (drop_bit k b) (n - k)" using e by simp
    then show "bit (a AND NOT (mask k)) n = bit (b AND NOT (mask k)) n"
      by (cases "k \<le> n") (auto simp: bit_simps)
  qed
qed

lemma mask_byte_convex:
  assumes "a \<le> b" "b \<le> c" "a AND mask_byte p = c AND mask_byte p"
  shows "b AND mask_byte p = a AND mask_byte p"
proof (cases "8 \<le> p")
  case True
  have "(255 :: byte) = - 1" by simp
  then have "mask_byte p = - 1" using True by (simp add: mask_byte_def)
  then show ?thesis using assms by simp
next
  case False
  let ?k = "8 - p"
  have m: "mask_byte p = NOT (mask ?k)" using False by (simp add: mask_byte_def)
  have d: "unat (drop_bit ?k x) = unat x div 2 ^ ?k" for x :: byte
    using unat_drop_bit_eq [of ?k x] by (simp only: drop_bit_eq_div)
  have "unat a div 2 ^ ?k \<le> unat b div 2 ^ ?k" "unat b div 2 ^ ?k \<le> unat c div 2 ^ ?k"
    using assms(1,2) by (simp_all add: div_le_mono word_le_nat_alt)
  moreover have "drop_bit ?k a = drop_bit ?k c" using assms(3) by (simp only: m masked_eq_iff)
  ultimately have "drop_bit ?k b = drop_bit ?k a" using d by (metis antisym unsigned_word_eqI)
  then show ?thesis by (simp only: m masked_eq_iff)
qed

lemma masked_convex:
  assumes "length x = n" "length y = n" "length z = n" "\<not> bytes_less y x" "\<not> bytes_less z y"
    "map2 (AND) x (pmask p n) = map2 (AND) z (pmask p n)"
  shows "map2 (AND) y (pmask p n) = map2 (AND) x (pmask p n)"
  using assms
proof (induction n arbitrary: p x y z)
  case (Suc n)
  obtain a as b bs c cs where xyz: "x = a # as" "y = b # bs" "z = c # cs"
    using Suc(2-4) by (cases x; cases y; cases z) auto
  have ord: "a \<le> b" "b \<le> c" "a = b \<Longrightarrow> \<not> bytes_less bs as" "b = c \<Longrightarrow> \<not> bytes_less cs bs"
    using Suc(5,6) by (auto simp: xyz)
  have hd: "b AND mask_byte p = a AND mask_byte p"
    using Suc(7) by (intro mask_byte_convex [OF ord(1,2)]) (simp add: xyz)
  have tl: "map2 (AND) as (pmask (p - 8) n) = map2 (AND) cs (pmask (p - 8) n)"
    using Suc(7) by (simp add: xyz)
  have "map2 (AND) bs (pmask (p - 8) n) = map2 (AND) as (pmask (p - 8) n)"
  proof (cases "8 \<le> p")
    case True
    have "(255 :: byte) = - 1" by simp
    then have "mask_byte p = - 1" using True by (simp add: mask_byte_def)
    then have "a = c" using Suc(7) by (simp add: xyz)
    then have eq: "a = b" "b = c" using ord(1,2) by (metis order.antisym)+
    have "length as = n" "length bs = n" "length cs = n" using Suc(2-4) by (simp_all add: xyz)
    then show ?thesis by (rule Suc.IH [OF _ _ _ ord(3) [OF eq(1)] ord(4) [OF eq(2)] tl])
  next
    case False
    have zero: "pmask 0 m = replicate m 0" for m
    proof (induction m)
      case (Suc m)
      have "NOT (mask 8) = (0 :: byte)" by (simp add: mask_eq_exp_minus_1)
      then show ?case using Suc by (simp add: mask_byte_def)
    qed simp
    have r: "map2 (AND) (u :: bytes) (replicate n 0) = replicate n 0" if "length u = n" for u
      using that by (simp add: list_eq_iff_nth_eq)
    have "length as = n" "length bs = n" using Suc(2,3) by (simp_all add: xyz)
    then show ?thesis using False by (simp add: zero r)
  qed
  with hd show ?case by (simp add: xyz)
qed simp

text \<open>Networks of one address family, and when none contains the address of another.\<close>

definition family :: "nat \<Rightarrow> bytes \<Rightarrow> bool" where
  "family l ip \<longleftrightarrow> length ip = l \<and> (l = 4 \<or> l = 16 \<and> To4 ip = None)"

definition net_ok :: "nat \<Rightarrow> ipnet \<Rightarrow> bool" where
  "net_ok l n \<longleftrightarrow> family l (fst n) \<and> (snd n = [] \<or> (\<exists>p. snd n = pmask p l))"

definition apart :: "ipnet \<Rightarrow> ipnet \<Rightarrow> bool" where
  "apart a b \<longleftrightarrow> \<not> net_Contains a (fst b) \<and> \<not> net_Contains b (fst a)"

lemma list_all_nth_and:
  "length x = k \<Longrightarrow> length y = k \<Longrightarrow> length m = k \<Longrightarrow>
   list_all (\<lambda>i. x ! i AND m ! i = y ! i AND (m ! i :: byte)) [0..<k] \<longleftrightarrow> map2 (AND) x m = map2 (AND) y m"
  by (simp add: list_all_iff list_eq_iff_nth_eq Ball_def)

lemma net_Contains_family:
  assumes "net_ok l n" "family l ip"
  shows "net_Contains n ip \<longleftrightarrow> snd n \<noteq> [] \<and> map2 (AND) (fst n) (snd n) = map2 (AND) ip (snd n)"
proof -
  have c: "(case To4 i of Some x \<Rightarrow> x | None \<Rightarrow> i) = i" if "family l i" for i
    using that by (auto simp: family_def To4_def split: if_splits)
  have l: "l = 4 \<or> l = 16" "length (fst n) = l" "length ip = l" "family l (fst n)"
    using assms by (auto simp: family_def net_ok_def)
  show ?thesis
  proof (cases "snd n = []")
    case True
    then have "networkNumberAndMask n = ([], [])" by (auto simp: networkNumberAndMask_def Let_def)
    then show ?thesis using True l by (auto simp: net_Contains_def c [OF assms(2)])
  next
    case False
    then obtain p where p: "snd n = pmask p l" using assms(1) by (auto simp: net_ok_def)
    have "To4 (fst n) = None \<longrightarrow> length (fst n) = 16" using l by (auto simp: To4_def)
    then have "networkNumberAndMask n = (fst n, snd n)"
      using l by (auto simp: networkNumberAndMask_def c [OF l(4)] p Let_def)
    then show ?thesis
      using l False by (simp add: net_Contains_def c [OF assms(2)] p list_all_nth_and)
  qed
qed

lemma net_convex:
  assumes "net_ok l n" "family l y" "family l z" "net_Contains n z"
    and "\<not> bytes_less y (fst n) \<and> \<not> bytes_less z y \<or> \<not> bytes_less y z \<and> \<not> bytes_less (fst n) y"
  shows "net_Contains n y"
proof -
  have z: "snd n \<noteq> []" "map2 (AND) (fst n) (snd n) = map2 (AND) z (snd n)"
    using assms(4) net_Contains_family [OF assms(1,3)] by simp_all
  obtain p where p: "snd n = pmask p l" using assms(1) z(1) by (auto simp: net_ok_def)
  have len: "length (fst n) = l" "length y = l" "length z = l"
    using assms(1-3) by (auto simp: net_ok_def family_def)
  from assms(5) have "map2 (AND) y (pmask p l) = map2 (AND) (fst n) (pmask p l)"
  proof
    assume "\<not> bytes_less y (fst n) \<and> \<not> bytes_less z y"
    then show ?thesis using masked_convex [OF len, of p] z(2) p by simp
  next
    assume "\<not> bytes_less y z \<and> \<not> bytes_less (fst n) y"
    then show ?thesis using masked_convex [OF len(3,2,1), of p] z(2) p by simp
  qed
  then show ?thesis using net_Contains_family [OF assms(1,2)] z(1) p by simp
qed

lemma bytes_less_trans: "bytes_less x y \<Longrightarrow> bytes_less y z \<Longrightarrow> bytes_less x z"
proof (induction x y arbitrary: z rule: bytes_less.induct)
  case (1 ys)
  then show ?case by (cases z; cases ys) auto
next
  case (3 x xs y ys)
  then show ?case by (cases z) auto
qed simp

lemma bytes_less_total: "length x = length y \<Longrightarrow> bytes_less x y \<or> x = y \<or> bytes_less y x"
  by (induction x y rule: bytes_less.induct) auto

lemma bytes_less_irrefl: "\<not> bytes_less x x"
  by (induction x) auto

lemma bytes_not_less_trans:
  assumes "length x = length y" "length y = length z" "\<not> bytes_less y x" "\<not> bytes_less z y"
  shows "\<not> bytes_less z x"
  using assms bytes_less_total bytes_less_trans by metis

lemma insert_net_set [simp]: "set (insert_net e xs) = insert e (set xs)"
  by (induction xs) auto

lemma sort_nets_set [simp]: "set (sort_nets xs) = set xs"
  by (induction xs) (simp_all add: sort_nets_def)

lemma insert_net_apart:
  "sorted_wrt apart (insert_net e xs) \<longleftrightarrow> sorted_wrt apart (e # xs)"
  by (induction xs) (auto simp: apart_def)

lemma sort_nets_apart: "sorted_wrt apart (sort_nets xs) \<longleftrightarrow> sorted_wrt apart xs"
proof (induction xs)
  case (Cons x xs)
  have "sort_nets (x # xs) = insert_net x (sort_nets xs)" by (simp add: sort_nets_def)
  then show ?case using Cons insert_net_apart [of x "sort_nets xs"] by simp
qed (simp add: sort_nets_def)

definition by_address :: "ipnet \<Rightarrow> ipnet \<Rightarrow> bool" where
  "by_address a b \<longleftrightarrow> \<not> bytes_less (fst b) (fst a)"

lemma insert_net_sorted:
  assumes "sorted_wrt by_address xs" "\<forall>n \<in> set (e # xs). length (fst n) = l"
  shows "sorted_wrt by_address (insert_net e xs)"
  using assms
proof (induction xs)
  case (Cons x xs)
  show ?case
  proof (cases "bytes_less (fst x) (fst e)")
    case True
    then have "\<not> bytes_less (fst e) (fst x)" using bytes_less_trans bytes_less_irrefl by blast
    then show ?thesis using Cons True by (auto simp: by_address_def)
  next
    case False
    then have "\<not> bytes_less (fst y) (fst e)" if "y \<in> set xs" for y
      using that Cons(2,3) bytes_not_less_trans [of "fst e" "fst x" "fst y"] by (simp add: by_address_def)
    then show ?thesis using Cons(2) False by (simp add: by_address_def)
  qed
qed simp

lemma sort_nets_sorted:
  "\<forall>n \<in> set xs. length (fst n) = l \<Longrightarrow> sorted_wrt by_address (sort_nets xs)"
proof (induction xs)
  case (Cons x xs)
  have "sort_nets (x # xs) = insert_net x (sort_nets xs)" by (simp add: sort_nets_def)
  moreover have "\<forall>n \<in> set (x # sort_nets xs). length (fst n) = l" using Cons(2) by simp
  ultimately show ?case using insert_net_sorted [of "sort_nets xs" x l] Cons by simp
qed (simp add: sort_nets_def)

lemma net_search_correct:
  assumes ok: "\<forall>e \<in> set n. net_ok l e" and ap: "sorted_wrt apart n" and so: "sorted_wrt by_address n"
    and ip: "family l ip"
  shows "0 \<le> left \<Longrightarrow> right < int (length n) \<Longrightarrow>
    \<forall>j < length n. net_Contains (n ! j) ip \<longrightarrow> left \<le> int j \<and> int j \<le> right \<Longrightarrow>
    net_search n ip left right \<longleftrightarrow> list_ex (\<lambda>e. net_Contains e ip) n"
proof (induction "nat (right - left + 1)" arbitrary: left right rule: less_induct)
  case less
  note bnd = less(2,3) and all = less(4)
  have iff: "list_ex (\<lambda>e. net_Contains e ip) n \<longleftrightarrow> (\<exists>j < length n. net_Contains (n ! j) ip)"
    unfolding list_ex_iff by (metis in_set_conv_nth)
  have fam: "family l (fst (n ! j))" "net_ok l (n ! j)" if "j < length n" for j
    using ok that by (auto simp: net_ok_def)
  show ?case
  proof (cases "left \<le> right")
    case False
    then have "\<not> list_ex (\<lambda>e. net_Contains e ip) n" using all unfolding iff by (meson order_trans)
    then show ?thesis using False by (simp add: net_search.simps)
  next
    case True
    define mid where "mid = (left + right) div 2"
    have mid: "left \<le> mid" "mid \<le> right" using True by (simp_all add: mid_def)
    define m where "m = nat mid"
    have m: "m < length n" "int m = mid" using mid bnd by (simp_all add: m_def)
    have step: "net_search n ip left right =
        (if net_Contains (n ! m) ip then True
         else if bytes_less (fst (n ! m)) ip then net_search n ip (mid + 1) right
         else net_search n ip left (mid - 1))"
      using True unfolding m_def mid_def by (subst net_search.simps) (simp add: Let_def)
    have apart_at: "\<not> net_Contains (n ! j) (fst (n ! m))" if "j < length n" "j \<noteq> m" for j
      using that m(1) ap by (metis apart_def linorder_neqE_nat sorted_wrt_nth_less)
    consider "net_Contains (n ! m) ip" | "\<not> net_Contains (n ! m) ip" "bytes_less (fst (n ! m)) ip"
      | "\<not> net_Contains (n ! m) ip" "\<not> bytes_less (fst (n ! m)) ip" by blast
    then show ?thesis
    proof cases
      case 1
      then show ?thesis using step m(1) unfolding iff by auto
    next
      case 2
      have "\<not> net_Contains (n ! j) ip" if j: "j \<le> m" for j
      proof
        assume c: "net_Contains (n ! j) ip"
        then have "j < m" using 2 j by (cases "j = m") auto
        then have o: "\<not> bytes_less (fst (n ! m)) (fst (n ! j))"
          using so m(1) by (metis by_address_def sorted_wrt_nth_less)
        have "\<not> bytes_less ip (fst (n ! m))" using 2 bytes_less_trans bytes_less_irrefl by blast
        then have "net_Contains (n ! j) (fst (n ! m))"
          using \<open>j < m\<close> m(1) o by (intro net_convex [OF fam(2) fam(1) ip c]) simp_all
        then show False using apart_at [of j] \<open>j < m\<close> m(1) by simp
      qed
      then have a: "\<forall>j < length n. net_Contains (n ! j) ip \<longrightarrow> mid + 1 \<le> int j \<and> int j \<le> right"
        using all m(2) by (metis linorder_not_le of_nat_less_iff zless_imp_add1_zle)
      have "nat (right - (mid + 1) + 1) < nat (right - left + 1)" "0 \<le> mid + 1" using mid bnd by simp_all
      with a less(1) [of right "mid + 1"] bnd 2 show ?thesis by (simp add: step)
    next
      case 3
      have "\<not> net_Contains (n ! j) ip" if j: "m \<le> j" "j < length n" for j
      proof
        assume c: "net_Contains (n ! j) ip"
        then have "m < j" using 3 j by (cases "j = m") auto
        then have o: "\<not> bytes_less (fst (n ! j)) (fst (n ! m))"
          using so j(2) by (metis by_address_def sorted_wrt_nth_less)
        have "net_Contains (n ! j) (fst (n ! m))"
          using \<open>m < j\<close> m(1) j o 3 by (intro net_convex [OF fam(2) fam(1) ip c]) simp_all
        then show False using apart_at [of j] \<open>m < j\<close> j(2) by simp
      qed
      then have a: "\<forall>j < length n. net_Contains (n ! j) ip \<longrightarrow> left \<le> int j \<and> int j \<le> mid - 1"
        using all m(2) by (metis linorder_not_le of_nat_less_iff zle_diff1_eq)
      have "nat (mid - 1 - left + 1) < nat (right - left + 1)" "mid - 1 < int (length n)"
        using mid bnd by simp_all
      with a less(1) [of "mid - 1" left] bnd 3 show ?thesis by (simp add: step)
    qed
  qed
qed

lemma collect_nets_ok:
  assumes "collect_nets cs n4 n6 = Some (m4, m6)"
    and "\<forall>e \<in> set n4. net_ok 4 e" "\<forall>e \<in> set n6. To4 (fst e) = None \<longrightarrow> net_ok 16 e"
  shows "(\<forall>e \<in> set m4. net_ok 4 e) \<and> (\<forall>e \<in> set m6. To4 (fst e) = None \<longrightarrow> net_ok 16 e)"
  using assms
proof (induction cs n4 n6 rule: collect_nets.induct)
  case (2 c cs n4 n6)
  have "net_ok 4 (cidr_Ip c, CIDRMask (cidr_Prefix c) 32)" if "length (cidr_Ip c) = 4"
    using that CIDRMask_cases(1) by (simp add: net_ok_def family_def)
  moreover have "net_ok 16 (cidr_Ip c, CIDRMask (cidr_Prefix c) 128)"
    if "length (cidr_Ip c) = 16" "To4 (cidr_Ip c) = None"
    using that CIDRMask_cases(2) by (simp add: net_ok_def family_def)
  ultimately show ?case using 2 by (auto split: if_splits)
qed simp

lemma net_Contains_other_family:
  assumes "net_ok k e" "family l ip" "k \<noteq> l"
  shows "\<not> net_Contains e ip"
proof -
  have "length (ip_canon i) = j" if "family j i" for i j
    using that by (auto simp: family_def ip_canon_def To4_def)
  then have l: "length (ip_canon ip) = l" "length (ip_canon (fst e)) = k"
    using assms by (auto simp: net_ok_def)
  have k: "k = 4 \<or> k = 16" "l = 4 \<or> l = 16" using assms by (auto simp: net_ok_def family_def)
  have "(case To4 i of Some x \<Rightarrow> x | None \<Rightarrow> i) = ip_canon i" for i
    by (simp add: ip_canon_def split: option.splits)
  then show ?thesis
    using l k assms(3) by (auto simp: net_Contains_def networkNumberAndMask_def Let_def split: prod.splits if_splits)
qed

text \<open>
  C20: The GeoIP matcher's binary search answers like a scan of the whole country list, for IPv4 and
  IPv6 and with the inverse flag, provided no network of the list contains the address of another.
\<close>

theorem geoip_search_equivalent:
  assumes "newGeoIPMatcher list = Some m"
    and "collect_nets (gi_Cidr list) [] [] = Some (n4, n6)"
    and "sorted_wrt apart n4" "sorted_wrt apart n6" "list_all (\<lambda>e. To4 (fst e) = None) n6"
    and "ip_ok (hi_IPv4 host)" "ip_ok (hi_IPv6 host)"
  shows "geoip_Match m host \<longleftrightarrow>
    (gi_InverseMatch list \<noteq> list_ex (\<lambda>e. hi_IPv4 host \<noteq> [] \<and> net_Contains e (hi_IPv4 host) \<or>
       hi_IPv6 host \<noteq> [] \<and> net_Contains e (hi_IPv6 host)) (n4 @ n6))"
proof -
  have m: "m = \<lparr>gm_N4 = sort_nets n4, gm_N6 = sort_nets n6, gm_Inverse = gi_InverseMatch list\<rparr>"
    using assms(1,2) by (simp add: newGeoIPMatcher_def)
  have n4: "\<forall>e \<in> set n4. net_ok 4 e" and n6: "\<forall>e \<in> set n6. net_ok 16 e"
    using collect_nets_ok [OF assms(2)] assms(5) by (auto simp: list_all_iff)
  have so: "sorted_wrt by_address (sort_nets n4)" "sorted_wrt by_address (sort_nets n6)"
    using n4 n6 by (intro sort_nets_sorted [of _ 4] sort_nets_sorted [of _ 16]; auto simp: net_ok_def family_def)+
  have search: "net_search n i 0 (int (length n) - 1) \<longleftrightarrow> list_ex (\<lambda>e. net_Contains e i) n"
    if "\<forall>e \<in> set n. net_ok l e" "sorted_wrt apart n" "sorted_wrt by_address n" "family l i" for n l i
    using that by (intro net_search_correct) auto
  have scan: "matchIP m ip \<longleftrightarrow> list_ex (\<lambda>e. net_Contains e ip) (n4 @ n6)" if "ip_ok ip" "ip \<noteq> []" for ip
  proof (cases "To4 ip")
    case None
    then have f: "family 16 ip" using that by (auto simp: family_def ip_ok_def To4_def)
    have "matchIP m ip \<longleftrightarrow> list_ex (\<lambda>e. net_Contains e ip) (sort_nets n6)"
      using None search [OF _ _ so(2) f] n6 assms(4) by (simp add: matchIP_def m sort_nets_apart)
    moreover have "\<not> list_ex (\<lambda>e. net_Contains e ip) n4"
      using net_Contains_other_family [OF _ f] n4 by (fastforce simp: list_ex_iff)
    ultimately show ?thesis by (simp add: list_ex_iff bex_Un)
  next
    case (Some p)
    then have c: "ip_canon ip = p" by (simp add: ip_canon_def)
    have f: "family 4 p" using To4_length [OF Some] by (simp add: family_def)
    have eq: "net_Contains e ip = net_Contains e p" for e using net_Contains_canon [of e ip] c by simp
    have "matchIP m ip \<longleftrightarrow> list_ex (\<lambda>e. net_Contains e p) (sort_nets n4)"
      using Some search [OF _ _ so(1) f] n4 assms(3) by (simp add: matchIP_def m sort_nets_apart)
    moreover have "\<not> list_ex (\<lambda>e. net_Contains e p) n6"
      using net_Contains_other_family [OF _ f] n6 by (fastforce simp: list_ex_iff)
    ultimately show ?thesis by (simp add: list_ex_iff eq bex_Un)
  qed
  show ?thesis
    using scan [OF assms(6)] scan [OF assms(7)]
    by (auto simp: geoip_Match_def m list_ex_iff)
qed

lemma geoip_search_equivalent_witness:
  "geoip_Match \<lparr>gm_N4 = [([10, 0, 0, 0], [255, 0, 0, 0])], gm_N6 = [], gm_Inverse = False\<rparr>
     \<lparr>hi_Name = ''x'', hi_IPv4 = [10, 1, 2, 3], hi_IPv6 = []\<rparr> \<longleftrightarrow>
   False \<noteq> list_ex (\<lambda>e. net_Contains e [10, 1, 2, 3]) [([10, 0, 0, 0], [255, 0, 0, 0])]"
proof -
  let ?l = "\<lparr>gi_Cidr = [\<lparr>cidr_Ip = [10, 0, 0, 0], cidr_Prefix = 8\<rparr>], gi_InverseMatch = False\<rparr>"
  have mk: "CIDRMask 8 32 = [255, 0, 0, 0]" by code_simp
  have 1: "collect_nets (gi_Cidr ?l) [] [] = Some ([([10, 0, 0, 0], [255, 0, 0, 0])], [])"
    by (simp add: mk)
  have 2: "newGeoIPMatcher ?l = Some \<lparr>gm_N4 = [([10, 0, 0, 0], [255, 0, 0, 0])], gm_N6 = [], gm_Inverse = False\<rparr>"
    unfolding newGeoIPMatcher_def 1 by (simp add: sort_nets_def)
  show ?thesis
    using geoip_search_equivalent [OF 2 1, of "\<lparr>hi_Name = ''x'', hi_IPv4 = [10, 1, 2, 3], hi_IPv6 = []\<rparr>"]
    by (simp add: ip_ok_def)
qed

text \<open>Without that condition the search can miss: of three nested networks it never tries the first.\<close>

lemma geoip_nested_networks_missed:
  "matchIP \<lparr>gm_N4 = [([10, 0, 0, 0], CIDRMask 8 32), ([10, 1, 0, 0], CIDRMask 16 32),
      ([10, 1, 1, 0], CIDRMask 24 32)], gm_N6 = [], gm_Inverse = False\<rparr> [10, 2, 0, 1] = False \<and>
   net_Contains ([10, 0, 0, 0], CIDRMask 8 32) [10, 2, 0, 1]"
  by code_simp

end
