(* ===== verification/Outbound_Addr.thy ===== *)
theory Outbound_Addr
  imports Go_Net
begin

text \<open>
  \<open>extras/outbounds/interface.go\<close>: the addresses of the outbound pipeline and the adapter between
  the core's string addresses and \<open>AddrEx\<close>.  An outbound of the pipeline is a parameter: what its
  \<open>TCP\<close>, \<open>UDP\<close>, \<open>CheckUDP\<close>, \<open>ReadFrom\<close> and \<open>WriteTo\<close> do with an address.
\<close>

record ResolveInfo =
  ri_IPv4 :: bytes
  ri_IPv6 :: bytes
  ri_Err :: "string option"

record AddrEx =
  ax_Host :: string
  ax_Port :: int
  ax_ResolveInfo :: "ResolveInfo option"

definition AddrEx_String :: "AddrEx \<Rightarrow> string" where
  "AddrEx_String a = JoinHostPort (ax_Host a) (dec_digits (nat (ax_Port a)))"

definition parsePortUint16 :: "string \<Rightarrow> int option" where
  "parsePortUint16 port = ParseUint 16 port"

text \<open>What every method of the adapter does first.\<close>

definition adapter_addr :: "string \<Rightarrow> AddrEx option" where
  "adapter_addr reqAddr =
     (case SplitHostPort reqAddr of
        None \<Rightarrow> None
      | Some (host, port) \<Rightarrow>
          (case parsePortUint16 port of
             None \<Rightarrow> None
           | Some p \<Rightarrow> Some \<lparr>ax_Host = host, ax_Port = p, ax_ResolveInfo = None\<rparr>))"

definition adapter_TCP :: "(AddrEx \<Rightarrow> string + 'conn) \<Rightarrow> string \<Rightarrow> string + 'conn" where
  "adapter_TCP ob reqAddr =
     (case adapter_addr reqAddr of None \<Rightarrow> Inl ''invalid address'' | Some a \<Rightarrow> ob a)"

definition adapter_UDP :: "(AddrEx \<Rightarrow> string + 'conn) \<Rightarrow> string \<Rightarrow> string + 'conn" where
  "adapter_UDP ob reqAddr =
     (case adapter_addr reqAddr of None \<Rightarrow> Inl ''invalid address'' | Some a \<Rightarrow> ob a)"

definition adapter_CheckUDP :: "(AddrEx \<Rightarrow> string option) \<Rightarrow> string \<Rightarrow> string option" where
  "adapter_CheckUDP ob reqAddr =
     (case adapter_addr reqAddr of None \<Rightarrow> Some ''invalid address'' | Some a \<Rightarrow> ob a)"

text \<open>The connection adapter: what was read, with the sender's address as a string.\<close>

definition conn_ReadFrom :: "nat \<times> AddrEx option \<times> string option \<Rightarrow> nat \<times> string \<times> string option" where
  "conn_ReadFrom res =
     (case res of (n, addr, err) \<Rightarrow>
        (n, (case addr of Some a \<Rightarrow> AddrEx_String a | None \<Rightarrow> ''''), err))"

definition conn_WriteTo :: "(bytes \<Rightarrow> AddrEx \<Rightarrow> string + nat) \<Rightarrow> bytes \<Rightarrow> string \<Rightarrow> string + nat" where
  "conn_WriteTo write b addr =
     (case adapter_addr addr of None \<Rightarrow> Inl ''invalid address'' | Some a \<Rightarrow> write b a)"

definition host_plain :: "string \<Rightarrow> bool" where
  "host_plain h \<longleftrightarrow> CHR ''['' \<notin> set h \<and> CHR '']'' \<notin> set h"

definition port_ok :: "int \<Rightarrow> bool" where "port_ok p \<longleftrightarrow> 0 \<le> p \<and> p < 65536"

text \<open>
  An address survives the adapter: the address string a UDP reply carries to the core, and the
  core hands back when it writes, reaches the outbound as the same host and port, IPv6 included; and
  whatever string the core passes, an outbound only ever sees a port between 0 and 65535.
\<close>

theorem adapter_addr_roundtrip:
  assumes "host_plain (ax_Host a)" "port_ok (ax_Port a)"
  shows "adapter_addr (AddrEx_String a) = Some (a\<lparr>ax_ResolveInfo := None\<rparr>) \<and>
    pred_option (\<lambda>b. port_ok (ax_Port b)) (adapter_addr s)"
proof -
  have d: "is_digit c" if "c \<in> set (dec_digits n)" for c n using dec_digits_digit that by blast
  have "CHR '':'' \<notin> set (dec_digits n)" "CHR ''['' \<notin> set (dec_digits n)" "CHR '']'' \<notin> set (dec_digits n)" for n
    using d [of "CHR '':''" n] d [of "CHR ''[''" n] d [of "CHR '']''" n] by (auto simp: is_digit_def)
  then have s: "SplitHostPort (AddrEx_String a) = Some (ax_Host a, dec_digits (nat (ax_Port a)))"
    using assms unfolding AddrEx_String_def host_plain_def by (intro SplitHostPort_Join) auto
  have "parsePortUint16 (dec_digits (nat (ax_Port a))) = Some (ax_Port a)"
    using assms(2) ParseUint_dec_digits [of "nat (ax_Port a)" 16]
    by (simp add: parsePortUint16_def port_ok_def)
  with s have 1: "adapter_addr (AddrEx_String a) = Some (a\<lparr>ax_ResolveInfo := None\<rparr>)"
    by (simp add: adapter_addr_def)
  have 2: "pred_option (\<lambda>b. port_ok (ax_Port b)) (adapter_addr s)"
    using ParseUint_Some [of 16]
    by (auto simp: adapter_addr_def parsePortUint16_def port_ok_def split: option.splits)
  show ?thesis using 1 2 by blast
qed

lemma adapter_addr_roundtrip_witness:
  "adapter_addr (AddrEx_String \<lparr>ax_Host = ''fe80::1'', ax_Port = 443, ax_ResolveInfo = None\<rparr>) =
     Some \<lparr>ax_Host = ''fe80::1'', ax_Port = 443, ax_ResolveInfo = None\<rparr>"
  using adapter_addr_roundtrip [of "\<lparr>ax_Host = ''fe80::1'', ax_Port = 443, ax_ResolveInfo = None\<rparr>"]
  by (simp add: host_plain_def port_ok_def)

end
