(* ===== verification/Acl.thy ===== *)
theory Acl
  imports Acl_Match Outbound_Addr
begin

text \<open>
  \<open>extras/outbounds/acl/parse.go\<close>, \<open>compile.go\<close> and \<open>extras/outbounds/acl.go\<close>: parsing and compiling ACL
  rules, the compiled rule set with its result cache, and the ACL engine.  Parameters: the geo
  databases (\<open>geo_loader\<close>, as loaded, \<open>Inl\<close> a load error), IDNA and regular expressions as in
  \<open>Acl_Match\<close>, and the LRU cache, a record of operations on an abstract cache state.
\<close>

section \<open>Parsing\<close>

record textRule =
  tr_Outbound :: string
  tr_Address :: string
  tr_ProtoPort :: string
  tr_HijackAddress :: string
  tr_LineNum :: nat

definition is_word_char :: "char \<Rightarrow> bool" where
  "is_word_char c \<longleftrightarrow> is_digit c \<or> 65 \<le> cb c \<and> cb c \<le> 90 \<or> 97 \<le> cb c \<and> cb c \<le> 122 \<or> cb c = 95"

definition is_re_space :: "char \<Rightarrow> bool" where
  "is_re_space c \<longleftrightarrow> cb c \<in> {9, 10, 12, 13, 32}"

text \<open>
  The submatches of \<open>linePattern\<close>, a word, optional space, and one to three comma-free parts in
  parentheses at the end of the line.  The pattern matches in one way only: the word ends where word
  characters end, and a part ends at the next comma or at the last parenthesis.
\<close>

definition match_line :: "string \<Rightarrow> (string \<times> string \<times> string \<times> string) option" where
  "match_line line =
     (let w = takeWhile is_word_char line; r = dropWhile is_re_space (dropWhile is_word_char line)
      in case r of
           [] \<Rightarrow> None
         | c # body \<Rightarrow>
             if w = [] \<or> c \<noteq> CHR ''('' \<or> body = [] \<or> last body \<noteq> CHR '')'' then None
             else
               (let parts = split_at (CHR '','') (butlast body)
                in if 3 < length parts \<or> \<not> list_all (\<lambda>p. p \<noteq> []) parts then None
                   else Some (w, parts ! 0, if 1 < length parts then parts ! 1 else '''',
                              if 2 < length parts then parts ! 2 else '''')))"

definition parseLine :: "string \<Rightarrow> nat \<Rightarrow> textRule option" where
  "parseLine line num =
     (case match_line line of
        None \<Rightarrow> None
      | Some (w, a, p, h) \<Rightarrow>
          Some \<lparr>tr_Outbound = w, tr_Address = TrimSpace a, tr_ProtoPort = TrimSpace p,
                tr_HijackAddress = TrimSpace h, tr_LineNum = num\<rparr>)"

datatype acl_error = InvalidSyntaxError string nat | CompilationError nat string | CacheError

text \<open>The loop over the lines; \<open>num\<close> counts those before.\<close>

fun parse_lines :: "string list \<Rightarrow> nat \<Rightarrow> textRule list \<Rightarrow> acl_error + textRule list" where
  "parse_lines [] num rules = Inr rules"
| "parse_lines (l # ls) num rules =
     (let num = num + 1; line = TrimSpace (takeWhile (\<lambda>c. c \<noteq> CHR ''#'') l)
      in if line = [] then parse_lines ls num rules
         else (case parseLine line num of
                 None \<Rightarrow> Inl (InvalidSyntaxError line num)
               | Some r \<Rightarrow> parse_lines ls num (rules @ [r])))"

definition ParseTextRules :: "string \<Rightarrow> acl_error + textRule list" where
  "ParseTextRules txt = parse_lines (split_at (CHR 0x0A) txt) 0 []"

section \<open>Compiling\<close>

datatype protocol = ProtocolBoth | ProtocolTCP | ProtocolUDP

definition parse_ports :: "string \<Rightarrow> (int \<times> int) option" where
  "parse_ports s =
     (if s = ''*'' then Some (0, 0)
      else (case split2 (CHR ''-'') (TrimSpace s) of
              (_, None) \<Rightarrow> map_option (\<lambda>p. (p, p)) (ParseUint 16 s)
            | (a, Some b) \<Rightarrow>
                (case ParseUint 16 a of
                   None \<Rightarrow> None
                 | Some startPort \<Rightarrow>
                     (case ParseUint 16 b of
                        None \<Rightarrow> None
                      | Some endPort \<Rightarrow> if startPort > endPort then None else Some (startPort, endPort)))))"

definition parseProtoPort :: "string \<Rightarrow> (protocol \<times> int \<times> int) option" where
  "parseProtoPort protoPort =
     (let protoPort = ToLower protoPort
      in if protoPort = '''' \<or> protoPort = ''*'' \<or> protoPort = ''*/*'' then Some (ProtocolBoth, 0, 0)
         else (case split2 (CHR ''/'') protoPort of
                 (p, None) \<Rightarrow>
                   if p = ''tcp'' then Some (ProtocolTCP, 0, 0)
                   else if p = ''udp'' then Some (ProtocolUDP, 0, 0) else None
               | (p, Some ports) \<Rightarrow>
                   (case (if p = ''tcp'' then Some ProtocolTCP else if p = ''udp'' then Some ProtocolUDP
                          else if p = ''*'' then Some ProtocolBoth else None) of
                      None \<Rightarrow> None
                    | Some proto \<Rightarrow> map_option (\<lambda>(a, b). (proto, a, b)) (parse_ports ports))))"

definition parseGeoSiteName :: "string \<Rightarrow> string \<times> string list" where
  "parseGeoSiteName s =
     (let parts = split_at (CHR ''@'') s in (TrimSpace (hd parts), map TrimSpace (tl parts)))"

record geo_loader =
  LoadGeoIP :: "string + (string \<Rightarrow> GeoIP option)"
  LoadGeoSite :: "string + (string \<Rightarrow> geo_domain list option)"
  regexCompile :: "string \<Rightarrow> (string \<Rightarrow> bool) option"

definition compileHostMatcher :: "string \<Rightarrow> geo_loader \<Rightarrow> string + hostMatcher" where
  "compileHostMatcher addr geo =
     (let addr = TrimRight (ToLower addr) (CHR ''.'')
      in if addr = ''*'' \<or> addr = ''all'' then Inr allMatcher
         else if HasPrefix addr ''geoip:'' then
           (let country = drop 6 addr
            in if country = [] then Inl ''empty GeoIP country code''
               else (case LoadGeoIP geo of
                       Inl e \<Rightarrow> Inl e
                     | Inr gMap \<Rightarrow>
                         (case gMap country of
                            None \<Rightarrow> Inl (''GeoIP country code '' @ country @ '' not found'')
                          | Some list \<Rightarrow>
                              (case newGeoIPMatcher list of
                                 None \<Rightarrow> Inl ''invalid IP length'' | Some m \<Rightarrow> Inr (GeoipM m)))))
         else if HasPrefix addr ''geosite:'' then
           (let (name, attrs) = parseGeoSiteName (drop 8 addr)
            in if name = [] then Inl ''empty GeoSite name''
               else (case LoadGeoSite geo of
                       Inl e \<Rightarrow> Inl e
                     | Inr gMap \<Rightarrow>
                         (case gMap name of
                            None \<Rightarrow> Inl (''GeoSite name '' @ name @ '' not found'')
                          | Some list \<Rightarrow>
                              (case newGeositeMatcher (regexCompile geo) list attrs of
                                 None \<Rightarrow> Inl ''invalid domain'' | Some m \<Rightarrow> Inr (GeositeM m)))))
         else if HasPrefix addr ''suffix:'' then
           (let suffix = drop 7 addr
            in if suffix = [] then Inl ''empty domain suffix''
               else Inr (domainMatcher suffix domainMatchSuffix))
         else if CHR ''/'' \<in> set addr then
           (case ParseCIDR addr of None \<Rightarrow> Inl (''invalid CIDR address: '' @ addr) | Some n \<Rightarrow> Inr (cidrMatcher n))
         else (case ParseIP addr of
                 Some ip \<Rightarrow> Inr (ipMatcher ip)
               | None \<Rightarrow>
                   if CHR ''*'' \<in> set addr then Inr (domainMatcher addr domainMatchWildcard)
                   else Inr (domainMatcher addr domainMatchExact)))"

record 'o compiledRule =
  cr_Outbound :: 'o
  cr_HostMatcher :: hostMatcher
  cr_Protocol :: protocol
  cr_StartPort :: int
  cr_EndPort :: int
  cr_HijackAddress :: bytes

definition compile_rule ::
  "(string \<Rightarrow> 'o option) \<Rightarrow> geo_loader \<Rightarrow> textRule \<Rightarrow> acl_error + 'o compiledRule" where
  "compile_rule outbounds geo rule =
     (case outbounds (ToLower (tr_Outbound rule)) of
        None \<Rightarrow> Inl (CompilationError (tr_LineNum rule) (''outbound '' @ tr_Outbound rule @ '' not found''))
      | Some ob \<Rightarrow>
          (case compileHostMatcher (tr_Address rule) geo of
             Inl e \<Rightarrow> Inl (CompilationError (tr_LineNum rule) e)
           | Inr hm \<Rightarrow>
               (case parseProtoPort (tr_ProtoPort rule) of
                  None \<Rightarrow> Inl (CompilationError (tr_LineNum rule) (''invalid protocol/port: '' @ tr_ProtoPort rule))
                | Some (proto, startPort, endPort) \<Rightarrow>
                    (let hijack = (if tr_HijackAddress rule = '''' then Some []
                                   else ParseIP (tr_HijackAddress rule))
                     in case hijack of
                          None \<Rightarrow> Inl (CompilationError (tr_LineNum rule)
                                       (''invalid hijack address (must be an IP address): '' @ tr_HijackAddress rule))
                        | Some h \<Rightarrow> Inr \<lparr>cr_Outbound = ob, cr_HostMatcher = hm, cr_Protocol = proto,
                                       cr_StartPort = startPort, cr_EndPort = endPort,
                                       cr_HijackAddress = h\<rparr>))))"

fun compile_rules ::
  "(string \<Rightarrow> 'o option) \<Rightarrow> geo_loader \<Rightarrow> textRule list \<Rightarrow> acl_error + 'o compiledRule list" where
  "compile_rules outbounds geo [] = Inr []"
| "compile_rules outbounds geo (r # rs) =
     (case compile_rule outbounds geo r of
        Inl e \<Rightarrow> Inl e
      | Inr c \<Rightarrow> (case compile_rules outbounds geo rs of Inl e \<Rightarrow> Inl e | Inr cs \<Rightarrow> Inr (c # cs)))"

section \<open>The compiled rule set\<close>

text \<open>Matching a rule may index its geosite matcher, so it returns the rule.\<close>

definition rule_Match ::
  "(string \<Rightarrow> string option) \<Rightarrow> 'o compiledRule \<Rightarrow> hostInfo \<Rightarrow> protocol \<Rightarrow> int \<Rightarrow> bool \<times> 'o compiledRule" where
  "rule_Match toUnicode r host proto port =
     (if cr_Protocol r \<noteq> ProtocolBoth \<and> cr_Protocol r \<noteq> proto then (False, r)
      else if cr_StartPort r \<noteq> 0 \<and> (port < cr_StartPort r \<or> port > cr_EndPort r) then (False, r)
      else (case host_Match toUnicode (cr_HostMatcher r) host of (b, m) \<Rightarrow> (b, r\<lparr>cr_HostMatcher := m\<rparr>)))"

type_synonym cache_key = "string \<times> protocol \<times> int"

type_synonym 'o match_result = "'o option \<times> bytes"

record ('o, 'c) lru =
  lru_New :: "int \<Rightarrow> 'c option"
  lru_Get :: "cache_key \<Rightarrow> 'c \<Rightarrow> 'o match_result option \<times> 'c"
  lru_Add :: "cache_key \<Rightarrow> 'o match_result \<Rightarrow> 'c \<Rightarrow> 'c"

record ('o, 'c) ruleSet =
  rs_Rules :: "'o compiledRule list"
  rs_Cache :: 'c

definition host_String :: "hostInfo \<Rightarrow> string" where
  "host_String h = hi_Name h @ ''|'' @ ip_String (hi_IPv4 h) @ ''|'' @ ip_String (hi_IPv6 h)"

fun first_rule ::
  "(string \<Rightarrow> string option) \<Rightarrow> 'o compiledRule list \<Rightarrow> hostInfo \<Rightarrow> protocol \<Rightarrow> int
     \<Rightarrow> 'o match_result \<times> 'o compiledRule list" where
  "first_rule toUnicode [] host proto port = ((None, []), [])"
| "first_rule toUnicode (r # rs) host proto port =
     (case rule_Match toUnicode r host proto port of
        (True, r) \<Rightarrow> ((Some (cr_Outbound r), cr_HijackAddress r), r # rs)
      | (False, r) \<Rightarrow> (case first_rule toUnicode rs host proto port of (res, rs) \<Rightarrow> (res, r # rs)))"

definition ruleSet_Match ::
  "(string \<Rightarrow> string option) \<Rightarrow> ('o, 'c) lru \<Rightarrow> ('o, 'c) ruleSet \<Rightarrow> hostInfo \<Rightarrow> protocol \<Rightarrow> int
     \<Rightarrow> 'o match_result \<times> ('o, 'c) ruleSet" where
  "ruleSet_Match toUnicode L s host proto port =
     (let host = host\<lparr>hi_Name := TrimRight (ToLower (hi_Name host)) (CHR ''.'')\<rparr>;
          key = (host_String host, proto, port)
      in case lru_Get L key (rs_Cache s) of
           (Some res, c) \<Rightarrow> (res, s\<lparr>rs_Cache := c\<rparr>)
         | (None, c) \<Rightarrow>
             (case first_rule toUnicode (rs_Rules s) host proto port of
                (res, rules) \<Rightarrow> (res, s\<lparr>rs_Rules := rules, rs_Cache := lru_Add L key res c\<rparr>)))"

definition Compile ::
  "textRule list \<Rightarrow> (string \<Rightarrow> 'o option) \<Rightarrow> int \<Rightarrow> geo_loader \<Rightarrow> ('o, 'c) lru
     \<Rightarrow> acl_error + ('o, 'c) ruleSet" where
  "Compile rules outbounds cacheSize geo L =
     (case compile_rules outbounds geo rules of
        Inl e \<Rightarrow> Inl e
      | Inr cs \<Rightarrow> (case lru_New L cacheSize of
                     None \<Rightarrow> Inl CacheError | Some c \<Rightarrow> Inr \<lparr>rs_Rules = cs, rs_Cache = c\<rparr>))"

section \<open>The engine\<close>

text \<open>The outbounds rules may name: the user's, and the built-in ones.\<close>

datatype 'o engineOutbound = userOutbound 'o | directOutbound | rejectOutbound

record ('o, 'c) aclEngine =
  ae_RuleSet :: "('o engineOutbound, 'c) ruleSet"
  ae_Default :: "'o engineOutbound"

definition aclCacheSize :: int where "aclCacheSize = 1024"

definition outboundsToMap :: "(string \<times> 'o) list \<Rightarrow> string \<Rightarrow> 'o engineOutbound option" where
  "outboundsToMap outbounds =
     (let m = fold (\<lambda>(n, ob) m. m(ToLower n \<mapsto> userOutbound ob)) outbounds Map.empty;
          m = (if m ''direct'' = None then m(''direct'' \<mapsto> directOutbound) else m);
          m = (if m ''reject'' = None then m(''reject'' \<mapsto> rejectOutbound) else m)
      in if m ''default'' = None
         then (if outbounds \<noteq> [] then m(''default'' \<mapsto> userOutbound (snd (hd outbounds)))
               else m(''default'' := m ''direct''))
         else m)"

definition NewACLEngineFromString ::
  "string \<Rightarrow> (string \<times> 'o) list \<Rightarrow> geo_loader \<Rightarrow> ('o engineOutbound, 'c) lru
     \<Rightarrow> acl_error + ('o, 'c) aclEngine" where
  "NewACLEngineFromString rules outbounds geo L =
     (case ParseTextRules rules of
        Inl e \<Rightarrow> Inl e
      | Inr trs \<Rightarrow>
          (let obMap = outboundsToMap outbounds
           in case Compile trs obMap aclCacheSize geo L of
                Inl e \<Rightarrow> Inl e
              | Inr rs \<Rightarrow> Inr \<lparr>ae_RuleSet = rs, ae_Default = the (obMap ''default'')\<rparr>))"

text \<open>\<open>handle\<close> rewrites the request's address, so it returns it.\<close>

definition engine_handle ::
  "(string \<Rightarrow> string option) \<Rightarrow> ('o engineOutbound, 'c) lru \<Rightarrow> ('o, 'c) aclEngine \<Rightarrow> AddrEx \<Rightarrow> protocol
     \<Rightarrow> 'o engineOutbound \<times> AddrEx \<times> ('o, 'c) aclEngine" where
  "engine_handle toUnicode L e reqAddr proto =
     (let hostInfo = (case ax_ResolveInfo reqAddr of
                        None \<Rightarrow> \<lparr>hi_Name = ax_Host reqAddr, hi_IPv4 = [], hi_IPv6 = []\<rparr>
                      | Some r \<Rightarrow> \<lparr>hi_Name = ax_Host reqAddr, hi_IPv4 = ri_IPv4 r, hi_IPv6 = ri_IPv6 r\<rparr>);
          ((ob, hijackIP), rs) = ruleSet_Match toUnicode L (ae_RuleSet e) hostInfo proto (ax_Port reqAddr);
          e = e\<lparr>ae_RuleSet := rs\<rparr>
      in case ob of
           None \<Rightarrow> (ae_Default e, reqAddr, e)
         | Some ob \<Rightarrow>
             (ob,
              (if hijackIP = [] then reqAddr
               else reqAddr\<lparr>ax_Host := ip_String hijackIP,
                            ax_ResolveInfo := Some (case To4 hijackIP of
                              Some ip4 \<Rightarrow> \<lparr>ri_IPv4 = ip4, ri_IPv6 = [], ri_Err = None\<rparr>
                            | None \<Rightarrow> \<lparr>ri_IPv4 = [], ri_IPv6 = hijackIP, ri_Err = None\<rparr>)\<rparr>),
              e))"

text \<open>A request: \<open>handle\<close>, then the method of the outbound it chose.\<close>

fun outbound_call :: "('o \<Rightarrow> AddrEx \<Rightarrow> string + 'r) \<Rightarrow> (AddrEx \<Rightarrow> string + 'r) \<Rightarrow> 'o engineOutbound \<Rightarrow> AddrEx
    \<Rightarrow> string + 'r" where
  "outbound_call user direct (userOutbound ob) addr = user ob addr"
| "outbound_call user direct directOutbound addr = direct addr"
| "outbound_call user direct rejectOutbound addr = Inl ''rejected''"

definition engine_request ::
  "(string \<Rightarrow> string option) \<Rightarrow> ('o engineOutbound, 'c) lru \<Rightarrow> ('o \<Rightarrow> AddrEx \<Rightarrow> string + 'r) \<Rightarrow> (AddrEx \<Rightarrow> string + 'r)
     \<Rightarrow> ('o, 'c) aclEngine \<Rightarrow> AddrEx \<Rightarrow> protocol \<Rightarrow> (string + 'r) \<times> ('o, 'c) aclEngine" where
  "engine_request toUnicode L user direct e reqAddr proto =
     (case engine_handle toUnicode L e reqAddr proto of
        (ob, addr, e) \<Rightarrow> (outbound_call user direct ob addr, e))"

section \<open>The first matching rule decides\<close>

text \<open>What a matcher decides, without index and without state.\<close>

definition host_spec :: "(string \<Rightarrow> string option) \<Rightarrow> hostMatcher \<Rightarrow> hostInfo \<Rightarrow> bool" where
  "host_spec toUnicode m host =
     (case m of GeositeM g \<Rightarrow> list_ex (\<lambda>d. matchDomain (gs_Attrs g) d host) (gs_Domains g)
      | _ \<Rightarrow> fst (host_Match toUnicode m host))"

definition rule_spec :: "(string \<Rightarrow> string option) \<Rightarrow> 'o compiledRule \<Rightarrow> hostInfo \<Rightarrow> protocol \<Rightarrow> int \<Rightarrow> bool" where
  "rule_spec toUnicode r host proto port \<longleftrightarrow>
     (cr_Protocol r = ProtocolBoth \<or> cr_Protocol r = proto) \<and>
     (cr_StartPort r = 0 \<or> cr_StartPort r \<le> port \<and> port \<le> cr_EndPort r) \<and>
     host_spec toUnicode (cr_HostMatcher r) host"

definition match_spec ::
  "(string \<Rightarrow> string option) \<Rightarrow> 'o compiledRule list \<Rightarrow> hostInfo \<Rightarrow> protocol \<Rightarrow> int \<Rightarrow> 'o match_result" where
  "match_spec toUnicode rules host proto port =
     (case find (\<lambda>r. rule_spec toUnicode r host proto port) rules of
        Some r \<Rightarrow> (Some (cr_Outbound r), cr_HijackAddress r) | None \<Rightarrow> (None, []))"

text \<open>A matcher as compiled, and that matcher after some use.\<close>

definition fresh_matcher :: "hostMatcher \<Rightarrow> bool" where
  "fresh_matcher m = (case m of GeositeM g \<Rightarrow> \<not> gs_indexed g | ipMatcher ip \<Rightarrow> length ip = 16 | _ \<Rightarrow> True)"

definition host_rep :: "hostMatcher \<Rightarrow> hostMatcher \<Rightarrow> bool" where
  "host_rep m0 m =
     (case m0 of
        GeositeM g0 \<Rightarrow> (case m of GeositeM g \<Rightarrow> gs_represents (gs_Attrs g0) (gs_Domains g0) g | _ \<Rightarrow> False)
      | _ \<Rightarrow> m = m0)"

definition rule_rep :: "'o compiledRule \<Rightarrow> 'o compiledRule \<Rightarrow> bool" where
  "rule_rep r0 r \<longleftrightarrow> host_rep (cr_HostMatcher r0) (cr_HostMatcher r) \<and>
     r = r0\<lparr>cr_HostMatcher := cr_HostMatcher r\<rparr>"

lemma host_rep_refl: "fresh_matcher m \<Longrightarrow> host_rep m m"
  by (cases m) (simp_all add: host_rep_def fresh_matcher_def gs_represents_def)

lemma host_Match_rep:
  assumes "host_rep m0 m"
  shows "fst (host_Match toUnicode m host) \<longleftrightarrow> host_spec toUnicode m0 host"
    "host_rep m0 (snd (host_Match toUnicode m host))"
proof -
  have "(fst (host_Match toUnicode m host) \<longleftrightarrow> host_spec toUnicode m0 host) \<and>
    host_rep m0 (snd (host_Match toUnicode m host))"
  proof (cases "\<exists>g. m0 = GeositeM g")
    case True
    then obtain g0 where g0: "m0 = GeositeM g0" by blast
    then obtain g where g: "m = GeositeM g" "gs_represents (gs_Attrs g0) (gs_Domains g0) g"
      using assms by (auto simp: host_rep_def split: hostMatcher.splits)
    show ?thesis using geosite_Match_scan [OF g(2), of host] g0 g(1)
      by (simp add: host_spec_def host_rep_def prod.case_eq_if)
  next
    case False
    then have "m = m0" using assms by (auto simp: host_rep_def split: hostMatcher.splits)
    with False show ?thesis
      by (cases m0) (simp_all add: host_spec_def host_rep_def)
  qed
  then show "fst (host_Match toUnicode m host) \<longleftrightarrow> host_spec toUnicode m0 host"
    "host_rep m0 (snd (host_Match toUnicode m host))" by blast+
qed

lemma rule_Match_rep:
  assumes "rule_rep r0 r"
  shows "fst (rule_Match toUnicode r host proto port) \<longleftrightarrow> rule_spec toUnicode r0 host proto port"
    "rule_rep r0 (snd (rule_Match toUnicode r host proto port))"
proof -
  have f: "cr_Protocol r = cr_Protocol r0" "cr_StartPort r = cr_StartPort r0" "cr_EndPort r = cr_EndPort r0"
    "host_rep (cr_HostMatcher r0) (cr_HostMatcher r)" "r = r0\<lparr>cr_HostMatcher := cr_HostMatcher r\<rparr>"
    using assms unfolding rule_rep_def by (metis compiledRule.select_convs(3-5) compiledRule.surjective compiledRule.update_convs(2))+
  note h = host_Match_rep [OF f(4), of toUnicode host]
  show "fst (rule_Match toUnicode r host proto port) \<longleftrightarrow> rule_spec toUnicode r0 host proto port"
    using h(1) by (auto simp: rule_Match_def rule_spec_def f(1-3) prod.case_eq_if)
  have "rule_rep r0 (r\<lparr>cr_HostMatcher := snd (host_Match toUnicode (cr_HostMatcher r) host)\<rparr>)"
    using h(2) f(5) by (metis compiledRule.select_convs(2) compiledRule.surjective compiledRule.update_convs(2) rule_rep_def)
  then show "rule_rep r0 (snd (rule_Match toUnicode r host proto port))"
    using assms by (simp add: rule_Match_def prod.case_eq_if)
qed

lemma rule_rep_result:
  "rule_rep r0 r \<Longrightarrow> cr_Outbound r = cr_Outbound r0 \<and> cr_HijackAddress r = cr_HijackAddress r0"
  unfolding rule_rep_def by (metis compiledRule.select_convs(1,6) compiledRule.surjective compiledRule.update_convs(2))

lemma first_rule_rep:
  "list_all2 rule_rep rs0 rs \<Longrightarrow>
   fst (first_rule toUnicode rs host proto port) = match_spec toUnicode rs0 host proto port \<and>
   list_all2 rule_rep rs0 (snd (first_rule toUnicode rs host proto port))"
proof (induction rs0 rs rule: list_all2_induct)
  case Nil
  then show ?case by (simp add: match_spec_def)
next
  case (Cons r0 rs0 r rs)
  obtain b r1 where 1: "rule_Match toUnicode r host proto port = (b, r1)" by fastforce
  note m = rule_Match_rep [OF Cons(1), of toUnicode host proto port, unfolded 1 fst_conv snd_conv]
  have rr: "cr_Outbound r1 = cr_Outbound r0" "cr_HijackAddress r1 = cr_HijackAddress r0"
    using rule_rep_result [OF m(2)] by simp_all
  show ?case
  proof (cases b)
    case True
    then show ?thesis using m Cons rr by (simp add: 1 match_spec_def)
  next
    case False
    then show ?thesis using m Cons by (simp add: 1 match_spec_def prod.case_eq_if)
  qed
qed

section \<open>The cache is transparent\<close>

lemma append_sep_inj:
  "a @ sep # x = b @ sep # y \<Longrightarrow> sep \<notin> set x \<Longrightarrow> sep \<notin> set y \<Longrightarrow> a = b \<and> x = (y :: string)"
proof -
  assume e: "a @ sep # x = b @ sep # y" and n: "sep \<notin> set x" "sep \<notin> set y"
  have "split2 sep (rev x @ sep # rev a) = split2 sep (rev y @ sep # rev b)"
    using arg_cong [OF e, of rev] by simp
  then show ?thesis using n by (simp add: split2_first)
qed

definition hosts_ok :: "hostInfo \<Rightarrow> bool" where
  "hosts_ok h \<longleftrightarrow> ip_ok (hi_IPv4 h) \<and> ip_ok (hi_IPv6 h)"

lemma host_String_inj:
  assumes "hosts_ok h" "hosts_ok h'" "host_String h = host_String h'"
  shows "hi_Name h = hi_Name h' \<and> ip_canon (hi_IPv4 h) = ip_canon (hi_IPv4 h') \<and>
    ip_canon (hi_IPv6 h) = ip_canon (hi_IPv6 h')"
proof -
  have ok: "ip_ok (hi_IPv4 h)" "ip_ok (hi_IPv6 h)" "ip_ok (hi_IPv4 h')" "ip_ok (hi_IPv6 h')"
    using assms by (simp_all add: hosts_ok_def)
  have "(hi_Name h @ ''|'' @ ip_String (hi_IPv4 h)) @ CHR ''|'' # ip_String (hi_IPv6 h) =
      (hi_Name h' @ ''|'' @ ip_String (hi_IPv4 h')) @ CHR ''|'' # ip_String (hi_IPv6 h')"
    using assms(3) by (simp add: host_String_def)
  from append_sep_inj [OF this] have 1: "hi_Name h @ ''|'' @ ip_String (hi_IPv4 h) = hi_Name h' @ ''|'' @ ip_String (hi_IPv4 h')"
    "ip_String (hi_IPv6 h) = ip_String (hi_IPv6 h')" using ok ip_String_no_bar by blast+
  then have "hi_Name h @ CHR ''|'' # ip_String (hi_IPv4 h) = hi_Name h' @ CHR ''|'' # ip_String (hi_IPv4 h')"
    by simp
  from append_sep_inj [OF this] have "hi_Name h = hi_Name h'" "ip_String (hi_IPv4 h) = ip_String (hi_IPv4 h')"
    using ok ip_String_no_bar by blast+
  with 1(2) show ?thesis using ip_String_inj ok by blast
qed

lemma matchDomain_name: "hi_Name h = hi_Name h' \<Longrightarrow> matchDomain attrs d h = matchDomain attrs d h'"
  by (simp only: matchDomain_def)

lemma domain_Match_name: "hi_Name h = hi_Name h' \<Longrightarrow> domain_Match u p md h = domain_Match u p md h'"
  by (simp only: domain_Match_def)

lemma matchIP_canon: "matchIP m (ip_canon ip) = matchIP m ip"
  by (simp add: matchIP_def To4_canon) (simp add: ip_canon_def split: option.splits)

lemma host_spec_canon:
  assumes "fresh_matcher m" "hosts_ok h" "hosts_ok h'" "hi_Name h = hi_Name h'"
    "ip_canon (hi_IPv4 h) = ip_canon (hi_IPv4 h')" "ip_canon (hi_IPv6 h) = ip_canon (hi_IPv6 h')"
  shows "host_spec toUnicode m h = host_spec toUnicode m h'"
proof (cases m)
  case (ipMatcher ip)
  then show ?thesis using assms
    by (simp add: host_spec_def fresh_matcher_def hosts_ok_def ip_Equal_canon)
next
  case (cidrMatcher n)
  then show ?thesis using assms(5,6) net_Contains_canon by (simp add: host_spec_def) metis
next
  case (domainMatcher p md)
  then show ?thesis using domain_Match_name [OF assms(4)] by (simp add: host_spec_def)
next
  case (GeoipM g)
  have "hi_IPv4 h = [] \<longleftrightarrow> hi_IPv4 h' = []" "hi_IPv6 h = [] \<longleftrightarrow> hi_IPv6 h' = []"
    using assms ip_canon_Nil unfolding hosts_ok_def by metis+
  moreover have "matchIP g (hi_IPv4 h) = matchIP g (hi_IPv4 h')" "matchIP g (hi_IPv6 h) = matchIP g (hi_IPv6 h')"
    using assms(5,6) matchIP_canon by metis+
  ultimately show ?thesis using GeoipM by (simp add: host_spec_def geoip_Match_def)
next
  case (GeositeM g)
  then show ?thesis using matchDomain_name [OF assms(4)] by (simp add: host_spec_def)
qed (simp add: host_spec_def)

text \<open>
  What is relied on of the LRU library: a cache shows some of the entries that were added to it
  (\<open>view\<close>), a new one none; \<open>Get\<close> returns what it shows, and only \<open>Add\<close> adds to that.
\<close>

definition lru_ok :: "('o, 'c) lru \<Rightarrow> ('c \<Rightarrow> cache_key \<Rightarrow> 'o match_result option) \<Rightarrow> bool" where
  "lru_ok L view \<longleftrightarrow>
     (\<forall>n c. lru_New L n = Some c \<longrightarrow> view c = Map.empty) \<and>
     (\<forall>k c. fst (lru_Get L k c) = view c k \<and> view (snd (lru_Get L k c)) \<subseteq>\<^sub>m view c) \<and>
     (\<forall>k v c. view (lru_Add L k v c) \<subseteq>\<^sub>m (view c)(k \<mapsto> v))"

definition cache_right :: "(string \<Rightarrow> string option) \<Rightarrow> 'o compiledRule list \<Rightarrow> (cache_key \<Rightarrow> 'o match_result option) \<Rightarrow> bool" where
  "cache_right toUnicode rules m \<longleftrightarrow>
     (\<forall>h proto port res. hosts_ok h \<and> m (host_String h, proto, port) = Some res \<longrightarrow>
        res = match_spec toUnicode rules h proto port)"

lemma match_spec_key:
  assumes "\<forall>r \<in> set rules. fresh_matcher (cr_HostMatcher r)" "hosts_ok h" "hosts_ok h'"
    "host_String h = host_String h'"
  shows "match_spec toUnicode rules h proto port = match_spec toUnicode rules h' proto port"
proof -
  have "rule_spec toUnicode r h proto port = rule_spec toUnicode r h' proto port" if "r \<in> set rules" for r
    using host_String_inj [OF assms(2-4)] assms that host_spec_canon [of "cr_HostMatcher r" h h' toUnicode]
    by (simp add: rule_spec_def)
  then have "find (\<lambda>r. rule_spec toUnicode r h proto port) rules =
      find (\<lambda>r. rule_spec toUnicode r h' proto port) rules"
    by (induction rules) auto
  then show ?thesis by (simp add: match_spec_def)
qed

lemma map_le_cache: "m' \<subseteq>\<^sub>m m \<Longrightarrow> cache_right toUnicode rules m \<Longrightarrow> cache_right toUnicode rules m'"
proof -
  assume le: "m' \<subseteq>\<^sub>m m" and c: "cache_right toUnicode rules m"
  have "m k = Some v" if "m' k = Some v" for k v
    using le that by (metis domI map_le_def)
  with c show ?thesis unfolding cache_right_def by blast
qed

lemma cache_right_upd:
  assumes "\<forall>r \<in> set rules. fresh_matcher (cr_HostMatcher r)" "hosts_ok h" "cache_right toUnicode rules m"
  shows "cache_right toUnicode rules (m((host_String h, proto, port) \<mapsto> match_spec toUnicode rules h proto port))"
  unfolding cache_right_def
proof (intro allI impI, elim conjE)
  fix h' p' q res
  assume a: "hosts_ok h'" "(m((host_String h, proto, port) \<mapsto> match_spec toUnicode rules h proto port))
    (host_String h', p', q) = Some res"
  show "res = match_spec toUnicode rules h' p' q"
  proof (cases "(host_String h', p', q) = (host_String h, proto, port)")
    case True
    then have "host_String h' = host_String h" "p' = proto" "q = port" by simp_all
    with a(2) match_spec_key [OF assms(1) a(1) assms(2)] show ?thesis by simp
  next
    case False
    have "m (host_String h', p', q) = Some res" using a(2) unfolding fun_upd_apply if_not_P [OF False] .
    with assms(3) a(1) show ?thesis unfolding cache_right_def by blast
  qed
qed

definition normal_host :: "hostInfo \<Rightarrow> hostInfo" where
  "normal_host h = h\<lparr>hi_Name := TrimRight (ToLower (hi_Name h)) (CHR ''.'')\<rparr>"

lemma ruleSet_Match_ok:
  assumes L: "lru_ok L view" and rules: "\<forall>r \<in> set rules. fresh_matcher (cr_HostMatcher r)"
    and rep: "list_all2 rule_rep rules (rs_Rules s)" "cache_right toUnicode rules (view (rs_Cache s))"
    and h: "hosts_ok h" and m: "ruleSet_Match toUnicode L s h proto port = (res, s')"
  shows "res = match_spec toUnicode rules (normal_host h) proto port \<and>
    list_all2 rule_rep rules (rs_Rules s') \<and> cache_right toUnicode rules (view (rs_Cache s'))"
proof -
  let ?h = "normal_host h"
  have h': "hosts_ok ?h" using h by (simp add: hosts_ok_def normal_host_def)
  obtain r c where g: "lru_Get L (host_String ?h, proto, port) (rs_Cache s) = (r, c)" by fastforce
  then have r: "r = view (rs_Cache s) (host_String ?h, proto, port)" "view c \<subseteq>\<^sub>m view (rs_Cache s)"
    using L unfolding lru_ok_def by (metis fst_conv, metis snd_conv)
  have c: "cache_right toUnicode rules (view c)" by (rule map_le_cache [OF r(2) rep(2)])
  show ?thesis
  proof (cases r)
    case (Some v)
    have "ruleSet_Match toUnicode L s h proto port = (v, s\<lparr>rs_Cache := c\<rparr>)"
      unfolding ruleSet_Match_def normal_host_def [symmetric] Let_def g Some prod.case option.case by (rule refl)
    then have "res = v" "s' = s\<lparr>rs_Cache := c\<rparr>" using m by simp_all
    moreover have "v = match_spec toUnicode rules ?h proto port"
      using rep(2) h' r(1) Some unfolding cache_right_def by metis
    ultimately show ?thesis using rep(1) c by simp
  next
    case None
    obtain res1 rl where f: "first_rule toUnicode (rs_Rules s) ?h proto port = (res1, rl)" by fastforce
    have "ruleSet_Match toUnicode L s h proto port =
        (res1, s\<lparr>rs_Rules := rl, rs_Cache := lru_Add L (host_String ?h, proto, port) res1 c\<rparr>)"
      unfolding ruleSet_Match_def normal_host_def [symmetric] Let_def g None prod.case option.case f by (rule refl)
    then have s': "res = res1" "s' = s\<lparr>rs_Rules := rl, rs_Cache := lru_Add L (host_String ?h, proto, port) res1 c\<rparr>"
      using m by simp_all
    have s: "res1 = match_spec toUnicode rules ?h proto port" "list_all2 rule_rep rules rl"
      using first_rule_rep [OF rep(1), of toUnicode ?h proto port] f by simp_all
    have "view (lru_Add L (host_String ?h, proto, port) res1 c) \<subseteq>\<^sub>m
        (view c)((host_String ?h, proto, port) \<mapsto> res1)" using L unfolding lru_ok_def by blast
    then have "cache_right toUnicode rules (view (lru_Add L (host_String ?h, proto, port) res1 c))"
      using cache_right_upd [OF rules h' c, of proto port] unfolding s(1) by (rule map_le_cache)
    then show ?thesis using s s' by simp
  qed
qed

section \<open>Properties\<close>

lemma compileHostMatcher_fresh:
  "compileHostMatcher addr geo = Inr m \<Longrightarrow> fresh_matcher m"
  using ParseIP_length
  by (auto simp: compileHostMatcher_def fresh_matcher_def Let_def newGeositeMatcher_def
      split: if_splits sum.splits option.splits prod.splits)

lemma compile_rules_fresh:
  "compile_rules obs geo rules = Inr cs \<Longrightarrow> \<forall>r \<in> set cs. fresh_matcher (cr_HostMatcher r)"
proof (induction rules arbitrary: cs)
  case (Cons r rs)
  then obtain c ds where c: "compile_rule obs geo r = Inr c" "compile_rules obs geo rs = Inr ds" "cs = c # ds"
    by (auto split: sum.splits)
  from c(1) obtain m where "compileHostMatcher (tr_Address r) geo = Inr m" "cr_HostMatcher c = m"
    by (auto simp: compile_rule_def Let_def split: option.splits sum.splits prod.splits)
  with compileHostMatcher_fresh Cons.IH [OF c(2)] show ?case by (auto simp: c(3))
qed simp

text \<open>What the engine should do with a request: the decision of the rules as written.\<close>

definition request_host :: "AddrEx \<Rightarrow> hostInfo" where
  "request_host a = (case ax_ResolveInfo a of
     None \<Rightarrow> \<lparr>hi_Name = ax_Host a, hi_IPv4 = [], hi_IPv6 = []\<rparr>
   | Some r \<Rightarrow> \<lparr>hi_Name = ax_Host a, hi_IPv4 = ri_IPv4 r, hi_IPv6 = ri_IPv6 r\<rparr>)"

definition hijacked :: "AddrEx \<Rightarrow> bytes \<Rightarrow> AddrEx" where
  "hijacked a ip = (if ip = [] then a
     else a\<lparr>ax_Host := ip_String ip, ax_ResolveInfo := Some (case To4 ip of
             Some ip4 \<Rightarrow> \<lparr>ri_IPv4 = ip4, ri_IPv6 = [], ri_Err = None\<rparr>
           | None \<Rightarrow> \<lparr>ri_IPv4 = [], ri_IPv6 = ip, ri_Err = None\<rparr>)\<rparr>)"

definition engine_spec ::
  "(string \<Rightarrow> string option) \<Rightarrow> 'o compiledRule list \<Rightarrow> 'o \<Rightarrow> AddrEx \<times> protocol \<Rightarrow> 'o \<times> AddrEx" where
  "engine_spec toUnicode rules dflt req =
     (case match_spec toUnicode rules (normal_host (request_host (fst req))) (snd req) (ax_Port (fst req)) of
        (None, _) \<Rightarrow> (dflt, fst req)
      | (Some ob, ip) \<Rightarrow> (ob, hijacked (fst req) ip))"

fun engine_run ::
  "(string \<Rightarrow> string option) \<Rightarrow> ('o engineOutbound, 'c) lru \<Rightarrow> ('o, 'c) aclEngine \<Rightarrow> (AddrEx \<times> protocol) list
     \<Rightarrow> ('o engineOutbound \<times> AddrEx) list" where
  "engine_run toUnicode L e [] = []"
| "engine_run toUnicode L e ((a, p) # reqs) =
     (case engine_handle toUnicode L e a p of (ob, a, e) \<Rightarrow> (ob, a) # engine_run toUnicode L e reqs)"

lemma engine_handle_ok:
  assumes L: "lru_ok L view" and rules: "\<forall>r \<in> set rules. fresh_matcher (cr_HostMatcher r)"
    and rep: "list_all2 rule_rep rules (rs_Rules (ae_RuleSet e))"
      "cache_right toUnicode rules (view (rs_Cache (ae_RuleSet e)))"
    and h: "hosts_ok (request_host a)" and run: "engine_handle toUnicode L e a p = (ob, a', e')"
  shows "(ob, a') = engine_spec toUnicode rules (ae_Default e) (a, p) \<and> ae_Default e' = ae_Default e \<and>
    list_all2 rule_rep rules (rs_Rules (ae_RuleSet e')) \<and>
    cache_right toUnicode rules (view (rs_Cache (ae_RuleSet e')))"
proof -
  obtain o1 ip rs where m: "ruleSet_Match toUnicode L (ae_RuleSet e) (request_host a) p (ax_Port a) = ((o1, ip), rs)"
    by (metis prod_cases3 prod.collapse)
  note ok = ruleSet_Match_ok [OF L rules rep h m]
  have "engine_handle toUnicode L e a p =
      (case o1 of None \<Rightarrow> (ae_Default e, a, e\<lparr>ae_RuleSet := rs\<rparr>)
       | Some ob \<Rightarrow> (ob, hijacked a ip, e\<lparr>ae_RuleSet := rs\<rparr>))"
    unfolding engine_handle_def Let_def request_host_def [symmetric] m prod.case hijacked_def
    by (simp split: option.splits)
  then show ?thesis using run ok
    by (cases o1) (auto simp: engine_spec_def split: prod.splits)
qed

text \<open>
  C3: The ACL engine decides every request as its rules are written: the first rule, in the order of
  the file, whose protocol, ports and host match names the outbound and the hijack address, and the
  default outbound gets the rest.  Neither the result cache (whatever it evicts) nor the lazily built
  domain index can change a decision, in any sequence of requests.
\<close>

theorem acl_first_match_decides:
  assumes "ParseTextRules txt = Inr trs" "compile_rules (outboundsToMap obs) geo trs = Inr rules"
    and "NewACLEngineFromString txt obs geo L = Inr e" "lru_ok L view"
    and "list_all (\<lambda>(a, p). hosts_ok (request_host a)) reqs"
  shows "engine_run toUnicode L e reqs =
    map (engine_spec toUnicode rules (the (outboundsToMap obs ''default''))) reqs"
proof -
  have fresh: "\<forall>r \<in> set rules. fresh_matcher (cr_HostMatcher r)"
    by (rule compile_rules_fresh [OF assms(2)])
  obtain c where c: "lru_New L aclCacheSize = Some c"
    "e = \<lparr>ae_RuleSet = \<lparr>rs_Rules = rules, rs_Cache = c\<rparr>, ae_Default = the (outboundsToMap obs ''default'')\<rparr>"
    using assms(1-3) by (auto simp: NewACLEngineFromString_def Compile_def Let_def split: option.splits)
  have "rule_rep r r" if "r \<in> set rules" for r
    using fresh that host_rep_refl by (simp add: rule_rep_def)
  then have rep: "list_all2 rule_rep rules (rs_Rules (ae_RuleSet e))"
    by (simp add: c(2) list_all2_same)
  have "view c = Map.empty" using assms(4) c(1) unfolding lru_ok_def by blast
  then have cr: "cache_right toUnicode rules (view (rs_Cache (ae_RuleSet e)))"
    by (simp add: c(2) cache_right_def)
  have "ae_Default e = the (outboundsToMap obs ''default'')" by (simp add: c(2))
  with rep cr assms(5) show ?thesis
  proof (induction reqs arbitrary: e)
    case (Cons r reqs)
    obtain a p where r: "r = (a, p)" by fastforce
    obtain ob a' e' where run: "engine_handle toUnicode L e a p = (ob, a', e')" by (metis prod_cases3)
    have h: "hosts_ok (request_host a)" using Cons.prems(3) r by simp
    note ok = engine_handle_ok [OF assms(4) fresh Cons.prems(1,2) h run]
    have "list_all (\<lambda>(a, p). hosts_ok (request_host a)) reqs" using Cons.prems(3) by simp
    with ok Cons.IH [of e'] Cons.prems(4) show ?case by (simp add: r run)
  qed simp
qed

text \<open>A least recently used cache of bounded size, for the witness.\<close>

definition list_lru :: "('o, (cache_key \<times> 'o match_result) list) lru" where
  "list_lru = \<lparr>lru_New = (\<lambda>n. if n \<le> 0 then None else Some []),
     lru_Get = (\<lambda>k c. case map_of c k of None \<Rightarrow> (None, c)
                  | Some v \<Rightarrow> (Some v, (k, v) # filter (\<lambda>e. fst e \<noteq> k) c)),
     lru_Add = (\<lambda>k v c. take 1024 ((k, v) # filter (\<lambda>e. fst e \<noteq> k) c))\<rparr>"

lemma map_of_take: "map_of (take n xs) \<subseteq>\<^sub>m map_of xs"
proof (induction n arbitrary: xs)
  case (Suc n)
  show ?case
  proof (cases xs)
    case (Cons x xs')
    obtain a b where x: "x = (a, b)" by fastforce
    have "(map_of (take n xs'))(a \<mapsto> b) \<subseteq>\<^sub>m (map_of xs')(a \<mapsto> b)" using Suc by (rule map_le_upd)
    then show ?thesis by (simp add: Cons x fun_upd_def)
  qed simp
qed simp

lemma map_of_filter_key: "map_of (filter (\<lambda>e. fst e \<noteq> k) xs) = (map_of xs)(k := None)"
  by (induction xs) (auto simp: fun_eq_iff)

lemma list_lru_ok: "lru_ok list_lru map_of"
proof -
  have g: "(map_of c)(k := None, k \<mapsto> v) \<subseteq>\<^sub>m map_of c" if "map_of c k = Some v" for c :: "(cache_key \<times> 'o match_result) list" and k v
    using that by (auto simp: map_le_def)
  have "map_of (take 1024 ((k, v) # filter (\<lambda>e. fst e \<noteq> k) c)) \<subseteq>\<^sub>m (map_of c)(k \<mapsto> v)"
    for c :: "(cache_key \<times> 'o match_result) list" and k v
    using map_of_take [of 1024 "(k, v) # filter (\<lambda>e. fst e \<noteq> k) c"] map_of_filter_key [of k c] by simp
  then show ?thesis
    using g by (auto simp: lru_ok_def list_lru_def map_of_filter_key split: option.splits)
qed

lemma acl_first_match_decides_witness:
  "engine_run Some list_lru \<lparr>ae_RuleSet = \<lparr>rs_Rules = [\<lparr>cr_Outbound = rejectOutbound,
       cr_HostMatcher = domainMatcher ''ads.com'' domainMatchSuffix, cr_Protocol = ProtocolTCP,
       cr_StartPort = 0, cr_EndPort = 0, cr_HijackAddress = []\<rparr>], rs_Cache = []\<rparr>,
     ae_Default = (directOutbound :: nat engineOutbound)\<rparr>
     [(\<lparr>ax_Host = ''X.ads.com.'', ax_Port = 80, ax_ResolveInfo = None\<rparr>, ProtocolTCP)] =
   [(rejectOutbound, \<lparr>ax_Host = ''X.ads.com.'', ax_Port = 80, ax_ResolveInfo = None\<rparr>)]"
proof -
  note [simp del] = ToLower.simps
  let ?txt = "''reject(suffix:ads.com, tcp)''" and ?geo = "\<lparr>LoadGeoIP = Inl ''none'', LoadGeoSite = Inl ''none'', regexCompile = \<lambda>_. None\<rparr>"
  let ?rules = "[\<lparr>cr_Outbound = rejectOutbound :: nat engineOutbound,
       cr_HostMatcher = domainMatcher ''ads.com'' domainMatchSuffix, cr_Protocol = ProtocolTCP,
       cr_StartPort = 0, cr_EndPort = 0, cr_HijackAddress = []\<rparr>]"
  let ?e = "\<lparr>ae_RuleSet = \<lparr>rs_Rules = ?rules, rs_Cache = []\<rparr>, ae_Default = directOutbound :: nat engineOutbound\<rparr>"
  let ?req = "[(\<lparr>ax_Host = ''X.ads.com.'', ax_Port = 80, ax_ResolveInfo = None\<rparr>, ProtocolTCP)]"
  have 1: "ParseTextRules ?txt = Inr [\<lparr>tr_Outbound = ''reject'', tr_Address = ''suffix:ads.com'',
      tr_ProtoPort = ''tcp'', tr_HijackAddress = '''', tr_LineNum = 1\<rparr>]" by code_simp
  have low: "ToLower ''reject'' = ''reject''" by code_simp
  have m: "outboundsToMap ([] :: (string \<times> nat) list) ''reject'' = Some rejectOutbound"
    "outboundsToMap ([] :: (string \<times> nat) list) ''default'' = Some directOutbound"
    by (simp_all add: outboundsToMap_def)
  have cm: "compileHostMatcher ''suffix:ads.com'' ?geo = Inr (domainMatcher ''ads.com'' domainMatchSuffix)"
  proof -
    have t: "TrimRight (ToLower ''suffix:ads.com'') (CHR ''.'') = ''suffix:ads.com''" by code_simp
    show ?thesis unfolding compileHostMatcher_def t Let_def by (simp add: HasPrefix_def)
  qed
  have pp: "parseProtoPort ''tcp'' = Some (ProtocolTCP, 0, 0)" by code_simp
  have 2: "compile_rules (outboundsToMap []) ?geo [\<lparr>tr_Outbound = ''reject'', tr_Address = ''suffix:ads.com'',
      tr_ProtoPort = ''tcp'', tr_HijackAddress = '''', tr_LineNum = 1\<rparr>] = Inr ?rules"
    by (simp add: compile_rule_def low m(1) cm pp)
  have 3: "NewACLEngineFromString ?txt [] ?geo list_lru = Inr ?e"
    unfolding NewACLEngineFromString_def Compile_def Let_def 1 sum.case 2 m(2)
    by (simp add: aclCacheSize_def list_lru_def)
  have nm: "TrimRight (ToLower ''X.ads.com.'') (CHR ''.'') = ''x.ads.com''" by code_simp
  have sf: "HasSuffix ''x.ads.com'' ''.ads.com''" by code_simp
  show ?thesis
    using acl_first_match_decides [OF 1 2 3 list_lru_ok, of ?req Some] sf
    by (simp add: m(2) request_host_def hosts_ok_def ip_ok_def engine_spec_def match_spec_def rule_spec_def
        host_spec_def normal_host_def nm domain_Match_def hijacked_def)
qed

text \<open>The lines of a rule text without comments and outer space, numbered from \<open>n\<close>.\<close>

fun numbered :: "nat \<Rightarrow> string list \<Rightarrow> (nat \<times> string) list" where
  "numbered n [] = []"
| "numbered n (l # ls) = (n, TrimSpace (takeWhile (\<lambda>c. c \<noteq> CHR ''#'') l)) # numbered (Suc n) ls"

lemma parse_lines_find:
  "parse_lines ls n rules =
     (case find (\<lambda>(k, l). l \<noteq> [] \<and> match_line l = None) (numbered (Suc n) ls) of
        Some (k, l) \<Rightarrow> Inl (InvalidSyntaxError l k)
      | None \<Rightarrow> Inr (rules @ map (\<lambda>(k, l). the (parseLine l k))
                 (filter (\<lambda>(k, l). l \<noteq> []) (numbered (Suc n) ls))))"
proof (induction ls arbitrary: n rules)
  case (Cons l ls)
  let ?l = "TrimSpace (takeWhile (\<lambda>c. c \<noteq> CHR ''#'') l)"
  show ?case
  proof (cases "?l = []")
    case True
    then show ?thesis using Cons by (simp add: Let_def split: option.split)
  next
    case False
    show ?thesis
    proof (cases "match_line ?l")
      case None
      then show ?thesis using False by (simp add: Let_def parseLine_def)
    next
      case (Some m)
      then obtain r where "parseLine ?l (n + 1) = Some r" by (cases m) (simp add: parseLine_def)
      then show ?thesis using False Some Cons by (simp add: Let_def split: option.split)
    qed
  qed
qed simp

text \<open>
  Parsing reports the first line, by number and cleaned text, that is neither blank nor a
  comment nor a rule, and otherwise returns one rule per remaining line, in the order of the file
  and with its line number.
\<close>

theorem acl_parse_first_error:
  "ParseTextRules txt =
     (case find (\<lambda>(k, l). l \<noteq> [] \<and> match_line l = None) (numbered (Suc 0) (split_at (CHR 0x0A) txt)) of
        Some (k, l) \<Rightarrow> Inl (InvalidSyntaxError l k)
      | None \<Rightarrow> Inr (map (\<lambda>(k, l). the (parseLine l k))
                 (filter (\<lambda>(k, l). l \<noteq> []) (numbered (Suc 0) (split_at (CHR 0x0A) txt)))))"
  using parse_lines_find [of "split_at (CHR 0x0A) txt" 0 "[]"] by (simp only: ParseTextRules_def append_Nil)

text \<open>
  A port range that starts at 0 means every port: 0 is also the code's mark for \<open>any port\<close>.
\<close>

lemma acl_port_zero_means_any:
  assumes "cr_StartPort r = 0" "cr_Protocol r = ProtocolTCP" "cr_HostMatcher r = allMatcher"
  shows "parseProtoPort ''tcp/0-1023'' = Some (ProtocolTCP, 0, 1023) \<and>
    rule_spec toUnicode r host ProtocolTCP 8080"
proof -
  have "parseProtoPort ''tcp/0-1023'' = Some (ProtocolTCP, 0, 1023)" by code_simp
  then show ?thesis using assms by (simp add: rule_spec_def host_spec_def)
qed

end
