(* ===== verification/Go_Float.thy ===== *)
theory Go_Float
  imports Complex_Main Hy_Prelude
begin

text \<open>
  Go's \<open>float64\<close> as the congestion controllers use it: the values are rational numbers, and every
  operation rounds its exact result to 53 significant bits, ties to even (\<open>fl\<close>).  All quantities
  are far from the limits of the exponent (they are rates, windows and gains below \<open>2 ^ 70\<close>), so
  overflow, subnormal numbers and NaN do not occur and are not modelled.  Conversions to integers
  truncate; a value out of range, which Go leaves to the implementation, gives what amd64 gives.
\<close>

type_synonym float64 = rat

function bit_length :: "int \<Rightarrow> nat" where
  "bit_length n = (if n \<le> 0 then 0 else Suc (bit_length (n div 2)))"
  by auto
termination by (relation "measure nat") auto

declare bit_length.simps [simp del]

definition pow2 :: "int \<Rightarrow> rat" where
  "pow2 e = (if 0 \<le> e then 2 ^ nat e else 1 / 2 ^ nat (- e))"

definition round_even :: "rat \<Rightarrow> int" where
  "round_even x =
     (let f = \<lfloor>x\<rfloor>; r = x - of_int f
      in if r < 1 / 2 then f else if r > 1 / 2 then f + 1 else if even f then f else f + 1)"

text \<open>The exponent of the last of the 53 bits.\<close>

definition ulp_exp :: "rat \<Rightarrow> int" where
  "ulp_exp x =
     (let (n, d) = quotient_of \<bar>x\<bar>;
          e = int (bit_length n) - int (bit_length d) - 53
      in if \<bar>x\<bar> \<ge> 2 ^ 53 * pow2 e then e + 1 else e)"

definition fl :: "rat \<Rightarrow> float64" where
  "fl x = (if x = 0 then 0 else of_int (round_even (x / pow2 (ulp_exp x))) * pow2 (ulp_exp x))"

definition f64_of_int :: "int \<Rightarrow> float64" where "f64_of_int n = fl (of_int n)"
definition fmul :: "float64 \<Rightarrow> float64 \<Rightarrow> float64" where "fmul a b = fl (a * b)"
definition fdiv :: "float64 \<Rightarrow> float64 \<Rightarrow> float64" where "fdiv a b = fl (a / b)"

definition trunc_rat :: "rat \<Rightarrow> int" where
  "trunc_rat x = (if 0 \<le> x then \<lfloor>x\<rfloor> else \<lceil>x\<rceil>)"

definition f64_to_i64 :: "float64 \<Rightarrow> int" where
  "f64_to_i64 x = (if in_i64 (trunc_rat x) then trunc_rat x else - (2 ^ 63))"

definition f64_to_u64 :: "float64 \<Rightarrow> int" where
  "f64_to_u64 x = (if 0 \<le> trunc_rat x \<and> trunc_rat x < 2 ^ 64 then trunc_rat x else 2 ^ 63)"

lemma pow2_pos [simp]: "0 < pow2 e"
  by (simp add: pow2_def)

lemma pow2_Suc: "pow2 (e + 1) = 2 * pow2 e"
proof (cases "0 \<le> e")
  case True
  then have "nat (e + 1) = Suc (nat e)" by simp
  with True show ?thesis by (simp add: pow2_def)
next
  case False
  then have "nat (- e) = Suc (nat (- e - 1))" by simp
  with False show ?thesis by (simp add: pow2_def)
qed

lemma pow2_mult: "pow2 (a + b) = pow2 a * pow2 b"
proof (induction b rule: int_induct [where k = 0])
  case base
  then show ?case by (simp add: pow2_def)
next
  case (step1 i)
  then show ?case using pow2_Suc [of "a + i"] pow2_Suc [of i] by (simp add: add.assoc)
next
  case (step2 i)
  then show ?case using pow2_Suc [of "a + (i - 1)"] pow2_Suc [of "i - 1"] by simp
qed

lemma pow2_nat: "pow2 (int n) = 2 ^ n"
  by (simp add: pow2_def)

lemma bit_length_bounds:
  "0 < n \<Longrightarrow> 2 ^ (bit_length n - 1) \<le> n \<and> n < 2 ^ bit_length n \<and> 0 < bit_length n"
proof (induction n rule: bit_length.induct)
  case (1 n)
  have s: "bit_length n = Suc (bit_length (n div 2))"
    using 1(2) by (subst bit_length.simps) simp
  show ?case
  proof (cases "n div 2 = 0")
    case True
    then have "n = 1" using 1(2) by auto
    then show ?thesis by (simp add: bit_length.simps)
  next
    case False
    with 1 have ih: "2 ^ (bit_length (n div 2) - 1) \<le> n div 2" "n div 2 < 2 ^ bit_length (n div 2)"
      "0 < bit_length (n div 2)" by auto
    then obtain k where k: "bit_length (n div 2) = Suc k" by (cases "bit_length (n div 2)") auto
    show ?thesis using ih by (auto simp: s k)
  qed
qed

lemma quotient_of_pos:
  assumes "0 < x" "quotient_of x = (n, d)"
  shows "0 < n" "0 < d" "x = of_int n / of_int d"
proof -
  show d: "0 < d" using assms(2) by (rule quotient_of_denom_pos)
  show x: "x = of_int n / of_int d" using assms(2) by (rule quotient_of_div)
  show "0 < n" using assms(1) d by (simp add: x zero_less_divide_iff)
qed

lemma bit_length_rat:
  assumes "0 < n"
  shows "(2 :: rat) ^ (bit_length n - 1) \<le> of_int n" "of_int n < (2 :: rat) ^ bit_length n"
    "0 < bit_length n"
proof -
  note b = bit_length_bounds [OF assms]
  have "of_int (2 ^ (bit_length n - 1)) \<le> (of_int n :: rat)"
    using b by (simp only: of_int_le_iff)
  then show "(2 :: rat) ^ (bit_length n - 1) \<le> of_int n" by simp
  have "(of_int n :: rat) < of_int (2 ^ bit_length n)"
    using b by (simp only: of_int_less_iff)
  then show "of_int n < (2 :: rat) ^ bit_length n" by simp
  show "0 < bit_length n" using b by blast
qed

lemma pow2_diff: "pow2 (int a - int b) = 2 ^ a / 2 ^ b"
  using pow2_mult [of "int a - int b" "int b"] by (simp add: pow2_nat field_simps)

lemma ulp_exp_bounds:
  assumes "x \<noteq> 0"
  shows "2 ^ 52 * pow2 (ulp_exp x) \<le> \<bar>x\<bar>" "\<bar>x\<bar> < 2 ^ 53 * pow2 (ulp_exp x)"
proof -
  obtain n d where q: "quotient_of \<bar>x\<bar> = (n, d)" by fastforce
  have nd: "0 < n" "0 < d" "\<bar>x\<bar> = of_int n / of_int d" using quotient_of_pos [OF _ q] assms by auto
  let ?a = "bit_length n" and ?b = "bit_length d"
  define e where "e = int ?a - int ?b - 53"
  note n = bit_length_rat [OF nd(1)] and d = bit_length_rat [OF nd(2)]
  have lo: "2 ^ 52 * pow2 e = 2 ^ (?a - 1) / 2 ^ ?b"
  proof -
    have "int 52 + e = int (?a - 1) - int ?b" using n(3) by (simp add: e_def)
    then show ?thesis using pow2_mult [of "int 52" e] pow2_nat [of 52] pow2_diff by simp
  qed
  have hi: "2 ^ 54 * pow2 e = 2 ^ ?a / 2 ^ (?b - 1)"
  proof -
    have "int 54 + e = int ?a - int (?b - 1)" using d(3) by (simp add: e_def)
    then show ?thesis using pow2_mult [of "int 54" e] pow2_nat [of 54] pow2_diff by simp
  qed
  have d0: "(0 :: rat) < of_int d" using nd(2) by simp
  have "2 ^ (?a - 1) / 2 ^ ?b \<le> (of_int n / of_int d :: rat)"
    using n d d0 nd(1) by (intro frac_le) simp_all
  then have l: "2 ^ 52 * pow2 e \<le> \<bar>x\<bar>" by (simp only: lo nd(3))
  have "(of_int n / of_int d :: rat) < 2 ^ ?a / 2 ^ (?b - 1)"
    using n d d0 nd(1) by (intro frac_less) simp_all
  then have h: "\<bar>x\<bar> < 2 ^ 54 * pow2 e" by (simp only: hi nd(3))
  have u: "ulp_exp x = (if \<bar>x\<bar> \<ge> 2 ^ 53 * pow2 e then e + 1 else e)"
    by (simp add: ulp_exp_def q e_def Let_def)
  show "2 ^ 52 * pow2 (ulp_exp x) \<le> \<bar>x\<bar>" using l by (simp add: u pow2_Suc)
  show "\<bar>x\<bar> < 2 ^ 53 * pow2 (ulp_exp x)" using h by (simp add: u pow2_Suc)
qed

lemma round_even_of_int [simp]: "round_even (of_int n) = n"
  by (simp add: round_even_def)

lemma round_even_le: "x \<le> of_int n \<Longrightarrow> round_even x \<le> n"
proof -
  assume x: "x \<le> of_int n"
  then have f: "\<lfloor>x\<rfloor> \<le> n" by (simp add: floor_le_iff)
  show ?thesis
  proof (cases "\<lfloor>x\<rfloor> = n")
    case True
    then have "x = of_int n" using x by (simp add: floor_eq_iff)
    then show ?thesis by simp
  qed (use f in \<open>auto simp: round_even_def Let_def\<close>)
qed

lemma round_even_ge: "of_int n \<le> x \<Longrightarrow> n \<le> round_even x"
  using le_floor_iff [of n x] by (auto simp: round_even_def Let_def)

lemma pow2_small: "pow2 e < 2 \<Longrightarrow> e \<le> 0"
proof (rule ccontr)
  assume a: "pow2 e < 2" "\<not> e \<le> 0"
  then obtain k where "nat e = Suc k" by (cases "nat e") auto
  with a have "(2 :: rat) ^ k < 1" by (simp add: pow2_def)
  then show False using one_le_power [of "2 :: rat" k] by linarith
qed

text \<open>Integers below \<open>2 ^ 53\<close> are represented exactly.\<close>

lemma fl_exact:
  assumes "\<bar>n\<bar> < 2 ^ 53"
  shows "fl (of_int n) = of_int n"
proof (cases "n = 0")
  case False
  let ?e = "ulp_exp (of_int n)"
  have "2 ^ 52 * pow2 ?e \<le> \<bar>of_int n :: rat\<bar>" using ulp_exp_bounds [of "of_int n"] False by simp
  also have "\<dots> < 2 ^ 53" using assms by (metis of_int_abs of_int_less_iff of_int_numeral of_int_power)
  finally have "pow2 ?e < 2" by simp
  then have e: "?e \<le> 0" by (rule pow2_small)
  then have v: "of_int n / pow2 ?e = of_int (n * 2 ^ nat (- ?e))" by (auto simp: pow2_def)
  have "fl (of_int n) = of_int (n * 2 ^ nat (- ?e)) * pow2 ?e"
    using False by (simp only: fl_def v round_even_of_int of_int_eq_0_iff if_False)
  then show ?thesis using e by (auto simp: pow2_def)
qed (simp add: fl_def)

lemma fl_0 [simp]: "fl 0 = 0" and fl_1 [simp]: "fl 1 = 1"
  using fl_exact [of 1] by (simp_all add: fl_def)

text \<open>Rounding a fraction of 1 stays a fraction of 1.\<close>

lemma fl_unit:
  assumes "0 \<le> x" "x \<le> 1"
  shows "0 \<le> fl x" "fl x \<le> 1"
proof -
  have "0 \<le> fl x \<and> fl x \<le> 1"
  proof (cases "x = 0")
    case False
    let ?e = "ulp_exp x"
    have "2 ^ 52 * pow2 ?e \<le> 1" using ulp_exp_bounds(1) [OF False] assms by linarith
    then have "4503599627370496 * pow2 ?e \<le> 1" by simp
    then have "pow2 ?e < 2" using pow2_pos [of ?e] by linarith
    then have e: "?e \<le> 0" by (rule pow2_small)
    have one: "1 = of_int (2 ^ nat (- ?e)) * pow2 ?e" using e by (auto simp: pow2_def)
    have "x / pow2 ?e \<le> of_int (2 ^ nat (- ?e))"
      using assms(2) one by (simp add: pos_divide_le_eq)
    then have "round_even (x / pow2 ?e) \<le> 2 ^ nat (- ?e)" by (rule round_even_le)
    then have "of_int (round_even (x / pow2 ?e)) * pow2 ?e \<le> of_int (2 ^ nat (- ?e)) * pow2 ?e"
      by (intro mult_right_mono) (simp_all only: of_int_le_iff less_imp_le [OF pow2_pos])
    then have "of_int (round_even (x / pow2 ?e)) * pow2 ?e \<le> 1" by (simp only: one [symmetric])
    moreover have "0 \<le> x / pow2 ?e" using assms(1) less_imp_le [OF pow2_pos]
      by (rule divide_nonneg_nonneg)
    then have "0 \<le> round_even (x / pow2 ?e)" using round_even_ge [of 0] by simp
    moreover from calculation have "0 \<le> rat_of_int (round_even (x / pow2 ?e)) * pow2 ?e"
      by (intro mult_nonneg_nonneg) (simp_all add: less_imp_le)
    ultimately show ?thesis using False by (simp add: fl_def)
  qed simp
  then show "0 \<le> fl x" "fl x \<le> 1" by auto
qed


text \<open>Rounding never crosses an integer that is represented exactly.\<close>

lemma fl_ge_int:
  assumes "0 \<le> n" "n < 2 ^ 53" "of_int n \<le> x"
  shows "of_int n \<le> fl x"
proof (cases "x = 0")
  case False
  let ?e = "ulp_exp x"
  have x: "0 < x" using False assms(1,3) by (metis of_int_0_le_iff order_le_less order_trans)
  show ?thesis
  proof (cases "?e \<le> 0")
    case True
    have "of_int (n * 2 ^ nat (- ?e)) \<le> x / pow2 ?e"
      using assms(3) True by (auto simp: pow2_def mult_right_mono)
    then have "n * 2 ^ nat (- ?e) \<le> round_even (x / pow2 ?e)" by (rule round_even_ge)
    then have "of_int (n * 2 ^ nat (- ?e)) * pow2 ?e \<le> of_int (round_even (x / pow2 ?e)) * pow2 ?e"
      by (intro mult_right_mono) (simp_all only: of_int_le_iff less_imp_le [OF pow2_pos])
    moreover have n: "of_int (n * 2 ^ nat (- ?e)) * pow2 ?e = of_int n" using True by (auto simp: pow2_def)
    ultimately have "of_int n \<le> of_int (round_even (x / pow2 ?e)) * pow2 ?e" by (simp only: n)
    then show ?thesis using False by (simp add: fl_def)
  next
    case e: False
    have "of_int (2 ^ 52) \<le> x / pow2 ?e"
      using ulp_exp_bounds(1) [OF False] x by (simp add: pos_le_divide_eq)
    then have "2 ^ 52 \<le> round_even (x / pow2 ?e)" by (rule round_even_ge)
    then have "of_int (2 ^ 52) * pow2 ?e \<le> of_int (round_even (x / pow2 ?e)) * pow2 ?e"
      by (intro mult_right_mono) (simp_all only: of_int_le_iff less_imp_le [OF pow2_pos])
    moreover have "2 \<le> pow2 ?e" using pow2_small [of ?e] e by linarith
    then have "of_int (2 ^ 52) * 2 \<le> of_int (2 ^ 52) * pow2 ?e" by (intro mult_left_mono) simp_all
    moreover have "of_int n < (of_int (2 ^ 52) * 2 :: rat)"
    proof -
      have "of_int n < (of_int (2 ^ 53) :: rat)" using assms(2) by (simp only: of_int_less_iff)
      then show ?thesis by simp
    qed
    ultimately have "of_int n \<le> of_int (round_even (x / pow2 ?e)) * pow2 ?e" by linarith
    then show ?thesis using False by (simp add: fl_def)
  qed
qed (use assms in simp)

lemma fl_le_int:
  assumes "n < 2 ^ 53" "0 \<le> x" "x \<le> of_int n"
  shows "fl x \<le> of_int n"
proof (cases "x = 0")
  case False
  let ?e = "ulp_exp x"
  have "of_int n < (of_int (2 ^ 53) :: rat)" using assms(1) by (simp only: of_int_less_iff)
  then have "2 ^ 52 * pow2 ?e < 2 ^ 53" using ulp_exp_bounds(1) [OF False] assms by simp
  then have e: "?e \<le> 0" by (intro pow2_small) simp
  have "x / pow2 ?e \<le> of_int (n * 2 ^ nat (- ?e))"
    using assms(3) e by (auto simp: pow2_def mult_right_mono)
  then have "round_even (x / pow2 ?e) \<le> n * 2 ^ nat (- ?e)" by (rule round_even_le)
  then have "of_int (round_even (x / pow2 ?e)) * pow2 ?e \<le> of_int (n * 2 ^ nat (- ?e)) * pow2 ?e"
    by (intro mult_right_mono) (simp_all only: of_int_le_iff less_imp_le [OF pow2_pos])
  moreover have n: "of_int (n * 2 ^ nat (- ?e)) * pow2 ?e = of_int n" using e by (auto simp: pow2_def)
  ultimately have "of_int (round_even (x / pow2 ?e)) * pow2 ?e \<le> of_int n" by (simp only: n)
  then show ?thesis using False by (simp add: fl_def)
qed (use assms in simp)

lemma trunc_rat_ge: "0 \<le> n \<Longrightarrow> of_int n \<le> x \<Longrightarrow> n \<le> trunc_rat x"
proof -
  assume n: "0 \<le> n" "of_int n \<le> x"
  then have "0 \<le> x" by (metis of_int_0_le_iff order_trans)
  with n show ?thesis by (simp add: trunc_rat_def le_floor_iff)
qed

lemma trunc_rat_le: "0 \<le> x \<Longrightarrow> x \<le> of_int n \<Longrightarrow> 0 \<le> trunc_rat x \<and> trunc_rat x \<le> n"
  by (simp add: trunc_rat_def floor_le_iff)

end
