(* ===== verification/Ring_Buffer.thy ===== *)
theory Ring_Buffer
  imports Hy_Prelude
begin

text \<open>
  \<open>core/internal/congestion/bbr/ringbuffer.go\<close>: the growable ring buffer on which the packet
  queues of BBR are built.  \<open>None\<close> is a panic.  The zero value that Go writes into vacated slots is
  the argument \<open>z\<close> of the operations that write it.  A pointer into the ring (\<open>Offset\<close>, \<open>Front\<close>,
  \<open>Back\<close>) is read as a value; \<open>ring_write\<close> is the assignment through it.

  The interface its clients rely on is the locale \<open>deque\<close>, whose laws say that the buffer is a list;
  the ring buffer is its interpretation \<open>rb\<close>.
\<close>

record 'a ringbuf =
  ring :: "'a list"
  headPos :: nat
  tailPos :: nat
  full :: bool

definition initialRingSize :: nat where "initialRingSize = 8"

definition ring_Init :: "nat \<Rightarrow> 'a ringbuf \<Rightarrow> 'a ringbuf" where
  "ring_Init n r = r\<lparr>ring := [], headPos := 0, tailPos := 0, full := False\<rparr>"

definition new_ring :: "'a ringbuf" where
  "new_ring = \<lparr>ring = [], headPos = 0, tailPos = 0, full = False\<rparr>"

definition ring_Len :: "'a ringbuf \<Rightarrow> nat" where
  "ring_Len r =
     (if full r then length (ring r)
      else if tailPos r \<ge> headPos r then tailPos r - headPos r
      else tailPos r + length (ring r) - headPos r)"

definition ring_Empty :: "'a ringbuf \<Rightarrow> bool" where
  "ring_Empty r \<longleftrightarrow> \<not> full r \<and> headPos r = tailPos r"

definition ring_grow :: "'a \<Rightarrow> 'a ringbuf \<Rightarrow> 'a ringbuf" where
  "ring_grow z r =
     (let oldRing = ring r;
          newSize = length oldRing * 2;
          newSize = (if newSize = 0 then initialRingSize else newSize);
          new = replicate newSize z;
          headLen = min newSize (length (drop (headPos r) oldRing));
          new = take headLen (drop (headPos r) oldRing) @ drop headLen new;
          n = min (newSize - headLen) (headPos r);
          new = take headLen new @ take n (take (headPos r) oldRing) @ drop (headLen + n) new
      in r\<lparr>ring := new, headPos := 0, tailPos := length oldRing, full := False\<rparr>)"

definition ring_PushBack :: "'a \<Rightarrow> 'a ringbuf \<Rightarrow> 'a \<Rightarrow> 'a ringbuf option" where
  "ring_PushBack z r t =
     (let r = (if full r \<or> length (ring r) = 0 then ring_grow z r else r)
      in if tailPos r < length (ring r) then
           (let r = r\<lparr>ring := (ring r)[tailPos r := t], tailPos := Suc (tailPos r)\<rparr>;
                r = (if tailPos r = length (ring r) then r\<lparr>tailPos := 0\<rparr> else r);
                r = (if tailPos r = headPos r then r\<lparr>full := True\<rparr> else r)
            in Some r)
         else None)"

definition ring_PopFront :: "'a \<Rightarrow> 'a ringbuf \<Rightarrow> ('a \<times> 'a ringbuf) option" where
  "ring_PopFront z r =
     (if ring_Empty r then None
      else if headPos r < length (ring r) then
        (let r = r\<lparr>full := False\<rparr>;
             t = ring r ! headPos r;
             r = r\<lparr>ring := (ring r)[headPos r := z], headPos := Suc (headPos r)\<rparr>;
             r = (if headPos r = length (ring r) then r\<lparr>headPos := 0\<rparr> else r)
         in Some (t, r))
      else None)"

definition ring_Offset :: "'a ringbuf \<Rightarrow> nat \<Rightarrow> 'a option" where
  "ring_Offset r index =
     (if ring_Empty r \<or> index \<ge> ring_Len r then None
      else Some (ring r ! ((headPos r + index) mod length (ring r))))"

definition ring_write :: "'a ringbuf \<Rightarrow> nat \<Rightarrow> 'a \<Rightarrow> 'a ringbuf" where
  "ring_write r index x = r\<lparr>ring := (ring r)[(headPos r + index) mod length (ring r) := x]\<rparr>"

definition ring_Front :: "'a ringbuf \<Rightarrow> 'a option" where
  "ring_Front r =
     (if ring_Empty r then None
      else if headPos r < length (ring r) then Some (ring r ! headPos r) else None)"

definition ring_Back :: "'a ringbuf \<Rightarrow> 'a option" where
  "ring_Back r = (if ring_Empty r then None else ring_Offset r (ring_Len r - 1))"

definition ring_Clear :: "'a \<Rightarrow> 'a ringbuf \<Rightarrow> 'a ringbuf" where
  "ring_Clear z r =
     r\<lparr>ring := replicate (length (ring r)) z, headPos := 0, tailPos := 0, full := False\<rparr>"

section \<open>Representation\<close>

definition ring_inv :: "'a ringbuf \<Rightarrow> bool" where
  "ring_inv r \<longleftrightarrow>
     (if ring r = [] then headPos r = 0 \<and> tailPos r = 0 \<and> \<not> full r
      else headPos r < length (ring r) \<and> tailPos r < length (ring r) \<and>
        (full r \<longrightarrow> headPos r = tailPos r))"

definition ring_abs :: "'a ringbuf \<Rightarrow> 'a list" where
  "ring_abs r = map (\<lambda>i. ring r ! ((headPos r + i) mod length (ring r))) [0..<ring_Len r]"

lemma ring_inv_new: "ring_inv new_ring" "ring_abs new_ring = []"
  by (simp_all add: ring_inv_def ring_abs_def new_ring_def ring_Len_def)

lemma ring_inv_Init: "ring_inv (ring_Init n r)" "ring_abs (ring_Init n r) = []"
  by (simp_all add: ring_inv_def ring_abs_def ring_Init_def ring_Len_def)

lemma length_ring_abs [simp]: "length (ring_abs r) = ring_Len r"
  by (simp add: ring_abs_def)

lemma nth_ring_abs: "i < ring_Len r \<Longrightarrow> ring_abs r ! i = ring r ! ((headPos r + i) mod length (ring r))"
  by (simp add: ring_abs_def)

lemma ring_Len_le: "ring_inv r \<Longrightarrow> ring_Len r \<le> length (ring r)"
  by (auto simp: ring_inv_def ring_Len_def split: if_splits)

lemma ring_Empty_iff: "ring_inv r \<Longrightarrow> ring_Empty r \<longleftrightarrow> ring_Len r = 0"
  by (auto simp: ring_inv_def ring_Len_def ring_Empty_def split: if_splits)

lemma ring_Empty_abs: "ring_inv r \<Longrightarrow> ring_Empty r \<longleftrightarrow> ring_abs r = []"
  by (metis ring_Empty_iff length_0_conv length_ring_abs)

lemma tail_position:
  "ring_inv r \<Longrightarrow> \<not> full r \<Longrightarrow> ring r \<noteq> [] \<Longrightarrow> (headPos r + ring_Len r) mod length (ring r) = tailPos r"
  by (auto simp: ring_inv_def ring_Len_def split: if_splits)

lemma ring_grow_ok:
  assumes inv: "ring_inv r" and g: "full r \<or> length (ring r) = 0"
  shows "ring_inv (ring_grow z r)" "ring_abs (ring_grow z r) = ring_abs r"
    "\<not> full (ring_grow z r)" "ring (ring_grow z r) \<noteq> []"
proof -
  let ?n = "length (ring r)" and ?h = "headPos r"
  let ?g = "ring_grow z r"
  have len: "ring_Len r = ?n" using inv g by (auto simp: ring_Len_def ring_inv_def)
  have h: "?h \<le> ?n" using inv g by (auto simp: ring_inv_def split: if_splits)
  have rg: "\<exists>zs. ring ?g = drop ?h (ring r) @ take ?h (ring r) @ zs \<and> length zs > 0"
  proof (cases "?n = 0")
    case True
    then show ?thesis using inv
      by (auto simp: ring_grow_def Let_def initialRingSize_def ring_inv_def)
  next
    case False
    have "ring ?g = drop ?h (ring r) @ take ?h (ring r) @ replicate ?n z"
      using h False by (simp add: ring_grow_def Let_def)
    then show ?thesis using False by simp
  qed
  have f: "headPos ?g = 0" "tailPos ?g = ?n" "\<not> full ?g"
    by (simp_all add: ring_grow_def Let_def)
  obtain zs where zs: "ring ?g = drop ?h (ring r) @ take ?h (ring r) @ zs" "length zs > 0"
    using rg by blast
  have l: "length (ring ?g) = ?n + length zs" using zs h by simp
  then show ne: "ring ?g \<noteq> []" using zs(2) by auto
  show "\<not> full ?g" by (rule f)
  show "ring_inv ?g" using f l zs(2) ne by (simp add: ring_inv_def)
  have gl: "ring_Len ?g = ?n" using f by (simp add: ring_Len_def)
  show "ring_abs ?g = ring_abs r"
  proof (rule nth_equalityI)
    show "length (ring_abs ?g) = length (ring_abs r)" by (simp add: gl len)
    fix i assume "i < length (ring_abs ?g)"
    then have i: "i < ?n" by (simp add: gl)
    then have "ring_abs ?g ! i = ring ?g ! i" using l zs(2) by (simp add: nth_ring_abs gl f)
    also have "\<dots> = ring r ! ((?h + i) mod ?n)"
    proof (cases "?h + i < ?n")
      case True
      then have "i < ?n - ?h" by simp
      with True h show ?thesis by (simp add: zs(1) nth_append)
    next
      case False
      then have "(?h + i) mod ?n = ?h + i - ?n" using i h
        by (simp add: mod_if le_mod_geq)
      moreover have "\<not> i < ?n - ?h" "i - (?n - ?h) = ?h + i - ?n" "?h + i - ?n < ?h"
        using False i h by linarith+
      moreover have "ring ?g ! i = (take ?h (ring r) @ zs) ! (i - (?n - ?h))"
        using calculation(2) by (simp add: zs(1) nth_append del: diff_diff_right)
      ultimately show ?thesis using h by (simp only: nth_append length_take) simp
    qed
    finally show "ring_abs ?g ! i = ring_abs r ! i" using i len by (simp add: nth_ring_abs)
  qed
qed

lemma ring_pos:
  "h < n \<Longrightarrow> i < n \<Longrightarrow> (h + i) mod n = (if h + i < n then h + i else h + i - n)" for h :: nat
  by (simp add: mod_if)

lemma ring_pos_inj:
  "h < n \<Longrightarrow> i < n \<Longrightarrow> j < n \<Longrightarrow> (h + i) mod n = (h + j) mod n \<longleftrightarrow> i = j" for h :: nat
  by (auto simp: ring_pos split: if_splits)

lemma push_room:
  assumes inv: "ring_inv r" and "\<not> full r" "ring r \<noteq> []"
    and p: "ring_PushBack z r t = Some r'"
  shows "ring_inv r'" "ring_abs r' = ring_abs r @ [t]"
proof -
  let ?n = "length (ring r)"
  have h: "headPos r < ?n" "tailPos r < ?n" using inv assms(3) by (auto simp: ring_inv_def)
  let ?t = "if Suc (tailPos r) = ?n then 0 else Suc (tailPos r)"
  have "r' = r\<lparr>ring := (ring r)[tailPos r := t], tailPos := ?t, full := (?t = headPos r)\<rparr>"
    using p assms(2,3) h by (cases r) (auto simp: ring_PushBack_def Let_def)
  then have f: "ring r' = (ring r)[tailPos r := t]" "headPos r' = headPos r" "tailPos r' = ?t"
    "full r' \<longleftrightarrow> tailPos r' = headPos r"
    by simp_all
  show "ring_inv r'" using h f by (auto simp: ring_inv_def)
  have lt: "ring_Len r < ?n" using h assms(2) by (auto simp: ring_Len_def)
  have l: "ring_Len r' = Suc (ring_Len r)"
    using h f assms(2) by (auto simp: ring_Len_def split: if_splits)
  show "ring_abs r' = ring_abs r @ [t]"
  proof (rule nth_equalityI)
    show "length (ring_abs r') = length (ring_abs r @ [t])" by (simp add: l)
    fix i assume "i < length (ring_abs r')"
    then have i: "i < Suc (ring_Len r)" by (simp add: l)
    have tail: "(headPos r + ring_Len r) mod ?n = tailPos r" using tail_position assms(1-3) by blast
    have "ring_abs r' ! i = (ring r)[tailPos r := t] ! ((headPos r + i) mod ?n)"
      using i by (simp add: nth_ring_abs l f)
    also have "\<dots> = (ring_abs r @ [t]) ! i"
    proof (cases "i = ring_Len r")
      case True
      then show ?thesis using tail h by (simp add: nth_append)
    next
      case False
      then have il: "i < ring_Len r" using i by simp
      then have "(headPos r + i) mod ?n \<noteq> tailPos r"
        using ring_pos_inj [of "headPos r" ?n i "ring_Len r"] tail lt h by auto
      then show ?thesis using il by (simp add: nth_append nth_ring_abs)
    qed
    finally show "ring_abs r' ! i = (ring_abs r @ [t]) ! i" .
  qed
qed

lemma push_grown:
  "full r \<or> length (ring r) = 0 \<Longrightarrow> \<not> full (ring_grow z r) \<Longrightarrow> ring (ring_grow z r) \<noteq> [] \<Longrightarrow>
   ring_PushBack z r t = ring_PushBack z (ring_grow z r) t"
  by (simp add: ring_PushBack_def)

lemma ring_PushBack_ok:
  assumes inv: "ring_inv r"
  shows "\<exists>r'. ring_PushBack z r t = Some r' \<and> ring_inv r' \<and> ring_abs r' = ring_abs r @ [t]"
proof -
  have total: "\<exists>r'. ring_PushBack z r t = Some r'" if "ring_inv r" "\<not> full r" "ring r \<noteq> []" for r
    using that by (auto simp: ring_PushBack_def ring_inv_def Let_def)
  show ?thesis
  proof (cases "full r \<or> length (ring r) = 0")
    case True
    note g = ring_grow_ok [OF inv True, of z]
    from total [OF g(1,3,4)] obtain r' where "ring_PushBack z (ring_grow z r) t = Some r'" ..
    with push_room [OF g(1,3,4) this] g push_grown [OF True g(3,4), of t] show ?thesis by simp
  next
    case False
    with total [OF inv] obtain r' where "ring_PushBack z r t = Some r'" by auto
    with push_room [OF inv _ _ this] False show ?thesis by auto
  qed
qed

lemma ring_PopFront_ok:
  assumes inv: "ring_inv r" and ne: "ring_abs r = x # xs"
  shows "\<exists>r'. ring_PopFront z r = Some (x, r') \<and> ring_inv r' \<and> ring_abs r' = xs"
proof -
  let ?n = "length (ring r)" and ?h = "headPos r"
  have l: "ring_Len r = Suc (length xs)" using ne by (metis length_Cons length_ring_abs)
  have e: "\<not> ring_Empty r" using ring_Empty_iff [OF inv] l by simp
  have n: "ring r \<noteq> []" using ring_Len_le [OF inv] l by auto
  then have h: "?h < ?n" "tailPos r < ?n" using inv by (auto simp: ring_inv_def)
  let ?h' = "if Suc ?h = ?n then 0 else Suc ?h"
  let ?r = "r\<lparr>ring := (ring r)[?h := z], headPos := ?h', full := False\<rparr>"
  have x: "ring r ! ?h = x"
    using nth_ring_abs [of 0 r] l ne h by simp
  have p: "ring_PopFront z r = Some (x, ?r)"
    using e h x by (simp add: ring_PopFront_def Let_def)
  have i: "ring_inv ?r" using h by (auto simp: ring_inv_def)
  have l': "ring_Len ?r = length xs"
    using l h inv n by (auto simp: ring_Len_def ring_inv_def split: if_splits)
  have "ring_abs ?r = xs"
  proof (rule nth_equalityI)
    show "length (ring_abs ?r) = length xs" by (simp only: length_ring_abs l')
    fix i assume "i < length (ring_abs ?r)"
    then have i: "i < length xs" by (simp only: length_ring_abs l')
    have le: "Suc i < ?n" using i l ring_Len_le [OF inv] by linarith
    have pos: "(?h' + i) mod ?n = (?h + Suc i) mod ?n" 
    proof (cases "Suc ?h = ?n")
      case True
      then have "?h + Suc i = i + ?n" by simp
      with True show ?thesis by (simp only: mod_add_self2 if_True add_0 simp_thms)
    qed simp
    have "(?h + Suc i) mod ?n \<noteq> ?h" using ring_pos [of ?h ?n "Suc i"] le h by auto
    then have "ring_abs ?r ! i = ring r ! ((?h + Suc i) mod ?n)"
      using i pos nth_ring_abs [of i ?r] by (simp add: l')
    also have "\<dots> = ring_abs r ! Suc i" using i l by (simp add: nth_ring_abs)
    finally show "ring_abs ?r ! i = xs ! i" by (simp add: ne)
  qed
  with p i show ?thesis by blast
qed

lemma ring_Offset_ok:
  assumes inv: "ring_inv r"
  shows "ring_Offset r i = (if i < length (ring_abs r) then Some (ring_abs r ! i) else None)"
  using ring_Empty_iff [OF inv] by (auto simp: ring_Offset_def nth_ring_abs)

lemma ring_Front_ok:
  assumes inv: "ring_inv r"
  shows "ring_Front r = (case ring_abs r of [] \<Rightarrow> None | x # _ \<Rightarrow> Some x)"
proof (cases "ring_abs r")
  case Nil
  then show ?thesis using ring_Empty_abs [OF inv] by (simp add: ring_Front_def)
next
  case (Cons x xs)
  then have l: "0 < ring_Len r" by (metis length_greater_0_conv length_ring_abs list.discI)
  then have "ring r \<noteq> []" using ring_Len_le [OF inv] by auto
  then have "headPos r < length (ring r)" using inv by (auto simp: ring_inv_def)
  moreover have "ring_abs r ! 0 = ring r ! headPos r" using l calculation by (simp add: nth_ring_abs)
  ultimately show ?thesis using Cons ring_Empty_abs [OF inv] by (simp add: ring_Front_def)
qed

lemma ring_Back_ok:
  assumes inv: "ring_inv r"
  shows "ring_Back r = (if ring_abs r = [] then None else Some (last (ring_abs r)))"
proof (cases "ring_abs r = []")
  case False
  then have "0 < ring_Len r" by (metis length_greater_0_conv length_ring_abs)
  with False show ?thesis
    using ring_Empty_abs [OF inv] ring_Offset_ok [OF inv, of "ring_Len r - 1"]
    by (simp add: ring_Back_def last_conv_nth)
qed (use ring_Empty_abs [OF inv] in \<open>simp add: ring_Back_def\<close>)

lemma ring_write_ok:
  assumes inv: "ring_inv r" and i: "i < length (ring_abs r)"
  shows "ring_inv (ring_write r i x)" "ring_abs (ring_write r i x) = (ring_abs r)[i := x]"
proof -
  let ?n = "length (ring r)" and ?h = "headPos r"
  have il: "i < ring_Len r" using i by simp
  have n: "0 < ?n" using ring_Len_le [OF inv] il by linarith
  then have h: "?h < ?n" using inv by (auto simp: ring_inv_def)
  show "ring_inv (ring_write r i x)" using inv by (simp add: ring_inv_def ring_write_def)
  have len: "ring_Len (ring_write r i x) = ring_Len r" by (simp add: ring_Len_def ring_write_def)
  show "ring_abs (ring_write r i x) = (ring_abs r)[i := x]"
  proof (rule nth_equalityI)
    show "length (ring_abs (ring_write r i x)) = length ((ring_abs r)[i := x])" by (simp add: len)
    fix j assume "j < length (ring_abs (ring_write r i x))"
    then have j: "j < ring_Len r" by (simp add: len)
    have lt: "i < ?n" "j < ?n" using ring_Len_le [OF inv] il j by linarith+
    have "ring_abs (ring_write r i x) ! j =
        (ring r)[(?h + i) mod ?n := x] ! ((?h + j) mod ?n)"
      using j by (simp add: nth_ring_abs len, simp add: ring_write_def)
    also have "\<dots> = (ring_abs r)[i := x] ! j"
      using ring_pos_inj [OF h lt] j n by (auto simp: nth_list_update nth_ring_abs)
    finally show "ring_abs (ring_write r i x) ! j = (ring_abs r)[i := x] ! j" .
  qed
qed


lemma ring_Clear_ok: "ring_inv (ring_Clear z r)" "ring_abs (ring_Clear z r) = []"
  by (auto simp: ring_Clear_def ring_inv_def ring_abs_def ring_Len_def)

section \<open>The interface\<close>

text \<open>
  What a client of the buffer relies on.  The derived laws are about the two loops the packet
  queue runs on it: filling a gap with \<open>n\<close> blank slots, and popping while the front is blank.
\<close>

locale deque =
  fixes push :: "'d \<Rightarrow> 'a \<Rightarrow> 'd option" and pop :: "'d \<Rightarrow> ('a \<times> 'd) option"
    and front :: "'d \<Rightarrow> 'a option" and inv :: "'d \<Rightarrow> bool" and abs :: "'d \<Rightarrow> 'a list"
  assumes push_law: "inv d \<Longrightarrow> \<exists>d'. push d x = Some d' \<and> inv d' \<and> abs d' = abs d @ [x]"
    and pop_law: "inv d \<Longrightarrow> abs d = x # xs \<Longrightarrow> \<exists>d'. pop d = Some (x, d') \<and> inv d' \<and> abs d' = xs"
    and front_law: "inv d \<Longrightarrow> front d = (case abs d of [] \<Rightarrow> None | x # _ \<Rightarrow> Some x)"
begin

primrec push_n :: "nat \<Rightarrow> 'a \<Rightarrow> 'd \<Rightarrow> 'd option" where
  "push_n 0 x d = Some d"
| "push_n (Suc n) x d = (case push d x of None \<Rightarrow> None | Some d \<Rightarrow> push_n n x d)"

lemma push_n_law:
  "inv d \<Longrightarrow> \<exists>d'. push_n n x d = Some d' \<and> inv d' \<and> abs d' = abs d @ replicate n x"
proof (induction n arbitrary: d)
  case (Suc n)
  from push_law [OF Suc.prems, of x] obtain d1 where
    1: "push d x = Some d1" "inv d1" "abs d1 = abs d @ [x]" by blast
  from Suc.IH [OF 1(2)] obtain d2 where
    "push_n n x d1 = Some d2" "inv d2" "abs d2 = abs d1 @ replicate n x" by blast
  with 1 show ?case by (simp add: replicate_app_Cons_same)
qed simp

lemma push_pop_fifo:
  assumes "inv d" "abs d = []" "push d x = Some d1" "push d1 y = Some d2"
  shows "\<exists>d3. pop d2 = Some (x, d3) \<and> front d3 = Some y"
proof -
  have 1: "inv d1" "abs d1 = [x]" using push_law [OF assms(1), of x] assms(2,3) by auto
  have "inv d2" "abs d2 = [x, y]" using push_law [OF 1(1), of y] assms(4) 1(2) by auto
  from pop_law [OF this] obtain d3 where "pop d2 = Some (x, d3)" "inv d3" "abs d3 = [y]" by auto
  then show ?thesis using front_law [of d3] by simp
qed

end

interpretation rb: deque "ring_PushBack z" "ring_PopFront z" ring_Front ring_inv ring_abs for z
  by unfold_locales (simp_all add: ring_PushBack_ok ring_PopFront_ok ring_Front_ok)

section \<open>The program of operations\<close>

datatype 'a ring_op = Push 'a | Pop | Reset_all

text \<open>A run of operations on the buffer, and on the list it stands for; the pops answer.\<close>

fun ring_run :: "'a \<Rightarrow> 'a ringbuf \<Rightarrow> 'a ring_op list \<Rightarrow> ('a ringbuf \<times> 'a list) option" where
  "ring_run z r [] = Some (r, [])"
| "ring_run z r (Push x # ops) =
     (case ring_PushBack z r x of None \<Rightarrow> None | Some r \<Rightarrow> ring_run z r ops)"
| "ring_run z r (Pop # ops) =
     (if ring_Empty r then ring_run z r ops
      else (case ring_PopFront z r of
              None \<Rightarrow> None
            | Some (x, r) \<Rightarrow> map_option (\<lambda>(r, xs). (r, x # xs)) (ring_run z r ops)))"
| "ring_run z r (Reset_all # ops) = ring_run z (ring_Clear z r) ops"

fun list_run :: "'a list \<Rightarrow> 'a ring_op list \<Rightarrow> 'a list \<times> 'a list" where
  "list_run q [] = (q, [])"
| "list_run q (Push x # ops) = list_run (q @ [x]) ops"
| "list_run [] (Pop # ops) = list_run [] ops"
| "list_run (x # q) (Pop # ops) = (let (q, xs) = list_run q ops in (q, x # xs))"
| "list_run q (Reset_all # ops) = list_run [] ops"

lemma ring_run_refines:
  assumes "ring_inv r" "list_run (ring_abs r) ops = (q, xs)"
  shows "\<exists>r'. ring_run z r ops = Some (r', xs) \<and> ring_inv r' \<and> ring_abs r' = q"
  using assms
proof (induction z r ops arbitrary: xs rule: ring_run.induct)
  case (2 z r x ops)
  obtain r1 where "ring_PushBack z r x = Some r1" "ring_inv r1" "ring_abs r1 = ring_abs r @ [x]"
    using ring_PushBack_ok [OF 2(2), of z x] by blast
  with 2 show ?case by simp
next
  case (3 z r ops)
  show ?case
  proof (cases "ring_abs r")
    case Nil
    then have "ring_Empty r" using ring_Empty_abs [OF 3(3)] by simp
    with 3(1) [OF this 3(3)] 3(4) Nil show ?thesis by simp
  next
    case (Cons x l)
    obtain r1 where 1: "ring_PopFront z r = Some (x, r1)" "ring_inv r1" "ring_abs r1 = l"
      using ring_PopFront_ok [OF 3(3) Cons] by blast
    have ne: "\<not> ring_Empty r" using ring_Empty_abs [OF 3(3)] Cons by simp
    obtain ys where ys: "list_run l ops = (q, ys)" "xs = x # ys"
      using 3(4) Cons by (auto split: prod.splits)
    from 3(2) [OF ne 1(1) refl 1(2)] ys 1(3) obtain r2 where
      "ring_run z r1 ops = Some (r2, ys)" "ring_inv r2" "ring_abs r2 = q" by auto
    with 1 ne ys show ?thesis by simp
  qed
next
  case (4 z r ops)
  then show ?case using ring_Clear_ok [of z r] by simp
qed simp

section \<open>Properties\<close>

text \<open>
  The ring buffer implements a list: any sequence of pushes, pops of a nonempty buffer and
  clears, through any growth and wrap-around of the positions, runs without a panic, gives the
  elements in the order of the list, and ends in a buffer that holds the list's elements.
\<close>

theorem ring_refines_list:
  "\<exists>r. ring_run z new_ring ops = Some (r, snd (list_run [] ops)) \<and> ring_abs r = fst (list_run [] ops) \<and>
     ring_Len r = length (fst (list_run [] ops))"
  using ring_run_refines [OF ring_inv_new(1), of ops "fst (list_run [] ops)" "snd (list_run [] ops)" z]
  by (auto simp: ring_inv_new) (metis length_ring_abs)

end
