(* ===== verification/Packet_Queue.thy ===== *)
theory Packet_Queue
  imports Ring_Buffer
begin

text \<open>
  \<open>core/internal/congestion/bbr/packet_number_indexed_queue.go\<close>: a queue of mostly continuous
  numbered entries on top of the ring buffer.  \<open>None\<close> is a panic (of the ring buffer) or a loop
  that does not end; \<open>packet_queue_refines\<close> shows that neither happens and that the queue is a
  finite map with in-order insertion.  The zero value of the entry type is the argument \<open>z\<close>.
\<close>

definition invalidPacketNumber :: int where "invalidPacketNumber = -1"

record 'a entryWrapper =
  present :: bool
  entry :: 'a

record 'a pnq =
  entries :: "'a entryWrapper ringbuf"
  numberOfPresentEntries :: int
  firstPacket :: int

definition blank :: "'a \<Rightarrow> 'a entryWrapper" where
  "blank z = \<lparr>present = False, entry = z\<rparr>"

definition newPacketNumberIndexedQueue :: "nat \<Rightarrow> 'a pnq" where
  "newPacketNumberIndexedQueue n =
     \<lparr>entries = ring_Init n new_ring, numberOfPresentEntries = 0, firstPacket = invalidPacketNumber\<rparr>"

definition pnq_IsEmpty :: "'a pnq \<Rightarrow> bool" where
  "pnq_IsEmpty q \<longleftrightarrow> numberOfPresentEntries q = 0"

definition pnq_LastPacket :: "'a pnq \<Rightarrow> int" where
  "pnq_LastPacket q =
     (if pnq_IsEmpty q then invalidPacketNumber
      else i64 (firstPacket q + i64 (int (ring_Len (entries q)) - 1)))"

definition pnq_EntrySlotsUsed :: "'a pnq \<Rightarrow> nat" where
  "pnq_EntrySlotsUsed q = ring_Len (entries q)"

fun push_gap :: "nat \<Rightarrow> 'a \<Rightarrow> 'a entryWrapper ringbuf \<Rightarrow> 'a entryWrapper ringbuf option" where
  "push_gap 0 z r = Some r"
| "push_gap (Suc n) z r =
     (case ring_PushBack (blank z) r (blank z) of None \<Rightarrow> None | Some r \<Rightarrow> push_gap n z r)"

definition pnq_Emplace :: "'a \<Rightarrow> 'a pnq \<Rightarrow> int \<Rightarrow> 'a option \<Rightarrow> (bool \<times> 'a pnq) option" where
  "pnq_Emplace z q packetNumber e =
     (case e of
        None \<Rightarrow> Some (False, q)
      | Some x \<Rightarrow>
          if packetNumber = invalidPacketNumber then Some (False, q)
          else if pnq_IsEmpty q then
            (case ring_PushBack (blank z) (entries q) \<lparr>present = True, entry = x\<rparr> of
               None \<Rightarrow> None
             | Some r \<Rightarrow> Some (True, q\<lparr>entries := r, numberOfPresentEntries := 1,
                                      firstPacket := packetNumber\<rparr>))
          else if packetNumber \<le> pnq_LastPacket q then Some (False, q)
          else
            (let offset = i64 (packetNumber - firstPacket q);
                 gap = offset - int (ring_Len (entries q))
             in (case push_gap (nat gap) z (entries q) of
                   None \<Rightarrow> None
                 | Some r \<Rightarrow>
                     (case ring_PushBack (blank z) r \<lparr>present = True, entry = x\<rparr> of
                        None \<Rightarrow> None
                      | Some r \<Rightarrow> Some (True, q\<lparr>entries := r,
                          numberOfPresentEntries := numberOfPresentEntries q + 1\<rparr>)))))"

text \<open>\<open>getEntryWraper\<close> gives a pointer to a slot: its position in the ring.\<close>

definition getEntryWraper :: "'a pnq \<Rightarrow> int \<Rightarrow> nat option" where
  "getEntryWraper q packetNumber =
     (if packetNumber = invalidPacketNumber \<or> pnq_IsEmpty q \<or> packetNumber < firstPacket q then None
      else
        (let offset = nat (i64 (packetNumber - firstPacket q))
         in if offset \<ge> ring_Len (entries q) then None
            else (case ring_Offset (entries q) offset of
                    None \<Rightarrow> None
                  | Some ew \<Rightarrow> if present ew then Some offset else None)))"

definition pnq_GetEntry :: "'a pnq \<Rightarrow> int \<Rightarrow> 'a option" where
  "pnq_GetEntry q packetNumber =
     (case getEntryWraper q packetNumber of
        None \<Rightarrow> None
      | Some i \<Rightarrow> map_option entry (ring_Offset (entries q) i))"

text \<open>An assignment through the pointer that \<open>GetEntry\<close> returned.\<close>

definition pnq_put :: "'a pnq \<Rightarrow> nat \<Rightarrow> 'a entryWrapper \<Rightarrow> 'a pnq" where
  "pnq_put q i ew = q\<lparr>entries := ring_write (entries q) i ew\<rparr>"

partial_function (option) clearup_loop :: "'a \<Rightarrow> 'a pnq \<Rightarrow> 'a pnq option" where
  "clearup_loop z q =
     (if ring_Empty (entries q) then Some q
      else Option.bind (ring_Front (entries q)) (\<lambda>f.
        if present f then Some q
        else Option.bind (ring_PopFront (blank z) (entries q)) (\<lambda>p.
          clearup_loop z (q\<lparr>entries := snd p, firstPacket := i64 (firstPacket q + 1)\<rparr>))))"

definition clearup :: "'a \<Rightarrow> 'a pnq \<Rightarrow> 'a pnq option" where
  "clearup z q =
     (case clearup_loop z q of
        None \<Rightarrow> None
      | Some q \<Rightarrow> Some (if ring_Empty (entries q) then q\<lparr>firstPacket := invalidPacketNumber\<rparr> else q))"

text \<open>\<open>Remove\<close> returns the entry on which the code calls the function \<open>f\<close>.\<close>

definition pnq_Remove :: "'a \<Rightarrow> 'a pnq \<Rightarrow> int \<Rightarrow> ('a option \<times> 'a pnq) option" where
  "pnq_Remove z q packetNumber =
     (case getEntryWraper q packetNumber of
        None \<Rightarrow> Some (None, q)
      | Some i \<Rightarrow>
          (case ring_Offset (entries q) i of
             None \<Rightarrow> None
           | Some ew \<Rightarrow>
               (let q = (pnq_put q i (ew\<lparr>present := False\<rparr>))
                      \<lparr>numberOfPresentEntries := numberOfPresentEntries q - 1\<rparr>
                in if packetNumber = firstPacket q
                   then map_option (\<lambda>q. (Some (entry ew), q)) (clearup z q)
                   else Some (Some (entry ew), q))))"

partial_function (option) remove_loop :: "'a \<Rightarrow> int \<Rightarrow> 'a pnq \<Rightarrow> 'a pnq option" where
  "remove_loop z packetNumber q =
     (if \<not> ring_Empty (entries q) \<and> firstPacket q \<noteq> invalidPacketNumber \<and> firstPacket q < packetNumber
      then Option.bind (ring_Front (entries q)) (\<lambda>f.
        Option.bind (ring_PopFront (blank z) (entries q)) (\<lambda>p.
          remove_loop z packetNumber
            (q\<lparr>entries := snd p, firstPacket := i64 (firstPacket q + 1),
               numberOfPresentEntries :=
                 (if present f then numberOfPresentEntries q - 1 else numberOfPresentEntries q)\<rparr>)))
      else Some q)"

definition pnq_RemoveUpTo :: "'a \<Rightarrow> 'a pnq \<Rightarrow> int \<Rightarrow> 'a pnq option" where
  "pnq_RemoveUpTo z q packetNumber =
     (case remove_loop z packetNumber q of None \<Rightarrow> None | Some q \<Rightarrow> clearup z q)"

section \<open>What the queue stands for\<close>

text \<open>\<open>slots_of f ws\<close> is the map of the slots \<open>ws\<close> numbered from \<open>f\<close>.\<close>

definition slots_of :: "int \<Rightarrow> 'a entryWrapper list \<Rightarrow> int \<Rightarrow> 'a option" where
  "slots_of f ws pn =
     (if f \<le> pn \<and> pn < f + int (length ws) \<and> present (ws ! nat (pn - f))
      then Some (entry (ws ! nat (pn - f))) else None)"

definition live_count :: "'a entryWrapper list \<Rightarrow> int" where
  "live_count ws = int (length (filter present ws))"

definition pnq_map :: "'a pnq \<Rightarrow> int \<Rightarrow> 'a option" where
  "pnq_map q = slots_of (firstPacket q) (ring_abs (entries q))"

text \<open>Packet numbers are below \<open>2 ^ 62\<close>; \<open>pnq_pre\<close> is what holds between the steps of a loop.\<close>

definition pnq_pre :: "'a pnq \<Rightarrow> bool" where
  "pnq_pre q \<longleftrightarrow> ring_inv (entries q) \<and>
     numberOfPresentEntries q = live_count (ring_abs (entries q)) \<and>
     (ring_abs (entries q) \<noteq> [] \<longrightarrow> 0 \<le> firstPacket q \<and>
        firstPacket q + int (length (ring_abs (entries q))) \<le> 2 ^ 62)"

definition pnq_inv :: "'a pnq \<Rightarrow> bool" where
  "pnq_inv q \<longleftrightarrow> pnq_pre q \<and>
     (case ring_abs (entries q) of
        [] \<Rightarrow> firstPacket q = invalidPacketNumber
      | w # ws \<Rightarrow> present w)"

lemma slots_of_Nil [simp]: "slots_of f [] = Map.empty"
  by (auto simp: slots_of_def)

lemma slots_of_Cons:
  "slots_of f (w # ws) pn =
     (if pn = f then (if present w then Some (entry w) else None) else slots_of (f + 1) ws pn)"
proof (cases "pn = f")
  case False
  show ?thesis
  proof (cases "f < pn")
    case True
    then have "nat (pn - f) = Suc (nat (pn - (f + 1)))" by simp
    with True show ?thesis by (auto simp: slots_of_def)
  qed (use False in \<open>auto simp: slots_of_def\<close>)
qed (simp add: slots_of_def)

lemma slots_of_below: "pn < f \<Longrightarrow> slots_of f ws pn = None"
  by (simp add: slots_of_def)

lemma slots_of_append:
  "slots_of f (ws @ vs) pn =
     (if pn < f + int (length ws) then slots_of f ws pn else slots_of (f + int (length ws)) vs pn)"
  by (induction ws arbitrary: f) (auto simp: slots_of_Cons slots_of_below algebra_simps)

lemma slots_of_blanks: "slots_of f (replicate n (blank z)) = Map.empty"
  by (auto simp: slots_of_def blank_def)

lemma slots_of_update:
  "i < length ws \<Longrightarrow> slots_of f (ws[i := w]) =
     (slots_of f ws)(f + int i := (if present w then Some (entry w) else None))"
proof (induction ws arbitrary: f i)
  case (Cons v ws)
  show ?case
  proof (cases i)
    case 0
    then show ?thesis by (auto simp: slots_of_Cons fun_eq_iff)
  next
    case (Suc j)
    with Cons.IH [of j "f + 1"] Cons.prems show ?thesis
      by (auto simp: slots_of_Cons fun_eq_iff)
  qed
qed simp

lemma live_count_simps [simp]:
  "live_count [] = 0" "live_count (w # ws) = live_count ws + (if present w then 1 else 0)"
  "live_count (ws @ vs) = live_count ws + live_count vs" "live_count (replicate n (blank z)) = 0"
  by (simp_all add: live_count_def blank_def filter_replicate)

lemma live_count_nonneg: "0 \<le> live_count ws"
  by (simp add: live_count_def)

lemma live_count_update:
  "i < length ws \<Longrightarrow> present (ws ! i) \<Longrightarrow> \<not> present w \<Longrightarrow> live_count (ws[i := w]) = live_count ws - 1"
  by (induction ws arbitrary: i) (auto split: nat.splits)

lemma card_slots: "int (card (dom (slots_of f ws))) = live_count ws \<and> finite (dom (slots_of f ws))"
proof (induction ws arbitrary: f)
  case Nil
  then show ?case by simp
next
  case (Cons w ws)
  have "dom (slots_of f (w # ws)) =
      (if present w then insert f (dom (slots_of (f + 1) ws)) else dom (slots_of (f + 1) ws))"
    by (auto simp: slots_of_Cons slots_of_below split: if_splits)
  moreover have "f \<notin> dom (slots_of (f + 1) ws)" by (auto simp: slots_of_below)
  ultimately show ?case using Cons.IH [of "f + 1"] by simp
qed

lemma pnq_empty_iff:
  assumes "pnq_inv q"
  shows "pnq_IsEmpty q \<longleftrightarrow> ring_abs (entries q) = []"
proof (cases "ring_abs (entries q)")
  case (Cons w ws)
  then show ?thesis using assms live_count_nonneg [of ws]
    by (simp add: pnq_inv_def pnq_pre_def pnq_IsEmpty_def)
qed (use assms in \<open>simp add: pnq_inv_def pnq_pre_def pnq_IsEmpty_def\<close>)

section \<open>The loops\<close>

lemma push_gap_push_n: "push_gap n z r = rb.push_n (blank z) n (blank z) r"
  by (induction n arbitrary: r) (auto simp: rb.push_n.simps split: option.splits)

lemma push_gap_ok:
  assumes "ring_inv r"
  shows "\<exists>r'. push_gap n z r = Some r' \<and> ring_inv r' \<and> ring_abs r' = ring_abs r @ replicate n (blank z)"
  unfolding push_gap_push_n by (rule rb.push_n_law [OF assms])

lemma i64_packet: "0 \<le> x \<Longrightarrow> x \<le> 2 ^ 62 \<Longrightarrow> i64 x = x"
  by (rule i64_id') simp_all

lemma clearup_loop_ok:
  assumes "pnq_pre q"
  shows "\<exists>q'. clearup_loop z q = Some q' \<and> pnq_pre q' \<and>
    ring_abs (entries q') = dropWhile (\<lambda>w. \<not> present w) (ring_abs (entries q)) \<and>
    slots_of (firstPacket q') (ring_abs (entries q')) = slots_of (firstPacket q) (ring_abs (entries q)) \<and>
    firstPacket q' + int (length (ring_abs (entries q'))) =
      firstPacket q + int (length (ring_abs (entries q))) \<and>
    firstPacket q \<le> firstPacket q'"
  using assms
proof (induction "ring_abs (entries q)" arbitrary: q)
  case Nil
  then have "ring_Empty (entries q)" by (simp add: pnq_pre_def ring_Empty_abs)
  then show ?case using Nil by (subst clearup_loop.simps) (simp flip: length_ring_abs)
next
  case (Cons w ws)
  have r: "ring_inv (entries q)" using Cons.prems by (simp add: pnq_pre_def)
  have ne: "\<not> ring_Empty (entries q)" using ring_Empty_abs [OF r] Cons.hyps(2) by (metis list.discI)
  have f: "ring_Front (entries q) = Some w" using ring_Front_ok [OF r] Cons.hyps(2) [symmetric] by simp
  show ?case
  proof (cases "present w")
    case True
    then have "clearup_loop z q = Some q" using ne f by (subst clearup_loop.simps) simp
    then show ?thesis using Cons.prems True by (simp flip: Cons.hyps(2) del: length_ring_abs)
  next
    case False
    obtain r' where r': "ring_PopFront (blank z) (entries q) = Some (w, r')" "ring_inv r'" "ring_abs r' = ws"
      using rb.pop_law [OF r Cons.hyps(2) [symmetric]] by blast
    have b: "0 \<le> firstPacket q" "firstPacket q + 1 + int (length ws) \<le> 2 ^ 62"
      using Cons.prems Cons.hyps(2) [symmetric] by (auto simp: pnq_pre_def)
    have i: "i64 (firstPacket q + 1) = firstPacket q + 1" using b by (intro i64_packet) simp_all
    let ?q = "q\<lparr>entries := r', firstPacket := firstPacket q + 1\<rparr>"
    have step: "clearup_loop z q = clearup_loop z ?q"
      using ne f r'(1) False i by (subst clearup_loop.simps) simp
    have pre: "pnq_pre ?q"
      using Cons.prems r' b False Cons.hyps(2) [symmetric] by (simp add: pnq_pre_def)
    have sl: "slots_of (firstPacket q) (w # ws) = slots_of (firstPacket q + 1) ws"
      using False by (auto simp: slots_of_Cons slots_of_below fun_eq_iff)
    have "ws = ring_abs (entries ?q)" using r'(3) by simp
    from Cons.hyps(1) [OF this pre] show ?thesis
      unfolding step using False sl r'(3) by (auto simp flip: Cons.hyps(2))
  qed
qed

lemma clearup_ok:
  assumes "pnq_pre q"
  shows "\<exists>q'. clearup z q = Some q' \<and> pnq_inv q' \<and> pnq_map q' = pnq_map q \<and>
    (pnq_map q \<noteq> Map.empty \<longrightarrow>
      firstPacket q' + int (length (ring_abs (entries q'))) =
      firstPacket q + int (length (ring_abs (entries q))))"
proof -
  obtain q1 where q1: "clearup_loop z q = Some q1" "pnq_pre q1"
    "ring_abs (entries q1) = dropWhile (\<lambda>w. \<not> present w) (ring_abs (entries q))"
    "slots_of (firstPacket q1) (ring_abs (entries q1)) = slots_of (firstPacket q) (ring_abs (entries q))"
    "firstPacket q1 + int (length (ring_abs (entries q1))) =
      firstPacket q + int (length (ring_abs (entries q)))"
    using clearup_loop_ok [OF assms] by blast
  have r: "ring_inv (entries q1)" using q1(2) by (simp add: pnq_pre_def)
  show ?thesis
  proof (cases "ring_abs (entries q1)")
    case Nil
    then have "clearup z q = Some (q1\<lparr>firstPacket := invalidPacketNumber\<rparr>)"
      using q1(1) ring_Empty_abs [OF r] by (simp add: clearup_def)
    moreover have "pnq_inv (q1\<lparr>firstPacket := invalidPacketNumber\<rparr>)"
      using q1(2) Nil by (simp add: pnq_inv_def pnq_pre_def)
    moreover have "pnq_map q = Map.empty" unfolding pnq_map_def q1(4) [symmetric] Nil by simp
    ultimately show ?thesis using Nil by (simp add: pnq_map_def)
  next
    case (Cons w ws)
    then have "present w" using q1(3) by (metis hd_dropWhile list.discI list.sel(1))
    then have "pnq_inv q1" using q1(2) Cons by (simp add: pnq_inv_def)
    moreover have "clearup z q = Some q1" using q1(1) ring_Empty_abs [OF r] Cons by (simp add: clearup_def)
    ultimately show ?thesis using q1(4,5) by (simp add: pnq_map_def)
  qed
qed

lemma remove_loop_ok:
  assumes "pnq_pre q"
  shows "\<exists>q'. remove_loop z n q = Some q' \<and> pnq_pre q' \<and>
    slots_of (firstPacket q') (ring_abs (entries q')) =
      slots_of (firstPacket q) (ring_abs (entries q)) |` {n..} \<and>
    firstPacket q' + int (length (ring_abs (entries q'))) =
      firstPacket q + int (length (ring_abs (entries q)))"
  using assms
proof (induction "ring_abs (entries q)" arbitrary: q)
  case Nil
  then have "ring_Empty (entries q)" by (simp add: pnq_pre_def ring_Empty_abs)
  then show ?case using Nil by (subst remove_loop.simps) (simp flip: length_ring_abs)
next
  case (Cons w ws)
  note hyp = Cons.hyps(2) [symmetric]
  have r: "ring_inv (entries q)" using Cons.prems by (simp add: pnq_pre_def)
  have ne: "\<not> ring_Empty (entries q)" using ring_Empty_abs [OF r] hyp by simp
  have f: "ring_Front (entries q) = Some w" using ring_Front_ok [OF r] hyp by simp
  have b: "0 \<le> firstPacket q" "firstPacket q + 1 + int (length ws) \<le> 2 ^ 62"
    using Cons.prems hyp by (auto simp: pnq_pre_def)
  show ?case
  proof (cases "firstPacket q < n")
    case False
    then have "slots_of (firstPacket q) (w # ws) |` {n..} = slots_of (firstPacket q) (w # ws)"
      by (auto simp: restrict_map_def fun_eq_iff slots_of_below)
    moreover have "remove_loop z n q = Some q" using False by (subst remove_loop.simps) simp
    ultimately show ?thesis using Cons.prems by (simp add: hyp del: length_ring_abs)
  next
    case True
    obtain r' where r': "ring_PopFront (blank z) (entries q) = Some (w, r')" "ring_inv r'" "ring_abs r' = ws"
      using rb.pop_law [OF r hyp] by blast
    have i: "i64 (firstPacket q + 1) = firstPacket q + 1" using b by (intro i64_packet) simp_all
    let ?q = "q\<lparr>entries := r', firstPacket := firstPacket q + 1, numberOfPresentEntries :=
      (if present w then numberOfPresentEntries q - 1 else numberOfPresentEntries q)\<rparr>"
    have step: "remove_loop z n q = remove_loop z n ?q"
      using ne f r'(1) True i b by (subst remove_loop.simps) (simp add: invalidPacketNumber_def)
    have pre: "pnq_pre ?q"
      using Cons.prems r' b hyp by (simp add: pnq_pre_def)
    have sl: "slots_of (firstPacket q) (w # ws) |` {n..} = slots_of (firstPacket q + 1) ws |` {n..}"
      using True by (auto simp: slots_of_Cons slots_of_below fun_eq_iff restrict_map_def)
    have "ws = ring_abs (entries ?q)" using r'(3) by simp
    from Cons.hyps(1) [OF this pre] show ?thesis
      unfolding step hyp sl using r'(3) by (auto simp: hyp)
  qed
qed


section \<open>The operations\<close>

text \<open>The number of the last slot, which stays when its entry is removed.\<close>

definition pnq_last :: "'a pnq \<Rightarrow> int" where
  "pnq_last q = firstPacket q + int (length (ring_abs (entries q))) - 1"

lemma pnq_map_empty_iff:
  assumes "pnq_inv q"
  shows "pnq_map q = Map.empty \<longleftrightarrow> ring_abs (entries q) = []"
proof (cases "ring_abs (entries q)")
  case (Cons w ws)
  then have "pnq_map q (firstPacket q) = Some (entry w)"
    using assms by (simp add: pnq_inv_def pnq_map_def slots_of_Cons)
  then show ?thesis using Cons by auto
qed (simp add: pnq_map_def)

lemma pnq_LastPacket_ok:
  assumes inv: "pnq_inv q"
  shows "pnq_LastPacket q = (if pnq_map q = Map.empty then -1 else pnq_last q)"
proof (cases "ring_abs (entries q)")
  case Nil
  then show ?thesis
    using pnq_map_empty_iff [OF inv] pnq_empty_iff [OF inv]
    by (simp add: pnq_LastPacket_def invalidPacketNumber_def)
next
  case (Cons w ws)
  have l: "ring_Len (entries q) = Suc (length ws)" using Cons by (metis length_Cons length_ring_abs)
  have b: "0 \<le> firstPacket q" "firstPacket q + 1 + int (length ws) \<le> 2 ^ 62"
    using inv Cons by (auto simp: pnq_inv_def pnq_pre_def)
  have "i64 (int (length ws)) = int (length ws)" using b by (intro i64_packet) simp_all
  moreover have "i64 (firstPacket q + int (length ws)) = firstPacket q + int (length ws)"
    using b by (intro i64_packet) simp_all
  ultimately show ?thesis
    using pnq_map_empty_iff [OF inv] pnq_empty_iff [OF inv] Cons
    by (simp add: pnq_LastPacket_def pnq_last_def l)
qed

lemma i64_offset:
  assumes "0 \<le> f" "f \<le> pn" "pn < 2 ^ 62"
  shows "i64 (pn - f) = pn - f"
  using assms by (intro i64_packet) simp_all

lemma pnq_Emplace_ok:
  assumes inv: "pnq_inv q" and pn: "0 \<le> pn" "pn < 2 ^ 62"
  shows "\<exists>q'. pnq_Emplace z q pn (Some x) =
      Some (pnq_map q = Map.empty \<or> pnq_last q < pn, q') \<and> pnq_inv q' \<and>
    (if pnq_map q = Map.empty \<or> pnq_last q < pn
     then pnq_map q' = (pnq_map q)(pn \<mapsto> x) \<and> pnq_last q' = pn else q' = q)"
proof -
  let ?w = "\<lparr>present = True, entry = x\<rparr>"
  have r: "ring_inv (entries q)" and cnt: "numberOfPresentEntries q = live_count (ring_abs (entries q))"
    using inv by (simp_all add: pnq_inv_def pnq_pre_def)
  have pn1: "pn \<noteq> invalidPacketNumber" using pn by (simp add: invalidPacketNumber_def)
  show ?thesis
  proof (cases "pnq_map q = Map.empty")
    case True
    then have nil: "ring_abs (entries q) = []" "pnq_IsEmpty q"
      using pnq_map_empty_iff [OF inv] pnq_empty_iff [OF inv] by auto
    obtain r' where r': "ring_PushBack (blank z) (entries q) ?w = Some r'" "ring_inv r'" "ring_abs r' = [?w]"
      using rb.push_law [OF r, of "blank z" ?w] nil by auto
    let ?q = "q\<lparr>entries := r', numberOfPresentEntries := 1, firstPacket := pn\<rparr>"
    have "pnq_Emplace z q pn (Some x) = Some (True, ?q)" using r'(1) nil pn1 by (simp add: pnq_Emplace_def)
    moreover have "pnq_inv ?q" using r' pn by (simp add: pnq_inv_def pnq_pre_def)
    moreover have "pnq_map ?q = (pnq_map q)(pn \<mapsto> x)"
      using True r' by (auto simp: pnq_map_def slots_of_Cons fun_eq_iff)
    moreover have "pnq_last ?q = pn" using r' by (simp add: pnq_last_def)
    ultimately show ?thesis using True by simp
  next
    case False
    then have ne: "ring_abs (entries q) \<noteq> []" "\<not> pnq_IsEmpty q"
      using pnq_map_empty_iff [OF inv] pnq_empty_iff [OF inv] by auto
    have b: "0 \<le> firstPacket q" "firstPacket q + int (length (ring_abs (entries q))) \<le> 2 ^ 62"
      using inv ne by (simp_all add: pnq_inv_def pnq_pre_def)
    show ?thesis
    proof (cases "pn \<le> pnq_last q")
      case True
      then show ?thesis
        using False ne pn1 inv pnq_LastPacket_ok [OF inv] by (simp add: pnq_Emplace_def)
    next
      case lt: False
      then have f: "firstPacket q \<le> pn" by (simp add: pnq_last_def)
      let ?gap = "nat (pn - firstPacket q - int (ring_Len (entries q)))"
      obtain r1 where r1: "push_gap ?gap z (entries q) = Some r1" "ring_inv r1"
        "ring_abs r1 = ring_abs (entries q) @ replicate ?gap (blank z)"
        using push_gap_ok [OF r] by blast
      obtain r' where r': "ring_PushBack (blank z) r1 ?w = Some r'" "ring_inv r'" "ring_abs r' = ring_abs r1 @ [?w]"
        using rb.push_law [OF r1(2)] by blast
      let ?q = "q\<lparr>entries := r', numberOfPresentEntries := numberOfPresentEntries q + 1\<rparr>"
      have "pnq_Emplace z q pn (Some x) = Some (True, ?q)"
        using r1(1) r'(1) ne pn1 lt False pnq_LastPacket_ok [OF inv] i64_offset [OF b(1) f pn(2)]
        by (simp add: pnq_Emplace_def)
      moreover have len: "firstPacket q + int (length (ring_abs (entries q)) + ?gap) = pn"
        using lt by (simp add: pnq_last_def)
      have last: "pnq_last ?q = pn" using len r' r1 by (simp add: pnq_last_def)
      have "pnq_pre ?q"
        using r' r1 cnt pn b len by (simp add: pnq_pre_def)
      then have "pnq_inv ?q"
        using inv ne r' r1 by (cases "ring_abs (entries q)") (simp_all add: pnq_inv_def)
      moreover have "pnq_map ?q = (pnq_map q)(pn \<mapsto> x)"
      proof
        fix k
        have "slots_of (firstPacket q) (ring_abs (entries q)) pn = None"
          using lt by (simp add: slots_of_def pnq_last_def)
        then show "pnq_map ?q k = ((pnq_map q)(pn \<mapsto> x)) k"
          using len lt unfolding pnq_map_def
          by (auto simp: r' r1 slots_of_append slots_of_blanks slots_of_Cons pnq_last_def)
            (auto simp: slots_of_def)
      qed
      ultimately show ?thesis using last lt False by simp
    qed
  qed
qed

lemma getEntryWraper_ok:
  assumes inv: "pnq_inv q" and pn: "-1 \<le> pn" "pn < 2 ^ 62"
  shows "case pnq_map q pn of
      None \<Rightarrow> getEntryWraper q pn = None
    | Some x \<Rightarrow> getEntryWraper q pn = Some (nat (pn - firstPacket q)) \<and> firstPacket q \<le> pn \<and>
        nat (pn - firstPacket q) < length (ring_abs (entries q)) \<and>
        ring_Offset (entries q) (nat (pn - firstPacket q)) = Some \<lparr>present = True, entry = x\<rparr>"
proof (cases "ring_abs (entries q) = []")
  case True
  then show ?thesis using pnq_empty_iff [OF inv] by (simp add: pnq_map_def getEntryWraper_def)
next
  case False
  have r: "ring_inv (entries q)" and b: "0 \<le> firstPacket q"
    using inv False by (simp_all add: pnq_inv_def pnq_pre_def)
  note off = i64_offset [OF b _ pn(2)]
  show ?thesis
  proof (cases "firstPacket q \<le> pn")
    case le: True
    then have "pn \<noteq> invalidPacketNumber" using b by (simp add: invalidPacketNumber_def)
    then show ?thesis
      using le off [OF le] False pnq_empty_iff [OF inv]
      by (cases "ring_abs (entries q) ! nat (pn - firstPacket q)")
        (auto simp: pnq_map_def slots_of_def getEntryWraper_def ring_Offset_ok [OF r])
  qed (auto simp: pnq_map_def slots_of_def getEntryWraper_def)
qed

lemma pnq_GetEntry_ok:
  assumes "pnq_inv q" "-1 \<le> pn" "pn < 2 ^ 62"
  shows "pnq_GetEntry q pn = pnq_map q pn"
  using getEntryWraper_ok [OF assms]
  by (auto simp: pnq_GetEntry_def split: option.splits)

lemma pnq_put_fields:
  "firstPacket (pnq_put q i w) = firstPacket q"
  "entries (pnq_put q i w) = ring_write (entries q) i w"
  by (simp_all add: pnq_put_def)

lemma pnq_Remove_ok:
  assumes inv: "pnq_inv q" and pn: "-1 \<le> pn" "pn < 2 ^ 62"
  shows "\<exists>q'. pnq_Remove z q pn = Some (pnq_map q pn, q') \<and> pnq_inv q' \<and>
    pnq_map q' = (pnq_map q)(pn := None) \<and> (pnq_map q' \<noteq> Map.empty \<longrightarrow> pnq_last q' = pnq_last q)"
proof (cases "pnq_map q pn")
  case None
  then show ?thesis using getEntryWraper_ok [OF assms] inv by (auto simp: pnq_Remove_def)
next
  case (Some x)
  let ?i = "nat (pn - firstPacket q)" and ?ws = "ring_abs (entries q)"
  have g: "getEntryWraper q pn = Some ?i" "firstPacket q \<le> pn" "?i < length ?ws"
    "ring_Offset (entries q) ?i = Some \<lparr>present = True, entry = x\<rparr>"
    using getEntryWraper_ok [OF assms] Some by simp_all
  have r: "ring_inv (entries q)" using inv by (simp add: pnq_inv_def pnq_pre_def)
  have wi: "?ws ! ?i = \<lparr>present = True, entry = x\<rparr>" using g(3,4) ring_Offset_ok [OF r] by simp
  let ?w = "\<lparr>present = False, entry = x\<rparr>"
  let ?q = "(pnq_put q ?i ?w)\<lparr>numberOfPresentEntries := numberOfPresentEntries q - 1\<rparr>"
  note w = ring_write_ok [OF r g(3), of ?w]
  have e: "entries ?q = ring_write (entries q) ?i ?w" "firstPacket ?q = firstPacket q"
    "numberOfPresentEntries ?q = numberOfPresentEntries q - 1"
    by (simp_all add: pnq_put_def)
  have pre: "pnq_pre ?q"
    using inv w g(3) live_count_update [OF g(3), of ?w] wi
    unfolding pnq_inv_def pnq_pre_def e by simp
  have map: "pnq_map ?q = (pnq_map q)(pn := None)"
    using slots_of_update [OF g(3), of "firstPacket q" ?w] g(2) unfolding pnq_map_def e w(2) by simp
  have last: "pnq_last ?q = pnq_last q" unfolding pnq_last_def e w(2) by simp
  show ?thesis
  proof (cases "pn = firstPacket q")
    case True
    obtain q' where "clearup z ?q = Some q'" "pnq_inv q'" "pnq_map q' = pnq_map ?q"
      "pnq_map ?q \<noteq> Map.empty \<longrightarrow> firstPacket q' + int (length (ring_abs (entries q'))) =
        firstPacket ?q + int (length (ring_abs (entries ?q)))"
      using clearup_ok [OF pre] by blast
    moreover have "pnq_Remove z q pn = map_option (\<lambda>q. (Some x, q)) (clearup z ?q)"
      using g(1,4) True by (simp add: pnq_Remove_def Let_def pnq_put_fields)
    ultimately show ?thesis using Some map last by (auto simp: pnq_last_def)
  next
    case False
    then obtain j where j: "?i = Suc j" using g(2) by (cases ?i) auto
    then have "pnq_inv ?q"
      using pre inv g(3) w(2) by (cases ?ws) (simp_all add: pnq_inv_def pnq_put_fields)
    moreover have "pnq_Remove z q pn = Some (Some x, ?q)"
      using g(1,4) False by (simp add: pnq_Remove_def Let_def pnq_put_fields)
    ultimately show ?thesis using Some map last by simp
  qed
qed

lemma pnq_RemoveUpTo_ok:
  assumes inv: "pnq_inv q"
  shows "\<exists>q'. pnq_RemoveUpTo z q n = Some q' \<and> pnq_inv q' \<and> pnq_map q' = pnq_map q |` {n..} \<and>
    (pnq_map q' \<noteq> Map.empty \<longrightarrow> pnq_last q' = pnq_last q)"
proof -
  have "pnq_pre q" using inv by (simp add: pnq_inv_def)
  then obtain q1 where q1: "remove_loop z n q = Some q1" "pnq_pre q1"
    "pnq_map q1 = pnq_map q |` {n..}" "pnq_last q1 = pnq_last q"
    using remove_loop_ok [of q z n] by (auto simp: pnq_map_def pnq_last_def)
  obtain q2 where "clearup z q1 = Some q2" "pnq_inv q2" "pnq_map q2 = pnq_map q1"
    "pnq_map q1 \<noteq> Map.empty \<longrightarrow> pnq_last q2 = pnq_last q1"
    using clearup_ok [OF q1(2), of z] by (auto simp: pnq_last_def)
  with q1 show ?thesis by (simp add: pnq_RemoveUpTo_def)
qed


section \<open>Properties\<close>

datatype 'a queue_op = Emplace int 'a | GetEntry int | Remove int | RemoveUpTo int | First | LastP | Count

datatype 'a pnq_answer = Ok bool | Found "'a option" | Number int | Done

text \<open>The numbers that callers pass: packet numbers, or the invalid one where only looked up.\<close>

fun op_ok :: "'a queue_op \<Rightarrow> bool" where
  "op_ok (Emplace pn x) \<longleftrightarrow> 0 \<le> pn \<and> pn < 2 ^ 62"
| "op_ok (GetEntry pn) \<longleftrightarrow> -1 \<le> pn \<and> pn < 2 ^ 62"
| "op_ok (Remove pn) \<longleftrightarrow> -1 \<le> pn \<and> pn < 2 ^ 62"
| "op_ok _ \<longleftrightarrow> True"

fun pnq_op :: "'a \<Rightarrow> 'a pnq \<Rightarrow> 'a queue_op \<Rightarrow> ('a pnq_answer \<times> 'a pnq) option" where
  "pnq_op z q (Emplace pn x) = map_option (\<lambda>(b, q). (Ok b, q)) (pnq_Emplace z q pn (Some x))"
| "pnq_op z q (GetEntry pn) = Some (Found (pnq_GetEntry q pn), q)"
| "pnq_op z q (Remove pn) = map_option (\<lambda>(e, q). (Found e, q)) (pnq_Remove z q pn)"
| "pnq_op z q (RemoveUpTo pn) = map_option (\<lambda>q. (Done, q)) (pnq_RemoveUpTo z q pn)"
| "pnq_op z q First = Some (Number (firstPacket q), q)"
| "pnq_op z q LastP = Some (Number (pnq_LastPacket q), q)"
| "pnq_op z q Count = Some (Number (numberOfPresentEntries q), q)"

text \<open>The specification: a finite map, and the number inserted last.\<close>

fun map_op :: "(int \<Rightarrow> 'a option) \<times> int \<Rightarrow> 'a queue_op \<Rightarrow> 'a pnq_answer \<times> (int \<Rightarrow> 'a option) \<times> int" where
  "map_op (m, l) (Emplace pn x) =
     (if m = Map.empty \<or> l < pn then (Ok True, m(pn \<mapsto> x), pn) else (Ok False, m, l))"
| "map_op (m, l) (GetEntry pn) = (Found (m pn), m, l)"
| "map_op (m, l) (Remove pn) = (Found (m pn), m(pn := None), l)"
| "map_op (m, l) (RemoveUpTo pn) = (Done, m |` {pn..}, l)"
| "map_op (m, l) First = (Number (if m = Map.empty then -1 else Min (dom m)), m, l)"
| "map_op (m, l) LastP = (Number (if m = Map.empty then -1 else l), m, l)"
| "map_op (m, l) Count = (Number (int (card (dom m))), m, l)"

fun map_run :: "(int \<Rightarrow> 'a option) \<times> int \<Rightarrow> 'a queue_op list \<Rightarrow> 'a pnq_answer list" where
  "map_run s [] = []"
| "map_run s (p # ps) = (case map_op s p of (a, s) \<Rightarrow> a # map_run s ps)"

fun pnq_run :: "'a \<Rightarrow> 'a pnq \<Rightarrow> 'a queue_op list \<Rightarrow> 'a pnq_answer list option" where
  "pnq_run z q [] = Some []"
| "pnq_run z q (p # ps) =
     (case pnq_op z q p of None \<Rightarrow> None | Some (a, q) \<Rightarrow> map_option (Cons a) (pnq_run z q ps))"

definition pnq_rel :: "'a pnq \<Rightarrow> (int \<Rightarrow> 'a option) \<times> int \<Rightarrow> bool" where
  "pnq_rel q s \<longleftrightarrow> pnq_inv q \<and> pnq_map q = fst s \<and> (fst s \<noteq> Map.empty \<longrightarrow> pnq_last q = snd s)"

lemma pnq_first_Min:
  assumes inv: "pnq_inv q"
  shows "firstPacket q = (if pnq_map q = Map.empty then -1 else Min (dom (pnq_map q)))"
proof (cases "ring_abs (entries q)")
  case Nil
  then show ?thesis using inv pnq_map_empty_iff [OF inv]
    by (simp add: pnq_inv_def invalidPacketNumber_def)
next
  case (Cons w ws)
  have "finite (dom (pnq_map q))" 
    using card_slots [of "firstPacket q" "ring_abs (entries q)"] by (simp add: pnq_map_def)
  moreover have "firstPacket q \<in> dom (pnq_map q)"
    using inv Cons by (simp add: pnq_inv_def pnq_map_def slots_of_Cons domIff)
  moreover have "\<And>k. k \<in> dom (pnq_map q) \<Longrightarrow> firstPacket q \<le> k"
    by (auto simp: pnq_map_def slots_of_def split: if_splits)
  ultimately have "Min (dom (pnq_map q)) = firstPacket q" by (intro Min_eqI)
  then show ?thesis using pnq_map_empty_iff [OF inv] Cons by simp
qed

lemma pnq_op_refines:
  assumes rel: "pnq_rel q s" and ok: "op_ok p"
  shows "\<exists>q'. pnq_op z q p = Some (fst (map_op s p), q') \<and> pnq_rel q' (snd (map_op s p))"
proof (cases p)
  case (Emplace pn x)
  obtain m l where s: "s = (m, l)" by (cases s)
  show ?thesis using rel ok pnq_Emplace_ok [of q pn z x] Emplace
    by (cases "m = Map.empty \<or> l < pn") (auto simp: pnq_rel_def s)
next
  case (GetEntry pn)
  then show ?thesis using rel ok pnq_GetEntry_ok [of q pn] by (cases s) (simp add: pnq_rel_def)
next
  case (Remove pn)
  obtain m l where s: "s = (m, l)" by (cases s)
  have m: "m \<noteq> Map.empty" if "m(pn := None) \<noteq> Map.empty" using that by auto
  show ?thesis using rel ok pnq_Remove_ok [of q pn z] Remove m by (auto simp: pnq_rel_def s)
next
  case (RemoveUpTo pn)
  obtain m l where s: "s = (m, l)" by (cases s)
  have m: "m \<noteq> Map.empty" if "m |` {pn..} \<noteq> Map.empty" using that by auto
  show ?thesis using rel pnq_RemoveUpTo_ok [of q z pn] RemoveUpTo m by (auto simp: pnq_rel_def s)
next
  case First
  then show ?thesis using rel pnq_first_Min [of q] by (cases s) (simp add: pnq_rel_def)
next
  case LastP
  then show ?thesis using rel pnq_LastPacket_ok [of q] by (cases s) (simp add: pnq_rel_def)
next
  case Count
  then show ?thesis using rel card_slots [of "firstPacket q" "ring_abs (entries q)"]
    by (cases s) (simp add: pnq_rel_def pnq_map_def pnq_inv_def pnq_pre_def)
qed

lemma pnq_run_refines:
  "pnq_rel q s \<Longrightarrow> list_all op_ok ps \<Longrightarrow> pnq_run z q ps = Some (map_run s ps)"
proof (induction ps arbitrary: q s)
  case (Cons p ps)
  then obtain q' where "pnq_op z q p = Some (fst (map_op s p), q')" "pnq_rel q' (snd (map_op s p))"
    using pnq_op_refines [of q s p z] by auto
  with Cons show ?case by (simp split: prod.splits)
qed simp

text \<open>
  The packet-number-indexed queue is a finite map with in-order insertion: every sequence of
  operations, with any gaps and removals in any order, runs without a panic and with terminating
  loops, and answers exactly as the map does: which insertions succeed, which entries are found,
  the smallest number, the number inserted last, and how many entries there are.
\<close>

theorem packet_queue_refines:
  assumes "list_all op_ok ops"
  shows "pnq_run z (newPacketNumberIndexedQueue n) ops = Some (map_run (Map.empty, -1) ops)"
proof -
  have "pnq_rel (newPacketNumberIndexedQueue n) (Map.empty, -1)"
    by (simp add: pnq_rel_def newPacketNumberIndexedQueue_def pnq_inv_def pnq_pre_def pnq_map_def
        ring_inv_Init)
  with assms show ?thesis by (intro pnq_run_refines)
qed

lemma packet_queue_refines_witness:
  "pnq_run 0 (newPacketNumberIndexedQueue 4)
      [Emplace 3 (10 :: int), Emplace 6 20, Emplace 6 30, Remove 3, GetEntry 6, LastP] =
     Some [Ok True, Ok True, Ok False, Found (Some 10), Found (Some 20), Number 6]"
  by (subst packet_queue_refines) (auto simp: fun_eq_iff)

end
