(* ===== verification/Windowed_Filter.thy ===== *)
theory Windowed_Filter
  imports Hy_Prelude
begin

text \<open>
  \<open>core/internal/congestion/bbr/windowed_filter.go\<close>: the windowed minimum/maximum filter.  The
  time type is the round-trip counter, a \<open>uint64\<close>, so differences wrap at \<open>2 ^ 64\<close>.  The comparator
  and the zero value of the sample type are arguments; what a comparator promises is the locale
  \<open>filter_order\<close>, interpreted for \<open>MaxFilter\<close> and \<open>MinFilter\<close> here and for the extra-acked events
  where they are defined.
\<close>

type_synonym 'v estimate = "'v \<times> int"

record 'v wfilter =
  windowLength :: int
  est0 :: "'v estimate"
  est1 :: "'v estimate"
  est2 :: "'v estimate"

definition MaxFilter :: "'o::linorder \<Rightarrow> 'o \<Rightarrow> int" where
  "MaxFilter a b = (if a > b then 1 else if a < b then -1 else 0)"

definition MinFilter :: "'o::linorder \<Rightarrow> 'o \<Rightarrow> int" where
  "MinFilter a b = (if a < b then 1 else if a > b then -1 else 0)"

definition NewWindowedFilter :: "'v \<Rightarrow> int \<Rightarrow> 'v wfilter" where
  "NewWindowedFilter z w = \<lparr>windowLength = w, est0 = (z, 0), est1 = (z, 0), est2 = (z, 0)\<rparr>"

definition SetWindowLength :: "'v wfilter \<Rightarrow> int \<Rightarrow> 'v wfilter" where
  "SetWindowLength f w = f\<lparr>windowLength := w\<rparr>"

definition GetBest :: "'v wfilter \<Rightarrow> 'v" where "GetBest f = fst (est0 f)"
definition GetSecondBest :: "'v wfilter \<Rightarrow> 'v" where "GetSecondBest f = fst (est1 f)"
definition GetThirdBest :: "'v wfilter \<Rightarrow> 'v" where "GetThirdBest f = fst (est2 f)"

definition wf_Reset :: "'v wfilter \<Rightarrow> 'v \<Rightarrow> int \<Rightarrow> 'v wfilter" where
  "wf_Reset f newSample newTime =
     (let f = f\<lparr>est2 := (newSample, newTime)\<rparr>; f = f\<lparr>est1 := est2 f\<rparr> in f\<lparr>est0 := est1 f\<rparr>)"

definition wf_Clear :: "'v \<Rightarrow> 'v wfilter \<Rightarrow> 'v wfilter" where
  "wf_Clear z f = f\<lparr>est0 := (z, 0), est1 := (z, 0), est2 := (z, 0)\<rparr>"

definition wf_Update ::
  "('v \<Rightarrow> 'v \<Rightarrow> int) \<Rightarrow> 'v \<Rightarrow> 'v wfilter \<Rightarrow> 'v \<Rightarrow> int \<Rightarrow> 'v wfilter" where
  "wf_Update cmp z f newSample newTime =
     (if cmp (fst (est0 f)) z = 0 \<or> cmp newSample (fst (est0 f)) \<ge> 0 \<or>
         u64 (newTime - snd (est2 f)) > windowLength f
      then wf_Reset f newSample newTime
      else
        (let f = (if cmp newSample (fst (est1 f)) \<ge> 0
                  then f\<lparr>est1 := (newSample, newTime), est2 := (newSample, newTime)\<rparr>
                  else if cmp newSample (fst (est2 f)) \<ge> 0
                  then f\<lparr>est2 := (newSample, newTime)\<rparr>
                  else f)
         in if u64 (newTime - snd (est0 f)) > windowLength f then
              (let f = f\<lparr>est0 := est1 f, est1 := est2 f, est2 := (newSample, newTime)\<rparr>
               in if u64 (newTime - snd (est0 f)) > windowLength f
                  then f\<lparr>est0 := est1 f, est1 := est2 f\<rparr> else f)
            else if cmp (fst (est1 f)) (fst (est0 f)) = 0 \<and>
                    u64 (newTime - snd (est1 f)) > windowLength f div 4
            then f\<lparr>est1 := (newSample, newTime), est2 := (newSample, newTime)\<rparr>
            else if cmp (fst (est2 f)) (fst (est1 f)) = 0 \<and>
                    u64 (newTime - snd (est2 f)) > windowLength f div 2
            then f\<lparr>est2 := (newSample, newTime)\<rparr>
            else f))"

section \<open>What a comparator promises\<close>

locale filter_order =
  fixes cmp :: "'v \<Rightarrow> 'v \<Rightarrow> int" and key :: "'v \<Rightarrow> int"
  assumes ge_law: "cmp a b \<ge> 0 \<longleftrightarrow> key b \<le> key a"
    and eq_law: "cmp a b = 0 \<longleftrightarrow> key a = key b"
begin

text \<open>The samples seen so far are a list, the newest first.  \<open>covers\<close>: an estimate is one of them
  and no later one is better.\<close>

definition covers :: "'v estimate list \<Rightarrow> 'v estimate \<Rightarrow> bool" where
  "covers h e \<longleftrightarrow> (\<exists>xs ys. h = xs @ e # ys \<and> (\<forall>x \<in> set xs. key (fst x) \<le> key (fst e)))"

definition filter_ok :: "'v estimate list \<Rightarrow> 'v wfilter \<Rightarrow> bool" where
  "filter_ok h f \<longleftrightarrow> covers h (est0 f) \<and> covers h (est1 f) \<and> covers h (est2 f) \<and>
     snd (est0 f) \<le> snd (est1 f) \<and> snd (est1 f) \<le> snd (est2 f)"

definition in_order :: "'v estimate list \<Rightarrow> bool" where
  "in_order h \<longleftrightarrow> sorted_wrt (\<lambda>a b. snd b \<le> snd a) h \<and> (\<forall>e \<in> set h. 0 \<le> snd e \<and> snd e < 2 ^ 64)"

lemma covers_new: "covers (e # h) e"
  unfolding covers_def by (rule exI [of _ "[]"]) auto

lemma covers_keep: "covers h e \<Longrightarrow> key (fst x) \<le> key (fst e) \<Longrightarrow> covers (x # h) e"
proof -
  assume "covers h e" "key (fst x) \<le> key (fst e)"
  then obtain xs ys where "h = xs @ e # ys" "\<forall>x \<in> set xs. key (fst x) \<le> key (fst e)"
    by (auto simp: covers_def)
  with \<open>key (fst x) \<le> key (fst e)\<close> show ?thesis
    unfolding covers_def by (intro exI [of _ "x # xs"] exI [of _ ys]) auto
qed

lemma covers_time: "covers h e \<Longrightarrow> in_order (x # h) \<Longrightarrow>
    snd e \<le> snd x \<and> u64 (snd x - snd e) = snd x - snd e"
  by (auto simp: covers_def in_order_def u64_id)

lemma Reset_ok: "filter_ok ((v, t) # h) (wf_Reset f v t)"
  using covers_new by (simp add: filter_ok_def wf_Reset_def)

text \<open>One update of an initialised filter.\<close>

lemma Update_ok:
  assumes f: "filter_ok h f" and ord: "in_order ((v, t) # h)" and w: "0 \<le> windowLength f"
  shows "filter_ok ((v, t) # h) (wf_Update cmp z f v t)" (is "?ok (wf_Update cmp z f v t)")
    and "t - snd (est0 (wf_Update cmp z f v t)) \<le> windowLength f"
proof -
  note new = covers_new [of "(v, t)" h]
  have c: "covers h (est0 f)" "covers h (est1 f)" "covers h (est2 f)"
    "snd (est0 f) \<le> snd (est1 f)" "snd (est1 f) \<le> snd (est2 f)"
    using f by (simp_all add: filter_ok_def)
  have tm: "snd (est0 f) \<le> t" "u64 (t - snd (est0 f)) = t - snd (est0 f)"
    "snd (est1 f) \<le> t" "u64 (t - snd (est1 f)) = t - snd (est1 f)"
    "snd (est2 f) \<le> t" "u64 (t - snd (est2 f)) = t - snd (est2 f)"
    using covers_time [OF c(1) ord] covers_time [OF c(2) ord] covers_time [OF c(3) ord] by simp_all
  have keep: "covers ((v, t) # h) e" if "covers h e" "\<not> cmp v (fst e) \<ge> 0" for e
    using covers_keep [OF that(1), of "(v, t)"] that(2) ge_law [of v "fst e"] by simp
  have z: "u64 (t - t) = 0" by (simp add: u64_def)
  have "?ok (wf_Update cmp z f v t) \<and> t - snd (est0 (wf_Update cmp z f v t)) \<le> windowLength f"
  proof (cases "cmp (fst (est0 f)) z = 0 \<or> cmp v (fst (est0 f)) \<ge> 0 \<or> t - snd (est2 f) > windowLength f")
    case True
    then have "wf_Update cmp z f v t = wf_Reset f v t" using tm by (simp add: wf_Update_def)
    then show ?thesis using Reset_ok w by (simp add: wf_Reset_def)
  next
    case False
    define g where "g = (if cmp v (fst (est1 f)) \<ge> 0 then f\<lparr>est1 := (v, t), est2 := (v, t)\<rparr>
      else if cmp v (fst (est2 f)) \<ge> 0 then f\<lparr>est2 := (v, t)\<rparr> else f)"
    have g: "covers ((v, t) # h) (est0 g)" "covers ((v, t) # h) (est1 g)" "covers ((v, t) # h) (est2 g)"
      "est0 g = est0 f" "windowLength g = windowLength f"
      "snd (est0 g) \<le> snd (est1 g)" "snd (est1 g) \<le> snd (est2 g)" "snd (est2 g) \<le> t"
      "t - snd (est2 g) \<le> windowLength f"
      using keep c new tm False w by (simp_all add: g_def)
    have gt: "u64 (t - snd (est0 g)) = t - snd (est0 g)" "u64 (t - snd (est1 g)) = t - snd (est1 g)"
      "u64 (t - snd (est2 g)) = t - snd (est2 g)"
      using tm z by (simp_all add: g_def)
    have u: "wf_Update cmp z f v t =
      (if t - snd (est0 g) > windowLength g then
         (let f = g\<lparr>est0 := est1 g, est1 := est2 g, est2 := (v, t)\<rparr>
          in if t - snd (est1 g) > windowLength g then f\<lparr>est0 := est1 f, est1 := est2 f\<rparr> else f)
       else if cmp (fst (est1 g)) (fst (est0 g)) = 0 \<and> t - snd (est1 g) > windowLength g div 4
       then g\<lparr>est1 := (v, t), est2 := (v, t)\<rparr>
       else if cmp (fst (est2 g)) (fst (est1 g)) = 0 \<and> t - snd (est2 g) > windowLength g div 2
       then g\<lparr>est2 := (v, t)\<rparr> else g)"
      using False tm(6) gt by (simp add: wf_Update_def g_def [symmetric] Let_def)
    show ?thesis
    proof (cases "t - snd (est0 g) > windowLength g")
      case True
      then show ?thesis unfolding u using g new w by (auto simp: filter_ok_def Let_def)
    next
      case False
      then show ?thesis unfolding u using g new w tm by (auto simp: filter_ok_def)
    qed
  qed
  then show "?ok (wf_Update cmp z f v t)" "t - snd (est0 (wf_Update cmp z f v t)) \<le> windowLength f"
    by blast+
qed

lemma Update_first:
  assumes "key (fst (est0 f)) = key z" "0 \<le> windowLength f"
  shows "filter_ok ((v, t) # h) (wf_Update cmp z f v t)"
    "t - snd (est0 (wf_Update cmp z f v t)) \<le> windowLength f"
  using assms Reset_ok eq_law by (simp_all add: wf_Update_def wf_Reset_def)

lemma Update_window [simp]: "windowLength (wf_Update cmp z f v t) = windowLength f"
  by (simp add: wf_Update_def wf_Reset_def Let_def)

lemma foldr_Update_ok:
  assumes "in_order h" "h \<noteq> []" "0 \<le> w"
  shows "filter_ok h (foldr (\<lambda>(v, t) f. wf_Update cmp z f v t) h (NewWindowedFilter z w)) \<and>
    snd (hd h) - snd (est0 (foldr (\<lambda>(v, t) f. wf_Update cmp z f v t) h (NewWindowedFilter z w))) \<le> w"
  using assms
proof (induction h)
  case (Cons e h)
  obtain v t where e: "e = (v, t)" by (cases e)
  let ?f = "foldr (\<lambda>(v, t) f. wf_Update cmp z f v t) h (NewWindowedFilter z w)"
  have win: "windowLength (foldr (\<lambda>(v, t) f. wf_Update cmp z f v t) k (NewWindowedFilter z w)) = w" for k
    by (induction k) (auto simp: NewWindowedFilter_def)
  show ?case
  proof (cases "h = []")
    case True
    have "key (fst (est0 (NewWindowedFilter z w))) = key z" by (simp add: NewWindowedFilter_def)
    from Update_first(1) [OF this, where v = v and t = t and h = "[]"]
      Update_first(2) [OF this, where v = v and t = t] True e Cons.prems(3)
    show ?thesis by (simp add: NewWindowedFilter_def)
  next
    case False
    have "in_order h" using Cons.prems(1) by (auto simp: in_order_def)
    then have "filter_ok h ?f" using Cons.IH False Cons.prems(3) by blast
    from Update_ok(1) [OF this, where v = v and t = t and z = z]
      Update_ok(2) [OF this, where v = v and t = t and z = z] Cons.prems win [of h] e show ?thesis by simp
  qed
qed simp

end

interpretation max_filter: filter_order MaxFilter "\<lambda>v. v"
  by unfold_locales (simp_all add: MaxFilter_def)

interpretation min_filter: filter_order MinFilter "\<lambda>v. - v"
  by unfold_locales (simp_all add: MinFilter_def)

section \<open>Properties\<close>

text \<open>The samples \<open>h\<close>, newest first, fed to a new maximum filter.\<close>

definition max_filter_run :: "int \<Rightarrow> (int \<times> int) list \<Rightarrow> int wfilter" where
  "max_filter_run w h = foldr (\<lambda>(v, t) f. wf_Update MaxFilter 0 f v t) h (NewWindowedFilter 0 w)"

text \<open>
  After samples at non-decreasing times, the best estimate of a maximum filter is one of the
  samples, was taken within the window before the newest one, and no sample taken after it is
  larger; in particular it is never below the newest sample.
\<close>

theorem windowed_filter_best:
  assumes "sorted_wrt (\<lambda>a b. snd b \<le> snd a) h" "\<forall>e \<in> set h. 0 \<le> snd e \<and> snd e < 2 ^ 64"
    and "h \<noteq> []" "0 \<le> w"
  shows "\<exists>newer t older. h = newer @ (GetBest (max_filter_run w h), t) # older \<and>
    snd (hd h) - t \<le> w \<and> (\<forall>x \<in> set newer. fst x \<le> GetBest (max_filter_run w h))"
proof -
  have "max_filter.in_order h" using assms(1,2) by (simp add: max_filter.in_order_def)
  from max_filter.foldr_Update_ok [OF this assms(3,4), of 0]
  have "max_filter.covers h (est0 (max_filter_run w h))" "snd (hd h) - snd (est0 (max_filter_run w h)) \<le> w"
    by (simp_all add: max_filter.filter_ok_def max_filter_run_def)
  then show ?thesis
    unfolding max_filter.covers_def GetBest_def by (metis prod.collapse)
qed

lemma windowed_filter_best_witness:
  "\<exists>newer t older. [(3, 12), (9, 2), (5, 1)] = newer @ (GetBest (max_filter_run 10 [(3, 12), (9, 2), (5, 1)]), t) # older \<and>
    12 - t \<le> (10 :: int)"
  using windowed_filter_best [of "[(3, 12), (9, 2), (5, 1)]" 10] by auto

end
