(* ===== verification/Bandwidth_Sampler.thy ===== *)
theory Bandwidth_Sampler
  imports Go_Float Packet_Queue Windowed_Filter
begin

text \<open>
  \<open>core/internal/congestion/bbr/bandwidth_sampler.go\<close> and \<open>bandwidth.go\<close>: the delivery-rate sampler
  of BBR.  Byte counts, packet numbers, times and durations are \<open>int64\<close> (\<open>i64\<close>), bandwidths and
  round-trip counts \<open>uint64\<close> (\<open>u64\<close>).  Methods that update the sampler return it; \<open>None\<close> is a
  panic.  The constructors that only fill in fields are record values.
\<close>

section \<open>Bandwidth\<close>

definition infBandwidth :: int where "infBandwidth = 2 ^ 64 - 1"
definition infRTT :: int where "infRTT = 2 ^ 63 - 1"
definition BytesPerSecond :: int where "BytesPerSecond = 8"
definition second_ns :: int where "second_ns = 1000000000"

definition BandwidthFromDelta :: "int \<Rightarrow> int \<Rightarrow> int option" where
  "BandwidthFromDelta n delta =
     (if u64 delta = 0 then None
      else Some (u64 (u64 (u64 n * second_ns) div u64 delta * BytesPerSecond)))"

definition bytesFromBandwidthAndTimeDelta :: "int \<Rightarrow> int \<Rightarrow> int" where
  "bytesFromBandwidthAndTimeDelta bandwidth delta =
     quot (i64 (i64 bandwidth * delta)) (second_ns * 8)"

definition timeDeltaFromBytesAndBandwidth :: "int \<Rightarrow> int \<Rightarrow> int option" where
  "timeDeltaFromBytesAndBandwidth n bandwidth =
     (if i64 bandwidth = 0 then None else Some (i64 (quot (i64 (i64 (n * 8) * second_ns)) (i64 bandwidth))))"

section \<open>Samples\<close>

record sendTimeState =
  isValid :: bool
  sts_isAppLimited :: bool
  sts_totalBytesSent :: int
  sts_totalBytesAcked :: int
  sts_totalBytesLost :: int
  sts_bytesInFlight :: int

definition zeroSendTimeState :: sendTimeState where
  "zeroSendTimeState = \<lparr>isValid = False, sts_isAppLimited = False, sts_totalBytesSent = 0,
     sts_totalBytesAcked = 0, sts_totalBytesLost = 0, sts_bytesInFlight = 0\<rparr>"

definition newSendTimeState :: "bool \<Rightarrow> int \<Rightarrow> int \<Rightarrow> int \<Rightarrow> int \<Rightarrow> sendTimeState" where
  "newSendTimeState limited sent acked lost inflight =
     \<lparr>isValid = True, sts_isAppLimited = limited, sts_totalBytesSent = sent,
      sts_totalBytesAcked = acked, sts_totalBytesLost = lost, sts_bytesInFlight = inflight\<rparr>"

record extraAckedEvent =
  extraAcked :: int
  bytesAcked :: int
  timeDelta :: int
  round_no :: int

definition zeroExtraAckedEvent :: extraAckedEvent where
  "zeroExtraAckedEvent = \<lparr>extraAcked = 0, bytesAcked = 0, timeDelta = 0, round_no = 0\<rparr>"

definition maxExtraAckedEventFunc :: "extraAckedEvent \<Rightarrow> extraAckedEvent \<Rightarrow> int" where
  "maxExtraAckedEventFunc a b =
     (if extraAcked a > extraAcked b then 1 else if extraAcked a < extraAcked b then -1 else 0)"

record bandwidthSample =
  bs_bandwidth :: int
  bs_rtt :: int
  bs_sendRate :: int
  bs_stateAtSend :: sendTimeState

definition newBandwidthSample :: bandwidthSample where
  "newBandwidthSample = \<lparr>bs_bandwidth = 0, bs_rtt = 0, bs_sendRate = infBandwidth,
     bs_stateAtSend = zeroSendTimeState\<rparr>"

section \<open>Ack height tracker\<close>

record maxAckHeightTracker =
  maxAckHeightFilter :: "extraAckedEvent wfilter"
  aggregationEpochStartTime :: int
  aggregationEpochBytes :: int
  lastSentPacketNumberBeforeEpoch :: int
  numAckAggregationEpochs :: int
  ackAggregationBandwidthThreshold :: float64
  startNewAggregationEpochAfterFullRound :: bool
  reduceExtraAckedOnBandwidthIncrease :: bool

definition newMaxAckHeightTracker :: "int \<Rightarrow> maxAckHeightTracker" where
  "newMaxAckHeightTracker w =
     \<lparr>maxAckHeightFilter = NewWindowedFilter zeroExtraAckedEvent w, aggregationEpochStartTime = 0,
      aggregationEpochBytes = 0, lastSentPacketNumberBeforeEpoch = invalidPacketNumber,
      numAckAggregationEpochs = 0, ackAggregationBandwidthThreshold = 1,
      startNewAggregationEpochAfterFullRound = False, reduceExtraAckedOnBandwidthIncrease = False\<rparr>"

abbreviation ack_filter_Update ::
  "extraAckedEvent wfilter \<Rightarrow> extraAckedEvent \<Rightarrow> int \<Rightarrow> extraAckedEvent wfilter" where
  "ack_filter_Update \<equiv> wf_Update maxExtraAckedEventFunc zeroExtraAckedEvent"

definition mah_Get :: "maxAckHeightTracker \<Rightarrow> int" where
  "mah_Get m = extraAcked (GetBest (maxAckHeightFilter m))"

text \<open>One of the three re-insertions at the top of \<open>Update\<close>.\<close>

definition reinsert_height ::
  "int \<Rightarrow> extraAckedEvent wfilter \<Rightarrow> extraAckedEvent \<Rightarrow> extraAckedEvent wfilter" where
  "reinsert_height bandwidthEstimate f e =
     (let expectedBytesAcked = bytesFromBandwidthAndTimeDelta bandwidthEstimate (timeDelta e)
      in if expectedBytesAcked < bytesAcked e
         then ack_filter_Update f (e\<lparr>extraAcked := i64 (bytesAcked e - expectedBytesAcked)\<rparr>) (round_no e)
         else f)"

definition start_epoch :: "maxAckHeightTracker \<Rightarrow> int \<Rightarrow> int \<Rightarrow> int \<Rightarrow> maxAckHeightTracker" where
  "start_epoch m acked ackTime lastSentPacketNumber =
     m\<lparr>aggregationEpochBytes := acked, aggregationEpochStartTime := ackTime,
       lastSentPacketNumberBeforeEpoch := lastSentPacketNumber,
       numAckAggregationEpochs := u64 (numAckAggregationEpochs m + 1)\<rparr>"

definition mah_Update ::
  "maxAckHeightTracker \<Rightarrow> int \<Rightarrow> bool \<Rightarrow> int \<Rightarrow> int \<Rightarrow> int \<Rightarrow> int \<Rightarrow> int \<Rightarrow> maxAckHeightTracker \<times> int" where
  "mah_Update m bandwidthEstimate isNewMaxBandwidth roundTripCount lastSentPacketNumber
     lastAckedPacketNumber ackTime acked =
     (let m = (if reduceExtraAckedOnBandwidthIncrease m \<and> isNewMaxBandwidth then
                 (let f = maxAckHeightFilter m;
                      best = GetBest f; secondBest = GetSecondBest f; thirdBest = GetThirdBest f;
                      f = wf_Clear zeroExtraAckedEvent f;
                      f = reinsert_height bandwidthEstimate f best;
                      f = reinsert_height bandwidthEstimate f secondBest;
                      f = reinsert_height bandwidthEstimate f thirdBest
                  in m\<lparr>maxAckHeightFilter := f\<rparr>)
               else m);
          forceNewEpoch = (startNewAggregationEpochAfterFullRound m \<and>
            lastSentPacketNumberBeforeEpoch m \<noteq> invalidPacketNumber \<and>
            lastAckedPacketNumber \<noteq> invalidPacketNumber \<and>
            lastAckedPacketNumber > lastSentPacketNumberBeforeEpoch m)
      in if aggregationEpochStartTime m = 0 \<or> forceNewEpoch
         then (start_epoch m acked ackTime lastSentPacketNumber, 0)
         else
           (let aggregationDelta = i64 (ackTime - aggregationEpochStartTime m);
                expectedBytesAcked = bytesFromBandwidthAndTimeDelta bandwidthEstimate aggregationDelta
            in if aggregationEpochBytes m
                    \<le> f64_to_i64 (fmul (ackAggregationBandwidthThreshold m) (f64_of_int expectedBytesAcked))
               then (start_epoch m acked ackTime lastSentPacketNumber, 0)
               else
                 (let m = m\<lparr>aggregationEpochBytes := i64 (aggregationEpochBytes m + acked)\<rparr>;
                      extraBytesAcked = i64 (aggregationEpochBytes m - expectedBytesAcked);
                      newEvent = \<lparr>extraAcked = extraBytesAcked, bytesAcked = aggregationEpochBytes m,
                                  timeDelta = aggregationDelta, round_no = 0\<rparr>
                  in (m\<lparr>maxAckHeightFilter :=
                          ack_filter_Update (maxAckHeightFilter m) newEvent roundTripCount\<rparr>,
                      extraBytesAcked))))"

definition mah_Reset :: "maxAckHeightTracker \<Rightarrow> int \<Rightarrow> int \<Rightarrow> maxAckHeightTracker" where
  "mah_Reset m newHeight newTime =
     m\<lparr>maxAckHeightFilter := wf_Reset (maxAckHeightFilter m)
         \<lparr>extraAcked = newHeight, bytesAcked = 0, timeDelta = 0, round_no = newTime\<rparr> newTime\<rparr>"

section \<open>Ack points\<close>

record ackPoint =
  ackTime :: int
  ap_totalBytesAcked :: int

definition zeroAckPoint :: ackPoint where "zeroAckPoint = \<lparr>ackTime = 0, ap_totalBytesAcked = 0\<rparr>"

text \<open>The array of two: the less recent and the most recent point.\<close>

type_synonym recentAckPoints = "ackPoint \<times> ackPoint"

definition rap_Update :: "recentAckPoints \<Rightarrow> int \<Rightarrow> int \<Rightarrow> recentAckPoints" where
  "rap_Update r t tot =
     (let (p0, p1) = r;
          (p0, p1) = (if t < ackTime p1 then (p0, p1\<lparr>ackTime := t\<rparr>)
                      else if t > ackTime p1 then (p1, p1\<lparr>ackTime := t\<rparr>)
                      else (p0, p1))
      in (p0, p1\<lparr>ap_totalBytesAcked := tot\<rparr>))"

definition rap_Clear :: recentAckPoints where "rap_Clear = (zeroAckPoint, zeroAckPoint)"

definition MostRecentPoint :: "recentAckPoints \<Rightarrow> ackPoint" where "MostRecentPoint r = snd r"

definition LessRecentPoint :: "recentAckPoints \<Rightarrow> ackPoint" where
  "LessRecentPoint r = (if ap_totalBytesAcked (fst r) \<noteq> 0 then fst r else snd r)"

section \<open>The sampler\<close>

record connState =
  sentTime :: int
  cs_size :: int
  cs_totalBytesSentAtLastAckedPacket :: int
  cs_lastAckedPacketSentTime :: int
  cs_lastAckedPacketAckTime :: int
  cs_sendTimeState :: sendTimeState

definition zeroConnState :: connState where
  "zeroConnState = \<lparr>sentTime = 0, cs_size = 0, cs_totalBytesSentAtLastAckedPacket = 0,
     cs_lastAckedPacketSentTime = 0, cs_lastAckedPacketAckTime = 0,
     cs_sendTimeState = zeroSendTimeState\<rparr>"

record bandwidthSampler =
  totalBytesSent :: int
  totalBytesAcked :: int
  totalBytesLost :: int
  totalBytesNeutered :: int
  totalBytesSentAtLastAckedPacket :: int
  lastAckedPacketSentTime :: int
  lastAckedPacketAckTime :: int
  lastSentPacket :: int
  lastAckedPacket :: int
  isAppLimited :: bool
  endOfAppLimitedPhase :: int
  connectionStateMap :: "connState pnq"
  recentPoints :: recentAckPoints
  a0Candidates :: "ackPoint ringbuf"
  heightTracker :: maxAckHeightTracker
  totalBytesAckedAfterLastAckEvent :: int
  overestimateAvoidance :: bool
  limitMaxAckHeightTrackerBySendRate :: bool

definition newBandwidthSampler :: "int \<Rightarrow> bandwidthSampler" where
  "newBandwidthSampler w =
     \<lparr>totalBytesSent = 0, totalBytesAcked = 0, totalBytesLost = 0, totalBytesNeutered = 0,
      totalBytesSentAtLastAckedPacket = 0, lastAckedPacketSentTime = 0, lastAckedPacketAckTime = 0,
      lastSentPacket = invalidPacketNumber, lastAckedPacket = invalidPacketNumber,
      isAppLimited = False, endOfAppLimitedPhase = invalidPacketNumber,
      connectionStateMap = newPacketNumberIndexedQueue 256, recentPoints = rap_Clear,
      a0Candidates = ring_Init 256 new_ring, heightTracker = newMaxAckHeightTracker w,
      totalBytesAckedAfterLastAckEvent = 0, overestimateAvoidance = False,
      limitMaxAckHeightTrackerBySendRate = False\<rparr>"

definition newConnectionStateOnSentPacket ::
  "int \<Rightarrow> int \<Rightarrow> int \<Rightarrow> bandwidthSampler \<Rightarrow> connState" where
  "newConnectionStateOnSentPacket t n inflight b =
     \<lparr>sentTime = t, cs_size = n,
      cs_totalBytesSentAtLastAckedPacket = totalBytesSentAtLastAckedPacket b,
      cs_lastAckedPacketSentTime = lastAckedPacketSentTime b,
      cs_lastAckedPacketAckTime = lastAckedPacketAckTime b,
      cs_sendTimeState = newSendTimeState (isAppLimited b) (totalBytesSent b) (totalBytesAcked b)
        (totalBytesLost b) inflight\<rparr>"

definition MaxAckHeight :: "bandwidthSampler \<Rightarrow> int" where
  "MaxAckHeight b = mah_Get (heightTracker b)"

definition ResetMaxAckHeightTracker :: "bandwidthSampler \<Rightarrow> int \<Rightarrow> int \<Rightarrow> bandwidthSampler" where
  "ResetMaxAckHeightTracker b newHeight newTime =
     b\<lparr>heightTracker := mah_Reset (heightTracker b) newHeight newTime\<rparr>"

definition SetReduceExtraAckedOnBandwidthIncrease :: "bandwidthSampler \<Rightarrow> bool \<Rightarrow> bandwidthSampler" where
  "SetReduceExtraAckedOnBandwidthIncrease b v =
     b\<lparr>heightTracker := (heightTracker b)\<lparr>reduceExtraAckedOnBandwidthIncrease := v\<rparr>\<rparr>"

definition EnableOverestimateAvoidance :: "bandwidthSampler \<Rightarrow> bandwidthSampler" where
  "EnableOverestimateAvoidance b =
     (if overestimateAvoidance b then b
      else b\<lparr>overestimateAvoidance := True,
             heightTracker := (heightTracker b)\<lparr>ackAggregationBandwidthThreshold := 2\<rparr>\<rparr>)"

text \<open>The block of \<open>OnPacketSent\<close> for a packet sent with nothing in flight.\<close>

definition open_transmission :: "bandwidthSampler \<Rightarrow> int \<Rightarrow> bandwidthSampler option" where
  "open_transmission b t =
     (let b = b\<lparr>lastAckedPacketAckTime := t\<rparr>
      in Option.bind
        (if overestimateAvoidance b then
           (let b = b\<lparr>recentPoints := rap_Update rap_Clear t (totalBytesAcked b)\<rparr>
            in Option.bind
                 (ring_PushBack zeroAckPoint (ring_Clear zeroAckPoint (a0Candidates b))
                    (MostRecentPoint (recentPoints b)))
                 (\<lambda>r. Some (b\<lparr>a0Candidates := r\<rparr>)))
         else Some b)
        (\<lambda>b. Some (b\<lparr>totalBytesSentAtLastAckedPacket := totalBytesSent b,
                     lastAckedPacketSentTime := t\<rparr>)))"

definition sampler_OnPacketSent ::
  "bandwidthSampler \<Rightarrow> int \<Rightarrow> int \<Rightarrow> int \<Rightarrow> int \<Rightarrow> bool \<Rightarrow> bandwidthSampler option" where
  "sampler_OnPacketSent b t packetNumber n bytesInFlight isRetransmittable =
     (let b = b\<lparr>lastSentPacket := packetNumber\<rparr>
      in if \<not> isRetransmittable then Some b
         else
           (let b = b\<lparr>totalBytesSent := i64 (totalBytesSent b + n)\<rparr>
            in Option.bind
              (if bytesInFlight = 0 then open_transmission b t else Some b)
              (\<lambda>b. Option.bind
                (pnq_Emplace zeroConnState (connectionStateMap b) packetNumber
                   (Some (newConnectionStateOnSentPacket t n (i64 (bytesInFlight + n)) b)))
                (\<lambda>(_, q). Some (b\<lparr>connectionStateMap := q\<rparr>)))))"

definition sampler_OnPacketLost ::
  "bandwidthSampler \<Rightarrow> int \<Rightarrow> int \<Rightarrow> bandwidthSampler \<times> sendTimeState" where
  "sampler_OnPacketLost b packetNumber bytesLost =
     (b\<lparr>totalBytesLost := i64 (totalBytesLost b + bytesLost)\<rparr>,
      (case pnq_GetEntry (connectionStateMap b) packetNumber of
         None \<Rightarrow> zeroSendTimeState
       | Some cs \<Rightarrow> (cs_sendTimeState cs)\<lparr>isValid := True\<rparr>))"

definition OnPacketNeutered :: "bandwidthSampler \<Rightarrow> int \<Rightarrow> bandwidthSampler option" where
  "OnPacketNeutered b packetNumber =
     (case pnq_Remove zeroConnState (connectionStateMap b) packetNumber of
        None \<Rightarrow> None
      | Some (None, q) \<Rightarrow> Some (b\<lparr>connectionStateMap := q\<rparr>)
      | Some (Some cs, q) \<Rightarrow>
          Some (b\<lparr>connectionStateMap := q, totalBytesNeutered := i64 (totalBytesNeutered b + cs_size cs)\<rparr>))"

definition OnAppLimited :: "bandwidthSampler \<Rightarrow> bandwidthSampler" where
  "OnAppLimited b = b\<lparr>isAppLimited := True, endOfAppLimitedPhase := lastSentPacket b\<rparr>"

definition RemoveObsoletePackets :: "bandwidthSampler \<Rightarrow> int \<Rightarrow> bandwidthSampler option" where
  "RemoveObsoletePackets b leastUnacked =
     (case pnq_RemoveUpTo zeroConnState (connectionStateMap b) leastUnacked of
        None \<Rightarrow> None | Some q \<Rightarrow> Some (b\<lparr>connectionStateMap := q\<rparr>))"


section \<open>Choosing the A0 point\<close>

text \<open>The scan of \<open>chooseA0Point\<close> over the indices \<open>1, 2, ...\<close>: the first candidate beyond \<open>tot\<close>.\<close>

fun a0_scan :: "ackPoint ringbuf \<Rightarrow> int \<Rightarrow> nat list \<Rightarrow> nat option" where
  "a0_scan r tot [] = None"
| "a0_scan r tot (i # is) =
     (case ring_Offset r i of
        None \<Rightarrow> None
      | Some p \<Rightarrow> if ap_totalBytesAcked p > tot then Some i else a0_scan r tot is)"

fun pop_n :: "nat \<Rightarrow> ackPoint ringbuf \<Rightarrow> ackPoint ringbuf option" where
  "pop_n 0 r = Some r"
| "pop_n (Suc n) r = (case ring_PopFront zeroAckPoint r of None \<Rightarrow> None | Some (_, r) \<Rightarrow> pop_n n r)"

text \<open>The last loop, \<open>for k := 0; k < Len()-1; k++ { PopFront() }\<close>, which evaluates \<open>Len()\<close> each time.\<close>

partial_function (option) pop_shrinking :: "nat \<Rightarrow> ackPoint ringbuf \<Rightarrow> ackPoint ringbuf option" where
  "pop_shrinking k r =
     (if k < ring_Len r - 1
      then Option.bind (ring_PopFront zeroAckPoint r) (\<lambda>p. pop_shrinking (Suc k) (snd p))
      else Some r)"

text \<open>\<open>Some (None, r)\<close> when there is no candidate, \<open>Some (Some a0, r)\<close> when \<open>a0\<close> was chosen.\<close>

definition chooseA0Point :: "ackPoint ringbuf \<Rightarrow> int \<Rightarrow> (ackPoint option \<times> ackPoint ringbuf) option" where
  "chooseA0Point r tot =
     (if ring_Empty r then Some (None, r)
      else if ring_Len r = 1 then
        (case ring_Front r of None \<Rightarrow> None | Some a0 \<Rightarrow> Some (Some a0, r))
      else
        (case a0_scan r tot [1..<ring_Len r] of
           Some i \<Rightarrow>
             (case ring_Offset r (i - 1) of
                None \<Rightarrow> None
              | Some a0 \<Rightarrow> map_option (\<lambda>r. (Some a0, r)) (if i > 1 then pop_n (i - 1) r else Some r))
         | None \<Rightarrow>
             (case ring_Back r of
                None \<Rightarrow> None
              | Some a0 \<Rightarrow> map_option (\<lambda>r. (Some a0, r)) (pop_shrinking 0 r))))"

section \<open>Acknowledgements\<close>

text \<open>\<open>leave_app_limited\<close>: the exit from the app-limited phase in \<open>onPacketAcknowledged\<close>.\<close>

definition leave_app_limited :: "bandwidthSampler \<Rightarrow> int \<Rightarrow> bandwidthSampler" where
  "leave_app_limited b packetNumber =
     (if isAppLimited b \<and> (endOfAppLimitedPhase b = invalidPacketNumber \<or>
         packetNumber > endOfAppLimitedPhase b)
      then b\<lparr>isAppLimited := False\<rparr> else b)"

text \<open>The bookkeeping of an acknowledged packet, up to the early return without a sample.\<close>

definition ack_bookkeeping :: "bandwidthSampler \<Rightarrow> int \<Rightarrow> int \<Rightarrow> connState \<Rightarrow> bandwidthSampler" where
  "ack_bookkeeping b t packetNumber sent =
     (let b = b\<lparr>totalBytesAcked := i64 (totalBytesAcked b + cs_size sent),
                totalBytesSentAtLastAckedPacket := sts_totalBytesSent (cs_sendTimeState sent),
                lastAckedPacketSentTime := sentTime sent,
                lastAckedPacketAckTime := t\<rparr>;
          b = (if overestimateAvoidance b
               then b\<lparr>recentPoints := rap_Update (recentPoints b) t (totalBytesAcked b)\<rparr> else b)
      in leave_app_limited b packetNumber)"

definition send_rate :: "connState \<Rightarrow> int option" where
  "send_rate sent =
     (if sentTime sent > cs_lastAckedPacketSentTime sent
      then BandwidthFromDelta
             (i64 (sts_totalBytesSent (cs_sendTimeState sent) - cs_totalBytesSentAtLastAckedPacket sent))
             (i64 (sentTime sent - cs_lastAckedPacketSentTime sent))
      else Some infBandwidth)"

definition a0_point :: "bandwidthSampler \<Rightarrow> connState \<Rightarrow> (ackPoint \<times> ackPoint ringbuf) option" where
  "a0_point b sent =
     (let dflt = \<lparr>ackTime = cs_lastAckedPacketAckTime sent,
                  ap_totalBytesAcked = sts_totalBytesAcked (cs_sendTimeState sent)\<rparr>
      in if overestimateAvoidance b then
           (case chooseA0Point (a0Candidates b) (sts_totalBytesAcked (cs_sendTimeState sent)) of
              None \<Rightarrow> None
            | Some (None, r) \<Rightarrow> Some (dflt, r)
            | Some (Some a0, r) \<Rightarrow> Some (a0, r))
         else Some (dflt, a0Candidates b))"

definition rate_sample ::
  "bandwidthSampler \<Rightarrow> int \<Rightarrow> connState \<Rightarrow> (bandwidthSampler \<times> bandwidthSample) option" where
  "rate_sample b t sent =
     (case send_rate sent of
        None \<Rightarrow> None
      | Some sendRate \<Rightarrow>
          (case a0_point b sent of
             None \<Rightarrow> None
           | Some (a0, r) \<Rightarrow>
               (let b = b\<lparr>a0Candidates := r\<rparr>
                in if i64 (t - ackTime a0) \<le> 0 then Some (b, newBandwidthSample)
                   else
                     (case BandwidthFromDelta (i64 (totalBytesAcked b - ap_totalBytesAcked a0))
                             (i64 (t - ackTime a0)) of
                        None \<Rightarrow> None
                      | Some ackRate \<Rightarrow>
                          Some (b, \<lparr>bs_bandwidth = min sendRate ackRate,
                                    bs_rtt = i64 (t - sentTime sent),
                                    bs_sendRate = sendRate,
                                    bs_stateAtSend = (cs_sendTimeState sent)\<lparr>isValid := True\<rparr>\<rparr>)))))"

definition onPacketAcknowledged ::
  "bandwidthSampler \<Rightarrow> int \<Rightarrow> int \<Rightarrow> (bandwidthSampler \<times> bandwidthSample) option" where
  "onPacketAcknowledged b t packetNumber =
     (let b = b\<lparr>lastAckedPacket := packetNumber\<rparr>
      in case pnq_GetEntry (connectionStateMap b) packetNumber of
           None \<Rightarrow> Some (b, newBandwidthSample)
         | Some sent \<Rightarrow>
             (let b = ack_bookkeeping b t packetNumber sent
              in if cs_lastAckedPacketSentTime sent = 0 then Some (b, newBandwidthSample)
                 else rate_sample b t sent))"

definition onAckEventEnd ::
  "bandwidthSampler \<Rightarrow> int \<Rightarrow> bool \<Rightarrow> int \<Rightarrow> (bandwidthSampler \<times> int) option" where
  "onAckEventEnd b bandwidthEstimate isNewMaxBandwidth roundTripCount =
     (let newlyAckedBytes = i64 (totalBytesAcked b - totalBytesAckedAfterLastAckEvent b)
      in if newlyAckedBytes = 0 then Some (b, 0)
         else
           (let b = b\<lparr>totalBytesAckedAfterLastAckEvent := totalBytesAcked b\<rparr>;
                (m, extra) = mah_Update (heightTracker b) bandwidthEstimate isNewMaxBandwidth
                  roundTripCount (lastSentPacket b) (lastAckedPacket b) (lastAckedPacketAckTime b)
                  newlyAckedBytes;
                b = b\<lparr>heightTracker := m\<rparr>
            in if overestimateAvoidance b \<and> extra = 0 then
                 (case ring_PushBack zeroAckPoint (a0Candidates b) (LessRecentPoint (recentPoints b)) of
                    None \<Rightarrow> None
                  | Some r \<Rightarrow> Some (b\<lparr>a0Candidates := r\<rparr>, extra))
               else Some (b, extra)))"

record congestionEventSample =
  sampleMaxBandwidth :: int
  sampleIsAppLimited :: bool
  sampleRtt :: int
  sampleMaxInflight :: int
  lastPacketSendState :: sendTimeState
  ces_extraAcked :: int

definition newCongestionEventSample :: congestionEventSample where
  "newCongestionEventSample = \<lparr>sampleMaxBandwidth = 0, sampleIsAppLimited = False, sampleRtt = infRTT,
     sampleMaxInflight = 0, lastPacketSendState = zeroSendTimeState, ces_extraAcked = 0\<rparr>"

text \<open>Packets of an event: their numbers and byte counts.\<close>

type_synonym packet_info = "int \<times> int"

fun lost_loop ::
  "bandwidthSampler \<Rightarrow> packet_info list \<Rightarrow> sendTimeState \<Rightarrow> bandwidthSampler \<times> sendTimeState" where
  "lost_loop b [] s = (b, s)"
| "lost_loop b ((pn, n) # ps) s =
     (let (b, sendState) = sampler_OnPacketLost b pn n
      in lost_loop b ps (if isValid sendState then sendState else s))"

text \<open>The second loop of \<open>OnCongestionEvent\<close>, over the acknowledged packets.\<close>

fun acked_loop ::
  "bandwidthSampler \<Rightarrow> int \<Rightarrow> packet_info list \<Rightarrow> congestionEventSample \<Rightarrow> sendTimeState \<Rightarrow> int
     \<Rightarrow> (bandwidthSampler \<times> congestionEventSample \<times> sendTimeState \<times> int) option" where
  "acked_loop b t [] es st maxSendRate = Some (b, es, st, maxSendRate)"
| "acked_loop b t ((pn, n) # ps) es st maxSendRate =
     (case onPacketAcknowledged b t pn of
        None \<Rightarrow> None
      | Some (b, sample) \<Rightarrow>
          if \<not> isValid (bs_stateAtSend sample) then acked_loop b t ps es st maxSendRate
          else
            (let st = bs_stateAtSend sample;
                 es = (if bs_rtt sample \<noteq> 0
                       then es\<lparr>sampleRtt := min (sampleRtt es) (bs_rtt sample)\<rparr> else es);
                 es = (if bs_bandwidth sample > sampleMaxBandwidth es
                       then es\<lparr>sampleMaxBandwidth := bs_bandwidth sample,
                              sampleIsAppLimited := sts_isAppLimited (bs_stateAtSend sample)\<rparr>
                       else es);
                 maxSendRate = (if bs_sendRate sample \<noteq> infBandwidth
                                then max maxSendRate (bs_sendRate sample) else maxSendRate);
                 inflightSample = i64 (totalBytesAcked b - sts_totalBytesAcked st);
                 es = (if inflightSample > sampleMaxInflight es
                       then es\<lparr>sampleMaxInflight := inflightSample\<rparr> else es)
             in acked_loop b t ps es st maxSendRate))"

definition sampler_OnCongestionEvent ::
  "bandwidthSampler \<Rightarrow> int \<Rightarrow> packet_info list \<Rightarrow> packet_info list \<Rightarrow> int \<Rightarrow> int \<Rightarrow> int
     \<Rightarrow> (bandwidthSampler \<times> congestionEventSample) option" where
  "sampler_OnCongestionEvent b t ackedPackets lostPackets maxBandwidth estBandwidthUpperBound roundTripCount =
     (let (b, lastLost) = lost_loop b lostPackets zeroSendTimeState
      in if ackedPackets = [] then Some (b, newCongestionEventSample\<lparr>lastPacketSendState := lastLost\<rparr>)
         else
           (case acked_loop b t ackedPackets newCongestionEventSample zeroSendTimeState 0 of
              None \<Rightarrow> None
            | Some (b, es, lastAcked, maxSendRate) \<Rightarrow>
                Option.bind
                  (if \<not> isValid lastLost then Some lastAcked
                   else if \<not> isValid lastAcked then Some lastLost
                   else if lostPackets = [] then None
                   else Some (if fst (last lostPackets) > fst (last ackedPackets) then lastLost else lastAcked))
                  (\<lambda>sendState.
                    (let es = es\<lparr>lastPacketSendState := sendState\<rparr>;
                         isNewMaxBandwidth = sampleMaxBandwidth es > maxBandwidth;
                         maxBandwidth = max maxBandwidth (sampleMaxBandwidth es);
                         maxBandwidth = (if limitMaxAckHeightTrackerBySendRate b
                                         then max maxBandwidth maxSendRate else maxBandwidth)
                     in Option.bind
                          (onAckEventEnd b (min estBandwidthUpperBound maxBandwidth) isNewMaxBandwidth
                             roundTripCount)
                          (\<lambda>(b, extra). Some (b, es\<lparr>ces_extraAcked := extra\<rparr>))))))"

section \<open>The sampler never panics\<close>

interpretation ack_filter: filter_order maxExtraAckedEventFunc extraAcked
  by unfold_locales (simp_all add: maxExtraAckedEventFunc_def)

definition sampler_inv :: "bandwidthSampler \<Rightarrow> bool" where
  "sampler_inv b \<longleftrightarrow> pnq_inv (connectionStateMap b) \<and> ring_inv (a0Candidates b)"

definition pn_ok :: "int \<Rightarrow> bool" where
  "pn_ok pn \<longleftrightarrow> 0 \<le> pn \<and> pn < 2 ^ 62"

lemma sampler_inv_new: "sampler_inv (newBandwidthSampler w)"
  by (simp add: sampler_inv_def newBandwidthSampler_def newPacketNumberIndexedQueue_def pnq_inv_def
      pnq_pre_def ring_inv_Init invalidPacketNumber_def)

text \<open>What \<open>chooseA0Point\<close> computes on the list of candidates.\<close>

definition a0_spec :: "ackPoint list \<Rightarrow> int \<Rightarrow> ackPoint option \<times> ackPoint list" where
  "a0_spec xs tot =
     (case xs of
        [] \<Rightarrow> (None, [])
      | x # ys \<Rightarrow>
          (let passed = takeWhile (\<lambda>p. ap_totalBytesAcked p \<le> tot) ys
           in (Some (last (x # passed)),
               if ys = [] then xs
               else if passed = ys then drop (length xs div 2) xs
               else drop (length passed) xs)))"

lemma a0_scan_spec:
  assumes inv: "ring_inv r"
  shows "i \<le> length (ring_abs r) \<Longrightarrow> a0_scan r tot [i..<length (ring_abs r)] =
    (let m = i + length (takeWhile (\<lambda>p. ap_totalBytesAcked p \<le> tot) (drop i (ring_abs r)))
     in if m < length (ring_abs r) then Some m else None)"
proof (induction "length (ring_abs r) - i" arbitrary: i)
  case 0
  then show ?case by simp
next
  case (Suc n)
  then have i: "i < length (ring_abs r)" by simp
  have u: "[i..<length (ring_abs r)] = i # [Suc i..<length (ring_abs r)]" using i by (rule upt_conv_Cons)
  have d: "drop i (ring_abs r) = ring_abs r ! i # drop (Suc i) (ring_abs r)"
    using i by (rule Cons_nth_drop_Suc [symmetric])
  have ih: "a0_scan r tot [Suc i..<length (ring_abs r)] =
    (let m = Suc i + length (takeWhile (\<lambda>p. ap_totalBytesAcked p \<le> tot) (drop (Suc i) (ring_abs r)))
     in if m < length (ring_abs r) then Some m else None)"
    using Suc by (intro Suc.hyps(1)) simp_all
  show ?case
    unfolding u d using ih i by (simp add: ring_Offset_ok [OF inv] del: length_ring_abs)
qed

lemma pop_n_ok:
  "ring_inv r \<Longrightarrow> n \<le> length (ring_abs r) \<Longrightarrow>
   \<exists>r'. pop_n n r = Some r' \<and> ring_inv r' \<and> ring_abs r' = drop n (ring_abs r)"
proof (induction n arbitrary: r)
  case (Suc n)
  then obtain x xs where c: "ring_abs r = x # xs" by (cases "ring_abs r") auto
  obtain r1 where r1: "ring_PopFront zeroAckPoint r = Some (x, r1)" "ring_inv r1" "ring_abs r1 = xs"
    using rb.pop_law [OF Suc.prems(1) c] by blast
  have "n \<le> length (ring_abs r1)" using Suc.prems(2) c r1(3) by (simp flip: length_ring_abs)
  from Suc.IH [OF r1(2) this] r1 c show ?case by simp
qed simp

lemma pop_shrinking_ok:
  assumes "ring_inv r"
  shows "\<exists>r'. pop_shrinking k r = Some r' \<and> ring_inv r' \<and>
    ring_abs r' = drop ((length (ring_abs r) - k) div 2) (ring_abs r)"
  using assms
proof (induction "length (ring_abs r)" arbitrary: r k rule: less_induct)
  case less
  show ?case
  proof (cases "k < ring_Len r - 1")
    case False
    then have "(length (ring_abs r) - k) div 2 = 0" by simp
    moreover have "pop_shrinking k r = Some r" using False by (subst pop_shrinking.simps) simp
    ultimately show ?thesis using less.prems by simp
  next
    case True
    then obtain x xs where c: "ring_abs r = x # xs" by (cases "ring_abs r") (auto simp flip: length_ring_abs)
    obtain r1 where r1: "ring_PopFront zeroAckPoint r = Some (x, r1)" "ring_inv r1" "ring_abs r1 = xs"
      using rb.pop_law [OF less.prems c] by blast
    have step: "pop_shrinking k r = pop_shrinking (Suc k) r1"
      using True r1(1) by (subst pop_shrinking.simps) simp
    have l: "length (ring_abs r1) < length (ring_abs r)" by (simp only: c r1(3)) simp
    from less.hyps [OF l r1(2), of "Suc k"] obtain r' where
      r': "pop_shrinking (Suc k) r1 = Some r'" "ring_inv r'"
        "ring_abs r' = drop ((length xs - Suc k) div 2) xs" by (auto simp: r1(3))
    have k: "Suc k < length (x # xs)" using True by (metis c length_ring_abs less_diff_conv plus_1_eq_Suc add.commute)
    then have "(length (x # xs) - k) div 2 = Suc ((length xs - Suc k) div 2)"
      by (cases "length xs - Suc k") auto
    then show ?thesis using step r' by (intro exI [of _ r']) (simp only: c drop_Suc_Cons simp_thms)
  qed
qed

lemma chooseA0Point_ok:
  assumes inv: "ring_inv r"
  shows "\<exists>r'. chooseA0Point r tot = Some (fst (a0_spec (ring_abs r) tot), r') \<and> ring_inv r' \<and>
    ring_abs r' = snd (a0_spec (ring_abs r) tot)"
proof (cases "ring_abs r")
  case Nil
  then show ?thesis using inv ring_Empty_abs [OF inv] by (simp add: chooseA0Point_def a0_spec_def)
next
  case (Cons x ys)
  have ne: "\<not> ring_Empty r" using ring_Empty_abs [OF inv] Cons by simp
  have len: "ring_Len r = Suc (length ys)" using Cons by (metis length_Cons length_ring_abs)
  show ?thesis
  proof (cases "ys = []")
    case True
    then show ?thesis using ne len inv Cons ring_Front_ok [OF inv]
      by (simp add: chooseA0Point_def a0_spec_def)
  next
    case False
    let ?P = "\<lambda>p. ap_totalBytesAcked p \<le> tot"
    let ?m = "length (takeWhile ?P ys)"
    have scan: "a0_scan r tot [1..<ring_Len r] = (if ?m < length ys then Some (Suc ?m) else None)"
      using a0_scan_spec [OF inv, of 1 tot] by (simp add: len Cons Let_def)
    show ?thesis
    proof (cases "?m < length ys")
      case True
      have off: "ring_Offset r ?m = Some (last (x # takeWhile ?P ys))"
      proof -
        have "ring_Offset r ?m = Some ((x # ys) ! ?m)"
          using True by (simp add: ring_Offset_ok [OF inv] Cons len)
        moreover have "(x # ys) ! ?m = last (x # takeWhile ?P ys)"
        proof (cases "takeWhile ?P ys" rule: rev_cases)
          case (snoc zs z)
          then have "ys ! length zs = z"
            using takeWhile_nth [of "length zs" ?P ys] by simp
          with snoc show ?thesis by simp
        qed simp
        ultimately show ?thesis by simp
      qed
      obtain r' where r': "pop_n ?m r = Some r'" "ring_inv r'" "ring_abs r' = drop ?m (x # ys)"
        using pop_n_ok [OF inv, of ?m] True Cons len by auto
      have "takeWhile ?P ys \<noteq> ys" using True by (metis less_irrefl)
      moreover have "chooseA0Point r tot =
          map_option (\<lambda>r. (Some (last (x # takeWhile ?P ys)), r)) (pop_n ?m r)"
        unfolding chooseA0Point_def scan using ne False True len off by (cases "?m = 0") auto
      moreover have "a0_spec (x # ys) tot = (Some (last (x # takeWhile ?P ys)), drop ?m (x # ys))"
        unfolding a0_spec_def Let_def list.case using False calculation(1) by (simp only: if_False)
      ultimately show ?thesis using r' Cons by simp
    next
      case m: False
      then have all: "takeWhile ?P ys = ys" by (metis length_takeWhile_le takeWhile_eq_take take_all not_less)
      obtain r' where "pop_shrinking 0 r = Some r'" "ring_inv r'"
        "ring_abs r' = drop (length (x # ys) div 2) (x # ys)"
        using pop_shrinking_ok [OF inv, of 0] Cons by auto
      moreover have "chooseA0Point r tot = map_option (\<lambda>r. (Some (last (x # ys)), r)) (pop_shrinking 0 r)"
        unfolding chooseA0Point_def scan using ne False m len ring_Back_ok [OF inv] Cons by simp
      moreover have "a0_spec (x # ys) tot = (Some (last (x # ys)), drop (length (x # ys) div 2) (x # ys))"
        unfolding a0_spec_def Let_def list.case all using False by (simp only: if_False simp_thms if_True)
      ultimately show ?thesis using Cons by simp
    qed
  qed
qed


lemma u64_diff_nonzero:
  assumes "in_i64 a" "in_i64 b" "a \<noteq> b"
  shows "u64 (i64 (a - b)) \<noteq> 0"
proof
  assume z: "u64 (i64 (a - b)) = 0"
  have "i64 (a - b) mod 2 ^ 64 = (a - b) mod 2 ^ 64" by (simp add: i64_def mod_diff_left_eq)
  with z have "(a - b) mod 2 ^ 64 = 0" by (simp add: u64_def)
  then have "2 ^ 64 dvd a - b" by presburger
  then have "2 ^ 64 \<le> \<bar>a - b\<bar>" using assms(3) 
    using dvd_imp_le_int [of "a - b" "2 ^ 64"] by simp
  then show False using assms(1,2) by (auto simp: in_i64_def)
qed

lemma u64_pos_nonzero: "0 < i64 x \<Longrightarrow> u64 (i64 x) \<noteq> 0"
  using in_i64_i64 [of x] by (simp add: u64_def in_i64_def)

lemma BandwidthFromDelta_total: "u64 d \<noteq> 0 \<Longrightarrow> \<exists>x. BandwidthFromDelta n d = Some x \<and> 0 \<le> x"
  by (simp add: BandwidthFromDelta_def u64_bounds)

text \<open>The times recorded for packets are \<open>int64\<close>.\<close>

definition times_ok :: "bandwidthSampler \<Rightarrow> bool" where
  "times_ok b \<longleftrightarrow> in_i64 (lastAckedPacketSentTime b) \<and>
     (\<forall>pn cs. pnq_map (connectionStateMap b) pn = Some cs \<longrightarrow>
        in_i64 (sentTime cs) \<and> in_i64 (cs_lastAckedPacketSentTime cs))"

definition sampler_ok :: "bandwidthSampler \<Rightarrow> bool" where
  "sampler_ok b \<longleftrightarrow> sampler_inv b \<and> times_ok b"

lemma sampler_ok_cong:
  "sampler_ok b \<Longrightarrow> connectionStateMap b' = connectionStateMap b \<Longrightarrow> ring_inv (a0Candidates b') \<Longrightarrow>
   in_i64 (lastAckedPacketSentTime b') \<Longrightarrow> sampler_ok b'"
  by (simp add: sampler_ok_def sampler_inv_def times_ok_def)

lemma sampler_okD:
  "sampler_ok b \<Longrightarrow> pnq_inv (connectionStateMap b) \<and> ring_inv (a0Candidates b) \<and>
     in_i64 (lastAckedPacketSentTime b)"
  by (simp add: sampler_ok_def sampler_inv_def times_ok_def)

lemma send_rate_ok:
  assumes "in_i64 (sentTime sent)" "in_i64 (cs_lastAckedPacketSentTime sent)"
  shows "\<exists>x. send_rate sent = Some x \<and> 0 \<le> x"
  using BandwidthFromDelta_total [OF u64_diff_nonzero [OF assms]]
  by (cases "sentTime sent > cs_lastAckedPacketSentTime sent") (auto simp: send_rate_def infBandwidth_def)

lemma a0_point_ok:
  assumes "ring_inv (a0Candidates b)"
  shows "\<exists>p r. a0_point b sent = Some (p, r) \<and> ring_inv r"
  using chooseA0Point_ok [OF assms, of "sts_totalBytesAcked (cs_sendTimeState sent)"] assms
  by (auto simp: a0_point_def Let_def split: option.splits)

lemma invalid_sample [simp]:
  "\<not> isValid (bs_stateAtSend newBandwidthSample)" "bs_bandwidth newBandwidthSample = 0"
  by (simp_all add: newBandwidthSample_def zeroSendTimeState_def)

text \<open>What holds of every sample: its bandwidth is bounded by the send rate and never negative.\<close>

definition sample_ok :: "bandwidthSample \<Rightarrow> bool" where
  "sample_ok s \<longleftrightarrow> 0 \<le> bs_bandwidth s \<and> (isValid (bs_stateAtSend s) \<longrightarrow> bs_bandwidth s \<le> bs_sendRate s)"

lemma rate_sample_ok:
  assumes ok: "sampler_ok b" and tm: "in_i64 (sentTime sent)" "in_i64 (cs_lastAckedPacketSentTime sent)"
  shows "\<exists>b' s. rate_sample b t sent = Some (b', s) \<and> sampler_ok b' \<and> sample_ok s"
proof -
  note d = sampler_okD [OF ok]
  obtain x where x: "send_rate sent = Some x" "0 \<le> x" using send_rate_ok [OF tm] by blast
  obtain p r where p: "a0_point b sent = Some (p, r)" "ring_inv r" using a0_point_ok d by blast
  have ok': "sampler_ok (b\<lparr>a0Candidates := r\<rparr>)"
    using d p(2) by (intro sampler_ok_cong [OF ok]) simp_all
  show ?thesis
  proof (cases "i64 (t - ackTime p) \<le> 0")
    case True
    then show ?thesis using x p ok' by (simp add: rate_sample_def sample_ok_def)
  next
    case False
    then obtain y where "BandwidthFromDelta (i64 (totalBytesAcked b - ap_totalBytesAcked p)) (i64 (t - ackTime p)) = Some y" "0 \<le> y"
      using BandwidthFromDelta_total [OF u64_pos_nonzero [of "t - ackTime p"]] by auto
    then show ?thesis using x p ok' False by (simp add: rate_sample_def sample_ok_def)
  qed
qed

lemma ack_bookkeeping_fields:
  "connectionStateMap (ack_bookkeeping b t pn sent) = connectionStateMap b"
  "a0Candidates (ack_bookkeeping b t pn sent) = a0Candidates b"
  "lastAckedPacketSentTime (ack_bookkeeping b t pn sent) = sentTime sent"
  "totalBytesAcked (ack_bookkeeping b t pn sent) = i64 (totalBytesAcked b + cs_size sent)"
  by (simp_all add: ack_bookkeeping_def leave_app_limited_def Let_def)

lemma onPacketAcknowledged_ok:
  assumes ok: "sampler_ok b" and pn: "pn_ok pn"
  shows "\<exists>b' s. onPacketAcknowledged b t pn = Some (b', s) \<and> sampler_ok b' \<and> sample_ok s"
proof -
  note d = sampler_okD [OF ok]
  let ?b = "b\<lparr>lastAckedPacket := pn\<rparr>"
  have g: "pnq_GetEntry (connectionStateMap b) pn = pnq_map (connectionStateMap b) pn"
    using pnq_GetEntry_ok [of "connectionStateMap b" pn] d pn by (simp add: pn_ok_def)
  show ?thesis
  proof (cases "pnq_map (connectionStateMap b) pn")
    case None
    have "sampler_ok ?b" using d by (intro sampler_ok_cong [OF ok]) auto
    with None g show ?thesis by (simp add: onPacketAcknowledged_def sample_ok_def)
  next
    case (Some sent)
    have tm: "in_i64 (sentTime sent)" "in_i64 (cs_lastAckedPacketSentTime sent)"
      using ok Some by (auto simp: sampler_ok_def times_ok_def)
    have ok': "sampler_ok (ack_bookkeeping ?b t pn sent)"
      using d tm by (intro sampler_ok_cong [OF ok]) (simp_all add: ack_bookkeeping_fields)
    show ?thesis
      using rate_sample_ok [OF ok' tm, of t] ok' Some g
      by (cases "cs_lastAckedPacketSentTime sent = 0") (simp_all add: onPacketAcknowledged_def sample_ok_def)
  qed
qed


lemma open_transmission_ok:
  assumes "ring_inv (a0Candidates b)"
  shows "\<exists>b'. open_transmission b t = Some b' \<and> ring_inv (a0Candidates b') \<and>
    connectionStateMap b' = connectionStateMap b \<and> lastAckedPacketSentTime b' = t \<and>
    isAppLimited b' = isAppLimited b \<and> endOfAppLimitedPhase b' = endOfAppLimitedPhase b"
proof -
  have "\<exists>r'. ring_PushBack zeroAckPoint (ring_Clear zeroAckPoint (a0Candidates b)) x = Some r' \<and> ring_inv r'" for x
    using ring_PushBack_ok [OF ring_Clear_ok(1), of zeroAckPoint zeroAckPoint "a0Candidates b" x] by blast
  then obtain r' where "ring_PushBack zeroAckPoint (ring_Clear zeroAckPoint (a0Candidates b))
      (MostRecentPoint (rap_Update rap_Clear t (totalBytesAcked b))) = Some r'" "ring_inv r'" by blast
  then show ?thesis using assms by (simp add: open_transmission_def Let_def)
qed

lemma sampler_OnPacketSent_ok:
  assumes ok: "sampler_ok b" and pn: "pn_ok pn" and t: "in_i64 t"
  shows "\<exists>b'. sampler_OnPacketSent b t pn n inflight r = Some b' \<and> sampler_ok b' \<and>
    isAppLimited b' = isAppLimited b \<and> endOfAppLimitedPhase b' = endOfAppLimitedPhase b \<and>
    (\<forall>k cs. pnq_map (connectionStateMap b') k = Some cs \<longrightarrow>
       pnq_map (connectionStateMap b) k = Some cs \<or>
       (k = pn \<and> sentTime cs = t \<and> sts_isAppLimited (cs_sendTimeState cs) = isAppLimited b))"
proof (cases r)
  case False
  then show ?thesis using sampler_okD [OF ok]
    by (auto simp: sampler_OnPacketSent_def intro!: sampler_ok_cong [OF ok])
next
  case True
  let ?b = "b\<lparr>lastSentPacket := pn, totalBytesSent := i64 (totalBytesSent b + n)\<rparr>"
  note d = sampler_okD [OF ok]
  have "\<exists>b1. (if inflight = 0 then open_transmission ?b t else Some ?b) = Some b1 \<and>
      ring_inv (a0Candidates b1) \<and> connectionStateMap b1 = connectionStateMap b \<and>
      in_i64 (lastAckedPacketSentTime b1) \<and>
      isAppLimited b1 = isAppLimited b \<and> endOfAppLimitedPhase b1 = endOfAppLimitedPhase b"
    using open_transmission_ok [of ?b t] d t by (cases "inflight = 0") auto
  then obtain b1 where b1: "(if inflight = 0 then open_transmission ?b t else Some ?b) = Some b1"
      "ring_inv (a0Candidates b1)" "connectionStateMap b1 = connectionStateMap b"
      "in_i64 (lastAckedPacketSentTime b1)"
      "isAppLimited b1 = isAppLimited b" "endOfAppLimitedPhase b1 = endOfAppLimitedPhase b" by blast
  let ?cs = "newConnectionStateOnSentPacket t n (i64 (inflight + n)) b1"
  obtain p q' where q': "pnq_Emplace zeroConnState (connectionStateMap b) pn (Some ?cs) = Some (p, q')"
    "pnq_inv q'" "pnq_map q' = (pnq_map (connectionStateMap b))(pn \<mapsto> ?cs) \<or> q' = connectionStateMap b"
    using pnq_Emplace_ok [of "connectionStateMap b" pn zeroConnState ?cs] d pn
    unfolding pn_ok_def by (metis (no_types, lifting))
  have run: "sampler_OnPacketSent b t pn n inflight r = Some (b1\<lparr>connectionStateMap := q'\<rparr>)"
    using True b1 q'(1) by (cases "inflight = 0") (simp_all add: sampler_OnPacketSent_def)
  have cs: "sentTime ?cs = t" "cs_lastAckedPacketSentTime ?cs = lastAckedPacketSentTime b1"
    "sts_isAppLimited (cs_sendTimeState ?cs) = isAppLimited b"
    by (simp_all add: newConnectionStateOnSentPacket_def newSendTimeState_def b1(5))
  have m: "pnq_map q' k = Some x \<Longrightarrow> pnq_map (connectionStateMap b) k = Some x \<or> k = pn \<and> x = ?cs" for k x
    using q'(3) by (auto split: if_splits)
  have "sampler_ok (b1\<lparr>connectionStateMap := q'\<rparr>)"
    using ok b1(2,4) q'(2) m cs t
    by (fastforce simp: sampler_ok_def sampler_inv_def times_ok_def)
  then show ?thesis using run m cs b1(5,6) by (intro exI [of _ "b1\<lparr>connectionStateMap := q'\<rparr>"]) auto
qed

lemma OnPacketLost_fields:
  assumes "sampler_OnPacketLost b pn n = (b', s)"
  shows "connectionStateMap b' = connectionStateMap b" "a0Candidates b' = a0Candidates b"
    "lastAckedPacketSentTime b' = lastAckedPacketSentTime b" "isAppLimited b' = isAppLimited b"
    "endOfAppLimitedPhase b' = endOfAppLimitedPhase b" "totalBytesAcked b' = totalBytesAcked b"
  using assms by (auto simp: sampler_OnPacketLost_def)

lemma lost_loop_ok:
  assumes "lost_loop b ps s = (b', s')" "sampler_ok b"
  shows "sampler_ok b' \<and> connectionStateMap b' = connectionStateMap b \<and>
    isAppLimited b' = isAppLimited b \<and> endOfAppLimitedPhase b' = endOfAppLimitedPhase b \<and>
    totalBytesAcked b' = totalBytesAcked b \<and> (ps = [] \<longrightarrow> s' = s)"
  using assms
proof (induction b ps s rule: lost_loop.induct)
  case (2 b pn n ps s)
  obtain b1 s1 where 1: "sampler_OnPacketLost b pn n = (b1, s1)" by fastforce
  note f = OnPacketLost_fields [OF 1]
  have "sampler_ok b1" using sampler_okD [OF 2(3)] f by (intro sampler_ok_cong [OF 2(3)]) simp_all
  with 2(1) [OF 1 [symmetric] refl] 2(2) 1 f show ?case by simp
qed simp

lemma rate_sample_fields:
  assumes "rate_sample b t sent = Some (b', s)"
  shows "isAppLimited b' = isAppLimited b" "endOfAppLimitedPhase b' = endOfAppLimitedPhase b"
    "connectionStateMap b' = connectionStateMap b" "totalBytesAcked b' = totalBytesAcked b"
  using assms by (auto simp: rate_sample_def Let_def split: option.splits prod.splits if_splits)

lemma onPacketAcknowledged_fields:
  assumes "onPacketAcknowledged b t pn = Some (b', s)"
  shows "connectionStateMap b' = connectionStateMap b"
    "endOfAppLimitedPhase b' = endOfAppLimitedPhase b"
    "isAppLimited b \<Longrightarrow> endOfAppLimitedPhase b \<noteq> invalidPacketNumber \<Longrightarrow> pn \<le> endOfAppLimitedPhase b \<Longrightarrow>
     isAppLimited b'"
proof -
  have b: "connectionStateMap (ack_bookkeeping b t pn c) = connectionStateMap b"
    "endOfAppLimitedPhase (ack_bookkeeping b t pn c) = endOfAppLimitedPhase b"
    "isAppLimited b \<Longrightarrow> endOfAppLimitedPhase b \<noteq> invalidPacketNumber \<Longrightarrow> pn \<le> endOfAppLimitedPhase b \<Longrightarrow>
     isAppLimited (ack_bookkeeping b t pn c)" for b c
    by (simp_all add: ack_bookkeeping_def leave_app_limited_def Let_def)
  show "connectionStateMap b' = connectionStateMap b"
    "endOfAppLimitedPhase b' = endOfAppLimitedPhase b"
    "isAppLimited b \<Longrightarrow> endOfAppLimitedPhase b \<noteq> invalidPacketNumber \<Longrightarrow> pn \<le> endOfAppLimitedPhase b \<Longrightarrow>
     isAppLimited b'"
    using assms b rate_sample_fields
    by (auto simp: onPacketAcknowledged_def Let_def split: option.splits if_splits)
qed


text \<open>What an operation keeps while every acknowledged packet was sent before the phase began.\<close>

definition phase_kept :: "bandwidthSampler \<Rightarrow> bandwidthSampler \<Rightarrow> int list \<Rightarrow> bool" where
  "phase_kept b b' pns \<longleftrightarrow> endOfAppLimitedPhase b' = endOfAppLimitedPhase b \<and>
     (isAppLimited b \<and> endOfAppLimitedPhase b \<noteq> invalidPacketNumber \<and>
      (\<forall>pn \<in> set pns. pn \<le> endOfAppLimitedPhase b) \<longrightarrow> isAppLimited b')"

lemma acked_loop_ok:
  assumes "sampler_ok b" "\<forall>p \<in> set ps. pn_ok (fst p)" "0 \<le> sampleMaxBandwidth es"
  shows "\<exists>b' es' st' r'. acked_loop b t ps es st mr = Some (b', es', st', r') \<and> sampler_ok b' \<and>
    connectionStateMap b' = connectionStateMap b \<and> phase_kept b b' (map fst ps) \<and>
    sampleMaxBandwidth es \<le> sampleMaxBandwidth es'"
  using assms
proof (induction b t ps es st mr rule: acked_loop.induct)
  case (1 b t es st mr)
  then show ?case by (simp add: phase_kept_def)
next
  case (2 b t pn n ps es st mr)
  have "pn_ok pn" using 2(4) by simp
  from onPacketAcknowledged_ok [OF 2(3) this, of t] obtain b1 s where
    1: "onPacketAcknowledged b t pn = Some (b1, s)" "sampler_ok b1" "sample_ok s" by blast
  note f = onPacketAcknowledged_fields [OF 1(1)]
  have ps: "\<forall>p \<in> set ps. pn_ok (fst p)" using 2(4) by simp
  have ph: "phase_kept b b' (map fst ((pn, n) # ps))" if "phase_kept b1 b' (map fst ps)" for b'
    using that f by (auto simp: phase_kept_def)
  show ?case
  proof (cases "isValid (bs_stateAtSend s)")
    case False
    from 2(1) [OF 1(1) refl False 1(2) ps 2(5)] show ?thesis using 1(1) False f(1) ph by fastforce
  next
    case True
    define es1 where "es1 = (if bs_rtt s \<noteq> 0 then es\<lparr>sampleRtt := min (sampleRtt es) (bs_rtt s)\<rparr> else es)"
    define es2 where "es2 = (if bs_bandwidth s > sampleMaxBandwidth es1
        then es1\<lparr>sampleMaxBandwidth := bs_bandwidth s,
               sampleIsAppLimited := sts_isAppLimited (bs_stateAtSend s)\<rparr> else es1)"
    define mr1 where "mr1 = (if bs_sendRate s \<noteq> infBandwidth then max mr (bs_sendRate s) else mr)"
    define es3 where "es3 = (if i64 (totalBytesAcked b1 - sts_totalBytesAcked (bs_stateAtSend s)) > sampleMaxInflight es2
        then es2\<lparr>sampleMaxInflight := i64 (totalBytesAcked b1 - sts_totalBytesAcked (bs_stateAtSend s))\<rparr> else es2)"
    have le: "sampleMaxBandwidth es \<le> sampleMaxBandwidth es3"
      by (simp add: es1_def es2_def es3_def)
    then have pos: "0 \<le> sampleMaxBandwidth es3" using 2(5) by simp
    have step: "acked_loop b t ((pn, n) # ps) es st mr = acked_loop b1 t ps es3 (bs_stateAtSend s) mr1"
      using True 1(1) unfolding es3_def es2_def es1_def mr1_def by (simp add: Let_def)
    have "\<exists>b' es' st' r'. acked_loop b1 t ps es3 (bs_stateAtSend s) mr1 = Some (b', es', st', r') \<and> sampler_ok b' \<and>
      connectionStateMap b' = connectionStateMap b1 \<and> phase_kept b1 b' (map fst ps) \<and>
      sampleMaxBandwidth es3 \<le> sampleMaxBandwidth es'"
      using True
      by (intro 2(2) [OF 1(1) refl _ refl es1_def es2_def mr1_def refl es3_def 1(2) ps pos]) simp
    then show ?thesis unfolding step using f(1) ph le by fastforce
  qed
qed

lemma onAckEventEnd_ok:
  assumes ok: "sampler_ok b"
  shows "\<exists>b' x. onAckEventEnd b bw new rtc = Some (b', x) \<and> sampler_ok b' \<and>
    connectionStateMap b' = connectionStateMap b \<and> isAppLimited b' = isAppLimited b \<and>
    endOfAppLimitedPhase b' = endOfAppLimitedPhase b"
proof (cases "i64 (totalBytesAcked b - totalBytesAckedAfterLastAckEvent b) = 0")
  case True
  then show ?thesis using ok by (simp add: onAckEventEnd_def)
next
  case False
  note d = sampler_okD [OF ok]
  let ?b = "b\<lparr>totalBytesAckedAfterLastAckEvent := totalBytesAcked b\<rparr>"
  obtain m x where m: "mah_Update (heightTracker ?b) bw new rtc (lastSentPacket ?b) (lastAckedPacket ?b)
      (lastAckedPacketAckTime ?b) (i64 (totalBytesAcked b - totalBytesAckedAfterLastAckEvent b)) = (m, x)"
    by fastforce
  obtain r' where r': "ring_PushBack zeroAckPoint (a0Candidates b) (LessRecentPoint (recentPoints b)) = Some r'"
    "ring_inv r'"
    using ring_PushBack_ok [of "a0Candidates b" zeroAckPoint "LessRecentPoint (recentPoints b)"] d by blast
  have k: "sampler_ok (?b\<lparr>heightTracker := m, a0Candidates := r'\<rparr>)" "sampler_ok (?b\<lparr>heightTracker := m\<rparr>)"
    using d r' by (auto intro: sampler_ok_cong [OF ok])
  show ?thesis using False m r' k
    by (cases "overestimateAvoidance b \<and> x = 0") (auto simp: onAckEventEnd_def Let_def)
qed

lemma phase_kept_trans:
  "phase_kept b b1 xs \<Longrightarrow> phase_kept b1 b2 ys \<Longrightarrow> phase_kept b b2 (xs @ ys)"
  by (auto simp: phase_kept_def)

lemma sampler_OnCongestionEvent_ok:
  assumes ok: "sampler_ok b" and pns: "\<forall>p \<in> set acked. pn_ok (fst p)"
  shows "\<exists>b' es. sampler_OnCongestionEvent b t acked lost mb ub rtc = Some (b', es) \<and> sampler_ok b' \<and>
    connectionStateMap b' = connectionStateMap b \<and> phase_kept b b' (map fst acked) \<and>
    0 \<le> sampleMaxBandwidth es"
proof -
  obtain b1 s1 where 1: "lost_loop b lost zeroSendTimeState = (b1, s1)" by fastforce
  note l = lost_loop_ok [OF 1 ok]
  have ph1: "phase_kept b b1 []" using l by (simp add: phase_kept_def)
  show ?thesis
  proof (cases "acked = []")
    case True
    then show ?thesis using 1 l ph1
      by (simp add: sampler_OnCongestionEvent_def newCongestionEventSample_def)
  next
    case False
    have "sampler_ok b1" using l by blast
    from acked_loop_ok [OF this pns, of newCongestionEventSample t zeroSendTimeState 0]
    obtain b2 es s2 mr where
      2: "acked_loop b1 t acked newCongestionEventSample zeroSendTimeState 0 = Some (b2, es, s2, mr)"
        "sampler_ok b2" "connectionStateMap b2 = connectionStateMap b1" "phase_kept b1 b2 (map fst acked)"
        "0 \<le> sampleMaxBandwidth es"
      by (auto simp: newCongestionEventSample_def)
    have inv: "lost \<noteq> []" if "isValid s1" using that l by (auto simp: zeroSendTimeState_def)
    define send where "send = (if \<not> isValid s1 then s2 else if \<not> isValid s2 then s1
      else if fst (last lost) > fst (last acked) then s1 else s2)"
    define es' where "es' = es\<lparr>lastPacketSendState := send\<rparr>"
    define bw where "bw = (let maxBandwidth = max mb (sampleMaxBandwidth es')
      in if limitMaxAckHeightTrackerBySendRate b2 then max maxBandwidth mr else maxBandwidth)"
    obtain b3 x where 3: "onAckEventEnd b2 (min ub bw) (sampleMaxBandwidth es' > mb) rtc = Some (b3, x)"
      "sampler_ok b3" "connectionStateMap b3 = connectionStateMap b2" "isAppLimited b3 = isAppLimited b2"
      "endOfAppLimitedPhase b3 = endOfAppLimitedPhase b2"
      using onAckEventEnd_ok [OF 2(2)] by blast
    have "(if \<not> isValid s1 then Some s2 else if \<not> isValid s2 then Some s1
        else if lost = [] then None
        else Some (if fst (last lost) > fst (last acked) then s1 else s2)) = Some send"
      using inv by (auto simp: send_def)
    then have "sampler_OnCongestionEvent b t acked lost mb ub rtc = Some (b3, es'\<lparr>ces_extraAcked := x\<rparr>)"
      using 1 False 2(1) 3(1) unfolding sampler_OnCongestionEvent_def es'_def bw_def
      by (cases "limitMaxAckHeightTrackerBySendRate b2") (simp_all add: Let_def)
    moreover have "phase_kept b b3 (map fst acked)"
      using phase_kept_trans [OF ph1 2(4)] 3(4,5) by (simp add: phase_kept_def)
    ultimately show ?thesis using 2 3 l by (simp add: es'_def)
  qed
qed

text \<open>The RTT a sample reports is an \<open>int64\<close>.\<close>

lemma onPacketAcknowledged_rtt:
  "onPacketAcknowledged b t pn = Some (b', s) \<Longrightarrow> in_i64 (bs_rtt s)"
  by (auto simp: onPacketAcknowledged_def rate_sample_def newBandwidthSample_def Let_def
      split: option.splits if_splits) (simp_all add: in_i64_def)

lemma acked_loop_rtt:
  "acked_loop b t ps es st mr = Some (b', es', st', mr') \<Longrightarrow> in_i64 (sampleRtt es) \<Longrightarrow>
   in_i64 (sampleRtt es')"
proof (induction b t ps es st mr rule: acked_loop.induct)
  case (1 b t es st mr)
  then show ?case by simp
next
  case (2 b t pn n ps es st mr)
  obtain b1 s where 1: "onPacketAcknowledged b t pn = Some (b1, s)"
    using 2(3) by (auto split: option.splits)
  show ?case
  proof (cases "isValid (bs_stateAtSend s)")
    case False
    with 2(1) [OF 1(1) refl False _ 2(4)] 2(3) 1 show ?thesis by simp
  next
    case True
    define es1 where "es1 = (if bs_rtt s \<noteq> 0 then es\<lparr>sampleRtt := min (sampleRtt es) (bs_rtt s)\<rparr> else es)"
    define es2 where "es2 = (if bs_bandwidth s > sampleMaxBandwidth es1
        then es1\<lparr>sampleMaxBandwidth := bs_bandwidth s,
               sampleIsAppLimited := sts_isAppLimited (bs_stateAtSend s)\<rparr> else es1)"
    define mr1 where "mr1 = (if bs_sendRate s \<noteq> infBandwidth then max mr (bs_sendRate s) else mr)"
    define es3 where "es3 = (if i64 (totalBytesAcked b1 - sts_totalBytesAcked (bs_stateAtSend s)) > sampleMaxInflight es2
        then es2\<lparr>sampleMaxInflight := i64 (totalBytesAcked b1 - sts_totalBytesAcked (bs_stateAtSend s))\<rparr> else es2)"
    have "in_i64 (sampleRtt es3)"
      using 2(4) onPacketAcknowledged_rtt [OF 1] by (simp add: es1_def es2_def es3_def min_def)
    moreover have "acked_loop b1 t ps es3 (bs_stateAtSend s) mr1 = Some (b', es', st', mr')"
      using 2(3) True 1(1) unfolding es3_def es2_def es1_def mr1_def by (simp add: Let_def)
    ultimately show ?thesis
      using True by (intro 2(2) [OF 1(1) refl _ refl es1_def es2_def mr1_def refl es3_def]) simp_all
  qed
qed

lemma sampler_OnCongestionEvent_rtt:
  "sampler_OnCongestionEvent b t acked lost mb ub rtc = Some (b', es) \<Longrightarrow> in_i64 (sampleRtt es)"
proof -
  have i: "in_i64 infRTT" by (simp add: in_i64_def infRTT_def)
  assume a: "sampler_OnCongestionEvent b t acked lost mb ub rtc = Some (b', es)"
  show ?thesis
  proof (cases "acked = []")
    case True
    then show ?thesis using a i
      by (auto simp: sampler_OnCongestionEvent_def newCongestionEventSample_def split: prod.splits)
  next
    case False
    obtain b1 s1 where 1: "lost_loop b lost zeroSendTimeState = (b1, s1)" by fastforce
    obtain b2 es2 s2 mr where 2:
      "acked_loop b1 t acked newCongestionEventSample zeroSendTimeState 0 = Some (b2, es2, s2, mr)"
      using a False 1 by (auto simp: sampler_OnCongestionEvent_def split: option.splits)
    have "in_i64 (sampleRtt es2)"
      using acked_loop_rtt [OF 2] i by (simp add: newCongestionEventSample_def)
    moreover have "sampleRtt es = sampleRtt es2"
      using a False 1 2 by (auto simp: sampler_OnCongestionEvent_def Let_def bind_eq_Some_conv)
    ultimately show ?thesis by simp
  qed
qed

lemma RemoveObsoletePackets_ok:
  assumes ok: "sampler_ok b"
  shows "\<exists>b'. RemoveObsoletePackets b n = Some b' \<and> sampler_ok b' \<and>
    pnq_map (connectionStateMap b') = pnq_map (connectionStateMap b) |` {n..} \<and>
    b' = b\<lparr>connectionStateMap := connectionStateMap b'\<rparr>"
proof -
  obtain q' where q': "pnq_RemoveUpTo zeroConnState (connectionStateMap b) n = Some q'" "pnq_inv q'"
    "pnq_map q' = pnq_map (connectionStateMap b) |` {n..}"
    using pnq_RemoveUpTo_ok [of "connectionStateMap b" zeroConnState n] sampler_okD [OF ok] by blast
  then have "sampler_ok (b\<lparr>connectionStateMap := q'\<rparr>)"
    using ok by (auto simp: sampler_ok_def sampler_inv_def times_ok_def restrict_map_def split: if_splits)
  with q' show ?thesis by (simp add: RemoveObsoletePackets_def)
qed

lemma OnPacketNeutered_ok:
  assumes ok: "sampler_ok b" and pn: "pn_ok pn"
  shows "\<exists>b'. OnPacketNeutered b pn = Some b' \<and> sampler_ok b' \<and>
    pnq_map (connectionStateMap b') = (pnq_map (connectionStateMap b))(pn := None) \<and>
    isAppLimited b' = isAppLimited b \<and> endOfAppLimitedPhase b' = endOfAppLimitedPhase b"
proof -
  obtain q' where q': "pnq_Remove zeroConnState (connectionStateMap b) pn =
      Some (pnq_map (connectionStateMap b) pn, q')" "pnq_inv q'"
    "pnq_map q' = (pnq_map (connectionStateMap b))(pn := None)"
    using pnq_Remove_ok [of "connectionStateMap b" pn zeroConnState] sampler_okD [OF ok] pn
    by (auto simp: pn_ok_def)
  have "sampler_ok (b\<lparr>connectionStateMap := q', totalBytesNeutered := x\<rparr>)"
    "sampler_ok (b\<lparr>connectionStateMap := q'\<rparr>)" for x
    using ok q' by (auto simp: sampler_ok_def sampler_inv_def times_ok_def split: if_splits)
  with q' show ?thesis
    by (cases "pnq_map (connectionStateMap b) pn") (simp_all add: OnPacketNeutered_def)
qed

section \<open>Properties\<close>

text \<open>
  When BBR avoids overestimation, the A0 point it picks for a packet is the last candidate
  before the first one (after the front) that lies beyond what was delivered when the packet was
  sent, and the candidates before it are dropped; when none lies beyond, it is the last candidate,
  but the loop that should drop all others re-evaluates \<open>Len()\<close> and drops only half of them.
\<close>

theorem a0_choice:
  fixes acked :: int
  assumes "ring_inv r" "ring_abs r = x # ys" "ys \<noteq> []"
  defines "passed \<equiv> takeWhile (\<lambda>p. ap_totalBytesAcked p \<le> acked) ys"
  shows "\<exists>r'. chooseA0Point r acked = Some (Some (last (x # passed)), r') \<and>
    ring_abs r' = drop (if passed = ys then length (x # ys) div 2 else length passed) (x # ys)"
proof -
  have "a0_spec (x # ys) acked = (Some (last (x # passed)),
      drop (if passed = ys then length (x # ys) div 2 else length passed) (x # ys))"
    using assms(3) unfolding a0_spec_def passed_def [symmetric] by (simp add: Let_def passed_def)
  with chooseA0Point_ok [OF assms(1), of acked] assms(2) show ?thesis by auto
qed


definition demo_ring :: "ackPoint ringbuf" where
  "demo_ring = \<lparr>ring = [\<lparr>ackTime = 1, ap_totalBytesAcked = 10\<rparr>, \<lparr>ackTime = 2, ap_totalBytesAcked = 20\<rparr>,
     \<lparr>ackTime = 3, ap_totalBytesAcked = 30\<rparr>, zeroAckPoint], headPos = 0, tailPos = 3, full = False\<rparr>"

lemma demo_ring_abs: "ring_inv demo_ring" "ring_abs demo_ring =
    [\<lparr>ackTime = 1, ap_totalBytesAcked = 10\<rparr>, \<lparr>ackTime = 2, ap_totalBytesAcked = 20\<rparr>,
     \<lparr>ackTime = 3, ap_totalBytesAcked = 30\<rparr>]"
  by (simp_all add: demo_ring_def ring_inv_def ring_abs_def ring_Len_def upt_rec)

lemma a0_choice_witness:
  "(\<exists>r'. chooseA0Point demo_ring 25 = Some (Some \<lparr>ackTime = 2, ap_totalBytesAcked = 20\<rparr>, r') \<and>
     length (ring_abs r') = 2) \<and>
   (\<exists>r'. chooseA0Point demo_ring 99 = Some (Some \<lparr>ackTime = 3, ap_totalBytesAcked = 30\<rparr>, r') \<and>
     length (ring_abs r') = 2)"
  using a0_choice [OF demo_ring_abs, of 25] a0_choice [OF demo_ring_abs, of 99] by fastforce

text \<open>What a connection does to its sampler.\<close>

datatype sampler_event =
    SentEv int int int int bool
  | CongestionEv int "packet_info list" "packet_info list" int int int
  | NeuteredEv int
  | ObsoleteEv int
  | LimitedEv

fun sampler_step :: "bandwidthSampler \<Rightarrow> sampler_event \<Rightarrow> bandwidthSampler option" where
  "sampler_step b (SentEv t pn n inflight r) = sampler_OnPacketSent b t pn n inflight r"
| "sampler_step b (CongestionEv t acked lost mb ub rtc) =
     map_option fst (sampler_OnCongestionEvent b t acked lost mb ub rtc)"
| "sampler_step b (NeuteredEv pn) = OnPacketNeutered b pn"
| "sampler_step b (ObsoleteEv pn) = RemoveObsoletePackets b pn"
| "sampler_step b LimitedEv = Some (OnAppLimited b)"

fun sampler_run :: "bandwidthSampler \<Rightarrow> sampler_event list \<Rightarrow> bandwidthSampler option" where
  "sampler_run b [] = Some b"
| "sampler_run b (e # es) = (case sampler_step b e of None \<Rightarrow> None | Some b \<Rightarrow> sampler_run b es)"

text \<open>Well-formed events: packet numbers of QUIC, times that are \<open>int64\<close>.\<close>

fun event_ok :: "sampler_event \<Rightarrow> bool" where
  "event_ok (SentEv t pn n inflight r) \<longleftrightarrow> in_i64 t \<and> pn_ok pn"
| "event_ok (CongestionEv t acked lost mb ub rtc) \<longleftrightarrow> list_all (\<lambda>p. pn_ok (fst p)) acked"
| "event_ok (NeuteredEv pn) \<longleftrightarrow> pn_ok pn"
| "event_ok _ \<longleftrightarrow> True"

fun acked_of :: "sampler_event \<Rightarrow> int list" where
  "acked_of (CongestionEv t acked lost mb ub rtc) = map fst acked"
| "acked_of _ = []"

text \<open>Packets of \<open>b'\<close> are packets of \<open>b\<close>, or were sent in the app-limited phase.\<close>

definition limited_since :: "bandwidthSampler \<Rightarrow> bandwidthSampler \<Rightarrow> bool" where
  "limited_since b b' \<longleftrightarrow> (\<forall>k cs. pnq_map (connectionStateMap b') k = Some cs \<longrightarrow>
     pnq_map (connectionStateMap b) k = Some cs \<or> sts_isAppLimited (cs_sendTimeState cs))"

lemma sampler_step_ok:
  assumes ok: "sampler_ok b" and e: "event_ok e"
  shows "\<exists>b'. sampler_step b e = Some b' \<and> sampler_ok b' \<and>
    (e \<noteq> LimitedEv \<longrightarrow> phase_kept b b' (acked_of e)) \<and> (isAppLimited b \<longrightarrow> limited_since b b')"
proof (cases e)
  case (SentEv t pn n inflight r)
  then have "pn_ok pn" "in_i64 t" using e by simp_all
  from sampler_OnPacketSent_ok [OF ok this, of n inflight r] obtain b' where
    "sampler_OnPacketSent b t pn n inflight r = Some b'" "sampler_ok b'"
    "isAppLimited b' = isAppLimited b" "endOfAppLimitedPhase b' = endOfAppLimitedPhase b"
    "\<forall>k cs. pnq_map (connectionStateMap b') k = Some cs \<longrightarrow>
       pnq_map (connectionStateMap b) k = Some cs \<or>
       (k = pn \<and> sentTime cs = t \<and> sts_isAppLimited (cs_sendTimeState cs) = isAppLimited b)" by blast
  with SentEv show ?thesis by (auto simp: phase_kept_def limited_since_def)
next
  case (CongestionEv t acked lost mb ub rtc)
  then have "\<forall>p \<in> set acked. pn_ok (fst p)" using e by (simp add: list_all_iff)
  from sampler_OnCongestionEvent_ok [OF ok this, of t lost mb ub rtc] CongestionEv show ?thesis
    by (fastforce simp: limited_since_def)
next
  case (NeuteredEv pn)
  then show ?thesis using OnPacketNeutered_ok [OF ok, of pn] e
    by (fastforce simp: phase_kept_def limited_since_def split: if_splits)
next
  case (ObsoleteEv pn)
  obtain b' where b': "RemoveObsoletePackets b pn = Some b'" "sampler_ok b'"
    "pnq_map (connectionStateMap b') = pnq_map (connectionStateMap b) |` {pn..}"
    "b' = b\<lparr>connectionStateMap := connectionStateMap b'\<rparr>"
    using RemoveObsoletePackets_ok [OF ok, of pn] by blast
  have "isAppLimited b' = isAppLimited b" "endOfAppLimitedPhase b' = endOfAppLimitedPhase b"
    by (subst b'(4), simp)+
  with b'(1-3) ObsoleteEv show ?thesis
    by (auto simp: phase_kept_def limited_since_def restrict_map_def split: if_splits)
next
  case LimitedEv
  have "sampler_ok (OnAppLimited b)" using sampler_okD [OF ok]
    by (intro sampler_ok_cong [OF ok]) (simp_all add: OnAppLimited_def)
  then show ?thesis using LimitedEv by (simp add: limited_since_def OnAppLimited_def)
qed

lemma sampler_run_ok:
  "sampler_ok b \<Longrightarrow> list_all event_ok es \<Longrightarrow> \<exists>b'. sampler_run b es = Some b' \<and> sampler_ok b'"
proof (induction es arbitrary: b)
  case (Cons e es)
  then show ?case using sampler_step_ok [of b e] by fastforce
qed simp

lemma sampler_ok_new: "sampler_ok (newBandwidthSampler w)"
proof -
  have "pnq_map (connectionStateMap (newBandwidthSampler w)) = Map.empty"
    by (simp add: newBandwidthSampler_def newPacketNumberIndexedQueue_def pnq_map_def ring_inv_Init)
  then show ?thesis using sampler_inv_new [of w]
    by (simp add: sampler_ok_def times_ok_def) (simp add: newBandwidthSampler_def in_i64_def)
qed

text \<open>
  The bandwidth sampler never panics: no sequence of sends, acknowledgements, losses,
  neutered packets and clean-ups divides by a zero time difference, pops an empty ring or indexes
  outside a list, whatever the byte counts and times are and however the integers wrap.
\<close>

theorem sampler_never_panics:
  assumes "list_all event_ok es"
  shows "sampler_run (newBandwidthSampler w) es \<noteq> None"
  using sampler_run_ok [OF sampler_ok_new assms, of w] by auto

lemma sampler_never_panics_witness:
  "sampler_run (newBandwidthSampler 10)
     [SentEv 5 0 1200 0 True, CongestionEv 9 [(0, 1200)] [] 0 infBandwidth 1] \<noteq> None"
  by (rule sampler_never_panics) (simp add: pn_ok_def in_i64_def)

lemma limited_run:
  assumes "sampler_ok b" "list_all event_ok es" "isAppLimited b" "endOfAppLimitedPhase b \<noteq> invalidPacketNumber"
    and "\<forall>e \<in> set es. e \<noteq> LimitedEv \<and> (\<forall>pn \<in> set (acked_of e). pn \<le> endOfAppLimitedPhase b)"
    and "sampler_run b es = Some b'"
  shows "isAppLimited b' \<and> limited_since b b'"
  using assms
proof (induction es arbitrary: b)
  case Nil
  then show ?case by (simp add: limited_since_def)
next
  case (Cons e es)
  obtain b1 where 1: "sampler_step b e = Some b1" "sampler_ok b1" "phase_kept b b1 (acked_of e)" "limited_since b b1"
    using sampler_step_ok [of b e] Cons.prems by auto
  have k: "isAppLimited b1" "endOfAppLimitedPhase b1 = endOfAppLimitedPhase b"
    using 1(3) Cons.prems by (auto simp: phase_kept_def)
  have "isAppLimited b' \<and> limited_since b1 b'"
    using Cons.prems 1 k by (intro Cons.IH) auto
  then show ?case using 1(4) by (auto simp: limited_since_def)
qed

text \<open>
  The rule of the sampler's documentation: once \<open>OnAppLimited\<close> is called, the sampler stays in
  the app-limited phase, and every packet sent is marked app-limited, up until an acknowledgement
  of a packet that was sent after that call.
\<close>

theorem app_limited_phase:
  assumes "list_all event_ok before" "sampler_run (newBandwidthSampler w) before = Some b"
    and "lastSentPacket b \<noteq> invalidPacketNumber" "list_all event_ok es"
    and "\<forall>e \<in> set es. e \<noteq> LimitedEv \<and> (\<forall>pn \<in> set (acked_of e). pn \<le> lastSentPacket b)"
  shows "\<exists>b'. sampler_run (OnAppLimited b) es = Some b' \<and> isAppLimited b' \<and>
    (\<forall>k cs. pnq_map (connectionStateMap b') k = Some cs \<and> pnq_map (connectionStateMap b) k \<noteq> Some cs \<longrightarrow>
       sts_isAppLimited (cs_sendTimeState cs))"
proof -
  have ok: "sampler_ok b" using sampler_run_ok [OF sampler_ok_new assms(1), of w] assms(2) by auto
  have ok': "sampler_ok (OnAppLimited b)" using sampler_okD [OF ok]
    by (intro sampler_ok_cong [OF ok]) (simp_all add: OnAppLimited_def)
  obtain b' where b': "sampler_run (OnAppLimited b) es = Some b'"
    using sampler_run_ok [OF ok' assms(4)] by blast
  have "isAppLimited b' \<and> limited_since (OnAppLimited b) b'"
    using assms(3,5) by (intro limited_run [OF ok' assms(4) _ _ _ b']) (simp_all add: OnAppLimited_def)
  with b' show ?thesis by (auto simp: limited_since_def OnAppLimited_def)
qed

lemma app_limited_phase_witness:
  "\<exists>b b'. sampler_run (newBandwidthSampler 10) [SentEv 5 0 1200 0 True] = Some b \<and>
     sampler_run (OnAppLimited b) [SentEv 6 1 1200 1200 True, CongestionEv 9 [(0, 1200)] [] 0 infBandwidth 1] = Some b' \<and>
     isAppLimited b'"
proof -
  let ?before = "[SentEv 5 0 1200 0 True]"
  let ?es = "[SentEv 6 1 1200 1200 True, CongestionEv 9 [(0, 1200)] [] 0 infBandwidth 1]"
  have ok: "list_all event_ok ?before" "list_all event_ok ?es" by (simp_all add: pn_ok_def in_i64_def)
  obtain b where b: "sampler_run (newBandwidthSampler 10) ?before = Some b"
    using sampler_run_ok [OF sampler_ok_new ok(1)] by blast
  have "map_option lastSentPacket (sampler_run (newBandwidthSampler 10) ?before) = Some 0" by code_simp
  then have "lastSentPacket b = 0" using b by simp
  then have "\<exists>b'. sampler_run (OnAppLimited b) ?es = Some b' \<and> isAppLimited b' \<and>
    (\<forall>k cs. pnq_map (connectionStateMap b') k = Some cs \<and> pnq_map (connectionStateMap b) k \<noteq> Some cs \<longrightarrow>
       sts_isAppLimited (cs_sendTimeState cs))"
    by (intro app_limited_phase [OF ok(1) b _ ok(2)]) (simp_all add: invalidPacketNumber_def)
  with b show ?thesis by blast
qed

end
