(* ===== verification/Pacer.thy ===== *)
theory Pacer
  imports Hy_Prelude
begin

text \<open>
  \<open>core/internal/congestion/common/pacer.go\<close>: the token bucket that spaces out packets.  The
  bandwidth callback is the argument \<open>bw\<close>, its value (in bytes per second) at the call.  Byte
  counts and times are \<open>int64\<close>, with every product reduced by \<open>i64\<close>; the computation of the next
  send time is in \<open>uint64\<close>.  \<open>None\<close> is the division by a zero bandwidth.

  The constants of the QUIC library (its packet sizes and its pacing delay) are not part of the
  repository: they are the record \<open>quic_consts\<close>, an argument, and \<open>consts_ok\<close> is what is assumed.
  Its \<open>monotime.Time\<close> is a number of nanoseconds with 0 as the zero time.
\<close>

record quic_consts =
  InitialPacketSize :: int
  MinInitialPacketSize :: int
  MaxPacketBufferSize :: int
  MaxCongestionWindowPackets :: int
  PacketsPerConnectionID :: nat
  MinPacingDelay :: int

definition consts_ok :: "quic_consts \<Rightarrow> bool" where
  "consts_ok k \<longleftrightarrow> 0 < InitialPacketSize k \<and> InitialPacketSize k \<le> 65535 \<and>
     0 < MinInitialPacketSize k \<and> MinInitialPacketSize k \<le> 65535 \<and>
     0 < MaxPacketBufferSize k \<and> MaxPacketBufferSize k \<le> 65535 \<and>
     32 \<le> MaxCongestionWindowPackets k \<and> MaxCongestionWindowPackets k < 2 ^ 31 \<and>
     0 < PacketsPerConnectionID k \<and> PacketsPerConnectionID k < 2 ^ 31 \<and>
     0 < MinPacingDelay k \<and> MinPacingDelay k \<le> 1000000"

text \<open>Values with which the witnesses run.\<close>

definition demo_consts :: quic_consts where
  "demo_consts = \<lparr>InitialPacketSize = 1280, MinInitialPacketSize = 1200, MaxPacketBufferSize = 1452,
     MaxCongestionWindowPackets = 10000, PacketsPerConnectionID = 10000, MinPacingDelay = 1000000\<rparr>"

lemma demo_consts_ok: "consts_ok demo_consts"
  by (simp add: consts_ok_def demo_consts_def)

definition maxBurstPackets :: int where "maxBurstPackets = 10"
definition maxBurstPacingDelayMultiplier :: int where "maxBurstPacingDelayMultiplier = 4"

record pacer =
  budgetAtLastSent :: int
  pacer_maxDatagramSize :: int
  lastSentTime :: int

definition NewPacer :: "quic_consts \<Rightarrow> pacer" where
  "NewPacer k = \<lparr>budgetAtLastSent = maxBurstPackets * InitialPacketSize k,
     pacer_maxDatagramSize = InitialPacketSize k, lastSentTime = 0\<rparr>"

definition maxBurstSize :: "quic_consts \<Rightarrow> int \<Rightarrow> pacer \<Rightarrow> int" where
  "maxBurstSize k bw p =
     max (quot (i64 (maxBurstPacingDelayMultiplier * MinPacingDelay k * bw)) 1000000000)
         (i64 (maxBurstPackets * pacer_maxDatagramSize p))"

definition Budget :: "quic_consts \<Rightarrow> int \<Rightarrow> pacer \<Rightarrow> int \<Rightarrow> int" where
  "Budget k bw p now =
     (if lastSentTime p = 0 then maxBurstSize k bw p
      else
        (let budget = i64 (budgetAtLastSent p +
               quot (i64 (bw * i64 (now - lastSentTime p))) 1000000000);
             budget = (if budget < 0 then 2 ^ 62 - 1 else budget)
         in min (maxBurstSize k bw p) budget))"

definition SentPacket :: "quic_consts \<Rightarrow> int \<Rightarrow> pacer \<Rightarrow> int \<Rightarrow> int \<Rightarrow> pacer" where
  "SentPacket k bw p sendTime sz =
     (let budget = Budget k bw p sendTime;
          p = (if sz > budget then p\<lparr>budgetAtLastSent := 0\<rparr>
               else p\<lparr>budgetAtLastSent := i64 (budget - sz)\<rparr>)
      in p\<lparr>lastSentTime := sendTime\<rparr>)"

definition TimeUntilSend :: "quic_consts \<Rightarrow> int \<Rightarrow> pacer \<Rightarrow> int option" where
  "TimeUntilSend k bw p =
     (if budgetAtLastSent p \<ge> pacer_maxDatagramSize p then Some 0
      else
        (let diff = u64 (1000000000 * u64 (pacer_maxDatagramSize p - budgetAtLastSent p));
             b = u64 bw
         in if b = 0 then None
            else
              (let d = diff div b; d = (if diff mod b > 0 then u64 (d + 1) else d)
               in Some (i64 (lastSentTime p + max (MinPacingDelay k) (i64 d))))))"

definition pacer_SetMaxDatagramSize :: "pacer \<Rightarrow> int \<Rightarrow> pacer" where
  "pacer_SetMaxDatagramSize p s = p\<lparr>pacer_maxDatagramSize := s\<rparr>"

section \<open>Properties\<close>

text \<open>
  The state the senders keep: the budget is never negative and never above the largest burst,
  and the datagram size is a packet size.  Bandwidths are those \<open>bandwidthForPacer\<close> gives.
\<close>

definition pacer_ok :: "pacer \<Rightarrow> bool" where
  "pacer_ok p \<longleftrightarrow> 0 < pacer_maxDatagramSize p \<and> pacer_maxDatagramSize p \<le> 65535 \<and>
     0 \<le> budgetAtLastSent p \<and> budgetAtLastSent p < 2 ^ 62"

lemma pacer_ok_new: "consts_ok k \<Longrightarrow> pacer_ok (NewPacer k)"
  by (simp add: pacer_ok_def NewPacer_def maxBurstPackets_def consts_ok_def)

lemma burst_value:
  assumes "consts_ok k" "pacer_ok p" "0 \<le> bw" "bw < 2 ^ 40"
  shows "maxBurstSize k bw p = max (4 * MinPacingDelay k * bw div 1000000000) (10 * pacer_maxDatagramSize p)"
    "maxBurstSize k bw p < 2 ^ 62"
proof -
  have "MinPacingDelay k * bw \<le> 1000000 * bw"
    using assms by (intro mult_right_mono) (simp_all add: consts_ok_def)
  then have "MinPacingDelay k * bw < 1152921504606846976" "0 \<le> MinPacingDelay k * bw"
    using assms by (simp_all add: consts_ok_def)
  then have "4 * MinPacingDelay k * bw < 4611686018427387904" "0 \<le> 4 * MinPacingDelay k * bw"
    by linarith+
  then have b: "4 * MinPacingDelay k * bw < 2 ^ 62" "0 \<le> 4 * MinPacingDelay k * bw" by simp_all
  then have "i64 (4 * MinPacingDelay k * bw) = 4 * MinPacingDelay k * bw" by (intro i64_id') simp_all
  moreover have "i64 (10 * pacer_maxDatagramSize p) = 10 * pacer_maxDatagramSize p"
    using assms by (intro i64_id') (simp_all add: pacer_ok_def)
  ultimately show v: "maxBurstSize k bw p =
      max (4 * MinPacingDelay k * bw div 1000000000) (10 * pacer_maxDatagramSize p)"
    using b by (simp add: maxBurstSize_def maxBurstPackets_def maxBurstPacingDelayMultiplier_def)
  have "4 * MinPacingDelay k * bw div 1000000000 < 2 ^ 62"
    using b zdiv_mono2 [of "4 * MinPacingDelay k * bw" 1 1000000000] by simp
  then show "maxBurstSize k bw p < 2 ^ 62" using assms(2) v by (simp add: pacer_ok_def)
qed

lemma Budget_bounds:
  assumes "consts_ok k" "pacer_ok p" "0 \<le> bw" "bw < 2 ^ 40"
  shows "0 \<le> Budget k bw p now" "Budget k bw p now \<le> maxBurstSize k bw p"
proof -
  have m: "0 \<le> maxBurstSize k bw p" "maxBurstSize k bw p < 2 ^ 62"
    using assms burst_value [OF assms] by (auto simp: pacer_ok_def)
  show "0 \<le> Budget k bw p now" "Budget k bw p now \<le> maxBurstSize k bw p"
    using m by (auto simp: Budget_def Let_def)
qed

lemma SentPacket_ok:
  assumes "consts_ok k" "pacer_ok p" "0 \<le> bw" "bw < 2 ^ 40" "0 \<le> sz"
  shows "pacer_ok (SentPacket k bw p t sz)"
    "budgetAtLastSent (SentPacket k bw p t sz) = max 0 (Budget k bw p t - sz)"
proof -
  note b = Budget_bounds [OF assms(1-4), of t] burst_value(2) [OF assms(1-4)]
  have "i64 (Budget k bw p t - sz) = Budget k bw p t - sz" if "sz \<le> Budget k bw p t"
    using that b assms(5) by (intro i64_id') simp_all
  then show "budgetAtLastSent (SentPacket k bw p t sz) = max 0 (Budget k bw p t - sz)"
    by (auto simp: SentPacket_def Let_def)
  then show "pacer_ok (SentPacket k bw p t sz)"
    using assms b by (auto simp: pacer_ok_def SentPacket_def Let_def)
qed

text \<open>A run of sends, each with the bandwidth of its moment.\<close>

fun pacer_run :: "quic_consts \<Rightarrow> pacer \<Rightarrow> (int \<times> int \<times> int) list \<Rightarrow> pacer" where
  "pacer_run k p [] = p"
| "pacer_run k p ((bw, t, sz) # sends) = pacer_run k (SentPacket k bw p t sz) sends"

lemma pacer_run_ok:
  "consts_ok k \<Longrightarrow> pacer_ok p \<Longrightarrow> \<forall>(bw, t, sz) \<in> set sends. 0 \<le> bw \<and> bw < 2 ^ 40 \<and> 0 \<le> sz \<Longrightarrow>
   pacer_ok (pacer_run k p sends)"
proof (induction k p sends rule: pacer_run.induct)
  case (2 k p bw t sz sends)
  have "pacer_ok (SentPacket k bw p t sz)" using 2(4) by (intro SentPacket_ok(1) 2(2,3)) simp_all
  with 2 show ?case by simp
qed simp

text \<open>
  Whatever was sent, at whatever times, the pacer never gives out more than the largest burst
  at once, and sending charges exactly the size of the packet, down to an empty budget.
\<close>

theorem pacer_budget_bounds:
  assumes "consts_ok k" "\<forall>(bw, t, sz) \<in> set sends. 0 \<le> bw \<and> bw < 2 ^ 40 \<and> 0 \<le> sz"
    and "0 \<le> bw" "bw < 2 ^ 40" "0 \<le> sz"
  defines "p \<equiv> pacer_run k (NewPacer k) sends"
  shows "0 \<le> Budget k bw p now \<and>
    Budget k bw p now \<le> max (4 * MinPacingDelay k * bw div 1000000000) (10 * pacer_maxDatagramSize p) \<and>
    budgetAtLastSent (SentPacket k bw p now sz) = max 0 (Budget k bw p now - sz)"
proof -
  have "pacer_ok p" unfolding p_def using pacer_run_ok [OF assms(1) pacer_ok_new assms(2)] assms(1) .
  with assms(1,3-5) show ?thesis
    using Budget_bounds [of k p bw now] SentPacket_ok(2) [of k p bw sz now] burst_value(1) [of k p bw]
    by simp
qed

lemma pacer_budget_bounds_witness:
  "0 \<le> Budget demo_consts 2000 (pacer_run demo_consts (NewPacer demo_consts) [(1000, 5, 1280)]) 9 \<and>
   budgetAtLastSent (SentPacket demo_consts 2000
       (pacer_run demo_consts (NewPacer demo_consts) [(1000, 5, 1280)]) 9 700) =
     max 0 (Budget demo_consts 2000 (pacer_run demo_consts (NewPacer demo_consts) [(1000, 5, 1280)]) 9 - 700)"
  using pacer_budget_bounds [OF demo_consts_ok, of "[(1000, 5, 1280)]" 2000 700 9] by simp

text \<open>Rounding up the wait: enough for the missing bytes, and never a full unit too long.\<close>

lemma ceil_div_covers:
  fixes q bw :: int
  assumes "0 < bw"
  shows "q \<le> bw * (q div bw + (if q mod bw > 0 then 1 else 0))"
    and "bw * (q div bw + (if q mod bw > 0 then 1 else 0)) \<le> q + bw"
proof -
  define k r where "k = bw * (q div bw)" and "r = q mod bw"
  have "q = k + r" unfolding k_def r_def by (rule mult_div_mod_eq [symmetric])
  moreover have "0 \<le> r" "r < bw" using assms by (simp_all add: r_def)
  ultimately show "q \<le> bw * (q div bw + (if q mod bw > 0 then 1 else 0))"
    "bw * (q div bw + (if q mod bw > 0 then 1 else 0)) \<le> q + bw"
    unfolding distrib_left k_def [symmetric] r_def [symmetric] by auto
qed

lemma ceil_div_bounds:
  fixes q bw :: int
  assumes "0 < bw" "0 \<le> q"
  shows "0 \<le> q div bw + (if q mod bw > 0 then 1 else 0)"
    "q div bw + (if q mod bw > 0 then 1 else 0) \<le> q + 1" "0 \<le> q div bw" "q div bw \<le> q"
  using assms zdiv_mono2 [of q 1 bw] by (auto simp: pos_imp_zdiv_nonneg_iff)

text \<open>Waiting \<open>w\<close> at \<open>bw\<close> earns what was missing, whichever part of the maximum decides \<open>w\<close>.\<close>

lemma wait_earns:
  fixes bw w d m need :: int
  assumes bw: "0 < bw" "bw < 2 ^ 40" and w: "w = max m d" and m: "0 \<le> m" "m \<le> 1000000"
    and need: "0 < need" "need \<le> 65535" and d: "1000000000 * need \<le> bw * d" "bw * d \<le> 1000000000 * need + bw"
  shows "1000000000 * need \<le> bw * w" "bw * w < 2 ^ 62" "need \<le> bw * w div 1000000000"
proof -
  show enough: "1000000000 * need \<le> bw * w"
    using d(1) mult_left_mono [of d w bw] bw(1) max.cobounded2 [of d m] unfolding w by linarith
  show "bw * w < 2 ^ 62"
  proof (cases "d \<le> m")
    case True
    then have "bw * w \<le> bw * 1000000" using m bw by (intro mult_left_mono) (simp_all add: w)
    also have "\<dots> < 2 ^ 62" using bw by simp
    finally show ?thesis .
  next
    case False
    then show ?thesis using d(2) need bw by (simp add: w)
  qed
  have "need = 1000000000 * need div 1000000000" by (rule nonzero_mult_div_cancel_left [symmetric]) simp
  also have "\<dots> \<le> bw * w div 1000000000" using enough by (rule zdiv_mono1) simp
  finally show "need \<le> bw * w div 1000000000" .
qed

text \<open>
  The send time the pacer asks for is late enough: with the bandwidth a sender reports (at
  least one byte per second), it does not divide by zero, and when the time it gives is reached
  with the bandwidth unchanged, the budget is that of a full packet, so the send loop cannot spin.
\<close>

theorem pacer_wakeup_has_budget:
  assumes k: "consts_ok k" and ok: "pacer_ok p" and bw: "0 < bw" "bw < 2 ^ 40"
    and t0: "0 < lastSentTime p" "lastSentTime p < 2 ^ 60"
    and low: "budgetAtLastSent p < pacer_maxDatagramSize p"
  shows "\<exists>t. TimeUntilSend k bw p = Some t \<and> lastSentTime p + MinPacingDelay k \<le> t \<and>
    pacer_maxDatagramSize p \<le> Budget k bw p t"
proof -
  let ?m = "pacer_maxDatagramSize p" and ?b = "budgetAtLastSent p"
  let ?need = "?m - ?b"
  define diff where "diff = 1000000000 * ?need"
  define d where "d = diff div bw + (if diff mod bw > 0 then 1 else 0)"
  define w where "w = max (MinPacingDelay k) d"
  have need: "0 < ?need" "?need \<le> 65535" using ok low by (auto simp: pacer_ok_def)
  have u: "u64 ?need = ?need" "u64 bw = bw" using need bw by (simp_all add: u64_def)
  have diff: "0 \<le> diff" "diff \<le> 65535000000000" using need by (simp_all add: diff_def)
  note b = ceil_div_bounds [OF bw(1) diff(1), folded d_def]
  have u2: "u64 (1000000000 * u64 ?need) = diff" using u(1) diff by (simp add: diff_def u64_def)
  have uD: "(if diff mod bw > 0 then u64 (diff div bw + 1) else diff div bw) = d"
    using b(3,4) diff by (auto simp: d_def u64_def)
  have iD: "i64 d = d" using b(1,2) diff by (intro i64_id') simp_all
  have w: "0 \<le> w" "w \<le> 65535000000001" using b(1,2) diff k by (auto simp: w_def consts_ok_def)
  have it: "i64 (lastSentTime p + w) = lastSentTime p + w" using w t0 by (intro i64_id') simp_all
  have "\<not> ?m \<le> ?b" "bw \<noteq> 0" using low bw by simp_all
  then have t: "TimeUntilSend k bw p = Some (lastSentTime p + w)"
    unfolding TimeUntilSend_def Let_def u2 u(2) uD iD w_def [symmetric] it by simp
  have m: "0 \<le> MinPacingDelay k" "MinPacingDelay k \<le> 1000000" using k by (simp_all add: consts_ok_def)
  note e = wait_earns [OF bw w_def m need ceil_div_covers [OF bw(1), of diff, folded d_def, unfolded diff_def]]
  have pos: "0 \<le> bw * w" using bw w by simp
  then have q: "bw * w div 1000000000 < 2 ^ 62" using e(2) zdiv_mono2 [of "bw * w" 1 1000000000] by simp
  have i: "i64 (bw * w) = bw * w" "i64 w = w" "i64 (?b + bw * w div 1000000000) = ?b + bw * w div 1000000000"
    using w e pos q ok by (auto intro!: i64_id' simp: pacer_ok_def)
  have "?m \<le> maxBurstSize k bw p"
    using burst_value(1) [OF k ok] bw ok by (simp add: pacer_ok_def le_max_iff_disj)
  then have "?m \<le> Budget k bw p (lastSentTime p + w)"
    using t0 ok i e(3) pos by (simp add: Budget_def Let_def pacer_ok_def)
  then show ?thesis using t by (auto simp: w_def)
qed

lemma pacer_wakeup_has_budget_witness:
  "\<exists>t. TimeUntilSend demo_consts 65536 (SentPacket demo_consts 65536 (NewPacer demo_consts) 7 12800) = Some t \<and> 1000007 \<le> t \<and>
    1280 \<le> Budget demo_consts 65536 (SentPacket demo_consts 65536 (NewPacer demo_consts) 7 12800) t"
proof -
  have p: "SentPacket demo_consts 65536 (NewPacer demo_consts) 7 12800 =
      \<lparr>budgetAtLastSent = 0, pacer_maxDatagramSize = 1280, lastSentTime = 7\<rparr>"
    by code_simp
  show ?thesis
    using pacer_wakeup_has_budget [OF demo_consts_ok, of "SentPacket demo_consts 65536 (NewPacer demo_consts) 7 12800" 65536]
    by (simp add: p pacer_ok_def) (simp add: demo_consts_def)
qed

end
