(* ===== verification/Bbr_Sender.thy ===== *)
theory Bbr_Sender
  imports Bandwidth_Sampler Pacer Go_Strings
begin

text \<open>
  \<open>core/internal/congestion/bbr/bbr_sender.go\<close>: the BBR state machine.  What it asks of the QUIC
  library is an argument: the minimum RTT of the RTT statistics (\<open>rtt\<close>) and the constants \<open>k\<close>; the
  random offset of the gain cycle is the raw draw \<open>draw\<close>.  \<open>None\<close> is a panic.  Fields that the code
  marks as not used, and debug output, are left out.
\<close>

definition minBps :: int where "minBps = 65536"
definition initialCongestionWindowPackets :: int where "initialCongestionWindowPackets = 32"
definition minCongestionWindowPackets :: int where "minCongestionWindowPackets = 4"
definition defaultHighGain :: float64 where "defaultHighGain = fl (2885 / 1000)"
definition derivedHighCWNDGain :: float64 where "derivedHighCWNDGain = 2"

definition pacingGains :: "float64 list" where
  "pacingGains = [5 / 4, 3 / 4, 1, 1, 1, 1, 1, 1]"

definition gainCycleLength :: nat where "gainCycleLength = length pacingGains"
definition bandwidthWindowSize :: int where "bandwidthWindowSize = int gainCycleLength + 2"
definition minRttExpiry :: int where "minRttExpiry = 10 * second_ns"
definition probeRttTime :: int where "probeRttTime = 200000000"
definition startupGrowthTarget :: float64 where "startupGrowthTarget = 5 / 4"
definition roundTripsWithoutGrowthBeforeExitingStartup :: int where
  "roundTripsWithoutGrowthBeforeExitingStartup = 3"
definition defaultStartupFullLossCount :: int where "defaultStartupFullLossCount = 8"
definition quicBbr2DefaultLossThreshold :: float64 where "quicBbr2DefaultLossThreshold = fl (2 / 100)"

datatype bbrMode = Startup | Drain | ProbeBw | ProbeRtt

datatype bbrRecoveryState = NotInRecovery | Conservation | Growth

section \<open>Profiles\<close>

record profileConfig =
  pc_highGain :: float64
  pc_highCwndGain :: float64
  pc_congestionWindowGainConstant :: float64
  pc_numStartupRtts :: int
  pc_drainToTarget :: bool
  pc_detectOvershooting :: bool
  pc_bytesLostMultiplier :: int
  pc_enableAckAggregationStartup :: bool
  pc_expireAckAggregationStartup :: bool
  pc_enableOverestimateAvoidance :: bool
  pc_reduceExtraAckedOnBandwidthIncrease :: bool

definition ParseProfile :: "string \<Rightarrow> string + string" where
  "ParseProfile p =
     (let normalized = ToLower p
      in if normalized = '''' \<or> normalized = ''standard'' then Inr ''standard''
         else if normalized = ''conservative'' then Inr ''conservative''
         else if normalized = ''aggressive'' then Inr ''aggressive''
         else Inl ''unsupported BBR profile'')"

definition configForProfile :: "string \<Rightarrow> profileConfig" where
  "configForProfile p =
     (if p = ''conservative'' then
        \<lparr>pc_highGain = 9 / 4, pc_highCwndGain = 7 / 4, pc_congestionWindowGainConstant = 7 / 4,
         pc_numStartupRtts = 2, pc_drainToTarget = True, pc_detectOvershooting = True,
         pc_bytesLostMultiplier = 1, pc_enableAckAggregationStartup = False,
         pc_expireAckAggregationStartup = False, pc_enableOverestimateAvoidance = True,
         pc_reduceExtraAckedOnBandwidthIncrease = True\<rparr>
      else if p = ''aggressive'' then
        \<lparr>pc_highGain = 3, pc_highCwndGain = 9 / 4, pc_congestionWindowGainConstant = 5 / 2,
         pc_numStartupRtts = 4, pc_drainToTarget = False, pc_detectOvershooting = False,
         pc_bytesLostMultiplier = 2, pc_enableAckAggregationStartup = True,
         pc_expireAckAggregationStartup = True, pc_enableOverestimateAvoidance = False,
         pc_reduceExtraAckedOnBandwidthIncrease = False\<rparr>
      else
        \<lparr>pc_highGain = defaultHighGain, pc_highCwndGain = derivedHighCWNDGain,
         pc_congestionWindowGainConstant = 2,
         pc_numStartupRtts = roundTripsWithoutGrowthBeforeExitingStartup, pc_drainToTarget = False,
         pc_detectOvershooting = False, pc_bytesLostMultiplier = 2,
         pc_enableAckAggregationStartup = False, pc_expireAckAggregationStartup = False,
         pc_enableOverestimateAvoidance = False, pc_reduceExtraAckedOnBandwidthIncrease = False\<rparr>)"

section \<open>State\<close>

record bbr =
  bbr_pacer :: pacer
  mode :: bbrMode
  sampler :: bandwidthSampler
  roundTripCount :: int
  bbr_lastSentPacket :: int
  currentRoundTripEnd :: int
  numLossEventsInRound :: int
  bytesLostInRound :: int
  maxBandwidth :: "int wfilter"
  minRtt :: int
  minRttTimestamp :: int
  congestionWindow :: int
  initialCongestionWindow :: int
  maxCongestionWindow :: int
  minCongestionWindow :: int
  profile :: string
  highGain :: float64
  highCwndGain :: float64
  drainGain :: float64
  pacingRate :: int
  pacingGain :: float64
  congestionWindowGain :: float64
  congestionWindowGainConstant :: float64
  numStartupRtts :: int
  cycleCurrentOffset :: nat
  lastCycleStart :: int
  isAtFullBandwidth :: bool
  roundsWithoutBandwidthGain :: int
  bandwidthAtLastRound :: int
  exitingQuiescence :: bool
  exitProbeRttAt :: int
  probeRttRoundPassed :: bool
  lastSampleIsAppLimited :: bool
  hasNoAppLimitedSample :: bool
  recoveryState :: bbrRecoveryState
  endRecoveryAt :: int
  recoveryWindow :: int
  enableAckAggregationDuringStartup :: bool
  expireAckAggregationInStartup :: bool
  drainToTarget :: bool
  detectOvershooting :: bool
  bytesLostWhileDetectingOvershooting :: int
  bytesLostMultiplierWhileDetectingOvershooting :: int
  cwndToCalculateMinPacingRate :: int
  bbr_maxDatagramSize :: int
  bytesInFlight :: int

section \<open>Set-up\<close>

definition minCongestionWindowForMaxDatagramSize :: "int \<Rightarrow> int" where
  "minCongestionWindowForMaxDatagramSize n = i64 (minCongestionWindowPackets * n)"

definition enterStartupMode :: "bbr \<Rightarrow> bbr" where
  "enterStartupMode b = b\<lparr>mode := Startup, pacingGain := highGain b, congestionWindowGain := highCwndGain b\<rparr>"

definition applyProfile :: "bbr \<Rightarrow> string \<Rightarrow> bbr" where
  "applyProfile b p =
     (let p = (if p = '''' then ''standard'' else p);
          cfg = configForProfile p;
          s = (if pc_enableOverestimateAvoidance cfg then EnableOverestimateAvoidance (sampler b)
               else sampler b);
          s = SetReduceExtraAckedOnBandwidthIncrease s (pc_reduceExtraAckedOnBandwidthIncrease cfg)
      in b\<lparr>profile := p, highGain := pc_highGain cfg, highCwndGain := pc_highCwndGain cfg,
           drainGain := fdiv 1 (pc_highGain cfg),
           congestionWindowGainConstant := pc_congestionWindowGainConstant cfg,
           numStartupRtts := pc_numStartupRtts cfg, drainToTarget := pc_drainToTarget cfg,
           detectOvershooting := pc_detectOvershooting cfg,
           bytesLostMultiplierWhileDetectingOvershooting := pc_bytesLostMultiplier cfg,
           enableAckAggregationDuringStartup := pc_enableAckAggregationStartup cfg,
           expireAckAggregationInStartup := pc_expireAckAggregationStartup cfg, sampler := s\<rparr>)"

definition newBbrSender :: "quic_consts \<Rightarrow> int \<Rightarrow> int \<Rightarrow> int \<Rightarrow> string \<Rightarrow> bbr" where
  "newBbrSender k initialMaxDatagramSize initialCwnd initialMaxCwnd p =
     (let b = \<lparr>bbr_pacer = NewPacer k, mode = Startup, sampler = newBandwidthSampler bandwidthWindowSize,
        roundTripCount = 0, bbr_lastSentPacket = invalidPacketNumber,
        currentRoundTripEnd = invalidPacketNumber, numLossEventsInRound = 0, bytesLostInRound = 0,
        maxBandwidth = NewWindowedFilter 0 bandwidthWindowSize, minRtt = 0, minRttTimestamp = 0,
        congestionWindow = initialCwnd, initialCongestionWindow = initialCwnd,
        maxCongestionWindow = initialMaxCwnd,
        minCongestionWindow = minCongestionWindowForMaxDatagramSize initialMaxDatagramSize,
        profile = ''standard'', highGain = defaultHighGain, highCwndGain = derivedHighCWNDGain,
        drainGain = fdiv 1 defaultHighGain, pacingRate = 0, pacingGain = 1, congestionWindowGain = 1,
        congestionWindowGainConstant = 2, numStartupRtts = roundTripsWithoutGrowthBeforeExitingStartup,
        cycleCurrentOffset = 0, lastCycleStart = 0, isAtFullBandwidth = False,
        roundsWithoutBandwidthGain = 0, bandwidthAtLastRound = 0, exitingQuiescence = False,
        exitProbeRttAt = 0, probeRttRoundPassed = False, lastSampleIsAppLimited = False,
        hasNoAppLimitedSample = False, recoveryState = NotInRecovery,
        endRecoveryAt = invalidPacketNumber, recoveryWindow = initialMaxCwnd,
        enableAckAggregationDuringStartup = False, expireAckAggregationInStartup = False,
        drainToTarget = False, detectOvershooting = False, bytesLostWhileDetectingOvershooting = 0,
        bytesLostMultiplierWhileDetectingOvershooting = 2, cwndToCalculateMinPacingRate = initialCwnd,
        bbr_maxDatagramSize = initialMaxDatagramSize, bytesInFlight = 0\<rparr>;
      b = applyProfile b p
      in enterStartupMode b)"

definition NewBbrSender :: "quic_consts \<Rightarrow> int \<Rightarrow> string \<Rightarrow> bbr" where
  "NewBbrSender k initialMaxDatagramSize p =
     newBbrSender k initialMaxDatagramSize
       (i64 (initialCongestionWindowPackets * initialMaxDatagramSize))
       (i64 (MaxCongestionWindowPackets k * initialMaxDatagramSize)) p"

definition scaleByteWindowForDatagramSize :: "int \<Rightarrow> int \<Rightarrow> int \<Rightarrow> int option" where
  "scaleByteWindowForDatagramSize window old new =
     (if old = new then Some window
      else if u64 old = 0 then None
      else Some (i64 (u64 (u64 window * u64 new) div u64 old)))"

definition rescalePacketSizedWindows :: "bbr \<Rightarrow> int \<Rightarrow> bbr option" where
  "rescalePacketSizedWindows b n =
     (let old = bbr_maxDatagramSize b; b = b\<lparr>bbr_maxDatagramSize := n\<rparr>
      in case scaleByteWindowForDatagramSize (initialCongestionWindow b) old n of
           None \<Rightarrow> None
         | Some w \<Rightarrow>
             (let b = b\<lparr>initialCongestionWindow := w\<rparr>
              in case scaleByteWindowForDatagramSize (maxCongestionWindow b) old n of
                   None \<Rightarrow> None
                 | Some w \<Rightarrow>
                     (let b = b\<lparr>maxCongestionWindow := w,
                               minCongestionWindow := minCongestionWindowForMaxDatagramSize n\<rparr>
                      in case scaleByteWindowForDatagramSize (cwndToCalculateMinPacingRate b) old n of
                           None \<Rightarrow> None
                         | Some w \<Rightarrow> Some (b\<lparr>cwndToCalculateMinPacingRate := w\<rparr>))))"

definition bbr_SetMaxDatagramSize :: "bbr \<Rightarrow> int \<Rightarrow> bbr option" where
  "bbr_SetMaxDatagramSize b s =
     (if s < bbr_maxDatagramSize b then None
      else
        (let oldMin = minCongestionWindow b; oldInitial = initialCongestionWindow b
         in case rescalePacketSizedWindows b s of
              None \<Rightarrow> None
            | Some b \<Rightarrow>
                (let b = (if congestionWindow b = oldMin then b\<lparr>congestionWindow := minCongestionWindow b\<rparr>
                          else if congestionWindow b = oldInitial
                          then b\<lparr>congestionWindow := initialCongestionWindow b\<rparr>
                          else b\<lparr>congestionWindow :=
                            min (maxCongestionWindow b) (max (congestionWindow b) (minCongestionWindow b))\<rparr>);
                     b = b\<lparr>recoveryWindow :=
                            min (maxCongestionWindow b) (max (recoveryWindow b) (minCongestionWindow b))\<rparr>
                 in Some (b\<lparr>bbr_pacer := pacer_SetMaxDatagramSize (bbr_pacer b) s\<rparr>))))"

section \<open>Estimates\<close>

definition bandwidthEstimate :: "bbr \<Rightarrow> int" where "bandwidthEstimate b = GetBest (maxBandwidth b)"

definition getMinRtt :: "int \<Rightarrow> bbr \<Rightarrow> int" where
  "getMinRtt rtt b = (if minRtt b \<noteq> 0 then minRtt b else if rtt = 0 then 100000000 else rtt)"

definition bdpFromRttAndBandwidth :: "int \<Rightarrow> int \<Rightarrow> int" where
  "bdpFromRttAndBandwidth r bandwidth =
     quot (quot (i64 (r * i64 bandwidth)) BytesPerSecond) second_ns"

definition getTargetCongestionWindow :: "int \<Rightarrow> bbr \<Rightarrow> float64 \<Rightarrow> int" where
  "getTargetCongestionWindow rtt b gain =
     (let bdp = bdpFromRttAndBandwidth (getMinRtt rtt b) (bandwidthEstimate b);
          w = f64_to_i64 (fmul gain (f64_of_int bdp));
          w = (if w = 0 then f64_to_i64 (fmul gain (f64_of_int (initialCongestionWindow b))) else w)
      in max w (minCongestionWindow b))"

definition probeRttCongestionWindow :: "bbr \<Rightarrow> int" where
  "probeRttCongestionWindow b = minCongestionWindow b"

definition PacingRate :: "int \<Rightarrow> bbr \<Rightarrow> int option" where
  "PacingRate rtt b =
     (if pacingRate b = 0 then
        map_option (\<lambda>bw. f64_to_u64 (fmul (highGain b) (f64_of_int bw)))
          (BandwidthFromDelta (initialCongestionWindow b) (getMinRtt rtt b))
      else Some (pacingRate b))"

definition bandwidthForPacer :: "int \<Rightarrow> bbr \<Rightarrow> int option" where
  "bandwidthForPacer rtt b =
     map_option (\<lambda>rate. let bps = f64_to_i64 (fdiv (f64_of_int rate) (f64_of_int BytesPerSecond))
                       in if bps < minBps then minBps else bps) (PacingRate rtt b)"

section \<open>The interface to the send loop\<close>

definition InSlowStart :: "bbr \<Rightarrow> bool" where "InSlowStart b \<longleftrightarrow> mode b = Startup"
definition InRecovery :: "bbr \<Rightarrow> bool" where "InRecovery b \<longleftrightarrow> recoveryState b \<noteq> NotInRecovery"

definition bbr_GetCongestionWindow :: "bbr \<Rightarrow> int" where
  "bbr_GetCongestionWindow b =
     (if mode b = ProbeRtt then probeRttCongestionWindow b
      else if InRecovery b then min (congestionWindow b) (recoveryWindow b)
      else congestionWindow b)"

definition bbr_CanSend :: "bbr \<Rightarrow> int \<Rightarrow> bool" where
  "bbr_CanSend b inflight \<longleftrightarrow> inflight < bbr_GetCongestionWindow b"

definition bbr_TimeUntilSend :: "quic_consts \<Rightarrow> int \<Rightarrow> bbr \<Rightarrow> int option" where
  "bbr_TimeUntilSend k rtt b =
     (case bandwidthForPacer rtt b of None \<Rightarrow> None | Some bw \<Rightarrow> TimeUntilSend k bw (bbr_pacer b))"

definition bbr_HasPacingBudget :: "quic_consts \<Rightarrow> int \<Rightarrow> bbr \<Rightarrow> int \<Rightarrow> bool option" where
  "bbr_HasPacingBudget k rtt b now =
     (case bandwidthForPacer rtt b of
        None \<Rightarrow> None | Some bw \<Rightarrow> Some (Budget k bw (bbr_pacer b) now \<ge> bbr_maxDatagramSize b))"

definition bbr_OnPacketSent ::
  "quic_consts \<Rightarrow> int \<Rightarrow> bbr \<Rightarrow> int \<Rightarrow> int \<Rightarrow> int \<Rightarrow> int \<Rightarrow> bool \<Rightarrow> bbr option" where
  "bbr_OnPacketSent k rtt b t inflight packetNumber n isRetransmittable =
     (case bandwidthForPacer rtt b of
        None \<Rightarrow> None
      | Some bw \<Rightarrow>
          (let b = b\<lparr>bbr_pacer := SentPacket k bw (bbr_pacer b) t n,
                    bbr_lastSentPacket := packetNumber, bytesInFlight := inflight\<rparr>;
               b = (if inflight = 0 then b\<lparr>exitingQuiescence := True\<rparr> else b)
           in map_option (\<lambda>s. b\<lparr>sampler := s\<rparr>)
                (sampler_OnPacketSent (sampler b) t packetNumber n inflight isRetransmittable)))"

section \<open>Congestion events\<close>

definition maybeAppLimited :: "int \<Rightarrow> bbr \<Rightarrow> int \<Rightarrow> bbr" where
  "maybeAppLimited rtt b inflight =
     (if inflight < getTargetCongestionWindow rtt b 1 then b\<lparr>sampler := OnAppLimited (sampler b)\<rparr> else b)"

definition updateRoundTripCounter :: "bbr \<Rightarrow> int \<Rightarrow> bbr \<times> bool" where
  "updateRoundTripCounter b lastAcked =
     (if currentRoundTripEnd b = invalidPacketNumber \<or> lastAcked > currentRoundTripEnd b
      then (b\<lparr>roundTripCount := u64 (roundTripCount b + 1),
              currentRoundTripEnd := bbr_lastSentPacket b\<rparr>, True)
      else (b, False))"

definition updateRecoveryState :: "bbr \<Rightarrow> int \<Rightarrow> bool \<Rightarrow> bool \<Rightarrow> bbr" where
  "updateRecoveryState b lastAcked hasLosses isRoundStart =
     (if \<not> isAtFullBandwidth b then b
      else
        (let b = (if hasLosses then b\<lparr>endRecoveryAt := bbr_lastSentPacket b\<rparr> else b);
             leave = (\<lambda>b. if \<not> hasLosses \<and> lastAcked > endRecoveryAt b
                          then b\<lparr>recoveryState := NotInRecovery\<rparr> else b)
         in case recoveryState b of
              NotInRecovery \<Rightarrow>
                (if hasLosses then b\<lparr>recoveryState := Conservation, recoveryWindow := 0,
                                    currentRoundTripEnd := bbr_lastSentPacket b\<rparr> else b)
            | Conservation \<Rightarrow> leave (if isRoundStart then b\<lparr>recoveryState := Growth\<rparr> else b)
            | Growth \<Rightarrow> leave b))"

definition maybeUpdateMinRtt :: "bbr \<Rightarrow> int \<Rightarrow> int \<Rightarrow> bbr \<times> bool" where
  "maybeUpdateMinRtt b now sampleMinRtt =
     (let expired = (minRtt b \<noteq> 0 \<and> now > i64 (minRttTimestamp b + minRttExpiry));
          b = (if expired \<or> sampleMinRtt < minRtt b \<or> minRtt b = 0
               then b\<lparr>minRtt := sampleMinRtt, minRttTimestamp := now\<rparr> else b)
      in (b, expired))"

definition updateGainCyclePhase :: "int \<Rightarrow> bbr \<Rightarrow> int \<Rightarrow> int \<Rightarrow> bool \<Rightarrow> bbr" where
  "updateGainCyclePhase rtt b now priorInFlight hasLosses =
     (let advance = (now > i64 (lastCycleStart b + getMinRtt rtt b));
          advance = (if pacingGain b > 1 \<and> \<not> hasLosses \<and>
                        priorInFlight < getTargetCongestionWindow rtt b (pacingGain b)
                     then False else advance);
          advance = (if pacingGain b < 1 \<and> bytesInFlight b \<le> getTargetCongestionWindow rtt b 1
                     then True else advance)
      in if advance then
           (let b = b\<lparr>cycleCurrentOffset := (cycleCurrentOffset b + 1) mod gainCycleLength,
                     lastCycleStart := now\<rparr>
            in if drainToTarget b \<and> pacingGain b < 1 \<and> pacingGains ! cycleCurrentOffset b = 1 \<and>
                  bytesInFlight b > getTargetCongestionWindow rtt b 1
               then b
               else b\<lparr>pacingGain := pacingGains ! cycleCurrentOffset b\<rparr>)
         else b)"

definition shouldExitStartupDueToLoss :: "bbr \<Rightarrow> sendTimeState \<Rightarrow> bool" where
  "shouldExitStartupDueToLoss b st \<longleftrightarrow>
     \<not> (numLossEventsInRound b < defaultStartupFullLossCount \<or> \<not> isValid st) \<and>
     sts_bytesInFlight st > 0 \<and> bytesLostInRound b > 0 \<and>
     bytesLostInRound b > f64_to_i64 (fmul (f64_of_int (sts_bytesInFlight st)) quicBbr2DefaultLossThreshold)"

definition checkIfFullBandwidthReached :: "bbr \<Rightarrow> sendTimeState \<Rightarrow> bbr" where
  "checkIfFullBandwidthReached b st =
     (if lastSampleIsAppLimited b then b
      else
        (let target = f64_to_u64 (fmul (f64_of_int (bandwidthAtLastRound b)) startupGrowthTarget)
         in if bandwidthEstimate b \<ge> target then
              (let b = b\<lparr>bandwidthAtLastRound := bandwidthEstimate b, roundsWithoutBandwidthGain := 0\<rparr>
               in if expireAckAggregationInStartup b
                  then b\<lparr>sampler := ResetMaxAckHeightTracker (sampler b) 0 (roundTripCount b)\<rparr> else b)
            else
              (let b = b\<lparr>roundsWithoutBandwidthGain := i64 (roundsWithoutBandwidthGain b + 1)\<rparr>
               in if roundsWithoutBandwidthGain b \<ge> numStartupRtts b \<or> shouldExitStartupDueToLoss b st
                  then b\<lparr>isAtFullBandwidth := True\<rparr> else b)))"

definition enterProbeBandwidthMode :: "quic_consts \<Rightarrow> nat \<Rightarrow> bbr \<Rightarrow> int \<Rightarrow> bbr" where
  "enterProbeBandwidthMode k draw b now =
     (let offset = intn draw (PacketsPerConnectionID k) mod (gainCycleLength - 1);
          offset = (if offset \<ge> 1 then offset + 1 else offset)
      in b\<lparr>mode := ProbeBw, congestionWindowGain := congestionWindowGainConstant b,
           cycleCurrentOffset := offset, lastCycleStart := now, pacingGain := pacingGains ! offset\<rparr>)"

definition maybeExitStartupOrDrain :: "quic_consts \<Rightarrow> int \<Rightarrow> nat \<Rightarrow> bbr \<Rightarrow> int \<Rightarrow> bbr" where
  "maybeExitStartupOrDrain k rtt draw b now =
     (let b = (if mode b = Startup \<and> isAtFullBandwidth b
               then b\<lparr>mode := Drain, pacingGain := drainGain b, congestionWindowGain := highCwndGain b\<rparr>
               else b)
      in if mode b = Drain \<and> bytesInFlight b \<le> getTargetCongestionWindow rtt b 1
         then enterProbeBandwidthMode k draw b now else b)"

text \<open>\<open>maybeEnterOrExitProbeRtt\<close> in its three parts: entering, being in and leaving the mode.\<close>

definition enter_probe_rtt :: "bbr \<Rightarrow> bool \<Rightarrow> bbr" where
  "enter_probe_rtt b minRttExpired =
     (if minRttExpired \<and> \<not> exitingQuiescence b \<and> mode b \<noteq> ProbeRtt
      then b\<lparr>mode := ProbeRtt, pacingGain := 1, exitProbeRttAt := 0\<rparr> else b)"

definition leave_probe_rtt :: "quic_consts \<Rightarrow> nat \<Rightarrow> bbr \<Rightarrow> int \<Rightarrow> bbr" where
  "leave_probe_rtt k draw b now =
     (let b = b\<lparr>minRttTimestamp := now\<rparr>
      in if \<not> isAtFullBandwidth b then enterStartupMode b else enterProbeBandwidthMode k draw b now)"

definition in_probe_rtt :: "quic_consts \<Rightarrow> nat \<Rightarrow> bbr \<Rightarrow> int \<Rightarrow> bool \<Rightarrow> bbr" where
  "in_probe_rtt k draw b now isRoundStart =
     (let b = b\<lparr>sampler := OnAppLimited (sampler b)\<rparr>
      in if exitProbeRttAt b = 0 then
           (if bytesInFlight b < i64 (probeRttCongestionWindow b + MaxPacketBufferSize k)
            then b\<lparr>exitProbeRttAt := i64 (now + probeRttTime), probeRttRoundPassed := False\<rparr>
            else b)
         else
           (let b = (if isRoundStart then b\<lparr>probeRttRoundPassed := True\<rparr> else b)
            in if i64 (now - exitProbeRttAt b) \<ge> 0 \<and> probeRttRoundPassed b
               then leave_probe_rtt k draw b now else b))"

definition maybeEnterOrExitProbeRtt :: "quic_consts \<Rightarrow> nat \<Rightarrow> bbr \<Rightarrow> int \<Rightarrow> bool \<Rightarrow> bool \<Rightarrow> bbr" where
  "maybeEnterOrExitProbeRtt k draw b now isRoundStart minRttExpired =
     (let b = enter_probe_rtt b minRttExpired;
          b = (if mode b = ProbeRtt then in_probe_rtt k draw b now isRoundStart else b)
      in b\<lparr>exitingQuiescence := False\<rparr>)"

definition calculatePacingRate :: "int \<Rightarrow> bbr \<Rightarrow> int \<Rightarrow> bbr option" where
  "calculatePacingRate rtt b bytesLost =
     (if bandwidthEstimate b = 0 then Some b
      else
        (let targetRate = f64_to_u64 (fmul (pacingGain b) (f64_of_int (bandwidthEstimate b)))
         in if isAtFullBandwidth b then Some (b\<lparr>pacingRate := targetRate\<rparr>)
            else if pacingRate b = 0 \<and> rtt \<noteq> 0 then
              map_option (\<lambda>r. b\<lparr>pacingRate := r\<rparr>) (BandwidthFromDelta (initialCongestionWindow b) rtt)
            else
              map_option (\<lambda>b. b\<lparr>pacingRate := max (pacingRate b) targetRate\<rparr>)
                (if detectOvershooting b then
                   (let b = b\<lparr>bytesLostWhileDetectingOvershooting :=
                             i64 (bytesLostWhileDetectingOvershooting b + bytesLost)\<rparr>
                    in if pacingRate b > targetRate \<and> bytesLostWhileDetectingOvershooting b > 0 \<and>
                          (hasNoAppLimitedSample b \<or>
                           i64 (bytesLostWhileDetectingOvershooting b *
                                bytesLostMultiplierWhileDetectingOvershooting b) > initialCongestionWindow b)
                       then
                         map_option (\<lambda>r. b\<lparr>pacingRate := max targetRate r,
                             bytesLostWhileDetectingOvershooting := 0, detectOvershooting := False\<rparr>)
                           (BandwidthFromDelta (cwndToCalculateMinPacingRate b) rtt)
                       else Some b)
                 else Some b)))"

definition calculateCongestionWindow :: "int \<Rightarrow> bbr \<Rightarrow> int \<Rightarrow> int \<Rightarrow> bbr" where
  "calculateCongestionWindow rtt b acked excessAcked =
     (if mode b = ProbeRtt then b
      else
        (let target = getTargetCongestionWindow rtt b (congestionWindowGain b);
             target = (if isAtFullBandwidth b then i64 (target + MaxAckHeight (sampler b))
                       else if enableAckAggregationDuringStartup b then i64 (target + excessAcked)
                       else target);
             w = (if isAtFullBandwidth b then min target (i64 (congestionWindow b + acked))
                  else if congestionWindow b < target \<or>
                          totalBytesAcked (sampler b) < initialCongestionWindow b
                  then i64 (congestionWindow b + acked)
                  else congestionWindow b);
             w = max w (minCongestionWindow b)
         in b\<lparr>congestionWindow := min w (maxCongestionWindow b)\<rparr>))"

definition calculateRecoveryWindow :: "bbr \<Rightarrow> int \<Rightarrow> int \<Rightarrow> bbr" where
  "calculateRecoveryWindow b acked lost =
     (if recoveryState b = NotInRecovery then b
      else if recoveryWindow b = 0 then
        b\<lparr>recoveryWindow := max (minCongestionWindow b) (i64 (bytesInFlight b + acked))\<rparr>
      else
        (let w = (if recoveryWindow b \<ge> lost then i64 (recoveryWindow b - lost) else bbr_maxDatagramSize b);
             w = (if recoveryState b = Growth then i64 (w + acked) else w);
             w = max w (i64 (bytesInFlight b + acked))
         in b\<lparr>recoveryWindow := max (minCongestionWindow b) w\<rparr>))"

text \<open>The parts of \<open>OnCongestionEventEx\<close>, in their order.\<close>

fun subtract_all :: "int \<Rightarrow> packet_info list \<Rightarrow> int" where
  "subtract_all n [] = n"
| "subtract_all n ((_, m) # ps) = subtract_all (i64 (n - m)) ps"

definition event_rounds :: "bbr \<Rightarrow> packet_info list \<Rightarrow> packet_info list \<Rightarrow> bbr \<times> bool" where
  "event_rounds b acked lost =
     (if acked \<noteq> [] then
        (let lastAcked = fst (last acked); (b, isRoundStart) = updateRoundTripCounter b lastAcked
         in (updateRecoveryState b lastAcked (lost \<noteq> []) isRoundStart, isRoundStart))
      else (b, False))"

text \<open>What the sample changes: app-limited flags, bandwidth filter, minimum RTT, loss counters.\<close>

definition event_sample ::
  "bbr \<Rightarrow> int \<Rightarrow> congestionEventSample \<Rightarrow> int \<Rightarrow> int \<Rightarrow> bool \<Rightarrow> bbr \<times> bool" where
  "event_sample b t sample ackedBefore bytesLost hasLosses =
     (let b = (if isValid (lastPacketSendState sample)
               then b\<lparr>lastSampleIsAppLimited := sts_isAppLimited (lastPacketSendState sample),
                      hasNoAppLimitedSample := (hasNoAppLimitedSample b \<or>
                        \<not> sts_isAppLimited (lastPacketSendState sample))\<rparr>
               else b);
          b = (if ackedBefore \<noteq> totalBytesAcked (sampler b) \<and>
                  (\<not> sampleIsAppLimited sample \<or> sampleMaxBandwidth sample > GetBest (maxBandwidth b))
               then b\<lparr>maxBandwidth := wf_Update MaxFilter 0 (maxBandwidth b) (sampleMaxBandwidth sample)
                        (roundTripCount b)\<rparr>
               else b);
          (b, minRttExpired) = (if sampleRtt sample \<noteq> infRTT
                                then maybeUpdateMinRtt b t (sampleRtt sample) else (b, False));
          b = (if hasLosses
               then b\<lparr>numLossEventsInRound := u64 (numLossEventsInRound b + 1),
                      bytesLostInRound := i64 (bytesLostInRound b + bytesLost)\<rparr>
               else b)
      in (b, minRttExpired))"

definition event_modes ::
  "quic_consts \<Rightarrow> int \<Rightarrow> nat \<Rightarrow> bbr \<Rightarrow> int \<Rightarrow> int \<Rightarrow> sendTimeState \<Rightarrow> bool \<Rightarrow> bool \<Rightarrow> bool \<Rightarrow> bbr" where
  "event_modes k rtt draw b priorInFlight t sendState hasLosses isRoundStart minRttExpired =
     (let b = (if mode b = ProbeBw then updateGainCyclePhase rtt b t priorInFlight hasLosses else b);
          b = (if isRoundStart \<and> \<not> isAtFullBandwidth b then checkIfFullBandwidthReached b sendState else b);
          b = maybeExitStartupOrDrain k rtt draw b t
      in maybeEnterOrExitProbeRtt k draw b t isRoundStart minRttExpired)"

definition leastUnacked :: "packet_info list \<Rightarrow> packet_info list \<Rightarrow> int option" where
  "leastUnacked acked lost =
     (if acked \<noteq> [] then Some (i64 (fst (last acked) - 2))
      else if lost = [] then None
      else Some (i64 (fst (last lost) + 1)))"

definition event_outputs ::
  "int \<Rightarrow> bbr \<Rightarrow> int \<Rightarrow> int \<Rightarrow> int \<Rightarrow> packet_info list \<Rightarrow> packet_info list \<Rightarrow> bool \<Rightarrow> bbr option" where
  "event_outputs rtt b acked excess lostBytes ackedPackets lostPackets isRoundStart =
     Option.bind (calculatePacingRate rtt b lostBytes) (\<lambda>b.
       let b = calculateCongestionWindow rtt b acked excess;
           b = calculateRecoveryWindow b acked lostBytes
       in Option.bind (leastUnacked ackedPackets lostPackets) (\<lambda>n.
            Option.bind (RemoveObsoletePackets (sampler b) n) (\<lambda>s.
              let b = b\<lparr>sampler := s\<rparr>
              in Some (if isRoundStart then b\<lparr>numLossEventsInRound := 0, bytesLostInRound := 0\<rparr> else b))))"

definition bbr_OnCongestionEventEx ::
  "quic_consts \<Rightarrow> int \<Rightarrow> nat \<Rightarrow> bbr \<Rightarrow> int \<Rightarrow> int \<Rightarrow> packet_info list \<Rightarrow> packet_info list \<Rightarrow> bbr option" where
  "bbr_OnCongestionEventEx k rtt draw b priorInFlight t ackedPackets lostPackets =
     (let ackedBefore = totalBytesAcked (sampler b);
          lostBefore = totalBytesLost (sampler b);
          b = maybeAppLimited rtt b priorInFlight;
          b = b\<lparr>bytesInFlight := subtract_all (subtract_all priorInFlight ackedPackets) lostPackets\<rparr>;
          (b, isRoundStart) = event_rounds b ackedPackets lostPackets
      in Option.bind
           (sampler_OnCongestionEvent (sampler b) t ackedPackets lostPackets (GetBest (maxBandwidth b))
              infBandwidth (roundTripCount b))
           (\<lambda>(s, sample).
             let b = b\<lparr>sampler := s\<rparr>;
                 bytesLost = i64 (totalBytesLost s - lostBefore);
                 (b, minRttExpired) = event_sample b t sample ackedBefore bytesLost (lostPackets \<noteq> []);
                 b = event_modes k rtt draw b priorInFlight t (lastPacketSendState sample)
                       (lostPackets \<noteq> []) isRoundStart minRttExpired;
                 acked = i64 (totalBytesAcked (sampler b) - ackedBefore)
             in event_outputs rtt b acked (ces_extraAcked sample) bytesLost ackedPackets lostPackets
                  isRoundStart))"

section \<open>What the steps leave alone\<close>

text \<open>Groups of fields: the packet-sized windows, the mode, and recovery.\<close>

definition sizes :: "bbr \<Rightarrow> int list" where
  "sizes b = [bbr_maxDatagramSize b, initialCongestionWindow b, maxCongestionWindow b,
              minCongestionWindow b, cwndToCalculateMinPacingRate b]"

definition modes :: "bbr \<Rightarrow> bbrMode \<times> bool \<times> nat \<times> float64 list" where
  "modes b = (mode b, isAtFullBandwidth b, cycleCurrentOffset b,
     [pacingGain b, congestionWindowGain b, highGain b, highCwndGain b, drainGain b,
      congestionWindowGainConstant b])"

definition recov :: "bbr \<Rightarrow> bbrRecoveryState \<times> int" where
  "recov b = (recoveryState b, recoveryWindow b)"

definition rtts :: "bbr \<Rightarrow> int" where "rtts b = minRtt b"

lemma maybeAppLimited_frame:
  "sizes (maybeAppLimited rtt b n) = sizes b" "modes (maybeAppLimited rtt b n) = modes b"
  "recov (maybeAppLimited rtt b n) = recov b" "rtts (maybeAppLimited rtt b n) = rtts b"
  "congestionWindow (maybeAppLimited rtt b n) = congestionWindow b"
  "sampler (maybeAppLimited rtt b n) \<in> {sampler b, OnAppLimited (sampler b)}"
  by (simp_all add: maybeAppLimited_def sizes_def modes_def recov_def rtts_def)

lemma bytesInFlight_frame:
  "sizes (b\<lparr>bytesInFlight := n\<rparr>) = sizes b" "modes (b\<lparr>bytesInFlight := n\<rparr>) = modes b"
  "recov (b\<lparr>bytesInFlight := n\<rparr>) = recov b" "rtts (b\<lparr>bytesInFlight := n\<rparr>) = rtts b"
  by (simp_all add: sizes_def modes_def recov_def rtts_def)

lemma sampler_frame:
  "sizes (b\<lparr>sampler := s\<rparr>) = sizes b" "modes (b\<lparr>sampler := s\<rparr>) = modes b"
  "recov (b\<lparr>sampler := s\<rparr>) = recov b" "rtts (b\<lparr>sampler := s\<rparr>) = rtts b"
  by (simp_all add: sizes_def modes_def recov_def rtts_def)

lemma updateRoundTripCounter_frame:
  assumes "updateRoundTripCounter b n = (b', r)"
  shows "sizes b' = sizes b" "modes b' = modes b" "recov b' = recov b" "rtts b' = rtts b"
    "congestionWindow b' = congestionWindow b" "sampler b' = sampler b"
  using assms by (auto simp: updateRoundTripCounter_def sizes_def modes_def recov_def rtts_def split: if_splits)

lemma updateRecoveryState_frame:
  "sizes (updateRecoveryState b n l r) = sizes b" "modes (updateRecoveryState b n l r) = modes b"
  "rtts (updateRecoveryState b n l r) = rtts b"
  "congestionWindow (updateRecoveryState b n l r) = congestionWindow b"
  "sampler (updateRecoveryState b n l r) = sampler b"
  by (simp_all add: updateRecoveryState_def sizes_def modes_def rtts_def Let_def split: bbrRecoveryState.splits)

lemma updateRecoveryState_recov:
  "isAtFullBandwidth b \<or> recov (updateRecoveryState b n l r) = recov b"
  "recoveryState (updateRecoveryState b n l r) \<noteq> NotInRecovery \<Longrightarrow>
     recoveryWindow (updateRecoveryState b n l r) = 0 \<or>
     recoveryState b \<noteq> NotInRecovery \<and> recoveryWindow (updateRecoveryState b n l r) = recoveryWindow b"
  by (auto simp: updateRecoveryState_def recov_def Let_def split: bbrRecoveryState.splits if_splits)

lemma event_rounds_frame:
  assumes "event_rounds b acked lost = (b', r)"
  shows "sizes b' = sizes b" "modes b' = modes b" "rtts b' = rtts b"
    "congestionWindow b' = congestionWindow b" "sampler b' = sampler b"
    "isAtFullBandwidth b \<or> recov b' = recov b"
    "recoveryState b' \<noteq> NotInRecovery \<longrightarrow> recoveryWindow b' = 0 \<or>
       recoveryState b \<noteq> NotInRecovery \<and> recoveryWindow b' = recoveryWindow b"
proof -
  have "sizes b' = sizes b \<and> modes b' = modes b \<and> rtts b' = rtts b \<and>
    congestionWindow b' = congestionWindow b \<and> sampler b' = sampler b \<and>
    (isAtFullBandwidth b \<or> recov b' = recov b) \<and>
    (recoveryState b' \<noteq> NotInRecovery \<longrightarrow> recoveryWindow b' = 0 \<or>
       recoveryState b \<noteq> NotInRecovery \<and> recoveryWindow b' = recoveryWindow b)"
  proof (cases "acked = []")
    case True
    then show ?thesis using assms by (simp add: event_rounds_def)
  next
    case False
    obtain b1 x where 1: "updateRoundTripCounter b (fst (last acked)) = (b1, x)" by fastforce
    note f = updateRoundTripCounter_frame [OF 1]
    have b': "b' = updateRecoveryState b1 (fst (last acked)) (lost \<noteq> []) x"
      using assms False 1 by (auto simp: event_rounds_def Let_def)
    have m: "isAtFullBandwidth b1 = isAtFullBandwidth b" using f(2) by (simp add: modes_def)
    have r: "recoveryState b1 = recoveryState b" "recoveryWindow b1 = recoveryWindow b"
      using f(3) by (simp_all add: recov_def)
    note g = updateRecoveryState_recov [of b1 "fst (last acked)" "lost \<noteq> []" x, folded b']
    show ?thesis
      using f updateRecoveryState_frame [of b1 "fst (last acked)" "lost \<noteq> []" x, folded b'] g m r by auto
  qed
  then show "sizes b' = sizes b" "modes b' = modes b" "rtts b' = rtts b"
    "congestionWindow b' = congestionWindow b" "sampler b' = sampler b"
    "isAtFullBandwidth b \<or> recov b' = recov b"
    "recoveryState b' \<noteq> NotInRecovery \<longrightarrow> recoveryWindow b' = 0 \<or>
       recoveryState b \<noteq> NotInRecovery \<and> recoveryWindow b' = recoveryWindow b" by blast+
qed

lemma maybeUpdateMinRtt_frame:
  assumes "maybeUpdateMinRtt b t r = (b', e)"
  shows "sizes b' = sizes b" "modes b' = modes b" "recov b' = recov b"
    "congestionWindow b' = congestionWindow b" "sampler b' = sampler b" "rtts b' \<in> {rtts b, r}"
  using assms
  by (auto simp: maybeUpdateMinRtt_def sizes_def modes_def recov_def rtts_def Let_def split: if_splits)

lemma event_sample_frame:
  assumes "event_sample b t s ab bl h = (b', e)"
  shows "sizes b' = sizes b" "modes b' = modes b" "recov b' = recov b"
    "congestionWindow b' = congestionWindow b" "sampler b' = sampler b" "rtts b' \<in> {rtts b, sampleRtt s}"
proof -
  define b1 where "b1 = (if isValid (lastPacketSendState s)
               then b\<lparr>lastSampleIsAppLimited := sts_isAppLimited (lastPacketSendState s),
                      hasNoAppLimitedSample := (hasNoAppLimitedSample b \<or>
                        \<not> sts_isAppLimited (lastPacketSendState s))\<rparr> else b)"
  define b2 where "b2 = (if ab \<noteq> totalBytesAcked (sampler b1) \<and>
                  (\<not> sampleIsAppLimited s \<or> sampleMaxBandwidth s > GetBest (maxBandwidth b1))
               then b1\<lparr>maxBandwidth := wf_Update MaxFilter 0 (maxBandwidth b1) (sampleMaxBandwidth s)
                        (roundTripCount b1)\<rparr> else b1)"
  have f: "sizes b2 = sizes b" "modes b2 = modes b" "recov b2 = recov b" "rtts b2 = rtts b"
    "congestionWindow b2 = congestionWindow b" "sampler b2 = sampler b"
    by (simp_all add: b2_def b1_def sizes_def modes_def recov_def rtts_def)
  obtain b3 x where 3: "(if sampleRtt s \<noteq> infRTT then maybeUpdateMinRtt b2 t (sampleRtt s)
      else (b2, False)) = (b3, x)" by fastforce
  have g: "sizes b3 = sizes b2" "modes b3 = modes b2" "recov b3 = recov b2"
    "congestionWindow b3 = congestionWindow b2" "sampler b3 = sampler b2" "rtts b3 \<in> {rtts b2, sampleRtt s}"
    using 3 maybeUpdateMinRtt_frame [of b2 t "sampleRtt s" b3 x] by (auto split: if_splits)
  have b': "b' = (if h then b3\<lparr>numLossEventsInRound := u64 (numLossEventsInRound b3 + 1),
                      bytesLostInRound := i64 (bytesLostInRound b3 + bl)\<rparr> else b3)"
    using assms 3 unfolding event_sample_def b2_def [symmetric] b1_def [symmetric] Let_def by simp
  have "sizes b' = sizes b3" "modes b' = modes b3" "recov b' = recov b3" "rtts b' = rtts b3"
    "congestionWindow b' = congestionWindow b3" "sampler b' = sampler b3"
    by (simp_all add: b' sizes_def modes_def recov_def rtts_def)
  then show "sizes b' = sizes b" "modes b' = modes b" "recov b' = recov b"
    "congestionWindow b' = congestionWindow b" "sampler b' = sampler b" "rtts b' \<in> {rtts b, sampleRtt s}"
    using f g by simp_all
qed

text \<open>The mode machine leaves sizes, recovery and RTT alone; the sampler may become app-limited or
  have its height filter reset.\<close>

definition same_base :: "bbr \<Rightarrow> bbr \<Rightarrow> bool" where
  "same_base b b' \<longleftrightarrow> sizes b' = sizes b \<and> recov b' = recov b \<and> rtts b' = rtts b \<and>
     congestionWindow b' = congestionWindow b \<and>
     connectionStateMap (sampler b') = connectionStateMap (sampler b) \<and>
     a0Candidates (sampler b') = a0Candidates (sampler b) \<and>
     lastAckedPacketSentTime (sampler b') = lastAckedPacketSentTime (sampler b)"

lemma same_base_trans: "same_base a b \<Longrightarrow> same_base b c \<Longrightarrow> same_base a c"
  by (simp add: same_base_def)

lemma same_base_refl [simp]: "same_base b b"
  by (simp add: same_base_def)

lemma same_base_if: "same_base b x \<Longrightarrow> same_base b y \<Longrightarrow> same_base b (if c then x else y)"
  by simp

lemma updateGainCyclePhase_base: "same_base b (updateGainCyclePhase rtt b t p h)"
  by (simp add: same_base_def updateGainCyclePhase_def sizes_def recov_def rtts_def Let_def)

lemma checkIfFull_base: "same_base b (checkIfFullBandwidthReached b st)"
  by (simp add: same_base_def checkIfFullBandwidthReached_def sizes_def recov_def rtts_def Let_def
      ResetMaxAckHeightTracker_def)

lemma enterProbeBandwidthMode_base: "same_base b (enterProbeBandwidthMode k d b t)"
  by (simp add: same_base_def enterProbeBandwidthMode_def sizes_def recov_def rtts_def Let_def)

lemma enterStartupMode_base: "same_base b (enterStartupMode b)"
  by (simp add: same_base_def enterStartupMode_def sizes_def recov_def rtts_def)

lemma maybeExit_base: "same_base b (maybeExitStartupOrDrain k rtt d b t)"
proof -
  define b1 where "b1 = (if mode b = Startup \<and> isAtFullBandwidth b
    then b\<lparr>mode := Drain, pacingGain := drainGain b, congestionWindowGain := highCwndGain b\<rparr> else b)"
  have "same_base b b1" by (simp add: b1_def same_base_def sizes_def recov_def rtts_def)
  then show ?thesis
    unfolding maybeExitStartupOrDrain_def Let_def b1_def [symmetric]
    by (intro same_base_if same_base_trans [OF _ enterProbeBandwidthMode_base])
qed

lemma enter_probe_rtt_base: "same_base b (enter_probe_rtt b e)"
  by (simp add: enter_probe_rtt_def same_base_def sizes_def recov_def rtts_def)

lemma leave_probe_rtt_base: "same_base b (leave_probe_rtt k d b t)"
proof -
  have "same_base b (b\<lparr>minRttTimestamp := t\<rparr>)"
    by (simp add: same_base_def sizes_def recov_def rtts_def)
  then show ?thesis
    unfolding leave_probe_rtt_def Let_def
    by (intro same_base_if same_base_trans [OF _ enterProbeBandwidthMode_base]
        same_base_trans [OF _ enterStartupMode_base])
qed

lemma in_probe_rtt_base: "same_base b (in_probe_rtt k d b t r)"
proof -
  have 1: "same_base b (b\<lparr>sampler := OnAppLimited (sampler b)\<rparr>)"
    by (simp add: same_base_def sizes_def recov_def rtts_def OnAppLimited_def)
  have 2: "same_base b' (b'\<lparr>exitProbeRttAt := v, probeRttRoundPassed := w\<rparr>)"
    "same_base b' (b'\<lparr>probeRttRoundPassed := w\<rparr>)" for b' v w
    by (simp_all add: same_base_def sizes_def recov_def rtts_def)
  show ?thesis
    unfolding in_probe_rtt_def Let_def
    by (intro same_base_if same_base_trans [OF _ leave_probe_rtt_base] same_base_trans [OF _ 2(1)]
        same_base_trans [OF _ 2(2)] 1)
qed

lemma maybeEnterOrExitProbeRtt_base: "same_base b (maybeEnterOrExitProbeRtt k d b t r e)"
proof -
  define b1 where "b1 = enter_probe_rtt b e"
  define b2 where "b2 = (if mode b1 = ProbeRtt then in_probe_rtt k d b1 t r else b1)"
  have "same_base b b1" unfolding b1_def by (rule enter_probe_rtt_base)
  moreover have "same_base b1 b2" unfolding b2_def by (intro same_base_if in_probe_rtt_base same_base_refl)
  moreover have "same_base b2 (b2\<lparr>exitingQuiescence := False\<rparr>)"
    by (simp add: same_base_def sizes_def recov_def rtts_def)
  ultimately show ?thesis
    unfolding maybeEnterOrExitProbeRtt_def Let_def b1_def [symmetric] b2_def [symmetric]
    by (meson same_base_trans)
qed

lemma event_modes_base: "same_base b (event_modes k rtt d b p t st h r e)"
proof -
  define b1 where "b1 = (if mode b = ProbeBw then updateGainCyclePhase rtt b t p h else b)"
  define b2 where "b2 = (if r \<and> \<not> isAtFullBandwidth b1 then checkIfFullBandwidthReached b1 st else b1)"
  define b3 where "b3 = maybeExitStartupOrDrain k rtt d b2 t"
  have "same_base b b1" unfolding b1_def by (intro same_base_if updateGainCyclePhase_base same_base_refl)
  moreover have "same_base b1 b2" unfolding b2_def by (intro same_base_if checkIfFull_base same_base_refl)
  moreover have "same_base b2 b3" unfolding b3_def by (rule maybeExit_base)
  moreover have "same_base b3 (event_modes k rtt d b p t st h r e)"
    unfolding event_modes_def Let_def b1_def [symmetric] b2_def [symmetric] b3_def [symmetric]
    by (rule maybeEnterOrExitProbeRtt_base)
  ultimately show ?thesis by (meson same_base_trans)
qed

section \<open>The windows\<close>

text \<open>Every window is a number of packets of the current datagram size.\<close>

definition window_inv :: "quic_consts \<Rightarrow> bbr \<Rightarrow> bool" where
  "window_inv k b \<longleftrightarrow> 0 < bbr_maxDatagramSize b \<and> bbr_maxDatagramSize b \<le> 65535 \<and>
     initialCongestionWindow b = 32 * bbr_maxDatagramSize b \<and>
     cwndToCalculateMinPacingRate b = 32 * bbr_maxDatagramSize b \<and>
     maxCongestionWindow b = MaxCongestionWindowPackets k * bbr_maxDatagramSize b \<and>
     minCongestionWindow b = 4 * bbr_maxDatagramSize b \<and>
     minCongestionWindow b \<le> congestionWindow b \<and> congestionWindow b \<le> maxCongestionWindow b"

definition recovery_inv :: "bbr \<Rightarrow> bool" where
  "recovery_inv b \<longleftrightarrow> (recoveryState b \<noteq> NotInRecovery \<longrightarrow>
     isAtFullBandwidth b \<and> minCongestionWindow b \<le> recoveryWindow b)"

lemma window_inv_cong:
  "window_inv k b \<Longrightarrow> sizes b' = sizes b \<Longrightarrow> congestionWindow b' = congestionWindow b \<Longrightarrow> window_inv k b'"
  by (simp add: window_inv_def sizes_def)

lemma window_inv_base: "window_inv k b \<Longrightarrow> same_base b b' \<Longrightarrow> window_inv k b'"
  by (rule window_inv_cong) (simp_all add: same_base_def)

lemma min_le_max:
  assumes "window_inv k b" "consts_ok k"
  shows "minCongestionWindow b \<le> maxCongestionWindow b"
  using assms by (auto simp: window_inv_def consts_ok_def)

lemma scale_packets:
  assumes "0 < old" "0 < new" "old \<le> 65535" "new \<le> 65535" "0 \<le> n" "n < 2 ^ 31"
  shows "scaleByteWindowForDatagramSize (n * old) old new = Some (n * new)"
proof (cases "old = new")
  case False
  have le: "n * old * new \<le> 2147483648 * 65535 * 65535"
    using assms by (intro mult_mono) (simp_all add: mult_nonneg_nonneg)
  have no: "n * old \<le> 2147483648 * 65535" "n * new \<le> 2147483648 * 65535"
    using assms by (intro mult_mono; simp)+
  have nn: "0 \<le> n * old" "0 \<le> n * new" "0 \<le> n * old * new" using assms by simp_all
  have u: "u64 old = old" "u64 new = new" "u64 (n * old) = n * old" "u64 (n * old * new) = n * old * new"
    using assms le no nn by (simp_all add: u64_def)
  have d: "n * old * new div old = n * new"
    using assms(1) by (simp add: mult.assoc mult.left_commute [of n old])
  have "i64 (n * new) = n * new" using no nn by (intro i64_id') simp_all
  then show ?thesis using False assms(1) u d by (simp add: scaleByteWindowForDatagramSize_def)
qed (simp add: scaleByteWindowForDatagramSize_def)

lemma rescale_ok:
  assumes w: "window_inv k b" and k: "consts_ok k" and n: "0 < n" "n \<le> 65535"
  shows "rescalePacketSizedWindows b n = Some (b\<lparr>bbr_maxDatagramSize := n,
    initialCongestionWindow := 32 * n, maxCongestionWindow := MaxCongestionWindowPackets k * n,
    minCongestionWindow := 4 * n, cwndToCalculateMinPacingRate := 32 * n\<rparr>)"
proof -
  let ?m = "bbr_maxDatagramSize b"
  have m: "0 < ?m" "?m \<le> 65535" using w by (simp_all add: window_inv_def)
  have s: "scaleByteWindowForDatagramSize (32 * ?m) ?m n = Some (32 * n)"
    "scaleByteWindowForDatagramSize (MaxCongestionWindowPackets k * ?m) ?m n =
       Some (MaxCongestionWindowPackets k * n)"
    using scale_packets [of ?m n 32] scale_packets [of ?m n "MaxCongestionWindowPackets k"] m n k
    by (simp_all add: consts_ok_def)
  have "minCongestionWindowForMaxDatagramSize n = 4 * n"
    using n by (simp add: minCongestionWindowForMaxDatagramSize_def minCongestionWindowPackets_def i64_id')
  then show ?thesis using w s by (simp add: rescalePacketSizedWindows_def window_inv_def Let_def)
qed

lemma SetMaxDatagramSize_ok:
  assumes w: "window_inv k b" "recovery_inv b" and k: "consts_ok k"
    and n: "bbr_maxDatagramSize b \<le> n" "n \<le> 65535"
  shows "\<exists>b'. bbr_SetMaxDatagramSize b n = Some b' \<and> window_inv k b' \<and> recovery_inv b' \<and>
    bbr_maxDatagramSize b' = n \<and> modes b' = modes b \<and> sampler b' = sampler b \<and> rtts b' = rtts b"
proof -
  have n0: "0 < n" using w n by (simp add: window_inv_def)
  define b1 where "b1 = b\<lparr>bbr_maxDatagramSize := n,
    initialCongestionWindow := 32 * n, maxCongestionWindow := MaxCongestionWindowPackets k * n,
    minCongestionWindow := 4 * n, cwndToCalculateMinPacingRate := 32 * n\<rparr>"
  have N: "4 * n \<le> MaxCongestionWindowPackets k * n" "32 * n \<le> MaxCongestionWindowPackets k * n"
    using k n0 by (intro mult_right_mono; simp add: consts_ok_def)+
  define cw where "cw = (if congestionWindow b = minCongestionWindow b then 4 * n
    else if congestionWindow b = initialCongestionWindow b then 32 * n
    else min (MaxCongestionWindowPackets k * n) (max (congestionWindow b) (4 * n)))"
  define rw where "rw = min (MaxCongestionWindowPackets k * n) (max (recoveryWindow b) (4 * n))"
  have cw: "4 * n \<le> cw" "cw \<le> MaxCongestionWindowPackets k * n" "4 * n \<le> rw"
    using N n0 by (auto simp: cw_def rw_def)
  have e: "bbr_SetMaxDatagramSize b n = Some (b1\<lparr>congestionWindow := cw, recoveryWindow := rw,
      bbr_pacer := pacer_SetMaxDatagramSize (bbr_pacer b) n\<rparr>)"
  proof -
    have r: "rescalePacketSizedWindows b n = Some b1" unfolding b1_def by (rule rescale_ok [OF w(1) k n0 n(2)])
    have f: "congestionWindow b1 = congestionWindow b" "recoveryWindow b1 = recoveryWindow b"
      "bbr_pacer b1 = bbr_pacer b" "minCongestionWindow b1 = 4 * n" "initialCongestionWindow b1 = 32 * n"
      "maxCongestionWindow b1 = MaxCongestionWindowPackets k * n" by (simp_all add: b1_def)
    define b2 where "b2 = (if congestionWindow b1 = minCongestionWindow b
      then b1\<lparr>congestionWindow := minCongestionWindow b1\<rparr>
      else if congestionWindow b1 = initialCongestionWindow b
      then b1\<lparr>congestionWindow := initialCongestionWindow b1\<rparr>
      else b1\<lparr>congestionWindow :=
        min (maxCongestionWindow b1) (max (congestionWindow b1) (minCongestionWindow b1))\<rparr>)"
    have b2: "b2 = b1\<lparr>congestionWindow := cw\<rparr>"
      unfolding b2_def cw_def f by (simp only: if_distrib [of "\<lambda>w. b1\<lparr>congestionWindow := w\<rparr>"])
    have g: "recoveryWindow b2 = recoveryWindow b" "bbr_pacer b2 = bbr_pacer b"
      "minCongestionWindow b2 = 4 * n" "maxCongestionWindow b2 = MaxCongestionWindowPackets k * n"
      by (simp_all add: b2 f)
    have nn: "\<not> n < bbr_maxDatagramSize b" using n by simp
    have "bbr_SetMaxDatagramSize b n = Some (b2\<lparr>recoveryWindow := rw,
        bbr_pacer := pacer_SetMaxDatagramSize (bbr_pacer (b2\<lparr>recoveryWindow := rw\<rparr>)) n\<rparr>)"
      unfolding bbr_SetMaxDatagramSize_def Let_def r option.case if_not_P [OF nn] b2_def [symmetric] rw_def g
      by (rule refl)
    then show ?thesis by (simp add: b2 f)
  qed
  have 1: "window_inv k (b1\<lparr>congestionWindow := cw, recoveryWindow := rw, bbr_pacer := p\<rparr>)" for p
    using cw n0 n by (simp add: window_inv_def b1_def)
  have 2: "recovery_inv (b1\<lparr>congestionWindow := cw, recoveryWindow := rw, bbr_pacer := p\<rparr>)" for p
    using cw w(2) by (simp add: recovery_inv_def b1_def)
  show ?thesis
    unfolding e
    by (rule exI, intro conjI, rule refl, rule 1, rule 2) (simp_all add: b1_def modes_def rtts_def)
qed

lemma calculatePacingRate_ok:
  assumes "0 < rtt" "in_i64 rtt"
  shows "\<exists>b'. calculatePacingRate rtt b n = Some b' \<and> same_base b b' \<and> modes b' = modes b \<and>
    sampler b' = sampler b \<and> bytesInFlight b' = bytesInFlight b"
proof -
  have "u64 rtt \<noteq> 0" using assms by (simp add: u64_id in_i64_def)
  then have r: "\<exists>x. BandwidthFromDelta m rtt = Some x" for m using BandwidthFromDelta_total by blast
  obtain x y where x: "BandwidthFromDelta (initialCongestionWindow b) rtt = Some x"
    and y: "BandwidthFromDelta (cwndToCalculateMinPacingRate b) rtt = Some y" using r by blast
  show ?thesis
    by (simp add: calculatePacingRate_def Let_def x y same_base_def sizes_def recov_def rtts_def modes_def)
qed

lemma calculateCongestionWindow_ok:
  fixes rtt a e :: int
  assumes w: "window_inv k b" and k: "consts_ok k"
  defines "b' \<equiv> calculateCongestionWindow rtt b a e"
  shows "window_inv k b'" "sizes b' = sizes b" "recov b' = recov b" "modes b' = modes b"
    "rtts b' = rtts b" "sampler b' = sampler b"
proof -
  obtain w' where b': "b' = b\<lparr>congestionWindow := w'\<rparr>" "minCongestionWindow b \<le> w'" "w' \<le> maxCongestionWindow b"
  proof (cases "mode b = ProbeRtt")
    case True
    then show ?thesis using that [of "congestionWindow b"] w
      by (simp add: b'_def calculateCongestionWindow_def window_inv_def)
  next
    case False
    obtain v where "b' = b\<lparr>congestionWindow := min (max v (minCongestionWindow b)) (maxCongestionWindow b)\<rparr>"
      unfolding b'_def calculateCongestionWindow_def Let_def if_not_P [OF False] by blast
    then show ?thesis by (rule that) (use min_le_max [OF w k] in simp_all)
  qed
  show "window_inv k b'" using w b'(2,3) by (simp add: b'(1) window_inv_def)
  show "sizes b' = sizes b" "recov b' = recov b" "modes b' = modes b" "rtts b' = rtts b"
    "sampler b' = sampler b"
    by (simp_all add: b'(1) sizes_def recov_def modes_def rtts_def)
qed

lemma calculateRecoveryWindow_ok:
  fixes a l :: int
  assumes "recoveryState b \<noteq> NotInRecovery \<longrightarrow> isAtFullBandwidth b"
  defines "b' \<equiv> calculateRecoveryWindow b a l"
  shows "recovery_inv b'" "sizes b' = sizes b" "modes b' = modes b" "rtts b' = rtts b"
    "congestionWindow b' = congestionWindow b" "sampler b' = sampler b"
proof -
  obtain w' where b': "b' = b\<lparr>recoveryWindow := w'\<rparr>"
    "recoveryState b = NotInRecovery \<or> minCongestionWindow b \<le> w'"
  proof (cases "recoveryState b = NotInRecovery")
    case True
    then show ?thesis using that [of "recoveryWindow b"] by (simp add: b'_def calculateRecoveryWindow_def)
  next
    case False
    obtain v where "b' = b\<lparr>recoveryWindow := max (minCongestionWindow b) v\<rparr>"
    proof (cases "recoveryWindow b = 0")
      case True
      show ?thesis
        by (rule that) (simp only: b'_def calculateRecoveryWindow_def if_not_P [OF False] if_P [OF True])
    next
      case no: False
      show ?thesis
        by (rule that) (simp only: b'_def calculateRecoveryWindow_def Let_def if_not_P [OF False] if_not_P [OF no])
    qed
    then show ?thesis by (rule that) simp
  qed
  show "recovery_inv b'" using assms(1) b'(2) by (auto simp: b'(1) recovery_inv_def)
  show "sizes b' = sizes b" "modes b' = modes b" "rtts b' = rtts b"
    "congestionWindow b' = congestionWindow b" "sampler b' = sampler b"
    by (simp_all add: b'(1) sizes_def modes_def rtts_def)
qed

section \<open>The mode machine\<close>

text \<open>In every mode the gains are those of the mode.\<close>

definition gains_ok :: "bbr \<Rightarrow> bool" where
  "gains_ok b \<longleftrightarrow> (case mode b of
     Startup \<Rightarrow> pacingGain b = highGain b \<and> congestionWindowGain b = highCwndGain b
   | Drain \<Rightarrow> isAtFullBandwidth b \<and> pacingGain b = drainGain b \<and> congestionWindowGain b = highCwndGain b
   | ProbeBw \<Rightarrow> isAtFullBandwidth b \<and> congestionWindowGain b = congestionWindowGainConstant b \<and>
       cycleCurrentOffset b < gainCycleLength \<and> pacingGain b \<in> set pacingGains
   | ProbeRtt \<Rightarrow> pacingGain b = 1)"

definition mode_inv :: "bbr \<Rightarrow> bool" where
  "mode_inv b \<longleftrightarrow> gains_ok b \<and> (mode b = Startup \<longrightarrow> \<not> isAtFullBandwidth b)"

text \<open>The modes in which an event can leave a sender that was in a given mode.\<close>

fun mode_moves :: "bbrMode \<Rightarrow> bbrMode list" where
  "mode_moves Startup = [Startup, Drain, ProbeBw, ProbeRtt]"
| "mode_moves Drain = [Drain, ProbeBw, ProbeRtt]"
| "mode_moves ProbeBw = [ProbeBw, ProbeRtt]"
| "mode_moves ProbeRtt = [ProbeRtt, Startup, ProbeBw]"

lemma gains_ok_cong: "gains_ok b \<Longrightarrow> modes b' = modes b \<Longrightarrow> gains_ok b'"
  by (cases "mode b") (simp_all add: gains_ok_def modes_def)

lemma gainCycleLength_8 [simp]: "gainCycleLength = 8"
  by (simp add: gainCycleLength_def pacingGains_def)

lemma pacingGains_nth: "n < 8 \<Longrightarrow> pacingGains ! n \<in> set pacingGains"
  by (rule nth_mem) (simp add: pacingGains_def)

lemma updateGainCyclePhase_mode:
  fixes rtt t p :: int and h :: bool
  assumes "gains_ok b" "mode b = ProbeBw"
  defines "b' \<equiv> updateGainCyclePhase rtt b t p h"
  shows "gains_ok b'" "mode b' = ProbeBw" "isAtFullBandwidth b' = isAtFullBandwidth b"
proof -
  have "b' = b \<or> (\<exists>o' l g. o' < 8 \<and> (g = pacingGain b \<or> g = pacingGains ! o') \<and>
      b' = b\<lparr>cycleCurrentOffset := o', lastCycleStart := l, pacingGain := g\<rparr>)"
  proof -
    define b1 where "b1 = b\<lparr>cycleCurrentOffset := (cycleCurrentOffset b + 1) mod gainCycleLength,
                     lastCycleStart := t\<rparr>"
    have o1: "cycleCurrentOffset b1 < 8" "pacingGain b1 = pacingGain b" by (simp_all add: b1_def)
    have if3: "(if a then if c then x else y else z) = z \<or> (if a then if c then x else y else z) = x \<or>
      (if a then if c then x else y else z) = y" for a c and x y z :: bbr by simp
    have "b' = b \<or> b' = b1 \<or> b' = b1\<lparr>pacingGain := pacingGains ! cycleCurrentOffset b1\<rparr>"
      unfolding b'_def updateGainCyclePhase_def Let_def b1_def [symmetric] by (rule if3)
    moreover have "b1 = b\<lparr>cycleCurrentOffset := cycleCurrentOffset b1, lastCycleStart := t,
        pacingGain := pacingGain b\<rparr>" by (simp add: b1_def)
    moreover have "b1\<lparr>pacingGain := pacingGains ! cycleCurrentOffset b1\<rparr> =
        b\<lparr>cycleCurrentOffset := cycleCurrentOffset b1, lastCycleStart := t,
          pacingGain := pacingGains ! cycleCurrentOffset b1\<rparr>" by (simp add: b1_def)
    ultimately show ?thesis using o1(1) by metis
  qed
  then consider "b' = b" | o' l g where "o' < 8" "g = pacingGain b \<or> g = pacingGains ! o'"
    "b' = b\<lparr>cycleCurrentOffset := o', lastCycleStart := l, pacingGain := g\<rparr>" by blast
  then have "gains_ok b' \<and> mode b' = ProbeBw \<and> isAtFullBandwidth b' = isAtFullBandwidth b"
  proof cases
    case 2
    then show ?thesis using assms(1,2) pacingGains_nth [of o'] by (auto simp: gains_ok_def)
  qed (use assms(1,2) in simp)
  then show "gains_ok b'" "mode b' = ProbeBw" "isAtFullBandwidth b' = isAtFullBandwidth b" by blast+
qed

lemma checkIfFull_mode:
  fixes st :: sendTimeState
  assumes "gains_ok b"
  defines "b' \<equiv> checkIfFullBandwidthReached b st"
  shows "gains_ok b'" "mode b' = mode b" "isAtFullBandwidth b \<Longrightarrow> isAtFullBandwidth b'"
proof -
  have m: "(mode b', cycleCurrentOffset b', pacingGain b', congestionWindowGain b', highGain b',
      highCwndGain b', drainGain b', congestionWindowGainConstant b') =
    (mode b, cycleCurrentOffset b, pacingGain b, congestionWindowGain b, highGain b,
      highCwndGain b, drainGain b, congestionWindowGainConstant b)"
    "isAtFullBandwidth b \<Longrightarrow> isAtFullBandwidth b'"
    by (simp_all add: b'_def checkIfFullBandwidthReached_def Let_def)
  then show "mode b' = mode b" "isAtFullBandwidth b \<Longrightarrow> isAtFullBandwidth b'" by simp_all
  show "gains_ok b'" using assms(1) m by (auto simp: gains_ok_def split: bbrMode.splits)
qed

lemma enterProbeBandwidthMode_mode:
  assumes "isAtFullBandwidth b"
  shows "mode_inv (enterProbeBandwidthMode k d b t)" "mode (enterProbeBandwidthMode k d b t) = ProbeBw"
    "isAtFullBandwidth (enterProbeBandwidthMode k d b t) = isAtFullBandwidth b"
proof -
  obtain o' where o': "o' < 8" "enterProbeBandwidthMode k d b t =
      b\<lparr>mode := ProbeBw, congestionWindowGain := congestionWindowGainConstant b,
           cycleCurrentOffset := o', lastCycleStart := t, pacingGain := pacingGains ! o'\<rparr>"
  proof
    let ?o = "intn d (PacketsPerConnectionID k) mod (gainCycleLength - 1)"
    have *: "(if n \<ge> 1 then n + 1 else n) < 8" if "n < 7" for n :: nat using that by simp
    show "(if ?o \<ge> 1 then ?o + 1 else ?o) < 8" by (rule *) simp
  qed (simp only: enterProbeBandwidthMode_def Let_def)
  then show "mode_inv (enterProbeBandwidthMode k d b t)" "mode (enterProbeBandwidthMode k d b t) = ProbeBw"
    "isAtFullBandwidth (enterProbeBandwidthMode k d b t) = isAtFullBandwidth b"
    using assms pacingGains_nth [of o'] by (simp_all add: mode_inv_def gains_ok_def)
qed

lemma enterStartupMode_mode:
  assumes "\<not> isAtFullBandwidth b"
  shows "mode_inv (enterStartupMode b)" "mode (enterStartupMode b) = Startup"
    "isAtFullBandwidth (enterStartupMode b) = isAtFullBandwidth b"
  using assms by (simp_all add: mode_inv_def gains_ok_def enterStartupMode_def)

lemma maybeExit_mode:
  fixes k :: quic_consts and rtt t :: int and d :: nat
  assumes "gains_ok b"
  defines "b' \<equiv> maybeExitStartupOrDrain k rtt d b t"
  shows "mode_inv b'" "isAtFullBandwidth b' = isAtFullBandwidth b"
    "mode b' = mode b \<or> mode b = Startup \<and> mode b' \<in> {Drain, ProbeBw} \<or> mode b = Drain \<and> mode b' = ProbeBw"
proof -
  define b1 where "b1 = (if mode b = Startup \<and> isAtFullBandwidth b
               then b\<lparr>mode := Drain, pacingGain := drainGain b, congestionWindowGain := highCwndGain b\<rparr>
               else b)"
  have 1: "mode_inv b1" "isAtFullBandwidth b1 = isAtFullBandwidth b"
    "mode b1 = mode b \<or> mode b = Startup \<and> mode b1 = Drain"
    using assms(1) by (auto simp: b1_def mode_inv_def gains_ok_def split: bbrMode.splits)
  have b': "b' = (if mode b1 = Drain \<and> bytesInFlight b1 \<le> getTargetCongestionWindow rtt b1 1
         then enterProbeBandwidthMode k d b1 t else b1)"
    unfolding b'_def maybeExitStartupOrDrain_def Let_def b1_def [symmetric] by (rule refl)
  have "mode_inv b' \<and> isAtFullBandwidth b' = isAtFullBandwidth b \<and>
    (mode b' = mode b \<or> mode b = Startup \<and> mode b' \<in> {Drain, ProbeBw} \<or> mode b = Drain \<and> mode b' = ProbeBw)"
  proof (cases "mode b1 = Drain \<and> bytesInFlight b1 \<le> getTargetCongestionWindow rtt b1 1")
    case True
    then have "isAtFullBandwidth b1" using 1(1) by (simp add: mode_inv_def gains_ok_def)
    from enterProbeBandwidthMode_mode [OF this, of k d t] True 1 show ?thesis
      unfolding b' if_P [OF True] by auto
  next
    case False
    show ?thesis using 1 unfolding b' if_not_P [OF False] by auto
  qed
  then show "mode_inv b'" "isAtFullBandwidth b' = isAtFullBandwidth b"
    "mode b' = mode b \<or> mode b = Startup \<and> mode b' \<in> {Drain, ProbeBw} \<or> mode b = Drain \<and> mode b' = ProbeBw"
    by blast+
qed

lemma enter_probe_rtt_mode:
  fixes e :: bool
  assumes "mode_inv b"
  defines "b' \<equiv> enter_probe_rtt b e"
  shows "mode_inv b'" "isAtFullBandwidth b' = isAtFullBandwidth b"
    "b' = b \<or> mode b \<noteq> ProbeRtt \<and> mode b' = ProbeRtt \<and> exitProbeRttAt b' = 0"
proof -
  have c: "b' = b \<or> mode b \<noteq> ProbeRtt \<and> b' = b\<lparr>mode := ProbeRtt, pacingGain := 1, exitProbeRttAt := 0\<rparr>"
    by (simp add: b'_def enter_probe_rtt_def)
  then show "mode_inv b'" "isAtFullBandwidth b' = isAtFullBandwidth b"
    "b' = b \<or> mode b \<noteq> ProbeRtt \<and> mode b' = ProbeRtt \<and> exitProbeRttAt b' = 0"
    using assms(1) by (auto simp: mode_inv_def gains_ok_def)
qed

lemma leave_probe_rtt_mode:
  fixes k :: quic_consts and d :: nat and t :: int and b :: bbr
  defines "b' \<equiv> leave_probe_rtt k d b t"
  shows "mode_inv b'" "isAtFullBandwidth b' = isAtFullBandwidth b" "mode b' \<in> {Startup, ProbeBw}"
proof -
  define b1 where "b1 = b\<lparr>minRttTimestamp := t\<rparr>"
  have f: "isAtFullBandwidth b1 = isAtFullBandwidth b" by (simp add: b1_def)
  have b': "b' = (if \<not> isAtFullBandwidth b1 then enterStartupMode b1 else enterProbeBandwidthMode k d b1 t)"
    unfolding b'_def leave_probe_rtt_def Let_def b1_def [symmetric] by (rule refl)
  have "mode_inv b' \<and> isAtFullBandwidth b' = isAtFullBandwidth b \<and> mode b' \<in> {Startup, ProbeBw}"
  proof (cases "isAtFullBandwidth b1")
    case True
    then have "b' = enterProbeBandwidthMode k d b1 t" using b' by simp
    with enterProbeBandwidthMode_mode [OF True, of k d t] f show ?thesis by simp
  next
    case False
    then have "b' = enterStartupMode b1" using b' by simp
    with enterStartupMode_mode [OF False] f show ?thesis by simp
  qed
  then show "mode_inv b'" "isAtFullBandwidth b' = isAtFullBandwidth b" "mode b' \<in> {Startup, ProbeBw}"
    by blast+
qed

lemma mode_inv_cong: "mode_inv b \<Longrightarrow> modes b' = modes b \<Longrightarrow> mode_inv b'"
  using gains_ok_cong by (auto simp: mode_inv_def modes_def)

lemma in_probe_rtt_mode:
  fixes k :: quic_consts and d :: nat and t :: int and r :: bool
  assumes "mode_inv b" "mode b = ProbeRtt"
  defines "b' \<equiv> in_probe_rtt k d b t r"
  shows "mode_inv b'" "isAtFullBandwidth b' = isAtFullBandwidth b"
    "mode b' = ProbeRtt \<or> exitProbeRttAt b \<noteq> 0 \<and> mode b' \<in> {Startup, ProbeBw}"
proof -
  define b1 where "b1 = b\<lparr>sampler := OnAppLimited (sampler b)\<rparr>"
  define b2 where "b2 = b1\<lparr>exitProbeRttAt := i64 (t + probeRttTime), probeRttRoundPassed := False\<rparr>"
  define b3 where "b3 = (if r then b1\<lparr>probeRttRoundPassed := True\<rparr> else b1)"
  have m: "modes b1 = modes b" "modes b2 = modes b" "modes b3 = modes b"
    "exitProbeRttAt b1 = exitProbeRttAt b" by (simp_all add: b1_def b2_def b3_def modes_def)
  have still: "mode_inv c \<and> isAtFullBandwidth c = isAtFullBandwidth b \<and> mode c = ProbeRtt"
    if "modes c = modes b" for c
    using mode_inv_cong [OF assms(1) that] that assms(2) by (simp add: modes_def)
  have if4: "(if a then if c then x else y else if e then z else w) \<in> {x, y} \<or>
      \<not> a \<and> (if a then if c then x else y else if e then z else w) \<in> {z, w}" for a c e and x y z w :: bbr
    by simp
  have "b' \<in> {b2, b1} \<or> exitProbeRttAt b1 \<noteq> 0 \<and> b' \<in> {leave_probe_rtt k d b3 t, b3}"
    unfolding b'_def in_probe_rtt_def Let_def b1_def [symmetric] b2_def [symmetric] b3_def [symmetric]
    by (rule if4)
  then consider "modes b' = modes b" | "exitProbeRttAt b \<noteq> 0" "b' = leave_probe_rtt k d b3 t"
    using m by auto
  then have "mode_inv b' \<and> isAtFullBandwidth b' = isAtFullBandwidth b \<and>
    (mode b' = ProbeRtt \<or> exitProbeRttAt b \<noteq> 0 \<and> mode b' \<in> {Startup, ProbeBw})"
  proof cases
    case 1
    then show ?thesis using still by blast
  next
    case 2
    have "isAtFullBandwidth b3 = isAtFullBandwidth b" using m(3) by (simp add: modes_def)
    then show ?thesis using leave_probe_rtt_mode [of k d b3 t] 2 by simp
  qed
  then show "mode_inv b'" "isAtFullBandwidth b' = isAtFullBandwidth b"
    "mode b' = ProbeRtt \<or> exitProbeRttAt b \<noteq> 0 \<and> mode b' \<in> {Startup, ProbeBw}" by blast+
qed

lemma maybeEnterOrExitProbeRtt_mode:
  fixes k :: quic_consts and d :: nat and t :: int and r e :: bool
  assumes "mode_inv b"
  defines "b' \<equiv> maybeEnterOrExitProbeRtt k d b t r e"
  shows "mode_inv b'" "isAtFullBandwidth b' = isAtFullBandwidth b"
    "if mode b = ProbeRtt then mode b' \<in> {ProbeRtt, Startup, ProbeBw} else mode b' \<in> {mode b, ProbeRtt}"
proof -
  define b1 where "b1 = enter_probe_rtt b e"
  define b2 where "b2 = (if mode b1 = ProbeRtt then in_probe_rtt k d b1 t r else b1)"
  note 1 = enter_probe_rtt_mode [OF assms(1), of e, folded b1_def]
  have b': "b' = b2\<lparr>exitingQuiescence := False\<rparr>"
    unfolding b'_def maybeEnterOrExitProbeRtt_def Let_def b1_def [symmetric] b2_def [symmetric] by (rule refl)
  have m: "modes b' = modes b2" by (simp add: b' modes_def)
  then have mf: "mode b' = mode b2" "isAtFullBandwidth b' = isAtFullBandwidth b2" by (simp_all add: modes_def)
  have "mode_inv b2 \<and> isAtFullBandwidth b2 = isAtFullBandwidth b \<and>
    (if mode b = ProbeRtt then mode b2 \<in> {ProbeRtt, Startup, ProbeBw} else mode b2 \<in> {mode b, ProbeRtt})"
  proof (cases "mode b1 = ProbeRtt")
    case True
    then have "b2 = in_probe_rtt k d b1 t r" by (simp add: b2_def)
    with in_probe_rtt_mode [OF 1(1) True, of k d t r] 1 True show ?thesis by auto
  next
    case False
    then have "b2 = b1" by (simp add: b2_def)
    with 1 False show ?thesis by auto
  qed
  then show "mode_inv b'" "isAtFullBandwidth b' = isAtFullBandwidth b"
    "if mode b = ProbeRtt then mode b' \<in> {ProbeRtt, Startup, ProbeBw} else mode b' \<in> {mode b, ProbeRtt}"
    using mode_inv_cong [OF _ m] mf by (simp_all split: if_splits)
qed

lemma event_modes_mode:
  fixes k :: quic_consts and rtt p t :: int and d :: nat and st :: sendTimeState and h r e :: bool
  assumes "mode_inv b"
  defines "b' \<equiv> event_modes k rtt d b p t st h r e"
  shows "mode_inv b'" "isAtFullBandwidth b \<Longrightarrow> isAtFullBandwidth b'"
    "mode b' \<in> set (mode_moves (mode b))"
proof -
  define b1 where "b1 = (if mode b = ProbeBw then updateGainCyclePhase rtt b t p h else b)"
  define b2 where "b2 = (if r \<and> \<not> isAtFullBandwidth b1 then checkIfFullBandwidthReached b1 st else b1)"
  define b3 where "b3 = maybeExitStartupOrDrain k rtt d b2 t"
  have b': "b' = maybeEnterOrExitProbeRtt k d b3 t r e"
    unfolding b'_def event_modes_def Let_def b1_def [symmetric] b2_def [symmetric] b3_def [symmetric]
    by (rule refl)
  have "gains_ok b" using assms(1) by (simp add: mode_inv_def)
  then have 1: "gains_ok b1" "mode b1 = mode b" "isAtFullBandwidth b1 = isAtFullBandwidth b"
    using updateGainCyclePhase_mode [of b rtt t p h] by (simp_all add: b1_def)
  have 2: "gains_ok b2" "mode b2 = mode b1" "isAtFullBandwidth b1 \<Longrightarrow> isAtFullBandwidth b2"
    using checkIfFull_mode [OF 1(1), of st] 1(1) by (simp_all add: b2_def)
  note 3 = maybeExit_mode [OF 2(1), of k rtt d t, folded b3_def]
  note 4 = maybeEnterOrExitProbeRtt_mode [OF 3(1), of k d t r e, folded b']
  show "mode_inv b'" by (rule 4(1))
  show "isAtFullBandwidth b \<Longrightarrow> isAtFullBandwidth b'" using 1 2 3 4 by simp
  show "mode b' \<in> set (mode_moves (mode b))"
    using 1(2) 2(2) 3(3) 4(3) by (cases "mode b") (auto split: if_splits)
qed

section \<open>Runs of the sender\<close>

definition bbr_inv :: "quic_consts \<Rightarrow> bbr \<Rightarrow> bool" where
  "bbr_inv k b \<longleftrightarrow> window_inv k b \<and> recovery_inv b \<and> mode_inv b \<and> sampler_ok (sampler b) \<and>
     in_i64 (minRtt b)"

lemma sampler_ok_base: "sampler_ok (sampler b) \<Longrightarrow> same_base b b' \<Longrightarrow> sampler_ok (sampler b')"
  using sampler_okD by (auto simp: same_base_def intro!: sampler_ok_cong [of "sampler b"])

lemma sampler_ok_OnAppLimited: "sampler_ok s \<Longrightarrow> sampler_ok (OnAppLimited s)"
  using sampler_okD by (auto simp: OnAppLimited_def intro!: sampler_ok_cong [of s])

text \<open>A rate for the pacer always exists, and is at least \<open>minBps\<close>.\<close>

lemma bandwidthForPacer_ok:
  assumes "in_i64 (minRtt b)" "in_i64 rtt"
  shows "\<exists>bw. bandwidthForPacer rtt b = Some bw \<and> minBps \<le> bw \<and> in_i64 bw"
proof -
  have u: "u64 r \<noteq> 0" if "r \<noteq> 0" "in_i64 r" for r
  proof
    assume "u64 r = 0"
    then have "(2 ^ 64 :: int) dvd r" by (simp add: u64_def mod_eq_0_iff_dvd)
    then obtain q where q: "r = 18446744073709551616 * q" by auto
    have "- 9223372036854775808 \<le> r" "r < 9223372036854775808" using that by (simp_all add: in_i64_def)
    with q have "q = 0" by simp
    with q that show False by simp
  qed
  have "u64 (getMinRtt rtt b) \<noteq> 0"
    using assms by (intro u) (auto simp: getMinRtt_def in_i64_def)
  then obtain r where r: "PacingRate rtt b = Some r"
    unfolding PacingRate_def using BandwidthFromDelta_total by (cases "pacingRate b = 0") fastforce+
  define x where "x = f64_to_i64 (fdiv (f64_of_int r) (f64_of_int BytesPerSecond))"
  have x: "in_i64 x" by (simp add: x_def f64_to_i64_def) (simp add: in_i64_def)
  have "bandwidthForPacer rtt b = Some (if x < minBps then minBps else x)"
    by (simp add: bandwidthForPacer_def r x_def Let_def)
  then show ?thesis using x by (auto simp: in_i64_def minBps_def)
qed

lemma bbr_OnPacketSent_ok:
  assumes inv: "bbr_inv k b" and rtt: "in_i64 rtt" and pn: "pn_ok pn" and t: "in_i64 t"
  shows "\<exists>b'. bbr_OnPacketSent k rtt b t inflight pn n r = Some b' \<and> bbr_inv k b' \<and>
    sizes b' = sizes b \<and> modes b' = modes b"
proof -
  have i: "in_i64 (minRtt b)" "sampler_ok (sampler b)" using inv by (simp_all add: bbr_inv_def)
  obtain bw where bw: "bandwidthForPacer rtt b = Some bw" using bandwidthForPacer_ok [OF i(1) rtt] by blast
  obtain s where s: "sampler_OnPacketSent (sampler b) t pn n inflight r = Some s" "sampler_ok s"
    using sampler_OnPacketSent_ok [OF i(2) pn t, of n inflight r] by blast
  define b1 where "b1 = b\<lparr>bbr_pacer := SentPacket k bw (bbr_pacer b) t n,
                    bbr_lastSentPacket := pn, bytesInFlight := inflight\<rparr>"
  define b2 where "b2 = (if inflight = 0 then b1\<lparr>exitingQuiescence := True\<rparr> else b1)"
  have e: "bbr_OnPacketSent k rtt b t inflight pn n r =
      map_option (\<lambda>s. b2\<lparr>sampler := s\<rparr>) (sampler_OnPacketSent (sampler b2) t pn n inflight r)"
    unfolding bbr_OnPacketSent_def bw option.case Let_def b1_def [symmetric] b2_def [symmetric]
    by (rule refl)
  have f: "sizes b2 = sizes b" "modes b2 = modes b" "recov b2 = recov b" "rtts b2 = rtts b"
    "congestionWindow b2 = congestionWindow b" "sampler b2 = sampler b"
    by (simp_all add: b2_def b1_def sizes_def modes_def recov_def rtts_def)
  define b3 where "b3 = b2\<lparr>sampler := s\<rparr>"
  have g: "sizes b3 = sizes b" "modes b3 = modes b" "recov b3 = recov b" "rtts b3 = rtts b"
    using sampler_frame [where b = b2 and s = s, folded b3_def] f(1-4) by simp_all
  have g5: "congestionWindow b3 = congestionWindow b" "sampler b3 = s"
    using f(5) by (simp_all add: b3_def)
  have "window_inv k b" using inv by (simp add: bbr_inv_def)
  then have "window_inv k b3" by (rule window_inv_cong) (fact g(1), fact g5(1))
  moreover have "recovery_inv b3"
    using inv g(1-3) by (simp add: bbr_inv_def recovery_inv_def recov_def modes_def sizes_def)
  moreover have "mode_inv b3" using inv mode_inv_cong [OF _ g(2)] by (simp add: bbr_inv_def)
  ultimately have "bbr_inv k b3" using s(2) i g(4) g5 by (simp add: bbr_inv_def rtts_def)
  moreover have "bbr_OnPacketSent k rtt b t inflight pn n r = Some b3"
    unfolding e f(6) s(1) option.map b3_def by (rule refl)
  ultimately show ?thesis using g(1,2) by blast
qed

lemma event_outputs_ok:
  assumes w: "window_inv k b" and k: "consts_ok k" and so: "sampler_ok (sampler b)"
    and rtt: "0 < rtt" "in_i64 rtt" and full: "recoveryState b \<noteq> NotInRecovery \<longrightarrow> isAtFullBandwidth b"
    and least: "leastUnacked acked lost = Some n"
  shows "\<exists>b'. event_outputs rtt b a e l acked lost r = Some b' \<and> window_inv k b' \<and> recovery_inv b' \<and>
    modes b' = modes b \<and> rtts b' = rtts b \<and> sizes b' = sizes b \<and> sampler_ok (sampler b') \<and>
    pnq_map (connectionStateMap (sampler b')) = pnq_map (connectionStateMap (sampler b)) |` {n..}"
proof -
  obtain b1 where 1: "calculatePacingRate rtt b l = Some b1" "same_base b b1" "modes b1 = modes b"
    "sampler b1 = sampler b" using calculatePacingRate_ok [OF rtt] by blast
  note w1 = window_inv_base [OF w 1(2)]
  define b2 where "b2 = calculateCongestionWindow rtt b1 a e"
  note 2 = calculateCongestionWindow_ok [OF w1 k, of rtt a e, folded b2_def]
  define b3 where "b3 = calculateRecoveryWindow b2 a l"
  have "recov b2 = recov b" "modes b2 = modes b" using 1 2 by (simp_all add: same_base_def)
  then have "recoveryState b2 \<noteq> NotInRecovery \<longrightarrow> isAtFullBandwidth b2"
    using full by (simp add: recov_def modes_def)
  note 3 = calculateRecoveryWindow_ok [OF this, of a l, folded b3_def]
  have s3: "sampler b3 = sampler b" using 1 2 3 by simp
  obtain s where s: "RemoveObsoletePackets (sampler b) n = Some s" "sampler_ok s"
    "pnq_map (connectionStateMap s) = pnq_map (connectionStateMap (sampler b)) |` {n..}"
    using RemoveObsoletePackets_ok [OF so, of n] by blast
  define b4 where "b4 = b3\<lparr>sampler := s\<rparr>"
  define b5 where "b5 = (if r then b4\<lparr>numLossEventsInRound := 0, bytesLostInRound := 0\<rparr> else b4)"
  have e: "event_outputs rtt b a e l acked lost r = Some b5"
    unfolding event_outputs_def Let_def 1(1) Option.bind.simps b2_def [symmetric] b3_def [symmetric] least
      s3 s(1) b4_def [symmetric] b5_def [symmetric] by (rule refl)
  have 5: "sizes b5 = sizes b3" "modes b5 = modes b3" "recov b5 = recov b3" "rtts b5 = rtts b3"
    "congestionWindow b5 = congestionWindow b3" "sampler b5 = s"
    by (simp_all add: b5_def b4_def sizes_def modes_def recov_def rtts_def)
  have "window_inv k b5"
    by (rule window_inv_cong [OF 2(1)]) (simp_all add: 5 3)
  moreover have "recovery_inv b5"
    using 3(1) 5(1-3) by (simp add: recovery_inv_def recov_def modes_def sizes_def)
  ultimately show ?thesis
    using e s 1 2 3 5 by (simp add: same_base_def)
qed

definition bbr_step_ok :: "bbr \<Rightarrow> bbr \<Rightarrow> bool" where
  "bbr_step_ok b b' \<longleftrightarrow> (isAtFullBandwidth b \<longrightarrow> isAtFullBandwidth b') \<and>
     mode b' \<in> set (mode_moves (mode b)) \<and> bbr_maxDatagramSize b \<le> bbr_maxDatagramSize b'"

lemma bbr_OnCongestionEventEx_ok:
  assumes inv: "bbr_inv k b" and k: "consts_ok k" and rtt: "0 < rtt" "in_i64 rtt"
    and pns: "\<forall>p \<in> set acked. pn_ok (fst p)" and least: "leastUnacked acked lost = Some n"
  shows "\<exists>b'. bbr_OnCongestionEventEx k rtt d b prior t acked lost = Some b' \<and> bbr_inv k b' \<and>
    bbr_step_ok b b' \<and> sizes b' = sizes b \<and>
    dom (pnq_map (connectionStateMap (sampler b'))) \<subseteq> {n..}"
proof -
  define b1 where "b1 = maybeAppLimited rtt b prior"
  define b2 where "b2 = b1\<lparr>bytesInFlight := subtract_all (subtract_all prior acked) lost\<rparr>"
  obtain b3 r where 3: "event_rounds b2 acked lost = (b3, r)" by fastforce
  note f1 = maybeAppLimited_frame [of rtt b prior, folded b1_def]
  note f2 = bytesInFlight_frame [where b = b1 and n = "subtract_all (subtract_all prior acked) lost",
      folded b2_def]
  have s2: "sampler b2 = sampler b1" "congestionWindow b2 = congestionWindow b1" by (simp_all add: b2_def)
  note f3 = event_rounds_frame [OF 3]
  have i: "window_inv k b" "recovery_inv b" "mode_inv b" "sampler_ok (sampler b)" "in_i64 (minRtt b)"
    using inv by (simp_all add: bbr_inv_def)
  have so3: "sampler_ok (sampler b3)"
    using f1(6) s2 f3(5) i(4) sampler_ok_OnAppLimited by auto
  obtain s es where 4: "sampler_OnCongestionEvent (sampler b3) t acked lost (GetBest (maxBandwidth b3))
      infBandwidth (roundTripCount b3) = Some (s, es)" "sampler_ok s"
    using sampler_OnCongestionEvent_ok [OF so3 pns] by blast
  have rtt4: "in_i64 (sampleRtt es)" by (rule sampler_OnCongestionEvent_rtt [OF 4(1)])
  define b4 where "b4 = b3\<lparr>sampler := s\<rparr>"
  define bl where "bl = i64 (totalBytesLost s - totalBytesLost (sampler b))"
  obtain b5 e where 5: "event_sample b4 t es (totalBytesAcked (sampler b)) bl (lost \<noteq> []) = (b5, e)" by fastforce
  note f5 = event_sample_frame [OF 5]
  define b6 where "b6 = event_modes k rtt d b5 prior t (lastPacketSendState es) (lost \<noteq> []) r e"
  define ac where "ac = i64 (totalBytesAcked (sampler b6) - totalBytesAcked (sampler b))"
  have run: "bbr_OnCongestionEventEx k rtt d b prior t acked lost =
      event_outputs rtt b6 ac (ces_extraAcked es) bl acked lost r"
    unfolding bbr_OnCongestionEventEx_def Let_def b1_def [symmetric] b2_def [symmetric] 3 prod.case 4(1)
      Option.bind.simps b4_def [symmetric] bl_def [symmetric] 5 b6_def [symmetric] ac_def [symmetric]
    by (rule refl)
  have g4: "sizes b4 = sizes b" "modes b4 = modes b" "rtts b4 = rtts b" "congestionWindow b4 = congestionWindow b"
    "sampler b4 = s" "recov b4 = recov b3"
    unfolding b4_def using f1 f2 f3 s2 by (simp_all add: sampler_frame)
  have g5: "sizes b5 = sizes b" "modes b5 = modes b" "recov b5 = recov b3" "rtts b5 \<in> {rtts b, sampleRtt es}"
    "congestionWindow b5 = congestionWindow b" "sampler b5 = s" using f5 g4 by simp_all
  have base: "same_base b5 b6" unfolding b6_def by (rule event_modes_base)
  have m5: "mode_inv b5" "isAtFullBandwidth b5 = isAtFullBandwidth b" "mode b5 = mode b"
    using mode_inv_cong [OF i(3) g5(2)] g5(2) by (simp_all add: modes_def)
  note m6 = event_modes_mode [OF m5(1), of k rtt d prior t "lastPacketSendState es" "lost \<noteq> []" r e, folded b6_def]
  have w6: "window_inv k b6" using window_inv_base [OF window_inv_cong [OF i(1) g5(1,5)] base] .
  have so6: "sampler_ok (sampler b6)" using sampler_ok_base [OF _ base] 4(2) g5(6) by simp
  have full2: "isAtFullBandwidth b2 = isAtFullBandwidth b" "recov b2 = recov b"
    using f1 f2 by (simp_all add: modes_def)
  have "recoveryState b6 \<noteq> NotInRecovery \<longrightarrow> isAtFullBandwidth b6"
  proof
    assume "recoveryState b6 \<noteq> NotInRecovery"
    then have "recoveryState b3 \<noteq> NotInRecovery" using base g5(3) by (simp add: same_base_def recov_def)
    then have "isAtFullBandwidth b"
      using f3(6) full2 i(2) by (auto simp: recovery_inv_def recov_def)
    then show "isAtFullBandwidth b6" using m6(2) m5(2) by simp
  qed
  from event_outputs_ok [OF w6 k so6 rtt this least, of ac "ces_extraAcked es" bl r]
  obtain b' where b': "event_outputs rtt b6 ac (ces_extraAcked es) bl acked lost r = Some b'"
    "window_inv k b'" "recovery_inv b'" "modes b' = modes b6" "rtts b' = rtts b6" "sizes b' = sizes b6"
    "sampler_ok (sampler b')"
    "pnq_map (connectionStateMap (sampler b')) = pnq_map (connectionStateMap (sampler b6)) |` {n..}" by blast
  have "sizes b' = sizes b" using b'(6) base g5(1) by (simp add: same_base_def)
  moreover have "bbr_maxDatagramSize b' = bbr_maxDatagramSize b" using calculation by (simp add: sizes_def)
  moreover have "in_i64 (minRtt b')" using b'(5) base g5(4) i(5) rtt4 by (auto simp: same_base_def rtts_def)
  moreover have "mode_inv b'" by (rule mode_inv_cong [OF m6(1) b'(4)])
  moreover have "isAtFullBandwidth b \<longrightarrow> isAtFullBandwidth b'" "mode b' \<in> set (mode_moves (mode b))"
    using m6 m5 b'(4) by (simp_all add: modes_def)
  moreover have "dom (pnq_map (connectionStateMap (sampler b'))) \<subseteq> {n..}" using b'(8) by auto
  ultimately show ?thesis using run b' by (simp add: bbr_inv_def bbr_step_ok_def)
qed

text \<open>What can happen to a sender, and the events the QUIC library generates.\<close>

datatype bbr_event =
    Sent int int int int int bool
  | Congestion int nat int int "packet_info list" "packet_info list"
  | NewSize int

fun bbr_do :: "quic_consts \<Rightarrow> bbr \<Rightarrow> bbr_event \<Rightarrow> bbr option" where
  "bbr_do k b (Sent rtt t inflight pn n r) = bbr_OnPacketSent k rtt b t inflight pn n r"
| "bbr_do k b (Congestion rtt draw prior t acked lost) =
     bbr_OnCongestionEventEx k rtt draw b prior t acked lost"
| "bbr_do k b (NewSize n) = bbr_SetMaxDatagramSize b n"

fun bbr_event_ok :: "bbr \<Rightarrow> bbr_event \<Rightarrow> bool" where
  "bbr_event_ok b (Sent rtt t inflight pn n r) \<longleftrightarrow> in_i64 rtt \<and> in_i64 t \<and> pn_ok pn"
| "bbr_event_ok b (Congestion rtt draw prior t acked lost) \<longleftrightarrow> 0 < rtt \<and> in_i64 rtt \<and>
     (acked \<noteq> [] \<or> lost \<noteq> []) \<and> list_all (\<lambda>p. pn_ok (fst p)) acked"
| "bbr_event_ok b (NewSize n) \<longleftrightarrow> bbr_maxDatagramSize b \<le> n \<and> n \<le> 65535"

inductive bbr_reachable :: "quic_consts \<Rightarrow> bbr \<Rightarrow> bool" for k where
  start: "0 < m \<Longrightarrow> m \<le> 65535 \<Longrightarrow> bbr_reachable k (NewBbrSender k m p)"
| step: "bbr_reachable k b \<Longrightarrow> bbr_event_ok b ev \<Longrightarrow> bbr_do k b ev = Some b' \<Longrightarrow> bbr_reachable k b'"

lemma NewBbrSender_inv:
  assumes k: "consts_ok k" and m: "0 < m" "m \<le> 65535"
  shows "bbr_inv k (NewBbrSender k m p)"
proof -
  let ?b = "NewBbrSender k m p"
  have N: "MaxCongestionWindowPackets k * m \<le> 2147483648 * 65535"
    using k m by (intro mult_mono) (simp_all add: consts_ok_def)
  have N0: "32 * m \<le> MaxCongestionWindowPackets k * m"
    using k m by (intro mult_right_mono) (simp_all add: consts_ok_def)
  define nm where "nm = MaxCongestionWindowPackets k * m"
  have "0 \<le> nm" "nm \<le> 140735340871680" using N N0 m by (simp_all only: nm_def [symmetric])
  then have "i64 nm = nm" by (intro i64_id') simp_all
  then have i: "i64 (32 * m) = 32 * m" "i64 (MaxCongestionWindowPackets k * m) = MaxCongestionWindowPackets k * m"
    "minCongestionWindowForMaxDatagramSize m = 4 * m"
    using m by (simp_all add: nm_def minCongestionWindowForMaxDatagramSize_def minCongestionWindowPackets_def i64_id')
  have f: "bbr_maxDatagramSize ?b = m" "initialCongestionWindow ?b = 32 * m"
    "maxCongestionWindow ?b = MaxCongestionWindowPackets k * m" "minCongestionWindow ?b = 4 * m"
    "congestionWindow ?b = 32 * m" "cwndToCalculateMinPacingRate ?b = 32 * m"
    "recoveryState ?b = NotInRecovery" "mode ?b = Startup" "\<not> isAtFullBandwidth ?b" "minRtt ?b = 0"
    "pacingGain ?b = highGain ?b" "congestionWindowGain ?b = highCwndGain ?b"
    by (simp_all add: NewBbrSender_def newBbrSender_def applyProfile_def enterStartupMode_def Let_def i
        initialCongestionWindowPackets_def)
  obtain ov r where s: "sampler ?b = (newBandwidthSampler bandwidthWindowSize)\<lparr>overestimateAvoidance := ov,
      heightTracker := r\<rparr>"
    by (cases "pc_enableOverestimateAvoidance (configForProfile (if p = '''' then ''standard'' else p))")
      (simp_all add: NewBbrSender_def newBbrSender_def applyProfile_def enterStartupMode_def Let_def
        EnableOverestimateAvoidance_def SetReduceExtraAckedOnBandwidthIncrease_def newBandwidthSampler_def)
  have "sampler_ok (sampler ?b)"
    unfolding s using sampler_okD [OF sampler_ok_new [of bandwidthWindowSize]]
    by (intro sampler_ok_cong [OF sampler_ok_new [of bandwidthWindowSize]]) simp_all
  then show ?thesis using m N0
    by (simp add: bbr_inv_def window_inv_def recovery_inv_def mode_inv_def gains_ok_def f in_i64_def)
qed

lemma bbr_do_ok:
  assumes inv: "bbr_inv k b" and k: "consts_ok k" and ok: "bbr_event_ok b ev"
  shows "\<exists>b'. bbr_do k b ev = Some b' \<and> bbr_inv k b' \<and> bbr_step_ok b b'"
proof (cases ev)
  case (Sent rtt t inflight pn n r)
  then have *: "in_i64 rtt" "pn_ok pn" "in_i64 t" using ok by simp_all
  obtain b' where b': "bbr_OnPacketSent k rtt b t inflight pn n r = Some b'" "bbr_inv k b'"
    "sizes b' = sizes b" "modes b' = modes b" using bbr_OnPacketSent_ok [OF inv *] by blast
  then have "bbr_step_ok b b'" by (cases "mode b") (simp_all add: bbr_step_ok_def modes_def sizes_def)
  then show ?thesis using Sent b' by simp
next
  case (Congestion rtt draw prior t acked lost)
  then have *: "0 < rtt" "in_i64 rtt" "\<forall>p \<in> set acked. pn_ok (fst p)" "acked \<noteq> [] \<or> lost \<noteq> []"
    using ok by (simp_all add: list_all_iff)
  obtain n where n: "leastUnacked acked lost = Some n"
    using *(4) by (cases "acked = []") (auto simp: leastUnacked_def)
  show ?thesis
    using bbr_OnCongestionEventEx_ok [OF inv k *(1,2,3) n, of draw prior t] unfolding Congestion bbr_do.simps
    by blast
next
  case (NewSize n)
  then have *: "bbr_maxDatagramSize b \<le> n" "n \<le> 65535" using ok by simp_all
  have i: "window_inv k b" "recovery_inv b" "mode_inv b" "sampler_ok (sampler b)" "in_i64 (minRtt b)"
    using inv by (simp_all add: bbr_inv_def)
  obtain b' where b': "bbr_SetMaxDatagramSize b n = Some b'" "window_inv k b'" "recovery_inv b'"
    "bbr_maxDatagramSize b' = n" "modes b' = modes b" "sampler b' = sampler b" "rtts b' = rtts b"
    using SetMaxDatagramSize_ok [OF i(1,2) k *] by blast
  have "mode_inv b'" by (rule mode_inv_cong [OF i(3) b'(5)])
  moreover have "bbr_step_ok b b'"
    using b'(4,5) * by (cases "mode b") (simp_all add: bbr_step_ok_def modes_def)
  ultimately show ?thesis using NewSize b' i by (simp add: bbr_inv_def rtts_def)
qed

lemma bbr_reachable_inv: "bbr_reachable k b \<Longrightarrow> consts_ok k \<Longrightarrow> bbr_inv k b"
proof (induction rule: bbr_reachable.induct)
  case (start m p)
  then show ?case by (intro NewBbrSender_inv)
next
  case (step b ev b')
  then show ?case using bbr_do_ok [of k b ev] by auto
qed

section \<open>Properties\<close>



text \<open>
  The congestion window BBR enforces always lies between 4 datagrams and the maximum of the
  QUIC library, of the current datagram size, in every mode and in recovery; so a sender with fewer
  than 4 datagrams in flight may always send.
\<close>

theorem bbr_window_bounds:
  assumes "consts_ok k" "bbr_reachable k b"
  shows "4 * bbr_maxDatagramSize b \<le> bbr_GetCongestionWindow b \<and>
    bbr_GetCongestionWindow b \<le> MaxCongestionWindowPackets k * bbr_maxDatagramSize b \<and>
    (inflight < 4 * bbr_maxDatagramSize b \<longrightarrow> bbr_CanSend b inflight)"
proof -
  have inv: "window_inv k b" "recovery_inv b"
    using bbr_reachable_inv [OF assms(2,1)] by (simp_all add: bbr_inv_def)
  have "4 * bbr_maxDatagramSize b \<le> MaxCongestionWindowPackets k * bbr_maxDatagramSize b"
    using inv assms(1) by (intro mult_right_mono) (simp_all add: consts_ok_def window_inv_def)
  with inv show ?thesis
    by (auto simp: bbr_GetCongestionWindow_def probeRttCongestionWindow_def InRecovery_def bbr_CanSend_def
        window_inv_def recovery_inv_def)
qed

lemma bbr_window_bounds_witness:
  "5120 \<le> bbr_GetCongestionWindow (NewBbrSender demo_consts 1280 ''aggressive'') \<and>
   bbr_CanSend (NewBbrSender demo_consts 1280 ''aggressive'') 5000"
proof -
  have r: "bbr_reachable demo_consts (NewBbrSender demo_consts 1280 ''aggressive'')"
    by (rule start) simp_all
  have m: "bbr_maxDatagramSize (NewBbrSender demo_consts 1280 ''aggressive'') = 1280"
    by (simp add: NewBbrSender_def newBbrSender_def applyProfile_def enterStartupMode_def Let_def)
  show ?thesis using bbr_window_bounds [OF demo_consts_ok r, of 5000] by (simp add: m)
qed

text \<open>
  The BBR state machine: in every mode the gains are those of the mode, start-up only lasts
  while the pipe is not full, full bandwidth once reached is never forgotten (so start-up is never
  re-entered), and an event moves between modes only along the edges of \<open>mode_moves\<close>.
\<close>

theorem bbr_mode_machine:
  assumes "consts_ok k" "bbr_reachable k b" "bbr_event_ok b ev" "bbr_do k b ev = Some b'"
  shows "mode_inv b' \<and> (isAtFullBandwidth b \<longrightarrow> isAtFullBandwidth b' \<and> mode b' \<noteq> Startup) \<and>
    mode b' \<in> set (mode_moves (mode b))"
  using bbr_do_ok [OF bbr_reachable_inv [OF assms(2,1)] assms(1,3)] assms(4)
  by (auto simp: bbr_inv_def bbr_step_ok_def mode_inv_def)

lemma bbr_mode_machine_witness:
  "mode_inv (the (bbr_do demo_consts (NewBbrSender demo_consts 1280 ''conservative'') (NewSize 1400)))"
proof -
  have r: "bbr_reachable demo_consts (NewBbrSender demo_consts 1280 ''conservative'')"
    by (rule start) simp_all
  have ok: "bbr_event_ok (NewBbrSender demo_consts 1280 ''conservative'') (NewSize 1400)"
    by (simp add: NewBbrSender_def newBbrSender_def applyProfile_def enterStartupMode_def Let_def)
  obtain b' where b': "bbr_do demo_consts (NewBbrSender demo_consts 1280 ''conservative'') (NewSize 1400) = Some b'"
    using bbr_do_ok [OF bbr_reachable_inv [OF r demo_consts_ok] demo_consts_ok ok] by blast
  show ?thesis using bbr_mode_machine [OF demo_consts_ok r ok b'] b' by simp
qed

text \<open>
  After a congestion event the sampler tracks no packet below the least unacknowledged one:
  what was acknowledged is forgotten, so the state does not grow with the connection.
\<close>

theorem bbr_forgets_acked:
  assumes "consts_ok k" "bbr_reachable k b"
    and "bbr_event_ok b (Congestion rtt draw prior t acked lost)"
    and "bbr_OnCongestionEventEx k rtt draw b prior t acked lost = Some b'"
    and "leastUnacked acked lost = Some n" and "pn < n"
  shows "pnq_map (connectionStateMap (sampler b')) pn = None"
proof -
  have *: "0 < rtt" "in_i64 rtt" "\<forall>p \<in> set acked. pn_ok (fst p)" using assms(3) by (simp_all add: list_all_iff)
  from bbr_OnCongestionEventEx_ok [OF bbr_reachable_inv [OF assms(2,1)] assms(1) * assms(5), of draw prior t]
    assms(4) have "dom (pnq_map (connectionStateMap (sampler b'))) \<subseteq> {n..}" by auto
  then show ?thesis using assms(6) by (meson atLeast_iff domIff linorder_not_le subset_iff)
qed

lemma bbr_forgets_acked_witness:
  "pnq_map (connectionStateMap (sampler (the (bbr_OnCongestionEventEx demo_consts 30000000 7
     (NewBbrSender demo_consts 1280 ''standard'') 2560 5000 [(9, 1280)] [])))) 3 = None"
proof -
  let ?b = "NewBbrSender demo_consts 1280 ''standard''"
  have r: "bbr_reachable demo_consts ?b" by (rule start) simp_all
  have ok: "bbr_event_ok ?b (Congestion 30000000 7 2560 5000 [(9, 1280)] [])"
    by (simp add: in_i64_def pn_ok_def)
  have n: "leastUnacked [(9, 1280)] [] = Some 7" by (simp add: leastUnacked_def i64_def)
  obtain b' where b': "bbr_do demo_consts ?b (Congestion 30000000 7 2560 5000 [(9, 1280)] []) = Some b'"
    using bbr_do_ok [OF bbr_reachable_inv [OF r demo_consts_ok] demo_consts_ok ok] by blast
  then have e: "bbr_OnCongestionEventEx demo_consts 30000000 7 ?b 2560 5000 [(9, 1280)] [] = Some b'" by simp
  show ?thesis using bbr_forgets_acked [OF demo_consts_ok r ok e n, of 3] e by simp
qed

end
