(* ===== verification/Brutal.thy ===== *)
theory Brutal
  imports Go_Float Pacer
begin

text \<open>
  \<open>core/internal/congestion/brutal/brutal.go\<close>: the fixed-rate sender.  Its only measurement is the
  acknowledged share of the packets of the last five seconds, kept in five slots indexed by the
  second modulo five.  The smoothed RTT of the QUIC library is an argument of the window; debug
  output is left out.
\<close>

definition pktInfoSlotCount :: nat where "pktInfoSlotCount = 5"
definition minSampleCount :: int where "minSampleCount = 50"
definition minAckRate :: float64 where "minAckRate = fl (8 / 10)"
definition congestionWindowMultiplier :: float64 where "congestionWindowMultiplier = 2"

record pktInfo =
  Timestamp :: int
  AckCount :: int
  LossCount :: int

record brutal =
  bps :: int
  brutal_maxDatagramSize :: int
  brutal_pacer :: pacer
  pktInfoSlots :: "pktInfo list"
  ackRate :: float64
  disableLossCompensation :: bool

definition NewBrutalSender :: "quic_consts \<Rightarrow> int \<Rightarrow> bool \<Rightarrow> brutal" where
  "NewBrutalSender k bps0 disable =
     \<lparr>bps = i64 bps0, brutal_maxDatagramSize = InitialPacketSize k, brutal_pacer = NewPacer k,
      pktInfoSlots = replicate pktInfoSlotCount \<lparr>Timestamp = 0, AckCount = 0, LossCount = 0\<rparr>,
      ackRate = 1, disableLossCompensation = disable\<rparr>"

text \<open>The closure given to the pacer.\<close>

definition brutal_bandwidth :: "brutal \<Rightarrow> int" where
  "brutal_bandwidth b = f64_to_i64 (fdiv (f64_of_int (bps b)) (ackRate b))"

definition brutal_TimeUntilSend :: "quic_consts \<Rightarrow> brutal \<Rightarrow> int option" where
  "brutal_TimeUntilSend k b = TimeUntilSend k (brutal_bandwidth b) (brutal_pacer b)"

definition brutal_HasPacingBudget :: "quic_consts \<Rightarrow> brutal \<Rightarrow> int \<Rightarrow> bool" where
  "brutal_HasPacingBudget k b now \<longleftrightarrow>
     Budget k (brutal_bandwidth b) (brutal_pacer b) now \<ge> brutal_maxDatagramSize b"

text \<open>\<open>time.Duration.Seconds\<close> of the standard library.\<close>

definition Seconds :: "int \<Rightarrow> float64" where
  "Seconds d = fl (f64_of_int (quot d 1000000000) + fdiv (f64_of_int (rmd d 1000000000)) 1000000000)"

definition brutal_GetCongestionWindow :: "brutal \<Rightarrow> int \<Rightarrow> int" where
  "brutal_GetCongestionWindow b rtt =
     (if rtt \<le> 0 then 10240
      else
        (let cwnd = f64_to_i64 (fdiv (fmul (fmul (f64_of_int (bps b)) (Seconds rtt))
                      congestionWindowMultiplier) (ackRate b))
         in if cwnd < brutal_maxDatagramSize b then brutal_maxDatagramSize b else cwnd))"

definition brutal_CanSend :: "brutal \<Rightarrow> int \<Rightarrow> int \<Rightarrow> bool" where
  "brutal_CanSend b rtt bytesInFlight \<longleftrightarrow> bytesInFlight \<le> brutal_GetCongestionWindow b rtt"

definition brutal_OnPacketSent :: "quic_consts \<Rightarrow> brutal \<Rightarrow> int \<Rightarrow> int \<Rightarrow> brutal" where
  "brutal_OnPacketSent k b sentTime n =
     b\<lparr>brutal_pacer := SentPacket k (brutal_bandwidth b) (brutal_pacer b) sentTime n\<rparr>"

text \<open>The loop of \<open>updateAckRate\<close> over the slots.\<close>

fun count_slots :: "int \<Rightarrow> pktInfo list \<Rightarrow> int \<times> int \<Rightarrow> int \<times> int" where
  "count_slots minTimestamp [] c = c"
| "count_slots minTimestamp (info # infos) (ackCount, lossCount) =
     (if Timestamp info < minTimestamp then count_slots minTimestamp infos (ackCount, lossCount)
      else count_slots minTimestamp infos
             (u64 (ackCount + AckCount info), u64 (lossCount + LossCount info)))"

definition updateAckRate :: "brutal \<Rightarrow> int \<Rightarrow> brutal" where
  "updateAckRate b currentTimestamp =
     (if disableLossCompensation b then b\<lparr>ackRate := 1\<rparr>
      else
        (let minTimestamp = currentTimestamp - int pktInfoSlotCount;
             (ackCount, lossCount) = count_slots minTimestamp (pktInfoSlots b) (0, 0);
             total = u64 (ackCount + lossCount)
         in if total < minSampleCount then b\<lparr>ackRate := 1\<rparr>
            else
              (let rate = fdiv (f64_of_int ackCount) (f64_of_int total)
               in if rate < minAckRate then b\<lparr>ackRate := minAckRate\<rparr> else b\<lparr>ackRate := rate\<rparr>)))"

text \<open>The event's lists matter by their lengths only; a negative time would index out of range.\<close>

definition brutal_OnCongestionEventEx :: "brutal \<Rightarrow> int \<Rightarrow> nat \<Rightarrow> nat \<Rightarrow> brutal option" where
  "brutal_OnCongestionEventEx b eventTime acked lost =
     (let currentTimestamp = quot eventTime 1000000000;
          slot = rmd currentTimestamp (int pktInfoSlotCount)
      in if slot < 0 then None
         else
           (let info = pktInfoSlots b ! nat slot;
                info = (if Timestamp info = currentTimestamp
                        then info\<lparr>LossCount := u64 (LossCount info + int lost),
                                  AckCount := u64 (AckCount info + int acked)\<rparr>
                        else \<lparr>Timestamp = currentTimestamp, AckCount = int acked, LossCount = int lost\<rparr>)
            in Some (updateAckRate (b\<lparr>pktInfoSlots := (pktInfoSlots b)[nat slot := info]\<rparr>)
                       currentTimestamp)))"

definition brutal_SetMaxDatagramSize :: "brutal \<Rightarrow> int \<Rightarrow> brutal" where
  "brutal_SetMaxDatagramSize b n =
     b\<lparr>brutal_maxDatagramSize := n, brutal_pacer := pacer_SetMaxDatagramSize (brutal_pacer b) n\<rparr>"

section \<open>The slots hold the last five seconds\<close>

text \<open>An event: its second, and its numbers of acknowledged and lost packets.\<close>

type_synonym ack_event = "nat \<times> nat \<times> nat"

definition acked_in :: "(nat \<Rightarrow> bool) \<Rightarrow> ack_event list \<Rightarrow> nat" where
  "acked_in P h = sum_list (map (\<lambda>(t, a, l). if P t then a else 0) h)"

definition lost_in :: "(nat \<Rightarrow> bool) \<Rightarrow> ack_event list \<Rightarrow> nat" where
  "lost_in P h = sum_list (map (\<lambda>(t, a, l). if P t then l else 0) h)"

definition total_of :: "ack_event list \<Rightarrow> nat" where
  "total_of h = sum_list (map (\<lambda>(t, a, l). a + l) h)"

definition class_event :: "nat \<Rightarrow> nat \<Rightarrow> nat \<Rightarrow> bool" where
  "class_event t i s \<longleftrightarrow> s = t \<and> s mod 5 = i"

definition slot_ok :: "ack_event list \<Rightarrow> nat \<Rightarrow> pktInfo \<Rightarrow> nat \<Rightarrow> bool" where
  "slot_ok h i info t \<longleftrightarrow>
     info = \<lparr>Timestamp = int t, AckCount = int (acked_in (class_event t i) h),
             LossCount = int (lost_in (class_event t i) h)\<rparr> \<and>
     (t mod 5 = i \<or> t = 0) \<and> (\<forall>e \<in> set h. fst e mod 5 = i \<longrightarrow> fst e \<le> t)"

definition slots_ok :: "ack_event list \<Rightarrow> pktInfo list \<Rightarrow> bool" where
  "slots_ok h ss \<longleftrightarrow> length ss = 5 \<and> (\<forall>i<5. \<exists>t. slot_ok h i (ss ! i) t \<and> (t = 0 \<or> t \<in> fst ` set h))"

lemma acked_in_Cons [simp]:
  "acked_in P ((t, a, l) # h) = (if P t then a else 0) + acked_in P h"
  "lost_in P ((t, a, l) # h) = (if P t then l else 0) + lost_in P h"
  "acked_in P [] = 0" "lost_in P [] = 0" "total_of [] = 0"
  "total_of ((t, a, l) # h) = a + l + total_of h"
  by (simp_all add: acked_in_def lost_in_def total_of_def)

lemma in_le_total: "acked_in P h + lost_in Q h \<le> total_of h"
  by (induction h) auto

lemma in_none: "\<forall>e \<in> set h. \<not> P (fst e) \<Longrightarrow> acked_in P h = 0 \<and> lost_in P h = 0"
  by (induction h) auto

lemma in_cong: "\<forall>e \<in> set h. P (fst e) = Q (fst e) \<Longrightarrow> acked_in P h = acked_in Q h \<and> lost_in P h = lost_in Q h"
  by (induction h) auto

lemma in_split:
  "acked_in P h = (\<Sum>i<5. acked_in (\<lambda>s. P s \<and> s mod 5 = i) h)"
  "lost_in P h = (\<Sum>i<5. lost_in (\<lambda>s. P s \<and> s mod 5 = i) h)"
  by (induction h) (auto simp: sum.distrib)

lemma slots_ok_new: "slots_ok [] (pktInfoSlots (NewBrutalSender k b d))"
  by (auto simp: slots_ok_def slot_ok_def NewBrutalSender_def pktInfoSlotCount_def)

text \<open>The update of one slot by an event of second \<open>T\<close>.\<close>

definition slot_update :: "nat \<Rightarrow> nat \<Rightarrow> nat \<Rightarrow> pktInfo \<Rightarrow> pktInfo" where
  "slot_update T a l info =
     (if Timestamp info = int T
      then info\<lparr>LossCount := u64 (LossCount info + int l), AckCount := u64 (AckCount info + int a)\<rparr>
      else \<lparr>Timestamp = int T, AckCount = int a, LossCount = int l\<rparr>)"

lemma slot_update_ok:
  assumes s: "slot_ok h (T mod 5) info t" and tT: "t \<le> T" and le: "\<forall>e \<in> set h. fst e \<le> T"
    and tot: "total_of ((T, a, l) # h) < 2 ^ 64"
  shows "slot_ok ((T, a, l) # h) (T mod 5) (slot_update T a l info) T"
proof -
  let ?i = "T mod 5"
  have u: "u64 (int n) = int n" if "n \<le> total_of ((T, a, l) # h)" for n
    using that tot by (intro u64_id) (simp_all flip: of_nat_less_iff)
  show ?thesis
  proof (cases "t = T")
    case True
    have "acked_in (class_event T ?i) h + lost_in (class_event T ?i) h \<le> total_of h" by (rule in_le_total)
    then have "u64 (int (acked_in (class_event T ?i) h) + int a) = int (a + acked_in (class_event T ?i) h)"
      "u64 (int (lost_in (class_event T ?i) h) + int l) = int (l + lost_in (class_event T ?i) h)"
      using u [of "a + acked_in (class_event T ?i) h"] u [of "l + lost_in (class_event T ?i) h"]
      by (simp_all add: add.commute)
    then show ?thesis using s True le
      by (auto simp: slot_ok_def slot_update_def class_event_def add.commute)
  next
    case False
    have "\<forall>e \<in> set h. \<not> class_event T ?i (fst e)"
      using s tT False by (fastforce simp: slot_ok_def class_event_def)
    then have "acked_in (class_event T ?i) h = 0 \<and> lost_in (class_event T ?i) h = 0" by (rule in_none)
    then show ?thesis using s False le
      by (auto simp: slot_ok_def slot_update_def class_event_def)
  qed
qed


lemma slot_keep:
  assumes "slot_ok h i info t" "T mod 5 \<noteq> i"
  shows "slot_ok ((T, a, l) # h) i info t"
  using assms by (auto simp: slot_ok_def class_event_def)

lemma slots_step:
  assumes ok: "slots_ok h ss" and le: "\<forall>e \<in> set h. fst e \<le> T"
    and tot: "total_of ((T, a, l) # h) < 2 ^ 64"
  shows "slots_ok ((T, a, l) # h) (ss[T mod 5 := slot_update T a l (ss ! (T mod 5))])"
  unfolding slots_ok_def
proof (intro conjI allI impI)
  show "length (ss[T mod 5 := slot_update T a l (ss ! (T mod 5))]) = 5" using ok by (simp add: slots_ok_def)
  fix i :: nat assume i: "i < 5"
  then obtain t where t: "slot_ok h i (ss ! i) t" "t = 0 \<or> t \<in> fst ` set h"
    using ok unfolding slots_ok_def by blast
  have tT: "t \<le> T" using t(2) le by auto
  have len: "length ss = 5" using ok by (simp add: slots_ok_def)
  show "\<exists>t. slot_ok ((T, a, l) # h) i (ss[T mod 5 := slot_update T a l (ss ! (T mod 5))] ! i) t \<and>
      (t = 0 \<or> t \<in> fst ` set ((T, a, l) # h))"
  proof (cases "T mod 5 = i")
    case True
    then have "slot_ok ((T, a, l) # h) i (slot_update T a l (ss ! i)) T"
      using slot_update_ok [of h T "ss ! i" t a l] t tT le tot by simp
    then show ?thesis using True i len by auto
  next
    case False
    then show ?thesis using slot_keep [OF t(1)] t(2) by auto
  qed
qed

lemma slot_window:
  assumes s: "slot_ok h i info t" and i: "i < 5" and tT: "t \<le> T" and cur: "i = T mod 5 \<longrightarrow> t = T"
    and le: "\<forall>e \<in> set h. fst e \<le> T"
  shows "(if Timestamp info < int T - 5 then 0 else AckCount info) =
      int (acked_in (\<lambda>s. T < s + 5 \<and> s mod 5 = i) h)"
    "(if Timestamp info < int T - 5 then 0 else LossCount info) =
      int (lost_in (\<lambda>s. T < s + 5 \<and> s mod 5 = i) h)"
proof -
  let ?P = "\<lambda>s. T < s + 5 \<and> s mod 5 = i"
  have "(if Timestamp info < int T - 5 then 0 else AckCount info) = int (acked_in ?P h) \<and>
    (if Timestamp info < int T - 5 then 0 else LossCount info) = int (lost_in ?P h)"
  proof (cases "t + 5 < T")
    case True
    have "\<forall>e \<in> set h. \<not> ?P (fst e)" using s True by (fastforce simp: slot_ok_def)
    then have "acked_in ?P h = 0 \<and> lost_in ?P h = 0" by (rule in_none)
    then show ?thesis using s True by (auto simp: slot_ok_def)
  next
    case False
    have "class_event t i (fst e) = ?P (fst e)" if e: "e \<in> set h" for e
    proof
      assume c: "class_event t i (fst e)"
      have "t + 5 \<noteq> T"
      proof
        assume "t + 5 = T"
        then have "i = T mod 5" using c by (auto simp: class_event_def)
        with cur \<open>t + 5 = T\<close> show False by simp
      qed
      with c False show "?P (fst e)" by (auto simp: class_event_def)
    next
      assume c: "?P (fst e)"
      have b: "fst e \<le> t" using s e c by (auto simp: slot_ok_def)
      have "t mod 5 = i"
      proof (cases "t = 0")
        case True
        with b c show ?thesis by simp
      qed (use s in \<open>auto simp: slot_ok_def\<close>)
      then have "5 dvd t - fst e" using mod_eq_dvd_iff_nat [OF b, of 5] c by simp
      moreover have "t - fst e < 5" using c tT by linarith
      ultimately have "t = fst e" using b by (auto dest!: dvd_imp_le)
      with c show "class_event t i (fst e)" by (simp add: class_event_def)
    qed
    then have "acked_in (class_event t i) h = acked_in ?P h \<and> lost_in (class_event t i) h = lost_in ?P h"
      by (intro in_cong) blast
    then show ?thesis using s False by (auto simp: slot_ok_def)
  qed
  then show "(if Timestamp info < int T - 5 then 0 else AckCount info) = int (acked_in ?P h)"
    "(if Timestamp info < int T - 5 then 0 else LossCount info) = int (lost_in ?P h)" by auto
qed

lemma count_slots_sum:
  assumes "\<forall>info \<in> set ss. 0 \<le> AckCount info \<and> 0 \<le> LossCount info" "0 \<le> a" "0 \<le> l"
    and "a + sum_list (map (\<lambda>info. if Timestamp info < m then 0 else AckCount info) ss) < 2 ^ 64"
    and "l + sum_list (map (\<lambda>info. if Timestamp info < m then 0 else LossCount info) ss) < 2 ^ 64"
  shows "count_slots m ss (a, l) =
    (a + sum_list (map (\<lambda>info. if Timestamp info < m then 0 else AckCount info) ss),
     l + sum_list (map (\<lambda>info. if Timestamp info < m then 0 else LossCount info) ss))"
  using assms
proof (induction ss arbitrary: a l)
  case (Cons info ss)
  have pos: "0 \<le> sum_list (map (\<lambda>info. if Timestamp info < m then 0 else AckCount info) ss)"
    "0 \<le> sum_list (map (\<lambda>info. if Timestamp info < m then 0 else LossCount info) ss)"
    using Cons.prems(1) by (auto intro!: sum_list_nonneg)
  show ?case
  proof (cases "Timestamp info < m")
    case True
    with Cons show ?thesis by simp
  next
    case False
    have n: "0 \<le> AckCount info" "0 \<le> LossCount info" using Cons.prems(1) by auto
    have "u64 (a + AckCount info) = a + AckCount info" "u64 (l + LossCount info) = l + LossCount info"
      using Cons.prems False pos n by (auto intro!: u64_id)
    then show ?thesis
      using Cons.IH [of "a + AckCount info" "l + LossCount info"] Cons.prems False n by simp
  qed
qed simp


section \<open>Properties\<close>

text \<open>Events, newest first, with their times in nanoseconds.\<close>

fun brutal_run :: "brutal \<Rightarrow> (nat \<times> nat \<times> nat) list \<Rightarrow> brutal option" where
  "brutal_run b [] = Some b"
| "brutal_run b ((t, a, l) # es) =
     (case brutal_run b es of None \<Rightarrow> None | Some b \<Rightarrow> brutal_OnCongestionEventEx b (int t) a l)"

definition in_seconds :: "(nat \<times> nat \<times> nat) list \<Rightarrow> ack_event list" where
  "in_seconds es = map (\<lambda>(t, a, l). (t div 1000000000, a, l)) es"

text \<open>The acknowledged share the sender should use.\<close>

definition share :: "nat \<Rightarrow> nat \<Rightarrow> float64" where
  "share a l =
     (if a + l < 50 then 1 else max minAckRate (fdiv (f64_of_int (int a)) (f64_of_int (int (a + l)))))"

lemma sum_list_five: "length ss = 5 \<Longrightarrow> sum_list (map f ss) = (\<Sum>i<5. f (ss ! i))"
proof -
  assume l: "length ss = 5"
  have "sum_list (map f ss) = (\<Sum>i = 0..<length ss. f (ss ! i))"
    using sum_list_sum_nth [of "map f ss"] by simp
  then show ?thesis by (simp add: l atLeast0LessThan)
qed

lemma count_slots_window:
  assumes ok: "slots_ok h ss" and ne: "h = (T, a, l) # h'" and le: "\<forall>e \<in> set h. fst e \<le> T"
    and tot: "total_of h < 2 ^ 64"
  shows "count_slots (int T - 5) ss (0, 0) =
    (int (acked_in (\<lambda>s. T < s + 5) h), int (lost_in (\<lambda>s. T < s + 5) h))"
proof -
  let ?A = "\<lambda>info. if Timestamp info < int T - 5 then 0 else AckCount info"
  let ?L = "\<lambda>info. if Timestamp info < int T - 5 then 0 else LossCount info"
  have len: "length ss = 5" using ok by (simp add: slots_ok_def)
  have w: "?A (ss ! i) = int (acked_in (\<lambda>s. T < s + 5 \<and> s mod 5 = i) h) \<and>
      ?L (ss ! i) = int (lost_in (\<lambda>s. T < s + 5 \<and> s mod 5 = i) h) \<and>
      0 \<le> AckCount (ss ! i) \<and> 0 \<le> LossCount (ss ! i)" if i: "i < 5" for i
  proof -
    obtain t where t: "slot_ok h i (ss ! i) t" "t = 0 \<or> t \<in> fst ` set h"
      using ok i unfolding slots_ok_def by blast
    have tT: "t \<le> T" using t(2) le by auto
    have "i = T mod 5 \<longrightarrow> t = T"
      using t(1) ne tT by (auto simp: slot_ok_def)
    from slot_window [OF t(1) i tT this le] t(1) show ?thesis by (simp add: slot_ok_def)
  qed
  have A: "sum_list (map ?A ss) = int (acked_in (\<lambda>s. T < s + 5) h)"
    unfolding sum_list_five [OF len] in_split(1) [of "\<lambda>s. T < s + 5"] of_nat_sum
    using w by (intro sum.cong) auto
  have L: "sum_list (map ?L ss) = int (lost_in (\<lambda>s. T < s + 5) h)"
    unfolding sum_list_five [OF len] in_split(2) [of "\<lambda>s. T < s + 5"] of_nat_sum
    using w by (intro sum.cong) auto
  have b: "acked_in (\<lambda>s. T < s + 5) h + lost_in (\<lambda>s. T < s + 5) h \<le> total_of h" by (rule in_le_total)
  then have "int (acked_in (\<lambda>s. T < s + 5) h) < 2 ^ 64" "int (lost_in (\<lambda>s. T < s + 5) h) < 2 ^ 64"
    using tot by (simp_all flip: of_nat_less_iff)
  moreover have "\<forall>info \<in> set ss. 0 \<le> AckCount info \<and> 0 \<le> LossCount info"
    using w len by (auto simp: in_set_conv_nth)
  ultimately show ?thesis using count_slots_sum [of ss 0 0 "int T - 5"] A L by simp
qed

lemma updateAckRate_share:
  assumes "count_slots (T - 5) (pktInfoSlots b) (0, 0) = (int a, int l)" "a + l < 2 ^ 64"
    "\<not> disableLossCompensation b"
  shows "updateAckRate b T = b\<lparr>ackRate := share a l\<rparr>"
proof -
  have "u64 (int a + int l) = int (a + l)" 
    using assms(2) u64_id [of "int (a + l)"] by (simp flip: of_nat_less_iff)
  then show ?thesis
    using assms(1,3)
    by (auto simp: updateAckRate_def pktInfoSlotCount_def minSampleCount_def share_def max_def Let_def)
qed

lemma brutal_step:
  assumes ok: "slots_ok h (pktInfoSlots b)" and le: "\<forall>e \<in> set h. fst e \<le> t div 1000000000"
    and tot: "total_of ((t div 1000000000, a, l) # h) < 2 ^ 64" and dis: "\<not> disableLossCompensation b"
  defines "h' \<equiv> (t div 1000000000, a, l) # h"
  defines "w \<equiv> \<lambda>s. t div 1000000000 < s + 5"
  shows "\<exists>b'. brutal_OnCongestionEventEx b (int t) a l = Some b' \<and> slots_ok h' (pktInfoSlots b') \<and>
    \<not> disableLossCompensation b' \<and> bps b' = bps b \<and> ackRate b' = share (acked_in w h') (lost_in w h')"
proof -
  let ?T = "t div 1000000000"
  have q: "quot (int t) 1000000000 = int ?T" by (simp add: zdiv_int)
  have m: "rmd (int ?T) (int pktInfoSlotCount) = int (?T mod 5)"
    by (simp add: pktInfoSlotCount_def zmod_int)
  let ?ss = "(pktInfoSlots b)[?T mod 5 := slot_update ?T a l (pktInfoSlots b ! (?T mod 5))]"
  have ok': "slots_ok h' ?ss" unfolding h'_def by (rule slots_step [OF ok le tot])
  have "\<forall>e \<in> set h'. fst e \<le> ?T" using le by (simp add: h'_def)
  from count_slots_window [OF ok' h'_def [THEN meta_eq_to_obj_eq] this] tot
  have c: "count_slots (int ?T - 5) ?ss (0, 0) = (int (acked_in w h'), int (lost_in w h'))"
    by (simp add: h'_def w_def)
  have "acked_in w h' + lost_in w h' < 2 ^ 64" using in_le_total [of w h' w] tot by (simp add: h'_def)
  from updateAckRate_share [of "int ?T" "b\<lparr>pktInfoSlots := ?ss\<rparr>", OF _ this] c dis
  have u: "updateAckRate (b\<lparr>pktInfoSlots := ?ss\<rparr>) (int ?T) =
      b\<lparr>pktInfoSlots := ?ss, ackRate := share (acked_in w h') (lost_in w h')\<rparr>" by simp
  have "brutal_OnCongestionEventEx b (int t) a l = Some (updateAckRate (b\<lparr>pktInfoSlots := ?ss\<rparr>) (int ?T))"
    unfolding brutal_OnCongestionEventEx_def Let_def q m slot_update_def by simp
  with u ok' dis show ?thesis by simp
qed

lemma brutal_run_ok:
  assumes "sorted_wrt (\<lambda>x y. fst y \<le> fst x) es" "total_of (in_seconds es) < 2 ^ 64"
  shows "\<exists>b. brutal_run (NewBrutalSender k r False) es = Some b \<and>
    slots_ok (in_seconds es) (pktInfoSlots b) \<and> \<not> disableLossCompensation b \<and> bps b = i64 r \<and>
    ackRate b = (case in_seconds es of [] \<Rightarrow> 1
      | (T, _) # _ \<Rightarrow> share (acked_in (\<lambda>s. T < s + 5) (in_seconds es))
                         (lost_in (\<lambda>s. T < s + 5) (in_seconds es)))"
  using assms
proof (induction es)
  case Nil
  then show ?case using slots_ok_new [of k r False]
    by (simp add: in_seconds_def) (simp add: NewBrutalSender_def)
next
  case (Cons e es)
  obtain t a l where e: "e = (t, a, l)" by (cases e)
  have s: "in_seconds (e # es) = (t div 1000000000, a, l) # in_seconds es"
    by (simp add: e in_seconds_def)
  have "total_of (in_seconds es) < 2 ^ 64" using Cons.prems(2) by (simp add: s)
  then obtain b where b: "brutal_run (NewBrutalSender k r False) es = Some b"
    "slots_ok (in_seconds es) (pktInfoSlots b)" "\<not> disableLossCompensation b" "bps b = i64 r"
    using Cons.IH Cons.prems(1) by auto
  have "\<forall>x \<in> set (in_seconds es). fst x \<le> t div 1000000000"
    using Cons.prems(1) by (auto simp: in_seconds_def e div_le_mono)
  moreover have "total_of ((t div 1000000000, a, l) # in_seconds es) < 2 ^ 64"
    using Cons.prems(2) by (simp only: s)
  ultimately obtain b' where "brutal_OnCongestionEventEx b (int t) a l = Some b'"
    "slots_ok (in_seconds (e # es)) (pktInfoSlots b')" "\<not> disableLossCompensation b'" "bps b' = bps b"
    "ackRate b' = share (acked_in (\<lambda>x. t div 1000000000 < x + 5) (in_seconds (e # es)))
      (lost_in (\<lambda>x. t div 1000000000 < x + 5) (in_seconds (e # es)))"
    using brutal_step [OF b(2) _ _ b(3)] unfolding s by blast
  moreover have "brutal_run (NewBrutalSender k r False) (e # es) = Some b'"
    using b(1) calculation(1) by (simp add: e)
  moreover have "in_seconds (e # es) \<noteq> [] \<and> fst (hd (in_seconds (e # es))) = t div 1000000000"
    by (simp add: s)
  ultimately show ?case using b(4) by (auto split: list.splits)
qed

text \<open>
  After any events at non-decreasing times, the rate that Brutal compensates for is computed
  from exactly the packets acknowledged and lost in the last five seconds: the fixed ring of five
  slots neither loses an event of the window nor keeps one from before it.  Below 50 packets the
  rate is 1, otherwise the acknowledged share, at least 0.8.
\<close>

theorem brutal_ack_rate_window:
  assumes "sorted_wrt (\<lambda>x y. fst y \<le> fst x) ((t, a, l) # es)"
    and "total_of (in_seconds ((t, a, l) # es)) < 2 ^ 64"
  defines "h \<equiv> in_seconds ((t, a, l) # es)"
  defines "recent \<equiv> \<lambda>s. t div 1000000000 < s + 5"
  shows "\<exists>b. brutal_run (NewBrutalSender k rate False) ((t, a, l) # es) = Some b \<and>
    ackRate b = (let acks = acked_in recent h; losses = lost_in recent h
      in if acks + losses < 50 then 1
         else max (fl (8 / 10)) (fl (fl (of_int (int acks)) / fl (of_int (int (acks + losses))))))"
proof -
  obtain b where "brutal_run (NewBrutalSender k rate False) ((t, a, l) # es) = Some b"
    "ackRate b = share (acked_in recent h) (lost_in recent h)"
    using brutal_run_ok [OF assms(1,2), of k rate] by (auto simp: in_seconds_def h_def recent_def)
  then show ?thesis by (simp add: share_def minAckRate_def fdiv_def f64_of_int_def Let_def)
qed

lemma brutal_ack_rate_window_witness:
  "\<exists>b. brutal_run (NewBrutalSender demo_consts 1000000 False)
      [(7000000000, 60, 20), (1000000000, 0, 500)] = Some b \<and> ackRate b = fl (8 / 10)"
proof -
  have v: "fl (fl 60 / fl 80) = 3 / 4" "fl (4 / 5) = 3602879701896397 / 4503599627370496"
    by code_simp+
  show ?thesis
    using brutal_ack_rate_window [of 7000000000 60 20 "[(1000000000, 0, 500)]" demo_consts 1000000]
    by (simp add: in_seconds_def v)
qed


lemma minAckRate_bounds: "4 / 5 \<le> minAckRate" "minAckRate \<le> 1"
proof -
  have "minAckRate = 3602879701896397 / 4503599627370496" by code_simp
  then show "4 / 5 \<le> minAckRate" "minAckRate \<le> 1" by simp_all
qed

lemma share_bounds: "a + l < 2 ^ 53 \<Longrightarrow> minAckRate \<le> share a l \<and> share a l \<le> 1"
proof -
  assume "a + l < 2 ^ 53"
  then have e: "f64_of_int (int a) = of_nat a" "f64_of_int (int (a + l)) = of_nat (a + l)"
    unfolding f64_of_int_def by (subst fl_exact; simp)+
  have "fdiv (of_nat a) (of_nat (a + l)) \<le> 1"
  proof (cases "a + l = 0")
    case False
    then have "0 < (of_nat (a + l) :: rat)" by (simp only: of_nat_0_less_iff)
    then show ?thesis unfolding fdiv_def by (intro fl_unit(2)) (simp_all add: divide_le_eq_1)
  qed (simp add: fdiv_def)
  then show ?thesis using minAckRate_bounds by (simp add: share_def e del: of_nat_add)
qed

text \<open>
  Compensation never slows Brutal below the configured rate and never drives it above five
  quarters of it: the rate the pacer works with is between \<open>rate\<close> and \<open>rate * 5/4\<close> rounded up.
\<close>

theorem brutal_rate_bounds:
  assumes "sorted_wrt (\<lambda>x y. fst y \<le> fst x) es" "total_of (in_seconds es) < 2 ^ 53"
    and "0 < rate" "rate < 2 ^ 52"
  shows "\<exists>b. brutal_run (NewBrutalSender k rate False) es = Some b \<and>
    rate \<le> brutal_bandwidth b \<and> brutal_bandwidth b \<le> (5 * rate + 3) div 4"
proof -
  have "total_of (in_seconds es) < 2 ^ 64" using assms(2) by simp
  from brutal_run_ok [OF assms(1) this] obtain b where
    b: "brutal_run (NewBrutalSender k rate False) es = Some b" "bps b = i64 rate" and
    r: "ackRate b = (case in_seconds es of [] \<Rightarrow> 1
      | (T, _) # _ \<Rightarrow> share (acked_in (\<lambda>s. T < s + 5) (in_seconds es))
                         (lost_in (\<lambda>s. T < s + 5) (in_seconds es)))" by blast
  have "minAckRate \<le> ackRate b \<and> ackRate b \<le> 1"
  proof (cases "in_seconds es")
    case Nil
    then show ?thesis using r minAckRate_bounds by simp
  next
    case (Cons e h)
    obtain T x where e: "e = (T, x)" by (cases e)
    have "acked_in (\<lambda>s. T < s + 5) (in_seconds es) + lost_in (\<lambda>s. T < s + 5) (in_seconds es) < 2 ^ 53"
      using in_le_total [of "\<lambda>s. T < s + 5" "in_seconds es"] assms(2) by (rule order_le_less_trans)
    then show ?thesis using r share_bounds Cons e by simp
  qed
  then have ar: "4 / 5 \<le> ackRate b" "ackRate b \<le> 1" "0 < ackRate b"
    using minAckRate_bounds by linarith+
  have bps: "bps b = rate" using b(2) assms(3,4) by (simp add: i64_id')
  have f: "f64_of_int rate = of_int rate" unfolding f64_of_int_def using assms by (intro fl_exact) simp
  let ?x = "of_int rate / ackRate b" and ?n = "(5 * rate + 3) div 4"
  have pos: "0 < ?x" using ar assms(3) by simp
  have lo: "of_int rate \<le> ?x" using ar assms(3) by (simp add: pos_le_divide_eq mult_left_le)
  have "?x \<le> of_int rate / (4 / 5)" using ar assms(3) by (intro divide_left_mono) simp_all
  also have "\<dots> \<le> of_int ?n"
  proof -
    have "5 * rate \<le> 4 * ?n" by linarith
    then have "(of_int (5 * rate) :: rat) \<le> of_int (4 * ?n)" by (simp only: of_int_le_iff)
    then show ?thesis by (simp add: field_simps)
  qed
  finally have hi: "?x \<le> of_int ?n" .
  have "rate < 4503599627370496" using assms(4) by simp
  then have "?n < 9007199254740992" by linarith
  then have n: "?n < 2 ^ 53" by simp
  have "of_int rate \<le> fl ?x" using assms(3,4) by (intro fl_ge_int lo) simp_all
  moreover have "fl ?x \<le> of_int ?n" using pos by (intro fl_le_int n hi) simp
  ultimately have t: "rate \<le> trunc_rat (fl ?x)" "trunc_rat (fl ?x) \<le> ?n"
    using trunc_rat_ge [of rate "fl ?x"] trunc_rat_le [of "fl ?x" ?n] assms(3) by auto
  then have "in_i64 (trunc_rat (fl ?x))" using n assms(3) by (simp add: in_i64_def)
  with t b show ?thesis by (simp add: brutal_bandwidth_def bps f fdiv_def f64_to_i64_def)
qed

lemma brutal_rate_bounds_witness:
  "\<exists>b. brutal_run (NewBrutalSender demo_consts 1000000 False) [(7000000000, 60, 20)] = Some b \<and>
    1000000 \<le> brutal_bandwidth b \<and> brutal_bandwidth b \<le> 1250000"
  using brutal_rate_bounds [of "[(7000000000, 60, 20)]" 1000000 demo_consts]
  by (simp add: in_seconds_def)

text \<open>
  The window of Brutal never blocks a connection with nothing in flight: it admits at least
  one full packet whatever the round-trip time and the loss.
\<close>

theorem brutal_window_open:
  assumes "bytesInFlight \<le> brutal_maxDatagramSize b" "bytesInFlight \<le> 10240"
  shows "brutal_CanSend b rtt bytesInFlight"
  using assms by (simp add: brutal_CanSend_def brutal_GetCongestionWindow_def Let_def)

lemma brutal_window_open_witness: "brutal_CanSend (NewBrutalSender demo_consts 1 False) 5 1200"
  by (rule brutal_window_open) (simp_all add: NewBrutalSender_def demo_consts_def)

end
