(* ===== verification/Congestion.thy ===== *)
theory Congestion
  imports Bbr_Sender Brutal
begin

text \<open>
  \<open>core/internal/congestion/utils.go\<close>: the choice of a congestion controller and how it is seeded.
  The factories that \<open>UseBBR\<close> and \<open>UseBrutal\<close> register with the QUIC connection are the functions
  here: \<open>isUDP\<close> tells whether the connection's remote address is a UDP address.
\<close>

definition NormalizeType :: "string \<Rightarrow> string + string" where
  "NormalizeType congestionType =
     (let normalized = ToLower congestionType
      in if normalized = '''' \<or> normalized = ''bbr'' then Inr ''bbr''
         else if normalized = ''reno'' then Inr ''reno''
         else Inl ''unsupported congestion type'')"

definition NormalizeBBRProfile :: "string \<Rightarrow> string + string" where
  "NormalizeBBRProfile p = ParseProfile p"

definition GetInitialPacketSize :: "quic_consts \<Rightarrow> bool \<Rightarrow> int" where
  "GetInitialPacketSize k isUDP = (if isUDP then InitialPacketSize k else MinInitialPacketSize k)"

definition seedPacketSize :: "int \<Rightarrow> int \<Rightarrow> int" where
  "seedPacketSize quicSize byAddr = (if quicSize \<le> 0 then byAddr else min quicSize byAddr)"

definition bbr_factory :: "quic_consts \<Rightarrow> bool \<Rightarrow> string \<Rightarrow> int \<Rightarrow> bbr" where
  "bbr_factory k isUDP prof initialPacketSize =
     NewBbrSender k (seedPacketSize initialPacketSize (GetInitialPacketSize k isUDP)) prof"

definition brutal_factory :: "quic_consts \<Rightarrow> int \<Rightarrow> bool \<Rightarrow> int \<Rightarrow> brutal" where
  "brutal_factory k tx noComp initialPacketSize =
     NewBrutalSender k tx noComp"

text \<open>\<open>UseConfigured\<close>: no factory is installed for Reno, QUIC's own controller.\<close>

definition UseConfigured :: "quic_consts \<Rightarrow> bool \<Rightarrow> string \<Rightarrow> string \<Rightarrow> (int \<Rightarrow> bbr) option" where
  "UseConfigured k isUDP congestionType bbrProfile =
     (if congestionType = ''reno'' then None else Some (bbr_factory k isUDP bbrProfile))"

text \<open>Path MTU discovery: QUIC reports one size after another to the controller.\<close>

fun report_sizes :: "bbr \<Rightarrow> int list \<Rightarrow> bbr option" where
  "report_sizes b [] = Some b"
| "report_sizes b (n # ns) = Option.bind (bbr_SetMaxDatagramSize b n) (\<lambda>b. report_sizes b ns)"

lemma NormalizeType_configured:
  "NormalizeType t = Inr c \<Longrightarrow> c \<in> {''bbr'', ''reno''}"
  by (auto simp: NormalizeType_def Let_def split: if_splits)

lemma report_sizes_ok:
  assumes "consts_ok k" "window_inv k b" "recovery_inv b" "sorted ns"
    "\<forall>n \<in> set ns. bbr_maxDatagramSize b \<le> n \<and> n \<le> 65535"
  shows "\<exists>b'. report_sizes b ns = Some b' \<and> window_inv k b' \<and>
    bbr_maxDatagramSize b' = (if ns = [] then bbr_maxDatagramSize b else last ns)"
  using assms(2-5)
proof (induction ns arbitrary: b)
  case (Cons n ns)
  then obtain b1 where 1: "bbr_SetMaxDatagramSize b n = Some b1" "window_inv k b1" "recovery_inv b1"
    "bbr_maxDatagramSize b1 = n"
    using SetMaxDatagramSize_ok [OF Cons(2,3) assms(1), of n] by auto
  have "sorted ns" "\<forall>m \<in> set ns. bbr_maxDatagramSize b1 \<le> m \<and> m \<le> 65535"
    using Cons(4,5) 1(4) by simp_all
  from Cons.IH [OF 1(2,3) this] obtain b' where b': "report_sizes b1 ns = Some b'" "window_inv k b'"
    "bbr_maxDatagramSize b' = (if ns = [] then bbr_maxDatagramSize b1 else last ns)" by blast
  have "report_sizes b (n # ns) = Some b'" using 1(1) b'(1) by simp
  moreover have "bbr_maxDatagramSize b' = last (n # ns)" using b'(3) 1(4) by simp
  ultimately show ?case using b'(2) by simp
qed simp

lemma NewBbrSender_size: "bbr_maxDatagramSize (NewBbrSender k m p) = m"
  by (simp add: NewBbrSender_def newBbrSender_def applyProfile_def enterStartupMode_def Let_def)

text \<open>
  A BBR sender built by the factory, at the size QUIC starts with, accepts every sequence of
  growing datagram sizes QUIC can report afterwards: it is never seeded above QUIC, so an increase
  for QUIC is never a decrease for the controller (which would panic), and its windows end up scaled
  to the last size.
\<close>

theorem bbr_seed_never_panics:
  assumes k: "consts_ok k" and q: "0 < q" "q \<le> 65535"
    and sizes: "sorted ns" "\<forall>n \<in> set ns. q \<le> n \<and> n \<le> 65535"
  shows "\<exists>b. report_sizes (bbr_factory k isUDP prof q) ns = Some b \<and>
    minCongestionWindow b = 4 * bbr_maxDatagramSize b \<and>
    bbr_maxDatagramSize b = (if ns = [] then min q (GetInitialPacketSize k isUDP) else last ns)"
proof -
  let ?m = "seedPacketSize q (GetInitialPacketSize k isUDP)"
  have m: "0 < ?m" "?m \<le> 65535" "?m \<le> q" "?m = min q (GetInitialPacketSize k isUDP)"
    using q k by (auto simp: seedPacketSize_def GetInitialPacketSize_def consts_ok_def)
  have "bbr_inv k (bbr_factory k isUDP prof q)"
    unfolding bbr_factory_def by (rule NewBbrSender_inv [OF k m(1,2)])
  then have inv: "window_inv k (bbr_factory k isUDP prof q)" "recovery_inv (bbr_factory k isUDP prof q)"
    by (simp_all add: bbr_inv_def)
  have f: "bbr_maxDatagramSize (bbr_factory k isUDP prof q) = ?m"
    by (simp add: bbr_factory_def NewBbrSender_size)
  have "\<forall>n \<in> set ns. bbr_maxDatagramSize (bbr_factory k isUDP prof q) \<le> n \<and> n \<le> 65535"
    using sizes(2) m(3) unfolding f by fastforce
  from report_sizes_ok [OF k inv sizes(1) this] obtain b' where
    b': "report_sizes (bbr_factory k isUDP prof q) ns = Some b'" "window_inv k b'"
    "bbr_maxDatagramSize b' = (if ns = [] then ?m else last ns)" unfolding f by blast
  have "minCongestionWindow b' = 4 * bbr_maxDatagramSize b'" using b'(2) by (simp only: window_inv_def)
  with b'(1,3) show ?thesis unfolding m(4) by blast
qed

lemma bbr_seed_never_panics_witness:
  "\<exists>b. report_sizes (bbr_factory demo_consts True ''standard'' 1200) [1280, 1452] = Some b \<and>
    minCongestionWindow b = 4 * bbr_maxDatagramSize b \<and> bbr_maxDatagramSize b = 1452"
  using bbr_seed_never_panics [OF demo_consts_ok, of 1200 "[1280, 1452]" True "''standard''"] by simp

end
