(* ===== verification/Server_Config.thy ===== *)
theory Server_Config
  imports Congestion
begin

text \<open>
  \<open>core/server/config.go\<close>: the server's configuration with its defaults and checks, the outbound
  interfaces and the request hook.  A field that holds code or a resource (certificates, sockets,
  loggers) is here only the fact whether it is set; the code that uses it takes it as a parameter.
  Durations are nanoseconds.
\<close>

section \<open>The configuration\<close>

definition defaultStreamReceiveWindow :: int where "defaultStreamReceiveWindow = 8388608"
definition defaultConnReceiveWindow :: int where
  "defaultConnReceiveWindow = defaultStreamReceiveWindow * 5 div 2"
definition time_Second :: int where "time_Second = 1000000000"
definition defaultMaxIdleTimeout :: int where "defaultMaxIdleTimeout = 30 * time_Second"
definition defaultMaxIncomingStreams :: int where "defaultMaxIncomingStreams = 1024"
definition defaultUDPIdleTimeout :: int where "defaultUDPIdleTimeout = 60 * time_Second"
definition defaultMaxUDPSessions :: int where "defaultMaxUDPSessions = 256"

record quicConfig =
  InitialStreamReceiveWindow :: int
  MaxStreamReceiveWindow :: int
  InitialConnectionReceiveWindow :: int
  MaxConnectionReceiveWindow :: int
  MaxIdleTimeout :: int
  MaxIncomingStreams :: int
  DisablePathMTUDiscovery :: bool
  PreAuthReceiveLimit :: int

record config =
  hasCertificates :: bool
  hasGetCertificate :: bool
  QUICConfig :: quicConfig
  hasConn :: bool
  hasOutbound :: bool
  CongestionType :: string
  BBRProfile :: string
  MaxTx :: int
  MaxRx :: int
  DisableLossCompensation :: bool
  IgnoreClientBandwidth :: bool
  DisableUDP :: bool
  UDPIdleTimeout :: int
  MaxUDPSessions :: int
  hasAuthenticator :: bool
  hasEventLogger :: bool
  hasTrafficLogger :: bool
  AuthTimeout :: int

datatype configError = ConfigError (Field: string) (Reason: string)

definition andThen :: "'e + 'a \<Rightarrow> ('a \<Rightarrow> 'e + 'b) \<Rightarrow> 'e + 'b" where
  "andThen m f = (case m of Inl e \<Rightarrow> Inl e | Inr a \<Rightarrow> f a)"

lemma andThen_Inr [simp]: "andThen m f = Inr b \<longleftrightarrow> (\<exists>a. m = Inr a \<and> f a = Inr b)"
  by (auto simp: andThen_def split: sum.splits)

definition fill_window :: "string \<Rightarrow> int \<Rightarrow> int \<Rightarrow> configError + int" where
  "fill_window field v def =
     (if v = 0 then Inr def
      else if v < 16384 then Inl (ConfigError field ''must be at least 16384'') else Inr v)"

definition fill_idle :: "int \<Rightarrow> configError + int" where
  "fill_idle v =
     (if v = 0 then Inr defaultMaxIdleTimeout
      else if v < 4 * time_Second \<or> v > 120 * time_Second
      then Inl (ConfigError ''QUICConfig.MaxIdleTimeout'' ''must be between 4s and 120s'') else Inr v)"

definition fill_streams :: "int \<Rightarrow> configError + int" where
  "fill_streams v =
     (if v = 0 then Inr defaultMaxIncomingStreams
      else if v < 8 then Inl (ConfigError ''QUICConfig.MaxIncomingStreams'' ''must be at least 8'') else Inr v)"

definition fill_quic :: "quicConfig \<Rightarrow> configError + quicConfig" where
  "fill_quic q =
     andThen (fill_window ''QUICConfig.InitialStreamReceiveWindow'' (InitialStreamReceiveWindow q) defaultStreamReceiveWindow) (\<lambda>v.
     let q = q\<lparr>InitialStreamReceiveWindow := v\<rparr> in
     andThen (fill_window ''QUICConfig.MaxStreamReceiveWindow'' (MaxStreamReceiveWindow q) defaultStreamReceiveWindow) (\<lambda>v.
     let q = q\<lparr>MaxStreamReceiveWindow := v\<rparr> in
     andThen (fill_window ''QUICConfig.InitialConnectionReceiveWindow'' (InitialConnectionReceiveWindow q) defaultConnReceiveWindow) (\<lambda>v.
     let q = q\<lparr>InitialConnectionReceiveWindow := v\<rparr> in
     andThen (fill_window ''QUICConfig.MaxConnectionReceiveWindow'' (MaxConnectionReceiveWindow q) defaultConnReceiveWindow) (\<lambda>v.
     let q = q\<lparr>MaxConnectionReceiveWindow := v\<rparr> in
     andThen (fill_idle (MaxIdleTimeout q)) (\<lambda>v.
     let q = q\<lparr>MaxIdleTimeout := v\<rparr> in
     andThen (fill_streams (MaxIncomingStreams q)) (\<lambda>v.
     Inr (q\<lparr>MaxIncomingStreams := v\<rparr>)))))))"

definition fill_congestion :: "config \<Rightarrow> configError + config" where
  "fill_congestion c =
     (case NormalizeType (CongestionType c) of
        Inl err \<Rightarrow> Inl (ConfigError ''CongestionConfig.Type'' err)
      | Inr t \<Rightarrow>
          (let c = c\<lparr>CongestionType := t\<rparr>
           in if t = ''bbr'' then
                (case NormalizeBBRProfile (BBRProfile c) of
                   Inl err \<Rightarrow> Inl (ConfigError ''CongestionConfig.BBRProfile'' err)
                 | Inr p \<Rightarrow> Inr (c\<lparr>BBRProfile := p\<rparr>))
              else Inr c))"

definition check_rate :: "string \<Rightarrow> int \<Rightarrow> configError + unit" where
  "check_rate field v =
     (if v \<noteq> 0 \<and> v < 65536 then Inl (ConfigError field ''must be at least 65536'') else Inr ())"

text \<open>The last part of \<open>fill\<close>: rates, UDP sessions, authenticator.\<close>

definition fill_limits :: "config \<Rightarrow> configError + config" where
  "fill_limits c =
     andThen (check_rate ''BandwidthConfig.MaxTx'' (MaxTx c)) (\<lambda>_.
     andThen (check_rate ''BandwidthConfig.MaxRx'' (MaxRx c)) (\<lambda>_.
     andThen (if UDPIdleTimeout c = 0 then Inr (c\<lparr>UDPIdleTimeout := defaultUDPIdleTimeout\<rparr>)
              else if UDPIdleTimeout c < 2 * time_Second \<or> UDPIdleTimeout c > 600 * time_Second
              then Inl (ConfigError ''UDPIdleTimeout'' ''must be between 2s and 600s'') else Inr c) (\<lambda>c.
     andThen (if MaxUDPSessions c = 0 then Inr (c\<lparr>MaxUDPSessions := defaultMaxUDPSessions\<rparr>)
              else if MaxUDPSessions c < 0
              then Inl (ConfigError ''MaxUDPSessions'' ''must be positive or zero for the default'')
              else Inr c) (\<lambda>c.
     if \<not> hasAuthenticator c then Inl (ConfigError ''Authenticator'' ''must be set'')
     else if AuthTimeout c < 0 \<or> 0 < AuthTimeout c \<and> AuthTimeout c < time_Second
     then Inl (ConfigError ''AuthTimeout'' ''must be zero (disabled) or at least 1s'')
     else Inr c))))"

text \<open>\<open>noPMTU\<close> is the build's \<open>pmtud.DisablePathMTUDiscovery\<close>.\<close>

definition fill :: "bool \<Rightarrow> config \<Rightarrow> configError + config" where
  "fill noPMTU c =
     (if \<not> hasCertificates c \<and> \<not> hasGetCertificate c
      then Inl (ConfigError ''TLSConfig'' ''must set at least one of Certificates or GetCertificate'')
      else
        andThen (fill_quic (QUICConfig c)) (\<lambda>q.
        let q = q\<lparr>DisablePathMTUDiscovery := DisablePathMTUDiscovery q \<or> noPMTU\<rparr> in
        andThen (fill_congestion (c\<lparr>QUICConfig := q\<rparr>)) (\<lambda>c.
        if \<not> hasConn c then Inl (ConfigError ''Conn'' ''must be set'')
        else fill_limits (c\<lparr>hasOutbound := True\<rparr>))))"

section \<open>Filled configurations\<close>

definition quic_ok :: "quicConfig \<Rightarrow> bool" where
  "quic_ok q \<longleftrightarrow> 16384 \<le> InitialStreamReceiveWindow q \<and> 16384 \<le> MaxStreamReceiveWindow q \<and>
     16384 \<le> InitialConnectionReceiveWindow q \<and> 16384 \<le> MaxConnectionReceiveWindow q \<and>
     4 * time_Second \<le> MaxIdleTimeout q \<and> MaxIdleTimeout q \<le> 120 * time_Second \<and> 8 \<le> MaxIncomingStreams q"

definition config_ok :: "bool \<Rightarrow> config \<Rightarrow> bool" where
  "config_ok noPMTU c \<longleftrightarrow> (hasCertificates c \<or> hasGetCertificate c) \<and> quic_ok (QUICConfig c) \<and>
     (noPMTU \<longrightarrow> DisablePathMTUDiscovery (QUICConfig c)) \<and> hasConn c \<and> hasOutbound c \<and> hasAuthenticator c \<and>
     (CongestionType c = ''reno'' \<or> CongestionType c = ''bbr'' \<and>
        BBRProfile c \<in> {''standard'', ''conservative'', ''aggressive''}) \<and>
     (MaxTx c = 0 \<or> 65536 \<le> MaxTx c) \<and> (MaxRx c = 0 \<or> 65536 \<le> MaxRx c) \<and>
     2 * time_Second \<le> UDPIdleTimeout c \<and> UDPIdleTimeout c \<le> 600 * time_Second \<and>
     0 < MaxUDPSessions c \<and> (AuthTimeout c = 0 \<or> time_Second \<le> AuthTimeout c)"

lemmas default_defs = defaultStreamReceiveWindow_def defaultConnReceiveWindow_def defaultMaxIdleTimeout_def
  defaultMaxIncomingStreams_def defaultUDPIdleTimeout_def defaultMaxUDPSessions_def time_Second_def

lemma andThenE: "andThen m f = Inr b \<Longrightarrow> (\<And>a. m = Inr a \<Longrightarrow> f a = Inr b \<Longrightarrow> P) \<Longrightarrow> P"
  by auto

lemma fill_window_ok: "fill_window field v def = Inr w \<Longrightarrow> 16384 \<le> def \<Longrightarrow> 16384 \<le> w"
  by (auto simp: fill_window_def split: if_splits)

lemma fill_idle_ok: "fill_idle v = Inr w \<Longrightarrow> 4 * time_Second \<le> w \<and> w \<le> 120 * time_Second"
  by (auto simp: fill_idle_def default_defs split: if_splits)

lemma fill_streams_ok: "fill_streams v = Inr w \<Longrightarrow> 8 \<le> w"
  by (auto simp: fill_streams_def default_defs split: if_splits)

lemma fill_quic_ok:
  assumes "fill_quic q = Inr q'"
  shows "quic_ok q' \<and> DisablePathMTUDiscovery q' = DisablePathMTUDiscovery q"
proof -
  have d: "16384 \<le> defaultStreamReceiveWindow" "16384 \<le> defaultConnReceiveWindow" by (simp_all add: default_defs)
  note [dest!] = fill_window_ok [OF _ d(1)] fill_window_ok [OF _ d(2)] fill_idle_ok fill_streams_ok
  show ?thesis using assms unfolding fill_quic_def Let_def andThen_Inr by (auto simp: quic_ok_def)
qed

lemma fill_quic_id: "quic_ok q \<Longrightarrow> fill_quic q = Inr q"
  by (simp add: fill_quic_def quic_ok_def fill_window_def fill_idle_def fill_streams_def andThen_def default_defs)

lemma normal_names:
  "NormalizeType ''reno'' = Inr ''reno''" "NormalizeType ''bbr'' = Inr ''bbr''"
  "NormalizeBBRProfile ''standard'' = Inr ''standard''" "NormalizeBBRProfile ''conservative'' = Inr ''conservative''"
  "NormalizeBBRProfile ''aggressive'' = Inr ''aggressive''"
  by code_simp+

lemma NormalizeBBRProfile_range:
  "NormalizeBBRProfile p = Inr r \<Longrightarrow> r \<in> {''standard'', ''conservative'', ''aggressive''}"
  by (auto simp: NormalizeBBRProfile_def ParseProfile_def Let_def split: if_splits)

lemma fill_congestion_ok:
  assumes "fill_congestion c = Inr c'"
  shows "\<exists>t p. c' = c\<lparr>CongestionType := t, BBRProfile := p\<rparr> \<and>
    (t = ''reno'' \<or> t = ''bbr'' \<and> p \<in> {''standard'', ''conservative'', ''aggressive''})"
proof -
  obtain t where t: "NormalizeType (CongestionType c) = Inr t"
    using assms by (auto simp: fill_congestion_def split: sum.splits)
  show ?thesis
  proof (cases "t = ''bbr''")
    case True
    then obtain p where "NormalizeBBRProfile (BBRProfile c) = Inr p" "c' = c\<lparr>CongestionType := t, BBRProfile := p\<rparr>"
      using assms t by (auto simp: fill_congestion_def Let_def split: sum.splits)
    then show ?thesis using True NormalizeBBRProfile_range by blast
  next
    case False
    then have "t = ''reno''" using NormalizeType_configured [OF t] by simp
    moreover have "c' = c\<lparr>CongestionType := t, BBRProfile := BBRProfile c\<rparr>"
    proof -
      have "c' = c\<lparr>CongestionType := t\<rparr>" using assms t False by (simp add: fill_congestion_def Let_def)
      then show ?thesis by (cases c) simp
    qed
    ultimately show ?thesis by blast
  qed
qed

lemma fill_congestion_id:
  assumes "CongestionType c = ''reno'' \<or> CongestionType c = ''bbr'' \<and>
    BBRProfile c \<in> {''standard'', ''conservative'', ''aggressive''}"
  shows "fill_congestion c = Inr c"
  using assms by (cases c) (auto simp: fill_congestion_def normal_names Let_def)

definition limits_ok :: "config \<Rightarrow> bool" where
  "limits_ok c \<longleftrightarrow> (MaxTx c = 0 \<or> 65536 \<le> MaxTx c) \<and> (MaxRx c = 0 \<or> 65536 \<le> MaxRx c) \<and>
     2 * time_Second \<le> UDPIdleTimeout c \<and> UDPIdleTimeout c \<le> 600 * time_Second \<and>
     0 < MaxUDPSessions c \<and> hasAuthenticator c \<and> (AuthTimeout c = 0 \<or> time_Second \<le> AuthTimeout c)"

lemma fill_limits_ok:
  "fill_limits c = Inr c' \<Longrightarrow> limits_ok c' \<and> (\<exists>u m. c' = c\<lparr>UDPIdleTimeout := u, MaxUDPSessions := m\<rparr>)"
  by (cases c) (auto simp: fill_limits_def check_rate_def limits_ok_def default_defs split: if_splits)

lemma fill_limits_id: "limits_ok c \<Longrightarrow> fill_limits c = Inr c"
  by (auto simp: fill_limits_def check_rate_def limits_ok_def andThen_def default_defs)

text \<open>
  C31: A configuration that \<open>fill\<close> accepts is complete and within the documented bounds, whatever it
  was before, and filling it again changes nothing; what \<open>fill\<close> does not accept is reported with
  the field at fault instead of being repaired.
\<close>

theorem config_fill_wellformed:
  assumes "fill noPMTU c = Inr c'"
  shows "config_ok noPMTU c' \<and> fill noPMTU c' = Inr c'"
proof -
  from assms obtain q where certs: "hasCertificates c \<or> hasGetCertificate c"
    and q: "fill_quic (QUICConfig c) = Inr q"
    by (auto simp: fill_def split: if_splits)
  define q' where "q' = q\<lparr>DisablePathMTUDiscovery := DisablePathMTUDiscovery q \<or> noPMTU\<rparr>"
  from assms certs q obtain c1 where c1: "fill_congestion (c\<lparr>QUICConfig := q'\<rparr>) = Inr c1" "hasConn c1"
    and c': "fill_limits (c1\<lparr>hasOutbound := True\<rparr>) = Inr c'"
    by (auto simp: fill_def q'_def Let_def split: if_splits)
  have q': "quic_ok q'" "noPMTU \<longrightarrow> DisablePathMTUDiscovery q'"
    using fill_quic_ok [OF q] by (simp_all add: q'_def quic_ok_def)
  obtain t p where tp: "c1 = c\<lparr>QUICConfig := q', CongestionType := t, BBRProfile := p\<rparr>"
    "t = ''reno'' \<or> t = ''bbr'' \<and> p \<in> {''standard'', ''conservative'', ''aggressive''}"
    using fill_congestion_ok [OF c1(1)] by auto
  obtain u m where um: "c' = c1\<lparr>hasOutbound := True, UDPIdleTimeout := u, MaxUDPSessions := m\<rparr>"
    using fill_limits_ok [OF c'] by auto
  have lim: "limits_ok c'" using fill_limits_ok [OF c'] by simp
  have ok: "config_ok noPMTU c'"
    using lim q' tp um certs c1(2) by (auto simp: config_ok_def limits_ok_def)
  moreover have "fill noPMTU c' = Inr c'"
  proof -
    have "QUICConfig c' = q'" "hasConn c'" "hasCertificates c' \<or> hasGetCertificate c'"
      using um tp certs c1(2) by auto
    moreover have "q'\<lparr>DisablePathMTUDiscovery := DisablePathMTUDiscovery q' \<or> noPMTU\<rparr> = q'"
      using q'(2) by (cases q') auto
    moreover have "c'\<lparr>hasOutbound := True\<rparr> = c'" by (simp add: um tp)
    moreover have "fill_congestion (c'\<lparr>QUICConfig := q'\<rparr>) = Inr c'"
    proof -
      have "c'\<lparr>QUICConfig := q'\<rparr> = c'" by (simp add: um tp)
      moreover have "fill_congestion c' = Inr c'" using ok by (intro fill_congestion_id) (simp add: config_ok_def)
      ultimately show ?thesis by (rule ssubst)
    qed
    ultimately show ?thesis
      using fill_quic_id [OF q'(1)] fill_limits_id [OF lim] by (simp add: fill_def andThen_def Let_def)
  qed
  ultimately show ?thesis by simp
qed

definition example_config :: config where
  "example_config = \<lparr>hasCertificates = True, hasGetCertificate = False,
     QUICConfig = \<lparr>InitialStreamReceiveWindow = 0, MaxStreamReceiveWindow = 0,
       InitialConnectionReceiveWindow = 0, MaxConnectionReceiveWindow = 0, MaxIdleTimeout = 0,
       MaxIncomingStreams = 0, DisablePathMTUDiscovery = False, PreAuthReceiveLimit = 0\<rparr>,
     hasConn = True, hasOutbound = False, CongestionType = ''BBR'', BBRProfile = '''', MaxTx = 0, MaxRx = 65536,
     DisableLossCompensation = False, IgnoreClientBandwidth = False, DisableUDP = False, UDPIdleTimeout = 0,
     MaxUDPSessions = 0, hasAuthenticator = True, hasEventLogger = True, hasTrafficLogger = True, AuthTimeout = 0\<rparr>"

definition example_filled :: config where
  "example_filled = example_config\<lparr>QUICConfig := \<lparr>InitialStreamReceiveWindow = 8388608, MaxStreamReceiveWindow = 8388608,
       InitialConnectionReceiveWindow = 20971520, MaxConnectionReceiveWindow = 20971520, MaxIdleTimeout = 30000000000,
       MaxIncomingStreams = 1024, DisablePathMTUDiscovery = False, PreAuthReceiveLimit = 0\<rparr>,
     hasOutbound := True, CongestionType := ''bbr'', BBRProfile := ''standard'',
     UDPIdleTimeout := 60000000000, MaxUDPSessions := 256\<rparr>"

lemma config_fill_wellformed_witness:
  "fill False example_config = Inr example_filled \<and> config_ok False example_filled"
proof -
  have "fill False example_config = Inr example_filled" by code_simp
  then show ?thesis using config_fill_wellformed [of False example_config example_filled] by simp
qed

end
