(* ===== verification/Wire_Protocol.thy ===== *)
theory Wire_Protocol
  imports Hy_Prelude "HOL-Library.Monad_Syntax"
begin

text \<open>
  \<open>core/internal/protocol/proxy.go\<close> and \<open>padding.go\<close>: the TCP request and response framing and
  the UDP datagram format.  The package \<open>quicvarint\<close> (decoder and length function) is not part
  of the repository: it is the parameter \<open>qlen\<close>, \<open>qread\<close>, \<open>qparse\<close>, and the locale \<open>quicvarint\<close>
  states its documented behaviour, the variable-length integers of RFC 9000 section 16.  The
  encoder \<open>varintPut\<close> is the repository's own and is proved against the same reference.
\<close>

section \<open>Constants\<close>

definition FrameTypeTCPRequest :: u64w where "FrameTypeTCPRequest = 0x401"
definition MaxAddressLength :: nat where "MaxAddressLength = 2048"
definition MaxMessageLength :: nat where "MaxMessageLength = 2048"
definition MaxPaddingLength :: nat where "MaxPaddingLength = 4096"
definition MaxDatagramFrameSize :: nat where "MaxDatagramFrameSize = 1200"
definition MaxUDPSize :: nat where "MaxUDPSize = 4096"
definition maxVarInt1 :: u64w where "maxVarInt1 = 63"
definition maxVarInt2 :: u64w where "maxVarInt2 = 16383"
definition maxVarInt4 :: u64w where "maxVarInt4 = 1073741823"
definition maxVarInt8 :: u64w where "maxVarInt8 = 4611686018427387903"

lemmas varint_limits = maxVarInt1_def maxVarInt2_def maxVarInt4_def maxVarInt8_def
lemmas length_limits = MaxAddressLength_def MaxMessageLength_def MaxPaddingLength_def

section \<open>Variable-length integers\<close>

text \<open>The bytes \<open>varintPut\<close> stores, by index, from \<open>b[0]\<close>; \<open>None\<close> is its panic.\<close>

definition varint_bytes :: "u64w \<Rightarrow> bytes option" where
  "varint_bytes i =
     (if i \<le> maxVarInt1 then Some [byte_of i]
      else if i \<le> maxVarInt2 then Some [byte_of (drop_bit 8 i) OR 0x40, byte_of i]
      else if i \<le> maxVarInt4 then
        Some [byte_of (drop_bit 24 i) OR 0x80, byte_of (drop_bit 16 i), byte_of (drop_bit 8 i),
              byte_of i]
      else if i \<le> maxVarInt8 then
        Some [byte_of (drop_bit 56 i) OR 0xc0, byte_of (drop_bit 48 i), byte_of (drop_bit 40 i),
              byte_of (drop_bit 32 i), byte_of (drop_bit 24 i), byte_of (drop_bit 16 i),
              byte_of (drop_bit 8 i), byte_of i]
      else None)"

definition varintPut :: "bytes \<Rightarrow> nat \<Rightarrow> u64w \<Rightarrow> (bytes \<times> nat) option" where
  "varintPut buf off i =
     (case varint_bytes i of
        None \<Rightarrow> None
      | Some bs \<Rightarrow> map_option (\<lambda>b. (b, length bs)) (put_at buf off bs))"

text \<open>The reference format of RFC 9000: the two high bits of the first byte give the length.\<close>

fun rfc_varint :: "bytes \<Rightarrow> (u64w \<times> nat) option" where
  "rfc_varint [] = None"
| "rfc_varint (b # bs) =
     (let n = 2 ^ unat (drop_bit 6 b)
      in if length bs < n - 1 then None
         else Some (foldl (\<lambda>v c. push_bit 8 v OR ucast c) (ucast (b AND 0x3f)) (take (n - 1) bs), n))"

definition rfc_len :: "u64w \<Rightarrow> nat" where
  "rfc_len i = (if i \<le> 63 then 1 else if i \<le> 16383 then 2 else if i \<le> 1073741823 then 4 else 8)"

lemma uint_less_exp_bit:
  assumes "uint (i :: 'a::len word) < 2 ^ n" "bit i k"
  shows "k < n"
proof -
  from assms(2) have "bit (uint i) k" by (simp add: bit_uint_iff bit_imp_le_length)
  moreover from assms(1) have "take_bit n (uint i) = uint i" by (simp add: take_bit_int_eq_self)
  ultimately show ?thesis by (metis bit_take_bit_iff)
qed

lemma varint_bits:
  "i \<le> maxVarInt1 \<Longrightarrow> bit i k \<Longrightarrow> k < 6"
  "i \<le> maxVarInt2 \<Longrightarrow> bit i k \<Longrightarrow> k < 14"
  "i \<le> maxVarInt4 \<Longrightarrow> bit i k \<Longrightarrow> k < 30"
  "i \<le> maxVarInt8 \<Longrightarrow> bit i k \<Longrightarrow> k < 62"
  by (rule uint_less_exp_bit; simp add: varint_limits word_le_def)+

text \<open>The two high bits of the first byte that \<open>varintPut\<close> writes.\<close>

lemma prefix_bits:
  fixes b :: byte
  assumes "\<And>k. bit b k \<Longrightarrow> k < 6"
  shows "drop_bit 6 b = 0" "drop_bit 6 (b OR 0x40) = 1" "drop_bit 6 (b OR 0x80) = 2"
    "drop_bit 6 (b OR 0xc0) = 3" "b AND 0x3f = b" "(b OR 0x40) AND 0x3f = b"
    "(b OR 0x80) AND 0x3f = b" "(b OR 0xc0) AND 0x3f = b"
proof -
  have "take_bit 6 b = b"
    by (rule bit_word_eqI) (auto simp: bit_simps dest: assms)
  have d: "drop_bit 6 b = 0"
    by (rule bit_word_eqI) (auto simp: bit_simps dest: assms)
  have m: "b AND 0x3f = b"
    using \<open>take_bit 6 b = b\<close> by (simp add: take_bit_eq_mask mask_eq_exp_minus_1)
  show "drop_bit 6 b = 0" "b AND 0x3f = b" by (fact d, fact m)
  show "drop_bit 6 (b OR 0x40) = 1" "drop_bit 6 (b OR 0x80) = 2" "drop_bit 6 (b OR 0xc0) = 3"
    by (simp_all add: drop_bit_or d)
  show "(b OR 0x40) AND 0x3f = b" "(b OR 0x80) AND 0x3f = b" "(b OR 0xc0) AND 0x3f = b"
    by (simp_all add: bit.conj_disj_distrib2 m)
qed

lemma push_byte:
  fixes i :: u64w
  shows "push_bit 8 (drop_bit 8 i) OR ucast (byte_of i) = i"
    "push_bit 8 (drop_bit 16 i) OR ucast (byte_of (drop_bit 8 i)) = drop_bit 8 i"
    "push_bit 8 (drop_bit 24 i) OR ucast (byte_of (drop_bit 16 i)) = drop_bit 16 i"
    "push_bit 8 (drop_bit 32 i) OR ucast (byte_of (drop_bit 24 i)) = drop_bit 24 i"
    "push_bit 8 (drop_bit 40 i) OR ucast (byte_of (drop_bit 32 i)) = drop_bit 32 i"
    "push_bit 8 (drop_bit 48 i) OR ucast (byte_of (drop_bit 40 i)) = drop_bit 40 i"
    "push_bit 8 (drop_bit 56 i) OR ucast (byte_of (drop_bit 48 i)) = drop_bit 48 i"
proof -
  have *: "push_bit 8 (drop_bit 8 v) OR ucast (byte_of v) = v" for v :: u64w
    by (rule bit_word_eqI) (auto simp: bit_simps)
  show "push_bit 8 (drop_bit 8 i) OR ucast (byte_of i) = i"
    "push_bit 8 (drop_bit 16 i) OR ucast (byte_of (drop_bit 8 i)) = drop_bit 8 i"
    "push_bit 8 (drop_bit 24 i) OR ucast (byte_of (drop_bit 16 i)) = drop_bit 16 i"
    "push_bit 8 (drop_bit 32 i) OR ucast (byte_of (drop_bit 24 i)) = drop_bit 24 i"
    "push_bit 8 (drop_bit 40 i) OR ucast (byte_of (drop_bit 32 i)) = drop_bit 32 i"
    "push_bit 8 (drop_bit 48 i) OR ucast (byte_of (drop_bit 40 i)) = drop_bit 40 i"
    "push_bit 8 (drop_bit 56 i) OR ucast (byte_of (drop_bit 48 i)) = drop_bit 48 i"
    using * [of i] * [of "drop_bit 8 i"] * [of "drop_bit 16 i"] * [of "drop_bit 24 i"]
      * [of "drop_bit 32 i"] * [of "drop_bit 40 i"] * [of "drop_bit 48 i"]
    by simp_all
qed

lemma rfc_varint_varint_bytes:
  assumes "varint_bytes i = Some bs"
  shows "rfc_varint (bs @ rest) = Some (i, length bs)"
proof -
  consider (1) "i \<le> maxVarInt1" | (2) "\<not> i \<le> maxVarInt1" "i \<le> maxVarInt2"
    | (4) "\<not> i \<le> maxVarInt1" "\<not> i \<le> maxVarInt2" "i \<le> maxVarInt4"
    | (8) "\<not> i \<le> maxVarInt1" "\<not> i \<le> maxVarInt2" "\<not> i \<le> maxVarInt4" "i \<le> maxVarInt8"
    using assms by (auto simp: varint_bytes_def split: if_splits)
  then show ?thesis
  proof cases
    case 1
    then have bs: "bs = [byte_of i]" using assms by (simp add: varint_bytes_def)
    have p: "\<And>k. bit (byte_of i) k \<Longrightarrow> k < 6" using 1 by (auto simp: bit_simps dest: varint_bits)
    have "ucast (byte_of i) = i"
      by (rule bit_word_eqI) (use 1 in \<open>auto simp: bit_simps dest: varint_bits\<close>)
    then show ?thesis by (simp add: bs prefix_bits [OF p] Let_def)
  next
    case 2
    then have bs: "bs = [byte_of (drop_bit 8 i) OR 0x40, byte_of i]"
      using assms by (simp add: varint_bytes_def)
    have p: "\<And>k. bit (byte_of (drop_bit 8 i)) k \<Longrightarrow> k < 6"
      using 2 by (fastforce simp: bit_simps dest: varint_bits)
    have "push_bit 8 (ucast (byte_of (drop_bit 8 i))) OR ucast (byte_of i) = i"
      by (rule bit_word_eqI) (use 2 in \<open>fastforce simp: bit_simps dest: varint_bits\<close>)
    then show ?thesis by (simp add: bs prefix_bits [OF p] Let_def)
  next
    case 4
    then have bs: "bs = [byte_of (drop_bit 24 i) OR 0x80, byte_of (drop_bit 16 i),
        byte_of (drop_bit 8 i), byte_of i]"
      using assms by (simp add: varint_bytes_def)
    have p: "\<And>k. bit (byte_of (drop_bit 24 i)) k \<Longrightarrow> k < 6"
      using 4 by (fastforce simp: bit_simps dest: varint_bits)
    have t: "ucast (byte_of (drop_bit 24 i)) = drop_bit 24 i"
      by (rule bit_word_eqI) (use 4 in \<open>fastforce simp: bit_simps dest: varint_bits\<close>)
    show ?thesis by (simp add: bs prefix_bits [OF p] Let_def t push_byte)
  next
    case 8
    then have bs: "bs = [byte_of (drop_bit 56 i) OR 0xc0, byte_of (drop_bit 48 i),
        byte_of (drop_bit 40 i), byte_of (drop_bit 32 i), byte_of (drop_bit 24 i),
        byte_of (drop_bit 16 i), byte_of (drop_bit 8 i), byte_of i]"
      using assms by (simp add: varint_bytes_def)
    have p: "\<And>k. bit (byte_of (drop_bit 56 i)) k \<Longrightarrow> k < 6"
      using 8 by (fastforce simp: bit_simps dest: varint_bits)
    have t: "ucast (byte_of (drop_bit 56 i)) = drop_bit 56 i"
      by (rule bit_word_eqI) (use 8 in \<open>fastforce simp: bit_simps dest: varint_bits\<close>)
    show ?thesis by (simp add: bs prefix_bits [OF p] Let_def t push_byte)
  qed
qed


lemma varint_bytes_total:
  "i \<le> maxVarInt8 \<Longrightarrow> \<exists>bs. varint_bytes i = Some bs"
  by (auto simp: varint_bytes_def)

lemma varint_bytes_length:
  "varint_bytes i = Some bs \<Longrightarrow> length bs = rfc_len i \<and> i \<le> maxVarInt8 \<and> 0 < length bs"
  by (auto simp: varint_bytes_def rfc_len_def varint_limits word_le_def split: if_splits)

lemma rfc_varint_bounds:
  "rfc_varint b = Some (v, n) \<Longrightarrow> 1 \<le> n \<and> n \<le> 8 \<and> n \<le> length b"
proof (cases b)
  case (Cons c cs)
  assume *: "rfc_varint b = Some (v, n)"
  then have n: "n = 2 ^ unat (drop_bit 6 c)" "n - 1 \<le> length cs"
    by (auto simp: Cons Let_def split: if_splits)
  have "unat c < 2 ^ LENGTH(8)" by (rule unsigned_less)
  then have "unat (drop_bit 6 c) \<le> 3" 
    by (simp only: unat_drop_bit_eq) (simp add: drop_bit_eq_div)
  then have "n \<le> 2 ^ 3" unfolding n(1) by (rule power_increasing) simp
  with n show ?thesis by (simp add: Cons)
qed simp

text \<open>Writing into a buffer, behind what is already written.\<close>

lemma varintPut_append [panic_simps]:
  assumes "varint_bytes i = Some bs" "length pre = off" "length bs \<le> length rest"
  shows "varintPut (pre @ rest) off i = Some ((pre @ bs) @ drop (length bs) rest, length bs)"
  using assms by (simp add: varintPut_def panic_simps)

text \<open>The interface of the \<open>quicvarint\<close> package that the repository's code calls.\<close>

locale quicvarint =
  fixes qlen :: "u64w \<Rightarrow> nat"
    and qread :: "bytes \<Rightarrow> io_error + (u64w \<times> bytes)"
    and qparse :: "bytes \<Rightarrow> io_error + (u64w \<times> nat)"
  assumes qlen_rfc: "i \<le> maxVarInt8 \<Longrightarrow> qlen i = rfc_len i"
    and qread_ok: "rfc_varint b = Some (v, n) \<Longrightarrow> qread b = Inr (v, drop n b)"
    and qread_err: "rfc_varint b = None \<Longrightarrow> \<exists>e. qread b = Inl e"
    and qparse_ok: "rfc_varint b = Some (v, n) \<Longrightarrow> qparse b = Inr (v, n)"
    and qparse_err: "rfc_varint b = None \<Longrightarrow> \<exists>e. qparse b = Inl e"
begin

lemma qlen_varint_bytes: "varint_bytes i = Some bs \<Longrightarrow> qlen i = length bs"
  using varint_bytes_length qlen_rfc by metis

lemma qread_varint_bytes: "varint_bytes i = Some bs \<Longrightarrow> qread (bs @ r) = Inr (i, r)"
  using qread_ok [OF rfc_varint_varint_bytes] by simp

lemma qparse_varint_bytes: "varint_bytes i = Some bs \<Longrightarrow> qparse (bs @ r) = Inr (i, length bs)"
  by (rule qparse_ok [OF rfc_varint_varint_bytes])

lemma qread_consumes:
  assumes "qread b = Inr (v, r)"
  shows "\<exists>n \<le> 8. 1 \<le> n \<and> n \<le> length b \<and> r = drop n b"
proof (cases "rfc_varint b")
  case None
  with qread_err [OF None] assms show ?thesis by auto
next
  case (Some p)
  then obtain w n where "rfc_varint b = Some (w, n)" by (cases p) simp
  with qread_ok [OF this] assms rfc_varint_bounds [OF this] show ?thesis by auto
qed

lemma qparse_bounds:
  assumes "qparse b = Inr (v, n)"
  shows "1 \<le> n \<and> n \<le> 8 \<and> n \<le> length b"
proof (cases "rfc_varint b")
  case None
  with qparse_err [OF None] assms show ?thesis by auto
next
  case (Some p)
  then obtain w k where k: "rfc_varint b = Some (w, k)" by (cases p) simp
  with qparse_ok [OF this] assms rfc_varint_bounds [OF this] show ?thesis by auto
qed

end

text \<open>The reference decoder meets the interface.\<close>

definition rfc_read :: "bytes \<Rightarrow> io_error + (u64w \<times> bytes)" where
  "rfc_read b =
     (case rfc_varint b of
        None \<Rightarrow> Inl (if b = [] then IO_EOF else IO_UnexpectedEOF)
      | Some (v, n) \<Rightarrow> Inr (v, drop n b))"

definition rfc_parse :: "bytes \<Rightarrow> io_error + (u64w \<times> nat)" where
  "rfc_parse b =
     (case rfc_varint b of
        None \<Rightarrow> Inl (if b = [] then IO_EOF else IO_UnexpectedEOF)
      | Some (v, n) \<Rightarrow> Inr (v, n))"

interpretation rfc: quicvarint rfc_len rfc_read rfc_parse
  by unfold_locales (auto simp: rfc_read_def rfc_parse_def)


section \<open>Padding\<close>

record padding =
  Min :: nat
  Max :: nat

definition paddingChars :: string where
  "paddingChars = ''abcdefghijklmnopqrstuvwxyzABCDEFGHIJKLMNOPQRSTUVWXYZ0123456789''"

text \<open>\<open>draws\<close> are the successive results of the random source: the length, then the characters.\<close>

definition padding_String :: "padding \<Rightarrow> (nat \<Rightarrow> nat) \<Rightarrow> string" where
  "padding_String p draws =
     (let n = Min p + intn (draws 0) (Max p - Min p)
      in map (\<lambda>i. paddingChars ! intn (draws (Suc i)) (length paddingChars)) [0..<n])"

definition authRequestPadding :: padding where
  "authRequestPadding = \<lparr>Min = 256, Max = 2048\<rparr>"
definition authResponsePadding :: padding where
  "authResponsePadding = \<lparr>Min = 256, Max = 2048\<rparr>"
definition tcpRequestPadding :: padding where
  "tcpRequestPadding = \<lparr>Min = 64, Max = 512\<rparr>"
definition tcpResponsePadding :: padding where
  "tcpResponsePadding = \<lparr>Min = 128, Max = 1024\<rparr>"

lemma padding_String_length:
  "Min p < Max p \<Longrightarrow> Min p \<le> length (padding_String p draws) \<and> length (padding_String p draws) < Max p"
  using intn_less [of "Max p - Min p" "draws 0"]
  by (simp add: padding_String_def Let_def less_diff_conv2 del: intn_less)

lemma tcp_padding_length:
  "length (padding_String tcpRequestPadding draws) \<le> MaxPaddingLength"
  "length (padding_String tcpResponsePadding draws) \<le> MaxPaddingLength"
  using padding_String_length [of tcpRequestPadding draws]
    padding_String_length [of tcpResponsePadding draws]
  by (simp_all add: tcpRequestPadding_def tcpResponsePadding_def MaxPaddingLength_def)

section \<open>TCP requests and responses\<close>

definition WriteTCPRequest :: "(u64w \<Rightarrow> nat) \<Rightarrow> (nat \<Rightarrow> nat) \<Rightarrow> string \<Rightarrow> bytes option" where
  "WriteTCPRequest qlen draws addr =
     (let padding = padding_String tcpRequestPadding draws;
          paddingLen = length padding;
          addrLen = length addr;
          sz = qlen FrameTypeTCPRequest + qlen (word_of_nat addrLen) + addrLen
               + qlen (word_of_nat paddingLen) + paddingLen;
          buf = replicate sz 0
      in do {
           (buf, i) \<leftarrow> varintPut buf 0 FrameTypeTCPRequest;
           (buf, n) \<leftarrow> varintPut buf i (word_of_nat addrLen);
           let i = i + n;
           (buf, n) \<leftarrow> copy_at buf i (bytes_of_string addr);
           let i = i + n;
           (buf, n) \<leftarrow> varintPut buf i (word_of_nat paddingLen);
           let i = i + n;
           (buf, n) \<leftarrow> copy_at buf i (bytes_of_string padding);
           Some buf
         })"

definition ReadTCPRequest ::
  "(bytes \<Rightarrow> io_error + (u64w \<times> bytes)) \<Rightarrow> bytes \<Rightarrow> io_error + (string \<times> bytes)" where
  "ReadTCPRequest qread r =
     (case qread r of
        Inl err \<Rightarrow> Inl err
      | Inr (addrLen, r) \<Rightarrow>
          if addrLen = 0 \<or> unat addrLen > MaxAddressLength
          then Inl (ProtocolError ''invalid address length'')
          else (case ReadFull (unat addrLen) r of
                  Inl err \<Rightarrow> Inl err
                | Inr (addrBuf, r) \<Rightarrow>
                    (case qread r of
                       Inl err \<Rightarrow> Inl err
                     | Inr (paddingLen, r) \<Rightarrow>
                         if unat paddingLen > MaxPaddingLength
                         then Inl (ProtocolError ''invalid padding length'')
                         else if unat paddingLen > 0
                         then (case DiscardN (unat paddingLen) r of
                                 Inl err \<Rightarrow> Inl err
                               | Inr r \<Rightarrow> Inr (string_of_bytes addrBuf, r))
                         else Inr (string_of_bytes addrBuf, r))))"

definition WriteTCPResponse ::
  "(u64w \<Rightarrow> nat) \<Rightarrow> (nat \<Rightarrow> nat) \<Rightarrow> bool \<Rightarrow> string \<Rightarrow> bytes option" where
  "WriteTCPResponse qlen draws ok msg =
     (let padding = padding_String tcpResponsePadding draws;
          paddingLen = length padding;
          msgLen = length msg;
          sz = 1 + qlen (word_of_nat msgLen) + msgLen + qlen (word_of_nat paddingLen) + paddingLen;
          buf = replicate sz 0
      in do {
           buf \<leftarrow> put_at buf 0 [if ok then 0 else 1];
           (buf, i) \<leftarrow> varintPut buf 1 (word_of_nat msgLen);
           (buf, n) \<leftarrow> copy_at buf (1 + i) (bytes_of_string msg);
           let i = i + n;
           (buf, n) \<leftarrow> varintPut buf (1 + i) (word_of_nat paddingLen);
           let i = i + n;
           (buf, n) \<leftarrow> copy_at buf (1 + i) (bytes_of_string padding);
           Some buf
         })"

definition ReadTCPResponse ::
  "(bytes \<Rightarrow> io_error + (u64w \<times> bytes)) \<Rightarrow> bytes \<Rightarrow> io_error + (bool \<times> string \<times> bytes)" where
  "ReadTCPResponse qread r =
     (case ReadFull 1 r of
        Inl err \<Rightarrow> Inl err
      | Inr (status, r) \<Rightarrow>
        (case qread r of
           Inl err \<Rightarrow> Inl err
         | Inr (msgLen, r) \<Rightarrow>
             if unat msgLen > MaxMessageLength
             then Inl (ProtocolError ''invalid message length'')
             else (case (if unat msgLen > 0 then ReadFull (unat msgLen) r else Inr ([], r)) of
                     Inl err \<Rightarrow> Inl err
                   | Inr (msgBuf, r) \<Rightarrow>
                       (case qread r of
                          Inl err \<Rightarrow> Inl err
                        | Inr (paddingLen, r) \<Rightarrow>
                            if unat paddingLen > MaxPaddingLength
                            then Inl (ProtocolError ''invalid padding length'')
                            else if unat paddingLen > 0
                            then (case DiscardN (unat paddingLen) r of
                                    Inl err \<Rightarrow> Inl err
                                  | Inr r \<Rightarrow> Inr (hd status = 0, string_of_bytes msgBuf, r))
                            else Inr (hd status = 0, string_of_bytes msgBuf, r)))))"

text \<open>A length that fits the limits is encoded, and read back as itself.\<close>

lemma small_length_varint:
  assumes "n \<le> 4096"
  obtains bs where "varint_bytes (word_of_nat n) = Some bs" "unat (word_of_nat n :: u64w) = n"
proof -
  have u: "unat (word_of_nat n :: u64w) = n"
    using assms by (simp add: unat_of_nat)
  then have "word_of_nat n \<le> maxVarInt8"
    using assms by (simp add: word_le_nat_alt maxVarInt8_def)
  with varint_bytes_total that u show ?thesis by blast
qed

lemma frame_type_varint: "varint_bytes FrameTypeTCPRequest = Some [0x44, 0x01]"
  by (simp add: varint_bytes_def FrameTypeTCPRequest_def varint_limits)

context quicvarint
begin

lemma WriteTCPRequest_bytes:
  assumes a: "varint_bytes (word_of_nat (length addr)) = Some va"
    and p: "varint_bytes (word_of_nat (length pad)) = Some vp"
    and pad: "pad = padding_String tcpRequestPadding draws"
  shows "WriteTCPRequest qlen draws addr =
    Some ([0x44, 0x01] @ va @ bytes_of_string addr @ vp @ bytes_of_string pad)"
proof -
  let ?k = "length va + length addr + length vp + length pad"
  define w1 :: bytes where "w1 = [0x44, 0x01]"
  define w2 where "w2 = w1 @ va"
  define w3 where "w3 = w2 @ bytes_of_string addr"
  define w4 where "w4 = w3 @ vp"
  have len: "length w1 = 2" "length w2 = 2 + length va" "length w3 = 2 + length va + length addr"
    "length w4 = 2 + length va + length addr + length vp"
    by (simp_all add: w1_def w2_def w3_def w4_def)
  note q = qlen_varint_bytes [OF a] qlen_varint_bytes [OF p]
    qlen_varint_bytes [OF frame_type_varint]
  define sz where "sz = length [0x44 :: byte, 0x01] + length va + length addr + length vp + length pad"
  have 1: "varintPut (replicate sz 0) 0 FrameTypeTCPRequest = Some (w1 @ replicate ?k 0, 2)"
    using varintPut_append [OF frame_type_varint, of "[]" 0 "replicate sz 0"]
    by (simp add: w1_def sz_def)
  have 2: "varintPut (w1 @ replicate ?k 0) 2 (word_of_nat (length addr)) =
      Some (w2 @ replicate (?k - length va) 0, length va)"
    by (simp add: varintPut_append [OF a] len w2_def)
  have 3: "copy_at (w2 @ replicate (?k - length va) 0) (2 + length va) (bytes_of_string addr) =
      Some (w3 @ replicate (?k - length va - length addr) 0, length addr)"
    by (simp add: copy_at_append len w3_def)
  have 4: "varintPut (w3 @ replicate (?k - length va - length addr) 0)
        (2 + length va + length addr) (word_of_nat (length pad)) =
      Some (w4 @ replicate (length pad) 0, length vp)"
    by (simp add: varintPut_append [OF p] len w4_def)
  have 5: "copy_at (w4 @ replicate (length pad) 0) (2 + length va + length addr + length vp)
        (bytes_of_string pad) = Some (w4 @ bytes_of_string pad, length pad)"
    by (simp add: copy_at_append len)
  show ?thesis
    unfolding WriteTCPRequest_def Let_def pad [symmetric] q sz_def [symmetric]
    by (simp only: 1 2 3 4 5 Option.bind.bind_lunit prod.case)
      (simp add: w1_def w2_def w3_def w4_def)
qed

lemma WriteTCPResponse_bytes:
  assumes a: "varint_bytes (word_of_nat (length msg)) = Some va"
    and p: "varint_bytes (word_of_nat (length pad)) = Some vp"
    and pad: "pad = padding_String tcpResponsePadding draws"
  shows "WriteTCPResponse qlen draws ok msg =
    Some ([if ok then 0 else 1] @ va @ bytes_of_string msg @ vp @ bytes_of_string pad)"
proof -
  let ?k = "length va + length msg + length vp + length pad"
  define w1 :: bytes where "w1 = [if ok then 0 else 1]"
  define w2 where "w2 = w1 @ va"
  define w3 where "w3 = w2 @ bytes_of_string msg"
  define w4 where "w4 = w3 @ vp"
  have len: "length w1 = 1" "length w2 = 1 + length va" "length w3 = 1 + length va + length msg"
    "length w4 = 1 + length va + length msg + length vp"
    by (simp_all add: w1_def w2_def w3_def w4_def)
  note q = qlen_varint_bytes [OF a] qlen_varint_bytes [OF p]
  define sz where "sz = 1 + length va + length msg + length vp + length pad"
  have 1: "put_at (replicate sz 0) 0 [if ok then 0 else 1] = Some (w1 @ replicate ?k 0)"
    by (simp add: put_at_def w1_def sz_def)
  have 2: "varintPut (w1 @ replicate ?k 0) 1 (word_of_nat (length msg)) =
      Some (w2 @ replicate (?k - length va) 0, length va)"
    by (simp add: varintPut_append [OF a] len w2_def)
  have 3: "copy_at (w2 @ replicate (?k - length va) 0) (1 + length va) (bytes_of_string msg) =
      Some (w3 @ replicate (?k - length va - length msg) 0, length msg)"
    by (simp add: copy_at_append len w3_def)
  have 4: "varintPut (w3 @ replicate (?k - length va - length msg) 0)
        (1 + (length va + length msg)) (word_of_nat (length pad)) =
      Some (w4 @ replicate (length pad) 0, length vp)"
    by (simp add: varintPut_append [OF p] len w4_def)
  have 5: "copy_at (w4 @ replicate (length pad) 0) (1 + (length va + length msg + length vp))
        (bytes_of_string pad) = Some (w4 @ bytes_of_string pad, length pad)"
    by (simp add: copy_at_append len)
  show ?thesis
    unfolding WriteTCPResponse_def Let_def pad [symmetric] q sz_def [symmetric]
    by (simp only: 1 2 3 4 5 Option.bind.bind_lunit prod.case)
      (simp add: w1_def w2_def w3_def w4_def)
qed

lemma ReadTCPRequest_bytes:
  assumes a: "varint_bytes (word_of_nat (length addr)) = Some va"
    and p: "varint_bytes (word_of_nat (length pad)) = Some vp"
    and "1 \<le> length addr" "length addr \<le> MaxAddressLength" "length pad \<le> MaxPaddingLength"
  shows "ReadTCPRequest qread (va @ bytes_of_string addr @ vp @ bytes_of_string pad @ rest) =
    Inr (addr, rest)"
proof -
  have u: "unat (word_of_nat (length addr) :: u64w) = length addr"
    "unat (word_of_nat (length pad) :: u64w) = length pad"
    using assms(4,5) by (simp_all add: unat_of_nat length_limits)
  then have nz: "(word_of_nat (length addr) :: u64w) \<noteq> 0" using assms(3) by force
  show ?thesis
    using assms(3-5)
    by (simp add: ReadTCPRequest_def qread_varint_bytes [OF a] qread_varint_bytes [OF p] u nz
        wire_simps)
qed

lemma ReadTCPResponse_bytes:
  assumes a: "varint_bytes (word_of_nat (length msg)) = Some va"
    and p: "varint_bytes (word_of_nat (length pad)) = Some vp"
    and "length msg \<le> MaxMessageLength" "length pad \<le> MaxPaddingLength"
  shows "ReadTCPResponse qread (s # va @ bytes_of_string msg @ vp @ bytes_of_string pad @ rest) =
    Inr (s = 0, msg, rest)"
proof -
  have u: "unat (word_of_nat (length msg) :: u64w) = length msg"
    "unat (word_of_nat (length pad) :: u64w) = length pad"
    using assms(3,4) by (simp_all add: unat_of_nat length_limits)
  have s: "ReadFull (Suc 0) (s # r) = Inr ([s], r)" for r by (simp add: ReadFull_def)
  show ?thesis
    using assms(3,4)
    by (auto simp add: ReadTCPResponse_def qread_varint_bytes [OF a] qread_varint_bytes [OF p] u s
        wire_simps)
qed

end


section \<open>UDP messages\<close>

record udp_message =
  SessionID :: u32
  PacketID :: u16
  FragID :: byte
  FragCount :: byte
  Addr :: string
  Data :: bytes

definition HeaderSize :: "(u64w \<Rightarrow> nat) \<Rightarrow> udp_message \<Rightarrow> nat" where
  "HeaderSize qlen m =
     (let lAddr = length (Addr m) in 4 + 2 + 1 + 1 + qlen (word_of_nat lAddr) + lAddr)"

definition Size :: "(u64w \<Rightarrow> nat) \<Rightarrow> udp_message \<Rightarrow> nat" where
  "Size qlen m = HeaderSize qlen m + length (Data m)"

definition Serialize :: "(u64w \<Rightarrow> nat) \<Rightarrow> udp_message \<Rightarrow> bytes \<Rightarrow> (bytes \<times> int) option" where
  "Serialize qlen m buf =
     (if length buf < Size qlen m then Some (buf, -1)
      else do {
        buf \<leftarrow> put_at buf 0 (be32 (SessionID m));
        buf \<leftarrow> put_at buf 4 (be16 (PacketID m));
        buf \<leftarrow> put_at buf 6 [FragID m];
        buf \<leftarrow> put_at buf 7 [FragCount m];
        (buf, i) \<leftarrow> varintPut buf 8 (word_of_nat (length (Addr m)));
        (buf, n) \<leftarrow> copy_at buf (8 + i) (bytes_of_string (Addr m));
        let i = i + n;
        (buf, n) \<leftarrow> copy_at buf (8 + i) (Data m);
        let i = i + n;
        Some (buf, int (8 + i))
      })"

definition ParseUDPMessage ::
  "(bytes \<Rightarrow> io_error + (u64w \<times> nat)) \<Rightarrow> bytes \<Rightarrow> io_error + udp_message" where
  "ParseUDPMessage qparse msg =
     (if length msg < 8 then
        (if length msg = 0 then Inl IO_EOF else Inl IO_UnexpectedEOF)
      else (case qparse (drop 8 msg) of
              Inl err \<Rightarrow> Inl err
            | Inr (lAddr, varintLen) \<Rightarrow>
                if lAddr = 0 \<or> unat lAddr > MaxMessageLength
                then Inl (ProtocolError ''invalid address length'')
                else
                  (let addrStart = 8 + varintLen;
                       addrEnd = addrStart + unat lAddr
                   in if length msg \<le> addrEnd
                      then Inl (ProtocolError ''invalid message length'')
                      else Inr \<lparr>SessionID = un_be32 (msg ! 0) (msg ! 1) (msg ! 2) (msg ! 3),
                                PacketID = un_be16 (msg ! 4) (msg ! 5),
                                FragID = msg ! 6,
                                FragCount = msg ! 7,
                                Addr = string_of_bytes (drop addrStart (take addrEnd msg)),
                                Data = drop addrEnd msg\<rparr>)))"

text \<open>The bytes a message stands for on the wire.\<close>

definition udp_wire :: "bytes \<Rightarrow> udp_message \<Rightarrow> bytes" where
  "udp_wire va m = be32 (SessionID m) @ be16 (PacketID m) @ [FragID m, FragCount m] @ va
     @ bytes_of_string (Addr m) @ Data m"

lemma length_udp_wire: "length (udp_wire va m) = 8 + length va + length (Addr m) + length (Data m)"
  by (simp add: udp_wire_def)

lemma put_at_split:
  "length pre = off \<Longrightarrow> length old = length bs \<Longrightarrow>
   put_at (pre @ old @ rest) off bs = Some (pre @ bs @ rest)"
  by (simp add: put_at_def)

lemma split_at_length:
  assumes "n \<le> length buf" obtains xs ys where "buf = xs @ ys" "length xs = n"
  using assms by (metis append_take_drop_id length_take min.absorb2)

context quicvarint
begin

lemma Serialize_bytes:
  assumes a: "varint_bytes (word_of_nat (length (Addr m))) = Some va"
    and len: "length (udp_wire va m) \<le> length buf"
  shows "Serialize qlen m buf =
    Some (udp_wire va m @ drop (length (udp_wire va m)) buf, int (length (udp_wire va m)))"
proof -
  note q = qlen_varint_bytes [OF a]
  have sz: "Size qlen m = length (udp_wire va m)"
    by (simp add: Size_def HeaderSize_def Let_def q length_udp_wire)
  obtain w old where buf: "buf = w @ old" "length w = 8"
    using split_at_length [of 8 buf] len by (auto simp: length_udp_wire)
  then obtain w0 w1 w2 w3 w4 w5 w6 w7 where w: "w = [w0, w1, w2, w3, w4, w5, w6, w7]"
    by (auto simp: length_Suc_conv numeral_eq_Suc)
  define h where "h = be32 (SessionID m) @ be16 (PacketID m) @ [FragID m, FragCount m]"
  have h: "length h = 8" by (simp add: h_def)
  let ?L = "length va" and ?A = "length (Addr m)" and ?D = "length (Data m)"
  have old: "?L + ?A + ?D \<le> length old" using len buf by (simp add: length_udp_wire)
  have 1: "put_at buf 0 (be32 (SessionID m)) = Some (be32 (SessionID m) @ [w4, w5, w6, w7] @ old)"
    by (simp add: put_at_def buf w)
  have 2: "put_at (be32 (SessionID m) @ [w4, w5, w6, w7] @ old) 4 (be16 (PacketID m)) =
      Some ((be32 (SessionID m) @ be16 (PacketID m)) @ [w6] @ [w7] @ old)"
    by (simp add: put_at_def)
  have 3: "put_at ((be32 (SessionID m) @ be16 (PacketID m)) @ [w6] @ [w7] @ old) 6 [FragID m] =
      Some ((be32 (SessionID m) @ be16 (PacketID m) @ [FragID m]) @ [w7] @ old)"
    by (simp add: put_at_def)
  have 4: "put_at ((be32 (SessionID m) @ be16 (PacketID m) @ [FragID m]) @ [w7] @ old) 7 [FragCount m] =
      Some (h @ old)"
    by (simp add: put_at_def h_def)
  have 5: "varintPut (h @ old) 8 (word_of_nat ?A) = Some ((h @ va) @ drop ?L old, ?L)"
    using old by (simp add: varintPut_append [OF a] h)
  have 6: "copy_at ((h @ va) @ drop ?L old) (8 + ?L) (bytes_of_string (Addr m)) =
      Some ((h @ va @ bytes_of_string (Addr m)) @ drop (?L + ?A) old, ?A)"
    using old by (simp add: copy_at_def Let_def h add.commute)
  have 7: "copy_at ((h @ va @ bytes_of_string (Addr m)) @ drop (?L + ?A) old) (8 + (?L + ?A)) (Data m) =
      Some (udp_wire va m @ drop (?L + ?A + ?D) old, ?D)"
    using old by (simp add: copy_at_def Let_def h udp_wire_def h_def add.commute add.left_commute)
  have "\<not> length buf < Size qlen m" using len sz by simp
  then show ?thesis
    unfolding Serialize_def Let_def
    by (simp only: 1 2 3 4 5 6 7 Option.bind.bind_lunit prod.case if_False)
      (simp add: length_udp_wire buf add.assoc)
qed

lemma ParseUDPMessage_wire:
  assumes a: "varint_bytes (word_of_nat (length (Addr m))) = Some va"
    and "1 \<le> length (Addr m)" "length (Addr m) \<le> MaxMessageLength" "Data m \<noteq> []"
  shows "ParseUDPMessage qparse (udp_wire va m) = Inr m"
proof -
  have u: "unat (word_of_nat (length (Addr m)) :: u64w) = length (Addr m)"
    using assms(3) by (simp add: unat_of_nat length_limits)
  then have nz: "(word_of_nat (length (Addr m)) :: u64w) \<noteq> 0" using assms(2) by force
  have d: "drop 8 (udp_wire va m) = va @ bytes_of_string (Addr m) @ Data m"
    by (simp add: udp_wire_def be16_def be32_def)
  have e: "drop (8 + length va + length (Addr m)) (udp_wire va m) = Data m"
    "drop (8 + length va) (take (8 + length va + length (Addr m)) (udp_wire va m)) =
      bytes_of_string (Addr m)"
    by (simp_all add: udp_wire_def)
  have n: "udp_wire va m ! 0 = byte_of (drop_bit 24 (SessionID m))"
    "udp_wire va m ! 1 = byte_of (drop_bit 16 (SessionID m))"
    "udp_wire va m ! 2 = byte_of (drop_bit 8 (SessionID m))"
    "udp_wire va m ! 3 = byte_of (SessionID m)"
    "udp_wire va m ! 4 = byte_of (drop_bit 8 (PacketID m))"
    "udp_wire va m ! 5 = byte_of (PacketID m)"
    "udp_wire va m ! 6 = FragID m" "udp_wire va m ! 7 = FragCount m"
    by (simp_all add: udp_wire_def be16_def be32_def)
  show ?thesis
    using assms(2-4)
    by (simp add: ParseUDPMessage_def d e n qparse_varint_bytes [OF a] u nz Let_def
        length_udp_wire del: One_nat_def)
qed

lemma tcp_request_roundtrip_aux:
  assumes "1 \<le> length addr" "length addr \<le> MaxAddressLength"
  shows "\<exists>buf body. WriteTCPRequest qlen draws addr = Some buf \<and>
    qread (buf @ rest) = Inr (FrameTypeTCPRequest, body) \<and>
    ReadTCPRequest qread body = Inr (addr, rest)"
proof -
  define pad where "pad = padding_String tcpRequestPadding draws"
  have pl: "length pad \<le> MaxPaddingLength" by (simp add: pad_def tcp_padding_length)
  obtain va where va: "varint_bytes (word_of_nat (length addr)) = Some va"
    by (rule small_length_varint [of "length addr"]) (use assms(2) in \<open>simp add: length_limits\<close>)
  obtain vp where vp: "varint_bytes (word_of_nat (length pad)) = Some vp"
    by (rule small_length_varint [of "length pad"]) (use pl in \<open>simp add: length_limits\<close>)
  have "qread ([0x44, 0x01] @ va @ bytes_of_string addr @ vp @ bytes_of_string pad @ rest) =
      Inr (FrameTypeTCPRequest, va @ bytes_of_string addr @ vp @ bytes_of_string pad @ rest)"
    by (rule qread_varint_bytes [OF frame_type_varint])
  with WriteTCPRequest_bytes [OF va vp pad_def] ReadTCPRequest_bytes [OF va vp assms pl]
  show ?thesis by simp
qed

lemma tcp_response_roundtrip_aux:
  assumes "length msg \<le> MaxMessageLength"
  shows "\<exists>buf. WriteTCPResponse qlen draws ok msg = Some buf \<and>
    ReadTCPResponse qread (buf @ rest) = Inr (ok, msg, rest)"
proof -
  define pad where "pad = padding_String tcpResponsePadding draws"
  have pl: "length pad \<le> MaxPaddingLength" by (simp add: pad_def tcp_padding_length)
  obtain va where va: "varint_bytes (word_of_nat (length msg)) = Some va"
    by (rule small_length_varint [of "length msg"]) (use assms in \<open>simp add: length_limits\<close>)
  obtain vp where vp: "varint_bytes (word_of_nat (length pad)) = Some vp"
    by (rule small_length_varint [of "length pad"]) (use pl in \<open>simp add: length_limits\<close>)
  show ?thesis
    using WriteTCPResponse_bytes [OF va vp pad_def] ReadTCPResponse_bytes [OF va vp assms pl]
    by (auto split: if_splits)
qed

lemma ReadTCPRequest_bounds_aux:
  assumes "ReadTCPRequest qread r = Inr (addr, rest)"
  shows "1 \<le> length addr \<and> length addr \<le> MaxAddressLength \<and>
    (\<exists>used \<le> 8 + MaxAddressLength + 8 + MaxPaddingLength. used \<le> length r \<and> rest = drop used r)"
proof -
  obtain la r1 where 1: "qread r = Inr (la, r1)" "la \<noteq> 0" "unat la \<le> MaxAddressLength"
    using assms by (auto simp: ReadTCPRequest_def split: sum.splits if_splits prod.splits)
  obtain ab r2 where 2: "ReadFull (unat la) r1 = Inr (ab, r2)"
    using assms 1 by (auto simp: ReadTCPRequest_def split: sum.splits if_splits)
  obtain lp r3 where 3: "qread r2 = Inr (lp, r3)" "unat lp \<le> MaxPaddingLength"
    using assms 1 2 by (auto simp: ReadTCPRequest_def split: sum.splits if_splits)
  have 4: "addr = string_of_bytes ab" "rest = drop (unat lp) r3" "unat lp \<le> length r3"
    using assms 1 2 3 by (auto simp: ReadTCPRequest_def DiscardN_def split: sum.splits if_splits)
  obtain n1 where n1: "n1 \<le> 8" "n1 \<le> length r" "r1 = drop n1 r"
    using qread_consumes [OF 1(1)] by blast
  have ab: "unat la \<le> length r1" "ab = take (unat la) r1" "r2 = drop (unat la) r1"
    using 2 by (auto simp: ReadFull_def split: if_splits)
  obtain n2 where n2: "n2 \<le> 8" "n2 \<le> length r2" "r3 = drop n2 r2"
    using qread_consumes [OF 3(1)] by blast
  have "1 \<le> length addr" "length addr \<le> MaxAddressLength"
    using 1 ab 4 by (simp_all add: Suc_le_eq unat_gt_0)
  moreover have "rest = drop (n1 + unat la + n2 + unat lp) r"
    by (simp add: 4 n2 ab n1 add.commute add.left_commute)
  moreover have "n1 + unat la + n2 + unat lp \<le> 8 + MaxAddressLength + 8 + MaxPaddingLength"
    using n1 n2 1 3 by linarith
  moreover have "n1 + unat la + n2 + unat lp \<le> length r"
    using n1 n2 ab 4 by simp
  ultimately show ?thesis by blast
qed

lemma udp_roundtrip_aux:
  assumes "1 \<le> length (Addr m)" "length (Addr m) \<le> MaxMessageLength" "Data m \<noteq> []"
    and "Size qlen m \<le> length buf"
  shows "\<exists>buf'. Serialize qlen m buf = Some (buf', int (Size qlen m)) \<and>
    length buf' = length buf \<and> drop (Size qlen m) buf' = drop (Size qlen m) buf \<and>
    ParseUDPMessage qparse (take (Size qlen m) buf') = Inr m"
proof -
  obtain va where va: "varint_bytes (word_of_nat (length (Addr m))) = Some va"
    by (rule small_length_varint [of "length (Addr m)"]) (use assms(2) in \<open>simp add: length_limits\<close>)
  have sz: "Size qlen m = length (udp_wire va m)"
    by (simp add: Size_def HeaderSize_def Let_def qlen_varint_bytes [OF va] length_udp_wire)
  show ?thesis
    using Serialize_bytes [OF va] ParseUDPMessage_wire [OF va assms(1-3)] assms(4) sz by simp
qed

end

section \<open>Properties\<close>

text \<open>
  A TCP request written by the client for an address of 1 to 2048 bytes, whatever padding the
  random source draws, is never a panic, starts with the frame type 0x401 that the server's stream
  dispatcher consumes, and is read by the server as exactly that address, leaving the bytes behind
  it (the proxied data) untouched.
\<close>

theorem tcp_request_roundtrip:
  assumes "quicvarint qlen qread qparse"
    and "1 \<le> length addr" "length addr \<le> MaxAddressLength"
  shows "\<exists>buf body. WriteTCPRequest qlen draws addr = Some buf \<and>
    qread (buf @ rest) = Inr (FrameTypeTCPRequest, body) \<and>
    ReadTCPRequest qread body = Inr (addr, rest)"
  using assms by (rule quicvarint.tcp_request_roundtrip_aux)

theorem tcp_request_roundtrip_witness:
  "\<exists>buf body. WriteTCPRequest rfc_len (\<lambda>_. 7) ''a.b:80'' = Some buf \<and>
    rfc_read (buf @ [1, 2]) = Inr (FrameTypeTCPRequest, body) \<and>
    ReadTCPRequest rfc_read body = Inr (''a.b:80'', [1, 2])"
  by (rule tcp_request_roundtrip [OF rfc.quicvarint_axioms]) (simp_all add: MaxAddressLength_def)

text \<open>
  A TCP response written by the server with a message of at most 2048 bytes is read by the
  client as the same status and message, again leaving the proxied data behind it untouched.
\<close>

theorem tcp_response_roundtrip:
  assumes "quicvarint qlen qread qparse" and "length msg \<le> MaxMessageLength"
  shows "\<exists>buf. WriteTCPResponse qlen draws ok msg = Some buf \<and>
    ReadTCPResponse qread (buf @ rest) = Inr (ok, msg, rest)"
  using assms by (rule quicvarint.tcp_response_roundtrip_aux)

theorem tcp_response_roundtrip_witness:
  "\<exists>buf. WriteTCPResponse rfc_len (\<lambda>_. 7) False ''refused'' = Some buf \<and>
    ReadTCPResponse rfc_read (buf @ [9]) = Inr (False, ''refused'', [9])"
  by (rule tcp_response_roundtrip [OF rfc.quicvarint_axioms]) (simp add: MaxMessageLength_def)

text \<open>
  Whatever bytes a peer sends, a TCP request that is accepted names an address of 1 to 2048
  bytes and consumes at most 8 + 2048 + 8 + 4096 bytes of the stream: the length limits that guard
  against memory exhaustion hold on every accepted input.
\<close>

theorem tcp_request_bounds:
  assumes "quicvarint qlen qread qparse" and "ReadTCPRequest qread r = Inr (addr, rest)"
  shows "1 \<le> length addr \<and> length addr \<le> MaxAddressLength \<and>
    (\<exists>used \<le> 8 + MaxAddressLength + 8 + MaxPaddingLength. used \<le> length r \<and> rest = drop used r)"
  using assms by (rule quicvarint.ReadTCPRequest_bounds_aux)

theorem tcp_request_bounds_witness:
  "ReadTCPRequest rfc_read [1, 120, 0, 5] = Inr (''x'', [5]) \<and>
   (\<exists>used \<le> 8 + MaxAddressLength + 8 + MaxPaddingLength.
      used \<le> length [1, 120, 0, 5 :: byte] \<and> [5] = drop used [1, 120, 0, 5 :: byte])"
proof -
  have r: "ReadTCPRequest rfc_read [1, 120, 0, 5] = Inr (''x'', [5])"
    by code_simp
  from tcp_request_bounds [OF rfc.quicvarint_axioms r] r show ?thesis by blast
qed

text \<open>
  C9: A UDP message with an address of 1 to 2048 bytes and at least one byte of data that fits the
  buffer is serialized without a panic into exactly \<open>Size\<close> bytes, the rest of the buffer is
  untouched, and parsing those bytes gives the message back.
\<close>

theorem udp_message_roundtrip:
  assumes "quicvarint qlen qread qparse"
    and "1 \<le> length (Addr m)" "length (Addr m) \<le> MaxMessageLength" "Data m \<noteq> []"
    and "Size qlen m \<le> length buf"
  shows "\<exists>buf'. Serialize qlen m buf = Some (buf', int (Size qlen m)) \<and>
    length buf' = length buf \<and> drop (Size qlen m) buf' = drop (Size qlen m) buf \<and>
    ParseUDPMessage qparse (take (Size qlen m) buf') = Inr m"
  using assms by (rule quicvarint.udp_roundtrip_aux)

definition example_message :: udp_message where
  "example_message = \<lparr>SessionID = 7, PacketID = 300, FragID = 0, FragCount = 1,
     Addr = ''1.1.1.1:53'', Data = [1, 2, 3]\<rparr>"

theorem udp_message_roundtrip_witness:
  "Size rfc_len example_message = 22 \<and>
   (\<exists>buf'. Serialize rfc_len example_message (replicate 30 255) = Some (buf', 22) \<and>
      ParseUDPMessage rfc_parse (take 22 buf') = Inr example_message)"
proof -
  have sz: "Size rfc_len example_message = 22"
    by (simp add: Size_def HeaderSize_def rfc_len_def example_message_def)
  have "\<exists>buf'. Serialize rfc_len example_message (replicate 30 255) =
      Some (buf', int (Size rfc_len example_message)) \<and>
      length buf' = length (replicate 30 (255 :: byte)) \<and>
      drop (Size rfc_len example_message) buf' =
        drop (Size rfc_len example_message) (replicate 30 255) \<and>
      ParseUDPMessage rfc_parse (take (Size rfc_len example_message) buf') = Inr example_message"
    by (rule udp_message_roundtrip [OF rfc.quicvarint_axioms])
      (simp_all only: sz, simp_all add: example_message_def MaxMessageLength_def)
  with sz show ?thesis by auto
qed

end
