(* ===== verification/Http_Auth.thy ===== *)
theory Http_Auth
  imports Wire_Protocol Go_Strings
begin

text \<open>
  \<open>core/internal/protocol/http.go\<close>: the authentication request and response in HTTP headers, with
  \<open>http.Header\<close> (canonical keys), \<open>strconv.ParseUint\<close>, whose value the code uses even when it fails,
  and \<open>strconv.ParseBool\<close>.
\<close>

section \<open>Headers\<close>

type_synonym header = "string \<Rightarrow> string list"

definition upper_char :: "char \<Rightarrow> char" where
  "upper_char c = (if 97 \<le> cb c \<and> cb c \<le> 122 then char_of (cb c - 32) else c)"

definition token_char :: "char \<Rightarrow> bool" where
  "token_char c \<longleftrightarrow> is_digit c \<or> 65 \<le> cb c \<and> cb c \<le> 90 \<or> 97 \<le> cb c \<and> cb c \<le> 122 \<or>
     c \<in> set ''!#$%&*+-.^_`|~'' \<or> cb c = 39"

fun canonical_chars :: "bool \<Rightarrow> string \<Rightarrow> string" where
  "canonical_chars upper [] = []"
| "canonical_chars upper (c # cs) =
     (if upper then upper_char c else lower_char c) # canonical_chars (c = CHR ''-'') cs"

definition CanonicalHeaderKey :: "string \<Rightarrow> string" where
  "CanonicalHeaderKey k = (if list_all token_char k then canonical_chars True k else k)"

definition header_Get :: "header \<Rightarrow> string \<Rightarrow> string" where
  "header_Get h k = (case h (CanonicalHeaderKey k) of [] \<Rightarrow> '''' | v # _ \<Rightarrow> v)"

definition header_Set :: "header \<Rightarrow> string \<Rightarrow> string \<Rightarrow> header" where
  "header_Set h k v = h(CanonicalHeaderKey k := [v])"

section \<open>Numbers and booleans\<close>

text \<open>\<open>ParseUint(s, 10, 64)\<close>: the value, and whether there is an error.\<close>

fun parse_uint64 :: "string \<Rightarrow> int \<Rightarrow> int \<times> bool" where
  "parse_uint64 [] n = (n, False)"
| "parse_uint64 (c # cs) n =
     (if \<not> is_digit c then (0, True)
      else if n \<ge> 1844674407370955162 then (18446744073709551615, True)
      else (let n1 = 10 * n + int (cb c - 48)
            in if n1 > 18446744073709551615 then (18446744073709551615, True) else parse_uint64 cs n1))"

definition ParseUint64 :: "string \<Rightarrow> int \<times> bool" where
  "ParseUint64 s = (if s = [] then (0, True) else parse_uint64 s 0)"

definition FormatUint :: "int \<Rightarrow> string" where "FormatUint n = dec_digits (nat n)"

definition ParseBool :: "string \<Rightarrow> bool \<times> bool" where
  "ParseBool s =
     (if s \<in> {''1'', ''t'', ''T'', ''TRUE'', ''true'', ''True''} then (True, False)
      else if s \<in> {''0'', ''f'', ''F'', ''FALSE'', ''false'', ''False''} then (False, False)
      else (False, True))"

definition FormatBool :: "bool \<Rightarrow> string" where
  "FormatBool b = (if b then ''true'' else ''false'')"

section \<open>The authentication exchange\<close>

definition URLHost :: string where "URLHost = ''hysteria''"
definition URLPath :: string where "URLPath = ''/auth''"
definition RequestHeaderAuth :: string where "RequestHeaderAuth = ''Hysteria-Auth''"
definition ResponseHeaderUDPEnabled :: string where "ResponseHeaderUDPEnabled = ''Hysteria-UDP''"
definition CommonHeaderCCRX :: string where "CommonHeaderCCRX = ''Hysteria-CC-RX''"
definition CommonHeaderPadding :: string where "CommonHeaderPadding = ''Hysteria-Padding''"
definition StatusAuthOK :: nat where "StatusAuthOK = 233"

record authRequest =
  aq_Auth :: string
  aq_Rx :: int

record authResponse =
  as_UDPEnabled :: bool
  as_Rx :: int
  as_RxAuto :: bool

definition AuthRequestFromHeader :: "header \<Rightarrow> authRequest" where
  "AuthRequestFromHeader h =
     \<lparr>aq_Auth = header_Get h RequestHeaderAuth, aq_Rx = fst (ParseUint64 (header_Get h CommonHeaderCCRX))\<rparr>"

definition AuthRequestToHeader :: "(nat \<Rightarrow> nat) \<Rightarrow> header \<Rightarrow> authRequest \<Rightarrow> header" where
  "AuthRequestToHeader draw h req =
     header_Set (header_Set (header_Set h RequestHeaderAuth (aq_Auth req))
       CommonHeaderCCRX (FormatUint (aq_Rx req)))
       CommonHeaderPadding (padding_String authRequestPadding draw)"

definition AuthResponseFromHeader :: "header \<Rightarrow> authResponse" where
  "AuthResponseFromHeader h =
     (let udp = fst (ParseBool (header_Get h ResponseHeaderUDPEnabled));
          rxStr = header_Get h CommonHeaderCCRX
      in if rxStr = ''auto'' then \<lparr>as_UDPEnabled = udp, as_Rx = 0, as_RxAuto = True\<rparr>
         else \<lparr>as_UDPEnabled = udp, as_Rx = fst (ParseUint64 rxStr), as_RxAuto = False\<rparr>)"

definition AuthResponseToHeader :: "(nat \<Rightarrow> nat) \<Rightarrow> header \<Rightarrow> authResponse \<Rightarrow> header" where
  "AuthResponseToHeader draw h resp =
     (let h = header_Set h ResponseHeaderUDPEnabled (FormatBool (as_UDPEnabled resp));
          h = (if as_RxAuto resp then header_Set h CommonHeaderCCRX ''auto''
               else header_Set h CommonHeaderCCRX (FormatUint (as_Rx resp)))
      in header_Set h CommonHeaderPadding (padding_String authResponsePadding draw))"

section \<open>Round trips\<close>

lemma digit_fold_ge:
  "list_all is_digit cs \<Longrightarrow> 0 \<le> n \<Longrightarrow> n \<le> fold (\<lambda>c n. 10 * n + (int (cb c) - 48)) cs n"
proof (induction cs arbitrary: n)
  case (Cons c cs)
  then have d: "48 \<le> int (cb c)" by (simp add: is_digit_def)
  then have "10 * n + (int (cb c) - 48) \<le> fold (\<lambda>c n. 10 * n + (int (cb c) - 48)) cs (10 * n + (int (cb c) - 48))"
    using Cons by simp
  moreover have "n \<le> 10 * n + (int (cb c) - 48)" using d Cons.prems(2) by linarith
  ultimately show ?case by simp
qed simp

lemma parse_uint64_fold:
  "list_all is_digit cs \<Longrightarrow> 0 \<le> n \<Longrightarrow>
   fold (\<lambda>c n. 10 * n + (int (cb c) - 48)) cs n \<le> 18446744073709551615 \<Longrightarrow>
   parse_uint64 cs n = (fold (\<lambda>c n. 10 * n + (int (cb c) - 48)) cs n, False)"
proof (induction cs arbitrary: n)
  case (Cons c cs)
  let ?n = "10 * n + (int (cb c) - 48)"
  have d: "48 \<le> cb c" "is_digit c" using Cons.prems(1) by (simp_all add: is_digit_def)
  have "?n \<le> fold (\<lambda>c n. 10 * n + (int (cb c) - 48)) cs ?n"
    using Cons.prems(1,2) d by (intro digit_fold_ge) simp_all
  then have le: "?n \<le> 18446744073709551615" using Cons.prems(3) by simp
  have sm: "\<not> n \<ge> 1844674407370955162" using le d(1) by linarith
  have eq: "10 * n + int (cb c - 48) = ?n" using d(1) by (simp add: of_nat_diff)
  have "0 \<le> ?n" using d(1) Cons.prems(2) by linarith
  then have "parse_uint64 cs ?n = (fold (\<lambda>c n. 10 * n + (int (cb c) - 48)) cs ?n, False)"
    using Cons.IH [of ?n] Cons.prems(1,3) by simp
  then show ?case using le sm d(2) by (simp add: eq Let_def)
qed simp

lemma ParseUint64_FormatUint:
  assumes "0 \<le> n" "n < 2 ^ 64"
  shows "ParseUint64 (FormatUint n) = (n, False)"
proof -
  have "list_all is_digit (dec_digits (nat n))" using dec_digits_digit by (simp add: list_all_iff)
  moreover have "fold (\<lambda>c n. 10 * n + (int (cb c) - 48)) (dec_digits (nat n)) 0 = n"
    using dec_digits_value [of "nat n"] assms(1) by (simp add: digits_value_def)
  ultimately show ?thesis
    using assms parse_uint64_fold [of "dec_digits (nat n)" 0] by (simp add: ParseUint64_def FormatUint_def)
qed

lemma FormatUint_not_auto: "FormatUint n \<noteq> ''auto''"
proof
  assume "FormatUint n = ''auto''"
  then have "CHR ''a'' \<in> set (dec_digits (nat n))" by (simp add: FormatUint_def)
  then have "is_digit (CHR ''a'')" using dec_digits_digit by blast
  then show False by (simp add: is_digit_def)
qed

lemma auth_keys:
  "CanonicalHeaderKey RequestHeaderAuth = ''Hysteria-Auth''"
  "CanonicalHeaderKey ResponseHeaderUDPEnabled = ''Hysteria-Udp''"
  "CanonicalHeaderKey CommonHeaderCCRX = ''Hysteria-Cc-Rx''"
  "CanonicalHeaderKey CommonHeaderPadding = ''Hysteria-Padding''"
  by code_simp+

lemmas auth_header_defs = AuthRequestFromHeader_def AuthRequestToHeader_def AuthResponseFromHeader_def
  AuthResponseToHeader_def header_Get_def header_Set_def auth_keys ParseBool_def FormatBool_def Let_def

lemma auth_request_back:
  "0 \<le> aq_Rx req \<Longrightarrow> aq_Rx req < 2 ^ 64 \<Longrightarrow> AuthRequestFromHeader (AuthRequestToHeader draw h req) = req"
  using ParseUint64_FormatUint [of "aq_Rx req"] by (simp add: auth_header_defs)

lemma auth_response_back:
  "0 \<le> as_Rx resp \<Longrightarrow> as_Rx resp < 2 ^ 64 \<Longrightarrow>
   AuthResponseFromHeader (AuthResponseToHeader draw h resp) = (if as_RxAuto resp then resp\<lparr>as_Rx := 0\<rparr> else resp)"
  using ParseUint64_FormatUint [of "as_Rx resp"] FormatUint_not_auto [of "as_Rx resp"] by (simp add: auth_header_defs)

text \<open>
  C25: What the client writes into the headers of its authentication request the server reads back,
  and what the server answers the client reads back, for every password, every rate of 64 bits and
  whatever the headers held before; a rate sent as \<open>auto\<close> is read as no rate.
\<close>

theorem auth_headers_roundtrip:
  assumes "0 \<le> aq_Rx req" "aq_Rx req < 2 ^ 64" "0 \<le> as_Rx resp" "as_Rx resp < 2 ^ 64"
  shows "AuthRequestFromHeader (AuthRequestToHeader draw h req) = req \<and>
    AuthResponseFromHeader (AuthResponseToHeader draw h resp) =
      (if as_RxAuto resp then resp\<lparr>as_Rx := 0\<rparr> else resp)"
  using auth_request_back [OF assms(1,2)] auth_response_back [OF assms(3,4)] by simp

lemma auth_headers_roundtrip_witness:
  "AuthRequestFromHeader (AuthRequestToHeader (\<lambda>_. 0) (\<lambda>_. [])
     \<lparr>aq_Auth = ''secret'', aq_Rx = 1250000\<rparr>) = \<lparr>aq_Auth = ''secret'', aq_Rx = 1250000\<rparr>"
  using auth_headers_roundtrip [of "\<lparr>aq_Auth = ''secret'', aq_Rx = 1250000\<rparr>"
      "\<lparr>as_UDPEnabled = True, as_Rx = 7, as_RxAuto = False\<rparr>" "\<lambda>_. 0" "\<lambda>_. []"] by simp

text \<open>The error of \<open>ParseUint\<close> is ignored, but an overflow does not give 0: it gives the largest rate.\<close>

lemma auth_rate_overflow:
  "aq_Rx (AuthRequestFromHeader (header_Set (\<lambda>_. []) CommonHeaderCCRX ''18446744073709551616'')) =
   18446744073709551615"
  by code_simp

end
