(* ===== verification/Udp_Frag.thy ===== *)
theory Udp_Frag
  imports Wire_Protocol
begin

text \<open>
  \<open>core/internal/frag/frag.go\<close>: splitting a UDP message into fragments and the one-packet
  defragmenter of the receiving side.  The defragmenter keeps pointers to the messages it is fed;
  the message that completes a packet is rewritten in place, so the slot that holds it changes
  too, which the model writes out.
\<close>

section \<open>Fragmentation\<close>

definition zero_message :: udp_message where
  "zero_message = \<lparr>SessionID = 0, PacketID = 0, FragID = 0, FragCount = 0, Addr = [], Data = []\<rparr>"

text \<open>The loop; \<open>None\<close> is the index-out-of-range panic of \<open>frags[fragID] = frag\<close>.  The guard
  \<open>0 < maxPayloadSize\<close> is what the early return before the loop has established.\<close>

function frag_loop ::
  "udp_message \<Rightarrow> nat \<Rightarrow> byte \<Rightarrow> nat \<Rightarrow> byte \<Rightarrow> udp_message list \<Rightarrow> udp_message list option" where
  "frag_loop m maxPayloadSize fragCount off fragID frags =
     (if off < length (Data m) \<and> 0 < maxPayloadSize then
        (let payloadSize = min (length (Data m) - off) maxPayloadSize;
             frag = m\<lparr>FragID := fragID, FragCount := fragCount,
                      Data := take payloadSize (drop off (Data m))\<rparr>
         in if unat fragID < length frags
            then frag_loop m maxPayloadSize fragCount (off + payloadSize) (fragID + 1)
                   (frags[unat fragID := frag])
            else None)
      else Some frags)"
  by pat_completeness auto
termination
  by (relation "measure (\<lambda>(m, maxPayloadSize, fragCount, off, fragID, frags). length (Data m) - off)")
    (auto simp: min_def)

declare frag_loop.simps [simp del]

definition FragUDPMessage ::
  "(u64w \<Rightarrow> nat) \<Rightarrow> udp_message \<Rightarrow> int \<Rightarrow> udp_message list option" where
  "FragUDPMessage qlen m maxSize =
     (if int (Size qlen m) \<le> maxSize then Some [m]
      else
        (let fullPayload = Data m;
             maxPayloadSize = maxSize - int (HeaderSize qlen m)
         in if maxPayloadSize \<le> 0 then Some []
            else
              (let fragCount =
                     word_of_int ((int (length fullPayload) + maxPayloadSize - 1) div maxPayloadSize)
               in frag_loop m (nat maxPayloadSize) fragCount 0 0
                    (replicate (unat fragCount) zero_message))))"

text \<open>What the loop is for: the \<open>i\<close>-th fragment and the number of fragments.\<close>

definition nfrags :: "nat \<Rightarrow> udp_message \<Rightarrow> nat" where
  "nfrags mps m = (length (Data m) + mps - 1) div mps"

definition fragment :: "nat \<Rightarrow> byte \<Rightarrow> udp_message \<Rightarrow> nat \<Rightarrow> udp_message" where
  "fragment mps c m i =
     m\<lparr>FragID := word_of_nat i, FragCount := c, Data := take mps (drop (i * mps) (Data m))\<rparr>"

lemma ceil_div_less: "0 < (mps::nat) \<Longrightarrow> i < (L + mps - 1) div mps \<longleftrightarrow> i * mps < L"
proof -
  assume "0 < mps"
  then have "i < (L + mps - 1) div mps \<longleftrightarrow> (i + 1) * mps \<le> L + mps - 1"
    by (metis Suc_eq_plus1 Suc_leI le_simps(3) less_eq_div_iff_mult_less_eq)
  also have "\<dots> \<longleftrightarrow> i * mps < L" using \<open>0 < mps\<close> by (auto simp: algebra_simps)
  finally show ?thesis .
qed

lemma frag_loop_ok:
  assumes "0 < mps" "nfrags mps m \<le> 255" "unat c = nfrags mps m" "i \<le> nfrags mps m"
  shows "frag_loop m mps c (min (i * mps) (length (Data m))) (word_of_nat i)
      (map (fragment mps c m) [0..<i] @ replicate (nfrags mps m - i) zero_message) =
    Some (map (fragment mps c m) [0..<nfrags mps m])"
  using assms(4)
proof (induction "nfrags mps m - i" arbitrary: i)
  case 0
  then have i: "i = nfrags mps m" by simp
  have "\<not> i * mps < length (Data m)"
    using ceil_div_less [OF assms(1), of i "length (Data m)"] i by (simp add: nfrags_def)
  then show ?case by (simp add: frag_loop.simps i min_def)
next
  case (Suc k)
  then have i: "i < nfrags mps m" by simp
  then have lt: "i * mps < length (Data m)"
    using ceil_div_less [OF assms(1)] by (simp add: nfrags_def)
  have u: "unat (word_of_nat i :: byte) = i"
    using i assms(2) by (simp add: unat_of_nat)
  let ?n = "nfrags mps m"
  let ?fs = "map (fragment mps c m) [0..<i] @ replicate (?n - i) zero_message"
  have len: "unat (word_of_nat i :: byte) < length ?fs" using i u by simp
  have upd: "?fs[i := fragment mps c m i] =
      map (fragment mps c m) [0..<Suc i] @ replicate (?n - Suc i) zero_message"
    using i by (simp add: list_update_append Suc_diff_Suc [symmetric] list_update_beyond)
  have off: "i * mps + min (length (Data m) - i * mps) mps = min (Suc i * mps) (length (Data m))"
    using lt by auto
  have fr: "m\<lparr>FragID := word_of_nat i, FragCount := c,
      Data := take (min (length (Data m) - i * mps) mps) (drop (i * mps) (Data m))\<rparr> = fragment mps c m i"
    by (simp add: fragment_def min_def)
  have "frag_loop m mps c (i * mps) (word_of_nat i) ?fs =
      frag_loop m mps c (min (Suc i * mps) (length (Data m))) (word_of_nat i + 1) (?fs[i := fragment mps c m i])"
    using len lt assms(1)
    by (subst frag_loop.simps) (simp add: Let_def fr off u del: mult_Suc)
  also have "\<dots> = Some (map (fragment mps c m) [0..<?n])"
    using Suc.hyps(1) [of "Suc i"] Suc.hyps(2) i by (simp add: upd add.commute del: mult_Suc upt_Suc)
  finally show ?case using lt by (simp add: min_def)
qed


lemma frag_loop_panic:
  assumes "0 < mps" "length fs < nfrags mps m" "length fs \<le> 255" "i \<le> length fs"
  shows "frag_loop m mps c (i * mps) (word_of_nat i) fs = None"
  using assms
proof (induction "length fs - i" arbitrary: i fs)
  case 0
  then have i: "i = length fs" by simp
  have "i * mps < length (Data m)"
    using 0 i ceil_div_less [OF 0(2)] by (simp add: nfrags_def)
  moreover have "unat (word_of_nat i :: byte) = i" using i 0 by (simp add: unat_of_nat)
  ultimately show ?case using 0 i by (subst frag_loop.simps) simp
next
  case (Suc k)
  then have i: "i < length fs" by simp
  have u: "unat (word_of_nat i :: byte) = i" using i Suc.prems by (simp add: unat_of_nat)
  have nx: "Suc i * mps < length (Data m)"
    using i Suc.prems ceil_div_less [OF Suc.prems(1), of "Suc i" "length (Data m)"] by (simp add: nfrags_def)
  have off: "i * mps + min (length (Data m) - i * mps) mps = Suc i * mps"
    using nx by auto
  have lt: "i * mps < length (Data m)" using nx by simp
  have k: "k = length fs - Suc i" using Suc.hyps(2) by simp
  have step: "frag_loop m mps c (Suc i * mps) (word_of_nat i + 1) (fs[i := x]) = None" for x
  proof -
    have "frag_loop m mps c (Suc i * mps) (word_of_nat (Suc i)) (fs[i := x]) = None"
      by (rule Suc.hyps(1)) (use k i Suc.prems in auto)
    then show ?thesis by (simp add: add.commute)
  qed
  show ?case
    using lt Suc.prems(1) i
    by (subst frag_loop.simps) (simp add: Let_def off step u del: mult_Suc)
qed

text \<open>The three outcomes of \<open>FragUDPMessage\<close> on a message that does not fit.\<close>

lemma FragUDPMessage_too_large:
  assumes large: "maxSize < int (Size qlen m)" and room: "int (HeaderSize qlen m) < maxSize"
    and mps: "mps = nat (maxSize - int (HeaderSize qlen m))"
  shows "FragUDPMessage qlen m maxSize =
    (if nfrags mps m \<le> 255
     then Some (map (fragment mps (word_of_nat (nfrags mps m)) m) [0..<nfrags mps m]) else None)"
proof -
  have mps0: "0 < mps" using room mps by simp
  have mi: "maxSize - int (HeaderSize qlen m) = int mps" using room mps by simp
  have len: "mps < length (Data m)" using large mps room by (simp add: Size_def)
  have cnt: "(int (length (Data m)) + int mps - 1) div int mps = int (nfrags mps m)"
    using len by (simp add: nfrags_def zdiv_int of_nat_diff)
  define c where "c = (word_of_nat (nfrags mps m) :: byte)"
  have F: "FragUDPMessage qlen m maxSize = frag_loop m mps c 0 0 (replicate (unat c) zero_message)"
    using large mps0 by (simp add: FragUDPMessage_def mi Let_def cnt c_def)
  show ?thesis
  proof (cases "nfrags mps m \<le> 255")
    case True
    then have u: "unat c = nfrags mps m" by (simp add: c_def unat_of_nat)
    show ?thesis
      using frag_loop_ok [OF mps0 True u, of 0] True by (simp add: F u) (simp add: c_def)
  next
    case False
    have u: "unat c = nfrags mps m mod 256" by (simp add: c_def unat_of_nat)
    have lt: "nfrags mps m mod 256 \<le> 255" by simp
    have l: "length (replicate (unat c) zero_message) = nfrags mps m mod 256"
      by (simp only: length_replicate u)
    have "frag_loop m mps c (0 * mps) (word_of_nat 0) (replicate (unat c) zero_message) = None"
      by (rule frag_loop_panic [OF mps0]; use l False lt in linarith)
    then show ?thesis using False by (simp add: F)
  qed
qed

lemma concat_chunks:
  "0 < mps \<Longrightarrow> concat (map (\<lambda>i. take mps (drop (i * mps) xs)) [0..<n]) = take (n * mps) xs"
  by (induction n) (simp_all add: take_add [symmetric] add.commute)

lemma nfrags_cover: "0 < mps \<Longrightarrow> length (Data m) \<le> nfrags mps m * mps"
  using ceil_div_less [of mps "nfrags mps m" "length (Data m)"] by (simp add: nfrags_def not_less)

lemma concat_fragments:
  "0 < mps \<Longrightarrow> concat (map Data (map (fragment mps c m) [0..<nfrags mps m])) = Data m"
  using concat_chunks [of mps "Data m" "nfrags mps m"] nfrags_cover [of mps m]
  by (simp add: fragment_def comp_def)

lemma Size_fragment:
  "Size qlen (fragment mps c m i) \<le> HeaderSize qlen m + mps"
  by (simp add: Size_def HeaderSize_def fragment_def Let_def)

section \<open>Defragmentation\<close>

record defragger =
  pktID :: u16
  frags :: "udp_message option list"
  count :: byte
  size :: nat

definition new_defragger :: defragger where
  "new_defragger = \<lparr>pktID = 0, frags = [], count = 0, size = 0\<rparr>"

text \<open>The assembly loop \<open>off += copy(data[off:], frag.Data)\<close>; a nil fragment is a nil dereference.\<close>

fun assemble :: "udp_message option list \<Rightarrow> bytes \<Rightarrow> nat \<Rightarrow> bytes option" where
  "assemble [] data off = Some data"
| "assemble (None # fs) data off = None"
| "assemble (Some f # fs) data off =
     (case copy_at data off (Data f) of
        None \<Rightarrow> None
      | Some (data, n) \<Rightarrow> assemble fs data (off + n))"

definition Feed :: "defragger \<Rightarrow> udp_message \<Rightarrow> (defragger \<times> udp_message option) option" where
  "Feed d m =
     (if FragCount m \<le> 1 then Some (d, Some m)
      else if FragID m \<ge> FragCount m then Some (d, None)
      else if PacketID m \<noteq> pktID d \<or> FragCount m \<noteq> word_of_nat (length (frags d)) then
        Some (\<lparr>pktID = PacketID m,
               frags = (replicate (unat (FragCount m)) None)[unat (FragID m) := Some m],
               count = 1,
               size = length (Data m)\<rparr>, None)
      else if unat (FragID m) \<ge> length (frags d) then None
      else if frags d ! unat (FragID m) = None then
        (let d = d\<lparr>frags := (frags d)[unat (FragID m) := Some m],
                   count := count d + 1,
                   size := size d + length (Data m)\<rparr>
         in if unat (count d) = length (frags d) then
              (case assemble (frags d) (replicate (size d) 0) 0 of
                 None \<Rightarrow> None
               | Some data \<Rightarrow>
                   (let m' = m\<lparr>Data := data, FragID := 0, FragCount := 1\<rparr>
                    in Some (d\<lparr>frags := (frags d)[unat (FragID m) := Some m']\<rparr>, Some m')))
            else Some (d, None))
      else Some (d, None))"


text \<open>
  The invariant: \<open>count\<close> counts the slots that are filled, there are at most 255 slots, and as long
  as a slot is empty \<open>size\<close> is the number of bytes received.
\<close>

definition filled :: "udp_message option list \<Rightarrow> nat" where
  "filled fs = length (filter (\<lambda>f. f \<noteq> None) fs)"

definition data_len :: "udp_message option \<Rightarrow> nat" where
  "data_len f = (case f of None \<Rightarrow> 0 | Some g \<Rightarrow> length (Data g))"

definition defrag_inv :: "defragger \<Rightarrow> bool" where
  "defrag_inv d \<longleftrightarrow> length (frags d) \<le> 255 \<and> unat (count d) = filled (frags d) \<and>
     (None \<in> set (frags d) \<longrightarrow> size d = sum_list (map data_len (frags d)))"

lemma filled_update:
  "i < length fs \<Longrightarrow> fs ! i = None \<Longrightarrow> filled (fs[i := Some m]) = Suc (filled fs)"
proof (induction fs arbitrary: i)
  case (Cons f fs)
  then show ?case by (cases i) (auto simp: filled_def)
qed simp

lemma data_len_update:
  "i < length fs \<Longrightarrow> fs ! i = None \<Longrightarrow>
   sum_list (map data_len (fs[i := Some m])) = sum_list (map data_len fs) + length (Data m)"
proof (induction fs arbitrary: i)
  case (Cons f fs)
  then show ?case by (cases i) (auto simp: data_len_def)
qed simp

lemma filled_le: "filled fs \<le> length fs"
  by (simp add: filled_def)

lemma filled_all: "filled fs = length fs \<longleftrightarrow> None \<notin> set fs"
proof (induction fs)
  case (Cons f fs)
  have "filled fs \<noteq> Suc (length fs)" using filled_le [of fs] by simp
  with Cons show ?case by (cases f) (auto simp: filled_def)
qed (simp add: filled_def)

lemma filled_overwrite:
  "i < length fs \<Longrightarrow> fs ! i \<noteq> None \<Longrightarrow> filled (fs[i := Some m]) = filled fs"
proof (induction fs arbitrary: i)
  case (Cons f fs)
  then show ?case by (cases i) (auto simp: filled_def)
qed simp

lemma filled_replicate: "filled (replicate n None) = 0"
  by (simp add: filled_def)

lemma assemble_all:
  "None \<notin> set fs \<Longrightarrow> off + sum_list (map data_len fs) \<le> length data \<Longrightarrow>
   assemble fs data off =
     Some (take off data @ concat (map (Data \<circ> the) fs) @ drop (off + sum_list (map data_len fs)) data)"
proof (induction fs arbitrary: data off)
  case Nil
  then show ?case by simp
next
  case (Cons f fs)
  then obtain g where f: "f = Some g" by (cases f) auto
  have n: "data_len f = length (Data g)" by (simp add: f data_len_def)
  let ?data = "take off data @ Data g @ drop (off + length (Data g)) data"
  have c: "copy_at data off (Data g) = Some (?data, length (Data g))"
    using Cons.prems by (simp add: copy_at_def Let_def n)
  have "assemble fs ?data (off + length (Data g)) =
      Some (take (off + length (Data g)) ?data @ concat (map (Data \<circ> the) fs) @
        drop (off + length (Data g) + sum_list (map data_len fs)) ?data)"
    by (rule Cons.IH) (use Cons.prems n in auto)
  then show ?case
    using Cons.prems n by (simp add: f c add.assoc add.commute add.left_commute comp_def)
qed

text \<open>A complete set of slots assembles into the concatenation of its fragments.\<close>

lemma assemble_complete:
  "None \<notin> set fs \<Longrightarrow>
   assemble fs (replicate (sum_list (map data_len fs)) 0) 0 = Some (concat (map (Data \<circ> the) fs))"
  by (simp add: assemble_all)

lemma fresh_inv:
  assumes "FragID m < FragCount m"
  shows "defrag_inv \<lparr>pktID = PacketID m,
    frags = (replicate (unat (FragCount m)) None)[unat (FragID m) := Some m],
    count = 1, size = length (Data m)\<rparr>"
proof -
  have "unat (FragCount m) < 2 ^ LENGTH(8)" by (rule unsigned_less)
  moreover have "unat (FragID m) < unat (FragCount m)" using assms by (simp add: word_less_nat_alt)
  ultimately show ?thesis
    by (simp add: defrag_inv_def filled_update filled_replicate data_len_update)
      (simp add: sum_list_replicate data_len_def)
qed

text \<open>The step that fills an empty slot of the current packet.\<close>

lemma fill_inv:
  assumes inv: "defrag_inv d" and i: "i < length (frags d)" "frags d ! i = None"
  shows "defrag_inv (d\<lparr>frags := (frags d)[i := Some m], count := count d + 1,
      size := size d + length (Data m)\<rparr>)"
    and "unat (count d + 1) = Suc (filled (frags d))"
    and "size d + length (Data m) = sum_list (map data_len ((frags d)[i := Some m]))"
proof -
  have none: "None \<in> set (frags d)" using i by (metis nth_mem)
  have c: "unat (count d) = filled (frags d)" "length (frags d) \<le> 255"
    and s: "size d = sum_list (map data_len (frags d))"
    using inv none by (auto simp: defrag_inv_def)
  have "filled (frags d) \<noteq> length (frags d)" using none by (simp add: filled_all)
  then have "filled (frags d) < 255" using filled_le [of "frags d"] c by simp
  then show u: "unat (count d + 1) = Suc (filled (frags d))"
    using c by (simp add: unat_word_ariths)
  show sz: "size d + length (Data m) = sum_list (map data_len ((frags d)[i := Some m]))"
    using i by (simp add: data_len_update s)
  show "defrag_inv (d\<lparr>frags := (frags d)[i := Some m], count := count d + 1,
      size := size d + length (Data m)\<rparr>)"
    using i c by (simp add: defrag_inv_def u sz filled_update)
qed

lemma Feed_inv:
  assumes inv: "defrag_inv d"
  shows "\<exists>d' r. Feed d m = Some (d', r) \<and> defrag_inv d'"
proof (cases "FragCount m \<le> 1 \<or> FragID m \<ge> FragCount m")
  case True
  then show ?thesis using inv by (auto simp: Feed_def)
next
  case ok: False
  then have lt: "FragID m < FragCount m" by (simp add: not_le)
  show ?thesis
  proof (cases "PacketID m \<noteq> pktID d \<or> FragCount m \<noteq> word_of_nat (length (frags d))")
    case True
    with ok fresh_inv [OF lt] show ?thesis by (auto simp: Feed_def)
  next
    case same: False
    let ?i = "unat (FragID m)"
    have "unat (FragCount m) = length (frags d)"
      using inv same by (simp add: defrag_inv_def unat_of_nat)
    then have i: "?i < length (frags d)" using lt by (simp add: word_less_nat_alt)
    let ?d = "d\<lparr>frags := (frags d)[?i := Some m], count := count d + 1,
      size := size d + length (Data m)\<rparr>"
    show ?thesis
    proof (cases "frags d ! ?i = None")
      case False
      then show ?thesis using ok same i inv by (auto simp: Feed_def)
    next
      case None: True
      note f1 = fill_inv(1) [OF inv i None, of m] and f2 = fill_inv(2) [OF inv i None]
        and f3 = fill_inv(3) [OF inv i None, of m]
      show ?thesis
      proof (cases "unat (count d + 1) = length (frags d)")
        case False
        then show ?thesis using ok same i None f1 by (auto simp: Feed_def Let_def)
      next
        case True
        then have full: "None \<notin> set ((frags d)[?i := Some m])"
          using f2 i None by (simp flip: filled_all add: filled_update)
        then have "assemble ((frags d)[?i := Some m]) (replicate (size d + length (Data m)) 0) 0 =
            Some (concat (map (Data \<circ> the) ((frags d)[?i := Some m])))"
          unfolding f3 by (rule assemble_complete)
        moreover have "None \<notin> set ((frags d)[?i := Some m'])" for m'
          using full i by (auto simp: set_update_distinct in_set_conv_nth nth_list_update split: if_splits)
        moreover have "defrag_inv (?d\<lparr>frags := (frags d)[?i := Some m']\<rparr>)"
          if "None \<notin> set ((frags d)[?i := Some m'])" for m'
          using f1 that i None by (simp add: defrag_inv_def filled_update)
        ultimately show ?thesis
          using ok same i None True by (auto simp: Feed_def Let_def)
      qed
    qed
  qed
qed


section \<open>Reassembly\<close>

fun feed_all :: "defragger \<Rightarrow> udp_message list \<Rightarrow> (defragger \<times> udp_message option list) option" where
  "feed_all d [] = Some (d, [])"
| "feed_all d (m # ms) =
     (case Feed d m of
        None \<Rightarrow> None
      | Some (d, r) \<Rightarrow>
          (case feed_all d ms of None \<Rightarrow> None | Some (d, rs) \<Rightarrow> Some (d, r # rs)))"

lemma feed_all_inv:
  "defrag_inv d \<Longrightarrow> \<exists>d' rs. feed_all d ms = Some (d', rs) \<and> defrag_inv d' \<and> length rs = length ms"
proof (induction ms arbitrary: d)
  case (Cons m ms)
  then obtain d1 r where 1: "Feed d m = Some (d1, r)" "defrag_inv d1" using Feed_inv by blast
  from Cons.IH [OF 1(2)] obtain d2 rs where "feed_all d1 ms = Some (d2, rs)" "defrag_inv d2"
    "length rs = length ms" by blast
  with 1 show ?case by simp
qed simp

lemma defrag_inv_new: "defrag_inv new_defragger"
  by (simp add: defrag_inv_def new_defragger_def filled_def)

text \<open>The message a receiver gets back.\<close>

definition whole :: "udp_message \<Rightarrow> udp_message" where
  "whole m = m\<lparr>FragID := 0, FragCount := 1\<rparr>"

definition slots :: "nat \<Rightarrow> udp_message \<Rightarrow> nat set \<Rightarrow> udp_message option list" where
  "slots mps m S = map (\<lambda>i. if i \<in> S then Some (fragment mps (word_of_nat (nfrags mps m)) m i) else None)
     [0..<nfrags mps m]"

text \<open>The defragmenter while it holds the fragments \<open>S\<close> of \<open>m\<close>.\<close>

definition holds_frags :: "nat \<Rightarrow> udp_message \<Rightarrow> nat set \<Rightarrow> defragger \<Rightarrow> bool" where
  "holds_frags mps m S d \<longleftrightarrow> defrag_inv d \<and> pktID d = PacketID m \<and>
     length (frags d) = nfrags mps m \<and>
     (if S = {..<nfrags mps m} then None \<notin> set (frags d) else frags d = slots mps m S)"

abbreviation nth_frag :: "nat \<Rightarrow> udp_message \<Rightarrow> nat \<Rightarrow> udp_message" where
  "nth_frag mps m i \<equiv> fragment mps (word_of_nat (nfrags mps m)) m i"

lemma length_slots [simp]: "length (slots mps m S) = nfrags mps m"
  by (simp add: slots_def)

lemma slots_insert:
  "i < nfrags mps m \<Longrightarrow> (slots mps m S)[i := Some (nth_frag mps m i)] = slots mps m (insert i S)"
  by (rule nth_equalityI) (auto simp: slots_def nth_list_update)

lemma slots_complete:
  "0 < mps \<Longrightarrow> concat (map (Data \<circ> the) (slots mps m {..<nfrags mps m})) = Data m"
proof -
  assume "0 < mps"
  have "map (Data \<circ> the) (slots mps m {..<nfrags mps m}) =
      map Data (map (nth_frag mps m) [0..<nfrags mps m])"
    by (simp add: slots_def)
  with concat_fragments [OF \<open>0 < mps\<close>] show ?thesis by metis
qed

text \<open>A message that needs more than one fragment, and no more than a \<open>uint8\<close> can count.\<close>

definition fragmented :: "nat \<Rightarrow> udp_message \<Rightarrow> bool" where
  "fragmented mps m \<longleftrightarrow> 0 < mps \<and> 2 \<le> nfrags mps m \<and> nfrags mps m \<le> 255"

lemma fragmentedD:
  assumes "fragmented mps m"
  shows "0 < mps" "2 \<le> nfrags mps m" "nfrags mps m \<le> 255"
  using assms by (simp_all add: fragmented_def)

lemma count_word:
  assumes fr: "fragmented mps m"
  shows "unat (word_of_nat (nfrags mps m) :: byte) = (nfrags mps m)" "\<not> (word_of_nat (nfrags mps m) :: byte) \<le> 1"
  using fragmentedD [OF fr] by (simp_all add: unat_of_nat word_le_nat_alt)

lemma frag_fields:
  assumes fr: "fragmented mps m" and "i < (nfrags mps m)"
  shows "unat (FragID (nth_frag mps m i)) = i" "FragCount (nth_frag mps m i) = word_of_nat (nfrags mps m)"
    "PacketID (nth_frag mps m i) = PacketID m" "\<not> FragCount (nth_frag mps m i) \<le> FragID (nth_frag mps m i)"
  using assms fragmentedD [OF fr] count_word [OF fr] by (simp_all add: fragment_def unat_of_nat word_le_nat_alt)

lemma feed_first:
  assumes fm: "fragmented mps m" and inv: "defrag_inv d" and i: "i < (nfrags mps m)" and new: "\<not> (pktID d = PacketID m \<and> length (frags d) = (nfrags mps m))"
  shows "\<exists>d'. Feed d (nth_frag mps m i) = Some (d', None) \<and> holds_frags mps m {i} d'"
proof -
  note f = frag_fields [OF fm i] and count_word = count_word [OF fm] and n_ge = fragmentedD(2) [OF fm]
    and mps_pos = fragmentedD(1) [OF fm]
  have "unat (word_of_nat (length (frags d)) :: byte) = length (frags d)"
    using inv by (simp add: defrag_inv_def unat_of_nat)
  then have "(word_of_nat (nfrags mps m) :: byte) \<noteq> word_of_nat (length (frags d)) \<or> (nfrags mps m) = length (frags d)"
    using count_word(1) by metis
  then have branch: "PacketID m \<noteq> pktID d \<or> (word_of_nat (nfrags mps m) :: byte) \<noteq> word_of_nat (length (frags d))"
    using new by auto
  let ?d = "\<lparr>pktID = PacketID m, frags = (replicate (nfrags mps m) None)[i := Some (nth_frag mps m i)],
    count = 1, size = length (Data (nth_frag mps m i))\<rparr>"
  have "Feed d (nth_frag mps m i) = Some (?d, None)"
    using branch f count_word by (auto simp: Feed_def)
  moreover have "defrag_inv ?d"
    using fresh_inv [of "nth_frag mps m i"] f count_word by (simp add: not_le)
  moreover have "replicate (nfrags mps m) None = slots mps m {}"
    by (simp add: slots_def map_replicate_const)
  moreover have "{i} \<noteq> {..<(nfrags mps m)}" using n_ge
    by (metis card.empty card_insert_disjoint card_lessThan finite.emptyI empty_iff
        One_nat_def Suc_1 not_less_eq_eq le_refl)
  ultimately show ?thesis using i by (simp add: holds_frags_def slots_insert)
qed

lemma feed_next:
  assumes fm: "fragmented mps m" and h: "holds_frags mps m S d" and i: "i < (nfrags mps m)" and S: "S \<subseteq> {..<(nfrags mps m)}"
  shows "\<exists>d'. Feed d (nth_frag mps m i) =
      Some (d', if S \<noteq> {..<(nfrags mps m)} \<and> insert i S = {..<(nfrags mps m)} then Some (whole m) else None) \<and>
    holds_frags mps m (insert i S) d'"
proof -
  note f = frag_fields [OF fm i] and count_word = count_word [OF fm] and n_ge = fragmentedD(2) [OF fm]
    and mps_pos = fragmentedD(1) [OF fm]
  have inv: "defrag_inv d" and d: "pktID d = PacketID m" "length (frags d) = (nfrags mps m)"
    using h by (auto simp: holds_frags_def)
  let ?m = "nth_frag mps m i"
  show ?thesis
  proof (cases "i \<in> S")
    case True
    then have "frags d ! i \<noteq> None"
    proof (cases "S = {..<(nfrags mps m)}")
      case True
      then have "None \<notin> set (frags d)" using h by (simp add: holds_frags_def)
      then show ?thesis using i d by (metis nth_mem)
    next
      case False
      then show ?thesis using h i \<open>i \<in> S\<close> by (simp add: holds_frags_def slots_def)
    qed
    then obtain x where "frags d ! i = Some x" by blast
    then have "Feed d ?m = Some (d, None)"
      using f count_word d i by (simp add: Feed_def)
    with h True show ?thesis by (simp add: insert_absorb)
  next
    case False
    then have ne: "S \<noteq> {..<(nfrags mps m)}" using i by auto
    then have fr: "frags d = slots mps m S" using h by (simp add: holds_frags_def)
    then have none: "frags d ! i = None" using False i by (simp add: slots_def)
    have up: "(frags d)[i := Some ?m] = slots mps m (insert i S)"
      using i by (simp add: fr slots_insert)
    have il: "i < length (frags d)" using i d by simp
    note fl1 = fill_inv(1) [OF inv il none, of ?m] and fl2 = fill_inv(2) [OF inv il none]
      and fl3 = fill_inv(3) [OF inv il none, of ?m]
    have full: "filled (slots mps m (insert i S)) = (nfrags mps m) \<longleftrightarrow> insert i S = {..<(nfrags mps m)}"
    proof -
      have "length (slots mps m (insert i S)) = (nfrags mps m)" by (simp add: slots_def)
      then have "filled (slots mps m (insert i S)) = (nfrags mps m) \<longleftrightarrow> None \<notin> set (slots mps m (insert i S))"
        by (metis filled_all)
      also have "\<dots> \<longleftrightarrow> insert i S = {..<(nfrags mps m)}" using S i by (auto simp: slots_def)
      finally show ?thesis .
    qed
    have cnt: "unat (count d + 1) = (nfrags mps m) \<longleftrightarrow> insert i S = {..<(nfrags mps m)}"
      using fl2 filled_update [OF il none, of ?m] full up by simp
    let ?d = "d\<lparr>frags := slots mps m (insert i S), count := count d + 1,
      size := size d + length (Data ?m)\<rparr>"
    have invd: "defrag_inv ?d" using fl1 by (simp add: up)
    show ?thesis
    proof (cases "insert i S = {..<(nfrags mps m)}")
      case False
      then have "Feed d ?m = Some (?d, None)"
        using f count_word d i none cnt by (simp add: Feed_def Let_def up)
      with False invd d show ?thesis by (simp add: holds_frags_def slots_def)
    next
      case True
      have sz: "size d + length (Data ?m) = sum_list (map data_len (slots mps m {..<(nfrags mps m)}))"
        using fl3 True by (simp add: up)
      have nn: "None \<notin> set (slots mps m {..<(nfrags mps m)})" by (auto simp: slots_def)
      have a: "assemble (slots mps m {..<(nfrags mps m)}) (replicate (size d + length (Data ?m)) 0) 0 =
          Some (Data m)"
        unfolding sz using assemble_complete [OF nn] slots_complete [OF mps_pos] by simp
      let ?m' = "?m\<lparr>Data := Data m, FragID := 0, FragCount := 1\<rparr>"
      have w: "?m' = whole m" by (simp add: whole_def fragment_def)
      have "None \<notin> set ((slots mps m {..<(nfrags mps m)})[i := Some (whole m)])"
        using nn set_update_subset_insert [of "slots mps m {..<(nfrags mps m)}" i "Some (whole m)"] by auto
      moreover have "filled ((slots mps m {..<(nfrags mps m)})[i := Some (whole m)]) = filled (slots mps m {..<(nfrags mps m)})"
        using i nn by (intro filled_overwrite) (auto simp: slots_def)
      ultimately have "holds_frags mps m {..<(nfrags mps m)}
          (?d\<lparr>frags := (slots mps m {..<(nfrags mps m)})[i := Some (whole m)]\<rparr>)"
        using invd [unfolded True] d(1) by (simp add: holds_frags_def defrag_inv_def True)
      moreover have "Feed d ?m = Some (?d\<lparr>frags := (slots mps m {..<(nfrags mps m)})[i := Some (whole m)]\<rparr>,
          Some (whole m))"
        using f count_word d i none cnt True a by (simp add: Feed_def Let_def up w)
      ultimately show ?thesis unfolding True using ne by auto
    qed
  qed
qed

lemma feed_all_indices:
  assumes fm: "fragmented mps m" and "holds_frags mps m S d" "S \<subseteq> {..<(nfrags mps m)}" "set is \<subseteq> {..<(nfrags mps m)}"
  shows "\<exists>d' rs. feed_all d (map (nth_frag mps m) is) = Some (d', rs) \<and> length rs = length is \<and>
    (\<forall>k<length is. rs ! k = (if S \<union> set (take k is) \<noteq> {..<(nfrags mps m)} \<and> S \<union> set (take (Suc k) is) = {..<(nfrags mps m)}
       then Some (whole m) else None))"
  using assms(2-)
proof (induction "is" arbitrary: S d)
  case Nil
  then show ?case by simp
next
  case (Cons i js)
  then have i: "i < (nfrags mps m)" by simp
  obtain d1 where 1: "Feed d (nth_frag mps m i) =
      Some (d1, if S \<noteq> {..<(nfrags mps m)} \<and> insert i S = {..<(nfrags mps m)} then Some (whole m) else None)"
    "holds_frags mps m (insert i S) d1"
    using feed_next [OF fm Cons.prems(1) i Cons.prems(2)] by blast
  have "insert i S \<subseteq> {..<(nfrags mps m)}" "set js \<subseteq> {..<(nfrags mps m)}" using Cons.prems i by auto
  from Cons.IH [OF 1(2) this] obtain d2 rs where
    2: "feed_all d1 (map (nth_frag mps m) js) = Some (d2, rs)" "length rs = length js" and
    rs: "\<And>k. k < length js \<Longrightarrow> rs ! k =
      (if insert i S \<union> set (take k js) \<noteq> {..<(nfrags mps m)} \<and> insert i S \<union> set (take (Suc k) js) = {..<(nfrags mps m)}
       then Some (whole m) else None)"
    by blast
  let ?r = "if S \<noteq> {..<(nfrags mps m)} \<and> insert i S = {..<(nfrags mps m)} then Some (whole m) else None"
  have "(?r # rs) ! k = (if S \<union> set (take k (i # js)) \<noteq> {..<(nfrags mps m)} \<and>
      S \<union> set (take (Suc k) (i # js)) = {..<(nfrags mps m)} then Some (whole m) else None)"
    if "k < length (i # js)" for k
    using that rs [of "k - 1"] by (cases k) (simp_all add: Un_insert_right)
  then have "\<forall>k<length (i # js). (?r # rs) ! k = (if S \<union> set (take k (i # js)) \<noteq> {..<(nfrags mps m)} \<and>
      S \<union> set (take (Suc k) (i # js)) = {..<(nfrags mps m)} then Some (whole m) else None)" by blast
  moreover have "feed_all d (map (nth_frag mps m) (i # js)) = Some (d2, ?r # rs)"
    by (simp only: feed_all.simps list.map option.case prod.case 1(1) 2)
  moreover have "length (?r # rs) = length (i # js)" by (simp only: list.size 2)
  ultimately show ?case by blast
qed

text \<open>Fragments of one message, as \<open>FragUDPMessage\<close> returns them.\<close>

lemma FragUDPMessage_fragmented:
  assumes "maxSize < int (Size qlen m)" "int (HeaderSize qlen m) < maxSize"
    and "FragUDPMessage qlen m maxSize = Some fs"
  defines "mps \<equiv> nat (maxSize - int (HeaderSize qlen m))"
  shows "fragmented mps m" "fs = map (nth_frag mps m) [0..<nfrags mps m]"
proof -
  note F = FragUDPMessage_too_large [OF assms(1,2) refl, folded mps_def]
  have "0 < mps" "mps < length (Data m)"
    using assms(1,2) by (simp_all add: mps_def Size_def)
  moreover have "1 < nfrags mps m"
    using ceil_div_less [of mps 1 "length (Data m)"] calculation by (simp add: nfrags_def)
  moreover have "nfrags mps m \<le> 255" using F assms(3) by (simp split: if_splits)
  ultimately show "fragmented mps m" by (simp add: fragmented_def)
  show "fs = map (nth_frag mps m) [0..<nfrags mps m]"
    using F assms(3) by (simp split: if_splits)
qed

text \<open>Fragments of one message, fed in any order and with repetitions, give it back once.\<close>

lemma feed_fragments:
  assumes "maxSize < int (Size qlen m)" "int (HeaderSize qlen m) < maxSize"
    and fs: "FragUDPMessage qlen m maxSize = Some fs"
    and inv: "defrag_inv d"
    and new: "\<not> (pktID d = PacketID m \<and> length (frags d) = length fs)"
    and idx: "set is \<subseteq> {..<length fs}"
  shows "\<exists>d' rs. feed_all d (map (\<lambda>i. fs ! i) is) = Some (d', rs) \<and> length rs = length is \<and>
    (\<forall>k<length is. rs ! k =
       (if set (take k is) \<noteq> {..<length fs} \<and> set (take (Suc k) is) = {..<length fs}
        then Some (m\<lparr>FragID := 0, FragCount := 1\<rparr>) else None))"
proof -
  define mps where "mps = nat (maxSize - int (HeaderSize qlen m))"
  note F = FragUDPMessage_fragmented [OF assms(1-3), folded mps_def]
  have len: "length fs = nfrags mps m" by (simp add: F(2))
  have nth: "map (\<lambda>i. fs ! i) is = map (nth_frag mps m) is" using idx by (auto simp: F(2))
  have n2: "2 \<le> nfrags mps m" using fragmentedD(2) [OF F(1)] .
  show ?thesis
  proof (cases "is")
    case Nil
    then show ?thesis by simp
  next
    case (Cons i js)
    have i: "i < nfrags mps m" and js: "set js \<subseteq> {..<nfrags mps m}" using idx len Cons by auto
    obtain d1 where 1: "Feed d (nth_frag mps m i) = Some (d1, None)" "holds_frags mps m {i} d1"
      using feed_first [OF F(1) inv i] new len by auto
    obtain d2 rs where 2: "feed_all d1 (map (nth_frag mps m) js) = Some (d2, rs)"
      "length rs = length js" and rs: "\<And>k. k < length js \<Longrightarrow> rs ! k =
        (if {i} \<union> set (take k js) \<noteq> {..<nfrags mps m} \<and>
            {i} \<union> set (take (Suc k) js) = {..<nfrags mps m} then Some (whole m) else None)"
      using feed_all_indices [OF F(1) 1(2) _ js] i by auto
    have single: "{i} \<noteq> {..<nfrags mps m}"
    proof
      assume "{i} = {..<nfrags mps m}"
      then have "card {i} = card {..<nfrags mps m}" by (rule arg_cong)
      with n2 show False by simp
    qed
    have "(None # rs) ! k = (if set (take k is) \<noteq> {..<nfrags mps m} \<and>
        set (take (Suc k) is) = {..<nfrags mps m} then Some (whole m) else None)"
      if "k < length is" for k
      using that rs [of "k - 1"] Cons single by (cases k) simp_all
    then show ?thesis
      unfolding nth len using 1(1) 2 Cons by (auto simp: whole_def)
  qed
qed

section \<open>Properties\<close>

text \<open>
  C12: A message too large for the datagram limit, with room for at least one byte behind the
  header, is split into \<open>ceil(len / room)\<close> fragments when these are at most 255: they carry the ids
  0, 1, 2, ... and their common count, keep every other field, fit the limit, and concatenate to
  the payload.  When more than 255 would be needed the \<open>uint8\<close> count wraps around and the code
  panics with an index out of range.
\<close>

theorem frag_splits_or_panics:
  assumes "maxSize < int (Size qlen m)" "int (HeaderSize qlen m) < maxSize"
  defines "n \<equiv> nfrags (nat (maxSize - int (HeaderSize qlen m))) m"
  shows "if n \<le> 255
    then \<exists>fs. FragUDPMessage qlen m maxSize = Some fs \<and> length fs = n \<and>
      concat (map Data fs) = Data m \<and>
      (\<forall>i<n. int (Size qlen (fs ! i)) \<le> maxSize \<and>
         fs ! i = m\<lparr>FragID := word_of_nat i, FragCount := word_of_nat n, Data := Data (fs ! i)\<rparr>)
    else FragUDPMessage qlen m maxSize = None"
proof -
  define mps where "mps = nat (maxSize - int (HeaderSize qlen m))"
  have pos: "0 < mps" "int mps = maxSize - int (HeaderSize qlen m)"
    using assms(2) by (simp_all add: mps_def)
  note F = FragUDPMessage_too_large [OF assms(1,2) mps_def]
  have fit: "int (Size qlen (nth_frag mps m i)) \<le> maxSize" for i
    using Size_fragment [of qlen mps _ m i] pos(2) by (simp add: order.trans zle_int [symmetric] del: zle_int)
  show ?thesis
    using F concat_fragments [OF pos(1), of _ m] fit
    by (auto simp: n_def mps_def [symmetric]) (auto simp: fragment_def)
qed

definition long_message :: udp_message where
  "long_message = \<lparr>SessionID = 1, PacketID = 5, FragID = 0, FragCount = 1, Addr = ''a'',
     Data = [1, 2, 3, 4, 5]\<rparr>"

theorem frag_splits_or_panics_witness:
  "nfrags 2 long_message = 3 \<and>
   (\<exists>fs. FragUDPMessage rfc_len long_message 12 = Some fs \<and> length fs = 3 \<and>
      concat (map Data fs) = [1, 2, 3, 4, 5])"
proof -
  have n: "nfrags 2 long_message = 3" by (simp add: nfrags_def long_message_def)
  have s: "Size rfc_len long_message = 15" "HeaderSize rfc_len long_message = 10"
    by (simp_all add: Size_def HeaderSize_def rfc_len_def long_message_def)
  from frag_splits_or_panics [of 12 rfc_len long_message]
  show ?thesis by (auto simp: n s) (simp_all add: long_message_def)
qed

text \<open>
  C13: The defragmenter never panics: from its initial state it accepts any sequence of messages,
  fragments of any packets in any order with any ids and counts, and answers each one.
\<close>

theorem defragger_never_panics:
  "\<exists>d rs. feed_all new_defragger ms = Some (d, rs) \<and> length rs = length ms"
  using feed_all_inv [OF defrag_inv_new] by blast

text \<open>
  C1: Reassembly.  Take a defragmenter with any past that is not already holding a packet with the
  message's id and count, and feed it fragments of the message in any order, with any repetitions.
  Then it answers exactly once with the whole original message, namely with the fragment that
  first completes the set, and with nothing at every other fragment.
\<close>

theorem defragger_reassembles:
  assumes "maxSize < int (Size qlen m)" "int (HeaderSize qlen m) < maxSize"
    and fs: "FragUDPMessage qlen m maxSize = Some fs"
    and past: "feed_all new_defragger earlier = Some (d, outs)"
    and new: "\<not> (pktID d = PacketID m \<and> length (frags d) = length fs)"
    and idx: "set is \<subseteq> {..<length fs}"
  shows "\<exists>d' rs. feed_all d (map (\<lambda>i. fs ! i) is) = Some (d', rs) \<and> length rs = length is \<and>
    (\<forall>k<length is. rs ! k =
       (if set (take k is) \<noteq> {..<length fs} \<and> set (take (Suc k) is) = {..<length fs}
        then Some (m\<lparr>FragID := 0, FragCount := 1\<rparr>) else None))"
proof -
  have "defrag_inv d" using feed_all_inv [OF defrag_inv_new, of earlier] past by simp
  from feed_fragments [OF assms(1-3) this new idx] show ?thesis .
qed

theorem defragger_reassembles_witness:
  "\<exists>fs d rs. FragUDPMessage rfc_len long_message 12 = Some fs \<and>
     feed_all new_defragger (map (\<lambda>i. fs ! i) [2, 0, 0, 1]) = Some (d, rs) \<and>
     rs = [None, None, None, Some long_message]"
proof -
  have s: "Size rfc_len long_message = 15" "HeaderSize rfc_len long_message = 10"
    by (simp_all add: Size_def HeaderSize_def rfc_len_def long_message_def)
  have n: "nfrags 2 long_message = 3" by (simp add: nfrags_def long_message_def)
  obtain fs where fs: "FragUDPMessage rfc_len long_message 12 = Some fs" "length fs = 3"
    using FragUDPMessage_too_large [of 12 rfc_len long_message 2] by (auto simp: s n)
  have "\<exists>d' rs. feed_all new_defragger (map (\<lambda>i. fs ! i) [2, 0, 0, 1]) = Some (d', rs) \<and>
      length rs = length [2, 0, 0, 1 :: nat] \<and>
      (\<forall>k<length [2, 0, 0, 1 :: nat]. rs ! k =
         (if set (take k [2, 0, 0, 1]) \<noteq> {..<length fs} \<and>
             set (take (Suc k) [2, 0, 0, 1]) = {..<length fs}
          then Some (long_message\<lparr>FragID := 0, FragCount := 1\<rparr>) else None))"
    by (rule defragger_reassembles [where earlier = "[]" and maxSize = 12 and qlen = rfc_len])
      (simp_all add: s fs, simp add: new_defragger_def)
  then obtain d rs where r: "feed_all new_defragger (map (\<lambda>i. fs ! i) [2, 0, 0, 1]) = Some (d, rs)"
    "length rs = 4" and nth: "\<And>k. k < 4 \<Longrightarrow> rs ! k =
       (if set (take k [2, 0, 0, 1]) \<noteq> {..<length fs} \<and>
           set (take (Suc k) [2, 0, 0, 1]) = {..<length fs}
        then Some (long_message\<lparr>FragID := 0, FragCount := 1\<rparr>) else None)"
    by auto
  have part: "set (take k [2, 0, 0, 1]) \<noteq> {..<length fs}" if "k \<le> 3" for k
  proof -
    have "1 \<notin> set (take 3 [2, 0, 0, 1 :: nat])" by simp
    moreover have "set (take k [2, 0, 0, 1 :: nat]) \<subseteq> set (take 3 [2, 0, 0, 1])"
      using that by (rule set_take_subset_set_take)
    moreover have "1 \<in> {..<length fs}" using fs(2) by simp
    ultimately show ?thesis by blast
  qed
  have all: "set (take 4 [2, 0, 0, 1]) = {..<length fs}" using fs(2) by auto
  obtain a b c e where abce: "rs = [a, b, c, e]"
    using r(2) by (auto simp: length_Suc_conv numeral_eq_Suc)
  have "a = None" using nth [of 0] part [of 1] by (simp add: abce)
  moreover have "b = None" using nth [of 1] part [of 2] by (simp add: abce numeral_2_eq_2)
  moreover have "c = None" using nth [of 2] part [of 3] by (simp add: abce numeral_3_eq_3)
  moreover have "rs ! 3 = Some (long_message\<lparr>FragID := 0, FragCount := 1\<rparr>)"
    using nth [of 3] part [of 3] all by simp
  then have "e = Some long_message" by (simp add: abce long_message_def)
  ultimately show ?thesis using fs(1) r(1) abce by blast
qed

end
