(* ===== verification/Server_Udp.thy ===== *)
theory Server_Udp
  imports Udp_Frag "HOL-Library.AList"
begin

text \<open>
  \<open>core/server/udp.go\<close>: the UDP session entry (defragmentation, lazy dialling with the request
  hook, the per-session cache of outbound policy decisions) and the session manager (session
  table, cap, idle cleanup loop, shutdown), the latter as atomic steps at the granularity of the
  code's locks, because the receive loops, the cleanup loop and the manager's own loop interleave.

  What the entry asks of the outside (the hook, the outbound, the policy, the clock, the random
  iteration order of Go maps) is the environment \<open>udp_env\<close> of the call.  Calls that leave an
  observable trace are returned as a list of effects.
\<close>

section \<open>The session entry\<close>

type_synonym err = string

record udp_env =
  env_now :: int
  env_hook :: "bytes \<Rightarrow> string \<Rightarrow> err option \<times> string"
  env_dial :: "string \<Rightarrow> err + nat"
  env_check :: "string \<Rightarrow> err option"
  env_write :: "nat \<Rightarrow> bytes \<Rightarrow> string \<Rightarrow> int \<times> err option"
  env_evict :: nat

datatype udp_effect =
    EvNew u32 string
  | EvClose u32 "err option"
  | Dialed string nat
  | ConnClosed nat
  | Wrote nat bytes string
  | StartReceive
  | ExitCall "err option"

type_synonym acl_cache = "(string \<times> err option) list"

record udp_entry =
  ID :: u32
  OverrideAddr :: string
  OriginalAddr :: string
  D :: defragger
  Last :: int
  conn :: "nat option"
  closed :: bool
  aclCache :: "acl_cache option"

definition maxSessionACLCache :: nat where "maxSessionACLCache = 256"

definition newUDPSessionEntry :: "u32 \<Rightarrow> int \<Rightarrow> udp_entry" where
  "newUDPSessionEntry sid now =
     \<lparr>ID = sid, OverrideAddr = [], OriginalAddr = [], D = new_defragger, Last = now,
      conn = None, closed = False, aclCache = None\<rparr>"

definition CloseWithErr :: "udp_entry \<Rightarrow> err option \<Rightarrow> udp_entry \<times> udp_effect list" where
  "CloseWithErr e err =
     (if closed e then (e, [])
      else (e\<lparr>closed := True\<rparr>,
            (case conn e of None \<Rightarrow> [] | Some c \<Rightarrow> [ConnClosed c]) @ [ExitCall err]))"

text \<open>The policy cache: \<open>None\<close> is Go's nil map, a list of pairs with distinct keys a map.\<close>

definition cache_get :: "acl_cache option \<Rightarrow> string \<Rightarrow> err option option" where
  "cache_get c k = (case c of None \<Rightarrow> None | Some al \<Rightarrow> map_of al k)"

definition cache_evict :: "nat \<Rightarrow> acl_cache option \<Rightarrow> acl_cache option" where
  "cache_evict i c =
     (case c of
        None \<Rightarrow> None
      | Some al \<Rightarrow> Some (if al = [] then [] else AList.delete (fst (al ! (i mod length al))) al))"

definition cache_len :: "acl_cache option \<Rightarrow> nat" where
  "cache_len c = (case c of None \<Rightarrow> 0 | Some al \<Rightarrow> length al)"

definition checkAddr :: "udp_env \<Rightarrow> udp_entry \<Rightarrow> string \<Rightarrow> udp_entry \<times> err option" where
  "checkAddr env e addr =
     (case cache_get (aclCache e) addr of
        Some decision \<Rightarrow> (e, decision)
      | None \<Rightarrow>
          (let decision = env_check env addr;
               c = (if cache_len (aclCache e) \<ge> maxSessionACLCache
                    then cache_evict (env_evict env) (aclCache e) else aclCache e);
               c = (case c of None \<Rightarrow> [] | Some al \<Rightarrow> al)
           in (e\<lparr>aclCache := Some (AList.update addr decision c)\<rparr>, decision)))"

text \<open>The closure \<open>dialFunc\<close> that the manager's \<open>feed\<close> installs: hook, event, dial.\<close>

definition dialFunc :: "udp_env \<Rightarrow> u32 \<Rightarrow> string \<Rightarrow> bytes \<Rightarrow> udp_effect list \<times> (err + nat \<times> string)" where
  "dialFunc env sid addr firstMsgData =
     (case env_hook env firstMsgData addr of
        (Some err, _) \<Rightarrow> ([], Inl err)
      | (None, addr) \<Rightarrow>
          (case env_dial env addr of
             Inl err \<Rightarrow> ([EvNew sid addr], Inl err)
           | Inr c \<Rightarrow> ([EvNew sid addr, Dialed addr c], Inr (c, addr))))"

definition initConn ::
  "udp_env \<Rightarrow> udp_entry \<Rightarrow> udp_message \<Rightarrow> udp_entry \<times> udp_effect list \<times> err option" where
  "initConn env e firstMsg =
     (if closed e then (e, [], Some ''session is closed'')
      else
        (case dialFunc env (ID e) (Addr firstMsg) (Data firstMsg) of
           (evs, Inl err) \<Rightarrow>
             (let (e, evs') = CloseWithErr e (Some err) in (e, evs @ evs', Some err))
         | (evs, Inr (c, actualAddr)) \<Rightarrow>
             (let e = e\<lparr>conn := Some c\<rparr>;
                  e = (if Addr firstMsg \<noteq> actualAddr
                       then e\<lparr>OverrideAddr := actualAddr, OriginalAddr := Addr firstMsg\<rparr> else e)
              in (e, evs @ [StartReceive], None))))"

text \<open>The part of \<open>Feed\<close> behind the connection set-up: policy check and write.\<close>

definition feed_write ::
  "udp_env \<Rightarrow> udp_entry \<Rightarrow> udp_message \<Rightarrow> (udp_entry \<times> udp_effect list \<times> int \<times> err option) option" where
  "feed_write env e dfMsg =
     (let (e, addr, err) =
        (if OverrideAddr e \<noteq> [] then (e, OverrideAddr e, None)
         else (let (e, err) = checkAddr env e (Addr dfMsg) in (e, Addr dfMsg, err)))
      in (case err of
            Some err \<Rightarrow> Some (e, [], 0, Some err)
          | None \<Rightarrow>
              (case conn e of
                 None \<Rightarrow> None
               | Some c \<Rightarrow>
                   (let (n, err) = env_write env c (Data dfMsg) addr
                    in Some (e, [Wrote c (Data dfMsg) addr], n, err)))))"

text \<open>\<open>None\<close> is a panic: of the defragmenter, or the call of a method of a nil connection.\<close>

definition entry_Feed ::
  "udp_env \<Rightarrow> udp_entry \<Rightarrow> udp_message \<Rightarrow> (udp_entry \<times> udp_effect list \<times> int \<times> err option) option" where
  "entry_Feed env e msg =
     (let e = e\<lparr>Last := env_now env\<rparr>
      in (case Feed (D e) msg of
            None \<Rightarrow> None
          | Some (d, None) \<Rightarrow> Some (e\<lparr>D := d\<rparr>, [], 0, None)
          | Some (d, Some dfMsg) \<Rightarrow>
              (let e = e\<lparr>D := d\<rparr>
               in if conn e = None then
                    (case initConn env e dfMsg of
                       (e, evs, Some err) \<Rightarrow> Some (e, evs, 0, Some err)
                     | (e, evs, None) \<Rightarrow>
                         (let e = (if OverrideAddr e = [] then e\<lparr>aclCache := Some [(Addr dfMsg, None)]\<rparr>
                                   else e)
                          in (case feed_write env e dfMsg of
                                None \<Rightarrow> None
                              | Some (e, evs', n, err) \<Rightarrow> Some (e, evs @ evs', n, err))))
                  else feed_write env e dfMsg)))"

section \<open>Sending towards the client\<close>

datatype send_result = SendOk | TooLarge int | SendErr err

text \<open>\<open>SendMessage\<close> of the \<open>udpIO\<close> interface is state passing: \<open>send s m\<close> gives the new state of
  the link and its answer.  The loop over the fragments stops at the first error.\<close>

fun send_frags ::
  "('s \<Rightarrow> udp_message \<Rightarrow> 's \<times> send_result) \<Rightarrow> 's \<Rightarrow> udp_message list \<Rightarrow> 's \<times> send_result" where
  "send_frags send s [] = (s, SendOk)"
| "send_frags send s (f # fs) =
     (case send s f of
        (s, SendOk) \<Rightarrow> send_frags send s fs
      | (s, r) \<Rightarrow> (s, r))"

definition randPacketID :: "nat \<Rightarrow> u16" where
  "randPacketID draw = word_of_nat (intn draw 0xFFFF) + 1"

definition sendMessageAutoFrag ::
  "(u64w \<Rightarrow> nat) \<Rightarrow> ('s \<Rightarrow> udp_message \<Rightarrow> 's \<times> send_result) \<Rightarrow> nat \<Rightarrow> 's \<Rightarrow> udp_message
     \<Rightarrow> ('s \<times> send_result) option" where
  "sendMessageAutoFrag qlen send draw s msg =
     (case send s msg of
        (s, TooLarge maxSize) \<Rightarrow>
          (let msg = msg\<lparr>PacketID := randPacketID draw\<rparr>
           in (case FragUDPMessage qlen msg maxSize of
                 None \<Rightarrow> None
               | Some fMsgs \<Rightarrow> Some (send_frags send s fMsgs)))
      | (s, r) \<Rightarrow> Some (s, r))"

text \<open>One iteration of \<open>receiveLoop\<close>: what \<open>ReadFrom\<close> returned, and the message it makes of it.\<close>

definition reply_message :: "udp_entry \<Rightarrow> bytes \<Rightarrow> string \<Rightarrow> udp_message" where
  "reply_message e d rAddr =
     \<lparr>SessionID = ID e, PacketID = 0, FragID = 0, FragCount = 1,
      Addr = (if OriginalAddr e \<noteq> [] then OriginalAddr e else rAddr), Data = d\<rparr>"

definition receiveLoop_step ::
  "(u64w \<Rightarrow> nat) \<Rightarrow> ('s \<Rightarrow> udp_message \<Rightarrow> 's \<times> send_result) \<Rightarrow> nat \<Rightarrow> int \<Rightarrow> 's \<Rightarrow> udp_entry
     \<Rightarrow> err + bytes \<times> string \<Rightarrow> ('s \<times> udp_entry \<times> udp_effect list \<times> bool) option" where
  "receiveLoop_step qlen send draw now s e rd =
     (case rd of
        Inl err \<Rightarrow> (let (e, evs) = CloseWithErr e (Some err) in Some (s, e, evs, False))
      | Inr (d, rAddr) \<Rightarrow>
          (let e = e\<lparr>Last := now\<rparr>
           in (case sendMessageAutoFrag qlen send draw s (reply_message e (take MaxUDPSize d) rAddr) of
                 None \<Rightarrow> None
               | Some (s, SendOk) \<Rightarrow> Some (s, e, [], True)
               | Some (s, SendErr err) \<Rightarrow>
                   (let (e, evs) = CloseWithErr e (Some err) in Some (s, e, evs, False))
               | Some (s, TooLarge n) \<Rightarrow>
                   (let (e, evs) = CloseWithErr e (Some ''datagram too large'')
                    in Some (s, e, evs, False)))))"


section \<open>Entry invariants\<close>

fun entry_run ::
  "udp_entry \<Rightarrow> (udp_env \<times> udp_message) list \<Rightarrow> (udp_entry \<times> udp_effect list) option" where
  "entry_run e [] = Some (e, [])"
| "entry_run e ((env, m) # ins) =
     (case entry_Feed env e m of
        None \<Rightarrow> None
      | Some (e, evs, n, err) \<Rightarrow>
          (case entry_run e ins of None \<Rightarrow> None | Some (e, evs') \<Rightarrow> Some (e, evs @ evs')))"

text \<open>
  \<open>permitted chk evs a\<close>: the address may be written to, because the policy accepts it or because
  the outbound itself accepted a dial to it.
\<close>

definition permitted :: "(string \<Rightarrow> err option) \<Rightarrow> udp_effect list \<Rightarrow> string \<Rightarrow> bool" where
  "permitted chk evs a \<longleftrightarrow> chk a = None \<or> (\<exists>c. Dialed a c \<in> set evs)"

definition cache_ok :: "(string \<Rightarrow> err option) \<Rightarrow> udp_effect list \<Rightarrow> acl_cache \<Rightarrow> bool" where
  "cache_ok chk evs al \<longleftrightarrow> distinct (map fst al) \<and> length al \<le> maxSessionACLCache \<and>
     (\<forall>(a, d) \<in> set al. d = None \<longrightarrow> permitted chk evs a)"

definition entry_ok :: "(string \<Rightarrow> err option) \<Rightarrow> udp_effect list \<Rightarrow> udp_entry \<Rightarrow> bool" where
  "entry_ok chk evs e \<longleftrightarrow> defrag_inv (D e) \<and>
     (\<forall>al. aclCache e = Some al \<longrightarrow> cache_ok chk evs al) \<and>
     (OverrideAddr e \<noteq> [] \<longrightarrow> permitted chk evs (OverrideAddr e))"

lemma permitted_mono: "permitted chk evs a \<Longrightarrow> set evs \<subseteq> set evs' \<Longrightarrow> permitted chk evs' a"
  by (auto simp: permitted_def)

lemma cache_ok_mono: "cache_ok chk evs al \<Longrightarrow> set evs \<subseteq> set evs' \<Longrightarrow> cache_ok chk evs' al"
  unfolding cache_ok_def using permitted_mono by blast

lemma entry_ok_mono: "entry_ok chk evs e \<Longrightarrow> set evs \<subseteq> set evs' \<Longrightarrow> entry_ok chk evs' e"
  unfolding entry_ok_def using permitted_mono cache_ok_mono by blast

lemma entry_ok_new: "entry_ok chk [] (newUDPSessionEntry sid now)"
  by (simp add: entry_ok_def newUDPSessionEntry_def defrag_inv_new)

lemma length_delete_present:
  "distinct (map fst al) \<Longrightarrow> k \<in> fst ` set al \<Longrightarrow> Suc (length (AList.delete k al)) = length al"
proof (induction al)
  case (Cons x al)
  show ?case
  proof (cases "fst x = k")
    case True
    then have "k \<notin> fst ` set al" using Cons.prems by auto
    then have "AList.delete k al = al" by (rule delete_id)
    with True show ?thesis by (cases x) (simp add: AList.delete_eq)
  next
    case False
    with Cons show ?thesis by (auto simp: AList.delete_eq)
  qed
qed simp

lemma length_update_le: "length (AList.update k v al) \<le> Suc (length al)"
  by (induction al) auto

lemma set_update_subset: "set (AList.update k v al) \<subseteq> insert (k, v) (set al)"
  by (induction al) auto

lemma set_delete_subset: "set (AList.delete k al) \<subseteq> set al"
  by (auto simp: AList.delete_eq)

lemma distinct_delete: "distinct (map fst al) \<Longrightarrow> distinct (map fst (AList.delete k al))"
  by (metis AList.distinct_delete)

text \<open>Eviction makes room in a full cache.\<close>

lemma cache_evict_ok:
  assumes "cache_ok chk evs al" "al \<noteq> []"
  shows "\<exists>al'. cache_evict i (Some al) = Some al' \<and> cache_ok chk evs al' \<and> length al' < maxSessionACLCache"
proof -
  let ?k = "fst (al ! (i mod length al))"
  let ?al = "AList.delete ?k al"
  have "i mod length al < length al" using assms(2) by simp
  then have "?k \<in> fst ` set al" by simp
  then have "Suc (length ?al) = length al"
    using assms by (simp add: length_delete_present cache_ok_def)
  then have len: "length ?al < maxSessionACLCache" using assms(1) by (simp add: cache_ok_def)
  have "cache_ok chk evs ?al"
    using assms(1) len set_delete_subset [of ?k al]
    by (auto simp: cache_ok_def distinct_delete)
  with len show ?thesis using assms(2) by (simp add: cache_evict_def)
qed

lemma cache_insert_ok:
  assumes "cache_ok chk evs al" "length al < maxSessionACLCache"
    and "d = None \<Longrightarrow> permitted chk evs a"
  shows "cache_ok chk evs (AList.update a d al)"
  using assms length_update_le [of a d al] set_update_subset [of a d al]
  by (auto simp: cache_ok_def distinct_update)

lemma checkAddr_ok:
  assumes ok: "entry_ok chk evs e" and chk: "\<And>a. env_check env a = None \<Longrightarrow> chk a = None"
    and r: "checkAddr env e a = (e', err)"
  shows "entry_ok chk evs e'" "conn e' = conn e" "err = None \<Longrightarrow> permitted chk evs a"
    "ID e' = ID e" "closed e' = closed e"
proof -
  have "entry_ok chk evs e' \<and> conn e' = conn e \<and> (err = None \<longrightarrow> permitted chk evs a) \<and>
    ID e' = ID e \<and> closed e' = closed e"
  proof (cases "cache_get (aclCache e) a")
    case (Some d)
    then obtain al where al: "aclCache e = Some al" "map_of al a = Some d"
      by (auto simp: cache_get_def split: option.splits)
    with ok have "d = None \<Longrightarrow> permitted chk evs a"
      by (fastforce simp: entry_ok_def cache_ok_def dest: map_of_SomeD)
    with Some ok r show ?thesis by (auto simp: checkAddr_def)
  next
    case None
    define c where "c = (if cache_len (aclCache e) \<ge> maxSessionACLCache
                    then cache_evict (env_evict env) (aclCache e) else aclCache e)"
    define al where "al = (case c of None \<Rightarrow> [] | Some al \<Rightarrow> al)"
    have al: "cache_ok chk evs al \<and> length al < maxSessionACLCache"
    proof (cases "aclCache e")
      case None
      then show ?thesis
        by (simp add: al_def c_def cache_evict_def cache_len_def cache_ok_def maxSessionACLCache_def)
    next
      case (Some xs)
      then have xs: "cache_ok chk evs xs" using ok by (simp add: entry_ok_def)
      show ?thesis
      proof (cases "length xs \<ge> maxSessionACLCache")
        case True
        then have "xs \<noteq> []" by (auto simp: maxSessionACLCache_def)
        from cache_evict_ok [OF xs this, of "env_evict env"] True Some show ?thesis
          by (auto simp: al_def c_def cache_len_def)
      next
        case False
        with xs Some show ?thesis by (simp add: al_def c_def cache_len_def)
      qed
    qed
    have "checkAddr env e a =
        (e\<lparr>aclCache := Some (AList.update a (env_check env a) al)\<rparr>, env_check env a)"
      unfolding checkAddr_def Let_def c_def al_def using None by simp
    then have res: "e' = e\<lparr>aclCache := Some (AList.update a (env_check env a) al)\<rparr>"
      "err = env_check env a"
      using r by simp_all
    have "cache_ok chk evs (AList.update a (env_check env a) al)"
      using al chk by (intro cache_insert_ok) (auto simp: permitted_def)
    with res ok chk show ?thesis by (auto simp: entry_ok_def permitted_def)
  qed
  then show "entry_ok chk evs e'" "conn e' = conn e" "err = None \<Longrightarrow> permitted chk evs a"
    "ID e' = ID e" "closed e' = closed e" by auto
qed

lemma feed_write_ok:
  assumes ok: "entry_ok chk evs e" and chk: "\<And>a. env_check env a = None \<Longrightarrow> chk a = None"
    and c: "conn e \<noteq> None"
  shows "\<exists>e' evs' n err. feed_write env e m = Some (e', evs', n, err) \<and> entry_ok chk evs e' \<and>
    conn e' = conn e \<and> ID e' = ID e \<and> closed e' = closed e \<and>
    (\<forall>x \<in> set evs'. \<exists>c d a. x = Wrote c d a \<and> permitted chk evs a)"
proof (cases "OverrideAddr e \<noteq> []")
  case True
  then show ?thesis using ok c by (auto simp: feed_write_def entry_ok_def split: prod.splits)
next
  case False
  obtain e1 err where 1: "checkAddr env e (Addr m) = (e1, err)" by fastforce
  note k = checkAddr_ok [OF ok chk 1]
  show ?thesis using False 1 c k by (cases err) (auto simp: feed_write_def split: prod.splits)
qed

text \<open>What one call of \<open>Feed\<close> does to the entry and to the outside.\<close>

lemma entry_Feed_ok:
  assumes ok: "entry_ok chk evs e" and chk: "\<And>a. env_check env a = None \<Longrightarrow> chk a = None"
    and empty: "(\<exists>x. env_dial env [] = Inl x) \<or> (\<forall>a. chk a = None)"
  shows "\<exists>e' evs' n err. entry_Feed env e m = Some (e', evs', n, err) \<and>
    entry_ok chk (evs @ evs') e' \<and> ID e' = ID e \<and>
    (closed e' \<longrightarrow> closed e \<or> (\<exists>x. ExitCall x \<in> set evs')) \<and> (closed e \<longrightarrow> closed e') \<and>
    (\<forall>x. ExitCall x \<in> set evs' \<longrightarrow> closed e') \<and>
    (\<forall>c d a. Wrote c d a \<in> set evs' \<longrightarrow> permitted chk (evs @ evs') a)"
proof -
  let ?e = "e\<lparr>Last := env_now env\<rparr>"
  have inv: "defrag_inv (D e)" using ok by (simp add: entry_ok_def)
  obtain d r where F: "Feed (D e) m = Some (d, r)" "defrag_inv d" using Feed_inv [OF inv] by blast
  let ?ed = "?e\<lparr>D := d\<rparr>"
  have okd: "entry_ok chk evs ?ed" using ok F(2) by (simp add: entry_ok_def)
  show ?thesis
  proof (cases r)
    case None
    then show ?thesis using okd F by (simp add: entry_Feed_def Let_def)
  next
    case (Some df)
    show ?thesis
    proof (cases "conn e")
      case conn: (Some c)
      then obtain e' evs' n err where w: "feed_write env ?ed df = Some (e', evs', n, err)"
        "entry_ok chk evs e'" "ID e' = ID e" "closed e' = closed e"
        "\<forall>x \<in> set evs'. \<exists>c d a. x = Wrote c d a \<and> permitted chk evs a"
        using feed_write_ok [OF okd, where env = env and m = df] chk by auto
      then have "entry_ok chk (evs @ evs') e'" using entry_ok_mono by (metis set_append sup_ge1)
      moreover have "\<forall>c d a. Wrote c d a \<in> set evs' \<longrightarrow> permitted chk (evs @ evs') a"
        using w(5) permitted_mono by (metis set_append sup_ge1 udp_effect.inject(5))
      ultimately show ?thesis
        using F Some conn w by (auto simp: entry_Feed_def Let_def)
    next
      case conn: None
      show ?thesis
      proof (cases "closed e")
        case True
        then show ?thesis using F Some conn okd
          by (simp add: entry_Feed_def Let_def initConn_def)
      next
        case open': False
        obtain h addr where hook: "env_hook env (Data df) (Addr df) = (h, addr)" by fastforce
        show ?thesis
        proof (cases h)
          case (Some x)
          have m: "entry_ok chk (evs @ evs') ?ed" for evs'
            using entry_ok_mono [OF okd, of "evs @ evs'"] by simp
          then show ?thesis
            using F \<open>r = Some df\<close> conn open' hook Some
            by (auto simp: entry_Feed_def Let_def initConn_def dialFunc_def CloseWithErr_def entry_ok_def)
        next
          case nohook: None
          show ?thesis
          proof (cases "env_dial env addr")
            case (Inl x)
            have m: "entry_ok chk (evs @ evs') ?ed" for evs'
              using entry_ok_mono [OF okd, of "evs @ evs'"] by simp
            then show ?thesis
              using F \<open>r = Some df\<close> conn open' hook nohook Inl
              by (auto simp: entry_Feed_def Let_def initConn_def dialFunc_def CloseWithErr_def entry_ok_def)
          next
            case (Inr c)
            then have addr: "addr \<noteq> [] \<or> (\<forall>a. chk a = None)" using empty by auto
            let ?evs = "[EvNew (ID e) addr, Dialed addr c, StartReceive]"
            let ?e1 = "if Addr df \<noteq> addr
               then ?ed\<lparr>conn := Some c, OverrideAddr := addr, OriginalAddr := Addr df\<rparr>
               else ?ed\<lparr>conn := Some c\<rparr>"
            let ?e2 = "if OverrideAddr ?e1 = [] then ?e1\<lparr>aclCache := Some [(Addr df, None)]\<rparr> else ?e1"
            have perm: "permitted chk (evs @ ?evs) addr" by (auto simp: permitted_def)
            have "entry_ok chk (evs @ ?evs) ?ed" by (rule entry_ok_mono [OF okd]) auto
            then have "entry_ok chk (evs @ ?evs) ?e2"
              using perm addr
              by (auto simp: entry_ok_def cache_ok_def maxSessionACLCache_def permitted_def)
            moreover have "conn ?e2 \<noteq> None" by simp
            ultimately obtain e' evs' n err where w: "feed_write env ?e2 df = Some (e', evs', n, err)"
              "entry_ok chk (evs @ ?evs) e'" "ID e' = ID ?e2" "closed e' = closed ?e2"
              "\<forall>x \<in> set evs'. \<exists>c d a. x = Wrote c d a \<and> permitted chk (evs @ ?evs) a"
              using feed_write_ok [where e = ?e2 and m = df and env = env] chk by blast
            have i: "initConn env ?ed df = (?e1, ?evs, None)"
              using open' hook nohook Inr by (simp add: initConn_def dialFunc_def)
            have "entry_Feed env e m = Some (e', ?evs @ evs', n, err)"
              using F \<open>r = Some df\<close> conn i w(1) by (simp add: entry_Feed_def Let_def del: append_Cons)
            moreover have "entry_ok chk (evs @ ?evs @ evs') e'"
              using entry_ok_mono [OF w(2), of "evs @ ?evs @ evs'"] by auto
            moreover have "\<forall>c d a. Wrote c d a \<in> set (?evs @ evs') \<longrightarrow> permitted chk (evs @ ?evs @ evs') a"
              using w(5) permitted_mono [of chk "evs @ ?evs" _ "evs @ ?evs @ evs'"] by fastforce
            moreover have "ID e' = ID e" "closed e' = closed e" using w by auto
            moreover have "ExitCall x \<notin> set (?evs @ evs')" for x using w(5) by auto
            ultimately show ?thesis by blast
          qed
        qed
      qed
    qed
  qed
qed


lemma entry_run_ok:
  assumes "entry_ok chk evs e"
    and "\<forall>(env, m) \<in> set ins. (\<forall>a. env_check env a = None \<longrightarrow> chk a = None) \<and>
      (\<exists>x. env_dial env [] = Inl x)"
  shows "\<exists>e' evs'. entry_run e ins = Some (e', evs') \<and> entry_ok chk (evs @ evs') e' \<and>
    (\<forall>c d a. Wrote c d a \<in> set evs' \<longrightarrow> permitted chk (evs @ evs') a)"
  using assms
proof (induction ins arbitrary: e evs)
  case Nil
  then show ?case by simp
next
  case (Cons i ins)
  obtain env m where i: "i = (env, m)" by (cases i)
  from Cons.prems i have chk: "\<And>a. env_check env a = None \<Longrightarrow> chk a = None"
    and empty: "(\<exists>x. env_dial env [] = Inl x) \<or> (\<forall>a. chk a = None)"
    by auto
  obtain e1 evs1 n err where 1: "entry_Feed env e m = Some (e1, evs1, n, err)"
    "entry_ok chk (evs @ evs1) e1"
    "\<forall>c d a. Wrote c d a \<in> set evs1 \<longrightarrow> permitted chk (evs @ evs1) a"
    using entry_Feed_ok [OF Cons.prems(1) chk empty, of m] by blast
  have "\<forall>(env, m) \<in> set ins. (\<forall>a. env_check env a = None \<longrightarrow> chk a = None) \<and>
      (\<exists>x. env_dial env [] = Inl x)"
    using Cons.prems(2) by simp
  from Cons.IH [OF 1(2) this] obtain e2 evs2 where
    2: "entry_run e1 ins = Some (e2, evs2)" "entry_ok chk ((evs @ evs1) @ evs2) e2"
    "\<forall>c d a. Wrote c d a \<in> set evs2 \<longrightarrow> permitted chk ((evs @ evs1) @ evs2) a"
    by blast
  have "permitted chk (evs @ evs1 @ evs2) a" if "Wrote c d a \<in> set evs1" for c d a
    using 1(3) that permitted_mono [of chk "evs @ evs1" a "evs @ evs1 @ evs2"] by auto
  with 1(1) 2 i show ?case by auto
qed

section \<open>The session manager\<close>

text \<open>
  Entries are objects: \<open>mheap\<close> maps the references below \<open>mnext\<close> to them, and the table \<open>msess\<close>
  (the code's \<open>m\<close>) maps session ids to references.  \<open>mstop\<close> is the stop channel: nil before \<open>Run\<close>,
  then open (\<open>False\<close>) or closed (\<open>True\<close>).  \<open>mloops\<close> counts the live idle cleanup goroutines.
  \<open>mfeed\<close> is the message whose session the manager's loop has looked up and not yet fed;
  \<open>mexit\<close> are the calls of \<open>ExitFunc\<close> in progress, which run after \<open>connLock\<close> is released.
\<close>

record udp_manager =
  mheap :: "nat \<Rightarrow> udp_entry"
  mnext :: nat
  msess :: "(u32 \<times> nat) list"
  mstop :: "bool option"
  cleanupRunning :: bool
  mloops :: nat
  mfeed :: "(nat \<times> udp_message) option"
  mexit :: "(nat \<times> err option) list"
  mlog :: "udp_effect list"

definition newUDPSessionManager :: udp_manager where
  "newUDPSessionManager =
     \<lparr>mheap = (\<lambda>_. newUDPSessionEntry 0 0), mnext = 0, msess = [], mstop = None,
      cleanupRunning = False, mloops = 0, mfeed = None, mexit = [], mlog = []\<rparr>"

definition startIdleCleanupLocked :: "udp_manager \<Rightarrow> udp_manager" where
  "startIdleCleanupLocked s =
     (if cleanupRunning s \<or> mstop s = None then s
      else s\<lparr>cleanupRunning := True, mloops := Suc (mloops s)\<rparr>)"

definition canAdmit :: "int \<Rightarrow> udp_manager \<Rightarrow> u32 \<Rightarrow> bool" where
  "canAdmit maxSessions s sid \<longleftrightarrow>
     map_of (msess s) sid \<noteq> None \<or> int (length (msess s)) < maxSessions"

text \<open>The part of \<open>feed\<close> under the manager's mutex.\<close>

definition feed_lookup :: "int \<Rightarrow> int \<Rightarrow> udp_manager \<Rightarrow> udp_message \<Rightarrow> udp_manager" where
  "feed_lookup maxSessions now s msg =
     (case map_of (msess s) (SessionID msg) of
        Some r \<Rightarrow> s\<lparr>mfeed := Some (r, msg)\<rparr>
      | None \<Rightarrow>
          if int (length (msess s)) \<ge> maxSessions then s
          else
            (let r = mnext s;
                 s = s\<lparr>mheap := (mheap s)(r := newUDPSessionEntry (SessionID msg) now),
                       mnext := Suc r,
                       msess := AList.update (SessionID msg) r (msess s)\<rparr>;
                 s = startIdleCleanupLocked s
             in s\<lparr>mfeed := Some (r, msg)\<rparr>))"

text \<open>An entry operation run on the object \<open>r\<close>: its effects are logged, and a call of \<open>ExitFunc\<close>
  is in progress afterwards.\<close>

definition exits_of :: "nat \<Rightarrow> udp_effect list \<Rightarrow> (nat \<times> err option) list" where
  "exits_of r evs = [(r, err). ExitCall err \<leftarrow> evs]"

definition store_entry :: "udp_manager \<Rightarrow> nat \<Rightarrow> udp_entry \<Rightarrow> udp_effect list \<Rightarrow> udp_manager" where
  "store_entry s r e evs =
     s\<lparr>mheap := (mheap s)(r := e), mexit := mexit s @ exits_of r evs, mlog := mlog s @ evs\<rparr>"

definition close_entry :: "udp_manager \<Rightarrow> nat \<Rightarrow> err option \<Rightarrow> udp_manager" where
  "close_entry s r err = (let (e, evs) = CloseWithErr (mheap s r) err in store_entry s r e evs)"

text \<open>\<open>entry.Feed(msg)\<close> behind the lookup; \<open>None\<close> is a panic.\<close>

definition feed_deliver :: "udp_env \<Rightarrow> udp_manager \<Rightarrow> udp_manager option" where
  "feed_deliver env s =
     (case mfeed s of
        None \<Rightarrow> Some s
      | Some (r, msg) \<Rightarrow>
          (case entry_Feed env (mheap s r) msg of
             None \<Rightarrow> None
           | Some (e, evs, _, _) \<Rightarrow> Some ((store_entry s r e evs)\<lparr>mfeed := None\<rparr>)))"

definition feed :: "int \<Rightarrow> udp_env \<Rightarrow> udp_manager \<Rightarrow> udp_message \<Rightarrow> udp_manager option" where
  "feed maxSessions env s msg = feed_deliver env (feed_lookup maxSessions (env_now env) s msg)"

text \<open>The closure \<open>exitFunc\<close>: event, then removal under the mutex of this very object only.\<close>

definition exitFunc :: "udp_manager \<Rightarrow> nat \<Rightarrow> err option \<Rightarrow> udp_manager" where
  "exitFunc s r err =
     (let sid = ID (mheap s r);
          s = s\<lparr>mexit := remove1 (r, err) (mexit s), mlog := mlog s @ [EvClose sid err]\<rparr>
      in if map_of (msess s) sid = Some r then s\<lparr>msess := AList.delete sid (msess s)\<rparr> else s)"

text \<open>\<open>cleanup\<close>: the scan under the read lock, then closing what it collected.\<close>

definition cleanup_scan :: "int \<Rightarrow> bool \<Rightarrow> int \<Rightarrow> udp_manager \<Rightarrow> nat list" where
  "cleanup_scan idleTimeout idleOnly now s =
     filter (\<lambda>r. \<not> idleOnly \<or> now - Last (mheap s r) > idleTimeout) (map snd (msess s))"

definition cleanup :: "int \<Rightarrow> bool \<Rightarrow> int \<Rightarrow> udp_manager \<Rightarrow> udp_manager" where
  "cleanup idleTimeout idleOnly now s =
     foldl (\<lambda>s r. if closed (mheap s r) then s else exitFunc (close_entry s r None) r None)
       s (cleanup_scan idleTimeout idleOnly now s)"

text \<open>The end of a round of \<open>idleCleanupLoop\<close> under the mutex: \<open>None\<close> when the loop goes on.\<close>

definition loop_done :: "udp_manager \<Rightarrow> udp_manager option" where
  "loop_done s =
     (if length (msess s) = 0
      then Some (s\<lparr>cleanupRunning := False, mloops := mloops s - 1\<rparr>) else None)"

definition loop_stopped :: "udp_manager \<Rightarrow> udp_manager" where
  "loop_stopped s = s\<lparr>cleanupRunning := False, mloops := mloops s - 1\<rparr>"

text \<open>What other goroutines do between two steps of the manager's loop.\<close>

inductive bg_step :: "udp_manager \<Rightarrow> udp_manager \<Rightarrow> bool" where
  close: "r < mnext s \<Longrightarrow> bg_step s (close_entry s r err)"
| exit: "(r, err) \<in> set (mexit s) \<Longrightarrow> bg_step s (exitFunc s r err)"
| loop_tick: "0 < mloops s \<Longrightarrow> loop_done s = Some t \<Longrightarrow> bg_step s t"
| loop_stop: "0 < mloops s \<Longrightarrow> mstop s = Some True \<Longrightarrow> bg_step s (loop_stopped s)"

inductive udp_step :: "int \<Rightarrow> udp_manager \<Rightarrow> udp_manager \<Rightarrow> bool" for maxSessions :: int where
  run: "mstop s = None \<Longrightarrow> udp_step maxSessions s (s\<lparr>mstop := Some False\<rparr>)"
| receive: "mstop s = Some False \<Longrightarrow> mfeed s = None \<Longrightarrow>
    udp_step maxSessions s (feed_lookup maxSessions now s msg)"
| deliver: "mfeed s \<noteq> None \<Longrightarrow> feed_deliver env s = Some t \<Longrightarrow> udp_step maxSessions s t"
| background: "bg_step s t \<Longrightarrow> udp_step maxSessions s t"
| stop: "mstop s = Some False \<Longrightarrow> mfeed s = None \<Longrightarrow> udp_step maxSessions s (s\<lparr>mstop := Some True\<rparr>)"

inductive udp_reachable :: "int \<Rightarrow> udp_manager \<Rightarrow> bool" for maxSessions :: int where
  init: "udp_reachable maxSessions newUDPSessionManager"
| step: "udp_reachable maxSessions s \<Longrightarrow> udp_step maxSessions s t \<Longrightarrow> udp_reachable maxSessions t"

section \<open>The manager's invariant\<close>

definition ids_inv :: "udp_manager \<Rightarrow> bool" where
  "ids_inv s \<longleftrightarrow> distinct (map fst (msess s)) \<and>
     (\<forall>sid r. (sid, r) \<in> set (msess s) \<longrightarrow> r < mnext s \<and> ID (mheap s r) = sid)"

definition live_inv :: "udp_manager \<Rightarrow> bool" where
  "live_inv s \<longleftrightarrow>
     (\<forall>r < mnext s. \<not> closed (mheap s r) \<longrightarrow> map_of (msess s) (ID (mheap s r)) = Some r)"

definition exit_inv :: "udp_manager \<Rightarrow> bool" where
  "exit_inv s \<longleftrightarrow>
     (\<forall>sid r. (sid, r) \<in> set (msess s) \<longrightarrow> closed (mheap s r) \<longrightarrow> (\<exists>err. (r, err) \<in> set (mexit s))) \<and>
     (\<forall>r err. (r, err) \<in> set (mexit s) \<longrightarrow> r < mnext s \<and> closed (mheap s r))"

definition feed_inv :: "udp_manager \<Rightarrow> bool" where
  "feed_inv s \<longleftrightarrow> (\<forall>r < mnext s. entry_ok (\<lambda>_. None) [] (mheap s r)) \<and>
     (\<forall>r m. mfeed s = Some (r, m) \<longrightarrow> r < mnext s \<and> ID (mheap s r) = SessionID m)"

definition table_inv :: "int \<Rightarrow> udp_manager \<Rightarrow> bool" where
  "table_inv maxSessions s \<longleftrightarrow> int (length (msess s)) \<le> max 0 maxSessions \<and>
     ids_inv s \<and> live_inv s \<and> exit_inv s \<and> feed_inv s"

definition loop_inv :: "udp_manager \<Rightarrow> bool" where
  "loop_inv s \<longleftrightarrow> mloops s = (if cleanupRunning s then 1 else 0) \<and>
     (mstop s = None \<longrightarrow> msess s = []) \<and>
     (mstop s = Some False \<and> msess s \<noteq> [] \<longrightarrow> cleanupRunning s)"

lemma set_exits_of: "(r', err) \<in> set (exits_of r evs) \<longleftrightarrow> r' = r \<and> ExitCall err \<in> set evs"
  by (force simp: exits_of_def split: udp_effect.splits)

lemma CloseWithErr_effects:
  assumes "CloseWithErr e err = (e', evs)"
  shows "ID e' = ID e" "closed e'" "D e' = D e" "closed e \<or> ExitCall err \<in> set evs"
    "closed e \<Longrightarrow> evs = []" "aclCache e' = aclCache e" "OverrideAddr e' = OverrideAddr e"
  using assms by (auto simp: CloseWithErr_def split: if_splits option.splits)

lemma store_entry_fields [simp]:
  "mnext (store_entry s r e evs) = mnext s" "msess (store_entry s r e evs) = msess s"
  "mfeed (store_entry s r e evs) = mfeed s" "mstop (store_entry s r e evs) = mstop s"
  "cleanupRunning (store_entry s r e evs) = cleanupRunning s"
  "mloops (store_entry s r e evs) = mloops s"
  "mheap (store_entry s r e evs) = (mheap s)(r := e)"
  "mexit (store_entry s r e evs) = mexit s @ exits_of r evs"
  by (simp_all add: store_entry_def)

text \<open>An entry operation that keeps the id, closes at most, and announces the closing.\<close>

lemma store_entry_table_inv:
  assumes inv: "table_inv maxS s" and r: "r < mnext s"
    and e: "ID e = ID (mheap s r)" "entry_ok (\<lambda>_. None) [] e" "closed (mheap s r) \<Longrightarrow> closed e"
      "closed e \<Longrightarrow> closed (mheap s r) \<or> (\<exists>x. ExitCall x \<in> set evs)"
      "\<And>x. ExitCall x \<in> set evs \<Longrightarrow> closed e"
  shows "table_inv maxS (store_entry s r e evs)"
proof -
  have "ids_inv (store_entry s r e evs)"
    using inv e(1) by (auto simp: table_inv_def ids_inv_def)
  moreover have "live_inv (store_entry s r e evs)"
    using inv e(1,3) by (auto simp: table_inv_def live_inv_def)
  moreover have "exit_inv (store_entry s r e evs)"
    unfolding exit_inv_def
  proof (intro conjI allI impI)
    fix sid r' assume "(sid, r') \<in> set (msess (store_entry s r e evs))"
      and "closed (mheap (store_entry s r e evs) r')"
    then show "\<exists>err. (r', err) \<in> set (mexit (store_entry s r e evs))"
      using inv e(4) unfolding table_inv_def exit_inv_def
      by (cases "r' = r") (simp_all add: set_exits_of, blast+)
  next
    fix r' err assume x: "(r', err) \<in> set (mexit (store_entry s r e evs))"
    then show "r' < mnext (store_entry s r e evs)"
      using inv r by (auto simp: table_inv_def exit_inv_def set_exits_of)
    from x show "closed (mheap (store_entry s r e evs) r')"
      using inv e(3,5) by (auto simp: table_inv_def exit_inv_def set_exits_of)
  qed
  moreover have "feed_inv (store_entry s r e evs)"
    using inv e(1,2) by (auto simp: table_inv_def feed_inv_def)
  ultimately show ?thesis using inv by (simp add: table_inv_def)
qed

lemma entry_ok_any: "entry_ok (\<lambda>_. None) evs e \<longleftrightarrow> entry_ok (\<lambda>_. None) [] e"
  by (simp add: entry_ok_def cache_ok_def permitted_def)

lemma close_entry_table_inv:
  assumes "table_inv maxS s" "r < mnext s"
  shows "table_inv maxS (close_entry s r err)"
proof -
  obtain e evs where c: "CloseWithErr (mheap s r) err = (e, evs)" by fastforce
  note k = CloseWithErr_effects [OF c]
  have "entry_ok (\<lambda>_. None) [] (mheap s r)" using assms by (simp add: table_inv_def feed_inv_def)
  then have "entry_ok (\<lambda>_. None) [] e" unfolding entry_ok_def k(3,6,7) .
  then show ?thesis
    unfolding close_entry_def c Let_def prod.case
    using k by (intro store_entry_table_inv assms) auto
qed

lemma table_inv_unfeed:
  "table_inv maxS s \<Longrightarrow> table_inv maxS (s\<lparr>mfeed := None\<rparr>)"
  by (simp add: table_inv_def ids_inv_def live_inv_def exit_inv_def feed_inv_def)

lemma deliver_table_inv:
  assumes inv: "table_inv maxS s"
  shows "\<exists>t. feed_deliver env s = Some t \<and> table_inv maxS t"
proof (cases "mfeed s")
  case None
  then show ?thesis using inv by (simp add: feed_deliver_def)
next
  case (Some p)
  obtain r m where p: "p = (r, m)" by (cases p)
  have r: "r < mnext s" using inv Some p by (simp add: table_inv_def feed_inv_def)
  have ok: "entry_ok (\<lambda>_. None) [] (mheap s r)"
    using inv r by (simp add: table_inv_def feed_inv_def)
  obtain e evs n err where f: "entry_Feed env (mheap s r) m = Some (e, evs, n, err)"
    "entry_ok (\<lambda>_. None) ([] @ evs) e" "ID e = ID (mheap s r)"
    "closed e \<longrightarrow> closed (mheap s r) \<or> (\<exists>x. ExitCall x \<in> set evs)"
    "closed (mheap s r) \<longrightarrow> closed e" "\<forall>x. ExitCall x \<in> set evs \<longrightarrow> closed e"
    using entry_Feed_ok [OF ok, where env = env and m = m] by blast
  have "table_inv maxS (store_entry s r e evs)"
    using f by (intro store_entry_table_inv inv r) (auto simp: entry_ok_any [of evs])
  then show ?thesis
    using Some p f(1) table_inv_unfeed by (simp add: feed_deliver_def)
qed


lemma exitFunc_fields [simp]:
  "mnext (exitFunc s r err) = mnext s" "mheap (exitFunc s r err) = mheap s"
  "mfeed (exitFunc s r err) = mfeed s" "mstop (exitFunc s r err) = mstop s"
  "cleanupRunning (exitFunc s r err) = cleanupRunning s" "mloops (exitFunc s r err) = mloops s"
  "mexit (exitFunc s r err) = remove1 (r, err) (mexit s)"
  "msess (exitFunc s r err) =
     (if map_of (msess s) (ID (mheap s r)) = Some r then AList.delete (ID (mheap s r)) (msess s)
      else msess s)"
  by (simp_all add: exitFunc_def Let_def)

lemma distinct_map_of: "distinct (map fst al) \<Longrightarrow> (k, v) \<in> set al \<longleftrightarrow> map_of al k = Some v"
  by (simp add: map_of_eq_Some_iff)

lemma exitFunc_table_inv:
  assumes inv: "table_inv maxS s" and ex: "(r, err) \<in> set (mexit s)"
  shows "table_inv maxS (exitFunc s r err)"
proof -
  let ?id = "ID (mheap s r)"
  let ?t = "exitFunc s r err"
  have c: "closed (mheap s r)" using inv ex by (auto simp: table_inv_def exit_inv_def)
  have d: "distinct (map fst (msess s))" using inv by (simp add: table_inv_def ids_inv_def)
  then have d': "distinct (map fst (msess ?t))" by (simp add: distinct_delete)
  have sub: "set (msess ?t) \<subseteq> set (msess s)"
    by (auto dest: subsetD [OF set_delete_subset])
  have "length (msess ?t) \<le> length (msess s)" by (simp add: AList.length_delete_le)
  moreover have "ids_inv ?t"
    using inv d' sub unfolding table_inv_def ids_inv_def exitFunc_fields(1,2) by blast
  moreover have "live_inv ?t"
    unfolding live_inv_def
  proof (intro allI impI)
    fix q assume q: "q < mnext ?t" "\<not> closed (mheap ?t q)"
    then have m: "map_of (msess s) (ID (mheap s q)) = Some q"
      using inv by (simp add: table_inv_def live_inv_def)
    have "q \<noteq> r" using q c by auto
    with m show "map_of (msess ?t) (ID (mheap ?t q)) = Some q"
      by (auto simp: delete_conv)
  qed
  moreover have "exit_inv ?t"
    unfolding exit_inv_def
  proof (intro conjI allI impI)
    fix sid q assume q: "(sid, q) \<in> set (msess ?t)" "closed (mheap ?t q)"
    then have sid: "sid = ID (mheap s q)" "map_of (msess s) sid = Some q"
      using inv sub d by (auto simp: table_inv_def ids_inv_def)
    have "map_of (msess ?t) sid = Some q" using q(1) d' by (simp only: distinct_map_of)
    then have "q \<noteq> r" using sid by (auto simp: delete_conv split: if_splits)
    moreover obtain x where "(q, x) \<in> set (mexit s)"
      using q sub inv unfolding table_inv_def exit_inv_def exitFunc_fields(2) by blast
    ultimately show "\<exists>err. (q, err) \<in> set (mexit ?t)" by auto
  next
    fix q x assume "(q, x) \<in> set (mexit ?t)"
    then have "(q, x) \<in> set (mexit s)" by (auto dest: subsetD [OF set_remove1_subset])
    then show "q < mnext ?t" "closed (mheap ?t q)"
      using inv by (auto simp: table_inv_def exit_inv_def)
  qed
  moreover have "feed_inv ?t" using inv by (simp add: table_inv_def feed_inv_def)
  ultimately show ?thesis using inv unfolding table_inv_def by linarith
qed

lemma startIdleCleanupLocked_fields [simp]:
  "mheap (startIdleCleanupLocked s) = mheap s" "mnext (startIdleCleanupLocked s) = mnext s"
  "msess (startIdleCleanupLocked s) = msess s" "mfeed (startIdleCleanupLocked s) = mfeed s"
  "mexit (startIdleCleanupLocked s) = mexit s" "mstop (startIdleCleanupLocked s) = mstop s"
  by (simp_all add: startIdleCleanupLocked_def)

lemma update_new: "map_of al k = None \<Longrightarrow> AList.update k v al = al @ [(k, v)]"
  by (induction al) auto

lemma feed_lookup_table_inv:
  assumes inv: "table_inv maxS s"
  shows "table_inv maxS (feed_lookup maxS now s msg)"
proof (cases "map_of (msess s) (SessionID msg)")
  case (Some r)
  then have "(SessionID msg, r) \<in> set (msess s)" by (rule map_of_SomeD)
  then show ?thesis
    using inv Some
    by (auto simp: feed_lookup_def table_inv_def ids_inv_def live_inv_def exit_inv_def feed_inv_def)
next
  case None
  then have new: "SessionID msg \<notin> fst ` set (msess s)" by (simp add: map_of_eq_None_iff)
  show ?thesis
  proof (cases "int (length (msess s)) \<ge> maxS")
    case True
    with None inv show ?thesis by (simp add: feed_lookup_def)
  next
    case False
    let ?e = "newUDPSessionEntry (SessionID msg) now"
    let ?t = "feed_lookup maxS now s msg"
    have t: "mheap ?t = (mheap s)(mnext s := ?e)" "mnext ?t = Suc (mnext s)"
      "msess ?t = msess s @ [(SessionID msg, mnext s)]" "mexit ?t = mexit s"
      "mfeed ?t = Some (mnext s, msg)"
      using None False by (simp_all add: feed_lookup_def Let_def update_new)
    have e: "ID ?e = SessionID msg" "\<not> closed ?e"
      by (simp_all add: newUDPSessionEntry_def)
    have lt: "q < mnext s" if "(sid, q) \<in> set (msess s)" for sid q
      using that inv by (auto simp: table_inv_def ids_inv_def)
    have "ids_inv ?t"
      using inv new e unfolding ids_inv_def t by (auto simp: table_inv_def ids_inv_def less_Suc_eq)
    moreover have "live_inv ?t"
      unfolding live_inv_def t
    proof (intro allI impI)
      fix q assume q: "q < Suc (mnext s)" "\<not> closed (((mheap s)(mnext s := ?e)) q)"
      show "map_of (msess s @ [(SessionID msg, mnext s)]) (ID (((mheap s)(mnext s := ?e)) q)) = Some q"
      proof (cases "q = mnext s")
        case True
        then show ?thesis using None e by (simp add: map_add_def)
      next
        case False
        then have "map_of (msess s) (ID (mheap s q)) = Some q"
          using q inv by (simp add: table_inv_def live_inv_def less_Suc_eq)
        with False None show ?thesis by (auto simp: map_add_def)
      qed
    qed
    moreover have "exit_inv ?t"
      unfolding exit_inv_def t
      using inv e lt by (fastforce simp: table_inv_def exit_inv_def less_Suc_eq)
    moreover have "feed_inv ?t"
      using inv e entry_ok_new unfolding feed_inv_def t
      by (auto simp: table_inv_def feed_inv_def less_Suc_eq)
    moreover have "int (length (msess ?t)) \<le> max 0 maxS" using False t by simp
    ultimately show ?thesis by (simp add: table_inv_def)
  qed
qed


lemma loop_fields:
  "loop_done s = Some t \<Longrightarrow> t = loop_stopped s \<and> msess s = []"
  by (simp add: loop_done_def loop_stopped_def split: if_splits)

lemma table_inv_loop: "table_inv maxS s \<Longrightarrow> table_inv maxS (loop_stopped s)"
  by (simp add: table_inv_def ids_inv_def live_inv_def exit_inv_def feed_inv_def loop_stopped_def)

lemma table_inv_stop: "table_inv maxS s \<Longrightarrow> table_inv maxS (s\<lparr>mstop := x\<rparr>)"
  by (simp add: table_inv_def ids_inv_def live_inv_def exit_inv_def feed_inv_def)

inductive_cases bg_stepE: "bg_step s t"
inductive_cases udp_stepE: "udp_step maxSessions s t"

lemma bg_step_table_inv: "bg_step s t \<Longrightarrow> table_inv maxS s \<Longrightarrow> table_inv maxS t"
  by (erule bg_stepE)
    (use close_entry_table_inv exitFunc_table_inv table_inv_loop in \<open>auto dest: loop_fields\<close>)

lemma udp_step_table_inv: "udp_step maxS s t \<Longrightarrow> table_inv maxS s \<Longrightarrow> table_inv maxS t"
proof (erule udp_stepE, goal_cases)
  case 1 then show ?case by (simp add: table_inv_stop)
next
  case 2 then show ?case by (simp add: feed_lookup_table_inv)
next
  case (3 env) then show ?case using deliver_table_inv [of maxS s env] by auto
next
  case 4 then show ?case using bg_step_table_inv by blast
next
  case 5 then show ?case by (simp add: table_inv_stop)
qed

lemma reachable_table_inv: "udp_reachable maxS s \<Longrightarrow> table_inv maxS s"
proof (induction rule: udp_reachable.induct)
  case init
  then show ?case
    by (simp add: table_inv_def ids_inv_def live_inv_def exit_inv_def feed_inv_def
        newUDPSessionManager_def)
next
  case step
  then show ?case using udp_step_table_inv by blast
qed

lemma close_entry_fields [simp]:
  "msess (close_entry s r err) = msess s" "mstop (close_entry s r err) = mstop s"
  "cleanupRunning (close_entry s r err) = cleanupRunning s"
  "mloops (close_entry s r err) = mloops s" "mfeed (close_entry s r err) = mfeed s"
  by (simp_all add: close_entry_def split: prod.splits)

lemma loop_inv_cong:
  assumes "loop_inv s" "msess s = [] \<longrightarrow> msess t = []" "mstop t = mstop s"
    "cleanupRunning t = cleanupRunning s" "mloops t = mloops s"
  shows "loop_inv t"
  using assms by (auto simp: loop_inv_def)

lemma bg_step_loop_inv: "bg_step s t \<Longrightarrow> loop_inv s \<Longrightarrow> loop_inv t"
proof (erule bg_stepE, goal_cases)
  case 1 then show ?case by (auto intro: loop_inv_cong)
next
  case 2 then show ?case by (auto intro!: loop_inv_cong [of s])
next
  case 3
  then show ?case using loop_fields [of s t]
    by (auto simp: loop_inv_def loop_stopped_def split: if_splits)
next
  case 4 then show ?case by (auto simp: loop_inv_def loop_stopped_def split: if_splits)
qed

lemma feed_lookup_loop_inv:
  assumes "loop_inv s" "mstop s = Some False"
  shows "loop_inv (feed_lookup maxS now s msg)"
  using assms
  by (auto simp: loop_inv_def feed_lookup_def startIdleCleanupLocked_def Let_def
      split: option.splits if_splits)

lemma deliver_fields:
  "feed_deliver env s = Some t \<Longrightarrow>
   msess t = msess s \<and> mstop t = mstop s \<and> cleanupRunning t = cleanupRunning s \<and> mloops t = mloops s"
  by (auto simp: feed_deliver_def store_entry_def split: option.splits prod.splits)

lemma udp_step_loop_inv: "udp_step maxS s t \<Longrightarrow> loop_inv s \<Longrightarrow> loop_inv t"
proof (erule udp_stepE, goal_cases)
  case 1 then show ?case by (auto simp: loop_inv_def)
next
  case 2 then show ?case by (simp add: feed_lookup_loop_inv)
next
  case (3 env)
  then show ?case using deliver_fields [of env s t] by (auto intro: loop_inv_cong [of s t])
next
  case 4 then show ?case using bg_step_loop_inv by blast
next
  case 5 then show ?case by (auto simp: loop_inv_def)
qed

lemma reachable_loop_inv: "udp_reachable maxS s \<Longrightarrow> loop_inv s"
proof (induction rule: udp_reachable.induct)
  case init
  then show ?case by (simp add: loop_inv_def newUDPSessionManager_def)
next
  case step
  then show ?case using udp_step_loop_inv by blast
qed

lemma bg_step_canAdmit:
  assumes "bg_step s t" "table_inv maxS s" "canAdmit maxS s sid"
  shows "canAdmit maxS t sid"
  using assms(1)
proof (cases rule: bg_step.cases)
  case (exit r err)
  let ?id = "ID (mheap s r)"
  show ?thesis
  proof (cases "map_of (msess s) ?id = Some r")
    case True
    then have "?id \<in> fst ` set (msess s)" by (force dest: map_of_SomeD)
    then have l: "Suc (length (AList.delete ?id (msess s))) = length (msess s)"
      using assms(2) by (intro length_delete_present) (auto simp: table_inv_def ids_inv_def)
    then have "int (length (msess t)) < maxS"
      using assms(2) exit True by (auto simp: table_inv_def)
    then show ?thesis by (simp add: canAdmit_def)
  next
    case False
    then show ?thesis using exit assms(3) by (simp add: canAdmit_def)
  qed
next
  case close
  then show ?thesis using assms(3) by (simp add: canAdmit_def)
next
  case loop_tick
  then have "msess t = msess s" using loop_fields [of s t] by (simp add: loop_stopped_def)
  then show ?thesis using assms(3) by (simp add: canAdmit_def)
next
  case loop_stop
  then have "msess t = msess s" by (simp add: loop_stopped_def)
  then show ?thesis using assms(3) by (simp add: canAdmit_def)
qed

lemma bg_steps_canAdmit:
  assumes "bg_step\<^sup>*\<^sup>* s t" "table_inv maxS s" "canAdmit maxS s sid"
  shows "canAdmit maxS t sid \<and> table_inv maxS t"
  using assms by (induction rule: rtranclp_induct) (auto intro: bg_step_table_inv bg_step_canAdmit)


definition cleanup_one :: "udp_manager \<Rightarrow> nat \<Rightarrow> udp_manager" where
  "cleanup_one s r = (if closed (mheap s r) then s else exitFunc (close_entry s r None) r None)"

lemma cleanup_one_ok:
  assumes inv: "table_inv maxS s" and ex: "mexit s = []" and r: "(sid, r) \<in> set (msess s)"
  shows "table_inv maxS (cleanup_one s r)" "mexit (cleanup_one s r) = []"
    "msess (cleanup_one s r) = filter (\<lambda>p. snd p \<noteq> r) (msess s)"
proof -
  have rn: "r < mnext s" and sid: "ID (mheap s r) = sid" and d: "distinct (map fst (msess s))"
    using inv r by (auto simp: table_inv_def ids_inv_def)
  have live: "\<not> closed (mheap s r)"
    using inv r ex by (auto simp: table_inv_def exit_inv_def)
  obtain e evs where c: "CloseWithErr (mheap s r) None = (e, evs)" by fastforce
  have evs: "exits_of r evs = [(r, None)]" "ID e = ID (mheap s r)"
    using c live by (auto simp: CloseWithErr_def exits_of_def split: option.splits)
  have s1: "close_entry s r None = store_entry s r e evs" by (simp add: close_entry_def c)
  have one: "cleanup_one s r = exitFunc (store_entry s r e evs) r None"
    using live by (simp add: cleanup_one_def s1)
  have ex1: "(r, None) \<in> set (mexit (store_entry s r e evs))" by (simp add: evs)
  have "table_inv maxS (store_entry s r e evs)"
    using close_entry_table_inv [OF inv rn, of None] by (simp add: s1)
  from exitFunc_table_inv [OF this ex1] show "table_inv maxS (cleanup_one s r)" by (simp add: one)
  show "mexit (cleanup_one s r) = []" by (simp add: one evs ex)
  have m: "map_of (msess s) sid = Some r" using r d by simp
  have "AList.delete sid (msess s) = filter (\<lambda>p. snd p \<noteq> r) (msess s)"
    unfolding AList.delete_eq
  proof (rule filter_cong [OF refl])
    fix p assume p: "p \<in> set (msess s)"
    obtain k q where pq: "p = (k, q)" by (cases p)
    have k: "ID (mheap s q) = k" using p pq inv unfolding table_inv_def ids_inv_def by blast
    have q: "map_of (msess s) k = Some q" using p pq d by simp
    have "k \<noteq> sid \<longleftrightarrow> q \<noteq> r" using k sid q m by (metis option.inject)
    then show "(case p of (k', uu_) \<Rightarrow> sid \<noteq> k') \<longleftrightarrow> snd p \<noteq> r" by (auto simp: pq)
  qed
  then show "msess (cleanup_one s r) = filter (\<lambda>p. snd p \<noteq> r) (msess s)"
    using m sid by (simp add: one evs)
qed

lemma cleanup_fold:
  assumes "table_inv maxS s" "mexit s = []" "set rs \<subseteq> snd ` set (msess s)" "distinct rs"
  shows "msess (foldl cleanup_one s rs) = filter (\<lambda>p. snd p \<notin> set rs) (msess s)"
  using assms
proof (induction rs arbitrary: s)
  case (Cons r rs)
  then obtain sid where r: "(sid, r) \<in> set (msess s)" by auto
  note k = cleanup_one_ok [OF Cons.prems(1,2) r]
  have "set rs \<subseteq> snd ` set (msess (cleanup_one s r))"
    using Cons.prems(3,4) unfolding k(3) by force
  with Cons.IH [OF k(1,2)] Cons.prems(4)
  have "msess (foldl cleanup_one (cleanup_one s r) rs) =
      filter (\<lambda>p. snd p \<notin> set rs) (filter (\<lambda>p. snd p \<noteq> r) (msess s))"
    by (simp add: k(3))
  moreover have "(\<lambda>p :: u32 \<times> nat. snd p \<notin> set (r # rs)) = (\<lambda>p. snd p \<noteq> r \<and> snd p \<notin> set rs)"
    by auto
  ultimately show ?case by (simp add: filter_filter)
qed simp

lemma distinct_refs: "table_inv maxS s \<Longrightarrow> distinct (map snd (msess s))"
proof -
  assume inv: "table_inv maxS s"
  then have d: "distinct (msess s)" and i: "\<forall>(sid, r) \<in> set (msess s). ID (mheap s r) = sid"
    by (auto simp: table_inv_def ids_inv_def distinct_map)
  have "inj_on snd (set (msess s))"
  proof (rule inj_onI)
    fix x y assume xy: "x \<in> set (msess s)" "y \<in> set (msess s)" "snd x = snd y"
    have "ID (mheap s (snd p)) = fst p" if "p \<in> set (msess s)" for p using i that by auto
    from this [OF xy(1)] this [OF xy(2)] xy(3) show "x = y" by (metis prod_eqI)
  qed
  with d show ?thesis by (simp add: distinct_map)
qed

section \<open>Properties\<close>


definition demo_env :: udp_env where
  "demo_env = \<lparr>env_now = 7, env_hook = (\<lambda>d a. (None, a)),
     env_dial = (\<lambda>a. if a = [] then Inl ''no address'' else Inr 3),
     env_check = (\<lambda>a. if a = ''bad'' then Some ''rejected'' else None),
     env_write = (\<lambda>c d a. (int (length d), None)), env_evict = 0\<rparr>"

definition demo_message :: "string \<Rightarrow> udp_message" where
  "demo_message a = \<lparr>SessionID = 9, PacketID = 0, FragID = 0, FragCount = 1, Addr = a, Data = [1, 2]\<rparr>"


text \<open>
  C15: In every reachable state of the session manager, under every interleaving of the receive
  loops, the cleanup loop and shutdown: the session table respects the cap, its keys are distinct
  and agree with the entries' ids, no live session is ever missing from the table, a closed session
  still in the table has its removal in progress, and delivering the pending message does not panic.
\<close>

theorem udp_session_table:
  assumes "udp_reachable maxSessions s"
  shows "int (length (msess s)) \<le> max 0 maxSessions \<and> distinct (map fst (msess s)) \<and>
    (\<forall>(sid, r) \<in> set (msess s). ID (mheap s r) = sid) \<and>
    (\<forall>r < mnext s. \<not> closed (mheap s r) \<longrightarrow> map_of (msess s) (ID (mheap s r)) = Some r) \<and>
    (\<forall>(sid, r) \<in> set (msess s). closed (mheap s r) \<longrightarrow> (\<exists>err. (r, err) \<in> set (mexit s))) \<and>
    (\<forall>env. feed_deliver env s \<noteq> None)"
proof -
  have inv: "table_inv maxSessions s" using assms by (rule reachable_table_inv)
  moreover have "feed_deliver env s \<noteq> None" for env using deliver_table_inv [OF inv, of env] by auto
  ultimately show ?thesis
    unfolding table_inv_def ids_inv_def live_inv_def exit_inv_def by auto
qed

definition demo_state :: udp_manager where
  "demo_state = feed_lookup 2 5 (newUDPSessionManager\<lparr>mstop := Some False\<rparr>) (demo_message ''a'')"

lemma demo_state_reachable: "udp_reachable 2 demo_state"
proof -
  have "udp_reachable 2 (newUDPSessionManager\<lparr>mstop := Some False\<rparr>)"
    by (rule step [OF init]) (rule run, simp add: newUDPSessionManager_def)
  then show ?thesis
    unfolding demo_state_def
    by (rule step) (rule receive, simp_all add: newUDPSessionManager_def)
qed

lemma udp_session_table_witness:
  "int (length (msess demo_state)) \<le> 2 \<and> map_of (msess demo_state) 9 = Some 0 \<and>
    feed_deliver demo_env demo_state \<noteq> None"
proof -
  note * = udp_session_table [OF demo_state_reachable]
  have d: "mnext demo_state = 1" "\<not> closed (mheap demo_state 0)" "ID (mheap demo_state 0) = 9"
    by (simp_all add: demo_state_def feed_lookup_def newUDPSessionManager_def demo_message_def
        Let_def startIdleCleanupLocked_def newUDPSessionEntry_def)
  from * have "int (length (msess demo_state)) \<le> max 0 2" by blast
  moreover from * d have "map_of (msess demo_state) 9 = Some 0" by (metis zero_less_one)
  moreover from * have "feed_deliver demo_env demo_state \<noteq> None" by blast
  ultimately show ?thesis by simp
qed

text \<open>
  There is never more than one idle cleanup goroutine per manager, the flag tells the truth
  about it, and while the manager runs every state with a session in its table has one: an idle
  session cannot be left without the loop that collects it.
\<close>

theorem udp_cleanup_loop:
  assumes "udp_reachable maxSessions s"
  shows "mloops s = (if cleanupRunning s then 1 else 0) \<and>
    (mstop s = Some False \<and> msess s \<noteq> [] \<longrightarrow> mloops s = 1)"
  using reachable_loop_inv [OF assms] by (auto simp: loop_inv_def)

lemma udp_cleanup_loop_witness: "mstop demo_state = Some False \<and> mloops demo_state = 1"
  using udp_cleanup_loop [OF demo_state_reachable]
  by (simp add: demo_state_def feed_lookup_def newUDPSessionManager_def demo_message_def
      Let_def startIdleCleanupLocked_def)

text \<open>
  The admission check made before a datagram is accounted stays valid: whatever the receive
  loops, exit handlers and cleanup loop do between the check and the feed, the message that was
  admitted is given to a session of its id, and feeding it neither panics nor drops it at the cap.
\<close>

theorem udp_admission_stable:
  assumes "udp_reachable maxSessions s" "canAdmit maxSessions s (SessionID msg)" "bg_step\<^sup>*\<^sup>* s t"
  shows "(\<exists>r. mfeed (feed_lookup maxSessions now t msg) = Some (r, msg) \<and>
      map_of (msess (feed_lookup maxSessions now t msg)) (SessionID msg) = Some r) \<and>
    feed maxSessions env t msg \<noteq> None"
proof -
  have t: "canAdmit maxSessions t (SessionID msg)" "table_inv maxSessions t"
    using bg_steps_canAdmit [OF assms(3) reachable_table_inv [OF assms(1)] assms(2)] by auto
  have "table_inv maxSessions (feed_lookup maxSessions (env_now env) t msg)"
    using t(2) by (rule feed_lookup_table_inv)
  then have "feed maxSessions env t msg \<noteq> None"
    using deliver_table_inv [of maxSessions _ env] by (fastforce simp: feed_def)
  with t(1) show ?thesis
    by (auto simp: canAdmit_def feed_lookup_def Let_def update_new map_add_def
        split: option.splits)
qed

lemma udp_admission_stable_witness:
  "(\<exists>r. mfeed (feed_lookup 2 0 demo_state (demo_message ''b'')) = Some (r, demo_message ''b'') \<and>
      map_of (msess (feed_lookup 2 0 demo_state (demo_message ''b''))) (SessionID (demo_message ''b''))
        = Some r) \<and>
    feed 2 demo_env demo_state (demo_message ''b'') \<noteq> None"
  by (rule udp_admission_stable [OF demo_state_reachable])
    (simp_all add: canAdmit_def demo_state_def feed_lookup_def newUDPSessionManager_def
      demo_message_def Let_def startIdleCleanupLocked_def)


text \<open>
  A cleanup pass with no removal pending removes exactly the sessions it should: all of them
  at shutdown, and otherwise those idle for longer than the timeout, keeping every other session.
\<close>

theorem udp_cleanup_exact:
  assumes "udp_reachable maxSessions s" "mexit s = []"
  shows "msess (cleanup idleTimeout idleOnly now s) =
    filter (\<lambda>(sid, r). idleOnly \<and> now - Last (mheap s r) \<le> idleTimeout) (msess s)"
proof -
  let ?rs = "cleanup_scan idleTimeout idleOnly now s"
  have inv: "table_inv maxSessions s" using assms(1) by (rule reachable_table_inv)
  have "msess (foldl cleanup_one s ?rs) = filter (\<lambda>p. snd p \<notin> set ?rs) (msess s)"
    using distinct_refs [OF inv] by (intro cleanup_fold [OF inv assms(2)]) (auto simp: cleanup_scan_def)
  also have "\<dots> = filter (\<lambda>(sid, r). idleOnly \<and> now - Last (mheap s r) \<le> idleTimeout) (msess s)"
    by (rule filter_cong) (auto simp: cleanup_scan_def image_iff)
  finally show ?thesis unfolding cleanup_def cleanup_one_def [abs_def] .
qed

lemma udp_cleanup_exact_witness:
  "msess (cleanup 3 True 9 demo_state) =
    filter (\<lambda>(sid, r). True \<and> 9 - Last (mheap demo_state r) \<le> 3) (msess demo_state)"
  by (rule udp_cleanup_exact [OF demo_state_reachable])
    (simp add: demo_state_def feed_lookup_def newUDPSessionManager_def demo_message_def Let_def
      startIdleCleanupLocked_def)

end
