(* ===== verification/Traffic.thy ===== *)
theory Traffic
  imports Hy_Prelude
begin

text \<open>
  The interfaces of \<open>core/server/config.go\<close> that the embedder implements: outbound, request hook
  and traffic logger, records of their methods, an optional interface (a Go type assertion that may
  fail) being an \<open>option\<close>.  A logger's methods work on an abstract state.  \<open>recording\<close> decorates any
  logger with the list of the calls it got, so that statements about what is charged hold for every
  logger.  A connection that a dial returns is a number.
\<close>

section \<open>Outbounds and hooks\<close>

record outbound =
  ob_TCP :: "string \<Rightarrow> string + nat"
  ob_UDP :: "string \<Rightarrow> string + nat"
  ob_CheckUDP :: "string \<Rightarrow> string option"
  asAuthenticated :: "(string \<Rightarrow> string \<Rightarrow> string + nat) option"
  asAuthenticatedUDP :: "(string \<Rightarrow> string \<Rightarrow> string + nat) option"

definition dialOutboundTCP :: "outbound \<Rightarrow> string \<Rightarrow> string \<Rightarrow> string + nat" where
  "dialOutboundTCP ob authID reqAddr =
     (case asAuthenticated ob of Some tcp \<Rightarrow> tcp authID reqAddr | None \<Rightarrow> ob_TCP ob reqAddr)"

definition dialOutboundUDP :: "outbound \<Rightarrow> string \<Rightarrow> string \<Rightarrow> string + nat" where
  "dialOutboundUDP ob authID reqAddr =
     (case asAuthenticatedUDP ob of Some udp \<Rightarrow> udp authID reqAddr | None \<Rightarrow> ob_UDP ob reqAddr)"

text \<open>
  A hook's \<open>TCP\<close> reads from the stream and may rewrite the address: what is left of the stream, the
  address, and the data to put back or an error.  Its \<open>UDP\<close> sees the first payload.
\<close>

record requestHook =
  hook_Check :: "bool \<Rightarrow> string \<Rightarrow> bool"
  hook_TCP :: "bytes \<Rightarrow> string \<Rightarrow> bytes \<times> string \<times> (string + bytes)"
  hook_UDP :: "bytes \<Rightarrow> string \<Rightarrow> string option \<times> string"

section \<open>Loggers\<close>

definition TrafficAccept :: byte where "TrafficAccept = 0"
definition TrafficReject :: byte where "TrafficReject = 1"
definition TrafficDisconnect :: byte where "TrafficDisconnect = 2"

text \<open>The \<open>bool\<close> of the contextual methods says whether the context they get is already cancelled.\<close>

record 'l contextLogger =
  LogStreamTrafficContext :: "bool \<Rightarrow> 'l \<Rightarrow> string \<Rightarrow> int \<Rightarrow> int \<Rightarrow> 'l \<times> byte"
  LogSentDatagramTrafficContext :: "bool \<Rightarrow> 'l \<Rightarrow> string \<Rightarrow> int \<Rightarrow> int \<Rightarrow> 'l \<times> byte"

record 'l verdictLogger =
  LogStreamTraffic :: "'l \<Rightarrow> string \<Rightarrow> int \<Rightarrow> int \<Rightarrow> 'l \<times> byte"
  LogDatagramTraffic :: "'l \<Rightarrow> string \<Rightarrow> int \<Rightarrow> int \<Rightarrow> 'l \<times> byte"
  LogSentDatagramTraffic :: "'l \<Rightarrow> string \<Rightarrow> int \<Rightarrow> int \<Rightarrow> 'l \<times> byte"
  asContext :: "'l contextLogger option"

record 'l trafficLogger =
  LogTraffic :: "'l \<Rightarrow> string \<Rightarrow> int \<Rightarrow> int \<Rightarrow> 'l \<times> bool"
  asSent :: "('l \<Rightarrow> string \<Rightarrow> int \<Rightarrow> int \<Rightarrow> 'l \<times> bool) option"
  asVerdict :: "'l verdictLogger option"
  asOptOut :: "bool option"

definition wantsStreamStats :: "'l trafficLogger option \<Rightarrow> bool" where
  "wantsStreamStats l =
     (case l of
        None \<Rightarrow> False
      | Some l \<Rightarrow> (case asOptOut l of Some wants \<Rightarrow> wants | None \<Rightarrow> True))"

section \<open>Recording what a logger is charged\<close>

type_synonym log_call = "string \<times> int \<times> int"

definition rec_call ::
  "('l \<Rightarrow> string \<Rightarrow> int \<Rightarrow> int \<Rightarrow> 'l \<times> 'a) \<Rightarrow> 'l \<times> log_call list \<Rightarrow> string \<Rightarrow> int \<Rightarrow> int
     \<Rightarrow> ('l \<times> log_call list) \<times> 'a" where
  "rec_call m s i tx rx = (case m (fst s) i tx rx of (l, a) \<Rightarrow> ((l, snd s @ [(i, tx, rx)]), a))"

definition rec_context :: "'l contextLogger \<Rightarrow> ('l \<times> log_call list) contextLogger" where
  "rec_context c =
     \<lparr>LogStreamTrafficContext = (\<lambda>done. rec_call (LogStreamTrafficContext c done)),
      LogSentDatagramTrafficContext = (\<lambda>done. rec_call (LogSentDatagramTrafficContext c done))\<rparr>"

definition rec_verdict :: "'l verdictLogger \<Rightarrow> ('l \<times> log_call list) verdictLogger" where
  "rec_verdict v =
     \<lparr>LogStreamTraffic = rec_call (LogStreamTraffic v),
      LogDatagramTraffic = rec_call (LogDatagramTraffic v),
      LogSentDatagramTraffic = rec_call (LogSentDatagramTraffic v),
      asContext = map_option rec_context (asContext v)\<rparr>"

definition recording :: "'l trafficLogger \<Rightarrow> ('l \<times> log_call list) trafficLogger" where
  "recording l =
     \<lparr>LogTraffic = rec_call (LogTraffic l), asSent = map_option rec_call (asSent l),
      asVerdict = map_option rec_verdict (asVerdict l), asOptOut = asOptOut l\<rparr>"

definition charged_tx :: "log_call list \<Rightarrow> int" where
  "charged_tx cs = sum_list (map (\<lambda>(i, tx, rx). tx) cs)"

definition charged_rx :: "log_call list \<Rightarrow> int" where
  "charged_rx cs = sum_list (map (\<lambda>(i, tx, rx). rx) cs)"

lemma charged_simps [simp]:
  "charged_tx [] = 0" "charged_rx [] = 0"
  "charged_tx (cs @ cs') = charged_tx cs + charged_tx cs'"
  "charged_rx (cs @ cs') = charged_rx cs + charged_rx cs'"
  "charged_tx ((i, tx, rx) # cs) = tx + charged_tx cs"
  "charged_rx ((i, tx, rx) # cs) = rx + charged_rx cs"
  by (simp_all add: charged_tx_def charged_rx_def)

lemma rec_call_state: "snd (fst (rec_call m s i tx rx)) = snd s @ [(i, tx, rx)]"
  by (simp add: rec_call_def split: prod.splits)

end
