(* ===== verification/Server_Io.thy ===== *)
theory Server_Io
  imports Server_Udp Traffic "HOL-Library.Sublist"
begin

text \<open>
  \<open>udpIOImpl\<close> of \<open>core/server/server.go\<close>: what the server's UDP sessions use to exchange messages
  with the client, with the traffic logger's accounting, and the hook and outbound behind them.

  The world of the connection is the logger's state, the datagrams that were handed to QUIC and
  accepted, and the codes the connection was closed with.  \<open>quic_send\<close> is \<open>SendDatagram\<close>: its answer
  depends on what was sent before.
\<close>

section \<open>The methods\<close>

definition closeErrCodeOK :: nat where "closeErrCodeOK = 0x100"
definition closeErrCodeTrafficLimitReached :: nat where "closeErrCodeTrafficLimitReached = 0x107"

record 'l udpIO =
  uio_AuthID :: string
  uio_TrafficLogger :: "'l trafficLogger option"
  uio_RequestHook :: "requestHook option"
  uio_Outbound :: outbound
  uio_Cancelled :: bool
  uio_CanAdmitSession :: "(u32 \<Rightarrow> bool) option"

record 'l io_world =
  iw_logger :: 'l
  iw_sent :: "bytes list"
  iw_closed :: "nat list"

definition close_limit :: "'l io_world \<Rightarrow> 'l io_world" where
  "close_limit w = w\<lparr>iw_closed := iw_closed w @ [closeErrCodeTrafficLimitReached]\<rparr>"

text \<open>
  \<open>ReceiveMessage\<close> on the datagrams QUIC delivers, \<open>Inl\<close> an error of the connection: the loop drops
  what does not parse, what may not be admitted and what the logger rejects.  The result is
  \<open>None\<close> while it waits for the next datagram; the rest of the datagrams is returned.
\<close>

fun ReceiveMessage ::
  "(bytes \<Rightarrow> io_error + (u64w \<times> nat)) \<Rightarrow> 'l udpIO \<Rightarrow> 'l io_world \<Rightarrow> (string + bytes) list
     \<Rightarrow> 'l io_world \<times> (string + udp_message) option \<times> (string + bytes) list" where
  "ReceiveMessage qparse u w [] = (w, None, [])"
| "ReceiveMessage qparse u w (Inl err # ds) = (w, Some (Inl err), ds)"
| "ReceiveMessage qparse u w (Inr d # ds) =
     (case ParseUDPMessage qparse d of
        Inl _ \<Rightarrow> ReceiveMessage qparse u w ds
      | Inr m \<Rightarrow>
          if (case uio_CanAdmitSession u of Some admit \<Rightarrow> \<not> admit (SessionID m) | None \<Rightarrow> False)
          then ReceiveMessage qparse u w ds
          else
            (case uio_TrafficLogger u of
               None \<Rightarrow> (w, Some (Inr m), ds)
             | Some L \<Rightarrow>
                 (case asVerdict L of
                    Some V \<Rightarrow>
                      (case LogDatagramTraffic V (iw_logger w) (uio_AuthID u) (int (length (Data m))) 0 of
                         (l, v) \<Rightarrow>
                           (let w = w\<lparr>iw_logger := l\<rparr>
                            in if v = TrafficAccept then (w, Some (Inr m), ds)
                               else if v = TrafficReject then ReceiveMessage qparse u w ds
                               else (close_limit w, Some (Inl ''traffic logger requested disconnect''), ds)))
                  | None \<Rightarrow>
                      (case LogTraffic L (iw_logger w) (uio_AuthID u) (int (length (Data m))) 0 of
                         (l, ok) \<Rightarrow>
                           (let w = w\<lparr>iw_logger := l\<rparr>
                            in if ok then (w, Some (Inr m), ds)
                               else (close_limit w, Some (Inl ''traffic logger requested disconnect''), ds))))))"

text \<open>The logger's part of \<open>SendMessage\<close>, after the datagram has left.\<close>

definition log_sent :: "'l udpIO \<Rightarrow> 'l io_world \<Rightarrow> int \<Rightarrow> 'l io_world \<times> send_result" where
  "log_sent u w n =
     (case uio_TrafficLogger u of
        None \<Rightarrow> (w, SendOk)
      | Some L \<Rightarrow>
          (let disconnect = (\<lambda>w. (close_limit w, SendErr ''traffic logger requested disconnect''))
           in case asVerdict L of
                Some V \<Rightarrow>
                  (case (case asContext V of
                           Some c \<Rightarrow> LogSentDatagramTrafficContext c (uio_Cancelled u) (iw_logger w) (uio_AuthID u) 0 n
                         | None \<Rightarrow> LogSentDatagramTraffic V (iw_logger w) (uio_AuthID u) 0 n) of
                     (l, v) \<Rightarrow>
                       (let w = w\<lparr>iw_logger := l\<rparr>
                        in if v = TrafficDisconnect then disconnect w else (w, SendOk)))
              | None \<Rightarrow>
                  (case (case asSent L of
                           Some sent \<Rightarrow> sent (iw_logger w) (uio_AuthID u) 0 n
                         | None \<Rightarrow> LogTraffic L (iw_logger w) (uio_AuthID u) 0 n) of
                     (l, ok) \<Rightarrow>
                       (let w = w\<lparr>iw_logger := l\<rparr> in if ok then (w, SendOk) else disconnect w))))"

text \<open>\<open>None\<close> is a panic in \<open>Serialize\<close>.\<close>

definition SendMessage ::
  "(u64w \<Rightarrow> nat) \<Rightarrow> (bytes list \<Rightarrow> bytes \<Rightarrow> send_result) \<Rightarrow> 'l udpIO \<Rightarrow> bytes \<Rightarrow> 'l io_world \<Rightarrow> udp_message
     \<Rightarrow> ('l io_world \<times> send_result) option" where
  "SendMessage qlen quic_send u buf w m =
     (case Serialize qlen m buf of
        None \<Rightarrow> None
      | Some (buf, msgN) \<Rightarrow>
          if msgN < 0 then Some (w, SendOk)
          else (let d = take (nat msgN) buf
                in case quic_send (iw_sent w) d of
                     SendOk \<Rightarrow> Some (log_sent u (w\<lparr>iw_sent := iw_sent w @ [d]\<rparr>) (int (length (Data m))))
                   | r \<Rightarrow> Some (w, r)))"

definition udpIO_Hook :: "'l udpIO \<Rightarrow> bytes \<Rightarrow> string \<Rightarrow> string option \<times> string" where
  "udpIO_Hook u d reqAddr =
     (case uio_RequestHook u of
        Some h \<Rightarrow> if hook_Check h True reqAddr then hook_UDP h d reqAddr else (None, reqAddr)
      | None \<Rightarrow> (None, reqAddr))"

definition udpIO_UDP :: "'l udpIO \<Rightarrow> string \<Rightarrow> string + nat" where
  "udpIO_UDP u reqAddr = dialOutboundUDP (uio_Outbound u) (uio_AuthID u) reqAddr"

definition udpIO_CheckUDP :: "'l udpIO \<Rightarrow> string \<Rightarrow> string option" where
  "udpIO_CheckUDP u reqAddr = ob_CheckUDP (uio_Outbound u) reqAddr"

text \<open>The environment that a session entry of \<open>Server_Udp\<close> gets from it.\<close>

definition udpIO_env :: "'l udpIO \<Rightarrow> int \<Rightarrow> (nat \<Rightarrow> bytes \<Rightarrow> string \<Rightarrow> int \<times> string option) \<Rightarrow> nat \<Rightarrow> udp_env" where
  "udpIO_env u now write draw =
     \<lparr>env_now = now, env_hook = udpIO_Hook u, env_dial = udpIO_UDP u, env_check = udpIO_CheckUDP u,
      env_write = write, env_evict = draw\<rparr>"

section \<open>What is charged towards the client\<close>

definition wire_of :: "udp_message \<Rightarrow> bytes" where
  "wire_of m = udp_wire (the (varint_bytes (word_of_nat (length (Addr m))))) m"

definition payload :: "udp_message list \<Rightarrow> int" where
  "payload ms = int (length (concat (map Data ms)))"

lemma log_sent_ok:
  assumes "uio_TrafficLogger u = Some (recording L)" "log_sent u w n = (w', r)"
  shows "iw_sent w' = iw_sent w" "charged_rx (snd (iw_logger w')) = charged_rx (snd (iw_logger w)) + n"
    "charged_tx (snd (iw_logger w')) = charged_tx (snd (iw_logger w))" "\<nexists>k. r = TooLarge k"
  using assms
  by (auto simp: log_sent_def recording_def rec_verdict_def rec_context_def rec_call_def close_limit_def Let_def
      split: option.splits prod.splits if_splits)

text \<open>What a chain of sends did, with the messages that left.\<close>

definition sent_of ::
  "('l \<times> log_call list) io_world \<Rightarrow> ('l \<times> log_call list) io_world \<Rightarrow> udp_message list \<Rightarrow> bool" where
  "sent_of w w' ms \<longleftrightarrow> iw_sent w' = iw_sent w @ map wire_of ms \<and>
     charged_rx (snd (iw_logger w')) = charged_rx (snd (iw_logger w)) + payload ms \<and>
     charged_tx (snd (iw_logger w')) = charged_tx (snd (iw_logger w))"

lemma sent_of_refl [simp]: "sent_of w w []" by (simp add: sent_of_def payload_def)

lemma sent_of_trans: "sent_of w w1 ms \<Longrightarrow> sent_of w1 w2 ms' \<Longrightarrow> sent_of w w2 (ms @ ms')"
  by (simp add: sent_of_def payload_def)

context quicvarint
begin

lemma SendMessage_fits:
  assumes "Size qlen m \<le> length buf" "length buf = MaxUDPSize"
  shows "SendMessage qlen quic_send u buf w m =
    Some (case quic_send (iw_sent w) (wire_of m) of
            SendOk \<Rightarrow> log_sent u (w\<lparr>iw_sent := iw_sent w @ [wire_of m]\<rparr>) (int (length (Data m)))
          | r \<Rightarrow> (w, r))"
proof -
  have "length (Addr m) \<le> MaxUDPSize" using assms by (simp add: Size_def HeaderSize_def Let_def)
  then obtain va where va: "varint_bytes (word_of_nat (length (Addr m))) = Some va"
    by (rule_tac small_length_varint [of "length (Addr m)"]) (simp add: MaxUDPSize_def)
  have sz: "Size qlen m = length (udp_wire va m)"
    by (simp add: Size_def HeaderSize_def Let_def qlen_varint_bytes [OF va] length_udp_wire)
  have ser: "Serialize qlen m buf =
      Some (udp_wire va m @ drop (length (udp_wire va m)) buf, int (length (udp_wire va m)))"
    using assms(1) sz by (intro Serialize_bytes [OF va]) simp
  have wire: "udp_wire va m = wire_of m" by (simp add: wire_of_def va)
  show ?thesis by (simp add: SendMessage_def ser wire split: send_result.split)
qed

lemma SendMessage_ok:
  assumes L: "uio_TrafficLogger u = Some (recording L)" and buf: "length buf = MaxUDPSize"
  obtains w' r where "SendMessage qlen quic_send u buf w m = Some (w', r)"
    "sent_of w w' [] \<and> (r = SendOk \<longrightarrow> MaxUDPSize < Size qlen m) \<and> ((\<exists>k. r = TooLarge k) \<longrightarrow> Size qlen m \<le> MaxUDPSize) \<or>
     sent_of w w' [m] \<and> (\<nexists>k. r = TooLarge k)"
proof (cases "Size qlen m \<le> length buf")
  case False
  then have "SendMessage qlen quic_send u buf w m = Some (w, SendOk)"
    by (simp add: SendMessage_def Serialize_def)
  then show ?thesis using False buf by (intro that) auto
next
  case True
  note S = SendMessage_fits [OF True buf, of quic_send u w]
  show ?thesis
  proof (cases "quic_send (iw_sent w) (wire_of m)")
    case SendOk
    obtain w' r where lg: "log_sent u (w\<lparr>iw_sent := iw_sent w @ [wire_of m]\<rparr>) (int (length (Data m))) = (w', r)"
      by fastforce
    moreover have "sent_of w w' [m]" "\<nexists>k. r = TooLarge k"
      using log_sent_ok [OF L lg] by (simp_all add: sent_of_def payload_def)
    ultimately show ?thesis using S SendOk by (intro that) auto
  qed (use S True buf that in auto)
qed

lemma send_frags_ok:
  assumes L: "uio_TrafficLogger u = Some (recording L)" and buf: "length buf = MaxUDPSize"
    and fit: "\<forall>f \<in> set fs. Size qlen f \<le> MaxUDPSize"
    and run: "send_frags (\<lambda>w m. the (SendMessage qlen quic_send u buf w m)) w fs = (w', r)"
  shows "\<exists>k. sent_of w w' (take k fs) \<and> (r = SendOk \<longrightarrow> length fs \<le> k)"
  using fit run
proof (induction fs arbitrary: w)
  case (Cons f fs)
  obtain w1 r1 where s: "SendMessage qlen quic_send u buf w f = Some (w1, r1)" and
    c: "sent_of w w1 [] \<and> (r1 = SendOk \<longrightarrow> MaxUDPSize < Size qlen f) \<or> sent_of w w1 [f]"
    using SendMessage_ok [OF L buf, of quic_send w f] by metis
  show ?case
  proof (cases "r1 = SendOk")
    case True
    then have 1: "sent_of w w1 [f]" using c Cons.prems(1) by auto
    obtain k where "sent_of w1 w' (take k fs)" "r = SendOk \<longrightarrow> length fs \<le> k"
      using Cons True s by auto
    then show ?thesis using sent_of_trans [OF 1] by (intro exI [of _ "Suc k"]) simp
  next
    case False
    then have "(w', r) = (w1, r1)" using Cons.prems(2) s by (cases r1) auto
    then have e: "w' = w1" "r \<noteq> SendOk" using False by auto
    from c have "sent_of w w1 (take 0 (f # fs)) \<or> sent_of w w1 (take 1 (f # fs))" by auto
    then show ?thesis using e by blast
  qed
qed auto

lemma FragUDPMessage_payload:
  assumes "FragUDPMessage qlen m maxSize = Some fs"
  shows "fs = [] \<or> concat (map Data fs) = Data m" "\<forall>f \<in> set fs. Size qlen f \<le> Size qlen m"
proof -
  have "(fs = [] \<or> concat (map Data fs) = Data m) \<and> (\<forall>f \<in> set fs. Size qlen f \<le> Size qlen m)"
  proof (cases "maxSize < int (Size qlen m) \<and> int (HeaderSize qlen m) < maxSize")
    case True
    define mps where "mps = nat (maxSize - int (HeaderSize qlen m))"
    note F = FragUDPMessage_fragmented [OF conjunct1 [OF True] conjunct2 [OF True] assms, folded mps_def]
    have "concat (map Data fs) = Data m"
      using F fragmentedD [OF F(1)] concat_fragments [of mps _ m] by simp
    moreover have "Size qlen (nth_frag mps m i) \<le> Size qlen m" for i
      by (simp add: Size_def HeaderSize_def fragment_def)
    ultimately show ?thesis using F(2) by auto
  next
    case False
    then have "fs = [m] \<or> fs = []" using assms by (auto simp: FragUDPMessage_def Let_def split: if_splits)
    then show ?thesis by auto
  qed
  then show "fs = [] \<or> concat (map Data fs) = Data m" "\<forall>f \<in> set fs. Size qlen f \<le> Size qlen m" by simp_all
qed

lemma autofrag_sent:
  assumes L: "uio_TrafficLogger u = Some (recording L)" and buf: "length buf = MaxUDPSize"
    and run: "sendMessageAutoFrag qlen (\<lambda>w m. the (SendMessage qlen quic_send u buf w m)) draw w m = Some (w', r)"
  shows "\<exists>ms. sent_of w w' ms \<and> prefix (concat (map Data ms)) (Data m) \<and>
    (r = SendOk \<longrightarrow> ms = [] \<or> concat (map Data ms) = Data m)"
proof -
  obtain w1 r1 where s: "SendMessage qlen quic_send u buf w m = Some (w1, r1)" and
    c: "sent_of w w1 [] \<and> (r1 = SendOk \<longrightarrow> MaxUDPSize < Size qlen m) \<and> ((\<exists>k. r1 = TooLarge k) \<longrightarrow> Size qlen m \<le> MaxUDPSize) \<or>
      sent_of w w1 [m] \<and> (\<nexists>k. r1 = TooLarge k)"
    using SendMessage_ok [OF L buf, of quic_send w m] by metis
  show ?thesis
  proof (cases "\<exists>k. r1 = TooLarge k")
    case False
    then have e: "w' = w1" "r = r1" using run s by (auto simp: sendMessageAutoFrag_def split: send_result.splits)
    from c have "sent_of w w1 [] \<or> sent_of w w1 [m]" by blast
    then show ?thesis
    proof
      assume "sent_of w w1 []" then show ?thesis by (intro exI [of _ "[]"]) (simp add: e)
    next
      assume "sent_of w w1 [m]" then show ?thesis by (intro exI [of _ "[m]"]) (simp add: e)
    qed
  next
    case True
    then obtain k where k: "r1 = TooLarge k" by blast
    define m' where "m' = m\<lparr>PacketID := randPacketID draw\<rparr>"
    have m': "Data m' = Data m" "Size qlen m' = Size qlen m"
      by (simp_all add: m'_def Size_def HeaderSize_def)
    obtain fs where fs: "FragUDPMessage qlen m' k = Some fs" and
      fr: "send_frags (\<lambda>w m. the (SendMessage qlen quic_send u buf w m)) w1 fs = (w', r)"
      using run s k by (auto simp: sendMessageAutoFrag_def m'_def Let_def split: option.splits)
    note P = FragUDPMessage_payload [OF fs, unfolded m']
    have w1: "sent_of w w1 []" and sz: "Size qlen m \<le> MaxUDPSize" using c True by auto
    have "\<forall>f \<in> set fs. Size qlen f \<le> MaxUDPSize" using P(2) sz by auto
    from send_frags_ok [OF L buf this fr] obtain j where
      j: "sent_of w1 w' (take j fs)" "r = SendOk \<longrightarrow> length fs \<le> j" by blast
    have "prefix (concat (map Data (take j fs))) (concat (map Data fs))"
    proof -
      have "concat (map Data fs) = concat (map Data (take j fs)) @ concat (map Data (drop j fs))"
        by (metis append_take_drop_id concat_append map_append)
      then show ?thesis by simp
    qed
    then have "prefix (concat (map Data (take j fs))) (Data m)" using P(1) by auto
    moreover have "r = SendOk \<longrightarrow> take j fs = [] \<or> concat (map Data (take j fs)) = Data m"
      using j(2) P(1) by auto
    moreover have "sent_of w w' (take j fs)" using sent_of_trans [OF w1 j(1)] by simp
    ultimately show ?thesis by blast
  qed
qed

end

text \<open>
  C5: A reply to the client is charged for exactly the datagrams that left, never twice: whether it
  went out whole, was refused as too large and sent again in fragments, or stopped half-way, the
  charge is the payload of the datagrams QUIC accepted, these carry a prefix of the reply's data,
  and all of it when the call succeeds and anything was sent.
\<close>

theorem downstream_charged_once:
  assumes "quicvarint qlen qread qparse" "uio_TrafficLogger u = Some (recording L)" "length buf = MaxUDPSize"
    and "sendMessageAutoFrag qlen (\<lambda>w m. the (SendMessage qlen quic_send u buf w m)) draw w m = Some (w', r)"
  shows "\<exists>ms. sent_of w w' ms \<and> prefix (concat (map Data ms)) (Data m) \<and>
    (r = SendOk \<longrightarrow> ms = [] \<or> concat (map Data ms) = Data m)"
  using quicvarint.autofrag_sent [OF assms] .

definition free_logger :: "unit trafficLogger" where
  "free_logger = \<lparr>LogTraffic = (\<lambda>l i tx rx. (l, True)), asSent = None, asVerdict = None, asOptOut = None\<rparr>"

definition example_io :: "(unit \<times> log_call list) udpIO" where
  "example_io = \<lparr>uio_AuthID = ''u'', uio_TrafficLogger = Some (recording free_logger), uio_RequestHook = None,
     uio_Outbound = \<lparr>ob_TCP = (\<lambda>a. Inr 0), ob_UDP = (\<lambda>a. Inr 0), ob_CheckUDP = (\<lambda>a. None),
       asAuthenticated = None, asAuthenticatedUDP = None\<rparr>,
     uio_Cancelled = False, uio_CanAdmitSession = None\<rparr>"

definition example_reply :: udp_message where
  "example_reply = \<lparr>SessionID = 7, PacketID = 0, FragID = 0, FragCount = 1, Addr = ''a:1'', Data = [1, 2, 3, 4, 5, 6]\<rparr>"

text \<open>A link that takes datagrams of 16 bytes: the reply of 18 bytes leaves in two fragments.\<close>

definition narrow_link :: "bytes list \<Rightarrow> bytes \<Rightarrow> send_result" where
  "narrow_link sent d = (if 16 < length d then TooLarge 16 else SendOk)"

text \<open>The fragments of the reply on the narrow link.\<close>

abbreviation example_piece :: "byte \<Rightarrow> bytes \<Rightarrow> udp_message" where
  "example_piece i d \<equiv> example_reply\<lparr>PacketID := 42, FragID := i, FragCount := 2, Data := d\<rparr>"

lemma narrow_run:
  "\<exists>w'. sendMessageAutoFrag rfc_len (\<lambda>w m. the (SendMessage rfc_len narrow_link example_io (replicate MaxUDPSize 0) w m))
      41 \<lparr>iw_logger = ((), []), iw_sent = [], iw_closed = []\<rparr> example_reply = Some (w', SendOk) \<and>
    iw_sent w' = [wire_of (example_piece 0 [1, 2, 3, 4]), wire_of (example_piece 1 [5, 6])]"
proof -
  let ?w = "\<lparr>iw_logger = ((), []), iw_sent = [], iw_closed = []\<rparr> :: (unit \<times> log_call list) io_world"
  let ?f1 = "example_reply\<lparr>PacketID := 42, FragID := 0, FragCount := 2, Data := [1, 2, 3, 4]\<rparr>"
  let ?f2 = "example_reply\<lparr>PacketID := 42, FragID := 1, FragCount := 2, Data := [5, 6]\<rparr>"
  define buf where "buf = replicate MaxUDPSize (0 :: byte)"
  have bl: "length buf = MaxUDPSize" by (simp add: buf_def)
  have "18 \<le> length buf" unfolding bl MaxUDPSize_def by simp
  note buf = bl this
  have sz: "Size rfc_len example_reply = 18" "Size rfc_len ?f1 = 16" "Size rfc_len ?f2 = 14" by code_simp+
  have wl: "length (wire_of example_reply) = 18" "length (wire_of ?f1) = 16" "length (wire_of ?f2) = 14" by code_simp+
  have hs: "HeaderSize rfc_len (example_reply\<lparr>PacketID := 42\<rparr>) = 12"
    "Size rfc_len (example_reply\<lparr>PacketID := 42\<rparr>) = 18" by code_simp+
  have pid: "randPacketID 41 = 42" by (simp add: randPacketID_def intn_def)
  have fr: "FragUDPMessage rfc_len (example_reply\<lparr>PacketID := randPacketID 41\<rparr>) 16 = Some [?f1, ?f2]"
    using FragUDPMessage_too_large [of 16 rfc_len "example_reply\<lparr>PacketID := 42\<rparr>" 4]
    by (simp add: hs [unfolded example_reply_def, simplified] pid nfrags_def fragment_def example_reply_def upt_rec)
  note S = rfc.SendMessage_fits [OF _ buf(1), of _ narrow_link example_io]
  let ?send = "\<lambda>w m. the (SendMessage rfc_len narrow_link example_io buf w m)"
  have s0: "?send w example_reply = (w, TooLarge 16)" for w
    using S [of example_reply w] buf(2) by (simp add: sz wl narrow_link_def)
  have s1: "?send w ?f1 = log_sent example_io (w\<lparr>iw_sent := iw_sent w @ [wire_of ?f1]\<rparr>) 4" for w
    using S [of ?f1 w] buf(2) by (simp add: sz wl narrow_link_def)
  have s2: "?send w ?f2 = log_sent example_io (w\<lparr>iw_sent := iw_sent w @ [wire_of ?f2]\<rparr>) 2" for w
    using S [of ?f2 w] buf(2) by (simp add: sz wl narrow_link_def)
  have lg: "log_sent example_io w n =
      (w\<lparr>iw_logger := (fst (iw_logger w), snd (iw_logger w) @ [(''u'', 0, n)])\<rparr>, SendOk)" for w n
    by (cases "iw_logger w") (simp add: log_sent_def example_io_def recording_def rec_call_def free_logger_def)
  have "\<exists>w'. sendMessageAutoFrag rfc_len ?send 41 ?w example_reply = Some (w', SendOk) \<and>
      iw_sent w' = [wire_of ?f1, wire_of ?f2]"
    unfolding sendMessageAutoFrag_def s0 by (simp add: fr s1 s2 lg)
  then show ?thesis unfolding buf_def .
qed

lemma downstream_charged_once_witness:
  "\<exists>w'. sendMessageAutoFrag rfc_len (\<lambda>w m. the (SendMessage rfc_len narrow_link example_io (replicate MaxUDPSize 0) w m))
      41 \<lparr>iw_logger = ((), []), iw_sent = [], iw_closed = []\<rparr> example_reply = Some (w', SendOk) \<and>
    charged_rx (snd (iw_logger w')) = 6"
proof -
  let ?w = "\<lparr>iw_logger = ((), []), iw_sent = [], iw_closed = []\<rparr> :: (unit \<times> log_call list) io_world"
  obtain w' where w': "sendMessageAutoFrag rfc_len
      (\<lambda>w m. the (SendMessage rfc_len narrow_link example_io (replicate MaxUDPSize 0) w m)) 41 ?w example_reply =
      Some (w', SendOk)" "iw_sent w' \<noteq> []" using narrow_run by auto
  from downstream_charged_once [OF rfc.quicvarint_axioms _ length_replicate w'(1), of free_logger] obtain ms where
    ms: "sent_of ?w w' ms" "ms = [] \<or> concat (map Data ms) = Data example_reply"
    by (auto simp: example_io_def)
  then have "concat (map Data ms) = Data example_reply" using w'(2) by (auto simp: sent_of_def)
  then have "charged_rx (snd (iw_logger w')) = 6"
    using ms(1) by (simp add: sent_of_def payload_def example_reply_def)
  with w'(1) show ?thesis by blast
qed

section \<open>What is charged from the client\<close>

text \<open>The messages of some datagrams that parse and may be admitted.\<close>

definition offered ::
  "(bytes \<Rightarrow> io_error + (u64w \<times> nat)) \<Rightarrow> 'l udpIO \<Rightarrow> (string + bytes) list \<Rightarrow> udp_message list" where
  "offered qparse u ds = concat (map (\<lambda>x. case x of
       Inl _ \<Rightarrow> []
     | Inr d \<Rightarrow> (case ParseUDPMessage qparse d of
                   Inl _ \<Rightarrow> []
                 | Inr m \<Rightarrow> (if (case uio_CanAdmitSession u of Some admit \<Rightarrow> \<not> admit (SessionID m) | None \<Rightarrow> False)
                           then [] else [m]))) ds)"

lemma offered_simps [simp]:
  "offered qparse u [] = []"
  "offered qparse u (Inl e # ds) = offered qparse u ds"
  "ParseUDPMessage qparse d = Inl err \<Longrightarrow> offered qparse u (Inr d # ds) = offered qparse u ds"
  by (simp_all add: offered_def)

definition received ::
  "(bytes \<Rightarrow> io_error + (u64w \<times> nat)) \<Rightarrow> ('l \<times> log_call list) udpIO \<Rightarrow> ('l \<times> log_call list) io_world
     \<Rightarrow> ('l \<times> log_call list) io_world \<Rightarrow> (string + bytes) list \<Rightarrow> (string + udp_message) option \<Rightarrow> bool" where
  "received qparse u w w' used res \<longleftrightarrow>
     charged_tx (snd (iw_logger w')) = charged_tx (snd (iw_logger w)) + payload (offered qparse u used) \<and>
     charged_rx (snd (iw_logger w')) = charged_rx (snd (iw_logger w)) \<and> iw_sent w' = iw_sent w \<and>
     (case res of
        None \<Rightarrow> iw_closed w' = iw_closed w
      | Some (Inl err) \<Rightarrow> used \<noteq> [] \<and>
          (last used = Inl err \<and> iw_closed w' = iw_closed w \<or>
           iw_closed w' = iw_closed w @ [closeErrCodeTrafficLimitReached])
      | Some (Inr m) \<Rightarrow> used \<noteq> [] \<and> offered qparse u [last used] = [m] \<and> iw_closed w' = iw_closed w)"

lemma received_skip:
  assumes "received qparse u w1 w' used res" "iw_sent w1 = iw_sent w" "iw_closed w1 = iw_closed w"
    "charged_tx (snd (iw_logger w1)) = charged_tx (snd (iw_logger w)) + payload (offered qparse u [x])"
    "charged_rx (snd (iw_logger w1)) = charged_rx (snd (iw_logger w))"
  shows "received qparse u w w' (x # used) res"
proof -
  have "payload (offered qparse u (x # used)) = payload (offered qparse u [x]) + payload (offered qparse u used)"
    by (simp add: offered_def payload_def)
  then show ?thesis using assms by (auto simp: received_def split: option.splits sum.splits)
qed

lemma ReceiveMessage_ok:
  assumes L: "uio_TrafficLogger u = Some (recording L)"
    and run: "ReceiveMessage qparse u w ds = (w', res, rest)"
  shows "\<exists>used. ds = used @ rest \<and> received qparse u w w' used res"
  using run
proof (induction ds arbitrary: w)
  case Nil
  then show ?case by (intro exI [of _ "[]"]) (auto simp: received_def payload_def)
next
  case (Cons x ds)
  have skip: ?case if "ReceiveMessage qparse u w1 ds = (w', res, rest)"
    "iw_sent w1 = iw_sent w" "iw_closed w1 = iw_closed w"
    "charged_tx (snd (iw_logger w1)) = charged_tx (snd (iw_logger w)) + payload (offered qparse u [x])"
    "charged_rx (snd (iw_logger w1)) = charged_rx (snd (iw_logger w))" for w1
    using Cons.IH [OF that(1)] received_skip [OF _ that(2-5)] by (metis append_Cons)
  have stop: ?case if "rest = ds" "received qparse u w w' [x] res"
    using that by (intro exI [of _ "[x]"]) simp
  show ?case
  proof (cases x)
    case (Inl err)
    then show ?thesis using Cons.prems by (intro stop) (auto simp: received_def payload_def)
  next
    case (Inr d)
    show ?thesis
    proof (cases "ParseUDPMessage qparse d")
      case (Inl e)
      then show ?thesis using Cons.prems Inr by (intro skip [of w]) (auto simp: payload_def)
    next
      case m: (Inr m)
      show ?thesis
      proof (cases "case uio_CanAdmitSession u of Some admit \<Rightarrow> \<not> admit (SessionID m) | None \<Rightarrow> False")
        case True
        then have "offered qparse u [x] = []" using Inr m by (simp add: offered_def)
        then show ?thesis using Cons.prems Inr m True by (intro skip [of w]) (auto simp: payload_def)
      next
        case False
        then have off: "offered qparse u [x] = [m]" using Inr m by (simp add: offered_def)
        have pay: "payload (offered qparse u [x]) = int (length (Data m))" by (simp add: off payload_def)
        obtain L0 C0 where L0: "iw_logger w = (L0, C0)" by fastforce
        show ?thesis
        proof (cases "asVerdict L")
          case None
          obtain l ok where lt: "LogTraffic L L0 (uio_AuthID u) (int (length (Data m))) 0 = (l, ok)" by fastforce
          show ?thesis
            using Cons.prems Inr m False L lt None L0
            by (intro stop)
              (auto simp: received_def off [unfolded Inr] payload_def recording_def rec_call_def close_limit_def Let_def split: if_splits)
        next
          case (Some V)
          obtain l v where lt: "LogDatagramTraffic V L0 (uio_AuthID u) (int (length (Data m))) 0 = (l, v)" by fastforce
          let ?w1 = "w\<lparr>iw_logger := (l, C0 @ [(uio_AuthID u, int (length (Data m)), 0)])\<rparr>"
          have run: "(w', res, rest) =
              (if v = TrafficAccept then (?w1, Some (Inr m), ds)
               else if v = TrafficReject then ReceiveMessage qparse u ?w1 ds
               else (close_limit ?w1, Some (Inl ''traffic logger requested disconnect''), ds))"
            using Cons.prems Inr m False L lt Some L0
            by (simp add: recording_def rec_verdict_def rec_call_def Let_def)
          show ?thesis
          proof (cases "v = TrafficReject")
            case True
            then have "ReceiveMessage qparse u ?w1 ds = (w', res, rest)"
              using run by (simp add: TrafficReject_def TrafficAccept_def)
            then show ?thesis using L0 pay by (intro skip [of ?w1]) auto
          next
            case False
            then show ?thesis
              using run L0 off pay
              by (intro stop) (auto simp: received_def close_limit_def split: if_splits)
          qed
        qed
      qed
    qed
  qed
qed

text \<open>
  From the client, exactly the datagrams that parse and may be admitted are charged, each once
  and before it is forwarded, rejected ones included; what does not parse or is refused a session is
  dropped uncharged.  A message that is returned is the last datagram's, nothing else is returned
  or lost, and the connection is closed only when the logger asks for it.
\<close>

theorem upstream_charged_exactly:
  assumes "uio_TrafficLogger u = Some (recording L)" "ReceiveMessage qparse u w ds = (w', res, rest)"
  shows "\<exists>used. ds = used @ rest \<and> received qparse u w w' used res"
  using ReceiveMessage_ok [OF assms] .

lemma upstream_charged_exactly_witness:
  "\<exists>w'. ReceiveMessage rfc_parse example_io \<lparr>iw_logger = ((), []), iw_sent = [], iw_closed = []\<rparr>
      [Inr [1], Inr [0, 0, 0, 7, 0, 0, 0, 1, 3, 97, 58, 49, 5, 6], Inl ''closed''] =
      (w', Some (Inr (example_reply\<lparr>Data := [5, 6]\<rparr>)), [Inl ''closed'']) \<and>
    charged_tx (snd (iw_logger w')) = 2"
proof -
  let ?d = "[0, 0, 0, 7, 0, 0, 0, 1, 3, 97, 58, 49, 5, 6] :: bytes"
  let ?w = "\<lparr>iw_logger = ((), []), iw_sent = [], iw_closed = []\<rparr> :: (unit \<times> log_call list) io_world"
  have p: "ParseUDPMessage rfc_parse ?d = Inr (example_reply\<lparr>Data := [5, 6]\<rparr>)"
    "ParseUDPMessage rfc_parse [1] = Inl IO_UnexpectedEOF" by code_simp+
  have e: "uio_TrafficLogger example_io = Some (recording free_logger)" "uio_CanAdmitSession example_io = None"
    by (simp_all add: example_io_def)
  obtain w' where run: "ReceiveMessage rfc_parse example_io ?w [Inr [1], Inr ?d, Inl ''closed''] =
      (w', Some (Inr (example_reply\<lparr>Data := [5, 6]\<rparr>)), [Inl ''closed''])"
    by (simp add: p e recording_def rec_call_def free_logger_def)
  obtain used where u: "[Inr [1], Inr ?d, Inl ''closed''] = used @ [Inl ''closed'']"
    "received rfc_parse example_io ?w w' used (Some (Inr (example_reply\<lparr>Data := [5, 6]\<rparr>)))"
    using upstream_charged_exactly [OF e(1) run] by blast
  have "butlast [Inr [1], Inr ?d, Inl ''closed''] = used" unfolding u(1) by simp
  then have "used = [Inr [1], Inr ?d]" by simp
  moreover have "offered rfc_parse example_io [Inr [1], Inr ?d] = [example_reply\<lparr>Data := [5, 6]\<rparr>]"
    by (simp add: offered_def p e)
  ultimately have "charged_tx (snd (iw_logger w')) = 2" using u(2) by (simp add: received_def payload_def)
  with run show ?thesis by blast
qed

end
