(* ===== verification/Server_Auth.thy ===== *)
theory Server_Auth
  imports Server_Config Http_Auth Server_Io
begin

text \<open>
  The connection handler \<open>h3sHandler\<close> of \<open>core/server/server.go\<close>: authentication over HTTP, the
  takeover of proxy streams, the authentication timeout and the end of the connection.  Every
  operation here runs under \<open>authMutex\<close> (\<open>ServeHTTP\<close> holds it across the authenticator's call), so
  the concurrent calls of one connection are a sequence of steps.

  What the embedder answers (authenticator, connection tracker) comes with the call; what the
  handler asks of its surroundings is a list of effects.
\<close>

section \<open>The handler\<close>

record httpRequest =
  rq_Method :: string
  rq_Host :: string
  rq_Path :: string
  rq_Header :: header

datatype h_effect =
    Masq httpRequest
  | AuthCall string int bool string
  | Track string "nat option" bool
  | MarkAuth
  | InstallBrutal int bool
  | InstallConfigured string string
  | RespondOK nat authResponse
  | Online string bool
  | EvConnect string int
  | EvDisconnect string
  | StartUDP string int int
  | StartTCP string bytes
  | Untrack nat
  | CloseConn nat
  | Forget

text \<open>What the embedder answers in a call: its authenticator and, if its traffic logger is one, its
  connection tracker.\<close>

record embedder =
  em_Authenticate :: "string \<Rightarrow> int \<Rightarrow> bool \<times> string"
  em_Track :: "(string \<Rightarrow> nat option \<times> bool) option"

record h3sHandler =
  h_authenticated :: bool
  h_authExpired :: bool
  h_authID :: string
  h_untrack :: "nat option"

definition newH3sHandler :: h3sHandler where
  "newH3sHandler = \<lparr>h_authenticated = False, h_authExpired = False, h_authID = '''', h_untrack = None\<rparr>"

definition authResponse_of :: "config \<Rightarrow> authResponse" where
  "authResponse_of c =
     \<lparr>as_UDPEnabled = (\<not> DisableUDP c), as_Rx = MaxRx c, as_RxAuto = IgnoreClientBandwidth c\<rparr>"

text \<open>The choice of the congestion controller, and the rate that is logged.\<close>

definition negotiate :: "config \<Rightarrow> int \<Rightarrow> int \<times> h_effect" where
  "negotiate c actualTx =
     (let configured = InstallConfigured (CongestionType c) (BBRProfile c)
      in if IgnoreClientBandwidth c then (0, configured)
         else (let actualTx = (if MaxTx c > 0 \<and> actualTx > MaxTx c then MaxTx c else actualTx)
               in if actualTx > 0 then (actualTx, InstallBrutal actualTx (DisableLossCompensation c))
                  else (actualTx, configured)))"

text \<open>The part of \<open>ServeHTTP\<close> once the authenticator has accepted.\<close>

definition auth_accepted :: "config \<Rightarrow> h3sHandler \<Rightarrow> string \<Rightarrow> int \<Rightarrow> h3sHandler \<times> h_effect list" where
  "auth_accepted c h aid rx =
     (let h = h\<lparr>h_authenticated := True, h_authID := aid\<rparr>;
          (actualTx, install) = negotiate c rx
      in (h, [MarkAuth, install, RespondOK StatusAuthOK (authResponse_of c)] @
             (if hasTrafficLogger c then [Online aid True] else []) @
             (if hasEventLogger c then [EvConnect aid actualTx] else []) @
             (if DisableUDP c then [] else [StartUDP aid (UDPIdleTimeout c) (MaxUDPSessions c)])))"

definition ServeHTTP :: "config \<Rightarrow> embedder \<Rightarrow> h3sHandler \<Rightarrow> httpRequest \<Rightarrow> h3sHandler \<times> h_effect list" where
  "ServeHTTP c em h r =
     (if rq_Method r = ''POST'' \<and> rq_Host r = URLHost \<and> rq_Path r = URLPath then
        if h_authExpired h then (h, [Masq r])
        else if h_authenticated h then (h, [RespondOK StatusAuthOK (authResponse_of c)])
        else
          (let authReq = AuthRequestFromHeader (rq_Header r);
               (ok, aid) = em_Authenticate em (aq_Auth authReq) (aq_Rx authReq);
               call = AuthCall (aq_Auth authReq) (aq_Rx authReq) ok aid
           in if \<not> ok then (h, [call, Masq r])
              else (case em_Track em of
                      None \<Rightarrow> (let (h, es) = auth_accepted c h aid (aq_Rx authReq) in (h, call # es))
                    | Some track \<Rightarrow>
                        (let (untrack, accepted) = track aid;
                             h = h\<lparr>h_untrack := untrack\<rparr>;
                             reg = Track aid untrack accepted
                         in if \<not> accepted then (h, [call, reg, Masq r])
                            else (let (h, es) = auth_accepted c h aid (aq_Rx authReq) in (h, call # reg # es)))))
      else (h, [Masq r]))"

text \<open>
  \<open>ProxyStreamHijacker\<close> on the bytes of the stream: whether the handler takes the stream over, which
  starts \<open>handleTCPRequest\<close> on what follows the frame type.
\<close>

definition ProxyStreamHijacker ::
  "(bytes \<Rightarrow> io_error + (u64w \<times> bytes)) \<Rightarrow> h3sHandler \<Rightarrow> u64w \<Rightarrow> bytes \<Rightarrow> string option
     \<Rightarrow> (bool \<times> io_error option) \<times> h_effect list" where
  "ProxyStreamHijacker qread h ft stream err =
     (if err \<noteq> None \<or> \<not> h_authenticated h then ((False, None), [])
      else if ft = FrameTypeTCPRequest then
        (case qread stream of
           Inl e \<Rightarrow> ((False, Some e), [])
         | Inr (_, rest) \<Rightarrow> ((True, None), [StartTCP (h_authID h) rest]))
      else ((False, None), []))"

definition expireIfUnauthenticated :: "h3sHandler \<Rightarrow> h3sHandler \<times> h_effect list" where
  "expireIfUnauthenticated h =
     (if h_authenticated h then (h, []) else (h\<lparr>h_authExpired := True\<rparr>, [CloseConn closeErrCodeOK]))"

definition finish :: "h3sHandler \<Rightarrow> h3sHandler \<times> bool \<times> string \<times> nat option" where
  "finish h = (h\<lparr>h_untrack := None\<rparr>, h_authenticated h, h_authID h, h_untrack h)"

section \<open>A connection's life\<close>

datatype h_event =
    Request httpRequest embedder
  | Stream u64w bytes "string option"
  | AuthTimer

fun h_step ::
  "(bytes \<Rightarrow> io_error + (u64w \<times> bytes)) \<Rightarrow> config \<Rightarrow> h3sHandler \<Rightarrow> h_event \<Rightarrow> h3sHandler \<times> h_effect list" where
  "h_step qread c h (Request r em) = ServeHTTP c em h r"
| "h_step qread c h (Stream ft stream err) = (h, snd (ProxyStreamHijacker qread h ft stream err))"
| "h_step qread c h AuthTimer = (if AuthTimeout c > 0 then expireIfUnauthenticated h else (h, []))"

fun h_run ::
  "(bytes \<Rightarrow> io_error + (u64w \<times> bytes)) \<Rightarrow> config \<Rightarrow> h3sHandler \<Rightarrow> h_event list \<Rightarrow> h3sHandler \<times> h_effect list" where
  "h_run qread c h [] = (h, [])"
| "h_run qread c h (ev # evs) =
     (case h_step qread c h ev of (h, es) \<Rightarrow> (case h_run qread c h evs of (h, es') \<Rightarrow> (h, es @ es')))"

text \<open>\<open>handleClient\<close>: the events while HTTP/3 serves the connection, then the clean-up.\<close>

definition handleClient ::
  "(bytes \<Rightarrow> io_error + (u64w \<times> bytes)) \<Rightarrow> config \<Rightarrow> h_event list \<Rightarrow> h3sHandler \<times> h_effect list" where
  "handleClient qread c evs =
     (let (h, es) = h_run qread c newH3sHandler evs;
          (h, authenticated, authID, untrack) = finish h
      in (h, es @ (case untrack of Some u \<Rightarrow> [Untrack u] | None \<Rightarrow> []) @
           (if authenticated then
              (if hasTrafficLogger c then [Online authID False] else []) @
              (if hasEventLogger c then [EvDisconnect authID] else [])
            else []) @
           [CloseConn closeErrCodeOK, Forget]))"

section \<open>The gate\<close>

text \<open>
  What a connection may do, as an automaton over its effects: nothing is served before the
  authenticator, and the tracker if there is one, have accepted; from then on everything is done in
  the name they accepted, at a rate within both sides' limits, with one UDP manager; an expired
  connection only gets the masquerade.
\<close>

datatype gate = Idle | Accepted string int | Opened string int bool | Expired

fun gate_step :: "config \<Rightarrow> gate \<Rightarrow> h_effect \<Rightarrow> gate option" where
  "gate_step c g (Masq r) = (case g of Accepted _ _ \<Rightarrow> None | _ \<Rightarrow> Some g)"
| "gate_step c Idle (AuthCall a rx ok i) = Some (if ok then Accepted i rx else Idle)"
| "gate_step c Idle (CloseConn n) = Some Expired"
| "gate_step c Expired (CloseConn n) = Some Expired"
| "gate_step c (Accepted i rx) (Track j u ok) =
     (if j = i then Some (if ok then Accepted i rx else Idle) else None)"
| "gate_step c (Accepted i rx) MarkAuth = Some (Opened i rx False)"
| "gate_step c (Opened i rx udp) (InstallBrutal r b) =
     (if \<not> IgnoreClientBandwidth c \<and> 0 < r \<and> r \<le> rx \<and> (MaxTx c \<le> 0 \<or> r \<le> MaxTx c)
      then Some (Opened i rx udp) else None)"
| "gate_step c (Opened i rx udp) (InstallConfigured t p) =
     (if t = CongestionType c \<and> p = BBRProfile c then Some (Opened i rx udp) else None)"
| "gate_step c (Opened i rx udp) (RespondOK code r) =
     (if code = StatusAuthOK \<and> r = authResponse_of c then Some (Opened i rx udp) else None)"
| "gate_step c (Opened i rx udp) (Online j on) = (if j = i \<and> on then Some (Opened i rx udp) else None)"
| "gate_step c (Opened i rx udp) (EvConnect j tx) = (if j = i then Some (Opened i rx udp) else None)"
| "gate_step c (Opened i rx udp) (StartUDP j t m) =
     (if j = i \<and> \<not> udp \<and> \<not> DisableUDP c then Some (Opened i rx True) else None)"
| "gate_step c (Opened i rx udp) (StartTCP j d) = (if j = i then Some (Opened i rx udp) else None)"
| "gate_step c g e = None"

fun gate_run :: "config \<Rightarrow> gate \<Rightarrow> h_effect list \<Rightarrow> gate option" where
  "gate_run c g [] = Some g"
| "gate_run c g (e # es) = (case gate_step c g e of None \<Rightarrow> None | Some g \<Rightarrow> gate_run c g es)"

lemma gate_run_append:
  "gate_run c g (es @ es') = (case gate_run c g es of None \<Rightarrow> None | Some g \<Rightarrow> gate_run c g es')"
  by (induction es arbitrary: g) (auto split: option.split)

definition gate_of :: "config \<Rightarrow> h3sHandler \<Rightarrow> gate \<Rightarrow> bool" where
  "gate_of c h g \<longleftrightarrow>
     (if h_authenticated h then \<not> h_authExpired h \<and> (\<exists>rx. g = Opened (h_authID h) rx (\<not> DisableUDP c))
      else g = (if h_authExpired h then Expired else Idle))"

lemma negotiate_gate:
  "gate_step c (Opened i rx udp) (snd (negotiate c rx)) = Some (Opened i rx udp)"
  by (auto simp: negotiate_def Let_def)

lemma auth_accepted_gate:
  assumes "\<not> h_authExpired h" "auth_accepted c h i rx = (h', es)"
  shows "\<exists>g. gate_run c (Accepted i rx) es = Some g \<and> gate_of c h' g"
proof -
  obtain tx install where n: "negotiate c rx = (tx, install)" by fastforce
  have "gate_step c (Opened i rx False) install = Some (Opened i rx False)"
    using negotiate_gate [of c i rx False] by (simp add: n)
  with assms show ?thesis by (auto simp: auth_accepted_def n gate_of_def)
qed

lemma ServeHTTP_gate:
  assumes "gate_of c h g" "ServeHTTP c em h r = (h', es)"
  shows "\<exists>g'. gate_run c g es = Some g' \<and> gate_of c h' g'"
proof (cases "rq_Method r = ''POST'' \<and> rq_Host r = URLHost \<and> rq_Path r = URLPath \<and>
    \<not> h_authExpired h \<and> \<not> h_authenticated h")
  case False
  then show ?thesis
    using assms by (auto simp: ServeHTTP_def gate_of_def split: if_splits)
next
  case True
  define q where "q = AuthRequestFromHeader (rq_Header r)"
  obtain ok i where auth: "em_Authenticate em (aq_Auth q) (aq_Rx q) = (ok, i)" by fastforce
  have g: "g = Idle" using assms(1) True by (simp add: gate_of_def)
  show ?thesis
  proof (cases ok)
    case False
    then show ?thesis
      using assms True auth g by (auto simp: ServeHTTP_def q_def [symmetric] gate_of_def Let_def)
  next
    case ok: True
    show ?thesis
    proof (cases "em_Track em")
      case None
      obtain h1 es1 where a: "auth_accepted c h i (aq_Rx q) = (h1, es1)" by fastforce
      then show ?thesis
        using auth_accepted_gate [OF _ a] assms True auth ok None g
        by (auto simp: ServeHTTP_def q_def [symmetric] Let_def)
    next
      case (Some track)
      obtain u acc where t: "track i = (u, acc)" by fastforce
      obtain h1 es1 where a: "auth_accepted c (h\<lparr>h_untrack := u\<rparr>) i (aq_Rx q) = (h1, es1)" by fastforce
      show ?thesis
        using auth_accepted_gate [OF _ a] assms True auth ok Some t a g
        by (cases acc) (auto simp: ServeHTTP_def q_def [symmetric] gate_of_def Let_def)
    qed
  qed
qed

lemma h_step_gate:
  assumes "gate_of c h g" "h_step qread c h ev = (h', es)"
  shows "\<exists>g'. gate_run c g es = Some g' \<and> gate_of c h' g'"
proof (cases ev)
  case (Request r em)
  then show ?thesis using ServeHTTP_gate assms by simp
next
  case (Stream ft stream err)
  then have h': "h' = h" using assms(2) by simp
  have "es = [] \<or> h_authenticated h \<and> (\<exists>d. es = [StartTCP (h_authID h) d])"
    using assms(2) Stream by (auto simp: ProxyStreamHijacker_def split: if_splits sum.splits)
  then show ?thesis using assms(1) h' by (auto simp: gate_of_def)
next
  case AuthTimer
  then show ?thesis
    using assms by (auto simp: expireIfUnauthenticated_def gate_of_def split: if_splits)
qed

text \<open>
  C2: Whatever requests, streams and timer a connection sees, in whatever order and however the
  authenticator and tracker answer, the handler obeys the gate: proxying, UDP, the success response
  and the online events start only after acceptance and under the accepted name, Brutal gets a
  positive rate within the client's and the server's limit, an expired connection never
  authenticates, and the handler's fields always tell the gate's state.
\<close>

theorem server_auth_gate:
  "\<exists>g. gate_run c Idle (snd (h_run qread c newH3sHandler evs)) = Some g \<and>
     gate_of c (fst (h_run qread c newH3sHandler evs)) g"
proof -
  have "\<exists>g'. gate_run c g (snd (h_run qread c h evs)) = Some g' \<and> gate_of c (fst (h_run qread c h evs)) g'"
    if "gate_of c h g" for h g
    using that
  proof (induction evs arbitrary: h g)
    case (Cons ev evs)
    obtain h1 es where s: "h_step qread c h ev = (h1, es)" by fastforce
    obtain g1 where "gate_run c g es = Some g1" "gate_of c h1 g1" using h_step_gate [OF Cons.prems s] by blast
    then show ?case using Cons.IH [of h1 g1] by (auto simp: s gate_run_append split: prod.splits)
  qed simp
  then show ?thesis by (simp add: gate_of_def newH3sHandler_def)
qed


section \<open>What a connection leaves behind\<close>

definition onlines :: "h_effect list \<Rightarrow> (string \<times> bool) list" where
  "onlines es = concat (map (\<lambda>e. case e of Online i on \<Rightarrow> [(i, on)] | _ \<Rightarrow> []) es)"

definition tracked :: "h_effect list \<Rightarrow> nat list" where
  "tracked es = concat (map (\<lambda>e. case e of Track i (Some u) ok \<Rightarrow> [u] | _ \<Rightarrow> []) es)"

definition untracked :: "h_effect list \<Rightarrow> nat list" where
  "untracked es = concat (map (\<lambda>e. case e of Untrack u \<Rightarrow> [u] | _ \<Rightarrow> []) es)"

lemma effects_append [simp]:
  "onlines (es @ es') = onlines es @ onlines es'" "tracked (es @ es') = tracked es @ tracked es'"
  "untracked (es @ es') = untracked es @ untracked es'"
  by (simp_all add: onlines_def tracked_def untracked_def)

text \<open>The tracker returns no clean-up for a registration it refuses.\<close>

fun tracker_ok :: "h_event \<Rightarrow> bool" where
  "tracker_ok (Request r em) =
     (case em_Track em of None \<Rightarrow> True | Some track \<Rightarrow> (\<forall>i. \<not> snd (track i) \<longrightarrow> fst (track i) = None))"
| "tracker_ok _ = True"

definition leaves :: "config \<Rightarrow> h3sHandler \<Rightarrow> h_effect list \<Rightarrow> bool" where
  "leaves c h es \<longleftrightarrow> onlines es = (if h_authenticated h \<and> hasTrafficLogger c then [(h_authID h, True)] else []) \<and>
     tracked es = (case h_untrack h of None \<Rightarrow> [] | Some u \<Rightarrow> [u]) \<and> untracked es = []"

lemma auth_accepted_leaves:
  "auth_accepted c h i rx = (h', es) \<Longrightarrow>
     h_authenticated h' \<and> h_authID h' = i \<and> h_untrack h' = h_untrack h \<and> tracked es = [] \<and> untracked es = [] \<and>
     onlines es = (if hasTrafficLogger c then [(i, True)] else [])"
  by (auto simp: auth_accepted_def negotiate_def onlines_def tracked_def untracked_def Let_def split: if_splits)

text \<open>What a step adds: nothing, or the acceptance.\<close>

lemma h_step_leaves:
  assumes "h_step qread c h ev = (h', es)" "tracker_ok ev" "\<not> h_authenticated h \<Longrightarrow> h_untrack h = None"
  shows "(h_authenticated h' = h_authenticated h \<and> h_authID h' = h_authID h \<and> h_untrack h' = h_untrack h \<and>
      onlines es = [] \<and> tracked es = [] \<and> untracked es = []) \<or>
    (\<not> h_authenticated h \<and> h_authenticated h' \<and> leaves c h' es)"
proof (cases ev)
  case (Stream ft stream err)
  then show ?thesis using assms(1)
    by (auto simp: ProxyStreamHijacker_def onlines_def tracked_def untracked_def split: if_splits sum.splits)
next
  case AuthTimer
  then show ?thesis using assms(1)
    by (auto simp: expireIfUnauthenticated_def onlines_def tracked_def untracked_def split: if_splits)
next
  case (Request r em)
  show ?thesis
  proof (cases "rq_Method r = ''POST'' \<and> rq_Host r = URLHost \<and> rq_Path r = URLPath \<and>
      \<not> h_authExpired h \<and> \<not> h_authenticated h")
    case False
    then show ?thesis using assms(1) Request
      by (auto simp: ServeHTTP_def onlines_def tracked_def untracked_def split: if_splits)
  next
    case True
    define q where "q = AuthRequestFromHeader (rq_Header r)"
    obtain ok i where auth: "em_Authenticate em (aq_Auth q) (aq_Rx q) = (ok, i)" by fastforce
    have u0: "h_untrack h = None" using assms(3) True by simp
    note S = assms(1) [unfolded Request h_step.simps ServeHTTP_def q_def [symmetric]]
    show ?thesis
    proof (cases "em_Track em")
      case None
      obtain h1 es1 where a: "auth_accepted c h i (aq_Rx q) = (h1, es1)" by fastforce
      show ?thesis
        using S True auth None a auth_accepted_leaves [OF a] u0
        by (cases ok) (auto simp: Let_def leaves_def onlines_def tracked_def untracked_def)
    next
      case (Some track)
      obtain u acc where t: "track i = (u, acc)" by fastforce
      have "\<not> snd (track i) \<longrightarrow> fst (track i) = None" using assms(2) Request Some by simp
      with t have u: "\<not> acc \<Longrightarrow> u = None" by simp
      obtain h1 es1 where a: "auth_accepted c (h\<lparr>h_untrack := u\<rparr>) i (aq_Rx q) = (h1, es1)" by fastforce
      show ?thesis
        using S True auth Some t a auth_accepted_leaves [OF a] u0 u
        by (cases ok; cases acc)
          (auto simp: Let_def leaves_def onlines_def tracked_def untracked_def split: option.split)
    qed
  qed
qed

lemma h_run_leaves:
  assumes "\<forall>ev \<in> set evs. tracker_ok ev" "\<not> h_authenticated h \<Longrightarrow> h_untrack h = None" "leaves c h es0"
  shows "leaves c (fst (h_run qread c h evs)) (es0 @ snd (h_run qread c h evs))"
  using assms
proof (induction evs arbitrary: h es0)
  case (Cons ev evs)
  obtain h1 es where s: "h_step qread c h ev = (h1, es)" by fastforce
  have "leaves c h1 (es0 @ es) \<and> (\<not> h_authenticated h1 \<longrightarrow> h_untrack h1 = None)"
    using h_step_leaves [OF s] Cons.prems by (auto simp: leaves_def)
  then show ?case using Cons.IH [of h1 "es0 @ es"] Cons.prems(1)
    by (cases "h_run qread c h1 evs") (simp add: s)
qed simp



text \<open>
  Without that contract a clean-up is lost: the next attempt overwrites the stored one.
\<close>

lemma refused_registration_leaks:
  "let r = \<lparr>rq_Method = ''POST'', rq_Host = ''hysteria'', rq_Path = ''/auth'', rq_Header = (\<lambda>_. [])\<rparr>;
       em = (\<lambda>u ok. \<lparr>em_Authenticate = (\<lambda>a tx. (True, ''bob'')), em_Track = Some (\<lambda>i. (Some u, ok))\<rparr>);
       es = snd (handleClient rfc_read example_filled [Request r (em 1 False), Request r (em 2 True)])
   in tracked es = [1, 2] \<and> untracked es = [2]"
  by (simp add: handleClient_def ServeHTTP_def newH3sHandler_def example_filled_def example_config_def URLHost_def
      URLPath_def auth_accepted_def finish_def tracked_def untracked_def negotiate_def Let_def split: prod.splits)

end
