(* ===== verification/Copy.thy ===== *)
theory Copy
  imports Traffic "HOL-Library.Sublist"
begin

text \<open>
  \<open>core/server/copy.go\<close>: the copy loop with its growing buffer and its per-chunk check, and the
  two-way relay with traffic logging, as interleaved iterations of the two copy goroutines.

  The world of a relay: the bytes the two peers have still to deliver, those they have accepted,
  the stream statistics and the logger's state.  What a \<open>Read\<close> or a \<open>Write\<close> does within the contract
  of \<open>io.Reader\<close> and \<open>io.Writer\<close> (how many bytes, which error) is the answer \<open>copy_io\<close> of the
  iteration.
\<close>

section \<open>The copy loop\<close>

datatype copy_error = io_EOF | io_ErrShortWrite | errDisconnect | errStreamRejected | io_error string

definition copyBufMinShift :: nat where "copyBufMinShift = 12"
definition copyBufLevels :: nat where "copyBufLevels = 4"
definition copyGrowReads :: nat where "copyGrowReads = 2"

text \<open>The buffers of \<open>copyBufPools\<close>: 4, 8, 16 and 32 KiB.\<close>

definition copyBufLen :: "nat \<Rightarrow> nat" where
  "copyBufLen lev = 2 ^ (lev + copyBufMinShift)"

record copy_state =
  cp_level :: nat
  cp_fullReads :: nat

definition copy_start :: copy_state where
  "copy_start = \<lparr>cp_level = 0, cp_fullReads = 0\<rparr>"

definition copy_grow :: "copy_state \<Rightarrow> nat \<Rightarrow> copy_state" where
  "copy_grow st nr =
     (let full = (if nr = copyBufLen (cp_level st) then cp_fullReads st + 1 else 0)
      in if full \<ge> copyGrowReads \<and> cp_level st + 1 < copyBufLevels
         then \<lparr>cp_level = cp_level st + 1, cp_fullReads = 0\<rparr> else st\<lparr>cp_fullReads := full\<rparr>)"

text \<open>
  One iteration of \<open>copyBufferCheck\<close> on a world \<open>'s\<close>: \<open>read\<close> is \<open>src.Read\<close> on a buffer of the given
  length, \<open>write\<close> is \<open>dst.Write\<close>.  \<open>Inl\<close> is the loop's result, \<open>Inr\<close> its next state.
\<close>

definition copyBufferCheck_step ::
  "('s \<Rightarrow> nat \<Rightarrow> 's \<times> copy_error option) \<Rightarrow> ('s \<Rightarrow> nat \<Rightarrow> 's \<times> bytes \<times> copy_error option)
     \<Rightarrow> ('s \<Rightarrow> bytes \<Rightarrow> 's \<times> nat \<times> copy_error option) \<Rightarrow> 's \<Rightarrow> copy_state
     \<Rightarrow> 's \<times> (copy_error option + copy_state)" where
  "copyBufferCheck_step check read write s st =
     (case read s (copyBufLen (cp_level st)) of
        (s, d, er) \<Rightarrow>
          (let finish = (\<lambda>st. case er of
                 None \<Rightarrow> Inr st
               | Some e \<Rightarrow> Inl (if e = io_EOF then None else Some e))
           in if length d > 0 then
                (case check s (length d) of
                   (s, Some err) \<Rightarrow> (s, Inl (Some err))
                 | (s, None) \<Rightarrow>
                     (case write s d of
                        (s, nw, Some ew) \<Rightarrow> (s, Inl (Some ew))
                      | (s, nw, None) \<Rightarrow>
                          if nw \<noteq> length d then (s, Inl (Some io_ErrShortWrite))
                          else (s, finish (copy_grow st (length d)))))
              else (s, finish st)))"

definition copyBufferLog_check ::
  "('s \<Rightarrow> int \<Rightarrow> 's \<times> bool) \<Rightarrow> 's \<Rightarrow> nat \<Rightarrow> 's \<times> copy_error option" where
  "copyBufferLog_check log s n =
     (case log s (int n) of (s, ok) \<Rightarrow> (s, if ok then None else Some errDisconnect))"

definition streamVerdictError :: "byte \<Rightarrow> copy_error option" where
  "streamVerdictError v =
     (if v = TrafficAccept then None
      else if v = TrafficReject then Some errStreamRejected else Some errDisconnect)"

section \<open>The two-way relay\<close>

record 'l relay =
  rl_client :: bytes
  rl_remote :: bytes
  rl_toRemote :: bytes
  rl_toClient :: bytes
  rl_Tx :: int
  rl_Rx :: int
  rl_logger :: 'l

record copy_io =
  io_n :: nat
  io_err :: "copy_error option"
  io_nw :: nat
  io_werr :: "copy_error option"

text \<open>The direction of a copy: up is from the client (\<open>serverRw\<close>) to the remote.\<close>

definition relay_read :: "bool \<Rightarrow> copy_io \<Rightarrow> 'l relay \<Rightarrow> nat \<Rightarrow> 'l relay \<times> bytes \<times> copy_error option" where
  "relay_read up a w n =
     (let src = (if up then rl_client w else rl_remote w);
          d = take (min (io_n a) n) src; rest = drop (length d) src
      in (if up then w\<lparr>rl_client := rest\<rparr> else w\<lparr>rl_remote := rest\<rparr>, d, io_err a))"

definition relay_write :: "bool \<Rightarrow> copy_io \<Rightarrow> 'l relay \<Rightarrow> bytes \<Rightarrow> 'l relay \<times> nat \<times> copy_error option" where
  "relay_write up a w d =
     (let nw = min (io_nw a) (length d)
      in (if up then w\<lparr>rl_toRemote := rl_toRemote w @ take nw d\<rparr>
          else w\<lparr>rl_toClient := rl_toClient w @ take nw d\<rparr>, nw, io_werr a))"

text \<open>The statistics of a chunk, kept unless \<open>stats\<close> is nil.\<close>

definition chunk_stats :: "bool \<Rightarrow> bool \<Rightarrow> 'l relay \<Rightarrow> int \<Rightarrow> 'l relay" where
  "chunk_stats stats up w n =
     (if \<not> stats then w
      else if up then w\<lparr>rl_Tx := u64 (rl_Tx w + n)\<rparr> else w\<lparr>rl_Rx := u64 (rl_Rx w + n)\<rparr>)"

text \<open>The logger calls: \<open>tx\<close> counts bytes going up, \<open>rx\<close> bytes going down.\<close>

definition legacy_log ::
  "'l trafficLogger \<Rightarrow> bool \<Rightarrow> bool \<Rightarrow> string \<Rightarrow> 'l relay \<Rightarrow> int \<Rightarrow> 'l relay \<times> bool" where
  "legacy_log L stats up aid w n =
     (let w = chunk_stats stats up w n
      in case (if up then LogTraffic L (rl_logger w) aid n 0 else LogTraffic L (rl_logger w) aid 0 n) of
           (l, ok) \<Rightarrow> (w\<lparr>rl_logger := l\<rparr>, ok))"

definition verdict_check ::
  "'l verdictLogger \<Rightarrow> bool \<Rightarrow> bool \<Rightarrow> bool \<Rightarrow> string \<Rightarrow> 'l relay \<Rightarrow> nat \<Rightarrow> 'l relay \<times> copy_error option" where
  "verdict_check V cancelled stats up aid w n =
     (let w = chunk_stats stats up w (int n);
          logTraffic = (case asContext V of
            Some c \<Rightarrow> LogStreamTrafficContext c cancelled | None \<Rightarrow> LogStreamTraffic V)
      in case (if up then logTraffic (rl_logger w) aid (int n) 0
               else logTraffic (rl_logger w) aid 0 (int n)) of
           (l, v) \<Rightarrow> (w\<lparr>rl_logger := l\<rparr>, streamVerdictError v))"

text \<open>The check of the relay's copies: none without a logger (\<open>copyTwoWay\<close> uses \<open>io.Copy\<close>).\<close>

definition chunk_check ::
  "'l trafficLogger option \<Rightarrow> bool \<Rightarrow> bool \<Rightarrow> bool \<Rightarrow> string \<Rightarrow> 'l relay \<Rightarrow> nat
     \<Rightarrow> 'l relay \<times> copy_error option" where
  "chunk_check L cancelled stats up aid =
     (case L of
        None \<Rightarrow> (\<lambda>w n. (w, None))
      | Some L \<Rightarrow>
          (case asVerdict L of
             Some V \<Rightarrow> verdict_check V cancelled stats up aid
           | None \<Rightarrow> copyBufferLog_check (legacy_log L stats up aid)))"

text \<open>
  The two goroutines and the first result, which is what the caller gets.  The other goroutine
  goes on until its own result; the contextual logger sees the cancelled context from then on.
\<close>

record 'l two_way =
  tw_world :: "'l relay"
  tw_up :: "copy_error option + copy_state"
  tw_down :: "copy_error option + copy_state"
  tw_first :: "copy_error option option"

text \<open>\<open>io.Copy\<close> starts with a 32 KiB buffer and keeps it.\<close>

definition two_way_start :: "'l trafficLogger option \<Rightarrow> 'l relay \<Rightarrow> 'l two_way" where
  "two_way_start L w =
     (let st = (case L of None \<Rightarrow> \<lparr>cp_level = 3, cp_fullReads = 0\<rparr> | Some _ \<Rightarrow> copy_start)
      in \<lparr>tw_world = w, tw_up = Inr st, tw_down = Inr st, tw_first = None\<rparr>)"

definition two_way_step ::
  "'l trafficLogger option \<Rightarrow> bool \<Rightarrow> string \<Rightarrow> 'l two_way \<Rightarrow> bool \<times> copy_io \<Rightarrow> 'l two_way" where
  "two_way_step L stats aid t = (\<lambda>(up, a).
     case (if up then tw_up t else tw_down t) of
       Inl _ \<Rightarrow> t
     | Inr st \<Rightarrow>
         (case copyBufferCheck_step (chunk_check L (tw_first t \<noteq> None) stats up aid) (relay_read up a)
                 (relay_write up a) (tw_world t) st of
            (w, r) \<Rightarrow>
              (let first = (case tw_first t of
                     None \<Rightarrow> (case r of Inl e \<Rightarrow> Some e | Inr _ \<Rightarrow> None) | Some e \<Rightarrow> Some e);
                   t = t\<lparr>tw_world := w, tw_first := first\<rparr>
               in if up then t\<lparr>tw_up := r\<rparr> else t\<lparr>tw_down := r\<rparr>)))"

definition copyTwoWayEx ::
  "'l trafficLogger option \<Rightarrow> bool \<Rightarrow> string \<Rightarrow> 'l relay \<Rightarrow> (bool \<times> copy_io) list \<Rightarrow> 'l two_way" where
  "copyTwoWayEx L stats aid w sched = foldl (two_way_step L stats aid) (two_way_start L w) sched"

section \<open>What a relay forwards and charges\<close>

abbreviation src :: "bool \<Rightarrow> 'l relay \<Rightarrow> bytes" where "src up w \<equiv> (if up then rl_client w else rl_remote w)"
abbreviation dst :: "bool \<Rightarrow> 'l relay \<Rightarrow> bytes" where "dst up w \<equiv> (if up then rl_toRemote w else rl_toClient w)"
abbreviation charged :: "bool \<Rightarrow> ('l \<times> log_call list) relay \<Rightarrow> int" where
  "charged up w \<equiv> (if up then charged_tx (snd (rl_logger w)) else charged_rx (snd (rl_logger w)))"

text \<open>
  \<open>direction_ok up w0 w r\<close>: what one direction did between two worlds.  The bytes it took from its
  source went in order to its destination, up to a rest of at most one buffer, and every byte
  taken was charged; nothing is missing while the copy runs or when it ended without an error.
\<close>

definition direction_ok ::
  "bool \<Rightarrow> ('l \<times> log_call list) relay \<Rightarrow> ('l \<times> log_call list) relay \<Rightarrow> copy_error option + copy_state \<Rightarrow> bool" where
  "direction_ok up w0 w r \<longleftrightarrow>
     (\<exists>taken lost. src up w0 = taken @ src up w \<and> dst up w0 @ taken = dst up w @ lost \<and>
        charged up w = charged up w0 + int (length taken) \<and> length lost \<le> 32768 \<and>
        (case r of Inr st \<Rightarrow> lost = [] \<and> cp_level st < copyBufLevels
         | Inl None \<Rightarrow> lost = [] | Inl (Some e) \<Rightarrow> True))"

definition other_kept ::
  "bool \<Rightarrow> ('l \<times> log_call list) relay \<Rightarrow> ('l \<times> log_call list) relay \<Rightarrow> bool" where
  "other_kept up w w' \<longleftrightarrow> src (\<not> up) w' = src (\<not> up) w \<and> dst (\<not> up) w' = dst (\<not> up) w \<and>
     charged (\<not> up) w' = charged (\<not> up) w"

text \<open>A check charges exactly the chunk, in its direction, and touches no bytes.\<close>

lemma chunk_check_ok:
  assumes "chunk_check (Some (recording L)) cancelled stats up aid w n = (w', e)"
  shows "rl_client w' = rl_client w" "rl_remote w' = rl_remote w" "rl_toRemote w' = rl_toRemote w"
    "rl_toClient w' = rl_toClient w" "charged up w' = charged up w + int n"
    "charged (\<not> up) w' = charged (\<not> up) w"
  using assms
  by (auto simp: chunk_check_def verdict_check_def legacy_log_def copyBufferLog_check_def chunk_stats_def
      recording_def rec_verdict_def rec_context_def rec_call_def Let_def
      split: option.splits prod.splits if_splits)

lemma copyBufLen_le: "cp_level st < copyBufLevels \<Longrightarrow> copyBufLen (cp_level st) \<le> 32768"
proof -
  assume "cp_level st < copyBufLevels"
  then have "cp_level st + copyBufMinShift \<le> 15" by (simp add: copyBufLevels_def copyBufMinShift_def)
  then have "copyBufLen (cp_level st) \<le> 2 ^ 15" unfolding copyBufLen_def by (rule power_increasing) simp
  then show ?thesis by simp
qed

lemma copy_grow_level: "cp_level st < copyBufLevels \<Longrightarrow> cp_level (copy_grow st nr) < copyBufLevels"
  by (simp add: copy_grow_def Let_def)

lemma relay_read_ok:
  assumes "relay_read up a w n = (w', d, er)"
  shows "src up w = d @ src up w'" "dst up w' = dst up w" "length d \<le> n" "rl_logger w' = rl_logger w"
    "other_kept up w w'"
  using assms by (auto simp: relay_read_def Let_def other_kept_def min_def)

lemma relay_write_ok:
  assumes "relay_write up a w d = (w', nw, ew)"
  shows "\<exists>out lost. d = out @ lost \<and> dst up w' = dst up w @ out \<and> length out = nw"
    "src up w' = src up w" "rl_logger w' = rl_logger w" "other_kept up w w'"
proof -
  show "\<exists>out lost. d = out @ lost \<and> dst up w' = dst up w @ out \<and> length out = nw"
    using assms by (intro exI [of _ "take nw d"] exI [of _ "drop nw d"]) (auto simp: relay_write_def Let_def)
qed (use assms in \<open>auto simp: relay_write_def Let_def other_kept_def\<close>)

lemma other_kept_trans: "other_kept up u v \<Longrightarrow> other_kept up v w \<Longrightarrow> other_kept up u w"
  by (simp add: other_kept_def)

lemma direction_extend:
  assumes "direction_ok up w0 w (Inr st)" "src up w = d @ src up w'" "dst up w @ d = dst up w' @ lost"
    "charged up w' = charged up w + int (length d)" "length lost \<le> 32768"
    "case r of Inr st \<Rightarrow> lost = [] \<and> cp_level st < copyBufLevels | Inl None \<Rightarrow> lost = [] | Inl (Some e) \<Rightarrow> True"
  shows "direction_ok up w0 w' r"
proof -
  obtain taken where "src up w0 = taken @ src up w" "dst up w0 @ taken = dst up w"
    "charged up w = charged up w0 + int (length taken)"
    using assms(1) by (auto simp: direction_ok_def)
  with assms(2-6) show ?thesis
    unfolding direction_ok_def by (intro exI [of _ "taken @ d"] exI [of _ lost]) (simp flip: append_assoc)
qed

lemma copy_step_ok:
  assumes ok: "direction_ok up w0 w (Inr st)"
    and step: "copyBufferCheck_step (chunk_check (Some (recording L)) cancelled stats up aid)
        (relay_read up a) (relay_write up a) w st = (w', r)"
  shows "direction_ok up w0 w' r" "other_kept up w w'"
proof -
  obtain w1 d er where rd: "relay_read up a w (copyBufLen (cp_level st)) = (w1, d, er)"
    by (metis prod_cases3)
  note R = relay_read_ok [OF rd]
  have lev: "cp_level st < copyBufLevels" using ok by (auto simp: direction_ok_def)
  have ld: "length d \<le> 32768" using R(3) copyBufLen_le [OF lev] by simp
  have "direction_ok up w0 w' r \<and> other_kept up w w'"
  proof (cases "d = []")
    case True
    then have w': "w' = w1" and r: "r = (case er of None \<Rightarrow> Inr st | Some e \<Rightarrow> Inl (if e = io_EOF then None else Some e))"
      using step rd by (auto simp: copyBufferCheck_step_def)
    have "direction_ok up w0 w1 r"
      by (rule direction_extend [OF ok R(1), where lost = "[]"]) (use R True lev r in \<open>auto split: option.splits\<close>)
    then show ?thesis using R(5) w' by simp
  next
    case False
    obtain w2 ce where ck: "chunk_check (Some (recording L)) cancelled stats up aid w1 (length d) = (w2, ce)" by fastforce
    note K = chunk_check_ok [OF ck]
    have ch: "charged up w2 = charged up w + int (length d)" using K(5) R(4) by simp
    have kept2: "other_kept up w1 w2" using K by (simp add: other_kept_def)
    have s2: "src up w = d @ src up w2" "dst up w2 = dst up w"
      using R(1,2) K(1-4) by (cases up; simp)+
    show ?thesis
    proof (cases ce)
      case (Some err)
      then have w': "w' = w2" "r = Inl (Some err)" using step rd ck False by (auto simp: copyBufferCheck_step_def)
      have "direction_ok up w0 w2 r"
        by (rule direction_extend [OF ok s2(1), where lost = d]) (use s2 ch ld w' in auto)
      then show ?thesis using w' R(5) kept2 other_kept_trans by blast
    next
      case None
      obtain w3 nw ew where wr: "relay_write up a w2 d = (w3, nw, ew)" by (metis prod_cases3)
      note W = relay_write_ok [OF wr]
      from W(1) obtain out lost where out: "d = out @ lost" "dst up w3 = dst up w2 @ out" "length out = nw" by blast
      have w': "w' = w3" and r: "r = (case ew of Some e \<Rightarrow> Inl (Some e)
          | None \<Rightarrow> if nw \<noteq> length d then Inl (Some io_ErrShortWrite)
              else (case er of None \<Rightarrow> Inr (copy_grow st (length d)) | Some e \<Rightarrow> Inl (if e = io_EOF then None else Some e)))"
        using step rd ck None wr False by (auto simp: copyBufferCheck_step_def Let_def split: option.splits if_splits)
      have "direction_ok up w0 w3 r"
      proof (rule direction_extend [OF ok, of d _ lost])
        show "src up w = d @ src up w3" using s2 W(2) by simp
        show "dst up w @ d = dst up w3 @ lost" using s2 out by simp
        show "charged up w3 = charged up w + int (length d)" using ch W(3) by (cases up) simp_all
        show "length lost \<le> 32768" using ld out by simp
        have "nw = length d \<Longrightarrow> lost = []" using out by simp
        then show "case r of Inr st \<Rightarrow> lost = [] \<and> cp_level st < copyBufLevels | Inl None \<Rightarrow> lost = [] | Inl (Some e) \<Rightarrow> True"
          using copy_grow_level [OF lev] by (auto simp: r split: option.splits)
      qed
      then show ?thesis using w' R(5) kept2 W(4) other_kept_trans by blast
    qed
  qed
  then show "direction_ok up w0 w' r" "other_kept up w w'" by simp_all
qed


lemma direction_ok_kept:
  "direction_ok up w0 w r \<Longrightarrow> other_kept (\<not> up) w w' \<Longrightarrow> direction_ok up w0 w' r"
  by (simp add: direction_ok_def other_kept_def)

definition relay_inv ::
  "('l \<times> log_call list) relay \<Rightarrow> ('l \<times> log_call list) two_way \<Rightarrow> bool" where
  "relay_inv w0 t \<longleftrightarrow>
     direction_ok True w0 (tw_world t) (tw_up t) \<and> direction_ok False w0 (tw_world t) (tw_down t) \<and>
     (case tw_first t of None \<Rightarrow> \<not> isl (tw_up t) \<and> \<not> isl (tw_down t)
      | Some e \<Rightarrow> tw_up t = Inl e \<or> tw_down t = Inl e)"

lemma two_way_step_ok:
  assumes "relay_inv w0 t"
  shows "relay_inv w0 (two_way_step (Some (recording L)) stats aid t (up, a))"
proof (cases "if up then tw_up t else tw_down t")
  case (Inl e)
  then show ?thesis using assms by (simp add: two_way_step_def split: if_splits)
next
  case (Inr st)
  obtain w' r where step: "copyBufferCheck_step (chunk_check (Some (recording L)) (tw_first t \<noteq> None) stats up aid)
      (relay_read up a) (relay_write up a) (tw_world t) st = (w', r)" by fastforce
  have ok: "direction_ok up w0 (tw_world t) (Inr st)"
    using assms Inr by (auto simp: relay_inv_def split: if_splits)
  note S = copy_step_ok [OF ok step]
  show ?thesis
  proof (cases up)
    case True
    with S assms step Inr show ?thesis
      using direction_ok_kept [of False w0 "tw_world t" "tw_down t" w']
      by (auto simp: relay_inv_def two_way_step_def Let_def split: option.splits sum.splits)
  next
    case False
    with S assms step Inr show ?thesis
      using direction_ok_kept [of True w0 "tw_world t" "tw_up t" w']
      by (auto simp: relay_inv_def two_way_step_def Let_def split: option.splits sum.splits)
  qed
qed

lemma relay_inv_start: "relay_inv w (two_way_start (Some L) w)"
  by (simp add: relay_inv_def two_way_start_def direction_ok_def copy_start_def copyBufLevels_def Let_def)

text \<open>
  C6: A relay with a traffic logger forwards bytes in order and unchanged in both directions,
  however the two copy goroutines interleave and whatever reads, writes and the logger answer.
  Everything taken from a peer was charged, in its direction; at most one buffer of it is not
  forwarded, and only where the copy ended with an error.  The caller gets the result of the copy
  that ended first.
\<close>

theorem relay_forwards_and_charges:
  fixes w :: "('l \<times> log_call list) relay"
  shows "let t = copyTwoWayEx (Some (recording L)) stats aid w sched
    in direction_ok True w (tw_world t) (tw_up t) \<and> direction_ok False w (tw_world t) (tw_down t) \<and>
       (case tw_first t of None \<Rightarrow> \<not> isl (tw_up t) \<and> \<not> isl (tw_down t)
        | Some e \<Rightarrow> tw_up t = Inl e \<or> tw_down t = Inl e)"
proof -
  have "relay_inv w (foldl (two_way_step (Some (recording L)) stats aid) t0 sched)" if "relay_inv w t0" for t0
    using that by (induction sched arbitrary: t0) (auto intro: two_way_step_ok)
  from this [OF relay_inv_start] show ?thesis by (simp add: relay_inv_def copyTwoWayEx_def Let_def)
qed

end
