(* ===== verification/Server_Tcp.thy ===== *)
theory Server_Tcp
  imports Copy Server_Io
begin

text \<open>
  \<open>handleTCPRequest\<close> of \<open>core/server/server.go\<close>: one proxied TCP stream, from the request through hook,
  dial and response to the relay and the clean-up.  The stream is the bytes the client sends on it,
  the remote the bytes it sends; what the outbound, the hook, the logger and the peers answer are
  parameters.  What the handler does to its surroundings is a list of effects.
\<close>

section \<open>The handler\<close>

datatype streamState = StateInitial | StateHooking | StateConnecting | StateEstablished | StateClosed

datatype tcp_error = DialError string | CopyError "copy_error option"

datatype tcp_effect =
    TraceStream
  | UntraceStream
  | SetState streamState
  | SetReqAddr string
  | SetHookedReqAddr string
  | StreamWrite bytes
  | StreamClose
  | LogRequest string string
  | LogError string string tcp_error
  | Dialing string string
  | RemoteOpened nat
  | RemoteWrite nat bytes
  | RemoteClosed nat
  | CloseQUIC nat

record 'l tcpHandler =
  th_TrafficLogger :: "'l trafficLogger option"
  th_RequestHook :: "requestHook option"
  th_Outbound :: outbound
  th_EventLogger :: bool

text \<open>
  The answers of one request's surroundings: the bytes of the remote, how much of the put-back data
  it accepts, and how the relay's iterations go.
\<close>

record tcp_env =
  te_remote :: bytes
  te_putback :: nat
  te_schedule :: "(bool \<times> copy_io) list"

definition setHookedReqAddr :: "string \<Rightarrow> string \<Rightarrow> tcp_effect list" where
  "setHookedReqAddr stored addr = (if addr \<noteq> stored then [SetHookedReqAddr addr] else [])"

text \<open>
  The hook: the handler answers \<open>ok\<close> before the hook reads.  The result is what the handler did,
  and the address, the rest of the stream, whether it was hooked and the data to put back, or
  \<open>Inl\<close> when the hook fails.  \<open>None\<close> is a panic in \<open>WriteTCPResponse\<close>.
\<close>

definition hook_stage ::
  "(u64w \<Rightarrow> nat) \<Rightarrow> (nat \<Rightarrow> nat) \<Rightarrow> 'l tcpHandler \<Rightarrow> string \<Rightarrow> bytes
     \<Rightarrow> (tcp_effect list \<times> (string + string \<times> bytes \<times> bool \<times> bytes)) option" where
  "hook_stage qlen draws h reqAddr stream =
     (case th_RequestHook h of
        None \<Rightarrow> Some ([], Inr (reqAddr, stream, False, []))
      | Some k \<Rightarrow>
          if \<not> hook_Check k False reqAddr then Some ([], Inr (reqAddr, stream, False, []))
          else (case WriteTCPResponse qlen draws True ''RequestHook enabled'' of
                  None \<Rightarrow> None
                | Some resp \<Rightarrow>
                    (case hook_TCP k stream reqAddr of
                       (rest, addr, Inl err) \<Rightarrow> Some ([SetState StateHooking, StreamWrite resp], Inl err)
                     | (rest, addr, Inr putback) \<Rightarrow>
                         Some ([SetState StateHooking, StreamWrite resp] @ setHookedReqAddr reqAddr addr,
                               Inr (addr, rest, True, putback)))))"

text \<open>
  From the dial on.  The relay is part of the result; while neither of its copies has ended the
  handler waits and its clean-up has not happened.
\<close>

definition relay_stage ::
  "'l tcpHandler \<Rightarrow> string \<Rightarrow> tcp_env \<Rightarrow> 'l \<Rightarrow> bool \<Rightarrow> string \<Rightarrow> bytes \<Rightarrow> bytes \<Rightarrow> nat
     \<Rightarrow> tcp_effect list \<times> 'l two_way" where
  "relay_stage h authID env l trace addr stream putback c =
     (let n = min (te_putback env) (length putback);
          w = \<lparr>rl_client = stream, rl_remote = te_remote env, rl_toRemote = take n putback, rl_toClient = [],
               rl_Tx = (if length putback > 0 then u64 (int n) else 0), rl_Rx = 0, rl_logger = l\<rparr>;
          t = copyTwoWayEx (th_TrafficLogger h) trace authID w (te_schedule env);
          pre = [SetState StateEstablished] @ (if length putback > 0 then [RemoteWrite c putback] else [])
      in case tw_first t of
           None \<Rightarrow> (pre, t)
         | Some err \<Rightarrow>
             (pre @ (if th_EventLogger h then [LogError authID addr (CopyError err)] else []) @
              [RemoteClosed c, StreamClose] @
              (if err = Some errDisconnect then [CloseQUIC closeErrCodeTrafficLimitReached] else []), t))"

definition dial_stage ::
  "(u64w \<Rightarrow> nat) \<Rightarrow> (nat \<Rightarrow> nat) \<Rightarrow> 'l tcpHandler \<Rightarrow> string \<Rightarrow> tcp_env \<Rightarrow> 'l \<Rightarrow> bool \<Rightarrow> string \<Rightarrow> bytes
     \<Rightarrow> bool \<Rightarrow> bytes \<Rightarrow> (tcp_effect list \<times> 'l two_way option) option" where
  "dial_stage qlen draws h authID env l trace addr stream hooked putback =
     (let pre = (if th_EventLogger h then [LogRequest authID addr] else []) @
                [SetState StateConnecting, Dialing authID addr]
      in case dialOutboundTCP (th_Outbound h) authID addr of
           Inl err \<Rightarrow>
             (case (if hooked then Some [] else map_option (\<lambda>b. [StreamWrite b]) (WriteTCPResponse qlen draws False err)) of
                None \<Rightarrow> None
              | Some resp \<Rightarrow>
                  Some (pre @ resp @ [StreamClose] @
                        (if th_EventLogger h then [LogError authID addr (DialError err)] else []), None))
         | Inr c \<Rightarrow>
             (case (if hooked then Some [] else map_option (\<lambda>b. [StreamWrite b]) (WriteTCPResponse qlen draws True ''Connected'')) of
                None \<Rightarrow> None
              | Some resp \<Rightarrow>
                  (case relay_stage h authID env l trace addr stream putback c of
                     (es, t) \<Rightarrow> Some (pre @ [RemoteOpened c] @ resp @ es, Some t))))"

text \<open>The deferred calls run last, the state before the logger lets go of the stream.\<close>

definition handleTCPRequest ::
  "(u64w \<Rightarrow> nat) \<Rightarrow> (bytes \<Rightarrow> io_error + (u64w \<times> bytes)) \<Rightarrow> (nat \<Rightarrow> nat) \<Rightarrow> 'l tcpHandler \<Rightarrow> string
     \<Rightarrow> tcp_env \<Rightarrow> 'l \<Rightarrow> bytes \<Rightarrow> (tcp_effect list \<times> 'l two_way option) option" where
  "handleTCPRequest qlen qread draws h authID env l stream =
     (let trace = wantsStreamStats (th_TrafficLogger h);
          start = [SetState StateInitial] @ (if trace then [TraceStream] else []);
          deferred = [SetState StateClosed] @ (if trace then [UntraceStream] else [])
      in case ReadTCPRequest qread stream of
           Inl err \<Rightarrow> Some (start @ [StreamClose] @ deferred, None)
         | Inr (reqAddr, rest) \<Rightarrow>
             (let start = start @ [SetReqAddr reqAddr]
              in case hook_stage qlen draws h reqAddr rest of
                   None \<Rightarrow> None
                 | Some (es, Inl err) \<Rightarrow> Some (start @ es @ [StreamClose] @ deferred, None)
                 | Some (es, Inr (addr, rest, hooked, putback)) \<Rightarrow>
                     (case dial_stage qlen draws h authID env l trace addr rest hooked putback of
                        None \<Rightarrow> None
                      | Some (es', t) \<Rightarrow>
                          Some (start @ es @ es' @
                                (case t of Some t \<Rightarrow> (if tw_first t = None then [] else deferred) | None \<Rightarrow> deferred), t))))"

section \<open>Clean-up\<close>

definition opened_remotes :: "tcp_effect list \<Rightarrow> nat list" where
  "opened_remotes es = concat (map (\<lambda>e. case e of RemoteOpened c \<Rightarrow> [c] | _ \<Rightarrow> []) es)"

definition closed_remotes :: "tcp_effect list \<Rightarrow> nat list" where
  "closed_remotes es = concat (map (\<lambda>e. case e of RemoteClosed c \<Rightarrow> [c] | _ \<Rightarrow> []) es)"

definition responses :: "tcp_effect list \<Rightarrow> bytes list" where
  "responses es = concat (map (\<lambda>e. case e of StreamWrite b \<Rightarrow> [b] | _ \<Rightarrow> []) es)"

definition states :: "tcp_effect list \<Rightarrow> streamState list" where
  "states es = concat (map (\<lambda>e. case e of SetState s \<Rightarrow> [s] | _ \<Rightarrow> []) es)"

definition quic_closes :: "tcp_effect list \<Rightarrow> nat list" where
  "quic_closes es = concat (map (\<lambda>e. case e of CloseQUIC n \<Rightarrow> [n] | _ \<Rightarrow> []) es)"

definition stream_closes :: "tcp_effect list \<Rightarrow> nat" where
  "stream_closes es = length (filter (\<lambda>e. e = StreamClose) es)"

definition dials :: "tcp_effect list \<Rightarrow> (string \<times> string) list" where
  "dials es = concat (map (\<lambda>e. case e of Dialing i a \<Rightarrow> [(i, a)] | _ \<Rightarrow> []) es)"

definition trace_balance :: "tcp_effect list \<Rightarrow> int" where
  "trace_balance es = int (length (filter (\<lambda>e. e = TraceStream) es)) - int (length (filter (\<lambda>e. e = UntraceStream) es))"

lemmas tcp_trace_defs = opened_remotes_def closed_remotes_def responses_def states_def quic_closes_def
  stream_closes_def dials_def trace_balance_def

text \<open>What the three stages contribute.\<close>

lemma hook_stage_trace:
  assumes "hook_stage qlen draws h a s = Some (es, r)"
  shows "opened_remotes es = [] \<and> closed_remotes es = [] \<and> quic_closes es = [] \<and> stream_closes es = 0 \<and>
    dials es = [] \<and> trace_balance es = 0 \<and>
    length (responses es) = (case r of Inr (_, _, hooked, _) \<Rightarrow> if hooked then 1 else 0 | Inl _ \<Rightarrow> 1)"
  using assms
  by (auto simp: hook_stage_def setHookedReqAddr_def tcp_trace_defs split: option.splits if_splits prod.splits sum.splits)

lemma relay_stage_trace:
  assumes "relay_stage h i env l trace a s pb c = (es, t)"
  shows "opened_remotes es = [] \<and> closed_remotes es = (if tw_first t = None then [] else [c]) \<and>
    quic_closes es = (if tw_first t = Some (Some errDisconnect) then [closeErrCodeTrafficLimitReached] else []) \<and>
    stream_closes es = (if tw_first t = None then 0 else 1) \<and>
    dials es = [] \<and> trace_balance es = 0 \<and> responses es = []"
  using assms by (auto simp: relay_stage_def tcp_trace_defs Let_def split: option.splits)

definition finished :: "'l two_way option \<Rightarrow> bool" where
  "finished t = (case t of None \<Rightarrow> True | Some t \<Rightarrow> tw_first t \<noteq> None)"

definition disconnects :: "'l two_way option \<Rightarrow> bool" where
  "disconnects t = (case t of None \<Rightarrow> False | Some t \<Rightarrow> tw_first t = Some (Some errDisconnect))"

lemma dial_stage_trace:
  assumes "dial_stage qlen draws h i env l trace a s hooked pb = Some (es, t)" "finished t"
  shows "opened_remotes es = closed_remotes es \<and> stream_closes es = 1 \<and> dials es = [(i, a)] \<and>
    trace_balance es = 0 \<and> length (responses es) = (if hooked then 0 else 1) \<and>
    quic_closes es = (if disconnects t then [closeErrCodeTrafficLimitReached] else [])"
proof (cases "dialOutboundTCP (th_Outbound h) i a")
  case (Inl err)
  then show ?thesis using assms
    by (auto simp: dial_stage_def tcp_trace_defs disconnects_def Let_def split: option.splits if_splits)
next
  case (Inr c)
  obtain es1 t1 where r: "relay_stage h i env l trace a s pb c = (es1, t1)" by fastforce
  have "t = Some t1" using assms(1) Inr r by (auto simp: dial_stage_def Let_def split: option.splits if_splits)
  then show ?thesis
    using assms Inr r relay_stage_trace [OF r]
    by (auto simp: dial_stage_def finished_def disconnects_def tcp_trace_defs Let_def split: option.splits if_splits)
qed

text \<open>
  C21: However a proxied TCP request ends (bad request, failing hook, failing dial, relay error,
  logger refusal), everything it opened is closed once: the stream, the remote connection, the
  logger's reference to the stream, whose last state is closed.  The outbound is dialled at most
  once and in the client's name, the client gets at most one response, and the QUIC connection is
  closed exactly when the relay's result is the logger's disconnect.
\<close>

theorem tcp_request_cleans_up:
  assumes "handleTCPRequest qlen qread draws h authID env l stream = Some (es, t)" "finished t"
  shows "stream_closes es = 1 \<and> closed_remotes es = opened_remotes es \<and> trace_balance es = 0 \<and>
    last (states es) = StateClosed \<and> length (responses es) \<le> 1 \<and>
    length (dials es) \<le> 1 \<and> list_all (\<lambda>(i, a). i = authID) (dials es) \<and>
    quic_closes es = (if disconnects t then [closeErrCodeTrafficLimitReached] else [])"
proof -
  define trace where "trace = wantsStreamStats (th_TrafficLogger h)"
  define st where "st = [SetState StateInitial] @ (if trace then [TraceStream] else [])"
  define df where "df = [SetState StateClosed] @ (if trace then [UntraceStream] else [])"
  note H = assms(1) [unfolded handleTCPRequest_def Let_def trace_def [symmetric], folded st_def df_def]
  have app: "stream_closes (xs @ ys) = stream_closes xs + stream_closes ys"
    "opened_remotes (xs @ ys) = opened_remotes xs @ opened_remotes ys"
    "closed_remotes (xs @ ys) = closed_remotes xs @ closed_remotes ys"
    "trace_balance (xs @ ys) = trace_balance xs + trace_balance ys"
    "states (xs @ ys) = states xs @ states ys" "responses (xs @ ys) = responses xs @ responses ys"
    "dials (xs @ ys) = dials xs @ dials ys" "quic_closes (xs @ ys) = quic_closes xs @ quic_closes ys" for xs ys
    by (simp_all add: tcp_trace_defs)
  have ends: "stream_closes st = 0" "opened_remotes st = []" "closed_remotes st = []" "responses st = []"
    "dials st = []" "quic_closes st = []" "trace_balance st = (if trace then 1 else 0)"
    "stream_closes df = 0" "opened_remotes df = []" "closed_remotes df = []" "responses df = []"
    "dials df = []" "quic_closes df = []" "trace_balance df = (if trace then -1 else 0)" "states df = [StateClosed]"
    by (simp_all add: st_def df_def tcp_trace_defs)
  have one: "stream_closes [StreamClose] = 1" "opened_remotes [StreamClose] = []" "closed_remotes [StreamClose] = []"
    "responses [StreamClose] = []" "dials [StreamClose] = []" "quic_closes [StreamClose] = []"
    "trace_balance [StreamClose] = 0"
    "stream_closes [SetReqAddr a] = 0" "opened_remotes [SetReqAddr a] = []" "closed_remotes [SetReqAddr a] = []"
    "responses [SetReqAddr a] = []" "dials [SetReqAddr a] = []" "quic_closes [SetReqAddr a] = []"
    "trace_balance [SetReqAddr a] = 0" for a
    by (simp_all add: tcp_trace_defs)
  show ?thesis
  proof (cases "ReadTCPRequest qread stream")
    case (Inl err)
    then have es: "es = st @ [StreamClose] @ df" "t = None" using H by simp_all
    show ?thesis unfolding es app by (simp add: ends one disconnects_def)
  next
    case (Inr ar)
    obtain a rest where ar: "ar = (a, rest)" by fastforce
    obtain es1 r1 where h: "hook_stage qlen draws h a rest = Some (es1, r1)"
      using H Inr ar by (auto split: option.splits)
    note HT = hook_stage_trace [OF h]
    show ?thesis
    proof (cases r1)
      case (Inl err)
      then have es: "es = (st @ [SetReqAddr a]) @ es1 @ [StreamClose] @ df" "t = None" using H Inr ar h by simp_all
      show ?thesis unfolding es app using HT Inl by (simp add: ends one disconnects_def)
    next
      case r: (Inr x)
      obtain a' rest' hooked pb where x: "x = (a', rest', hooked, pb)" by (metis prod_cases4)
      obtain es2 t2 where d: "dial_stage qlen draws h authID env l trace a' rest' hooked pb = Some (es2, t2)"
        using H Inr ar h r x by (auto split: option.splits)
      then have t2: "t2 = t" using H Inr ar h r x by (auto split: option.splits)
      note DT = dial_stage_trace [OF d [unfolded t2] assms(2)]
      have es: "es = (st @ [SetReqAddr a]) @ es1 @ es2 @ df"
        using H Inr ar h r x d t2 assms(2) by (auto simp: finished_def split: option.splits if_splits)
      show ?thesis unfolding es app using HT DT r x by (simp add: ends one)
    qed
  qed
qed

section \<open>The handshake, from the client's request to the relay\<close>

definition unhooked :: "'l tcpHandler \<Rightarrow> string \<Rightarrow> bool" where
  "unhooked h a = (case th_RequestHook h of None \<Rightarrow> True | Some k \<Rightarrow> \<not> hook_Check k False a)"

text \<open>The world in which the relay of an unhooked request starts.\<close>

definition relay_start :: "tcp_env \<Rightarrow> 'l \<Rightarrow> bytes \<Rightarrow> 'l relay" where
  "relay_start env l body = \<lparr>rl_client = body, rl_remote = te_remote env, rl_toRemote = [], rl_toClient = [],
     rl_Tx = 0, rl_Rx = 0, rl_logger = l\<rparr>"

text \<open>What the client is told, and what the server does with the data behind the request.\<close>

definition handshake_ok ::
  "(bytes \<Rightarrow> io_error + (u64w \<times> bytes)) \<Rightarrow> 'l tcpHandler \<Rightarrow> string \<Rightarrow> string \<Rightarrow> tcp_env \<Rightarrow> 'l \<Rightarrow> bytes
     \<Rightarrow> tcp_effect list \<Rightarrow> 'l two_way option \<Rightarrow> bool" where
  "handshake_ok qread h authID addr env l body es t \<longleftrightarrow>
     (\<exists>resp. responses es = [resp] \<and> dials es = [(authID, addr)] \<and>
        (case dialOutboundTCP (th_Outbound h) authID addr of
           Inl err \<Rightarrow> t = None \<and> (\<forall>more. ReadTCPResponse qread (resp @ more) = Inr (False, err, more))
         | Inr c \<Rightarrow>
             t = Some (copyTwoWayEx (th_TrafficLogger h) (wantsStreamStats (th_TrafficLogger h)) authID
                   (relay_start env l body) (te_schedule env)) \<and>
             (\<forall>more. ReadTCPResponse qread (resp @ more) = Inr (True, ''Connected'', more))))"

lemma trace_append:
  "responses (xs @ ys) = responses xs @ responses ys" "dials (xs @ ys) = dials xs @ dials ys"
  by (simp_all add: tcp_trace_defs)

context quicvarint
begin

lemma response_readable:
  assumes "length msg \<le> MaxMessageLength"
  shows "\<exists>resp. WriteTCPResponse qlen draws ok msg = Some resp \<and>
    (\<forall>more. ReadTCPResponse qread (resp @ more) = Inr (ok, msg, more))"
  using tcp_response_roundtrip_aux [OF assms] by (metis option.inject)

lemma handshake_aux:
  assumes a: "1 \<le> length addr" "length addr \<le> MaxAddressLength" and hook: "unhooked h addr"
    and err: "\<forall>e. dialOutboundTCP (th_Outbound h) authID addr = Inl e \<longrightarrow> length e \<le> MaxMessageLength"
  shows "\<exists>req rest es t. WriteTCPRequest qlen draws addr = Some req \<and>
    qread (req @ body) = Inr (FrameTypeTCPRequest, rest) \<and>
    handleTCPRequest qlen qread draws' h authID env l rest = Some (es, t) \<and>
    handshake_ok qread h authID addr env l body es t"
proof -
  obtain req rest where req: "WriteTCPRequest qlen draws addr = Some req"
    "qread (req @ body) = Inr (FrameTypeTCPRequest, rest)" "ReadTCPRequest qread rest = Inr (addr, body)"
    using tcp_request_roundtrip_aux [OF a] by blast
  have hs: "hook_stage qlen draws' h addr body = Some ([], Inr (addr, body, False, []))"
    using hook by (auto simp: hook_stage_def unhooked_def split: option.splits)
  define trace where "trace = wantsStreamStats (th_TrafficLogger h)"
  have "\<exists>es t. handleTCPRequest qlen qread draws' h authID env l rest = Some (es, t) \<and>
    handshake_ok qread h authID addr env l body es t"
  proof (cases "dialOutboundTCP (th_Outbound h) authID addr")
    case (Inl e)
    obtain resp where w: "WriteTCPResponse qlen draws' False e = Some resp"
      "\<forall>more. ReadTCPResponse qread (resp @ more) = Inr (False, e, more)"
      using response_readable err Inl by blast
    obtain es where d: "dial_stage qlen draws' h authID env l trace addr body False [] = Some (es, None)"
      "responses es = [resp]" "dials es = [(authID, addr)]"
      by (simp add: dial_stage_def Inl w Let_def) (simp add: tcp_trace_defs)
    then show ?thesis
      using w(2) Inl
      by (simp add: handleTCPRequest_def req(3) hs trace_def [symmetric] handshake_ok_def trace_append Let_def)
        (simp add: tcp_trace_defs)
  next
    case (Inr c)
    obtain resp where w: "WriteTCPResponse qlen draws' True ''Connected'' = Some resp"
      "\<forall>more. ReadTCPResponse qread (resp @ more) = Inr (True, ''Connected'', more)"
      using response_readable [of "''Connected''" draws' True] by (auto simp: length_limits)
    obtain es1 t where r: "relay_stage h authID env l trace addr body [] c = (es1, t)" by fastforce
    then have t: "t = copyTwoWayEx (th_TrafficLogger h) trace authID (relay_start env l body) (te_schedule env)"
      by (auto simp: relay_stage_def relay_start_def Let_def split: option.splits)
    obtain es where d: "dial_stage qlen draws' h authID env l trace addr body False [] = Some (es, Some t)"
      "responses es = [resp]" "dials es = [(authID, addr)]"
      using relay_stage_trace [OF r]
      by (simp add: dial_stage_def Inr w r Let_def) (auto simp: tcp_trace_defs)
    then show ?thesis
      using w(2) Inr t
      by (simp add: handleTCPRequest_def req(3) hs trace_def [symmetric] handshake_ok_def trace_append Let_def)
        (simp add: tcp_trace_defs)
  qed
  with req(1,2) show ?thesis by blast
qed

end

text \<open>
  C4: Client and server agree on every unhooked TCP request: the request the client writes, with
  any data right behind it, is dispatched and dialled exactly for the address it names; the client
  reads success if and only if the dial succeeded and the dial's error otherwise; and after success
  exactly the data behind the request is what the relay forwards.
\<close>

theorem tcp_handshake_agrees:
  assumes "quicvarint qlen qread qparse" "1 \<le> length addr" "length addr \<le> MaxAddressLength" "unhooked h addr"
    and "\<forall>e. dialOutboundTCP (th_Outbound h) authID addr = Inl e \<longrightarrow> length e \<le> MaxMessageLength"
  shows "\<exists>req rest es t. WriteTCPRequest qlen draws addr = Some req \<and>
    qread (req @ body) = Inr (FrameTypeTCPRequest, rest) \<and>
    handleTCPRequest qlen qread draws' h authID env l rest = Some (es, t) \<and>
    handshake_ok qread h authID addr env l body es t"
  using quicvarint.handshake_aux [OF assms] .

definition example_handler :: "(unit \<times> log_call list) tcpHandler" where
  "example_handler = \<lparr>th_TrafficLogger = Some (recording free_logger), th_RequestHook = None,
     th_Outbound = \<lparr>ob_TCP = (\<lambda>a. if a = ''a:80'' then Inr 5 else Inl ''refused''), ob_UDP = (\<lambda>a. Inr 0),
       ob_CheckUDP = (\<lambda>a. None), asAuthenticated = None, asAuthenticatedUDP = None\<rparr>,
     th_EventLogger = True\<rparr>"

definition example_env :: tcp_env where
  "example_env = \<lparr>te_remote = [9], te_putback = 0,
     te_schedule = [(True, \<lparr>io_n = 9, io_err = Some io_EOF, io_nw = 9, io_werr = None\<rparr>)]\<rparr>"

lemma example_dial:
  "dialOutboundTCP (th_Outbound example_handler) ''u'' ''a:80'' = Inr 5" "unhooked example_handler a"
  by (simp_all add: dialOutboundTCP_def example_handler_def unhooked_def)

lemma tcp_handshake_agrees_witness:
  "\<exists>req rest es t. WriteTCPRequest rfc_len (\<lambda>_. 0) ''a:80'' = Some req \<and>
    handleTCPRequest rfc_len rfc_read (\<lambda>_. 0) example_handler ''u'' example_env ((), []) rest = Some (es, Some t) \<and>
    rl_toRemote (tw_world t) = [1, 2, 3]"
proof -
  obtain req rest es t where w: "WriteTCPRequest rfc_len (\<lambda>_. 0) ''a:80'' = Some req"
    "handleTCPRequest rfc_len rfc_read (\<lambda>_. 0) example_handler ''u'' example_env ((), []) rest = Some (es, t)"
    "handshake_ok rfc_read example_handler ''u'' ''a:80'' example_env ((), []) [1, 2, 3] es t"
    using tcp_handshake_agrees [OF rfc.quicvarint_axioms, of "''a:80''" example_handler "''u''" "\<lambda>_. 0" "[1, 2, 3]"
        "\<lambda>_. 0" example_env "((), [])"] by (auto simp: example_dial length_limits)
  from w(3) obtain t' where t': "t = Some t'" "t' = copyTwoWayEx (Some (recording free_logger)) True ''u''
      (relay_start example_env ((), []) [1, 2, 3]) (te_schedule example_env)"
    by (auto simp: handshake_ok_def example_dial) (simp add: example_handler_def wantsStreamStats_def recording_def free_logger_def)
  have "rl_toRemote (tw_world t') = [1, 2, 3]" unfolding t'(2) by code_simp
  with w t'(1) show ?thesis by blast
qed

lemma tcp_request_cleans_up_witness:
  "\<exists>rest es t. handleTCPRequest rfc_len rfc_read (\<lambda>_. 0) example_handler ''u'' example_env ((), []) rest = Some (es, t) \<and>
    dials es = [(''u'', ''a:80'')] \<and> stream_closes es = 1 \<and> closed_remotes es = opened_remotes es"
proof -
  obtain rest es t where w:
    "handleTCPRequest rfc_len rfc_read (\<lambda>_. 0) example_handler ''u'' example_env ((), []) rest = Some (es, t)"
    "handshake_ok rfc_read example_handler ''u'' ''a:80'' example_env ((), []) [1, 2, 3] es t"
    using rfc.handshake_aux [of "''a:80''" example_handler "''u''" "\<lambda>_. 0" "[1, 2, 3]" "\<lambda>_. 0" example_env "((), [])"]
    by (auto simp: example_dial length_limits)
  then obtain t' where t': "t = Some t'" "t' = copyTwoWayEx (Some (recording free_logger)) True ''u''
      (relay_start example_env ((), []) [1, 2, 3]) (te_schedule example_env)"
    by (auto simp: handshake_ok_def example_dial) (simp add: example_handler_def wantsStreamStats_def recording_def free_logger_def)
  have "tw_first t' = Some None" unfolding t'(2) by code_simp
  then have "finished t" using t'(1) by (simp add: finished_def)
  from tcp_request_cleans_up [OF w(1) this] w show ?thesis by (auto simp: handshake_ok_def)
qed

end
