(* ===== verification/Server_Life.thy ===== *)
theory Server_Life
  imports Hy_Prelude
begin

text \<open>
  \<open>serverImpl\<close> of \<open>core/server/server.go\<close>: \<open>Serve\<close>, \<open>serveClient\<close> and \<open>Close\<close> as a step relation.  A
  step is what a goroutine does between two points where others can run: a critical section under
  the mutex, a wait group that reached zero, or a call into QUIC.  Any number of goroutines call
  \<open>Serve\<close>; \<open>closeOnce\<close> lets one of those that call \<open>Close\<close> run its body.  What happens inside a
  handler is in \<open>Server_Auth\<close>; here it ends at any time, after which it closes its connection,
  leaves the table and the wait group.
\<close>

section \<open>The server\<close>

datatype close_pc =
    NotCalled
  | ClosingListener
  | WaitingServe
  | Snapshotting
  | ClosingConns "nat set"
  | WaitingHandlers
  | ClosingTransport
  | Closed

text \<open>
  Goroutines are told apart by where they are and for which connection.  In \<open>Serve\<close>: how many are in
  \<open>Accept\<close>, and the connections accepted and not yet registered; together they are \<open>serveWG\<close>.  In
  \<open>serveClient\<close>: the connections being handled, those whose handler has returned and closed them,
  and those that have left the table \<open>conns\<close>; together they are \<open>handlerWG\<close>.  \<open>sv_open\<close> are the QUIC
  connections that are established and not closed; \<open>sv_next\<close> is the number of the next one.
\<close>

record serverImpl =
  sv_closing :: bool
  sv_listening :: bool
  sv_transport :: bool
  sv_conns :: "nat set"
  sv_open :: "nat set"
  sv_accepting :: nat
  sv_registering :: "nat set"
  sv_handling :: "nat set"
  sv_unregistering :: "nat set"
  sv_leaving :: "nat set"
  sv_close :: close_pc
  sv_next :: nat

definition NewServer :: serverImpl where
  "NewServer = \<lparr>sv_closing = False, sv_listening = True, sv_transport = True, sv_conns = {}, sv_open = {},
     sv_accepting = 0, sv_registering = {}, sv_handling = {}, sv_unregistering = {}, sv_leaving = {},
     sv_close = NotCalled, sv_next = 0\<rparr>"

definition close_conn :: "nat \<Rightarrow> serverImpl \<Rightarrow> serverImpl" where
  "close_conn c s = s\<lparr>sv_open := sv_open s - {c}\<rparr>"

definition serve_done :: "serverImpl \<Rightarrow> bool" where
  "serve_done s \<longleftrightarrow> sv_accepting s = 0 \<and> sv_registering s = {}"

definition handlers :: "serverImpl \<Rightarrow> nat set" where
  "handlers s = sv_handling s \<union> sv_unregistering s \<union> sv_leaving s"

section \<open>Serve\<close>

text \<open>A call returns at once when the server is closing.\<close>

definition serve_call :: "serverImpl \<Rightarrow> serverImpl" where
  "serve_call s = (if sv_closing s then s else s\<lparr>sv_accepting := sv_accepting s + 1\<rparr>)"

definition serve_accept :: "serverImpl \<Rightarrow> serverImpl" where
  "serve_accept s = s\<lparr>sv_accepting := sv_accepting s - 1, sv_registering := insert (sv_next s) (sv_registering s),
     sv_open := insert (sv_next s) (sv_open s), sv_next := sv_next s + 1\<rparr>"

definition serve_return :: "serverImpl \<Rightarrow> serverImpl" where
  "serve_return s = s\<lparr>sv_accepting := sv_accepting s - 1\<rparr>"

definition serve_register :: "nat \<Rightarrow> serverImpl \<Rightarrow> serverImpl" where
  "serve_register c s =
     (let s = s\<lparr>sv_registering := sv_registering s - {c}, sv_accepting := sv_accepting s + 1\<rparr>
      in if sv_closing s then close_conn c s
         else s\<lparr>sv_conns := insert c (sv_conns s), sv_handling := insert c (sv_handling s)\<rparr>)"

section \<open>serveClient\<close>

definition handler_end :: "nat \<Rightarrow> serverImpl \<Rightarrow> serverImpl" where
  "handler_end c s = close_conn c (s\<lparr>sv_handling := sv_handling s - {c},
     sv_unregistering := insert c (sv_unregistering s)\<rparr>)"

definition handler_unregister :: "nat \<Rightarrow> serverImpl \<Rightarrow> serverImpl" where
  "handler_unregister c s = s\<lparr>sv_conns := sv_conns s - {c}, sv_unregistering := sv_unregistering s - {c},
     sv_leaving := insert c (sv_leaving s)\<rparr>"

definition handler_leave :: "nat \<Rightarrow> serverImpl \<Rightarrow> serverImpl" where
  "handler_leave c s = s\<lparr>sv_leaving := sv_leaving s - {c}\<rparr>"

section \<open>Steps\<close>

text \<open>
  \<open>Accept\<close> may still deliver a connection that was established before the listener was closed, and
  may fail at any time.  The connections of the snapshot are closed concurrently, in any order; a
  peer may close its connection at any time.
\<close>

inductive sv_step :: "serverImpl \<Rightarrow> serverImpl \<Rightarrow> bool" where
  Serve: "sv_step s (serve_call s)"
| Accept: "0 < sv_accepting s \<Longrightarrow> sv_step s (serve_accept s)"
| AcceptErr: "0 < sv_accepting s \<Longrightarrow> sv_step s (serve_return s)"
| Register: "c \<in> sv_registering s \<Longrightarrow> sv_step s (serve_register c s)"
| PeerClose: "sv_step s (close_conn c s)"
| HandlerEnd: "c \<in> sv_handling s \<Longrightarrow> sv_step s (handler_end c s)"
| HandlerDelete: "c \<in> sv_unregistering s \<Longrightarrow> sv_step s (handler_unregister c s)"
| HandlerDone: "c \<in> sv_leaving s \<Longrightarrow> sv_step s (handler_leave c s)"
| Close: "sv_close s = NotCalled \<Longrightarrow> sv_step s (s\<lparr>sv_closing := True, sv_close := ClosingListener\<rparr>)"
| CloseListener: "sv_close s = ClosingListener \<Longrightarrow> sv_step s (s\<lparr>sv_listening := False, sv_close := WaitingServe\<rparr>)"
| ServeWait: "sv_close s = WaitingServe \<Longrightarrow> serve_done s \<Longrightarrow> sv_step s (s\<lparr>sv_close := Snapshotting\<rparr>)"
| Snapshot: "sv_close s = Snapshotting \<Longrightarrow> sv_step s (s\<lparr>sv_close := ClosingConns (sv_conns s)\<rparr>)"
| CloseConn: "sv_close s = ClosingConns cs \<Longrightarrow> c \<in> cs \<Longrightarrow>
    sv_step s ((close_conn c s)\<lparr>sv_close := ClosingConns (cs - {c})\<rparr>)"
| ConnsClosed: "sv_close s = ClosingConns {} \<Longrightarrow> sv_step s (s\<lparr>sv_close := WaitingHandlers\<rparr>)"
| HandlerWait: "sv_close s = WaitingHandlers \<Longrightarrow> handlers s = {} \<Longrightarrow> sv_step s (s\<lparr>sv_close := ClosingTransport\<rparr>)"
| CloseTransport: "sv_close s = ClosingTransport \<Longrightarrow> sv_step s (s\<lparr>sv_transport := False, sv_close := Closed\<rparr>)"

inductive_cases sv_stepE: "sv_step s s'"

inductive sv_reach :: "serverImpl \<Rightarrow> bool" where
  new: "sv_reach NewServer"
| step: "sv_reach s \<Longrightarrow> sv_step s s' \<Longrightarrow> sv_reach s'"

section \<open>Invariants\<close>

lemmas life_defs = serve_call_def serve_accept_def serve_register_def serve_return_def close_conn_def
  handler_end_def handler_unregister_def handler_leave_def serve_done_def handlers_def

text \<open>
  A connection is in one place: being registered, handled, unregistered or left; the table holds
  those between registration and removal; an open connection is being registered or handled.
\<close>

definition table_inv :: "serverImpl \<Rightarrow> bool" where
  "table_inv s \<longleftrightarrow> sv_conns s = sv_handling s \<union> sv_unregistering s \<and>
     sv_open s \<subseteq> sv_registering s \<union> sv_handling s \<and>
     sv_registering s \<inter> handlers s = {} \<and> sv_handling s \<inter> sv_unregistering s = {} \<and>
     sv_leaving s \<inter> (sv_handling s \<union> sv_unregistering s) = {} \<and>
     (\<forall>c \<in> sv_registering s \<union> handlers s. c < sv_next s)"

definition close_inv :: "serverImpl \<Rightarrow> bool" where
  "close_inv s \<longleftrightarrow> sv_closing s = (sv_close s \<noteq> NotCalled) \<and> sv_transport s = (sv_close s \<noteq> Closed) \<and>
     (case sv_close s of
        NotCalled \<Rightarrow> True | ClosingListener \<Rightarrow> True | WaitingServe \<Rightarrow> True
      | Snapshotting \<Rightarrow> serve_done s
      | ClosingConns cs \<Rightarrow> serve_done s \<and> sv_open s \<subseteq> cs
      | WaitingHandlers \<Rightarrow> serve_done s \<and> sv_open s = {}
      | ClosingTransport \<Rightarrow> serve_done s \<and> sv_open s = {} \<and> handlers s = {}
      | Closed \<Rightarrow> serve_done s \<and> sv_open s = {} \<and> handlers s = {})"

lemma table_inv_cong:
  assumes "sv_conns s' = sv_conns s" "sv_open s' \<subseteq> sv_open s" "sv_registering s' = sv_registering s"
    "sv_handling s' = sv_handling s" "sv_unregistering s' = sv_unregistering s" "sv_leaving s' \<subseteq> sv_leaving s"
    "sv_next s' = sv_next s" "table_inv s"
  shows "table_inv s'"
proof -
  note T = assms(8) [unfolded table_inv_def]
  have h: "handlers s' \<subseteq> handlers s" unfolding handlers_def assms(4,5) using assms(6) by blast
  show ?thesis
    unfolding table_inv_def assms(1,3,4,5,7)
  proof (intro conjI)
    show "sv_open s' \<subseteq> sv_registering s \<union> sv_handling s" using T assms(2) by (meson subset_trans)
    show "sv_registering s \<inter> handlers s' = {}" using T h by (meson disjoint_iff subsetD)
    show "sv_leaving s' \<inter> (sv_handling s \<union> sv_unregistering s) = {}"
      using T assms(6) by (meson disjoint_iff subsetD)
    show "\<forall>c \<in> sv_registering s \<union> handlers s'. c < sv_next s" using T h by (meson UnE UnI1 UnI2 subsetD)
  qed (simp_all add: T)
qed

lemma step_table: "sv_step s s' \<Longrightarrow> table_inv s \<Longrightarrow> table_inv s'"
proof (induction rule: sv_step.induct)
  case (Accept s)
  then have "sv_next s \<notin> sv_registering s \<union> handlers s" by (auto simp: table_inv_def)
  with Accept show ?case unfolding table_inv_def serve_accept_def handlers_def
    by (simp add: less_Suc_eq) blast
next
  case (Register c s)
  then show ?case
    unfolding table_inv_def serve_register_def close_conn_def handlers_def Let_def
    by (cases "sv_closing s"; simp; blast)
next
  case (HandlerEnd c s)
  then show ?case unfolding table_inv_def handler_end_def close_conn_def handlers_def by (simp; blast)
next
  case (HandlerDelete c s)
  then show ?case unfolding table_inv_def handler_unregister_def handlers_def by (simp; blast)
qed (erule table_inv_cong [rotated -1]; auto simp: serve_call_def serve_return_def close_conn_def handler_leave_def)+

lemma close_inv_early:
  assumes "close_inv s" "\<not> serve_done s" "sv_close s' = sv_close s" "sv_closing s' = sv_closing s"
    "sv_transport s' = sv_transport s"
  shows "close_inv s'"
  using assms by (cases "sv_close s") (auto simp: close_inv_def)

lemma close_inv_keep:
  assumes "close_inv s" "sv_close s' = sv_close s" "sv_closing s' = sv_closing s" "sv_transport s' = sv_transport s"
    "serve_done s \<Longrightarrow> serve_done s'" "sv_open s' \<subseteq> sv_open s" "handlers s' \<subseteq> handlers s"
  shows "close_inv s'"
  using assms by (cases "sv_close s") (auto simp: close_inv_def)

lemma close_inv_call: "close_inv s \<Longrightarrow> close_inv (serve_call s)"
proof (cases "sv_closing s")
  case False
  assume "close_inv s"
  with False show ?thesis by (simp add: close_inv_def serve_call_def)
qed (simp add: serve_call_def)

lemma step_close: "sv_step s s' \<Longrightarrow> table_inv s \<Longrightarrow> close_inv s \<Longrightarrow> close_inv s'"
proof (induction rule: sv_step.induct)
  case (Serve s)
  then show ?case by (simp add: close_inv_call)
next
  case (Accept s)
  then show ?case by - (rule close_inv_early [where s = s]; auto simp: serve_done_def serve_accept_def)
next
  case (AcceptErr s)
  then show ?case by - (rule close_inv_early [where s = s]; auto simp: serve_done_def serve_return_def)
next
  case (Register c s)
  then show ?case
    by - (rule close_inv_early [where s = s]; auto simp: serve_done_def serve_register_def close_conn_def Let_def)
next
  case (Snapshot s)
  then have "sv_open s \<subseteq> sv_conns s" by (auto simp: table_inv_def close_inv_def serve_done_def)
  then show ?case using Snapshot by (simp add: close_inv_def serve_done_def)
next
  case (CloseConn s cs c)
  then show ?case by (auto simp: close_inv_def close_conn_def serve_done_def)
next
  case (PeerClose s c)
  then show ?case by - (rule close_inv_keep [where s = s]; auto simp: close_conn_def serve_done_def handlers_def)
next
  case (HandlerEnd c s)
  then show ?case
    by - (rule close_inv_keep [where s = s]; auto simp: handler_end_def close_conn_def serve_done_def handlers_def)
next
  case (HandlerDelete c s)
  then show ?case
    by - (rule close_inv_keep [where s = s]; auto simp: handler_unregister_def serve_done_def handlers_def)
next
  case (HandlerDone c s)
  then show ?case by - (rule close_inv_keep [where s = s]; auto simp: handler_leave_def serve_done_def handlers_def)
qed (auto simp: close_inv_def serve_done_def handlers_def)

lemma reach_inv: "sv_reach s \<Longrightarrow> table_inv s \<and> close_inv s"
proof (induction rule: sv_reach.induct)
  case new
  then show ?case by (simp add: NewServer_def table_inv_def close_inv_def handlers_def)
next
  case (step s s')
  then show ?case using step_table step_close by blast
qed

text \<open>
  C7: \<open>Close\<close> is a barrier, however accepting, registering, handling and closing interleave: once
  it waits for the handlers no connection is open and none will be, and when the transport is
  closed no goroutine of the server is left and the table is empty.  Until then the table holds
  exactly the connections whose handler has not left it.
\<close>

theorem server_close_is_barrier:
  assumes "sv_reach s"
  shows "sv_conns s = sv_handling s \<union> sv_unregistering s \<and>
    (if sv_close s \<in> {WaitingHandlers, ClosingTransport, Closed} then serve_done s \<and> sv_open s = {} else True) \<and>
    (if \<not> sv_transport s then sv_conns s = {} \<and> handlers s = {} \<and> serve_done s \<and> sv_closing s else True)"
  using reach_inv [OF assms] by (auto simp: table_inv_def close_inv_def handlers_def split: close_pc.splits)

text \<open>The connection that was accepted while \<open>Close\<close> began is closed by \<open>Serve\<close>, not left behind.\<close>

definition late_conn :: serverImpl where
  "late_conn = serve_return (serve_register 0 ((serve_accept (serve_call NewServer))
     \<lparr>sv_closing := True, sv_close := ClosingListener\<rparr>))"

lemma server_close_is_barrier_witness:
  "sv_open late_conn = {} \<and> sv_conns late_conn = sv_handling late_conn \<union> sv_unregistering late_conn"
proof -
  have "sv_reach (serve_call NewServer)" using sv_reach.intros sv_step.Serve by blast
  then have "sv_reach (serve_accept (serve_call NewServer))"
    using sv_reach.step sv_step.Accept by (simp add: serve_call_def NewServer_def)
  then have "sv_reach ((serve_accept (serve_call NewServer))\<lparr>sv_closing := True, sv_close := ClosingListener\<rparr>)"
    by (rule sv_reach.step) (intro sv_step.Close, simp add: life_defs NewServer_def)
  then have "sv_reach (serve_register 0 ((serve_accept (serve_call NewServer))
      \<lparr>sv_closing := True, sv_close := ClosingListener\<rparr>))"
    by (rule sv_reach.step) (intro sv_step.Register, simp add: life_defs NewServer_def)
  then have "sv_reach late_conn"
    unfolding late_conn_def by (rule sv_reach.step) (intro sv_step.AcceptErr, simp add: life_defs NewServer_def)
  from server_close_is_barrier [OF this]
  show ?thesis by (simp add: late_conn_def life_defs NewServer_def)
qed



end
