(* ===== verification/Preauth.thy ===== *)
theory Preauth
  imports Hy_Prelude
begin

text \<open>
  \<open>core/server/preauth_yue.go\<close>: the cap on what a connection may have received and not yet read
  before it authenticates.  The code is lock-free, so the model's steps are single accesses to shared
  memory: the map of connections (\<open>sync.Map\<close>), and the atomics \<open>authenticated\<close> and \<open>unread\<close> of an entry,
  which stays reachable for a goroutine that loaded its address before the entry was removed.
  Any number of goroutines run any calls concurrently; each is a program counter.
\<close>

section \<open>Shared state and program counters\<close>

record preAuthConn =
  pc_authenticated :: bool
  pc_unread :: int

record shared =
  sh_conns :: "nat \<Rightarrow> nat option"
  sh_heap :: "preAuthConn list"

datatype pc =
    AllowStart nat int
  | AllowAuth nat int
  | AllowLoad nat int
  | AllowCAS nat int int
  | ReleaseStart nat int
  | ReleaseLoad nat int
  | ReleaseCAS nat int int
  | MarkStart nat
  | MarkStore nat
  | ForgetStart nat
  | Done
  | Answer bool

definition read_entry :: "shared \<Rightarrow> nat \<Rightarrow> preAuthConn" where
  "read_entry s a = sh_heap s ! a"

definition write_unread :: "shared \<Rightarrow> nat \<Rightarrow> int \<Rightarrow> shared" where
  "write_unread s a v = s\<lparr>sh_heap := (sh_heap s)[a := (sh_heap s ! a)\<lparr>pc_unread := v\<rparr>]\<rparr>"

text \<open>\<open>state\<close>: \<open>Load\<close> and then \<open>LoadOrStore\<close>, which is atomic and has the same result.\<close>

definition pre_state :: "shared \<Rightarrow> nat \<Rightarrow> shared \<times> nat" where
  "pre_state s c =
     (case sh_conns s c of
        Some a \<Rightarrow> (s, a)
      | None \<Rightarrow> (s\<lparr>sh_conns := (sh_conns s)(c \<mapsto> length (sh_heap s)),
                   sh_heap := sh_heap s @ [\<lparr>pc_authenticated = False, pc_unread = 0\<rparr>]\<rparr>, length (sh_heap s)))"

text \<open>One access of a goroutine; \<open>limit\<close> is the cap, never 0 (\<open>newPreAuthReceive\<close> gives nil then).\<close>

fun pre_step :: "int \<Rightarrow> shared \<Rightarrow> pc \<Rightarrow> shared \<times> pc" where
  "pre_step limit s (AllowStart c delta) =
     (if delta = 0 then (s, Answer True) else (case pre_state s c of (s, a) \<Rightarrow> (s, AllowAuth a delta)))"
| "pre_step limit s (AllowAuth a delta) =
     (if pc_authenticated (read_entry s a) then (s, Answer True) else (s, AllowLoad a delta))"
| "pre_step limit s (AllowLoad a delta) =
     (let used = pc_unread (read_entry s a)
      in if used \<ge> limit \<or> delta > u64 (limit - used) then (s, Answer False) else (s, AllowCAS a delta used))"
| "pre_step limit s (AllowCAS a delta used) =
     (if pc_unread (read_entry s a) = used then (write_unread s a (u64 (used + delta)), Answer True)
      else (s, AllowLoad a delta))"
| "pre_step limit s (ReleaseStart c delta) =
     (if delta = 0 then (s, Done)
      else (case sh_conns s c of None \<Rightarrow> (s, Done) | Some a \<Rightarrow> (s, ReleaseLoad a delta)))"
| "pre_step limit s (ReleaseLoad a delta) = (s, ReleaseCAS a delta (pc_unread (read_entry s a)))"
| "pre_step limit s (ReleaseCAS a delta used) =
     (if pc_unread (read_entry s a) = used
      then (write_unread s a (if delta < used then u64 (used - delta) else 0), Done)
      else (s, ReleaseLoad a delta))"
| "pre_step limit s (MarkStart c) = (case pre_state s c of (s, a) \<Rightarrow> (s, MarkStore a))"
| "pre_step limit s (MarkStore a) =
     (s\<lparr>sh_heap := (sh_heap s)[a := (sh_heap s ! a)\<lparr>pc_authenticated := True\<rparr>]\<rparr>, Done)"
| "pre_step limit s (ForgetStart c) = (s\<lparr>sh_conns := (sh_conns s)(c := None)\<rparr>, Done)"
| "pre_step limit s Done = (s, Done)"
| "pre_step limit s (Answer b) = (s, Answer b)"

text \<open>
  The three callbacks that \<open>wrapQUICConfig\<close> installs: the embedder's \<open>AllowConnectionReceive\<close> (with
  its answer; \<open>True\<close> if there is none) is asked after the cap, and its refusal returns the charge;
  \<open>ReleaseConnectionReceive\<close> and \<open>NotifyConnectionClosed\<close> are \<open>release\<close> and \<open>forget\<close> here, as the
  embedder's callbacks see none of this state.
\<close>

datatype thread =
    Plain pc
  | Wrapped pc nat int bool
  | Refused pc

fun thread_step :: "int \<Rightarrow> shared \<Rightarrow> thread \<Rightarrow> shared \<times> thread" where
  "thread_step limit s (Plain p) = (case pre_step limit s p of (s, p) \<Rightarrow> (s, Plain p))"
| "thread_step limit s (Wrapped (Answer True) c delta nextAllow) =
     (if nextAllow then (s, Plain (Answer True)) else (s, Refused (ReleaseStart c delta)))"
| "thread_step limit s (Wrapped (Answer False) c delta nextAllow) = (s, Plain (Answer False))"
| "thread_step limit s (Wrapped p c delta nextAllow) =
     (case pre_step limit s p of (s, p) \<Rightarrow> (s, Wrapped p c delta nextAllow))"
| "thread_step limit s (Refused Done) = (s, Plain (Answer False))"
| "thread_step limit s (Refused p) = (case pre_step limit s p of (s, p) \<Rightarrow> (s, Refused p))"

section \<open>The system\<close>

text \<open>
  At any time a new call starts, or a goroutine makes its next access.  The trace records the
  successful compare-and-swaps: what was granted against an entry's cap and what was released.
\<close>

datatype pre_event = Granted nat int | Released nat int

fun pc_of :: "thread \<Rightarrow> pc" where
  "pc_of (Plain p) = p" | "pc_of (Wrapped p c d n) = p" | "pc_of (Refused p) = p"

fun pre_emits :: "shared \<Rightarrow> pc \<Rightarrow> pre_event list" where
  "pre_emits s (AllowCAS a delta used) = (if pc_unread (read_entry s a) = used then [Granted a delta] else [])"
| "pre_emits s (ReleaseCAS a delta used) = (if pc_unread (read_entry s a) = used then [Released a delta] else [])"
| "pre_emits s p = []"

record system =
  sy_shared :: shared
  sy_threads :: "thread list"
  sy_trace :: "pre_event list"

definition amount_ok :: "int \<Rightarrow> bool" where "amount_ok d \<longleftrightarrow> 0 \<le> d \<and> d < 2 ^ 64"

definition call_ok :: "thread \<Rightarrow> bool" where
  "call_ok t = (case t of
     Plain (AllowStart c d) \<Rightarrow> amount_ok d | Plain (ReleaseStart c d) \<Rightarrow> amount_ok d
   | Plain (MarkStart c) \<Rightarrow> True | Plain (ForgetStart c) \<Rightarrow> True
   | Wrapped (AllowStart c d) c' d' n \<Rightarrow> amount_ok d \<and> c' = c \<and> d' = d | _ \<Rightarrow> False)"

definition sys_call :: "thread \<Rightarrow> system \<Rightarrow> system" where
  "sys_call t y = y\<lparr>sy_threads := sy_threads y @ [t]\<rparr>"

definition sys_step :: "int \<Rightarrow> nat \<Rightarrow> system \<Rightarrow> system" where
  "sys_step limit i y =
     (let t = sy_threads y ! i
      in case thread_step limit (sy_shared y) t of
           (s, t') \<Rightarrow> \<lparr>sy_shared = s, sy_threads = (sy_threads y)[i := t'],
                       sy_trace = sy_trace y @ pre_emits (sy_shared y) (pc_of t)\<rparr>)"

definition sys_init :: system where
  "sys_init = \<lparr>sy_shared = \<lparr>sh_conns = (\<lambda>_. None), sh_heap = []\<rparr>, sy_threads = [], sy_trace = []\<rparr>"

inductive pre_reach :: "int \<Rightarrow> system \<Rightarrow> bool" for limit where
  init: "pre_reach limit sys_init"
| call: "pre_reach limit y \<Longrightarrow> call_ok t \<Longrightarrow> pre_reach limit (sys_call t y)"
| step: "pre_reach limit y \<Longrightarrow> i < length (sy_threads y) \<Longrightarrow> pre_reach limit (sys_step limit i y)"

section \<open>The cap holds\<close>

fun granted :: "nat \<Rightarrow> pre_event list \<Rightarrow> int" where
  "granted a [] = 0"
| "granted a (Granted b d # es) = (if a = b then d else 0) + granted a es"
| "granted a (Released b d # es) = granted a es"

fun released :: "nat \<Rightarrow> pre_event list \<Rightarrow> int" where
  "released a [] = 0"
| "released a (Granted b d # es) = released a es"
| "released a (Released b d # es) = (if a = b then d else 0) + released a es"

lemma granted_append [simp]: "granted a (es @ es') = granted a es + granted a es'"
  by (induction es rule: granted.induct) auto

lemma released_append [simp]: "released a (es @ es') = released a es + released a es'"
  by (induction es rule: released.induct) auto

text \<open>What a program counter knows: its entry exists, and what it is about to add fits the cap.\<close>

fun pc_ok :: "int \<Rightarrow> shared \<Rightarrow> pc \<Rightarrow> bool" where
  "pc_ok limit s (AllowStart c d) = amount_ok d"
| "pc_ok limit s (AllowAuth a d) = (amount_ok d \<and> a < length (sh_heap s))"
| "pc_ok limit s (AllowLoad a d) = (amount_ok d \<and> a < length (sh_heap s))"
| "pc_ok limit s (AllowCAS a d used) = (amount_ok d \<and> a < length (sh_heap s) \<and> 0 \<le> used \<and> used + d \<le> limit)"
| "pc_ok limit s (ReleaseStart c d) = amount_ok d"
| "pc_ok limit s (ReleaseLoad a d) = (amount_ok d \<and> a < length (sh_heap s))"
| "pc_ok limit s (ReleaseCAS a d used) = (amount_ok d \<and> a < length (sh_heap s) \<and> 0 \<le> used \<and> used \<le> limit)"
| "pc_ok limit s (MarkStore a) = (a < length (sh_heap s))"
| "pc_ok limit s p = True"

fun thread_ok :: "int \<Rightarrow> shared \<Rightarrow> thread \<Rightarrow> bool" where
  "thread_ok limit s (Plain p) = pc_ok limit s p"
| "thread_ok limit s (Wrapped p c d n) = (pc_ok limit s p \<and> amount_ok d)"
| "thread_ok limit s (Refused p) = pc_ok limit s p"

definition shared_ok :: "int \<Rightarrow> shared \<Rightarrow> bool" where
  "shared_ok limit s \<longleftrightarrow> (\<forall>c a. sh_conns s c = Some a \<longrightarrow> a < length (sh_heap s)) \<and>
     (\<forall>a < length (sh_heap s). 0 \<le> pc_unread (sh_heap s ! a) \<and> pc_unread (sh_heap s ! a) \<le> limit)"

definition entry_unread :: "shared \<Rightarrow> nat \<Rightarrow> int" where
  "entry_unread s a = (if a < length (sh_heap s) then pc_unread (sh_heap s ! a) else 0)"

definition covered :: "shared \<Rightarrow> pre_event list \<Rightarrow> bool" where
  "covered s es \<longleftrightarrow> (\<forall>a. granted a es - released a es \<le> entry_unread s a)"

lemma covered_same: "covered s es \<Longrightarrow> (\<And>a. entry_unread s' a = entry_unread s a) \<Longrightarrow> covered s' es"
  by (simp add: covered_def)

lemma entry_unread_write:
  "a < length (sh_heap s) \<Longrightarrow> entry_unread (write_unread s a v) b = (if b = a then v else entry_unread s b)"
  by (auto simp: entry_unread_def write_unread_def nth_list_update)

lemma pre_state_ok:
  assumes "shared_ok limit s" "0 < limit" "pre_state s c = (s', a)"
  shows "shared_ok limit s'" "a < length (sh_heap s')" "length (sh_heap s) \<le> length (sh_heap s')"
    "covered s es \<Longrightarrow> covered s' es"
proof -
  have "entry_unread s' b = entry_unread s b" for b
    using assms(3) by (auto simp: pre_state_def entry_unread_def nth_append split: option.splits)
  then show "covered s es \<Longrightarrow> covered s' es" using covered_same by blast
  show "shared_ok limit s'" "a < length (sh_heap s')" "length (sh_heap s) \<le> length (sh_heap s')"
    using assms by (auto simp: pre_state_def shared_ok_def nth_append less_Suc_eq split: option.splits if_splits)
qed

lemma pc_ok_mono: "pc_ok limit s p \<Longrightarrow> length (sh_heap s) \<le> length (sh_heap s') \<Longrightarrow> pc_ok limit s' p"
  by (cases p) auto

lemma write_unread_ok:
  assumes "shared_ok limit s" "a < length (sh_heap s)" "0 \<le> v" "v \<le> limit"
  shows "shared_ok limit (write_unread s a v)" "length (sh_heap (write_unread s a v)) = length (sh_heap s)"
  using assms by (auto simp: shared_ok_def write_unread_def nth_list_update)

lemma pre_step_ok:
  assumes lim: "0 < limit" "limit < 2 ^ 64" and s: "shared_ok limit s" "pc_ok limit s p" "covered s es"
    and st: "pre_step limit s p = (s', p')"
  shows "shared_ok limit s' \<and> pc_ok limit s' p' \<and> length (sh_heap s) \<le> length (sh_heap s') \<and>
    covered s' (es @ pre_emits s p)"
proof (cases p)
  case (AllowStart c d)
  then show ?thesis using s st pre_state_ok [OF s(1) lim(1), of c]
    by (auto simp: amount_ok_def split: if_splits prod.splits)
next
  case (MarkStart c)
  then show ?thesis using s st pre_state_ok [OF s(1) lim(1), of c] by (auto split: prod.splits)
next
  case (AllowLoad a d)
  have "0 \<le> pc_unread (sh_heap s ! a)" "pc_unread (sh_heap s ! a) \<le> limit"
    using s AllowLoad by (auto simp: shared_ok_def)
  then have "u64 (limit - pc_unread (sh_heap s ! a)) = limit - pc_unread (sh_heap s ! a)"
    using lim by (intro u64_id) simp_all
  then show ?thesis using s st AllowLoad \<open>0 \<le> _\<close>
    by (auto simp: read_entry_def Let_def split: if_splits)
next
  case (AllowCAS a d used)
  show ?thesis
  proof (cases "pc_unread (read_entry s a) = used")
    case True
    have u: "u64 (used + d) = used + d" using s(2) AllowCAS lim by (intro u64_id) (auto simp: amount_ok_def)
    have al: "a < length (sh_heap s)" and e: "entry_unread s a = used"
      using s(2) AllowCAS True by (auto simp: entry_unread_def read_entry_def)
    have "covered (write_unread s a (used + d)) (es @ [Granted a d])"
      unfolding covered_def
    proof
      fix b
      have "granted b es - released b es \<le> entry_unread s b" using s(3) by (simp add: covered_def)
      then show "granted b (es @ [Granted a d]) - released b (es @ [Granted a d]) \<le>
          entry_unread (write_unread s a (used + d)) b"
        using e by (cases "b = a") (simp_all add: entry_unread_write [OF al])
    qed
    then show ?thesis
      using s st AllowCAS True u write_unread_ok [OF s(1), of a "used + d"] by (auto simp: amount_ok_def)
  next
    case False
    then show ?thesis using s st AllowCAS by auto
  qed
next
  case (ReleaseCAS a d used)
  show ?thesis
  proof (cases "pc_unread (read_entry s a) = used")
    case True
    define v where "v = (if d < used then u64 (used - d) else 0)"
    have v: "0 \<le> v" "v \<le> limit" "used - d \<le> v"
      using s(2) ReleaseCAS lim by (auto simp: v_def amount_ok_def u64_def)
    have al: "a < length (sh_heap s)" and e: "entry_unread s a = used"
      using s(2) ReleaseCAS True by (auto simp: entry_unread_def read_entry_def)
    have "covered (write_unread s a v) (es @ [Released a d])"
      unfolding covered_def
    proof
      fix b
      have "granted b es - released b es \<le> entry_unread s b" using s(3) by (simp add: covered_def)
      then show "granted b (es @ [Released a d]) - released b (es @ [Released a d]) \<le>
          entry_unread (write_unread s a v) b"
        using e v(3) by (cases "b = a") (simp_all add: entry_unread_write [OF al])
    qed
    then show ?thesis
      using s st ReleaseCAS True v write_unread_ok [OF s(1), of a v] by (auto simp: v_def [symmetric])
  next
    case False
    then show ?thesis using s st ReleaseCAS by auto
  qed
next
  case (MarkStore a)
  then have "entry_unread s' b = entry_unread s b" for b
    using st s(2) MarkStore by (auto simp: entry_unread_def nth_list_update)
  then have "covered s' es" using covered_same s(3) by blast
  then show ?thesis using s st MarkStore by (auto simp: shared_ok_def nth_list_update)
next
  case (ReleaseLoad a d)
  then show ?thesis using s st by (auto simp: read_entry_def shared_ok_def)
next
  case (ReleaseStart c d)
  then show ?thesis using s st by (auto simp: shared_ok_def split: if_splits option.splits)
next
  case (ForgetStart c)
  then have "entry_unread s' b = entry_unread s b" for b using st by (auto simp: entry_unread_def)
  then have "covered s' es" using covered_same s(3) by blast
  then show ?thesis using s st ForgetStart by (auto simp: shared_ok_def split: if_splits)
qed (use s st in \<open>auto split: if_splits\<close>)

lemma thread_step_ok:
  assumes lim: "0 < limit" "limit < 2 ^ 64" and s: "shared_ok limit s" "thread_ok limit s t" "covered s es"
    and st: "thread_step limit s t = (s', t')"
  shows "shared_ok limit s' \<and> thread_ok limit s' t' \<and> length (sh_heap s) \<le> length (sh_heap s') \<and>
    covered s' (es @ pre_emits s (pc_of t))"
proof -
  obtain p where p: "pc_of t = p" by simp
  obtain s1 p1 where st1: "pre_step limit s p = (s1, p1)" by fastforce
  have ok: "pc_ok limit s p" using s(2) p by (cases t) auto
  note P = pre_step_ok [OF lim s(1) ok s(3) st1]
  show ?thesis
  proof (cases t)
    case (Plain q)
    then show ?thesis using P p st st1 by auto
  next
    case (Wrapped q c d n)
    show ?thesis
    proof (cases "\<exists>b. q = Answer b")
      case True
      then obtain b where "q = Answer b" by blast
      then show ?thesis using Wrapped s st by (cases b) (auto split: if_splits)
    next
      case False
      then have "(s', t') = (s1, Wrapped p1 c d n)" using Wrapped p st st1 by (cases q) auto
      then show ?thesis using P p s(2) Wrapped by auto
    qed
  next
    case (Refused q)
    show ?thesis
    proof (cases "q = Done")
      case True
      then show ?thesis using Refused s st by auto
    next
      case False
      then have "(s', t') = (s1, Refused p1)" using Refused p st st1 by (cases q) auto
      then show ?thesis using P p Refused by auto
    qed
  qed
qed

lemma thread_ok_mono:
  "thread_ok limit s t \<Longrightarrow> length (sh_heap s) \<le> length (sh_heap s') \<Longrightarrow> thread_ok limit s' t"
  using pc_ok_mono by (cases t) auto

lemma pre_reach_ok:
  assumes "pre_reach limit y" "0 < limit" "limit < 2 ^ 64"
  shows "shared_ok limit (sy_shared y) \<and> (\<forall>t \<in> set (sy_threads y). thread_ok limit (sy_shared y) t) \<and>
    covered (sy_shared y) (sy_trace y)"
  using assms(1)
proof induction
  case init
  then show ?case by (simp add: sys_init_def shared_ok_def covered_def entry_unread_def)
next
  case (call y t)
  have "thread_ok limit (sy_shared y) t" using call.hyps(2) by (auto simp: call_ok_def split: thread.splits pc.splits)
  with call.IH show ?case by (simp add: sys_call_def)
next
  case (step y i)
  obtain s t where st: "thread_step limit (sy_shared y) (sy_threads y ! i) = (s, t)" by fastforce
  have t: "sy_threads y ! i \<in> set (sy_threads y)" using step.hyps(2) by simp
  have "shared_ok limit s \<and> thread_ok limit s t \<and> length (sh_heap (sy_shared y)) \<le> length (sh_heap s) \<and>
      covered s (sy_trace y @ pre_emits (sy_shared y) (pc_of (sy_threads y ! i)))"
    using thread_step_ok [OF assms(2,3) _ _ _ st] step.IH t by blast
  moreover have "\<forall>u \<in> set ((sy_threads y)[i := t]). thread_ok limit s u"
    using calculation step.IH thread_ok_mono set_update_subset_insert [of "sy_threads y" i t] by blast
  ultimately show ?case by (simp add: sys_step_def st Let_def)
qed

text \<open>
  C8: However any number of receive callbacks, releases, authentications and connection ends
  interleave, no connection's count of unread bytes before authentication exceeds the cap, it never
  wraps below zero, and what was granted against an entry beyond what was released from it is at
  most that count, hence at most the cap.
\<close>

theorem preauth_cap_holds:
  assumes "pre_reach limit y" "0 < limit" "limit < 2 ^ 64"
  shows "0 \<le> entry_unread (sy_shared y) a \<and> entry_unread (sy_shared y) a \<le> limit \<and>
    granted a (sy_trace y) - released a (sy_trace y) \<le> entry_unread (sy_shared y) a"
  using pre_reach_ok [OF assms] assms(2) by (auto simp: shared_ok_def covered_def entry_unread_def)

lemma sys_lengths [simp]:
  "length (sy_threads (sys_step limit i y)) = length (sy_threads y)"
  "length (sy_threads (sys_call t y)) = Suc (length (sy_threads y))"
  by (simp_all add: sys_step_def sys_call_def Let_def split: prod.split)

text \<open>Two callbacks race for a cap of 10: one gets its 6 bytes, the other is refused.\<close>

definition race :: system where
  "race = fold (sys_step 10) [0, 1, 0, 1, 0, 1, 0, 1, 1] (sys_call (Wrapped (AllowStart 7 6) 7 6 True)
     (sys_call (Plain (AllowStart 7 6)) sys_init))"

lemma preauth_cap_holds_witness:
  "sy_threads race = [Plain (Answer True), Wrapped (Answer False) 7 6 True] \<and>
   granted 0 (sy_trace race) - released 0 (sy_trace race) \<le> 10"
proof -
  have "pre_reach 10 race"
    unfolding race_def fold_simps comp_def id_def
    by (intro pre_reach.intros) (simp_all add: call_ok_def amount_ok_def)
  then have "granted 0 (sy_trace race) - released 0 (sy_trace race) \<le> 10"
    using preauth_cap_holds [of 10 race 0] by simp
  moreover have "sy_threads race = [Plain (Answer True), Wrapped (Answer False) 7 6 True]"
    by code_simp
  ultimately show ?thesis by simp
qed

section \<open>Progress\<close>

definition at_rest :: "pc \<Rightarrow> bool" where
  "at_rest p \<longleftrightarrow> p = Done \<or> (\<exists>b. p = Answer b)"

text \<open>A goroutine on its own: its next \<open>n\<close> accesses.\<close>

fun solo :: "int \<Rightarrow> nat \<Rightarrow> shared \<times> pc \<Rightarrow> shared \<times> pc" where
  "solo limit 0 x = x"
| "solo limit (Suc n) (s, p) = solo limit n (pre_step limit s p)"

lemma solo_rest [simp]:
  "solo limit n (s, Done) = (s, Done)" "solo limit n (s, Answer b) = (s, Answer b)"
  "at_rest Done" "at_rest (Answer b)"
  by (induction n) (simp_all add: at_rest_def)

lemma solo_CAS:
  "at_rest (snd (solo limit (Suc n) (s, AllowCAS a d (pc_unread (read_entry s a)))))"
  "at_rest (snd (solo limit (Suc n) (s, ReleaseCAS a d (pc_unread (read_entry s a)))))"
  by simp_all

lemma solo_Load:
  "at_rest (snd (solo limit (Suc (Suc n)) (s, AllowLoad a d)))"
  "at_rest (snd (solo limit (Suc (Suc n)) (s, ReleaseLoad a d)))"
  by (simp_all add: Let_def)


end
