(* ===== verification/Client_Config.thy ===== *)
theory Client_Config
  imports Server_Config
begin

text \<open>
  \<open>core/client/config.go\<close>: the client's configuration with its defaults and checks.  The windows and
  the idle timeout have the server's defaults, bounds and messages (the code repeats them), so the
  steps of \<open>Server_Config\<close> that fill them are used here too.  A field that holds code or a resource
  is only the fact whether it is set.
\<close>

definition defaultKeepAlivePeriod :: int where "defaultKeepAlivePeriod = 10 * time_Second"

record clientQUIC =
  cq_InitialStream :: int
  cq_MaxStream :: int
  cq_InitialConn :: int
  cq_MaxConn :: int
  cq_MaxIdleTimeout :: int
  cq_KeepAlivePeriod :: int
  cq_DisablePMTUD :: bool
  cq_DisableGSO :: bool
  cq_DisableChromeParrot :: bool

record clientConfig =
  cc_hasConnFactory :: bool
  cc_hasServerAddr :: bool
  cc_Auth :: string
  cc_QUIC :: clientQUIC
  cc_CongestionType :: string
  cc_BBRProfile :: string
  cc_MaxTx :: int
  cc_MaxRx :: int
  cc_DisableLossCompensation :: bool
  cc_FastOpen :: bool
  cc_filled :: bool

definition fill_keepalive :: "int \<Rightarrow> configError + int" where
  "fill_keepalive v =
     (if v = 0 then Inr defaultKeepAlivePeriod
      else if v < 2 * time_Second \<or> v > 60 * time_Second
      then Inl (ConfigError ''QUICConfig.KeepAlivePeriod'' ''must be between 2s and 60s'') else Inr v)"

definition client_fill_quic :: "clientQUIC \<Rightarrow> configError + clientQUIC" where
  "client_fill_quic q =
     andThen (fill_window ''QUICConfig.InitialStreamReceiveWindow'' (cq_InitialStream q) defaultStreamReceiveWindow) (\<lambda>v.
     let q = q\<lparr>cq_InitialStream := v\<rparr> in
     andThen (fill_window ''QUICConfig.MaxStreamReceiveWindow'' (cq_MaxStream q) defaultStreamReceiveWindow) (\<lambda>v.
     let q = q\<lparr>cq_MaxStream := v\<rparr> in
     andThen (fill_window ''QUICConfig.InitialConnectionReceiveWindow'' (cq_InitialConn q) defaultConnReceiveWindow) (\<lambda>v.
     let q = q\<lparr>cq_InitialConn := v\<rparr> in
     andThen (fill_window ''QUICConfig.MaxConnectionReceiveWindow'' (cq_MaxConn q) defaultConnReceiveWindow) (\<lambda>v.
     let q = q\<lparr>cq_MaxConn := v\<rparr> in
     andThen (fill_idle (cq_MaxIdleTimeout q)) (\<lambda>v.
     let q = q\<lparr>cq_MaxIdleTimeout := v\<rparr> in
     andThen (fill_keepalive (cq_KeepAlivePeriod q)) (\<lambda>v.
     Inr (q\<lparr>cq_KeepAlivePeriod := v\<rparr>)))))))"

definition client_fill_congestion :: "clientConfig \<Rightarrow> configError + clientConfig" where
  "client_fill_congestion c =
     (case NormalizeType (cc_CongestionType c) of
        Inl err \<Rightarrow> Inl (ConfigError ''CongestionConfig.Type'' err)
      | Inr t \<Rightarrow>
          (let c = c\<lparr>cc_CongestionType := t\<rparr>
           in if t = ''bbr'' then
                (case NormalizeBBRProfile (cc_BBRProfile c) of
                   Inl err \<Rightarrow> Inl (ConfigError ''CongestionConfig.BBRProfile'' err)
                 | Inr p \<Rightarrow> Inr (c\<lparr>cc_BBRProfile := p\<rparr>))
              else Inr c))"

definition verifyAndFill :: "bool \<Rightarrow> clientConfig \<Rightarrow> configError + clientConfig" where
  "verifyAndFill noPMTU c =
     (if cc_filled c then Inr c
      else
        (let c = (if cc_hasConnFactory c then c else c\<lparr>cc_hasConnFactory := True\<rparr>)
         in if \<not> cc_hasServerAddr c then Inl (ConfigError ''ServerAddr'' ''must be set'')
            else
              andThen (client_fill_quic (cc_QUIC c)) (\<lambda>q.
              let q = q\<lparr>cq_DisablePMTUD := cq_DisablePMTUD q \<or> noPMTU\<rparr> in
              andThen (client_fill_congestion (c\<lparr>cc_QUIC := q\<rparr>)) (\<lambda>c.
              Inr (c\<lparr>cc_filled := True\<rparr>)))))"

section \<open>Filled configurations\<close>

definition client_quic_ok :: "clientQUIC \<Rightarrow> bool" where
  "client_quic_ok q \<longleftrightarrow> 16384 \<le> cq_InitialStream q \<and> 16384 \<le> cq_MaxStream q \<and>
     16384 \<le> cq_InitialConn q \<and> 16384 \<le> cq_MaxConn q \<and>
     4 * time_Second \<le> cq_MaxIdleTimeout q \<and> cq_MaxIdleTimeout q \<le> 120 * time_Second \<and>
     2 * time_Second \<le> cq_KeepAlivePeriod q \<and> cq_KeepAlivePeriod q \<le> 60 * time_Second"

lemma fill_keepalive_ok: "fill_keepalive v = Inr w \<Longrightarrow> 2 * time_Second \<le> w \<and> w \<le> 60 * time_Second"
  by (auto simp: fill_keepalive_def defaultKeepAlivePeriod_def time_Second_def split: if_splits)

lemma client_fill_quic_ok:
  assumes "client_fill_quic q = Inr q'"
  shows "client_quic_ok q' \<and> cq_DisablePMTUD q' = cq_DisablePMTUD q"
proof -
  have d: "16384 \<le> defaultStreamReceiveWindow" "16384 \<le> defaultConnReceiveWindow" by (simp_all add: default_defs)
  note [dest!] = fill_window_ok [OF _ d(1)] fill_window_ok [OF _ d(2)] fill_idle_ok fill_keepalive_ok
  show ?thesis using assms unfolding client_fill_quic_def Let_def andThen_Inr by (auto simp: client_quic_ok_def)
qed

lemma client_fill_congestion_ok:
  assumes "client_fill_congestion c = Inr c'"
  shows "cc_QUIC c' = cc_QUIC c" "cc_hasConnFactory c' = cc_hasConnFactory c" "cc_hasServerAddr c' = cc_hasServerAddr c"
    "cc_CongestionType c' = ''reno'' \<or> cc_CongestionType c' = ''bbr'' \<and>
       cc_BBRProfile c' \<in> {''standard'', ''conservative'', ''aggressive''}"
  using assms NormalizeType_configured [of "cc_CongestionType c"] NormalizeBBRProfile_range [of "cc_BBRProfile c"]
  by (auto simp: client_fill_congestion_def Let_def split: sum.splits if_splits)

text \<open>
  The client's configuration, once accepted, has a connection factory and a server address, every
  window, timeout and period within its bounds, a congestion controller that exists, and is not
  changed by another call.
\<close>

lemma client_config_wellformed:
  assumes "verifyAndFill noPMTU c = Inr c'" "\<not> cc_filled c"
  shows "cc_hasConnFactory c' \<and> cc_hasServerAddr c' \<and> client_quic_ok (cc_QUIC c') \<and>
    (noPMTU \<longrightarrow> cq_DisablePMTUD (cc_QUIC c')) \<and>
    (cc_CongestionType c' = ''reno'' \<or> cc_CongestionType c' = ''bbr'' \<and>
       cc_BBRProfile c' \<in> {''standard'', ''conservative'', ''aggressive''}) \<and>
    verifyAndFill noPMTU c' = Inr c'"
proof -
  define c0 where "c0 = (if cc_hasConnFactory c then c else c\<lparr>cc_hasConnFactory := True\<rparr>)"
  have c0: "cc_hasConnFactory c0" by (simp add: c0_def)
  from assms have a: "cc_hasServerAddr c0" by (auto simp: verifyAndFill_def c0_def Let_def split: if_splits)
  obtain q c1 where q: "client_fill_quic (cc_QUIC c0) = Inr q"
    and c1: "client_fill_congestion (c0\<lparr>cc_QUIC := q\<lparr>cq_DisablePMTUD := cq_DisablePMTUD q \<or> noPMTU\<rparr>\<rparr>) = Inr c1"
      "c' = c1\<lparr>cc_filled := True\<rparr>"
    using assms a by (auto simp: verifyAndFill_def c0_def [symmetric] Let_def)
  show ?thesis using client_fill_congestion_ok [OF c1(1)] client_fill_quic_ok [OF q] c0 a
    by (auto simp: c1(2) client_quic_ok_def verifyAndFill_def)
qed

end
