(* ===== verification/Client_Udp.thy ===== *)
theory Client_Udp
  imports Server_Udp "HOL-Library.Sublist"
begin

text \<open>
  \<open>core/client/udp.go\<close> and the datagram side of \<open>core/client/client.go\<close>: the client's UDP sessions.
  A session (\<open>udpConn\<close>) has a defragmenter, a bounded channel the manager's receive loop feeds, and
  a send path that fragments when QUIC refuses a datagram as too large; the manager
  (\<open>udpSessionManager\<close>) keeps the sessions by their 32-bit id.

  The operations of the manager run under its mutex, a channel operation is atomic, so the
  goroutines (the receive loop, the users of the sessions) are a sequence of the steps below.  A
  channel is the list of the messages in it; a closed one still hands out what it holds.  Sessions
  are kept in the order of their creation, so a session is its index; the table maps ids to it.
\<close>

section \<open>Sessions\<close>

definition udpMessageChanSize :: nat where "udpMessageChanSize = 1024"

record udpConn =
  uc_ID :: u32
  uc_D :: defragger
  uc_ReceiveCh :: "udp_message list"
  uc_Closed :: bool

record clientSM =
  csm_m :: "(u32 \<times> nat) list"
  csm_conns :: "udpConn list"
  csm_nextID :: u32
  csm_closed :: bool

definition newClientSM :: clientSM where
  "newClientSM = \<lparr>csm_m = [], csm_conns = [], csm_nextID = 1, csm_closed = False\<rparr>"

text \<open>One iteration of \<open>Receive\<close>: the message it takes from the channel, and what becomes of it.
  \<open>Blocked\<close> is a receiver that waits; a panic is \<open>None\<close>.\<close>

datatype received = Blocked | EndOfStream | Incomplete | Received bytes string

definition Receive_step :: "udpConn \<Rightarrow> (udpConn \<times> received) option" where
  "Receive_step u =
     (case uc_ReceiveCh u of
        [] \<Rightarrow> Some (u, if uc_Closed u then EndOfStream else Blocked)
      | msg # ch \<Rightarrow>
          (case Feed (uc_D u) msg of
             None \<Rightarrow> None
           | Some (d, dfMsg) \<Rightarrow>
               Some (u\<lparr>uc_D := d, uc_ReceiveCh := ch\<rparr>,
                     case dfMsg of None \<Rightarrow> Incomplete | Some m \<Rightarrow> Received (Data m) (Addr m))))"

text \<open>The whole loop, on the channel as it is.\<close>

function Receive :: "udpConn \<Rightarrow> (udpConn \<times> received) option" where
  "Receive u =
     (case Receive_step u of
        Some (u', Incomplete) \<Rightarrow> if length (uc_ReceiveCh u') < length (uc_ReceiveCh u) then Receive u' else None
      | r \<Rightarrow> r)"
  by auto
termination by (relation "measure (\<lambda>u. length (uc_ReceiveCh u))") auto

text \<open>\<open>Send\<close>; the link is state passing, as in the server.\<close>

fun sendFragments ::
  "('s \<Rightarrow> udp_message \<Rightarrow> ('s \<times> send_result) option) \<Rightarrow> 's \<Rightarrow> udp_message list \<Rightarrow> ('s \<times> send_result) option" where
  "sendFragments send s [] = Some (s, SendOk)"
| "sendFragments send s (f # fs) =
     (case send s f of
        Some (s, SendOk) \<Rightarrow> sendFragments send s fs
      | r \<Rightarrow> r)"

definition udpConn_Send ::
  "(u64w \<Rightarrow> nat) \<Rightarrow> ('s \<Rightarrow> udp_message \<Rightarrow> ('s \<times> send_result) option) \<Rightarrow> nat \<Rightarrow> 's \<Rightarrow> udpConn
     \<Rightarrow> bytes \<Rightarrow> string \<Rightarrow> ('s \<times> send_result) option" where
  "udpConn_Send qlen SendFunc draw s u data addr =
     (let msg = \<lparr>SessionID = uc_ID u, PacketID = 0, FragID = 0, FragCount = 1, Addr = addr, Data = data\<rparr>
      in case SendFunc s msg of
           Some (s, TooLarge maxSize) \<Rightarrow>
             (let msg = msg\<lparr>PacketID := randPacketID draw\<rparr>
              in (case FragUDPMessage qlen msg maxSize of
                    None \<Rightarrow> None
                  | Some fMsgs \<Rightarrow> sendFragments SendFunc s fMsgs))
         | r \<Rightarrow> r)"

text \<open>\<open>udpIOImpl.SendMessage\<close> of the client, on the datagrams QUIC has taken so far; \<open>buf\<close> is the
  session's \<open>SendBuf\<close>, which every call overwrites.\<close>

definition client_SendMessage ::
  "(u64w \<Rightarrow> nat) \<Rightarrow> (bytes list \<Rightarrow> bytes \<Rightarrow> send_result) \<Rightarrow> bytes \<Rightarrow> bytes list \<Rightarrow> udp_message
     \<Rightarrow> (bytes list \<times> send_result) option" where
  "client_SendMessage qlen quic_send buf sent m =
     (case Serialize qlen m buf of
        None \<Rightarrow> None
      | Some (buf, msgN) \<Rightarrow>
          if msgN < 0 then Some (sent, SendOk)
          else (let d = take (nat msgN) buf
                in case quic_send sent d of
                     SendOk \<Rightarrow> Some (sent @ [d], SendOk)
                   | r \<Rightarrow> Some (sent, r)))"

text \<open>\<open>udpIOImpl.ReceiveMessage\<close> of the client, on the datagrams that QUIC has for it: those that do
  not parse are skipped; \<open>None\<close> is the error of the connection once it has no more.\<close>

fun client_ReceiveMessage ::
  "(bytes \<Rightarrow> io_error + (u64w \<times> nat)) \<Rightarrow> bytes list \<Rightarrow> (udp_message \<times> bytes list) option" where
  "client_ReceiveMessage qparse [] = None"
| "client_ReceiveMessage qparse (msg # dgs) =
     (case ParseUDPMessage qparse msg of
        Inl err \<Rightarrow> client_ReceiveMessage qparse dgs
      | Inr udpMsg \<Rightarrow> Some (udpMsg, dgs))"

section \<open>The session manager\<close>

definition csm_put :: "clientSM \<Rightarrow> nat \<Rightarrow> udpConn \<Rightarrow> clientSM" where
  "csm_put s r u = s\<lparr>csm_conns := (csm_conns s)[r := u]\<rparr>"

text \<open>\<open>feed\<close>: a send on a closed channel would panic.\<close>

definition csm_feed :: "clientSM \<Rightarrow> udp_message \<Rightarrow> clientSM option" where
  "csm_feed s msg =
     (case map_of (csm_m s) (SessionID msg) of
        None \<Rightarrow> Some s
      | Some r \<Rightarrow>
          (let u = csm_conns s ! r
           in if uc_Closed u then None
              else if length (uc_ReceiveCh u) < udpMessageChanSize
              then Some (csm_put s r (u\<lparr>uc_ReceiveCh := uc_ReceiveCh u @ [msg]\<rparr>))
              else Some s))"

definition csm_NewUDP :: "clientSM \<Rightarrow> clientSM \<times> nat option" where
  "csm_NewUDP s =
     (if csm_closed s then (s, None)
      else (let id' = csm_nextID s;
                r = length (csm_conns s);
                u = \<lparr>uc_ID = id', uc_D = new_defragger, uc_ReceiveCh = [], uc_Closed = False\<rparr>
            in (s\<lparr>csm_nextID := csm_nextID s + 1, csm_conns := csm_conns s @ [u],
                  csm_m := AList.update id' r (csm_m s)\<rparr>, Some r)))"

definition csm_close :: "nat \<Rightarrow> clientSM \<Rightarrow> clientSM" where
  "csm_close r s =
     (let u = csm_conns s ! r
      in if uc_Closed u then s
         else (csm_put s r (u\<lparr>uc_Closed := True\<rparr>))\<lparr>csm_m := AList.delete (uc_ID u) (csm_m s)\<rparr>)"

definition csm_closeCleanup :: "clientSM \<Rightarrow> clientSM" where
  "csm_closeCleanup s = (fold csm_close (map snd (csm_m s)) s)\<lparr>csm_closed := True\<rparr>"

definition csm_Count :: "clientSM \<Rightarrow> nat" where
  "csm_Count s = length (csm_m s)"

section \<open>Runs\<close>

text \<open>What can happen, in any order: the receive loop feeds a message, or ends with the connection's
  error; a user opens a session, closes one, or goes through one iteration of \<open>Receive\<close>.\<close>

datatype cu_event = CuFeed udp_message | CuNew | CuClose nat | CuReceive nat | CuStop
datatype cu_out = CuDone | CuOpened "nat option" | CuGot nat received

definition cu_step :: "clientSM \<Rightarrow> cu_event \<Rightarrow> (clientSM \<times> cu_out) option" where
  "cu_step s ev =
     (case ev of
        CuFeed m \<Rightarrow> map_option (\<lambda>s. (s, CuDone)) (csm_feed s m)
      | CuNew \<Rightarrow> (let (s, r) = csm_NewUDP s in Some (s, CuOpened r))
      | CuClose r \<Rightarrow> Some (if r < length (csm_conns s) then csm_close r s else s, CuDone)
      | CuReceive r \<Rightarrow>
          if r < length (csm_conns s)
          then map_option (\<lambda>(u, x). (csm_put s r u, CuGot r x)) (Receive_step (csm_conns s ! r))
          else Some (s, CuDone)
      | CuStop \<Rightarrow> Some (csm_closeCleanup s, CuDone))"

fun cu_run :: "clientSM \<Rightarrow> cu_event list \<Rightarrow> (clientSM \<times> cu_out list) option" where
  "cu_run s [] = Some (s, [])"
| "cu_run s (ev # evs) =
     (case cu_step s ev of
        None \<Rightarrow> None
      | Some (s, x) \<Rightarrow> map_option (\<lambda>(s, xs). (s, x # xs)) (cu_run s evs))"

section \<open>The table\<close>

text \<open>Every entry of the table is an open session under its id.\<close>

definition csm_inv :: "clientSM \<Rightarrow> bool" where
  "csm_inv s \<longleftrightarrow> distinct (map fst (csm_m s)) \<and>
     (\<forall>i r. map_of (csm_m s) i = Some r \<longrightarrow>
        r < length (csm_conns s) \<and> uc_ID (csm_conns s ! r) = i \<and> \<not> uc_Closed (csm_conns s ! r)) \<and>
     (\<forall>u \<in> set (csm_conns s). defrag_inv (uc_D u)) \<and> (csm_closed s \<longrightarrow> csm_m s = [])"

text \<open>Ids are handed out in order; as long as they have not wrapped, every open session is in the
  table.\<close>

definition csm_ids :: "clientSM \<Rightarrow> bool" where
  "csm_ids s \<longleftrightarrow> csm_nextID s = 1 + word_of_nat (length (csm_conns s)) \<and>
     (\<forall>r < length (csm_conns s). uc_ID (csm_conns s ! r) = 1 + word_of_nat r)"

definition csm_all_listed :: "clientSM \<Rightarrow> bool" where
  "csm_all_listed s \<longleftrightarrow> (\<forall>r < length (csm_conns s).
     uc_Closed (csm_conns s ! r) \<or> map_of (csm_m s) (uc_ID (csm_conns s ! r)) = Some r)"

definition csm_opened :: "clientSM \<Rightarrow> nat" where "csm_opened s = length (csm_conns s)"

lemma csm_put_simps [simp]:
  "csm_m (csm_put s r u) = csm_m s" "csm_nextID (csm_put s r u) = csm_nextID s"
  "csm_closed (csm_put s r u) = csm_closed s" "csm_conns (csm_put s r u) = (csm_conns s)[r := u]"
  by (simp_all add: csm_put_def)

lemma csm_invD:
  assumes "csm_inv s"
  shows "distinct (map fst (csm_m s))"
    "map_of (csm_m s) i = Some r \<Longrightarrow> r < length (csm_conns s) \<and> uc_ID (csm_conns s ! r) = i \<and> \<not> uc_Closed (csm_conns s ! r)"
    "r < length (csm_conns s) \<Longrightarrow> defrag_inv (uc_D (csm_conns s ! r))"
    "csm_closed s \<Longrightarrow> csm_m s = []"
  using assms by (auto simp: csm_inv_def simp del: map_of_eq_Some_iff)

text \<open>What an update of one session that keeps its id and its being open or closed keeps.\<close>

lemma csm_put_ok:
  assumes "r < length (csm_conns s)" "uc_ID u = uc_ID (csm_conns s ! r)" "uc_Closed u = uc_Closed (csm_conns s ! r)"
    and "defrag_inv (uc_D u)"
  shows "csm_inv s \<Longrightarrow> csm_inv (csm_put s r u)" "csm_ids s \<Longrightarrow> csm_ids (csm_put s r u)"
    "csm_all_listed s \<Longrightarrow> csm_all_listed (csm_put s r u)"
  using assms
  by (auto simp: csm_inv_def csm_ids_def csm_all_listed_def nth_list_update split: prod.splits
      dest!: subsetD [OF set_update_subset_insert])

lemma csm_feed_ok:
  assumes "csm_inv s"
  obtains s' where "csm_feed s m = Some s'" "csm_inv s'" "csm_ids s \<Longrightarrow> csm_ids s'"
    "csm_all_listed s \<Longrightarrow> csm_all_listed s'" "csm_opened s' = csm_opened s"
proof (cases "map_of (csm_m s) (SessionID m)")
  case None
  then show ?thesis using assms that by (simp add: csm_feed_def)
next
  case (Some r)
  note r = csm_invD(2) [OF assms Some]
  have d: "defrag_inv (uc_D (csm_conns s ! r))" using csm_invD(3) [OF assms] r by simp
  let ?u = "csm_conns s ! r"
  let ?s = "csm_put s r (?u\<lparr>uc_ReceiveCh := uc_ReceiveCh ?u @ [m]\<rparr>)"
  show ?thesis
  proof (cases "length (uc_ReceiveCh ?u) < udpMessageChanSize")
    case True
    then have "csm_feed s m = Some ?s" using Some r by (simp add: csm_feed_def Let_def)
    then show ?thesis using csm_put_ok [of r s "?u\<lparr>uc_ReceiveCh := uc_ReceiveCh ?u @ [m]\<rparr>"] r d assms that
      by (simp add: csm_opened_def)
  next
    case False
    then have "csm_feed s m = Some s" using Some r by (simp add: csm_feed_def Let_def)
    then show ?thesis using assms that by simp
  qed
qed

lemma csm_NewUDP_ok:
  assumes "csm_inv s" "csm_NewUDP s = (s', r)"
  shows "csm_inv s'" "csm_ids s \<Longrightarrow> csm_ids s'"
    "csm_ids s \<Longrightarrow> csm_all_listed s \<Longrightarrow> csm_opened s' \<le> 2 ^ 32 \<Longrightarrow> csm_all_listed s'"
    "csm_opened s \<le> csm_opened s'"
proof -
  let ?u = "\<lparr>uc_ID = csm_nextID s, uc_D = new_defragger, uc_ReceiveCh = [], uc_Closed = False\<rparr>"
  have s': "s' = (if csm_closed s then s else s\<lparr>csm_nextID := csm_nextID s + 1, csm_conns := csm_conns s @ [?u],
      csm_m := AList.update (csm_nextID s) (length (csm_conns s)) (csm_m s)\<rparr>)"
    using assms(2) by (auto simp: csm_NewUDP_def Let_def split: if_splits)
  show "csm_inv s'"
    using assms(1) distinct_update [of "csm_m s" "csm_nextID s" "length (csm_conns s)"] defrag_inv_new
    by (auto simp: s' csm_inv_def nth_append update_conv' less_Suc_eq simp del: map_of_eq_Some_iff split: if_splits)
  show "csm_ids s'" if "csm_ids s" using that by (auto simp: s' csm_ids_def nth_append less_Suc_eq algebra_simps)
  show "csm_opened s \<le> csm_opened s'" by (simp add: s' csm_opened_def)
  show "csm_all_listed s'" if ids: "csm_ids s" and l: "csm_all_listed s" and n: "csm_opened s' \<le> 2 ^ 32"
  proof -
    have new: "uc_ID (csm_conns s ! r) \<noteq> csm_nextID s" if r: "r < length (csm_conns s)" "\<not> csm_closed s" for r
    proof
      assume "uc_ID (csm_conns s ! r) = csm_nextID s"
      then have "(word_of_nat r :: u32) = word_of_nat (length (csm_conns s))" using ids r by (simp add: csm_ids_def)
      moreover have "length (csm_conns s) < 2 ^ 32" using n r(2) by (simp add: s' csm_opened_def)
      ultimately have "r = length (csm_conns s)"
        using r(1) by (simp add: word_of_nat_eq_iff take_bit_nat_eq_self)
      then show False using r by simp
    qed
    show ?thesis using l new by (auto simp: s' csm_all_listed_def nth_append update_conv' less_Suc_eq)
  qed
qed


lemma csm_close_ok:
  assumes "csm_inv s" "r < length (csm_conns s)"
  shows "csm_inv (csm_close r s)" "csm_ids s \<Longrightarrow> csm_ids (csm_close r s)"
    "csm_ids s \<Longrightarrow> csm_all_listed s \<Longrightarrow> csm_opened s \<le> 2 ^ 32 \<Longrightarrow> csm_all_listed (csm_close r s)"
    "csm_opened (csm_close r s) = csm_opened s" "uc_Closed (csm_conns (csm_close r s) ! r)"
    "r' < length (csm_conns s) \<Longrightarrow> uc_Closed (csm_conns s ! r') \<Longrightarrow> uc_Closed (csm_conns (csm_close r s) ! r')"
proof -
  let ?u = "csm_conns s ! r"
  have s': "csm_close r s = (if uc_Closed ?u then s else
      s\<lparr>csm_conns := (csm_conns s)[r := ?u\<lparr>uc_Closed := True\<rparr>], csm_m := AList.delete (uc_ID ?u) (csm_m s)\<rparr>)"
    by (simp add: csm_close_def Let_def csm_put_def)
  have id: "r' = r''" if "map_of (csm_m s) i = Some r'" "map_of (csm_m s) i' = Some r''" "i = i'" for r' r'' i i'
    using that by simp
  show "csm_inv (csm_close r s)"
    using assms distinct_delete [of "csm_m s" "uc_ID ?u"]
    by (auto simp: s' csm_inv_def nth_list_update delete_conv' simp del: map_of_eq_Some_iff split: if_splits
        dest!: subsetD [OF set_update_subset_insert])
  show "csm_ids (csm_close r s)" if "csm_ids s" using that assms(2) by (auto simp: s' csm_ids_def nth_list_update)
  show "csm_opened (csm_close r s) = csm_opened s" by (simp add: s' csm_opened_def)
  show "uc_Closed (csm_conns (csm_close r s) ! r)" using assms(2) by (simp add: s')
  show "uc_Closed (csm_conns (csm_close r s) ! r')" if "r' < length (csm_conns s)" "uc_Closed (csm_conns s ! r')"
    using that by (cases "r' = r") (simp_all add: s')
  show "csm_all_listed (csm_close r s)" if ids: "csm_ids s" and l: "csm_all_listed s" and n: "csm_opened s \<le> 2 ^ 32"
  proof -
    have "uc_ID (csm_conns s ! r') \<noteq> uc_ID ?u" if "r' < length (csm_conns s)" "r' \<noteq> r" for r'
    proof
      assume "uc_ID (csm_conns s ! r') = uc_ID ?u"
      then have "(word_of_nat r' :: u32) = word_of_nat r" using ids that assms(2) by (simp add: csm_ids_def)
      moreover have "r' < 2 ^ 32" "r < 2 ^ 32" using that assms(2) n by (simp_all add: csm_opened_def)
      ultimately show False using that(2) by (simp add: word_of_nat_eq_iff take_bit_nat_eq_self)
    qed
    then show ?thesis using l assms(2) by (auto simp: s' csm_all_listed_def nth_list_update delete_conv' simp del: map_of_eq_Some_iff)
  qed
qed

text \<open>Closing a list of sessions closes exactly these and takes their ids off the table.\<close>

lemma fold_close_ok:
  assumes "csm_inv s" "set rs \<subseteq> {..<length (csm_conns s)}"
  shows "csm_inv (fold csm_close rs s)" "csm_ids s \<Longrightarrow> csm_ids (fold csm_close rs s)"
    "csm_ids s \<Longrightarrow> csm_all_listed s \<Longrightarrow> csm_opened s \<le> 2 ^ 32 \<Longrightarrow> csm_all_listed (fold csm_close rs s)"
    "csm_opened (fold csm_close rs s) = csm_opened s"
    "r \<in> set rs \<or> r < length (csm_conns s) \<and> uc_Closed (csm_conns s ! r) \<Longrightarrow>
       uc_Closed (csm_conns (fold csm_close rs s) ! r)"
proof -
  have "csm_inv (fold csm_close rs s) \<and> (csm_ids s \<longrightarrow> csm_ids (fold csm_close rs s)) \<and>
      (csm_ids s \<longrightarrow> csm_all_listed s \<longrightarrow> csm_opened s \<le> 2 ^ 32 \<longrightarrow> csm_all_listed (fold csm_close rs s)) \<and>
      csm_opened (fold csm_close rs s) = csm_opened s \<and>
      (\<forall>r. r \<in> set rs \<or> r < length (csm_conns s) \<and> uc_Closed (csm_conns s ! r) \<longrightarrow>
         uc_Closed (csm_conns (fold csm_close rs s) ! r))"
    using assms
  proof (induction rs arbitrary: s)
    case (Cons r0 rs)
    then have r0: "r0 < length (csm_conns s)" by simp
    note c = csm_close_ok [OF Cons.prems(1) r0]
    have len: "length (csm_conns (csm_close r0 s)) = length (csm_conns s)"
      using c(4) by (simp add: csm_opened_def)
    have rs: "set rs \<subseteq> {..<length (csm_conns (csm_close r0 s))}" using Cons.prems(2) len by simp
    have "r \<in> set rs \<or> r < length (csm_conns (csm_close r0 s)) \<and> uc_Closed (csm_conns (csm_close r0 s) ! r)"
      if "r \<in> set (r0 # rs) \<or> r < length (csm_conns s) \<and> uc_Closed (csm_conns s ! r)" for r
      using that c(5,6) r0 len by (auto simp: len)
    then have "uc_Closed (csm_conns (fold csm_close rs (csm_close r0 s)) ! r)"
      if "r \<in> set (r0 # rs) \<or> r < length (csm_conns s) \<and> uc_Closed (csm_conns s ! r)" for r
      using that Cons.IH [OF c(1) rs] by blast
    then show ?case using c(2-4) Cons.IH [OF c(1) rs] by auto
  qed auto
  then show "csm_inv (fold csm_close rs s)" "csm_ids s \<Longrightarrow> csm_ids (fold csm_close rs s)"
    "csm_ids s \<Longrightarrow> csm_all_listed s \<Longrightarrow> csm_opened s \<le> 2 ^ 32 \<Longrightarrow> csm_all_listed (fold csm_close rs s)"
    "csm_opened (fold csm_close rs s) = csm_opened s"
    "r \<in> set rs \<or> r < length (csm_conns s) \<and> uc_Closed (csm_conns s ! r) \<Longrightarrow>
       uc_Closed (csm_conns (fold csm_close rs s) ! r)" by blast+
qed

lemma csm_closeCleanup_ok:
  assumes "csm_inv s"
  shows "csm_inv (csm_closeCleanup s)" "csm_ids s \<Longrightarrow> csm_ids (csm_closeCleanup s)"
    "csm_ids s \<Longrightarrow> csm_all_listed s \<Longrightarrow> csm_opened s \<le> 2 ^ 32 \<Longrightarrow> csm_all_listed (csm_closeCleanup s)"
    "csm_opened (csm_closeCleanup s) = csm_opened s" "csm_m (csm_closeCleanup s) = []"
proof -
  let ?rs = "map snd (csm_m s)" let ?f = "fold csm_close ?rs s"
  have rs: "set ?rs \<subseteq> {..<length (csm_conns s)}"
    using csm_invD(1,2) [OF assms] by (auto simp: map_of_eq_Some_iff)
  note F = fold_close_ok [OF assms rs]
  have sub: "map_of (csm_m ?f) i = Some r \<Longrightarrow> map_of (csm_m s) i = Some r" for i r
  proof -
    have "map_of (csm_m (fold csm_close rs s)) i = Some r \<Longrightarrow> map_of (csm_m s) i = Some r" for rs
      by (induction rs arbitrary: s)
        (fastforce simp: csm_close_def Let_def delete_conv' simp del: map_of_eq_Some_iff split: if_splits)+
    then show "map_of (csm_m ?f) i = Some r \<Longrightarrow> map_of (csm_m s) i = Some r" .
  qed
  have "map_of (csm_m ?f) i = None" for i
  proof (rule ccontr)
    assume "map_of (csm_m ?f) i \<noteq> None"
    then obtain r where r: "map_of (csm_m ?f) i = Some r" by blast
    then have "r \<in> set ?rs" using sub [OF r] by (force dest: map_of_SomeD)
    then have "uc_Closed (csm_conns ?f ! r)" using F(5) by simp
    then show False using csm_invD(2) [OF F(1) r] by simp
  qed
  then show m: "csm_m (csm_closeCleanup s) = []"
    by (simp add: csm_closeCleanup_def) (metis map_of_eq_None_iff image_is_empty list.set(1) set_empty ex_in_conv image_eqI)
  show "csm_inv (csm_closeCleanup s)" using F(1) m by (simp add: csm_closeCleanup_def csm_inv_def)
  show "csm_ids s \<Longrightarrow> csm_ids (csm_closeCleanup s)" using F(2) by (simp add: csm_closeCleanup_def csm_ids_def)
  show "csm_opened (csm_closeCleanup s) = csm_opened s" using F(4) by (simp add: csm_closeCleanup_def csm_opened_def)
  show "csm_ids s \<Longrightarrow> csm_all_listed s \<Longrightarrow> csm_opened s \<le> 2 ^ 32 \<Longrightarrow> csm_all_listed (csm_closeCleanup s)"
    using F(3) by (simp add: csm_closeCleanup_def csm_all_listed_def)
qed

section \<open>Runs keep the table\<close>

definition present :: "udp_message option \<Rightarrow> received" where
  "present x = (case x of None \<Rightarrow> Incomplete | Some m \<Rightarrow> Received (Data m) (Addr m))"

lemma Receive_step_ok:
  assumes "defrag_inv (uc_D u)"
  obtains u' x where "Receive_step u = Some (u', x)" "uc_ID u' = uc_ID u" "uc_Closed u' = uc_Closed u"
    "defrag_inv (uc_D u')"
    "(x = Blocked \<or> x = EndOfStream) \<and> u' = u \<and> uc_ReceiveCh u = [] \<and> (x = EndOfStream \<longleftrightarrow> uc_Closed u) \<or>
     (\<exists>m dfMsg. uc_ReceiveCh u = m # uc_ReceiveCh u' \<and> Feed (uc_D u) m = Some (uc_D u', dfMsg) \<and>
        x = present dfMsg)"
proof (cases "uc_ReceiveCh u")
  case Nil
  then show ?thesis using assms by (intro that [of u "if uc_Closed u then EndOfStream else Blocked"]) (simp_all add: Receive_step_def)
next
  case (Cons m ch)
  obtain d r where "Feed (uc_D u) m = Some (d, r)" "defrag_inv d" using Feed_inv [OF assms, of m] by auto
  then show ?thesis using Cons
    by (intro that [of "u\<lparr>uc_D := d, uc_ReceiveCh := ch\<rparr>"]) (simp_all add: Receive_step_def present_def)
qed

lemma cu_step_ok:
  assumes "csm_inv s"
  obtains s' x where "cu_step s ev = Some (s', x)" "csm_inv s'" "csm_ids s \<Longrightarrow> csm_ids s'"
    "csm_ids s \<Longrightarrow> csm_all_listed s \<Longrightarrow> csm_opened s' \<le> 2 ^ 32 \<Longrightarrow> csm_all_listed s'"
    "csm_opened s \<le> csm_opened s'"
proof (cases ev)
  case (CuFeed m)
  then show ?thesis using csm_feed_ok [OF assms, of m] that by (fastforce simp: cu_step_def)
next
  case CuNew
  obtain s' r where n: "csm_NewUDP s = (s', r)" by fastforce
  show ?thesis using csm_NewUDP_ok [OF assms n] n CuNew by (intro that [of s' "CuOpened r"]) (simp_all add: cu_step_def)
next
  case (CuClose r)
  show ?thesis
  proof (cases "r < length (csm_conns s)")
    case True
    then show ?thesis using csm_close_ok(1-4) [OF assms True] CuClose
      by (intro that [of "csm_close r s" CuDone]) (simp_all add: cu_step_def)
  qed (use CuClose assms in \<open>intro that [of s CuDone], simp_all add: cu_step_def\<close>)
next
  case (CuReceive r)
  show ?thesis
  proof (cases "r < length (csm_conns s)")
    case True
    note d = csm_invD(3) [OF assms True]
    obtain u' x where u: "Receive_step (csm_conns s ! r) = Some (u', x)" "uc_ID u' = uc_ID (csm_conns s ! r)"
      "uc_Closed u' = uc_Closed (csm_conns s ! r)" "defrag_inv (uc_D u')"
      using Receive_step_ok [OF d] by metis
    show ?thesis using csm_put_ok [OF True u(2-4)] assms u(1) True CuReceive
      by (intro that [of "csm_put s r u'" "CuGot r x"]) (simp_all add: cu_step_def csm_opened_def)
  qed (use CuReceive assms in \<open>intro that [of s CuDone], simp_all add: cu_step_def\<close>)
next
  case CuStop
  then show ?thesis using csm_closeCleanup_ok [OF assms]
    by (intro that [of "csm_closeCleanup s" CuDone]) (simp_all add: cu_step_def)
qed

lemma cu_start_ok: "csm_inv newClientSM" "csm_ids newClientSM" "csm_all_listed newClientSM"
  by (simp_all add: newClientSM_def csm_inv_def csm_ids_def csm_all_listed_def)

lemma cu_run_ok:
  assumes "csm_inv s"
  obtains s' xs where "cu_run s evs = Some (s', xs)" "csm_inv s'" "csm_ids s \<Longrightarrow> csm_ids s'"
    "csm_ids s \<Longrightarrow> csm_all_listed s \<Longrightarrow> csm_opened s' \<le> 2 ^ 32 \<Longrightarrow> csm_all_listed s'"
    "csm_opened s \<le> csm_opened s'" "csm_closed s \<or> CuStop \<in> set evs \<longrightarrow> csm_closed s'"
proof -
  have "\<exists>s' xs. cu_run s evs = Some (s', xs) \<and> csm_inv s' \<and> (csm_ids s \<longrightarrow> csm_ids s') \<and>
    (csm_ids s \<longrightarrow> csm_all_listed s \<longrightarrow> csm_opened s' \<le> 2 ^ 32 \<longrightarrow> csm_all_listed s') \<and>
    csm_opened s \<le> csm_opened s' \<and> (csm_closed s \<or> CuStop \<in> set evs \<longrightarrow> csm_closed s')"
    using assms
  proof (induction evs arbitrary: s)
    case (Cons ev evs)
    obtain s1 x where 1: "cu_step s ev = Some (s1, x)" "csm_inv s1" "csm_ids s \<Longrightarrow> csm_ids s1"
      "csm_ids s \<Longrightarrow> csm_all_listed s \<Longrightarrow> csm_opened s1 \<le> 2 ^ 32 \<Longrightarrow> csm_all_listed s1"
      "csm_opened s \<le> csm_opened s1" using cu_step_ok [OF Cons.prems, of ev] by metis
    obtain s' xs where 2: "cu_run s1 evs = Some (s', xs)" "csm_inv s'" "csm_ids s1 \<longrightarrow> csm_ids s'"
      "csm_ids s1 \<longrightarrow> csm_all_listed s1 \<longrightarrow> csm_opened s' \<le> 2 ^ 32 \<longrightarrow> csm_all_listed s'"
      "csm_opened s1 \<le> csm_opened s'" "csm_closed s1 \<or> CuStop \<in> set evs \<longrightarrow> csm_closed s'"
      using Cons.IH [OF 1(2)] by blast
    have "csm_closed s \<or> ev = CuStop \<longrightarrow> csm_closed s1"
    proof
      have f: "csm_closed (fold csm_close rs s) = csm_closed s" for rs s
        by (induction rs arbitrary: s) (simp_all add: csm_close_def Let_def)
      assume "csm_closed s \<or> ev = CuStop"
      then show "csm_closed s1" using 1(1)
        by (cases ev) (auto simp: cu_step_def csm_feed_def csm_NewUDP_def csm_close_def csm_closeCleanup_def
            Let_def csm_put_def f split: if_splits option.splits prod.splits)
    qed
    then show ?case using 1 2 by auto
  qed auto
  then show ?thesis using that by blast
qed

text \<open>
  C18: The client's UDP sessions, whatever is received, opened, closed and read in whatever order:
  nothing ever panics (no message is sent on a closed channel); while fewer than \<open>2^32\<close> sessions
  have been opened, a message reaches exactly the open session of its id, and is dropped only when
  1024 wait there; and once the connection is lost every session is closed, so no reader waits
  forever and none is opened any more.
\<close>

theorem client_sessions_reachable:
  assumes "csm_opened (fst (the (cu_run newClientSM evs))) \<le> 2 ^ 32"
  shows "\<exists>s outs. cu_run newClientSM evs = Some (s, outs) \<and>
    (\<forall>r < csm_opened s. let u = csm_conns s ! r in
       if uc_Closed u then True
       else csm_feed s (m\<lparr>SessionID := uc_ID u\<rparr>) =
         Some (if length (uc_ReceiveCh u) < udpMessageChanSize
               then csm_put s r (u\<lparr>uc_ReceiveCh := uc_ReceiveCh u @ [m\<lparr>SessionID := uc_ID u\<rparr>]\<rparr>) else s)) \<and>
    (CuStop \<in> set evs \<longrightarrow> (\<forall>u \<in> set (csm_conns s). uc_Closed u) \<and> csm_NewUDP s = (s, None))"
proof -
  obtain s outs where r: "cu_run newClientSM evs = Some (s, outs)" "csm_inv s"
    "csm_opened s \<le> 2 ^ 32 \<Longrightarrow> csm_all_listed s" "CuStop \<in> set evs \<longrightarrow> csm_closed s"
    using cu_run_ok [OF cu_start_ok(1), of evs] cu_start_ok by metis
  have l: "csm_all_listed s" using r(1,3) assms by simp
  have "\<forall>r < csm_opened s. let u = csm_conns s ! r in
       if uc_Closed u then True
       else csm_feed s (m\<lparr>SessionID := uc_ID u\<rparr>) =
         Some (if length (uc_ReceiveCh u) < udpMessageChanSize
               then csm_put s r (u\<lparr>uc_ReceiveCh := uc_ReceiveCh u @ [m\<lparr>SessionID := uc_ID u\<rparr>]\<rparr>) else s)"
    using l by (auto simp: csm_all_listed_def csm_opened_def Let_def csm_feed_def)
  moreover have "(\<forall>u \<in> set (csm_conns s). uc_Closed u) \<and> csm_NewUDP s = (s, None)" if "CuStop \<in> set evs"
    using that r(4) csm_invD(4) [OF r(2)] l by (auto simp: csm_all_listed_def in_set_conv_nth csm_NewUDP_def)
  ultimately show ?thesis using r(1) by blast
qed


lemma client_sessions_reachable_witness:
  "\<exists>s outs. cu_run newClientSM [CuNew, CuStop, CuReceive 0, CuNew] = Some (s, outs) \<and>
     outs = [CuOpened (Some 0), CuDone, CuGot 0 EndOfStream, CuOpened None] \<and> (\<forall>u \<in> set (csm_conns s). uc_Closed u)"
proof -
  let ?evs = "[CuNew, CuStop, CuReceive 0, CuNew]"
  have e: "map_option snd (cu_run newClientSM ?evs) =
      Some [CuOpened (Some 0), CuDone, CuGot 0 EndOfStream, CuOpened None] \<and>
    csm_opened (fst (the (cu_run newClientSM ?evs))) = 1"
    by code_simp
  then have "csm_opened (fst (the (cu_run newClientSM ?evs))) \<le> 2 ^ 32" by simp
  from client_sessions_reachable [OF this]
  obtain s outs where "cu_run newClientSM ?evs = Some (s, outs)"
    "CuStop \<in> set ?evs \<longrightarrow> (\<forall>u \<in> set (csm_conns s). uc_Closed u) \<and> csm_NewUDP s = (s, None)" by blast
  then show ?thesis using e by auto
qed

section \<open>What a session receives\<close>

definition fed_to :: "u32 \<Rightarrow> cu_event list \<Rightarrow> udp_message list" where
  "fed_to i evs = concat (map (\<lambda>ev. case ev of CuFeed m \<Rightarrow> if SessionID m = i then [m] else [] | _ \<Rightarrow> []) evs)"

definition got :: "nat \<Rightarrow> cu_out list \<Rightarrow> received list" where
  "got r xs = concat (map (\<lambda>x. case x of
     CuGot r' y \<Rightarrow> if r' = r \<and> y \<noteq> Blocked \<and> y \<noteq> EndOfStream then [y] else [] | _ \<Rightarrow> []) xs)"

text \<open>\<open>took u ms rs d q\<close>: a session that was \<open>d\<close>, \<open>q\<close> has taken \<open>ms\<close> off its channel.\<close>

definition took :: "udp_message list \<Rightarrow> received list \<Rightarrow> defragger \<Rightarrow> defragger \<Rightarrow> bool" where
  "took ms rs d d' \<longleftrightarrow> (\<exists>os. feed_all d ms = Some (d', os) \<and> rs = map present os)"

lemma took_Nil [simp]: "took [] [] d d' \<longleftrightarrow> d' = d" by (auto simp: took_def)

lemma took_Cons: "Feed d m = Some (d1, x) \<Longrightarrow> took ms rs d1 d2 \<Longrightarrow> took (m # ms) (present x # rs) d d2"
  by (auto simp: took_def)

lemma csm_close_conns:
  "csm_conns (csm_close a s) = (csm_conns s)[a := (csm_conns s ! a)\<lparr>uc_Closed := True\<rparr>]"
proof (cases "uc_Closed (csm_conns s ! a)")
  case True
  then have "(csm_conns s ! a)\<lparr>uc_Closed := True\<rparr> = csm_conns s ! a" by (cases "csm_conns s ! a") simp
  then have "(csm_conns s)[a := (csm_conns s ! a)\<lparr>uc_Closed := True\<rparr>] = csm_conns s" by (metis list_update_id)
  moreover have "csm_close a s = s" using True by (simp add: csm_close_def Let_def)
  ultimately show ?thesis by metis
qed (simp add: csm_close_def Let_def)

lemma fold_close_view:
  "length (csm_conns (fold csm_close rs s)) = length (csm_conns s) \<and>
   (r < length (csm_conns s) \<longrightarrow>
      (let u = csm_conns s ! r; u' = csm_conns (fold csm_close rs s) ! r
       in uc_ID u' = uc_ID u \<and> uc_D u' = uc_D u \<and> uc_ReceiveCh u' = uc_ReceiveCh u))"
proof (induction rs arbitrary: s)
  case (Cons a rs)
  have "csm_conns (csm_close a s) ! r = (if a = r then (csm_conns s ! r)\<lparr>uc_Closed := True\<rparr> else csm_conns s ! r)"
    if "r < length (csm_conns s)" using that by (simp add: csm_close_conns nth_list_update)
  moreover have "length (csm_conns (csm_close a s)) = length (csm_conns s)" by (simp add: csm_close_conns)
  ultimately show ?case using Cons [of "csm_close a s"] by (simp add: Let_def split: if_splits)
qed simp

text \<open>One step as the session \<open>r\<close> sees it.\<close>

lemma cu_step_view:
  assumes "csm_inv s" "cu_step s ev = Some (s', x)" "r < length (csm_conns s)"
  defines "u \<equiv> csm_conns s ! r" and "u' \<equiv> csm_conns s' ! r"
  shows "r < length (csm_conns s') \<and> uc_ID u' = uc_ID u \<and>
    (\<exists>ms. took ms (got r [x]) (uc_D u) (uc_D u') \<and>
       subseq (ms @ uc_ReceiveCh u') (uc_ReceiveCh u @ fed_to (uc_ID u) [ev]))"
proof (cases ev)
  case (CuFeed m)
  then obtain f: "csm_feed s m = Some s'" and x: "x = CuDone" using assms(2) by (auto simp: cu_step_def)
  show ?thesis
  proof (cases "s' = s")
    case True
    then show ?thesis using assms(3) x CuFeed by (auto simp: u_def u'_def got_def intro!: exI [of _ "[]"])
  next
    case False
    obtain r0 where r0: "map_of (csm_m s) (SessionID m) = Some r0"
      "s' = csm_put s r0 ((csm_conns s ! r0)\<lparr>uc_ReceiveCh := uc_ReceiveCh (csm_conns s ! r0) @ [m]\<rparr>)"
      using f False by (auto simp: csm_feed_def Let_def simp del: map_of_eq_Some_iff split: option.splits if_splits)
    note i = csm_invD(2) [OF assms(1) r0(1)]
    show ?thesis using assms(3) i x CuFeed
      by (cases "r0 = r") (auto simp: u_def u'_def r0(2) got_def fed_to_def intro!: exI [of _ "[]"])
  qed
next
  case CuNew
  then show ?thesis using assms(2,3)
    by (auto simp: cu_step_def csm_NewUDP_def Let_def u_def u'_def nth_append got_def fed_to_def
        split: if_splits intro!: exI [of _ "[]"])
next
  case (CuReceive r0)
  show ?thesis
  proof (cases "r0 < length (csm_conns s)")
    case False
    then show ?thesis using assms(2,3) CuReceive
      by (auto simp: cu_step_def u_def u'_def got_def fed_to_def intro!: exI [of _ "[]"])
  next
    case True
    obtain v y where v: "Receive_step (csm_conns s ! r0) = Some (v, y)" "uc_ID v = uc_ID (csm_conns s ! r0)" and
      y: "(y = Blocked \<or> y = EndOfStream) \<and> v = csm_conns s ! r0 \<or>
       (\<exists>m dfMsg. uc_ReceiveCh (csm_conns s ! r0) = m # uc_ReceiveCh v \<and>
          Feed (uc_D (csm_conns s ! r0)) m = Some (uc_D v, dfMsg) \<and> y = present dfMsg)"
      by (rule Receive_step_ok [OF csm_invD(3) [OF assms(1) True]]) blast
    have s': "s' = csm_put s r0 v" "x = CuGot r0 y" using assms(2) CuReceive True v(1) by (auto simp: cu_step_def)
    show ?thesis
    proof (cases "r0 = r")
      case False
      then show ?thesis using assms(3) CuReceive
        by (auto simp: s' u_def u'_def got_def fed_to_def intro!: exI [of _ "[]"])
    next
      case r: True
      have np: "present z \<noteq> Blocked" "present z \<noteq> EndOfStream" for z by (simp_all add: present_def split: option.split)
      from y show ?thesis
      proof
        assume "(y = Blocked \<or> y = EndOfStream) \<and> v = csm_conns s ! r0"
        then show ?thesis using assms(3) r CuReceive
          by (auto simp: s' u_def u'_def got_def fed_to_def intro!: exI [of _ "[]"])
      next
        assume "\<exists>m dfMsg. uc_ReceiveCh (csm_conns s ! r0) = m # uc_ReceiveCh v \<and>
          Feed (uc_D (csm_conns s ! r0)) m = Some (uc_D v, dfMsg) \<and> y = present dfMsg"
        then obtain m z where m: "uc_ReceiveCh u = m # uc_ReceiveCh v" "Feed (uc_D u) m = Some (uc_D v, z)" "y = present z"
          by (auto simp: u_def r)
        have "got r [x] = [present z]" by (simp add: got_def s' r m(3) np)
        moreover have "took [m] [present z] (uc_D u) (uc_D v)" using took_Cons [OF m(2), of "[]" "[]"] by simp
        moreover have "fed_to (uc_ID u) [ev] = []" by (simp add: CuReceive fed_to_def)
        ultimately show ?thesis using assms(3) r v(2) m(1) by (auto simp: s' u_def u'_def intro!: exI [of _ "[m]"])
      qed
    qed
  qed
next
  case (CuClose r0)
  then show ?thesis using assms(2,3)
    by (auto simp: cu_step_def csm_close_def Let_def u_def u'_def got_def fed_to_def nth_list_update
        split: if_splits intro!: exI [of _ "[]"])
next
  case CuStop
  show ?thesis using fold_close_view [of "map snd (csm_m s)" s r] assms(2,3) CuStop
    by (auto simp: Let_def cu_step_def csm_closeCleanup_def u_def u'_def got_def fed_to_def intro!: exI [of _ "[]"])
qed


lemma fed_got_Cons:
  "fed_to i (ev # evs) = fed_to i [ev] @ fed_to i evs" "got r (x # xs) = got r [x] @ got r xs"
  by (simp_all add: fed_to_def got_def)

lemma took_append: "took ms rs d d1 \<Longrightarrow> took ms' rs' d1 d2 \<Longrightarrow> took (ms @ ms') (rs @ rs') d d2"
proof (induction ms arbitrary: rs d)
  case Nil
  then show ?case by (auto simp: took_def)
next
  case (Cons m ms)
  then obtain os where o: "feed_all d (m # ms) = Some (d1, os)" "rs = map present os" by (auto simp: took_def)
  then obtain d0 x os' where f: "Feed d m = Some (d0, x)" "feed_all d0 ms = Some (d1, os')" "os = x # os'"
    by (auto split: option.splits)
  have "took ms (map present os') d0 d1" using f(2) by (auto simp: took_def)
  then have "took (ms @ ms') (map present os' @ rs') d0 d2" using Cons by blast
  then show ?case using took_Cons [OF f(1)] by (simp add: o(2) f(3))
qed

lemma cu_run_view:
  assumes "csm_inv s" "cu_run s evs = Some (s', xs)" "r < length (csm_conns s)"
  shows "r < length (csm_conns s') \<and> uc_ID (csm_conns s' ! r) = uc_ID (csm_conns s ! r) \<and>
    (\<exists>ms. took ms (got r xs) (uc_D (csm_conns s ! r)) (uc_D (csm_conns s' ! r)) \<and>
       subseq (ms @ uc_ReceiveCh (csm_conns s' ! r)) (uc_ReceiveCh (csm_conns s ! r) @ fed_to (uc_ID (csm_conns s ! r)) evs))"
  using assms
proof (induction evs arbitrary: s xs)
  case Nil
  then show ?case by (auto simp: got_def fed_to_def intro!: exI [of _ "[]"])
next
  case (Cons ev evs)
  obtain s1 x where 1: "cu_step s ev = Some (s1, x)" "csm_inv s1" using cu_step_ok [OF Cons.prems(1), of ev] by metis
  then obtain xs' where 2: "cu_run s1 evs = Some (s', xs')" "xs = x # xs'" using Cons.prems(2) by auto
  let ?u = "csm_conns s ! r" and ?u1 = "csm_conns s1 ! r" and ?u' = "csm_conns s' ! r"
  obtain ms where r1: "r < length (csm_conns s1)" "uc_ID ?u1 = uc_ID ?u"
    and m: "took ms (got r [x]) (uc_D ?u) (uc_D ?u1)" "subseq (ms @ uc_ReceiveCh ?u1) (uc_ReceiveCh ?u @ fed_to (uc_ID ?u) [ev])"
    using cu_step_view [OF Cons.prems(1) 1(1) Cons.prems(3)] by blast
  obtain ms' where r': "r < length (csm_conns s')" "uc_ID ?u' = uc_ID ?u"
    and m': "took ms' (got r xs') (uc_D ?u1) (uc_D ?u')"
      "subseq (ms' @ uc_ReceiveCh ?u') (uc_ReceiveCh ?u1 @ fed_to (uc_ID ?u) evs)"
    using Cons.IH [OF 1(2) 2(1) r1(1)] r1(2) by auto
  have "took (ms @ ms') (got r xs) (uc_D ?u) (uc_D ?u')"
    using took_append [OF m(1) m'(1)] unfolding 2(2) fed_got_Cons(2) [of r x xs'] .
  moreover have "subseq ((ms @ ms') @ uc_ReceiveCh ?u') (uc_ReceiveCh ?u @ fed_to (uc_ID ?u) (ev # evs))"
  proof -
    have "subseq (ms @ (ms' @ uc_ReceiveCh ?u')) (ms @ (uc_ReceiveCh ?u1 @ fed_to (uc_ID ?u) evs))"
      using m'(2) by (rule list_emb_append_mono [OF subseq_order.refl])
    moreover have "subseq ((ms @ uc_ReceiveCh ?u1) @ fed_to (uc_ID ?u) evs)
        ((uc_ReceiveCh ?u @ fed_to (uc_ID ?u) [ev]) @ fed_to (uc_ID ?u) evs)"
      using m(2) by (rule list_emb_append_mono [OF _ subseq_order.refl])
    ultimately show ?thesis unfolding fed_got_Cons(1) [of _ ev evs] append_assoc by (rule subseq_order.trans)
  qed
  ultimately show ?case using r' by blast
qed

text \<open>
  What a session of the client hands to its reader is the defragmentation of messages that the
  connection delivered for its id after it was opened, in their order, none twice and none of
  another session, whatever else happens to the client in between.
\<close>

theorem client_receives_in_order:
  assumes "cu_run newClientSM before = Some (s0, xs0)" "csm_NewUDP s0 = (s1, Some r)"
    and "cu_run s1 evs = Some (s, xs)"
  shows "\<exists>ms os. subseq (ms @ uc_ReceiveCh (csm_conns s ! r)) (fed_to (uc_ID (csm_conns s ! r)) evs) \<and>
    feed_all new_defragger ms = Some (uc_D (csm_conns s ! r), os) \<and> got r xs = map present os"
proof -
  have i0: "csm_inv s0" using cu_run_ok [OF cu_start_ok(1), of before] assms(1) by (metis option.inject prod.inject)
  have i1: "csm_inv s1" using csm_NewUDP_ok(1) [OF i0 assms(2)] .
  have n: "r < length (csm_conns s1)" "uc_D (csm_conns s1 ! r) = new_defragger" "uc_ReceiveCh (csm_conns s1 ! r) = []"
    using assms(2) by (auto simp: csm_NewUDP_def Let_def split: if_splits)
  show ?thesis using cu_run_view [OF i1 assms(3) n(1)] n by (auto simp: took_def)
qed

definition demo_frag :: "byte \<Rightarrow> bytes \<Rightarrow> udp_message" where
  "demo_frag i d = \<lparr>SessionID = 1, PacketID = 9, FragID = i, FragCount = 2, Addr = ''a:1'', Data = d\<rparr>"

lemma client_receives_in_order_witness:
  "\<exists>s0 s1 s xs ms. csm_NewUDP s0 = (s1, Some 0) \<and>
     cu_run s1 [CuFeed (demo_frag 1 [3]), CuNew, CuReceive 0, CuFeed (demo_frag 0 [1, 2]), CuReceive 0] = Some (s, xs) \<and>
     subseq ms [demo_frag 1 [3], demo_frag 0 [1, 2]] \<and> got 0 xs = [Incomplete, Received [1, 2, 3] ''a:1'']"
proof -
  let ?evs = "[CuFeed (demo_frag 1 [3]), CuNew, CuReceive 0, CuFeed (demo_frag 0 [1, 2]), CuReceive 0]"
  define s1 where "s1 = fst (csm_NewUDP newClientSM)"
  have 1: "csm_NewUDP newClientSM = (s1, Some 0)" unfolding s1_def by code_simp
  have e: "map_option (\<lambda>(s, xs). (got 0 xs, map uc_ID (csm_conns s))) (cu_run s1 ?evs) =
      Some ([Incomplete, Received [1, 2, 3] ''a:1''], [1, 2])" unfolding s1_def by code_simp
  then obtain s xs where r: "cu_run s1 ?evs = Some (s, xs)" "got 0 xs = [Incomplete, Received [1, 2, 3] ''a:1'']"
    and ids: "map uc_ID (csm_conns s) = [1, 2]" by auto
  have i: "uc_ID (csm_conns s ! 0) = 1" using ids by (cases "csm_conns s") auto
  have f: "fed_to 1 ?evs = [demo_frag 1 [3], demo_frag 0 [1, 2]]" by (simp add: fed_to_def demo_frag_def)
  from client_receives_in_order [of "[]", OF _ 1 r(1)]
  obtain ms where "subseq (ms @ uc_ReceiveCh (csm_conns s ! 0)) (fed_to (uc_ID (csm_conns s ! 0)) ?evs)" by auto
  then have "subseq ms [demo_frag 1 [3], demo_frag 0 [1, 2]]" unfolding i f
    by (meson list_emb_append_mono subseq_order.trans list_emb_Nil subseq_rev_drop_many subseq_order.refl prefix_imp_subseq prefixI)
  then show ?thesis using 1 r by blast
qed

section \<open>When the ids wrap\<close>

text \<open>One session stays open while the others come and go.\<close>

definition churn :: "nat \<Rightarrow> cu_event list" where
  "churn n = CuNew # concat (map (\<lambda>i. [CuNew, CuClose (Suc i)]) [0..<n])"

lemma cu_run_append:
  "cu_run s (as @ bs) = (case cu_run s as of None \<Rightarrow> None
     | Some (s, xs) \<Rightarrow> map_option (\<lambda>(s, ys). (s, xs @ ys)) (cu_run s bs))"
proof (induction as arbitrary: s)
  case Nil
  then show ?case by (cases "cu_run s bs") auto
next
  case (Cons a as)
  then show ?case by (auto split: option.splits simp: option.map_comp comp_def prod.case_eq_if)
qed

lemma churn_run:
  "n < 2 ^ 32 \<Longrightarrow> \<exists>s xs. cu_run newClientSM (churn n) = Some (s, xs) \<and> csm_m s = [(1, 0)] \<and>
     length (csm_conns s) = Suc n \<and> csm_nextID s = 1 + word_of_nat (Suc n) \<and> \<not> csm_closed s \<and>
     uc_ID (csm_conns s ! 0) = 1 \<and> \<not> uc_Closed (csm_conns s ! 0)"
proof (induction n)
  case 0
  show ?case by (simp add: churn_def cu_step_def csm_NewUDP_def newClientSM_def Let_def)
next
  case (Suc n)
  then obtain s xs where r: "cu_run newClientSM (churn n) = Some (s, xs)" "csm_m s = [(1, 0)]"
     "length (csm_conns s) = Suc n" "csm_nextID s = 1 + word_of_nat (Suc n)" "\<not> csm_closed s"
     "uc_ID (csm_conns s ! 0) = 1" "\<not> uc_Closed (csm_conns s ! 0)" by auto
  have "(word_of_nat (Suc n) :: u32) \<noteq> word_of_nat 0"
    using Suc.prems unfolding word_of_nat_eq_iff by (simp add: take_bit_nat_eq_self)
  then have ne: "1 + (word_of_nat (Suc n) :: u32) \<noteq> 1" by simp
  have c: "churn (Suc n) = churn n @ [CuNew, CuClose (Suc n)]" by (simp add: churn_def)
  show ?case unfolding c cu_run_append r(1)
    using r ne by (simp add: cu_step_def csm_NewUDP_def csm_close_def Let_def nth_append)
qed

text \<open>
  After \<open>2^32\<close> sessions a new one takes the id of the one that is still open: that one gets no more
  messages, and closing it takes the new one off the table.
\<close>

lemma client_id_wrap:
  "\<exists>s xs. cu_run newClientSM (churn (2 ^ 32 - 1) @ [CuNew]) = Some (s, xs) \<and>
     \<not> uc_Closed (csm_conns s ! 0) \<and> uc_ID (csm_conns s ! 0) = uc_ID (csm_conns s ! (2 ^ 32)) \<and>
     csm_m s = [(1, 2 ^ 32)] \<and> csm_m (csm_close 0 s) = []"
proof -
  obtain s xs where r: "cu_run newClientSM (churn (2 ^ 32 - 1)) = Some (s, xs)" "csm_m s = [(1, 0)]"
     "length (csm_conns s) = 2 ^ 32" "csm_nextID s = 1 + word_of_nat (2 ^ 32)" "\<not> csm_closed s"
     "uc_ID (csm_conns s ! 0) = 1" "\<not> uc_Closed (csm_conns s ! 0)"
    using churn_run [of "2 ^ 32 - 1"] by auto
  have "csm_nextID s = 1" using r(4) by simp
  then show ?thesis unfolding cu_run_append r(1)
    using r by (simp add: cu_step_def csm_NewUDP_def csm_close_def Let_def nth_append)
qed

end
