(* ===== verification/Client_Conn.thy ===== *)
theory Client_Conn
  imports Client_Config Client_Udp Server_Auth
begin

text \<open>
  \<open>core/client/client.go\<close> without its datagrams: connecting and authenticating, the choice of the
  congestion controller, opening a TCP stream with or without fast open, closing.  What the network
  answers (\<open>ConnFactory.New\<close>, the HTTP/3 round trip, the streams) is an argument; what the client
  does to its resources is a list of effects.
\<close>

section \<open>Errors\<close>

datatype raw_error = StreamLimitReached | OtherError string | StreamError io_error

datatype client_error =
    CClosed "raw_error option"
  | CConnect string
  | CAuthFailed nat
  | CDial string
  | CRaw raw_error
  | CConfig configError

definition wrapIfConnectionClosed :: "raw_error \<Rightarrow> client_error" where
  "wrapIfConnectionClosed err = (if err = StreamLimitReached then CRaw err else CClosed (Some err))"

section \<open>Connecting\<close>

text \<open>What \<open>connect\<close> hands to quic-go.\<close>

record quicParams =
  qp_InitialPacketSize :: int
  qp_windows :: "int \<times> int \<times> int \<times> int"
  qp_MaxIdleTimeout :: int
  qp_KeepAlivePeriod :: int
  qp_DisablePMTUD :: bool
  qp_EnableDatagrams :: bool
  qp_MaxDatagramFrameSize :: nat
  qp_OmitMaxDatagramFrameSize :: bool
  qp_DisablePathManager :: bool
  qp_ChromeParrot :: bool

definition client_quicParams :: "clientQUIC \<Rightarrow> quicParams" where
  "client_quicParams q =
     \<lparr>qp_InitialPacketSize = 1200,
      qp_windows = (cq_InitialStream q, cq_MaxStream q, cq_InitialConn q, cq_MaxConn q),
      qp_MaxIdleTimeout = cq_MaxIdleTimeout q, qp_KeepAlivePeriod = cq_KeepAlivePeriod q,
      qp_DisablePMTUD = cq_DisablePMTUD q, qp_EnableDatagrams = True,
      qp_MaxDatagramFrameSize = MaxDatagramFrameSize, qp_OmitMaxDatagramFrameSize = True,
      qp_DisablePathManager = True, qp_ChromeParrot = (\<not> cq_DisableChromeParrot q)\<rparr>"

datatype c_effect =
    COpenSocket
  | COpenTransport bool bool
  | CRoundTrip quicParams httpRequest
  | COpenConn
  | CCloseConn nat
  | CCloseTransport
  | CCloseSocket
  | CInstallBrutal int bool
  | CInstallConfigured string string
  | CCloseBody
  | CStartSessions

text \<open>The answers of the network: \<open>ConnFactory.New\<close>, whether the round trip dialled a connection, its
  result, and whether ECH was accepted.\<close>

record connect_env =
  ce_New :: "string option"
  ce_dialed :: bool
  ce_RoundTrip :: "string + nat \<times> header"
  ce_ECH :: bool

record handshakeInfo =
  hi_UDPEnabled :: bool
  hi_Tx :: int
  hi_ECHAccepted :: bool

definition closeErrCodeProtocolError :: nat where "closeErrCodeProtocolError = 0x101"

definition client_authRequest :: "(nat \<Rightarrow> nat) \<Rightarrow> clientConfig \<Rightarrow> httpRequest" where
  "client_authRequest draw c =
     \<lparr>rq_Method = ''POST'', rq_Host = URLHost, rq_Path = URLPath,
      rq_Header = AuthRequestToHeader draw (\<lambda>_. []) \<lparr>aq_Auth = cc_Auth c, aq_Rx = cc_MaxRx c\<rparr>\<rparr>"

text \<open>The rate the client sends at (0 for a configured controller), from the server's answer.\<close>

definition client_negotiate :: "clientConfig \<Rightarrow> authResponse \<Rightarrow> int \<times> c_effect" where
  "client_negotiate c authResp =
     (let configured = CInstallConfigured (cc_CongestionType c) (cc_BBRProfile c)
      in if as_RxAuto authResp then (0, configured)
         else (let actualTx = as_Rx authResp;
                   actualTx = (if actualTx = 0 \<or> actualTx > cc_MaxTx c then cc_MaxTx c else actualTx)
               in if actualTx > 0 then (actualTx, CInstallBrutal actualTx (cc_DisableLossCompensation c))
                  else (actualTx, configured)))"

text \<open>A method call on a nil connection is a panic, \<open>None\<close>.\<close>

definition connect :: "(nat \<Rightarrow> nat) \<Rightarrow> clientConfig \<Rightarrow> connect_env
    \<Rightarrow> (c_effect list \<times> (client_error + handshakeInfo)) option" where
  "connect draw c env =
     (case ce_New env of
        Some err \<Rightarrow> Some ([], Inl (CRaw (OtherError err)))
      | None \<Rightarrow>
          (let req = client_authRequest draw c;
               parrot = \<not> cq_DisableChromeParrot (cc_QUIC c);
               es = [COpenSocket, COpenTransport (cq_DisableGSO (cc_QUIC c)) parrot,
                     CRoundTrip (client_quicParams (cc_QUIC c)) req] @
                    (if ce_dialed env then [COpenConn] else [])
           in case ce_RoundTrip env of
                Inl err \<Rightarrow>
                  Some (es @ (if ce_dialed env then [CCloseConn closeErrCodeProtocolError] else []) @
                        [CCloseTransport, CCloseSocket], Inl (CConnect err))
              | Inr (status, h) \<Rightarrow>
                  if \<not> ce_dialed env then None
                  else if status \<noteq> StatusAuthOK then
                    Some (es @ [CCloseConn closeErrCodeProtocolError, CCloseTransport, CCloseSocket],
                          Inl (CAuthFailed status))
                  else
                    (let authResp = AuthResponseFromHeader h;
                         (actualTx, install) = client_negotiate c authResp
                     in Some (es @ [install, CCloseBody] @ (if as_UDPEnabled authResp then [CStartSessions] else []),
                              Inr \<lparr>hi_UDPEnabled = as_UDPEnabled authResp, hi_Tx = actualTx,
                                   hi_ECHAccepted = ce_ECH env\<rparr>))))"

definition NewClient :: "bool \<Rightarrow> (nat \<Rightarrow> nat) \<Rightarrow> clientConfig \<Rightarrow> connect_env
    \<Rightarrow> (c_effect list \<times> (client_error + clientConfig \<times> handshakeInfo)) option" where
  "NewClient noPMTU draw c env =
     (case verifyAndFill noPMTU c of
        Inl err \<Rightarrow> Some ([], Inl (CConfig err))
      | Inr c \<Rightarrow> map_option (\<lambda>(es, r). (es, case r of Inl e \<Rightarrow> Inl e | Inr i \<Rightarrow> Inr (c, i))) (connect draw c env))"

definition client_Close :: "c_effect list" where
  "client_Close = [CCloseConn closeErrCodeOK, CCloseTransport, CCloseSocket]"

section \<open>Streams\<close>

text \<open>
  A proxied connection: the bytes of its stream that are still to be read (the peer's, up to the
  end of the stream), and whether the response has been read.
\<close>

record tcpConn =
  tc_Orig :: bytes
  tc_Established :: bool

datatype s_effect = SOpen | SWrite bytes | SCancelRead nat | SCloseWrite

text \<open>\<open>QStream.Close\<close> closes both directions.\<close>

definition QStream_Close :: "s_effect list" where
  "QStream_Close = [SCancelRead 0, SCloseWrite]"

text \<open>
  \<open>TCP\<close>: what \<open>OpenStream\<close> and the write of the request answered, and the bytes that come back.
  \<open>None\<close> is a panic of the buffer writes.
\<close>

definition client_TCP ::
  "(u64w \<Rightarrow> nat) \<Rightarrow> (bytes \<Rightarrow> io_error + (u64w \<times> bytes)) \<Rightarrow> (nat \<Rightarrow> nat) \<Rightarrow> bool \<Rightarrow> raw_error option
     \<Rightarrow> raw_error option \<Rightarrow> bytes \<Rightarrow> string \<Rightarrow> (s_effect list \<times> (client_error + tcpConn)) option" where
  "client_TCP qlen qread draws fastOpen openErr writeErr inp addr =
     (case openErr of
        Some err \<Rightarrow> Some ([], Inl (wrapIfConnectionClosed err))
      | None \<Rightarrow>
          (case WriteTCPRequest qlen draws addr of
             None \<Rightarrow> None
           | Some req \<Rightarrow>
               (case writeErr of
                  Some err \<Rightarrow> Some ([SOpen, SWrite req] @ QStream_Close, Inl (wrapIfConnectionClosed err))
                | None \<Rightarrow>
                    if fastOpen then Some ([SOpen, SWrite req], Inr \<lparr>tc_Orig = inp, tc_Established = False\<rparr>)
                    else
                      (case ReadTCPResponse qread inp of
                         Inl err \<Rightarrow> Some ([SOpen, SWrite req] @ QStream_Close,
                                         Inl (wrapIfConnectionClosed (StreamError err)))
                       | Inr (ok, msg, rest) \<Rightarrow>
                           if \<not> ok then Some ([SOpen, SWrite req] @ QStream_Close, Inl (CDial msg))
                           else Some ([SOpen, SWrite req], Inr \<lparr>tc_Orig = rest, tc_Established = True\<rparr>)))))"

text \<open>A read of the stream gives at least one and at most \<open>n\<close> of the bytes left, \<open>k\<close> says how many.\<close>

definition stream_Read :: "nat \<Rightarrow> nat \<Rightarrow> bytes \<Rightarrow> io_error + bytes \<times> bytes" where
  "stream_Read k n b =
     (if n = 0 then Inr ([], b) else if b = [] then Inl IO_EOF
      else (let j = Suc (intn k (min n (length b))) in Inr (take j b, drop j b)))"

text \<open>After an error nothing is said of the connection: what a failed response leaves unread is open.\<close>

definition tcpConn_Read ::
  "(bytes \<Rightarrow> io_error + (u64w \<times> bytes)) \<Rightarrow> nat \<Rightarrow> nat \<Rightarrow> tcpConn \<Rightarrow> client_error + bytes \<times> tcpConn" where
  "tcpConn_Read qread k n c =
     (let read = (\<lambda>c. case stream_Read k n (tc_Orig c) of
                        Inl err \<Rightarrow> Inl (CRaw (StreamError err))
                      | Inr (b, rest) \<Rightarrow> Inr (b, c\<lparr>tc_Orig := rest\<rparr>))
      in if tc_Established c then read c
         else (case ReadTCPResponse qread (tc_Orig c) of
                 Inl err \<Rightarrow> Inl (CRaw (StreamError err))
               | Inr (ok, msg, rest) \<Rightarrow>
                   if \<not> ok then Inl (CDial msg)
                   else read (c\<lparr>tc_Orig := rest, tc_Established := True\<rparr>)))"

text \<open>A sequence of reads, up to the first error.\<close>

fun tcp_reads ::
  "(bytes \<Rightarrow> io_error + (u64w \<times> bytes)) \<Rightarrow> tcpConn \<Rightarrow> (nat \<times> nat) list \<Rightarrow> (client_error + bytes) list" where
  "tcp_reads qread c [] = []"
| "tcp_reads qread c ((k, n) # ks) =
     (case tcpConn_Read qread k n c of
        Inl e \<Rightarrow> [Inl e]
      | Inr (b, c) \<Rightarrow> Inr b # tcp_reads qread c ks)"

text \<open>\<open>UDP\<close>: whether the server enabled it, else an error.\<close>

definition client_UDP :: "bool \<Rightarrow> clientSM \<Rightarrow> clientSM \<times> (client_error + nat)" where
  "client_UDP enabled sm =
     (if \<not> enabled then (sm, Inl (CDial ''UDP not enabled''))
      else (case csm_NewUDP sm of
              (sm, None) \<Rightarrow> (sm, Inl (CClosed None))
            | (sm, Some r) \<Rightarrow> (sm, Inr r)))"

section \<open>Fast open\<close>

text \<open>The error as a read reports it: a failed response is not taken for a lost connection there.\<close>

definition unwrapped :: "client_error \<Rightarrow> client_error" where
  "unwrapped e = (case e of CClosed (Some err) \<Rightarrow> CRaw err | _ \<Rightarrow> e)"

text \<open>
  C40: Fast open changes when the server's answer is looked at, not what the caller gets: with it the
  same bytes are written, \<open>TCP\<close> always succeeds, and every sequence of reads gives what the reads
  without it give, or, where \<open>TCP\<close> itself would have failed, that error at the first read.
\<close>

theorem fast_open_equivalent:
  assumes "client_TCP qlen qread draws False None None inp addr = Some (es, r)"
  shows "\<exists>es' c'. client_TCP qlen qread draws True None None inp addr = Some (es', Inr c') \<and>
    (\<exists>closes. es = es' @ closes \<and> (closes = (if isl r then QStream_Close else []))) \<and>
    tcp_reads qread c' ((k, n) # ks) =
      (case r of Inl e \<Rightarrow> [Inl (unwrapped e)] | Inr c \<Rightarrow> tcp_reads qread c ((k, n) # ks))"
proof -
  obtain req where req: "WriteTCPRequest qlen draws addr = Some req"
    using assms by (auto simp: client_TCP_def split: option.splits)
  note T = assms [unfolded client_TCP_def, simplified, unfolded req, simplified]
  show ?thesis
  proof (cases "ReadTCPResponse qread inp")
    case (Inl err)
    then have "es = [SOpen, SWrite req] @ QStream_Close" "r = Inl (CClosed (Some (StreamError err)))"
      using T by (simp_all add: wrapIfConnectionClosed_def)
    then show ?thesis using req Inl by (simp add: client_TCP_def tcpConn_Read_def unwrapped_def)
  next
    case (Inr x)
    obtain ok msg rest where x: "x = (ok, msg, rest)" by (metis prod_cases3)
    show ?thesis
    proof (cases ok)
      case True
      then have "es = [SOpen, SWrite req]" "r = Inr \<lparr>tc_Orig = rest, tc_Established = True\<rparr>"
        using T Inr x by simp_all
      then show ?thesis using req Inr x True by (simp add: client_TCP_def tcpConn_Read_def split: sum.split prod.split)
    next
      case False
      then have "es = [SOpen, SWrite req] @ QStream_Close" "r = Inl (CDial msg)" using T Inr x by simp_all
      then show ?thesis using req Inr x False by (simp add: client_TCP_def tcpConn_Read_def unwrapped_def)
    qed
  qed
qed

lemma fast_open_equivalent_witness:
  "\<exists>es' c'. client_TCP rfc_len rfc_read (\<lambda>_. 0) True None None [0, 2, 79, 75, 0, 7, 8, 9] ''a:80'' = Some (es', Inr c') \<and>
     tcp_reads rfc_read c' [(0, 2), (1, 2), (0, 2)] = [Inr [7], Inr [8, 9], Inl (CRaw (StreamError IO_EOF))]"
proof -
  obtain req where req: "WriteTCPRequest rfc_len (\<lambda>_. 0) ''a:80'' = Some req"
    using rfc.tcp_request_roundtrip_aux [of "''a:80''"] by (auto simp: length_limits)
  have r: "ReadTCPResponse rfc_read [0, 2, 79, 75, 0, 7, 8, 9] = Inr (True, ''OK'', [7, 8, 9])" by code_simp
  have "client_TCP rfc_len rfc_read (\<lambda>_. 0) False None None [0, 2, 79, 75, 0, 7, 8, 9] ''a:80'' =
      Some ([SOpen, SWrite req], Inr \<lparr>tc_Orig = [7, 8, 9], tc_Established = True\<rparr>)"
    by (simp add: client_TCP_def req r)
  from fast_open_equivalent [OF this, of 0 2 "[(1, 2), (0, 2)]"]
  have "\<exists>es' c'. client_TCP rfc_len rfc_read (\<lambda>_. 0) True None None [0, 2, 79, 75, 0, 7, 8, 9] ''a:80'' = Some (es', Inr c') \<and>
    tcp_reads rfc_read c' [(0, 2), (1, 2), (0, 2)] =
      tcp_reads rfc_read \<lparr>tc_Orig = [7, 8, 9], tc_Established = True\<rparr> [(0, 2), (1, 2), (0, 2)]"
    by (simp only: sum.case) blast
  moreover have "tcp_reads rfc_read \<lparr>tc_Orig = [7, 8, 9], tc_Established = True\<rparr> [(0, 2), (1, 2), (0, 2)] =
      [Inr [7], Inr [8, 9], Inl (CRaw (StreamError IO_EOF))]"
    by (simp add: tcpConn_Read_def stream_Read_def intn_def)
  ultimately show ?thesis by (simp only:)
qed

section \<open>An answer the client cannot read\<close>

text \<open>
  The server writes any dial error, but the client reads messages of at most 2048 bytes: a longer
  one, like every error of that one stream, it reports as a closed connection.
\<close>

context quicvarint
begin

lemma long_dial_error:
  assumes "MaxMessageLength < length msg" "length msg \<le> 4096" "1 \<le> length addr" "length addr \<le> MaxAddressLength"
  shows "\<exists>resp es. WriteTCPResponse qlen draws False msg = Some resp \<and>
    client_TCP qlen qread draws' False None None (resp @ behind) addr =
      Some (es, Inl (CClosed (Some (StreamError (ProtocolError ''invalid message length'')))))"
proof -
  obtain va where va: "varint_bytes (word_of_nat (length msg)) = Some va" "unat (word_of_nat (length msg) :: u64w) = length msg"
    using small_length_varint [OF assms(2)] by blast
  have "length (padding_String tcpResponsePadding draws) \<le> 4096"
    using tcp_padding_length(2) [of draws] by (simp add: length_limits)
  then obtain vp where vp: "varint_bytes (word_of_nat (length (padding_String tcpResponsePadding draws))) = Some vp"
    by (rule small_length_varint) blast
  note W = WriteTCPResponse_bytes [OF va(1) vp refl, of False]
  have s: "ReadFull (Suc 0) (s # r) = Inr ([s], r)" for s r by (simp add: ReadFull_def)
  have R: "ReadTCPResponse qread (1 # va @ r) = Inl (ProtocolError ''invalid message length'')" for r
    using assms(1) va by (simp add: ReadTCPResponse_def s qread_varint_bytes)
  obtain req where "WriteTCPRequest qlen draws' addr = Some req" using tcp_request_roundtrip_aux [OF assms(3,4)] by blast
  then show ?thesis using W R by (simp add: client_TCP_def wrapIfConnectionClosed_def)
qed

end

section \<open>What the two sides agree on\<close>

text \<open>A rate under a limit, 0 for no limit.\<close>

definition capped :: "int \<Rightarrow> int \<Rightarrow> int" where
  "capped rate limit = (if limit = 0 then rate else min rate limit)"

definition installs :: "h_effect list \<Rightarrow> h_effect list" where
  "installs es = filter (\<lambda>e. case e of InstallBrutal _ _ \<Rightarrow> True | InstallConfigured _ _ \<Rightarrow> True | _ \<Rightarrow> False) es"

definition client_installs :: "c_effect list \<Rightarrow> c_effect list" where
  "client_installs es = filter (\<lambda>e. case e of CInstallBrutal _ _ \<Rightarrow> True | CInstallConfigured _ _ \<Rightarrow> True | _ \<Rightarrow> False) es"

lemma negotiate_capped:
  assumes "0 \<le> rx" "0 \<le> MaxTx sc"
  shows "negotiate sc rx =
    (let r = capped rx (MaxTx sc)
     in if IgnoreClientBandwidth sc then (0, InstallConfigured (CongestionType sc) (BBRProfile sc))
        else (r, if r = 0 then InstallConfigured (CongestionType sc) (BBRProfile sc)
                 else InstallBrutal r (DisableLossCompensation sc)))"
  using assms by (auto simp: negotiate_def capped_def Let_def min_def)

lemma client_negotiate_capped:
  assumes "0 \<le> as_Rx resp" "0 \<le> cc_MaxTx c"
  shows "client_negotiate c resp =
    (let r = capped (cc_MaxTx c) (as_Rx resp)
     in if as_RxAuto resp then (0, CInstallConfigured (cc_CongestionType c) (cc_BBRProfile c))
        else (r, if r = 0 then CInstallConfigured (cc_CongestionType c) (cc_BBRProfile c)
                 else CInstallBrutal r (cc_DisableLossCompensation c)))"
  using assms by (auto simp: client_negotiate_def capped_def Let_def min_def)

definition accepts :: "embedder \<Rightarrow> string \<Rightarrow> int \<Rightarrow> bool" where
  "accepts em auth rx = (case em_Authenticate em auth rx of (ok, aid) \<Rightarrow>
     ok \<and> (case em_Track em of None \<Rightarrow> True | Some track \<Rightarrow> snd (track aid)))"

lemma ServeHTTP_accepted:
  assumes "accepts em (cc_Auth cc) (cc_MaxRx cc)" "0 \<le> cc_MaxRx cc" "cc_MaxRx cc < 2 ^ 64"
  obtains h ses where "ServeHTTP sc em newH3sHandler (client_authRequest draw cc) = (h, ses)" "h_authenticated h"
    "RespondOK StatusAuthOK (authResponse_of sc) \<in> set ses" "installs ses = [snd (negotiate sc (cc_MaxRx cc))]"
proof -
  have rq: "rq_Method (client_authRequest draw cc) = ''POST''" "rq_Host (client_authRequest draw cc) = URLHost"
    "rq_Path (client_authRequest draw cc) = URLPath"
    "AuthRequestFromHeader (rq_Header (client_authRequest draw cc)) = \<lparr>aq_Auth = cc_Auth cc, aq_Rx = cc_MaxRx cc\<rparr>"
    using assms auth_request_back by (simp_all add: client_authRequest_def)
  obtain aid where a: "em_Authenticate em (cc_Auth cc) (cc_MaxRx cc) = (True, aid)"
    and tr: "case em_Track em of None \<Rightarrow> True | Some track \<Rightarrow> snd (track aid)"
    using assms(1) by (auto simp: accepts_def split: prod.splits)
  have acc: "\<exists>h' es. auth_accepted sc h aid (cc_MaxRx cc) = (h', es) \<and> h_authenticated h' \<and>
      RespondOK StatusAuthOK (authResponse_of sc) \<in> set es \<and> installs es = [snd (negotiate sc (cc_MaxRx cc))]" for h
    by (auto simp: auth_accepted_def installs_def negotiate_def Let_def split: prod.splits)
  show ?thesis
  proof (cases "em_Track em")
    case None
    obtain h' es where e: "auth_accepted sc newH3sHandler aid (cc_MaxRx cc) = (h', es)" "h_authenticated h'"
      "RespondOK StatusAuthOK (authResponse_of sc) \<in> set es" "installs es = [snd (negotiate sc (cc_MaxRx cc))]"
      using acc by blast
    have s: "ServeHTTP sc em newH3sHandler (client_authRequest draw cc) = (h', AuthCall (cc_Auth cc) (cc_MaxRx cc) True aid # es)"
      using e(1) by (simp add: ServeHTTP_def rq None a Let_def) (simp add: newH3sHandler_def)
    show ?thesis using e by (intro that [OF s]) (simp_all add: installs_def)
  next
    case (Some track)
    obtain u where u: "track aid = (u, True)" using tr Some by (cases "track aid") simp
    obtain h' es where e: "auth_accepted sc (newH3sHandler\<lparr>h_untrack := u\<rparr>) aid (cc_MaxRx cc) = (h', es)" "h_authenticated h'"
      "RespondOK StatusAuthOK (authResponse_of sc) \<in> set es" "installs es = [snd (negotiate sc (cc_MaxRx cc))]"
      using acc by blast
    have s: "ServeHTTP sc em newH3sHandler (client_authRequest draw cc) =
        (h', AuthCall (cc_Auth cc) (cc_MaxRx cc) True aid # Track aid u True # es)"
      using e(1) by (simp add: ServeHTTP_def rq Some a u Let_def) (simp add: newH3sHandler_def)
    show ?thesis using e by (intro that [OF s]) (simp_all add: installs_def)
  qed
qed

text \<open>
  Client and server agree on the rates.  When the server accepts the client's own request, each
  side installs exactly one congestion controller: Brutal at the client's receiving rate under the
  server's sending limit, and at the client's sending rate under the server's receiving limit, or
  the configured one where that is 0 or the server ignores the client's figures; the client reports
  that rate, and whether it has UDP is what the server's configuration says.
\<close>

theorem bandwidth_negotiated:
  assumes "accepts em (cc_Auth cc) (cc_MaxRx cc)" "0 \<le> cc_MaxRx cc" "cc_MaxRx cc < 2 ^ 64" "0 \<le> cc_MaxTx cc"
    and "0 \<le> MaxTx sc" "0 \<le> MaxRx sc" "MaxRx sc < 2 ^ 64" "ce_New env = None" "ce_dialed env"
    and "ce_RoundTrip env = Inr (StatusAuthOK, AuthResponseToHeader draw' h0 (authResponse_of sc))"
  shows "\<exists>h ses ces i. ServeHTTP sc em newH3sHandler (client_authRequest draw cc) = (h, ses) \<and> h_authenticated h \<and>
    RespondOK StatusAuthOK (authResponse_of sc) \<in> set ses \<and>
    connect draw cc env = Some (ces, Inr i) \<and> hi_UDPEnabled i = (\<not> DisableUDP sc) \<and>
    (let down = (if IgnoreClientBandwidth sc then 0 else capped (cc_MaxRx cc) (MaxTx sc));
         up = (if IgnoreClientBandwidth sc then 0 else capped (cc_MaxTx cc) (MaxRx sc))
     in installs ses = [if down = 0 then InstallConfigured (CongestionType sc) (BBRProfile sc)
                        else InstallBrutal down (DisableLossCompensation sc)] \<and>
        client_installs ces = [if up = 0 then CInstallConfigured (cc_CongestionType cc) (cc_BBRProfile cc)
                               else CInstallBrutal up (cc_DisableLossCompensation cc)] \<and> hi_Tx i = up)"
proof -
  obtain h ses where s: "ServeHTTP sc em newH3sHandler (client_authRequest draw cc) = (h, ses)" "h_authenticated h"
    "RespondOK StatusAuthOK (authResponse_of sc) \<in> set ses" "installs ses = [snd (negotiate sc (cc_MaxRx cc))]"
    using ServeHTTP_accepted [OF assms(1-3)] by metis
  define resp where "resp = (if IgnoreClientBandwidth sc then (authResponse_of sc)\<lparr>as_Rx := 0\<rparr> else authResponse_of sc)"
  have resp: "AuthResponseFromHeader (AuthResponseToHeader draw' h0 (authResponse_of sc)) = resp"
    using auth_response_back [of "authResponse_of sc"] assms(6,7) by (simp add: authResponse_of_def resp_def)
  have r: "as_RxAuto resp = IgnoreClientBandwidth sc" "as_UDPEnabled resp = (\<not> DisableUDP sc)"
    "\<not> IgnoreClientBandwidth sc \<Longrightarrow> as_Rx resp = MaxRx sc" "0 \<le> as_Rx resp"
    using assms(6) by (simp_all add: resp_def authResponse_of_def)
  obtain tx e where n: "client_negotiate cc resp = (tx, e)" by fastforce
  then obtain ces i where c: "connect draw cc env = Some (ces, Inr i)" "hi_UDPEnabled i = (\<not> DisableUDP sc)" "hi_Tx i = tx"
    "client_installs ces = filter (\<lambda>e. case e of CInstallBrutal _ _ \<Rightarrow> True | CInstallConfigured _ _ \<Rightarrow> True | _ \<Rightarrow> False) [e]"
    by (simp add: connect_def assms(8-10) resp r(2) client_installs_def)
  show ?thesis
    using s c n r negotiate_capped [OF assms(2,5)] client_negotiate_capped [OF r(4) assms(4)]
    by (cases "IgnoreClientBandwidth sc") (auto simp: Let_def)
qed

definition example_client :: clientConfig where
  "example_client = \<lparr>cc_hasConnFactory = True, cc_hasServerAddr = True, cc_Auth = ''secret'',
     cc_QUIC = \<lparr>cq_InitialStream = 0, cq_MaxStream = 0, cq_InitialConn = 0, cq_MaxConn = 0, cq_MaxIdleTimeout = 0,
       cq_KeepAlivePeriod = 0, cq_DisablePMTUD = False, cq_DisableGSO = False, cq_DisableChromeParrot = False\<rparr>,
     cc_CongestionType = ''bbr'', cc_BBRProfile = ''standard'', cc_MaxTx = 400000, cc_MaxRx = 5000000,
     cc_DisableLossCompensation = False, cc_FastOpen = False, cc_filled = True\<rparr>"

text \<open>A server that sends at most 2 MB/s and takes what comes.\<close>

lemma bandwidth_negotiated_witness:
  "\<exists>h ses ces i. ServeHTTP (example_filled\<lparr>MaxTx := 2000000, MaxRx := 0\<rparr>)
       \<lparr>em_Authenticate = (\<lambda>a rx. (True, a)), em_Track = None\<rparr> newH3sHandler (client_authRequest (\<lambda>_. 0) example_client) = (h, ses) \<and>
     InstallBrutal 2000000 (DisableLossCompensation example_filled) \<in> set ses \<and>
     connect (\<lambda>_. 0) example_client
       \<lparr>ce_New = None, ce_dialed = True, ce_RoundTrip = Inr (StatusAuthOK, AuthResponseToHeader (\<lambda>_. 0) (\<lambda>_. [])
          (authResponse_of (example_filled\<lparr>MaxTx := 2000000, MaxRx := 0\<rparr>))), ce_ECH = False\<rparr> = Some (ces, Inr i) \<and>
     hi_Tx i = 400000"
proof -
  let ?sc = "example_filled\<lparr>MaxTx := 2000000, MaxRx := 0\<rparr>"
  let ?em = "\<lparr>em_Authenticate = (\<lambda>a rx. (True, a)), em_Track = None\<rparr>"
  let ?env = "\<lparr>ce_New = None, ce_dialed = True, ce_RoundTrip = Inr (StatusAuthOK,
    AuthResponseToHeader (\<lambda>_. 0) (\<lambda>_. []) (authResponse_of ?sc)), ce_ECH = False\<rparr>"
  have ig: "IgnoreClientBandwidth ?sc = False" by (simp add: example_filled_def example_config_def)
  have "accepts ?em (cc_Auth example_client) (cc_MaxRx example_client)" by (simp add: accepts_def)
  then obtain h ses ces i where s: "ServeHTTP ?sc ?em newH3sHandler (client_authRequest (\<lambda>_. 0) example_client) = (h, ses)"
    and c: "connect (\<lambda>_. 0) example_client ?env = Some (ces, Inr i)"
    and r: "installs ses = [InstallBrutal 2000000 (DisableLossCompensation ?sc)]" "hi_Tx i = 400000"
    using bandwidth_negotiated [of ?em example_client ?sc ?env "\<lambda>_. 0" "\<lambda>_. []" "\<lambda>_. 0"]
    by (auto simp: ig example_client_def capped_def)
  have "InstallBrutal 2000000 (DisableLossCompensation ?sc) \<in> set (installs ses)" unfolding r(1) by simp
  then have "InstallBrutal 2000000 (DisableLossCompensation example_filled) \<in> set ses" by (simp add: installs_def)
  then show ?thesis using s c r(2) by blast
qed

section \<open>What a failed attempt leaves behind\<close>

definition still_open :: "c_effect list \<Rightarrow> bool \<times> bool \<times> bool" where
  "still_open es = (COpenSocket \<in> set es \<and> CCloseSocket \<notin> set es,
     (\<exists>g z. COpenTransport g z \<in> set es) \<and> CCloseTransport \<notin> set es,
     COpenConn \<in> set es \<and> (\<forall>k. CCloseConn k \<notin> set es))"

text \<open>An attempt that fails leaves nothing open, one that succeeds leaves the socket, the transport
  and the connection open, and \<open>Close\<close> closes these.\<close>

lemma connect_leaves:
  assumes "connect draw c env = Some (es, r)"
  shows "still_open es = (case r of Inl _ \<Rightarrow> (False, False, False) | Inr _ \<Rightarrow> (True, True, True))"
    "still_open (es @ client_Close) = (False, False, False)"
proof -
  have [dest!]: "client_negotiate c a = (tx, e) \<Longrightarrow>
      (\<exists>r d. e = CInstallBrutal r d) \<or> (\<exists>t p. e = CInstallConfigured t p)" for a tx e
    by (auto simp: client_negotiate_def Let_def split: if_splits)
  show "still_open es = (case r of Inl _ \<Rightarrow> (False, False, False) | Inr _ \<Rightarrow> (True, True, True))"
    using assms by (auto simp: connect_def still_open_def Let_def split: option.splits sum.splits if_splits prod.splits)
  show "still_open (es @ client_Close) = (False, False, False)" by (auto simp: still_open_def client_Close_def)
qed

end
