(* ===== verification/Client_Reconnect.thy ===== *)
theory Client_Reconnect
  imports Main "HOL-Library.Multiset"
begin

text \<open>
  \<open>core/client/reconnect.go\<close>: the client that reconnects.  Its state is under the mutex \<open>m\<close>, but a
  call runs outside of it on the client it picked up, so the calls of concurrent goroutines are steps
  that interleave; a goroutine is only the client it is using, or whose loss it is about to record.

  Clients are numbered in the order in which they were made.  What the configuration function and
  \<open>NewClient\<close> answer is the argument of the step.
\<close>

section \<open>State and operations\<close>

record reconnectable =
  rc_client :: "nat option"
  rc_count :: nat
  rc_closed :: bool
  rc_made :: nat
  rc_released :: "nat set"
  rc_connected :: "(nat \<times> nat) list"
  rc_using :: "nat multiset"
  rc_marking :: "nat multiset"

datatype attempt = ConfigFails | ConnectFails | Connects

text \<open>A client's \<open>Close\<close>, recorded.\<close>

definition rc_release :: "reconnectable \<Rightarrow> reconnectable" where
  "rc_release s = (case rc_client s of None \<Rightarrow> s | Some c \<Rightarrow> s\<lparr>rc_released := insert c (rc_released s)\<rparr>)"

text \<open>\<open>reconnect\<close>: \<open>NewClient\<close> returns no client with an error; whether it succeeded is the result.\<close>

definition reconnect :: "attempt \<Rightarrow> reconnectable \<Rightarrow> reconnectable \<times> bool" where
  "reconnect a s =
     (let s = rc_release s
      in case a of
           ConfigFails \<Rightarrow> (s, False)
         | ConnectFails \<Rightarrow> (s\<lparr>rc_client := None\<rparr>, False)
         | Connects \<Rightarrow>
             (let c = rc_made s; n = Suc (rc_count s)
              in (s\<lparr>rc_client := Some c, rc_made := Suc c, rc_count := n,
                    rc_connected := rc_connected s @ [(c, n)]\<rparr>, True)))"

definition rc_new :: reconnectable where
  "rc_new = \<lparr>rc_client = None, rc_count = 0, rc_closed = False, rc_made = 0, rc_released = {}, rc_connected = [],
     rc_using = {#}, rc_marking = {#}\<rparr>"

text \<open>\<open>NewReconnectableClient\<close>: \<open>None\<close> is its error.\<close>

definition NewReconnectableClient :: "bool \<Rightarrow> attempt \<Rightarrow> reconnectable option" where
  "NewReconnectableClient lazy a =
     (if lazy then Some rc_new
      else (case reconnect a rc_new of (s, ok) \<Rightarrow> if ok then Some s else None))"

text \<open>The first critical section of \<open>clientDo\<close>: the call is refused, fails to connect, or has picked a client.\<close>

definition clientDo_begin :: "attempt \<Rightarrow> reconnectable \<Rightarrow> reconnectable" where
  "clientDo_begin a s =
     (if rc_closed s then s
      else (let (s, ok) = (if rc_client s = None then reconnect a s else (s, True))
            in if ok then s\<lparr>rc_using := add_mset (the (rc_client s)) (rc_using s)\<rparr> else s))"

text \<open>The call returned: with \<open>ClosedError\<close>, its goroutine goes on to the second critical section.\<close>

definition clientDo_return :: "nat \<Rightarrow> bool \<Rightarrow> reconnectable \<Rightarrow> reconnectable" where
  "clientDo_return c lost s =
     (let s = s\<lparr>rc_using := rc_using s - {#c#}\<rparr>
      in if lost then s\<lparr>rc_marking := add_mset c (rc_marking s)\<rparr> else s)"

definition clientDo_mark :: "nat \<Rightarrow> reconnectable \<Rightarrow> reconnectable" where
  "clientDo_mark c s =
     (let s = s\<lparr>rc_marking := rc_marking s - {#c#}\<rparr>
      in if rc_client s = Some c then s\<lparr>rc_client := None\<rparr> else s)"

definition rc_Close :: "reconnectable \<Rightarrow> reconnectable" where
  "rc_Close s = rc_release (s\<lparr>rc_closed := True\<rparr>)"

inductive rc_step :: "reconnectable \<Rightarrow> reconnectable \<Rightarrow> bool" where
  Begin: "rc_step s (clientDo_begin a s)"
| Return: "c \<in># rc_using s \<Longrightarrow> rc_step s (clientDo_return c lost s)"
| Mark: "c \<in># rc_marking s \<Longrightarrow> rc_step s (clientDo_mark c s)"
| Close: "rc_step s (rc_Close s)"

inductive rc_reach :: "reconnectable \<Rightarrow> bool" where
  new: "NewReconnectableClient lazy a = Some s \<Longrightarrow> rc_reach s"
| step: "rc_reach s \<Longrightarrow> rc_step s s' \<Longrightarrow> rc_reach s'"

inductive_cases rc_stepE: "rc_step s s'"

lemmas rc_defs = clientDo_begin_def clientDo_return_def clientDo_mark_def rc_Close_def reconnect_def rc_release_def
  NewReconnectableClient_def rc_new_def Let_def

section \<open>Invariants\<close>

text \<open>The current client is the last one made, and no earlier one has been released.\<close>

definition rc_inv :: "reconnectable \<Rightarrow> bool" where
  "rc_inv s \<longleftrightarrow> rc_count s = rc_made s \<and> rc_connected s = map (\<lambda>c. (c, Suc c)) [0..<rc_made s] \<and>
     (\<forall>c. rc_client s = Some c \<longrightarrow> Suc c = rc_made s) \<and>
     (\<forall>c \<in> rc_released s. Suc c = rc_made s \<and> rc_closed s) \<and>
     (\<forall>c. rc_closed s \<longrightarrow> rc_client s = Some c \<longrightarrow> c \<in> rc_released s) \<and>
     set_mset (rc_using s) \<union> set_mset (rc_marking s) \<subseteq> {..<rc_made s}"

lemma rc_inv_step: "rc_inv s \<Longrightarrow> rc_step s s' \<Longrightarrow> rc_inv s'"
proof (elim rc_stepE)
  fix a assume i: "rc_inv s" and s': "s' = clientDo_begin a s"
  show "rc_inv s'"
  proof (cases "rc_closed s")
    case False
    show ?thesis
    proof (cases "rc_client s")
      case None
      then show ?thesis using i False by (cases a) (auto simp: s' rc_defs rc_inv_def less_Suc_eq)
    next
      case (Some c)
      then show ?thesis using i False by (auto simp: s' rc_defs rc_inv_def)
    qed
  qed (use i s' in \<open>simp add: clientDo_begin_def\<close>)
next
  fix c lost assume "rc_inv s" "c \<in># rc_using s" "s' = clientDo_return c lost s"
  then show "rc_inv s'" by (auto simp: rc_defs rc_inv_def dest: in_diffD)
next
  fix c assume "rc_inv s" "c \<in># rc_marking s" "s' = clientDo_mark c s"
  then show "rc_inv s'" by (auto simp: rc_defs rc_inv_def dest: in_diffD)
next
  assume "rc_inv s" "s' = rc_Close s"
  then show "rc_inv s'" by (cases "rc_client s") (auto simp: rc_defs rc_inv_def)
qed

lemma rc_reach_inv: "rc_reach s \<Longrightarrow> rc_inv s"
proof (induction rule: rc_reach.induct)
  case (new lazy a s)
  then show ?case by (cases a) (auto simp: rc_defs rc_inv_def split: if_splits)
qed (rule rc_inv_step)


text \<open>Two connections are lost and replaced; closing then releases the third only.\<close>

definition twice_lost :: reconnectable where
  "twice_lost = clientDo_begin Connects (clientDo_mark 1 (clientDo_return 1 True (clientDo_begin Connects
     (clientDo_mark 0 (clientDo_return 0 True (clientDo_begin Connects rc_new))))))"


end
