(* ===== verification/Udp_Exchange.thy ===== *)
theory Udp_Exchange
  imports Client_Udp Server_Io
begin

text \<open>
  The UDP path end to end: what the client's \<open>Send\<close> puts on the connection, read by the server's
  session (\<open>core/client/udp.go\<close>, \<open>core/internal/protocol\<close>, \<open>core/internal/frag\<close>,
  \<open>core/server/udp.go\<close>), and the way back.
\<close>

section \<open>What a send puts on the wire\<close>

text \<open>The messages of one datagram exchange: the message whole, or the fragments of it under a new
  packet id, or nothing.\<close>

inductive pieces :: "(u64w \<Rightarrow> nat) \<Rightarrow> udp_message \<Rightarrow> udp_message list \<Rightarrow> bool" for qlen m where
  nothing: "pieces qlen m []"
| whole: "pieces qlen m [m\<lparr>PacketID := p\<rparr>]"
| split: "maxSize < int (Size qlen m) \<Longrightarrow> int (HeaderSize qlen m) < maxSize \<Longrightarrow>
    FragUDPMessage qlen (m\<lparr>PacketID := p\<rparr>) maxSize = Some fs \<Longrightarrow> pieces qlen m fs"

text \<open>What \<open>FragUDPMessage\<close> returns, sent completely, is such a list.\<close>

lemma Size_PacketID [simp]: "Size qlen (m\<lparr>PacketID := p\<rparr>) = Size qlen m"
  "HeaderSize qlen (m\<lparr>PacketID := p\<rparr>) = HeaderSize qlen m"
  by (simp_all add: Size_def HeaderSize_def)

lemma FragUDPMessage_pieces:
  assumes "FragUDPMessage qlen (m\<lparr>PacketID := p\<rparr>) maxSize = Some fs"
  shows "pieces qlen m fs"
proof (cases "maxSize < int (Size qlen m) \<and> int (HeaderSize qlen m) < maxSize")
  case True
  then show ?thesis using pieces.split assms by blast
next
  case False
  then have "fs = [m\<lparr>PacketID := p\<rparr>] \<or> fs = []" using assms by (auto simp: FragUDPMessage_def Let_def split: if_splits)
  then show ?thesis using pieces.nothing pieces.whole by blast
qed

lemma pieces_fields:
  assumes "pieces qlen m ms" "Data m \<noteq> []" "f \<in> set ms"
  shows "Addr f = Addr m" "SessionID f = SessionID m" "Data f \<noteq> []" "Size qlen f \<le> Size qlen m"
proof -
  have "Addr f = Addr m \<and> SessionID f = SessionID m \<and> Data f \<noteq> [] \<and> Size qlen f \<le> Size qlen m"
    using assms
  proof cases
    case (split maxSize p)
    let ?m = "m\<lparr>PacketID := p\<rparr>" let ?mps = "nat (maxSize - int (HeaderSize qlen ?m))"
    have F: "fragmented ?mps ?m" "ms = map (nth_frag ?mps ?m) [0..<nfrags ?mps ?m]"
      using FragUDPMessage_fragmented [of maxSize qlen ?m ms] split by simp_all
    then obtain i where i: "i < nfrags ?mps ?m" "f = nth_frag ?mps ?m i" using assms(3) by auto
    have "0 < ?mps" using split by simp
    then have "i * ?mps < length (Data m)" using i(1) ceil_div_less [of ?mps i "length (Data m)"] by (simp add: nfrags_def)
    then show ?thesis using split by (simp add: i(2) fragment_def Size_def HeaderSize_def)
  qed auto
  then show "Addr f = Addr m" "SessionID f = SessionID m" "Data f \<noteq> []" "Size qlen f \<le> Size qlen m" by simp_all
qed

section \<open>What a defragmenter makes of them\<close>

text \<open>The receiver's defragmenter is not in the middle of a packet with this id and count.\<close>

definition fresh_for :: "defragger \<Rightarrow> udp_message list \<Rightarrow> bool" where
  "fresh_for d ms \<longleftrightarrow> (case ms of [] \<Rightarrow> True
     | f # _ \<Rightarrow> \<not> (pktID d = PacketID f \<and> length (frags d) = length ms))"

definition outputs :: "udp_message option list \<Rightarrow> udp_message list" where
  "outputs rs = concat (map (\<lambda>r. case r of None \<Rightarrow> [] | Some m \<Rightarrow> [m]) rs)"

lemma outputs_once:
  assumes "k < length rs" "rs ! k = Some m" "\<And>j. j < length rs \<Longrightarrow> j \<noteq> k \<Longrightarrow> rs ! j = None"
  shows "outputs rs = [m]"
  using assms
proof (induction rs arbitrary: k)
  case (Cons r rs)
  show ?case
  proof (cases k)
    case 0
    have "r' = None" if "r' \<in> set rs" for r'
      using that Cons.prems(3) [of "Suc j" for j] 0 by (auto simp: in_set_conv_nth)
    then have "outputs rs = []" by (auto simp: outputs_def split: option.split)
    then show ?thesis using Cons.prems 0 by (simp add: outputs_def)
  next
    case (Suc k')
    then have "r = None" using Cons.prems(3) [of 0] by simp
    moreover have "outputs rs = [m]" using Cons.prems Suc Cons.prems(3) [of "Suc j" for j]
      by (intro Cons.IH [of k']) auto
    ultimately show ?thesis by (simp add: outputs_def)
  qed
qed simp

lemma outputs_none: "(\<And>j. j < length rs \<Longrightarrow> rs ! j = None) \<Longrightarrow> outputs rs = []"
  by (auto simp: outputs_def in_set_conv_nth split: option.split)

lemma pieces_defragmented:
  assumes p: "pieces qlen m ms" "FragID m = 0" "FragCount m = 1" and inv: "defrag_inv d" and "fresh_for d ms"
    and idx: "distinct is" "set is \<subseteq> {..<length ms}"
  shows "\<exists>d' rs p. feed_all d (map (\<lambda>i. ms ! i) is) = Some (d', rs) \<and>
    outputs rs = (if ms \<noteq> [] \<and> set is = {..<length ms} then [m\<lparr>PacketID := p\<rparr>] else [])"
  using p(1)
proof cases
  case nothing
  then show ?thesis using idx by (simp add: outputs_def)
next
  case (whole p)
  then have "set is \<subseteq> {0}" using idx(2) by auto
  then have "is = [] \<or> is = [0]" using idx(1) by (cases "is"; cases "tl is") auto
  then show ?thesis using whole p(2,3) by (auto simp: outputs_def Feed_def)
next
  case (split maxSize p)
  let ?m = "m\<lparr>PacketID := p\<rparr>"
  let ?mps = "nat (maxSize - int (HeaderSize qlen ?m))"
  have sz: "maxSize < int (Size qlen ?m)" "int (HeaderSize qlen ?m) < maxSize" using split by simp_all
  note F = FragUDPMessage_fragmented [OF sz split(3)]
  have n: "2 \<le> length ms" using F fragmentedD(2) [OF F(1)] by simp
  have "PacketID (hd ms) = p" using n F(2) by (simp add: fragment_def hd_map upt_conv_Cons)
  then have new: "\<not> (pktID d = PacketID ?m \<and> length (frags d) = length ms)"
    using assms(5) n by (cases ms) (auto simp: fresh_for_def)
  obtain d' rs where r: "feed_all d (map (\<lambda>i. ms ! i) is) = Some (d', rs)" "length rs = length is" and
    nth: "\<And>k. k < length is \<Longrightarrow> rs ! k =
       (if set (take k is) \<noteq> {..<length ms} \<and> set (take (Suc k) is) = {..<length ms}
        then Some (?m\<lparr>FragID := 0, FragCount := 1\<rparr>) else None)"
    using feed_fragments [OF sz split(3) inv new idx(2)] by auto
  have m: "?m\<lparr>FragID := 0, FragCount := 1\<rparr> = ?m" using p(2,3) by (cases m) simp
  have sub: "set (take k is) = {..<length ms} \<Longrightarrow> length is \<le> k" for k
  proof -
    assume "set (take k is) = {..<length ms}"
    then have "card (set (take k is)) = card (set is)"
      using idx(2) set_take_subset [of k "is"] by (metis subset_antisym)
    then show ?thesis using idx(1) by (simp add: distinct_card distinct_take min_def split: if_splits)
  qed
  show ?thesis
  proof (cases "set is = {..<length ms}")
    case False
    have "set (take k is) \<noteq> {..<length ms}" if "k \<le> length is" for k
      using sub [of k] that False by (metis le_antisym take_all_iff)
    then have "outputs rs = []" using nth r(2) by (intro outputs_none) simp
    then have "outputs rs = (if ms \<noteq> [] \<and> set is = {..<length ms} then [?m] else [])"
      by (simp only: False simp_thms if_False)
    then show ?thesis using r(1) by blast
  next
    case True
    define k where "k = length is - 1"
    have "0 \<in> {..<length ms}" using n by (cases ms) simp_all
    then have "0 \<in> set is" unfolding True .
    then have "0 < length is" by (rule length_pos_if_in_set)
    then have k: "Suc k = length is" "k < length is" unfolding k_def by linarith+
    have "set (take k is) \<noteq> {..<length ms}" using sub [of k] k(2) by linarith
    moreover have "take (Suc k) is = is" by (simp only: k(1) take_all_iff order.refl)
    ultimately have "rs ! k = Some ?m" using True unfolding nth [OF k(2)] m by (simp only: simp_thms if_True)
    moreover have "rs ! j = None" if "j < length rs" "j \<noteq> k" for j
    proof -
      have "Suc j < length is" using that r(2) k by simp
      then have "set (take (Suc j) is) \<noteq> {..<length ms}" using sub [of "Suc j"] by linarith
      moreover have "j < length is" using that r(2) by simp
      ultimately show ?thesis unfolding nth [OF \<open>j < length is\<close>] by (simp only: simp_thms if_False)
    qed
    ultimately have "outputs rs = [?m]" using k r(2) by (intro outputs_once [of k]) simp_all
    moreover have "ms \<noteq> []" using n by (cases ms) simp_all
    ultimately have "outputs rs = (if ms \<noteq> [] \<and> set is = {..<length ms} then [?m] else [])"
      by (simp only: True simp_thms if_True)
    then show ?thesis using r(1) by blast
  qed
qed

section \<open>Upstream\<close>

context quicvarint
begin

lemma wire_parses:
  assumes "1 \<le> length (Addr m)" "length (Addr m) \<le> MaxMessageLength" "Data m \<noteq> []"
  shows "ParseUDPMessage qparse (wire_of m) = Inr m"
proof -
  obtain va where va: "varint_bytes (word_of_nat (length (Addr m))) = Some va"
    by (rule small_length_varint [of "length (Addr m)"]) (use assms(2) in \<open>simp add: length_limits\<close>)
  then show ?thesis using ParseUDPMessage_wire [OF va assms] by (simp add: wire_of_def)
qed

lemma pieces_parse:
  assumes "pieces qlen m ms" "1 \<le> length (Addr m)" "length (Addr m) \<le> MaxMessageLength" "Data m \<noteq> []"
  shows "map (ParseUDPMessage qparse) (map wire_of ms) = map Inr ms"
  using wire_parses pieces_fields [OF assms(1,4)] assms(2,3) by simp

lemma client_SendMessage_fits:
  assumes "length buf = MaxUDPSize"
  shows "client_SendMessage qlen quic_send buf sent m =
    Some (if Size qlen m \<le> MaxUDPSize
          then (case quic_send sent (wire_of m) of SendOk \<Rightarrow> (sent @ [wire_of m], SendOk) | r \<Rightarrow> (sent, r))
          else (sent, SendOk))"
proof (cases "Size qlen m \<le> MaxUDPSize")
  case False
  then show ?thesis using assms by (simp add: client_SendMessage_def Serialize_def)
next
  case True
  then have "length (Addr m) \<le> MaxUDPSize" by (simp add: Size_def HeaderSize_def Let_def)
  then obtain va where va: "varint_bytes (word_of_nat (length (Addr m))) = Some va"
    by (rule_tac small_length_varint [of "length (Addr m)"]) (simp add: MaxUDPSize_def)
  have sz: "Size qlen m = length (udp_wire va m)"
    by (simp add: Size_def HeaderSize_def Let_def qlen_varint_bytes [OF va] length_udp_wire)
  have ser: "Serialize qlen m buf =
      Some (udp_wire va m @ drop (length (udp_wire va m)) buf, int (length (udp_wire va m)))"
    using True assms sz by (intro Serialize_bytes [OF va]) simp
  have wire: "udp_wire va m = wire_of m" by (simp add: wire_of_def va)
  show ?thesis using True by (simp add: client_SendMessage_def ser wire split: send_result.split)
qed

lemma sendFragments_ok:
  assumes "length buf = MaxUDPSize" "\<forall>f \<in> set fs. Size qlen f \<le> MaxUDPSize"
    and "sendFragments (client_SendMessage qlen quic_send buf) sent fs = Some (sent', SendOk)"
  shows "sent' = sent @ map wire_of fs"
  using assms(2,3)
proof (induction fs arbitrary: sent)
  case (Cons f fs)
  have "Size qlen f \<le> MaxUDPSize" using Cons.prems(1) by simp
  note S = client_SendMessage_fits [OF assms(1), of quic_send sent f, unfolded if_P [OF this]]
  have q: "quic_send sent (wire_of f) = SendOk" using Cons.prems(2) by (simp add: S split: send_result.splits)
  have "sendFragments (client_SendMessage qlen quic_send buf) (sent @ [wire_of f]) fs = Some (sent', SendOk)"
    using Cons.prems(2) by (simp add: S q)
  then show ?case using Cons.IH [of "sent @ [wire_of f]"] Cons.prems(1) by simp
qed simp

lemma client_send_pieces:
  assumes buf: "length buf = MaxUDPSize" and d: "data \<noteq> []"
    and run: "udpConn_Send qlen (client_SendMessage qlen quic_send buf) draw sent u data addr = Some (sent', SendOk)"
  defines "m \<equiv> \<lparr>SessionID = uc_ID u, PacketID = 0, FragID = 0, FragCount = 1, Addr = addr, Data = data\<rparr>"
  shows "\<exists>ms. pieces qlen m ms \<and> sent' = sent @ map wire_of ms"
proof (cases "Size qlen m \<le> MaxUDPSize")
  case False
  then have "sent' = sent" using run
    by (simp add: udpConn_Send_def m_def [symmetric] client_SendMessage_fits [OF buf] Let_def)
  then show ?thesis using pieces.nothing by (intro exI [of _ "[]"]) simp
next
  case True
  have p0: "m = m\<lparr>PacketID := 0\<rparr>" by (simp add: m_def)
  show ?thesis
  proof (cases "quic_send sent (wire_of m)")
    case SendOk
    then have "sent' = sent @ map wire_of [m]" using run True
      by (simp add: udpConn_Send_def m_def [symmetric] client_SendMessage_fits [OF buf] Let_def)
    then show ?thesis using pieces.whole [of qlen m 0] p0 by metis
  next
    case (TooLarge k)
    then obtain fs where fs: "FragUDPMessage qlen (m\<lparr>PacketID := randPacketID draw\<rparr>) k = Some fs"
      "sendFragments (client_SendMessage qlen quic_send buf) sent fs = Some (sent', SendOk)"
      using run True
      by (auto simp: udpConn_Send_def m_def [symmetric] client_SendMessage_fits [OF buf] Let_def split: option.splits)
    have p: "pieces qlen m fs" by (rule FragUDPMessage_pieces [OF fs(1)])
    then have "\<forall>f \<in> set fs. Size qlen f \<le> MaxUDPSize"
      using pieces_fields(4) [OF p] d True by (fastforce simp: m_def)
    from sendFragments_ok [OF buf this fs(2)] show ?thesis using p by blast
  next
    case (SendErr e)
    then show ?thesis using run True
      by (simp add: udpConn_Send_def m_def [symmetric] client_SendMessage_fits [OF buf] Let_def)
  qed
qed

lemma client_to_server:
  assumes "length buf = MaxUDPSize" "1 \<le> length addr" "length addr \<le> MaxMessageLength" "data \<noteq> []"
    and run: "udpConn_Send qlen (client_SendMessage qlen quic_send buf) draw sent u data addr = Some (sent @ ds, SendOk)"
    and inv: "defrag_inv d" and idx: "distinct is" "set is \<subseteq> {..<length ds}"
  shows "\<exists>ms. map (ParseUDPMessage qparse) ds = map Inr ms \<and>
    (fresh_for d ms \<longrightarrow> (\<exists>d' rs p. feed_all d (map (\<lambda>i. ms ! i) is) = Some (d', rs) \<and>
      outputs rs = (if ds \<noteq> [] \<and> set is = {..<length ds}
        then [\<lparr>SessionID = uc_ID u, PacketID = p, FragID = 0, FragCount = 1, Addr = addr, Data = data\<rparr>] else [])))"
proof -
  let ?m = "\<lparr>SessionID = uc_ID u, PacketID = 0, FragID = 0, FragCount = 1, Addr = addr, Data = data\<rparr>"
  obtain ms where ms: "pieces qlen ?m ms" "ds = map wire_of ms"
    using client_send_pieces [OF assms(1,4) run] by auto
  have "map (ParseUDPMessage qparse) ds = map Inr ms" using pieces_parse [OF ms(1)] assms(2-4) ms(2) by simp
  moreover have "\<exists>d' rs p. feed_all d (map (\<lambda>i. ms ! i) is) = Some (d', rs) \<and>
      outputs rs = (if ms \<noteq> [] \<and> set is = {..<length ms} then [?m\<lparr>PacketID := p\<rparr>] else [])" if "fresh_for d ms"
    using pieces_defragmented [OF ms(1) _ _ inv that idx(1)] idx(2) ms(2) by simp
  moreover have "?m\<lparr>PacketID := p\<rparr> = \<lparr>SessionID = uc_ID u, PacketID = p, FragID = 0, FragCount = 1,
      Addr = addr, Data = data\<rparr>" for p by simp
  moreover have "(ds \<noteq> [] \<and> set is = {..<length ds}) = (ms \<noteq> [] \<and> set is = {..<length ms})" using ms(2) by simp
  ultimately show ?thesis by metis
qed

end

text \<open>
  C10: Upstream, end to end: when the client's \<open>Send\<close> succeeds, every datagram it put on the
  connection parses, and when they reach the server's session in any order it hands out exactly
  one message, with the sender's address and data whole; when some of them are lost it hands out
  nothing of it.  The condition is that the session is not in the middle of a packet with the same
  id and count.
\<close>

theorem udp_upstream_whole:
  assumes "quicvarint qlen qread qparse" "length buf = MaxUDPSize"
    and "1 \<le> length addr" "length addr \<le> MaxMessageLength" "data \<noteq> []"
    and "udpConn_Send qlen (client_SendMessage qlen quic_send buf) draw sent u data addr = Some (sent @ ds, SendOk)"
    and past: "feed_all new_defragger earlier = Some (d, outs)" and "distinct is" "set is \<subseteq> {..<length ds}"
  shows "\<exists>ms. map (ParseUDPMessage qparse) ds = map Inr ms \<and>
    (fresh_for d ms \<longrightarrow> (\<exists>d' rs p. feed_all d (map (\<lambda>i. ms ! i) is) = Some (d', rs) \<and>
      outputs rs = (if ds \<noteq> [] \<and> set is = {..<length ds}
        then [\<lparr>SessionID = uc_ID u, PacketID = p, FragID = 0, FragCount = 1, Addr = addr, Data = data\<rparr>] else [])))"
proof -
  have "defrag_inv d" using feed_all_inv [OF defrag_inv_new, of earlier] past by simp
  from quicvarint.client_to_server [OF assms(1-6) this assms(8,9)] show ?thesis .
qed

definition example_conn :: udpConn where
  "example_conn = \<lparr>uc_ID = 7, uc_D = new_defragger, uc_ReceiveCh = [], uc_Closed = False\<rparr>"

lemma udp_upstream_whole_witness:
  "\<exists>d1 d2 m1 m2 d' rs p.
     udpConn_Send rfc_len (client_SendMessage rfc_len narrow_link (replicate MaxUDPSize 0)) 41 [] example_conn
       [1, 2, 3, 4, 5, 6] ''a:1'' = Some ([d1, d2], SendOk) \<and>
     ParseUDPMessage rfc_parse d1 = Inr m1 \<and> ParseUDPMessage rfc_parse d2 = Inr m2 \<and>
     feed_all new_defragger [m2, m1] = Some (d', rs) \<and> outputs rs = [example_reply\<lparr>PacketID := p\<rparr>]"
proof -
  let ?f1 = "example_reply\<lparr>PacketID := 42, FragID := 0, FragCount := 2, Data := [1, 2, 3, 4]\<rparr>"
  let ?f2 = "example_reply\<lparr>PacketID := 42, FragID := 1, FragCount := 2, Data := [5, 6]\<rparr>"
  define buf where "buf = replicate MaxUDPSize (0 :: byte)"
  have bl: "length buf = MaxUDPSize" by (simp add: buf_def)
  have M: "18 \<le> MaxUDPSize" unfolding MaxUDPSize_def by simp
  have sz: "Size rfc_len example_reply = 18" "Size rfc_len ?f1 = 16" "Size rfc_len ?f2 = 14" by code_simp+
  have wl: "length (wire_of example_reply) = 18" "length (wire_of ?f1) = 16" "length (wire_of ?f2) = 14" by code_simp+
  have hs: "HeaderSize rfc_len (example_reply\<lparr>PacketID := 42\<rparr>) = 12"
    "Size rfc_len (example_reply\<lparr>PacketID := 42\<rparr>) = 18" by code_simp+
  have pid: "randPacketID 41 = 42" by (simp add: randPacketID_def intn_def)
  have fr: "FragUDPMessage rfc_len (example_reply\<lparr>PacketID := randPacketID 41\<rparr>) 16 = Some [?f1, ?f2]"
    using FragUDPMessage_too_large [of 16 rfc_len "example_reply\<lparr>PacketID := 42\<rparr>" 4]
    by (simp add: hs [unfolded example_reply_def, simplified] pid nfrags_def fragment_def example_reply_def upt_rec)
  note S = rfc.client_SendMessage_fits [OF bl, of narrow_link]
  let ?send = "client_SendMessage rfc_len narrow_link buf"
  have s0: "?send w example_reply = Some (w, TooLarge 16)" for w
    unfolding S sz wl narrow_link_def using M by simp
  have s1: "?send w ?f1 = Some (w @ [wire_of ?f1], SendOk)" for w
    unfolding S sz wl narrow_link_def using M by simp
  have s2: "?send w ?f2 = Some (w @ [wire_of ?f2], SendOk)" for w
    unfolding S sz wl narrow_link_def using M by simp
  have m: "\<lparr>SessionID = uc_ID example_conn, PacketID = 0, FragID = 0, FragCount = 1, Addr = ''a:1'',
      Data = [1, 2, 3, 4, 5, 6]\<rparr> = example_reply" by (simp add: example_conn_def example_reply_def)
  have run: "udpConn_Send rfc_len ?send 41 [] example_conn [1, 2, 3, 4, 5, 6] ''a:1'' =
      Some ([] @ [wire_of ?f1, wire_of ?f2], SendOk)"
    unfolding udpConn_Send_def m s0 Let_def by (simp add: fr s1 s2)
  have "feed_all new_defragger [] = Some (new_defragger, [])" by simp
  from udp_upstream_whole [OF rfc.quicvarint_axioms bl _ _ _ run this, of "[1, 0]"]
  have "\<exists>ms. map (ParseUDPMessage rfc_parse) [wire_of ?f1, wire_of ?f2] = map Inr ms \<and>
    (fresh_for new_defragger ms \<longrightarrow> (\<exists>d' rs p. feed_all new_defragger (map (\<lambda>i. ms ! i) [1, 0]) = Some (d', rs) \<and>
      outputs rs = (if [wire_of ?f1, wire_of ?f2] \<noteq> [] \<and> set [1, 0] = {..<length [wire_of ?f1, wire_of ?f2]}
        then [\<lparr>SessionID = uc_ID example_conn, PacketID = p, FragID = 0, FragCount = 1, Addr = ''a:1'',
          Data = [1, 2, 3, 4, 5, 6]\<rparr>] else [])))"
    by (simp add: MaxMessageLength_def)
  then obtain ms where ms: "map (ParseUDPMessage rfc_parse) [wire_of ?f1, wire_of ?f2] = map Inr ms" and
    d: "fresh_for new_defragger ms \<longrightarrow> (\<exists>d' rs p. feed_all new_defragger (map (\<lambda>i. ms ! i) [1, 0]) = Some (d', rs) \<and>
      outputs rs = (if [wire_of ?f1, wire_of ?f2] \<noteq> [] \<and> set [1, 0] = {..<length [wire_of ?f1, wire_of ?f2]}
        then [\<lparr>SessionID = uc_ID example_conn, PacketID = p, FragID = 0, FragCount = 1, Addr = ''a:1'',
          Data = [1, 2, 3, 4, 5, 6]\<rparr>] else []))" by blast
  have "length ms = 2" using arg_cong [OF ms, of length] by simp
  then obtain m1 m2 where m12: "ms = [m1, m2]" by (auto simp: length_Suc_conv numeral_2_eq_2)
  have fr: "fresh_for new_defragger ms" by (simp add: fresh_for_def m12 new_defragger_def)
  have all: "[wire_of ?f1, wire_of ?f2] \<noteq> [] \<and> set [1, 0] = {..<length [wire_of ?f1, wire_of ?f2]}"
    by (simp add: lessThan_Suc insert_commute)
  obtain d' rs p where o: "feed_all new_defragger (map (\<lambda>i. ms ! i) [1, 0]) = Some (d', rs)"
    "outputs rs = [\<lparr>SessionID = uc_ID example_conn, PacketID = p, FragID = 0, FragCount = 1, Addr = ''a:1'',
          Data = [1, 2, 3, 4, 5, 6]\<rparr>]" using mp [OF d fr] unfolding if_P [OF all] by blast
  have "map (\<lambda>i. ms ! i) [1, 0] = [m2, m1]" by (simp add: m12)
  moreover have "ParseUDPMessage rfc_parse (wire_of ?f1) = Inr m1" "ParseUDPMessage rfc_parse (wire_of ?f2) = Inr m2"
    using ms by (simp_all only: m12 list.map list.inject)
  moreover have "outputs rs = [example_reply\<lparr>PacketID := p\<rparr>]"
    unfolding o(2) by (simp add: example_reply_def example_conn_def)
  moreover have "udpConn_Send rfc_len ?send 41 [] example_conn [1, 2, 3, 4, 5, 6] ''a:1'' =
      Some ([wire_of ?f1, wire_of ?f2], SendOk)" using run by (simp only: append_Nil)
  ultimately show ?thesis using o(1) unfolding buf_def by metis
qed

section \<open>Downstream\<close>

lemma Receive_outputs:
  "feed_all (uc_D c) (uc_ReceiveCh c) = Some (d', rs) \<Longrightarrow> outputs rs = [m] \<Longrightarrow>
   \<exists>c'. Receive c = Some (c', Received (Data m) (Addr m))"
proof (induction "uc_ReceiveCh c" arbitrary: c rs)
  case Nil
  then have "rs = []" by (metis Pair_inject feed_all.simps(1) option.inject)
  then show ?case using Nil.prems(2) by (simp add: outputs_def)
next
  case (Cons x q)
  obtain d x' rs' where f: "Feed (uc_D c) x = Some (d, x')" "feed_all d q = Some (d', rs')" "rs = x' # rs'"
    using Cons.prems(1) unfolding Cons.hyps(2) [symmetric] by (auto split: option.splits)
  let ?c = "c\<lparr>uc_D := d, uc_ReceiveCh := q\<rparr>"
  note R = Receive.simps [of c]
  have st: "Receive_step c = Some (?c, present x')"
    unfolding Receive_step_def Cons.hyps(2) [symmetric] list.case f(1) option.case prod.case present_def by (rule refl)
  show ?case
  proof (cases x')
    case (Some m')
    then have "m' = m" using Cons.prems(2) f(3) by (simp add: outputs_def)
    then show ?thesis using st unfolding R by (simp add: Some present_def)
  next
    case None
    have "outputs rs' = [m]" using Cons.prems(2) f(3) None by (simp add: outputs_def)
    then obtain c' where "Receive ?c = Some (c', Received (Data m) (Addr m))"
      using Cons.hyps(1) [of ?c] f(2) by auto
    moreover have "length (uc_ReceiveCh ?c) < length (uc_ReceiveCh c)" unfolding Cons.hyps(2) [symmetric] by simp
    ultimately show ?thesis using st unfolding R by (simp add: None present_def del: Receive.simps)
  qed
qed

context quicvarint
begin

lemma autofrag_pieces:
  assumes L: "uio_TrafficLogger u = Some (recording L)" and buf: "length buf = MaxUDPSize" and d: "Data m \<noteq> []"
    and run: "sendMessageAutoFrag qlen (\<lambda>w m. the (SendMessage qlen quic_send u buf w m)) draw w m = Some (w', SendOk)"
  shows "\<exists>ms. pieces qlen m ms \<and> iw_sent w' = iw_sent w @ map wire_of ms"
proof -
  obtain w1 r1 where s: "SendMessage qlen quic_send u buf w m = Some (w1, r1)" and
    c: "sent_of w w1 [] \<and> (r1 = SendOk \<longrightarrow> MaxUDPSize < Size qlen m) \<and> ((\<exists>k. r1 = TooLarge k) \<longrightarrow> Size qlen m \<le> MaxUDPSize) \<or>
      sent_of w w1 [m] \<and> (\<nexists>k. r1 = TooLarge k)"
    using SendMessage_ok [OF L buf, of quic_send w m] by metis
  have p: "pieces qlen m [m]" using pieces.whole [of qlen m "PacketID m"] by simp
  show ?thesis
  proof (cases "\<exists>k. r1 = TooLarge k")
    case False
    then have e: "w' = w1" "r1 = SendOk" using run s by (auto simp: sendMessageAutoFrag_def split: send_result.splits)
    from c have "sent_of w w1 [] \<or> sent_of w w1 [m]" by blast
    then show ?thesis using pieces.nothing p e by (auto simp: sent_of_def intro: exI [of _ "[]"] exI [of _ "[m]"])
  next
    case True
    then obtain k where k: "r1 = TooLarge k" by blast
    obtain fs where fs: "FragUDPMessage qlen (m\<lparr>PacketID := randPacketID draw\<rparr>) k = Some fs" and
      fr: "send_frags (\<lambda>w m. the (SendMessage qlen quic_send u buf w m)) w1 fs = (w', SendOk)"
      using run s k by (auto simp: sendMessageAutoFrag_def Let_def split: option.splits)
    have w1: "sent_of w w1 []" and sz: "Size qlen m \<le> MaxUDPSize" using c True by auto
    have p: "pieces qlen m fs" by (rule FragUDPMessage_pieces [OF fs])
    then have "\<forall>f \<in> set fs. Size qlen f \<le> MaxUDPSize" using pieces_fields(4) [OF p d] sz by fastforce
    from send_frags_ok [OF L buf this fr] obtain j where "sent_of w1 w' (take j fs)" "length fs \<le> j" by blast
    then have "sent_of w w' fs" using sent_of_trans [OF w1] by simp
    then show ?thesis using p by (auto simp: sent_of_def)
  qed
qed

lemma server_to_client:
  assumes L: "uio_TrafficLogger u = Some (recording L)" and buf: "length buf = MaxUDPSize"
    and m: "1 \<le> length (Addr m)" "length (Addr m) \<le> MaxMessageLength" "Data m \<noteq> []" "FragID m = 0" "FragCount m = 1"
    and run: "sendMessageAutoFrag qlen (\<lambda>w m. the (SendMessage qlen quic_send u buf w m)) draw w m = Some (w', SendOk)"
    and ds: "iw_sent w' = iw_sent w @ ds" "ds \<noteq> []"
    and inv: "defrag_inv (uc_D c)" and idx: "distinct is" "set is = {..<length ds}"
  shows "\<exists>ms. map (ParseUDPMessage qparse) ds = map Inr ms \<and>
    (fresh_for (uc_D c) ms \<longrightarrow>
       (\<exists>c'. Receive (c\<lparr>uc_ReceiveCh := map (\<lambda>i. ms ! i) is\<rparr>) = Some (c', Received (Data m) (Addr m))))"
proof -
  obtain ms where ms: "pieces qlen m ms" "ds = map wire_of ms"
    using autofrag_pieces [OF L buf m(3) run] ds(1) by auto
  have "map (ParseUDPMessage qparse) ds = map Inr ms" using pieces_parse [OF ms(1) m(1-3)] ms(2) by simp
  moreover have "\<exists>c'. Receive (c\<lparr>uc_ReceiveCh := map (\<lambda>i. ms ! i) is\<rparr>) = Some (c', Received (Data m) (Addr m))"
    if fresh: "fresh_for (uc_D c) ms"
  proof -
    have i: "set is \<subseteq> {..<length ms}" "ms \<noteq> [] \<and> set is = {..<length ms}" using idx(2) ds(2) ms(2) by auto
    obtain d' rs p where "feed_all (uc_D c) (map (\<lambda>i. ms ! i) is) = Some (d', rs)" "outputs rs = [m\<lparr>PacketID := p\<rparr>]"
      using pieces_defragmented [OF ms(1) m(4,5) inv fresh idx(1) i(1)] by (simp only: i(2) simp_thms if_True) blast
    then show ?thesis using Receive_outputs [of "c\<lparr>uc_ReceiveCh := map (\<lambda>i. ms ! i) is\<rparr>" d' rs "m\<lparr>PacketID := p\<rparr>"]
      by simp
  qed
  ultimately show ?thesis by blast
qed

end




end
