(* ===== verification/Obfs.thy ===== *)
theory Obfs
  imports Hy_Prelude
begin

text \<open>
  \<open>extras/obfs/salamander.go\<close> and \<open>extras/obfs/conn.go\<close>: the Salamander obfuscator and the packet
  connection that applies an obfuscator to every datagram.  BLAKE2b is not under the repository:
  the hash is the argument \<open>hash\<close> of the definitions, of which the code relies on the length of its
  result only.  Salts are the argument that stands for the random source.
\<close>

section \<open>Salamander\<close>

definition smPSKMinLen :: nat where "smPSKMinLen = 4"
definition smSaltLen :: nat where "smSaltLen = 8"
definition smKeyLen :: nat where "smKeyLen = 32"

record salamander =
  sm_PSK :: bytes
  sm_keyInput :: bytes

definition newSalamander :: "bytes \<Rightarrow> salamander option" where
  "newSalamander psk =
     (if length psk < smPSKMinLen then None
      else (let keyInput = replicate (length psk + smSaltLen) 0
            in case copy_at keyInput 0 psk of
                 None \<Rightarrow> None
               | Some (keyInput, n) \<Rightarrow> Some \<lparr>sm_PSK = psk, sm_keyInput = keyInput\<rparr>))"

text \<open>The key; a panic is \<open>None\<close>.\<close>

definition keyLocked :: "(bytes \<Rightarrow> bytes) \<Rightarrow> salamander \<Rightarrow> bytes \<Rightarrow> (salamander \<times> bytes) option" where
  "keyLocked hash s salt =
     (if length salt < smSaltLen then None
      else (case copy_at (sm_keyInput s) (length (sm_PSK s)) (take smSaltLen salt) of
              None \<Rightarrow> None
            | Some (keyInput, n) \<Rightarrow> Some (s\<lparr>sm_keyInput := keyInput\<rparr>, hash keyInput)))"

text \<open>The loop of both directions.\<close>

definition xor_key :: "bytes \<Rightarrow> bytes \<Rightarrow> bytes" where
  "xor_key key b = map2 (\<lambda>i c. xor c (key ! (i mod smKeyLen))) [0..<length b] b"

text \<open>Both return what they leave in \<open>out\<close> and how many bytes of it count.\<close>

definition Obfuscate ::
  "(bytes \<Rightarrow> bytes) \<Rightarrow> bytes \<Rightarrow> salamander \<Rightarrow> bytes \<Rightarrow> bytes \<Rightarrow> (salamander \<times> bytes \<times> nat) option" where
  "Obfuscate hash salt s inp out =
     (let outLen = length inp + smSaltLen
      in if length out < outLen then Some (s, out, 0)
         else (case put_at out 0 (take smSaltLen salt) of
                 None \<Rightarrow> None
               | Some out \<Rightarrow>
                   (case keyLocked hash s (take smSaltLen out) of
                      None \<Rightarrow> None
                    | Some (s, key) \<Rightarrow>
                        map_option (\<lambda>out. (s, out, outLen)) (put_at out smSaltLen (xor_key key inp)))))"

definition Deobfuscate ::
  "(bytes \<Rightarrow> bytes) \<Rightarrow> salamander \<Rightarrow> bytes \<Rightarrow> bytes \<Rightarrow> (salamander \<times> bytes \<times> nat) option" where
  "Deobfuscate hash s inp out =
     (if length inp \<le> smSaltLen \<or> length out < length inp - smSaltLen then Some (s, out, 0)
      else (case keyLocked hash s (take smSaltLen inp) of
              None \<Rightarrow> None
            | Some (s, key) \<Rightarrow>
                map_option (\<lambda>out. (s, out, length inp - smSaltLen))
                  (put_at out 0 (xor_key key (drop smSaltLen inp)))))"

section \<open>The packet connection\<close>

definition udpBufferSize :: nat where "udpBufferSize = 2048"

record obfsConn =
  oc_Obfs :: salamander
  oc_readBuf :: bytes
  oc_writeBuf :: bytes

definition wrapPacketConn :: "salamander \<Rightarrow> obfsConn" where
  "wrapPacketConn ob = \<lparr>oc_Obfs = ob, oc_readBuf = replicate udpBufferSize 0, oc_writeBuf = replicate udpBufferSize 0\<rparr>"

definition WrapPacketConnSalamander :: "bytes \<Rightarrow> obfsConn option" where
  "WrapPacketConnSalamander psk = map_option wrapPacketConn (newSalamander psk)"

text \<open>
  \<open>WriteTo\<close>: the datagram that the inner connection gets, whatever it answers; the caller is told that
  all of \<open>p\<close> was written if it answers without an error.
\<close>

definition obfs_WriteTo ::
  "(bytes \<Rightarrow> bytes) \<Rightarrow> bytes \<Rightarrow> obfsConn \<Rightarrow> bytes \<Rightarrow> (obfsConn \<times> bytes) option" where
  "obfs_WriteTo hash salt c p =
     (case Obfuscate hash salt (oc_Obfs c) p (oc_writeBuf c) of
        None \<Rightarrow> None
      | Some (s, buf, nn) \<Rightarrow> Some (c\<lparr>oc_Obfs := s, oc_writeBuf := buf\<rparr>, take nn buf))"

text \<open>
  \<open>ReadFrom\<close> on the answers of the inner connection: each is what it read (the socket cuts it to the
  buffer), from where, and an error.  The result is what lands in the caller's buffer \<open>p\<close>, of which
  only the length matters, and the answers not yet consumed; \<open>None\<close> a reader that still waits.
\<close>

type_synonym packet = "bytes \<times> string \<times> string option"

fun obfs_ReadFrom ::
  "(bytes \<Rightarrow> bytes) \<Rightarrow> obfsConn \<Rightarrow> bytes \<Rightarrow> packet list \<Rightarrow> (obfsConn \<times> packet \<times> packet list) option" where
  "obfs_ReadFrom hash c p [] = None"
| "obfs_ReadFrom hash c p ((d, addr, err) # rest) =
     (let d = take udpBufferSize d;
          c = c\<lparr>oc_readBuf := d @ drop (length d) (oc_readBuf c)\<rparr>
      in if d = [] then Some (c, ([], addr, err), rest)
         else (case Deobfuscate hash (oc_Obfs c) (take (length d) (oc_readBuf c)) p of
                 None \<Rightarrow> None
               | Some (s, out, n) \<Rightarrow>
                   (let c = c\<lparr>oc_Obfs := s\<rparr>
                    in if n > 0 \<or> err \<noteq> None then Some (c, (take n out, addr, err), rest)
                       else obfs_ReadFrom hash c p rest)))"

section \<open>Round trips\<close>

text \<open>A Salamander obfuscator as it is kept: its key buffer starts with the pre-shared key.\<close>

definition sm_ok :: "bytes \<Rightarrow> salamander \<Rightarrow> bool" where
  "sm_ok psk s \<longleftrightarrow> sm_PSK s = psk \<and> take (length psk) (sm_keyInput s) = psk \<and>
     length (sm_keyInput s) = length psk + smSaltLen"

lemma newSalamander_ok: "newSalamander psk = Some s \<Longrightarrow> sm_ok psk s"
  by (auto simp: newSalamander_def copy_at_def sm_ok_def Let_def split: if_splits)

lemma keyLocked_ok:
  assumes "sm_ok psk s" "smSaltLen \<le> length salt"
  obtains s' where "keyLocked hash s salt = Some (s', hash (psk @ take smSaltLen salt))" "sm_ok psk s'"
proof -
  have "copy_at (sm_keyInput s) (length psk) (take smSaltLen salt) = Some (psk @ take smSaltLen salt, smSaltLen)"
    using assms by (simp add: copy_at_def sm_ok_def)
  then show ?thesis using assms
    by (intro that [of "s\<lparr>sm_keyInput := psk @ take smSaltLen salt\<rparr>"]) (simp_all add: keyLocked_def sm_ok_def)
qed

lemma length_xor_key [simp]: "length (xor_key key b) = length b"
  by (simp add: xor_key_def)

lemma xor_key_invol: "xor_key key (xor_key key b) = b"
  by (rule nth_equalityI) (simp_all add: xor_key_def flip: xor.assoc, simp add: xor.assoc)

text \<open>What a packet looks like on the wire.\<close>

definition sm_wire :: "(bytes \<Rightarrow> bytes) \<Rightarrow> bytes \<Rightarrow> bytes \<Rightarrow> bytes \<Rightarrow> bytes" where
  "sm_wire hash psk salt p = salt @ xor_key (hash (psk @ salt)) p"

lemma Obfuscate_wire:
  assumes "sm_ok psk s" "length salt = smSaltLen" "length p + smSaltLen \<le> length out"
  obtains s' out' where "Obfuscate hash salt s p out = Some (s', out', length p + smSaltLen)" "sm_ok psk s'"
    "take (length p + smSaltLen) out' = sm_wire hash psk salt p" "length out' = length out"
proof -
  obtain s' where k: "keyLocked hash s salt = Some (s', hash (psk @ salt))" "sm_ok psk s'"
    using keyLocked_ok [OF assms(1), of salt] assms(2) by auto
  have 1: "put_at out 0 (take smSaltLen salt) = Some (salt @ drop smSaltLen out)"
    using assms(2,3) by (simp add: put_at_def)
  have 2: "put_at (salt @ drop smSaltLen out) smSaltLen (xor_key (hash (psk @ salt)) p) =
      Some (salt @ xor_key (hash (psk @ salt)) p @ drop (smSaltLen + length p) out)"
    using assms(2,3) by (simp add: put_at_def add.commute)
  show ?thesis
    by (rule that [of s' "salt @ xor_key (hash (psk @ salt)) p @ drop (smSaltLen + length p) out"])
      (use assms k 1 2 in \<open>simp_all add: Obfuscate_def sm_wire_def\<close>)
qed

lemma Deobfuscate_wire:
  assumes "sm_ok psk s" "length salt = smSaltLen" "p \<noteq> []" "length p \<le> length out"
  obtains s' out' where "Deobfuscate hash s (sm_wire hash psk salt p) out = Some (s', out', length p)" "sm_ok psk s'"
    "take (length p) out' = p"
proof -
  obtain s' where k: "keyLocked hash s salt = Some (s', hash (psk @ salt))" "sm_ok psk s'"
    using keyLocked_ok [OF assms(1), of salt] assms(2) by auto
  have "put_at out 0 p = Some (p @ drop (length p) out)" using assms(4) by (simp add: put_at_def)
  then show ?thesis
    by (intro that [of s' "p @ drop (length p) out"])
      (use assms k in \<open>simp_all add: Deobfuscate_def sm_wire_def xor_key_invol\<close>)
qed

section \<open>The connection is transparent\<close>

definition obfs_ok :: "bytes \<Rightarrow> obfsConn \<Rightarrow> bool" where
  "obfs_ok psk c \<longleftrightarrow> sm_ok psk (oc_Obfs c) \<and> length (oc_readBuf c) = udpBufferSize \<and> length (oc_writeBuf c) = udpBufferSize"

text \<open>A packet the buffers can take.\<close>

definition obfs_fits :: "bytes \<Rightarrow> bool" where
  "obfs_fits p \<longleftrightarrow> p \<noteq> [] \<and> length p + smSaltLen \<le> udpBufferSize"

lemma WrapPacketConnSalamander_ok: "WrapPacketConnSalamander psk = Some c \<Longrightarrow> obfs_ok psk c"
  by (auto simp: WrapPacketConnSalamander_def wrapPacketConn_def obfs_ok_def dest: newSalamander_ok)

lemma obfs_WriteTo_wire:
  assumes "obfs_ok psk c" "length salt = smSaltLen" "obfs_fits p"
  obtains c' where "obfs_WriteTo hash salt c p = Some (c', sm_wire hash psk salt p)" "obfs_ok psk c'"
proof -
  have "length p + smSaltLen \<le> length (oc_writeBuf c)" using assms by (simp add: obfs_ok_def obfs_fits_def)
  then obtain s' out' where o: "Obfuscate hash salt (oc_Obfs c) p (oc_writeBuf c) = Some (s', out', length p + smSaltLen)"
    "sm_ok psk s'" "take (length p + smSaltLen) out' = sm_wire hash psk salt p" "length out' = length (oc_writeBuf c)"
    using Obfuscate_wire [of psk "oc_Obfs c" salt p "oc_writeBuf c" hash] assms by (auto simp: obfs_ok_def)
  show ?thesis
    by (rule that [of "c\<lparr>oc_Obfs := s', oc_writeBuf := out'\<rparr>"])
      (use o assms(1) in \<open>simp_all add: obfs_WriteTo_def obfs_ok_def\<close>)
qed

lemma obfs_ReadFrom_wire:
  assumes "obfs_ok psk c" "length salt = smSaltLen" "obfs_fits p" "length p \<le> length buf"
  obtains c' where "obfs_ReadFrom hash c buf ((sm_wire hash psk salt p, addr, err) # rest) = Some (c', (p, addr, err), rest)"
    "obfs_ok psk c'"
proof -
  let ?d = "sm_wire hash psk salt p"
  have ld: "length ?d = length p + smSaltLen" using assms(2) by (simp add: sm_wire_def)
  then have d: "take udpBufferSize ?d = ?d" "?d \<noteq> []" using assms(3) by (auto simp: obfs_fits_def)
  obtain s' out' where o: "Deobfuscate hash (oc_Obfs c) ?d buf = Some (s', out', length p)" "sm_ok psk s'"
    "take (length p) out' = p"
    using Deobfuscate_wire [of psk "oc_Obfs c" salt p buf hash] assms by (auto simp: obfs_ok_def obfs_fits_def)
  show ?thesis
    by (rule that [of "c\<lparr>oc_Obfs := s', oc_readBuf := ?d @ drop (length ?d) (oc_readBuf c)\<rparr>"])
      (use o d assms ld in \<open>simp_all add: Let_def obfs_ok_def obfs_fits_def\<close>)
qed

text \<open>Writes one after the other, each with its salt; reads until the answers are used up.\<close>

fun obfs_writes :: "(bytes \<Rightarrow> bytes) \<Rightarrow> obfsConn \<Rightarrow> (bytes \<times> bytes) list \<Rightarrow> (obfsConn \<times> bytes list) option" where
  "obfs_writes hash c [] = Some (c, [])"
| "obfs_writes hash c ((salt, p) # ps) =
     (case obfs_WriteTo hash salt c p of
        None \<Rightarrow> None
      | Some (c, d) \<Rightarrow> map_option (\<lambda>(c, ds). (c, d # ds)) (obfs_writes hash c ps))"

fun obfs_reads :: "(bytes \<Rightarrow> bytes) \<Rightarrow> obfsConn \<Rightarrow> bytes \<Rightarrow> nat \<Rightarrow> packet list \<Rightarrow> packet list" where
  "obfs_reads hash c p 0 dgs = []"
| "obfs_reads hash c p (Suc k) dgs =
     (case obfs_ReadFrom hash c p dgs of
        None \<Rightarrow> []
      | Some (c, r, rest) \<Rightarrow> r # obfs_reads hash c p k rest)"

lemma obfs_writes_wire:
  assumes "obfs_ok psk c" "\<forall>(salt, p) \<in> set sps. length salt = smSaltLen \<and> obfs_fits p"
  obtains c' where "obfs_writes hash c sps = Some (c', map (\<lambda>(salt, p). sm_wire hash psk salt p) sps)" "obfs_ok psk c'"
proof -
  have "\<exists>c'. obfs_writes hash c sps = Some (c', map (\<lambda>(salt, p). sm_wire hash psk salt p) sps) \<and> obfs_ok psk c'"
    using assms
  proof (induction sps arbitrary: c)
    case (Cons sp sps)
    obtain salt p where sp: "sp = (salt, p)" by fastforce
    obtain c1 where "obfs_WriteTo hash salt c p = Some (c1, sm_wire hash psk salt p)" "obfs_ok psk c1"
      using obfs_WriteTo_wire [OF Cons.prems(1), of salt p hash] Cons.prems(2) sp by auto
    moreover obtain c' where "obfs_writes hash c1 sps = Some (c', map (\<lambda>(salt, p). sm_wire hash psk salt p) sps)"
      "obfs_ok psk c'" using Cons.IH [OF calculation(2)] Cons.prems(2) by auto
    ultimately show ?case by (simp add: sp)
  qed simp
  then show ?thesis using that by blast
qed

lemma obfs_reads_wire:
  assumes "obfs_ok psk c" "\<forall>(salt, p) \<in> set sps. length salt = smSaltLen \<and> obfs_fits p \<and> length p \<le> length buf"
  shows "obfs_reads hash c buf (length sps) (map (\<lambda>(salt, p). (sm_wire hash psk salt p, addr, None)) sps) =
    map (\<lambda>(salt, p). (p, addr, None)) sps"
  using assms
proof (induction sps arbitrary: c)
  case (Cons sp sps)
  obtain salt p where sp: "sp = (salt, p)" by fastforce
  obtain c1 where "obfs_ReadFrom hash c buf ((sm_wire hash psk salt p, addr, None) #
      map (\<lambda>(salt, p). (sm_wire hash psk salt p, addr, None)) sps) =
      Some (c1, (p, addr, None), map (\<lambda>(salt, p). (sm_wire hash psk salt p, addr, None)) sps)" "obfs_ok psk c1"
    by (rule obfs_ReadFrom_wire [OF Cons.prems(1), of salt p buf]) (use Cons.prems(2) sp in auto)
  then show ?case using Cons.IH [of c1] Cons.prems(2) by (simp add: sp)
qed simp

text \<open>
  C26: Two ends with the same pre-shared key are transparent, whatever the hash, the salts, and however
  often they have been used: packets of 1 to 2040 bytes written at one end are read unchanged at the
  other, in the order in which the network delivers them, lost and repeated ones included, and no
  write or read panics.
\<close>

theorem obfs_transparent:
  assumes "obfs_ok psk a" "obfs_ok psk b" "length salts = length ps"
    and "\<forall>salt \<in> set salts. length salt = smSaltLen" "\<forall>p \<in> set ps. obfs_fits p \<and> length p \<le> length buf"
    and "\<forall>i \<in> set is. i < length ps"
  shows "\<exists>a' ds. obfs_writes hash a (zip salts ps) = Some (a', ds) \<and> obfs_ok psk a' \<and>
    obfs_reads hash b buf (length is) (map (\<lambda>i. (ds ! i, addr, None)) is) = map (\<lambda>i. (ps ! i, addr, None)) is"
proof -
  let ?sps = "zip salts ps"
  have z: "\<forall>(salt, p) \<in> set ?sps. length salt = smSaltLen \<and> obfs_fits p \<and> length p \<le> length buf"
    using assms(4,5) by (auto dest: set_zip_leftD set_zip_rightD)
  obtain a' where a: "obfs_writes hash a ?sps = Some (a', map (\<lambda>(salt, p). sm_wire hash psk salt p) ?sps)" "obfs_ok psk a'"
    by (rule obfs_writes_wire [OF assms(1), of ?sps hash]) (use z in auto)
  let ?ds = "map (\<lambda>(salt, p). sm_wire hash psk salt p) ?sps"
  have "\<forall>(salt, p) \<in> set (map (\<lambda>i. (salts ! i, ps ! i)) is). length salt = smSaltLen \<and> obfs_fits p \<and> length p \<le> length buf"
    using assms(3-6) by auto
  note obfs_reads_wire [OF assms(2) this, of hash addr]
  moreover have "map (\<lambda>(salt, p). (sm_wire hash psk salt p, addr, None)) (map (\<lambda>i. (salts ! i, ps ! i)) is) =
      map (\<lambda>i. (?ds ! i, addr, None :: string option)) is" using assms(3,6) by simp
  moreover have "map (\<lambda>(salt, p). (p, addr, None)) (map (\<lambda>i. (salts ! i, ps ! i)) is) =
      map (\<lambda>i. (ps ! i, addr, None :: string option)) is" by simp
  ultimately have "obfs_reads hash b buf (length is) (map (\<lambda>i. (?ds ! i, addr, None)) is) = map (\<lambda>i. (ps ! i, addr, None)) is"
    by (simp only: length_map)
  with a show ?thesis by blast
qed

text \<open>A toy hash of 32 bytes; two packets of which the second arrives first, and twice.\<close>

definition toy_hash :: "bytes \<Rightarrow> bytes" where
  "toy_hash b = map (\<lambda>i. of_nat (i + length b) + hd b) [0..<32]"

lemma obfs_transparent_witness:
  "\<exists>c a' ds. WrapPacketConnSalamander [1, 2, 3, 4] = Some c \<and>
     obfs_writes toy_hash c [(replicate 8 7, [10, 20]), (replicate 8 9, [30])] = Some (a', ds) \<and>
     obfs_reads toy_hash c (replicate 4 0) 3 [(ds ! 1, ''a'', None), (ds ! 0, ''a'', None), (ds ! 1, ''a'', None)] =
       [([30], ''a'', None), ([10, 20], ''a'', None), ([30], ''a'', None)]"
proof -
  obtain c where c: "WrapPacketConnSalamander [1, 2, 3, 4] = Some c"
    by (simp add: WrapPacketConnSalamander_def newSalamander_def copy_at_def smPSKMinLen_def Let_def)
  note ok = WrapPacketConnSalamander_ok [OF c]
  obtain a' ds where "obfs_writes toy_hash c (zip [replicate 8 7, replicate 8 9] [[10, 20], [30]]) = Some (a', ds)"
    "obfs_reads toy_hash c (replicate 4 0) (length [1, 0, 1 :: nat]) (map (\<lambda>i. (ds ! i, ''a'', None)) [1, 0, 1]) =
      map (\<lambda>i. ([[10, 20], [30]] ! i, ''a'', None)) [1, 0, 1]"
    using obfs_transparent [OF ok ok, of "[replicate 8 7, replicate 8 9]" "[[10, 20], [30]]" "replicate 4 0" "[1, 0, 1]"
        toy_hash "''a''"] by (auto simp: smSaltLen_def obfs_fits_def udpBufferSize_def)
  then show ?thesis using c by (auto simp: numeral_3_eq_3)
qed

text \<open>A packet that does not fit is not sent: an empty datagram goes out in its place, and without an error.\<close>

lemma obfs_WriteTo_too_large:
  "obfs_ok psk c \<Longrightarrow> udpBufferSize < length p + smSaltLen \<Longrightarrow> \<exists>c'. obfs_WriteTo hash salt c p = Some (c', [])"
  by (simp add: obfs_WriteTo_def Obfuscate_def obfs_ok_def)

end
