(* ===== verification/Gecko.thy ===== *)
theory Gecko
  imports Obfs "HOL-Library.AList" "HOL-Library.Monad_Syntax"
begin

text \<open>
  \<open>extras/obfs/gecko_frame.go\<close> and \<open>extras/obfs/gecko.go\<close>: the Gecko shape obfuscation above
  Salamander.  Packets with QUIC's long header are cut into 2 to 8 randomly padded chunks, each in a
  frame of its own; the receiver reassembles them by source address and message id, with a cap per
  source, a cap on the whole table that evicts the oldest entry, and a time limit.

  Randomness is an argument: the 32-bit numbers that \<open>randIntn\<close> draws, and the padding bytes
  (\<open>None\<close> where \<open>rand.Read\<close> fails).  Times are nanoseconds.  Where the code iterates over a map, the
  order is an argument, or does not matter.
\<close>

section \<open>Frames\<close>

definition geckoFlagFragment :: byte where "geckoFlagFragment = 0x80"
definition geckoHeaderSize :: nat where "geckoHeaderSize = 5"
definition geckoMinFragmentChunks :: nat where "geckoMinFragmentChunks = 2"
definition geckoMaxFragmentChunks :: nat where "geckoMaxFragmentChunks = 8"

datatype frame_error = FrameTruncated | FrameInvalid | RandError

record frameHeader =
  fh_padLen :: u16
  fh_msgID :: byte
  fh_chunkIdx :: byte
  fh_totalChunks :: byte

definition encodeFrame ::
  "(nat \<Rightarrow> byte) option \<Rightarrow> frameHeader \<Rightarrow> bytes \<Rightarrow> bytes \<Rightarrow> (frame_error + bytes \<times> nat) option" where
  "encodeFrame rnd h payload out =
     (if unat (fh_totalChunks h) < geckoMinFragmentChunks \<or> unat (fh_totalChunks h) > geckoMaxFragmentChunks
      then Some (Inl FrameInvalid)
      else if fh_chunkIdx h \<ge> fh_totalChunks h then Some (Inl FrameInvalid)
      else
        (let pad = unat (fh_padLen h); needed = geckoHeaderSize + pad + length payload
         in if length out < needed then Some (Inl FrameTruncated)
            else do {
              out \<leftarrow> put_at out 0 [geckoFlagFragment];
              out \<leftarrow> put_at out 1 [fh_msgID h];
              out \<leftarrow> put_at out 2 [or (push_bit 4 (fh_chunkIdx h)) (and (fh_totalChunks h) 0x0f)];
              out \<leftarrow> put_at out 3 (be16 (fh_padLen h));
              (case rnd of
                 None \<Rightarrow> Some (Inl RandError)
               | Some r \<Rightarrow> do {
                   out \<leftarrow> put_at out geckoHeaderSize (map r [0..<pad]);
                   (out, n) \<leftarrow> copy_at out (geckoHeaderSize + pad) payload;
                   Some (Inr (out, needed))
                 })
            }))"

definition decodeFrame :: "bytes \<Rightarrow> frame_error + frameHeader \<times> bytes" where
  "decodeFrame inp =
     (if length inp < geckoHeaderSize then Inl FrameTruncated
      else if and (inp ! 0) geckoFlagFragment = 0 then Inl FrameInvalid
      else
        (let h = \<lparr>fh_padLen = un_be16 (inp ! 3) (inp ! 4), fh_msgID = inp ! 1,
                  fh_chunkIdx = drop_bit 4 (inp ! 2), fh_totalChunks = and (inp ! 2) 0x0f\<rparr>
         in if unat (fh_totalChunks h) < geckoMinFragmentChunks \<or> unat (fh_totalChunks h) > geckoMaxFragmentChunks
            then Inl FrameInvalid
            else if fh_chunkIdx h \<ge> fh_totalChunks h then Inl FrameInvalid
            else if geckoHeaderSize + unat (fh_padLen h) > length inp then Inl FrameTruncated
            else Inr (h, drop (geckoHeaderSize + unat (fh_padLen h)) inp)))"

section \<open>State\<close>

definition geckoReassemblyTTL :: int where "geckoReassemblyTTL = 8 * 1000000000"
definition geckoMaxReassembly :: nat where "geckoMaxReassembly = 4096"
definition geckoMaxPerSource :: int where "geckoMaxPerSource = 8"
definition geckoBufferSize :: nat where "geckoBufferSize = 2048"
definition geckoDefaultMinPacket :: int where "geckoDefaultMinPacket = 512"
definition geckoDefaultMaxPacket :: int where "geckoDefaultMaxPacket = 1200"

type_synonym reassemblyKey = "string \<times> byte"

record reassemblyEntry =
  re_chunks :: "bytes option list"
  re_received :: nat
  re_total :: byte
  re_deadline :: int

record gecko =
  gk_minPkt :: int
  gk_maxPkt :: int
  gk_msgID :: u32
  gk_reassembly :: "(reassemblyKey \<times> reassemblyEntry) list"
  gk_perSource :: "string \<Rightarrow> int option"

definition newGeckoPacketConn :: "int \<Rightarrow> int \<Rightarrow> gecko" where
  "newGeckoPacketConn minPkt maxPkt =
     \<lparr>gk_minPkt = minPkt, gk_maxPkt = maxPkt, gk_msgID = 0, gk_reassembly = [], gk_perSource = Map.empty\<rparr>"

definition WrapPacketConnGecko :: "bytes \<Rightarrow> int \<Rightarrow> int \<Rightarrow> string + obfsConn \<times> gecko" where
  "WrapPacketConnGecko password MinPacketSize MaxPacketSize =
     (if password = [] then Inl ''gecko: password is required''
      else
        (let minPkt = (if MinPacketSize = 0 then geckoDefaultMinPacket else MinPacketSize);
             maxPkt = (if MaxPacketSize = 0 then geckoDefaultMaxPacket else MaxPacketSize)
         in if minPkt \<le> 0 \<or> minPkt > maxPkt \<or> maxPkt > int geckoBufferSize
            then Inl ''gecko: invalid min/max packet size''
            else (case WrapPacketConnSalamander password of
                    None \<Rightarrow> Inl ''PSK must be at least 4 bytes''
                  | Some inner \<Rightarrow> Inr (inner, newGeckoPacketConn minPkt maxPkt))))"

section \<open>Sending\<close>

definition randIntn :: "int \<Rightarrow> u32 \<Rightarrow> int" where
  "randIntn n draw = (if n \<le> 1 then 0 else uint draw mod n)"

definition randomFragmentChunks :: "u32 \<Rightarrow> nat" where
  "randomFragmentChunks draw =
     geckoMinFragmentChunks + nat (randIntn (int geckoMaxFragmentChunks - int geckoMinFragmentChunks + 1) draw)"

definition randomPadLen :: "gecko \<Rightarrow> nat \<Rightarrow> u32 \<Rightarrow> u16" where
  "randomPadLen g chunkLen draw =
     (let base = int (smSaltLen + geckoHeaderSize + chunkLen);
          lo = max (gk_minPkt g) base
      in if lo > gk_maxPkt g then 0
         else word_of_int (lo - base + randIntn (gk_maxPkt g - lo + 1) draw))"

text \<open>
  The inner connection's \<open>WriteTo\<close> is state passing, with an error or not; a panic is \<open>None\<close>.  The
  loop over the chunks, which are given with their indices.
\<close>

fun write_chunks ::
  "('s \<Rightarrow> bytes \<Rightarrow> ('s \<times> string option) option) \<Rightarrow> (nat \<Rightarrow> u32) \<Rightarrow> (nat \<Rightarrow> (nat \<Rightarrow> byte) option) \<Rightarrow> gecko
     \<Rightarrow> byte \<Rightarrow> nat \<Rightarrow> 's \<Rightarrow> (nat \<times> bytes) list \<Rightarrow> ('s \<times> string option) option" where
  "write_chunks inner draws rnd g msgID chunks s [] = Some (s, None)"
| "write_chunks inner draws rnd g msgID chunks s ((i, chunk) # rest) =
     (let padLen = randomPadLen g (length chunk) (draws i);
          buf = replicate (geckoHeaderSize + unat padLen + length chunk) 0
      in case encodeFrame (rnd i) \<lparr>fh_padLen = padLen, fh_msgID = msgID, fh_chunkIdx = word_of_nat i,
                fh_totalChunks = word_of_nat chunks\<rparr> chunk buf of
           None \<Rightarrow> None
         | Some (Inl err) \<Rightarrow> Some (s, Some ''gecko frame'')
         | Some (Inr (buf, n)) \<Rightarrow>
             (case inner s (take n buf) of
                None \<Rightarrow> None
              | Some (s, Some err) \<Rightarrow> Some (s, Some err)
              | Some (s, None) \<Rightarrow> write_chunks inner draws rnd g msgID chunks s rest))"

definition chunk_list :: "bytes \<Rightarrow> nat \<Rightarrow> (nat \<times> bytes) list" where
  "chunk_list p chunks =
     (let chunkSize = length p div chunks
      in map (\<lambda>i. (i, let start = i * chunkSize;
                          end' = (if i < chunks - 1 then start + chunkSize else length p)
                      in drop start (take end' p))) [0..<chunks])"

definition writeFragmented ::
  "('s \<Rightarrow> bytes \<Rightarrow> ('s \<times> string option) option) \<Rightarrow> u32 \<Rightarrow> (nat \<Rightarrow> u32) \<Rightarrow> (nat \<Rightarrow> (nat \<Rightarrow> byte) option)
     \<Rightarrow> gecko \<Rightarrow> 's \<Rightarrow> bytes \<Rightarrow> (gecko \<times> 's \<times> nat \<times> string option) option" where
  "writeFragmented inner draw draws rnd g s p =
     (let chunks = randomFragmentChunks draw;
          g = g\<lparr>gk_msgID := gk_msgID g + 1\<rparr>;
          msgID = ucast (gk_msgID g)
      in case write_chunks inner draws rnd g msgID chunks s (chunk_list p chunks) of
           None \<Rightarrow> None
         | Some (s, Some err) \<Rightarrow> Some (g, s, 0, Some err)
         | Some (s, None) \<Rightarrow> Some (g, s, length p, None))"

definition gecko_WriteTo ::
  "('s \<Rightarrow> bytes \<Rightarrow> ('s \<times> string option) option) \<Rightarrow> u32 \<Rightarrow> (nat \<Rightarrow> u32) \<Rightarrow> (nat \<Rightarrow> (nat \<Rightarrow> byte) option)
     \<Rightarrow> gecko \<Rightarrow> 's \<Rightarrow> bytes \<Rightarrow> (gecko \<times> 's \<times> nat \<times> string option) option" where
  "gecko_WriteTo inner draw draws rnd g s p =
     (case p of
        [] \<Rightarrow> Some (g, s, 0, None)
      | b # _ \<Rightarrow>
          if and b 0x80 \<noteq> 0 then writeFragmented inner draw draws rnd g s p
          else (case inner s p of
                  None \<Rightarrow> None
                | Some (s, err) \<Rightarrow> Some (g, s, if err = None then length p else 0, err)))"

section \<open>Receiving\<close>

definition dropEntryLocked :: "reassemblyKey \<Rightarrow> gecko \<Rightarrow> gecko" where
  "dropEntryLocked k g =
     (case map_of (gk_reassembly g) k of
        None \<Rightarrow> g
      | Some _ \<Rightarrow>
          (let n = (case gk_perSource g (fst k) of None \<Rightarrow> 0 | Some n \<Rightarrow> n) - 1
           in g\<lparr>gk_reassembly := AList.delete k (gk_reassembly g),
                gk_perSource := (gk_perSource g)(fst k := if n \<le> 0 then None else Some n)\<rparr>))"

text \<open>The oldest entry; of several, the iteration order \<open>pick\<close> decides.\<close>

definition evictOldestLocked :: "nat \<Rightarrow> gecko \<Rightarrow> gecko" where
  "evictOldestLocked pick g =
     (let r = gk_reassembly g;
          oldest = filter (\<lambda>(k, e). list_all (\<lambda>(k', e'). re_deadline e \<le> re_deadline e') r) r
      in if r = [] then g else dropEntryLocked (fst (oldest ! (pick mod length oldest))) g)"

text \<open>The entry that a frame belongs to, made if there is none; \<open>None\<close> where the frame is dropped.\<close>

definition find_entry :: "int \<Rightarrow> nat \<Rightarrow> gecko \<Rightarrow> reassemblyKey \<Rightarrow> frameHeader \<Rightarrow> gecko \<times> reassemblyEntry option" where
  "find_entry now pick g key h =
     (case map_of (gk_reassembly g) key of
        None \<Rightarrow>
          if (case gk_perSource g (fst key) of None \<Rightarrow> 0 | Some n \<Rightarrow> n) \<ge> geckoMaxPerSource then (g, None)
          else
            (let g = (if length (gk_reassembly g) \<ge> geckoMaxReassembly then evictOldestLocked pick g else g);
                 e = \<lparr>re_chunks = replicate (unat (fh_totalChunks h)) None, re_received = 0,
                      re_total = fh_totalChunks h, re_deadline = now + geckoReassemblyTTL\<rparr>
             in (g\<lparr>gk_reassembly := AList.update key e (gk_reassembly g),
                   gk_perSource := (gk_perSource g)(fst key :=
                     Some ((case gk_perSource g (fst key) of None \<Rightarrow> 0 | Some n \<Rightarrow> n) + 1))\<rparr>, Some e))
      | Some e \<Rightarrow> if re_total e \<noteq> fh_totalChunks h then (g, None) else (g, Some e))"

definition acceptChunk ::
  "int \<Rightarrow> nat \<Rightarrow> gecko \<Rightarrow> string \<Rightarrow> frameHeader \<Rightarrow> bytes \<Rightarrow> gecko \<times> bytes option" where
  "acceptChunk now pick g addr h payload =
     (let key = (addr, fh_msgID h)
      in case find_entry now pick g key h of
           (g, None) \<Rightarrow> (g, None)
         | (g, Some e) \<Rightarrow>
             (let i = unat (fh_chunkIdx h)
              in if i \<ge> length (re_chunks e) \<or> re_chunks e ! i \<noteq> None then (g, None)
                 else
                   (let e = e\<lparr>re_chunks := (re_chunks e)[i := Some payload], re_received := re_received e + 1\<rparr>;
                        g = g\<lparr>gk_reassembly := AList.update key e (gk_reassembly g)\<rparr>
                    in if re_received e < unat (re_total e) then (g, None)
                       else (dropEntryLocked key g,
                             Some (concat (map (\<lambda>c. case c of None \<Rightarrow> [] | Some c \<Rightarrow> c) (re_chunks e)))))))"

definition gcExpired :: "int \<Rightarrow> gecko \<Rightarrow> gecko" where
  "gcExpired now g =
     fold dropEntryLocked (map fst (filter (\<lambda>(k, e). now > re_deadline e) (gk_reassembly g))) g"

text \<open>
  One answer of the inner connection, cut to the buffer: what \<open>ReadFrom\<close> returns for it, if it does.
  The answers come with the time and the iteration order of their handling.
\<close>

definition gecko_iter :: "gecko \<Rightarrow> nat \<Rightarrow> (int \<times> nat) \<times> packet \<Rightarrow> gecko \<times> packet option" where
  "gecko_iter g plen x =
     (case x of ((now, pick), d, addr, err) \<Rightarrow>
        (let buf = take geckoBufferSize d
         in case err of
              Some e \<Rightarrow> (g, Some ([], addr, Some e))
            | None \<Rightarrow>
                if buf = [] then (g, None)
                else if and (buf ! 0) 0x80 = 0 then (g, Some (take plen buf, addr, None))
                else (case decodeFrame buf of
                        Inl _ \<Rightarrow> (g, None)
                      | Inr (h, payload) \<Rightarrow>
                          (case acceptChunk now pick g addr h payload of
                             (g, None) \<Rightarrow> (g, None)
                           | (g, Some out) \<Rightarrow> (g, Some (take plen out, addr, None))))))"

fun gecko_ReadFrom ::
  "gecko \<Rightarrow> nat \<Rightarrow> ((int \<times> nat) \<times> packet) list \<Rightarrow> (gecko \<times> packet \<times> ((int \<times> nat) \<times> packet) list) option" where
  "gecko_ReadFrom g plen [] = None"
| "gecko_ReadFrom g plen (x # xs) =
     (case gecko_iter g plen x of
        (g, Some r) \<Rightarrow> Some (g, r, xs)
      | (g, None) \<Rightarrow> gecko_ReadFrom g plen xs)"

section \<open>Frames round trip\<close>

definition fh_ok :: "frameHeader \<Rightarrow> bool" where
  "fh_ok h \<longleftrightarrow> geckoMinFragmentChunks \<le> unat (fh_totalChunks h) \<and> unat (fh_totalChunks h) \<le> geckoMaxFragmentChunks \<and>
     fh_chunkIdx h < fh_totalChunks h"

definition frame :: "(nat \<Rightarrow> byte) \<Rightarrow> frameHeader \<Rightarrow> bytes \<Rightarrow> bytes" where
  "frame r h payload = [geckoFlagFragment, fh_msgID h,
     or (push_bit 4 (fh_chunkIdx h)) (and (fh_totalChunks h) 0x0f)] @ be16 (fh_padLen h) @
     map r [0..<unat (fh_padLen h)] @ payload"

lemma length_frame: "length (frame r h payload) = geckoHeaderSize + unat (fh_padLen h) + length payload"
  by (simp add: frame_def geckoHeaderSize_def)

lemma byte_unat: "unat (w :: byte) = n \<Longrightarrow> w = word_of_nat n"
  by auto

lemma nibbles:
  assumes "fh_ok h"
  shows "drop_bit 4 (or (push_bit 4 (fh_chunkIdx h)) (and (fh_totalChunks h) 0x0f)) = fh_chunkIdx h"
    "and (or (push_bit 4 (fh_chunkIdx h)) (and (fh_totalChunks h) 0x0f)) 0x0f = fh_totalChunks h"
proof -
  have "fh_totalChunks h \<in> {2, 3, 4, 5, 6, 7, 8}"
  proof -
    have "unat (fh_totalChunks h) \<in> {2, 3, 4, 5, 6, 7, 8}"
      using assms by (auto simp: fh_ok_def geckoMinFragmentChunks_def geckoMaxFragmentChunks_def)
    then show ?thesis by (auto dest!: byte_unat)
  qed
  moreover have "fh_chunkIdx h \<in> {0, 1, 2, 3, 4, 5, 6, 7}"
  proof -
    have "unat (fh_chunkIdx h) < 8"
      using assms by (simp add: fh_ok_def geckoMaxFragmentChunks_def word_less_nat_alt)
    then have "unat (fh_chunkIdx h) \<in> {0, 1, 2, 3, 4, 5, 6, 7}" by auto
    then show ?thesis by (auto dest!: byte_unat)
  qed
  ultimately show "drop_bit 4 (or (push_bit 4 (fh_chunkIdx h)) (and (fh_totalChunks h) 0x0f)) = fh_chunkIdx h"
    "and (or (push_bit 4 (fh_chunkIdx h)) (and (fh_totalChunks h) 0x0f)) 0x0f = fh_totalChunks h"
    by auto
qed

lemma encodeFrame_frame:
  assumes "fh_ok h" "length out = geckoHeaderSize + unat (fh_padLen h) + length payload"
  shows "encodeFrame (Some r) h payload out = Some (Inr (frame r h payload, length out))"
proof -
  obtain b0 b1 b2 b3 b4 rest where out: "out = b0 # b1 # b2 # b3 # b4 # rest"
    "length rest = unat (fh_padLen h) + length payload"
    using assms(2) by (auto simp: geckoHeaderSize_def length_Suc_conv numeral_eq_Suc)
  define b where "b = or (push_bit 4 (fh_chunkIdx h)) (and (fh_totalChunks h) 0x0f)"
  define pad where "pad = map r [0..<unat (fh_padLen h)]"
  have lp: "length pad = unat (fh_padLen h)" by (simp add: pad_def)
  obtain q1 q2 where q: "rest = q1 @ q2" "length q1 = length pad" "length q2 = length payload"
    using out(2) lp by (intro that [of "take (length pad) rest" "drop (length pad) rest"]) simp_all
  have be: "be16 (fh_padLen h) = [byte_of (drop_bit 8 (fh_padLen h)), byte_of (fh_padLen h)]" by (simp add: be16_def)
  let ?f = geckoFlagFragment and ?h = "byte_of (drop_bit 8 (fh_padLen h))" and ?l = "byte_of (fh_padLen h)"
  have 1: "put_at out 0 [?f] = Some (?f # b1 # b2 # b3 # b4 # q1 @ q2)" by (simp add: put_at_def out q(1))
  have 2: "put_at (?f # b1 # b2 # b3 # b4 # q1 @ q2) 1 [fh_msgID h] =
      Some (?f # fh_msgID h # b2 # b3 # b4 # q1 @ q2)" by (simp add: put_at_def)
  have 3: "put_at (?f # fh_msgID h # b2 # b3 # b4 # q1 @ q2) 2 [b] =
      Some (?f # fh_msgID h # b # b3 # b4 # q1 @ q2)" by (simp add: put_at_def numeral_2_eq_2)
  have 4: "put_at (?f # fh_msgID h # b # b3 # b4 # q1 @ q2) 3 (be16 (fh_padLen h)) =
      Some (?f # fh_msgID h # b # ?h # ?l # q1 @ q2)" by (simp add: put_at_def be numeral_3_eq_3)
  let ?w = "[?f, fh_msgID h, b, ?h, ?l]"
  have w: "length ?w = geckoHeaderSize" by (simp add: geckoHeaderSize_def)
  have 5: "put_at (?f # fh_msgID h # b # ?h # ?l # q1 @ q2) geckoHeaderSize pad =
      Some (?f # fh_msgID h # b # ?h # ?l # pad @ q2)"
    using put_at_append [OF w, of pad "q1 @ q2"] q(2) by simp
  have "length (?w @ pad) = geckoHeaderSize + unat (fh_padLen h)" using w lp by simp
  from copy_at_append [OF this, of payload q2]
  have 6: "copy_at (?f # fh_msgID h # b # ?h # ?l # pad @ q2) (geckoHeaderSize + unat (fh_padLen h)) payload =
      Some (frame r h payload, length payload)"
    using q(3) by (simp add: frame_def pad_def b_def be)
  have c: "\<not> (unat (fh_totalChunks h) < geckoMinFragmentChunks \<or> unat (fh_totalChunks h) > geckoMaxFragmentChunks)"
    "\<not> fh_chunkIdx h \<ge> fh_totalChunks h" using assms(1) by (auto simp: fh_ok_def)
  show ?thesis
    unfolding encodeFrame_def if_not_P [OF c(1)] if_not_P [OF c(2)] Let_def assms(2) [symmetric] b_def [symmetric]
      pad_def [symmetric]
    by (simp only: pad_def [symmetric] 1 2 3 4 5 6 less_irrefl if_False Option.bind.bind_lunit option.case prod.case)
qed

lemma decodeFrame_frame:
  assumes "fh_ok h"
  shows "decodeFrame (frame r h payload) = Inr (h, payload)"
proof -
  define b where "b = or (push_bit 4 (fh_chunkIdx h)) (and (fh_totalChunks h) 0x0f)"
  define pad where "pad = map r [0..<unat (fh_padLen h)]"
  have lp: "length pad = unat (fh_padLen h)" by (simp add: pad_def)
  have f: "frame r h payload = geckoFlagFragment # fh_msgID h # b # byte_of (drop_bit 8 (fh_padLen h)) #
      byte_of (fh_padLen h) # pad @ payload"
    by (simp add: frame_def b_def pad_def be16_def)
  have hh: "\<lparr>fh_padLen = fh_padLen h, fh_msgID = fh_msgID h, fh_chunkIdx = fh_chunkIdx h, fh_totalChunks = fh_totalChunks h\<rparr> = h"
    by simp
  have n: "drop_bit 4 b = fh_chunkIdx h" "and b 15 = fh_totalChunks h" using nibbles [OF assms] by (simp_all add: b_def)
  have fl: "and geckoFlagFragment geckoFlagFragment \<noteq> 0" by (simp add: geckoFlagFragment_def)
  have d: "drop (5 + unat (fh_padLen h)) (geckoFlagFragment # fh_msgID h # b # byte_of (drop_bit 8 (fh_padLen h)) #
      byte_of (fh_padLen h) # pad @ payload) = payload"
    by (simp add: numeral_eq_Suc lp [symmetric] del: drop_bit_of_1)
  show ?thesis using assms n fl d
    by (simp add: decodeFrame_def f geckoHeaderSize_def fh_ok_def lp not_less not_le Let_def)
qed

section \<open>The reassembly table\<close>

definition sources :: "string \<Rightarrow> (reassemblyKey \<times> reassemblyEntry) list \<Rightarrow> nat" where
  "sources a r = length (filter (\<lambda>k. fst k = a) (map fst r))"

definition re_ok :: "reassemblyEntry \<Rightarrow> bool" where
  "re_ok e \<longleftrightarrow> length (re_chunks e) = unat (re_total e) \<and>
     re_received e = length (filter (\<lambda>c. c \<noteq> None) (re_chunks e)) \<and> re_received e < unat (re_total e)"

text \<open>Bounded, with exact counts, and without a complete entry.\<close>

definition gecko_inv :: "gecko \<Rightarrow> bool" where
  "gecko_inv g \<longleftrightarrow> distinct (map fst (gk_reassembly g)) \<and> length (gk_reassembly g) \<le> geckoMaxReassembly \<and>
     (\<forall>a. sources a (gk_reassembly g) \<le> nat geckoMaxPerSource \<and>
        gk_perSource g a = (if sources a (gk_reassembly g) = 0 then None else Some (int (sources a (gk_reassembly g))))) \<and>
     (\<forall>e \<in> snd ` set (gk_reassembly g). re_ok e)"

lemma sources_delete:
  assumes "distinct (map fst r)" "map_of r k = Some e"
  shows "sources a (AList.delete k r) = sources a r - (if a = fst k then 1 else 0)"
    "length (AList.delete k r) = length r - 1" "a = fst k \<Longrightarrow> 0 < sources a r"
proof -
  have k: "k \<in> set (map fst r)" using assms(2) by (force dest: map_of_SomeD)
  have d: "map fst (AList.delete k r) = remove1 k (map fst r)"
    using assms(1) by (simp add: delete_keys distinct_remove1_removeAll)
  show "length (AList.delete k r) = length r - 1"
    using arg_cong [OF d, of length] k by (simp add: length_remove1)
  show "sources a (AList.delete k r) = sources a r - (if a = fst k then 1 else 0)"
    unfolding sources_def d filter_remove1 [symmetric] using k by (simp add: filter_remove1 length_remove1 del: filter_map)
  show "a = fst k \<Longrightarrow> 0 < sources a r" using k by (fastforce simp: sources_def filter_empty_conv simp flip: length_greater_0_conv)
qed

lemma sources_update:
  "sources a (AList.update k e r) = sources a r + (if k \<notin> set (map fst r) \<and> a = fst k then 1 else 0)"
  "length (AList.update k e r) = length r + (if k \<notin> set (map fst r) then 1 else 0)"
proof -
  show "sources a (AList.update k e r) = sources a r + (if k \<notin> set (map fst r) \<and> a = fst k then 1 else 0)"
    unfolding sources_def update_keys by auto
  have "length (map fst (AList.update k e r)) = length r + (if k \<notin> set (map fst r) then 1 else 0)"
    unfolding update_keys by auto
  then show "length (AList.update k e r) = length r + (if k \<notin> set (map fst r) then 1 else 0)" by simp
qed

lemma update_values: "snd ` set (AList.update k e r) \<subseteq> insert e (snd ` set r)"
proof (induction r)
  case (Cons x r)
  then show ?case by (cases x) auto
qed simp

lemma delete_values: "snd ` set (AList.delete k r) \<subseteq> snd ` set r"
  by (induction r) auto

lemma dropEntryLocked_ok:
  assumes "gecko_inv g"
  shows "gecko_inv (dropEntryLocked k g)"
    "length (gk_reassembly (dropEntryLocked k g)) = length (gk_reassembly g) - (if map_of (gk_reassembly g) k = None then 0 else 1)"
    "map_of (gk_reassembly (dropEntryLocked k g)) = (map_of (gk_reassembly g))(k := None)"
    "gk_minPkt (dropEntryLocked k g) = gk_minPkt g" "gk_maxPkt (dropEntryLocked k g) = gk_maxPkt g"
    "sources a (gk_reassembly (dropEntryLocked k g)) \<le> sources a (gk_reassembly g)"
proof -
  let ?r = "gk_reassembly g"
  have "gecko_inv (dropEntryLocked k g) \<and>
    length (gk_reassembly (dropEntryLocked k g)) = length ?r - (if map_of ?r k = None then 0 else 1) \<and>
    map_of (gk_reassembly (dropEntryLocked k g)) = (map_of ?r)(k := None) \<and>
    sources a (gk_reassembly (dropEntryLocked k g)) \<le> sources a ?r"
  proof (cases "map_of ?r k")
    case None
    then have "(map_of ?r)(k := None) = map_of ?r" by (simp add: fun_upd_idem)
    then show ?thesis using assms None by (simp add: dropEntryLocked_def)
  next
    case (Some e)
    have d: "distinct (map fst ?r)" using assms by (simp add: gecko_inv_def)
    note S = sources_delete [OF d Some]
    have p: "gk_perSource g b = (if sources b ?r = 0 then None else Some (int (sources b ?r)))" for b
      using assms by (simp add: gecko_inv_def)
    have g': "dropEntryLocked k g = g\<lparr>gk_reassembly := AList.delete k ?r,
        gk_perSource := (gk_perSource g)(fst k := if sources (fst k) ?r \<le> 1 then None else Some (int (sources (fst k) ?r) - 1))\<rparr>"
      using S(3) [of "fst k"] by (simp add: dropEntryLocked_def Some p Let_def)
    have "gecko_inv (dropEntryLocked k g)"
      unfolding gecko_inv_def
    proof (intro conjI allI ballI)
      show "distinct (map fst (gk_reassembly (dropEntryLocked k g)))" using distinct_delete [OF d] by (simp add: g')
      show "length (gk_reassembly (dropEntryLocked k g)) \<le> geckoMaxReassembly"
        using assms S(2) by (auto simp: g' gecko_inv_def)
      fix b
      show "sources b (gk_reassembly (dropEntryLocked k g)) \<le> nat geckoMaxPerSource"
        using assms S(1) [of b] by (simp add: g' gecko_inv_def le_diff_conv trans_le_add1)
      show "gk_perSource (dropEntryLocked k g) b = (if sources b (gk_reassembly (dropEntryLocked k g)) = 0 then None
          else Some (int (sources b (gk_reassembly (dropEntryLocked k g)))))"
        using S(1) [of b] S(3) [of b] p [of b] by (auto simp: g' of_nat_diff)
    next
      fix e' assume "e' \<in> snd ` set (gk_reassembly (dropEntryLocked k g))"
      then have "e' \<in> snd ` set ?r" using delete_values [of k ?r] by (auto simp: g')
      then show "re_ok e'" using assms unfolding gecko_inv_def by blast
    qed
    then show ?thesis using S(1,2) Some by (simp add: g' delete_conv')
  qed
  then show "gecko_inv (dropEntryLocked k g)"
    "length (gk_reassembly (dropEntryLocked k g)) = length (gk_reassembly g) - (if map_of (gk_reassembly g) k = None then 0 else 1)"
    "map_of (gk_reassembly (dropEntryLocked k g)) = (map_of (gk_reassembly g))(k := None)"
    "sources a (gk_reassembly (dropEntryLocked k g)) \<le> sources a (gk_reassembly g)" by blast+
  show "gk_minPkt (dropEntryLocked k g) = gk_minPkt g" "gk_maxPkt (dropEntryLocked k g) = gk_maxPkt g"
    by (simp_all add: dropEntryLocked_def Let_def split: option.split)
qed

lemma oldest_ok:
  assumes "r \<noteq> []"
  defines "oldest \<equiv> filter (\<lambda>(k, e). list_all (\<lambda>(k', e'). re_deadline e \<le> re_deadline e') r) r"
  shows "oldest ! (pick mod length oldest) \<in> set r"
proof -
  let ?m = "Min ((\<lambda>(k, e). re_deadline e) ` set r)"
  have "?m \<in> (\<lambda>(k, e). re_deadline e) ` set r" using assms(1) by (intro Min_in) auto
  then obtain k e where e: "(k, e) \<in> set r" "re_deadline e = ?m" by force
  then have "(k, e) \<in> set oldest" by (auto simp: oldest_def list_all_iff intro!: Min_le)
  then have "0 < length oldest" by (rule length_pos_if_in_set)
  then have "oldest ! (pick mod length oldest) \<in> set oldest" by simp
  then show ?thesis by (auto simp: oldest_def)
qed

lemma evictOldestLocked_ok:
  assumes "gecko_inv g" "gk_reassembly g \<noteq> []"
  shows "gecko_inv (evictOldestLocked pick g)"
    "length (gk_reassembly (evictOldestLocked pick g)) < length (gk_reassembly g)"
    "map_of (gk_reassembly g) k = None \<Longrightarrow> map_of (gk_reassembly (evictOldestLocked pick g)) k = None"
    "sources a (gk_reassembly (evictOldestLocked pick g)) \<le> sources a (gk_reassembly g)"
proof -
  let ?r = "gk_reassembly g"
  define x where "x = (let oldest = filter (\<lambda>(k, e). list_all (\<lambda>(k', e'). re_deadline e \<le> re_deadline e') ?r) ?r
    in oldest ! (pick mod length oldest))"
  have "x \<in> set ?r" using oldest_ok [OF assms(2), of pick] by (simp add: x_def Let_def)
  then have k: "map_of ?r (fst x) \<noteq> None" by (auto simp: map_of_eq_None_iff)
  have g': "evictOldestLocked pick g = dropEntryLocked (fst x) g"
    using assms(2) by (simp add: evictOldestLocked_def x_def Let_def)
  note D = dropEntryLocked_ok [OF assms(1)]
  show "gecko_inv (evictOldestLocked pick g)" unfolding g' by (rule D(1))
  show "length (gk_reassembly (evictOldestLocked pick g)) < length (gk_reassembly g)"
    using D(2) [of "fst x"] k assms(2) by (simp add: g')
  show "map_of (gk_reassembly (evictOldestLocked pick g)) k = None" if "map_of (gk_reassembly g) k = None"
    using that by (simp add: g' D(3))
  show "sources a (gk_reassembly (evictOldestLocked pick g)) \<le> sources a (gk_reassembly g)" unfolding g' by (rule D(6))
qed

lemma gecko_invD:
  assumes "gecko_inv g"
  shows "distinct (map fst (gk_reassembly g))"
    "(case gk_perSource g a of None \<Rightarrow> 0 | Some n \<Rightarrow> n) = int (sources a (gk_reassembly g))"
    "map_of (gk_reassembly g) k = Some e \<Longrightarrow> re_ok e"
  using assms by (force simp: gecko_inv_def dest: map_of_SomeD)+

lemma delete_update_same: "AList.delete k (AList.update k e r) = AList.delete k r"
  by (induction r) auto

lemma gecko_inv_update:
  assumes "gecko_inv g" "re_ok e"
    and "map_of (gk_reassembly g) k = None \<Longrightarrow>
      length (gk_reassembly g) < geckoMaxReassembly \<and> int (sources (fst k) (gk_reassembly g)) < geckoMaxPerSource"
  shows "gecko_inv (g\<lparr>gk_reassembly := AList.update k e (gk_reassembly g),
    gk_perSource := (if map_of (gk_reassembly g) k = None
      then (gk_perSource g)(fst k := Some (int (sources (fst k) (gk_reassembly g)) + 1)) else gk_perSource g)\<rparr>)"
proof -
  let ?r = "gk_reassembly g"
  have k: "k \<notin> set (map fst ?r) \<longleftrightarrow> map_of ?r k = None" by (simp add: map_of_eq_None_iff)
  note S = sources_update(1) [of _ k e ?r, unfolded k] sources_update(2) [of k e ?r, unfolded k]
  have inv: "length ?r \<le> geckoMaxReassembly" "sources b ?r \<le> nat geckoMaxPerSource"
    "gk_perSource g b = (if sources b ?r = 0 then None else Some (int (sources b ?r)))" for b
    using assms(1) by (auto simp: gecko_inv_def)
  show ?thesis
    unfolding gecko_inv_def
  proof (intro conjI allI ballI, goal_cases)
    case 1
    then show ?case using distinct_update gecko_invD(1) [OF assms(1)] by simp
  next
    case 2
    then show ?case using S(2) assms(3) inv(1) by auto
  next
    case (3 a)
    then show ?case using S(1) [of a] assms(3) inv(2) [of a] by (auto simp: zless_nat_eq_int_zless)
  next
    case (4 a)
    then show ?case using S(1) [of a] inv(3) [of a] by auto
  next
    case (5 e')
    then have "e' \<in> insert e (snd ` set ?r)" using update_values [of k e ?r] by auto
    then show ?case using assms(1,2) unfolding gecko_inv_def by blast
  qed
qed

lemma find_entry_ok:
  assumes "gecko_inv g" "fh_ok h" "find_entry now pick g key h = (g', r)"
  shows "gecko_inv g'" "r = Some e \<Longrightarrow> map_of (gk_reassembly g') key = Some e \<and> re_total e = fh_totalChunks h"
proof -
  have "gecko_inv g' \<and> (\<forall>e. r = Some e \<longrightarrow> map_of (gk_reassembly g') key = Some e \<and> re_total e = fh_totalChunks h)"
  proof (cases "map_of (gk_reassembly g) key")
    case (Some e0)
    then show ?thesis using assms by (auto simp: find_entry_def simp del: map_of_eq_Some_iff split: if_splits)
  next
    case None
    show ?thesis
    proof (cases "int (sources (fst key) (gk_reassembly g)) \<ge> geckoMaxPerSource")
      case True
      then show ?thesis using assms None gecko_invD(2) [OF assms(1), of "fst key"] by (simp add: find_entry_def)
    next
      case False
      define e where "e = \<lparr>re_chunks = replicate (unat (fh_totalChunks h)) None, re_received = 0,
        re_total = fh_totalChunks h, re_deadline = now + geckoReassemblyTTL\<rparr>"
      define g1 where "g1 = (if length (gk_reassembly g) \<ge> geckoMaxReassembly then evictOldestLocked pick g else g)"
      have ne: "length (gk_reassembly g) \<ge> geckoMaxReassembly \<Longrightarrow> gk_reassembly g \<noteq> []"
        by (auto simp: geckoMaxReassembly_def)
      have len: "length (gk_reassembly g) \<le> geckoMaxReassembly" using assms(1) by (simp add: gecko_inv_def)
      have g1: "gecko_inv g1" "length (gk_reassembly g1) < geckoMaxReassembly" "map_of (gk_reassembly g1) key = None"
        "int (sources (fst key) (gk_reassembly g1)) < geckoMaxPerSource"
        using evictOldestLocked_ok(1-3) [OF assms(1) ne] evictOldestLocked_ok(4) [OF assms(1) ne, of "fst key" pick]
          None False assms(1) len by (auto simp: g1_def)
      have "re_ok e" using assms(2) by (simp add: e_def re_ok_def fh_ok_def geckoMinFragmentChunks_def)
      from gecko_inv_update [OF g1(1) this, of key] g1(2-4)
      have "gecko_inv (g1\<lparr>gk_reassembly := AList.update key e (gk_reassembly g1),
          gk_perSource := (gk_perSource g1)(fst key := Some (int (sources (fst key) (gk_reassembly g1)) + 1))\<rparr>)" by simp
      moreover have "g' = g1\<lparr>gk_reassembly := AList.update key e (gk_reassembly g1),
          gk_perSource := (gk_perSource g1)(fst key := Some (int (sources (fst key) (gk_reassembly g1)) + 1))\<rparr>" "r = Some e"
        using assms(3) None False gecko_invD(2) [OF assms(1), of "fst key"] gecko_invD(2) [OF g1(1), of "fst key"]
        by (simp_all add: find_entry_def e_def g1_def Let_def)
      ultimately show ?thesis by (simp add: update_conv' e_def del: map_of_eq_Some_iff)
    qed
  qed
  then show "gecko_inv g'" "r = Some e \<Longrightarrow> map_of (gk_reassembly g') key = Some e \<and> re_total e = fh_totalChunks h" by blast+
qed

lemma received_update:
  "i < length cs \<Longrightarrow> cs ! i = None \<Longrightarrow>
   length (filter (\<lambda>c. c \<noteq> None) (cs[i := Some x])) = Suc (length (filter (\<lambda>c. c \<noteq> None) cs))"
proof (induction cs arbitrary: i)
  case (Cons c cs)
  then show ?case by (cases i) auto
qed simp

lemma acceptChunk_ok:
  assumes "gecko_inv g" "fh_ok h" "acceptChunk now pick g addr h payload = (g', r)"
  shows "gecko_inv g'"
proof -
  obtain g1 re where f: "find_entry now pick g (addr, fh_msgID h) h = (g1, re)" by fastforce
  note F = find_entry_ok [OF assms(1,2) f]
  show ?thesis
  proof (cases re)
    case None
    then show ?thesis using assms(3) F f by (simp add: acceptChunk_def)
  next
    case (Some e)
    let ?key = "(addr, fh_msgID h)" and ?i = "unat (fh_chunkIdx h)"
    have e: "map_of (gk_reassembly g1) ?key = Some e" "re_total e = fh_totalChunks h" using F(2) Some by auto
    have ok: "re_ok e" using gecko_invD(3) [OF F(1) e(1)] .
    show ?thesis
    proof (cases "?i \<ge> length (re_chunks e) \<or> re_chunks e ! ?i \<noteq> None")
      case True
      then show ?thesis using assms(3) F f Some by (simp add: acceptChunk_def Let_def)
    next
      case False
      define e1 where "e1 = e\<lparr>re_chunks := (re_chunks e)[?i := Some payload], re_received := re_received e + 1\<rparr>"
      have len: "length (re_chunks e1) = unat (re_total e1)" and
        rec: "re_received e1 = length (filter (\<lambda>c. c \<noteq> None) (re_chunks e1))" and tot: "re_total e1 = re_total e"
        using ok False received_update [of ?i "re_chunks e" payload] by (simp_all add: e1_def re_ok_def)
      define g2 where "g2 = g1\<lparr>gk_reassembly := AList.update ?key e1 (gk_reassembly g1)\<rparr>"
      have r: "(g', r) = (if re_received e1 < unat (re_total e1) then (g2, None) else (dropEntryLocked ?key g2,
          Some (concat (map (\<lambda>c. case c of None \<Rightarrow> [] | Some c \<Rightarrow> c) (re_chunks e1)))))"
        using assms(3) unfolding acceptChunk_def f Let_def prod.case Some option.case if_not_P [OF False] e1_def g2_def
        by simp
      show ?thesis
      proof (cases "re_received e1 < unat (re_total e1)")
        case True
        then have "re_ok e1" using len rec by (simp add: re_ok_def)
        from gecko_inv_update [OF F(1) this, of ?key] e(1) have "gecko_inv g2" by (simp add: g2_def del: map_of_eq_Some_iff)
        then show ?thesis using r True by simp
      next
        case full: False
        text \<open>Dropping the key of the updated entry is dropping it from the table before the update.\<close>
        have "AList.delete ?key (AList.update ?key e1 (gk_reassembly g1)) = AList.delete ?key (gk_reassembly g1)"
          by (rule delete_update_same)
        then have "dropEntryLocked ?key g2 = dropEntryLocked ?key g1"
          using e(1) by (simp add: dropEntryLocked_def g2_def update_conv' Let_def del: map_of_eq_Some_iff)
        then show ?thesis using r full dropEntryLocked_ok(1) [OF F(1)] by simp
      qed
    qed
  qed
qed

lemma decodeFrame_ok: "decodeFrame d = Inr (h, payload) \<Longrightarrow> fh_ok h"
  by (auto simp: decodeFrame_def fh_ok_def Let_def split: if_splits)

lemma gcExpired_ok: "gecko_inv g \<Longrightarrow> gecko_inv (gcExpired now g)"
proof -
  have "gecko_inv g \<Longrightarrow> gecko_inv (fold dropEntryLocked ks g)" for ks
    by (induction ks arbitrary: g) (simp_all add: dropEntryLocked_ok(1))
  then show "gecko_inv g \<Longrightarrow> gecko_inv (gcExpired now g)" by (simp add: gcExpired_def)
qed

lemma gecko_iter_ok: "gecko_inv g \<Longrightarrow> gecko_inv (fst (gecko_iter g plen x))"
  by (auto simp: gecko_iter_def Let_def split: prod.split option.split sum.split dest: acceptChunk_ok decodeFrame_ok)

text \<open>What happens to the receiving side: an answer of the inner connection, or a tick of the collector.\<close>

datatype gk_event = GkPacket "int \<times> nat" packet | GkTick int

definition gk_step :: "nat \<Rightarrow> gk_event \<Rightarrow> gecko \<Rightarrow> gecko" where
  "gk_step plen ev g = (case ev of GkPacket t p \<Rightarrow> fst (gecko_iter g plen (t, p)) | GkTick now \<Rightarrow> gcExpired now g)"

lemma newGecko_ok: "gecko_inv (newGeckoPacketConn minPkt maxPkt)"
  by (simp add: gecko_inv_def newGeckoPacketConn_def sources_def)

text \<open>
  C19: Whatever arrives, from whatever sources (they can be spoofed), with whatever ids, counts and
  timing, and however ties of the eviction fall: the reassembly table never has more than 4096
  entries, and never more than 8 of one source, the counters per source are exact, every
  entry counts its chunks and none of them is complete.
\<close>

theorem gecko_table_bounded:
  defines "g \<equiv> \<lambda>minPkt maxPkt plen evs. fold (gk_step plen) evs (newGeckoPacketConn minPkt maxPkt)"
  shows "gecko_inv (g minPkt maxPkt plen evs)"
proof -
  have "gecko_inv g0 \<Longrightarrow> gecko_inv (fold (gk_step plen) evs g0)" for g0
    by (induction evs arbitrary: g0) (auto simp: gk_step_def gecko_iter_ok gcExpired_ok split: gk_event.split)
  then show ?thesis using newGecko_ok by (simp add: g_def)
qed

section \<open>Reassembling one message\<close>

text \<open>The table holds the chunks \<open>S\<close> of a message of \<open>n\<close> chunks under \<open>key\<close>.\<close>

definition holding :: "reassemblyKey \<Rightarrow> (nat \<Rightarrow> bytes) \<Rightarrow> byte \<Rightarrow> nat set \<Rightarrow> gecko \<Rightarrow> bool" where
  "holding key chunk n S g \<longleftrightarrow> gecko_inv g \<and>
     (if S = {} then map_of (gk_reassembly g) key = None \<and> int (sources (fst key) (gk_reassembly g)) < geckoMaxPerSource
      else \<exists>e. map_of (gk_reassembly g) key = Some e \<and> re_total e = n \<and>
        re_chunks e = map (\<lambda>i. if i \<in> S then Some (chunk i) else None) [0..<unat n])"

definition slots_of :: "(nat \<Rightarrow> bytes) \<Rightarrow> byte \<Rightarrow> nat set \<Rightarrow> bytes option list" where
  "slots_of chunk n S = map (\<lambda>i. if i \<in> S then Some (chunk i) else None) [0..<unat n]"

lemma slots_of_insert:
  "i < unat n \<Longrightarrow> (slots_of chunk n S)[i := Some (chunk i)] = slots_of chunk n (insert i S)"
  by (rule nth_equalityI) (simp_all add: slots_of_def nth_list_update)

lemma slots_of_count:
  assumes "S \<subseteq> {..<unat n}"
  shows "length (filter (\<lambda>c. c \<noteq> None) (slots_of chunk n S)) = card S"
proof -
  have "length (filter (\<lambda>c. c \<noteq> None) (slots_of chunk n S)) = length (filter (\<lambda>i. i \<in> S) [0..<unat n])"
    by (simp add: slots_of_def filter_map comp_def if_distrib cong: if_cong)
  also have "\<dots> = card (set (filter (\<lambda>i. i \<in> S) [0..<unat n]))"
    by (rule distinct_card [symmetric]) simp
  also have "set (filter (\<lambda>i. i \<in> S) [0..<unat n]) = S" using assms by auto
  finally show ?thesis .
qed

lemma find_entry_holding:
  assumes h: "holding key chunk (fh_totalChunks h) S g" and "fh_ok h"
  obtains g1 e where "find_entry now pick g key h = (g1, Some e)" "gecko_inv g1" "map_of (gk_reassembly g1) key = Some e"
    "re_chunks e = slots_of chunk (fh_totalChunks h) S" "re_total e = fh_totalChunks h"
proof (cases "S = {}")
  case True
  obtain g1 r where f: "find_entry now pick g key h = (g1, r)" by fastforce
  have g: "gecko_inv g" "map_of (gk_reassembly g) key = None" "int (sources (fst key) (gk_reassembly g)) < geckoMaxPerSource"
    using h True by (simp_all add: holding_def)
  obtain e where e: "r = Some e" "re_chunks e = replicate (unat (fh_totalChunks h)) None"
    using f g gecko_invD(2) [OF g(1), of "fst key"] by (auto simp: find_entry_def Let_def)
  have "replicate (unat (fh_totalChunks h)) None = slots_of chunk (fh_totalChunks h) S"
    by (simp add: slots_of_def True map_replicate_const)
  then show ?thesis using that [of g1 e] find_entry_ok [OF g(1) assms(2) f] e f by simp
next
  case False
  then obtain e where e: "map_of (gk_reassembly g) key = Some e" "re_total e = fh_totalChunks h"
    "re_chunks e = slots_of chunk (fh_totalChunks h) S" "gecko_inv g"
    using h by (auto simp: holding_def slots_of_def simp del: map_of_eq_Some_iff)
  then have "find_entry now pick g key h = (g, Some e)" by (simp add: find_entry_def del: map_of_eq_Some_iff)
  then show ?thesis using that e by blast
qed

lemma acceptChunk_holding:
  assumes h: "holding (addr, fh_msgID h) chunk (fh_totalChunks h) S g" and "fh_ok h"
    and i: "unat (fh_chunkIdx h) = i" "i \<notin> S" and S: "S \<subseteq> {..<unat (fh_totalChunks h)}"
  obtains g' where "acceptChunk now pick g addr h (chunk i) =
      (g', if insert i S = {..<unat (fh_totalChunks h)} then Some (concat (map chunk [0..<unat (fh_totalChunks h)])) else None)"
    "insert i S = {..<unat (fh_totalChunks h)} \<or> holding (addr, fh_msgID h) chunk (fh_totalChunks h) (insert i S) g'"
    "gecko_inv g'"
proof -
  let ?key = "(addr, fh_msgID h)" and ?n = "fh_totalChunks h"
  obtain g1 e where f: "find_entry now pick g ?key h = (g1, Some e)" "gecko_inv g1" "map_of (gk_reassembly g1) ?key = Some e"
    "re_chunks e = slots_of chunk ?n S" "re_total e = ?n"
    using find_entry_holding [OF h assms(2), of now pick] by metis
  have n: "i < unat ?n" using assms(2) i(1) by (auto simp: fh_ok_def word_less_nat_alt)
  have ok: "re_ok e" using gecko_invD(3) [OF f(2,3)] .
  have S': "insert i S \<subseteq> {..<unat ?n}" using S n by auto
  have free: "\<not> (i \<ge> length (re_chunks e) \<or> re_chunks e ! i \<noteq> None)"
    using n i(2) by (simp add: f(4) slots_of_def)
  define e1 where "e1 = e\<lparr>re_chunks := (re_chunks e)[i := Some (chunk i)], re_received := re_received e + 1\<rparr>"
  define g2 where "g2 = g1\<lparr>gk_reassembly := AList.update ?key e1 (gk_reassembly g1)\<rparr>"
  have c1: "re_chunks e1 = slots_of chunk ?n (insert i S)" "re_total e1 = ?n"
    using slots_of_insert [OF n] by (simp_all add: e1_def f)
  have "card (insert i S) = Suc (card S)" using i(2) S by (simp add: finite_subset [OF S])
  then have r1: "re_received e1 = card (insert i S)"
    using ok slots_of_count [OF S, of chunk] by (simp add: e1_def re_ok_def f(4))
  have full: "re_received e1 < unat ?n \<longleftrightarrow> insert i S \<noteq> {..<unat ?n}"
    using S' r1 by (metis card_lessThan finite_lessThan psubsetI psubset_card_mono less_irrefl)
  have run: "acceptChunk now pick g addr h (chunk i) =
      (if re_received e1 < unat ?n then (g2, None) else (dropEntryLocked ?key g2,
          Some (concat (map (\<lambda>c. case c of None \<Rightarrow> [] | Some c \<Rightarrow> c) (re_chunks e1)))))"
    unfolding acceptChunk_def f(1) Let_def prod.case option.case i(1) if_not_P [OF free] e1_def g2_def by (simp add: f(5))
  obtain g' r where gr: "acceptChunk now pick g addr h (chunk i) = (g', r)" by fastforce
  have hg: "gecko_inv g" using h by (simp add: holding_def)
  have inv': "gecko_inv g'" using acceptChunk_ok [OF hg assms(2) gr] .
  show ?thesis
  proof (cases "insert i S = {..<unat ?n}")
    case True
    have "map (\<lambda>c. case c of None \<Rightarrow> [] | Some c \<Rightarrow> c) (re_chunks e1) = map chunk [0..<unat ?n]"
      unfolding c1(1) True by (simp add: slots_of_def)
    then have "r = Some (concat (map chunk [0..<unat ?n]))" using run gr full True by simp
    then show ?thesis using that [of g'] gr inv' True by simp
  next
    case False
    then have "g' = g2" "r = None" using run gr full by simp_all
    moreover have "map_of (gk_reassembly g2) ?key = Some e1"
      by (simp add: g2_def update_conv' del: map_of_eq_Some_iff)
    ultimately have "holding ?key chunk ?n (insert i S) g'"
      using inv' c1 by (simp add: holding_def slots_of_def del: map_of_eq_Some_iff)
    then show ?thesis using that [of g'] gr inv' False \<open>r = None\<close> by simp
  qed
qed

text \<open>The frames of a message in the order in which they come.\<close>

definition msg_header :: "(nat \<Rightarrow> u16) \<Rightarrow> byte \<Rightarrow> nat \<Rightarrow> nat \<Rightarrow> frameHeader" where
  "msg_header pads msgID n i = \<lparr>fh_padLen = pads i, fh_msgID = msgID, fh_chunkIdx = word_of_nat i, fh_totalChunks = word_of_nat n\<rparr>"

lemma small_byte: "n \<le> 8 \<Longrightarrow> unat (word_of_nat n :: byte) = n"
  by (simp add: unat_of_nat)

lemma msg_header_ok: "2 \<le> n \<Longrightarrow> n \<le> 8 \<Longrightarrow> i < n \<Longrightarrow> fh_ok (msg_header pads msgID n i)"
  by (simp add: fh_ok_def msg_header_def small_byte geckoMinFragmentChunks_def geckoMaxFragmentChunks_def word_less_nat_alt)

lemma frames_reassemble:
  assumes "2 \<le> n" "n \<le> 8" "holding (addr, msgID) chunk (word_of_nat n) S g"
    and "distinct js" "js \<noteq> []" "S \<inter> set js = {}" "S \<union> set js = {..<n}"
    and fit: "\<forall>i \<in> set js. length (frame (r i) (msg_header pads msgID n i) (chunk i)) \<le> geckoBufferSize"
  shows "\<exists>g'. gecko_ReadFrom g plen
      (map (\<lambda>i. (t i, frame (r i) (msg_header pads msgID n i) (chunk i), addr, None)) js) =
    Some (g', (take plen (concat (map chunk [0..<n])), addr, None), []) \<and> gecko_inv g'"
  using assms(3-)
proof (induction js arbitrary: S g)
  case (Cons j js)
  let ?h = "msg_header pads msgID n j" let ?f = "frame (r j) ?h (chunk j)"
  have j: "j < n" "j \<notin> S" using Cons.prems by auto
  note ok = msg_header_ok [OF assms(1,2) j(1), of pads msgID]
  have hh: "fh_msgID ?h = msgID" "fh_totalChunks ?h = word_of_nat n" "unat (fh_chunkIdx ?h) = j"
    "unat (fh_totalChunks ?h) = n"
    using j(1) assms(2) by (simp_all add: msg_header_def small_byte)
  have S: "S \<subseteq> {..<unat (fh_totalChunks ?h)}" using Cons.prems(5) unfolding hh(4) by auto
  obtain now pick where tj: "t j = (now, pick)" by fastforce
  have H: "holding (addr, fh_msgID ?h) chunk (fh_totalChunks ?h) S g" using Cons.prems(1) unfolding hh(1,2) .
  obtain g1 where a: "acceptChunk now pick g addr ?h (chunk j) =
      (g1, if insert j S = {..<n} then Some (concat (map chunk [0..<n])) else None)"
    "insert j S = {..<n} \<or> holding (addr, msgID) chunk (word_of_nat n) (insert j S) g1" "gecko_inv g1"
    by (rule acceptChunk_holding [OF H ok hh(3) j(2) S, of now pick, unfolded hh(4), unfolded hh(1,2)]) blast
  have "length ?f \<le> geckoBufferSize" by (rule bspec [OF Cons.prems(6), of j]) (rule list.set_intros(1))
  then have tk: "take geckoBufferSize ?f = ?f" by (rule take_all)
  have f0: "?f \<noteq> []" "and (?f ! 0) 0x80 \<noteq> 0" by (simp_all add: frame_def geckoFlagFragment_def)
  have it: "gecko_iter g plen (t j, ?f, addr, None) = (g1, if insert j S = {..<n}
      then Some (take plen (concat (map chunk [0..<n])), addr, None) else None)"
    using f0 unfolding gecko_iter_def tj prod.case tk Let_def by (simp add: decodeFrame_frame [OF ok] a(1))
  show ?case
  proof (cases "insert j S = {..<n}")
    case True
    have "x \<notin> set js" for x
    proof
      assume x: "x \<in> set js"
      then have "x \<in> S \<union> set (j # js)" by simp
      then have "x \<in> insert j S" unfolding Cons.prems(5) True .
      moreover have "x \<noteq> j" using Cons.prems(2) x by auto
      ultimately show False using Cons.prems(4) x by auto
    qed
    then have "js = []" by (cases js) auto
    then show ?thesis using it True a(3) by simp
  next
    case False
    then have ne: "js \<noteq> []" using Cons.prems(5) by (cases js) simp_all
    have "insert j S \<inter> set js = {}" using Cons.prems(2,4) by simp
    moreover have "insert j S \<union> set js = {..<n}" using Cons.prems(5) by (simp only: list.set Un_insert_left Un_insert_right)
    ultimately have new: "insert j S \<inter> set js = {}" "insert j S \<union> set js = {..<n}" .
    have "holding (addr, msgID) chunk (word_of_nat n) (insert j S) g1" using a(2) False by blast
    moreover have "distinct js" using Cons.prems(2) by simp
    moreover have "\<forall>i \<in> set js. length (frame (r i) (msg_header pads msgID n i) (chunk i)) \<le> geckoBufferSize"
      using Cons.prems(6) by (meson list.set_intros(2))
    ultimately have "\<exists>g'. gecko_ReadFrom g1 plen
        (map (\<lambda>i. (t i, frame (r i) (msg_header pads msgID n i) (chunk i), addr, None)) js) =
      Some (g', (take plen (concat (map chunk [0..<n])), addr, None), []) \<and> gecko_inv g'"
      by (intro Cons.IH [OF _ _ ne new])
    moreover have "gecko_iter g plen (t j, ?f, addr, None) = (g1, None)" unfolding it using False by (simp only: if_False)
    ultimately show ?thesis by (simp only: list.map gecko_ReadFrom.simps prod.case option.case)
  qed
qed simp

section \<open>Sending a message\<close>

lemma concat_chunk_list:
  assumes "0 < n"
  shows "concat (map snd (chunk_list p n)) = p"
proof -
  define k where "k = length p div n"
  have kn: "n * k \<le> length p" by (simp add: k_def)
  have "concat (map (\<lambda>i. drop (i * k) (take (i * k + k) p)) [0..<m]) = take (m * k) p" for m
  proof (induction m)
    case (Suc m)
    have "take (Suc m * k) p = take (m * k) p @ drop (m * k) (take (m * k + k) p)"
    proof -
      have "drop (m * k) (take (m * k + k) p) = take k (drop (m * k) p)" by (simp only: drop_take add_diff_cancel_left')
      then show ?thesis using take_add [of "m * k" k p] by (simp only: mult_Suc add.commute)
    qed
    then show ?case using Suc by simp
  qed simp
  note front = this [of "n - 1"]
  have "concat (map snd (chunk_list p n)) =
      concat (map (\<lambda>i. drop (i * k) (take (if i < n - 1 then i * k + k else length p) p)) [0..<n])"
    unfolding chunk_list_def k_def Let_def by (simp add: comp_def)
  also have "[0..<n] = [0..<n - 1] @ [n - 1]" using assms by (metis Suc_diff_1 upt_Suc_append zero_le)
  also have "concat (map (\<lambda>i. drop (i * k) (take (if i < n - 1 then i * k + k else length p) p)) ([0..<n - 1] @ [n - 1])) =
      concat (map (\<lambda>i. drop (i * k) (take (i * k + k) p)) [0..<n - 1]) @ drop ((n - 1) * k) p"
  proof -
    have e: "map (\<lambda>i. drop (i * k) (take (if i < n - 1 then i * k + k else length p) p)) [0..<n - 1] =
        map (\<lambda>i. drop (i * k) (take (i * k + k) p)) [0..<n - 1]" by (rule map_cong) simp_all
    then show ?thesis unfolding map_append concat_append by (simp only: e) simp
  qed
  also have "\<dots> = p" by (simp only: front append_take_drop_id)
  finally show ?thesis .
qed

lemma chunk_list_simps:
  "length (chunk_list p n) = n" "i < n \<Longrightarrow> fst (chunk_list p n ! i) = i"
  "i < n \<Longrightarrow> length (snd (chunk_list p n ! i)) \<le> length p"
  by (simp_all add: chunk_list_def Let_def)

lemma randIntn_range: "0 < n \<Longrightarrow> 0 \<le> randIntn n d \<and> randIntn n d < n"
  by (simp add: randIntn_def)

lemma randomFragmentChunks_range: "2 \<le> randomFragmentChunks d \<and> randomFragmentChunks d \<le> 8"
  using randIntn_range [of 7 d]
  by (simp add: randomFragmentChunks_def geckoMinFragmentChunks_def geckoMaxFragmentChunks_def nat_le_iff)

text \<open>The sizes that \<open>WrapPacketConnGecko\<close> accepts.\<close>

definition gecko_sizes_ok :: "gecko \<Rightarrow> bool" where
  "gecko_sizes_ok g \<longleftrightarrow> 0 < gk_minPkt g \<and> gk_minPkt g \<le> gk_maxPkt g \<and> gk_maxPkt g \<le> int geckoBufferSize"

lemma randomPadLen_range:
  fixes len :: nat
  assumes "gecko_sizes_ok g"
  defines "base \<equiv> int (smSaltLen + geckoHeaderSize + len)"
  shows "base \<le> gk_maxPkt g \<Longrightarrow> gk_minPkt g \<le> base + int (unat (randomPadLen g len d)) \<and>
      base + int (unat (randomPadLen g len d)) \<le> gk_maxPkt g"
    "\<not> base \<le> gk_maxPkt g \<Longrightarrow> randomPadLen g len d = 0"
proof -
  let ?lo = "max (gk_minPkt g) base"
  have s: "0 < gk_minPkt g" "gk_minPkt g \<le> gk_maxPkt g" "gk_maxPkt g \<le> 2048"
    using assms(1) by (simp_all add: gecko_sizes_ok_def geckoBufferSize_def)
  have pl: "randomPadLen g len d = (if ?lo > gk_maxPkt g then 0 else word_of_int (?lo - base + randIntn (gk_maxPkt g - ?lo + 1) d))"
    unfolding randomPadLen_def base_def Let_def by (rule refl)
  show "randomPadLen g len d = 0" if "\<not> base \<le> gk_maxPkt g"
  proof -
    have "gk_maxPkt g < ?lo" using that by linarith
    then show ?thesis unfolding pl by (rule if_P)
  qed
  show "gk_minPkt g \<le> base + int (unat (randomPadLen g len d)) \<and> base + int (unat (randomPadLen g len d)) \<le> gk_maxPkt g"
    if b: "base \<le> gk_maxPkt g"
  proof -
    have lo: "?lo \<le> gk_maxPkt g" using b s by simp
    define x where "x = ?lo - base + randIntn (gk_maxPkt g - ?lo + 1) d"
    have r: "0 \<le> randIntn (gk_maxPkt g - ?lo + 1) d" "randIntn (gk_maxPkt g - ?lo + 1) d < gk_maxPkt g - ?lo + 1"
      using randIntn_range [of "gk_maxPkt g - ?lo + 1" d] lo by simp_all
    have "0 \<le> base" by (simp add: base_def)
    then have x: "0 \<le> x" "x < 65536" "gk_minPkt g \<le> base + x" "base + x \<le> gk_maxPkt g" using r s lo unfolding x_def by simp_all
    have "randomPadLen g len d = word_of_int x" unfolding pl x_def using lo by (intro if_not_P) linarith
    moreover have "uint (word_of_int x :: u16) = x" using x by (simp add: uint_word_of_int)
    ultimately show ?thesis using x by (simp add: unat_eq_nat_uint)
  qed
qed

text \<open>The inner connection: Salamander above a link that takes every datagram; salts by position.\<close>

definition obfs_inner ::
  "(bytes \<Rightarrow> bytes) \<Rightarrow> (nat \<Rightarrow> bytes) \<Rightarrow> obfsConn \<times> bytes list \<Rightarrow> bytes \<Rightarrow> ((obfsConn \<times> bytes list) \<times> string option) option" where
  "obfs_inner hash salts s b =
     (case s of (c, ds) \<Rightarrow>
        (case obfs_WriteTo hash (salts (length ds)) c b of
           None \<Rightarrow> None
         | Some (c, d) \<Rightarrow> Some ((c, ds @ [d]), None)))"

lemma obfs_inner_wire:
  assumes "obfs_ok psk c" "\<forall>k. length (salts k) = smSaltLen" "obfs_fits b"
  obtains c' where "obfs_inner hash salts (c, ds) b = Some ((c', ds @ [sm_wire hash psk (salts (length ds)) b]), None)"
    "obfs_ok psk c'"
  by (rule obfs_WriteTo_wire [OF assms(1) _ assms(3), of "salts (length ds)" hash])
    (use assms(2) in \<open>auto simp: obfs_inner_def\<close>)

definition gecko_frame :: "gecko \<Rightarrow> (nat \<Rightarrow> u32) \<Rightarrow> (nat \<Rightarrow> nat \<Rightarrow> byte) \<Rightarrow> byte \<Rightarrow> nat \<Rightarrow> nat \<times> bytes \<Rightarrow> bytes" where
  "gecko_frame g draws r msgID n ic = (case ic of (i, chunk) \<Rightarrow>
     frame (r i) \<lparr>fh_padLen = randomPadLen g (length chunk) (draws i), fh_msgID = msgID, fh_chunkIdx = word_of_nat i,
        fh_totalChunks = word_of_nat n\<rparr> chunk)"

lemma gecko_frame_length:
  assumes "gecko_sizes_ok g" "length chunk + 13 \<le> 2048"
  shows "let l = int smSaltLen + int (length (gecko_frame g draws r msgID n (i, chunk)))
    in obfs_fits (gecko_frame g draws r msgID n (i, chunk)) \<and>
       (if int (length chunk) + 13 \<le> gk_maxPkt g then gk_minPkt g \<le> l \<and> l \<le> gk_maxPkt g else l = int (length chunk) + 13)"
proof -
  note R = randomPadLen_range [OF assms(1), of "length chunk" "draws i"]
  have c: "int (smSaltLen + geckoHeaderSize + length chunk) = int (length chunk) + 13"
    by (simp add: smSaltLen_def geckoHeaderSize_def)
  let ?pad = "randomPadLen g (length chunk) (draws i)"
  have l: "int (length (gecko_frame g draws r msgID n (i, chunk))) = 5 + int (unat ?pad) + int (length chunk)"
    by (simp add: gecko_frame_def length_frame geckoHeaderSize_def)
  have ne: "gecko_frame g draws r msgID n (i, chunk) \<noteq> []" by (simp add: gecko_frame_def frame_def)
  have m: "gk_maxPkt g \<le> 2048" using assms(1) by (simp add: gecko_sizes_ok_def geckoBufferSize_def)
  show ?thesis
  proof (cases "int (length chunk) + 13 \<le> gk_maxPkt g")
    case True
    then have "gk_minPkt g \<le> int (length chunk) + 13 + int (unat ?pad)" "int (length chunk) + 13 + int (unat ?pad) \<le> gk_maxPkt g"
      using R(1) unfolding c by simp_all
    then show ?thesis using l ne m True by (simp add: obfs_fits_def udpBufferSize_def smSaltLen_def Let_def)
  next
    case False
    then have "?pad = 0" using R(2) unfolding c by simp
    then show ?thesis using l ne False assms(2) by (simp add: obfs_fits_def udpBufferSize_def smSaltLen_def Let_def)
  qed
qed

text \<open>The datagrams of a list of chunks, from the \<open>k\<close>-th on.\<close>

fun gecko_wires ::
  "(bytes \<Rightarrow> bytes) \<Rightarrow> bytes \<Rightarrow> (nat \<Rightarrow> bytes) \<Rightarrow> (nat \<times> bytes \<Rightarrow> bytes) \<Rightarrow> nat \<Rightarrow> (nat \<times> bytes) list \<Rightarrow> bytes list" where
  "gecko_wires hash psk salts f k [] = []"
| "gecko_wires hash psk salts f k (ic # cs) = sm_wire hash psk (salts k) (f ic) # gecko_wires hash psk salts f (Suc k) cs"

lemma length_gecko_wires [simp]: "length (gecko_wires hash psk salts f k cs) = length cs"
  by (induction cs arbitrary: k) simp_all

lemma gecko_wires_nth:
  "i < length cs \<Longrightarrow> gecko_wires hash psk salts f k cs ! i = sm_wire hash psk (salts (k + i)) (f (cs ! i))"
proof (induction cs arbitrary: k i)
  case (Cons ic cs)
  then show ?case by (cases i) simp_all
qed simp

lemma write_chunks_wire:
  assumes "obfs_ok psk c" "\<forall>k. length (salts k) = smSaltLen" "gecko_sizes_ok g" "2 \<le> n" "n \<le> 8"
    and "\<forall>(i, chunk) \<in> set cs. i < n \<and> length chunk + 13 \<le> 2048"
  shows "\<exists>c'. write_chunks (obfs_inner hash salts) draws (\<lambda>i. Some (r i)) g msgID n (c, ds) cs =
      Some ((c', ds @ gecko_wires hash psk salts (gecko_frame g draws r msgID n) (length ds) cs), None) \<and>
    obfs_ok psk c'"
  using assms(1,6)
proof (induction cs arbitrary: c ds)
  case (Cons ic cs)
  obtain i chunk where ic: "ic = (i, chunk)" by fastforce
  let ?pad = "randomPadLen g (length chunk) (draws i)"
  let ?h = "\<lparr>fh_padLen = ?pad, fh_msgID = msgID, fh_chunkIdx = word_of_nat i, fh_totalChunks = word_of_nat n\<rparr> :: frameHeader"
  let ?f = "gecko_frame g draws r msgID n (i, chunk)"
  have i: "i < n" "length chunk + 13 \<le> 2048" using Cons.prems(2) ic by auto
  have ok: "fh_ok ?h" using msg_header_ok [OF assms(4,5) i(1), of "\<lambda>_. ?pad" msgID] by (simp add: msg_header_def)
  have f: "?f = frame (r i) ?h chunk" by (simp add: gecko_frame_def)
  have e: "encodeFrame (Some (r i)) ?h chunk (replicate (geckoHeaderSize + unat ?pad + length chunk) 0) =
      Some (Inr (?f, geckoHeaderSize + unat ?pad + length chunk))"
    using encodeFrame_frame [OF ok, of "replicate (geckoHeaderSize + unat ?pad + length chunk) 0"] by (simp add: f)
  have tk: "take (geckoHeaderSize + unat ?pad + length chunk) ?f = ?f" by (simp add: f length_frame)
  have fit: "obfs_fits ?f" using gecko_frame_length [OF assms(3) i(2)] by (simp add: Let_def)
  obtain c1 where w: "obfs_inner hash salts (c, ds) ?f = Some ((c1, ds @ [sm_wire hash psk (salts (length ds)) ?f]), None)"
    "obfs_ok psk c1" using obfs_inner_wire [OF Cons.prems(1) assms(2) fit] by metis
  obtain c' where r: "write_chunks (obfs_inner hash salts) draws (\<lambda>i. Some (r i)) g msgID n
      (c1, ds @ [sm_wire hash psk (salts (length ds)) ?f]) cs =
      Some ((c', (ds @ [sm_wire hash psk (salts (length ds)) ?f]) @
        gecko_wires hash psk salts (gecko_frame g draws r msgID n) (Suc (length ds)) cs), None)"
    "obfs_ok psk c'"
    using Cons.IH [OF w(2), of "ds @ [sm_wire hash psk (salts (length ds)) ?f]"] Cons.prems(2) by auto
  show ?case unfolding ic using w(1) r e tk by (simp add: Let_def)
qed simp

section \<open>End to end\<close>

text \<open>The receiver can take a new message of this source under this id.\<close>

definition room_for :: "gecko \<Rightarrow> string \<Rightarrow> byte \<Rightarrow> bool" where
  "room_for g addr msgID \<longleftrightarrow> gecko_inv g \<and> map_of (gk_reassembly g) (addr, msgID) = None \<and>
     int (sources addr (gk_reassembly g)) < geckoMaxPerSource"

definition long_header :: "bytes \<Rightarrow> bool" where
  "long_header p \<longleftrightarrow> (case p of [] \<Rightarrow> False | b # _ \<Rightarrow> and b 0x80 \<noteq> 0)"

lemma gecko_WriteTo_long:
  fixes draw :: u32
  assumes "obfs_ok psk c" "\<forall>k. length (salts k) = smSaltLen" "gecko_sizes_ok g" "long_header p" "length p + 13 \<le> 2048"
  defines "n \<equiv> randomFragmentChunks draw" and "g' \<equiv> g\<lparr>gk_msgID := gk_msgID g + 1\<rparr>"
  obtains c' where "gecko_WriteTo (obfs_inner hash salts) draw draws (\<lambda>i. Some (r i)) g (c, []) p =
    Some (g', (c', gecko_wires hash psk salts (gecko_frame g' draws r (ucast (gk_msgID g')) n) 0 (chunk_list p n)), length p, None)"
    "obfs_ok psk c'"
proof -
  have n: "2 \<le> n" "n \<le> 8" using randomFragmentChunks_range by (simp_all add: n_def)
  have g': "gecko_sizes_ok g'" using assms(3) by (simp add: gecko_sizes_ok_def g'_def)
  have cs: "\<forall>(i, chunk) \<in> set (chunk_list p n). i < n \<and> length chunk + 13 \<le> 2048"
  proof
    fix ic assume "ic \<in> set (chunk_list p n)"
    then obtain k where k: "k < n" "ic = chunk_list p n ! k"
      using chunk_list_simps(1) [of p n] by (metis in_set_conv_nth)
    then show "case ic of (i, chunk) \<Rightarrow> i < n \<and> length chunk + 13 \<le> 2048"
      using chunk_list_simps(2,3) [of k n p] assms(5) by (auto simp: case_prod_beta)
  qed
  obtain c' where w: "write_chunks (obfs_inner hash salts) draws (\<lambda>i. Some (r i)) g' (ucast (gk_msgID g')) n (c, []) (chunk_list p n) =
      Some ((c', gecko_wires hash psk salts (gecko_frame g' draws r (ucast (gk_msgID g')) n) 0 (chunk_list p n)), None)"
    "obfs_ok psk c'"
    using write_chunks_wire [OF assms(1,2) g' n cs, of hash draws r "ucast (gk_msgID g')" "[]"] by auto
  obtain b q where p: "p = b # q" "and b 0x80 \<noteq> 0" using assms(4) by (auto simp: long_header_def split: list.splits)
  show ?thesis
    by (rule that [of c'], unfold gecko_WriteTo_def p(1) list.case if_P [OF p(2)])
      (use w in \<open>simp_all add: writeFragmented_def n_def [symmetric] g'_def [symmetric] p(1) [symmetric] Let_def\<close>)
qed

lemma gecko_long_delivered:
  fixes hash :: "bytes \<Rightarrow> bytes" and psk :: bytes and draws :: "nat \<Rightarrow> u32" and r :: "nat \<Rightarrow> nat \<Rightarrow> byte"
  assumes "obfs_ok psk b" "\<forall>k. length (salts k) = smSaltLen" "gecko_sizes_ok g" "2 \<le> n" "n \<le> 8"
    and "length p + 13 \<le> 2048" "room_for v addr msgID" "distinct is" "set is = {..<n}" "length ts = n"
  defines "ds \<equiv> gecko_wires hash psk salts (gecko_frame g draws r msgID n) 0 (chunk_list p n)"
  shows "\<exists>v'. gecko_ReadFrom v plen (zip ts (obfs_reads hash b (replicate udpBufferSize 0) n
      (map (\<lambda>i. (ds ! i, addr, None)) is))) = Some (v', (take plen p, addr, None), []) \<and> gecko_inv v'"
proof -
  let ?cs = "chunk_list p n"
  let ?f = "gecko_frame g draws r msgID n"
  define chunk where "chunk = (\<lambda>i. snd (?cs ! i))"
  define pads where "pads = (\<lambda>i. randomPadLen g (length (chunk i)) (draws i))"
  have li: "length is = n" using distinct_card [OF assms(8)] assms(9) by simp
  have cs: "?cs ! i = (i, chunk i)" if "i < n" for i
    using that chunk_list_simps(2) [of i n p] by (simp add: chunk_def prod_eq_iff)
  have fr: "?f (?cs ! i) = frame (r i) (msg_header pads msgID n i) (chunk i)" if "i < n" for i
    using cs [OF that] by (simp add: gecko_frame_def msg_header_def pads_def)
  have fits: "obfs_fits (?f (?cs ! i))" "length (?f (?cs ! i)) \<le> geckoBufferSize" if "i < n" for i
  proof -
    have "length (chunk i) + 13 \<le> 2048" using chunk_list_simps(3) [OF that, of p] assms(6) by (simp add: chunk_def)
    from gecko_frame_length [OF assms(3) this, of draws r msgID n i] show "obfs_fits (?f (?cs ! i))"
      by (simp add: cs [OF that] Let_def)
    then show "length (?f (?cs ! i)) \<le> geckoBufferSize" by (simp add: obfs_fits_def udpBufferSize_def geckoBufferSize_def)
  qed
  have lt: "i < n" if "i \<in> set is" for i using that assms(9) by auto
  let ?sps = "map (\<lambda>i. (salts i, ?f (?cs ! i))) is"
  have "\<forall>(salt, q) \<in> set ?sps. length salt = smSaltLen \<and> obfs_fits q \<and> length q \<le> length (replicate udpBufferSize (0 :: byte))"
    using assms(2) fits lt by (fastforce simp: geckoBufferSize_def udpBufferSize_def)
  from obfs_reads_wire [OF assms(1) this, of hash addr]
  have reads: "obfs_reads hash b (replicate udpBufferSize 0) n (map (\<lambda>i. (ds ! i, addr, None)) is) =
      map (\<lambda>i. (frame (r i) (msg_header pads msgID n i) (chunk i), addr, None)) is"
  proof -
    have "map (\<lambda>(salt, q). (sm_wire hash psk salt q, addr, None)) ?sps = map (\<lambda>i. (ds ! i, addr, None :: string option)) is"
      using lt by (simp add: ds_def gecko_wires_nth chunk_list_simps(1))
    moreover have "map (\<lambda>(salt, q). (q, addr, None :: string option)) ?sps =
        map (\<lambda>i. (frame (r i) (msg_header pads msgID n i) (chunk i), addr, None)) is"
      using lt fr by simp
    ultimately show ?thesis using obfs_reads_wire [OF assms(1), of ?sps "replicate udpBufferSize 0" hash addr]
        \<open>\<forall>(salt, q) \<in> set ?sps. _\<close> li by (simp only: length_map)
  qed
  define t where "t = (\<lambda>i. ts ! (SOME k. k < n \<and> is ! k = i))"
  have tk: "t (is ! k) = ts ! k" if "k < n" for k
  proof -
    have "(SOME k'. k' < n \<and> is ! k' = is ! k) = k"
      by (rule some_equality) (use that assms(8) li in \<open>auto simp: nth_eq_iff_index_eq\<close>)
    then show ?thesis by (simp add: t_def)
  qed
  have z: "zip ts (map (\<lambda>i. (frame (r i) (msg_header pads msgID n i) (chunk i), addr, None :: string option)) is) =
      map (\<lambda>i. (t i, frame (r i) (msg_header pads msgID n i) (chunk i), addr, None)) is"
    by (rule nth_equalityI) (use tk li assms(10) in simp_all)
  have h: "holding (addr, msgID) chunk (word_of_nat n) {} v" using assms(7) by (simp add: holding_def room_for_def)
  have ne: "is \<noteq> []" using li assms(4) by auto
  have fit: "\<forall>i \<in> set is. length (frame (r i) (msg_header pads msgID n i) (chunk i)) \<le> geckoBufferSize"
    using fits(2) fr lt by metis
  have un: "{} \<union> set is = {..<n}" using assms(9) by (simp only: Un_empty_left)
  obtain v' where "gecko_ReadFrom v plen (map (\<lambda>i. (t i, frame (r i) (msg_header pads msgID n i) (chunk i), addr, None)) is) =
    Some (v', (take plen (concat (map chunk [0..<n])), addr, None), [])" "gecko_inv v'"
    using frames_reassemble [OF assms(4,5) h assms(8) ne _ un fit, of plen t] by auto
  moreover have "map chunk [0..<n] = map snd ?cs"
    by (rule nth_equalityI) (simp_all add: chunk_def chunk_list_simps(1))
  then have "concat (map chunk [0..<n]) = p" using concat_chunk_list [of n p] assms(4) by simp
  ultimately show ?thesis unfolding reads z by metis
qed

lemma gecko_short_delivered:
  assumes "obfs_ok psk a" "obfs_ok psk b" "\<forall>k. length (salts k) = smSaltLen" "p \<noteq> []" "\<not> long_header p"
    and "length p + 13 \<le> 2048"
  obtains a' where "gecko_WriteTo (obfs_inner hash salts) draw draws rnd g (a, []) p =
      Some (g, (a', [sm_wire hash psk (salts 0) p]), length p, None)"
    "gecko_ReadFrom v plen (zip [t] (obfs_reads hash b (replicate udpBufferSize 0) 1 [(sm_wire hash psk (salts 0) p, addr, None)])) =
      Some (v, (take plen p, addr, None), [])"
proof -
  have fit: "obfs_fits p" using assms(4,6) by (simp add: obfs_fits_def udpBufferSize_def smSaltLen_def)
  obtain a' where w: "obfs_inner hash salts (a, []) p = Some ((a', [sm_wire hash psk (salts 0) p]), None)"
    using obfs_inner_wire [OF assms(1,3) fit, of hash "[]"] by auto
  obtain x q where p: "p = x # q" "and x 0x80 = 0" using assms(4,5) by (cases p) (auto simp: long_header_def)
  have "length p \<le> length (replicate udpBufferSize (0 :: byte))" using assms(6) by (simp add: udpBufferSize_def)
  then have "obfs_reads hash b (replicate udpBufferSize 0) 1 [(sm_wire hash psk (salts 0) p, addr, None)] = [(p, addr, None)]"
    using obfs_reads_wire [OF assms(2), of "[(salts 0, p)]" "replicate udpBufferSize 0" hash addr] assms(3) fit by simp
  moreover have "take geckoBufferSize p = p" using assms(6) by (simp add: geckoBufferSize_def)
  ultimately have "gecko_ReadFrom v plen (zip [t] (obfs_reads hash b (replicate udpBufferSize 0) 1 [(sm_wire hash psk (salts 0) p, addr, None)])) =
      Some (v, (take plen p, addr, None), [])"
    using p by (cases t) (simp add: gecko_iter_def)
  moreover have "gecko_WriteTo (obfs_inner hash salts) draw draws rnd g (a, []) p =
      Some (g, (a', [sm_wire hash psk (salts 0) p]), length p, None)"
    using w p by (simp add: gecko_WriteTo_def)
  ultimately show ?thesis using that by blast
qed

text \<open>
  C39: A packet written through Gecko above Salamander arrives: it goes out as one datagram, or, with QUIC's
  long header, as 2 to 8 datagrams which, unless the packet alone exceeds it, all lie between
  the minimum and the maximum size; and in whatever order these reach the peer with the same key,
  its \<open>ReadFrom\<close> returns exactly the packet after the last one.  The peer must not be in the middle of a
  message of this source with the same id, nor hold 8 others of it.
\<close>

theorem gecko_delivers:
  fixes hash :: "bytes \<Rightarrow> bytes" and r :: "nat \<Rightarrow> nat \<Rightarrow> byte"
  assumes "obfs_ok psk a" "obfs_ok psk b" "\<forall>k. length (salts k) = smSaltLen" "gecko_sizes_ok g"
    and "p \<noteq> []" "length p + 13 \<le> 2048" "length p \<le> plen" "room_for v addr (ucast (gk_msgID g + 1))"
  shows "\<exists>g' a' ds. gecko_WriteTo (obfs_inner hash salts) draw draws (\<lambda>i. Some (r i)) g (a, []) p =
      Some (g', (a', ds), length p, None) \<and>
    (if long_header p then length ds \<in> {2..8} else length ds = 1) \<and>
    (long_header p \<and> int (length p) + 13 \<le> gk_maxPkt g \<longrightarrow>
       (\<forall>d \<in> set ds. gk_minPkt g \<le> int (length d) \<and> int (length d) \<le> gk_maxPkt g)) \<and>
    (\<forall>is ts. distinct is \<and> set is = {..<length ds} \<and> length ts = length ds \<longrightarrow>
       (\<exists>v'. gecko_ReadFrom v plen (zip ts (obfs_reads hash b (replicate udpBufferSize 0) (length ds)
            (map (\<lambda>i. (ds ! i, addr, None)) is))) = Some (v', (p, addr, None), [])))"
proof (cases "long_header p")
  case False
  let ?ds = "[sm_wire hash psk (salts 0) p]"
  obtain a' where w: "gecko_WriteTo (obfs_inner hash salts) draw draws (\<lambda>i. Some (r i)) g (a, []) p = Some (g, (a', ?ds), length p, None)"
    using gecko_short_delivered [OF assms(1-3,5) False assms(6)] by metis
  have "\<exists>v'. gecko_ReadFrom v plen (zip ts (obfs_reads hash b (replicate udpBufferSize 0) (length ?ds)
      (map (\<lambda>i. (?ds ! i, addr, None)) is))) = Some (v', (p, addr, None), [])"
    if i: "distinct is" "set is = {..<length ?ds}" "length ts = length ?ds" for "is" ts
  proof -
    have "length is = 1" using distinct_card [OF i(1)] i(2) by simp
    then obtain j where j: "is = [j]" by (auto simp: length_Suc_conv)
    moreover have "j = 0" using i(2) j by auto
    ultimately have is0: "is = [0]" by simp
    obtain t where t: "ts = [t]" using i(3) by (auto simp: length_Suc_conv)
    have pl: "take plen p = p" using assms(7) by simp
    have "gecko_ReadFrom v plen (zip [t] (obfs_reads hash b (replicate udpBufferSize 0) 1 [(sm_wire hash psk (salts 0) p, addr, None)])) =
        Some (v, (take plen p, addr, None), [])"
      by (rule gecko_short_delivered [OF assms(1-3,5) False assms(6)])
    moreover have "length ?ds = 1" "map (\<lambda>i. (?ds ! i, addr, None :: string option)) is = [(sm_wire hash psk (salts 0) p, addr, None)]"
      by (simp_all add: is0)
    ultimately show ?thesis unfolding t pl by (intro exI [of _ v]) (simp only:)
  qed
  then show ?thesis using w False by (intro exI [of _ g] exI [of _ a'] exI [of _ ?ds]) simp
next
  case True
  define n where "n = randomFragmentChunks draw"
  have n: "2 \<le> n" "n \<le> 8" using randomFragmentChunks_range by (simp_all add: n_def)
  define g' where "g' = g\<lparr>gk_msgID := gk_msgID g + 1\<rparr>"
  have g': "gecko_sizes_ok g'" "gk_maxPkt g' = gk_maxPkt g" "gk_minPkt g' = gk_minPkt g" "gk_msgID g' = gk_msgID g + 1"
    using assms(4) by (simp_all add: gecko_sizes_ok_def g'_def)
  let ?f = "gecko_frame g' draws r (ucast (gk_msgID g')) n"
  define ds where "ds = gecko_wires hash psk salts ?f 0 (chunk_list p n)"
  have lds: "length ds = n" by (simp add: ds_def chunk_list_simps(1))
  obtain a' where w: "gecko_WriteTo (obfs_inner hash salts) draw draws (\<lambda>i. Some (r i)) g (a, []) p = Some (g', (a', ds), length p, None)"
    using gecko_WriteTo_long [OF assms(1,3,4) True assms(6), of hash draw draws r] unfolding n_def ds_def g'_def by metis
  have sizes: "gk_minPkt g \<le> int (length d) \<and> int (length d) \<le> gk_maxPkt g"
    if m: "int (length p) + 13 \<le> gk_maxPkt g" and d: "d \<in> set ds" for d
  proof -
    obtain i where i: "i < n" "d = ds ! i" using d lds by (metis in_set_conv_nth)
    let ?c = "snd (chunk_list p n ! i)"
    have ic: "chunk_list p n ! i = (i, ?c)" using chunk_list_simps(2) [OF i(1), of p] by (simp add: prod_eq_iff)
    have c: "length ?c \<le> length p" using chunk_list_simps(3) [OF i(1)] .
    have "length ?c + 13 \<le> 2048" using c assms(6) by simp
    note L = gecko_frame_length [OF g'(1) this, of draws r "ucast (gk_msgID g')" n i]
    have "length d = smSaltLen + length (?f (i, ?c))"
      using i ic assms(3) by (simp add: ds_def gecko_wires_nth chunk_list_simps(1) sm_wire_def)
    then show ?thesis using L c m by (simp add: Let_def g'(2,3) split: if_splits)
  qed
  have "\<exists>v'. gecko_ReadFrom v plen (zip ts (obfs_reads hash b (replicate udpBufferSize 0) (length ds)
      (map (\<lambda>i. (ds ! i, addr, None)) is))) = Some (v', (p, addr, None), [])"
    if i: "distinct is" "set is = {..<length ds}" "length ts = length ds" for "is" ts
  proof -
    have "take plen p = p" using assms(7) by simp
    then show ?thesis
      using gecko_long_delivered [where ts = ts and hash = hash and draws = draws and r = r and plen = plen,
          OF assms(2,3) g'(1) n assms(6) assms(8) [folded g'(4)] i(1), folded ds_def] i(2,3)
      unfolding lds by auto
  qed
  then show ?thesis using w sizes lds n True by (intro exI [of _ g'] exI [of _ a'] exI [of _ ds]) simp
qed

lemma gecko_delivers_witness:
  "\<exists>c g g' a' ds v'. WrapPacketConnGecko [1, 2, 3, 4] 0 0 = Inr (c, g) \<and>
     gecko_WriteTo (obfs_inner toy_hash (\<lambda>k. replicate 8 (of_nat k))) 4 (\<lambda>i. 77) (\<lambda>i. Some (\<lambda>j. of_nat j)) g (c, [])
       [0xC0, 1, 2, 3, 4, 5, 6] = Some (g', (a', ds), 7, None) \<and>
     gecko_ReadFrom g 1500 (zip (replicate (length ds) (0, 0)) (obfs_reads toy_hash c (replicate udpBufferSize 0) (length ds)
       (map (\<lambda>i. (ds ! i, ''a:1'', None)) (rev [0..<length ds])))) = Some (v', ([0xC0, 1, 2, 3, 4, 5, 6], ''a:1'', None), [])"
proof -
  let ?p = "[0xC0, 1, 2, 3, 4, 5, 6] :: bytes"
  obtain c where c: "WrapPacketConnSalamander [1, 2, 3, 4] = Some c"
    by (simp add: WrapPacketConnSalamander_def newSalamander_def copy_at_def smPSKMinLen_def Let_def)
  note ok = WrapPacketConnSalamander_ok [OF c]
  define g where "g = newGeckoPacketConn 512 1200"
  have w: "WrapPacketConnGecko [1, 2, 3, 4] 0 0 = Inr (c, g)"
    by (simp add: WrapPacketConnGecko_def c g_def geckoDefaultMinPacket_def geckoDefaultMaxPacket_def geckoBufferSize_def)
  have s: "gecko_sizes_ok g" by (simp add: g_def newGeckoPacketConn_def gecko_sizes_ok_def geckoBufferSize_def)
  have v: "room_for g ''a:1'' (ucast (gk_msgID g + 1))"
    using newGecko_ok by (simp add: g_def room_for_def newGeckoPacketConn_def sources_def geckoMaxPerSource_def)
  have salts: "\<forall>k. length (replicate 8 (of_nat k :: byte)) = smSaltLen" by (simp add: smSaltLen_def)
  obtain g' a' ds where d: "gecko_WriteTo (obfs_inner toy_hash (\<lambda>k. replicate 8 (of_nat k))) 4 (\<lambda>i. 77)
       (\<lambda>i. Some ((\<lambda>i j. of_nat j) i)) g (c, []) ?p = Some (g', (a', ds), length ?p, None)"
    and del: "\<forall>is ts. distinct is \<and> set is = {..<length ds} \<and> length ts = length ds \<longrightarrow>
       (\<exists>v'. gecko_ReadFrom g 1500 (zip ts (obfs_reads toy_hash c (replicate udpBufferSize 0) (length ds)
            (map (\<lambda>i. (ds ! i, ''a:1'', None)) is))) = Some (v', (?p, ''a:1'', None), []))"
    using gecko_delivers [OF ok ok salts s, of ?p 1500 g "''a:1''" toy_hash 4 "\<lambda>i. 77" "\<lambda>i j. of_nat j"] v by auto
  have "distinct (rev [0..<length ds]) \<and> set (rev [0..<length ds]) = {..<length ds} \<and>
      length (replicate (length ds) (0 :: int, 0 :: nat)) = length ds" by auto
  from mp [OF spec [OF spec [OF del]] this] obtain v' where "gecko_ReadFrom g 1500 (zip (replicate (length ds) (0, 0))
      (obfs_reads toy_hash c (replicate udpBufferSize 0) (length ds) (map (\<lambda>i. (ds ! i, ''a:1'', None)) (rev [0..<length ds])))) =
      Some (v', (?p, ''a:1'', None), [])" by blast
  moreover have "gecko_WriteTo (obfs_inner toy_hash (\<lambda>k. replicate 8 (of_nat k))) 4 (\<lambda>i. 77) (\<lambda>i. Some (\<lambda>j. of_nat j)) g (c, [])
       ?p = Some (g', (a', ds), 7, None)" using d by simp
  ultimately show ?thesis using w by blast
qed

end
