(* ===== verification/Port_Union.thy ===== *)
theory Port_Union
  imports Go_Strings
begin

text \<open>
  \<open>extras/utils/portunion.go\<close>: sets of ports as lists of inclusive ranges, parsed from strings such
  as \<open>1234,5678-9012\<close>.  Used by port hopping, by the server's listeners and by the sniffer.
\<close>

section \<open>Ranges and their order\<close>

datatype PortRange = PortRange (pr_Start: u16) (pr_End: u16)

type_synonym PortUnion = "PortRange list"

text \<open>The comparison that \<open>Normalize\<close> sorts with is a linear order, so the sorted list is unique.\<close>

definition range_less :: "PortRange \<Rightarrow> PortRange \<Rightarrow> bool" where
  "range_less a b \<longleftrightarrow> (if pr_Start a = pr_Start b then pr_End a < pr_End b else pr_Start a < pr_Start b)"

instantiation PortRange :: linorder
begin

definition less_PortRange :: "PortRange \<Rightarrow> PortRange \<Rightarrow> bool" where
  "less_PortRange = range_less"

definition less_eq_PortRange :: "PortRange \<Rightarrow> PortRange \<Rightarrow> bool" where
  "less_eq_PortRange a b \<longleftrightarrow> a = b \<or> range_less a b"

instance
  by standard (auto simp: less_PortRange_def less_eq_PortRange_def range_less_def PortRange.expand split: if_splits)

end

section \<open>Operations\<close>

text \<open>One iteration of the merging loop, on the ranges merged so far.\<close>

definition merge_step :: "PortUnion \<Rightarrow> PortRange \<Rightarrow> PortUnion" where
  "merge_step normalized current =
     (let last' = last normalized
      in if (ucast (pr_Start current) :: u32) \<le> ucast (pr_End last') + 1
         then if pr_End current > pr_End last'
              then butlast normalized @ [PortRange (pr_Start last') (pr_End current)]
              else normalized
         else normalized @ [current])"

definition Normalize :: "PortUnion \<Rightarrow> PortUnion" where
  "Normalize u =
     (if u = [] then u
      else (let u = sort u in foldl merge_step [hd u] (tl u)))"

definition parse_port :: "string \<Rightarrow> u16 option" where
  "parse_port s = map_option word_of_int (ParseUint 16 s)"

text \<open>One iteration of the parsing loop.\<close>

definition parse_piece :: "string \<Rightarrow> PortRange option" where
  "parse_piece portStr =
     (if Contains_str portStr ''-''
      then (case split_at (CHR ''-'') portStr of
              [a, b] \<Rightarrow>
                (case parse_port a of
                   None \<Rightarrow> None
                 | Some start \<Rightarrow>
                     (case parse_port b of
                        None \<Rightarrow> None
                      | Some end' \<Rightarrow>
                          if start > end' then Some (PortRange end' start) else Some (PortRange start end')))
            | _ \<Rightarrow> None)
      else map_option (\<lambda>port. PortRange port port) (parse_port portStr))"

fun parse_pieces :: "PortUnion \<Rightarrow> string list \<Rightarrow> PortUnion option" where
  "parse_pieces result [] = Some result"
| "parse_pieces result (portStr # portStrs) =
     (case parse_piece portStr of
        None \<Rightarrow> None
      | Some r \<Rightarrow> parse_pieces (result @ [r]) portStrs)"

text \<open>The nil slice is \<open>None\<close>.\<close>

definition ParsePortUnion :: "string \<Rightarrow> PortUnion option" where
  "ParsePortUnion s =
     (if s = ''all'' \<or> s = ''*'' then Some [PortRange 0 65535]
      else (case parse_pieces [] (split_at (CHR '','') s) of
              None \<Rightarrow> None
            | Some result \<Rightarrow> if result = [] then None else Some (Normalize result)))"

text \<open>The inner loop of \<open>Ports\<close>; its counter is wider than a port and so does not wrap around.\<close>

function ports_from :: "u32 \<Rightarrow> u16 \<Rightarrow> u16 list" where
  "ports_from i e = (if i \<le> ucast e then ucast i # ports_from (i + 1) e else [])"
  by auto

definition Contains :: "PortUnion \<Rightarrow> u16 \<Rightarrow> bool" where
  "Contains u port \<longleftrightarrow> list_ex (\<lambda>r. port \<ge> pr_Start r \<and> port \<le> pr_End r) u"

lemma u16_less: "unat (e :: u16) < 65536"
  using unsigned_less [of e] by simp

lemma u32_of_u16 [simp]: "unat (ucast (e :: u16) :: u32) = unat e"
  using u16_less [of e] by (simp add: unsigned_ucast_eq take_bit_nat_eq_self)

lemma u32_suc: "i \<le> ucast (e :: u16) \<Longrightarrow> unat (i + 1 :: u32) = unat i + 1"
proof -
  assume "i \<le> ucast e"
  then have "unat i + 1 < 2 ^ 32" using u16_less [of e] by (simp add: word_le_nat_alt)
  then show ?thesis by (simp add: unat_word_ariths)
qed

termination ports_from
proof (relation "measure (\<lambda>(i, e). unat e + 1 - unat i)")
  fix i :: u32 and e :: u16
  assume "i \<le> ucast e"
  then show "((i + 1, e), i, e) \<in> measure (\<lambda>(i, e). unat e + 1 - unat i)"
    using u32_suc [of i e] by (auto simp: word_le_nat_alt)
qed simp

declare ports_from.simps [simp del]

definition Ports :: "PortUnion \<Rightarrow> u16 list" where
  "Ports u = concat (map (\<lambda>r. ports_from (ucast (pr_Start r)) (pr_End r)) u)"


section \<open>What a union denotes\<close>

definition rng :: "PortRange \<Rightarrow> nat set" where
  "rng r = {unat (pr_Start r)..unat (pr_End r)}"

definition nports :: "PortUnion \<Rightarrow> nat set" where
  "nports u = \<Union> (rng ` set u)"

definition pr_ok :: "PortRange \<Rightarrow> bool" where
  "pr_ok r \<longleftrightarrow> pr_Start r \<le> pr_End r"

text \<open>Normalised: no range is empty, and between two ranges there is a port that neither contains.\<close>

definition pu_normal :: "PortUnion \<Rightarrow> bool" where
  "pu_normal u \<longleftrightarrow> list_all pr_ok u \<and> sorted_wrt (\<lambda>a b. unat (pr_End a) + 1 < unat (pr_Start b)) u"

lemma nports_simps [simp]: "nports [] = {}" "nports (r # u) = rng r \<union> nports u" "nports (u @ v) = nports u \<union> nports v"
  by (auto simp: nports_def)

lemma Contains_nports: "Contains u p \<longleftrightarrow> unat p \<in> nports u"
  by (auto simp: Contains_def nports_def rng_def list_ex_iff word_le_nat_alt)

lemma pu_normal_Cons:
  "pu_normal (r # u) \<longleftrightarrow> pr_ok r \<and> pu_normal u \<and> (\<forall>q \<in> set u. unat (pr_End r) + 1 < unat (pr_Start q))"
  by (auto simp: pu_normal_def)

lemma pu_normal_snoc:
  "pu_normal (u @ [r]) \<longleftrightarrow> pr_ok r \<and> pu_normal u \<and> (\<forall>q \<in> set u. unat (pr_End q) + 1 < unat (pr_Start r))"
  by (auto simp: pu_normal_def sorted_wrt_append)

lemma ports_from_upt: "map unat (ports_from i e) = [unat i..<unat e + 1]"
proof (induction i e rule: ports_from.induct)
  case (1 i e)
  show ?case
  proof (cases "i \<le> ucast e")
    case True
    then have le: "unat i \<le> unat e" by (simp add: word_le_nat_alt)
    moreover have "unat (ucast i :: u16) = unat i"
      using le u16_less [of e] by (simp add: unsigned_ucast_eq take_bit_nat_eq_self)
    ultimately show ?thesis
      using 1 [OF True] True u32_suc [OF True] by (subst ports_from.simps) (simp add: upt_conv_Cons)
  next
    case False
    then show ?thesis by (subst ports_from.simps) (simp add: word_le_nat_alt)
  qed
qed

lemma Ports_upt: "map unat (Ports u) = concat (map (\<lambda>r. [unat (pr_Start r)..<unat (pr_End r) + 1]) u)"
  by (induction u) (simp_all add: Ports_def ports_from_upt)

lemma set_Ports: "p \<in> set (Ports u) \<longleftrightarrow> Contains u p"
proof -
  have "unat p \<in> set (map unat (Ports u)) \<longleftrightarrow> Contains u p"
    by (subst Ports_upt) (auto simp: Contains_nports nports_def rng_def)
  moreover have "unat p \<in> set (map unat (Ports u)) \<longleftrightarrow> p \<in> set (Ports u)" by (auto dest: word_unat_eq_iff [THEN iffD2])
  ultimately show ?thesis by simp
qed

lemma Ports_sorted: "pu_normal u \<Longrightarrow> sorted_wrt (<) (Ports u)"
proof -
  assume "pu_normal u"
  then have "sorted_wrt (<) (concat (map (\<lambda>r. [unat (pr_Start r)..<unat (pr_End r) + 1]) u))"
  proof (induction u)
    case (Cons r u)
    then have "sorted_wrt (<) (concat (map (\<lambda>r. [unat (pr_Start r)..<unat (pr_End r) + 1]) u))"
      by (simp add: pu_normal_Cons)
    moreover have "\<forall>q \<in> set u. unat (pr_End r) + 1 < unat (pr_Start q)" using Cons.prems by (simp add: pu_normal_Cons)
    ultimately show ?case
      by (auto simp: sorted_wrt_append simp del: upt_Suc)
  qed simp
  then have "sorted_wrt (<) (map unat (Ports u))" by (simp only: Ports_upt)
  then show ?thesis unfolding sorted_wrt_map by (rule sorted_wrt_mono_rel [rotated]) (simp add: word_less_nat_alt)
qed

section \<open>Normalising\<close>

lemma merge_step_ok:
  assumes "pu_normal (u @ [l])" "pr_ok c" "pr_Start l \<le> pr_Start c"
  obtains u' l' where "merge_step (u @ [l]) c = u' @ [l']" "pu_normal (u' @ [l'])" "pr_Start l' \<le> pr_Start c"
    "nports (u' @ [l']) = nports (u @ [l]) \<union> rng c"
proof (cases "unat (pr_Start c) \<le> unat (pr_End l) + 1")
  case adj: True
  then have c: "(ucast (pr_Start c) :: u32) \<le> ucast (pr_End l) + 1"
    using u32_suc [of "ucast (pr_End l)" "pr_End l"] by (simp add: word_le_nat_alt)
  show ?thesis
  proof (cases "pr_End c > pr_End l")
    case True
    show ?thesis
      by (rule that [of u "PortRange (pr_Start l) (pr_End c)"])
        (use assms True adj c in \<open>auto simp: merge_step_def pu_normal_snoc pr_ok_def rng_def word_le_nat_alt word_less_nat_alt\<close>)
  next
    case False
    show ?thesis
      by (rule that [of u l]) (use assms False c in \<open>auto simp: merge_step_def rng_def word_le_nat_alt word_less_nat_alt\<close>)
  qed
next
  case False
  then have c: "\<not> (ucast (pr_Start c) :: u32) \<le> ucast (pr_End l) + 1"
    using u32_suc [of "ucast (pr_End l)" "pr_End l"] by (simp add: word_le_nat_alt)
  show ?thesis
  proof (rule that [of "u @ [l]" c])
    show "pu_normal ((u @ [l]) @ [c])"
      using assms False by (subst pu_normal_snoc) (fastforce simp: pu_normal_snoc pr_ok_def word_le_nat_alt)
  qed (use c in \<open>auto simp: merge_step_def\<close>)
qed

lemma merge_ok:
  assumes "pu_normal (u @ [l])" "list_all pr_ok cs" "sorted (l # cs)"
  shows "pu_normal (foldl merge_step (u @ [l]) cs) \<and> foldl merge_step (u @ [l]) cs \<noteq> [] \<and>
    nports (foldl merge_step (u @ [l]) cs) = nports (u @ [l]) \<union> nports cs"
proof -
  have st: "pr_Start a \<le> pr_Start b" if "a \<le> b" for a b :: PortRange
    using that by (auto simp: less_eq_PortRange_def range_less_def split: if_splits)
  have "pu_normal (foldl merge_step (u @ [l]) cs) \<and> foldl merge_step (u @ [l]) cs \<noteq> [] \<and>
      nports (foldl merge_step (u @ [l]) cs) = nports (u @ [l]) \<union> nports cs"
    if "pu_normal (u @ [l])" "list_all pr_ok cs" "sorted cs" "\<forall>c \<in> set cs. pr_Start l \<le> pr_Start c" for u l
    using that
  proof (induction cs arbitrary: u l)
    case (Cons c cs)
    obtain u' l' where m: "merge_step (u @ [l]) c = u' @ [l']" "pu_normal (u' @ [l'])" "pr_Start l' \<le> pr_Start c"
      "nports (u' @ [l']) = nports (u @ [l]) \<union> rng c"
      by (rule merge_step_ok [of u l c]) (use Cons.prems in auto)
    have "\<forall>d \<in> set cs. pr_Start l' \<le> pr_Start d" using Cons.prems(3) m(3) st by fastforce
    from Cons.IH [OF m(2) _ _ this] show ?case
      using Cons.prems m(1,4) by (simp add: Un_ac)
  qed simp
  from this [OF assms(1,2)] assms(3) st show ?thesis by auto
qed

lemma Normalize_ok:
  assumes "list_all pr_ok u" "u \<noteq> []"
  shows "pu_normal (Normalize u)" "Normalize u \<noteq> []" "nports (Normalize u) = nports u"
proof -
  obtain l cs where s: "sort u = l # cs" using assms(2) by (cases "sort u") (metis set_empty set_sort, blast)
  have set_s: "set (l # cs) = set u" using s by (metis set_sort)
  then have "list_all pr_ok (l # cs)" using assms(1) by (simp add: list_all_iff)
  moreover have "sorted (l # cs)" using s by (metis sorted_sort)
  ultimately have m: "pu_normal (foldl merge_step ([] @ [l]) cs) \<and> foldl merge_step ([] @ [l]) cs \<noteq> [] \<and>
    nports (foldl merge_step ([] @ [l]) cs) = nports ([] @ [l]) \<union> nports cs"
    by (intro merge_ok) (auto simp: pu_normal_def)
  moreover have "nports (l # cs) = nports u" using set_s by (simp only: nports_def)
  ultimately show "pu_normal (Normalize u)" "Normalize u \<noteq> []" "nports (Normalize u) = nports u"
    using assms(2) s by (simp_all add: Normalize_def)
qed

text \<open>The normal form of a set of ports is unique.\<close>

lemma normal_head:
  assumes "pu_normal (r # u)" "pu_normal (q # v)" "nports (r # u) = nports (q # v)"
  shows "unat (pr_Start r) \<le> unat (pr_Start q)" "unat (pr_End r) \<le> unat (pr_End q)"
proof -
  have "unat (pr_Start q) \<in> nports (r # u)" using assms(2,3) by (auto simp: pu_normal_Cons pr_ok_def rng_def word_le_nat_alt)
  then show st: "unat (pr_Start r) \<le> unat (pr_Start q)"
    using assms(1) by (fastforce simp: pu_normal_Cons pr_ok_def rng_def nports_def word_le_nat_alt)
  show "unat (pr_End r) \<le> unat (pr_End q)"
  proof (rule ccontr)
    assume "\<not> ?thesis"
    then have "unat (pr_End q) + 1 \<in> rng r" using st assms(2) by (auto simp: rng_def pu_normal_Cons pr_ok_def word_le_nat_alt)
    then have "unat (pr_End q) + 1 \<in> nports (q # v)" using assms(3) by auto
    then show False using assms(2) by (fastforce simp: rng_def nports_def pu_normal_Cons)
  qed
qed

lemma normal_unique: "pu_normal u \<Longrightarrow> pu_normal v \<Longrightarrow> nports u = nports v \<Longrightarrow> u = v"
proof (induction u arbitrary: v)
  case Nil
  then show ?case by (cases v) (auto simp: pu_normal_Cons pr_ok_def rng_def word_le_nat_alt)
next
  case (Cons r u)
  then obtain q v' where v: "v = q # v'" by (cases v) (auto simp: pu_normal_Cons pr_ok_def rng_def word_le_nat_alt)
  have "r = q"
    using normal_head [OF Cons.prems(1) Cons.prems(2) [unfolded v] Cons.prems(3) [unfolded v]]
      normal_head [OF Cons.prems(2) [unfolded v] Cons.prems(1) Cons.prems(3) [unfolded v, symmetric]]
    by (simp add: PortRange.expand word_unat_eq_iff)
  moreover have "rng r \<inter> nports u = {}" using Cons.prems(1) by (fastforce simp: pu_normal_Cons rng_def nports_def)
  moreover have "rng r \<inter> nports v' = {}" using Cons.prems(2) v \<open>r = q\<close> by (fastforce simp: pu_normal_Cons rng_def nports_def)
  ultimately have "nports u = nports v'" using Cons.prems(3) v by auto
  then show ?case using Cons.IH [of v'] Cons.prems v \<open>r = q\<close> by (simp add: pu_normal_Cons)
qed


section \<open>Parsing\<close>

text \<open>A piece as it may be written: a port, or two ports in either order.\<close>

datatype piece = Single u16 | Pair u16 u16

definition port_text :: "u16 \<Rightarrow> string" where
  "port_text p = dec_digits (unat p)"

fun piece_text :: "piece \<Rightarrow> string" where
  "piece_text (Single p) = port_text p"
| "piece_text (Pair a b) = port_text a @ ''-'' @ port_text b"

fun piece_has :: "piece \<Rightarrow> u16 \<Rightarrow> bool" where
  "piece_has (Single a) p \<longleftrightarrow> p = a"
| "piece_has (Pair a b) p \<longleftrightarrow> min a b \<le> p \<and> p \<le> max a b"

fun piece_range :: "piece \<Rightarrow> PortRange" where
  "piece_range (Single p) = PortRange p p"
| "piece_range (Pair a b) = PortRange (min a b) (max a b)"

lemma port_text_chars: "CHR ''-'' \<notin> set (port_text p)" "CHR '','' \<notin> set (port_text p)"
  "CHR ''a'' \<notin> set (port_text p)" "CHR ''*'' \<notin> set (port_text p)"
  using dec_digits_digit [of "unat p"] by (auto simp: port_text_def is_digit_def)

lemma parse_port_text [simp]: "parse_port (port_text p) = Some p"
proof -
  have "ParseUint 16 (dec_digits (unat p)) = Some (int (unat p))"
    using u16_less [of p] by (intro ParseUint_dec_digits) (simp del: of_nat_unat)
  then show ?thesis by (simp add: parse_port_def port_text_def)
qed

lemma Contains_char: "Contains_str s [c] \<longleftrightarrow> c \<in> set s"
  by (simp add: Contains_iff sublist_def) (metis append_Cons append_Nil in_set_conv_decomp)

lemma parse_piece_text: "parse_piece (piece_text w) = Some (piece_range w)"
  by (cases w) (auto simp: parse_piece_def Contains_char port_text_chars split_at_append split_at_no_sep min_def max_def)

lemma parse_pieces_text: "parse_pieces result (map piece_text ws) = Some (result @ map piece_range ws)"
  by (induction ws arbitrary: result) (simp_all add: parse_piece_text)

lemma piece_range_ok: "pr_ok (piece_range w)"
  by (cases w) (auto simp: pr_ok_def min_def max_def)

lemma piece_range_has: "unat p \<in> rng (piece_range w) \<longleftrightarrow> piece_has w p"
  by (cases w) (auto simp: rng_def min_def max_def word_le_nat_alt word_unat_eq_iff)

text \<open>Whatever is parsed successfully is normalised and not empty.\<close>

lemma parse_piece_ok: "parse_piece s = Some r \<Longrightarrow> pr_ok r"
  by (auto simp: parse_piece_def pr_ok_def split: if_splits list.splits option.splits)

lemma parse_pieces_ok: "parse_pieces result ss = Some u \<Longrightarrow> list_all pr_ok result \<Longrightarrow> list_all pr_ok u"
  by (induction result ss rule: parse_pieces.induct) (auto split: option.splits dest: parse_piece_ok)

lemma ParsePortUnion_normal:
  assumes "ParsePortUnion s = Some u"
  shows "pu_normal u" "u \<noteq> []"
proof -
  have "pu_normal u \<and> u \<noteq> []"
  proof (cases "s = ''all'' \<or> s = ''*''")
    case True
    then show ?thesis using assms by (auto simp: ParsePortUnion_def pu_normal_def pr_ok_def)
  next
    case False
    then obtain rs where "parse_pieces [] (split_at (CHR '','') s) = Some rs" "rs \<noteq> []" "u = Normalize rs"
      using assms by (auto simp: ParsePortUnion_def split: option.splits if_splits)
    then show ?thesis using parse_pieces_ok [of "[]"] Normalize_ok [of rs] by simp
  qed
  then show "pu_normal u" "u \<noteq> []" by blast+
qed

lemma Ports_nonempty: "pu_normal u \<Longrightarrow> u \<noteq> [] \<Longrightarrow> Ports u \<noteq> []"
proof -
  assume "pu_normal u" "u \<noteq> []"
  then have "unat (pr_Start (hd u)) \<in> nports u" by (cases u) (auto simp: pu_normal_Cons pr_ok_def rng_def word_le_nat_alt)
  then have "pr_Start (hd u) \<in> set (Ports u)" by (simp add: set_Ports Contains_nports)
  then show ?thesis by auto
qed

lemma Contains_determines: "(\<forall>p. Contains u p = Contains v p) \<Longrightarrow> nports u = nports v"
proof -
  have *: "x \<in> nports v" if "\<forall>p. Contains u p = Contains v p" "x \<in> nports u" for x u v
  proof -
    have "x < 2 ^ 16" using that(2) u16_less by (force simp: nports_def rng_def intro: le_less_trans)
    then have "unat (word_of_nat x :: u16) = x" by (simp add: unat_of_nat)
    then show ?thesis using that Contains_nports by metis
  qed
  assume "\<forall>p. Contains u p = Contains v p"
  then show ?thesis using * [of u v] * [of v u] by blast
qed

text \<open>
  C24: A comma-separated list of ports and ranges, the bounds of a range in either order, is parsed:
  the union contains exactly the ports that were written, \<open>Ports\<close> lists those, each once and in
  ascending order, and the ranges are the only ones for this set of ports that are neither empty
  nor overlapping nor adjacent.
\<close>

theorem port_union_parse:
  assumes "ws \<noteq> []"
  shows "\<exists>u. ParsePortUnion (join '','' (map piece_text ws)) = Some u \<and>
    (\<forall>p. Contains u p \<longleftrightarrow> list_ex (\<lambda>w. piece_has w p) ws) \<and>
    sorted_wrt (<) (Ports u) \<and> (\<forall>p. p \<in> set (Ports u) \<longleftrightarrow> Contains u p) \<and>
    pu_normal u \<and> (\<forall>v. pu_normal v \<and> (\<forall>p. Contains v p = Contains u p) \<longrightarrow> v = u)"
proof -
  let ?s = "join '','' (map piece_text ws)" and ?rs = "map piece_range ws"
  have "CHR '','' \<notin> set (piece_text w)" for w by (cases w) (simp_all add: port_text_chars)
  then have no_comma: "\<forall>t \<in> set (map piece_text ws). CHR '','' \<notin> set t" by simp
  have split: "split_at (CHR '','') ?s = map piece_text ws"
    using split_join [of "map piece_text ws" "CHR '',''"] no_comma assms by simp
  have chars: "CHR ''a'' \<notin> set (piece_text w)" "CHR ''*'' \<notin> set (piece_text w)" for w
    by (cases w; simp add: port_text_chars)+
  have no: "t \<notin> set (map piece_text ws)" if "t = ''all'' \<or> t = ''*''" for t
  proof
    assume "t \<in> set (map piece_text ws)"
    then obtain w where "piece_text w = t" by auto
    then show False using that chars [of w] by auto
  qed
  have "split_at (CHR '','') ''all'' = [''all'']" "split_at (CHR '','') ''*'' = [''*'']" by simp_all
  then have "?s \<noteq> ''all''" "?s \<noteq> ''*''" using no [of "''all''"] no [of "''*''"] split by (metis list.set_intros(1))+
  then have p: "ParsePortUnion ?s = Some (Normalize ?rs)"
    using assms by (simp add: ParsePortUnion_def split parse_pieces_text)
  have ok: "list_all pr_ok ?rs" "?rs \<noteq> []" using assms by (simp_all add: list_all_iff piece_range_ok)
  note n = Normalize_ok [OF ok]
  have has: "Contains (Normalize ?rs) p \<longleftrightarrow> list_ex (\<lambda>w. piece_has w p) ws" for p
    unfolding Contains_nports n(3) by (auto simp: nports_def list_ex_iff simp flip: piece_range_has)
  have "v = Normalize ?rs" if "pu_normal v \<and> (\<forall>p. Contains v p = Contains (Normalize ?rs) p)" for v
    using that normal_unique [of v "Normalize ?rs"] n(1) Contains_determines [of v "Normalize ?rs"] by blast
  then show ?thesis
    using p n(1) Ports_sorted [OF n(1)] has set_Ports by (intro exI [of _ "Normalize ?rs"] conjI allI impI) blast+
qed

text \<open>Two ranges that overlap and one that is adjacent, the first one reversed.\<close>

lemma port_union_parse_witness:
  "\<exists>u. ParsePortUnion (join '','' (map piece_text [Pair 5 3, Single 6, Pair 4 5])) = Some u \<and> Contains u 6 \<and> \<not> Contains u 7 \<and>
     u = [PortRange 3 6]"
proof -
  let ?ws = "[Pair 5 3, Single 6, Pair 4 5]"
  have "?ws \<noteq> []" by (rule list.distinct)
  from port_union_parse [OF this]
  obtain u where u: "ParsePortUnion (join '','' (map piece_text ?ws)) = Some u"
    "\<forall>p. Contains u p \<longleftrightarrow> list_ex (\<lambda>w. piece_has w p) ?ws"
    "\<forall>v. pu_normal v \<and> (\<forall>p. Contains v p = Contains u p) \<longrightarrow> v = u"
    by (elim exE conjE) (rule that)
  have "Contains [PortRange 3 6] p = Contains u p" for p
  proof -
    have "p = 6 \<longleftrightarrow> unat p = 6" using word_unat_eq_iff [of p 6] by simp
    then show ?thesis unfolding u(2) [rule_format] by (auto simp: Contains_def min_def max_def word_le_nat_alt)
  qed
  moreover have "pu_normal [PortRange 3 6]" by (simp add: pu_normal_def pr_ok_def)
  ultimately have "u = [PortRange 3 6]" using u(3) by metis
  then show ?thesis using u(1) by (auto simp: Contains_def)
qed

end
