(* ===== verification/Udp_Hop.thy ===== *)
theory Udp_Hop
  imports Port_Union Go_Net "HOL-Library.Monad_Syntax"
begin

text \<open>
  \<open>extras/transport/udphop\<close>: a packet connection that moves to a fresh local socket and a random port
  of the server's at random intervals, and keeps receiving on the socket before.

  A socket is its number in the list of all that \<open>ListenUDPFunc\<close> has made; the list has what the
  code asked of it (the deadlines and buffer sizes it set, whether it is open).  Every critical section
  of \<open>connMutex\<close> is one step, and so is every answer that a \<open>recvLoop\<close> gets from its socket.  The
  random draws, whether listening succeeds and what the sockets receive are arguments.  A zero
  \<open>time.Time\<close> is \<open>None\<close>.
\<close>

section \<open>Addresses\<close>

type_synonym udpAddr = "bytes \<times> int"

record UDPHopAddr =
  ha_IP :: bytes
  ha_Ports :: "u16 list"
  ha_PortStr :: string

definition addrs :: "UDPHopAddr \<Rightarrow> udpAddr list" where
  "addrs a = map (\<lambda>port. (ha_IP a, uint port)) (ha_Ports a)"

definition hop_String :: "UDPHopAddr \<Rightarrow> string" where
  "hop_String a = JoinHostPort (ip_String (ha_IP a)) (ha_PortStr a)"

datatype hop_error = SplitError | ResolveError string | InvalidPortError string

text \<open>\<open>net.ResolveIPAddr\<close> is the argument \<open>resolve\<close>.\<close>

definition ResolveUDPHopAddr :: "(string \<Rightarrow> string + bytes) \<Rightarrow> string \<Rightarrow> hop_error + UDPHopAddr" where
  "ResolveUDPHopAddr resolve addr =
     (case SplitHostPort addr of
        None \<Rightarrow> Inl SplitError
      | Some (host, portStr) \<Rightarrow>
          (case resolve host of
             Inl err \<Rightarrow> Inl (ResolveError err)
           | Inr ip \<Rightarrow>
               (case ParsePortUnion portStr of
                  None \<Rightarrow> Inl (InvalidPortError portStr)
                | Some pu \<Rightarrow> Inr \<lparr>ha_IP = ip, ha_Ports = Ports pu, ha_PortStr = portStr\<rparr>)))"

section \<open>Intervals\<close>

definition packetQueueSize :: nat where "packetQueueSize = 1024"
definition hop_udpBufferSize :: nat where "hop_udpBufferSize = 2048"
definition defaultHopInterval :: int where "defaultHopInterval = 30 * 1000000000"

record HopIntervalConfig =
  hi_Min :: int
  hi_Max :: int

definition normalized :: "HopIntervalConfig \<Rightarrow> string + HopIntervalConfig" where
  "normalized c =
     (if hi_Min c = 0 \<and> hi_Max c = 0 then Inr \<lparr>hi_Min = defaultHopInterval, hi_Max = defaultHopInterval\<rparr>
      else if hi_Min c = 0 \<or> hi_Max c = 0 then Inl ''min and max hop interval must both be set''
      else if hi_Min c > hi_Max c then Inl ''min hop interval must not be greater than max hop interval''
      else if hi_Min c < 5 * 1000000000 then Inl ''hop interval must be at least 5 seconds''
      else Inr c)"

text \<open>\<open>rand.Int63n\<close> panics unless its argument, an \<open>int64\<close>, is positive.\<close>

definition Int63n :: "nat \<Rightarrow> int \<Rightarrow> int option" where
  "Int63n draw n = (if n \<le> 0 then None else Some (int draw mod n))"

definition nextHopInterval :: "HopIntervalConfig \<Rightarrow> nat \<Rightarrow> int option" where
  "nextHopInterval c draw =
     (if hi_Min c = hi_Max c then Some (hi_Min c)
      else map_option (\<lambda>d. i64 (hi_Min c + d)) (Int63n draw (i64 (i64 (hi_Max c - hi_Min c) + 1))))"

section \<open>State\<close>

record socket =
  sk_open :: bool
  sk_rdl :: "int option"
  sk_wdl :: "int option"
  sk_rbuf :: int
  sk_wbuf :: int

text \<open>A \<open>recvLoop\<close> reads, waits for room to report a timeout, or has returned.\<close>

datatype recv_loop = Reading | Blocked | Returned

datatype udpPacket = UdpPacket bytes udpAddr | UdpTimeout

record hopConn =
  hc_Addr :: UDPHopAddr
  hc_Addrs :: "udpAddr list"
  hc_HopInterval :: HopIntervalConfig
  hc_prevConn :: "nat option"
  hc_currentConn :: nat
  hc_addrIndex :: nat
  hc_readBufferSize :: int
  hc_writeBufferSize :: int
  hc_deadline :: "int option"
  hc_readDeadline :: "int option"
  hc_writeDeadline :: "int option"
  hc_recvQueue :: "udpPacket list"
  hc_closed :: bool
  hc_sockets :: "socket list"
  hc_loops :: "recv_loop list"

text \<open>A socket fresh from \<open>ListenUDPFunc\<close>, and calls on one; a closed one refuses them.\<close>

definition new_socket :: socket where
  "new_socket = \<lparr>sk_open = True, sk_rdl = None, sk_wdl = None, sk_rbuf = 0, sk_wbuf = 0\<rparr>"

definition on_socket :: "(socket \<Rightarrow> socket) \<Rightarrow> nat \<Rightarrow> hopConn \<Rightarrow> hopConn" where
  "on_socket f i u =
     (if i < length (hc_sockets u) \<and> sk_open (hc_sockets u ! i)
      then u\<lparr>hc_sockets := (hc_sockets u)[i := f (hc_sockets u ! i)]\<rparr> else u)"

definition on_prev :: "(socket \<Rightarrow> socket) \<Rightarrow> hopConn \<Rightarrow> hopConn" where
  "on_prev f u = (case hc_prevConn u of None \<Rightarrow> u | Some i \<Rightarrow> on_socket f i u)"

definition on_current :: "(socket \<Rightarrow> socket) \<Rightarrow> hopConn \<Rightarrow> hopConn" where
  "on_current f u = on_socket f (hc_currentConn u) u"

definition sock_close :: "socket \<Rightarrow> socket" where "sock_close k = k\<lparr>sk_open := False\<rparr>"
definition sock_deadline :: "int option \<Rightarrow> socket \<Rightarrow> socket" where "sock_deadline t k = k\<lparr>sk_rdl := t, sk_wdl := t\<rparr>"
definition sock_rdl :: "int option \<Rightarrow> socket \<Rightarrow> socket" where "sock_rdl t k = k\<lparr>sk_rdl := t\<rparr>"
definition sock_wdl :: "int option \<Rightarrow> socket \<Rightarrow> socket" where "sock_wdl t k = k\<lparr>sk_wdl := t\<rparr>"
definition sock_rbuf :: "int \<Rightarrow> socket \<Rightarrow> socket" where "sock_rbuf n k = k\<lparr>sk_rbuf := n\<rparr>"
definition sock_wbuf :: "int \<Rightarrow> socket \<Rightarrow> socket" where "sock_wbuf n k = k\<lparr>sk_wbuf := n\<rparr>"

text \<open>Listening, with the loop that is started on the new socket.\<close>

definition listen :: "hopConn \<Rightarrow> hopConn \<times> nat" where
  "listen u = (u\<lparr>hc_sockets := hc_sockets u @ [new_socket], hc_loops := hc_loops u @ [Reading]\<rparr>, length (hc_sockets u))"

section \<open>Operations\<close>

text \<open>\<open>rand.Intn\<close> panics on 0.\<close>

definition Intn :: "nat \<Rightarrow> nat \<Rightarrow> nat option" where
  "Intn draw n = (if n = 0 then None else Some (intn draw n))"

definition NewUDPHopPacketConn :: "bool \<Rightarrow> nat \<Rightarrow> UDPHopAddr \<Rightarrow> HopIntervalConfig \<Rightarrow> (string + hopConn) option" where
  "NewUDPHopPacketConn listens draw addr hopInterval =
     (case normalized hopInterval of
        Inl err \<Rightarrow> Some (Inl err)
      | Inr hopInterval \<Rightarrow>
          if \<not> listens then Some (Inl ''listen'')
          else do {
            addrIndex \<leftarrow> Intn draw (length (addrs addr));
            Some (Inr \<lparr>hc_Addr = addr, hc_Addrs = addrs addr, hc_HopInterval = hopInterval,
              hc_prevConn = None, hc_currentConn = 0, hc_addrIndex = addrIndex,
              hc_readBufferSize = 0, hc_writeBufferSize = 0,
              hc_deadline = None, hc_readDeadline = None, hc_writeDeadline = None,
              hc_recvQueue = [], hc_closed = False, hc_sockets = [new_socket], hc_loops = [Reading]\<rparr>)
          })"

text \<open>What \<open>hop\<close> sets on the new socket.\<close>

definition hop_configure :: "hopConn \<Rightarrow> hopConn" where
  "hop_configure u =
     (let u = (if hc_readBufferSize u > 0 then on_current (sock_rbuf (hc_readBufferSize u)) u else u);
          u = (if hc_writeBufferSize u > 0 then on_current (sock_wbuf (hc_writeBufferSize u)) u else u);
          u = (if hc_deadline u \<noteq> None then on_current (sock_deadline (hc_deadline u)) u else u);
          u = (if hc_readDeadline u \<noteq> None then on_current (sock_rdl (hc_readDeadline u)) u else u)
      in if hc_writeDeadline u \<noteq> None then on_current (sock_wdl (hc_writeDeadline u)) u else u)"

definition hop :: "bool \<Rightarrow> nat \<Rightarrow> hopConn \<Rightarrow> hopConn option" where
  "hop listens draw u =
     (if hc_closed u then Some u
      else if \<not> listens then Some u
      else
        (let (u, newConn) = listen u;
             u = on_prev sock_close u;
             u = u\<lparr>hc_prevConn := Some (hc_currentConn u)\<rparr>;
             u = u\<lparr>hc_currentConn := newConn\<rparr>;
             u = hop_configure u
         in if hc_addrIndex u < length (hc_Addrs u)
            then map_option (\<lambda>i. u\<lparr>hc_addrIndex := i\<rparr>) (Intn draw (length (hc_Addrs u)))
            else None))"

datatype net_error = ErrClosed | ErrTimeout

text \<open>
  \<open>ReadFrom\<close>: where both cases of the \<open>select\<close> are ready, \<open>take_packet\<close> says which one is taken;
  \<open>None\<close> is a reader that waits.  The address of the sender is not passed on.
\<close>

definition hop_ReadFrom :: "bool \<Rightarrow> nat \<Rightarrow> hopConn \<Rightarrow> hopConn \<times> (net_error + bytes \<times> UDPHopAddr) option" where
  "hop_ReadFrom take_packet blen u =
     (case hc_recvQueue u of
        p # q \<Rightarrow>
          if hc_closed u \<and> \<not> take_packet then (u, Some (Inl ErrClosed))
          else (u\<lparr>hc_recvQueue := q\<rparr>,
                (case p of
                   UdpTimeout \<Rightarrow> Some (Inl ErrTimeout)
                 | UdpPacket b _ \<Rightarrow> Some (Inr (take blen b, hc_Addr u))))
      | [] \<Rightarrow> (u, if hc_closed u then Some (Inl ErrClosed) else None))"

text \<open>\<open>WriteTo\<close>: the socket and the destination that the packet is given to; an index out of range panics.\<close>

definition hop_WriteTo :: "hopConn \<Rightarrow> (net_error + nat \<times> udpAddr) option" where
  "hop_WriteTo u =
     (if hc_closed u then Some (Inl ErrClosed)
      else if hc_addrIndex u < length (hc_Addrs u) then Some (Inr (hc_currentConn u, hc_Addrs u ! hc_addrIndex u))
      else None)"

definition hop_Close :: "hopConn \<Rightarrow> hopConn" where
  "hop_Close u =
     (if hc_closed u then u
      else
        (let u = on_prev sock_close u;
             u = on_current sock_close u
         in u\<lparr>hc_closed := True, hc_Addrs := []\<rparr>))"

definition hop_SetDeadline :: "int option \<Rightarrow> hopConn \<Rightarrow> hopConn" where
  "hop_SetDeadline t u =
     (let u = u\<lparr>hc_deadline := t, hc_readDeadline := t, hc_writeDeadline := t\<rparr>;
          u = on_prev (sock_deadline t) u
      in on_current (sock_deadline t) u)"

definition hop_SetReadDeadline :: "int option \<Rightarrow> hopConn \<Rightarrow> hopConn" where
  "hop_SetReadDeadline t u =
     (let u = u\<lparr>hc_deadline := None, hc_readDeadline := t\<rparr>;
          u = on_prev (sock_rdl t) u
      in on_current (sock_rdl t) u)"

definition hop_SetWriteDeadline :: "int option \<Rightarrow> hopConn \<Rightarrow> hopConn" where
  "hop_SetWriteDeadline t u =
     (let u = u\<lparr>hc_deadline := None, hc_writeDeadline := t\<rparr>;
          u = on_prev (sock_wdl t) u
      in on_current (sock_wdl t) u)"

definition hop_SetReadBuffer :: "int \<Rightarrow> hopConn \<Rightarrow> hopConn" where
  "hop_SetReadBuffer n u =
     (let u = u\<lparr>hc_readBufferSize := n\<rparr>;
          u = on_prev (sock_rbuf n) u
      in on_current (sock_rbuf n) u)"

definition hop_SetWriteBuffer :: "int \<Rightarrow> hopConn \<Rightarrow> hopConn" where
  "hop_SetWriteBuffer n u =
     (let u = u\<lparr>hc_writeBufferSize := n\<rparr>;
          u = on_prev (sock_wbuf n) u
      in on_current (sock_wbuf n) u)"

text \<open>
  What a socket's \<open>ReadFrom\<close> answers to its \<open>recvLoop\<close>: a packet (cut to the buffer), a timeout, or
  another error.  A closed socket gives no packet any more; one read before may still be queued.
\<close>

datatype recv_answer = Packet bytes udpAddr | Timeout | OtherError

definition enqueue :: "udpPacket \<Rightarrow> hopConn \<Rightarrow> hopConn" where
  "enqueue p u = u\<lparr>hc_recvQueue := hc_recvQueue u @ [p]\<rparr>"

definition set_loop :: "nat \<Rightarrow> recv_loop \<Rightarrow> hopConn \<Rightarrow> hopConn" where
  "set_loop i l u = u\<lparr>hc_loops := (hc_loops u)[i := l]\<rparr>"

definition recvLoop_step :: "nat \<Rightarrow> recv_answer \<Rightarrow> hopConn \<Rightarrow> hopConn" where
  "recvLoop_step i ans u =
     (if i < length (hc_loops u) then
        (case hc_loops u ! i of
           Reading \<Rightarrow>
             (case ans of
                Packet b a \<Rightarrow>
                  if length (hc_recvQueue u) < packetQueueSize then enqueue (UdpPacket (take hop_udpBufferSize b) a) u else u
              | Timeout \<Rightarrow>
                  if length (hc_recvQueue u) < packetQueueSize then enqueue UdpTimeout u else set_loop i Blocked u
              | OtherError \<Rightarrow> set_loop i Returned u)
         | Blocked \<Rightarrow>
             if length (hc_recvQueue u) < packetQueueSize then set_loop i Reading (enqueue UdpTimeout u) else u
         | Returned \<Rightarrow> u)
      else u)"


text \<open>Everything that can happen to a connection, in the order in which it happens.\<close>

datatype hop_event =
    EvHop bool nat | EvRecv nat recv_answer | EvRead bool nat | EvClose
  | EvDeadline "int option" | EvReadDeadline "int option" | EvWriteDeadline "int option"
  | EvReadBuffer int | EvWriteBuffer int

fun hop_step :: "hop_event \<Rightarrow> hopConn \<Rightarrow> hopConn option" where
  "hop_step (EvHop listens draw) u = hop listens draw u"
| "hop_step (EvRecv i ans) u = Some (recvLoop_step i ans u)"
| "hop_step (EvRead take_packet blen) u = Some (fst (hop_ReadFrom take_packet blen u))"
| "hop_step EvClose u = Some (hop_Close u)"
| "hop_step (EvDeadline t) u = Some (hop_SetDeadline t u)"
| "hop_step (EvReadDeadline t) u = Some (hop_SetReadDeadline t u)"
| "hop_step (EvWriteDeadline t) u = Some (hop_SetWriteDeadline t u)"
| "hop_step (EvReadBuffer n) u = Some (hop_SetReadBuffer n u)"
| "hop_step (EvWriteBuffer n) u = Some (hop_SetWriteBuffer n u)"

fun hop_run :: "hop_event list \<Rightarrow> hopConn \<Rightarrow> hopConn option" where
  "hop_run [] u = Some u"
| "hop_run (ev # evs) u = (case hop_step ev u of None \<Rightarrow> None | Some u \<Rightarrow> hop_run evs u)"

section \<open>The invariant\<close>

text \<open>An open socket has the deadlines and the buffer sizes that were last asked for.\<close>

definition sock_ok :: "hopConn \<Rightarrow> socket \<Rightarrow> bool" where
  "sock_ok u k \<longleftrightarrow> (sk_open k \<longrightarrow> sk_rdl k = hc_readDeadline u \<and> sk_wdl k = hc_writeDeadline u \<and>
     (hc_readBufferSize u > 0 \<longrightarrow> sk_rbuf k = hc_readBufferSize u) \<and>
     (hc_writeBufferSize u > 0 \<longrightarrow> sk_wbuf k = hc_writeBufferSize u))"

text \<open>Which sockets are open.\<close>

definition sock_shape :: "hopConn \<Rightarrow> bool" where
  "sock_shape u \<longleftrightarrow> hc_currentConn u < length (hc_sockets u) \<and>
     (\<forall>p. hc_prevConn u = Some p \<longrightarrow> p < length (hc_sockets u) \<and> p \<noteq> hc_currentConn u) \<and>
     (\<forall>i < length (hc_sockets u). sk_open (hc_sockets u ! i) \<longleftrightarrow>
        \<not> hc_closed u \<and> (i = hc_currentConn u \<or> hc_prevConn u = Some i))"

definition hop_inv :: "udpAddr list \<Rightarrow> hopConn \<Rightarrow> bool" where
  "hop_inv as u \<longleftrightarrow> sock_shape u \<and> list_all (sock_ok u) (hc_sockets u) \<and>
     length (hc_loops u) = length (hc_sockets u) \<and>
     (hc_deadline u \<noteq> None \<longrightarrow> hc_readDeadline u = hc_deadline u \<and> hc_writeDeadline u = hc_deadline u) \<and>
     length (hc_recvQueue u) \<le> packetQueueSize \<and>
     (\<not> hc_closed u \<longrightarrow> hc_Addrs u = as \<and> hc_addrIndex u < length as)"

text \<open>A call on both sockets reaches exactly the open ones.\<close>

definition on_open :: "(socket \<Rightarrow> socket) \<Rightarrow> hopConn \<Rightarrow> hopConn" where
  "on_open f u = u\<lparr>hc_sockets := map (\<lambda>k. if sk_open k then f k else k) (hc_sockets u)\<rparr>"

lemma on_socket_frame: "on_socket f i u = u\<lparr>hc_sockets := hc_sockets (on_socket f i u)\<rparr>"
  by (simp add: on_socket_def)

lemma on_prev_frame: "on_prev f u = u\<lparr>hc_sockets := hc_sockets (on_prev f u)\<rparr>"
  by (simp add: on_prev_def split: option.split) (metis on_socket_frame)

lemma on_current_frame: "on_current f u = u\<lparr>hc_sockets := hc_sockets (on_current f u)\<rparr>"
  by (metis on_current_def on_socket_frame)

lemma hc_sockets_on_socket:
  "hc_sockets (on_socket f i u) =
     (if i < length (hc_sockets u) \<and> sk_open (hc_sockets u ! i) then (hc_sockets u)[i := f (hc_sockets u ! i)] else hc_sockets u)"
  by (simp add: on_socket_def)

lemma on_socket_other [simp]: "hc_currentConn (on_socket f i u) = hc_currentConn u"
  "hc_prevConn (on_socket f i u) = hc_prevConn u"
  by (simp_all add: on_socket_def)

lemma on_both: "sock_shape u \<Longrightarrow> on_current f (on_prev f u) = on_open f u"
proof -
  assume sh: "sock_shape u"
  have "hc_sockets (on_current f (on_prev f u)) = map (\<lambda>k. if sk_open k then f k else k) (hc_sockets u)"
    using sh
    by (intro nth_equalityI)
      (auto simp: on_current_def on_prev_def hc_sockets_on_socket sock_shape_def nth_list_update split: option.splits)
  moreover have "on_current f (on_prev f u) = u\<lparr>hc_sockets := hc_sockets (on_current f (on_prev f u))\<rparr>"
    by (subst on_current_frame, subst on_prev_frame) simp
  ultimately show ?thesis by (simp add: on_open_def)
qed


text \<open>A change of the requested values together with the call that passes it to the open sockets.\<close>

lemma on_open_inv:
  assumes "hop_inv as u" "sock_shape u0" "hc_sockets u0 = hc_sockets u" "hc_loops u0 = hc_loops u"
    and "hc_recvQueue u0 = hc_recvQueue u" "hc_closed u0 = hc_closed u" "hc_Addrs u0 = hc_Addrs u"
    and "hc_addrIndex u0 = hc_addrIndex u"
    and "hc_deadline u0 \<noteq> None \<Longrightarrow> hc_readDeadline u0 = hc_deadline u0 \<and> hc_writeDeadline u0 = hc_deadline u0"
    and "\<And>k. sk_open k \<Longrightarrow> sock_ok u k \<Longrightarrow> sk_open (f k) \<and> sock_ok u0 (f k)"
  shows "hop_inv as (on_open f u0)"
proof -
  have "sk_open (f (hc_sockets u ! i))" if "i < length (hc_sockets u)" "sk_open (hc_sockets u ! i)" for i
    using assms(1,10) that by (auto simp: hop_inv_def list_all_iff)
  then have "sock_shape (on_open f u0)"
    using assms(2,3) by (auto simp: sock_shape_def on_open_def)
  moreover have "sock_ok (on_open f u0) k = sock_ok u0 k" for k by (simp add: sock_ok_def on_open_def)
  then have "list_all (sock_ok (on_open f u0)) (hc_sockets (on_open f u0))"
    using assms(1,3,10) by (auto simp: hop_inv_def list_all_iff on_open_def) (auto simp: sock_ok_def)
  ultimately show ?thesis using assms by (simp add: hop_inv_def on_open_def)
qed

lemma sock_shape_cong:
  "hc_sockets u0 = hc_sockets u \<Longrightarrow> hc_currentConn u0 = hc_currentConn u \<Longrightarrow> hc_prevConn u0 = hc_prevConn u \<Longrightarrow>
   hc_closed u0 = hc_closed u \<Longrightarrow> sock_shape u0 = sock_shape u"
  by (simp add: sock_shape_def)

lemma setters_inv:
  assumes "hop_inv as u"
  shows "hop_inv as (hop_SetDeadline t u)" "hop_inv as (hop_SetReadDeadline t u)" "hop_inv as (hop_SetWriteDeadline t u)"
    "hop_inv as (hop_SetReadBuffer n u)" "hop_inv as (hop_SetWriteBuffer n u)"
proof -
  have sh: "sock_shape u" using assms by (simp add: hop_inv_def)
  define u1 where "u1 = u\<lparr>hc_deadline := t, hc_readDeadline := t, hc_writeDeadline := t\<rparr>"
  define u2 where "u2 = u\<lparr>hc_deadline := None, hc_readDeadline := t\<rparr>"
  define u3 where "u3 = u\<lparr>hc_deadline := None, hc_writeDeadline := t\<rparr>"
  define u4 where "u4 = u\<lparr>hc_readBufferSize := n\<rparr>"
  define u5 where "u5 = u\<lparr>hc_writeBufferSize := n\<rparr>"
  have shs: "sock_shape u1" "sock_shape u2" "sock_shape u3" "sock_shape u4" "sock_shape u5"
    using sh by (simp_all add: sock_shape_def u1_def u2_def u3_def u4_def u5_def)
  have dl: "hc_deadline u \<noteq> None \<Longrightarrow> hc_readDeadline u = hc_deadline u \<and> hc_writeDeadline u = hc_deadline u"
    using assms by (simp add: hop_inv_def)
  show "hop_inv as (hop_SetDeadline t u)"
    unfolding hop_SetDeadline_def Let_def u1_def [symmetric] on_both [OF shs(1)]
    by (rule on_open_inv [OF assms shs(1)]) (simp_all add: u1_def sock_ok_def sock_deadline_def)
  show "hop_inv as (hop_SetReadDeadline t u)"
    unfolding hop_SetReadDeadline_def Let_def u2_def [symmetric] on_both [OF shs(2)]
    by (rule on_open_inv [OF assms shs(2)]) (simp_all add: u2_def sock_ok_def sock_rdl_def)
  show "hop_inv as (hop_SetWriteDeadline t u)"
    unfolding hop_SetWriteDeadline_def Let_def u3_def [symmetric] on_both [OF shs(3)]
    by (rule on_open_inv [OF assms shs(3)]) (simp_all add: u3_def sock_ok_def sock_wdl_def)
  show "hop_inv as (hop_SetReadBuffer n u)"
    unfolding hop_SetReadBuffer_def Let_def u4_def [symmetric] on_both [OF shs(4)]
    by (rule on_open_inv [OF assms shs(4)]) (use dl in \<open>simp_all add: u4_def sock_ok_def sock_rbuf_def\<close>)
  show "hop_inv as (hop_SetWriteBuffer n u)"
    unfolding hop_SetWriteBuffer_def Let_def u5_def [symmetric] on_both [OF shs(5)]
    by (rule on_open_inv [OF assms shs(5)]) (use dl in \<open>simp_all add: u5_def sock_ok_def sock_wbuf_def\<close>)
qed

lemma hop_Close_inv: "hop_inv as u \<Longrightarrow> hop_inv as (hop_Close u)"
proof -
  assume i: "hop_inv as u"
  then have sh: "sock_shape u" by (simp add: hop_inv_def)
  have "hop_inv as ((on_open sock_close u)\<lparr>hc_closed := True, hc_Addrs := []\<rparr>)" if "\<not> hc_closed u"
    using i by (auto simp: hop_inv_def sock_shape_def on_open_def sock_close_def sock_ok_def list_all_iff)
  then show ?thesis using i by (simp add: hop_Close_def Let_def on_both [OF sh])
qed

lemma recvLoop_inv: "hop_inv as u \<Longrightarrow> hop_inv as (recvLoop_step i ans u)"
proof -
  assume i: "hop_inv as u"
  have "hop_inv as (set_loop j l u)" if "hop_inv as u" for j l u
    using that by (simp add: hop_inv_def sock_shape_def sock_ok_def [abs_def] set_loop_def)
  moreover have "hop_inv as (enqueue p u)" if "hop_inv as u" "length (hc_recvQueue u) < packetQueueSize" for p u
    using that by (simp add: hop_inv_def sock_shape_def sock_ok_def [abs_def] enqueue_def)
  ultimately show ?thesis using i
    by (simp add: recvLoop_step_def split: recv_loop.split recv_answer.split)
qed

lemma hop_ReadFrom_inv: "hop_inv as u \<Longrightarrow> hop_inv as (fst (hop_ReadFrom b n u))"
  by (auto simp: hop_ReadFrom_def hop_inv_def sock_shape_def sock_ok_def [abs_def] split: list.split)

section \<open>Hopping\<close>

lemma on_current_last:
  assumes "hc_sockets u = S @ [k]" "hc_currentConn u = length S" "sk_open k"
  shows "on_current f u = u\<lparr>hc_sockets := S @ [f k]\<rparr>"
  using assms by (simp add: on_current_def on_socket_def)

text \<open>What the new socket has been asked for.\<close>

definition configured :: "hopConn \<Rightarrow> socket \<Rightarrow> bool" where
  "configured u k \<longleftrightarrow> sk_open k \<and>
     sk_rdl k = (if hc_readDeadline u \<noteq> None then hc_readDeadline u else hc_deadline u) \<and>
     sk_wdl k = (if hc_writeDeadline u \<noteq> None then hc_writeDeadline u else hc_deadline u) \<and>
     (hc_readBufferSize u > 0 \<longrightarrow> sk_rbuf k = hc_readBufferSize u) \<and>
     (hc_writeBufferSize u > 0 \<longrightarrow> sk_wbuf k = hc_writeBufferSize u)"

lemma hop_configure_last:
  assumes "hc_sockets u = S @ [new_socket]" "hc_currentConn u = length S"
  obtains k where "hop_configure u = u\<lparr>hc_sockets := S @ [k]\<rparr>" "configured u k"
proof -
  let ?st = "\<lambda>k. u\<lparr>hc_sockets := S @ [k]\<rparr>"
  have u: "u = ?st new_socket" using assms(1) by simp
  have cur: "on_current f (?st k) = ?st (f k)" if "sk_open k" for f k
    by (subst on_current_last [OF _ _ that, of _ S]) (simp_all add: assms(2))
  define k1 where "k1 = (if hc_readBufferSize u > 0 then sock_rbuf (hc_readBufferSize u) new_socket else new_socket)"
  define k2 where "k2 = (if hc_writeBufferSize u > 0 then sock_wbuf (hc_writeBufferSize u) k1 else k1)"
  define k3 where "k3 = (if hc_deadline u \<noteq> None then sock_deadline (hc_deadline u) k2 else k2)"
  define k4 where "k4 = (if hc_readDeadline u \<noteq> None then sock_rdl (hc_readDeadline u) k3 else k3)"
  define k5 where "k5 = (if hc_writeDeadline u \<noteq> None then sock_wdl (hc_writeDeadline u) k4 else k4)"
  note ks = sock_rbuf_def sock_wbuf_def sock_deadline_def sock_rdl_def sock_wdl_def
  have o: "sk_open new_socket" "sk_open k1" "sk_open k2" "sk_open k3" "sk_open k4"
    by (simp_all add: new_socket_def k1_def k2_def k3_def k4_def ks)
  have 1: "(if hc_readBufferSize u > 0 then on_current (sock_rbuf (hc_readBufferSize u)) u else u) = ?st k1"
    using cur [OF o(1)] u by (simp add: k1_def)
  have 2: "(if hc_writeBufferSize (?st k1) > 0 then on_current (sock_wbuf (hc_writeBufferSize (?st k1))) (?st k1) else ?st k1) = ?st k2"
    using cur [OF o(2)] by (simp add: k2_def)
  have 3: "(if hc_deadline (?st k2) \<noteq> None then on_current (sock_deadline (hc_deadline (?st k2))) (?st k2) else ?st k2) = ?st k3"
    using cur [OF o(3)] by (simp add: k3_def)
  have 4: "(if hc_readDeadline (?st k3) \<noteq> None then on_current (sock_rdl (hc_readDeadline (?st k3))) (?st k3) else ?st k3) = ?st k4"
    using cur [OF o(4)] by (simp add: k4_def)
  have 5: "(if hc_writeDeadline (?st k4) \<noteq> None then on_current (sock_wdl (hc_writeDeadline (?st k4))) (?st k4) else ?st k4) = ?st k5"
    using cur [OF o(5)] by (simp add: k5_def)
  have "hop_configure u = ?st k5" unfolding hop_configure_def Let_def 1 2 3 4 5 ..
  moreover have "configured u k5"
    by (simp add: configured_def k5_def k4_def k3_def k2_def k1_def ks new_socket_def)
  ultimately show ?thesis by (rule that)
qed


lemma hop_inv_step:
  assumes "hop_inv as u" "as \<noteq> []"
  obtains u' where "hop listens draw u = Some u'" "hop_inv as u'"
    "hc_Addr u' = hc_Addr u" "hc_HopInterval u' = hc_HopInterval u"
proof (cases "hc_closed u \<or> \<not> listens")
  case True
  then show ?thesis using that [of u] assms by (auto simp: hop_def)
next
  case False
  define S where "S = hc_sockets u"
  define u1 where "u1 = fst (listen u)"
  define S2 where "S2 = (case hc_prevConn u of None \<Rightarrow> S | Some p \<Rightarrow> S[p := sock_close (S ! p)])"
  define u3 where "u3 = (on_prev sock_close u1)\<lparr>hc_prevConn := Some (hc_currentConn u), hc_currentConn := length S\<rparr>"
  have sh: "sock_shape u" and ok: "list_all (sock_ok u) S" using assms by (simp_all add: hop_inv_def S_def)
  have l: "listen u = (u1, length S)" by (simp add: u1_def listen_def S_def)
  have cur: "hc_currentConn (on_prev sock_close u1) = hc_currentConn u"
    by (simp add: on_prev_def u1_def listen_def split: option.split)
  have s2: "hc_sockets (on_prev sock_close u1) = S2 @ [new_socket]"
    using sh False
    by (auto simp: on_prev_def hc_sockets_on_socket u1_def listen_def S_def S2_def sock_shape_def nth_append
        list_update_append split: option.split)
  have f3: "u3 = u\<lparr>hc_sockets := S2 @ [new_socket], hc_loops := hc_loops u @ [Reading],
      hc_prevConn := Some (hc_currentConn u), hc_currentConn := length S\<rparr>"
    unfolding u3_def by (subst on_prev_frame, subst s2) (simp add: u1_def listen_def)
  have len: "length S2 = length S" by (simp add: S2_def split: option.split)
  obtain k where k: "hop_configure u3 = u3\<lparr>hc_sockets := S2 @ [k]\<rparr>" "configured u3 k"
    by (rule hop_configure_last [of u3 S2]) (simp_all add: f3 len)
  let ?u4 = "u3\<lparr>hc_sockets := S2 @ [k]\<rparr>"
  have ix: "hc_addrIndex u < length as" "hc_Addrs u = as" using assms(1) False by (simp_all add: hop_inv_def)
  have h: "hop listens draw u = Some (?u4\<lparr>hc_addrIndex := intn draw (length as)\<rparr>)"
  proof -
    have "hop listens draw u =
        (let u = hop_configure u3
         in if hc_addrIndex u < length (hc_Addrs u)
            then map_option (\<lambda>i. u\<lparr>hc_addrIndex := i\<rparr>) (Intn draw (length (hc_Addrs u))) else None)"
      using False cur by (simp add: hop_def l u3_def Let_def)
    then show ?thesis unfolding k(1) using ix assms(2) by (simp add: Let_def Intn_def f3)
  qed
  show ?thesis
  proof (rule that [OF h])
    have op2: "sk_open (S2 ! i) \<longleftrightarrow> i = hc_currentConn u" if "i < length S" for i
      using sh False that by (auto simp: S2_def S_def sock_shape_def sock_close_def nth_list_update split: option.split)
    have ok2: "list_all (sock_ok u) S2"
      using ok unfolding S2_def
      by (auto simp: list_all_iff sock_ok_def sock_close_def split: option.split dest!: set_update_subset_insert [THEN subsetD])
    have "sock_ok u k" using k(2) assms(1) by (auto simp: configured_def sock_ok_def f3 hop_inv_def)
    moreover have "sk_open k" using k(2) by (simp add: configured_def)
    moreover have "hc_currentConn u < length S" using sh by (simp add: sock_shape_def S_def)
    ultimately show "hop_inv as (?u4\<lparr>hc_addrIndex := intn draw (length as)\<rparr>)"
      using assms op2 ok2 False len ix
      by (auto simp: hop_inv_def sock_shape_def f3 nth_append S_def sock_ok_def list_all_iff less_Suc_eq)
  qed (simp_all add: f3)
qed


lemma hop_step_inv:
  assumes "hop_inv as u" "as \<noteq> []"
  obtains u' where "hop_step ev u = Some u'" "hop_inv as u'"
proof -
  have "\<exists>u'. hop_step ev u = Some u' \<and> hop_inv as u'"
  proof (cases ev)
    case (EvHop listens draw)
    obtain u' where "hop listens draw u = Some u'" "hop_inv as u'" by (rule hop_inv_step [OF assms])
    then show ?thesis using EvHop by simp
  qed (use assms in \<open>simp_all add: setters_inv hop_Close_inv recvLoop_inv hop_ReadFrom_inv\<close>)
  then show ?thesis using that by blast
qed

lemma hop_run_inv:
  assumes "hop_inv as u" "as \<noteq> []"
  obtains u' where "hop_run evs u = Some u'" "hop_inv as u'"
proof -
  have "\<exists>u'. hop_run evs u = Some u' \<and> hop_inv as u'"
    using assms(1)
  proof (induction evs arbitrary: u)
    case (Cons ev evs)
    obtain u1 where "hop_step ev u = Some u1" "hop_inv as u1" by (rule hop_step_inv [OF Cons.prems assms(2)])
    then show ?case using Cons.IH [of u1] by simp
  qed simp
  then show ?thesis using that by blast
qed

lemma NewUDPHop_inv:
  assumes "addrs a \<noteq> []" "NewUDPHopPacketConn listens draw a iv = Some (Inr u)"
  shows "hop_inv (addrs a) u"
  using assms
  by (auto simp: NewUDPHopPacketConn_def Intn_def hop_inv_def sock_shape_def sock_ok_def new_socket_def packetQueueSize_def
      split: sum.splits if_splits)

lemma ResolveUDPHopAddr_ports: "ResolveUDPHopAddr resolve s = Inr a \<Longrightarrow> addrs a \<noteq> []"
  using Ports_nonempty ParsePortUnion_normal
  by (fastforce simp: ResolveUDPHopAddr_def addrs_def split: option.splits sum.splits)

text \<open>
  C35: Hopping over a resolved address never panics, and no socket is lost: making the connection
  succeeds or gives an error, and whatever sequence of hops (some of which cannot listen), received
  packets, timeouts, reads, changes of deadlines and buffer sizes and closes follows, the open
  sockets are the current one and the one before while the connection is open, and none once it is
  closed.  Every open socket has the deadlines and buffer sizes last asked for, whichever hop made
  it, at most 1024 packets wait, and a write goes through the open current socket to the server's
  address at a port of the union, or is refused once the connection is closed.
\<close>

theorem hop_connection_safe:
  assumes "ResolveUDPHopAddr resolve s = Inr a"
  shows "\<exists>r. NewUDPHopPacketConn listens draw a iv = Some r \<and>
    (\<forall>u0 evs. r = Inr u0 \<longrightarrow>
      (\<exists>u. hop_run evs u0 = Some u \<and>
        {i. i < length (hc_sockets u) \<and> sk_open (hc_sockets u ! i)} =
          (if hc_closed u then {} else insert (hc_currentConn u) (set_option (hc_prevConn u))) \<and>
        (\<forall>k \<in> set (hc_sockets u). sk_open k \<longrightarrow> sk_rdl k = hc_readDeadline u \<and> sk_wdl k = hc_writeDeadline u \<and>
          (hc_readBufferSize u > 0 \<longrightarrow> sk_rbuf k = hc_readBufferSize u) \<and>
          (hc_writeBufferSize u > 0 \<longrightarrow> sk_wbuf k = hc_writeBufferSize u)) \<and>
        length (hc_recvQueue u) \<le> 1024 \<and>
        (if hc_closed u then hop_WriteTo u = Some (Inl ErrClosed)
         else \<exists>p. p \<in> set (ha_Ports a) \<and> hop_WriteTo u = Some (Inr (hc_currentConn u, (ha_IP a, uint p))))))"
proof -
  note ne = ResolveUDPHopAddr_ports [OF assms]
  obtain r where r: "NewUDPHopPacketConn listens draw a iv = Some r"
    using ne by (cases "normalized iv"; cases listens) (simp_all add: NewUDPHopPacketConn_def Intn_def)
  have run: "\<exists>u. hop_run evs u0 = Some u \<and> hop_inv (addrs a) u" if "r = Inr u0" for u0 evs
  proof -
    have "hop_inv (addrs a) u0" by (rule NewUDPHop_inv [OF ne]) (use r that in simp)
    from hop_run_inv [OF this ne] show ?thesis by blast
  qed
  have opened: "{i. i < length (hc_sockets u) \<and> sk_open (hc_sockets u ! i)} =
      (if hc_closed u then {} else insert (hc_currentConn u) (set_option (hc_prevConn u)))" if "hop_inv (addrs a) u" for u
    using that by (auto simp: hop_inv_def sock_shape_def)
  have asked: "\<forall>k \<in> set (hc_sockets u). sk_open k \<longrightarrow> sk_rdl k = hc_readDeadline u \<and> sk_wdl k = hc_writeDeadline u \<and>
      (hc_readBufferSize u > 0 \<longrightarrow> sk_rbuf k = hc_readBufferSize u) \<and>
      (hc_writeBufferSize u > 0 \<longrightarrow> sk_wbuf k = hc_writeBufferSize u)" if "hop_inv (addrs a) u" for u
    using that by (auto simp: hop_inv_def list_all_iff sock_ok_def)
  have queued: "length (hc_recvQueue u) \<le> 1024" if "hop_inv (addrs a) u" for u
    using that by (simp add: hop_inv_def packetQueueSize_def)
  have written: "if hc_closed u then hop_WriteTo u = Some (Inl ErrClosed)
      else \<exists>p. p \<in> set (ha_Ports a) \<and> hop_WriteTo u = Some (Inr (hc_currentConn u, (ha_IP a, uint p)))"
    if "hop_inv (addrs a) u" for u
  proof (cases "hc_closed u")
    case False
    then have "hop_WriteTo u = Some (Inr (hc_currentConn u, addrs a ! hc_addrIndex u))" "hc_addrIndex u < length (addrs a)"
      using that by (simp_all add: hop_WriteTo_def hop_inv_def)
    moreover from this(2) have "addrs a ! hc_addrIndex u = (ha_IP a, uint (ha_Ports a ! hc_addrIndex u))"
      "ha_Ports a ! hc_addrIndex u \<in> set (ha_Ports a)" by (simp_all add: addrs_def)
    ultimately show ?thesis using False by (auto simp del: of_nat_unat)
  qed (simp add: hop_WriteTo_def)
  show ?thesis
  proof (rule exI [of _ r], rule conjI [OF r], intro allI impI)
    fix u0 evs
    assume "r = Inr u0"
    from run [OF this] obtain u where u: "hop_run evs u0 = Some u" "hop_inv (addrs a) u" by blast
    show "\<exists>u. hop_run evs u0 = Some u \<and>
        {i. i < length (hc_sockets u) \<and> sk_open (hc_sockets u ! i)} =
          (if hc_closed u then {} else insert (hc_currentConn u) (set_option (hc_prevConn u))) \<and>
        (\<forall>k \<in> set (hc_sockets u). sk_open k \<longrightarrow> sk_rdl k = hc_readDeadline u \<and> sk_wdl k = hc_writeDeadline u \<and>
          (hc_readBufferSize u > 0 \<longrightarrow> sk_rbuf k = hc_readBufferSize u) \<and>
          (hc_writeBufferSize u > 0 \<longrightarrow> sk_wbuf k = hc_writeBufferSize u)) \<and>
        length (hc_recvQueue u) \<le> 1024 \<and>
        (if hc_closed u then hop_WriteTo u = Some (Inl ErrClosed)
         else \<exists>p. p \<in> set (ha_Ports a) \<and> hop_WriteTo u = Some (Inr (hc_currentConn u, (ha_IP a, uint p))))"
      by (intro exI [of _ u] conjI u(1) opened [OF u(2)] asked [OF u(2)] queued [OF u(2)] written [OF u(2)])
  qed
qed

text \<open>The default interval, two ports, two hops with a deadline set in between, and a close.\<close>

lemma hop_connection_safe_witness:
  "\<exists>a u0 u. ResolveUDPHopAddr (\<lambda>_. Inr [10, 0, 0, 1]) ''h:7-8'' = Inr a \<and>
     NewUDPHopPacketConn True 3 a \<lparr>hi_Min = 0, hi_Max = 0\<rparr> = Some (Inr u0) \<and>
     hop_run [EvHop True 0, EvDeadline (Some 5), EvHop True 1, EvClose] u0 = Some u \<and>
     {i. i < length (hc_sockets u) \<and> sk_open (hc_sockets u ! i)} = {} \<and> hop_WriteTo u = Some (Inl ErrClosed)"
proof -
  have pu: "ParsePortUnion ''7-8'' = Some [PortRange 7 8]" by code_simp
  have sp: "SplitHostPort ''h:7-8'' = Some (''h'', ''7-8'')" by code_simp
  obtain a where a: "ResolveUDPHopAddr (\<lambda>_. Inr [10, 0, 0, 1]) ''h:7-8'' = Inr a"
    by (simp add: ResolveUDPHopAddr_def pu sp)
  let ?evs = "[EvHop True 0, EvDeadline (Some 5), EvHop True 1, EvClose]"
  obtain r where r: "NewUDPHopPacketConn True 3 a \<lparr>hi_Min = 0, hi_Max = 0\<rparr> = Some r"
    "\<And>u0. r = Inr u0 \<Longrightarrow> \<exists>u. hop_run ?evs u0 = Some u \<and>
      {i. i < length (hc_sockets u) \<and> sk_open (hc_sockets u ! i)} =
        (if hc_closed u then {} else insert (hc_currentConn u) (set_option (hc_prevConn u))) \<and>
      (if hc_closed u then hop_WriteTo u = Some (Inl ErrClosed)
       else \<exists>p. p \<in> set (ha_Ports a) \<and> hop_WriteTo u = Some (Inr (hc_currentConn u, (ha_IP a, uint p))))"
    using hop_connection_safe [OF a, of True 3 "\<lparr>hi_Min = 0, hi_Max = 0\<rparr>"] by blast
  obtain u0 where u0: "r = Inr u0"
    using r(1) ResolveUDPHopAddr_ports [OF a] by (auto simp: NewUDPHopPacketConn_def normalized_def Intn_def)
  obtain u where u: "hop_run ?evs u0 = Some u"
    "{i. i < length (hc_sockets u) \<and> sk_open (hc_sockets u ! i)} =
        (if hc_closed u then {} else insert (hc_currentConn u) (set_option (hc_prevConn u)))"
    "if hc_closed u then hop_WriteTo u = Some (Inl ErrClosed)
       else \<exists>p. p \<in> set (ha_Ports a) \<and> hop_WriteTo u = Some (Inr (hc_currentConn u, (ha_IP a, uint p)))"
    using r(2) [OF u0] by blast
  have "hc_closed u" using u(1) by (auto simp: hop_Close_def Let_def split: option.splits)
  then show ?thesis using a r(1) u0 u by auto
qed

text \<open>The time between two hops is never shorter than five seconds and stays within the configured bounds.\<close>

theorem hop_interval_bounds:
  assumes "normalized c = Inr c'" "in_i64 (hi_Max c)"
  shows "\<exists>d. nextHopInterval c' draw = Some d \<and> 5 * 1000000000 \<le> hi_Min c' \<and> hi_Min c' \<le> d \<and> d \<le> hi_Max c'"
proof (cases "hi_Min c' = hi_Max c'")
  case True
  then show ?thesis using assms by (auto simp: normalized_def nextHopInterval_def defaultHopInterval_def split: if_splits)
next
  case False
  then have c: "c' = c" "hi_Min c < hi_Max c" "5 * 1000000000 \<le> hi_Min c"
    using assms(1) by (auto simp: normalized_def split: if_splits)
  let ?n = "hi_Max c - hi_Min c + 1"
  have n: "i64 (i64 (hi_Max c - hi_Min c) + 1) = ?n" using c assms(2) by (simp add: i64_id' in_i64_def)
  define x where "x = int draw mod ?n"
  have m: "0 \<le> x" "x < ?n" unfolding x_def using c by (intro pos_mod_sign pos_mod_bound; simp)+
  then have "i64 (hi_Min c + x) = hi_Min c + x" using c assms(2) by (intro i64_id') (auto simp: in_i64_def)
  then have "nextHopInterval c' draw = Some (hi_Min c + x)"
    using c False n by (simp add: nextHopInterval_def Int63n_def x_def)
  then show ?thesis using m c by auto
qed


text \<open>
  Timeouts of the past stay queued: once a deadline has passed, the loops report it again and again
  until the queue is full, and after the deadline has been removed reads still fail with them.
\<close>

lemma timeouts_queue:
  "i < length (hc_loops u) \<Longrightarrow> hc_loops u ! i = Reading \<Longrightarrow> length (hc_recvQueue u) + n \<le> packetQueueSize \<Longrightarrow>
   hop_run (replicate n (EvRecv i Timeout)) u = Some (u\<lparr>hc_recvQueue := hc_recvQueue u @ replicate n UdpTimeout\<rparr>)"
proof (induction n arbitrary: u)
  case (Suc n)
  have "recvLoop_step i Timeout u = enqueue UdpTimeout u" using Suc.prems by (simp add: recvLoop_step_def)
  moreover have "hop_run (replicate n (EvRecv i Timeout)) (enqueue UdpTimeout u) =
      Some (u\<lparr>hc_recvQueue := hc_recvQueue u @ replicate (Suc n) UdpTimeout\<rparr>)"
    using Suc.IH [of "enqueue UdpTimeout u"] Suc.prems by (simp add: enqueue_def)
  ultimately show ?case by simp
qed simp

lemma hop_run_append: "hop_run (xs @ ys) u = (case hop_run xs u of None \<Rightarrow> None | Some u \<Rightarrow> hop_run ys u)"
  by (induction xs arbitrary: u) (simp_all split: option.split)

lemma stale_timeouts:
  assumes "i < length (hc_loops u)" "hc_loops u ! i = Reading" "hc_recvQueue u = []" "0 < n" "n \<le> packetQueueSize"
    and "\<not> hc_closed u"
  shows "\<exists>u'. hop_run (replicate n (EvRecv i Timeout) @ [EvReadDeadline None]) u = Some u' \<and> hc_readDeadline u' = None \<and>
    snd (hop_ReadFrom b blen u') = Some (Inl ErrTimeout)"
proof -
  obtain m where n: "n = Suc m" using assms(4) by (cases n) auto
  let ?u = "u\<lparr>hc_recvQueue := replicate n UdpTimeout\<rparr>"
  have r: "hop_run (replicate n (EvRecv i Timeout)) u = Some ?u" using timeouts_queue [of i u n] assms by simp
  let ?v = "hop_SetReadDeadline None ?u"
  have v: "hc_recvQueue ?v = replicate n UdpTimeout" "hc_closed ?v = hc_closed u" "hc_readDeadline ?v = None"
    by (simp_all add: hop_SetReadDeadline_def on_current_def on_prev_def on_socket_def Let_def split: option.split)
  have "snd (hop_ReadFrom b blen ?v) = Some (Inl ErrTimeout)"
    using assms(6) v n by (simp add: hop_ReadFrom_def)
  then show ?thesis using r v by (simp add: hop_run_append)
qed

end
