(* ===== verification/Traffic_Stats.thy ===== *)
theory Traffic_Stats
  imports Traffic Go_Strings "HOL-Library.AList" "HOL-Library.Multiset"
    "HOL-Library.List_Lexorder" "HOL-Library.Product_Lexorder"
begin

text \<open>
  \<open>extras/trafficlogger/http.go\<close>: the traffic logger that counts bytes and connections per user and
  serves the counters over HTTP, with the request to kick users.  Every method runs under the mutex
  and is one step.  A response is its kind and the value that is given to the JSON encoder, or to the
  lines of the plain text table; the decoded body of a kick request is part of the request (\<open>None\<close>
  where it is not a JSON array of strings).
\<close>

section \<open>State\<close>

record trafficStatsEntry =
  te_Tx :: int
  te_Rx :: int

text \<open>The parts of \<open>server.StreamStats\<close>; the state by its name, times in nanoseconds.\<close>

record streamStats =
  sst_State :: string
  sst_AuthID :: string
  sst_ConnID :: u32
  sst_InitialTime :: int
  sst_ReqAddr :: string
  sst_HookedReqAddr :: string
  sst_Tx :: int
  sst_Rx :: int
  sst_LastActiveTime :: int

record statsServer =
  ss_StatsMap :: "string \<rightharpoonup> trafficStatsEntry"
  ss_OnlineMap :: "string \<rightharpoonup> int"
  ss_StreamMap :: "(nat \<times> streamStats) list"
  ss_KickMap :: "string set"
  ss_Secret :: string

definition NewTrafficStatsServer :: "string \<Rightarrow> statsServer" where
  "NewTrafficStatsServer secret =
     \<lparr>ss_StatsMap = Map.empty, ss_OnlineMap = Map.empty, ss_StreamMap = [], ss_KickMap = {}, ss_Secret = secret\<rparr>"

section \<open>The logger\<close>

definition stats_LogTraffic :: "statsServer \<Rightarrow> string \<Rightarrow> int \<Rightarrow> int \<Rightarrow> statsServer \<times> bool" where
  "stats_LogTraffic s uid tx rx =
     (if uid \<in> ss_KickMap s then (s\<lparr>ss_KickMap := ss_KickMap s - {uid}\<rparr>, False)
      else
        (let entry = (case ss_StatsMap s uid of Some e \<Rightarrow> e | None \<Rightarrow> \<lparr>te_Tx = 0, te_Rx = 0\<rparr>);
             entry = entry\<lparr>te_Tx := u64 (te_Tx entry + tx), te_Rx := u64 (te_Rx entry + rx)\<rparr>
         in (s\<lparr>ss_StatsMap := (ss_StatsMap s)(uid \<mapsto> entry)\<rparr>, True)))"

definition stats_LogOnlineState :: "string \<Rightarrow> bool \<Rightarrow> statsServer \<Rightarrow> statsServer" where
  "stats_LogOnlineState uid online s =
     (let n = (case ss_OnlineMap s uid of Some n \<Rightarrow> n | None \<Rightarrow> 0)
      in if online then s\<lparr>ss_OnlineMap := (ss_OnlineMap s)(uid \<mapsto> n + 1)\<rparr>
         else if n - 1 \<le> 0 then s\<lparr>ss_OnlineMap := (ss_OnlineMap s)(uid := None)\<rparr>
         else s\<lparr>ss_OnlineMap := (ss_OnlineMap s)(uid \<mapsto> n - 1)\<rparr>)"

definition stats_TraceStream :: "nat \<Rightarrow> streamStats \<Rightarrow> statsServer \<Rightarrow> statsServer" where
  "stats_TraceStream stream stats s = s\<lparr>ss_StreamMap := AList.update stream stats (ss_StreamMap s)\<rparr>"

definition stats_UntraceStream :: "nat \<Rightarrow> statsServer \<Rightarrow> statsServer" where
  "stats_UntraceStream stream s = s\<lparr>ss_StreamMap := AList.delete stream (ss_StreamMap s)\<rparr>"

text \<open>The server as the core sees it: none of the optional interfaces is implemented.\<close>

definition statsLogger :: "statsServer trafficLogger" where
  "statsLogger = \<lparr>LogTraffic = stats_LogTraffic, asSent = None, asVerdict = None, asOptOut = None\<rparr>"

section \<open>The HTTP interface\<close>

record http_request =
  rq_Method :: string
  rq_Path :: string
  rq_Authorization :: string
  rq_Accept :: string
  rq_clear :: string
  rq_ids :: "string list option"

record dumpStreamEntry =
  ds_State :: string
  ds_Auth :: string
  ds_Connection :: u32
  ds_Stream :: nat
  ds_ReqAddr :: string
  ds_HookedReqAddr :: string
  ds_Tx :: int
  ds_Rx :: int
  ds_initialTime :: int
  ds_lastActiveTime :: int

datatype http_response =
    StatusUnauthorized | IndexHTML | TrafficJSON "string \<rightharpoonup> trafficStatsEntry" | StatusOK | StatusBadRequest
  | OnlineJSON "string \<rightharpoonup> int" | StreamsText "dumpStreamEntry list" | StreamsJSON "dumpStreamEntry list" | NotFound

text \<open>\<open>strconv.ParseBool\<close>, of which the code ignores the error.\<close>

definition clear_flag :: "string \<Rightarrow> bool" where
  "clear_flag s \<longleftrightarrow> s \<in> {''1'', ''t'', ''T'', ''true'', ''TRUE'', ''True''}"

definition getTraffic :: "http_request \<Rightarrow> statsServer \<Rightarrow> statsServer \<times> http_response" where
  "getTraffic r s =
     (if clear_flag (rq_clear r) then (s\<lparr>ss_StatsMap := Map.empty\<rparr>, TrafficJSON (ss_StatsMap s))
      else (s, TrafficJSON (ss_StatsMap s)))"

definition getOnline :: "statsServer \<Rightarrow> statsServer \<times> http_response" where
  "getOnline s = (s, OnlineJSON (ss_OnlineMap s))"

definition fromStreamStats :: "nat \<times> streamStats \<Rightarrow> dumpStreamEntry" where
  "fromStreamStats x = (case x of (stream, s) \<Rightarrow>
     \<lparr>ds_State = sst_State s, ds_Auth = sst_AuthID s, ds_Connection = sst_ConnID s, ds_Stream = stream,
      ds_ReqAddr = sst_ReqAddr s, ds_HookedReqAddr = sst_HookedReqAddr s, ds_Tx = sst_Tx s, ds_Rx = sst_Rx s,
      ds_initialTime = sst_InitialTime s, ds_lastActiveTime = sst_LastActiveTime s\<rparr>)"

text \<open>The comparison of the dump: by user, connection and stream; strings compare by their bytes.\<close>

fun str_less :: "string \<Rightarrow> string \<Rightarrow> bool" where
  "str_less s [] \<longleftrightarrow> False"
| "str_less [] (d # ds) \<longleftrightarrow> True"
| "str_less (c # cs) (d # ds) \<longleftrightarrow> cb c < cb d \<or> (cb c = cb d \<and> str_less cs ds)"

definition dump_less :: "dumpStreamEntry \<Rightarrow> dumpStreamEntry \<Rightarrow> bool" where
  "dump_less a b \<longleftrightarrow>
     (if ds_Auth a \<noteq> ds_Auth b then str_less (ds_Auth a) (ds_Auth b)
      else if ds_Connection a \<noteq> ds_Connection b then ds_Connection a < ds_Connection b
      else ds_Stream a < ds_Stream b)"

fun insert_entry :: "dumpStreamEntry \<Rightarrow> dumpStreamEntry list \<Rightarrow> dumpStreamEntry list" where
  "insert_entry e [] = [e]"
| "insert_entry e (f # fs) = (if dump_less f e then f # insert_entry e fs else e # f # fs)"

definition getDumpStreams :: "http_request \<Rightarrow> statsServer \<Rightarrow> statsServer \<times> http_response" where
  "getDumpStreams r s =
     (let entries = foldr insert_entry (map fromStreamStats (ss_StreamMap s)) []
      in (s, if Contains_str (rq_Accept r) ''text/plain'' then StreamsText entries else StreamsJSON entries))"

definition kick :: "http_request \<Rightarrow> statsServer \<Rightarrow> statsServer \<times> http_response" where
  "kick r s =
     (case rq_ids r of
        None \<Rightarrow> (s, StatusBadRequest)
      | Some ids \<Rightarrow> (s\<lparr>ss_KickMap := ss_KickMap s \<union> set ids\<rparr>, StatusOK))"

definition stats_ServeHTTP :: "http_request \<Rightarrow> statsServer \<Rightarrow> statsServer \<times> http_response" where
  "stats_ServeHTTP r s =
     (if ss_Secret s \<noteq> [] \<and> rq_Authorization r \<noteq> ss_Secret s then (s, StatusUnauthorized)
      else if rq_Method r = ''GET'' \<and> rq_Path r = ''/'' then (s, IndexHTML)
      else if rq_Method r = ''GET'' \<and> rq_Path r = ''/traffic'' then getTraffic r s
      else if rq_Method r = ''POST'' \<and> rq_Path r = ''/kick'' then kick r s
      else if rq_Method r = ''GET'' \<and> rq_Path r = ''/online'' then getOnline s
      else if rq_Method r = ''GET'' \<and> rq_Path r = ''/dump/streams'' then getDumpStreams r s
      else (s, NotFound))"

text \<open>Everything that is called, in the order in which the mutex lets it through, with what it returns.\<close>

datatype st_event =
    StLog string int int | StOnline string bool | StTrace nat streamStats | StUntrace nat | StHttp http_request

datatype st_out = Logged bool | Silent | Response http_response

fun stats_step :: "st_event \<Rightarrow> statsServer \<Rightarrow> statsServer \<times> st_out" where
  "stats_step (StLog uid tx rx) s = (case stats_LogTraffic s uid tx rx of (s, ok) \<Rightarrow> (s, Logged ok))"
| "stats_step (StOnline uid online) s = (stats_LogOnlineState uid online s, Silent)"
| "stats_step (StTrace stream stats) s = (stats_TraceStream stream stats s, Silent)"
| "stats_step (StUntrace stream) s = (stats_UntraceStream stream s, Silent)"
| "stats_step (StHttp r) s = (case stats_ServeHTTP r s of (s, resp) \<Rightarrow> (s, Response resp))"

fun stats_run :: "st_event list \<Rightarrow> statsServer \<Rightarrow> statsServer \<times> (st_event \<times> st_out) list" where
  "stats_run [] s = (s, [])"
| "stats_run (ev # evs) s =
     (case stats_step ev s of (s, out) \<Rightarrow> (case stats_run evs s of (s, tr) \<Rightarrow> (s, (ev, out) # tr)))"

section \<open>What the history says\<close>

text \<open>The bytes accepted for a user, and those in the reports that cleared the table.\<close>

fun accepted :: "(int \<times> int \<Rightarrow> int) \<Rightarrow> string \<Rightarrow> st_event \<times> st_out \<Rightarrow> int" where
  "accepted dir u (StLog uid tx rx, Logged True) = (if uid = u then dir (tx, rx) else 0)"
| "accepted dir u _ = 0"

fun reported :: "(int \<times> int \<Rightarrow> int) \<Rightarrow> string \<Rightarrow> st_event \<times> st_out \<Rightarrow> int" where
  "reported dir u (StHttp r, Response (TrafficJSON m)) =
     (if clear_flag (rq_clear r) then (case m u of None \<Rightarrow> 0 | Some e \<Rightarrow> dir (te_Tx e, te_Rx e)) else 0)"
| "reported dir u _ = 0"

definition counted :: "(int \<times> int \<Rightarrow> int) \<Rightarrow> string \<Rightarrow> statsServer \<Rightarrow> int" where
  "counted dir u s = (case ss_StatsMap s u of None \<Rightarrow> 0 | Some e \<Rightarrow> dir (te_Tx e, te_Rx e))"

text \<open>Whether a kick of the user is pending, given whether one was before.\<close>

fun pending :: "string \<Rightarrow> bool \<Rightarrow> (st_event \<times> st_out) list \<Rightarrow> bool" where
  "pending u b [] = b"
| "pending u b ((StLog uid tx rx, Logged False) # tr) = pending u (b \<and> uid \<noteq> u) tr"
| "pending u b ((StHttp r, Response StatusOK) # tr) =
     pending u (b \<or> (case rq_ids r of Some ids \<Rightarrow> u \<in> set ids | None \<Rightarrow> False)) tr"
| "pending u b (_ # tr) = pending u b tr"

fun connections :: "string \<Rightarrow> st_event list \<Rightarrow> int" where
  "connections u [] = 0"
| "connections u (StOnline uid online # evs) = (if uid = u then if online then 1 else - 1 else 0) + connections u evs"
| "connections u (_ # evs) = connections u evs"


section \<open>Exactness\<close>

lemma u64_add: "u64 (u64 a + b) = u64 (a + b)" "u64 (a + u64 b) = u64 (a + b)" "u64 (u64 a) = u64 a"
  by (simp_all add: u64_def mod_add_left_eq mod_add_right_eq)

text \<open>A request reads the counters, kicks, or leaves the state alone and gets another kind of response.\<close>

lemma ServeHTTP_cases:
  obtains (same) x where "stats_ServeHTTP r s = (s, x)" "\<And>m. x \<noteq> TrafficJSON m" "x \<noteq> StatusOK"
    | (traffic) "stats_ServeHTTP r s = getTraffic r s"
    | (kick) "stats_ServeHTTP r s = kick r s"
proof -
  have "\<exists>x. getOnline s = (s, x) \<and> (\<forall>m. x \<noteq> TrafficJSON m) \<and> x \<noteq> StatusOK"
    "\<exists>x. getDumpStreams r s = (s, x) \<and> (\<forall>m. x \<noteq> TrafficJSON m) \<and> x \<noteq> StatusOK"
    by (simp_all add: getOnline_def getDumpStreams_def Let_def)
  then have "(\<exists>x. stats_ServeHTTP r s = (s, x) \<and> (\<forall>m. x \<noteq> TrafficJSON m) \<and> x \<noteq> StatusOK) \<or>
      stats_ServeHTTP r s = getTraffic r s \<or> stats_ServeHTTP r s = kick r s"
    unfolding stats_ServeHTTP_def by (auto split: if_split)
  then show ?thesis using that by blast
qed

lemma stats_step_counted:
  assumes "stats_step ev s = (s', out)" "dir = fst \<or> dir = snd"
  shows "u64 (counted dir u s + accepted dir u (ev, out)) = u64 (reported dir u (ev, out) + counted dir u s')"
proof (cases ev)
  case (StLog uid tx rx)
  then show ?thesis using assms
    by (auto simp: stats_LogTraffic_def counted_def Let_def u64_add split: if_splits option.split prod.splits)
next
  case (StOnline uid online)
  then show ?thesis using assms by (auto simp: stats_LogOnlineState_def counted_def Let_def)
next
  case (StTrace stream stats)
  then show ?thesis using assms by (auto simp: stats_TraceStream_def counted_def)
next
  case (StUntrace stream)
  then show ?thesis using assms by (auto simp: stats_UntraceStream_def counted_def)
next
  case (StHttp r)
  show ?thesis
  proof (cases rule: ServeHTTP_cases [of r s])
    case (same x)
    then show ?thesis using StHttp assms(1) by (cases x) (auto simp: counted_def)
  qed (use StHttp assms in \<open>auto simp: getTraffic_def kick_def counted_def split: if_splits option.splits\<close>)
qed

lemma stats_run_counted:
  assumes "stats_run evs s = (s', tr)" "dir = fst \<or> dir = snd"
  shows "u64 (counted dir u s + sum_list (map (accepted dir u) tr)) =
    u64 (sum_list (map (reported dir u) tr) + counted dir u s')"
  using assms(1)
proof (induction evs arbitrary: s tr)
  case (Cons ev evs)
  obtain s1 out tr1 where st: "stats_step ev s = (s1, out)" and tr: "stats_run evs s1 = (s', tr1)" "tr = (ev, out) # tr1"
    using Cons.prems by (auto split: prod.splits)
  let ?a = "sum_list (map (accepted dir u) tr1)" and ?r = "sum_list (map (reported dir u) tr1)"
  have "u64 (counted dir u s + accepted dir u (ev, out) + ?a) =
      u64 (reported dir u (ev, out) + (counted dir u s1 + ?a))"
    using stats_step_counted [OF st assms(2), of u] by (metis u64_add(1) add.assoc)
  also have "\<dots> = u64 (reported dir u (ev, out) + (?r + counted dir u s'))"
    using Cons.IH [OF tr(1)] by (metis u64_add(2))
  finally show ?case by (simp add: tr(2) add.assoc)
qed simp

lemma stats_step_kick:
  "stats_step ev s = (s', out) \<Longrightarrow> u \<in> ss_KickMap s' \<longleftrightarrow> pending u (u \<in> ss_KickMap s) [(ev, out)]"
proof (induction ev)
  case (StHttp r)
  show ?case
  proof (cases rule: ServeHTTP_cases [of r s])
    case (same x)
    then show ?thesis using StHttp by (cases x) auto
  qed (use StHttp in \<open>auto simp: getTraffic_def kick_def split: if_splits option.splits\<close>)
qed (auto simp: stats_LogTraffic_def stats_LogOnlineState_def stats_TraceStream_def stats_UntraceStream_def Let_def
      split: if_splits)

lemma pending_Cons: "pending u b (x # tr) = pending u (pending u b [x]) tr"
  by (induction u b "[x]" rule: pending.induct) auto

lemma stats_run_kick:
  "stats_run evs s = (s', tr) \<Longrightarrow> u \<in> ss_KickMap s' \<longleftrightarrow> pending u (u \<in> ss_KickMap s) tr"
proof (induction evs arbitrary: s tr)
  case (Cons ev evs)
  obtain s1 out tr1 where "stats_step ev s = (s1, out)" "stats_run evs s1 = (s', tr1)" "tr = (ev, out) # tr1"
    using Cons.prems by (auto split: prod.splits)
  then show ?case using Cons.IH [of s1 tr1] stats_step_kick [of ev s s1 out u]
    by (simp add: pending_Cons [of u _ "(ev, out)" tr1])
qed simp

text \<open>The table of connections, while no user is signed off more often than signed on.\<close>

definition online_ok :: "(string \<Rightarrow> int) \<Rightarrow> statsServer \<Rightarrow> bool" where
  "online_ok n s \<longleftrightarrow> (\<forall>u. ss_OnlineMap s u = (if n u = 0 then None else Some (n u)))"

lemma stats_step_online:
  assumes "stats_step ev s = (s', out)" "online_ok n s" "\<forall>u. 0 \<le> n u" "\<forall>u. 0 \<le> n u + connections u [ev]"
  shows "online_ok (\<lambda>u. n u + connections u [ev]) s'"
proof (cases ev)
  case (StOnline uid online)
  then have s': "s' = stats_LogOnlineState uid online s" using assms(1) by simp
  have "0 \<le> n uid + (if online then 1 else - 1)" using assms(4) [rule_format, of uid] StOnline by simp
  then show ?thesis using assms(2) assms(3) [rule_format, of uid] StOnline unfolding s'
    by (auto simp: online_ok_def stats_LogOnlineState_def Let_def)
qed (use assms in \<open>auto simp: online_ok_def stats_LogTraffic_def stats_TraceStream_def stats_UntraceStream_def
      stats_ServeHTTP_def getTraffic_def getOnline_def getDumpStreams_def kick_def Let_def
      split: if_splits option.splits prod.splits\<close>)

lemma connections_append: "connections u (xs @ ys) = connections u xs + connections u ys"
  by (induction u xs rule: connections.induct) auto

lemma stats_run_online:
  assumes "stats_run evs s = (s', tr)" "online_ok n s"
    and "\<And>u k. 0 \<le> n u + connections u (take k evs)"
  shows "online_ok (\<lambda>u. n u + connections u evs) s'"
  using assms
proof (induction evs arbitrary: s tr n)
  case (Cons ev evs)
  obtain s1 out tr1 where st: "stats_step ev s = (s1, out)" and tr: "stats_run evs s1 = (s', tr1)"
    using Cons.prems(1) by (auto split: prod.splits)
  have c: "connections u (ev # xs) = connections u [ev] + connections u xs" for u xs
    using connections_append [of u "[ev]" xs] by simp
  have "online_ok (\<lambda>u. n u + connections u [ev]) s1"
    by (rule stats_step_online [OF st Cons.prems(2)])
      (use Cons.prems(3) [where k = 0] Cons.prems(3) [where k = 1] in simp_all)
  moreover have "0 \<le> n u + connections u [ev] + connections u (take k evs)" for u k
    using Cons.prems(3) [where k = "Suc k" and u = u] unfolding take_Suc_Cons c [of u "take k evs"] by simp
  ultimately have "online_ok (\<lambda>u. n u + connections u [ev] + connections u evs) s'" by (rule Cons.IH [OF tr])
  moreover have "(\<lambda>u. n u + connections u (ev # evs)) = (\<lambda>u. n u + connections u [ev] + connections u evs)"
    by (simp only: c [of _ evs] add.assoc)
  ultimately show ?case by (simp only:)
qed (simp add: online_ok_def)

text \<open>
  C37: The counters are exact.  Whatever is logged, asked for and kicked, and in whatever order, the
  bytes accepted for a user in either direction are, modulo 2^64, those in the reports that cleared
  the table plus those the table still has; a call is refused, and its bytes are not counted, exactly
  when a kick of that user is pending, and a refusal answers one kick; the number of connections of
  a user is that of its sign-ons less its sign-offs if the server signs off only what it signed on;
  and a request without the secret gets nothing and changes nothing.
\<close>

theorem stats_server_exact:
  assumes "stats_run evs (NewTrafficStatsServer secret) = (s, tr)"
  shows "u64 (sum_list (map (accepted fst u) tr)) = u64 (sum_list (map (reported fst u) tr) + counted fst u s) \<and>
    u64 (sum_list (map (accepted snd u) tr)) = u64 (sum_list (map (reported snd u) tr) + counted snd u s) \<and>
    snd (stats_step (StLog u tx rx) s) = Logged (\<not> pending u False tr) \<and>
    ((\<forall>v k. 0 \<le> connections v (take k evs)) \<longrightarrow>
       ss_OnlineMap s u = (if connections u evs = 0 then None else Some (connections u evs))) \<and>
    (secret \<noteq> [] \<and> rq_Authorization r \<noteq> secret \<longrightarrow> stats_ServeHTTP r s = (s, StatusUnauthorized))"
proof -
  let ?s0 = "NewTrafficStatsServer secret"
  have z: "counted dir u ?s0 = 0" "u \<notin> ss_KickMap ?s0" "online_ok (\<lambda>_. 0) ?s0" for dir
    by (simp_all add: counted_def NewTrafficStatsServer_def online_ok_def)
  have "u64 (sum_list (map (accepted fst u) tr)) = u64 (sum_list (map (reported fst u) tr) + counted fst u s)"
    using stats_run_counted [OF assms, of fst u] z by simp
  moreover have "u64 (sum_list (map (accepted snd u) tr)) = u64 (sum_list (map (reported snd u) tr) + counted snd u s)"
    using stats_run_counted [OF assms, of snd u] z by simp
  moreover have "snd (stats_step (StLog u tx rx) s) = Logged (\<not> pending u False tr)"
    using stats_run_kick [OF assms, of u] z by (simp add: stats_LogTraffic_def Let_def)
  moreover have "ss_OnlineMap s u = (if connections u evs = 0 then None else Some (connections u evs))"
    if "\<forall>v k. 0 \<le> connections v (take k evs)"
    using stats_run_online [OF assms z(3)] that by (simp add: online_ok_def)
  moreover have "ss_Secret s = secret"
  proof -
    have "ss_Secret s' = ss_Secret s" if "stats_run evs s = (s', tr)" for s' s evs tr
      using that
    proof (induction evs arbitrary: s tr)
      case (Cons ev evs)
      obtain s1 out tr1 where "stats_step ev s = (s1, out)" "stats_run evs s1 = (s', tr1)"
        using Cons.prems by (auto split: prod.splits)
      moreover from this(1) have "ss_Secret s1 = ss_Secret s"
        by (cases ev) (auto simp: stats_LogTraffic_def stats_LogOnlineState_def stats_TraceStream_def stats_UntraceStream_def
          stats_ServeHTTP_def getTraffic_def getOnline_def getDumpStreams_def kick_def Let_def
          split: if_splits option.splits prod.splits)
      ultimately show ?case using Cons.IH by metis
    qed simp
    from this [OF assms] show ?thesis by (simp add: NewTrafficStatsServer_def)
  qed
  ultimately show ?thesis by (simp add: stats_ServeHTTP_def)
qed


text \<open>A user signs on, sends, is reported with clearing, sends again and is kicked.\<close>

definition clear_request :: http_request where
  "clear_request = \<lparr>rq_Method = ''GET'', rq_Path = ''/traffic'', rq_Authorization = ''k'', rq_Accept = [],
     rq_clear = ''1'', rq_ids = None\<rparr>"

definition kick_request :: http_request where
  "kick_request = \<lparr>rq_Method = ''POST'', rq_Path = ''/kick'', rq_Authorization = ''k'', rq_Accept = [],
     rq_clear = [], rq_ids = Some [''a'']\<rparr>"

lemma stats_server_exact_witness:
  "\<exists>s tr. stats_run [StOnline ''a'' True, StLog ''a'' 5 7, StHttp clear_request, StLog ''a'' 1 2, StHttp kick_request]
       (NewTrafficStatsServer ''k'') = (s, tr) \<and>
     sum_list (map (reported fst ''a'') tr) = 5 \<and> counted fst ''a'' s = 1 \<and>
     u64 (sum_list (map (accepted fst ''a'') tr)) = u64 (5 + 1) \<and>
     snd (stats_step (StLog ''a'' 3 3) s) = Logged False \<and> ss_OnlineMap s ''a'' = Some 1 \<and>
     stats_ServeHTTP (clear_request\<lparr>rq_Authorization := []\<rparr>) s = (s, StatusUnauthorized)"
proof -
  let ?evs = "[StOnline ''a'' True, StLog ''a'' 5 7, StHttp clear_request, StLog ''a'' 1 2, StHttp kick_request]"
  obtain s tr where r: "stats_run ?evs (NewTrafficStatsServer ''k'') = (s, tr)" by fastforce
  note defs = NewTrafficStatsServer_def stats_LogTraffic_def stats_LogOnlineState_def stats_ServeHTTP_def getTraffic_def
    kick_def clear_request_def kick_request_def clear_flag_def u64_def
  have c: "sum_list (map (reported fst ''a'') tr) = 5" "counted fst ''a'' s = 1" "pending ''a'' False tr"
    using r by (auto simp: defs counted_def)
  have n: "0 \<le> connections v (take k ?evs)" for v k by (simp add: take_Cons')
  show ?thesis
    using stats_server_exact [OF r, of "''a''" 3 3 "clear_request\<lparr>rq_Authorization := []\<rparr>"] c n r
    by (simp add: clear_request_def)
qed

section \<open>The dump\<close>

text \<open>The dump lists the traced streams, sorted by user, connection and stream.\<close>

definition dump_key :: "dumpStreamEntry \<Rightarrow> nat list \<times> nat \<times> nat" where
  "dump_key e = (map cb (ds_Auth e), unat (ds_Connection e), ds_Stream e)"

abbreviation dump_le :: "dumpStreamEntry \<Rightarrow> dumpStreamEntry \<Rightarrow> bool" where
  "dump_le a b \<equiv> dump_key a \<le> dump_key b"

lemma str_less_lex: "str_less a b \<longleftrightarrow> map cb a < map cb b"
  by (induction a b rule: str_less.induct) auto

lemma dump_less_key: "dump_less a b \<longleftrightarrow> dump_key a < dump_key b"
proof -
  have "map cb (ds_Auth a) = map cb (ds_Auth b) \<longleftrightarrow> ds_Auth a = ds_Auth b"
    by (simp add: inj_map_eq_map inj_def)
  then show ?thesis
    by (auto simp: dump_less_def dump_key_def str_less_lex word_less_nat_alt less_prod_def' word_unat_eq_iff)
qed

lemma set_insert_entry: "set (insert_entry e fs) = insert e (set fs)"
  by (induction fs) auto

lemma insert_entry_sorted: "sorted_wrt dump_le fs \<Longrightarrow> sorted_wrt dump_le (insert_entry e fs)"
  by (induction fs) (auto simp: set_insert_entry dump_less_key intro: order_trans)

lemma insert_entry_perm: "mset (insert_entry e fs) = add_mset e (mset fs)"
  by (induction fs) auto

lemma dump_exact:
  "\<exists>es. (getDumpStreams r s = (s, StreamsText es) \<or> getDumpStreams r s = (s, StreamsJSON es)) \<and>
     sorted_wrt dump_le es \<and> mset es = image_mset fromStreamStats (mset (ss_StreamMap s))"
proof -
  have "sorted_wrt dump_le (foldr insert_entry xs []) \<and> mset (foldr insert_entry xs []) = mset xs" for xs
    by (induction xs) (simp_all add: insert_entry_sorted insert_entry_perm)
  from this [of "map fromStreamStats (ss_StreamMap s)"] show ?thesis
    by (auto simp: getDumpStreams_def Let_def)
qed

end
