(* ===== verification/Authenticators.thy ===== *)
theory Authenticators
  imports Go_Strings
begin

text \<open>
  \<open>extras/auth\<close>: the authenticators a server can be configured with.  Each is a function of the
  client's address, the credentials it sent and the rate it asked for, to whether it is let in and the
  user id.  Running a command and posting over HTTP, and encoding the request and decoding the
  response, are arguments, and so is \<open>strings.ToLower\<close> with its Unicode tables.
\<close>

type_synonym authenticator = "string \<Rightarrow> string \<Rightarrow> int \<Rightarrow> bool \<times> string"

section \<open>Password\<close>

definition Password_Authenticate :: "string \<Rightarrow> authenticator" where
  "Password_Authenticate Password addr auth tx = (if auth = Password then (True, ''user'') else (False, ''''))"

section \<open>User name and password\<close>

text \<open>The users in the order in which the map is iterated.\<close>

definition NewUserPassAuthenticator :: "(string \<Rightarrow> string) \<Rightarrow> (string \<times> string) list \<Rightarrow> (string \<rightharpoonup> string)" where
  "NewUserPassAuthenticator lower users = foldl (\<lambda>lc (user, pass). lc(lower user \<mapsto> pass)) Map.empty users"

definition splitUserPass :: "(string \<Rightarrow> string) \<Rightarrow> string \<Rightarrow> (string \<times> string) option" where
  "splitUserPass lower auth =
     (case split2 (CHR '':'') auth of
        (_, None) \<Rightarrow> None
      | (user, Some pass) \<Rightarrow> Some (lower user, pass))"

definition UserPass_Authenticate :: "(string \<Rightarrow> string) \<Rightarrow> (string \<rightharpoonup> string) \<Rightarrow> authenticator" where
  "UserPass_Authenticate lower users addr auth tx =
     (case splitUserPass lower auth of
        None \<Rightarrow> (False, '''')
      | Some (u, p) \<Rightarrow>
          (case users u of
             None \<Rightarrow> (False, '''')
           | Some rp \<Rightarrow> if rp \<noteq> p then (False, '''') else (True, u)))"

section \<open>Command\<close>

text \<open>\<open>strconv.Itoa(int(tx))\<close>: the conversion reinterprets the bits.\<close>

definition Itoa :: "int \<Rightarrow> string" where
  "Itoa n = (if n < 0 then CHR ''-'' # dec_digits (nat (- n)) else dec_digits (nat n))"

text \<open>\<open>exec\<close> runs a command with arguments: its output, or \<open>None\<close> if it fails or exits with a code other than 0.\<close>

definition Command_Authenticate :: "(string \<Rightarrow> string list \<Rightarrow> string option) \<Rightarrow> string \<Rightarrow> authenticator" where
  "Command_Authenticate exec Cmd addr auth tx =
     (case exec Cmd [addr, auth, Itoa (i64 tx)] of
        None \<Rightarrow> (False, '''')
      | Some out \<Rightarrow> (True, TrimSpace out))"

section \<open>HTTP\<close>

record httpAuthRequest =
  har_Addr :: string
  har_Auth :: string
  har_Tx :: int

record httpAuthResponse =
  hap_OK :: bool
  hap_ID :: string

datatype post_error = MarshalError | PostError | InvalidStatusCode | ReadError | UnmarshalError

text \<open>\<open>Post\<close> gives the status and what reading the body gives.\<close>

definition post ::
  "(httpAuthRequest \<Rightarrow> bytes option) \<Rightarrow> (string \<Rightarrow> bytes \<Rightarrow> (int \<times> bytes option) option) \<Rightarrow>
   (bytes \<Rightarrow> httpAuthResponse option) \<Rightarrow> string \<Rightarrow> httpAuthRequest \<Rightarrow> post_error + httpAuthResponse" where
  "post Marshal Post Unmarshal URL req =
     (case Marshal req of
        None \<Rightarrow> Inl MarshalError
      | Some bs \<Rightarrow>
          (case Post URL bs of
             None \<Rightarrow> Inl PostError
           | Some (StatusCode, body) \<Rightarrow>
               if StatusCode \<noteq> 200 then Inl InvalidStatusCode
               else (case body of
                       None \<Rightarrow> Inl ReadError
                     | Some respData \<Rightarrow>
                         (case Unmarshal respData of None \<Rightarrow> Inl UnmarshalError | Some authResp \<Rightarrow> Inr authResp))))"

definition HTTP_Authenticate ::
  "(httpAuthRequest \<Rightarrow> bytes option) \<Rightarrow> (string \<Rightarrow> bytes \<Rightarrow> (int \<times> bytes option) option) \<Rightarrow>
   (bytes \<Rightarrow> httpAuthResponse option) \<Rightarrow> string \<Rightarrow> authenticator" where
  "HTTP_Authenticate Marshal Post Unmarshal URL addr auth tx =
     (case post Marshal Post Unmarshal URL \<lparr>har_Addr = addr, har_Auth = auth, har_Tx = tx\<rparr> of
        Inl err \<Rightarrow> (False, '''')
      | Inr resp \<Rightarrow> (hap_OK resp, hap_ID resp))"

section \<open>Who is let in\<close>

lemma users_map:
  "distinct (map (lower \<circ> fst) users) \<Longrightarrow>
   NewUserPassAuthenticator lower users = map_of (map (\<lambda>(u, p). (lower u, p)) users)"
proof -
  assume d: "distinct (map (lower \<circ> fst) users)"
  have f: "foldl (\<lambda>lc (user, pass). lc(lower user \<mapsto> pass)) m us = m ++ map_of (rev (map (\<lambda>(u, p). (lower u, p)) us))" for m us
    by (induction us arbitrary: m) (auto simp: map_add_assoc map_add_upd [symmetric])
  have "distinct (map fst (map (\<lambda>(u, p). (lower u, p)) users))"
    using d by (simp add: comp_def case_prod_beta)
  then have "map_of (rev (map (\<lambda>(u, p). (lower u, p)) users)) = map_of (map (\<lambda>(u, p). (lower u, p)) users)"
    by (subst map_of_inject_set) (simp_all add: rev_map [symmetric])
  then show ?thesis using f [of Map.empty users] by (simp add: NewUserPassAuthenticator_def)
qed

lemma split2_Some: "split2 sep s = (a, Some b) \<longleftrightarrow> s = a @ sep # b \<and> sep \<notin> set a"
proof (induction s arbitrary: a)
  case (Cons c s)
  obtain a' r where sp: "split2 sep s = (a', r)" by fastforce
  show ?case
  proof (cases "c = sep")
    case False
    then have "split2 sep (c # s) = (a, Some b) \<longleftrightarrow> (\<exists>t. a = c # t \<and> split2 sep s = (t, Some b))" by (auto simp: sp)
    also have "\<dots> \<longleftrightarrow> (\<exists>t. a = c # t \<and> s = t @ sep # b \<and> sep \<notin> set t)" unfolding Cons.IH ..
    also have "\<dots> \<longleftrightarrow> c # s = a @ sep # b \<and> sep \<notin> set a" using False by (cases a) auto
    finally show ?thesis .
  qed (cases a; auto)
qed simp

text \<open>
  Of users whose names differ when lower-cased, exactly those are let in who send their name, in
  any capitals, a colon and their password, and they are known by the lower-cased name, whatever the
  name's capitals were in the configuration or in the request.
\<close>

theorem userpass_accepts:
  assumes "distinct (map (lower \<circ> fst) users)"
  shows "UserPass_Authenticate lower (NewUserPassAuthenticator lower users) addr auth tx = (True, uid) \<longleftrightarrow>
    (\<exists>name user pass. auth = name @ '':'' @ pass \<and> CHR '':'' \<notin> set name \<and> (user, pass) \<in> set users \<and>
       lower name = lower user \<and> uid = lower user)"
proof -
  have d: "distinct (map fst (map (\<lambda>(u, p). (lower u, p)) users))"
    using assms by (simp add: comp_def case_prod_beta)
  have "UserPass_Authenticate lower (NewUserPassAuthenticator lower users) addr auth tx = (True, uid) \<longleftrightarrow>
      (\<exists>name pass. split2 (CHR '':'') auth = (name, Some pass) \<and> uid = lower name \<and>
        NewUserPassAuthenticator lower users (lower name) = Some pass)"
    by (auto simp: UserPass_Authenticate_def splitUserPass_def split: prod.splits option.splits if_splits)
  also have "\<dots> \<longleftrightarrow> (\<exists>name pass. auth = name @ '':'' @ pass \<and> CHR '':'' \<notin> set name \<and> uid = lower name \<and>
        (lower name, pass) \<in> set (map (\<lambda>(u, p). (lower u, p)) users))"
    unfolding users_map [OF assms] split2_Some map_of_eq_Some_iff [OF d] by auto
  also have "\<dots> \<longleftrightarrow> (\<exists>name user pass. auth = name @ '':'' @ pass \<and> CHR '':'' \<notin> set name \<and> (user, pass) \<in> set users \<and>
       lower name = lower user \<and> uid = lower user)" by force
  finally show ?thesis .
qed

text \<open>A user \<open>Ann\<close> with a password that has a colon, who sends \<open>ANN\<close>.\<close>

lemma userpass_accepts_witness:
  "UserPass_Authenticate ToLower (NewUserPassAuthenticator ToLower [(''Ann'', ''x:y''), (''bob'', ''z'')]) ''1.2.3.4:5'' ''ANN:x:y'' 0 =
     (True, ''ann'')"
proof -
  have "distinct (map (ToLower \<circ> fst) [(''Ann'', ''x:y''), (''bob'', ''z'')])" by code_simp
  moreover have "''ANN:x:y'' = ''ANN'' @ '':'' @ ''x:y'' \<and> CHR '':'' \<notin> set ''ANN'' \<and>
      (''Ann'', ''x:y'') \<in> set [(''Ann'', ''x:y''), (''bob'', ''z'')] \<and> ToLower ''ANN'' = ToLower ''Ann'' \<and>
      ''ann'' = ToLower ''Ann''" by code_simp
  ultimately show ?thesis using userpass_accepts [of ToLower] by blast
qed

section \<open>Errors keep clients out\<close>

lemma command_refuses: "fst (Command_Authenticate exec Cmd addr auth tx) \<longleftrightarrow> exec Cmd [addr, auth, Itoa (i64 tx)] \<noteq> None"
  by (simp add: Command_Authenticate_def split: option.split)

text \<open>A rate of 2^63 or more reaches the command as a negative number.\<close>

lemma command_negative:
  "2 ^ 63 \<le> tx \<Longrightarrow> tx < 2 ^ 64 \<Longrightarrow> i64 tx = tx - 2 ^ 64"
proof -
  assume "2 ^ 63 \<le> tx" "tx < 2 ^ 64"
  then have "(tx + 2 ^ 63 - 2 ^ 64) mod 2 ^ 64 = tx + 2 ^ 63 - 2 ^ 64" by (intro mod_pos_pos_trivial) auto
  moreover have "(tx + 2 ^ 63 - 2 ^ 64) mod 2 ^ 64 = (tx + 2 ^ 63) mod 2 ^ 64" by (rule minus_mod_self2)
  ultimately show ?thesis by (simp add: i64_def)
qed

lemma http_accepts:
  "fst (HTTP_Authenticate Marshal Post Unmarshal URL addr auth tx) \<longleftrightarrow>
     (\<exists>bs data resp. Marshal \<lparr>har_Addr = addr, har_Auth = auth, har_Tx = tx\<rparr> = Some bs \<and>
        Post URL bs = Some (200, Some data) \<and> Unmarshal data = Some resp \<and> hap_OK resp)"
  by (auto simp: HTTP_Authenticate_def post_def split: option.splits prod.splits)

end
