(* ===== verification/Resolvers.thy ===== *)
theory Resolvers
  imports Outbound_Addr
begin

text \<open>
  \<open>extras/outbounds/utils.go\<close>, \<open>dns_system.go\<close>, \<open>dns_standard.go\<close> and \<open>dns_https.go\<close>: the resolvers
  that fill in the addresses of a request before it goes on down the pipeline.

  The DNS libraries are arguments: \<open>ex\<close> is \<open>Client.Exchange\<close> of one lookup's questions, whose answer
  may depend on the questions asked before; \<open>fqdn\<close> is \<open>dns.Fqdn\<close>, \<open>lower\<close> is \<open>strings.ToLower\<close> with its
  Unicode tables; \<open>lookupIP\<close> is \<open>net.LookupIP\<close>.  A nil \<open>net.IP\<close> is the empty list.
\<close>

section \<open>Addresses\<close>

text \<open>The loop stops early when it has both; the addresses are found in order.\<close>

fun split_loop :: "bytes \<Rightarrow> bytes \<Rightarrow> bytes list \<Rightarrow> bytes \<times> bytes" where
  "split_loop ipv4 ipv6 [] = (ipv4, ipv6)"
| "split_loop ipv4 ipv6 (ip # ips) =
     (let ipv4' = (if To4 ip \<noteq> None \<and> ipv4 = [] then ip else ipv4);
          ipv6' = (if To4 ip = None \<and> ipv6 = [] then ip else ipv6)
      in if ipv4' \<noteq> [] \<and> ipv6' \<noteq> [] then (ipv4', ipv6') else split_loop ipv4' ipv6' ips)"

definition splitIPv4IPv6 :: "bytes list \<Rightarrow> bytes \<times> bytes" where
  "splitIPv4IPv6 ips = split_loop [] [] ips"

definition tryParseIP :: "AddrEx \<Rightarrow> AddrEx option" where
  "tryParseIP addr =
     (case ParseIP (ax_Host addr) of
        Some ip \<Rightarrow>
          Some (addr\<lparr>ax_ResolveInfo := Some
            (if To4 ip \<noteq> None then \<lparr>ri_IPv4 = ip, ri_IPv6 = [], ri_Err = None\<rparr>
             else \<lparr>ri_IPv4 = [], ri_IPv6 = ip, ri_Err = None\<rparr>)\<rparr>)
      | None \<Rightarrow> None)"

section \<open>The system resolver\<close>

definition system_resolve :: "(string \<Rightarrow> string + bytes list) \<Rightarrow> AddrEx \<Rightarrow> AddrEx" where
  "system_resolve lookupIP reqAddr =
     (case lookupIP (ax_Host reqAddr) of
        Inl err \<Rightarrow> reqAddr\<lparr>ax_ResolveInfo := Some \<lparr>ri_IPv4 = [], ri_IPv6 = [], ri_Err = Some err\<rparr>\<rparr>
      | Inr ips \<Rightarrow>
          (let (ipv4, ipv6) = splitIPv4IPv6 ips
           in reqAddr\<lparr>ax_ResolveInfo := Some \<lparr>ri_IPv4 = ipv4, ri_IPv6 = ipv6, ri_Err = None\<rparr>\<rparr>))"

section \<open>The standard resolver\<close>

definition standardResolverRetryTimes :: nat where "standardResolverRetryTimes = 2"
definition maxCNAMEDepth :: nat where "maxCNAMEDepth = 16"
definition errCNAMEChainTooLong :: string where "errCNAMEChainTooLong = ''CNAME chain too long''"
definition resolverDefaultTimeout :: int where "resolverDefaultTimeout = 2 * 1000000000"

definition addDefaultPort :: "string \<Rightarrow> string" where
  "addDefaultPort addr = (if SplitHostPort addr = None then JoinHostPort addr ''53'' else addr)"

definition addDefaultPortTLS :: "string \<Rightarrow> string" where
  "addDefaultPortTLS addr = (if SplitHostPort addr = None then JoinHostPort addr ''853'' else addr)"

definition timeoutOrDefault :: "int \<Rightarrow> int" where
  "timeoutOrDefault timeout = (if timeout = 0 then resolverDefaultTimeout else timeout)"

text \<open>Resource records; a \<open>CNAME\<close> has its owner and its target.\<close>

datatype RR = RR_A bytes | RR_AAAA bytes | RR_CNAME string string | RR_Other

fun skip_loop :: "string \<Rightarrow> RR list \<Rightarrow> string" where
  "skip_loop lastCNAME [] = lastCNAME"
| "skip_loop lastCNAME (RR_CNAME name target # as) =
     (if lastCNAME = [] then skip_loop target as
      else if name = lastCNAME then skip_loop target as
      else lastCNAME)"
| "skip_loop lastCNAME (_ # as) = skip_loop lastCNAME as"

definition skipCNAMEChain :: "RR list \<Rightarrow> string" where
  "skipCNAMEChain answers = skip_loop [] answers"

text \<open>What a lookup takes from an answer: the address of its kind of record.\<close>

fun pick4 :: "RR \<Rightarrow> bytes option" where
  "pick4 (RR_A ip) = Some (case To4 ip of Some p \<Rightarrow> p | None \<Rightarrow> [])"
| "pick4 _ = None"

fun pick6 :: "RR \<Rightarrow> bytes option" where
  "pick6 (RR_AAAA ip) = Some (if length ip = 16 then ip else if length ip = 4 then v4InV6Prefix @ ip else [])"
| "pick6 _ = None"

definition is_cname :: "RR \<Rightarrow> bool" where
  "is_cname r \<longleftrightarrow> (case r of RR_CNAME _ _ \<Rightarrow> True | _ \<Rightarrow> False)"

type_synonym exchange = "string list \<Rightarrow> string \<Rightarrow> string + RR list"

text \<open>
  \<open>lookup4WithCNAMEDepth\<close> and \<open>lookup6WithCNAMEDepth\<close>, with \<open>pick4\<close> and \<open>pick6\<close>; the result comes with
  the questions asked so far.
\<close>

function lookupWithCNAMEDepth ::
  "(string \<Rightarrow> string) \<Rightarrow> (string \<Rightarrow> string) \<Rightarrow> (RR \<Rightarrow> bytes option) \<Rightarrow> exchange
     \<Rightarrow> string list \<Rightarrow> string \<Rightarrow> nat \<Rightarrow> string list \<Rightarrow> (string + bytes) \<times> string list" where
  "lookupWithCNAMEDepth lower fqdn pick ex asked host depth seen =
     (if depth > maxCNAMEDepth then (Inl errCNAMEChainTooLong, asked)
      else
        (let key = lower (fqdn host)
         in if key \<in> set seen then (Inl errCNAMEChainTooLong, asked)
            else
              (case ex asked (fqdn host) of
                 Inl err \<Rightarrow> (Inl err, asked @ [fqdn host])
               | Inr answer \<Rightarrow>
                   (case List.map_filter pick answer of
                      ip # _ \<Rightarrow> (Inr ip, asked @ [fqdn host])
                    | [] \<Rightarrow>
                        if list_ex is_cname answer
                        then lookupWithCNAMEDepth lower fqdn pick ex (asked @ [fqdn host]) (skipCNAMEChain answer)
                               (depth + 1) (key # seen)
                        else (Inr [], asked @ [fqdn host])))))"
  by auto
termination
  by (relation "measure (\<lambda>(_, _, _, _, _, _, depth, _). maxCNAMEDepth + 1 - depth)") auto

declare lookupWithCNAMEDepth.simps [simp del]

definition lookup4 where
  "lookup4 lower fqdn ex asked host = lookupWithCNAMEDepth lower fqdn pick4 ex asked host 0 []"

definition lookup6 where
  "lookup6 lower fqdn ex asked host = lookupWithCNAMEDepth lower fqdn pick6 ex asked host 0 []"

text \<open>The retries of one address family: \<open>n\<close> more attempts after a failure.\<close>

fun retry :: "(string list \<Rightarrow> (string + bytes) \<times> string list) \<Rightarrow> nat \<Rightarrow> string list \<Rightarrow> (string + bytes) \<times> string list" where
  "retry look 0 asked = look asked"
| "retry look (Suc n) asked =
     (case look asked of
        (Inr ip, asked) \<Rightarrow> (Inr ip, asked)
      | (Inl err, asked) \<Rightarrow> retry look n asked)"

text \<open>Both families are looked up at the same time, each with its own questions.\<close>

definition merge_results :: "string + bytes \<Rightarrow> string + bytes \<Rightarrow> ResolveInfo" where
  "merge_results result4 result6 =
     \<lparr>ri_IPv4 = (case result4 of Inr ip \<Rightarrow> ip | Inl _ \<Rightarrow> []),
      ri_IPv6 = (case result6 of Inr ip \<Rightarrow> ip | Inl _ \<Rightarrow> []),
      ri_Err = (case result4 of Inl err \<Rightarrow> Some err
                | Inr _ \<Rightarrow> (case result6 of Inl err \<Rightarrow> Some err | Inr _ \<Rightarrow> None))\<rparr>"

definition standard_resolve ::
  "(string \<Rightarrow> string) \<Rightarrow> (string \<Rightarrow> string) \<Rightarrow> exchange \<Rightarrow> exchange \<Rightarrow> AddrEx \<Rightarrow> AddrEx" where
  "standard_resolve lower fqdn ex4 ex6 reqAddr =
     (case tryParseIP reqAddr of
        Some reqAddr \<Rightarrow> reqAddr
      | None \<Rightarrow>
          (let result4 = fst (retry (\<lambda>asked. lookup4 lower fqdn ex4 asked (ax_Host reqAddr)) (standardResolverRetryTimes - 1) []);
               result6 = fst (retry (\<lambda>asked. lookup6 lower fqdn ex6 asked (ax_Host reqAddr)) (standardResolverRetryTimes - 1) [])
           in reqAddr\<lparr>ax_ResolveInfo := Some (merge_results result4 result6)\<rparr>))"

section \<open>DNS over HTTPS\<close>

text \<open>
  \<open>tinydoh\<close>: building the query, the HTTP request and parsing the message are the libraries'.  A
  response has its status, its content type and its body; a message its code and its answers.
\<close>

record doh_client =
  dc_query :: "bool \<Rightarrow> string \<Rightarrow> bytes option"
  dc_Do :: "string \<Rightarrow> bytes \<Rightarrow> (int \<times> string \<times> bytes option) option"
  dc_parse :: "bytes \<Rightarrow> (int \<times> RR list) option"

definition doh_lookup :: "doh_client \<Rightarrow> string \<Rightarrow> bool \<Rightarrow> string \<Rightarrow> string + RR list" where
  "doh_lookup dc URL v6 host =
     (if URL = [] then Inl ''no DoH URL provided''
      else
        (let host = (if HasSuffix host ''.'' then host else host @ ''.'')
         in case dc_query dc v6 host of
              None \<Rightarrow> Inl ''failed to build dns message''
            | Some reqMsg \<Rightarrow>
                (case dc_Do dc URL reqMsg of
                   None \<Rightarrow> Inl ''failed to perform http request''
                 | Some (StatusCode, contentType, body) \<Rightarrow>
                     if StatusCode \<noteq> 200 then Inl ''non-200 status-code''
                     else if contentType \<noteq> ''application/dns-message'' then Inl ''unexpected content-type''
                     else (case body of
                             None \<Rightarrow> Inl ''failed to read http response body''
                           | Some respMsg \<Rightarrow>
                               (case dc_parse dc (take 65536 respMsg) of
                                  None \<Rightarrow> Inl ''failed to parse dns message''
                                | Some (RCode, answers) \<Rightarrow>
                                    if RCode \<noteq> 0 then Inl ''dns query failed'' else Inr answers)))))"

definition LookupA :: "doh_client \<Rightarrow> string \<Rightarrow> string \<Rightarrow> string + bytes list" where
  "LookupA dc URL host =
     (case doh_lookup dc URL False host of
        Inl err \<Rightarrow> Inl err
      | Inr answers \<Rightarrow> Inr (List.map_filter (\<lambda>r. case r of RR_A a \<Rightarrow> Some a | _ \<Rightarrow> None) answers))"

definition LookupAAAA :: "doh_client \<Rightarrow> string \<Rightarrow> string \<Rightarrow> string + bytes list" where
  "LookupAAAA dc URL host =
     (case doh_lookup dc URL True host of
        Inl err \<Rightarrow> Inl err
      | Inr answers \<Rightarrow> Inr (List.map_filter (\<lambda>r. case r of RR_AAAA a \<Rightarrow> Some a | _ \<Rightarrow> None) answers))"

definition doh_url :: "string \<Rightarrow> string" where
  "doh_url addr = (if HasPrefix addr ''https://'' then addr else ''https://'' @ addr @ ''/dns-query'')"

definition doh_resolve :: "doh_client \<Rightarrow> string \<Rightarrow> AddrEx \<Rightarrow> AddrEx" where
  "doh_resolve dc URL reqAddr =
     (case tryParseIP reqAddr of
        Some reqAddr \<Rightarrow> reqAddr
      | None \<Rightarrow>
          (let first = (\<lambda>r. case r of Inl err \<Rightarrow> Inl err | Inr ips \<Rightarrow> Inr (case ips of ip # _ \<Rightarrow> ip | [] \<Rightarrow> []))
           in reqAddr\<lparr>ax_ResolveInfo :=
                Some (merge_results (first (LookupA dc URL (ax_Host reqAddr))) (first (LookupAAAA dc URL (ax_Host reqAddr))))\<rparr>))"

section \<open>In front of the next outbound\<close>

text \<open>\<open>TCP\<close>, \<open>UDP\<close> and \<open>CheckUDP\<close> of every resolver.\<close>

definition resolver_call :: "(AddrEx \<Rightarrow> AddrEx) \<Rightarrow> (AddrEx \<Rightarrow> 'r) \<Rightarrow> AddrEx \<Rightarrow> 'r" where
  "resolver_call resolve next reqAddr = next (resolve reqAddr)"


text \<open>The first address of each family.\<close>

definition first_ip :: "bytes list \<Rightarrow> bytes" where
  "first_ip ips = (case ips of ip # _ \<Rightarrow> ip | [] \<Rightarrow> [])"

lemma split_loop_first:
  "[] \<notin> set ips \<Longrightarrow> split_loop v4 v6 ips =
     (if v4 \<noteq> [] then v4 else first_ip (filter (\<lambda>ip. To4 ip \<noteq> None) ips),
      if v6 \<noteq> [] then v6 else first_ip (filter (\<lambda>ip. To4 ip = None) ips)) \<or> v4 \<noteq> [] \<and> v6 \<noteq> []"
  by (induction v4 v6 ips rule: split_loop.induct) (auto simp: Let_def first_ip_def)

lemma splitIPv4IPv6_first:
  "[] \<notin> set ips \<Longrightarrow> splitIPv4IPv6 ips =
     (first_ip (filter (\<lambda>ip. To4 ip \<noteq> None) ips), first_ip (filter (\<lambda>ip. To4 ip = None) ips))"
  using split_loop_first [of ips "[]" "[]"] by (simp add: splitIPv4IPv6_def)

section \<open>Lookups end\<close>

lemma lookup_questions:
  obtains qs where "snd (lookupWithCNAMEDepth lower fqdn pick ex asked host depth seen) = asked @ qs"
    "length qs \<le> maxCNAMEDepth + 1 - depth" "distinct (map lower qs)" "set (map lower qs) \<inter> set seen = {}"
proof -
  have "\<exists>qs. snd (lookupWithCNAMEDepth lower fqdn pick ex asked host depth seen) = asked @ qs \<and>
    length qs \<le> maxCNAMEDepth + 1 - depth \<and> distinct (map lower qs) \<and> set (map lower qs) \<inter> set seen = {}"
  proof (induction lower fqdn pick ex asked host depth seen rule: lookupWithCNAMEDepth.induct)
    case (1 lower fqdn pick ex asked host depth seen)
    note unf = lookupWithCNAMEDepth.simps [of lower fqdn pick ex asked host depth seen]
    show ?case
    proof (cases "depth > maxCNAMEDepth \<or> lower (fqdn host) \<in> set seen")
      case True
      then show ?thesis by (intro exI [of _ "[]"]) (auto simp: unf Let_def)
    next
      case False
      then have d: "\<not> depth > maxCNAMEDepth" and k: "lower (fqdn host) \<notin> set seen" by auto
      show ?thesis
      proof (cases "\<exists>answer. ex asked (fqdn host) = Inr answer \<and> List.map_filter pick answer = [] \<and> list_ex is_cname answer")
        case True
        then obtain answer where an: "ex asked (fqdn host) = Inr answer" "List.map_filter pick answer = []"
          "list_ex is_cname answer" by blast
        obtain qs where qs: "snd (lookupWithCNAMEDepth lower fqdn pick ex (asked @ [fqdn host]) (skipCNAMEChain answer)
            (depth + 1) (lower (fqdn host) # seen)) = (asked @ [fqdn host]) @ qs"
          "length qs \<le> maxCNAMEDepth + 1 - (depth + 1)" "distinct (map lower qs)"
          "set (map lower qs) \<inter> set (lower (fqdn host) # seen) = {}"
          using 1 [OF d refl k an] by blast
        then show ?thesis using d k an by (intro exI [of _ "fqdn host # qs"]) (auto simp: unf Let_def)
      next
        case False
        then show ?thesis using d k
          by (intro exI [of _ "[fqdn host]"]) (auto simp: unf Let_def split: sum.split list.split)
      qed
    qed
  qed
  then show ?thesis using that by blast
qed

lemma retry_questions:
  assumes "\<And>asked. \<exists>qs. snd (look asked) = asked @ qs \<and> length qs \<le> b"
  shows "\<exists>qs. snd (retry look n asked) = asked @ qs \<and> length qs \<le> (n + 1) * b"
proof (induction n arbitrary: asked)
  case 0
  then show ?case using assms by simp
next
  case (Suc n)
  obtain r qs where l: "look asked = (r, asked @ qs)" "length qs \<le> b" using assms [of asked] by (metis prod.collapse)
  show ?case
  proof (cases r)
    case (Inl err)
    obtain qs' where "snd (retry look n (asked @ qs)) = asked @ qs @ qs'" "length qs' \<le> (n + 1) * b"
      using Suc [of "asked @ qs"] by auto
    then show ?thesis using l Inl by (intro exI [of _ "qs @ qs'"]) simp
  qed (use l in \<open>simp add: trans_le_add1\<close>)
qed

section \<open>Lookups follow aliases\<close>

text \<open>\<open>answers\<close> has a record that makes \<open>y\<close> an alias target of \<open>x\<close>.\<close>

definition cname_rel :: "RR list \<Rightarrow> (string \<times> string) set" where
  "cname_rel answers = {(x, y). RR_CNAME x y \<in> set answers}"

text \<open>An answer whose first \<open>CNAME\<close> is that of the question, if there is one, with targets that are not empty.\<close>

definition answer_ok :: "string \<Rightarrow> RR list \<Rightarrow> bool" where
  "answer_ok q answers \<longleftrightarrow>
     list_all (\<lambda>r. case r of RR_CNAME x y \<Rightarrow> y \<noteq> [] | _ \<Rightarrow> True) answers \<and>
     (case filter is_cname answers of RR_CNAME x y # _ \<Rightarrow> x = q | _ \<Rightarrow> True)"

lemma skip_loop_reaches:
  assumes "list_all (\<lambda>r. case r of RR_CNAME x y \<Rightarrow> y \<noteq> [] | _ \<Rightarrow> True) as" "set as \<subseteq> set answers" "l \<noteq> []"
    and "(q, l) \<in> (cname_rel answers)\<^sup>+"
  shows "(q, skip_loop l as) \<in> (cname_rel answers)\<^sup>+"
  using assms
proof (induction l as rule: skip_loop.induct)
  case (2 l name target as)
  have "(name, target) \<in> cname_rel answers" using 2(4) by (auto simp: cname_rel_def)
  then show ?case using 2 by (auto intro: trancl_into_trancl)
qed auto

lemma skip_reaches:
  assumes "answer_ok q answers" "list_ex is_cname answers"
  shows "(q, skipCNAMEChain answers) \<in> (cname_rel answers)\<^sup>+"
proof -
  have "(q, skip_loop [] as) \<in> (cname_rel answers)\<^sup>+"
    if "list_all (\<lambda>r. case r of RR_CNAME x y \<Rightarrow> y \<noteq> [] | _ \<Rightarrow> True) as" "set as \<subseteq> set answers"
      "case filter is_cname as of RR_CNAME x y # _ \<Rightarrow> x = q | _ \<Rightarrow> True" "list_ex is_cname as" for as
    using that
  proof (induction as)
    case (Cons r as)
    show ?case
    proof (cases r)
      case (RR_CNAME x y)
      then have "(q, y) \<in> (cname_rel answers)\<^sup>+" using Cons.prems by (auto simp: cname_rel_def is_cname_def)
      then have "(q, skip_loop y as) \<in> (cname_rel answers)\<^sup>+"
        using skip_loop_reaches [of as answers y q] Cons.prems RR_CNAME by simp
      then show ?thesis using RR_CNAME by simp
    qed (use Cons in \<open>auto simp: is_cname_def\<close>)
  qed simp
  then show ?thesis using assms by (auto simp: skipCNAMEChain_def answer_ok_def)
qed

text \<open>
  The names that a name is an alias of, where \<open>zone\<close> gives the answer to every question.
\<close>

definition alias_of :: "(string \<Rightarrow> RR list) \<Rightarrow> (string \<times> string) set" where
  "alias_of zone = (\<Union>q. cname_rel (zone q))"

text \<open>A server that answers from a zone, or fails.\<close>

definition zone_server :: "(string \<Rightarrow> RR list) \<Rightarrow> exchange \<Rightarrow> bool" where
  "zone_server zone ex \<longleftrightarrow> (\<forall>asked q. case ex asked q of Inl _ \<Rightarrow> True | Inr ans \<Rightarrow> ans = zone q)"

definition zone_ok :: "(string \<Rightarrow> string) \<Rightarrow> (string \<Rightarrow> RR list) \<Rightarrow> bool" where
  "zone_ok fqdn zone \<longleftrightarrow> (\<forall>q. answer_ok q (zone q)) \<and> (\<forall>(x, y) \<in> alias_of zone. fqdn y = y)"

lemma lookup_sound:
  assumes "zone_server zone ex" "zone_ok fqdn zone"
    and "fst (lookupWithCNAMEDepth lower fqdn pick ex asked host depth seen) = Inr ip" "ip \<noteq> []"
  shows "\<exists>name r. (fqdn host, name) \<in> (alias_of zone)\<^sup>* \<and> r \<in> set (zone name) \<and> pick r = Some ip"
  using assms
proof (induction lower fqdn pick ex asked host depth seen rule: lookupWithCNAMEDepth.induct)
  case (1 lower fqdn pick ex asked host depth seen)
  note unf = lookupWithCNAMEDepth.simps [of lower fqdn pick ex asked host depth seen]
  have d: "\<not> depth > maxCNAMEDepth" and k: "lower (fqdn host) \<notin> set seen"
    using "1.prems"(3) by (auto simp: unf Let_def split: if_splits)
  obtain ans where ans: "ex asked (fqdn host) = Inr ans"
    using "1.prems"(3) d k by (auto simp: unf Let_def split: sum.splits)
  have z: "ans = zone (fqdn host)" using "1.prems"(1) ans by (force simp: zone_server_def split: sum.splits)
  have zok: "answer_ok (fqdn host) (zone (fqdn host))" using "1.prems"(2) by (simp add: zone_ok_def)
  show ?case
  proof (cases "List.map_filter pick ans")
    case (Cons ip' rest)
    then have "ip' = ip" using "1.prems"(3) d k ans by (simp add: unf Let_def)
    then have "ip \<in> set (List.map_filter pick ans)" using Cons by simp
    then obtain r where "r \<in> set (zone (fqdn host))" "pick r = Some ip" using z by (auto simp: map_filter_def)
    then show ?thesis by blast
  next
    case Nil
    then have c: "list_ex is_cname ans" using "1.prems"(3,4) d k ans by (auto simp: unf Let_def split: if_splits)
    let ?t = "skipCNAMEChain ans"
    have t: "(fqdn host, ?t) \<in> (alias_of zone)\<^sup>+"
      using skip_reaches [of "fqdn host" ans] zok c z
        trancl_mono [of _ "cname_rel ans" "alias_of zone"] by (auto simp: alias_of_def)
    then obtain x where "(x, ?t) \<in> alias_of zone" by (meson tranclE)
    then have ft: "fqdn ?t = ?t" using "1.prems"(2) by (auto simp: zone_ok_def)
    have "fst (lookupWithCNAMEDepth lower fqdn pick ex (asked @ [fqdn host]) ?t (depth + 1) (lower (fqdn host) # seen)) = Inr ip"
      using "1.prems"(3) d k ans Nil c by (simp add: unf Let_def)
    from "1.IH" [OF d refl k ans Nil c "1.prems"(1) "1.prems"(2) this "1.prems"(4)]
    obtain name r where "(fqdn ?t, name) \<in> (alias_of zone)\<^sup>*" "r \<in> set (zone name)" "pick r = Some ip" by blast
    then show ?thesis using t ft by (metis rtrancl_trans trancl_into_rtrancl)
  qed
qed


text \<open>
  C33: Lookups end and follow aliases.  Whatever a name server answers, a lookup asks at most 17
  questions and no name twice, so that with the retry one family costs at most 34; and if the server
  answers from a zone (or fails), in which the first alias of an answer belongs to the question, an
  address that a lookup finds is that of a name that the host is an alias of.
\<close>

theorem dns_lookup_sound:
  assumes "zone_server zone ex" "zone_ok fqdn zone"
  shows "(\<forall>ip. fst (lookup4 lower fqdn ex [] host) = Inr ip \<and> ip \<noteq> [] \<longrightarrow>
      (\<exists>name a. (fqdn host, name) \<in> (alias_of zone)\<^sup>* \<and> RR_A a \<in> set (zone name) \<and> To4 a = Some ip)) \<and>
    (\<forall>ip. fst (lookup6 lower fqdn ex [] host) = Inr ip \<and> ip \<noteq> [] \<longrightarrow>
      (\<exists>name a. (fqdn host, name) \<in> (alias_of zone)\<^sup>* \<and> RR_AAAA a \<in> set (zone name) \<and> (a = ip \<or> v4InV6Prefix @ a = ip))) \<and>
    (\<forall>look \<in> {lookup4, lookup6}. \<forall>ex'.
      length (snd (look lower fqdn ex' [] host)) \<le> 17 \<and> distinct (map lower (snd (look lower fqdn ex' [] host))) \<and>
      length (snd (retry (\<lambda>asked. look lower fqdn ex' asked host) (standardResolverRetryTimes - 1) [])) \<le> 34)"
proof (intro conjI allI impI ballI)
  fix ip
  assume "fst (lookup4 lower fqdn ex [] host) = Inr ip \<and> ip \<noteq> []"
  then obtain name r where "(fqdn host, name) \<in> (alias_of zone)\<^sup>*" "r \<in> set (zone name)" "pick4 r = Some ip" "ip \<noteq> []"
    using lookup_sound [OF assms, of lower pick4] unfolding lookup4_def by blast
  then show "\<exists>name a. (fqdn host, name) \<in> (alias_of zone)\<^sup>* \<and> RR_A a \<in> set (zone name) \<and> To4 a = Some ip"
    by (cases r) (auto split: option.splits)
next
  fix ip
  assume "fst (lookup6 lower fqdn ex [] host) = Inr ip \<and> ip \<noteq> []"
  then obtain name r where "(fqdn host, name) \<in> (alias_of zone)\<^sup>*" "r \<in> set (zone name)" "pick6 r = Some ip" "ip \<noteq> []"
    using lookup_sound [OF assms, of lower pick6] unfolding lookup6_def by blast
  then show "\<exists>name a. (fqdn host, name) \<in> (alias_of zone)\<^sup>* \<and> RR_AAAA a \<in> set (zone name) \<and> (a = ip \<or> v4InV6Prefix @ a = ip)"
    by (cases r) (auto split: if_splits)
next
  fix look ex'
  assume "look \<in> {lookup4, lookup6}"
  then obtain pick where look: "look lower fqdn ex' asked host = lookupWithCNAMEDepth lower fqdn pick ex' asked host 0 []" for asked
    by (auto simp: lookup4_def lookup6_def)
  have q: "\<exists>qs. snd (look lower fqdn ex' asked host) = asked @ qs \<and> length qs \<le> 17 \<and> distinct (map lower qs)" for asked
  proof -
    obtain qs where "snd (lookupWithCNAMEDepth lower fqdn pick ex' asked host 0 []) = asked @ qs"
      "length qs \<le> maxCNAMEDepth + 1 - 0" "distinct (map lower qs)" by (rule lookup_questions)
    then show ?thesis by (auto simp: look maxCNAMEDepth_def)
  qed
  from q [of "[]"] show "length (snd (look lower fqdn ex' [] host)) \<le> 17"
    "distinct (map lower (snd (look lower fqdn ex' [] host)))" by auto
  have "\<exists>qs. snd (retry (\<lambda>asked. look lower fqdn ex' asked host) 1 []) = [] @ qs \<and> length qs \<le> (1 + 1) * 17"
    by (rule retry_questions) (use q in blast)
  then show "length (snd (retry (\<lambda>asked. look lower fqdn ex' asked host) (standardResolverRetryTimes - 1) [])) \<le> 34"
    by (auto simp: standardResolverRetryTimes_def)
qed

text \<open>A zone with an alias, on which a lookup of the alias gives the address.\<close>

definition example_zone :: "string \<Rightarrow> RR list" where
  "example_zone q = (if q = ''a.'' then [RR_CNAME ''a.'' ''b.''] else if q = ''b.'' then [RR_A [10, 0, 0, 1]] else [])"

definition example_fqdn :: "string \<Rightarrow> string" where
  "example_fqdn h = (if HasSuffix h ''.'' then h else h @ ''.'')"

lemma dns_lookup_sound_witness:
  "fst (lookup4 ToLower example_fqdn (\<lambda>_ q. Inr (example_zone q)) [] ''a'') = Inr [10, 0, 0, 1] \<and>
   (\<exists>name a. (''a.'', name) \<in> (alias_of example_zone)\<^sup>* \<and> RR_A a \<in> set (example_zone name) \<and> To4 a = Some [10, 0, 0, 1])"
proof -
  let ?ex = "\<lambda>_ q. Inr (example_zone q)"
  have l: "fst (lookup4 ToLower example_fqdn ?ex [] ''a'') = Inr [10, 0, 0, 1]"
    by (simp add: lookup4_def lookupWithCNAMEDepth.simps maxCNAMEDepth_def example_fqdn_def HasSuffix_def example_zone_def
        map_filter_simps is_cname_def skipCNAMEChain_def lower_char_def is_upper_def To4_def)
  have s: "zone_server example_zone ?ex" by (simp add: zone_server_def)
  have "answer_ok q (example_zone q)" for q by (simp add: answer_ok_def example_zone_def is_cname_def)
  moreover have "alias_of example_zone = {(''a.'', ''b.'')}"
    by (auto simp: alias_of_def cname_rel_def example_zone_def split: if_splits)
  ultimately have "zone_ok example_fqdn example_zone"
    by (simp add: zone_ok_def example_fqdn_def HasSuffix_def)
  from dns_lookup_sound [OF s this, of ToLower "''a''"] l
  have "\<exists>name a. (example_fqdn ''a'', name) \<in> (alias_of example_zone)\<^sup>* \<and> RR_A a \<in> set (example_zone name) \<and>
      To4 a = Some [10, 0, 0, 1]" by blast
  moreover have "example_fqdn ''a'' = ''a.''" by (simp add: example_fqdn_def HasSuffix_def)
  ultimately show ?thesis using l by simp
qed

end
