(* ===== verification/Direct_Outbound.thy ===== *)
theory Direct_Outbound
  imports Resolvers
begin

text \<open>
  \<open>extras/outbounds/ob_direct.go\<close>: the outbound that connects to the target itself, over IPv4 or
  IPv6 as its mode says.  Dialing, listening and binding to a device are arguments; a connection or
  socket is a number.  A call returns with its result what it dialed and what it closed.
\<close>

section \<open>Types\<close>

datatype DirectOutboundMode = ModeAuto | Mode64 | Mode46 | Mode6 | Mode4 | ModeOther int

datatype ob_error = NoAddressError bool bool | InvalidOutboundModeError | ResolveError "string option" | NetError string

fun noAddressError_Error :: "bool \<Rightarrow> bool \<Rightarrow> string" where
  "noAddressError_Error v4 v6 =
     (if v4 \<and> v6 then ''no IPv4 or IPv6 address available''
      else if v4 then ''no IPv4 address available''
      else if v6 then ''no IPv6 address available''
      else ''no address available'')"

definition resolveError_Error :: "string option \<Rightarrow> string" where
  "resolveError_Error Err = (case Err of None \<Rightarrow> ''resolve error'' | Some e \<Rightarrow> ''resolve error: '' @ e)"

record directOutbound =
  do_Mode :: DirectOutboundMode
  do_DialFunc4 :: "string \<Rightarrow> string \<Rightarrow> string + nat"
  do_DialFunc6 :: "string \<Rightarrow> string \<Rightarrow> string + nat"
  do_DeviceName :: string
  do_BindIP4 :: bytes
  do_BindIP6 :: bytes

record DirectOutboundOptions =
  dopt_Mode :: DirectOutboundMode
  dopt_DeviceName :: string
  dopt_BindIP4 :: bytes
  dopt_BindIP6 :: bytes
  dopt_FastOpen :: bool

text \<open>
  A dialer is what it was made from: its local address, the device and whether it opens fast;
  \<open>bindDevice\<close> says whether a dialer can be bound to a device.
\<close>

type_synonym dialer = "bytes \<Rightarrow> string \<Rightarrow> bool \<Rightarrow> string \<Rightarrow> string \<Rightarrow> string + nat"

definition NewDirectOutboundWithOptions ::
  "dialer \<Rightarrow> (string \<Rightarrow> string option) \<Rightarrow> DirectOutboundOptions \<Rightarrow> string + directOutbound" where
  "NewDirectOutboundWithOptions dialer bindDevice opts =
     (if dopt_BindIP4 opts \<noteq> [] \<and> To4 (dopt_BindIP4 opts) = None then Inl ''BindIP4 must be an IPv4 address''
      else if dopt_BindIP6 opts \<noteq> [] \<and> To4 (dopt_BindIP6 opts) \<noteq> None then Inl ''BindIP6 must be an IPv6 address''
      else (case (if dopt_DeviceName opts \<noteq> [] then bindDevice (dopt_DeviceName opts) else None) of
              Some err \<Rightarrow> Inl err
            | None \<Rightarrow>
                Inr \<lparr>do_Mode = dopt_Mode opts,
                  do_DialFunc4 = dialer (dopt_BindIP4 opts) (dopt_DeviceName opts) (dopt_FastOpen opts),
                  do_DialFunc6 = dialer (dopt_BindIP6 opts) (dopt_DeviceName opts) (dopt_FastOpen opts),
                  do_DeviceName = dopt_DeviceName opts, do_BindIP4 = dopt_BindIP4 opts, do_BindIP6 = dopt_BindIP6 opts\<rparr>))"

definition NewDirectOutboundSimple :: "dialer \<Rightarrow> DirectOutboundMode \<Rightarrow> directOutbound" where
  "NewDirectOutboundSimple dialer mode =
     \<lparr>do_Mode = mode, do_DialFunc4 = dialer [] [] False, do_DialFunc6 = dialer [] [] False,
      do_DeviceName = [], do_BindIP4 = [], do_BindIP6 = []\<rparr>"

definition NewDirectOutboundBindToIPs ::
  "dialer \<Rightarrow> (string \<Rightarrow> string option) \<Rightarrow> DirectOutboundMode \<Rightarrow> bytes \<Rightarrow> bytes \<Rightarrow> string + directOutbound" where
  "NewDirectOutboundBindToIPs dialer bindDevice mode bindIP4 bindIP6 =
     NewDirectOutboundWithOptions dialer bindDevice
       \<lparr>dopt_Mode = mode, dopt_DeviceName = [], dopt_BindIP4 = bindIP4, dopt_BindIP6 = bindIP6, dopt_FastOpen = False\<rparr>"

definition NewDirectOutboundBindToDevice ::
  "dialer \<Rightarrow> (string \<Rightarrow> string option) \<Rightarrow> DirectOutboundMode \<Rightarrow> string \<Rightarrow> string + directOutbound" where
  "NewDirectOutboundBindToDevice dialer bindDevice mode deviceName =
     NewDirectOutboundWithOptions dialer bindDevice
       \<lparr>dopt_Mode = mode, dopt_DeviceName = deviceName, dopt_BindIP4 = [], dopt_BindIP6 = [], dopt_FastOpen = False\<rparr>"

section \<open>Resolving\<close>

definition direct_resolve :: "(string \<Rightarrow> string + bytes list) \<Rightarrow> AddrEx \<Rightarrow> AddrEx" where
  "direct_resolve lookupIP reqAddr =
     (case lookupIP (ax_Host reqAddr) of
        Inl err \<Rightarrow> reqAddr\<lparr>ax_ResolveInfo := Some \<lparr>ri_IPv4 = [], ri_IPv6 = [], ri_Err = Some err\<rparr>\<rparr>
      | Inr ips \<Rightarrow>
          (let (ipv4, ipv6) = splitIPv4IPv6 ips
           in reqAddr\<lparr>ax_ResolveInfo := Some \<lparr>ri_IPv4 = ipv4, ri_IPv6 = ipv6,
                ri_Err = (if ipv4 = [] \<and> ipv6 = [] then Some (noAddressError_Error True True) else None)\<rparr>\<rparr>))"

text \<open>The start of \<open>TCP\<close>, \<open>UDP\<close> and \<open>WriteTo\<close>: the resolve information, there or looked up.\<close>

definition resolved :: "(string \<Rightarrow> string + bytes list) \<Rightarrow> AddrEx \<Rightarrow> AddrEx \<times> ResolveInfo" where
  "resolved lookupIP reqAddr =
     (case ax_ResolveInfo reqAddr of
        Some r \<Rightarrow> (reqAddr, r)
      | None \<Rightarrow> (let reqAddr = direct_resolve lookupIP reqAddr in (reqAddr, the (ax_ResolveInfo reqAddr))))"

section \<open>TCP\<close>

definition dialTCP :: "directOutbound \<Rightarrow> bytes \<Rightarrow> int \<Rightarrow> string + nat" where
  "dialTCP d ip port =
     (if To4 ip \<noteq> None then do_DialFunc4 d ''tcp4'' (JoinHostPort (ip_String ip) (dec_digits (nat port)))
      else do_DialFunc6 d ''tcp6'' (JoinHostPort (ip_String ip) (dec_digits (nat port))))"

text \<open>A result, the addresses that were dialed, and the connections that were closed.\<close>

type_synonym tcp_result = "(ob_error + nat) \<times> bytes list \<times> nat list"

definition dial_one :: "directOutbound \<Rightarrow> bytes \<Rightarrow> int \<Rightarrow> tcp_result" where
  "dial_one d ip port =
     ((case dialTCP d ip port of Inl err \<Rightarrow> Inl (NetError err) | Inr c \<Rightarrow> Inr c), [ip], [])"

text \<open>\<open>first4\<close>: the result of the IPv4 address arrives first.\<close>

definition dualStackDialTCP :: "directOutbound \<Rightarrow> bool \<Rightarrow> bytes \<Rightarrow> bytes \<Rightarrow> int \<Rightarrow> tcp_result" where
  "dualStackDialTCP d first4 ipv4 ipv6 port =
     (let r4 = dialTCP d ipv4 port; r6 = dialTCP d ipv6 port;
          (r, r2) = (if first4 then (r4, r6) else (r6, r4))
      in case r of
           Inr c \<Rightarrow> (Inr c, [ipv4, ipv6], (case r2 of Inr c2 \<Rightarrow> [c2] | Inl _ \<Rightarrow> []))
         | Inl _ \<Rightarrow> ((case r2 of Inl err \<Rightarrow> Inl (NetError err) | Inr c2 \<Rightarrow> Inr c2), [ipv4, ipv6], []))"

definition direct_TCP ::
  "(string \<Rightarrow> string + bytes list) \<Rightarrow> bool \<Rightarrow> directOutbound \<Rightarrow> AddrEx \<Rightarrow> tcp_result" where
  "direct_TCP lookupIP first4 d reqAddr =
     (let (reqAddr, r) = resolved lookupIP reqAddr; port = ax_Port reqAddr
      in if ri_IPv4 r = [] \<and> ri_IPv6 r = [] then (Inl (ResolveError (ri_Err r)), [], [])
         else (case do_Mode d of
                 ModeAuto \<Rightarrow>
                   if ri_IPv4 r \<noteq> [] \<and> ri_IPv6 r \<noteq> [] then dualStackDialTCP d first4 (ri_IPv4 r) (ri_IPv6 r) port
                   else if ri_IPv4 r \<noteq> [] then dial_one d (ri_IPv4 r) port
                   else dial_one d (ri_IPv6 r) port
               | Mode64 \<Rightarrow> if ri_IPv6 r \<noteq> [] then dial_one d (ri_IPv6 r) port else dial_one d (ri_IPv4 r) port
               | Mode46 \<Rightarrow> if ri_IPv4 r \<noteq> [] then dial_one d (ri_IPv4 r) port else dial_one d (ri_IPv6 r) port
               | Mode6 \<Rightarrow>
                   if ri_IPv6 r \<noteq> [] then dial_one d (ri_IPv6 r) port else (Inl (NoAddressError False True), [], [])
               | Mode4 \<Rightarrow>
                   if ri_IPv4 r \<noteq> [] then dial_one d (ri_IPv4 r) port else (Inl (NoAddressError True False), [], [])
               | ModeOther _ \<Rightarrow> (Inl InvalidOutboundModeError, [], [])))"

section \<open>UDP\<close>

datatype udpConnState = StateDualStack | StateIPv4 | StateIPv6

record directUDPConn =
  du_outbound :: directOutbound
  du_UDPConn :: nat
  du_State :: udpConnState

text \<open>\<open>WriteToUDP\<close>'s destination; the address keeps what was resolved for it.\<close>

definition direct_WriteTo ::
  "(string \<Rightarrow> string + bytes list) \<Rightarrow> directUDPConn \<Rightarrow> AddrEx \<Rightarrow> AddrEx \<times> (ob_error + bytes \<times> int)" where
  "direct_WriteTo lookupIP u addr =
     (let (addr, r) = resolved lookupIP addr;
          send = (\<lambda>ip. Inr (ip, ax_Port addr))
      in (addr,
          if ri_IPv4 r = [] \<and> ri_IPv6 r = [] then Inl (ResolveError (ri_Err r))
          else (case du_State u of
                  StateIPv4 \<Rightarrow> if ri_IPv4 r \<noteq> [] then send (ri_IPv4 r) else Inl (NoAddressError True False)
                | StateIPv6 \<Rightarrow> if ri_IPv6 r \<noteq> [] then send (ri_IPv6 r) else Inl (NoAddressError False True)
                | StateDualStack \<Rightarrow>
                    (case do_Mode (du_outbound u) of
                       ModeAuto \<Rightarrow> if ri_IPv4 r \<noteq> [] then send (ri_IPv4 r) else send (ri_IPv6 r)
                     | Mode64 \<Rightarrow> if ri_IPv6 r \<noteq> [] then send (ri_IPv6 r) else send (ri_IPv4 r)
                     | Mode46 \<Rightarrow> if ri_IPv4 r \<noteq> [] then send (ri_IPv4 r) else send (ri_IPv6 r)
                     | Mode6 \<Rightarrow> if ri_IPv6 r \<noteq> [] then send (ri_IPv6 r) else Inl (NoAddressError False True)
                     | Mode4 \<Rightarrow> if ri_IPv4 r \<noteq> [] then send (ri_IPv4 r) else Inl (NoAddressError True False)
                     | ModeOther _ \<Rightarrow> Inl InvalidOutboundModeError))))"

definition direct_ReadFrom :: "nat \<times> (bytes \<times> int) option \<times> string option \<Rightarrow> nat \<times> AddrEx option \<times> string option" where
  "direct_ReadFrom res =
     (case res of (n, addr, err) \<Rightarrow>
        (n, map_option (\<lambda>(ip, port). \<lparr>ax_Host = ip_String ip, ax_Port = port mod 65536, ax_ResolveInfo = None\<rparr>) addr, err))"

definition direct_CheckUDP :: "AddrEx \<Rightarrow> ob_error option" where
  "direct_CheckUDP reqAddr = None"

text \<open>The family that a socket bound to an address is locked to, and the address it is bound to.\<close>

definition udp_family :: "directOutbound \<Rightarrow> ResolveInfo \<Rightarrow> ob_error + bytes \<times> udpConnState" where
  "udp_family d r =
     (let v4 = Inr (do_BindIP4 d, StateIPv4); v6 = Inr (do_BindIP6 d, StateIPv6)
      in case do_Mode d of
           ModeAuto \<Rightarrow> if ri_IPv4 r \<noteq> [] then v4 else v6
         | Mode64 \<Rightarrow> if ri_IPv6 r \<noteq> [] then v6 else v4
         | Mode46 \<Rightarrow> if ri_IPv4 r \<noteq> [] then v4 else v6
         | Mode6 \<Rightarrow> if ri_IPv6 r \<noteq> [] then v6 else Inl (NoAddressError False True)
         | Mode4 \<Rightarrow> if ri_IPv4 r \<noteq> [] then v4 else Inl (NoAddressError True False)
         | ModeOther _ \<Rightarrow> Inl InvalidOutboundModeError)"

text \<open>
  \<open>listen\<close> makes a socket of a network at an address (empty where none is asked for), \<open>toDevice\<close> binds
  one to a device.  The last component has the sockets that were closed.
\<close>

definition direct_UDP ::
  "(string \<Rightarrow> string + bytes list) \<Rightarrow> (string \<Rightarrow> bytes \<Rightarrow> string + nat) \<Rightarrow> (nat \<Rightarrow> string \<Rightarrow> string option)
     \<Rightarrow> directOutbound \<Rightarrow> AddrEx \<Rightarrow> AddrEx \<times> (ob_error + directUDPConn) \<times> nat list" where
  "direct_UDP lookupIP listen toDevice d reqAddr =
     (if do_BindIP4 d = [] \<and> do_BindIP6 d = []
      then (reqAddr,
            (case listen ''udp'' [] of
               Inl err \<Rightarrow> (Inl (NetError err), [])
             | Inr c \<Rightarrow>
                 (case (if do_DeviceName d \<noteq> [] then toDevice c (do_DeviceName d) else None) of
                    Some err \<Rightarrow> (Inl (NetError err), [c])
                  | None \<Rightarrow> (Inr \<lparr>du_outbound = d, du_UDPConn = c, du_State = StateDualStack\<rparr>, []))))
      else
        (let (reqAddr, r) = resolved lookupIP reqAddr
         in (reqAddr,
             if ri_IPv4 r = [] \<and> ri_IPv6 r = [] then (Inl (ResolveError (ri_Err r)), [])
             else (case udp_family d r of
                     Inl err \<Rightarrow> (Inl err, [])
                   | Inr (bindIP, state) \<Rightarrow>
                       (case listen (if state = StateIPv4 then ''udp4'' else ''udp6'') bindIP of
                          Inl err \<Rightarrow> (Inl (NetError err), [])
                        | Inr c \<Rightarrow> (Inr \<lparr>du_outbound = d, du_UDPConn = c, du_State = state\<rparr>, []))))))"


section \<open>Which addresses are used\<close>

text \<open>The families a mode admits, the preferred one first, and the address it prefers.\<close>

fun families :: "DirectOutboundMode \<Rightarrow> (ResolveInfo \<Rightarrow> bytes) list" where
  "families ModeAuto = [ri_IPv4, ri_IPv6]"
| "families Mode46 = [ri_IPv4, ri_IPv6]"
| "families Mode64 = [ri_IPv6, ri_IPv4]"
| "families Mode6 = [ri_IPv6]"
| "families Mode4 = [ri_IPv4]"
| "families (ModeOther _) = []"

definition admitted :: "DirectOutboundMode \<Rightarrow> ResolveInfo \<Rightarrow> bytes list" where
  "admitted mode r = filter (\<lambda>ip. ip \<noteq> []) (map (\<lambda>f. f r) (families mode))"

lemma dual_stack_result:
  assumes "dualStackDialTCP d first4 ipv4 ipv6 port = (res, dialed, closed)"
  shows "dialed = [ipv4, ipv6]"
    "{c. \<exists>ip \<in> set dialed. dialTCP d ip port = Inr c} = {c. res = Inr c} \<union> set closed"
    "(\<exists>c. res = Inr c) \<longleftrightarrow> (\<exists>ip \<in> set dialed. \<exists>c. dialTCP d ip port = Inr c)"
  using assms by (auto simp: dualStackDialTCP_def Let_def split: sum.splits if_splits)

lemma dial_one_result:
  assumes "dial_one d ip port = (res, dialed, closed)"
  shows "dialed = [ip]" "closed = []"
    "{c. \<exists>ip \<in> set dialed. dialTCP d ip port = Inr c} = {c. res = Inr c} \<union> set closed"
    "(\<exists>c. res = Inr c) \<longleftrightarrow> (\<exists>ip \<in> set dialed. \<exists>c. dialTCP d ip port = Inr c)"
  using assms by (auto simp: dial_one_def split: sum.splits)

text \<open>
  C17: A TCP request is dialed at the addresses that the mode admits: in the automatic mode at both if
  there are both, otherwise at the preferred one that the host has, and at none if the mode admits
  none of the host's, which is an error.  It succeeds exactly if one of the dials does, with that
  connection, and every connection that was made is the result or is closed.
\<close>

theorem direct_tcp_choice:
  assumes "resolved lookupIP a = (a', r)" "direct_TCP lookupIP first4 d a = (res, dialed, closed)"
  shows "dialed = (if do_Mode d = ModeAuto then admitted ModeAuto r else take 1 (admitted (do_Mode d) r)) \<and>
    {c. \<exists>ip \<in> set dialed. dialTCP d ip (ax_Port a') = Inr c} = {c. res = Inr c} \<union> set closed \<and>
    ((\<exists>c. res = Inr c) \<longleftrightarrow> (\<exists>ip \<in> set dialed. \<exists>c. dialTCP d ip (ax_Port a') = Inr c)) \<and>
    (dialed = [] \<longrightarrow> res = Inl (if ri_IPv4 r = [] \<and> ri_IPv6 r = [] then ResolveError (ri_Err r)
       else if do_Mode d = Mode6 then NoAddressError False True
       else if do_Mode d = Mode4 then NoAddressError True False else InvalidOutboundModeError))"
proof (cases "ri_IPv4 r = [] \<and> ri_IPv6 r = []")
  case True
  then show ?thesis using assms by (cases "do_Mode d") (auto simp: direct_TCP_def admitted_def Let_def)
next
  case False
  consider (dual) "do_Mode d = ModeAuto" "ri_IPv4 r \<noteq> []" "ri_IPv6 r \<noteq> []"
      "dualStackDialTCP d first4 (ri_IPv4 r) (ri_IPv6 r) (ax_Port a') = (res, dialed, closed)"
    | (one) ip where "dial_one d ip (ax_Port a') = (res, dialed, closed)" "take 1 (admitted (do_Mode d) r) = [ip]"
      "do_Mode d = ModeAuto \<longrightarrow> admitted ModeAuto r = [ip]"
    | (none) "dialed = []" "closed = []" "admitted (do_Mode d) r = []" "do_Mode d \<noteq> ModeAuto"
      "res = Inl (if do_Mode d = Mode6 then NoAddressError False True
         else if do_Mode d = Mode4 then NoAddressError True False else InvalidOutboundModeError)"
    using assms False by (cases "do_Mode d") (auto simp: direct_TCP_def admitted_def Let_def split: if_splits)
  then show ?thesis
  proof cases
    case dual
    then show ?thesis using dual_stack_result [OF dual(4)] by (simp add: admitted_def)
  next
    case one
    then show ?thesis using dial_one_result [OF one(1)] by auto
  next
    case none
    then show ?thesis using False by auto
  qed
qed

text \<open>A host with both families, of which IPv6 answers first but fails, and a mode for each case.\<close>

definition example_direct :: "DirectOutboundMode \<Rightarrow> directOutbound" where
  "example_direct mode = \<lparr>do_Mode = mode, do_DialFunc4 = (\<lambda>_ _. Inr 4), do_DialFunc6 = (\<lambda>_ _. Inl ''refused''),
     do_DeviceName = [], do_BindIP4 = [], do_BindIP6 = []\<rparr>"

definition example_target :: AddrEx where
  "example_target = \<lparr>ax_Host = ''h'', ax_Port = 80, ax_ResolveInfo =
     Some \<lparr>ri_IPv4 = [1, 2, 3, 4], ri_IPv6 = replicate 16 7, ri_Err = None\<rparr>\<rparr>"

lemma direct_tcp_choice_witness:
  "direct_TCP (\<lambda>_. Inl []) False (example_direct ModeAuto) example_target =
     (Inr 4, [[1, 2, 3, 4], replicate 16 7], []) \<and>
   (\<exists>ip \<in> set [[1, 2, 3, 4], replicate 16 7]. \<exists>c. dialTCP (example_direct ModeAuto) ip 80 = Inr c)"
proof -
  have r: "resolved (\<lambda>_. Inl []) example_target = (example_target, the (ax_ResolveInfo example_target))"
    by (simp add: resolved_def example_target_def)
  have v4: "To4 [1, 2, 3, 4] \<noteq> None" and v6: "To4 (replicate 16 7) = None" by code_simp+
  have t: "direct_TCP (\<lambda>_. Inl []) False (example_direct ModeAuto) example_target =
      (Inr 4, [[1, 2, 3, 4], replicate 16 7], [])"
    by (simp add: direct_TCP_def resolved_def example_target_def example_direct_def dualStackDialTCP_def dialTCP_def v4 v6)
  have "\<exists>ip \<in> set [[1, 2, 3, 4], replicate 16 7]. \<exists>c. dialTCP (example_direct ModeAuto) ip (ax_Port example_target) = Inr c"
    using direct_tcp_choice [OF r t] by blast
  moreover have "ax_Port example_target = 80" by (simp add: example_target_def)
  ultimately show ?thesis using t by metis
qed

section \<open>UDP keeps to its family\<close>

text \<open>What the address of a packet must be for a socket in a state.\<close>

definition state_admits :: "directUDPConn \<Rightarrow> ResolveInfo \<Rightarrow> bytes list" where
  "state_admits u r =
     (case du_State u of
        StateDualStack \<Rightarrow> admitted (do_Mode (du_outbound u)) r
      | StateIPv4 \<Rightarrow> filter (\<lambda>ip. ip \<noteq> []) [ri_IPv4 r]
      | StateIPv6 \<Rightarrow> filter (\<lambda>ip. ip \<noteq> []) [ri_IPv6 r])"

lemma direct_WriteTo_choice:
  assumes "resolved lookupIP b = (b', r)"
  shows "direct_WriteTo lookupIP u b =
    (b', case state_admits u r of
           ip # _ \<Rightarrow> Inr (ip, ax_Port b')
         | [] \<Rightarrow> Inl (if ri_IPv4 r = [] \<and> ri_IPv6 r = [] then ResolveError (ri_Err r)
             else if du_State u = StateIPv4 then NoAddressError True False
             else if du_State u = StateIPv6 then NoAddressError False True
             else case do_Mode (du_outbound u) of Mode4 \<Rightarrow> NoAddressError True False
               | Mode6 \<Rightarrow> NoAddressError False True | _ \<Rightarrow> InvalidOutboundModeError))"
  by (cases "du_State u"; cases "do_Mode (du_outbound u)")
    (auto simp: direct_WriteTo_def assms state_admits_def admitted_def Let_def)

lemma resolved_again: "resolved lookupIP a = (a', r) \<Longrightarrow> resolved lookupIP a' = (a', r)"
  by (auto simp: resolved_def direct_resolve_def Let_def split: option.splits sum.splits prod.splits)

text \<open>
  A UDP session uses the family of its first packet: a session that was opened for an address
  sends to that address at the one its mode prefers, whether the socket is dual stack or was bound to
  one family; whatever it sends later goes to an address that the mode admits, of the family the
  socket is locked to if it is, or is an error where there is none.
\<close>

theorem direct_udp_choice:
  assumes "direct_UDP lookupIP listen toDevice d a = (a', Inr u, closed)"
    and "resolved lookupIP a = (a'', r)" "resolved lookupIP b = (b', rb)"
  shows "du_outbound u = d \<and>
    (case admitted (do_Mode d) r of
       ip # _ \<Rightarrow> snd (direct_WriteTo lookupIP u a) = Inr (ip, ax_Port a)
     | [] \<Rightarrow> du_State u = StateDualStack) \<and>
    (case snd (direct_WriteTo lookupIP u b) of
       Inr (ip, port) \<Rightarrow> ip \<in> set (state_admits u rb) \<and> ip \<in> set (admitted (do_Mode d) rb) \<and> port = ax_Port b
     | Inl err \<Rightarrow> state_admits u rb = [])"
proof -
  have u: "du_outbound u = d"
    using assms(1) by (auto simp: direct_UDP_def Let_def split: if_splits sum.splits option.splits prod.splits)
  have dual: "do_BindIP4 d = [] \<and> do_BindIP6 d = [] \<Longrightarrow> du_State u = StateDualStack"
    using assms(1) by (auto simp: direct_UDP_def split: sum.splits option.splits if_splits)
  have locked: "\<exists>bindIP. udp_family d r = Inr (bindIP, du_State u)" if "\<not> (do_BindIP4 d = [] \<and> do_BindIP6 d = [])"
    using assms(1,2) that by (auto simp: direct_UDP_def split: sum.splits if_splits prod.splits)
  have port: "ax_Port x' = ax_Port x" if "resolved lookupIP x = (x', q)" for x x' q
    using that by (auto simp: resolved_def direct_resolve_def Let_def split: option.splits sum.splits prod.splits)
  have fam: "du_State u = StateDualStack \<or>
      (\<exists>bindIP. udp_family d r = Inr (bindIP, du_State u))" using dual locked by blast
  then have first: "du_State u \<noteq> StateDualStack \<Longrightarrow> take 1 (state_admits u r) = take 1 (admitted (do_Mode d) r)"
    by (cases "do_Mode d") (auto simp: udp_family_def state_admits_def admitted_def Let_def split: if_splits)
  have sub: "set (state_admits u q) \<subseteq> set (admitted (do_Mode d) q)" for q
    using fam u by (cases "do_Mode d")
      (auto simp: udp_family_def state_admits_def admitted_def Let_def split: if_splits udpConnState.splits)
  have "case admitted (do_Mode d) r of
       ip # _ \<Rightarrow> snd (direct_WriteTo lookupIP u a) = Inr (ip, ax_Port a)
     | [] \<Rightarrow> du_State u = StateDualStack"
  proof (cases "du_State u = StateDualStack")
    case True
    then have "state_admits u r = admitted (do_Mode d) r" using u by (simp add: state_admits_def)
    then show ?thesis using True port [OF assms(2)]
      by (simp add: direct_WriteTo_choice [OF assms(2)] split: list.split)
  next
    case False
    then have ne: "admitted (do_Mode d) r \<noteq> []"
      using fam assms(1,2) dual
      by (cases "do_Mode d") (auto simp: udp_family_def admitted_def direct_UDP_def Let_def split: if_splits)
    then obtain ip rest where a: "admitted (do_Mode d) r = ip # rest" by (cases "admitted (do_Mode d) r") auto
    then obtain rest' where "state_admits u r = ip # rest'"
      using first [OF False] by (cases "state_admits u r") auto
    then show ?thesis using a port [OF assms(2)] by (simp add: direct_WriteTo_choice [OF assms(2)])
  qed
  moreover have "case snd (direct_WriteTo lookupIP u b) of
       Inr (ip, port) \<Rightarrow> ip \<in> set (state_admits u rb) \<and> ip \<in> set (admitted (do_Mode d) rb) \<and> port = ax_Port b
     | Inl err \<Rightarrow> state_admits u rb = []"
    using sub [of rb] port [OF assms(3)] unfolding direct_WriteTo_choice [OF assms(3)]
    by (cases "state_admits u rb") auto
  ultimately show ?thesis using u by blast
qed

text \<open>An outbound bound to an IPv6 address that prefers IPv4: the socket is locked to IPv4, unbound.\<close>

lemma direct_udp_choice_witness:
  "\<exists>a' u. direct_UDP (\<lambda>_. Inl []) (\<lambda>net ip. if net = ''udp4'' \<and> ip = [] then Inr 1 else Inl [])
       (\<lambda>_ _. None) (example_direct Mode46 \<lparr>do_BindIP6 := replicate 16 1\<rparr>) example_target = (a', Inr u, []) \<and>
     du_State u = StateIPv4 \<and> snd (direct_WriteTo (\<lambda>_. Inl []) u example_target) = Inr ([1, 2, 3, 4], 80)"
proof -
  let ?l = "\<lambda>_. Inl [] :: string + bytes list" and ?d = "example_direct Mode46 \<lparr>do_BindIP6 := replicate 16 1\<rparr>"
  let ?r = "the (ax_ResolveInfo example_target)"
  let ?u = "\<lparr>du_outbound = ?d, du_UDPConn = 1, du_State = StateIPv4\<rparr>"
  have r: "resolved ?l example_target = (example_target, ?r)" by (simp add: resolved_def example_target_def)
  have t: "direct_UDP ?l (\<lambda>net ip. if net = ''udp4'' \<and> ip = [] then Inr 1 else Inl []) (\<lambda>_ _. None) ?d example_target =
      (example_target, Inr ?u, [])"
    by (simp add: direct_UDP_def resolved_def example_target_def example_direct_def udp_family_def)
  have "admitted Mode46 ?r = [[1, 2, 3, 4], replicate 16 7]" by (simp add: admitted_def example_target_def)
  moreover have "do_Mode ?d = Mode46" by (simp add: example_direct_def)
  ultimately have "snd (direct_WriteTo ?l ?u example_target) = Inr ([1, 2, 3, 4], 80)"
    using direct_udp_choice [OF t r r] by (simp add: example_target_def)
  then show ?thesis using t by auto
qed

text \<open>
  A socket bound to an address is never bound to the device, while a dial is bound to both.
\<close>

lemma udp_bind_skips_device:
  "do_BindIP4 d \<noteq> [] \<or> do_BindIP6 d \<noteq> [] \<Longrightarrow>
   direct_UDP lookupIP listen toDevice d a = direct_UDP lookupIP listen toDevice' d a"
  by (auto simp: direct_UDP_def)

end
