(* ===== verification/Sniff_Quic.thy ===== *)
theory Sniff_Quic
  imports Wire_Protocol "HOL-Library.Multiset" "HOL-Library.Monad_Syntax"
begin

unbundle bit_operations_syntax

text \<open>
  \<open>extras/sniff/internal/quic\<close>: reading the TLS bytes out of a client's QUIC Initial packet.

  The ciphers and HKDF are the record \<open>quic_crypto\<close>, an argument; variable-length integers are the
  argument \<open>qread\<close>, with the interface \<open>quicvarint\<close>.  The packet protector works in place, so the
  packet is modelled with the array behind it: \<open>data\<close> is the slice, \<open>spare\<close> what its array has after
  it (which Go lets a slice expression reach), and the result has the array as it is left.  A panic
  is \<open>None\<close>.
\<close>

section \<open>Header\<close>

definition V1 :: u32 where "V1 = 0x1"
definition V2 :: u32 where "V2 = 0x6b3343cf"

record quicHeader =
  qh_Version :: u32
  qh_SrcConnectionID :: bytes
  qh_DestConnectionID :: bytes
  qh_Length :: int
  qh_Token :: bytes

definition isLongHeader :: "byte \<Rightarrow> bool" where
  "isLongHeader b \<longleftrightarrow> b AND 0x80 \<noteq> 0"

type_synonym 'a parser = "bytes \<Rightarrow> io_error + 'a \<times> bytes"

fun read_byte :: "byte parser" where
  "read_byte [] = Inl IO_EOF"
| "read_byte (b # r) = Inr (b, r)"

definition beUint32 :: "u32 parser" where
  "beUint32 b =
     (case ReadFull 4 b of
        Inl err \<Rightarrow> Inl err
      | Inr (w, r) \<Rightarrow> Inr (un_be32 (w ! 0) (w ! 1) (w ! 2) (w ! 3), r))"

text \<open>An empty reader is no error here: the identifier stays zero.\<close>

definition readConnectionID :: "nat \<Rightarrow> bytes parser" where
  "readConnectionID n b =
     (if n \<le> length b then Inr (take n b, drop n b)
      else if b = [] then Inr (replicate n 0, []) else Inl IO_EOF)"

text \<open>The token, which only packets of the initial type have.\<close>

definition read_token :: "(bytes \<Rightarrow> io_error + u64w \<times> bytes) \<Rightarrow> u32 \<Rightarrow> byte \<Rightarrow> bytes parser" where
  "read_token qread ver typeByte b =
     (let initialPacketType = (if ver = V2 then 1 else 0)
      in if drop_bit 4 typeByte AND 3 \<noteq> initialPacketType then Inr ([], b)
         else (case qread b of
                 Inl err \<Rightarrow> Inl err
               | Inr (tokenLen, b) \<Rightarrow>
                   if unat tokenLen > length b then Inl IO_EOF
                   else Inr (take (unat tokenLen) b, drop (unat tokenLen) b)))"

definition parseLongHeader :: "(bytes \<Rightarrow> io_error + u64w \<times> bytes) \<Rightarrow> quicHeader parser" where
  "parseLongHeader qread b =
     (case read_byte b of
        Inl err \<Rightarrow> Inl err
      | Inr (typeByte, b) \<Rightarrow>
      case beUint32 b of
        Inl err \<Rightarrow> Inl err
      | Inr (ver, b) \<Rightarrow>
      if ver \<noteq> 0 \<and> typeByte AND 0x40 = 0 then Inl (ProtocolError ''not a QUIC packet'')
      else case read_byte b of
        Inl err \<Rightarrow> Inl err
      | Inr (destConnIDLen, b) \<Rightarrow>
      case readConnectionID (unat destConnIDLen) b of
        Inl err \<Rightarrow> Inl err
      | Inr (dest, b) \<Rightarrow>
      case read_byte b of
        Inl err \<Rightarrow> Inl err
      | Inr (srcConnIDLen, b) \<Rightarrow>
      case readConnectionID (unat srcConnIDLen) b of
        Inl err \<Rightarrow> Inl err
      | Inr (src, b) \<Rightarrow>
      case read_token qread ver typeByte b of
        Inl err \<Rightarrow> Inl err
      | Inr (token, b) \<Rightarrow>
      case qread b of
        Inl err \<Rightarrow> Inl err
      | Inr (pl, b) \<Rightarrow>
          Inr (\<lparr>qh_Version = ver, qh_SrcConnectionID = src, qh_DestConnectionID = dest, qh_Length = sint pl,
                qh_Token = token\<rparr>, b))"

definition ParseInitialHeader :: "(bytes \<Rightarrow> io_error + u64w \<times> bytes) \<Rightarrow> bytes \<Rightarrow> io_error + quicHeader \<times> int" where
  "ParseInitialHeader qread data =
     (case parseLongHeader qread data of
        Inl err \<Rightarrow> Inl err
      | Inr (hdr, rest) \<Rightarrow> Inr (hdr, int (length data) - int (length rest)))"

section \<open>Packet protection\<close>

text \<open>
  \<open>qc_open key nonce payload hdr\<close> opens in place: what it leaves of the payload, and whether the
  packet was authentic.
\<close>

record quic_crypto =
  qc_Extract :: "bytes \<Rightarrow> bytes \<Rightarrow> bytes"
  qc_Expand :: "bytes \<Rightarrow> bytes \<Rightarrow> nat \<Rightarrow> bytes"
  qc_Encrypt :: "bytes \<Rightarrow> bytes \<Rightarrow> bytes"
  qc_open :: "bytes \<Rightarrow> bytes \<Rightarrow> bytes \<Rightarrow> bytes \<Rightarrow> bytes \<times> bool"

record protectionKey =
  pk_aead :: "bytes \<Rightarrow> bytes \<Rightarrow> bytes \<Rightarrow> bytes \<times> bool"
  pk_headerProtection :: "bytes \<Rightarrow> bytes"
  pk_iv :: bytes

definition quicSaltOld :: bytes where
  "quicSaltOld = [0xaf, 0xbf, 0xec, 0x28, 0x99, 0x93, 0xd2, 0x4c, 0x9e, 0x97, 0x86, 0xf1, 0x9c, 0x61, 0x11, 0xe0, 0x43, 0x90, 0xa8, 0x99]"
definition quicSaltV1 :: bytes where
  "quicSaltV1 = [0x38, 0x76, 0x2c, 0xf7, 0xf5, 0x59, 0x34, 0xb3, 0x4d, 0x17, 0x9a, 0xe6, 0xa4, 0xc8, 0x0c, 0xad, 0xcc, 0xbb, 0x7f, 0x0a]"
definition quicSaltV2 :: bytes where
  "quicSaltV2 = [0x0d, 0xed, 0xe3, 0xde, 0xf7, 0x00, 0xa6, 0xdb, 0x81, 0x93, 0x81, 0xbe, 0x6e, 0x26, 0x9d, 0xcb, 0xf9, 0xbd, 0x2e, 0xd9]"

definition getSalt :: "u32 \<Rightarrow> bytes" where
  "getSalt v = (if v = V1 then quicSaltV1 else if v = V2 then quicSaltV2 else quicSaltOld)"

definition keyLabel :: "u32 \<Rightarrow> string" where
  "keyLabel v = (if v = V2 then ''quicv2 key'' else ''quic key'')"
definition ivLabel :: "u32 \<Rightarrow> string" where
  "ivLabel v = (if v = V2 then ''quicv2 iv'' else ''quic iv'')"
definition headerProtectionLabel :: "u32 \<Rightarrow> string" where
  "headerProtectionLabel v = (if v = V2 then ''quicv2 hp'' else ''quic hp'')"

text \<open>The label is what HKDF-Expand gets besides the secret and the length.\<close>

definition hkdfExpandLabel :: "quic_crypto \<Rightarrow> bytes \<Rightarrow> string \<Rightarrow> bytes \<Rightarrow> nat \<Rightarrow> bytes" where
  "hkdfExpandLabel qc secret lab ctxt n =
     (let full = bytes_of_string (''tls13 '' @ lab)
      in qc_Expand qc secret
           (be16 (word_of_nat n) @ [word_of_nat (length full)] @ full @ [word_of_nat (length ctxt)] @ ctxt) n)"

definition newProtectionKey :: "quic_crypto \<Rightarrow> bytes \<Rightarrow> u32 \<Rightarrow> protectionKey" where
  "newProtectionKey qc secret v =
     (let key = hkdfExpandLabel qc secret (keyLabel v) [] 16;
          iv = hkdfExpandLabel qc secret (ivLabel v) [] 12;
          hpKey = hkdfExpandLabel qc secret (headerProtectionLabel v) [] 16
      in \<lparr>pk_aead = qc_open qc key, pk_headerProtection = qc_Encrypt qc hpKey, pk_iv = iv\<rparr>)"

definition be64 :: "int \<Rightarrow> bytes" where
  "be64 n = map (\<lambda>i. word_of_int (n div 256 ^ (7 - i))) [0..<8]"

definition nonce :: "bytes \<Rightarrow> int \<Rightarrow> bytes" where
  "nonce iv pn = map2 (XOR) (replicate (length iv - 8) 0 @ be64 pn) iv"

definition decodePacketNumber :: "int \<Rightarrow> int \<Rightarrow> nat \<Rightarrow> int" where
  "decodePacketNumber largest truncated nbits =
     (let expected = largest + 1;
          win = 2 ^ (nbits * 8);
          hwin = win div 2;
          msk = win - 1;
          candidate = (expected AND NOT msk) OR truncated
      in if candidate \<le> expected - hwin \<and> candidate < 2 ^ 62 - win then candidate + win
         else if candidate > expected + hwin \<and> candidate \<ge> win then candidate - win
         else candidate)"

text \<open>
  The loop over the packet number's bytes: it takes the mask off in place and reads the number.  An
  index has to be within the slice, whose length is \<open>n\<close>.
\<close>

fun unmask_pn :: "bytes \<Rightarrow> nat \<Rightarrow> nat \<Rightarrow> nat list \<Rightarrow> int \<Rightarrow> bytes \<Rightarrow> (bytes \<times> int) option" where
  "unmask_pn msk n pnOffset [] pn arr = Some (arr, pn)"
| "unmask_pn msk n pnOffset (i # is) pn arr =
     (if n \<le> pnOffset + i \<or> length msk \<le> 1 + i then None
      else (let b = arr ! (pnOffset + i) XOR msk ! (1 + i)
            in unmask_pn msk n pnOffset is (pn * 256 + uint b) (arr[pnOffset + i := b])))"

definition UnProtect ::
  "protectionKey \<Rightarrow> bytes \<Rightarrow> bytes \<Rightarrow> nat \<Rightarrow> int \<Rightarrow> (bytes \<times> (string + bytes)) option" where
  "UnProtect key packet spare pnOffset pnMax =
     (let arr = packet @ spare; n = length packet
      in if packet = [] then None
         else if isLongHeader (packet ! 0) \<and> n < pnOffset + 4 + 16
         then Some (arr, Inl ''packet with long header is too small'')
         else if length arr < pnOffset + 4 + 16 then None
         else
           (let msk = pk_headerProtection key (take 16 (drop (pnOffset + 4) arr));
                arr = arr[0 := packet ! 0 XOR (msk ! 0 AND (if isLongHeader (packet ! 0) then 0x0f else 0x1f))];
                pnLen = unat (arr ! 0 AND 3) + 1
            in if msk = [] then None
               else do {
                 (arr, pn) \<leftarrow> unmask_pn msk n pnOffset [0..<pnLen] 0 arr;
                 let pn = decodePacketNumber pnMax pn pnLen;
                 let hdr = take (pnOffset + pnLen) arr;
                 let payload = take (n - (pnOffset + pnLen)) (drop (pnOffset + pnLen) arr);
                 let (left, authentic) = pk_aead key (nonce (pk_iv key) pn) payload hdr;
                 let arr = hdr @ left @ drop n arr;
                 Some (arr, if authentic then Inr (take (length payload - 16) left) else Inl ''decryption failed'')
               }))"

section \<open>Crypto frames\<close>

definition maxCryptoFrameDataLen :: nat where "maxCryptoFrameDataLen = 256 * 1024"
definition maxCryptoPayloadLen :: int where "maxCryptoPayloadLen = 256 * 1024"

record cryptoFrame =
  cf_Offset :: int
  cf_Data :: bytes

text \<open>What follows the type of a crypto frame.\<close>

definition read_frame :: "(bytes \<Rightarrow> io_error + u64w \<times> bytes) \<Rightarrow> cryptoFrame parser" where
  "read_frame qread r =
     (case qread r of
        Inl err \<Rightarrow> Inl err
      | Inr (offset, r) \<Rightarrow>
      if uint offset > 2 ^ 63 - 1 then Inl (ProtocolError ''invalid crypto frame offset'')
      else case qread r of
        Inl err \<Rightarrow> Inl err
      | Inr (dataLen, r) \<Rightarrow>
      if unat dataLen > maxCryptoFrameDataLen then Inl (ProtocolError ''crypto frame data too large'')
      else if unat dataLen > length r then Inl IO_UnexpectedEOF
      else Inr (\<lparr>cf_Offset = uint offset, cf_Data = take (unat dataLen) r\<rparr>, drop (unat dataLen) r))"

text \<open>The loop; every round reads at least one byte, so that the length of the input is enough fuel.\<close>

fun extract_loop ::
  "(bytes \<Rightarrow> io_error + u64w \<times> bytes) \<Rightarrow> nat \<Rightarrow> cryptoFrame list \<Rightarrow> bytes \<Rightarrow> (io_error + cryptoFrame list) option" where
  "extract_loop qread fuel frames [] = Some (Inr frames)"
| "extract_loop qread 0 frames (b # r) = None"
| "extract_loop qread (Suc fuel) frames (b # r) =
     (case qread (b # r) of
        Inl err \<Rightarrow> Some (Inl err)
      | Inr (typ, r) \<Rightarrow>
          if typ = 0 \<or> typ = 1 then extract_loop qread fuel frames r
          else if typ \<noteq> 6 then Some (Inl (ProtocolError ''encountered unexpected frame type''))
          else (case read_frame qread r of
                  Inl err \<Rightarrow> Some (Inl err)
                | Inr (frame, r) \<Rightarrow> extract_loop qread fuel (frames @ [frame]) r))"

definition extractCryptoFrames :: "(bytes \<Rightarrow> io_error + u64w \<times> bytes) \<Rightarrow> bytes \<Rightarrow> (io_error + cryptoFrame list) option" where
  "extractCryptoFrames qread r = extract_loop qread (length r) [] r"

fun contiguous :: "cryptoFrame list \<Rightarrow> bool" where
  "contiguous (f # g # fs) \<longleftrightarrow> cf_Offset g = cf_Offset f + int (length (cf_Data f)) \<and> contiguous (g # fs)"
| "contiguous _ \<longleftrightarrow> True"

fun place_frames :: "cryptoFrame list \<Rightarrow> bytes \<Rightarrow> bytes option" where
  "place_frames [] data = Some data"
| "place_frames (f # fs) data =
     (case copy_at data (nat (cf_Offset f)) (cf_Data f) of
        None \<Rightarrow> None
      | Some (data, n) \<Rightarrow> place_frames fs data)"

text \<open>The inner option is the nil slice.\<close>

definition assembleCryptoFrames :: "cryptoFrame list \<Rightarrow> bytes option option" where
  "assembleCryptoFrames frames =
     (case frames of
        [] \<Rightarrow> Some None
      | [f] \<Rightarrow> Some (Some (cf_Data f))
      | _ \<Rightarrow>
          (let frames = sort_key cf_Offset frames;
               lst = last frames;
               end' = cf_Offset lst + int (length (cf_Data lst))
           in if \<not> contiguous frames then Some None
              else if cf_Offset lst < 0 \<or> cf_Offset lst > maxCryptoPayloadLen then Some None
              else if end' < 0 \<or> end' > maxCryptoPayloadLen then Some None
              else map_option Some (place_frames frames (replicate (nat end') 0))))"

section \<open>Reading the payload\<close>

definition clientSecret :: "quic_crypto \<Rightarrow> quicHeader \<Rightarrow> bytes" where
  "clientSecret qc hdr =
     hkdfExpandLabel qc (qc_Extract qc (qh_DestConnectionID hdr) (getSalt (qh_Version hdr))) ''client in'' [] 32"

definition ReadCryptoPayload ::
  "(bytes \<Rightarrow> io_error + u64w \<times> bytes) \<Rightarrow> quic_crypto \<Rightarrow> bytes \<Rightarrow> bytes \<Rightarrow> (bytes \<times> (string + bytes)) option" where
  "ReadCryptoPayload qread qc packet spare =
     (case ParseInitialHeader qread packet of
        Inl err \<Rightarrow> Some (packet @ spare, Inl ''header'')
      | Inr (hdr, offset) \<Rightarrow>
          if qh_Version hdr \<noteq> V1 \<and> qh_Version hdr \<noteq> V2 then Some (packet @ spare, Inl ''unsupported version'')
          else if offset = 0 \<or> qh_Length hdr = 0 then Some (packet @ spare, Inl ''invalid packet'')
          else if int (length packet) < offset + qh_Length hdr then Some (packet @ spare, Inl ''packet is too short'')
          else
            (let key = newProtectionKey qc (clientSecret qc hdr) (qh_Version hdr);
                 n = nat (offset + qh_Length hdr)
             in case UnProtect key (take n packet) (drop n packet @ spare) (nat offset) 2 of
                  None \<Rightarrow> None
                | Some (arr, Inl err) \<Rightarrow> Some (arr, Inl err)
                | Some (arr, Inr payload) \<Rightarrow>
                    (case extractCryptoFrames qread payload of
                       None \<Rightarrow> None
                     | Some (Inl err) \<Rightarrow> Some (arr, Inl ''frames'')
                     | Some (Inr frs) \<Rightarrow>
                         (case assembleCryptoFrames frs of
                            None \<Rightarrow> None
                          | Some None \<Rightarrow> Some (arr, Inl ''unable to assemble crypto frames'')
                          | Some (Some d) \<Rightarrow> Some (arr, Inr d)))))"

section \<open>Packet numbers\<close>

text \<open>The decoder recovers every packet number in the window around the one expected (RFC 9000, A.3).\<close>

lemma pn_candidate:
  assumes "0 \<le> t" "t < 2 ^ k"
  shows "(e AND NOT (2 ^ k - 1)) OR t = e div 2 ^ k * 2 ^ k + (t :: int)"
proof -
  have t: "take_bit k t = t" using assms by (simp add: take_bit_int_eq_self)
  have "(e AND NOT (2 ^ k - 1)) OR t = concat_bit k t (drop_bit k e)"
  proof (rule bit_eqI)
    fix n
    have "bit t n \<Longrightarrow> n < k" using t by (metis bit_take_bit_iff)
    then show "bit ((e AND NOT (2 ^ k - 1)) OR t) n = bit (concat_bit k t (drop_bit k e)) n"
      by (auto simp: bit_concat_bit_iff bit_or_iff bit_and_iff bit_not_iff bit_drop_bit_eq mask_eq_exp_minus_1 [symmetric]
          bit_mask_iff)
  qed
  also have "\<dots> = e div 2 ^ k * 2 ^ k + t"
    using t by (simp add: concat_bit_eq push_bit_eq_mult drop_bit_eq_div)
  finally show ?thesis .
qed

lemma decodePacketNumber_window:
  assumes "nbits \<in> {1, 2, 3, 4}" "0 \<le> largest" "0 \<le> pn" "pn < 2 ^ 62"
    and "largest + 1 - 2 ^ (nbits * 8) div 2 < pn" "pn \<le> largest + 1 + 2 ^ (nbits * 8) div 2"
  shows "decodePacketNumber largest (pn mod 2 ^ (nbits * 8)) nbits = pn"
proof -
  define w :: int where "w = 2 ^ (nbits * 8)"
  define h where "h = w div 2"
  have w: "w = 2 * h" "0 < h" using assms(1) by (auto simp: w_def h_def)
  define e where "e = largest + 1"
  define q where "q = e div w"
  define t where "t = pn mod w"
  define p where "p = pn div w"
  have e: "e = q * w + e mod w" "0 \<le> e mod w" "e mod w < w"
    using w div_mult_mod_eq [of e w] by (auto simp: q_def)
  have pn: "pn = p * w + t" "0 \<le> t" "t < w" using w div_mult_mod_eq [of pn w] by (auto simp: p_def t_def)
  have win: "e - h < pn" "pn \<le> e + h" using assms(5,6) by (simp_all add: e_def w_def h_def)
  have "p * w < q * w + 2 * w" "q * w - 2 * w < p * w" using pn e win w by linarith+
  then have "p * w < (q + 2) * w" "(q - 2) * w < p * w" by (simp_all only: distrib_right left_diff_distrib)
  then have "p < q + 2" "q - 2 < p" using w by (simp_all add: mult_less_cancel_right)
  then consider "p = q" | "p = q + 1" | "p = q - 1" by linarith
  then have "(if q * w + t \<le> e - h \<and> q * w + t < 2 ^ 62 - w then q * w + t + w
      else if e + h < q * w + t \<and> w \<le> q * w + t then q * w + t - w else q * w + t) = pn"
  proof cases
    case 1
    then show ?thesis using pn win by simp
  next
    case 2
    then have "p * w = q * w + w" by (simp only: distrib_right mult_1_left)
    then show ?thesis using pn win w assms(4) by simp
  next
    case 3
    then have "p * w = q * w - w" by (simp only: left_diff_distrib mult_1_left)
    then show ?thesis using pn win w assms(3) by simp
  qed
  moreover have "(e AND NOT (w - 1)) OR t = q * w + t"
    unfolding w_def q_def by (rule pn_candidate) (use pn in \<open>simp_all add: w_def\<close>)
  ultimately show ?thesis
    unfolding decodePacketNumber_def Let_def w_def [symmetric] h_def [symmetric] e_def [symmetric] t_def [symmetric]
    by (simp only: )
qed

section \<open>When the protector panics\<close>

lemma unmask_pn_ok:
  assumes "\<forall>i \<in> set is. pnOffset + i < n \<and> 1 + i < length msk"
  obtains arr' pn' where "unmask_pn msk n pnOffset is pn arr = Some (arr', pn')" "length arr' = length arr"
proof -
  have "\<exists>arr' pn'. unmask_pn msk n pnOffset is pn arr = Some (arr', pn') \<and> length arr' = length arr"
    using assms
  proof (induction "is" arbitrary: pn arr)
    case (Cons i ks)
    let ?b = "arr ! (pnOffset + i) XOR msk ! (1 + i)"
    obtain arr' pn' where "unmask_pn msk n pnOffset ks (pn * 256 + uint ?b) (arr[pnOffset + i := ?b]) = Some (arr', pn')"
      "length arr' = length (arr[pnOffset + i := ?b])" using Cons by (metis list.set_intros(2))
    then show ?case using Cons.prems by (simp add: Let_def not_le)
  qed simp
  then show ?thesis using that by blast
qed

text \<open>What the code relies on of the block cipher: the mask is long enough.\<close>

definition hp_ok :: "quic_crypto \<Rightarrow> bool" where
  "hp_ok qc \<longleftrightarrow> (\<forall>key sample. 5 \<le> length (qc_Encrypt qc key sample))"

lemma pn_len: "unat (b AND 3 :: byte) + 1 \<le> 4"
proof -
  have "b AND 3 \<le> 3" by (rule word_and_le1)
  then show ?thesis by (simp add: word_le_nat_alt)
qed

lemma UnProtect_long:
  assumes "hp_ok qc" "isLongHeader (packet ! 0)" "packet \<noteq> []"
  shows "UnProtect (newProtectionKey qc secret v) packet spare pnOffset pnMax \<noteq> None"
proof (cases "length packet < pnOffset + 4 + 16")
  case False
  let ?key = "newProtectionKey qc secret v" and ?arr = "packet @ spare"
  let ?msk = "pk_headerProtection ?key (take 16 (drop (pnOffset + 4) ?arr))"
  have m: "5 \<le> length ?msk" using assms(1) by (simp add: newProtectionKey_def hp_ok_def Let_def)
  then have m0: "?msk \<noteq> []" by auto
  let ?a = "?arr[0 := packet ! 0 XOR (?msk ! 0 AND 0x0f)]"
  let ?k = "unat (?a ! 0 AND 3) + 1"
  have "\<forall>i \<in> set [0..<?k]. pnOffset + i < length packet \<and> 1 + i < length ?msk"
    using m pn_len [of "?a ! 0"] False by auto
  then obtain arr' pn' where "unmask_pn ?msk (length packet) pnOffset [0..<?k] 0 ?a = Some (arr', pn')"
    by (rule unmask_pn_ok)
  then show ?thesis using assms(2,3) False m0 by (simp add: UnProtect_def Let_def split: prod.split)
qed (use assms in \<open>simp add: UnProtect_def Let_def\<close>)

section \<open>Parsers consume\<close>

lemma varint_bits_bound:
  "(\<And>k. bit v k \<Longrightarrow> k < m) \<Longrightarrow> bit (foldl (\<lambda>v c. push_bit 8 v OR ucast (c :: byte)) (v :: u64w) cs) k \<Longrightarrow> k < m + 8 * length cs"
proof (induction cs arbitrary: v m)
  case (Cons c cs)
  have "k < m + 8" if "bit (push_bit 8 v OR ucast c) k" for k
    using that Cons.prems(1) [of "k - 8"] bit_imp_le_length [of c k]
    by (auto simp: bit_or_iff bit_push_bit_iff bit_ucast_iff)
  then have "k < m + 8 + 8 * length cs" using Cons.IH [of "push_bit 8 v OR ucast c" "m + 8"] Cons.prems(2) by simp
  then show ?case by simp
qed simp

lemma rfc_varint_nonneg:
  assumes "rfc_varint b = Some (v, n)"
  shows "0 \<le> sint v"
proof -
  obtain c bs where b: "b = c # bs" using assms by (cases b) auto
  have n: "n \<le> 8" using rfc_varint_bounds [OF assms] by simp
  have v: "v = foldl (\<lambda>v c. push_bit 8 v OR ucast c) (ucast (c AND 0x3f)) (take (n - 1) bs)"
    using assms b by (auto simp: Let_def split: if_splits)
  have "k < 6" if "bit (ucast (c AND 0x3f) :: u64w) k" for k
  proof -
    have "bit (0x3f :: byte) k" using that by (simp add: bit_ucast_iff bit_and_iff)
    moreover have "(0x3f :: byte) = mask 6" by (simp add: mask_eq_exp_minus_1)
    ultimately show ?thesis by (simp add: bit_mask_iff)
  qed
  then have "bit v 63 \<Longrightarrow> 63 < 6 + 8 * length (take (n - 1) bs)" unfolding v by (rule varint_bits_bound)
  then have "\<not> bit v 63" using n by auto
  then show ?thesis using bit_last_iff [of v] by (simp add: not_less)
qed

section \<open>Frames\<close>

context quicvarint
begin

lemma read_frame_shorter:
  assumes "read_frame qread r = Inr (f, r')"
  shows "length r' < length r" "0 \<le> cf_Offset f"
proof -
  obtain off r1 n r2 where q: "qread r = Inr (off, r1)" "qread r1 = Inr (n, r2)" "f = \<lparr>cf_Offset = uint off, cf_Data = take (unat n) r2\<rparr>"
    "r' = drop (unat n) r2"
    using assms by (auto simp: read_frame_def split: sum.splits if_splits)
  show "length r' < length r" using qread_consumes [OF q(1)] qread_consumes [OF q(2)] q(4) by auto
  show "0 \<le> cf_Offset f" using q(3) by simp
qed

lemma extract_loop_total:
  "length r \<le> fuel \<Longrightarrow> list_all (\<lambda>f. 0 \<le> cf_Offset f) frames \<Longrightarrow>
   \<exists>res. extract_loop qread fuel frames r = Some res \<and> (\<forall>fs. res = Inr fs \<longrightarrow> list_all (\<lambda>f. 0 \<le> cf_Offset f) fs)"
proof (induction fuel arbitrary: frames r)
  case (Suc fuel)
  show ?case
  proof (cases r)
    case (Cons b r')
    show ?thesis
    proof (cases "qread r")
      case (Inr p)
      obtain ty r1 where q: "qread r = Inr (ty, r1)" using Inr by (cases p) simp
      have l1: "length r1 \<le> fuel" using qread_consumes [OF q] Suc.prems(1) by auto
      show ?thesis
      proof (cases "read_frame qread r1")
        case Rd: (Inr p)
        obtain f r2 where f: "read_frame qread r1 = Inr (f, r2)" using Rd by (cases p) simp
        have "length r2 \<le> fuel" "list_all (\<lambda>f. 0 \<le> cf_Offset f) (frames @ [f])"
          using read_frame_shorter [OF f] l1 Suc.prems(2) by auto
        then show ?thesis using Suc.IH [of r1 frames] Suc.IH [of r2 "frames @ [f]"] q f l1 Suc.prems(2) Cons by simp
      qed (use Suc.IH [of r1 frames] q l1 Suc.prems(2) Cons in simp)
    qed (use Cons in simp)
  qed (use Suc.prems in simp)
qed simp

lemma parseLongHeader_consumes:
  assumes "parseLongHeader qread b = Inr (h, r)"
  shows "length r < length b" "0 \<le> qh_Length h"
proof -
  have tok: "length r \<le> length b" if "read_token qread v y b = Inr (t, r)" for v y b t r
    using that qread_consumes by (fastforce simp: read_token_def Let_def split: if_splits sum.splits)
  obtain b0 b1 where b: "b = b0 # b1" using assms by (cases b) (auto simp: parseLongHeader_def)
  have cid: "length r \<le> length b" if "readConnectionID n b = Inr (c, r)" for n b c r
    using that by (auto simp: readConnectionID_def split: if_splits)
  have u32: "length r \<le> length b" if "beUint32 b = Inr (v, r)" for b v r
    using that by (auto simp: beUint32_def ReadFull_def split: if_splits sum.splits)
  have rb: "length r \<le> length b" if "read_byte b = Inr (v, r)" for b v r
    using that by (cases b) auto
  obtain v b2 d b3 dest b4 n b5 src b6 t b7 pl where
    "beUint32 b1 = Inr (v, b2)" "read_byte b2 = Inr (d, b3)" "readConnectionID (unat d) b3 = Inr (dest, b4)"
    "read_byte b4 = Inr (n, b5)" "readConnectionID (unat n) b5 = Inr (src, b6)" "read_token qread v b0 b6 = Inr (t, b7)"
    and pl: "qread b7 = Inr (pl, r)" "qh_Length h = sint pl"
    using assms by (auto simp: parseLongHeader_def b split: sum.splits if_splits)
  then have "length b7 \<le> length b1" by (meson le_trans u32 rb cid tok)
  then show "length r < length b" using qread_consumes [OF pl(1)] b by auto
  have "rfc_varint b7 \<noteq> None" using qread_err [of b7] pl(1) by force
  then obtain w m where "rfc_varint b7 = Some (w, m)" by auto
  then show "0 \<le> qh_Length h" using qread_ok rfc_varint_nonneg pl by fastforce
qed

lemma extract_total:
  "\<exists>res. extractCryptoFrames qread r = Some res \<and> (\<forall>fs. res = Inr fs \<longrightarrow> list_all (\<lambda>f. 0 \<le> cf_Offset f) fs)"
  unfolding extractCryptoFrames_def by (rule extract_loop_total) simp_all

end

lemma place_frames_ok:
  "\<forall>f \<in> set fs. nat (cf_Offset f) \<le> length data \<Longrightarrow> place_frames fs data \<noteq> None"
proof (induction fs arbitrary: data)
  case (Cons f fs)
  then obtain d n where "copy_at data (nat (cf_Offset f)) (cf_Data f) = Some (d, n)" by (auto simp: copy_at_def Let_def)
  moreover from this have "length d = length data" by (rule length_copy_at)
  ultimately show ?case using Cons by simp
qed simp

lemma assemble_ok:
  assumes "list_all (\<lambda>f. 0 \<le> cf_Offset f) fs"
  shows "assembleCryptoFrames fs \<noteq> None"
proof -
  let ?s = "sort_key cf_Offset fs" and ?n = "nat (cf_Offset (last (sort_key cf_Offset fs)) + int (length (cf_Data (last (sort_key cf_Offset fs)))))"
  have "place_frames ?s (replicate ?n 0) \<noteq> None" if "fs \<noteq> []"
  proof (rule place_frames_ok, rule ballI)
    fix f assume f: "f \<in> set ?s"
    have "?s \<noteq> []" using that by (metis length_0_conv length_sort)
    obtain i where "f = ?s ! i" "i < length ?s" using f by (metis in_set_conv_nth)
    then have i: "f = ?s ! i" "i \<le> length ?s - 1" "length ?s - 1 < length ?s" by auto
    have "sorted (map cf_Offset ?s)" by simp
    then have "cf_Offset f \<le> cf_Offset (last ?s)"
      using sorted_nth_mono [of "map cf_Offset ?s" i "length ?s - 1"] i \<open>?s \<noteq> []\<close> by (simp add: last_conv_nth)
    then show "nat (cf_Offset f) \<le> length (replicate ?n 0)" by simp
  qed
  then show ?thesis by (auto simp: assembleCryptoFrames_def Let_def split: list.split)
qed

text \<open>
  C36: A packet can panic the sniffer.  A packet that has the long header bit never does, whatever
  follows, whatever the cipher says and whatever is behind the slice; but the bit is not required, and
  without it the packet's length is not checked: ten bytes are enough for an index out of range.
\<close>

theorem sniff_quic_panics:
  assumes "quicvarint qlen qread qparse" "hp_ok qc"
  shows "(isLongHeader b \<longrightarrow> ReadCryptoPayload qread qc (b # packet) spare \<noteq> None) \<and>
    ReadCryptoPayload qread qc [0x40, 0, 0, 0, 1, 0, 0, 0, 1, 0] [] = None"
proof (intro conjI impI)
  assume long: "isLongHeader b"
  note total = quicvarint.extract_total [OF assms(1)]
  have frames: "(case extractCryptoFrames qread payload of None \<Rightarrow> None
      | Some (Inl err) \<Rightarrow> Some (arr, Inl ''frames'')
      | Some (Inr frs) \<Rightarrow>
          (case assembleCryptoFrames frs of None \<Rightarrow> None
           | Some None \<Rightarrow> Some (arr, Inl ''unable to assemble crypto frames'')
           | Some (Some d) \<Rightarrow> Some (arr, Inr d))) \<noteq> None" for payload and arr :: bytes
  proof -
    obtain res where "extractCryptoFrames qread payload = Some res" "\<And>fs. res = Inr fs \<Longrightarrow> assembleCryptoFrames fs \<noteq> None"
      using total [of payload] assemble_ok by blast
    then show ?thesis by (cases res) (auto split: option.split)
  qed
  show "ReadCryptoPayload qread qc (b # packet) spare \<noteq> None"
  proof (cases "ParseInitialHeader qread (b # packet)")
    case (Inr p)
    obtain hdr offset where p: "p = (hdr, offset)" by fastforce
    let ?n = "nat (offset + qh_Length hdr)"
    let ?u = "UnProtect (newProtectionKey qc (clientSecret qc hdr) (qh_Version hdr)) (take ?n (b # packet))
        (drop ?n (b # packet) @ spare) (nat offset) 2"
    show ?thesis
    proof (cases "(qh_Version hdr \<noteq> V1 \<and> qh_Version hdr \<noteq> V2) \<or> (offset = 0 \<or> qh_Length hdr = 0) \<or>
        int (length (b # packet)) < offset + qh_Length hdr")
      case False
      obtain rest where "parseLongHeader qread (b # packet) = Inr (hdr, rest)" "offset = int (length (b # packet)) - int (length rest)"
        using Inr p by (auto simp: ParseInitialHeader_def split: sum.splits)
      with quicvarint.parseLongHeader_consumes [OF assms(1) this(1)] have "?n \<noteq> 0" by simp
      then have "?u \<noteq> None" by (intro UnProtect_long [OF assms(2)]) (use long in \<open>simp_all add: take_Cons'\<close>)
      then obtain arr r where u: "?u = Some (arr, r)" by auto
      have "ReadCryptoPayload qread qc (b # packet) spare =
          (case ?u of None \<Rightarrow> None | Some (arr, Inl err) \<Rightarrow> Some (arr, Inl err)
           | Some (arr, Inr payload) \<Rightarrow> (case extractCryptoFrames qread payload of None \<Rightarrow> None
              | Some (Inl err) \<Rightarrow> Some (arr, Inl ''frames'')
              | Some (Inr frs) \<Rightarrow>
                  (case assembleCryptoFrames frs of None \<Rightarrow> None
                   | Some None \<Rightarrow> Some (arr, Inl ''unable to assemble crypto frames'')
                   | Some (Some d) \<Rightarrow> Some (arr, Inr d))))"
        using False unfolding ReadCryptoPayload_def Inr p sum.case prod.case Let_def by (simp only: if_False de_Morgan_disj simp_thms)
      then show ?thesis using u frames by (cases r) simp_all
    next
      case True
      then show ?thesis by (auto simp: ReadCryptoPayload_def Inr p)
    qed
  qed (simp add: ReadCryptoPayload_def)
next
  have q: "qread (0 # r) = Inr (0, r)" "qread (1 # r) = Inr (1, r)" for r
    using quicvarint.qread_ok [OF assms(1), of "0 # r"] quicvarint.qread_ok [OF assms(1), of "1 # r"] by simp_all
  have h: "ParseInitialHeader qread [0x40, 0, 0, 0, 1, 0, 0, 0, 1, 0] =
      Inr (\<lparr>qh_Version = V1, qh_SrcConnectionID = [], qh_DestConnectionID = [], qh_Length = 1, qh_Token = []\<rparr>, 9)"
    by (simp add: ParseInitialHeader_def parseLongHeader_def beUint32_def ReadFull_def readConnectionID_def read_token_def
        un_be32_def q V1_def V2_def Let_def)
  show "ReadCryptoPayload qread qc [0x40, 0, 0, 0, 1, 0, 0, 0, 1, 0] [] = None"
    by (simp add: ReadCryptoPayload_def h UnProtect_def isLongHeader_def Let_def)
qed

text \<open>A block cipher and the rest that do nothing.\<close>

definition toy_crypto :: quic_crypto where
  "toy_crypto = \<lparr>qc_Extract = (\<lambda>_ _. []), qc_Expand = (\<lambda>_ _ n. replicate n 0), qc_Encrypt = (\<lambda>_ _. replicate 16 0),
     qc_open = (\<lambda>_ _ payload _. (payload, True))\<rparr>"

lemma sniff_quic_panics_witness:
  "ReadCryptoPayload rfc_read toy_crypto [0xC0, 0, 0, 0, 1, 0, 0, 0, 1, 0] [] \<noteq> None \<and>
   ReadCryptoPayload rfc_read toy_crypto [0x40, 0, 0, 0, 1, 0, 0, 0, 1, 0] [] = None"
proof -
  have "hp_ok toy_crypto" by (simp add: hp_ok_def toy_crypto_def)
  note p = sniff_quic_panics [OF rfc.quicvarint_axioms this]
  have "isLongHeader 0xC0" by (simp add: isLongHeader_def)
  then show ?thesis using p by blast
qed

section \<open>The sniffer overwrites the packet\<close>

lemma unmask_pn_bounds:
  "unmask_pn msk n pnOffset is pn arr = Some (arr', pn') \<Longrightarrow> length arr' = length arr \<and> (\<forall>i \<in> set is. pnOffset + i < n)"
  by (induction msk n pnOffset "is" pn arr rule: unmask_pn.induct) (auto simp: Let_def split: if_splits)

text \<open>
  After a packet has been opened, its array has the plaintext where the ciphertext was: whoever reads
  the slice afterwards does not see what was received.
\<close>

lemma UnProtect_in_place:
  assumes "UnProtect key packet spare pnOffset pnMax = Some (arr, Inr plain)"
  shows "\<exists>k. pnOffset < k \<and> k \<le> length packet \<and> take (length plain) (drop k arr) = plain"
proof -
  let ?arr = "packet @ spare"
  define msk where "msk = pk_headerProtection key (take 16 (drop (pnOffset + 4) ?arr))"
  define a where "a = ?arr[0 := packet ! 0 XOR (msk ! 0 AND (if isLongHeader (packet ! 0) then 0x0f else 0x1f))]"
  define k where "k = unat (a ! 0 AND 3) + 1"
  have g: "packet \<noteq> []" "\<not> (isLongHeader (packet ! 0) \<and> length packet < pnOffset + 4 + 16)"
    "\<not> length ?arr < pnOffset + 4 + 16" "msk \<noteq> []"
    using assms(1) by (auto simp: UnProtect_def Let_def msk_def split: if_splits)
  have "UnProtect key packet spare pnOffset pnMax = do {
      (arr, pn) \<leftarrow> unmask_pn msk (length packet) pnOffset [0..<k] 0 a;
      let pn = decodePacketNumber pnMax pn k;
      let hdr = take (pnOffset + k) arr;
      let payload = take (length packet - (pnOffset + k)) (drop (pnOffset + k) arr);
      let (left, authentic) = pk_aead key (nonce (pk_iv key) pn) payload hdr;
      let arr = hdr @ left @ drop (length packet) arr;
      Some (arr, if authentic then Inr (take (length payload - 16) left) else Inl ''decryption failed'')}"
    unfolding UnProtect_def Let_def msk_def [symmetric] a_def [symmetric] k_def [symmetric] if_not_P [OF g(1)]
      if_not_P [OF g(2)] if_not_P [OF g(3)] if_not_P [OF g(4)] ..
  note eq = trans [OF sym [OF this] assms(1)]
  obtain a1 pn where u: "unmask_pn msk (length packet) pnOffset [0..<k] 0 a = Some (a1, pn)"
    using eq by (cases "unmask_pn msk (length packet) pnOffset [0..<k] 0 a") auto
  define pay where "pay = take (length packet - (pnOffset + k)) (drop (pnOffset + k) a1)"
  obtain left ok where o: "pk_aead key (nonce (pk_iv key) (decodePacketNumber pnMax pn k)) pay (take (pnOffset + k) a1) = (left, ok)"
    by fastforce
  have r: "arr = take (pnOffset + k) a1 @ left @ drop (length packet) a1" "plain = take (length pay - 16) left"
    using eq by (simp_all add: u Let_def o pay_def [symmetric] split: if_splits)
  have l: "length a1 = length packet + length spare" and all: "\<forall>i \<in> set [0..<k]. pnOffset + i < length packet"
    using unmask_pn_bounds [OF u] by (simp_all add: a_def)
  have "0 < k" by (simp add: k_def)
  then have "pnOffset + (k - 1) < length packet" using bspec [OF all, of "k - 1"] by simp
  then have b: "pnOffset + k \<le> length packet" using \<open>0 < k\<close> by linarith
  have "length plain \<le> length left" using r(2) by simp
  then have "take (length plain) (drop (pnOffset + k) arr) = take (length plain) left" using r(1) l b by simp
  also have "\<dots> = plain" using r(2) by (simp add: min_def)
  finally show ?thesis using b \<open>0 < k\<close> by (intro exI [of _ "pnOffset + k"]) simp
qed

section \<open>Crypto frames are put together\<close>

text \<open>The frames of a stream that is cut into pieces, and their encoding with padding and pings between them.\<close>

fun frames_of :: "nat \<Rightarrow> bytes list \<Rightarrow> cryptoFrame list" where
  "frames_of off [] = []"
| "frames_of off (p # ps) = \<lparr>cf_Offset = int off, cf_Data = p\<rparr> # frames_of (off + length p) ps"

definition frame_wire :: "cryptoFrame \<Rightarrow> bytes" where
  "frame_wire f = 6 # the (varint_bytes (word_of_int (cf_Offset f))) @ the (varint_bytes (word_of_nat (length (cf_Data f)))) @ cf_Data f"

fun frames_wire :: "(bytes \<times> cryptoFrame) list \<Rightarrow> bytes \<Rightarrow> bytes" where
  "frames_wire [] tail = tail"
| "frames_wire ((pad, f) # fs) tail = pad @ frame_wire f @ frames_wire fs tail"

definition frame_small :: "cryptoFrame \<Rightarrow> bool" where
  "frame_small f \<longleftrightarrow> 0 \<le> cf_Offset f \<and> cf_Offset f \<le> 256 * 1024 \<and> length (cf_Data f) \<le> 256 * 1024"

lemma varint_small: "i \<le> 256 * 1024 \<Longrightarrow> \<exists>bs. varint_bytes (word_of_nat i) = Some bs"
proof -
  assume "i \<le> 256 * 1024"
  then have "(word_of_nat i :: u64w) \<le> 262144" by (simp add: word_le_nat_alt unat_of_nat)
  moreover have "(262144 :: u64w) \<le> maxVarInt4" by (simp add: varint_limits word_le_nat_alt)
  ultimately have "(word_of_nat i :: u64w) \<le> maxVarInt4" by (rule order_trans)
  then show ?thesis by (simp add: varint_bytes_def)
qed

context quicvarint
begin

lemma qread_small: "i \<le> 256 * 1024 \<Longrightarrow> qread (the (varint_bytes (word_of_nat i)) @ r) = Inr (word_of_nat i, r)"
  using varint_small [of i] qread_varint_bytes by fastforce

lemma qread_one: "b \<in> {0, 1, 6} \<Longrightarrow> qread (b # r) = Inr (ucast b, r)"
  using qread_ok [of "b # r"] by auto

lemma read_frame_wire:
  assumes "frame_small f"
  shows "read_frame qread (the (varint_bytes (word_of_int (cf_Offset f))) @ the (varint_bytes (word_of_nat (length (cf_Data f)))) @
    cf_Data f @ r) = Inr (f, r)"
proof -
  define o' where "o' = nat (cf_Offset f)"
  have o: "cf_Offset f = int o'" "o' \<le> 256 * 1024" using assms by (auto simp: frame_small_def o'_def nat_le_iff)
  have n: "length (cf_Data f) \<le> 256 * 1024" using assms by (simp add: frame_small_def)
  have w: "uint (word_of_nat o' :: u64w) = int o'" "unat (word_of_nat (length (cf_Data f)) :: u64w) = length (cf_Data f)"
    using o n by (simp_all add: uint_nat unat_of_nat)
  have "(word_of_int (cf_Offset f) :: u64w) = word_of_nat o'" using o by simp
  then show ?thesis
    using qread_small [OF o(2)] qread_small [OF n] w o n by (simp add: read_frame_def maxCryptoFrameDataLen_def)
qed

lemma extract_pads:
  "set pad \<subseteq> {0, 1} \<Longrightarrow> length pad \<le> fuel \<Longrightarrow>
   extract_loop qread fuel frames (pad @ r) = extract_loop qread (fuel - length pad) frames r"
proof (induction pad arbitrary: fuel)
  case (Cons b pad)
  then obtain fuel' where f: "fuel = Suc fuel'" by (cases fuel) auto
  have "qread (b # pad @ r) = Inr (ucast b, pad @ r)" by (rule qread_one) (use Cons.prems(1) in auto)
  moreover have "(ucast b :: u64w) = 0 \<or> (ucast b :: u64w) = 1" using Cons.prems(1) by auto
  ultimately show ?case using Cons.IH [of fuel'] Cons.prems f by auto
qed simp

lemma extract_wire:
  assumes "\<forall>(pad, f) \<in> set pfs. set pad \<subseteq> {0, 1} \<and> frame_small f" "set tail \<subseteq> {0, 1}"
    and "length (frames_wire pfs tail) \<le> fuel"
  shows "extract_loop qread fuel frames (frames_wire pfs tail) = Some (Inr (frames @ map snd pfs))"
  using assms(1,3)
proof (induction pfs arbitrary: fuel frames)
  case Nil
  then show ?case using extract_pads [of tail fuel frames "[]"] assms(2) by simp
next
  case (Cons pf pfs)
  obtain pad f where pf: "pf = (pad, f)" by fastforce
  have pad: "set pad \<subseteq> {0, 1}" and f: "frame_small f" using Cons.prems(1) pf by auto
  let ?r = "frames_wire pfs tail"
  let ?b = "the (varint_bytes (word_of_int (cf_Offset f))) @ the (varint_bytes (word_of_nat (length (cf_Data f)))) @ cf_Data f @ ?r"
  have len: "length pad + Suc (length ?b) \<le> fuel" using Cons.prems(2) by (simp add: pf frame_wire_def)
  obtain fuel' where f': "fuel - length pad = Suc fuel'" "length ?r \<le> fuel'"
    using len by (cases "fuel - length pad") auto
  have "extract_loop qread fuel frames (frames_wire (pf # pfs) tail) = extract_loop qread (Suc fuel') frames (6 # ?b)"
    using extract_pads [OF pad, of fuel frames "6 # ?b"] len f'(1) by (simp add: pf frame_wire_def)
  also have "\<dots> = extract_loop qread fuel' (frames @ [f]) ?r"
    using qread_one [of 6 ?b] read_frame_wire [OF f, of ?r] by simp
  also have "\<dots> = Some (Inr (frames @ map snd (pf # pfs)))"
    using Cons.IH [OF _ f'(2), of "frames @ [f]"] Cons.prems(1) pf by simp
  finally show ?case .
qed

end

lemma place_frames_of:
  "place_frames (frames_of (length pre) ps) (pre @ replicate (length (concat ps)) 0) = Some (pre @ concat ps)"
proof (induction ps arbitrary: pre)
  case (Cons p ps)
  have "copy_at (pre @ replicate (length (concat (p # ps))) 0) (length pre) p =
      Some ((pre @ p) @ replicate (length (concat ps)) 0, length p)"
    by (simp add: copy_at_append)
  then show ?case using Cons.IH [of "pre @ p"] by simp
qed simp

lemma contiguous_frames_of: "contiguous (frames_of off ps)"
  by (induction off ps rule: frames_of.induct) (auto, case_tac ps, auto)

lemma frames_of_sorted:
  "[] \<notin> set ps \<Longrightarrow> sorted_wrt (<) (map cf_Offset (frames_of off ps)) \<and> (\<forall>f \<in> set (frames_of off ps). int off \<le> cf_Offset f)"
proof (induction off ps rule: frames_of.induct)
  case (2 off p ps)
  have "0 < length p" using 2(2) by auto
  have ih: "sorted_wrt (<) (map cf_Offset (frames_of (off + length p) ps))"
    "\<forall>f \<in> set (frames_of (off + length p) ps). int (off + length p) \<le> cf_Offset f" using 2 by simp_all
  have "int off < cf_Offset f" if "f \<in> set (frames_of (off + length p) ps)" for f
    using bspec [OF ih(2) that] \<open>0 < length p\<close> by linarith
  then show ?case using ih(1) by (auto intro: less_imp_le)
qed simp


text \<open>
  The TLS bytes are put together whatever the sender does to them: cut into pieces, the pieces
  sent as crypto frames in any order and with padding and pings anywhere in between, they are read
  back whole.
\<close>

theorem sniff_frames_reassembled:
  assumes "quicvarint qlen qread qparse" "ps \<noteq> []" "[] \<notin> set ps" "length (concat ps) \<le> 256 * 1024"
    and "mset (map snd pfs) = mset (frames_of 0 ps)" "list_all (\<lambda>(pad, f). set pad \<subseteq> {0, 1}) pfs" "set tail \<subseteq> {0, 1}"
  shows "\<exists>fs. extractCryptoFrames qread (frames_wire pfs tail) = Some (Inr fs) \<and>
    assembleCryptoFrames fs = Some (Some (concat ps))"
proof -
  have small: "frame_small f" if "f \<in> set (frames_of off ps)" "off + length (concat ps) \<le> 256 * 1024" for f off ps
    using that by (induction off ps rule: frames_of.induct) (auto simp: frame_small_def)
  have set_eq: "set (map snd pfs) = set (frames_of 0 ps)" using assms(5) by (metis set_mset_mset)
  have "frame_small f" if "(pad, f) \<in> set pfs" for pad f
    using small [of f 0 ps] set_eq that assms(4) by force
  then have "\<forall>(pad, f) \<in> set pfs. set pad \<subseteq> {0, 1} \<and> frame_small f" using assms(6) by (auto simp: list_all_iff)
  then have ex: "extractCryptoFrames qread (frames_wire pfs tail) = Some (Inr (map snd pfs))"
    using quicvarint.extract_wire [OF assms(1) _ assms(7), of pfs _ "[]"] by (simp add: extractCryptoFrames_def)
  have len: "length (map snd pfs) = length (frames_of 0 ps)" using assms(5) by (metis size_mset)
  show ?thesis
  proof (cases "\<exists>p. ps = [p]")
    case True
    then obtain p where p: "ps = [p]" by blast
    then have "map snd pfs = [\<lparr>cf_Offset = 0, cf_Data = p\<rparr>]" using len set_eq by (cases "map snd pfs") auto
    then show ?thesis using ex p by (simp add: assembleCryptoFrames_def)
  next
    case False
    let ?fs = "frames_of 0 ps"
    have so: "sorted_wrt (<) (map cf_Offset ?fs)" using frames_of_sorted [OF assms(3)] by blast
    have sorted: "sort_key cf_Offset (map snd pfs) = ?fs"
    proof (rule sort_key_inj_key_eq [OF assms(5)])
      show "inj_on cf_Offset (set (map snd pfs))"
        unfolding set_eq using so by (metis distinct_map strict_sorted_iff)
      show "sorted (map cf_Offset ?fs)" using so by (simp add: strict_sorted_iff)
    qed
    obtain f1 f2 rest where two: "map snd pfs = f1 # f2 # rest"
      using False len assms(2) by (cases ps; cases "tl ps"; cases "map snd pfs"; cases "tl (map snd pfs)") auto
    have lst: "cf_Offset (last ?fs) + int (length (cf_Data (last ?fs))) = int (length (concat ps)) \<and> 0 \<le> cf_Offset (last ?fs)"
    proof -
      have "cf_Offset (last (frames_of off qs)) + int (length (cf_Data (last (frames_of off qs)))) = int (off + length (concat qs)) \<and>
          int off \<le> cf_Offset (last (frames_of off qs))" if "qs \<noteq> []" for off qs
        using that by (induction off qs rule: frames_of.induct) (auto, (case_tac ps, auto)+)
      from this [OF assms(2), of 0] show ?thesis by simp
    qed
    have "place_frames ?fs (replicate (length (concat ps)) 0) = Some (concat ps)"
      using place_frames_of [of "[]" ps] by simp
    then have "assembleCryptoFrames (map snd pfs) = Some (Some (concat ps))"
      using lst assms(4) contiguous_frames_of [of 0 ps]
      unfolding two assembleCryptoFrames_def list.case Let_def sorted [unfolded two] by (simp add: maxCryptoPayloadLen_def)
    then show ?thesis using ex by blast
  qed
qed

text \<open>Two frames in the wrong order, with padding before, a ping between and padding after them.\<close>

lemma sniff_frames_reassembled_witness:
  "\<exists>fs. extractCryptoFrames rfc_read (frames_wire
       [([0, 0], \<lparr>cf_Offset = 2, cf_Data = [7]\<rparr>), ([1], \<lparr>cf_Offset = 0, cf_Data = [5, 6]\<rparr>)] [0]) = Some (Inr fs) \<and>
     assembleCryptoFrames fs = Some (Some [5, 6, 7])"
  using sniff_frames_reassembled [OF rfc.quicvarint_axioms, of "[[5, 6], [7]]"
      "[([0, 0], \<lparr>cf_Offset = 2, cf_Data = [7]\<rparr>), ([1], \<lparr>cf_Offset = 0, cf_Data = [5, 6]\<rparr>)]" "[0]"]
  by simp

end
