(* ===== verification/Sniff.thy ===== *)
theory Sniff
  imports Sniff_Quic Server_Tcp Port_Union Go_Net
begin

text \<open>
  \<open>extras/sniff/sniff.go\<close>: the request hook that reads a request's first bytes, recognises HTTP, TLS
  and QUIC in them and puts the name it finds into the request's address.

  Go's HTTP reader and utls's parser of client hellos are the arguments \<open>http\<close> and \<open>hello\<close>: the host
  of a request, the server name of a client hello, \<open>None\<close> if there is none to be had of these bytes.
\<close>

section \<open>What is sniffed\<close>

record Sniffer =
  sn_Timeout :: int
  sn_RewriteDomain :: bool
  sn_TCPPorts :: "PortUnion option"
  sn_UDPPorts :: "PortUnion option"

definition isDomain :: "string \<Rightarrow> bool" where
  "isDomain addr = (case SplitHostPort addr of None \<Rightarrow> False | Some (host, _) \<Rightarrow> ParseIP host = None)"

definition isHTTP :: "bytes \<Rightarrow> bool" where
  "isHTTP buf \<longleftrightarrow> 3 \<le> length buf \<and>
     list_all (\<lambda>b. \<not> ((b < 0x41 \<or> b > 0x5A) \<and> (b < 0x61 \<or> b > 0x7A))) (take 3 buf)"

definition isTLS :: "bytes \<Rightarrow> bool" where
  "isTLS buf \<longleftrightarrow> 3 \<le> length buf \<and> buf ! 0 \<ge> 0x16 \<and> buf ! 0 \<le> 0x17 \<and> buf ! 1 = 0x03 \<and> buf ! 2 \<le> 0x09"

text \<open>\<open>strconv.Atoi\<close>.\<close>

definition Atoi :: "string \<Rightarrow> int option" where
  "Atoi s =
     (let (neg, ds) = (case s of c # r \<Rightarrow> if c = CHR ''-'' then (True, r) else if c = CHR ''+'' then (False, r)
                         else (False, s) | [] \<Rightarrow> (False, s));
          n = digits_value ds; v = (if neg then - n else n)
      in if ds = [] \<or> \<not> list_all is_digit ds \<or> \<not> in_i64 v then None else Some v)"

definition Check :: "Sniffer \<Rightarrow> bool \<Rightarrow> string \<Rightarrow> bool" where
  "Check h isUDP reqAddr =
     (if HasPrefix reqAddr ''@'' then False
      else case SplitHostPort reqAddr of
        None \<Rightarrow> False
      | Some (host, port) \<Rightarrow>
          if \<not> sn_RewriteDomain h \<and> ParseIP host = None then False
          else (case Atoi port of
                  None \<Rightarrow> False
                | Some portNum \<Rightarrow>
                    (case (if isUDP then sn_UDPPorts h else sn_TCPPorts h) of
                       None \<Rightarrow> True
                     | Some u \<Rightarrow> Contains u (word_of_int portNum))))"

section \<open>The tee reader\<close>

record teeReader =
  tee_Stream :: bytes
  tee_Pre :: bytes
  tee_buf :: bytes

text \<open>One \<open>Read\<close> into a buffer of \<open>len\<close>, for which the stream has \<open>got\<close> bytes; and how many were read.\<close>

definition tee_Read :: "nat \<Rightarrow> nat \<Rightarrow> teeReader \<Rightarrow> teeReader \<times> nat" where
  "tee_Read len got c =
     (if tee_Pre c \<noteq> []
      then (let n = min len (length (tee_Pre c))
            in (c\<lparr>tee_Pre := drop n (tee_Pre c), tee_buf := tee_buf c @ take n (tee_Pre c)\<rparr>, n))
      else (let b = take (min len got) (tee_Stream c)
            in (c\<lparr>tee_Stream := drop (length b) (tee_Stream c), tee_buf := tee_buf c @ b\<rparr>, length b)))"

definition tee_Buffer :: "teeReader \<Rightarrow> bytes" where
  "tee_Buffer c = tee_Pre c @ tee_buf c"

text \<open>The reads that go through the \<open>LimitReader\<close>, of which \<open>left\<close> bytes are left.\<close>

fun limited_reads :: "nat \<Rightarrow> (nat \<times> nat) list \<Rightarrow> teeReader \<Rightarrow> teeReader" where
  "limited_reads left [] c = c"
| "limited_reads left ((len, got) # rs) c =
     (if left = 0 then c
      else (case tee_Read (min len left) got c of (c, n) \<Rightarrow> limited_reads (left - n) rs c))"

definition sniffMaxHTTPHeaderBytes :: nat where "sniffMaxHTTPHeaderBytes = 256 * 1024"

section \<open>TCP\<close>

text \<open>
  What goes on around a call: the error of \<open>SetReadDeadline\<close>, how many of the stream's bytes arrive
  before the deadline (or the stream's end), and the reads of the HTTP reader, whose buffer has 4096
  bytes and is empty at the first of them.
\<close>

record sniff_env =
  se_deadline :: "string option"
  se_arrives :: nat
  se_first :: nat
  se_reads :: "(nat \<times> nat) list"

definition bufio_defaultBufSize :: nat where "bufio_defaultBufSize = 4096"

text \<open>\<open>io.ReadFull\<close> before a deadline: what was read, what is left of it, and whether it was enough.\<close>

definition read_in_time :: "nat \<Rightarrow> bytes \<Rightarrow> bytes \<times> bytes \<times> bool" where
  "read_in_time n s = (take n s, drop n s, n \<le> length s)"

definition rewrite_host :: "string \<Rightarrow> string \<Rightarrow> string + string" where
  "rewrite_host host reqAddr =
     (case SplitHostPort reqAddr of None \<Rightarrow> Inl ''address'' | Some (_, port) \<Rightarrow> Inr (JoinHostPort host port))"

definition sniff_http ::
  "(bytes \<Rightarrow> string option) \<Rightarrow> sniff_env \<Rightarrow> bytes \<Rightarrow> bytes \<Rightarrow> string \<Rightarrow> bytes \<times> string \<times> (string + bytes)" where
  "sniff_http http env pre s reqAddr =
     (let c = limited_reads sniffMaxHTTPHeaderBytes ((bufio_defaultBufSize, se_first env) # se_reads env)
                \<lparr>tee_Stream = s, tee_Pre = pre, tee_buf = []\<rparr>
      in case http (tee_Buffer c) of
           None \<Rightarrow> (tee_Stream c, reqAddr, Inr (tee_Buffer c))
         | Some Host \<Rightarrow>
             if Host = [] then (tee_Stream c, reqAddr, Inr (tee_Buffer c))
             else (let host = (case SplitHostPort Host of None \<Rightarrow> Host | Some (host, _) \<Rightarrow> host)
                   in case rewrite_host host reqAddr of
                        Inl err \<Rightarrow> (tee_Stream c, reqAddr, Inl err)
                      | Inr addr \<Rightarrow> (tee_Stream c, addr, Inr (tee_Buffer c))))"

definition sniff_tls ::
  "(bytes \<Rightarrow> string option) \<Rightarrow> bytes \<Rightarrow> bytes \<Rightarrow> string \<Rightarrow> bytes \<times> string \<times> (string + bytes)" where
  "sniff_tls hello pre s reqAddr =
     (case read_in_time 2 s of
        (a, s, False) \<Rightarrow> (s, reqAddr, Inr (pre @ a))
      | (a, s, True) \<Rightarrow>
          (case read_in_time (unat (a ! 0) * 256 + unat (a ! 1)) s of
             (b, s, False) \<Rightarrow> (s, reqAddr, Inr (pre @ a @ b))
           | (b, s, True) \<Rightarrow>
               (case hello b of
                  None \<Rightarrow> (s, reqAddr, Inr (pre @ a @ b))
                | Some ServerName \<Rightarrow>
                    if ServerName = [] then (s, reqAddr, Inr (pre @ a @ b))
                    else (case rewrite_host ServerName reqAddr of
                            Inl err \<Rightarrow> (s, reqAddr, Inl err)
                          | Inr addr \<Rightarrow> (s, addr, Inr (pre @ a @ b))))))"

text \<open>\<open>TCP\<close>: the rest of the stream, the address, and the data to put back or an error.\<close>

definition sniff_TCP ::
  "(bytes \<Rightarrow> string option) \<Rightarrow> (bytes \<Rightarrow> string option) \<Rightarrow> sniff_env \<Rightarrow> bytes \<Rightarrow> string
     \<Rightarrow> bytes \<times> string \<times> (string + bytes)" where
  "sniff_TCP http hello env stream reqAddr =
     (case se_deadline env of
        Some err \<Rightarrow> (stream, reqAddr, Inl err)
      | None \<Rightarrow>
          (let late = drop (se_arrives env) stream
           in case (case read_in_time 3 (take (se_arrives env) stream) of
                      (pre, s, False) \<Rightarrow> (s, reqAddr, Inr pre)
                    | (pre, s, True) \<Rightarrow>
                        if isHTTP pre then sniff_http http env pre s reqAddr
                        else if isTLS pre then sniff_tls hello pre s reqAddr
                        else (s, reqAddr, Inr pre)) of
                (rest, addr, r) \<Rightarrow> (rest @ late, addr, r)))"

section \<open>UDP\<close>

text \<open>The packet as it is left, with what is behind it in its array, the error and the address.\<close>

definition sniff_UDP ::
  "(bytes \<Rightarrow> io_error + u64w \<times> bytes) \<Rightarrow> quic_crypto \<Rightarrow> (bytes \<Rightarrow> string option) \<Rightarrow> bytes \<Rightarrow> bytes \<Rightarrow> string
     \<Rightarrow> (bytes \<times> string option \<times> string) option" where
  "sniff_UDP qread qc hello d spare reqAddr =
     (case ReadCryptoPayload qread qc d spare of
        None \<Rightarrow> None
      | Some (arr, Inl err) \<Rightarrow> Some (arr, None, reqAddr)
      | Some (arr, Inr pl) \<Rightarrow>
          if length pl < 4 \<or> pl ! 0 \<noteq> 0x01 then Some (arr, None, reqAddr)
          else (case hello pl of
                  None \<Rightarrow> Some (arr, None, reqAddr)
                | Some ServerName \<Rightarrow>
                    if ServerName = [] then Some (arr, None, reqAddr)
                    else (case rewrite_host ServerName reqAddr of
                            Inl err \<Rightarrow> Some (arr, Some err, reqAddr)
                          | Inr addr \<Rightarrow> Some (arr, None, addr))))"

section \<open>Sniffing takes nothing away\<close>

text \<open>
  The tee reader keeps what it reads in order, provided that the first read takes the whole prefix:
  \<open>Buffer\<close> has the unread part of the prefix first.
\<close>

lemma take_drop_min [simp]: "take k s @ drop (min (length s) k) s = s" "take k s @ drop (min k (length s)) s = s"
  by (cases "k \<le> length s"; simp)+

lemma tee_Read_keeps:
  assumes "tee_Pre c = []" "tee_Read len got c = (c', n)"
  shows "tee_Pre c' = []" "tee_buf c' @ tee_Stream c' = tee_buf c @ tee_Stream c"
  using assms by (auto simp: tee_Read_def Let_def)

lemma limited_reads_keep:
  "tee_Pre c = [] \<Longrightarrow> tee_Pre (limited_reads left rs c) = [] \<and>
   tee_buf (limited_reads left rs c) @ tee_Stream (limited_reads left rs c) = tee_buf c @ tee_Stream c"
proof (induction left rs c rule: limited_reads.induct)
  case (2 left len got rs c)
  obtain c' n where r: "tee_Read (min len left) got c = (c', n)" by fastforce
  show ?case using 2 r tee_Read_keeps [OF 2(2) r] by simp
qed simp

lemma http_buffer:
  assumes "length pre \<le> 3"
    and "c = limited_reads sniffMaxHTTPHeaderBytes ((bufio_defaultBufSize, got) # rs)
      \<lparr>tee_Stream = s, tee_Pre = pre, tee_buf = []\<rparr>"
  shows "tee_Buffer c @ tee_Stream c = pre @ s"
proof -
  let ?c = "\<lparr>tee_Stream = s, tee_Pre = pre, tee_buf = []\<rparr>"
  obtain c1 n where r: "tee_Read (min bufio_defaultBufSize sniffMaxHTTPHeaderBytes) got ?c = (c1, n)" by fastforce
  have "min bufio_defaultBufSize sniffMaxHTTPHeaderBytes = 4096"
    by (simp add: bufio_defaultBufSize_def sniffMaxHTTPHeaderBytes_def)
  then have "tee_Pre c1 = []" "tee_buf c1 @ tee_Stream c1 = pre @ s"
    using r assms(1) by (auto simp: tee_Read_def Let_def split: if_splits)
  moreover have "c = limited_reads (sniffMaxHTTPHeaderBytes - n) rs c1"
    using assms(2) r by (simp add: sniffMaxHTTPHeaderBytes_def)
  ultimately show ?thesis using limited_reads_keep [of c1 "sniffMaxHTTPHeaderBytes - n" rs] by (simp add: tee_Buffer_def)
qed

text \<open>An early first read would put the rest of the prefix before what came first.\<close>

lemma tee_Buffer_out_of_order:
  "tee_Buffer (limited_reads 10 [(1, 1)] \<lparr>tee_Stream = [], tee_Pre = [1, 2, 3], tee_buf = []\<rparr>) = [2, 3, 1]"
  by (simp add: tee_Buffer_def tee_Read_def)

text \<open>The address a hook may answer: the one of the request, or another host with the same port.\<close>

definition same_port :: "string \<Rightarrow> string \<Rightarrow> bool" where
  "same_port a b \<longleftrightarrow> b = a \<or> (\<exists>host port. map_option snd (SplitHostPort a) = Some port \<and> b = JoinHostPort host port)"

lemma same_port_refl [simp]: "same_port a a"
  by (simp add: same_port_def)

lemma rewrite_same_port: "rewrite_host host a = Inr b \<Longrightarrow> same_port a b"
  by (auto simp: rewrite_host_def same_port_def split: option.splits prod.splits)

lemma rewrite_splits: "rewrite_host host a = Inl e \<Longrightarrow> SplitHostPort a = None"
  by (auto simp: rewrite_host_def split: option.splits prod.splits)

text \<open>What a stage leaves: nothing of the stream is lost and the port stays.\<close>

definition keeps :: "bytes \<Rightarrow> string \<Rightarrow> bytes \<times> string \<times> (string + bytes) \<Rightarrow> bool" where
  "keeps s a = (\<lambda>(rest, addr, r). same_port a addr \<and>
     (case r of Inr pb \<Rightarrow> pb @ rest = s | Inl e \<Rightarrow> SplitHostPort a = None))"

lemma read_in_time_keeps: "read_in_time n s = (a, r, ok) \<Longrightarrow> a @ r = s"
  by (auto simp: read_in_time_def)

lemma keeps_Inr [simp]: "keeps s a (rest, addr, Inr pb) \<longleftrightarrow> same_port a addr \<and> pb @ rest = s"
  by (simp add: keeps_def)

lemma keeps_Inl [simp]: "keeps s a (rest, addr, Inl e) \<longleftrightarrow> same_port a addr \<and> SplitHostPort a = None"
  by (simp add: keeps_def)

lemma keeps_rewrite:
  assumes "pb @ rest = s"
  shows "keeps s a (case rewrite_host host a of Inl err \<Rightarrow> (rest, a, Inl err) | Inr addr \<Rightarrow> (rest, addr, Inr pb))"
  using assms by (cases "rewrite_host host a") (simp_all add: rewrite_same_port rewrite_splits)

lemma sniff_http_keeps:
  assumes "length pre \<le> 3"
  shows "keeps (pre @ s) a (sniff_http http env pre s a)"
proof -
  define c where "c = limited_reads sniffMaxHTTPHeaderBytes ((bufio_defaultBufSize, se_first env) # se_reads env)
      \<lparr>tee_Stream = s, tee_Pre = pre, tee_buf = []\<rparr>"
  have b: "tee_Buffer c @ tee_Stream c = pre @ s" by (rule http_buffer [OF assms c_def])
  show ?thesis
    unfolding sniff_http_def c_def [symmetric] Let_def
    by (cases "http (tee_Buffer c)") (simp_all add: b keeps_rewrite)
qed

lemma sniff_tls_keeps: "keeps (pre @ s) a (sniff_tls hello pre s a)"
proof -
  obtain x s1 ok1 where 1: "read_in_time 2 s = (x, s1, ok1)" by (metis prod_cases3)
  obtain y s2 ok2 where 2: "read_in_time (unat (x ! 0) * 256 + unat (x ! 1)) s1 = (y, s2, ok2)" by (metis prod_cases3)
  have e: "sniff_tls hello pre s a =
      (if \<not> ok1 then (s1, a, Inr (pre @ x))
       else if \<not> ok2 then (s2, a, Inr (pre @ x @ y))
       else case hello y of
         None \<Rightarrow> (s2, a, Inr (pre @ x @ y))
       | Some ServerName \<Rightarrow>
           if ServerName = [] then (s2, a, Inr (pre @ x @ y))
           else case rewrite_host ServerName a of
             Inl err \<Rightarrow> (s2, a, Inl err)
           | Inr addr \<Rightarrow> (s2, addr, Inr (pre @ x @ y)))"
    by (cases ok1; cases ok2) (simp_all add: sniff_tls_def 1 2 [simplified])
  show ?thesis
    unfolding e using read_in_time_keeps [OF 1] read_in_time_keeps [OF 2]
    by (cases "hello y") (simp_all add: keeps_rewrite)
qed

lemma keeps_late: "keeps s a (rest, addr, r) \<Longrightarrow> keeps (s @ late) a (rest @ late, addr, r)"
  by (auto simp: keeps_def split: sum.splits)

lemma sniff_arrived_keeps:
  "keeps s a (case read_in_time 3 s of
      (pre, s, False) \<Rightarrow> (s, a, Inr pre)
    | (pre, s, True) \<Rightarrow>
        if isHTTP pre then sniff_http http env pre s a
        else if isTLS pre then sniff_tls hello pre s a
        else (s, a, Inr pre))"
proof -
  obtain pre s' ok where r: "read_in_time 3 s = (pre, s', ok)" by (metis prod_cases3)
  have pre: "length pre \<le> 3" "s = pre @ s'" using r by (auto simp: read_in_time_def)
  show ?thesis
    unfolding r unfolding pre(2)
    using sniff_http_keeps [OF pre(1), of s' a http env] sniff_tls_keeps [of pre s' a hello]
    by (cases ok) simp_all
qed

lemma sniff_TCP_keeps:
  assumes "se_deadline env = None"
  shows "keeps s a (sniff_TCP http hello env s a)"
proof -
  let ?s = "take (se_arrives env) s" and ?late = "drop (se_arrives env) s"
  define r where "r = (case read_in_time 3 ?s of
      (pre, s, False) \<Rightarrow> (s, a, Inr pre)
    | (pre, s, True) \<Rightarrow>
        if isHTTP pre then sniff_http http env pre s a
        else if isTLS pre then sniff_tls hello pre s a
        else (s, a, Inr pre))"
  obtain rest addr x where x: "r = (rest, addr, x)" by (metis prod_cases3)
  have "keeps ?s a (rest, addr, x)" using sniff_arrived_keeps [of ?s a http env hello] by (simp only: x [symmetric] r_def)
  from keeps_late [OF this, of ?late] show ?thesis
    using assms by (simp add: sniff_TCP_def Let_def r_def [symmetric] x)
qed

lemma Check_splits: "Check h isUDP a \<Longrightarrow> SplitHostPort a \<noteq> None"
  by (auto simp: Check_def split: if_splits option.splits)

section \<open>Hooks that do\<close>

text \<open>
  The contract between the server and a hook's \<open>TCP\<close>: a hook that has agreed to look at a request
  fails before it has read anything, or gives back what it has read and keeps the port.
\<close>

locale transparent_hook =
  fixes Chk :: "bool \<Rightarrow> string \<Rightarrow> bool" and TCP :: "bytes \<Rightarrow> string \<Rightarrow> bytes \<times> string \<times> (string + bytes)"
  assumes transparent:
    "Chk False a \<Longrightarrow> TCP s a = (rest, addr, r) \<Longrightarrow>
       same_port a addr \<and> (case r of Inr pb \<Rightarrow> pb @ rest = s | Inl e \<Rightarrow> rest = s \<and> addr = a)"
begin

text \<open>The request goes to the hook's address, and the relay starts with the client's bytes in two parts.\<close>

lemma hooked_dial:
  assumes k: "th_RequestHook h = Some k" "hook_Check k = Chk" "hook_TCP k = TCP" "Chk False a"
    and hs: "hook_stage qlen draws h a s = Some (es, Inr (addr, rest, hooked, pb))"
    and d: "dialOutboundTCP (th_Outbound h) authID addr = Inr c" "length pb \<le> te_putback env"
  shows "hooked \<and> same_port a addr \<and>
    (\<exists>es' t w. dial_stage qlen draws h authID env l trace addr rest hooked pb = Some (es', Some t) \<and>
       dials es' = [(authID, addr)] \<and> responses es' = [] \<and>
       t = copyTwoWayEx (th_TrafficLogger h) trace authID w (te_schedule env) \<and>
       rl_toRemote w @ rl_client w = s \<and> rl_toClient w = [] \<and> rl_remote w = te_remote env)"
proof -
  obtain rest' addr' r where t: "TCP s a = (rest', addr', r)" by (metis prod_cases3)
  have x: "rest' = rest" "addr' = addr" "r = Inr pb" "hooked"
    using hs k t by (auto simp: hook_stage_def split: option.splits sum.splits)
  have keep: "same_port a addr" "pb @ rest = s" using transparent [OF k(4) t] x by simp_all
  define w where "w = \<lparr>rl_client = rest, rl_remote = te_remote env, rl_toRemote = pb, rl_toClient = [],
      rl_Tx = (if length pb > 0 then u64 (int (length pb)) else 0), rl_Rx = 0, rl_logger = l\<rparr>"
  obtain es1 t where r: "relay_stage h authID env l trace addr rest pb c = (es1, t)" by fastforce
  have t: "t = copyTwoWayEx (th_TrafficLogger h) trace authID w (te_schedule env)"
    using r d(2) by (auto simp: relay_stage_def w_def Let_def min_absorb2 split: option.splits)
  obtain es' where "dial_stage qlen draws h authID env l trace addr rest hooked pb = Some (es', Some t)"
    "dials es' = [(authID, addr)]" "responses es' = []"
    using relay_stage_trace [OF r] x(4) by (simp add: dial_stage_def d(1) r Let_def) (simp add: tcp_trace_defs)
  moreover have "rl_toRemote w @ rl_client w = s \<and> rl_toClient w = [] \<and> rl_remote w = te_remote env"
    using keep(2) by (simp add: w_def)
  ultimately show ?thesis using keep(1) x(4) t by blast
qed

end

lemma deadline_error: "se_deadline env = Some e \<Longrightarrow> sniff_TCP http hello env s a = (s, a, Inl e)"
  by (simp add: sniff_TCP_def)

interpretation sniffer: transparent_hook "Check h" "sniff_TCP http hello env" for h http hello env
proof unfold_locales
  fix a s rest addr r
  assume c: "Check h False a" and t: "sniff_TCP http hello env s a = (rest, addr, r)"
  show "same_port a addr \<and> (case r of Inr pb \<Rightarrow> pb @ rest = s | Inl e \<Rightarrow> rest = s \<and> addr = a)"
  proof (cases "se_deadline env")
    case None
    then show ?thesis
      using sniff_TCP_keeps [OF None, of s a http hello] Check_splits [OF c] t by (cases r) simp_all
  next
    case (Some e)
    then show ?thesis using t by (auto simp: deadline_error)
  qed
qed

section \<open>A sniffed request\<close>

definition sniffs :: "(bytes \<Rightarrow> string option) \<Rightarrow> (bytes \<Rightarrow> string option) \<Rightarrow> sniff_env \<Rightarrow> Sniffer \<Rightarrow> requestHook option \<Rightarrow> bool" where
  "sniffs http hello env sn hook \<longleftrightarrow>
     (\<exists>k. hook = Some k \<and> hook_Check k = Check sn \<and> hook_TCP k = sniff_TCP http hello env)"

definition sniffed_ok ::
  "(bytes \<Rightarrow> io_error + (u64w \<times> bytes)) \<Rightarrow> 'l tcpHandler \<Rightarrow> string \<Rightarrow> string \<Rightarrow> tcp_env \<Rightarrow> bytes
     \<Rightarrow> tcp_effect list \<Rightarrow> 'l two_way option \<Rightarrow> bool" where
  "sniffed_ok qread h authID addr env body es t \<longleftrightarrow>
     (\<exists>resp addr' w. responses es = [resp] \<and> dials es = [(authID, addr')] \<and> same_port addr addr' \<and>
        (\<forall>more. ReadTCPResponse qread (resp @ more) = Inr (True, ''RequestHook enabled'', more)) \<and>
        t = Some (copyTwoWayEx (th_TrafficLogger h) (wantsStreamStats (th_TrafficLogger h)) authID w (te_schedule env)) \<and>
        rl_toRemote w @ rl_client w = body \<and> rl_toClient w = [] \<and> rl_remote w = te_remote env)"

text \<open>
  C28: Sniffing is transparent: whatever arrives in time, whatever the parsers say and however the
  HTTP reader reads, a request that is sniffed and can be dialled is dialled once, at the same port
  of the address it names or of the name found in its first bytes, the client is told so, and the
  relay goes on where the sniffer left off: the remote gets exactly the client's bytes, in order.
\<close>

theorem sniffed_request_whole:
  assumes "quicvarint qlen qread qparse" "1 \<le> length addr" "length addr \<le> MaxAddressLength"
    and "sniffs http hello senv sn (th_RequestHook h)" "Check sn False addr" "se_deadline senv = None"
    and "\<forall>a. \<exists>c. dialOutboundTCP (th_Outbound h) authID a = Inr c" "length body \<le> te_putback env"
  shows "\<exists>req rest es t. WriteTCPRequest qlen draws addr = Some req \<and>
    qread (req @ body) = Inr (FrameTypeTCPRequest, rest) \<and>
    handleTCPRequest qlen qread draws' h authID env l rest = Some (es, t) \<and>
    sniffed_ok qread h authID addr env body es t"
proof -
  obtain req rest where req: "WriteTCPRequest qlen draws addr = Some req"
    "qread (req @ body) = Inr (FrameTypeTCPRequest, rest)" "ReadTCPRequest qread rest = Inr (addr, body)"
    using quicvarint.tcp_request_roundtrip_aux [OF assms(1-3)] by blast
  obtain k where k: "th_RequestHook h = Some k" "hook_Check k = Check sn" "hook_TCP k = sniff_TCP http hello senv"
    using assms(4) by (auto simp: sniffs_def)
  obtain resp where resp: "WriteTCPResponse qlen draws' True ''RequestHook enabled'' = Some resp"
    "\<forall>more. ReadTCPResponse qread (resp @ more) = Inr (True, ''RequestHook enabled'', more)"
    using quicvarint.response_readable [OF assms(1), of "''RequestHook enabled''" draws' True] by (auto simp: length_limits)
  obtain left addr' r where t: "sniff_TCP http hello senv body addr = (left, addr', r)" by (metis prod_cases3)
  obtain pb where pb: "r = Inr pb" "pb @ left = body"
    using sniff_TCP_keeps [OF assms(6), of body addr http hello] Check_splits [OF assms(5)] t by (cases r) simp_all
  define es1 where "es1 = [SetState StateHooking, StreamWrite resp] @ setHookedReqAddr addr addr'"
  have hs: "hook_stage qlen draws' h addr body = Some (es1, Inr (addr', left, True, pb))"
    using k assms(5) resp(1) t pb(1) by (simp add: hook_stage_def es1_def)
  obtain c where c: "dialOutboundTCP (th_Outbound h) authID addr' = Inr c" using assms(7) by blast
  define trace where "trace = wantsStreamStats (th_TrafficLogger h)"
  have "length pb \<le> te_putback env" using pb(2) assms(8) by (metis length_append le_add1 le_trans)
  from sniffer.hooked_dial [OF k assms(5) hs c this, of l trace] obtain es2 tw w where d:
    "same_port addr addr'" "dial_stage qlen draws' h authID env l trace addr' left True pb = Some (es2, Some tw)"
    "dials es2 = [(authID, addr')]" "responses es2 = []"
    "tw = copyTwoWayEx (th_TrafficLogger h) trace authID w (te_schedule env)"
    "rl_toRemote w @ rl_client w = body" "rl_toClient w = []" "rl_remote w = te_remote env" by blast
  have es1: "responses es1 = [resp]" "dials es1 = []" by (simp_all add: es1_def setHookedReqAddr_def tcp_trace_defs)
  obtain es where h: "handleTCPRequest qlen qread draws' h authID env l rest = Some (es, Some tw)"
    "responses es = [resp]" "dials es = [(authID, addr')]"
    using d(3,4) es1
    by (simp add: handleTCPRequest_def req(3) hs d(2) trace_def [symmetric] trace_append Let_def) (simp add: tcp_trace_defs)
  have "sniffed_ok qread h authID addr env body es (Some tw)"
    unfolding sniffed_ok_def trace_def [symmetric] using h(2,3) d resp(2) by blast
  with req h(1) show ?thesis by blast
qed

text \<open>A request for an address, whose first bytes name a host.\<close>

definition example_sniffer :: Sniffer where
  "example_sniffer = \<lparr>sn_Timeout = 0, sn_RewriteDomain = False, sn_TCPPorts = None, sn_UDPPorts = None\<rparr>"

definition example_senv :: sniff_env where
  "example_senv = \<lparr>se_deadline = None, se_arrives = 9, se_first = 9, se_reads = [(4096, 6)]\<rparr>"

definition example_http :: "bytes \<Rightarrow> string option" where
  "example_http b = (if HasPrefix (string_of_bytes b) ''GET'' then Some ''host'' else None)"

definition sniffing_handler :: "(unit \<times> log_call list) tcpHandler" where
  "sniffing_handler = \<lparr>th_TrafficLogger = Some (recording free_logger),
     th_RequestHook = Some \<lparr>hook_Check = Check example_sniffer, hook_TCP = sniff_TCP example_http (\<lambda>_. None) example_senv,
       hook_UDP = (\<lambda>_ a. (None, a))\<rparr>,
     th_Outbound = \<lparr>ob_TCP = (\<lambda>a. Inr 5), ob_UDP = (\<lambda>a. Inr 0), ob_CheckUDP = (\<lambda>a. None),
       asAuthenticated = None, asAuthenticatedUDP = None\<rparr>,
     th_EventLogger = True\<rparr>"

lemma sniff_example:
  "sniff_TCP example_http (\<lambda>_. None) example_senv [0x47, 0x45, 0x54, 1, 2, 3, 4, 5, 6, 7] ''1.2.3.4:80'' =
     ([7], ''host:80'', Inr [0x47, 0x45, 0x54, 1, 2, 3, 4, 5, 6])"
proof -
  have "rewrite_host ''host'' ''1.2.3.4:80'' = Inr ''host:80''" "SplitHostPort ''host'' = None" by code_simp+
  moreover have "example_http [0x47, 0x45, 0x54, 1, 2, 3, 4, 5, 6] = Some ''host''" by code_simp
  ultimately show ?thesis
    by (simp add: sniff_TCP_def sniff_http_def example_senv_def read_in_time_def isHTTP_def tee_Read_def tee_Buffer_def
        sniffMaxHTTPHeaderBytes_def bufio_defaultBufSize_def)
qed

lemma sniffed_request_whole_witness:
  "\<exists>req rest es t. WriteTCPRequest rfc_len (\<lambda>_. 0) ''1.2.3.4:80'' = Some req \<and>
    handleTCPRequest rfc_len rfc_read (\<lambda>_. 0) sniffing_handler ''u'' (example_env\<lparr>te_putback := 100\<rparr>) ((), []) rest = Some (es, t) \<and>
    sniffed_ok rfc_read sniffing_handler ''u'' ''1.2.3.4:80'' (example_env\<lparr>te_putback := 100\<rparr>) [0x47, 0x45, 0x54, 1, 2, 3, 4, 5, 6, 7] es t"
proof -
  have s: "sniffs example_http (\<lambda>_. None) example_senv example_sniffer (th_RequestHook sniffing_handler)"
    by (simp add: sniffs_def sniffing_handler_def)
  have c: "Check example_sniffer False ''1.2.3.4:80''" by code_simp
  have d: "\<forall>a. \<exists>c. dialOutboundTCP (th_Outbound sniffing_handler) ''u'' a = Inr c"
    by (simp add: dialOutboundTCP_def sniffing_handler_def)
  show ?thesis
    using sniffed_request_whole [OF rfc.quicvarint_axioms _ _ s c _ d,
        of "[0x47, 0x45, 0x54, 1, 2, 3, 4, 5, 6, 7]" "example_env\<lparr>te_putback := 100\<rparr>" "\<lambda>_. 0" "\<lambda>_. 0" "((), [])"]
    by (auto simp: length_limits example_senv_def)
qed

section \<open>Sniffed packets\<close>

text \<open>The UDP hook never fails once the request has been checked, and it keeps the port.\<close>

lemma sniff_UDP_keeps:
  assumes "Check h True a" "sniff_UDP qread qc hello d spare a = Some (arr, err, addr)"
  shows "err = None \<and> same_port a addr"
  using assms(2) Check_splits [OF assms(1)]
  by (auto simp: sniff_UDP_def dest: rewrite_same_port dest!: rewrite_splits split: option.splits sum.splits if_splits)

end
