(* ===== verification/Proxy_Outbounds.thy ===== *)
theory Proxy_Outbounds
  imports Outbound_Addr "HOL-Library.Monad_Syntax"
begin

text \<open>
  \<open>extras/outbounds/ob_socks5.go\<close> and \<open>ob_http.go\<close>: the outbounds that connect through a proxy.  A
  connection is a number, and what a call does to connections is a list of effects.  What the peer
  answers and which of the calls of the network fail is an argument, a record per outbound; the
  coding of SOCKS5 messages (\<open>socks5_lib\<close>), Base64 and HTTP are arguments as well.
\<close>

datatype px_effect = Px_Opened nat | Px_Closed nat | Px_Wrote nat bytes | Px_Request nat string "(string \<times> string) list"

text \<open>The connections that are open after the effects.\<close>

fun px_live :: "nat set \<Rightarrow> px_effect list \<Rightarrow> nat set" where
  "px_live cs [] = cs"
| "px_live cs (Px_Opened c # es) = px_live (insert c cs) es"
| "px_live cs (Px_Closed c # es) = px_live (cs - {c}) es"
| "px_live cs (_ # es) = px_live cs es"

section \<open>SOCKS5 messages\<close>

definition MethodNone :: byte where "MethodNone = 0"
definition MethodUsernamePassword :: byte where "MethodUsernamePassword = 2"
definition CmdConnect :: byte where "CmdConnect = 1"
definition CmdUDP :: byte where "CmdUDP = 3"
definition ATYPIPv4 :: byte where "ATYPIPv4 = 1"
definition ATYPDomain :: byte where "ATYPDomain = 3"
definition ATYPIPv6 :: byte where "ATYPIPv6 = 4"

record socks5_lib =
  sl_negotiation :: "bytes \<Rightarrow> bytes"
  sl_userpass :: "bytes \<Rightarrow> bytes \<Rightarrow> bytes"
  sl_request :: "byte \<Rightarrow> byte \<Rightarrow> bytes \<Rightarrow> bytes \<Rightarrow> bytes"
  sl_datagram :: "byte \<Rightarrow> bytes \<Rightarrow> bytes \<Rightarrow> bytes \<Rightarrow> bytes"
  sl_parse :: "bytes \<Rightarrow> string + (byte \<times> bytes \<times> bytes \<times> bytes)"

definition socks5_request_failed :: "byte \<Rightarrow> string" where
  "socks5_request_failed Rep =
     (let msg = (if Rep = 0x00 then ''succeeded''
                 else if Rep = 0x01 then ''general SOCKS server failure''
                 else if Rep = 0x02 then ''connection not allowed by ruleset''
                 else if Rep = 0x03 then ''Network unreachable''
                 else if Rep = 0x04 then ''Host unreachable''
                 else if Rep = 0x05 then ''Connection refused''
                 else if Rep = 0x06 then ''TTL expired''
                 else if Rep = 0x07 then ''Command not supported''
                 else if Rep = 0x08 then ''Address type not supported''
                 else ''undefined'')
      in ''SOCKS5 request failed: '' @ msg @ '' ('' @ dec_digits (unat Rep) @ '')'')"

definition socks5_unsupported_method :: "byte \<Rightarrow> string" where
  "socks5_unsupported_method Method = ''unsupported SOCKS5 authentication method: '' @ dec_digits (unat Method)"

definition addrExToSOCKS5Addr :: "AddrEx \<Rightarrow> byte \<times> bytes \<times> bytes" where
  "addrExToSOCKS5Addr addr =
     (let dstPort = be16 (word_of_int (ax_Port addr))
      in case ParseIP (ax_Host addr) of
           Some ip \<Rightarrow> (case To4 ip of Some p \<Rightarrow> (ATYPIPv4, p, dstPort) | None \<Rightarrow> (ATYPIPv6, ip, dstPort))
         | None \<Rightarrow> (ATYPDomain, bytes_of_string (ax_Host addr), dstPort))"

text \<open>\<open>None\<close> is a panic: an empty domain, or a port of less than two bytes.\<close>

definition socks5AddrToAddrEx :: "byte \<Rightarrow> bytes \<Rightarrow> bytes \<Rightarrow> AddrEx option" where
  "socks5AddrToAddrEx atyp dstAddr dstPort = do {
     host \<leftarrow> (if atyp = ATYPIPv4 then Some (ip_String (case To4 dstAddr of Some p \<Rightarrow> p | None \<Rightarrow> []))
             else if atyp = ATYPIPv6
             then Some (ip_String (if length dstAddr = 4 then v4InV6Prefix @ dstAddr
                                   else if length dstAddr = 16 then dstAddr else []))
             else if atyp = ATYPDomain
             then (if dstAddr = [] then None else Some (string_of_bytes (drop 1 dstAddr)))
             else Some []);
     (if length dstPort < 2 then None
      else Some \<lparr>ax_Host = host, ax_Port = uint (un_be16 (dstPort ! 0) (dstPort ! 1)), ax_ResolveInfo = None\<rparr>)
   }"

section \<open>The SOCKS5 outbound\<close>

record socks5Outbound =
  so_Addr :: string
  so_Username :: string
  so_Password :: string

text \<open>
  What one call meets: the dial, the calls of \<open>SetDeadline\<close> and \<open>Write\<close> by number, the proxy's
  replies (the method, the status, the code with the address), and the dial of the UDP socket.
\<close>

record socks5_world =
  sa_dial :: "string + nat"
  sa_deadline :: "nat \<Rightarrow> string option"
  sa_write :: "nat \<Rightarrow> string option"
  sa_method :: "string + byte"
  sa_status :: "string + byte"
  sa_reply :: "string + (byte \<times> string)"
  sa_udp :: "string \<Rightarrow> string + nat"

text \<open>The answer to username and password.\<close>

definition userpass_negotiation ::
  "socks5_lib \<Rightarrow> socks5Outbound \<Rightarrow> socks5_world \<Rightarrow> nat \<Rightarrow> px_effect list \<times> string option" where
  "userpass_negotiation lib so wd conn =
     (let es = [Px_Wrote conn (sl_userpass lib (bytes_of_string (so_Username so)) (bytes_of_string (so_Password so)))]
      in case sa_write wd 1 of
           Some err \<Rightarrow> (es, Some err)
         | None \<Rightarrow>
             (case sa_status wd of
                Inl err \<Rightarrow> (es, Some err)
              | Inr status \<Rightarrow> (es, if status \<noteq> 0 then Some ''SOCKS5 authentication failed'' else None)))"

text \<open>From the connection on; an error closes it.\<close>

definition socks5_negotiate ::
  "socks5_lib \<Rightarrow> socks5Outbound \<Rightarrow> socks5_world \<Rightarrow> nat \<Rightarrow> px_effect list \<times> string option" where
  "socks5_negotiate lib so wd conn =
     (case sa_deadline wd 0 of
        Some err \<Rightarrow> ([], Some err)
      | None \<Rightarrow>
          (let authMethods = [MethodNone] @
                 (if so_Username so \<noteq> [] \<and> so_Password so \<noteq> [] then [MethodUsernamePassword] else []);
               es = [Px_Wrote conn (sl_negotiation lib authMethods)]
           in case sa_write wd 0 of
                Some err \<Rightarrow> (es, Some err)
              | None \<Rightarrow>
                  (case sa_method wd of
                     Inl err \<Rightarrow> (es, Some err)
                   | Inr Method \<Rightarrow>
                       (case (if Method = MethodUsernamePassword then userpass_negotiation lib so wd conn
                              else if Method \<noteq> MethodNone then ([], Some (socks5_unsupported_method Method))
                              else ([], None)) of
                          (es', Some err) \<Rightarrow> (es @ es', Some err)
                        | (es', None) \<Rightarrow> (es @ es', sa_deadline wd 1)))))"

definition dialAndNegotiate ::
  "socks5_lib \<Rightarrow> socks5Outbound \<Rightarrow> socks5_world \<Rightarrow> px_effect list \<times> (string + nat)" where
  "dialAndNegotiate lib so wd =
     (case sa_dial wd of
        Inl err \<Rightarrow> ([], Inl err)
      | Inr conn \<Rightarrow>
          (case socks5_negotiate lib so wd conn of
             (es, Some err) \<Rightarrow> ([Px_Opened conn] @ es @ [Px_Closed conn], Inl err)
           | (es, None) \<Rightarrow> ([Px_Opened conn] @ es, Inr conn)))"

text \<open>The reply's address.\<close>

definition socks5_request ::
  "socks5_world \<Rightarrow> nat \<Rightarrow> bytes \<Rightarrow> px_effect list \<times> (string + string)" where
  "socks5_request wd conn req =
     (case sa_deadline wd 2 of
        Some err \<Rightarrow> ([], Inl err)
      | None \<Rightarrow>
          (let es = [Px_Wrote conn req]
           in case sa_write wd 2 of
                Some err \<Rightarrow> (es, Inl err)
              | None \<Rightarrow>
                  (case sa_reply wd of
                     Inl err \<Rightarrow> (es, Inl err)
                   | Inr (Rep, addr) \<Rightarrow>
                       if Rep \<noteq> 0 then (es, Inl (socks5_request_failed Rep))
                       else (case sa_deadline wd 3 of Some err \<Rightarrow> (es, Inl err) | None \<Rightarrow> (es, Inr addr)))))"

definition socks5_TCP ::
  "socks5_lib \<Rightarrow> socks5Outbound \<Rightarrow> socks5_world \<Rightarrow> AddrEx \<Rightarrow> px_effect list \<times> (string + nat)" where
  "socks5_TCP lib so wd reqAddr =
     (case dialAndNegotiate lib so wd of
        (es, Inl err) \<Rightarrow> (es, Inl err)
      | (es, Inr conn) \<Rightarrow>
          (case addrExToSOCKS5Addr reqAddr of
             (atyp, dstAddr, dstPort) \<Rightarrow>
               (case socks5_request wd conn (sl_request lib CmdConnect atyp dstAddr dstPort) of
                  (es', Inl err) \<Rightarrow> (es @ es' @ [Px_Closed conn], Inl err)
                | (es', Inr _) \<Rightarrow> (es @ es', Inr conn))))"

definition socks5_CheckUDP :: "AddrEx \<Rightarrow> string option" where
  "socks5_CheckUDP reqAddr = None"

section \<open>UDP through SOCKS5\<close>

record socks5UDPConn =
  su_tcpConn :: nat
  su_udpConn :: nat

definition newSOCKS5UDPConn ::
  "socks5_world \<Rightarrow> nat \<Rightarrow> string \<Rightarrow> px_effect list \<times> (string + socks5UDPConn)" where
  "newSOCKS5UDPConn wd tcpConn udpAddr =
     (case sa_udp wd udpAddr of
        Inl err \<Rightarrow> ([], Inl err)
      | Inr udpConn \<Rightarrow> ([Px_Opened udpConn], Inr \<lparr>su_tcpConn = tcpConn, su_udpConn = udpConn\<rparr>))"

definition socks5_UDP ::
  "socks5_lib \<Rightarrow> socks5Outbound \<Rightarrow> socks5_world \<Rightarrow> AddrEx \<Rightarrow> px_effect list \<times> (string + socks5UDPConn)" where
  "socks5_UDP lib so wd reqAddr =
     (case dialAndNegotiate lib so wd of
        (es, Inl err) \<Rightarrow> (es, Inl err)
      | (es, Inr conn) \<Rightarrow>
          (case socks5_request wd conn (sl_request lib CmdUDP ATYPIPv4 [0, 0, 0, 0] [0, 0]) of
             (es', Inl err) \<Rightarrow> (es @ es' @ [Px_Closed conn], Inl err)
           | (es', Inr addr) \<Rightarrow>
               (case newSOCKS5UDPConn wd conn addr of (es'', r) \<Rightarrow> (es @ es' @ es'', r))))"

text \<open>\<open>hold\<close>, once the TCP connection has nothing more to read, and \<open>Close\<close>.\<close>

definition socks5_hold :: "socks5UDPConn \<Rightarrow> px_effect list" where
  "socks5_hold c = [Px_Closed (su_tcpConn c), Px_Closed (su_udpConn c)]"

definition socks5_Close :: "socks5UDPConn \<Rightarrow> px_effect list" where
  "socks5_Close c = [Px_Closed (su_tcpConn c), Px_Closed (su_udpConn c)]"

text \<open>\<open>b\<close> is the caller's buffer, and \<open>d\<close> what the socket has for it; the inner result has the buffer.\<close>

definition socks5_ReadFrom ::
  "socks5_lib \<Rightarrow> string + bytes \<Rightarrow> bytes \<Rightarrow> (string + bytes \<times> nat \<times> AddrEx) option" where
  "socks5_ReadFrom lib d b =
     (case d of
        Inl err \<Rightarrow> Some (Inl err)
      | Inr d \<Rightarrow>
          (let n = min (length b) (length d); b = take n d @ drop n b
           in case sl_parse lib (take n b) of
                Inl err \<Rightarrow> Some (Inl err)
              | Inr (Atyp, DstAddr, DstPort, Data) \<Rightarrow> do {
                  addr \<leftarrow> socks5AddrToAddrEx Atyp DstAddr DstPort;
                  (b, n) \<leftarrow> copy_at b 0 Data;
                  Some (Inr (b, n, addr))
                }))"

definition socks5_WriteTo ::
  "socks5_lib \<Rightarrow> (bytes \<Rightarrow> string option) \<Rightarrow> bytes \<Rightarrow> AddrEx \<Rightarrow> string + nat" where
  "socks5_WriteTo lib write b addr =
     (case addrExToSOCKS5Addr addr of
        (atyp, dstAddr, dstPort) \<Rightarrow>
          (case write (sl_datagram lib atyp dstAddr dstPort b) of Some err \<Rightarrow> Inl err | None \<Rightarrow> Inr (length b)))"

section \<open>What a SOCKS5 call leaves open\<close>

lemma px_live_append: "px_live cs (es @ es') = px_live (px_live cs es) es'"
  by (induction cs es rule: px_live.induct) auto

lemma userpass_live: "userpass_negotiation lib so wd conn = (es, r) \<Longrightarrow> px_live cs es = cs"
  by (auto simp: userpass_negotiation_def Let_def split: option.splits sum.splits)

lemma negotiate_live:
  assumes "socks5_negotiate lib so wd conn = (es, r)"
  shows "px_live cs es = cs"
proof -
  obtain es1 r1 where u: "userpass_negotiation lib so wd conn = (es1, r1)" by fastforce
  show ?thesis
    using assms userpass_live [OF u]
    by (auto simp: socks5_negotiate_def u Let_def px_live_append split: option.splits sum.splits if_splits)
qed

lemma dial_live:
  assumes "dialAndNegotiate lib so wd = (es, r)"
  shows "px_live {} es = (case r of Inl _ \<Rightarrow> {} | Inr conn \<Rightarrow> {conn})"
proof (cases "sa_dial wd")
  case (Inr conn)
  obtain es1 r1 where n: "socks5_negotiate lib so wd conn = (es1, r1)" by fastforce
  have "es = [Px_Opened conn] @ es1 @ (case r1 of None \<Rightarrow> [] | Some _ \<Rightarrow> [Px_Closed conn])"
    "r = (case r1 of None \<Rightarrow> Inr conn | Some e \<Rightarrow> Inl e)"
    using assms by (auto simp: dialAndNegotiate_def Inr n split: option.splits)
  then show ?thesis using negotiate_live [OF n] by (auto simp: px_live_append split: option.split)
qed (use assms in \<open>auto simp: dialAndNegotiate_def split: sum.splits\<close>)

lemma request_live: "socks5_request wd conn req = (es, r) \<Longrightarrow> px_live cs es = cs"
  by (auto simp: socks5_request_def Let_def split: option.splits sum.splits if_splits prod.splits)

lemma socks5_TCP_live:
  assumes "socks5_TCP lib so wd a = (es, r)"
  shows "px_live {} es = (case r of Inl _ \<Rightarrow> {} | Inr conn \<Rightarrow> {conn})"
proof -
  obtain es1 r1 where d: "dialAndNegotiate lib so wd = (es1, r1)" by fastforce
  obtain atyp da dp where a: "addrExToSOCKS5Addr a = (atyp, da, dp)" by (metis prod_cases3)
  show ?thesis
  proof (cases r1)
    case (Inr conn)
    obtain es2 r2 where q: "socks5_request wd conn (sl_request lib CmdConnect atyp da dp) = (es2, r2)" by fastforce
    show ?thesis using assms dial_live [OF d] request_live [OF q] Inr
      by (auto simp: socks5_TCP_def d a q px_live_append split: sum.splits)
  qed (use assms dial_live [OF d] in \<open>auto simp: socks5_TCP_def d\<close>)
qed

text \<open>A UDP request leaves the connection to the proxy open when the proxy's UDP address cannot be dialed.\<close>

lemma socks5_UDP_live:
  assumes "socks5_UDP lib so wd a = (es, r)"
  shows "case r of
      Inr c \<Rightarrow> px_live {} es = {su_tcpConn c, su_udpConn c} \<and> px_live {} (es @ socks5_Close c) = {}
    | Inl _ \<Rightarrow> px_live {} es = {} \<or>
        (\<exists>conn addr err. px_live {} es = {conn} \<and> sa_reply wd = Inr (0, addr) \<and> sa_udp wd addr = Inl err)"
proof -
  obtain es1 r1 where d: "dialAndNegotiate lib so wd = (es1, r1)" by fastforce
  show ?thesis
  proof (cases r1)
    case (Inr conn)
    obtain es2 r2 where q: "socks5_request wd conn (sl_request lib CmdUDP ATYPIPv4 [0, 0, 0, 0] [0, 0]) = (es2, r2)"
      by fastforce
    then have rep: "r2 = Inr addr \<Longrightarrow> sa_reply wd = Inr (0, addr)" for addr
      by (auto simp: socks5_request_def Let_def split: option.splits sum.splits if_splits prod.splits)
    show ?thesis using assms dial_live [OF d] request_live [OF q] Inr rep
      by (auto simp: socks5_UDP_def d q px_live_append newSOCKS5UDPConn_def socks5_Close_def split: sum.splits)
  qed (use assms dial_live [OF d] in \<open>auto simp: socks5_UDP_def d\<close>)
qed

definition silent_lib :: socks5_lib where
  "silent_lib = \<lparr>sl_negotiation = id, sl_userpass = (@), sl_request = (\<lambda>c t a p. c # t # a @ p),
     sl_datagram = (\<lambda>t a p d. t # a @ p @ d), sl_parse = (\<lambda>_. Inl ''short'')\<rparr>"

definition leaking_world :: socks5_world where
  "leaking_world = \<lparr>sa_dial = Inr 7, sa_deadline = (\<lambda>_. None), sa_write = (\<lambda>_. None), sa_method = Inr 0,
     sa_status = Inr 0, sa_reply = Inr (0, ''bad''), sa_udp = (\<lambda>_. Inl ''dial'')\<rparr>"

lemma socks5_UDP_leaks:
  "case socks5_UDP silent_lib \<lparr>so_Addr = ''p:1080'', so_Username = [], so_Password = []\<rparr> leaking_world a of
     (es, r) \<Rightarrow> r = Inl ''dial'' \<and> px_live {} es = {7}"
  by (simp add: socks5_UDP_def dialAndNegotiate_def socks5_negotiate_def socks5_request_def newSOCKS5UDPConn_def
      leaking_world_def silent_lib_def MethodNone_def MethodUsernamePassword_def)

text \<open>Credentials are only sent to a proxy that asks for them.\<close>

lemma socks5_credentials:
  assumes "socks5_negotiate lib so wd conn = (es, r)" "Px_Wrote conn b \<in> set es"
  shows "b = sl_negotiation lib (if so_Username so \<noteq> [] \<and> so_Password so \<noteq> [] then [0, 2] else [0]) \<or>
    sa_method wd = Inr 2"
  using assms
  by (auto simp: socks5_negotiate_def userpass_negotiation_def MethodNone_def MethodUsernamePassword_def Let_def
      split: option.splits sum.splits if_splits)

section \<open>Addresses on the SOCKS5 wire\<close>

text \<open>
  The library's contract for datagrams: what is sent is parsed back, a domain with its length in
  front, which is a byte.
\<close>

definition datagrams_ok :: "socks5_lib \<Rightarrow> bool" where
  "datagrams_ok lib \<longleftrightarrow>
     (\<forall>t a p d. length p = 2 \<longrightarrow>
        (t = ATYPIPv4 \<and> length a = 4 \<or> t = ATYPIPv6 \<and> length a = 16 \<longrightarrow>
           sl_parse lib (sl_datagram lib t a p d) = Inr (t, a, p, d)) \<and>
        (t = ATYPDomain \<and> 0 < length a \<and> length a < 256 \<longrightarrow>
           sl_parse lib (sl_datagram lib t a p d) = Inr (t, word_of_nat (length a) # a, p, d)))"

definition socks5_host :: "string \<Rightarrow> string" where
  "socks5_host h = (case ParseIP h of None \<Rightarrow> h | Some ip \<Rightarrow> ip_String ip)"

lemma ParseIP_16: "ParseIP h = Some ip \<Longrightarrow> length ip = 16"
  by (rule ParseIP_length)

lemma ip_String_To4: "To4 ip = Some p \<Longrightarrow> ip_String p = ip_String ip"
proof -
  assume p: "To4 ip = Some p"
  then have l: "length p = 4" "length ip = 4 \<or> length ip = 16" by (auto simp: To4_def split: if_splits)
  then have "To4 p = Some p" "p \<noteq> []" "ip \<noteq> []" by (auto simp: To4_def)
  then show ?thesis using p l by (auto simp: ip_String_def)
qed

lemma port_be16: "0 \<le> p \<Longrightarrow> p < 65536 \<Longrightarrow> uint (un_be16 (be16 (word_of_int p) ! 0) (be16 (word_of_int p) ! 1)) = p"
  by (simp add: be16_def uint_word_of_int)

lemma socks5_addr_back:
  assumes "addrExToSOCKS5Addr a = (t, da, dp)" "port_ok (ax_Port a)"
  shows "socks5AddrToAddrEx t (if t = ATYPDomain then l # da else da) dp =
      Some \<lparr>ax_Host = socks5_host (ax_Host a), ax_Port = ax_Port a, ax_ResolveInfo = None\<rparr> \<and>
    length dp = 2 \<and>
    (t = ATYPIPv4 \<and> length da = 4 \<or> t = ATYPIPv6 \<and> length da = 16 \<or> t = ATYPDomain \<and> length da = length (ax_Host a))"
proof -
  have p: "dp = be16 (word_of_int (ax_Port a))" using assms(1)
    by (auto simp: addrExToSOCKS5Addr_def Let_def split: option.splits)
  have dp: "length dp = 2" "uint (un_be16 (dp ! 0) (dp ! 1)) = ax_Port a"
    using assms(2) port_be16 [of "ax_Port a"] by (simp_all add: p port_ok_def)
  note types = ATYPIPv4_def ATYPIPv6_def ATYPDomain_def
  show ?thesis
  proof (cases "ParseIP (ax_Host a)")
    case None
    then show ?thesis using assms(1) dp
      by (auto simp: addrExToSOCKS5Addr_def socks5AddrToAddrEx_def socks5_host_def Let_def types)
  next
    case ip: (Some ip)
    note l = ParseIP_16 [OF ip]
    show ?thesis
    proof (cases "To4 ip")
      case None
      then show ?thesis using assms(1) dp ip l
        by (auto simp: addrExToSOCKS5Addr_def socks5AddrToAddrEx_def socks5_host_def Let_def types)
    next
      case (Some q)
      then have "To4 q = Some q" "length q = 4" by (auto simp: To4_def split: if_splits)
      then show ?thesis using assms(1) dp ip l Some ip_String_To4 [OF Some]
        by (auto simp: addrExToSOCKS5Addr_def socks5AddrToAddrEx_def socks5_host_def Let_def types)
    qed
  qed
qed

lemma datagrams_okD:
  assumes "datagrams_ok lib" "length p = 2"
    and "t = ATYPIPv4 \<and> length a = 4 \<or> t = ATYPIPv6 \<and> length a = 16 \<or>
      t = ATYPDomain \<and> 0 < length a \<and> length a < 256"
  shows "sl_parse lib (sl_datagram lib t a p d) = Inr (t, (if t = ATYPDomain then word_of_nat (length a) # a else a), p, d)"
proof -
  have n: "ATYPIPv4 \<noteq> ATYPDomain" "ATYPIPv6 \<noteq> ATYPDomain" by (simp_all add: ATYPIPv4_def ATYPIPv6_def ATYPDomain_def)
  note D = assms(1) [unfolded datagrams_ok_def, THEN spec [of _ t], THEN spec [of _ a], THEN spec [of _ p],
      THEN spec [of _ d], rule_format, OF assms(2)]
  show ?thesis
  proof (cases "t = ATYPDomain")
    case True
    then show ?thesis using assms(3) n conjunct2 [OF D] by fastforce
  next
    case False
    then show ?thesis using assms(3) conjunct1 [OF D] by auto
  qed
qed

text \<open>A datagram that the proxy echoes is read back with its address, an IP in its printed form.\<close>

lemma socks5_udp_roundtrip:
  assumes "datagrams_ok lib" "port_ok (ax_Port a)" "0 < length (ax_Host a)" "length (ax_Host a) < 256"
    and "addrExToSOCKS5Addr a = (t, da, dp)" "w = sl_datagram lib t da dp d"
    and "length w \<le> length b" "length d \<le> length b"
  shows "socks5_WriteTo lib (\<lambda>w'. if w' = w then None else Some e) d a = Inr (length d) \<and>
    (\<exists>b'. socks5_ReadFrom lib (Inr w) b =
       Some (Inr (b', length d, \<lparr>ax_Host = socks5_host (ax_Host a), ax_Port = ax_Port a, ax_ResolveInfo = None\<rparr>)) \<and>
       take (length d) b' = d)"
proof -
  note B = socks5_addr_back [OF assms(5,2), of "word_of_nat (length da)"]
  have "t = ATYPIPv4 \<and> length da = 4 \<or> t = ATYPIPv6 \<and> length da = 16 \<or>
      t = ATYPDomain \<and> 0 < length da \<and> length da < 256"
    using B assms(3,4) by (metis (no_types))
  note parse = datagrams_okD [OF assms(1) conjunct1 [OF conjunct2 [OF B]] this, of d, folded assms(6)]
  note addr = conjunct1 [OF B]
  let ?b = "w @ drop (length w) b"
  have b: "take (min (length b) (length w)) w @ drop (min (length b) (length w)) b = ?b"
    "min (length b) (length w) = length w" using assms(7) by (simp_all add: min_absorb2)
  have "copy_at ?b 0 d = Some (d @ drop (length d) ?b, length d)"
    using assms(7,8) by (simp add: copy_at_def min_absorb1 Let_def)
  then have "socks5_ReadFrom lib (Inr w) b = Some (Inr (d @ drop (length d) ?b, length d,
      \<lparr>ax_Host = socks5_host (ax_Host a), ax_Port = ax_Port a, ax_ResolveInfo = None\<rparr>))"
    unfolding socks5_ReadFrom_def sum.case Let_def b(1) unfolding b(2) by (simp add: parse addr)
  moreover have "socks5_WriteTo lib (\<lambda>w'. if w' = w then None else Some e) d a = Inr (length d)"
    using assms(6) by (simp add: socks5_WriteTo_def assms(5))
  ultimately show ?thesis by auto
qed

section \<open>The HTTP outbound\<close>

text \<open>A parsed URL, and the outbound made of it.\<close>

record proxyURL =
  pu_Scheme :: string
  pu_Host :: string
  pu_Port :: string
  pu_Hostname :: string
  pu_User :: "(string \<times> string) option"

record httpOutbound =
  ho_Addr :: string
  ho_HTTPS :: bool
  ho_Insecure :: bool
  ho_ServerName :: string
  ho_BasicAuth :: string

definition errHTTPUDPNotSupported :: string where "errHTTPUDPNotSupported = ''UDP not supported by HTTP proxy''"
definition errHTTPUnsupportedScheme :: string where
  "errHTTPUnsupportedScheme = ''unsupported scheme for HTTP proxy (use http:// or https://)''"

definition errHTTPRequestFailed :: "nat \<Rightarrow> string" where
  "errHTTPRequestFailed Status = ''HTTP request failed: '' @ dec_digits Status"

definition NewHTTPOutbound ::
  "(string \<Rightarrow> string + proxyURL) \<Rightarrow> (bytes \<Rightarrow> string) \<Rightarrow> string \<Rightarrow> bool \<Rightarrow> string + httpOutbound" where
  "NewHTTPOutbound parse b64 proxyURL insecure =
     (case parse proxyURL of
        Inl err \<Rightarrow> Inl err
      | Inr u \<Rightarrow>
          if pu_Scheme u \<noteq> ''http'' \<and> pu_Scheme u \<noteq> ''https'' then Inl errHTTPUnsupportedScheme
          else (let addr = (if pu_Port u = []
                            then JoinHostPort (pu_Host u) (if pu_Scheme u = ''http'' then ''80'' else ''443'')
                            else pu_Host u);
                    basicAuth = (case pu_User u of
                      None \<Rightarrow> [] | Some (username, password) \<Rightarrow>
                        ''Basic '' @ b64 (bytes_of_string (username @ '':'' @ password)))
                in Inr \<lparr>ho_Addr = addr, ho_HTTPS = (pu_Scheme u = ''https''), ho_Insecure = insecure,
                        ho_ServerName = pu_Hostname u, ho_BasicAuth = basicAuth\<rparr>))"

text \<open>The host and the headers of the CONNECT request.\<close>

definition addrExToRequest :: "httpOutbound \<Rightarrow> AddrEx \<Rightarrow> string \<times> (string \<times> string) list" where
  "addrExToRequest ho reqAddr =
     (JoinHostPort (ax_Host reqAddr) (dec_digits (nat (ax_Port reqAddr))),
      [(''Proxy-Connection'', ''Keep-Alive'')] @
      (if ho_BasicAuth ho \<noteq> [] then [(''Proxy-Authorization'', ho_BasicAuth ho)] else []))"

text \<open>
  What a call meets.  \<open>hw_stream\<close> is what the proxy sends; \<open>hw_response\<close> says of a stream the error,
  or the status and the length of the response; \<open>hw_buffered\<close> how many bytes behind the response
  the buffered reader has got already.
\<close>

record http_world =
  hw_dial :: "string \<Rightarrow> string + nat"
  hw_write :: "string option"
  hw_deadline :: "nat \<Rightarrow> string option"
  hw_stream :: bytes
  hw_response :: "bytes \<Rightarrow> string + (nat \<times> nat)"
  hw_buffered :: nat

text \<open>A connection: what it has cached, and what is still to be read from the network.\<close>

record cachedConn =
  cc_Conn :: nat
  cc_Buffer :: bytes
  cc_stream :: bytes

definition http_dial :: "httpOutbound \<Rightarrow> http_world \<Rightarrow> string + nat" where
  "http_dial ho wd = hw_dial wd (ho_Addr ho)"

definition http_TCP ::
  "httpOutbound \<Rightarrow> http_world \<Rightarrow> AddrEx \<Rightarrow> px_effect list \<times> (string + cachedConn)" where
  "http_TCP ho wd reqAddr =
     (case addrExToRequest ho reqAddr of (host, headers) \<Rightarrow>
      case http_dial ho wd of
        Inl err \<Rightarrow> ([], Inl err)
      | Inr conn \<Rightarrow>
          (let es = [Px_Opened conn, Px_Request conn host headers]; closed = es @ [Px_Closed conn]
           in case hw_write wd of
                Some err \<Rightarrow> (closed, Inl err)
              | None \<Rightarrow>
              case hw_deadline wd 0 of
                Some err \<Rightarrow> (closed, Inl err)
              | None \<Rightarrow>
              case hw_response wd (hw_stream wd) of
                Inl err \<Rightarrow> (closed, Inl err)
              | Inr (status, len) \<Rightarrow>
              if status \<noteq> 200 then (closed, Inl (errHTTPRequestFailed status))
              else case hw_deadline wd 1 of
                Some err \<Rightarrow> (closed, Inl err)
              | None \<Rightarrow>
                  (let rest = drop len (hw_stream wd); data = take (hw_buffered wd) rest
                   in (es, Inr \<lparr>cc_Conn = conn, cc_Buffer = data, cc_stream = drop (length data) rest\<rparr>))))"

definition http_UDP :: "AddrEx \<Rightarrow> string + nat" where "http_UDP reqAddr = Inl errHTTPUDPNotSupported"
definition http_CheckUDP :: "AddrEx \<Rightarrow> string option" where "http_CheckUDP reqAddr = Some errHTTPUDPNotSupported"

text \<open>One \<open>Read\<close> into a buffer of \<open>len\<close>, when the network has \<open>got\<close> bytes.\<close>

definition cached_Read :: "nat \<Rightarrow> nat \<Rightarrow> cachedConn \<Rightarrow> cachedConn \<times> bytes" where
  "cached_Read len got c =
     (if cc_Buffer c \<noteq> [] then (c\<lparr>cc_Buffer := drop len (cc_Buffer c)\<rparr>, take len (cc_Buffer c))
      else (let d = take (min len got) (cc_stream c) in (c\<lparr>cc_stream := drop (length d) (cc_stream c)\<rparr>, d)))"

fun cached_reads :: "(nat \<times> nat) list \<Rightarrow> cachedConn \<Rightarrow> cachedConn \<times> bytes" where
  "cached_reads [] c = (c, [])"
| "cached_reads ((len, got) # rs) c =
     (case cached_Read len got c of (c, d) \<Rightarrow> (case cached_reads rs c of (c, ds) \<Rightarrow> (c, d @ ds)))"

lemma cached_reads_keep:
  "cached_reads rs c = (c', d) \<Longrightarrow> d @ cc_Buffer c' @ cc_stream c' = cc_Buffer c @ cc_stream c"
proof (induction rs arbitrary: c c' d)
  case (Cons r rs)
  obtain len got where r: "r = (len, got)" by fastforce
  obtain c1 d1 where 1: "cached_Read len got c = (c1, d1)" by fastforce
  obtain c2 d2 where 2: "cached_reads rs c1 = (c2, d2)" by fastforce
  have "d1 @ cc_Buffer c1 @ cc_stream c1 = cc_Buffer c @ cc_stream c"
  proof (cases "cc_Buffer c = []")
    case True
    define k where "k = min len got"
    have "take k (cc_stream c) @ drop (length (take k (cc_stream c))) (cc_stream c) = cc_stream c"
      by (cases "k \<le> length (cc_stream c)") simp_all
    then show ?thesis using True 1 by (auto simp: cached_Read_def Let_def k_def)
  qed (use 1 in \<open>auto simp: cached_Read_def\<close>)
  then show ?case using Cons.IH [OF 2] Cons.prems r 1 2 by auto
qed simp

text \<open>
  Whatever the proxy answers and however much of it was read ahead: a call that fails leaves no
  connection open, and one that does not returns a connection on which the caller reads exactly the
  bytes behind the response.
\<close>

lemma http_conn_transparent:
  assumes "http_TCP ho wd a = (es, r)"
  shows "case r of
      Inl _ \<Rightarrow> px_live {} es = {}
    | Inr c \<Rightarrow> px_live {} es = {cc_Conn c} \<and>
        (\<exists>len. hw_response wd (hw_stream wd) = Inr (200, len) \<and>
           (\<forall>rs c' d. cached_reads rs c = (c', d) \<longrightarrow> d @ cc_Buffer c' @ cc_stream c' = drop len (hw_stream wd)))"
proof (cases r)
  case (Inl e)
  then show ?thesis using assms
    by (auto simp: http_TCP_def Let_def split: prod.splits sum.splits option.splits if_splits)
next
  case (Inr c)
  then obtain conn host headers len where
    "hw_response wd (hw_stream wd) = Inr (200, len)" "es = [Px_Opened conn, Px_Request conn host headers]"
    and c: "c = \<lparr>cc_Conn = conn, cc_Buffer = take (hw_buffered wd) (drop len (hw_stream wd)),
      cc_stream = drop (length (take (hw_buffered wd) (drop len (hw_stream wd)))) (drop len (hw_stream wd))\<rparr>"
    using assms by (auto simp: http_TCP_def Let_def split: prod.splits sum.splits option.splits if_splits)
  moreover have "take k s @ drop (length (take k s)) s = s" for k and s :: bytes
    by (cases "k \<le> length s") simp_all
  then have "cc_Buffer c @ cc_stream c = drop len (hw_stream wd)" unfolding c by (simp only: cachedConn.simps)
  moreover have "cc_Conn c = conn" by (simp add: c)
  ultimately show ?thesis using cached_reads_keep [of _ c] unfolding Inr by simp
qed

text \<open>An IPv6 proxy without a port gets an address that cannot be dialed: its brackets are doubled.\<close>

lemma http_ipv6_proxy:
  assumes "pu_Host u = ''[::1]''" "pu_Port u = []" "pu_Scheme u = ''http''"
  shows "\<exists>ho. NewHTTPOutbound (\<lambda>_. Inr u) b64 url insecure = Inr ho \<and> ho_Addr ho = ''[[::1]]:80'' \<and>
    SplitHostPort (ho_Addr ho) = None"
proof -
  have "SplitHostPort ''[[::1]]:80'' = None" by code_simp
  then show ?thesis using assms by (simp add: NewHTTPOutbound_def JoinHostPort_def Let_def)
qed

end
