(* ===== verification/Speedtest.thy ===== *)
theory Speedtest
  imports Outbound_Addr
begin

text \<open>
  \<open>extras/outbounds/speedtest.go\<close> and \<open>extras/outbounds/speedtest\<close>: the outbound that answers requests for
  \<open>@SpeedTest\<close> itself, the protocol spoken behind it, its server and its client.

  A connection's input is the bytes the peer sends.  How much a \<open>Read\<close> gets and whether it fails, a
  list with an entry for each read, and the errors of the writes are arguments, and so is the time
  that has passed.  While the list has not ended a loop the result is \<open>None\<close>: the call is waiting.
\<close>

datatype sp_error = SP_EOF | SP_UnexpectedEOF | SP_Timeout | SP_Error string

definition typeDownload :: byte where "typeDownload = 0x1"
definition typeUpload :: byte where "typeUpload = 0x2"

section \<open>Messages\<close>

text \<open>\<open>io.ReadFull\<close> with the errors of this theory, and \<open>binary.Read\<close> of an integer.\<close>

definition sp_ReadFull :: "nat \<Rightarrow> bytes \<Rightarrow> sp_error + bytes \<times> bytes" where
  "sp_ReadFull n s =
     (if n \<le> length s then Inr (take n s, drop n s) else Inl (if s = [] then SP_EOF else SP_UnexpectedEOF))"

definition read_u32 :: "bytes \<Rightarrow> sp_error + u32 \<times> bytes" where
  "read_u32 r = map_sum id (\<lambda>(b, r). (un_be32 (b ! 0) (b ! 1) (b ! 2) (b ! 3), r)) (sp_ReadFull 4 r)"

definition read_u16 :: "bytes \<Rightarrow> sp_error + u16 \<times> bytes" where
  "read_u16 r = map_sum id (\<lambda>(b, r). (un_be16 (b ! 0) (b ! 1), r)) (sp_ReadFull 2 r)"

definition readDownloadRequest :: "bytes \<Rightarrow> sp_error + u32 \<times> bytes" where "readDownloadRequest r = read_u32 r"
definition readUploadRequest :: "bytes \<Rightarrow> sp_error + u32 \<times> bytes" where "readUploadRequest r = read_u32 r"

definition writeDownloadRequest :: "u32 \<Rightarrow> bytes" where "writeDownloadRequest l = typeDownload # be32 l"
definition writeUploadRequest :: "u32 \<Rightarrow> bytes" where "writeUploadRequest l = typeUpload # be32 l"

text \<open>Both responses have the same form.\<close>

definition readResponse :: "bytes \<Rightarrow> sp_error + (bool \<times> string) \<times> bytes" where
  "readResponse r =
     (case sp_ReadFull 1 r of
        Inl err \<Rightarrow> Inl err
      | Inr (status, r) \<Rightarrow>
          (case read_u16 r of
             Inl err \<Rightarrow> Inl err
           | Inr (msgLen, r) \<Rightarrow>
               if msgLen = 0 then Inr ((status ! 0 = 0, []), r)
               else (case sp_ReadFull (unat msgLen) r of
                       Inl err \<Rightarrow> Inl err
                     | Inr (msgBuf, r) \<Rightarrow> Inr ((status ! 0 = 0, string_of_bytes msgBuf), r))))"

definition writeResponse :: "bool \<Rightarrow> string \<Rightarrow> bytes" where
  "writeResponse ok msg = (if ok then 0 else 1) # be16 (word_of_nat (length msg)) @ bytes_of_string msg"

definition readDownloadResponse :: "bytes \<Rightarrow> sp_error + (bool \<times> string) \<times> bytes" where
  [simp]: "readDownloadResponse r = readResponse r"
definition readUploadResponse :: "bytes \<Rightarrow> sp_error + (bool \<times> string) \<times> bytes" where
  [simp]: "readUploadResponse r = readResponse r"
definition writeDownloadResponse :: "bool \<Rightarrow> string \<Rightarrow> bytes" where
  [simp]: "writeDownloadResponse ok msg = writeResponse ok msg"
definition writeUploadResponse :: "bool \<Rightarrow> string \<Rightarrow> bytes" where
  [simp]: "writeUploadResponse ok msg = writeResponse ok msg"

text \<open>The summary has milliseconds; a duration is in nanoseconds.\<close>

definition readUploadSummary :: "bytes \<Rightarrow> sp_error + (int \<times> u32) \<times> bytes" where
  "readUploadSummary r =
     (case read_u32 r of
        Inl err \<Rightarrow> Inl err
      | Inr (duration, r) \<Rightarrow>
          (case read_u32 r of
             Inl err \<Rightarrow> Inl err
           | Inr (l, r) \<Rightarrow> Inr ((uint duration * 1000000, l), r)))"

definition writeUploadSummary :: "int \<Rightarrow> u32 \<Rightarrow> bytes" where
  "writeUploadSummary duration l = be32 (word_of_int (quot duration 1000000)) @ be32 l"

section \<open>The server\<close>

definition chunkSize :: u32 where "chunkSize = 64 * 1024"

text \<open>What the server writes, and its error; \<open>werr k\<close> is the error of the \<open>k\<close>-th write.\<close>

function download_loop :: "(nat \<Rightarrow> sp_error option) \<Rightarrow> bytes \<Rightarrow> nat \<Rightarrow> u32 \<Rightarrow> bytes \<times> sp_error option" where
  "download_loop werr buf k remaining =
     (if remaining = 0 then ([], None)
      else (let n = (if remaining > chunkSize then chunkSize else remaining)
            in case werr k of
                 Some err \<Rightarrow> ([], Some err)
               | None \<Rightarrow>
                   (case download_loop werr buf (Suc k) (remaining - n) of (out, r) \<Rightarrow> (take (unat n) buf @ out, r))))"
  by auto
termination
proof (relation "measure (\<lambda>(werr, buf, k, remaining). unat remaining)", goal_cases)
  case (2 werr buf k remaining n)
  have "0 < n" "n \<le> remaining" using 2 by (auto simp: chunkSize_def word_gt_0)
  then have "unat (remaining - n) = unat remaining - unat n" "0 < unat n" "unat n \<le> unat remaining"
    by (simp_all add: unat_sub word_less_nat_alt word_le_nat_alt)
  then show ?case by simp
qed simp

declare download_loop.simps [simp del]

definition handleDownload :: "(nat \<Rightarrow> sp_error option) \<Rightarrow> bytes \<Rightarrow> bytes \<Rightarrow> bytes \<times> sp_error option" where
  "handleDownload werr rnd conn =
     (case readDownloadRequest conn of
        Inl err \<Rightarrow> ([], Some err)
      | Inr (l, conn) \<Rightarrow>
          (case werr 0 of
             Some err \<Rightarrow> ([], Some err)
           | None \<Rightarrow>
               (case download_loop werr rnd 1 l of (out, r) \<Rightarrow> (writeDownloadResponse True ''OK'' @ out, r))))"

text \<open>The upload's reads: the error the loop ends with, and the rest of the input.\<close>

fun upload_loop :: "u32 \<Rightarrow> bytes \<Rightarrow> (nat \<times> sp_error option) list \<Rightarrow> sp_error option option \<times> bytes" where
  "upload_loop remaining conn reads =
     (if remaining = 0 then (Some None, conn)
      else (case reads of
              [] \<Rightarrow> (None, conn)
            | (got, err) # reads \<Rightarrow>
                (let n = (if remaining > chunkSize then chunkSize else remaining);
                     rn = min (min got (unat n)) (length conn);
                     remaining = remaining - word_of_nat rn; conn = drop rn conn
                 in if err \<noteq> None \<and> \<not> (remaining = 0 \<and> err = Some SP_EOF) then (Some err, conn)
                    else upload_loop remaining conn reads)))"

declare upload_loop.simps [simp del]

definition handleUpload ::
  "int \<Rightarrow> (nat \<Rightarrow> sp_error option) \<Rightarrow> bytes \<Rightarrow> (nat \<times> sp_error option) list \<Rightarrow> bytes \<times> sp_error option option" where
  "handleUpload elapsed werr conn reads =
     (case readUploadRequest conn of
        Inl err \<Rightarrow> ([], Some (Some err))
      | Inr (l, conn) \<Rightarrow>
          (case werr 0 of
             Some err \<Rightarrow> ([], Some (Some err))
           | None \<Rightarrow>
               (case upload_loop l conn reads of
                  (None, _) \<Rightarrow> (writeUploadResponse True ''OK'', None)
                | (Some (Some err), _) \<Rightarrow> (writeUploadResponse True ''OK'', Some (Some err))
                | (Some None, _) \<Rightarrow>
                    (case werr 1 of
                       Some err \<Rightarrow> (writeUploadResponse True ''OK'', Some (Some err))
                     | None \<Rightarrow> (writeUploadResponse True ''OK'' @ writeUploadSummary elapsed l, Some None)))))"

definition speedtest_server ::
  "int \<Rightarrow> (nat \<Rightarrow> sp_error option) \<Rightarrow> bytes \<Rightarrow> bytes \<Rightarrow> (nat \<times> sp_error option) list \<Rightarrow> bytes \<times> sp_error option option" where
  "speedtest_server elapsed werr rnd conn reads =
     (case sp_ReadFull 1 conn of
        Inl err \<Rightarrow> ([], Some (Some err))
      | Inr (typ', conn) \<Rightarrow>
          if typ' ! 0 = typeDownload then (case handleDownload werr rnd conn of (out, r) \<Rightarrow> (out, Some r))
          else if typ' ! 0 = typeUpload then handleUpload elapsed werr conn reads
          else ([], Some (Some (SP_Error ''unknown request type''))))"

section \<open>The client\<close>

definition maxUint32 :: u32 where "maxUint32 = - 1"

text \<open>The loop of a download: the error, or the bytes received.\<close>

fun client_read_loop ::
  "int \<Rightarrow> u32 \<Rightarrow> int \<Rightarrow> bytes \<Rightarrow> (nat \<times> sp_error option) list \<Rightarrow> (sp_error + int) option" where
  "client_read_loop duration remaining tot conn reads =
     (if \<not> (duration > 0 \<or> remaining > 0) then Some (Inr tot)
      else (case reads of
              [] \<Rightarrow> None
            | (got, err) # reads \<Rightarrow>
                (let readSize = (if duration = 0 \<and> remaining < chunkSize then remaining else chunkSize);
                     n = min (min got (unat readSize)) (length conn);
                     tot = u64 (tot + int n);
                     remaining = (if duration = 0 then remaining - word_of_nat n else remaining);
                     conn = drop n conn
                 in case err of
                      None \<Rightarrow> client_read_loop duration remaining tot conn reads
                    | Some e \<Rightarrow>
                        if duration > 0 then (if e = SP_Timeout then Some (Inr tot) else Some (Inl e))
                        else if remaining = 0 \<and> e = SP_EOF then Some (Inr tot)
                        else Some (Inl e))))"

declare client_read_loop.simps [simp del]

text \<open>The request and, behind it, the outcome; a success is the final callback's number of bytes.\<close>

definition client_request_size :: "u32 \<Rightarrow> int \<Rightarrow> u32" where
  "client_request_size dataSize duration = (if duration > 0 then maxUint32 else dataSize)"

definition client_Download ::
  "sp_error option \<Rightarrow> u32 \<Rightarrow> int \<Rightarrow> bytes \<Rightarrow> (nat \<times> sp_error option) list \<Rightarrow> bytes \<times> (sp_error + int) option" where
  "client_Download werr dataSize duration conn reads =
     (case werr of
        Some err \<Rightarrow> ([], Some (Inl err))
      | None \<Rightarrow>
          (writeDownloadRequest (client_request_size dataSize duration),
           (case readDownloadResponse conn of
              Inl err \<Rightarrow> Some (Inl err)
            | Inr ((ok, msg), conn) \<Rightarrow>
                if \<not> ok then Some (Inl (SP_Error (''server rejected download request: '' @ msg)))
                else client_read_loop duration dataSize 0 conn reads)))"

text \<open>The loop of an upload: what it writes and the error, or the number of bytes written.\<close>

fun client_write_loop ::
  "int \<Rightarrow> bytes \<Rightarrow> u32 \<Rightarrow> int \<Rightarrow> (nat \<times> sp_error option) list \<Rightarrow> bytes \<times> (sp_error + int) option" where
  "client_write_loop duration buf remaining tot writes =
     (if \<not> (duration > 0 \<or> remaining > 0) then ([], Some (Inr tot))
      else (case writes of
              [] \<Rightarrow> ([], None)
            | (put, err) # writes \<Rightarrow>
                (let writeSize = (if duration = 0 \<and> remaining < chunkSize then remaining else chunkSize);
                     n = (if err = None then unat writeSize else min put (unat writeSize));
                     tot = u64 (tot + int n);
                     remaining = (if duration = 0 then remaining - word_of_nat n else remaining)
                 in case err of
                      None \<Rightarrow> (case client_write_loop duration buf remaining tot writes of
                                 (out, r) \<Rightarrow> (take n buf @ out, r))
                    | Some e \<Rightarrow> (take n buf, if duration > 0 \<and> e = SP_Timeout then Some (Inr tot) else Some (Inl e)))))"

declare client_write_loop.simps [simp del]

text \<open>What is written, and the final callback: the elapsed time, by the server's clock if the size is given, and the bytes.\<close>

definition client_Upload ::
  "int \<Rightarrow> sp_error option \<Rightarrow> bytes \<Rightarrow> u32 \<Rightarrow> int \<Rightarrow> bytes \<Rightarrow> (nat \<times> sp_error option) list
     \<Rightarrow> bytes \<times> (sp_error + int \<times> int) option" where
  "client_Upload elapsed werr buf dataSize duration conn writes =
     (case werr of
        Some err \<Rightarrow> ([], Some (Inl err))
      | None \<Rightarrow>
          (let req = writeUploadRequest (client_request_size dataSize duration)
           in case readUploadResponse conn of
                Inl err \<Rightarrow> (req, Some (Inl err))
              | Inr ((ok, msg), conn) \<Rightarrow>
                  if \<not> ok then (req, Some (Inl (SP_Error (''server rejected upload request: '' @ msg))))
                  else (case client_write_loop duration buf dataSize 0 writes of
                          (out, None) \<Rightarrow> (req @ out, None)
                        | (out, Some (Inl err)) \<Rightarrow> (req @ out, Some (Inl err))
                        | (out, Some (Inr tot)) \<Rightarrow>
                            (req @ out,
                             Some (if duration = 0
                                   then (case readUploadSummary conn of
                                           Inl err \<Rightarrow> Inl err
                                         | Inr ((elapsed, received), _) \<Rightarrow> Inr (elapsed, uint received))
                                   else Inr (elapsed, tot))))))"

section \<open>The outbound\<close>

definition SpeedtestDest :: string where "SpeedtestDest = ''@SpeedTest''"

text \<open>\<open>Inl\<close> is a connection to the server above.\<close>

definition speedtest_TCP :: "(AddrEx \<Rightarrow> string + 'c) \<Rightarrow> AddrEx \<Rightarrow> unit + (string + 'c)" where
  "speedtest_TCP next_TCP reqAddr = (if ax_Host reqAddr = SpeedtestDest then Inl () else Inr (next_TCP reqAddr))"

definition speedtest_UDP :: "(AddrEx \<Rightarrow> string + 'c) \<Rightarrow> AddrEx \<Rightarrow> string + 'c" where
  "speedtest_UDP next_UDP reqAddr = next_UDP reqAddr"

definition speedtest_CheckUDP :: "(AddrEx \<Rightarrow> string option) \<Rightarrow> AddrEx \<Rightarrow> string option" where
  "speedtest_CheckUDP next_CheckUDP reqAddr = next_CheckUDP reqAddr"

section \<open>What is transferred\<close>

lemma sp_ReadFull_append [simp]: "length b = n \<Longrightarrow> sp_ReadFull n (b @ r) = Inr (b, r)"
  by (simp add: sp_ReadFull_def)

lemma sp_ReadFull_one [simp]: "sp_ReadFull (Suc 0) (x # r) = Inr ([x], r)"
  by (simp add: sp_ReadFull_def)

lemma read_u32_append [simp]: "read_u32 (be32 l @ r) = Inr (l, r)"
  using sp_ReadFull_append [of "be32 l" 4 r] by (simp add: read_u32_def) (simp add: be32_def)

lemma read_u16_append [simp]: "read_u16 (be16 l @ r) = Inr (l, r)"
  using sp_ReadFull_append [of "be16 l" 2 r] by (simp add: read_u16_def) (simp add: be16_def)

lemma readResponse_append:
  assumes "length msg < 65536"
  shows "readResponse (writeResponse ok msg @ r) = Inr ((ok, msg), r)"
proof -
  have l: "unat (word_of_nat (length msg) :: u16) = length msg"
    using assms by (simp add: unsigned_of_nat take_bit_nat_eq_self)
  have "(word_of_nat (length msg) :: u16) = 0 \<longleftrightarrow> msg = []" using l by (auto simp: unat_eq_zero [symmetric])
  then show ?thesis by (cases ok) (simp_all add: readResponse_def writeResponse_def l)
qed

lemma readUploadSummary_append:
  assumes "0 \<le> d" "d div 1000000 < 2 ^ 32"
  shows "readUploadSummary (writeUploadSummary d l @ r) = Inr ((d div 1000000 * 1000000, l), r)"
proof -
  have "uint (word_of_int (quot d 1000000) :: u32) = d div 1000000"
    using assms by (simp add: uint_word_of_int)
  then show ?thesis by (simp add: readUploadSummary_def writeUploadSummary_def)
qed

lemma u32_minus: "n \<le> unat (w :: u32) \<Longrightarrow> unat (w - word_of_nat n) = unat w - n"
proof -
  assume n: "n \<le> unat w"
  have "unat w < 2 ^ 32" using unsigned_less [of w, where ?'a = nat] by simp
  then have "n < 2 ^ 32" using n by simp
  then have m: "unat (word_of_nat n :: u32) = n" by (simp add: unsigned_of_nat take_bit_nat_eq_self)
  then have "word_of_nat n \<le> w" using n by (simp add: word_le_nat_alt)
  then show ?thesis using m by (simp add: unat_sub)
qed

lemma chunk_le: "unat (if r > chunkSize then chunkSize else r) \<le> unat r"
  by (simp add: word_less_nat_alt word_le_nat_alt split: if_split)

lemma chunk_pos: "r \<noteq> 0 \<Longrightarrow> 0 < unat (if r > chunkSize then chunkSize else r)"
  by (auto simp: chunkSize_def unat_gt_0)

lemma download_loop_length:
  assumes "\<forall>k. werr k = None" "unat chunkSize \<le> length buf"
  shows "\<exists>out. download_loop werr buf k remaining = (out, None) \<and> length out = unat remaining"
  using assms
proof (induction werr buf k remaining rule: download_loop.induct)
  case (1 werr buf k remaining)
  define n where "n = (if remaining > chunkSize then chunkSize else remaining)"
  show ?case
  proof (cases "remaining = 0")
    case True
    then show ?thesis by (simp add: download_loop.simps)
  next
    case False
    have n: "n \<le> remaining" "n \<le> chunkSize" by (auto simp: n_def)
    obtain out where r: "download_loop werr buf (Suc k) (remaining - n) = (out, None)"
      "length out = unat (remaining - n)"
      using 1(1) [OF False n_def _ 1(2,3)] spec [OF 1(2), of k] by blast
    have "unat (remaining - n) = unat remaining - unat n" "unat n \<le> unat remaining" "unat n \<le> length buf"
      using n 1(3) by (simp_all add: unat_sub word_le_nat_alt)
    moreover have "download_loop werr buf k remaining = (take (unat n) buf @ out, None)"
      unfolding download_loop.simps [of werr buf k remaining] n_def [symmetric] Let_def
      using False spec [OF 1(2), of k] r(1) by simp
    ultimately show ?thesis using r(2) by simp
  qed
qed

definition all_progress :: "(nat \<times> sp_error option) list \<Rightarrow> bool" where
  "all_progress rs \<longleftrightarrow> list_all (\<lambda>(got, err). 0 < got \<and> err = None) rs"

lemma upload_loop_reads:
  "all_progress reads \<Longrightarrow> unat remaining \<le> length conn \<Longrightarrow> unat remaining \<le> length reads \<Longrightarrow>
   upload_loop remaining conn reads = (Some None, drop (unat remaining) conn)"
proof (induction reads arbitrary: remaining conn)
  case Nil
  then show ?case by (simp add: upload_loop.simps unat_eq_zero)
next
  case (Cons r reads)
  obtain got where r: "r = (got, None)" "0 < got" "all_progress reads"
    using Cons.prems(1) by (cases r) (auto simp: all_progress_def)
  show ?case
  proof (cases "remaining = 0")
    case True
    then show ?thesis by (simp add: upload_loop.simps)
  next
    case False
    define n where "n = (if remaining > chunkSize then chunkSize else remaining)"
    define rn where "rn = min (min got (unat n)) (length conn)"
    have b: "rn \<le> unat remaining" "0 < rn" using chunk_le [of remaining] chunk_pos [OF False] r(2) Cons.prems(2) False
      by (auto simp: rn_def n_def [symmetric] unat_gt_0)
    have u: "unat (remaining - word_of_nat rn) = unat remaining - rn" by (rule u32_minus [OF b(1)])
    have "upload_loop (remaining - word_of_nat rn) (drop rn conn) reads =
        (Some None, drop (unat remaining - rn) (drop rn conn))"
      using Cons.IH [OF r(3), of "remaining - word_of_nat rn" "drop rn conn"] Cons.prems(2,3) b unfolding u by simp
    moreover have "upload_loop remaining conn (r # reads) = upload_loop (remaining - word_of_nat rn) (drop rn conn) reads"
      using False by (simp add: upload_loop.simps [of remaining] r(1) n_def [symmetric] rn_def [symmetric] Let_def)
    ultimately show ?thesis using b by simp
  qed
qed

lemma client_read_loop_reads:
  "all_progress reads \<Longrightarrow> unat remaining \<le> length conn \<Longrightarrow> unat remaining \<le> length reads \<Longrightarrow>
   0 \<le> tot \<Longrightarrow> tot + int (unat remaining) < 2 ^ 64 \<Longrightarrow>
   client_read_loop 0 remaining tot conn reads = Some (Inr (tot + int (unat remaining)))"
proof (induction reads arbitrary: remaining conn tot)
  case Nil
  then show ?case by (simp add: client_read_loop.simps word_gt_0 unat_eq_zero)
next
  case (Cons r reads)
  obtain got where r: "r = (got, None)" "0 < got" "all_progress reads"
    using Cons.prems(1) by (cases r) (auto simp: all_progress_def)
  show ?case
  proof (cases "remaining = 0")
    case True
    then show ?thesis by (simp add: client_read_loop.simps)
  next
    case False
    define n where "n = (if remaining < chunkSize then remaining else chunkSize)"
    have n': "n = (if remaining > chunkSize then chunkSize else remaining)" by (auto simp: n_def)
    define rn where "rn = min (min got (unat n)) (length conn)"
    have b: "rn \<le> unat remaining" "0 < rn" using chunk_le [of remaining] chunk_pos [OF False] r(2) Cons.prems(2) False
      by (auto simp: rn_def n' [symmetric] unat_gt_0)
    have u: "unat (remaining - word_of_nat rn) = unat remaining - rn" by (rule u32_minus [OF b(1)])
    have "tot + int rn < 2 ^ 64" using Cons.prems(5) b by linarith
    then have t: "u64 (tot + int rn) = tot + int rn" using Cons.prems(4) by (intro u64_id) auto
    have "client_read_loop 0 (remaining - word_of_nat rn) (tot + int rn) (drop rn conn) reads =
        Some (Inr (tot + int rn + int (unat remaining - rn)))"
      using Cons.IH [OF r(3), of "remaining - word_of_nat rn" "drop rn conn" "tot + int rn"] Cons.prems b unfolding u by simp
    moreover have "client_read_loop 0 remaining tot conn (r # reads) =
        client_read_loop 0 (remaining - word_of_nat rn) (tot + int rn) (drop rn conn) reads"
      using False by (simp add: client_read_loop.simps [of 0 remaining] r(1) n_def [symmetric] rn_def [symmetric] t word_gt_0 Let_def)
    ultimately show ?thesis using b by simp
  qed
qed

lemma client_write_loop_writes:
  "list_all (\<lambda>w. snd w = None) writes \<Longrightarrow> unat remaining \<le> length writes \<Longrightarrow> unat chunkSize \<le> length buf \<Longrightarrow>
   \<exists>out tot'. client_write_loop 0 buf remaining tot writes = (out, Some (Inr tot')) \<and> length out = unat remaining"
proof (induction writes arbitrary: remaining tot)
  case Nil
  then show ?case by (simp add: client_write_loop.simps unat_eq_zero)
next
  case (Cons w writes)
  obtain put where w: "w = (put, None)" "list_all (\<lambda>w. snd w = None) writes" using Cons.prems(1) by (cases w) auto
  show ?case
  proof (cases "remaining = 0")
    case True
    then show ?thesis by (simp add: client_write_loop.simps)
  next
    case False
    define n where "n = (if remaining < chunkSize then remaining else chunkSize)"
    have n': "n = (if remaining > chunkSize then chunkSize else remaining)" by (auto simp: n_def)
    have b: "unat n \<le> unat remaining" "0 < unat n" "unat n \<le> length buf"
      using chunk_le [of remaining] chunk_pos [OF False] Cons.prems(3)
      by (auto simp: n' [symmetric]) (auto simp: n_def word_less_nat_alt split: if_splits)
    have u: "unat (remaining - word_of_nat (unat n)) = unat remaining - unat n" by (rule u32_minus [OF b(1)])
    have le: "unat remaining - unat n \<le> length writes" using Cons.prems(2) b by simp
    obtain out tot' where r: "client_write_loop 0 buf (remaining - word_of_nat (unat n)) (u64 (tot + int (unat n))) writes =
        (out, Some (Inr tot'))" "length out = unat remaining - unat n"
      using Cons.IH [OF w(2) _ Cons.prems(3), of "remaining - word_of_nat (unat n)" "u64 (tot + int (unat n))"] le
      unfolding u by blast
    have "client_write_loop 0 buf remaining tot (w # writes) = (take (unat n) buf @ out, Some (Inr tot'))"
      unfolding w(1) client_write_loop.simps [of 0 buf remaining tot "(put, None) # writes"]
      using False r(1) by (simp add: n_def [symmetric] word_gt_0 Let_def del: word_of_nat_eq_0_iff)
    then show ?thesis using r(2) b by simp
  qed
qed

definition no_werr :: "nat \<Rightarrow> sp_error option" where "no_werr k = None"

text \<open>
  Client and server together: of a download of \<open>l\<close> bytes the client counts \<open>l\<close>, and of an upload of \<open>l\<close>
  bytes it reports \<open>l\<close> and the server's time, to the millisecond, however the bytes are cut into reads.
\<close>

theorem speedtest_exact:
  assumes "unat chunkSize \<le> length buf" "all_progress reads" "unat l \<le> length reads"
    and "list_all (\<lambda>w. snd w = None) writes" "unat l \<le> length writes"
    and "0 \<le> elapsed" "elapsed div 1000000 < 2 ^ 32"
  shows "(\<exists>out. speedtest_server elapsed no_werr buf (fst (client_Download None l 0 out reads)) sreads = (out, Some None) \<and>
      snd (client_Download None l 0 out reads) = Some (Inr (uint l))) \<and>
    (\<exists>out. speedtest_server elapsed no_werr buf (fst (client_Upload celapsed None buf l 0 out writes)) reads = (out, Some None) \<and>
      snd (client_Upload celapsed None buf l 0 out writes) = Some (Inr (elapsed div 1000000 * 1000000, uint l)))"
proof
  obtain body where d: "download_loop no_werr buf 1 l = (body, None)" "length body = unat l"
    using download_loop_length [of no_werr buf 1 l] assms(1) by (auto simp: no_werr_def)
  let ?out = "writeResponse True ''OK'' @ body"
  have "speedtest_server elapsed no_werr buf (writeDownloadRequest l) sreads = (?out, Some None)"
    using d(1) read_u32_append [of l "[]"]
    by (simp add: speedtest_server_def writeDownloadRequest_def typeDownload_def handleDownload_def
        readDownloadRequest_def no_werr_def [of 0])
  moreover have "client_read_loop 0 l 0 body reads = Some (Inr (uint l))"
    using client_read_loop_reads [OF assms(2) _ assms(3), of body 0] d(2) unsigned_less [of l, where ?'a = int] by simp
  ultimately have "speedtest_server elapsed no_werr buf (fst (client_Download None l 0 ?out reads)) sreads = (?out, Some None) \<and>
      snd (client_Download None l 0 ?out reads) = Some (Inr (uint l))"
    by (simp add: client_Download_def client_request_size_def readResponse_append)
  then show "\<exists>out. speedtest_server elapsed no_werr buf (fst (client_Download None l 0 out reads)) sreads = (out, Some None) \<and>
      snd (client_Download None l 0 out reads) = Some (Inr (uint l))" by blast
next
  obtain body tot' where w: "client_write_loop 0 buf l 0 writes = (body, Some (Inr tot'))" "length body = unat l"
    using client_write_loop_writes [OF assms(4,5,1), of 0] by blast
  have u: "upload_loop l body reads = (Some None, [])"
    using upload_loop_reads [OF assms(2) _ assms(3), of body] w(2) by simp
  let ?out = "writeResponse True ''OK'' @ writeUploadSummary elapsed l"
  have "speedtest_server elapsed no_werr buf (writeUploadRequest l @ body) reads = (?out, Some None)"
    using u read_u32_append [of l body]
    by (simp add: speedtest_server_def writeUploadRequest_def typeDownload_def typeUpload_def handleUpload_def
        readUploadRequest_def no_werr_def)
  then have "speedtest_server elapsed no_werr buf (fst (client_Upload celapsed None buf l 0 ?out writes)) reads = (?out, Some None) \<and>
      snd (client_Upload celapsed None buf l 0 ?out writes) = Some (Inr (elapsed div 1000000 * 1000000, uint l))"
    using w(1) readUploadSummary_append [OF assms(6,7), of l "[]"]
    by (simp add: client_Upload_def client_request_size_def readResponse_append Let_def)
  then show "\<exists>out. speedtest_server elapsed no_werr buf (fst (client_Upload celapsed None buf l 0 out writes)) reads = (out, Some None) \<and>
      snd (client_Upload celapsed None buf l 0 out writes) = Some (Inr (elapsed div 1000000 * 1000000, uint l))" by blast
qed

text \<open>A timed download asks for \<open>2 ^ 32 - 1\<close> bytes, and once it has them fails with the stream's end before its time is up.\<close>

lemma timed_download_ends:
  assumes "0 < duration"
  shows "fst (client_Download None l duration conn reads) = writeDownloadRequest (- 1) \<and>
    client_read_loop duration r tot [] [(0, Some SP_EOF)] = Some (Inl SP_EOF)"
  using assms by (simp add: client_Download_def client_request_size_def maxUint32_def client_read_loop.simps Let_def)

end
