(* ===== verification/Realm_Punch.thy ===== *)
theory Realm_Punch
  imports Go_Net
begin

unbundle bit_operations_syntax

text \<open>
  \<open>extras/realm/punch.go\<close>: the packets of UDP hole punching.  A packet is a salt and, masked with the
  hash of the attempt's key and the salt, a header with the attempt's nonce and padding.  SHA-256 is
  the argument \<open>h\<close>; what \<open>crypto/rand\<close> gives are arguments too, \<open>None\<close> for its error.
\<close>

definition MaxPunchPadding :: nat where "MaxPunchPadding = 1024"
definition punchSaltLen :: nat where "punchSaltLen = 8"
definition punchHeaderLen :: nat where "punchHeaderLen = 25"
definition punchMinWireLen :: nat where "punchMinWireLen = punchSaltLen + punchHeaderLen"
definition punchMaxWireLen :: nat where "punchMaxWireLen = punchMinWireLen + MaxPunchPadding"
definition PunchNonceSize :: nat where "PunchNonceSize = 16"
definition PunchObfsKeySize :: nat where "PunchObfsKeySize = 32"

definition punchMagic :: bytes where "punchMagic = [0x48, 0x59, 0x52, 0x4C, 0x4D, 0x76, 0x31, 0]"

type_synonym punchType = byte

definition PunchPacketHello :: punchType where "PunchPacketHello = 0x01"
definition PunchPacketAck :: punchType where "PunchPacketAck = 0x02"

record PunchPacket =
  pp_Type :: punchType
  pp_PaddingLength :: nat

record PunchMetadata =
  pm_Nonce :: string
  pm_Obfs :: string

definition validPunchPacketType :: "punchType \<Rightarrow> bool" where
  "validPunchPacketType t \<longleftrightarrow> t = PunchPacketHello \<or> t = PunchPacketAck"

text \<open>\<open>hex.DecodeString\<close>, whose digits may be in either case.\<close>

fun hex_DecodeString :: "string \<Rightarrow> bytes option" where
  "hex_DecodeString [] = Some []"
| "hex_DecodeString [c] = None"
| "hex_DecodeString (a # b # s) =
     (case (hex_digit a, hex_digit b, hex_DecodeString s) of
        (Some x, Some y, Some r) \<Rightarrow> Some (word_of_nat (16 * x + y) # r)
      | _ \<Rightarrow> None)"

datatype punch_error = UnknownPacketType | InvalidHex string | InvalidHexLength string | RandError
  | PacketTooShort | PacketTooLong | BadMagic | NonceMismatch

definition decodeHexSize :: "string \<Rightarrow> string \<Rightarrow> nat \<Rightarrow> punch_error + bytes" where
  "decodeHexSize name v n =
     (case hex_DecodeString v of
        None \<Rightarrow> Inl (InvalidHex name)
      | Some b \<Rightarrow> if length b \<noteq> n then Inl (InvalidHexLength name) else Inr b)"

definition decodePunchMetadata :: "PunchMetadata \<Rightarrow> punch_error + bytes \<times> bytes" where
  "decodePunchMetadata meta =
     (case decodeHexSize ''nonce'' (pm_Nonce meta) PunchNonceSize of
        Inl err \<Rightarrow> Inl err
      | Inr nonce \<Rightarrow>
          (case decodeHexSize ''obfs'' (pm_Obfs meta) PunchObfsKeySize of
             Inl err \<Rightarrow> Inl err
           | Inr obfsKey \<Rightarrow> Inr (nonce, obfsKey)))"

definition xorPunchPacket :: "(bytes \<Rightarrow> bytes) \<Rightarrow> bytes \<Rightarrow> bytes \<Rightarrow> bytes \<Rightarrow> bytes" where
  "xorPunchPacket h packet obfsKey salt =
     (let msk = h (obfsKey @ salt)
      in map (\<lambda>i. packet ! i XOR msk ! (i mod length msk)) [0..<length packet])"

text \<open>The padding's length, a draw below \<open>MaxPunchPadding + 1\<close>, and its bytes; the salt.\<close>

record punch_draws =
  pd_padding :: "nat option"
  pd_bytes :: "bytes option"
  pd_salt :: "bytes option"

definition EncodePunchPacket ::
  "(bytes \<Rightarrow> bytes) \<Rightarrow> punch_draws \<Rightarrow> punchType \<Rightarrow> PunchMetadata \<Rightarrow> punch_error + bytes" where
  "EncodePunchPacket h d packetType meta =
     (if \<not> validPunchPacketType packetType then Inl UnknownPacketType
      else case decodePunchMetadata meta of
        Inl err \<Rightarrow> Inl err
      | Inr (nonce, obfsKey) \<Rightarrow>
      case pd_padding d of
        None \<Rightarrow> Inl RandError
      | Some paddingLength \<Rightarrow>
      case (if paddingLength > 0 then map_option (take paddingLength) (pd_bytes d) else Some []) of
        None \<Rightarrow> Inl RandError
      | Some padding \<Rightarrow>
          (let plain = punchMagic @ [packetType] @ nonce @ padding
           in case pd_salt d of
                None \<Rightarrow> Inl RandError
              | Some salt \<Rightarrow> Inr (salt @ xorPunchPacket h plain obfsKey salt)))"

definition DecodePunchPacket :: "(bytes \<Rightarrow> bytes) \<Rightarrow> bytes \<Rightarrow> PunchMetadata \<Rightarrow> punch_error + PunchPacket" where
  "DecodePunchPacket h packet meta =
     (if length packet < punchMinWireLen then Inl PacketTooShort
      else if length packet > punchMaxWireLen then Inl PacketTooLong
      else case decodePunchMetadata meta of
        Inl err \<Rightarrow> Inl err
      | Inr (nonce, obfsKey) \<Rightarrow>
          (let salt = take punchSaltLen packet;
               plain = xorPunchPacket h (drop punchSaltLen packet) obfsKey salt;
               packetType = plain ! length punchMagic
           in if take (length punchMagic) plain \<noteq> punchMagic then Inl BadMagic
              else if \<not> validPunchPacketType packetType then Inl UnknownPacketType
              else if take (punchHeaderLen - (length punchMagic + 1)) (drop (length punchMagic + 1) plain) \<noteq> nonce
              then Inl NonceMismatch
              else Inr \<lparr>pp_Type = packetType, pp_PaddingLength = length plain - punchHeaderLen\<rparr>))"

section \<open>The codec\<close>

text \<open>What \<open>crypto/rand\<close> promises of the sizes, when it gives anything.\<close>

definition draws_ok :: "punch_draws \<Rightarrow> bool" where
  "draws_ok d \<longleftrightarrow> (\<exists>n b s. pd_padding d = Some n \<and> n \<le> MaxPunchPadding \<and> pd_bytes d = Some b \<and> n \<le> length b \<and>
     pd_salt d = Some s \<and> length s = punchSaltLen)"

definition meta_ok :: "PunchMetadata \<Rightarrow> bool" where
  "meta_ok meta \<longleftrightarrow> (\<exists>r. decodePunchMetadata meta = Inr r)"

lemma decodeHexSize_length: "decodeHexSize name v n = Inr b \<Longrightarrow> length b = n"
  by (auto simp: decodeHexSize_def split: option.splits if_splits)

lemma meta_lengths: "decodePunchMetadata meta = Inr (nonce, key) \<Longrightarrow> length nonce = 16 \<and> length key = 32"
  by (auto simp: decodePunchMetadata_def PunchNonceSize_def PunchObfsKeySize_def split: sum.splits
      dest!: decodeHexSize_length)

lemma length_xorPunchPacket [simp]: "length (xorPunchPacket h p k s) = length p"
  by (simp add: xorPunchPacket_def Let_def)

lemma xorPunchPacket_twice [simp]: "xorPunchPacket h (xorPunchPacket h p k s) k s = p"
  by (rule nth_equalityI) (simp_all add: xorPunchPacket_def Let_def xor.assoc)

text \<open>An encoded packet, and what it says.\<close>

lemma encoded_packet:
  assumes "draws_ok d" "validPunchPacketType t" "decodePunchMetadata meta = Inr (nonce, key)"
  obtains salt padding n where
    "EncodePunchPacket h d t meta = Inr (salt @ xorPunchPacket h (punchMagic @ [t] @ nonce @ padding) key salt)"
    "length salt = punchSaltLen" "pd_padding d = Some n" "length padding = n" "n \<le> MaxPunchPadding"
proof -
  obtain n b s where d: "pd_padding d = Some n" "n \<le> MaxPunchPadding" "pd_bytes d = Some b" "n \<le> length b"
    "pd_salt d = Some s" "length s = punchSaltLen" using assms(1) by (auto simp: draws_ok_def)
  then have "EncodePunchPacket h d t meta = Inr (s @ xorPunchPacket h (punchMagic @ [t] @ nonce @ take n b) key s)"
    using assms(2,3) by (auto simp: EncodePunchPacket_def Let_def)
  then show ?thesis using that [of s "take n b" n] d by simp
qed

text \<open>
  What decoding accepts is exactly what the attempt's parameters encode: the parts are determined
  by the packet, and the packet by its parts.
\<close>

lemma decode_iff:
  assumes "decodePunchMetadata meta = Inr (nonce, key)"
  shows "DecodePunchPacket h packet meta = Inr \<lparr>pp_Type = t, pp_PaddingLength = n\<rparr> \<longleftrightarrow>
    validPunchPacketType t \<and> n \<le> MaxPunchPadding \<and>
    (\<exists>salt padding. length salt = punchSaltLen \<and> length padding = n \<and>
       packet = salt @ xorPunchPacket h (punchMagic @ [t] @ nonce @ padding) key salt)" (is "?l \<longleftrightarrow> ?r")
proof
  note len = meta_lengths [OF assms]
  note sizes = punchMinWireLen_def punchMaxWireLen_def punchSaltLen_def punchHeaderLen_def
  assume l: ?l
  define salt where "salt = take 8 packet"
  define plain where "plain = xorPunchPacket h (drop 8 packet) key salt"
  have m: "length punchMagic = 8" by (simp add: punchMagic_def)
  have d: "33 \<le> length packet" "length packet \<le> 33 + MaxPunchPadding" "take 8 plain = punchMagic" "plain ! 8 = t"
    "validPunchPacketType t" "take 16 (drop 9 plain) = nonce" "n = length plain - 25"
    using l assms by (auto simp: DecodePunchPacket_def Let_def salt_def [symmetric] plain_def [symmetric] m sizes
        split: if_splits)
  have lp: "length plain = length packet - 8" by (simp add: plain_def punchSaltLen_def)
  define padding where "padding = drop 25 plain"
  have "plain = take 8 plain @ drop 8 plain" by simp
  also have "drop 8 plain = plain ! 8 # drop 9 plain" using lp d(1) by (subst Cons_nth_drop_Suc [symmetric]) simp_all
  also have "drop 9 plain = take 16 (drop 9 plain) @ padding"
    using append_take_drop_id [of 16 "drop 9 plain", symmetric] by (simp add: padding_def)
  finally have p: "plain = punchMagic @ [t] @ nonce @ padding" using d(3,4,6) by simp
  have "packet = salt @ xorPunchPacket h plain key salt" by (simp add: plain_def salt_def)
  moreover have "length salt = punchSaltLen" using d(1) by (simp add: salt_def punchSaltLen_def)
  moreover have "length padding = n" using d(7) by (simp add: padding_def)
  moreover have "n \<le> MaxPunchPadding" using d(2,7) lp by simp
  ultimately show ?r using d(5) unfolding p by blast
next
  note len = meta_lengths [OF assms]
  assume ?r
  then obtain salt padding where r: "validPunchPacketType t" "n \<le> MaxPunchPadding" "length salt = punchSaltLen"
    "length padding = n" "packet = salt @ xorPunchPacket h (punchMagic @ [t] @ nonce @ padding) key salt" by blast
  have m: "length punchMagic = 8" by (simp add: punchMagic_def)
  have "take punchSaltLen packet = salt"
    "drop punchSaltLen packet = xorPunchPacket h (punchMagic @ [t] @ nonce @ padding) key salt"
    using r(3) by (simp_all add: r(5))
  then show ?l
    using assms r len m
    by (simp add: DecodePunchPacket_def Let_def nth_append punchMinWireLen_def punchMaxWireLen_def punchSaltLen_def
        punchHeaderLen_def)
qed

theorem punch_roundtrip:
  assumes "draws_ok d" "validPunchPacketType t" "meta_ok meta"
  shows "\<exists>packet n. EncodePunchPacket h d t meta = Inr packet \<and> pd_padding d = Some n \<and>
    length packet = punchMinWireLen + n \<and> length packet \<le> punchMaxWireLen \<and>
    DecodePunchPacket h packet meta = Inr \<lparr>pp_Type = t, pp_PaddingLength = n\<rparr>"
proof -
  obtain nonce key where meta: "decodePunchMetadata meta = Inr (nonce, key)" using assms(3) by (auto simp: meta_ok_def)
  obtain salt padding n where e:
    "EncodePunchPacket h d t meta = Inr (salt @ xorPunchPacket h (punchMagic @ [t] @ nonce @ padding) key salt)"
    "length salt = punchSaltLen" "pd_padding d = Some n" "length padding = n" "n \<le> MaxPunchPadding"
    using encoded_packet [OF assms(1,2) meta] by metis
  let ?packet = "salt @ xorPunchPacket h (punchMagic @ [t] @ nonce @ padding) key salt"
  have "length ?packet = punchMinWireLen + n"
    using e(2,4) meta_lengths [OF meta] by (simp add: punchMagic_def punchMinWireLen_def punchHeaderLen_def)
  moreover have "DecodePunchPacket h ?packet meta = Inr \<lparr>pp_Type = t, pp_PaddingLength = n\<rparr>"
    unfolding decode_iff [OF meta] using assms(2) e by blast
  ultimately show ?thesis using e(1,3,5) by (auto simp: punchMaxWireLen_def)
qed

text \<open>
  Attempts are kept apart by their keys and nonces: of two attempts with the same key, a packet is
  accepted by at most the one whose nonce it has.
\<close>

lemma punch_separates:
  assumes "decodePunchMetadata m = Inr (nonce, key)" "decodePunchMetadata m' = Inr (nonce', key)"
    and "DecodePunchPacket h packet m = Inr p" "DecodePunchPacket h packet m' = Inr p'"
  shows "nonce = nonce' \<and> p = p'"
proof -
  obtain t n t' n' where p: "p = \<lparr>pp_Type = t, pp_PaddingLength = n\<rparr>" "p' = \<lparr>pp_Type = t', pp_PaddingLength = n'\<rparr>"
    by (metis PunchPacket.cases)
  obtain s pad where 1: "length s = punchSaltLen" "length pad = n"
    "packet = s @ xorPunchPacket h (punchMagic @ [t] @ nonce @ pad) key s"
    using assms(3) unfolding p decode_iff [OF assms(1)] by blast
  obtain s' pad' where 2: "length s' = punchSaltLen" "length pad' = n'"
    "packet = s' @ xorPunchPacket h (punchMagic @ [t'] @ nonce' @ pad') key s'"
    using assms(4) unfolding p decode_iff [OF assms(2)] by blast
  have s: "s = s'" and "xorPunchPacket h (punchMagic @ [t] @ nonce @ pad) key s =
      xorPunchPacket h (punchMagic @ [t'] @ nonce' @ pad') key s'"
    using 1 2 by (metis append_eq_append_conv)+
  then have "punchMagic @ [t] @ nonce @ pad = punchMagic @ [t'] @ nonce' @ pad'"
    by (metis xorPunchPacket_twice)
  then have "t = t'" "nonce = nonce'" "pad = pad'"
    using meta_lengths [OF assms(1)] meta_lengths [OF assms(2)] by simp_all
  then show ?thesis using p 1(2) 2(2) by simp
qed

end
