(* ===== verification/Realm_Candidates.thy ===== *)
theory Realm_Candidates
  imports Realm_Punch "HOL-Library.List_Lexorder"
begin

text \<open>
  The candidate addresses of a hole punch (\<open>extras/realm/punch_engine.go\<close>) and the address families
  (\<open>stun.go\<close>).  An \<open>AddrPort\<close> has the bytes of its address, none if it is not valid; \<open>str\<close> is its
  \<open>String\<close>.  Go iterates over the map of ports by address in any order: the order is the argument \<open>ips\<close>.
\<close>

record AddrPort =
  apt_IP :: bytes
  apt_Zone :: string
  apt_Port :: u16

definition Is4 :: "AddrPort \<Rightarrow> bool" where "Is4 a \<longleftrightarrow> length (apt_IP a) = 4"
definition Is6 :: "AddrPort \<Rightarrow> bool" where "Is6 a \<longleftrightarrow> length (apt_IP a) = 16"
definition ap_IsValid :: "AddrPort \<Rightarrow> bool" where "ap_IsValid a \<longleftrightarrow> Is4 a \<or> Is6 a"

section \<open>Families\<close>

datatype AddrFamily = AddrFamilyAny | AddrFamilyIPv4 | AddrFamilyIPv6

definition IsUnspecified :: "bytes \<Rightarrow> bool" where
  "IsUnspecified ip \<longleftrightarrow> ip_Equal ip [0, 0, 0, 0] \<or> ip_Equal ip (replicate 16 0)"

text \<open>The local address of a socket: \<open>None\<close> if it is no UDP address.\<close>

definition localAddrFamily :: "bytes option \<Rightarrow> AddrFamily" where
  "localAddrFamily addr =
     (case addr of
        None \<Rightarrow> AddrFamilyAny
      | Some ip \<Rightarrow>
          if ip = [] \<or> IsUnspecified ip then AddrFamilyAny
          else if To4 ip \<noteq> None then AddrFamilyIPv4 else AddrFamilyIPv6)"

definition effectiveFamily :: "AddrFamily \<Rightarrow> bytes option \<Rightarrow> AddrFamily" where
  "effectiveFamily family loc = (if family \<noteq> AddrFamilyAny then family else localAddrFamily loc)"

definition family_allows :: "AddrFamily \<Rightarrow> bytes \<Rightarrow> bool" where
  "family_allows f ip =
     (let is4 = To4 ip \<noteq> None
      in case f of AddrFamilyIPv4 \<Rightarrow> is4 | AddrFamilyIPv6 \<Rightarrow> \<not> is4 | AddrFamilyAny \<Rightarrow> True)"

definition addrToAddrPort :: "(bytes \<times> int) option \<Rightarrow> AddrPort option" where
  "addrToAddrPort addr =
     (case addr of
        None \<Rightarrow> None
      | Some (ip, port) \<Rightarrow>
          if length ip \<noteq> 4 \<and> length ip \<noteq> 16 \<or> port \<le> 0 \<or> port > 65535 then None
          else Some \<lparr>apt_IP = ip_canon ip, apt_Zone = [], apt_Port = word_of_int port\<rparr>)"

definition udpAddrFromAddrPort :: "AddrPort \<Rightarrow> bytes \<times> int" where
  "udpAddrFromAddrPort addr = (apt_IP addr, uint (apt_Port addr))"

record punchFamilySet =
  fs_v4 :: bool
  fs_v6 :: bool

definition punchFamilies :: "AddrPort list \<Rightarrow> AddrFamily \<Rightarrow> punchFamilySet" where
  "punchFamilies localAddrs family =
     (case family of
        AddrFamilyIPv4 \<Rightarrow> \<lparr>fs_v4 = True, fs_v6 = False\<rparr>
      | AddrFamilyIPv6 \<Rightarrow> \<lparr>fs_v4 = False, fs_v6 = True\<rparr>
      | AddrFamilyAny \<Rightarrow>
          (let families = foldl (\<lambda>fs addr. if \<not> ap_IsValid addr then fs
                                   else if Is4 addr then fs\<lparr>fs_v4 := True\<rparr>
                                   else if Is6 addr then fs\<lparr>fs_v6 := True\<rparr> else fs)
                            \<lparr>fs_v4 = False, fs_v6 = False\<rparr> localAddrs
           in if \<not> fs_v4 families \<and> \<not> fs_v6 families then \<lparr>fs_v4 = True, fs_v6 = True\<rparr> else families))"

definition fs_allows :: "punchFamilySet \<Rightarrow> AddrPort \<Rightarrow> bool" where
  "fs_allows fs addr = (if Is4 addr then fs_v4 fs else if Is6 addr then fs_v6 fs else False)"

section \<open>Ports of a symmetric NAT\<close>

definition symmetricNATPortGap :: u16 where "symmetricNATPortGap = 4"
definition symmetricNATExtraPorts :: nat where "symmetricNATExtraPorts = 4"
definition symmetricNATMaxPortsPerHost :: nat where "symmetricNATMaxPortsPerHost = 32"

fun skip_same :: "u16 option \<Rightarrow> u16 list \<Rightarrow> u16 list" where
  "skip_same prev [] = []"
| "skip_same prev (port # ports) =
     (if prev = Some port then skip_same prev ports else port # skip_same (Some port) ports)"

definition uniqueSortedPorts :: "u16 list \<Rightarrow> u16 list" where
  "uniqueSortedPorts ports = skip_same None (sort ports)"

fun small_gaps :: "u16 list \<Rightarrow> bool" where
  "small_gaps (p # q # ports) \<longleftrightarrow> \<not> q - p > symmetricNATPortGap \<and> small_gaps (q # ports)"
| "small_gaps _ \<longleftrightarrow> True"

definition predictablePortGroup :: "u16 list \<Rightarrow> bool" where
  "predictablePortGroup ports \<longleftrightarrow> \<not> length ports < 2 \<and> small_gaps ports"

text \<open>What is added for a host, port by port.\<close>

fun expand_ports :: "bytes \<Rightarrow> nat \<Rightarrow> AddrPort set \<Rightarrow> nat list \<Rightarrow> AddrPort list" where
  "expand_ports ip added seen [] = []"
| "expand_ports ip added seen (port # ports) =
     (if \<not> added < symmetricNATMaxPortsPerHost then []
      else (let addr = \<lparr>apt_IP = ip, apt_Zone = [], apt_Port = word_of_nat port\<rparr>
            in if addr \<in> seen then expand_ports ip added seen ports
               else addr # expand_ports ip (added + 1) (insert addr seen) ports))"

definition expand_host :: "bytes \<Rightarrow> u16 list \<Rightarrow> AddrPort set \<Rightarrow> AddrPort list" where
  "expand_host ip ports seen =
     (let ports = uniqueSortedPorts ports
      in if \<not> predictablePortGroup ports then []
         else (let start = unat (hd ports); end' = unat (last ports) + symmetricNATExtraPorts;
                   end' = (if end' > 65535 then 65535 else end')
               in expand_ports ip 0 seen [start..<end' + 1]))"

definition portsByIP :: "AddrPort list \<Rightarrow> bytes \<Rightarrow> u16 list" where
  "portsByIP candidates ip = map apt_Port (filter (\<lambda>a. Is4 a \<and> apt_IP a = ip) candidates)"

definition expandSymmetricNATCandidates :: "bytes list \<Rightarrow> AddrPort list \<Rightarrow> AddrPort set \<Rightarrow> AddrPort list" where
  "expandSymmetricNATCandidates ips candidates seen =
     fst (foldl (\<lambda>(cands, seen) ip. let new = expand_host ip (portsByIP candidates ip) seen
                                   in (cands @ new, seen \<union> set new))
            (candidates, seen) ips)"

section \<open>Candidates\<close>

fun compatible_peers :: "punchFamilySet \<Rightarrow> AddrPort set \<Rightarrow> AddrPort list \<Rightarrow> AddrPort list" where
  "compatible_peers fs seen [] = []"
| "compatible_peers fs seen (addr # peers) =
     (if \<not> ap_IsValid addr \<or> apt_Port addr = 0 then compatible_peers fs seen peers
      else if \<not> fs_allows fs addr then compatible_peers fs seen peers
      else if addr \<in> seen then compatible_peers fs seen peers
      else addr # compatible_peers fs (insert addr seen) peers)"

definition sortAddrPorts :: "(AddrPort \<Rightarrow> string) \<Rightarrow> AddrPort list \<Rightarrow> AddrPort list" where
  "sortAddrPorts str addrs = sort_key str addrs"

definition candidatePunchAddrs ::
  "(AddrPort \<Rightarrow> string) \<Rightarrow> bytes list \<Rightarrow> AddrPort list \<Rightarrow> AddrPort list \<Rightarrow> AddrFamily \<Rightarrow> AddrPort list" where
  "candidatePunchAddrs str ips localAddrs peerAddrs family =
     (let candidates = compatible_peers (punchFamilies localAddrs family) {} peerAddrs
      in sortAddrPorts str (expandSymmetricNATCandidates ips candidates (set candidates)))"

section \<open>What the candidates are\<close>

definition base_candidates :: "AddrPort list \<Rightarrow> AddrPort list \<Rightarrow> AddrFamily \<Rightarrow> AddrPort set" where
  "base_candidates localAddrs peerAddrs family =
     {a \<in> set peerAddrs. ap_IsValid a \<and> apt_Port a \<noteq> 0 \<and> fs_allows (punchFamilies localAddrs family) a}"

lemma compatible_peers_set:
  "set (compatible_peers fs seen peers) = {a \<in> set peers. ap_IsValid a \<and> apt_Port a \<noteq> 0 \<and> fs_allows fs a} - seen \<and>
   distinct (compatible_peers fs seen peers)"
  by (induction fs seen peers rule: compatible_peers.induct) auto

text \<open>The expansion of a host is a part of its ports, new ones, and at most 32.\<close>

lemma expand_ports_props:
  "set (expand_ports ip n seen ports) \<subseteq> (\<lambda>p. \<lparr>apt_IP = ip, apt_Zone = [], apt_Port = word_of_nat p\<rparr>) ` set ports - seen \<and>
   distinct (expand_ports ip n seen ports) \<and> length (expand_ports ip n seen ports) \<le> symmetricNATMaxPortsPerHost - n"
proof (induction ip n seen ports rule: expand_ports.induct)
  case (2 ip n seen port ports)
  define a where "a = \<lparr>apt_IP = ip, apt_Zone = [], apt_Port = word_of_nat port\<rparr>"
  show ?case
  proof (cases "n < symmetricNATMaxPortsPerHost")
    case True
    show ?thesis
    proof (cases "a \<in> seen")
      case in_seen: True
      then have "expand_ports ip n seen (port # ports) = expand_ports ip n seen ports" using True by (simp add: a_def)
      then show ?thesis using 2(1) [OF _ a_def in_seen] True by auto
    next
      case new: False
      then have "expand_ports ip n seen (port # ports) = a # expand_ports ip (n + 1) (insert a seen) ports"
        using True by (simp add: a_def Let_def)
      then show ?thesis using 2(2) [OF _ a_def new] True new a_def by auto
    qed
  qed simp
qed simp

text \<open>Addresses of other hosts do not matter.\<close>

lemma expand_ports_other:
  assumes "\<forall>a. apt_IP a = ip \<longrightarrow> (a \<in> seen \<longleftrightarrow> a \<in> seen')"
  shows "expand_ports ip n seen ports = expand_ports ip n seen' ports"
  using assms
proof (induction ip n seen ports arbitrary: seen' rule: expand_ports.induct)
  case (2 ip n seen port ports)
  then show ?case by (auto simp: Let_def)
qed simp

lemma expand_host_other:
  "\<forall>a. apt_IP a = ip \<longrightarrow> (a \<in> seen \<longleftrightarrow> a \<in> seen') \<Longrightarrow> expand_host ip ports seen = expand_host ip ports seen'"
  by (simp add: expand_host_def Let_def expand_ports_other [of ip seen seen'])

lemma expand_host_ip: "a \<in> set (expand_host ip ports seen) \<Longrightarrow> apt_IP a = ip \<and> a \<notin> seen"
  using expand_ports_props [of ip 0 seen] by (fastforce simp: expand_host_def Let_def split: if_splits)

lemma expand_host_distinct: "distinct (expand_host ip ports seen)"
  using expand_ports_props [of ip 0 seen] by (simp add: expand_host_def Let_def)

text \<open>Over the hosts: the order in which they come has no part in the set of addresses.\<close>

lemma expand_all:
  assumes "distinct ips" "\<forall>ip \<in> set ips. \<forall>a. apt_IP a = ip \<longrightarrow> (a \<in> seen \<longleftrightarrow> a \<in> seen0)"
    and "distinct cands" "set cands \<subseteq> seen"
  shows "let r = fst (foldl (\<lambda>(cands, seen) ip. let new = expand_host ip (g ip) seen in (cands @ new, seen \<union> set new))
        (cands, seen) ips)
    in set r = set cands \<union> (\<Union>ip \<in> set ips. set (expand_host ip (g ip) seen0)) \<and> distinct r"
  using assms
proof (induction ips arbitrary: cands seen)
  case (Cons ip ips)
  define new where "new = expand_host ip (g ip) seen"
  have e: "new = expand_host ip (g ip) seen0"
    unfolding new_def using Cons.prems(2) by (intro expand_host_other) simp
  have n: "apt_IP a = ip \<and> a \<notin> seen" if "a \<in> set new" for a
    using that expand_host_ip by (auto simp: new_def)
  have 1: "distinct ips" "\<forall>i \<in> set ips. \<forall>a. apt_IP a = i \<longrightarrow> (a \<in> seen \<union> set new \<longleftrightarrow> a \<in> seen0)"
    using Cons.prems(1,2) n by auto
  have 2: "distinct (cands @ new)" "set (cands @ new) \<subseteq> seen \<union> set new"
    using Cons.prems(3,4) n expand_host_distinct [of ip "g ip" seen] by (auto simp: new_def)
  show ?case using Cons.IH [OF 1 2] by (simp add: new_def [symmetric] Let_def) (auto simp: e)
qed simp

lemma sorted_key_unique:
  fixes f :: "'a \<Rightarrow> 'b :: linorder"
  assumes "inj_on f (set xs)" "distinct xs" "distinct ys" "set xs = set ys"
  shows "sort_key f xs = sort_key f ys"
proof -
  have d: "distinct (map f (sort_key f zs))" if "distinct zs" "set zs = set xs" for zs
    using that assms(1) by (simp add: distinct_map)
  have "map f (sort_key f xs) = map f (sort_key f ys)"
    using d [OF assms(2)] d [OF assms(3)] assms(4) by (intro sorted_distinct_set_unique) simp_all
  moreover have "inj_on f (set (sort_key f xs) \<union> set (sort_key f ys))" using assms(1,4) by simp
  ultimately show ?thesis by (simp add: inj_on_map_eq_map)
qed

lemma skip_same_sub: "set (skip_same l ps) \<subseteq> set ps"
  by (induction l ps rule: skip_same.induct) auto

text \<open>The values of Go's type: only an IPv6 address has a zone.  \<open>String\<close> tells them apart.\<close>

definition proper :: "AddrPort \<Rightarrow> bool" where
  "proper a \<longleftrightarrow> (Is4 a \<longrightarrow> apt_Zone a = [])"

text \<open>The hosts whose ports are looked at, in the order of an iteration over the map.\<close>

definition map_order :: "AddrPort list \<Rightarrow> bytes list \<Rightarrow> bool" where
  "map_order cands ips \<longleftrightarrow> distinct ips \<and> set ips = apt_IP ` {a \<in> set cands. Is4 a}"

text \<open>A port that the expansion may guess: no more than four above the largest of the host's.\<close>

definition guessed :: "AddrPort set \<Rightarrow> AddrPort \<Rightarrow> bool" where
  "guessed base a \<longleftrightarrow> Is4 a \<and>
     (\<exists>b c. b \<in> base \<and> c \<in> base \<and> apt_IP b = apt_IP a \<and> apt_IP c = apt_IP a \<and>
        apt_Port b \<le> apt_Port a \<and> unat (apt_Port a) \<le> unat (apt_Port c) + 4)"

lemma uniqueSorted_sub: "p \<in> set (uniqueSortedPorts ports) \<Longrightarrow> p \<in> set ports"
  using skip_same_sub [of None "sort ports"] by (auto simp: uniqueSortedPorts_def)

lemma portsByIP_mem: "p \<in> set (portsByIP cands ip) \<Longrightarrow> \<exists>b \<in> set cands. Is4 b \<and> apt_IP b = ip \<and> apt_Port b = p"
  by (auto simp: portsByIP_def)

lemma expand_host_guessed:
  assumes "a \<in> set (expand_host ip (portsByIP cands ip) seen)"
  shows "guessed (set cands) a"
proof -
  define ps where "ps = uniqueSortedPorts (portsByIP cands ip)"
  define hi where "hi = (if unat (last ps) + symmetricNATExtraPorts > 65535 then 65535 else unat (last ps) + symmetricNATExtraPorts)"
  have ps: "ps \<noteq> []" and a: "a \<in> set (expand_ports ip 0 seen [unat (hd ps)..<hi + 1])"
    using assms unfolding expand_host_def ps_def [symmetric] Let_def hi_def
    by (auto simp: predictablePortGroup_def split: if_splits)
  obtain p where p: "a = \<lparr>apt_IP = ip, apt_Zone = [], apt_Port = word_of_nat p\<rparr>" "unat (hd ps) \<le> p" "p \<le> hi"
    using a expand_ports_props [of ip 0 seen "[unat (hd ps)..<hi + 1]"] by (auto simp: less_Suc_eq_le)
  have "hi < 65536" "hi \<le> unat (last ps) + 4" by (simp_all add: hi_def symmetricNATExtraPorts_def)
  then have u: "unat (word_of_nat p :: u16) = p" using p(3) by (simp add: unsigned_of_nat take_bit_nat_eq_self)
  obtain b where b: "b \<in> set cands" "Is4 b" "apt_IP b = ip" "apt_Port b = hd ps"
    using portsByIP_mem uniqueSorted_sub hd_in_set [OF ps] by (metis ps_def)
  obtain c where c: "c \<in> set cands" "apt_IP c = ip" "apt_Port c = last ps"
    using portsByIP_mem uniqueSorted_sub last_in_set [OF ps] by (metis ps_def)
  have "hd ps \<le> word_of_nat p" using p(2) u by (simp add: word_le_nat_alt)
  moreover have "unat (word_of_nat p :: u16) \<le> unat (last ps) + 4" using u p(3) \<open>hi \<le> unat (last ps) + 4\<close> by simp
  moreover have "Is4 a" using b(2,3) by (simp add: p(1) Is4_def)
  ultimately show ?thesis
    unfolding guessed_def using b(1,3,4) c by (intro conjI exI [of _ b] exI [of _ c]) (simp_all add: p(1))
qed

lemma expand_host_zone: "a \<in> set (expand_host ip ports seen) \<Longrightarrow> apt_Zone a = []"
  using expand_ports_props [of ip 0 seen] by (fastforce simp: expand_host_def Let_def split: if_splits)

lemma expand_host_card: "length (expand_host ip ports seen) \<le> 32"
  using expand_ports_props [of ip 0 seen] by (simp add: expand_host_def Let_def symmetricNATMaxPortsPerHost_def)


text \<open>Two ports of a host that are close: the ones between and above them are guessed.\<close>

definition v4_at :: "u16 \<Rightarrow> AddrPort" where
  "v4_at port = \<lparr>apt_IP = [1, 1, 1, 1], apt_Zone = [], apt_Port = port\<rparr>"

definition example_str :: "AddrPort \<Rightarrow> string" where
  "example_str a = string_of_bytes (be16 (apt_Port a)) @ replicate (length (apt_IP a)) CHR ''x'' @ CHR ''y'' #
     string_of_bytes (apt_IP a) @ apt_Zone a"

lemma example_str_inj: "inj example_str"
proof (rule injI)
  fix a b assume e: "example_str a = example_str b"
  have p: "string_of_bytes (be16 (apt_Port a)) = string_of_bytes (be16 (apt_Port b))"
    and r: "replicate (length (apt_IP a)) CHR ''x'' @ CHR ''y'' # string_of_bytes (apt_IP a) @ apt_Zone a =
      replicate (length (apt_IP b)) CHR ''x'' @ CHR ''y'' # string_of_bytes (apt_IP b) @ apt_Zone b"
    using e unfolding example_str_def by simp_all
  have run: "takeWhile (\<lambda>c. c = CHR ''x'') (replicate n CHR ''x'' @ CHR ''y'' # s) = replicate n CHR ''x''" for n s
    by (induction n) simp_all
  have l: "length (apt_IP a) = length (apt_IP b)"
    using arg_cong [OF r, of "\<lambda>s. length (takeWhile (\<lambda>c. c = CHR ''x'') s)"] unfolding run by simp
  then have "string_of_bytes (apt_IP a) = string_of_bytes (apt_IP b)" "apt_Zone a = apt_Zone b" using r by simp_all
  then have "apt_IP a = apt_IP b" by (metis bytes_of_string_of_bytes)
  moreover have "be16 (apt_Port a) = be16 (apt_Port b)" using p by (metis bytes_of_string_of_bytes)
  then have "apt_Port a = apt_Port b" by (metis be16_def list.inject un_be16_be16)
  ultimately show "a = b" using \<open>apt_Zone a = apt_Zone b\<close> by simp
qed

lemma expand_example: "expand_host [1, 1, 1, 1] [9, 7] {v4_at 9, v4_at 7} = map v4_at [8, 10, 11, 12, 13]"
proof -
  have "uniqueSortedPorts [9, 7] = [7, 9]" "predictablePortGroup [7, 9]" by code_simp+
  moreover have "[7..<14] = [7, 8, 9, 10, 11, 12, 13]" by (simp add: upt_rec)
  ultimately show ?thesis
    by (simp add: expand_host_def symmetricNATExtraPorts_def symmetricNATMaxPortsPerHost_def v4_at_def)
qed


end
