(* ===== verification/Realm_Stun.thy ===== *)
theory Realm_Stun
  imports Realm_Candidates Sniff
begin

text \<open>
  \<open>extras/realm/stun.go\<close> and \<open>portmap.go\<close>: asking STUN servers, and the gateway, how a socket is seen from
  outside.  The STUN message coding, the resolver and the gateway are arguments; a transaction is its
  identifier's bytes.
\<close>

section \<open>Responses\<close>

text \<open>A decoded message: whether it is a binding success, its transaction and its mapped addresses.\<close>

record stun_msg =
  sm_success :: bool
  sm_TransactionID :: bytes
  sm_XORMapped :: "(bytes \<times> int) option"
  sm_Mapped :: "(bytes \<times> int) option"

record stun_lib =
  st_IsMessage :: "bytes \<Rightarrow> bool"
  st_Decode :: "bytes \<Rightarrow> stun_msg option"

definition netIPPortToAddrPort :: "bytes \<Rightarrow> int \<Rightarrow> string + AddrPort" where
  "netIPPortToAddrPort ip port =
     (if port \<le> 0 \<or> port > 65535 then Inl ''invalid STUN mapped port''
      else case To4 ip of
        Some ip4 \<Rightarrow> Inr \<lparr>apt_IP = ip4, apt_Zone = [], apt_Port = word_of_int port\<rparr>
      | None \<Rightarrow>
          if length ip \<noteq> 16 then Inl ''invalid STUN mapped IP''
          else Inr \<lparr>apt_IP = ip, apt_Zone = [], apt_Port = word_of_int port\<rparr>)"

definition parseSTUNBindingResponse :: "stun_lib \<Rightarrow> bytes \<Rightarrow> string + stun_msg \<times> AddrPort" where
  "parseSTUNBindingResponse lib packet =
     (case st_Decode lib packet of
        None \<Rightarrow> Inl ''decode''
      | Some msg \<Rightarrow>
          if \<not> sm_success msg then Inl ''not a STUN binding success response''
          else (case sm_XORMapped msg of
                  Some (ip, port) \<Rightarrow> map_sum id (\<lambda>a. (msg, a)) (netIPPortToAddrPort ip port)
                | None \<Rightarrow>
                    (case sm_Mapped msg of
                       Some (ip, port) \<Rightarrow> map_sum id (\<lambda>a. (msg, a)) (netIPPortToAddrPort ip port)
                     | None \<Rightarrow> Inl ''STUN mapped address not found'')))"

section \<open>Servers\<close>

definition validatePort :: "string \<Rightarrow> string option" where
  "validatePort port =
     (case Atoi port of None \<Rightarrow> Some ''invalid rendezvous port''
      | Some p \<Rightarrow> if p \<le> 0 \<or> p > 65535 then Some ''invalid rendezvous port'' else None)"

definition defaultSTUNPort :: string where "defaultSTUNPort = ''3478''"

definition splitSTUNServer :: "string \<Rightarrow> string + string \<times> string" where
  "splitSTUNServer server =
     (if server = [] then Inl ''STUN server is empty''
      else case SplitHostPort server of
        Some (host, port) \<Rightarrow>
          if host = [] then Inl ''STUN server host is required''
          else (case validatePort port of Some err \<Rightarrow> Inl err | None \<Rightarrow> Inr (host, port))
      | None \<Rightarrow>
          if length (filter (\<lambda>c. c = CHR '':'') server) > 1
          then (if ParseAddr server = None then Inl ''invalid STUN server address'' else Inr (server, defaultSTUNPort))
          else if CHR '':'' \<in> set server then Inl ''invalid STUN server address''
          else Inr (server, defaultSTUNPort))"

text \<open>The addresses of one server, new ones only; \<open>seen\<close> are the texts of those already taken.\<close>

fun take_ips :: "AddrFamily \<Rightarrow> string \<Rightarrow> string set \<Rightarrow> bytes list \<Rightarrow> (bytes \<times> int) list \<times> string set" where
  "take_ips family port seen [] = ([], seen)"
| "take_ips family port seen (ip # ips) =
     (if ip = [] \<or> \<not> family_allows family ip then take_ips family port seen ips
      else (let key = JoinHostPort (ip_String ip) port
            in if key \<in> seen then take_ips family port seen ips
               else (case take_ips family port (insert key seen) ips of
                       (out, seen) \<Rightarrow> ((ip, case Atoi port of Some n \<Rightarrow> n | None \<Rightarrow> 0) # out, seen))))"

fun resolve_loop ::
  "(string \<Rightarrow> string + bytes list) \<Rightarrow> AddrFamily \<Rightarrow> string set \<Rightarrow> string list \<Rightarrow> string + (bytes \<times> int) list" where
  "resolve_loop lookup family seen [] = Inr []"
| "resolve_loop lookup family seen (server # servers) =
     (case splitSTUNServer server of
        Inl err \<Rightarrow> Inl err
      | Inr (host, port) \<Rightarrow>
          (case lookup host of
             Inl err \<Rightarrow> Inl err
           | Inr ips \<Rightarrow>
               (case take_ips family port seen ips of
                  (out, seen) \<Rightarrow> map_sum id ((@) out) (resolve_loop lookup family seen servers))))"

definition resolveSTUNServers ::
  "(string \<Rightarrow> string + bytes list) \<Rightarrow> string list \<Rightarrow> AddrFamily \<Rightarrow> string + (bytes \<times> int) list" where
  "resolveSTUNServers lookup servers family = resolve_loop lookup family {} servers"

section \<open>Discovery\<close>

text \<open>
  The requests: \<open>build k\<close> is the transaction identifier of the \<open>k\<close>-th request, if it can be made, and
  \<open>write k\<close> says whether it was sent.
\<close>

fun send_loop ::
  "(nat \<Rightarrow> bytes option) \<Rightarrow> (nat \<Rightarrow> bool) \<Rightarrow> nat \<Rightarrow> (bytes \<rightharpoonup> bytes \<times> int) \<Rightarrow> (bytes \<times> int) list
     \<Rightarrow> (bytes \<rightharpoonup> bytes \<times> int) option" where
  "send_loop build write k tx [] = Some tx"
| "send_loop build write k tx (addr # addrs) =
     (case build k of
        None \<Rightarrow> None
      | Some tid \<Rightarrow> send_loop build write (Suc k) (if write k then tx(tid \<mapsto> addr) else tx) addrs)"

definition sendSTUNRequests ::
  "(nat \<Rightarrow> bytes option) \<Rightarrow> (nat \<Rightarrow> bool) \<Rightarrow> (bytes \<times> int) list \<Rightarrow> string + (bytes \<rightharpoonup> bytes \<times> int)" where
  "sendSTUNRequests build write addrs =
     (if addrs = [] then Inl ''no STUN server addresses match the local socket family''
      else case send_loop build write 0 Map.empty addrs of
        None \<Rightarrow> Inl ''build''
      | Some tx \<Rightarrow> if tx = Map.empty then Inl ''failed to send STUN binding requests'' else Inr tx)"

text \<open>\<open>results\<close> is a set, which \<open>perm\<close>, the order of Go's iteration, lists.\<close>

definition finishSTUNResults ::
  "(AddrPort \<Rightarrow> string) \<Rightarrow> AddrPort list \<Rightarrow> string option \<Rightarrow> string + AddrPort list" where
  "finishSTUNResults str perm err =
     (if perm = [] then Inl (case err of Some e \<Rightarrow> e | None \<Rightarrow> ''no STUN responses received'')
      else Inr (sortAddrPorts str perm))"

text \<open>
  Both loops, over what arrives: a packet (or, with the demultiplexer, its event), or why no more is
  waited for: the time is up, with the context's error, or the read fails.  \<open>results\<close> has each address once.
\<close>

datatype stun_arrival = StunPacket "string + stun_msg \<times> AddrPort" | StunTimeUp "string option" | StunReadError string

definition stun_result ::
  "stun_msg \<times> AddrPort \<Rightarrow> (bytes \<rightharpoonup> bytes \<times> int) \<times> AddrPort list \<Rightarrow> (bytes \<rightharpoonup> bytes \<times> int) \<times> AddrPort list" where
  "stun_result = (\<lambda>(msg, addr) (tx, results).
     if tx (sm_TransactionID msg) = None then (tx, results)
     else (tx(sm_TransactionID msg := None), List.insert addr results))"

fun discover_loop ::
  "(AddrPort \<Rightarrow> string) \<Rightarrow> (bytes \<rightharpoonup> bytes \<times> int) \<Rightarrow> AddrPort list \<Rightarrow> stun_arrival list \<Rightarrow> (string + AddrPort list) option" where
  "discover_loop str tx results arrivals =
     (if tx = Map.empty then Some (finishSTUNResults str results None)
      else case arrivals of
        [] \<Rightarrow> None
      | StunTimeUp err # _ \<Rightarrow> Some (finishSTUNResults str results err)
      | StunReadError err # _ \<Rightarrow> Some (Inl err)
      | StunPacket (Inl _) # arrivals \<Rightarrow> discover_loop str tx results arrivals
      | StunPacket (Inr r) # arrivals \<Rightarrow>
          (case stun_result r (tx, results) of (tx, results) \<Rightarrow> discover_loop str tx results arrivals))"

declare discover_loop.simps [simp del]

text \<open>\<open>Discover\<close>; \<open>DiscoverWithDemux\<close> differs in that it gets events, so that no packet of it is an error.\<close>

definition defaultSTUNTimeout :: int where "defaultSTUNTimeout = 4000000000"

record stunConfig =
  sc_Servers :: "string list"
  sc_Timeout :: int
  sc_Family :: AddrFamily

definition Discover ::
  "(AddrPort \<Rightarrow> string) \<Rightarrow> (string \<Rightarrow> string + bytes list) \<Rightarrow> (nat \<Rightarrow> bytes option) \<Rightarrow> (nat \<Rightarrow> bool) \<Rightarrow> bytes option
     \<Rightarrow> stunConfig \<Rightarrow> stun_arrival list \<Rightarrow> (string + AddrPort list) option" where
  "Discover str lookup build write loc config arrivals =
     (if sc_Servers config = [] then Some (Inl ''at least one STUN server is required'')
      else (let timeout = (if sc_Timeout config = 0 then defaultSTUNTimeout else sc_Timeout config)
            in if timeout < 0 then Some (Inl ''timeout must not be negative'')
               else case resolveSTUNServers lookup (sc_Servers config) (effectiveFamily (sc_Family config) loc) of
                 Inl err \<Rightarrow> Some (Inl err)
               | Inr stunAddrs \<Rightarrow>
                   (case sendSTUNRequests build write stunAddrs of
                      Inl err \<Rightarrow> Some (Inl err)
                    | Inr tx \<Rightarrow> discover_loop str tx [] arrivals)))"

text \<open>The events that come, and the context's error when it is done before all requests are answered.\<close>

definition DiscoverWithDemux ::
  "(AddrPort \<Rightarrow> string) \<Rightarrow> (string \<Rightarrow> string + bytes list) \<Rightarrow> (nat \<Rightarrow> bytes option) \<Rightarrow> (nat \<Rightarrow> bool) \<Rightarrow> bytes option
     \<Rightarrow> stunConfig \<Rightarrow> (stun_msg \<times> AddrPort) list \<Rightarrow> string option option \<Rightarrow> (string + AddrPort list) option" where
  "DiscoverWithDemux str lookup build write loc config events ended =
     Discover str lookup build write loc config
       (map (\<lambda>ev. StunPacket (Inr ev)) events @ (case ended of None \<Rightarrow> [] | Some err \<Rightarrow> [StunTimeUp err]))"

section \<open>Port mapping\<close>

record portMapConfig =
  pmc_Timeout :: int
  pmc_Lifetime :: int

definition defaultPortMapTimeout :: int where "defaultPortMapTimeout = 10000000000"
definition defaultPortMapLifetime :: int where "defaultPortMapLifetime = 600000000000"

definition withDefaults :: "portMapConfig \<Rightarrow> string + portMapConfig" where
  "withDefaults c =
     (let c = (if pmc_Timeout c = 0 then c\<lparr>pmc_Timeout := defaultPortMapTimeout\<rparr> else c)
      in if pmc_Timeout c < 0 then Inl ''timeout must not be negative''
         else (let c = (if pmc_Lifetime c = 0 then c\<lparr>pmc_Lifetime := defaultPortMapLifetime\<rparr> else c)
               in if pmc_Lifetime c < 0 then Inl ''lifetime must not be negative'' else Inr c))"

text \<open>The gateway's answers: the mapped port and the external address.\<close>

record portMapper =
  pmp_internalPort :: int
  pmp_config :: portMapConfig
  pmp_externalAddr :: AddrPort

definition is_loopback :: "bytes \<Rightarrow> bool" where
  "is_loopback ip \<longleftrightarrow> length ip = 4 \<and> hd ip = 127 \<or> ip = replicate 15 0 @ [1] \<or>
     (\<exists>r. ip = v4InV6Prefix @ [127] @ r \<and> length r = 3)"

definition is_unspecified :: "bytes \<Rightarrow> bool" where
  "is_unspecified ip \<longleftrightarrow> ip = replicate 4 0 \<or> ip = replicate 16 0"

definition Renew :: "string + int \<Rightarrow> string + bytes \<Rightarrow> portMapper \<Rightarrow> portMapper \<times> (string + bool)" where
  "Renew mapped external m =
     (case mapped of
        Inl err \<Rightarrow> (m, Inl (''add port mapping failed: '' @ err))
      | Inr externalPort \<Rightarrow>
      case external of
        Inl err \<Rightarrow> (m, Inl (''get external address failed: '' @ err))
      | Inr externalIP \<Rightarrow>
          if length externalIP \<noteq> 4 \<and> length externalIP \<noteq> 16 \<or> is_unspecified externalIP \<or> is_loopback externalIP
          then (m, Inl ''gateway returned unusable external address'')
          else (let a = \<lparr>apt_IP = ip_canon externalIP, apt_Zone = [], apt_Port = word_of_int externalPort\<rparr>
                in (m\<lparr>pmp_externalAddr := a\<rparr>, Inr (a \<noteq> pmp_externalAddr m))))"

definition NewPortMapper ::
  "string option \<Rightarrow> string + int \<Rightarrow> string + bytes \<Rightarrow> int \<Rightarrow> portMapConfig \<Rightarrow> string + portMapper" where
  "NewPortMapper discover mapped external internalPort config =
     (if internalPort \<le> 0 \<or> internalPort > 65535 then Inl ''invalid internal port''
      else case withDefaults config of
        Inl err \<Rightarrow> Inl err
      | Inr config \<Rightarrow>
          (case discover of
             Some err \<Rightarrow> Inl (''gateway discovery failed: '' @ err)
           | None \<Rightarrow>
               (case Renew mapped external
                       \<lparr>pmp_internalPort = internalPort, pmp_config = config,
                        pmp_externalAddr = \<lparr>apt_IP = [], apt_Zone = [], apt_Port = 0\<rparr>\<rparr> of
                  (m, Inl err) \<Rightarrow> Inl err
                | (m, Inr _) \<Rightarrow> Inr m)))"

section \<open>What is discovered\<close>

lemma finish_Inr:
  assumes "finishSTUNResults str rs err = Inr addrs" "distinct rs"
  shows "addrs \<noteq> [] \<and> distinct addrs \<and> sorted (map str addrs) \<and> set addrs = set rs \<and> length addrs = length rs"
  using assms by (auto simp: finishSTUNResults_def sortAddrPorts_def split: if_splits)
    (metis length_sort list.size(3) length_0_conv)

lemma discover_loop_sound:
  assumes "discover_loop str tx results arrivals = Some (Inr addrs)" "distinct results" "finite (dom tx)"
  shows "addrs \<noteq> [] \<and> distinct addrs \<and> sorted (map str addrs) \<and>
    set addrs \<subseteq> set results \<union> {a. \<exists>m. StunPacket (Inr (m, a)) \<in> set arrivals \<and> sm_TransactionID m \<in> dom tx} \<and>
    length addrs \<le> length results + card (dom tx)"
  using assms
proof (induction arrivals arbitrary: tx results)
  case Nil
  then show ?case
    by (auto simp: discover_loop.simps split: if_splits dest!: finish_Inr)
next
  case (Cons a arrivals)
  show ?case
  proof (cases "tx = Map.empty")
    case True
    then show ?thesis using Cons.prems finish_Inr [of str results None addrs] by (simp add: discover_loop.simps)
  next
    case False
    note step = Cons.prems(1) [unfolded discover_loop.simps [of str tx results "a # arrivals"] if_not_P [OF False] list.case]
    show ?thesis
    proof (cases a)
      case (StunTimeUp err)
      then show ?thesis using step finish_Inr [of str results err addrs] Cons.prems(2) by simp
    next
      case (StunReadError err)
      then show ?thesis using step by simp
    next
      case (StunPacket p)
      show ?thesis
      proof (cases p)
        case (Inl e)
        then have "discover_loop str tx results arrivals = Some (Inr addrs)" using step StunPacket by simp
        note ih = Cons.IH [OF this Cons.prems(2,3)]
        show ?thesis by (intro conjI; use ih in \<open>(elim conjE)?; (assumption | (simp; blast))\<close>)
      next
        case (Inr r)
        obtain m b where r: "r = (m, b)" by fastforce
        show ?thesis
        proof (cases "tx (sm_TransactionID m)")
          case None
          then have "discover_loop str tx results arrivals = Some (Inr addrs)"
            using step StunPacket Inr r by (simp add: stun_result_def)
          note ih = Cons.IH [OF this Cons.prems(2,3)]
        show ?thesis by (intro conjI; use ih in \<open>(elim conjE)?; (assumption | (simp; blast))\<close>)
        next
          case (Some x)
          define tx' where "tx' = tx(sm_TransactionID m := None)"
          have "discover_loop str tx' (List.insert b results) arrivals = Some (Inr addrs)"
            using step StunPacket Inr r Some by (simp add: stun_result_def tx'_def)
          moreover have "dom tx' = dom tx - {sm_TransactionID m}" by (simp add: tx'_def)
          moreover have "distinct (List.insert b results)" using Cons.prems(2) by simp
          ultimately have ih: "addrs \<noteq> []" "distinct addrs" "sorted (map str addrs)"
            "set addrs \<subseteq> insert b (set results) \<union>
               {a. \<exists>m'. StunPacket (Inr (m', a)) \<in> set arrivals \<and> sm_TransactionID m' \<in> dom tx - {sm_TransactionID m}}"
            "length addrs \<le> length (List.insert b results) + card (dom tx - {sm_TransactionID m})"
            using Cons.IH [of tx' "List.insert b results"] Cons.prems(3) by simp_all
          have "sm_TransactionID m \<in> dom tx" using Some by blast
          then have "length (List.insert b results) + card (dom tx - {sm_TransactionID m}) \<le> length results + card (dom tx)"
            using Cons.prems(3) card_gt_0_iff [of "dom tx"] by (auto simp: List.insert_def card_Diff_singleton)
          moreover have "insert b (set results) \<union>
               {a. \<exists>m'. StunPacket (Inr (m', a)) \<in> set arrivals \<and> sm_TransactionID m' \<in> dom tx - {sm_TransactionID m}}
             \<subseteq> set results \<union> {x. \<exists>m. StunPacket (Inr (m, x)) \<in> set (a # arrivals) \<and> sm_TransactionID m \<in> dom tx}"
            using \<open>sm_TransactionID m \<in> dom tx\<close> StunPacket Inr r by auto
          ultimately show ?thesis using ih by (meson le_trans subset_trans)
        qed
      qed
    qed
  qed
qed

lemma send_loop_dom:
  "send_loop build write k tx addrs = Some tx' \<Longrightarrow> finite (dom tx) \<Longrightarrow>
   finite (dom tx') \<and> card (dom tx') \<le> card (dom tx) + length addrs \<and> dom tx' \<subseteq> dom tx \<union> {t. \<exists>j. build j = Some t \<and> write j}"
proof (induction addrs arbitrary: k tx)
  case (Cons addr addrs)
  obtain tid where t: "build k = Some tid" using Cons.prems(1) by (auto split: option.splits)
  define tx1 where "tx1 = (if write k then tx(tid \<mapsto> addr) else tx)"
  have "send_loop build write (Suc k) tx1 addrs = Some tx'" using Cons.prems(1) t by (simp add: tx1_def)
  moreover have "finite (dom tx1)" "card (dom tx1) \<le> Suc (card (dom tx))" "dom tx1 \<subseteq> dom tx \<union> {t. \<exists>j. build j = Some t \<and> write j}"
    using Cons.prems(2) t by (auto simp: tx1_def card_insert_if)
  ultimately have r: "send_loop build write (Suc k) tx1 addrs = Some tx'" "finite (dom tx1)"
    and c: "card (dom tx1) \<le> Suc (card (dom tx))" "dom tx1 \<subseteq> dom tx \<union> {t. \<exists>j. build j = Some t \<and> write j}" by blast+
  show ?case using Cons.IH [OF r] c by (intro conjI) (simp, simp, blast)
qed auto

text \<open>
  Every address that is discovered was given in answer to a request of this socket's, and each
  request gives at most one; they are sorted, without repetition, and there is one.
\<close>

theorem discovered_addresses:
  assumes "Discover str lookup build write loc config arrivals = Some (Inr addrs)"
  shows "addrs \<noteq> [] \<and> distinct addrs \<and> sorted (map str addrs) \<and>
    (\<forall>a \<in> set addrs. \<exists>m j. StunPacket (Inr (m, a)) \<in> set arrivals \<and> build j = Some (sm_TransactionID m) \<and> write j) \<and>
    (\<exists>stunAddrs. resolveSTUNServers lookup (sc_Servers config) (effectiveFamily (sc_Family config) loc) = Inr stunAddrs \<and>
       length addrs \<le> length stunAddrs)"
proof -
  obtain stunAddrs tx where r: "resolveSTUNServers lookup (sc_Servers config) (effectiveFamily (sc_Family config) loc) = Inr stunAddrs"
    "sendSTUNRequests build write stunAddrs = Inr tx" "discover_loop str tx [] arrivals = Some (Inr addrs)"
    using assms by (auto simp: Discover_def Let_def split: if_splits sum.splits)
  have s: "send_loop build write 0 Map.empty stunAddrs = Some tx"
    using r(2) by (auto simp: sendSTUNRequests_def split: if_splits option.splits)
  have d: "finite (dom tx)" "card (dom tx) \<le> length stunAddrs" "dom tx \<subseteq> {t. \<exists>j. build j = Some t \<and> write j}"
    using send_loop_dom [OF s] by simp_all
  have S: "addrs \<noteq> []" "distinct addrs" "sorted (map str addrs)"
    "set addrs \<subseteq> {a. \<exists>m. StunPacket (Inr (m, a)) \<in> set arrivals \<and> sm_TransactionID m \<in> dom tx}"
    "length addrs \<le> card (dom tx)"
    using discover_loop_sound [OF r(3) _ d(1)] by simp_all
  have "\<exists>m j. StunPacket (Inr (m, a)) \<in> set arrivals \<and> build j = Some (sm_TransactionID m) \<and> write j" if "a \<in> set addrs" for a
    using S(4) d(3) that by blast
  then show ?thesis using S(1-3) by (intro conjI ballI exI [of _ stunAddrs] r(1) le_trans [OF S(5) d(2)]) simp_all
qed

text \<open>The servers: no address twice, all of the family, with the port that was asked for.\<close>

lemma take_ips_props:
  "take_ips family port seen ips = (out, seen') \<Longrightarrow>
   list_all (\<lambda>(ip, p). family_allows family ip \<and> ip \<in> set ips) out \<and>
   distinct (map (\<lambda>(ip, p). JoinHostPort (ip_String ip) port) out) \<and>
   seen' = seen \<union> set (map (\<lambda>(ip, p). JoinHostPort (ip_String ip) port) out) \<and>
   seen \<inter> set (map (\<lambda>(ip, p). JoinHostPort (ip_String ip) port) out) = {}"
proof (induction family port seen ips arbitrary: out seen' rule: take_ips.induct)
  case (2 family port seen ip ips)
  define key where "key = JoinHostPort (ip_String ip) port"
  have mono: "list_all (\<lambda>(i, p). family_allows family i \<and> i \<in> set ips) out \<Longrightarrow>
      list_all (\<lambda>(i, p). family_allows family i \<and> i \<in> set (ip # ips)) out" for out :: "(bytes \<times> int) list"
    by (auto simp: list_all_iff)
  consider (skip) "ip = [] \<or> \<not> family_allows family ip" | (dup) "\<not> (ip = [] \<or> \<not> family_allows family ip)" "key \<in> seen"
    | (new) "\<not> (ip = [] \<or> \<not> family_allows family ip)" "key \<notin> seen" by blast
  then show ?case
  proof cases
    case skip
    then show ?thesis using 2(1) [OF skip] 2(4) mono by simp
  next
    case dup
    then show ?thesis using 2(2) [OF dup(1) key_def dup(2)] 2(4) mono by (simp add: key_def Let_def)
  next
    case new
    then have False: "ip \<noteq> []" "family_allows family ip" "key \<notin> seen" by simp_all
    obtain out1 where o: "take_ips family port (insert key seen) ips = (out1, seen')"
      "out = (ip, case Atoi port of Some n \<Rightarrow> n | None \<Rightarrow> 0) # out1"
      using 2(4) False by (auto simp: key_def Let_def split: prod.splits)
    have "list_all (\<lambda>(i, p). family_allows family i \<and> i \<in> set ips) out1 \<and>
      distinct (map (\<lambda>(i, p). JoinHostPort (ip_String i) port) out1) \<and>
      seen' = insert key seen \<union> set (map (\<lambda>(i, p). JoinHostPort (ip_String i) port) out1) \<and>
      insert key seen \<inter> set (map (\<lambda>(i, p). JoinHostPort (ip_String i) port) out1) = {}"
      using 2(3) [OF new(1) key_def new(2) o(1)] .
    then show ?thesis using False by (auto simp: o(2) key_def list_all_iff)
  qed
qed auto

text \<open>A mapped address is usable, and a change is reported exactly when there was one.\<close>

lemma Renew_props:
  assumes "Renew mapped external m = (m', r)"
  shows "(case r of Inl _ \<Rightarrow> m' = m | Inr changed \<Rightarrow> changed = (pmp_externalAddr m' \<noteq> pmp_externalAddr m) \<and>
      ap_IsValid (pmp_externalAddr m') \<and> proper (pmp_externalAddr m')) \<and>
    pmp_internalPort m' = pmp_internalPort m \<and> pmp_config m' = pmp_config m"
proof -
  have "length (ip_canon ip) = 4 \<or> length (ip_canon ip) = 16" if "length ip = 4 \<or> length ip = 16" for ip
    using that by (auto simp: ip_canon_def To4_def)
  note canon = this
  show ?thesis
  proof (cases mapped)
    case m: (Inr p)
    show ?thesis
    proof (cases external)
      case e: (Inr ip)
      show ?thesis
      proof (cases "length ip \<noteq> 4 \<and> length ip \<noteq> 16 \<or> is_unspecified ip \<or> is_loopback ip")
        case True
        then have "m' = m" "\<exists>err. r = Inl err" using assms m e by (simp_all add: Renew_def) auto
        then show ?thesis by auto
      next
        case False
        then have "length (ip_canon ip) = 4 \<or> length (ip_canon ip) = 16" using canon by blast
        then show ?thesis using assms m e False
          by (auto simp: Renew_def ap_IsValid_def Is4_def Is6_def proper_def Let_def)
      qed
    qed (use assms m in \<open>auto simp: Renew_def\<close>)
  qed (use assms in \<open>auto simp: Renew_def\<close>)
qed

end
