(* ===== verification/Realm_Engine.thy ===== *)
theory Realm_Engine
  imports Realm_Stun
begin

text \<open>
  Hole punching in \<open>extras/realm\<close>: the connection that takes the punch packets out of the traffic
  (\<open>punch_conn.go\<close>), the client's side (\<open>Punch\<close> of \<open>punch_engine.go\<close>) and the server's, where many
  attempts share the connection (\<open>server_punch.go\<close>).
\<close>

section \<open>The connection\<close>

record punchEvent =
  pe_AttemptID :: string
  pe_From :: AddrPort
  pe_Packet :: PunchPacket

text \<open>The two channels, of the same capacity.\<close>

record punchConn =
  pc_attempts :: "string \<rightharpoonup> PunchMetadata"
  pc_events :: "punchEvent list"
  pc_stun :: "(stun_msg \<times> AddrPort) list"
  pc_cap :: nat

definition defaultPunchEventBuffer :: int where "defaultPunchEventBuffer = 16"

definition NewPunchPacketConn :: "int \<Rightarrow> punchConn" where
  "NewPunchPacketConn eventBuffer =
     \<lparr>pc_attempts = Map.empty, pc_events = [], pc_stun = [],
      pc_cap = nat (if eventBuffer \<le> 0 then defaultPunchEventBuffer else eventBuffer)\<rparr>"

datatype attempt_error = IdRequired | BadMetadata punch_error | NoCandidates | NegativeTimeout | BadInterval
  | DuplicateId | PunchTimeout | PunchCancelled | PunchReadError string

definition AddPunchAttempt :: "string \<Rightarrow> PunchMetadata \<Rightarrow> punchConn \<Rightarrow> punchConn \<times> attempt_error option" where
  "AddPunchAttempt i meta c =
     (if i = [] then (c, Some IdRequired)
      else case decodePunchMetadata meta of
        Inl err \<Rightarrow> (c, Some (BadMetadata err))
      | Inr _ \<Rightarrow> (c\<lparr>pc_attempts := (pc_attempts c)(i \<mapsto> meta)\<rparr>, None))"

definition RemovePunchAttempt :: "string \<Rightarrow> punchConn \<Rightarrow> punchConn" where
  "RemovePunchAttempt i c = c\<lparr>pc_attempts := (pc_attempts c)(i := None)\<rparr>"

definition decodeSTUNPacket :: "stun_lib \<Rightarrow> bytes \<Rightarrow> (stun_msg \<times> AddrPort) option" where
  "decodeSTUNPacket lib packet =
     (if \<not> st_IsMessage lib packet then None
      else case parseSTUNBindingResponse lib packet of Inl _ \<Rightarrow> None | Inr ev \<Rightarrow> Some ev)"

text \<open>The attempts in the order in which the map is iterated.\<close>

fun first_match ::
  "(bytes \<Rightarrow> bytes) \<Rightarrow> (string \<rightharpoonup> PunchMetadata) \<Rightarrow> bytes \<Rightarrow> string list \<Rightarrow> (string \<times> PunchPacket) option" where
  "first_match h attempts packet [] = None"
| "first_match h attempts packet (i # ids) =
     (case attempts i of
        None \<Rightarrow> first_match h attempts packet ids
      | Some meta \<Rightarrow>
          (case DecodePunchPacket h packet meta of
             Inl _ \<Rightarrow> first_match h attempts packet ids
           | Inr p \<Rightarrow> Some (i, p)))"

definition decodePunchPacket ::
  "(bytes \<Rightarrow> bytes) \<Rightarrow> string list \<Rightarrow> punchConn \<Rightarrow> bytes \<Rightarrow> (bytes \<times> int) option \<Rightarrow> punchEvent option" where
  "decodePunchPacket h ids c packet from' =
     (case addrToAddrPort from' of
        None \<Rightarrow> None
      | Some fromAddr \<Rightarrow>
          (case first_match h (pc_attempts c) packet ids of
             None \<Rightarrow> None
           | Some (i, p) \<Rightarrow> Some \<lparr>pe_AttemptID = i, pe_From = fromAddr, pe_Packet = p\<rparr>))"

definition emitPunch :: "punchEvent \<Rightarrow> punchConn \<Rightarrow> punchConn" where
  "emitPunch ev c = (if length (pc_events c) < pc_cap c then c\<lparr>pc_events := pc_events c @ [ev]\<rparr> else c)"

definition emitSTUN :: "stun_msg \<times> AddrPort \<Rightarrow> punchConn \<Rightarrow> punchConn" where
  "emitSTUN ev c = (if length (pc_stun c) < pc_cap c then c\<lparr>pc_stun := pc_stun c @ [ev]\<rparr> else c)"

text \<open>A packet that arrives; the \<open>bool\<close> says whether the caller gets it.\<close>

definition pc_receive ::
  "stun_lib \<Rightarrow> (bytes \<Rightarrow> bytes) \<Rightarrow> string list \<Rightarrow> bytes \<Rightarrow> (bytes \<times> int) option \<Rightarrow> punchConn \<Rightarrow> punchConn \<times> bool" where
  "pc_receive lib h ids packet from' c =
     (case decodeSTUNPacket lib packet of
        Some ev \<Rightarrow> (emitSTUN ev c, False)
      | None \<Rightarrow>
          (case decodePunchPacket h ids c packet from' of
             Some ev \<Rightarrow> (emitPunch ev c, False)
           | None \<Rightarrow> (c, True)))"

text \<open>\<open>ReadFrom\<close>, over what the socket has: errors, and packets with the order of the iteration.\<close>

fun pc_ReadFrom ::
  "stun_lib \<Rightarrow> (bytes \<Rightarrow> bytes) \<Rightarrow> punchConn \<Rightarrow> (string + string list \<times> bytes \<times> (bytes \<times> int) option) list
     \<Rightarrow> punchConn \<times> (string + bytes \<times> (bytes \<times> int) option) option" where
  "pc_ReadFrom lib h c [] = (c, None)"
| "pc_ReadFrom lib h c (Inl err # rs) = (c, Some (Inl err))"
| "pc_ReadFrom lib h c (Inr (ids, packet, from') # rs) =
     (case pc_receive lib h ids packet from' c of
        (c, True) \<Rightarrow> (c, Some (Inr (packet, from')))
      | (c, False) \<Rightarrow> pc_ReadFrom lib h c rs)"

section \<open>Punching\<close>

type_synonym punch_result = "attempt_error + AddrPort \<times> PunchPacket"
type_synonym punch_sends = "(punchType \<times> AddrPort) list"

record punchConfig =
  pcf_Timeout :: int
  pcf_Interval :: int
  pcf_Family :: AddrFamily

definition defaultPunchTimeout :: int where "defaultPunchTimeout = 10000000000"
definition defaultPunchInterval :: int where "defaultPunchInterval = 100000000"

text \<open>The checks of the configuration: the interval.\<close>

definition punch_interval :: "punchConfig \<Rightarrow> attempt_error + int" where
  "punch_interval config =
     (let timeout = (if pcf_Timeout config = 0 then defaultPunchTimeout else pcf_Timeout config);
          interval = (if pcf_Interval config = 0 then defaultPunchInterval else pcf_Interval config)
      in if timeout < 0 then Inl NegativeTimeout
         else if interval \<le> 0 then Inl BadInterval else Inr interval)"

definition sendPunchPackets :: "AddrPort list \<Rightarrow> punchType \<Rightarrow> punch_sends" where
  "sendPunchPackets addrs packetType = map (\<lambda>a. (packetType, a)) addrs"

text \<open>
  A round of the client's loop: the context's error, the time, and what the read gives.  The buffer
  has room for the longest punch packet.
\<close>

datatype punch_read = ReadTimeout | ReadFails string | ReadPacket bytes "(bytes \<times> int) option"

record punchRound =
  pr_ctx :: "attempt_error option"
  pr_now :: int
  pr_read :: punch_read

fun punch_loop ::
  "(bytes \<Rightarrow> bytes) \<Rightarrow> PunchMetadata \<Rightarrow> AddrPort list \<Rightarrow> int \<Rightarrow> int \<Rightarrow> punchRound list \<Rightarrow> punch_sends \<times> punch_result option" where
  "punch_loop h meta candidates interval nextSend [] = ([], None)"
| "punch_loop h meta candidates interval nextSend (r # rs) =
     (case pr_ctx r of
        Some err \<Rightarrow> ([], Some (Inl err))
      | None \<Rightarrow>
          (let due = \<not> pr_now r < nextSend;
               sends = (if due then sendPunchPackets candidates PunchPacketHello else []);
               nextSend = (if due then pr_now r + interval else nextSend);
               rest = (case punch_loop h meta candidates interval nextSend rs of (s, res) \<Rightarrow> (sends @ s, res))
           in case pr_read r of
                ReadTimeout \<Rightarrow> rest
              | ReadFails err \<Rightarrow> (sends, Some (Inl (PunchReadError err)))
              | ReadPacket packet addr \<Rightarrow>
                  (case addrToAddrPort addr of
                     None \<Rightarrow> rest
                   | Some peerAddr \<Rightarrow>
                       (case DecodePunchPacket h (take punchMaxWireLen packet) meta of
                          Inl _ \<Rightarrow> rest
                        | Inr p \<Rightarrow>
                            (sends @ (if pp_Type p = PunchPacketHello then [(PunchPacketAck, peerAddr)] else []),
                             Some (Inr (peerAddr, p)))))))"

definition Punch ::
  "(bytes \<Rightarrow> bytes) \<Rightarrow> (AddrPort \<Rightarrow> string) \<Rightarrow> bytes list \<Rightarrow> bytes option \<Rightarrow> AddrPort list \<Rightarrow> AddrPort list
     \<Rightarrow> PunchMetadata \<Rightarrow> punchConfig \<Rightarrow> int \<Rightarrow> punchRound list \<Rightarrow> punch_sends \<times> punch_result option" where
  "Punch h str ips loc localAddrs peerAddrs meta config start rounds =
     (case decodePunchMetadata meta of
        Inl err \<Rightarrow> ([], Some (Inl (BadMetadata err)))
      | Inr _ \<Rightarrow>
          (let candidates = candidatePunchAddrs str ips localAddrs peerAddrs (effectiveFamily (pcf_Family config) loc)
           in if candidates = [] then ([], Some (Inl NoCandidates))
              else case punch_interval config of
                Inl err \<Rightarrow> ([], Some (Inl err))
              | Inr interval \<Rightarrow> punch_loop h meta candidates interval start rounds))"

section \<open>The server's puncher\<close>

text \<open>
  A call of \<open>Respond\<close> by its steps, between which other goroutines run: it reserves the identifier,
  registers with the connection, waits, and undoes both.
\<close>

datatype phase = Reserving | Registering | Failing attempt_error | Waiting
  | Unregistering punch_result | Releasing punch_result | Finished punch_result

record call =
  cl_id :: string
  cl_meta :: PunchMetadata
  cl_cands :: "AddrPort list"
  cl_phase :: phase

text \<open>What the dispatcher holds: nothing, an event, or an event and the channel it found for it.\<close>

datatype hand = Empty | Got punchEvent | For nat punchEvent

record puncher =
  sp_conn :: punchConn
  sp_attempts :: "string \<rightharpoonup> nat"
  sp_chan :: "nat \<Rightarrow> punchEvent list"
  sp_calls :: "nat \<rightharpoonup> call"
  sp_hand :: hand
  sp_sent :: punch_sends

definition defaultServerPunchEventBuffer :: nat where "defaultServerPunchEventBuffer = 16"

definition NewServerPuncher :: "punchConn \<Rightarrow> puncher" where
  "NewServerPuncher pconn =
     \<lparr>sp_conn = pconn, sp_attempts = Map.empty, sp_chan = (\<lambda>_. []), sp_calls = Map.empty, sp_hand = Empty, sp_sent = []\<rparr>"

definition set_phase :: "nat \<Rightarrow> call \<Rightarrow> phase \<Rightarrow> puncher \<Rightarrow> puncher" where
  "set_phase c cl p s = s\<lparr>sp_calls := (sp_calls s)(c \<mapsto> cl\<lparr>cl_phase := p\<rparr>)\<rparr>"

text \<open>What \<open>Respond\<close> checks first.\<close>

definition respond_checks :: "string \<Rightarrow> PunchMetadata \<Rightarrow> AddrPort list \<Rightarrow> punchConfig \<Rightarrow> attempt_error option" where
  "respond_checks i meta candidates config =
     (if i = [] then Some IdRequired
      else case decodePunchMetadata meta of
        Inl err \<Rightarrow> Some (BadMetadata err)
      | Inr _ \<Rightarrow>
          if candidates = [] then Some NoCandidates
          else (case punch_interval config of Inl err \<Rightarrow> Some err | Inr _ \<Rightarrow> None))"

definition respond_start ::
  "nat \<Rightarrow> string \<Rightarrow> PunchMetadata \<Rightarrow> AddrPort list \<Rightarrow> punchConfig \<Rightarrow> puncher \<Rightarrow> puncher option" where
  "respond_start c i meta candidates config s =
     (if sp_calls s c \<noteq> None then None
      else Some (s\<lparr>sp_calls := (sp_calls s)(c \<mapsto> \<lparr>cl_id = i, cl_meta = meta, cl_cands = candidates,
             cl_phase = (case respond_checks i meta candidates config of
                           Some err \<Rightarrow> Finished (Inl err) | None \<Rightarrow> Reserving)\<rparr>)\<rparr>))"

text \<open>\<open>addAttempt\<close>: the reservation under the lock, the registration, and its undoing.\<close>

definition respond_reserve :: "nat \<Rightarrow> call \<Rightarrow> puncher \<Rightarrow> puncher" where
  "respond_reserve c cl s =
     (if sp_attempts s (cl_id cl) \<noteq> None then set_phase c cl (Finished (Inl DuplicateId)) s
      else set_phase c cl Registering
             (s\<lparr>sp_attempts := (sp_attempts s)(cl_id cl \<mapsto> c), sp_chan := (sp_chan s)(c := [])\<rparr>))"

definition respond_register :: "nat \<Rightarrow> call \<Rightarrow> puncher \<Rightarrow> puncher" where
  "respond_register c cl s =
     (case AddPunchAttempt (cl_id cl) (cl_meta cl) (sp_conn s) of
        (pconn, Some err) \<Rightarrow> set_phase c cl (Failing err) (s\<lparr>sp_conn := pconn\<rparr>)
      | (pconn, None) \<Rightarrow>
          set_phase c cl Waiting
            (s\<lparr>sp_conn := pconn, sp_sent := sp_sent s @ sendPunchPackets (cl_cands cl) PunchPacketHello\<rparr>))"

definition respond_unreserve :: "nat \<Rightarrow> call \<Rightarrow> attempt_error \<Rightarrow> puncher \<Rightarrow> puncher" where
  "respond_unreserve c cl err s =
     set_phase c cl (Finished (Inl err)) (s\<lparr>sp_attempts := (sp_attempts s)(cl_id cl := None)\<rparr>)"

text \<open>The loop's cases: the context, the ticker, an event.\<close>

definition respond_done :: "nat \<Rightarrow> call \<Rightarrow> attempt_error \<Rightarrow> puncher \<Rightarrow> puncher" where
  "respond_done c cl err s = set_phase c cl (Unregistering (Inl err)) s"

definition respond_tick :: "nat \<Rightarrow> call \<Rightarrow> puncher \<Rightarrow> puncher" where
  "respond_tick c cl s = s\<lparr>sp_sent := sp_sent s @ sendPunchPackets (cl_cands cl) PunchPacketHello\<rparr>"

definition respond_event :: "nat \<Rightarrow> call \<Rightarrow> punchEvent \<Rightarrow> punchEvent list \<Rightarrow> puncher \<Rightarrow> puncher" where
  "respond_event c cl ev evs s =
     set_phase c cl (Unregistering (Inr (pe_From ev, pe_Packet ev)))
       (s\<lparr>sp_chan := (sp_chan s)(c := evs),
          sp_sent := sp_sent s @ (if pp_Type (pe_Packet ev) = PunchPacketHello then [(PunchPacketAck, pe_From ev)] else [])\<rparr>)"

text \<open>\<open>removeAttempt\<close>: first from the connection, then the reservation.\<close>

definition respond_unregister :: "nat \<Rightarrow> call \<Rightarrow> punch_result \<Rightarrow> puncher \<Rightarrow> puncher" where
  "respond_unregister c cl r s = set_phase c cl (Releasing r) (s\<lparr>sp_conn := RemovePunchAttempt (cl_id cl) (sp_conn s)\<rparr>)"

definition respond_release :: "nat \<Rightarrow> call \<Rightarrow> punch_result \<Rightarrow> puncher \<Rightarrow> puncher" where
  "respond_release c cl r s = set_phase c cl (Finished r) (s\<lparr>sp_attempts := (sp_attempts s)(cl_id cl := None)\<rparr>)"

text \<open>\<open>dispatch\<close>: it takes an event, looks its channel up, and sends if there is room.\<close>

definition dispatch_lookup :: "punchEvent \<Rightarrow> puncher \<Rightarrow> puncher" where
  "dispatch_lookup ev s =
     s\<lparr>sp_hand := (case sp_attempts s (pe_AttemptID ev) of None \<Rightarrow> Empty | Some c \<Rightarrow> For c ev)\<rparr>"

definition dispatch_send :: "nat \<Rightarrow> punchEvent \<Rightarrow> puncher \<Rightarrow> puncher" where
  "dispatch_send c ev s =
     s\<lparr>sp_hand := Empty,
       sp_chan := (if length (sp_chan s c) < defaultServerPunchEventBuffer
                   then (sp_chan s)(c := sp_chan s c @ [ev]) else sp_chan s)\<rparr>"

text \<open>The steps of all goroutines: the callers, the dispatcher and the reader of the connection.\<close>

inductive punch_step :: "stun_lib \<Rightarrow> (bytes \<Rightarrow> bytes) \<Rightarrow> puncher \<Rightarrow> puncher \<Rightarrow> bool" for lib h where
  start: "respond_start c i meta cands config s = Some s' \<Longrightarrow> punch_step lib h s s'"
| reserve: "sp_calls s c = Some cl \<Longrightarrow> cl_phase cl = Reserving \<Longrightarrow> punch_step lib h s (respond_reserve c cl s)"
| register: "sp_calls s c = Some cl \<Longrightarrow> cl_phase cl = Registering \<Longrightarrow> punch_step lib h s (respond_register c cl s)"
| unreserve: "sp_calls s c = Some cl \<Longrightarrow> cl_phase cl = Failing err \<Longrightarrow> punch_step lib h s (respond_unreserve c cl err s)"
| expire: "sp_calls s c = Some cl \<Longrightarrow> cl_phase cl = Waiting \<Longrightarrow> punch_step lib h s (respond_done c cl err s)"
| tick: "sp_calls s c = Some cl \<Longrightarrow> cl_phase cl = Waiting \<Longrightarrow> punch_step lib h s (respond_tick c cl s)"
| event: "sp_calls s c = Some cl \<Longrightarrow> cl_phase cl = Waiting \<Longrightarrow> sp_chan s c = ev # evs \<Longrightarrow>
    punch_step lib h s (respond_event c cl ev evs s)"
| unregister: "sp_calls s c = Some cl \<Longrightarrow> cl_phase cl = Unregistering r \<Longrightarrow> punch_step lib h s (respond_unregister c cl r s)"
| release: "sp_calls s c = Some cl \<Longrightarrow> cl_phase cl = Releasing r \<Longrightarrow> punch_step lib h s (respond_release c cl r s)"
| receive: "punch_step lib h s (s\<lparr>sp_conn := fst (pc_receive lib h ids packet from' (sp_conn s))\<rparr>)"
| take_event: "sp_hand s = Empty \<Longrightarrow> pc_events (sp_conn s) = ev # evs \<Longrightarrow>
    punch_step lib h s (s\<lparr>sp_hand := Got ev, sp_conn := (sp_conn s)\<lparr>pc_events := evs\<rparr>\<rparr>)"
| look_up: "sp_hand s = Got ev \<Longrightarrow> punch_step lib h s (dispatch_lookup ev s)"
| send_event: "sp_hand s = For c ev \<Longrightarrow> punch_step lib h s (dispatch_send c ev s)"

inductive punch_reachable :: "stun_lib \<Rightarrow> (bytes \<Rightarrow> bytes) \<Rightarrow> int \<Rightarrow> puncher \<Rightarrow> bool" for lib h buf where
  init: "punch_reachable lib h buf (NewServerPuncher (NewPunchPacketConn buf))"
| step: "punch_reachable lib h buf s \<Longrightarrow> punch_step lib h s s' \<Longrightarrow> punch_reachable lib h buf s'"

section \<open>The puncher's tables\<close>

fun holding :: "phase \<Rightarrow> bool" where
  "holding Reserving = False"
| "holding (Finished _) = False"
| "holding _ = True"

fun registered :: "phase \<Rightarrow> bool" where
  "registered Waiting = True"
| "registered (Unregistering _) = True"
| "registered _ = False"

definition tables_ok :: "puncher \<Rightarrow> bool" where
  "tables_ok s \<longleftrightarrow>
     (\<forall>i c. sp_attempts s i = Some c \<longleftrightarrow> (\<exists>cl. sp_calls s c = Some cl \<and> cl_id cl = i \<and> holding (cl_phase cl))) \<and>
     (\<forall>i meta. pc_attempts (sp_conn s) i = Some meta \<longleftrightarrow>
        (\<exists>c cl. sp_calls s c = Some cl \<and> cl_id cl = i \<and> cl_meta cl = meta \<and> registered (cl_phase cl))) \<and>
     (\<forall>c cl. sp_calls s c = Some cl \<longrightarrow> (\<exists>e. cl_phase cl = Finished (Inl e)) \<or>
        cl_id cl \<noteq> [] \<and> meta_ok (cl_meta cl) \<and> (\<forall>e. cl_phase cl \<noteq> Failing e))"

lemma tables_attempts: "tables_ok s \<Longrightarrow>
  sp_attempts s i = Some c \<longleftrightarrow> (\<exists>cl. sp_calls s c = Some cl \<and> cl_id cl = i \<and> holding (cl_phase cl))"
  by (simp add: tables_ok_def)

lemma tables_conn: "tables_ok s \<Longrightarrow> pc_attempts (sp_conn s) i = Some meta \<longleftrightarrow>
  (\<exists>c cl. sp_calls s c = Some cl \<and> cl_id cl = i \<and> cl_meta cl = meta \<and> registered (cl_phase cl))"
  by (simp add: tables_ok_def)

lemma tables_calls: "tables_ok s \<Longrightarrow> sp_calls s c = Some cl \<Longrightarrow> (\<exists>e. cl_phase cl = Finished (Inl e)) \<or>
  cl_id cl \<noteq> [] \<and> meta_ok (cl_meta cl) \<and> (\<forall>e. cl_phase cl \<noteq> Failing e)"
  by (simp add: tables_ok_def)

text \<open>An identifier is held by one call.\<close>

lemma holder_unique:
  "tables_ok s \<Longrightarrow> sp_calls s c = Some cl \<Longrightarrow> sp_calls s d = Some cl' \<Longrightarrow> cl_id cl = cl_id cl' \<Longrightarrow>
   holding (cl_phase cl) \<Longrightarrow> holding (cl_phase cl') \<Longrightarrow> c = d"
  using tables_attempts [of s "cl_id cl"] by (metis option.inject)

lemma registered_holding: "registered p \<Longrightarrow> holding p"
  by (cases p) simp_all

text \<open>A change of phase that changes neither table.\<close>

lemma phase_only:
  assumes "tables_ok s" "sp_calls s c = Some cl" "holding p = holding (cl_phase cl)" "registered p = registered (cl_phase cl)"
    and "\<forall>e. p \<noteq> Failing e" "\<nexists>e. cl_phase cl = Finished (Inl e)"
    and "sp_calls s' = (sp_calls s)(c \<mapsto> cl\<lparr>cl_phase := p\<rparr>)" "sp_attempts s' = sp_attempts s"
    and "pc_attempts (sp_conn s') = pc_attempts (sp_conn s)"
  shows "tables_ok s'"
proof -
  have "(\<exists>x. sp_calls s' d = Some x \<and> cl_id x = i \<and> holding (cl_phase x)) \<longleftrightarrow>
      (\<exists>x. sp_calls s d = Some x \<and> cl_id x = i \<and> holding (cl_phase x))" for d i
    using assms(2,3) by (cases "d = c") (simp_all add: assms(7))
  moreover have "(\<exists>x. sp_calls s' d = Some x \<and> cl_id x = i \<and> cl_meta x = meta \<and> registered (cl_phase x)) \<longleftrightarrow>
      (\<exists>x. sp_calls s d = Some x \<and> cl_id x = i \<and> cl_meta x = meta \<and> registered (cl_phase x))" for d i meta
    using assms(2,4) by (cases "d = c") (simp_all add: assms(7))
  moreover have "(\<exists>e. cl_phase x = Finished (Inl e)) \<or> cl_id x \<noteq> [] \<and> meta_ok (cl_meta x) \<and> (\<forall>e. cl_phase x \<noteq> Failing e)"
    if "sp_calls s' d = Some x" for d x
    using that tables_calls [OF assms(1), of d] tables_calls [OF assms(1,2)] assms(5,6)
    by (cases "d = c") (auto simp: assms(7))
  ultimately show ?thesis
    unfolding tables_ok_def [of s'] using tables_attempts [OF assms(1)] tables_conn [OF assms(1)] by (simp add: assms(8,9))
qed

lemma start_ok:
  assumes "tables_ok s" "respond_start c i meta cands config s = Some s'"
  shows "tables_ok s'"
proof -
  define p where "p = (case respond_checks i meta cands config of Some err \<Rightarrow> Finished (Inl err) | None \<Rightarrow> Reserving)"
  define x where "x = \<lparr>cl_id = i, cl_meta = meta, cl_cands = cands, cl_phase = p\<rparr>"
  have n: "sp_calls s c = None" and s': "s' = s\<lparr>sp_calls := (sp_calls s)(c \<mapsto> x)\<rparr>"
    using assms(2) by (auto simp: respond_start_def p_def x_def split: if_splits)
  have x: "\<not> holding (cl_phase x)" "\<not> registered (cl_phase x)"
    "(\<exists>e. cl_phase x = Finished (Inl e)) \<or> cl_id x \<noteq> [] \<and> meta_ok (cl_meta x) \<and> (\<forall>e. cl_phase x \<noteq> Failing e)"
    by (auto simp: x_def p_def respond_checks_def meta_ok_def split: option.splits sum.splits if_splits)
  have "(\<exists>y. sp_calls s' d = Some y \<and> cl_id y = i \<and> holding (cl_phase y)) \<longleftrightarrow>
      (\<exists>y. sp_calls s d = Some y \<and> cl_id y = i \<and> holding (cl_phase y))" for d i
    using x n by (cases "d = c") (simp_all add: s')
  moreover have "(\<exists>y. sp_calls s' d = Some y \<and> cl_id y = i \<and> cl_meta y = meta \<and> registered (cl_phase y)) \<longleftrightarrow>
      (\<exists>y. sp_calls s d = Some y \<and> cl_id y = i \<and> cl_meta y = meta \<and> registered (cl_phase y))" for d i meta
    using x n by (cases "d = c") (simp_all add: s')
  moreover have "(\<exists>e. cl_phase y = Finished (Inl e)) \<or> cl_id y \<noteq> [] \<and> meta_ok (cl_meta y) \<and> (\<forall>e. cl_phase y \<noteq> Failing e)"
    if "sp_calls s' d = Some y" for d y
    using that tables_calls [OF assms(1), of d] x(3) by (cases "d = c") (auto simp: s')
  ultimately show ?thesis
    unfolding tables_ok_def [of s'] using tables_attempts [OF assms(1)] tables_conn [OF assms(1)] by (simp add: s')
qed

text \<open>A change of phase of the call that holds the identifier, or that finds it free.\<close>

lemma retable:
  assumes "tables_ok s" "sp_calls s c = Some cl" "sp_attempts s (cl_id cl) = None \<or> sp_attempts s (cl_id cl) = Some c"
    and "\<forall>e. p \<noteq> Failing e" "\<nexists>e. cl_phase cl = Finished (Inl e)"
    and "sp_calls s' = (sp_calls s)(c \<mapsto> cl\<lparr>cl_phase := p\<rparr>)"
    and "sp_attempts s' = (sp_attempts s)(cl_id cl := if holding p then Some c else None)"
    and "pc_attempts (sp_conn s') = (pc_attempts (sp_conn s))(cl_id cl := if registered p then Some (cl_meta cl) else None)"
  shows "tables_ok s'"
proof -
  have other: "cl_id x \<noteq> cl_id cl" if "sp_calls s d = Some x" "d \<noteq> c" "holding (cl_phase x)" for d x
    using that assms(3) tables_attempts [OF assms(1), of "cl_id x" d] by force
  have other': "cl_id x \<noteq> cl_id cl" if "sp_calls s d = Some x" "d \<noteq> c" "registered (cl_phase x)" for d x
    using other [OF that(1,2)] registered_holding that(3) by blast
  have "sp_attempts s' i = Some d \<longleftrightarrow> (\<exists>x. sp_calls s' d = Some x \<and> cl_id x = i \<and> holding (cl_phase x))" for i d
  proof (cases "d = c")
    case True
    have "sp_attempts s i = Some c \<Longrightarrow> i = cl_id cl" using tables_attempts [OF assms(1), of i c] assms(2) by auto
    then show ?thesis using True by (auto simp: assms(6,7))
  next
    case False
    have "sp_attempts s i = Some d \<Longrightarrow> i \<noteq> cl_id cl" using assms(3) False by auto
    then show ?thesis using False other [of d] tables_attempts [OF assms(1), of i d] by (auto simp: assms(6,7))
  qed
  moreover have "pc_attempts (sp_conn s') i = Some meta \<longleftrightarrow>
      (\<exists>d x. sp_calls s' d = Some x \<and> cl_id x = i \<and> cl_meta x = meta \<and> registered (cl_phase x))" for i meta
  proof (cases "i = cl_id cl")
    case True
    have one: "d = c \<and> x = cl\<lparr>cl_phase := p\<rparr>" if "sp_calls s' d = Some x" "cl_id x = i" "registered (cl_phase x)" for d x
      using that other' [of d x] True by (cases "d = c") (simp_all add: assms(6))
    have "pc_attempts (sp_conn s') i = Some meta \<longleftrightarrow> registered p \<and> cl_meta cl = meta" by (simp add: assms(8) True)
    also have "\<dots> \<longleftrightarrow> (\<exists>d x. sp_calls s' d = Some x \<and> cl_id x = i \<and> cl_meta x = meta \<and> registered (cl_phase x))"
    proof
      assume "registered p \<and> cl_meta cl = meta"
      then show "\<exists>d x. sp_calls s' d = Some x \<and> cl_id x = i \<and> cl_meta x = meta \<and> registered (cl_phase x)"
        by (intro exI [of _ c] exI [of _ "cl\<lparr>cl_phase := p\<rparr>"]) (simp add: assms(6) True)
    qed (use one in fastforce)
    finally show ?thesis .
  next
    case False
    have "sp_calls s' d = Some x \<and> cl_id x = i \<longleftrightarrow> sp_calls s d = Some x \<and> cl_id x = i" for d x
      using False assms(2) by (cases "d = c") (auto simp: assms(6))
    then show ?thesis using False tables_conn [OF assms(1), of i meta] by (simp add: assms(8)) metis
  qed
  moreover have "(\<exists>e. cl_phase x = Finished (Inl e)) \<or> cl_id x \<noteq> [] \<and> meta_ok (cl_meta x) \<and> (\<forall>e. cl_phase x \<noteq> Failing e)"
    if "sp_calls s' d = Some x" for d x
    using that tables_calls [OF assms(1), of d] tables_calls [OF assms(1,2)] assms(4,5)
    by (cases "d = c") (auto simp: assms(6))
  ultimately show ?thesis unfolding tables_ok_def by blast
qed

lemma held: "tables_ok s \<Longrightarrow> sp_calls s c = Some cl \<Longrightarrow> holding (cl_phase cl) \<Longrightarrow> sp_attempts s (cl_id cl) = Some c"
  using tables_attempts by blast

lemma not_registered: "tables_ok s \<Longrightarrow> sp_attempts s i = None \<Longrightarrow> pc_attempts (sp_conn s) i = None"
  using tables_conn [of s i] tables_attempts [of s i] registered_holding by (metis not_Some_eq)

lemma reserve_ok:
  assumes "tables_ok s" "sp_calls s c = Some cl" "cl_phase cl = Reserving"
  shows "tables_ok (respond_reserve c cl s)"
proof (cases "sp_attempts s (cl_id cl)")
  case None
  then show ?thesis
    by (intro retable [OF assms(1,2), of Registering])
      (simp_all add: assms(3) respond_reserve_def set_phase_def not_registered [OF assms(1)] fun_upd_idem)
next
  case (Some d)
  have "phase.Finished (Inl DuplicateId) \<noteq> Failing e" for e by simp
  with Some have "respond_reserve c cl s = set_phase c cl (Finished (Inl DuplicateId)) s" by (simp add: respond_reserve_def)
  then show ?thesis
    by (intro phase_only [OF assms(1,2), of "Finished (Inl DuplicateId)"]) (simp_all add: assms(3) set_phase_def)
qed

lemma register_ok:
  assumes "tables_ok s" "sp_calls s c = Some cl" "cl_phase cl = Registering"
  shows "tables_ok (respond_register c cl s)"
proof -
  have "cl_id cl \<noteq> []" "meta_ok (cl_meta cl)" using tables_calls [OF assms(1,2)] assms(3) by auto
  then obtain r where "cl_id cl \<noteq> []" "decodePunchMetadata (cl_meta cl) = Inr r" by (auto simp: meta_ok_def)
  then show ?thesis using held [OF assms(1,2)] assms(3)
    by (intro retable [OF assms(1,2), of Waiting]) (simp_all add: respond_register_def AddPunchAttempt_def set_phase_def fun_upd_idem)
qed

lemma unregister_ok:
  assumes "tables_ok s" "sp_calls s c = Some cl" "cl_phase cl = Unregistering r"
  shows "tables_ok (respond_unregister c cl r s)"
  using held [OF assms(1,2)] assms(3)
  by (intro retable [OF assms(1,2), of "Releasing r"]) (simp_all add: respond_unregister_def RemovePunchAttempt_def set_phase_def fun_upd_idem)

lemma release_ok:
  assumes "tables_ok s" "sp_calls s c = Some cl" "cl_phase cl = Releasing r"
  shows "tables_ok (respond_release c cl r s)"
proof -
  note h = held [OF assms(1,2), unfolded assms(3), simplified]
  have "pc_attempts (sp_conn s) (cl_id cl) \<noteq> Some meta" for meta
  proof
    assume "pc_attempts (sp_conn s) (cl_id cl) = Some meta"
    then obtain d x where x: "sp_calls s d = Some x" "cl_id x = cl_id cl" "registered (cl_phase x)"
      using tables_conn [OF assms(1)] by blast
    then have "d = c" using holder_unique [OF assms(1) x(1) assms(2) x(2)] registered_holding [OF x(3)] assms(3) by simp
    then show False using x assms(2,3) by simp
  qed
  then have n: "pc_attempts (sp_conn s) (cl_id cl) = None" by auto
  show ?thesis using h n assms(3)
    by (intro retable [OF assms(1,2), of "Finished r"]) (simp_all add: respond_release_def set_phase_def fun_upd_idem)
qed

lemma same_tables:
  "tables_ok s \<Longrightarrow> sp_calls s' = sp_calls s \<Longrightarrow> sp_attempts s' = sp_attempts s \<Longrightarrow>
   pc_attempts (sp_conn s') = pc_attempts (sp_conn s) \<Longrightarrow> tables_ok s'"
  by (simp add: tables_ok_def)

lemma receive_attempts: "pc_attempts (fst (pc_receive lib h ids packet f c)) = pc_attempts c"
  by (auto simp: pc_receive_def emitSTUN_def emitPunch_def split: option.splits)

lemma step_tables:
  assumes "punch_step lib h s s'" "tables_ok s"
  shows "tables_ok s'"
  using assms
proof (induction rule: punch_step.induct)
  case (start c i meta cands config s s')
  then show ?case by (rule start_ok [rotated])
next
  case (unreserve s c cl err)
  then show ?case using tables_calls [of s c cl] by simp
next
  case (expire s c cl err)
  show ?case
    by (rule phase_only [OF expire(3,1), of "Unregistering (Inl err)"])
      (simp_all add: expire(2) respond_done_def set_phase_def)
next
  case (event s c cl ev evs)
  show ?case
    by (rule phase_only [OF event(4,1), of "Unregistering (Inr (pe_From ev, pe_Packet ev))"])
      (simp_all add: event(2) respond_event_def set_phase_def)
next
  case (receive s ids packet f)
  show ?case by (rule same_tables [OF receive]) (simp_all add: receive_attempts)
next
  case (tick s c cl)
  show ?case by (rule same_tables [OF tick(3)]) (simp_all add: respond_tick_def)
next
  case (take_event s ev evs)
  show ?case by (rule same_tables [OF take_event(3)]) simp_all
next
  case (look_up s ev)
  show ?case by (rule same_tables [OF look_up(2)]) (simp_all add: dispatch_lookup_def)
next
  case (send_event s c ev)
  show ?case by (rule same_tables [OF send_event(2)]) (simp_all add: dispatch_send_def)
qed (rule reserve_ok register_ok unregister_ok release_ok; assumption)+

lemma reach_tables: "punch_reachable lib h buf s \<Longrightarrow> tables_ok s"
proof (induction rule: punch_reachable.induct)
  case init
  show ?case by (simp add: tables_ok_def NewServerPuncher_def NewPunchPacketConn_def)
qed (rule step_tables)

section \<open>Queues\<close>

definition queues_ok :: "puncher \<Rightarrow> bool" where
  "queues_ok s \<longleftrightarrow> length (pc_events (sp_conn s)) \<le> pc_cap (sp_conn s) \<and> length (pc_stun (sp_conn s)) \<le> pc_cap (sp_conn s) \<and>
     (\<forall>c. length (sp_chan s c) \<le> defaultServerPunchEventBuffer)"

lemmas respond_defs = respond_start_def respond_reserve_def respond_register_def respond_unreserve_def respond_done_def
  respond_tick_def respond_event_def respond_unregister_def respond_release_def set_phase_def

lemma AddPunchAttempt_frame:
  "AddPunchAttempt i meta c = (c', r) \<Longrightarrow> pc_events c' = pc_events c \<and> pc_stun c' = pc_stun c \<and> pc_cap c' = pc_cap c"
  by (auto simp: AddPunchAttempt_def split: if_splits sum.splits)

lemma receive_queues:
  "length (pc_events c) \<le> pc_cap c \<Longrightarrow> length (pc_stun c) \<le> pc_cap c \<Longrightarrow>
   length (pc_events (fst (pc_receive lib h ids packet f c))) \<le> pc_cap (fst (pc_receive lib h ids packet f c)) \<and>
   length (pc_stun (fst (pc_receive lib h ids packet f c))) \<le> pc_cap (fst (pc_receive lib h ids packet f c))"
  by (auto simp: pc_receive_def emitSTUN_def emitPunch_def split: option.splits)

lemma step_queues: "punch_step lib h s s' \<Longrightarrow> queues_ok s \<Longrightarrow> queues_ok s'"
proof (induction rule: punch_step.induct)
  case (register s c cl)
  obtain c' r where a: "AddPunchAttempt (cl_id cl) (cl_meta cl) (sp_conn s) = (c', r)" by fastforce
  show ?case using register AddPunchAttempt_frame [OF a]
    by (cases r) (simp_all add: queues_ok_def respond_register_def a set_phase_def)
next
  case (event s c cl ev evs)
  have "length evs \<le> defaultServerPunchEventBuffer"
    using event(3,4) by (metis queues_ok_def Suc_leD length_Cons)
  then show ?case using event by (simp add: queues_ok_def respond_event_def set_phase_def)
next
  case (receive s ids packet f)
  then show ?case using receive_queues [of "sp_conn s"] by (simp add: queues_ok_def)
next
  case (send_event s c ev)
  then show ?case by (simp add: queues_ok_def dispatch_send_def)
qed (auto simp: queues_ok_def respond_defs RemovePunchAttempt_def dispatch_lookup_def split: if_splits)

section \<open>Where results come from\<close>

fun phase_result :: "phase \<Rightarrow> (AddrPort \<times> PunchPacket) option" where
  "phase_result (Unregistering (Inr r)) = Some r"
| "phase_result (Releasing (Inr r)) = Some r"
| "phase_result (Finished (Inr r)) = Some r"
| "phase_result _ = None"

definition has_id :: "puncher \<Rightarrow> nat \<Rightarrow> string \<Rightarrow> bool" where
  "has_id s c i \<longleftrightarrow> (\<exists>cl. sp_calls s c = Some cl \<and> cl_id cl = i)"

text \<open>A packet that some packet on the wire decoded to, with the parameters of an attempt of this identifier.\<close>

definition prov :: "(bytes \<Rightarrow> bytes) \<Rightarrow> puncher \<Rightarrow> string \<Rightarrow> PunchPacket \<Rightarrow> bool" where
  "prov h s i p \<longleftrightarrow> (\<exists>c cl packet. sp_calls s c = Some cl \<and> cl_id cl = i \<and> DecodePunchPacket h packet (cl_meta cl) = Inr p)"

definition pending :: "puncher \<Rightarrow> (nat option \<times> punchEvent) set" where
  "pending s = {(None, ev) | ev. ev \<in> set (pc_events (sp_conn s)) \<or> sp_hand s = Got ev} \<union>
     {(Some c, ev) | c ev. sp_hand s = For c ev \<or> ev \<in> set (sp_chan s c)}"

definition good :: "(bytes \<Rightarrow> bytes) \<Rightarrow> puncher \<Rightarrow> nat option \<times> punchEvent \<Rightarrow> bool" where
  "good h s = (\<lambda>(ch, ev). prov h s (pe_AttemptID ev) (pe_Packet ev) \<and> (\<forall>c. ch = Some c \<longrightarrow> has_id s c (pe_AttemptID ev)))"

definition traced :: "(bytes \<Rightarrow> bytes) \<Rightarrow> puncher \<Rightarrow> bool" where
  "traced h s \<longleftrightarrow> (\<forall>x \<in> pending s. good h s x) \<and>
     (\<forall>c cl r. sp_calls s c = Some cl \<and> phase_result (cl_phase cl) = Some r \<longrightarrow> prov h s (cl_id cl) (snd r))"

definition calls_le :: "puncher \<Rightarrow> puncher \<Rightarrow> bool" where
  "calls_le s s' \<longleftrightarrow> (\<forall>c cl. sp_calls s c = Some cl \<longrightarrow>
     (\<exists>cl'. sp_calls s' c = Some cl' \<and> cl_id cl' = cl_id cl \<and> cl_meta cl' = cl_meta cl))"

lemma calls_le_same: "sp_calls s' = sp_calls s \<Longrightarrow> calls_le s s'"
  by (simp add: calls_le_def)

lemma calls_le_phase:
  "sp_calls s c = Some cl \<Longrightarrow> sp_calls s' = (sp_calls s)(c \<mapsto> cl\<lparr>cl_phase := p\<rparr>) \<Longrightarrow> calls_le s s'"
  by (simp add: calls_le_def)

lemma prov_mono: "calls_le s s' \<Longrightarrow> prov h s i p \<Longrightarrow> prov h s' i p"
  unfolding prov_def calls_le_def by metis

lemma has_id_mono: "calls_le s s' \<Longrightarrow> has_id s c i \<Longrightarrow> has_id s' c i"
  unfolding has_id_def calls_le_def by metis

lemma good_mono: "calls_le s s' \<Longrightarrow> good h s x \<Longrightarrow> good h s' x"
  by (cases x) (auto simp: good_def intro: prov_mono has_id_mono)

lemma traced_same:
  assumes "traced h s" "sp_calls s' = sp_calls s" "\<And>x. x \<in> pending s' \<Longrightarrow> x \<in> pending s \<or> good h s' x"
  shows "traced h s'"
proof -
  note le = calls_le_same [OF assms(2)]
  have "good h s' x" if "x \<in> pending s'" for x
    using assms(3) [OF that] assms(1) good_mono [OF le] unfolding traced_def by blast
  moreover have "prov h s' (cl_id cl) (snd r)" if "sp_calls s' c = Some cl" "phase_result (cl_phase cl) = Some r" for c cl r
    using that assms(1) prov_mono [OF le] unfolding traced_def assms(2) by blast
  ultimately show ?thesis by (auto simp: traced_def)
qed

lemma traced_phase:
  assumes "traced h s" "sp_calls s c = Some cl" "sp_calls s' = (sp_calls s)(c \<mapsto> cl\<lparr>cl_phase := p\<rparr>)"
    and "pending s' \<subseteq> pending s"
    and "\<And>r. phase_result p = Some r \<Longrightarrow> phase_result (cl_phase cl) = Some r \<or> prov h s (cl_id cl) (snd r)"
  shows "traced h s'"
proof -
  note le = calls_le_phase [OF assms(2,3)]
  have "good h s' x" if "x \<in> pending s'" for x
    using that assms(1,4) good_mono [OF le] unfolding traced_def by blast
  moreover have "prov h s' (cl_id x) (snd r)" if "sp_calls s' d = Some x" "phase_result (cl_phase x) = Some r" for d x r
  proof (cases "d = c")
    case True
    then have x: "x = cl\<lparr>cl_phase := p\<rparr>" using that(1) by (simp add: assms(3))
    then have "phase_result p = Some r" using that(2) by simp
    then have "phase_result (cl_phase cl) = Some r \<or> prov h s (cl_id cl) (snd r)" by (rule assms(5))
    then have "prov h s (cl_id cl) (snd r)" using assms(1,2) unfolding traced_def by blast
    then show ?thesis using x prov_mono [OF le] by simp
  next
    case False
    then have "sp_calls s d = Some x" using that(1) by (simp add: assms(3))
    then show ?thesis using that(2) assms(1) prov_mono [OF le] unfolding traced_def by blast
  qed
  ultimately show ?thesis by (auto simp: traced_def)
qed

lemma first_match_Some:
  "first_match h attempts packet ids = Some (i, p) \<Longrightarrow> \<exists>meta. attempts i = Some meta \<and> DecodePunchPacket h packet meta = Inr p"
  by (induction ids) (auto split: option.splits sum.splits)

lemma receive_prov:
  assumes "tables_ok s" "ev \<in> set (pc_events (fst (pc_receive lib h ids packet f (sp_conn s))))"
  shows "ev \<in> set (pc_events (sp_conn s)) \<or> prov h s (pe_AttemptID ev) (pe_Packet ev)"
proof (rule disjCI)
  assume n: "\<not> prov h s (pe_AttemptID ev) (pe_Packet ev)"
  have "prov h s (pe_AttemptID e) (pe_Packet e)" if e0: "decodePunchPacket h ids (sp_conn s) packet f = Some e" for e
  proof -
    obtain i p a where e: "first_match h (pc_attempts (sp_conn s)) packet ids = Some (i, p)"
      "e = \<lparr>pe_AttemptID = i, pe_From = a, pe_Packet = p\<rparr>"
      using e0 by (auto simp: decodePunchPacket_def split: option.splits prod.splits)
    then show ?thesis using first_match_Some [OF e(1)] tables_conn [OF assms(1)] by (fastforce simp: prov_def)
  qed
  then show "ev \<in> set (pc_events (sp_conn s))"
    using assms(2) n by (auto simp: pc_receive_def emitSTUN_def emitPunch_def split: option.splits if_splits)
qed

lemma traced_pending: "traced h s \<Longrightarrow> x \<in> pending s \<Longrightarrow> good h s x"
  by (simp add: traced_def)

lemma pending_chan: "ev \<in> set (sp_chan s c) \<Longrightarrow> (Some c, ev) \<in> pending s"
  by (simp add: pending_def)

lemma register_fields:
  obtains p where "sp_calls (respond_register c cl s) = (sp_calls s)(c \<mapsto> cl\<lparr>cl_phase := p\<rparr>)" "phase_result p = None"
    "pending (respond_register c cl s) = pending s"
proof -
  obtain c' r where a: "AddPunchAttempt (cl_id cl) (cl_meta cl) (sp_conn s) = (c', r)" by fastforce
  show ?thesis
  proof (cases r)
    case None
    then show ?thesis using that [of Waiting] a AddPunchAttempt_frame [OF a]
      by (simp add: respond_register_def set_phase_def pending_def)
  next
    case (Some e)
    then show ?thesis using that [of "Failing e"] a AddPunchAttempt_frame [OF a]
      by (simp add: respond_register_def set_phase_def pending_def)
  qed
qed

lemma start_traced:
  assumes "traced h s" "respond_start c i meta cands config s = Some s'"
  shows "traced h s'"
proof -
  obtain x where n: "sp_calls s c = None" and s': "s' = s\<lparr>sp_calls := (sp_calls s)(c \<mapsto> x)\<rparr>" "phase_result (cl_phase x) = None"
    using assms(2) by (auto simp: respond_start_def split: if_splits option.splits)
  have le: "calls_le s s'" using n by (auto simp: calls_le_def s')
  have "pending s' = pending s" by (simp add: pending_def s')
  then have "good h s' y" if "y \<in> pending s'" for y using that traced_pending [OF assms(1)] good_mono [OF le] by blast
  moreover have "prov h s' (cl_id y) (snd r)" if "sp_calls s' d = Some y" "phase_result (cl_phase y) = Some r" for d y r
  proof -
    have "d \<noteq> c" using that s'(2) by (auto simp: s'(1))
    then have "sp_calls s d = Some y" using that by (simp add: s'(1))
    then show ?thesis using that(2) assms(1) prov_mono [OF le] unfolding traced_def by blast
  qed
  ultimately show ?thesis unfolding traced_def by blast
qed

lemma pending_chan_sub:
  assumes "\<And>d. set (sp_chan s' d) \<subseteq> set (sp_chan s d)" "sp_hand s' = sp_hand s"
    and "pc_events (sp_conn s') = pc_events (sp_conn s)"
  shows "pending s' \<subseteq> pending s"
  using assms(1) unfolding pending_def assms(2,3) by blast

lemma step_traced:
  assumes "punch_step lib h s s'" "tables_ok s" "traced h s"
  shows "traced h s'"
  using assms
proof (induction rule: punch_step.induct)
  case (start c i meta cands config s s')
  show ?case by (rule start_traced [OF start(3,1)])
next
  case (reserve s c cl)
  show ?case
    by (rule traced_phase [OF reserve(4,1),
          of _ "if sp_attempts s (cl_id cl) \<noteq> None then Finished (Inl DuplicateId) else Registering"])
      (auto simp: respond_reserve_def set_phase_def pending_def split: if_splits)
next
  case (register s c cl)
  obtain p where "sp_calls (respond_register c cl s) = (sp_calls s)(c \<mapsto> cl\<lparr>cl_phase := p\<rparr>)" "phase_result p = None"
    "pending (respond_register c cl s) = pending s" by (rule register_fields)
  then show ?case by (intro traced_phase [OF register(4,1), of _ p]) simp_all
next
  case (unreserve s c cl err)
  show ?case by (rule traced_phase [OF unreserve(4,1), of _ "Finished (Inl err)"])
      (simp_all add: respond_unreserve_def set_phase_def pending_def)
next
  case (expire s c cl err)
  show ?case by (rule traced_phase [OF expire(4,1), of _ "Unregistering (Inl err)"])
      (simp_all add: respond_done_def set_phase_def pending_def)
next
  case (tick s c cl)
  show ?case by (rule traced_same [OF tick(4)]) (simp_all add: respond_tick_def pending_def)
next
  case (event s c cl ev evs)
  have "good h s (Some c, ev)" using traced_pending [OF event(5)] pending_chan [of ev s c] event(3) by simp
  then have "prov h s (cl_id cl) (pe_Packet ev)" using event(1) by (auto simp: good_def has_id_def)
  moreover have "pending (respond_event c cl ev evs s) \<subseteq> pending s"
    using event(3) by (intro pending_chan_sub) (auto simp: respond_event_def set_phase_def)
  ultimately show ?case
    by (intro traced_phase [OF event(5,1), of _ "Unregistering (Inr (pe_From ev, pe_Packet ev))"])
      (auto simp: respond_event_def set_phase_def)
next
  case (unregister s c cl r)
  show ?case by (rule traced_phase [OF unregister(4,1), of _ "Releasing r"])
      (cases r; simp add: respond_unregister_def RemovePunchAttempt_def set_phase_def pending_def unregister(2))+
next
  case (release s c cl r)
  show ?case by (rule traced_phase [OF release(4,1), of _ "Finished r"])
      (cases r; simp add: respond_release_def set_phase_def pending_def release(2))+
next
  case (receive s ids packet f)
  define s1 where "s1 = s\<lparr>sp_conn := fst (pc_receive lib h ids packet f (sp_conn s))\<rparr>"
  have "x \<in> pending s \<or> good h s1 x" if x: "x \<in> pending s1" for x
  proof (cases "\<exists>ev. x = (None, ev) \<and> ev \<in> set (pc_events (sp_conn s1))")
    case True
    then obtain ev where ev: "x = (None, ev)" "ev \<in> set (pc_events (fst (pc_receive lib h ids packet f (sp_conn s))))"
      by (auto simp: s1_def)
    have le: "calls_le s s1" by (simp add: calls_le_same s1_def)
    show ?thesis using receive_prov [OF receive(1) ev(2)] prov_mono [OF le] by (auto simp: ev(1) pending_def good_def)
  next
    case False
    then show ?thesis using x by (auto simp: pending_def s1_def)
  qed
  then show ?case unfolding s1_def [symmetric] by (intro traced_same [OF receive(2)]) (simp_all add: s1_def)
next
  case (take_event s ev evs)
  show ?case by (rule traced_same [OF take_event(4)]) (auto simp: take_event(1,2) pending_def)
next
  case (look_up s ev)
  have g: "good h s (None, ev)" using traced_pending [OF look_up(3)] look_up(1) by (simp add: pending_def)
  have "good h (dispatch_lookup ev s) (Some c, ev)" if "sp_attempts s (pe_AttemptID ev) = Some c" for c
  proof -
    have "has_id s c (pe_AttemptID ev)" using tables_attempts [OF look_up(2)] that by (auto simp: has_id_def)
    then have "good h s (Some c, ev)" using g by (simp add: good_def)
    then show ?thesis by (rule good_mono [rotated]) (simp add: calls_le_same dispatch_lookup_def)
  qed
  then show ?case
    by (intro traced_same [OF look_up(3)]) (auto simp: dispatch_lookup_def pending_def look_up(1) split: option.splits)
next
  case (send_event s c ev)
  show ?case by (rule traced_same [OF send_event(3)])
      (auto simp: send_event(1) dispatch_send_def pending_def split: if_splits)
qed


definition example_meta :: PunchMetadata where
  "example_meta = \<lparr>pm_Nonce = replicate 32 (CHR ''0''), pm_Obfs = replicate 64 (CHR ''a'')\<rparr>"

lemma example_meta_ok: "\<exists>r. decodePunchMetadata example_meta = Inr r"
proof -
  have "decodePunchMetadata example_meta = Inr (replicate 16 0, replicate 32 0xaa)" by code_simp
  then show ?thesis by blast
qed

definition default_config :: punchConfig where
  "default_config = \<lparr>pcf_Timeout = 0, pcf_Interval = 0, pcf_Family = AddrFamilyAny\<rparr>"


section \<open>The connection and the client\<close>

text \<open>
  The caller gets every packet that is neither a STUN response nor a punch packet, unchanged; a
  packet encoded with the parameters of a registered attempt never gets through to it.
\<close>

lemma receive_passes:
  assumes "decodeSTUNPacket lib packet = None" "\<forall>i meta. pc_attempts c i = Some meta \<longrightarrow> isl (DecodePunchPacket h packet meta)"
  shows "pc_receive lib h ids packet f c = (c, True)"
proof -
  have "first_match h (pc_attempts c) packet ids = None"
    using assms(2) by (induction ids) (fastforce simp: isl_def split: option.split sum.split)+
  then show ?thesis using assms(1) by (simp add: pc_receive_def decodePunchPacket_def split: option.split)
qed

lemma first_match_None:
  "first_match h attempts packet ids = None \<Longrightarrow> i \<in> set ids \<Longrightarrow> attempts i = Some meta \<Longrightarrow> isl (DecodePunchPacket h packet meta)"
  by (induction ids) (auto split: option.splits sum.splits)

lemma receive_takes:
  assumes "EncodePunchPacket h d t meta = Inr packet" "draws_ok d" "validPunchPacketType t" "meta_ok meta"
    and "pc_attempts c i = Some meta" "i \<in> set ids" "addrToAddrPort f = Some a"
  shows "\<not> snd (pc_receive lib h ids packet f c)"
proof -
  have "\<not> isl (DecodePunchPacket h packet meta)"
    using punch_roundtrip [OF assms(2-4), of h] assms(1) by auto
  then have "first_match h (pc_attempts c) packet ids \<noteq> None" using first_match_None assms(5,6) by blast
  then show ?thesis by (auto simp: pc_receive_def decodePunchPacket_def assms(7) split: option.splits)
qed

text \<open>
  The client returns with the address of the first packet that is valid for its attempt, and has
  answered a hello; until then it only sends hellos, to its candidates.
\<close>

lemma punch_loop_sound:
  assumes "punch_loop h meta cands interval nextSend rs = (sends, Some (Inr (a, p)))"
  shows "\<exists>r packet addr. r \<in> set rs \<and> pr_ctx r = None \<and> pr_read r = ReadPacket packet addr \<and> addrToAddrPort addr = Some a \<and>
    DecodePunchPacket h (take punchMaxWireLen packet) meta = Inr p \<and>
    (\<exists>hellos. sends = hellos @ (if pp_Type p = PunchPacketHello then [(PunchPacketAck, a)] else []) \<and>
       set hellos \<subseteq> {PunchPacketHello} \<times> set cands)"
  using assms
proof (induction rs arbitrary: nextSend sends)
  case (Cons r rs)
  define due where "due = (\<not> pr_now r < nextSend)"
  define se where "se = (if due then sendPunchPackets cands PunchPacketHello else [])"
  define next' where "next' = (if due then pr_now r + interval else nextSend)"
  obtain s1 res where rest: "punch_loop h meta cands interval next' rs = (s1, res)" by fastforce
  have c: "pr_ctx r = None" using Cons.prems by (cases "pr_ctx r") simp_all
  have se: "set se \<subseteq> {PunchPacketHello} \<times> set cands" by (auto simp: se_def sendPunchPackets_def)
  note eq = Cons.prems [unfolded punch_loop.simps c option.case Let_def due_def [symmetric], folded se_def next'_def, unfolded rest prod.case]
  have later: ?case if e1: "sends = se @ s1" and e2: "res = Some (Inr (a, p))"
  proof -
    obtain r' packet addr hellos where w: "r' \<in> set rs" "pr_ctx r' = None" "pr_read r' = ReadPacket packet addr"
      "addrToAddrPort addr = Some a" "DecodePunchPacket h (take punchMaxWireLen packet) meta = Inr p"
      "s1 = hellos @ (if pp_Type p = PunchPacketHello then [(PunchPacketAck, a)] else [])"
      "set hellos \<subseteq> {PunchPacketHello} \<times> set cands"
      using Cons.IH [OF rest [unfolded e2]] by blast
    show ?case
      by (intro exI [of _ r'] exI [of _ packet] exI [of _ addr] conjI exI [of _ "se @ hellos"]) (use w se e1 in simp_all)
  qed
  show ?case
  proof (cases "pr_read r")
    case ReadTimeout
    then show ?thesis using eq by (intro later) simp_all
  next
    case (ReadFails e)
    then show ?thesis using eq by simp
  next
    case (ReadPacket packet addr)
    show ?thesis
    proof (cases "addrToAddrPort addr")
      case None
      then show ?thesis using eq ReadPacket by (intro later) simp_all
    next
      case (Some peer)
      show ?thesis
      proof (cases "DecodePunchPacket h (take punchMaxWireLen packet) meta")
        case (Inl e)
        then show ?thesis using eq ReadPacket Some by (intro later) simp_all
      next
        case (Inr q)
        then have "peer = a" "q = p" "sends = se @ (if pp_Type p = PunchPacketHello then [(PunchPacketAck, a)] else [])"
          using eq ReadPacket Some by auto
        then show ?thesis using c ReadPacket Some Inr se
          by (intro exI [of _ r] exI [of _ packet] exI [of _ addr] conjI exI [of _ se]) simp_all
      qed
    qed
  qed
qed simp

end
