(* ===== verification/Realm_Addr.thy ===== *)
theory Realm_Addr
  imports Realm_Stun
begin

text \<open>
  \<open>extras/realm/addr.go\<close>: the addresses of realms.  Go's URL parser is an argument, and so is
  \<open>PathUnescape\<close>; a parsed URL is the record of what the code asks it for.
\<close>

record realm_url =
  ru_Scheme :: string
  ru_Opaque :: string
  ru_Host :: string
  ru_Hostname :: string
  ru_Port :: string
  ru_User :: "string option"
  ru_RawQuery :: string
  ru_ForceQuery :: bool
  ru_Fragment :: string
  ru_RawFragment :: string
  ru_Path :: string
  ru_EscapedPath :: string
  ru_Query :: "string \<rightharpoonup> string list"

definition SchemeHTTPS :: string where "SchemeHTTPS = ''realm''"
definition SchemeHTTP :: string where "SchemeHTTP = ''realm+http''"

datatype addr_error = InvalidScheme | InvalidAddr string

record Addr =
  ra_Scheme :: string
  ra_RendezvousScheme :: string
  ra_Token :: string
  ra_Host :: string
  ra_Port :: string
  ra_HostPort :: string
  ra_RealmID :: string
  ra_LocalPort :: int
  ra_Params :: "string \<rightharpoonup> string list"

definition schemeInfo :: "string \<Rightarrow> addr_error + string \<times> string" where
  "schemeInfo scheme =
     (if scheme = SchemeHTTPS then Inr (''https'', ''443'')
      else if scheme = SchemeHTTP then Inr (''http'', ''80'')
      else Inl InvalidScheme)"

definition parseRealmID :: "(string \<Rightarrow> string option) \<Rightarrow> realm_url \<Rightarrow> addr_error + string" where
  "parseRealmID unescape u =
     (if ru_Path u = [] \<or> ru_Path u = ''/'' then Inl (InvalidAddr ''realm id is required'')
      else (let p = ru_EscapedPath u; trimmed = (if HasPrefix p ''/'' then tl p else p)
            in if trimmed = [] \<or> Contains_str trimmed ''/'' then Inl (InvalidAddr ''realm id must be a single path segment'')
               else (case unescape trimmed of
                       None \<Rightarrow> Inl (InvalidAddr ''realm id must be a single path segment'')
                     | Some realmID \<Rightarrow>
                         if realmID = [] \<or> Contains_str realmID ''/''
                         then Inl (InvalidAddr ''realm id must be a single path segment'') else Inr realmID)))"

definition parseLocalPort :: "string list \<Rightarrow> addr_error + int" where
  "parseLocalPort values =
     (case values of
        [] \<Rightarrow> Inr 0
      | [v] \<Rightarrow>
          (case Atoi v of
             None \<Rightarrow> Inl (InvalidAddr ''lport must be an integer in 1-65535'')
           | Some p \<Rightarrow> if p < 1 \<or> p > 65535 then Inl (InvalidAddr ''lport must be an integer in 1-65535'') else Inr p)
      | _ \<Rightarrow> Inl (InvalidAddr ''lport must be specified at most once''))"

definition cloneValues :: "(string \<rightharpoonup> string list) \<Rightarrow> (string \<rightharpoonup> string list)" where
  "cloneValues v = (\<lambda>k. map_option (\<lambda>values. [] @ values) (v k))"

definition ParseAddr_realm ::
  "(string \<Rightarrow> string + realm_url) \<Rightarrow> (string \<Rightarrow> string option) \<Rightarrow> string \<Rightarrow> addr_error + Addr" where
  "ParseAddr_realm parse unescape s =
     (case parse s of
        Inl err \<Rightarrow> Inl (InvalidAddr err)
      | Inr u \<Rightarrow>
      case schemeInfo (ru_Scheme u) of
        Inl err \<Rightarrow> Inl err
      | Inr (rendezvousScheme, defaultPort) \<Rightarrow>
      if ru_Opaque u \<noteq> [] \<or> ru_Host u = [] then Inl (InvalidAddr ''rendezvous host is required'')
      else case ru_User u of
        None \<Rightarrow> Inl (InvalidAddr ''realm token is required'')
      | Some user \<Rightarrow>
      case unescape user of
        None \<Rightarrow> Inl (InvalidAddr ''realm token is required'')
      | Some token \<Rightarrow>
      if token = [] then Inl (InvalidAddr ''realm token is required'')
      else if ru_RawQuery u \<noteq> [] \<and> ru_ForceQuery u then Inl (InvalidAddr ''empty query marker is not supported'')
      else if ru_Fragment u \<noteq> [] \<or> ru_RawFragment u \<noteq> [] then Inl (InvalidAddr ''fragment is not supported'')
      else case parseRealmID unescape u of
        Inl err \<Rightarrow> Inl err
      | Inr realmID \<Rightarrow>
      if ru_Hostname u = [] then Inl (InvalidAddr ''rendezvous host is required'')
      else (let host = ru_Hostname u; port = (if ru_Port u = [] then defaultPort else ru_Port u)
            in case validatePort port of
                 Some err \<Rightarrow> Inl (InvalidAddr err)
               | None \<Rightarrow>
                   (let hostPort = JoinHostPort host port
                    in if SplitHostPort hostPort = None then Inl (InvalidAddr ''invalid rendezvous host or port'')
                       else (let params = cloneValues (ru_Query u)
                             in case parseLocalPort (case params ''lport'' of None \<Rightarrow> [] | Some vs \<Rightarrow> vs) of
                                  Inl err \<Rightarrow> Inl err
                                | Inr localPort \<Rightarrow>
                                    Inr \<lparr>ra_Scheme = ru_Scheme u, ra_RendezvousScheme = rendezvousScheme, ra_Token = token,
                                      ra_Host = host, ra_Port = port, ra_HostPort = hostPort, ra_RealmID = realmID,
                                      ra_LocalPort = localPort, ra_Params = params\<rparr>))))"

text \<open>The scheme and host of \<open>BaseURL\<close>.\<close>

definition BaseURL :: "Addr option \<Rightarrow> (string \<times> string) option" where
  "BaseURL a = map_option (\<lambda>a. (ra_RendezvousScheme a, ra_HostPort a)) a"

text \<open>What an address that has been parsed is like.\<close>

definition addr_wf :: "Addr \<Rightarrow> bool" where
  "addr_wf a \<longleftrightarrow>
     (ra_Scheme a, ra_RendezvousScheme a) \<in> {(SchemeHTTPS, ''https''), (SchemeHTTP, ''http'')} \<and>
     ra_Token a \<noteq> [] \<and> ra_Host a \<noteq> [] \<and> ra_RealmID a \<noteq> [] \<and> CHR ''/'' \<notin> set (ra_RealmID a) \<and>
     (\<exists>p. Atoi (ra_Port a) = Some p \<and> 0 < p \<and> p < 65536) \<and>
     ra_HostPort a = JoinHostPort (ra_Host a) (ra_Port a) \<and> SplitHostPort (ra_HostPort a) \<noteq> None \<and>
     0 \<le> ra_LocalPort a \<and> ra_LocalPort a < 65536"

lemma realm_id_wf: "parseRealmID unescape u = Inr i \<Longrightarrow> i \<noteq> [] \<and> CHR ''/'' \<notin> set i"
  by (auto simp: parseRealmID_def Let_def Contains_char split: if_splits option.splits)

lemma local_port_wf: "parseLocalPort vs = Inr p \<Longrightarrow> 0 \<le> p \<and> p < 65536"
  by (auto simp: parseLocalPort_def split: list.splits option.splits if_splits)

lemma valid_port_wf: "validatePort p = None \<Longrightarrow> \<exists>n. Atoi p = Some n \<and> 0 < n \<and> n < 65536"
  by (auto simp: validatePort_def split: option.splits if_splits)

lemma scheme_wf: "schemeInfo s = Inr (r, p) \<Longrightarrow> (s, r) \<in> {(SchemeHTTPS, ''https''), (SchemeHTTP, ''http'')}"
  by (auto simp: schemeInfo_def split: if_splits)

lemma realm_addr_wf:
  assumes "ParseAddr_realm parse unescape s = Inr a"
  shows "addr_wf a"
proof -
  obtain u where u: "parse s = Inr u" using assms by (cases "parse s") (simp_all add: ParseAddr_realm_def)
  obtain r dp where sch: "schemeInfo (ru_Scheme u) = Inr (r, dp)"
    using assms u by (cases "schemeInfo (ru_Scheme u)") (auto simp: ParseAddr_realm_def)
  define port where "port = (if ru_Port u = [] then dp else ru_Port u)"
  note A = assms [unfolded ParseAddr_realm_def u sum.case sch prod.case Let_def port_def [symmetric]]
  obtain user token where t: "ru_User u = Some user" "unescape user = Some token" "token \<noteq> []"
    using A by (auto split: if_splits option.splits)
  obtain i where i: "parseRealmID unescape u = Inr i" using A t by (auto split: if_splits sum.splits)
  have h: "ru_Hostname u \<noteq> []" "validatePort port = None" "SplitHostPort (JoinHostPort (ru_Hostname u) port) \<noteq> None"
    using A t i by (auto split: if_splits option.splits)
  obtain lp where lp: "parseLocalPort (case cloneValues (ru_Query u) ''lport'' of None \<Rightarrow> [] | Some vs \<Rightarrow> vs) = Inr lp"
    using A t i h by (auto split: if_splits sum.splits)
  have a: "a = \<lparr>ra_Scheme = ru_Scheme u, ra_RendezvousScheme = r, ra_Token = token, ra_Host = ru_Hostname u,
      ra_Port = port, ra_HostPort = JoinHostPort (ru_Hostname u) port, ra_RealmID = i, ra_LocalPort = lp,
      ra_Params = cloneValues (ru_Query u)\<rparr>"
    using A t i h lp by (auto split: if_splits)
  show ?thesis
    using scheme_wf [OF sch] t(3) realm_id_wf [OF i] valid_port_wf [OF h(2)] local_port_wf [OF lp] h
    by (simp add: a addr_wf_def)
qed

end
