(* ===== verification/Proxymux.thy ===== *)
theory Proxymux
  imports Hy_Prelude
begin

text \<open>
  The shared listener (\<open>app/internal/proxymux\<close>): SOCKS5 and HTTP proxies on one address, told apart
  by the first byte of a connection.

  A \<open>mux\<close> holds what the goroutines of one \<open>muxListener\<close> share and where each of them stands: the
  accept loop (\<open>loop_phase\<close>), the main loop (\<open>main_phase\<close>), a \<open>dispatch\<close> for every connection
  (\<open>conn_phase\<close>), and the callers of the listeners' methods.  A step is one action on a channel, or
  one critical section of \<open>l.lock\<close>; the sends and receives on the unbuffered channels are joint
  steps of both ends.  The two sub-listener fields are one function of the protocol; a channel is
  named by the listener it belongs to, listeners and connections by their index.  The base
  listener's results, the scheduler and the callers are the nondeterminism of the steps.
\<close>

section \<open>State\<close>

datatype proto = Socks | Http

record subListener =
  sb_proto :: proto
  sb_closed :: bool
  sb_closing :: nat
  sb_acceptClosed :: bool

datatype main_phase = MLook | MSelect "proto \<rightharpoonup> nat" | MIdle | MDelete | MCloseBase | MCloseChan | MSweep | MDone

datatype loop_phase = LAccept | LOffer nat | LEnding | LDone

datatype conn_phase = Offering | Reading | Routing byte nat | Delivered byte nat | Hung_up | Dropped

datatype mux_panic = NilListener | SendOnClosed | CloseOfClosed | CloseOfClosedSub

record muxListener =
  mx_baseOpen :: bool
  mx_acceptErr :: "string option"
  mx_acceptClosed :: bool
  mx_closed :: bool
  mx_reg :: "proto \<rightharpoonup> nat"
  mx_subs :: "subListener list"
  mx_conns :: "conn_phase list"
  mx_loop :: loop_phase
  mx_main :: main_phase
  mx_panic :: "mux_panic option"

definition newMuxListener :: muxListener where
  "newMuxListener = \<lparr>mx_baseOpen = True, mx_acceptErr = None, mx_acceptClosed = False, mx_closed = False,
     mx_reg = Map.empty, mx_subs = [], mx_conns = [], mx_loop = LAccept, mx_main = MLook, mx_panic = None\<rparr>"

definition newSubListener :: "proto \<Rightarrow> subListener" where
  "newSubListener k = \<lparr>sb_proto = k, sb_closed = False, sb_closing = 0, sb_acceptClosed = False\<rparr>"

definition set_conn :: "nat \<Rightarrow> conn_phase \<Rightarrow> muxListener \<Rightarrow> muxListener" where
  "set_conn c p l = l\<lparr>mx_conns := (mx_conns l)[c := p]\<rparr>"

definition set_sub :: "nat \<Rightarrow> subListener \<Rightarrow> muxListener \<Rightarrow> muxListener" where
  "set_sub n sl l = l\<lparr>mx_subs := (mx_subs l)[n := sl]\<rparr>"

section \<open>The accept loop\<close>

text \<open>\<open>Accept\<close> returns a connection or an error; then the connection is handed over, or the mux is closed.\<close>

definition loop_accept :: "muxListener \<Rightarrow> muxListener" where
  "loop_accept l = l\<lparr>mx_conns := mx_conns l @ [Offering], mx_loop := LOffer (length (mx_conns l))\<rparr>"

definition loop_error :: "string \<Rightarrow> muxListener \<Rightarrow> muxListener" where
  "loop_error err l = l\<lparr>mx_acceptErr := Some err, mx_loop := LEnding\<rparr>"

definition loop_closed :: "nat \<Rightarrow> muxListener \<Rightarrow> muxListener" where
  "loop_closed c l = set_conn c Dropped (l\<lparr>mx_loop := LEnding\<rparr>)"

definition loop_end :: "muxListener \<Rightarrow> muxListener" where
  "loop_end l = l\<lparr>mx_acceptClosed := True, mx_loop := LDone\<rparr>"

section \<open>The main loop\<close>

definition main_look :: "muxListener \<Rightarrow> muxListener" where
  "main_look l = l\<lparr>mx_main := MSelect (mx_reg l)\<rparr>"

definition main_conn :: "nat \<Rightarrow> muxListener \<Rightarrow> muxListener" where
  "main_conn c l = set_conn c Reading (l\<lparr>mx_loop := LAccept, mx_main := MLook\<rparr>)"

definition main_leave :: "muxListener \<Rightarrow> muxListener" where
  "main_leave l = l\<lparr>mx_main := MDelete\<rparr>"

text \<open>A sub-listener's channel is closed: it is forgotten unless it has been replaced.\<close>

definition main_subclosed :: "proto \<Rightarrow> nat \<Rightarrow> muxListener \<Rightarrow> muxListener" where
  "main_subclosed k n l =
     (case mx_reg l k of
        None \<Rightarrow> l\<lparr>mx_panic := Some NilListener\<rparr>
      | Some m \<Rightarrow>
          let l = (if m = n then l\<lparr>mx_reg := (mx_reg l)(k := None)\<rparr> else l)
          in l\<lparr>mx_main := MIdle\<rparr>)"

definition checkIdle :: "muxListener \<Rightarrow> bool" where
  "checkIdle l \<longleftrightarrow> mx_reg l Http = None \<and> mx_reg l Socks = None"

definition main_idle :: "muxListener \<Rightarrow> muxListener" where
  "main_idle l = (if checkIdle l then main_leave l else l\<lparr>mx_main := MLook\<rparr>)"

text \<open>The deferred function: the manager's entry, the base listener, the channel, the sub-listeners.\<close>

definition main_delete :: "muxListener \<Rightarrow> muxListener" where
  "main_delete l = l\<lparr>mx_main := MCloseBase\<rparr>"

definition main_close_base :: "muxListener \<Rightarrow> muxListener" where
  "main_close_base l = l\<lparr>mx_baseOpen := False, mx_main := MCloseChan\<rparr>"

definition main_close_chan :: "muxListener \<Rightarrow> muxListener" where
  "main_close_chan l =
     (if mx_closed l then l\<lparr>mx_panic := Some CloseOfClosed\<rparr> else l\<lparr>mx_closed := True, mx_main := MSweep\<rparr>)"

definition sweep_sub :: "proto \<Rightarrow> muxListener \<Rightarrow> muxListener" where
  "sweep_sub k l =
     (case mx_reg l k of
        None \<Rightarrow> l
      | Some n \<Rightarrow>
          let sl = mx_subs l ! n in
          if sb_acceptClosed sl then l\<lparr>mx_panic := Some CloseOfClosed\<rparr>
          else (set_sub n (sl\<lparr>sb_acceptClosed := True\<rparr>) l)\<lparr>mx_reg := (mx_reg l)(k := None)\<rparr>)"

definition main_sweep :: "muxListener \<Rightarrow> muxListener" where
  "main_sweep l = (sweep_sub Socks (sweep_sub Http l))\<lparr>mx_main := MDone\<rparr>"

section \<open>Dispatch\<close>

definition proto_of :: "byte \<Rightarrow> proto" where
  "proto_of b = (if b = 5 then Socks else Http)"

definition dispatch_byte :: "nat \<Rightarrow> byte \<Rightarrow> muxListener \<Rightarrow> muxListener" where
  "dispatch_byte c b l =
     (case mx_reg l (proto_of b) of
        None \<Rightarrow> set_conn c Hung_up l
      | Some target \<Rightarrow> set_conn c (Routing b target) l)"

text \<open>
  The select: the target's closing, or the send on its channel, which panics when the channel has
  been closed and otherwise waits for an \<open>Accept\<close>.
\<close>

definition offer_conn :: "nat \<Rightarrow> byte \<Rightarrow> nat \<Rightarrow> muxListener \<Rightarrow> muxListener" where
  "offer_conn c b n l =
     (if sb_acceptClosed (mx_subs l ! n) then l\<lparr>mx_panic := Some SendOnClosed\<rparr> else set_conn c (Delivered b n) l)"

section \<open>The listeners' methods\<close>

datatype listen_error = ProtocolInUse | ErrClosed | AcceptError string

definition listen_new :: "proto \<Rightarrow> muxListener \<Rightarrow> muxListener \<times> (listen_error + nat)" where
  "listen_new k l =
     (if mx_closed l then (l, Inl ErrClosed)
      else (l\<lparr>mx_subs := mx_subs l @ [newSubListener k], mx_reg := (mx_reg l)(k \<mapsto> length (mx_subs l))\<rparr>,
            Inr (length (mx_subs l))))"

definition listen_sub :: "proto \<Rightarrow> muxListener \<Rightarrow> muxListener \<times> (listen_error + nat)" where
  "listen_sub k l =
     (case mx_reg l k of
        None \<Rightarrow> listen_new k l
      | Some n \<Rightarrow>
          if \<not> sb_closed (mx_subs l ! n) then (l, Inl ProtocolInUse)
          else listen_new k (l\<lparr>mx_reg := (mx_reg l)(k := None)\<rparr>))"

definition ListenHTTP :: "muxListener \<Rightarrow> muxListener \<times> (listen_error + nat)" where
  "ListenHTTP = listen_sub Http"

definition ListenSOCKS :: "muxListener \<Rightarrow> muxListener \<times> (listen_error + nat)" where
  "ListenSOCKS = listen_sub Socks"

definition getAndClearAcceptError :: "muxListener \<Rightarrow> muxListener \<times> string option" where
  "getAndClearAcceptError l = (case mx_acceptErr l of None \<Rightarrow> (l, None) | Some err \<Rightarrow> (l\<lparr>mx_acceptErr := None\<rparr>, Some err))"

text \<open>What \<open>Accept\<close> returns without a connection, when the channel is closed by the mux.\<close>

definition accept_closed :: "muxListener \<Rightarrow> muxListener \<times> listen_error" where
  "accept_closed l =
     (case getAndClearAcceptError l of (l', Some err) \<Rightarrow> (l', AcceptError err) | (l', None) \<Rightarrow> (l', ErrClosed))"

text \<open>\<open>Close\<close> looks at the channel and then closes it, with nothing between two callers.\<close>

definition close_check :: "nat \<Rightarrow> muxListener \<Rightarrow> muxListener" where
  "close_check n l =
     (let sl = mx_subs l ! n in if sb_closed sl then l else set_sub n (sl\<lparr>sb_closing := sb_closing sl + 1\<rparr>) l)"

definition close_do :: "nat \<Rightarrow> muxListener \<Rightarrow> muxListener" where
  "close_do n l =
     (let sl = mx_subs l ! n in
      if sb_closed sl then l\<lparr>mx_panic := Some CloseOfClosedSub\<rparr>
      else set_sub n (sl\<lparr>sb_closed := True, sb_closing := sb_closing sl - 1\<rparr>) l)"

section \<open>The steps\<close>

text \<open>The steps of the mux's own goroutines, which need nobody outside.\<close>

inductive mux_inner :: "muxListener \<Rightarrow> muxListener \<Rightarrow> bool" where
  loop_closed: "mx_loop l = LOffer c \<Longrightarrow> mx_closed l \<Longrightarrow> mux_inner l (loop_closed c l)"
| loop_end: "mx_loop l = LEnding \<Longrightarrow> mux_inner l (loop_end l)"
| main_look: "mx_main l = MLook \<Longrightarrow> mux_inner l (main_look l)"
| main_closed: "mx_main l = MSelect r \<Longrightarrow> mx_closed l \<Longrightarrow> mux_inner l (main_leave l)"
| main_conn: "mx_main l = MSelect r \<Longrightarrow> mx_loop l = LOffer c \<Longrightarrow> mux_inner l (main_conn c l)"
| main_acceptClosed: "mx_main l = MSelect r \<Longrightarrow> mx_acceptClosed l \<Longrightarrow> mux_inner l (main_leave l)"
| main_subclosed: "mx_main l = MSelect r \<Longrightarrow> r k = Some n \<Longrightarrow> sb_closed (mx_subs l ! n) \<Longrightarrow>
    mux_inner l (main_subclosed k n l)"
| main_idle: "mx_main l = MIdle \<Longrightarrow> mux_inner l (main_idle l)"
| main_delete: "mx_main l = MDelete \<Longrightarrow> mux_inner l (main_delete l)"
| main_close_base: "mx_main l = MCloseBase \<Longrightarrow> mux_inner l (main_close_base l)"
| main_close_chan: "mx_main l = MCloseChan \<Longrightarrow> mux_inner l (main_close_chan l)"
| main_sweep: "mx_main l = MSweep \<Longrightarrow> mux_inner l (main_sweep l)"
| dispatch_closed: "c < length (mx_conns l) \<Longrightarrow> mx_conns l ! c = Routing b n \<Longrightarrow> sb_closed (mx_subs l ! n) \<Longrightarrow>
    mux_inner l (set_conn c Dropped l)"
| dispatch_panics: "c < length (mx_conns l) \<Longrightarrow> mx_conns l ! c = Routing b n \<Longrightarrow> sb_acceptClosed (mx_subs l ! n) \<Longrightarrow>
    mux_inner l (offer_conn c b n l)"

text \<open>The network's and the callers' steps.\<close>

inductive mux_outer :: "muxListener \<Rightarrow> muxListener \<Rightarrow> bool" where
  loop_accept: "mx_loop l = LAccept \<Longrightarrow> mx_baseOpen l \<Longrightarrow> mux_outer l (loop_accept l)"
| loop_error: "mx_loop l = LAccept \<Longrightarrow> mux_outer l (loop_error err l)"
| dispatch_fail: "c < length (mx_conns l) \<Longrightarrow> mx_conns l ! c = Reading \<Longrightarrow> mux_outer l (set_conn c Hung_up l)"
| dispatch_byte: "c < length (mx_conns l) \<Longrightarrow> mx_conns l ! c = Reading \<Longrightarrow> mux_outer l (dispatch_byte c b l)"
| accept: "c < length (mx_conns l) \<Longrightarrow> mx_conns l ! c = Routing b n \<Longrightarrow> \<not> sb_acceptClosed (mx_subs l ! n) \<Longrightarrow>
    mux_outer l (offer_conn c b n l)"
| listen_http: "mux_outer l (fst (ListenHTTP l))"
| listen_socks: "mux_outer l (fst (ListenSOCKS l))"
| accept_closed: "n < length (mx_subs l) \<Longrightarrow> sb_acceptClosed (mx_subs l ! n) \<Longrightarrow> mux_outer l (fst (accept_closed l))"
| close_check: "n < length (mx_subs l) \<Longrightarrow> mux_outer l (close_check n l)"
| close_do: "n < length (mx_subs l) \<Longrightarrow> 0 < sb_closing (mx_subs l ! n) \<Longrightarrow> mux_outer l (close_do n l)"

inductive mux_reachable :: "muxListener \<Rightarrow> bool" where
  init: "mux_reachable newMuxListener"
| inner: "mux_reachable l \<Longrightarrow> mx_panic l = None \<Longrightarrow> mux_inner l l' \<Longrightarrow> mux_reachable l'"
| outer: "mux_reachable l \<Longrightarrow> mx_panic l = None \<Longrightarrow> mux_outer l l' \<Longrightarrow> mux_reachable l'"


section \<open>Invariants\<close>

text \<open>
  The registered listeners are open ends of their own protocol, and a listener that neither its
  caller nor the mux has closed is registered.
\<close>

definition regs_fit :: "(proto \<rightharpoonup> nat) \<Rightarrow> subListener list \<Rightarrow> bool" where
  "regs_fit reg subs \<longleftrightarrow>
     (\<forall>k n. reg k = Some n \<longrightarrow> n < length subs \<and> sb_proto (subs ! n) = k \<and> \<not> sb_acceptClosed (subs ! n)) \<and>
     (\<forall>n < length subs. \<not> sb_closed (subs ! n) \<and> \<not> sb_acceptClosed (subs ! n) \<longrightarrow> reg (sb_proto (subs ! n)) = Some n)"

abbreviation regs_ok :: "muxListener \<Rightarrow> bool" where
  "regs_ok l \<equiv> regs_fit (mx_reg l) (mx_subs l)"

lemma regs_fitD: "regs_fit reg subs \<Longrightarrow> reg k = Some n \<Longrightarrow> n < length subs \<and> sb_proto (subs ! n) = k \<and> \<not> sb_acceptClosed (subs ! n)"
  by (simp add: regs_fit_def)

lemma regs_fit_open:
  "regs_fit reg subs \<Longrightarrow> n < length subs \<Longrightarrow> \<not> sb_closed (subs ! n) \<Longrightarrow> \<not> sb_acceptClosed (subs ! n) \<Longrightarrow>
   reg (sb_proto (subs ! n)) = Some n"
  by (simp add: regs_fit_def)

lemma regs_fit_forget:
  assumes "regs_fit reg subs" "reg k = Some n" "sb_closed (subs ! n)"
  shows "regs_fit (reg(k := None)) subs"
  unfolding regs_fit_def
proof (intro conjI allI impI)
  fix j m assume "(reg(k := None)) j = Some m"
  then have "reg j = Some m" by (simp split: if_splits)
  then show "m < length subs" "sb_proto (subs ! m) = j" "\<not> sb_acceptClosed (subs ! m)"
    using regs_fitD [OF assms(1)] by blast+
next
  fix m assume m: "m < length subs" "\<not> sb_closed (subs ! m) \<and> \<not> sb_acceptClosed (subs ! m)"
  then have "reg (sb_proto (subs ! m)) = Some m" using regs_fit_open [OF assms(1)] by blast
  moreover have "m \<noteq> n" using m assms(3) by blast
  ultimately show "(reg(k := None)) (sb_proto (subs ! m)) = Some m" using assms(2) by auto
qed

lemma regs_fit_new:
  assumes "regs_fit reg subs" "reg k = None"
  shows "regs_fit (reg(k \<mapsto> length subs)) (subs @ [newSubListener k])"
  unfolding regs_fit_def
proof (intro conjI allI impI)
  fix j n assume "(reg(k \<mapsto> length subs)) j = Some n"
  then show "n < length (subs @ [newSubListener k])" "sb_proto ((subs @ [newSubListener k]) ! n) = j"
    "\<not> sb_acceptClosed ((subs @ [newSubListener k]) ! n)"
    using regs_fitD [OF assms(1), of j n] by (auto simp: nth_append newSubListener_def split: if_splits)
next
  fix n assume n: "n < length (subs @ [newSubListener k])"
    "\<not> sb_closed ((subs @ [newSubListener k]) ! n) \<and> \<not> sb_acceptClosed ((subs @ [newSubListener k]) ! n)"
  show "(reg(k \<mapsto> length subs)) (sb_proto ((subs @ [newSubListener k]) ! n)) = Some n"
  proof (cases "n < length subs")
    case True
    then have "reg (sb_proto (subs ! n)) = Some n" using n(2) regs_fit_open [OF assms(1)] by (simp add: nth_append)
    then show ?thesis using True assms(2) by (auto simp: nth_append)
  next
    case False then show ?thesis using n(1) by (auto simp: nth_append newSubListener_def less_Suc_eq)
  qed
qed

lemma nth_update_within: "m < length xs \<Longrightarrow> xs[n := x] ! m = (if n = m then x else xs ! m)"
  by simp

lemma regs_fit_update:
  assumes "regs_fit reg subs" "sb_proto sl = sb_proto (subs ! n)" "sb_acceptClosed sl = sb_acceptClosed (subs ! n)"
    "sb_closed (subs ! n) \<longrightarrow> sb_closed sl"
  shows "regs_fit reg (subs[n := sl])"
  unfolding regs_fit_def
proof (intro conjI allI impI)
  fix j m assume "reg j = Some m"
  then have "m < length subs \<and> sb_proto (subs ! m) = j \<and> \<not> sb_acceptClosed (subs ! m)" by (rule regs_fitD [OF assms(1)])
  then show "m < length (subs[n := sl])" "sb_proto (subs[n := sl] ! m) = j" "\<not> sb_acceptClosed (subs[n := sl] ! m)"
    using assms(2,3) by (auto simp: nth_update_within)
next
  fix m assume "m < length (subs[n := sl])" "\<not> sb_closed (subs[n := sl] ! m) \<and> \<not> sb_acceptClosed (subs[n := sl] ! m)"
  then show "reg (sb_proto (subs[n := sl] ! m)) = Some m"
    using regs_fit_open [OF assms(1), of m] assms(2,3,4) by (auto simp: nth_update_within split: if_splits)
qed

text \<open>What the main loop has done, by where it stands.\<close>

fun phase_ok :: "main_phase \<Rightarrow> muxListener \<Rightarrow> bool" where
  "phase_ok (MSelect r) l \<longleftrightarrow> mx_baseOpen l \<and> \<not> mx_closed l \<and> (\<forall>k n. r k = Some n \<longrightarrow> mx_reg l k \<noteq> None \<and> n < length (mx_subs l))"
| "phase_ok MCloseChan l \<longleftrightarrow> \<not> mx_baseOpen l \<and> \<not> mx_closed l"
| "phase_ok MSweep l \<longleftrightarrow> \<not> mx_baseOpen l \<and> mx_closed l"
| "phase_ok MDone l \<longleftrightarrow> \<not> mx_baseOpen l \<and> mx_closed l \<and> mx_reg l = Map.empty"
| "phase_ok _ l \<longleftrightarrow> mx_baseOpen l \<and> \<not> mx_closed l"

definition subs_open :: "muxListener \<Rightarrow> bool" where
  "subs_open l \<longleftrightarrow> (\<forall>n < length (mx_subs l). sb_acceptClosed (mx_subs l ! n) \<longrightarrow> mx_main l = MDone)"

text \<open>Every connection is in one place, and goes to the listener its first byte names.\<close>

fun conn_ok :: "muxListener \<Rightarrow> nat \<Rightarrow> conn_phase \<Rightarrow> bool" where
  "conn_ok l c Offering = (mx_loop l = LOffer c)"
| "conn_ok l c (Routing b n) = (n < length (mx_subs l) \<and> sb_proto (mx_subs l ! n) = proto_of b \<and> mx_loop l \<noteq> LOffer c)"
| "conn_ok l c (Delivered b n) = (n < length (mx_subs l) \<and> sb_proto (mx_subs l ! n) = proto_of b \<and> mx_loop l \<noteq> LOffer c)"
| "conn_ok l c _ = (mx_loop l \<noteq> LOffer c)"

definition conns_ok :: "muxListener \<Rightarrow> bool" where
  "conns_ok l \<longleftrightarrow> (\<forall>c < length (mx_conns l). conn_ok l c (mx_conns l ! c)) \<and> (\<forall>c. mx_loop l = LOffer c \<longrightarrow> c < length (mx_conns l)) \<and>
     (mx_acceptClosed l \<longleftrightarrow> mx_loop l = LDone)"

lemmas mux_steps = loop_accept_def loop_error_def loop_closed_def loop_end_def main_look_def main_conn_def main_leave_def
  main_idle_def main_delete_def main_close_base_def main_close_chan_def set_conn_def set_sub_def

lemmas mux_calls = ListenHTTP_def ListenSOCKS_def listen_sub_def listen_new_def newSubListener_def accept_closed_def
  getAndClearAcceptError_def close_check_def close_do_def dispatch_byte_def offer_conn_def

lemma proto_exhaust: "k = Http \<or> k = Socks" for k by (cases k) auto

definition mark_closed :: "nat option \<Rightarrow> subListener list \<Rightarrow> subListener list" where
  "mark_closed r subs = (case r of None \<Rightarrow> subs | Some n \<Rightarrow> subs[n := (subs ! n)\<lparr>sb_acceptClosed := True\<rparr>])"

lemma length_mark_closed [simp]: "length (mark_closed r subs) = length subs"
  by (simp add: mark_closed_def split: option.split)

lemma nth_mark_closed:
  "n < length subs \<Longrightarrow> mark_closed r subs ! n = (if r = Some n then (subs ! n)\<lparr>sb_acceptClosed := True\<rparr> else subs ! n)"
  by (simp add: mark_closed_def nth_list_update split: option.split)

lemma sweep_sub_exact:
  assumes "\<forall>n. mx_reg l k = Some n \<longrightarrow> \<not> sb_acceptClosed (mx_subs l ! n)"
  shows "sweep_sub k l = l\<lparr>mx_subs := mark_closed (mx_reg l k) (mx_subs l), mx_reg := (mx_reg l)(k := None)\<rparr>"
  using assms by (auto simp: sweep_sub_def mark_closed_def set_sub_def Let_def fun_upd_idem split: option.split)

lemma sweep_exact:
  assumes "regs_ok l"
  shows "main_sweep l = l\<lparr>mx_subs := mark_closed (mx_reg l Socks) (mark_closed (mx_reg l Http) (mx_subs l)),
    mx_reg := Map.empty, mx_main := MDone\<rparr>"
proof -
  note r = regs_fitD [OF assms]
  have h: "sweep_sub Http l = l\<lparr>mx_subs := mark_closed (mx_reg l Http) (mx_subs l), mx_reg := (mx_reg l)(Http := None)\<rparr>"
    by (rule sweep_sub_exact) (simp add: r)
  have "mark_closed (mx_reg l Http) (mx_subs l) ! n = mx_subs l ! n" if "mx_reg l Socks = Some n" for n
  proof -
    have "mx_reg l Http \<noteq> Some n" using r [OF that] r [of Http n] by auto
    then show ?thesis using r [OF that] by (simp add: nth_mark_closed)
  qed
  then have s: "sweep_sub Socks (sweep_sub Http l) = (sweep_sub Http l)\<lparr>mx_subs := mark_closed (mx_reg (sweep_sub Http l) Socks)
      (mx_subs (sweep_sub Http l)), mx_reg := (mx_reg (sweep_sub Http l))(Socks := None)\<rparr>"
    by (intro sweep_sub_exact) (simp add: h r)
  have "(mx_reg l)(Http := None, Socks := None) = Map.empty" using proto_exhaust by (auto simp: fun_eq_iff)
  then show ?thesis unfolding main_sweep_def s unfolding h by simp
qed

lemma regs_fit_sweep:
  assumes "regs_fit reg subs"
  shows "regs_fit Map.empty (mark_closed (reg Socks) (mark_closed (reg Http) subs))"
  unfolding regs_fit_def
proof (intro conjI allI impI)
  fix n assume n: "n < length (mark_closed (reg Socks) (mark_closed (reg Http) subs))"
    "\<not> sb_closed (mark_closed (reg Socks) (mark_closed (reg Http) subs) ! n) \<and>
     \<not> sb_acceptClosed (mark_closed (reg Socks) (mark_closed (reg Http) subs) ! n)"
  then have "\<not> sb_closed (subs ! n)" "\<not> sb_acceptClosed (subs ! n)" "reg Socks \<noteq> Some n" "reg Http \<noteq> Some n" "n < length subs"
    by (auto simp: nth_mark_closed split: if_splits)
  then have False using regs_fit_open [OF assms, of n] by (cases "sb_proto (subs ! n)") simp_all
  then show "Map.empty (sb_proto (mark_closed (reg Socks) (mark_closed (reg Http) subs) ! n)) = Some n" ..
qed simp_all

section \<open>Every step keeps them\<close>

lemma inner_regs: "mux_inner l l' \<Longrightarrow> regs_ok l \<Longrightarrow> regs_ok l'"
proof (induction rule: mux_inner.induct)
  case (main_subclosed l r k n)
  then show ?case by (auto simp: main_subclosed_def regs_fit_forget split: option.split)
next
  case (main_sweep l)
  then show ?case by (simp add: sweep_exact regs_fit_sweep)
qed (auto simp: mux_steps offer_conn_def)

lemma listen_regs: "regs_ok l \<Longrightarrow> regs_ok (fst (listen_sub k l))"
proof (cases "mx_reg l k")
  case None
  then show ?thesis if "regs_ok l" using that by (simp add: listen_sub_def listen_new_def regs_fit_new)
next
  case (Some n)
  assume r: "regs_ok l"
  show ?thesis
  proof (cases "sb_closed (mx_subs l ! n)")
    case True
    then have f: "regs_fit ((mx_reg l)(k := None)) (mx_subs l)" by (rule regs_fit_forget [OF r Some])
    then show ?thesis using True Some regs_fit_new [OF f, of k] by (simp add: listen_sub_def listen_new_def)
  next
    case False then show ?thesis using Some r by (simp add: listen_sub_def)
  qed
qed

lemma outer_regs: "mux_outer l l' \<Longrightarrow> regs_ok l \<Longrightarrow> regs_ok l'"
proof (induction rule: mux_outer.induct)
  case listen_http then show ?case by (simp add: ListenHTTP_def listen_regs)
next
  case listen_socks then show ?case by (simp add: ListenSOCKS_def listen_regs)
next
  case close_check
  then show ?case by (simp add: close_check_def Let_def set_sub_def regs_fit_update)
next
  case close_do
  then show ?case by (simp add: close_do_def Let_def set_sub_def regs_fit_update)
qed (simp_all add: mux_steps accept_closed_def getAndClearAcceptError_def dispatch_byte_def offer_conn_def split: option.split)

lemma inner_phase: "mux_inner l l' \<Longrightarrow> regs_ok l \<Longrightarrow> phase_ok (mx_main l) l \<Longrightarrow> phase_ok (mx_main l') l'"
proof (induction rule: mux_inner.induct)
  case (main_look l)
  then show ?case using regs_fitD by (fastforce simp: main_look_def)
next
  case (main_subclosed l r k n)
  then show ?case by (auto simp: main_subclosed_def split: option.split)
next
  case (main_sweep l)
  then show ?case by (simp add: sweep_exact)
next
  case (dispatch_panics c l b n)
  then show ?case by (cases "mx_main l") (auto simp: offer_conn_def set_conn_def)
next
  case (dispatch_closed c l b n)
  then show ?case by (cases "mx_main l") (auto simp: set_conn_def)
next
  case (loop_closed l c)
  then show ?case by (cases "mx_main l") (auto simp: loop_closed_def set_conn_def)
next
  case (loop_end l)
  then show ?case by (cases "mx_main l") (auto simp: loop_end_def)
qed (auto simp: mux_steps)

lemma outer_phase:
  assumes "mux_outer l l'" "regs_ok l" "phase_ok (mx_main l) l"
  shows "phase_ok (mx_main l') l'"
proof -
  have listen: "phase_ok (mx_main (fst (listen_sub k l))) (fst (listen_sub k l))" for k
    using assms(3)
    by (cases "mx_main l") (auto simp: listen_sub_def listen_new_def intro!: less_SucI split: option.split)
  show ?thesis
    using assms(1,3)
  proof cases
    case listen_http then show ?thesis using listen by (simp add: ListenHTTP_def)
  next
    case listen_socks then show ?thesis using listen by (simp add: ListenSOCKS_def)
  qed (cases "mx_main l"; auto simp: mux_steps close_check_def close_do_def accept_closed_def getAndClearAcceptError_def
      dispatch_byte_def offer_conn_def Let_def split: option.split)+
qed

lemma conn_ok_cong:
  "conn_ok l c p \<Longrightarrow> mx_loop l' = mx_loop l \<Longrightarrow> length (mx_subs l) \<le> length (mx_subs l') \<Longrightarrow>
   (\<forall>n < length (mx_subs l). sb_proto (mx_subs l' ! n) = sb_proto (mx_subs l ! n)) \<Longrightarrow> conn_ok l' c p"
  by (cases p) auto

text \<open>A step that leaves the connections, the loop and the listeners' protocols as they are.\<close>

lemma conns_same:
  assumes "conns_ok l" "mx_conns l' = mx_conns l" "mx_loop l' = mx_loop l" "mx_acceptClosed l' = mx_acceptClosed l"
    "length (mx_subs l) \<le> length (mx_subs l')" "\<forall>n < length (mx_subs l). sb_proto (mx_subs l' ! n) = sb_proto (mx_subs l ! n)"
  shows "conns_ok l'"
proof -
  have "conn_ok l' c (mx_conns l' ! c)" if "c < length (mx_conns l')" for c
    using that assms(1,2) by (intro conn_ok_cong [OF _ assms(3,5,6)]) (simp add: conns_ok_def)
  then show ?thesis using assms(1-4) by (simp add: conns_ok_def)
qed

lemma conn_ok_elsewhere:
  "conn_ok l c p \<Longrightarrow> mx_loop l \<noteq> LOffer c \<Longrightarrow> mx_loop l' \<noteq> LOffer c \<Longrightarrow> mx_subs l' = mx_subs l \<Longrightarrow> conn_ok l' c p"
  by (cases p) auto

text \<open>A step that gives one connection a new place, and may move the accept loop, from it or to it.\<close>

lemma conns_move:
  assumes "conns_ok l" "c < length (mx_conns l')" "mx_subs l' = mx_subs l" "conn_ok l' c (mx_conns l' ! c)"
    and "\<And>d. d \<noteq> c \<Longrightarrow> d < length (mx_conns l') \<Longrightarrow> d < length (mx_conns l) \<and> mx_conns l' ! d = mx_conns l ! d"
    and "\<And>d. d \<noteq> c \<Longrightarrow> mx_loop l' = LOffer d \<longleftrightarrow> mx_loop l = LOffer d" "length (mx_conns l) \<le> length (mx_conns l')"
    and "mx_acceptClosed l' \<longleftrightarrow> mx_loop l' = LDone"
  shows "conns_ok l'"
proof -
  have "conn_ok l' d (mx_conns l' ! d)" if "d < length (mx_conns l')" for d
  proof (cases "d = c")
    case True then show ?thesis using assms(4) by simp
  next
    case False
    then have "conn_ok l d (mx_conns l' ! d)" using assms(1) assms(5) [OF False that] by (auto simp: conns_ok_def)
    then show ?thesis using assms(3) assms(6) [OF False] by (cases "mx_conns l' ! d") auto
  qed
  moreover have "d < length (mx_conns l')" if "mx_loop l' = LOffer d" for d
    using that assms(1,2,7) assms(6) [of d] unfolding conns_ok_def by (cases "d = c") (auto intro: less_le_trans)
  ultimately show ?thesis using assms(8) by (simp add: conns_ok_def)
qed

lemma conns_phase:
  assumes "conns_ok l" "c < length (mx_conns l)" "mx_conns l ! c \<noteq> Offering" "conn_ok l c p" "p \<noteq> Offering"
  shows "conns_ok (set_conn c p l)"
proof (rule conns_move [OF assms(1), of c])
  show "conn_ok (set_conn c p l) c (mx_conns (set_conn c p l) ! c)"
    using assms(2,4) by (cases p) (auto simp: set_conn_def)
qed (use assms in \<open>auto simp: set_conn_def conns_ok_def nth_update_within\<close>)

lemma conns_idle_loop:
  assumes "conns_ok l" "\<forall>c. mx_loop l \<noteq> LOffer c" "\<forall>c. mx_loop l' \<noteq> LOffer c" "mx_conns l' = mx_conns l" "mx_subs l' = mx_subs l"
    "mx_acceptClosed l' \<longleftrightarrow> mx_loop l' = LDone"
  shows "conns_ok l'"
  using assms unfolding conns_ok_def by (auto intro: conn_ok_elsewhere)

lemma conns_not_offered: "conns_ok l \<Longrightarrow> c < length (mx_conns l) \<Longrightarrow> mx_conns l ! c \<noteq> Offering \<Longrightarrow> mx_loop l \<noteq> LOffer c"
  unfolding conns_ok_def by (cases "mx_conns l ! c") fastforce+

lemma inner_conns: "mux_inner l l' \<Longrightarrow> conns_ok l \<Longrightarrow> regs_ok l \<Longrightarrow> conns_ok l'"
proof (induction rule: mux_inner.induct)
  case (loop_closed l c)
  then have "c < length (mx_conns l)" "\<not> mx_acceptClosed l" by (auto simp: conns_ok_def)
  then show ?case using loop_closed
    by - (rule conns_move [of l c]; auto simp: loop_closed_def set_conn_def nth_update_within)
next
  case (main_conn l r c)
  then have "c < length (mx_conns l)" "\<not> mx_acceptClosed l" by (auto simp: conns_ok_def)
  then show ?case using main_conn
    by - (rule conns_move [of l c]; auto simp: main_conn_def set_conn_def nth_update_within)
next
  case (loop_end l)
  then show ?case by - (rule conns_idle_loop [of l]; auto simp: loop_end_def)
next
  case (dispatch_closed c l b n)
  then show ?case by - (rule conns_phase; auto dest: conns_not_offered)
next
  case (dispatch_panics c l b n)
  then show ?case by - (rule conns_same [of l]; auto simp: offer_conn_def)
next
  case (main_subclosed l r k n)
  then show ?case by - (rule conns_same [of l]; auto simp: main_subclosed_def split: option.split)
next
  case (main_sweep l)
  then show ?case by - (rule conns_same [of l]; auto simp: sweep_exact nth_mark_closed)
qed (auto simp: mux_steps intro: conns_same)

lemma outer_conns: "mux_outer l l' \<Longrightarrow> conns_ok l \<Longrightarrow> regs_ok l \<Longrightarrow> conns_ok l'"
proof (induction rule: mux_outer.induct)
  case (loop_accept l)
  then show ?case by - (rule conns_move [of l "length (mx_conns l)"]; auto simp: loop_accept_def nth_append conns_ok_def)
next
  case (loop_error l err)
  then show ?case by - (rule conns_idle_loop [of l]; auto simp: loop_error_def conns_ok_def)
next
  case (dispatch_fail c l)
  then show ?case by - (rule conns_phase; auto dest: conns_not_offered)
next
  case (dispatch_byte c l b)
  then have "mx_loop l \<noteq> LOffer c" by (auto dest: conns_not_offered)
  moreover have "mx_reg l (proto_of b) = Some n \<Longrightarrow> n < length (mx_subs l) \<and> sb_proto (mx_subs l ! n) = proto_of b" for n
    using regs_fitD [OF dispatch_byte(4)] by blast
  ultimately show ?case using dispatch_byte
    by (cases "mx_reg l (proto_of b)") (auto simp: dispatch_byte_def intro!: conns_phase)
next
  case (accept c l b n)
  then have "conn_ok l c (Delivered b n)" by (force simp: conns_ok_def)
  then show ?case using accept by (simp add: offer_conn_def conns_phase)
next
  case listen_http
  then show ?case by - (rule conns_same; auto simp: ListenHTTP_def listen_sub_def listen_new_def nth_append split: option.split)
next
  case listen_socks
  then show ?case by - (rule conns_same; auto simp: ListenSOCKS_def listen_sub_def listen_new_def nth_append split: option.split)
next
  case close_check
  then show ?case by - (rule conns_same; auto simp: close_check_def Let_def set_sub_def nth_update_within)
next
  case close_do
  then show ?case by - (rule conns_same; auto simp: close_do_def Let_def set_sub_def nth_update_within)
qed (auto simp: accept_closed_def getAndClearAcceptError_def intro: conns_same split: option.split)

section \<open>The reachable states\<close>

lemma inner_panic:
  "mux_inner l l' \<Longrightarrow> mx_panic l = None \<Longrightarrow> regs_ok l \<Longrightarrow> phase_ok (mx_main l) l \<Longrightarrow>
   mx_panic l' \<in> {None, Some SendOnClosed}"
proof (induction rule: mux_inner.induct)
  case (main_subclosed l r k n)
  then show ?case by (auto simp: main_subclosed_def split: option.split)
next
  case (main_sweep l)
  then show ?case by (simp add: sweep_exact)
qed (auto simp: mux_steps offer_conn_def)

lemma outer_panic:
  "mux_outer l l' \<Longrightarrow> mx_panic l = None \<Longrightarrow> mx_panic l' \<in> {None, Some CloseOfClosedSub}"
  by (induction rule: mux_outer.induct)
    (auto simp: mux_steps ListenHTTP_def ListenSOCKS_def listen_sub_def listen_new_def close_check_def close_do_def
      accept_closed_def getAndClearAcceptError_def dispatch_byte_def offer_conn_def Let_def split: option.split)

lemma inner_open:
  "mux_inner l l' \<Longrightarrow> subs_open l \<Longrightarrow> regs_ok l \<Longrightarrow> subs_open l'"
proof (induction rule: mux_inner.induct)
  case (main_subclosed l r k n)
  then show ?case by (auto simp: subs_open_def main_subclosed_def split: option.split)
next
  case (main_sweep l)
  then show ?case by (simp add: sweep_exact subs_open_def)
qed (auto simp: mux_steps subs_open_def offer_conn_def)

lemma outer_open: "mux_outer l l' \<Longrightarrow> subs_open l \<Longrightarrow> subs_open l'"
proof (induction rule: mux_outer.induct)
  case close_check
  then show ?case by (auto simp: subs_open_def close_check_def Let_def set_sub_def nth_update_within split: if_splits)
next
  case close_do
  then show ?case by (auto simp: subs_open_def close_do_def Let_def set_sub_def nth_update_within split: if_splits)
qed (auto simp: subs_open_def mux_steps ListenHTTP_def ListenSOCKS_def listen_sub_def listen_new_def newSubListener_def
    accept_closed_def getAndClearAcceptError_def dispatch_byte_def offer_conn_def nth_append split: option.splits if_splits)

definition mux_ok :: "muxListener \<Rightarrow> bool" where
  "mux_ok l \<longleftrightarrow> regs_ok l \<and> phase_ok (mx_main l) l \<and> conns_ok l \<and> subs_open l \<and>
     mx_panic l \<in> {None, Some SendOnClosed, Some CloseOfClosedSub}"

lemma mux_ok_new: "mux_ok newMuxListener"
  by (simp add: mux_ok_def newMuxListener_def regs_fit_def conns_ok_def subs_open_def)

lemma mux_ok_step:
  assumes "mux_inner l l' \<or> mux_outer l l'" "mx_panic l = None" "mux_ok l"
  shows "mux_ok l'"
  using assms inner_regs outer_regs inner_phase outer_phase inner_conns outer_conns inner_open outer_open inner_panic outer_panic
  unfolding mux_ok_def by (elim disjE) (blast+)

lemma reach_mux_ok: "mux_reachable l \<Longrightarrow> mux_ok l"
  by (induction rule: mux_reachable.induct) (auto intro: mux_ok_new mux_ok_step)

text \<open>
  C38: Whatever the callers, the connections and the scheduler do: a connection that a sub-listener
  accepted is of its protocol; at most one open sub-listener of each protocol is registered, and one
  that neither its caller nor the mux has closed is the registered one, so none is ever forgotten;
  the main loop never panics; and when it has ended the address is free and every sub-listener's
  \<open>Accept\<close> returns.
\<close>

theorem mux_routes_and_releases:
  assumes "mux_reachable l"
  shows "(\<forall>c b n. c < length (mx_conns l) \<and> mx_conns l ! c = Delivered b n \<longrightarrow>
      n < length (mx_subs l) \<and> sb_proto (mx_subs l ! n) = proto_of b) \<and>
    (\<forall>k n. mx_reg l k = Some n \<longrightarrow> n < length (mx_subs l) \<and> sb_proto (mx_subs l ! n) = k \<and> \<not> sb_acceptClosed (mx_subs l ! n)) \<and>
    (\<forall>n < length (mx_subs l). sb_closed (mx_subs l ! n) \<or> sb_acceptClosed (mx_subs l ! n) \<or>
       mx_reg l (sb_proto (mx_subs l ! n)) = Some n) \<and>
    mx_panic l \<in> {None, Some SendOnClosed, Some CloseOfClosedSub} \<and>
    (mx_main l = MDone \<longrightarrow> \<not> mx_baseOpen l \<and> mx_reg l = Map.empty \<and>
       (\<forall>n < length (mx_subs l). sb_closed (mx_subs l ! n) \<or> sb_acceptClosed (mx_subs l ! n)))"
proof -
  have ok: "regs_ok l" "phase_ok (mx_main l) l" "conns_ok l" "mx_panic l \<in> {None, Some SendOnClosed, Some CloseOfClosedSub}"
    using reach_mux_ok [OF assms] by (auto simp: mux_ok_def)
  have "conn_ok l c (Delivered b n)" if "c < length (mx_conns l)" "mx_conns l ! c = Delivered b n" for c b n
    using ok(3) that unfolding conns_ok_def by metis
  then have routed: "\<forall>c b n. c < length (mx_conns l) \<and> mx_conns l ! c = Delivered b n \<longrightarrow>
      n < length (mx_subs l) \<and> sb_proto (mx_subs l ! n) = proto_of b" by (metis conn_ok.simps(3))
  have kept: "\<forall>n < length (mx_subs l). sb_closed (mx_subs l ! n) \<or> sb_acceptClosed (mx_subs l ! n) \<or>
       mx_reg l (sb_proto (mx_subs l ! n)) = Some n" using regs_fit_open [OF ok(1)] by blast
  have "mx_main l = MDone \<longrightarrow> \<not> mx_baseOpen l \<and> mx_reg l = Map.empty" using ok(2) by auto
  then have "mx_main l = MDone \<longrightarrow> \<not> mx_baseOpen l \<and> mx_reg l = Map.empty \<and>
       (\<forall>n < length (mx_subs l). sb_closed (mx_subs l ! n) \<or> sb_acceptClosed (mx_subs l ! n))"
    using kept by auto
  moreover have "\<forall>k n. mx_reg l k = Some n \<longrightarrow>
      n < length (mx_subs l) \<and> sb_proto (mx_subs l ! n) = k \<and> \<not> sb_acceptClosed (mx_subs l ! n)"
    using regs_fitD [OF ok(1)] by blast
  ultimately show ?thesis using routed kept ok(4) by (intro conjI)
qed

section \<open>Runs\<close>

text \<open>A step of a run, named by what happens, for the runs below.\<close>

datatype mux_event = EAcceptLoop | EAcceptError string | EAcceptEnd | ELook | ETake | EAcceptClosed | ESubClosed proto | EIdle
  | EDelete | ECloseBase | ECloseChan | ESweep | EByte nat byte | EHandOver nat | EGiveUp nat | EListen proto | EClose nat

text \<open>The step if it is enabled; the closing of a sub-listener is its two steps at once.\<close>

definition mux_try :: "mux_event \<Rightarrow> muxListener \<Rightarrow> muxListener option" where
  "mux_try e l =
     (case e of
        EAcceptLoop \<Rightarrow> if mx_loop l = LAccept \<and> mx_baseOpen l then Some (loop_accept l) else None
      | EAcceptError err \<Rightarrow> if mx_loop l = LAccept then Some (loop_error err l) else None
      | EAcceptEnd \<Rightarrow> if mx_loop l = LEnding then Some (loop_end l) else None
      | ELook \<Rightarrow> if mx_main l = MLook then Some (main_look l) else None
      | ETake \<Rightarrow> (case (mx_main l, mx_loop l) of (MSelect r, LOffer c) \<Rightarrow> Some (main_conn c l) | _ \<Rightarrow> None)
      | EAcceptClosed \<Rightarrow> (case mx_main l of MSelect r \<Rightarrow> if mx_acceptClosed l then Some (main_leave l) else None | _ \<Rightarrow> None)
      | ESubClosed k \<Rightarrow> (case mx_main l of
            MSelect r \<Rightarrow> (case r k of Some n \<Rightarrow> if sb_closed (mx_subs l ! n) then Some (main_subclosed k n l) else None | None \<Rightarrow> None)
          | _ \<Rightarrow> None)
      | EIdle \<Rightarrow> if mx_main l = MIdle then Some (main_idle l) else None
      | EDelete \<Rightarrow> if mx_main l = MDelete then Some (main_delete l) else None
      | ECloseBase \<Rightarrow> if mx_main l = MCloseBase then Some (main_close_base l) else None
      | ECloseChan \<Rightarrow> if mx_main l = MCloseChan then Some (main_close_chan l) else None
      | ESweep \<Rightarrow> if mx_main l = MSweep then Some (main_sweep l) else None
      | EByte c b \<Rightarrow> if c < length (mx_conns l) \<and> mx_conns l ! c = Reading then Some (dispatch_byte c b l) else None
      | EHandOver c \<Rightarrow> if c < length (mx_conns l) then
            (case mx_conns l ! c of Routing b n \<Rightarrow> Some (offer_conn c b n l) | _ \<Rightarrow> None) else None
      | EGiveUp c \<Rightarrow> if c < length (mx_conns l) then
            (case mx_conns l ! c of Routing b n \<Rightarrow> if sb_closed (mx_subs l ! n) then Some (set_conn c Dropped l) else None | _ \<Rightarrow> None) else None
      | EListen k \<Rightarrow> Some (fst (case k of Http \<Rightarrow> ListenHTTP l | Socks \<Rightarrow> ListenSOCKS l))
      | EClose n \<Rightarrow> if n < length (mx_subs l) \<and> \<not> sb_closed (mx_subs l ! n) then Some (close_do n (close_check n l)) else None)"

fun mux_run :: "mux_event list \<Rightarrow> muxListener \<Rightarrow> muxListener option" where
  "mux_run [] l = Some l"
| "mux_run (e # es) l = (if mx_panic l \<noteq> None then None else Option.bind (mux_try e l) (mux_run es))"

lemma mux_try_steps:
  assumes "mux_try e l = Some l'" "mux_reachable l" "mx_panic l = None"
  shows "mux_reachable l'"
proof (cases e)
  case (EClose n)
  then have n: "n < length (mx_subs l)" "\<not> sb_closed (mx_subs l ! n)" and l': "l' = close_do n (close_check n l)"
    using assms(1) by (auto simp: mux_try_def split: if_splits)
  have r: "mux_reachable (close_check n l)"
    by (rule mux_reachable.outer [OF assms(2,3)]) (rule mux_outer.close_check [OF n(1)])
  have "mx_panic (close_check n l) = None" "n < length (mx_subs (close_check n l))" "0 < sb_closing (mx_subs (close_check n l) ! n)"
    using assms(3) n by (simp_all add: close_check_def Let_def set_sub_def)
  then show ?thesis unfolding l' by (intro mux_reachable.outer [OF r] mux_outer.close_do)
next
  case (EHandOver c)
  then obtain b n where c: "c < length (mx_conns l)" "mx_conns l ! c = Routing b n" "l' = offer_conn c b n l"
    using assms(1) by (auto simp: mux_try_def split: if_splits conn_phase.splits)
  then show ?thesis
    using mux_reachable.inner [OF assms(2,3) mux_inner.dispatch_panics] mux_reachable.outer [OF assms(2,3) mux_outer.accept] by blast
next
  case (EListen k)
  then show ?thesis
    using assms mux_reachable.outer [OF assms(2,3) mux_outer.listen_http] mux_reachable.outer [OF assms(2,3) mux_outer.listen_socks]
    by (cases k) (auto simp: mux_try_def)
qed (use assms in \<open>auto simp: mux_try_def split: if_splits main_phase.splits loop_phase.splits option.splits conn_phase.splits
      intro: mux_reachable.inner mux_reachable.outer mux_inner.intros mux_outer.intros\<close>)

lemma mux_run_reachable: "mux_run es l = Some l' \<Longrightarrow> mux_reachable l \<Longrightarrow> mux_reachable l'"
  by (induction es arbitrary: l) (auto simp: Option.bind_eq_Some_conv split: if_splits dest: mux_try_steps)

lemmas mux_eval = mux_try_def newMuxListener_def newSubListener_def mux_steps mux_calls main_subclosed_def main_sweep_def sweep_sub_def
  proto_of_def checkIdle_def Let_def

text \<open>
  A sub-listener that is made while the main loop already waits is not watched: when it is closed
  nothing happens, and the address stays in use until a connection happens to arrive.
\<close>

lemma mux_close_unnoticed:
  "\<exists>l. mux_reachable l \<and> mx_panic l = None \<and> mx_subs l \<noteq> [] \<and> (\<forall>sl \<in> set (mx_subs l). sb_closed sl) \<and>
     mx_baseOpen l \<and> (\<nexists>l'. mux_inner l l')"
proof -
  obtain l where l: "mux_run [ELook, EListen Socks, EClose 0] newMuxListener = Some l"
    and s: "mx_main l = MSelect Map.empty" "mx_loop l = LAccept" "\<not> mx_closed l" "\<not> mx_acceptClosed l" "mx_conns l = []"
      "mx_panic l = None" "mx_baseOpen l" "mx_subs l = [\<lparr>sb_proto = Socks, sb_closed = True, sb_closing = 0, sb_acceptClosed = False\<rparr>]"
    by (simp add: mux_eval)
  have "\<nexists>l'. mux_inner l l'" using s by (auto elim: mux_inner.cases)
  then show ?thesis using s mux_run_reachable [OF l mux_reachable.init] by auto
qed

text \<open>
  When the base listener's \<open>Accept\<close> fails, the main loop closes the channel of a sub-listener on which
  a dispatched connection is waiting: the send panics, and with it the process ends.
\<close>

lemma mux_send_panics: "\<exists>l. mux_reachable l \<and> mx_panic l = Some SendOnClosed"
proof -
  obtain l where l: "mux_run [EListen Http, ELook, EAcceptLoop, ETake, EByte 0 71, ELook, EAcceptError ''too many open files'',
      EAcceptEnd, EAcceptClosed, EDelete, ECloseBase, ECloseChan, ESweep, EHandOver 0] newMuxListener = Some l"
    and "mx_panic l = Some SendOnClosed"
    by (simp add: mux_eval)
  then show ?thesis using mux_run_reachable [OF l mux_reachable.init] by blast
qed

text \<open>A connection that waits for a sub-listener when that is closed is left open and forgotten.\<close>

lemma mux_drops_connection:
  "\<exists>l. mux_reachable l \<and> mx_panic l = None \<and> mx_conns l = [Dropped]"
proof -
  obtain l where l: "mux_run [EListen Http, ELook, EAcceptLoop, ETake, EByte 0 71, EClose 0, EGiveUp 0] newMuxListener = Some l"
    and "mx_conns l = [Dropped]" "mx_panic l = None"
    by (simp add: mux_eval)
  then show ?thesis using mux_run_reachable [OF l mux_reachable.init] by blast
qed

lemma mux_routes_and_releases_witness:
  "\<exists>l. mux_reachable l \<and> mx_conns l = [Delivered 5 0, Delivered 71 1] \<and>
     map sb_proto (mx_subs l) = [Socks, Http] \<and> mx_panic l \<in> {None, Some SendOnClosed, Some CloseOfClosedSub}"
proof -
  obtain l where l: "mux_run [EListen Socks, EListen Http, ELook, EAcceptLoop, ETake, EAcceptLoop, ELook, ETake, EByte 1 71, EByte 0 5,
      EHandOver 0, EHandOver 1] newMuxListener = Some l"
    and s: "mx_conns l = [Delivered 5 0, Delivered 71 1]" "map sb_proto (mx_subs l) = [Socks, Http]"
    by (simp add: mux_eval)
  have r: "mux_reachable l" by (rule mux_run_reachable [OF l mux_reachable.init])
  have "mx_panic l \<in> {None, Some SendOnClosed, Some CloseOfClosedSub}"
    by (rule mux_routes_and_releases [OF r, THEN conjunct2, THEN conjunct2, THEN conjunct2, THEN conjunct1])
  then show ?thesis using r s by (intro exI [of _ l] conjI)
qed

section \<open>The manager\<close>

text \<open>
  \<open>muxManager\<close> keeps the mux of every address in use.  \<open>canon\<close> is \<open>canonicalizeAddrPort\<close>, which asks
  the resolver, and \<open>listen\<close> the system's answer to \<open>correctnet.Listen\<close>.
\<close>

record muxManager =
  mm_listeners :: "string \<rightharpoonup> nat"
  mm_muxes :: "(string \<times> muxListener) list"

definition newMuxManager :: muxManager where
  "newMuxManager = \<lparr>mm_listeners = Map.empty, mm_muxes = []\<rparr>"

definition GetOrCreate ::
  "(string \<Rightarrow> string + string) \<Rightarrow> (string \<Rightarrow> string option) \<Rightarrow> string \<Rightarrow> muxManager \<Rightarrow> muxManager \<times> (string + nat)" where
  "GetOrCreate canon listen address m =
     (case canon address of
        Inl err \<Rightarrow> (m, Inl err)
      | Inr key \<Rightarrow>
          (case mm_listeners m key of
             Some i \<Rightarrow> (m, Inr i)
           | None \<Rightarrow>
               (case listen key of
                  Some err \<Rightarrow> (m, Inl err)
                | None \<Rightarrow>
                    (m\<lparr>mm_listeners := (mm_listeners m)(key \<mapsto> length (mm_muxes m)),
                       mm_muxes := mm_muxes m @ [(key, newMuxListener)]\<rparr>, Inr (length (mm_muxes m))))))"

text \<open>A step of one mux; the main loop's \<open>deleteFunc\<close> deletes the entry of its address.\<close>

definition mgr_mux :: "nat \<Rightarrow> string \<Rightarrow> muxListener \<Rightarrow> muxListener \<Rightarrow> muxManager \<Rightarrow> muxManager" where
  "mgr_mux i key l l' m =
     m\<lparr>mm_muxes := (mm_muxes m)[i := (key, l')],
       mm_listeners := (if mx_main l = MDelete \<and> mx_main l' \<noteq> MDelete then (mm_listeners m)(key := None) else mm_listeners m)\<rparr>"

inductive mgr_reachable :: "(string \<Rightarrow> string + string) \<Rightarrow> muxManager \<Rightarrow> bool" for canon where
  init: "mgr_reachable canon newMuxManager"
| create: "mgr_reachable canon m \<Longrightarrow> mgr_reachable canon (fst (GetOrCreate canon listen address m))"
| mux: "mgr_reachable canon m \<Longrightarrow> i < length (mm_muxes m) \<Longrightarrow> mm_muxes m ! i = (key, l) \<Longrightarrow> mx_panic l = None \<Longrightarrow>
    mux_inner l l' \<or> mux_outer l l' \<Longrightarrow> mgr_reachable canon (mgr_mux i key l l' m)"

text \<open>A mux in use: its main loop has not come to \<open>deleteFunc\<close>.\<close>

definition in_use :: "muxListener \<Rightarrow> bool" where
  "in_use l \<longleftrightarrow> mx_main l \<notin> {MCloseBase, MCloseChan, MSweep, MDone}"

lemma main_sweep_main: "mx_main (main_sweep l) = MDone"
  by (simp add: main_sweep_def)

lemma inner_in_use: "mux_inner l l' \<Longrightarrow> in_use l' \<longleftrightarrow> in_use l \<and> \<not> (mx_main l = MDelete \<and> mx_main l' \<noteq> MDelete)"
proof (induction rule: mux_inner.induct)
  case (main_subclosed l r k n)
  then show ?case by (auto simp: in_use_def main_subclosed_def split: option.split)
qed (auto simp: in_use_def mux_steps main_sweep_main offer_conn_def)

lemma outer_main: "mux_outer l l' \<Longrightarrow> mx_main l' = mx_main l"
  by (induction rule: mux_outer.induct)
    (auto simp: mux_steps ListenHTTP_def ListenSOCKS_def listen_sub_def listen_new_def close_check_def close_do_def
      accept_closed_def getAndClearAcceptError_def dispatch_byte_def offer_conn_def Let_def split: option.split)

lemma step_in_use:
  "mux_inner l l' \<or> mux_outer l l' \<Longrightarrow> in_use l' \<longleftrightarrow> in_use l \<and> \<not> (mx_main l = MDelete \<and> mx_main l' \<noteq> MDelete)"
  using inner_in_use outer_main by (auto simp: in_use_def)

definition entries_ok :: "muxManager \<Rightarrow> bool" where
  "entries_ok m \<longleftrightarrow> (\<forall>key i. mm_listeners m key = Some i \<longleftrightarrow>
     i < length (mm_muxes m) \<and> fst (mm_muxes m ! i) = key \<and> in_use (snd (mm_muxes m ! i)))"

lemma in_use_new: "in_use newMuxListener"
  by (simp add: in_use_def newMuxListener_def)

lemma entries_append:
  assumes "entries_ok m" "mm_listeners m key = None"
  shows "entries_ok (m\<lparr>mm_listeners := (mm_listeners m)(key \<mapsto> length (mm_muxes m)), mm_muxes := mm_muxes m @ [(key, newMuxListener)]\<rparr>)"
proof -
  have e: "mm_listeners m k = Some j \<longleftrightarrow> j < length (mm_muxes m) \<and> fst (mm_muxes m ! j) = k \<and> in_use (snd (mm_muxes m ! j))" for k j
    using assms(1) by (simp add: entries_ok_def)
  have "j < length (mm_muxes m) \<and> fst (mm_muxes m ! j) = key \<longrightarrow> \<not> in_use (snd (mm_muxes m ! j))" for j
    using e [of key j] assms(2) by auto
  then show ?thesis using e in_use_new by (auto simp: entries_ok_def nth_append less_Suc_eq)
qed

lemma create_entries: "entries_ok m \<Longrightarrow> entries_ok (fst (GetOrCreate canon listen address m))"
  using entries_append by (auto simp: GetOrCreate_def split: sum.split option.split)

lemma mux_entries:
  assumes "entries_ok m" "i < length (mm_muxes m)" "mm_muxes m ! i = (key, l)" "mux_inner l l' \<or> mux_outer l l'"
  shows "entries_ok (mgr_mux i key l l' m)"
proof -
  have e: "mm_listeners m k = Some j \<longleftrightarrow> j < length (mm_muxes m) \<and> fst (mm_muxes m ! j) = k \<and> in_use (snd (mm_muxes m ! j))" for k j
    using assms(1) by (simp add: entries_ok_def)
  have own: "j = i" if "mm_listeners m key = Some j" "in_use l" for j
    using that e [of key i] assms(2,3) by simp
  show ?thesis
    unfolding entries_ok_def
  proof (intro allI)
    fix k j
    consider "j = i" | "j \<noteq> i" "k = key" | "j \<noteq> i" "k \<noteq> key" by blast
    then show "mm_listeners (mgr_mux i key l l' m) k = Some j \<longleftrightarrow> j < length (mm_muxes (mgr_mux i key l l' m)) \<and>
      fst (mm_muxes (mgr_mux i key l l' m) ! j) = k \<and> in_use (snd (mm_muxes (mgr_mux i key l l' m) ! j))"
    proof cases
      case 1 then show ?thesis using e [of k i] assms(2,3) step_in_use [OF assms(4)] by (auto simp: mgr_mux_def)
    next
      case 2
      have "in_use l" if "mx_main l = MDelete" using that by (simp add: in_use_def)
      then show ?thesis using 2 e [of k j] own by (auto simp: mgr_mux_def)
    next
      case 3 then show ?thesis using e [of k j] by (auto simp: mgr_mux_def)
    qed
  qed
qed

text \<open>
  The manager's entries are exactly the muxes in use, so an address has at most one and the deletion
  never takes a younger one's entry; each of them is a mux as above.
\<close>

lemma manager_entries_exact:
  "mgr_reachable canon m \<Longrightarrow> entries_ok m \<and> (\<forall>p \<in> set (mm_muxes m). mux_reachable (snd p))"
proof (induction rule: mgr_reachable.induct)
  case init then show ?case by (simp add: entries_ok_def newMuxManager_def)
next
  case (create m listen address)
  then show ?case using create_entries
    by (auto simp: GetOrCreate_def mux_reachable.init split: sum.split option.split)
next
  case (mux m i key l l')
  then have "mux_reachable l" by (metis nth_mem snd_conv)
  then have "mux_reachable l'" using mux(4,5) by (auto intro: mux_reachable.inner mux_reachable.outer)
  then show ?case using mux mux_entries [of m i key l l'] by (auto simp: mgr_mux_def dest!: subsetD [OF set_update_subset_insert])
qed

section \<open>The wrapped connection\<close>

text \<open>
  \<open>Read\<close> with a buffer of \<open>n\<close> bytes, of which the connection below would fill at most \<open>k\<close>; what is
  still to come below is \<open>cb_rest\<close>.
\<close>

record connWithOneByte =
  cb_b :: byte
  cb_bRead :: bool
  cb_rest :: bytes

definition cb_Read :: "nat \<Rightarrow> nat \<Rightarrow> connWithOneByte \<Rightarrow> bytes \<times> connWithOneByte" where
  "cb_Read n k c =
     (if cb_bRead c then (take (min n k) (cb_rest c), c\<lparr>cb_rest := drop (min n k) (cb_rest c)\<rparr>)
      else if n = 0 then ([], c)
      else ([cb_b c], c\<lparr>cb_bRead := True\<rparr>))"

fun cb_reads :: "(nat \<times> nat) list \<Rightarrow> connWithOneByte \<Rightarrow> bytes \<times> connWithOneByte" where
  "cb_reads [] c = ([], c)"
| "cb_reads ((n, k) # rs) c =
     (let (got, c) = cb_Read n k c; (more, c) = cb_reads rs c in (got @ more, c))"

definition cb_pending :: "connWithOneByte \<Rightarrow> bytes" where
  "cb_pending c = (if cb_bRead c then [] else [cb_b c]) @ cb_rest c"

text \<open>Whatever the reads, the reader sees the connection from its first byte on.\<close>

lemma cb_transparent: "fst (cb_reads rs c) @ cb_pending (snd (cb_reads rs c)) = cb_pending c"
proof (induction rs arbitrary: c)
  case (Cons r rs)
  obtain n k where r: "r = (n, k)" by fastforce
  obtain got d where d: "cb_Read n k c = (got, d)" by fastforce
  then have "got @ cb_pending d = cb_pending c" by (auto simp: cb_Read_def cb_pending_def split: if_splits)
  then show ?case using Cons.IH [of d] by (simp add: r d split_beta)
qed simp

end
