(* ===== verification/Spec2Isabelle.thy ===== *)
theory Spec2Isabelle
  imports Acl Server_Auth Server_Tcp Server_Life Preauth Client_Conn Client_Reconnect Udp_Exchange Gecko
    Udp_Hop Traffic_Stats Authenticators Direct_Outbound Sniff Proxy_Outbounds Speedtest
    Realm_Engine Realm_Addr Proxymux
begin

text \<open>
  A verification development for Hysteria 2, a proxy that carries TCP streams and UDP datagrams over
  an authenticated QUIC connection.

  \<^bold>\<open>The program.\<close>  \<open>core\<close> is the protocol: a client (\<open>core/client\<close>) connects and authenticates by an HTTP/3
  request, after which each proxied TCP connection is a QUIC stream that starts with a request and a
  response, and each UDP session is a number in the messages sent as QUIC datagrams, cut into
  fragments where they are too long.  The server (\<open>core/server\<close>) accepts connections, asks an
  authenticator, and then, for every stream and session, may ask a request hook to look at the first
  bytes, dials through an outbound and relays, charging a traffic logger for what passes.  The
  sending rate is the Brutal or the BBR controller's (\<open>core/internal/congestion\<close>).  \<open>extras\<close> has what
  a server or client plugs in: authenticators, the rule engine and the outbounds behind it with their
  resolvers, the sniffing hook, the traffic logger, packet obfuscation, port hopping and the hole
  punching of realms.  \<open>app\<close> is the command-line program around it.

  \<^bold>\<open>Theories and code.\<close>  Definitions keep the names of the code and stand in its order; a record is
  a struct, with a prefix to its fields, and a function's state is an argument and part of its result.

    \<^item> \<open>Hy_Prelude\<close>, \<open>Go_Strings\<close>, \<open>Go_Net\<close>, \<open>Go_Float\<close>: machine integers, slices with their panics, readers; the
      parts of Go's \<open>strings\<close>, \<open>strconv\<close>, \<open>net\<close>, \<open>netip\<close> and \<open>float64\<close> that the code uses.
    \<^item> \<open>Wire_Protocol\<close> (\<open>core/internal/protocol/proxy.go\<close>, \<open>padding.go\<close>), \<open>Http_Auth\<close> (\<open>http.go\<close>), \<open>Udp_Frag\<close>
      (\<open>core/internal/frag\<close>): messages and their codecs; round trips, bounds, where they panic.
    \<^item> \<open>Traffic\<close>, \<open>Server_Config\<close>, \<open>Client_Config\<close> (\<open>core/server/config.go\<close>, \<open>core/client/config.go\<close>): the
      interfaces of the embedder as records of functions, the configurations, defaults and checks.
    \<^item> \<open>Server_Auth\<close>, \<open>Server_Tcp\<close>, \<open>Server_Io\<close>, \<open>Server_Life\<close> (\<open>core/server/server.go\<close>), \<open>Server_Udp\<close> (\<open>udp.go\<close>),
      \<open>Copy\<close> (\<open>copy.go\<close>), \<open>Preauth\<close> (\<open>preauth_yue.go\<close>): the server.  The authentication gate refines a
      two-state specification; TCP requests are functions from streams to effects; the relay, the
      UDP session table, the server's life cycle and the receive cap are step relations.
    \<^item> \<open>Client_Conn\<close>, \<open>Client_Udp\<close>, \<open>Client_Reconnect\<close> (\<open>core/client\<close>); \<open>Udp_Exchange\<close> composes both ends of
      the UDP path, \<open>Server_Tcp\<close> and \<open>Sniff\<close> both ends of the TCP path.
    \<^item> \<open>Ring_Buffer\<close>, \<open>Packet_Queue\<close>, \<open>Windowed_Filter\<close>, \<open>Bandwidth_Sampler\<close>, \<open>Bbr_Sender\<close>, \<open>Pacer\<close>, \<open>Brutal\<close>,
      \<open>Congestion\<close> (\<open>core/internal/congestion\<close>): congestion control, bottom up; the queues refine lists.
    \<^item> \<open>Acl_Match\<close>, \<open>Acl\<close> (\<open>extras/outbounds/acl\<close>, \<open>acl.go\<close>): matchers, the rule language and the engine,
      which refines first-match over the rules.  \<open>Outbound_Addr\<close>, \<open>Resolvers\<close>, \<open>Direct_Outbound\<close>,
      \<open>Proxy_Outbounds\<close>, \<open>Speedtest\<close> (\<open>extras/outbounds\<close>): addresses, DNS and the outbounds.
    \<^item> \<open>Sniff_Quic\<close>, \<open>Sniff\<close> (\<open>extras/sniff\<close>), \<open>Authenticators\<close> (\<open>extras/auth\<close>), \<open>Traffic_Stats\<close>
      (\<open>extras/trafficlogger\<close>), \<open>Obfs\<close>, \<open>Gecko\<close> (\<open>extras/obfs\<close>), \<open>Port_Union\<close> (\<open>extras/utils\<close>), \<open>Udp_Hop\<close>
      (\<open>extras/transport/udphop\<close>).
    \<^item> \<open>Realm_Punch\<close>, \<open>Realm_Candidates\<close>, \<open>Realm_Stun\<close>, \<open>Realm_Engine\<close>, \<open>Realm_Addr\<close> (\<open>extras/realm\<close>): punch
      packets, candidate addresses, discovery, the punching of client and server, realm addresses.
    \<^item> \<open>Proxymux\<close> (\<open>app/internal/proxymux\<close>): the listener that the SOCKS5 and HTTP inbounds share, as the
      interleavings of its goroutines, and the manager of the listeners.

  \<^bold>\<open>Conventions.\<close>  Machine words are \<open>word\<close>s, or integers with the wrap-around written out (\<open>i64\<close>, \<open>u64\<close>).
  A Go panic is \<open>None\<close> where one can happen.  Errors are the left of a sum, an option, or a datatype.
  Pointers that are compared are numbers.  Channels are lists, with their capacity where it matters.
  Concurrent code is a step relation, or a function of the step to take: a step is what is done under
  one lock, or one access where there is none, and runs are all interleavings.  What the code asks of
  the world (sockets, clocks, random draws, the order of a map's iteration, how much a read returns)
  is an argument of the definitions, so that a theorem holds for every answer; an environment record
  collects the answers for one call.

  \<^bold>\<open>Parameters.\<close>  Code that is not in the repository is a parameter: quic-go's variable-length integers
  (the locale \<open>quicvarint\<close>, whose laws are those of RFC 9000, interpreted by an implementation of
  them) and its connection (handled as answers), the constants of its congestion interface
  (\<open>quic_consts\<close>), AES, HKDF, BLAKE2b and SHA-256, DNS, STUN, SOCKS5 and HTTP coding, the LRU cache.
  \<open>float64\<close> is an abstract rounding of rationals (\<open>Go_Float\<close>), monotone and exact on integers that
  fit.  Request hooks are taken not to write to the packet they are shown; the sniffer does
  (\<open>Sniff_Quic.UnProtect_in_place\<close>), which the model of the server's sessions therefore leaves out.

  \<^bold>\<open>Interfaces.\<close>  Where a part relies on another, the contract is a locale that the provider's theory
  interprets on its own definitions: variable-length integers, queues, filters, caches, obfuscators,
  transparent hooks and others; the properties use the interpreted facts.

  \<^bold>\<open>Lemmas.\<close>  A theory's lemmas come in groups: frame and totality facts of its operations, its
  invariant with preservation by each operation or step, then the property.  The numbered
  properties C1 and on are the development's results; a \<open>_witness\<close> applies the one before it to a
  concrete input.  Together they show: what is sent is what arrives (messages, fragments, relays,
  obfuscation, punch packets), that nothing passes before authentication or past the rules, that
  what is charged is what was carried, that tables agree with the calls in progress and leave
  nothing behind, and where the code panics or loses something.

  \<^bold>\<open>Fuel and bounds.\<close>  The few loops without a structural argument take fuel with a proof that the
  given amount is enough (the crypto frames of a packet: its length; DNS aliases: the code's own
  bound); loops over input are recursions over it, and a loop that is still waiting for input
  returns \<open>None\<close>.  Buffers, tables and queues have the code's sizes.

  \<^bold>\<open>Not modelled.\<close>  The commands of \<open>app/cmd\<close>, which assemble these parts from a configuration file;
  the inbounds, which are third-party protocol code (socks5, http) or system calls (tun, tproxy,
  redirect) around the calls of the client, and its plain forwarders; firewall rules, packet mimicry and socket
  options; certificates, updates and files; the copy of \<open>net/url\<close>; the masquerade servers and the
  rendezvous client, which are calls of \<open>net/http\<close>; the platform's dialers for TCP fast open and device
  binding; generated protobuf code and mocks.  Logging and debug output have no part in the models
  except where an event logger is called, nor have deadlines except for what they end.
\<close>

end
